(* ===== verification/Frost_Prelude.thy ===== *)
theory Frost_Prelude
  imports Main "HOL-Library.Word" "HOL-Library.Multiset" "HOL-Library.Sublist"
begin

text \<open>
  Shared vocabulary of the development: the Go types that every component uses
  (\<open>uint64\<close> transaction numbers, results that carry an error), the collections of
  simplification rules that the component theories fill, and the generic facts on
  words, lists, options and relations they rely on.
\<close>

section \<open>Go types\<close>

text \<open>
  A transaction id is a Go \<open>uint64\<close>: addition wraps around at \<open>2 ^ 64\<close>. The
  value zero never names a transaction; the pool uses it to recognise its tail node.
\<close>

type_synonym uint64 = "64 word"

text \<open>Go's \<open>int64\<close>, read with \<open>sint\<close> where it is compared as a signed number.\<close>

type_synonym int64 = "64 word"

text \<open>A Go function that returns a value and an error is a sum: \<open>Inl\<close> is the error.\<close>

type_synonym ('e, 'a) result = "'e + 'a"

definition bind_result :: "('e, 'a) result \<Rightarrow> ('a \<Rightarrow> ('e, 'b) result) \<Rightarrow> ('e, 'b) result" where
  "bind_result r f = (case r of Inl e \<Rightarrow> Inl e | Inr x \<Rightarrow> f x)"

lemma bind_result_simps [simp]:
  "bind_result (Inl e) f = Inl e"
  "bind_result (Inr x) f = f x"
  by (simp_all add: bind_result_def)

lemma bind_result_eq_Inr [simp]:
  "bind_result r f = Inr y \<longleftrightarrow> (\<exists>x. r = Inr x \<and> f x = Inr y)"
  by (cases r) simp_all

section \<open>Collections of rules\<close>

text \<open>
  \<open>frame_simps\<close> collects, per component, what its operations leave unchanged;
  \<open>inv_intros\<close> that its operations keep its invariant.
\<close>

named_theorems frame_simps \<open>fields an operation leaves unchanged\<close>
named_theorems inv_intros \<open>operations preserve the component's invariant\<close>

section \<open>Words\<close>

lemma word_le_Suc_cases:
  fixes t w :: "'a::len word"
  shows "t \<le> w + 1 \<Longrightarrow> t \<le> w \<or> t = w + 1"
  by uint_arith

lemma word_less_Suc:
  fixes w :: "'a::len word"
  shows "w + 1 \<noteq> 0 \<Longrightarrow> w < w + 1"
  by uint_arith

section \<open>Comparison functions\<close>

text \<open>
  The contract of a comparison with a Go \<open>int\<close> result on the values in a carrier: the
  sign is antisymmetric and the order transitive.
\<close>

locale cmp_order =
  fixes cmp :: "'a \<Rightarrow> 'a \<Rightarrow> int" and ok :: "'a \<Rightarrow> bool"
  assumes cmp_flip: "ok a \<Longrightarrow> ok b \<Longrightarrow> cmp a b \<le> 0 \<longleftrightarrow> 0 \<le> cmp b a"
    and cmp_trans: "ok a \<Longrightarrow> ok b \<Longrightarrow> ok c \<Longrightarrow> cmp a b \<le> 0 \<Longrightarrow> cmp b c \<le> 0 \<Longrightarrow> cmp a c \<le> 0"
begin

lemma cmp_refl: "ok a \<Longrightarrow> cmp a a = 0"
  using cmp_flip [of a a] by linarith

lemma cmp_less_flip: "ok a \<Longrightarrow> ok b \<Longrightarrow> cmp a b < 0 \<longleftrightarrow> 0 < cmp b a"
  using cmp_flip [of b a] by linarith

lemma cmp_total: "ok a \<Longrightarrow> ok b \<Longrightarrow> cmp a b \<le> 0 \<or> cmp b a \<le> 0"
  using cmp_flip [of a b] by linarith

lemma cmp_less_trans: "ok a \<Longrightarrow> ok b \<Longrightarrow> ok c \<Longrightarrow> cmp a b < 0 \<Longrightarrow> cmp b c \<le> 0 \<Longrightarrow> cmp a c < 0"
  using cmp_trans [of b c a] cmp_flip [of c a] cmp_flip [of a b] cmp_flip [of b c] cmp_less_flip [of a b]
    cmp_less_flip [of a c] by (metis less_le_not_le linorder_not_le)

lemma cmp_le_less_trans: "ok a \<Longrightarrow> ok b \<Longrightarrow> ok c \<Longrightarrow> cmp a b \<le> 0 \<Longrightarrow> cmp b c < 0 \<Longrightarrow> cmp a c < 0"
  using cmp_trans [of c a b] cmp_flip [of c a] cmp_less_flip [of a c] cmp_less_flip [of b c]
  by (metis less_le_not_le linorder_not_le)

end

text \<open>The three-way comparison of Go's \<open>cmp.Compare\<close> and \<open>bytes.Compare\<close> on an ordered type.\<close>

definition cmp3 :: "'a::linorder \<Rightarrow> 'a \<Rightarrow> int" where
  "cmp3 a b = (if a < b then - 1 else if a = b then 0 else 1)"

lemma cmp3_iff [simp]:
  "cmp3 a b \<le> 0 \<longleftrightarrow> a \<le> b"
  "0 \<le> cmp3 a b \<longleftrightarrow> b \<le> a"
  "cmp3 a b = 0 \<longleftrightarrow> a = b"
  "cmp3 a b < 0 \<longleftrightarrow> a < b"
  "0 < cmp3 a b \<longleftrightarrow> b < a"
  by (auto simp: cmp3_def)

interpretation ordered: cmp_order "cmp3 :: 'a::linorder \<Rightarrow> 'a \<Rightarrow> int" "\<lambda>_. True"
  by unfold_locales auto

section \<open>Lexicographic comparison\<close>

text \<open>The first non-zero result decides.\<close>

fun lex_cmp :: "int list \<Rightarrow> int" where
  "lex_cmp [] = 0"
| "lex_cmp (c # cs) = (if c \<noteq> 0 then c else lex_cmp cs)"

lemma lex_cmp_filter:
  "(\<And>x. x \<in> set xs \<Longrightarrow> \<not> P x \<Longrightarrow> f x = 0) \<Longrightarrow> lex_cmp (map f (filter P xs)) = lex_cmp (map f xs)"
  by (induction xs) auto

lemma lex_cmp_order:
  assumes "\<And>k. k \<in> set ks \<Longrightarrow> cmp_order (f k) ok"
  shows "cmp_order (\<lambda>a b. lex_cmp (map (\<lambda>k. f k a b) ks)) ok"
  using assms
proof (induction ks)
  case Nil
  show ?case by unfold_locales simp_all
next
  case (Cons k ks)
  have k: "cmp_order (f k) ok" and r: "cmp_order (\<lambda>a b. lex_cmp (map (\<lambda>k. f k a b) ks)) ok"
    using Cons by simp_all
  show ?case
  proof
    fix a b assume o: "ok a" "ok b"
    have "f k a b = 0 \<longleftrightarrow> f k b a = 0" "f k a b \<le> 0 \<longleftrightarrow> 0 \<le> f k b a"
      using cmp_order.cmp_flip [OF k o] cmp_order.cmp_flip [OF k o(2,1)] by linarith+
    then show "lex_cmp (map (\<lambda>k. f k a b) (k # ks)) \<le> 0 \<longleftrightarrow> 0 \<le> lex_cmp (map (\<lambda>k. f k b a) (k # ks))"
      using cmp_order.cmp_flip [OF r o] by simp
  next
    fix a b c
    assume o: "ok a" "ok b" "ok c" and le: "lex_cmp (map (\<lambda>k. f k a b) (k # ks)) \<le> 0"
      "lex_cmp (map (\<lambda>k. f k b c) (k # ks)) \<le> 0"
    have fk: "f k a b \<le> 0" "f k b c \<le> 0" using le by (simp_all split: if_splits)
    then have ac: "f k a c \<le> 0" by (rule cmp_order.cmp_trans [OF k o])
    show "lex_cmp (map (\<lambda>k. f k a c) (k # ks)) \<le> 0"
    proof (cases "f k a c = 0")
      case True
      then have "f k a b = 0" "f k b c = 0"
        using fk cmp_order.cmp_less_trans [OF k o] cmp_order.cmp_le_less_trans [OF k o] by force+
      then show ?thesis using le True cmp_order.cmp_trans [OF r o] by simp
    qed (use ac in simp)
  qed
qed

end
