(* ===== verification/Tx_Pool.thy ===== *)
theory Tx_Pool
  imports Frost_Prelude
begin

text \<open>
  The transaction machinery of \<open>tx_list.go\<close> and of \<open>DB.begin\<close> in \<open>db.go\<close>: the
  lock-free sorted list of finished transactions, the writers that insert into it and
  the cleaner goroutine that removes a prefix of it and raises the high watermark.

  The list is an explicit heap of nodes. Every atomic load, store and
  compare-and-swap of the source is one step of one goroutine, and the goroutines
  interleave freely: a writer's program counter names the next atomic operation it
  performs, with the values of the local variables at that point. Transaction
  numbers of nodes are written once, before the node is shared, so reading one is
  part of the step that precedes it.
\<close>

section \<open>State\<close>

type_synonym addr = nat

text \<open>\<open>TxNode\<close>: the pointers are \<open>None\<close> for Go's \<open>nil\<close>.\<close>

record TxNode =
  nd_next :: "addr option"
  nd_original :: "addr option"
  nd_tx :: uint64

text \<open>
  Program points of a writer: \<open>DB.begin\<close> and the function it returns, then
  \<open>TxPool.Insert\<close> with its closure \<open>tryInsert\<close>, the helpers \<open>isMarked\<close> and
  \<open>getUnmarked\<close> that load \<open>next\<close> and may spin on \<open>original\<close>, and
  \<open>TxPool.insert\<close>. The arguments are transaction ids or the local pointers
  \<open>n\<close>, \<open>prev\<close>, \<open>node\<close> and \<open>next\<close>.
\<close>

datatype writer_pc =
    W_Idle
  | W_BeginLoad uint64                      \<comment> \<open>transaction id taken, watermark not yet read\<close>
  | W_Open uint64                           \<comment> \<open>the transaction is running\<close>
  | W_CommitLoad uint64                     \<comment> \<open>commit called, about to load the watermark\<close>
  | W_CommitStore uint64                    \<comment> \<open>next consecutive one, about to store the watermark\<close>
  | W_Insert uint64                         \<comment> \<open>about to allocate the pool node\<close>
  | W_TryInsert addr                        \<comment> \<open>about to load head.next\<close>
  | W_Loop addr addr addr                   \<comment> \<open>loop body, isMarked about to load node.next\<close>
  | W_IsMarkedSpin addr addr addr           \<comment> \<open>isMarked about to load node.original\<close>
  | W_Unlink addr addr addr addr            \<comment> \<open>about to swing prev.next over a deleted node\<close>
  | W_GetUnmarked addr addr                 \<comment> \<open>getUnmarked about to load node.next\<close>
  | W_GetUnmarkedSpin addr addr             \<comment> \<open>getUnmarked about to load node.original\<close>
  | W_InsertStore addr addr addr            \<comment> \<open>insert about to store node.next\<close>
  | W_InsertCAS addr addr addr              \<comment> \<open>insert about to swing prev.next to the node\<close>
  | W_Notify addr                           \<comment> \<open>insert about to notify the cleaner\<close>

text \<open>
  Program points of the cleaner goroutine with the loops of \<open>delete\<close> inlined;
  \<open>C_Panic\<close> is the nil dereference Go would raise on \<open>node.tx\<close>.
\<close>

datatype cleaner_pc =
    C_Wait
  | C_Stopped
  | C_Panic
  | C_Delete                                \<comment> \<open>delete about to load head.next\<close>
  | C_DeleteFunc addr                       \<comment> \<open>deleteFunc about to load the watermark\<close>
  | C_StoreMark addr                        \<comment> \<open>deleteFunc about to store the watermark\<close>
  | C_MarkLoad addr                         \<comment> \<open>about to load node.next\<close>
  | C_MarkCAS addr addr                     \<comment> \<open>about to mark the node\<close>
  | C_MarkOriginal addr addr                \<comment> \<open>about to store node.original\<close>
  | C_GetUnmarked addr                      \<comment> \<open>getUnmarked about to load node.next\<close>
  | C_GetUnmarkedSpin addr                  \<comment> \<open>getUnmarked about to load node.original\<close>

text \<open>
  The shared state of a database's transaction machinery: the node heap with its
  allocation frontier, the pool's \<open>head\<close> and \<open>tail\<close>, the buffered channel
  \<open>drain\<close> (capacity one, so a flag), the cancelled context, the counters \<open>tx\<close>
  and \<open>highWatermark\<close> of the \<open>DB\<close>, and the goroutines. \<open>finished\<close> records
  which transactions have called their commit function; no step reads it.
\<close>

record txdb =
  heap :: "addr \<Rightarrow> TxNode"
  fresh :: addr
  pool_head :: addr
  pool_tail :: addr
  drain :: bool
  cancelled :: bool
  db_tx :: uint64
  highWatermark :: uint64
  writers :: "nat \<Rightarrow> writer_pc"
  cleaner_at :: cleaner_pc
  finished :: "uint64 set"

section \<open>Atomic operations on nodes\<close>

definition next_of :: "txdb \<Rightarrow> addr \<Rightarrow> addr option" where
  "next_of s a = nd_next (heap s a)"

definition original_of :: "txdb \<Rightarrow> addr \<Rightarrow> addr option" where
  "original_of s a = nd_original (heap s a)"

definition tx_of :: "txdb \<Rightarrow> addr \<Rightarrow> uint64" where
  "tx_of s a = nd_tx (heap s a)"

definition store_next :: "addr \<Rightarrow> addr option \<Rightarrow> txdb \<Rightarrow> txdb" where
  "store_next a p s = s\<lparr>heap := (heap s)(a := (heap s a)\<lparr>nd_next := p\<rparr>)\<rparr>"

definition store_original :: "addr \<Rightarrow> addr option \<Rightarrow> txdb \<Rightarrow> txdb" where
  "store_original a p s = s\<lparr>heap := (heap s)(a := (heap s a)\<lparr>nd_original := p\<rparr>)\<rparr>"

definition new_node :: "addr option \<Rightarrow> uint64 \<Rightarrow> txdb \<Rightarrow> txdb" where
  "new_node p t s = s\<lparr>heap := (heap s)(fresh s := \<lparr>nd_next = p, nd_original = None, nd_tx = t\<rparr>),
     fresh := Suc (fresh s)\<rparr>"

definition goto :: "nat \<Rightarrow> writer_pc \<Rightarrow> txdb \<Rightarrow> txdb" where
  "goto i p s = s\<lparr>writers := (writers s)(i := p)\<rparr>"

definition cleaner_goto :: "cleaner_pc \<Rightarrow> txdb \<Rightarrow> txdb" where
  "cleaner_goto p s = s\<lparr>cleaner_at := p\<rparr>"

section \<open>Construction\<close>

text \<open>
  \<open>NewTxPool\<close> on a database whose counters were set by \<open>resetToTxn\<close>: the tail is
  allocated first, then the head that points to it; the cleaner goroutine starts.
\<close>

definition NewTxPool :: "uint64 \<Rightarrow> uint64 \<Rightarrow> txdb" where
  "NewTxPool tx watermark =
     \<lparr>heap = (\<lambda>_. \<lparr>nd_next = None, nd_original = None, nd_tx = 0\<rparr>)
        (1 := \<lparr>nd_next = Some 0, nd_original = None, nd_tx = 0\<rparr>),
      fresh = 2, pool_head = 1, pool_tail = 0, drain = False, cancelled = False,
      db_tx = tx, highWatermark = watermark, writers = (\<lambda>_. W_Idle),
      cleaner_at = C_Wait, finished = {}\<rparr>"

text \<open>\<open>resetToTxn\<close> without a WAL: both counters move to the given transaction.\<close>

definition resetToTxn :: "uint64 \<Rightarrow> txdb \<Rightarrow> txdb" where
  "resetToTxn txn s = s\<lparr>db_tx := txn, highWatermark := txn\<rparr>"

section \<open>Writers\<close>

text \<open>\<open>begin\<close>: take the next transaction id, then load the watermark.\<close>

definition begin_step :: "nat \<Rightarrow> txdb \<Rightarrow> txdb" where
  "begin_step i s =
     (let txn = db_tx s + 1
      in goto i (W_BeginLoad txn) (s\<lparr>db_tx := txn\<rparr>))"

definition begin_load :: "nat \<Rightarrow> uint64 \<Rightarrow> txdb \<Rightarrow> txdb" where
  "begin_load i txn s = goto i (W_Open txn) s"

text \<open>The function \<open>begin\<close> returns: raise the watermark if the transaction is next, then insert.\<close>

definition commit_call :: "nat \<Rightarrow> uint64 \<Rightarrow> txdb \<Rightarrow> txdb" where
  "commit_call i txn s = goto i (W_CommitLoad txn) (s\<lparr>finished := insert txn (finished s)\<rparr>)"

definition commit_load :: "nat \<Rightarrow> uint64 \<Rightarrow> txdb \<Rightarrow> txdb" where
  "commit_load i txn s =
     goto i (if highWatermark s + 1 = txn then W_CommitStore txn else W_Insert txn) s"

definition commit_store :: "nat \<Rightarrow> uint64 \<Rightarrow> txdb \<Rightarrow> txdb" where
  "commit_store i txn s = goto i (W_Insert txn) (s\<lparr>highWatermark := txn\<rparr>)"

text \<open>\<open>Insert\<close>: allocate the node, then run \<open>tryInsert\<close> until it succeeds.\<close>

definition Insert_alloc :: "nat \<Rightarrow> uint64 \<Rightarrow> txdb \<Rightarrow> txdb" where
  "Insert_alloc i txn s = goto i (W_TryInsert (fresh s)) (new_node None txn s)"

text \<open>
  One arrival at the loop condition with the pointer \<open>node\<close>: \<open>nil\<close> leaves the loop and
  retries; transaction zero is the end of the list.
\<close>

definition loop_head :: "nat \<Rightarrow> addr \<Rightarrow> addr \<Rightarrow> addr option \<Rightarrow> txdb \<Rightarrow> txdb" where
  "loop_head i n prev node s =
     (case node of
        None \<Rightarrow> goto i (W_TryInsert n) s
      | Some a \<Rightarrow>
          if tx_of s a = 0 then goto i (W_InsertStore n prev a) s
          else goto i (W_Loop n prev a) s)"

definition tryInsert_start :: "nat \<Rightarrow> addr \<Rightarrow> txdb \<Rightarrow> txdb" where
  "tryInsert_start i n s = loop_head i n (pool_head s) (next_of s (pool_head s)) s"

text \<open>
  The loop body after the load in \<open>isMarked\<close>: a marked node has a nil \<open>next\<close>; an
  unmarked one either is the place to insert before or becomes \<open>prev\<close>.
\<close>

definition tryInsert_body :: "nat \<Rightarrow> addr \<Rightarrow> addr \<Rightarrow> addr \<Rightarrow> txdb \<Rightarrow> txdb" where
  "tryInsert_body i n prev node s =
     (case next_of s node of
        None \<Rightarrow> goto i (W_IsMarkedSpin n prev node) s
      | Some _ \<Rightarrow>
          if tx_of s n < tx_of s node then goto i (W_InsertStore n prev node) s
          else goto i (W_GetUnmarked n node) s)"

definition isMarked_spin :: "nat \<Rightarrow> addr \<Rightarrow> addr \<Rightarrow> addr \<Rightarrow> txdb \<Rightarrow> txdb" where
  "isMarked_spin i n prev node s =
     (case original_of s node of
        None \<Rightarrow> s
      | Some og \<Rightarrow> goto i (W_Unlink n prev node og) s)"

text \<open>\<open>tryInsert\<close> removes the deleted node it met and returns false: the insertion restarts.\<close>

definition tryInsert_unlink :: "nat \<Rightarrow> addr \<Rightarrow> addr \<Rightarrow> addr \<Rightarrow> addr \<Rightarrow> txdb \<Rightarrow> txdb" where
  "tryInsert_unlink i n prev node og s =
     goto i (W_TryInsert n)
       (if next_of s prev = Some node then store_next prev (Some og) s else s)"

definition getUnmarked_load :: "nat \<Rightarrow> addr \<Rightarrow> addr \<Rightarrow> txdb \<Rightarrow> txdb" where
  "getUnmarked_load i n node s =
     (case next_of s node of
        Some nx \<Rightarrow> loop_head i n node (Some nx) s
      | None \<Rightarrow> goto i (W_GetUnmarkedSpin n node) s)"

definition getUnmarked_spin :: "nat \<Rightarrow> addr \<Rightarrow> addr \<Rightarrow> txdb \<Rightarrow> txdb" where
  "getUnmarked_spin i n node s =
     (case original_of s node of
        None \<Rightarrow> s
      | Some og \<Rightarrow> loop_head i n node (Some og) s)"

text \<open>\<open>insert\<close>: point the node at its successor, swing the predecessor, notify the cleaner.\<close>

definition insert_store :: "nat \<Rightarrow> addr \<Rightarrow> addr \<Rightarrow> addr \<Rightarrow> txdb \<Rightarrow> txdb" where
  "insert_store i n prev nx s = goto i (W_InsertCAS n prev nx) (store_next n (Some nx) s)"

definition insert_cas :: "nat \<Rightarrow> addr \<Rightarrow> addr \<Rightarrow> addr \<Rightarrow> txdb \<Rightarrow> txdb" where
  "insert_cas i n prev nx s =
     (if next_of s prev = Some nx then goto i (W_Notify n) (store_next prev (Some n) s)
      else goto i (W_TryInsert n) s)"

definition insert_notify :: "nat \<Rightarrow> txdb \<Rightarrow> txdb" where
  "insert_notify i s = goto i W_Idle (s\<lparr>drain := True\<rparr>)"

text \<open>One atomic step of writer \<open>i\<close>.\<close>

definition writer_step :: "nat \<Rightarrow> txdb \<Rightarrow> txdb" where
  "writer_step i s =
     (case writers s i of
        W_Idle \<Rightarrow> begin_step i s
      | W_BeginLoad txn \<Rightarrow> begin_load i txn s
      | W_Open txn \<Rightarrow> commit_call i txn s
      | W_CommitLoad txn \<Rightarrow> commit_load i txn s
      | W_CommitStore txn \<Rightarrow> commit_store i txn s
      | W_Insert txn \<Rightarrow> Insert_alloc i txn s
      | W_TryInsert n \<Rightarrow> tryInsert_start i n s
      | W_Loop n prev node \<Rightarrow> tryInsert_body i n prev node s
      | W_IsMarkedSpin n prev node \<Rightarrow> isMarked_spin i n prev node s
      | W_Unlink n prev node og \<Rightarrow> tryInsert_unlink i n prev node og s
      | W_GetUnmarked n node \<Rightarrow> getUnmarked_load i n node s
      | W_GetUnmarkedSpin n node \<Rightarrow> getUnmarked_spin i n node s
      | W_InsertStore n prev nx \<Rightarrow> insert_store i n prev nx s
      | W_InsertCAS n prev nx \<Rightarrow> insert_cas i n prev nx s
      | W_Notify n \<Rightarrow> insert_notify i s)"

section \<open>Cleaner\<close>

text \<open>Loop condition of \<open>delete\<close>: a nil pointer would panic, transaction zero ends the sweep.\<close>

definition delete_head :: "addr option \<Rightarrow> txdb \<Rightarrow> txdb" where
  "delete_head node s =
     (case node of
        None \<Rightarrow> cleaner_goto C_Panic s
      | Some a \<Rightarrow> cleaner_goto (if tx_of s a = 0 then C_Wait else C_DeleteFunc a) s)"

text \<open>The \<open>deleteFunc\<close> of \<open>cleaner\<close> after its load of the watermark.\<close>

definition deleteFunc_load :: "addr \<Rightarrow> txdb \<Rightarrow> txdb" where
  "deleteFunc_load a s =
     cleaner_goto
       (if highWatermark s + 1 = tx_of s a then C_StoreMark a
        else if tx_of s a \<le> highWatermark s then C_MarkLoad a
        else C_Wait) s"

definition deleteFunc_store :: "addr \<Rightarrow> txdb \<Rightarrow> txdb" where
  "deleteFunc_store a s = cleaner_goto (C_MarkLoad a) (s\<lparr>highWatermark := tx_of s a\<rparr>)"

definition mark_load :: "addr \<Rightarrow> txdb \<Rightarrow> txdb" where
  "mark_load a s =
     cleaner_goto (case next_of s a of None \<Rightarrow> C_GetUnmarked a | Some nx \<Rightarrow> C_MarkCAS a nx) s"

text \<open>\<open>getMarked\<close> is nil: the mark is a compare-and-swap of \<open>next\<close> to nil.\<close>

definition mark_cas :: "addr \<Rightarrow> addr \<Rightarrow> txdb \<Rightarrow> txdb" where
  "mark_cas a nx s =
     (if next_of s a = Some nx then cleaner_goto (C_MarkOriginal a nx) (store_next a None s)
      else cleaner_goto (C_MarkLoad a) s)"

definition mark_original :: "addr \<Rightarrow> addr \<Rightarrow> txdb \<Rightarrow> txdb" where
  "mark_original a nx s = cleaner_goto (C_GetUnmarked a) (store_original a (Some nx) s)"

definition delete_getUnmarked :: "addr \<Rightarrow> txdb \<Rightarrow> txdb" where
  "delete_getUnmarked a s =
     (case next_of s a of
        Some nx \<Rightarrow> delete_head (Some nx) s
      | None \<Rightarrow> cleaner_goto (C_GetUnmarkedSpin a) s)"

definition delete_getUnmarked_spin :: "addr \<Rightarrow> txdb \<Rightarrow> txdb" where
  "delete_getUnmarked_spin a s =
     (case original_of s a of
        None \<Rightarrow> s
      | Some og \<Rightarrow> delete_head (Some og) s)"

text \<open>
  One atomic step of the cleaner goroutine. In \<open>C_Wait\<close> the \<open>select\<close> may take the
  cancelled context or the drain channel; the flag \<open>stop\<close> resolves the choice.
\<close>

definition cleaner_step :: "bool \<Rightarrow> txdb \<Rightarrow> txdb" where
  "cleaner_step stop s =
     (case cleaner_at s of
        C_Wait \<Rightarrow>
          if stop \<and> cancelled s then cleaner_goto C_Stopped s
          else if drain s then cleaner_goto C_Delete (s\<lparr>drain := False\<rparr>)
          else s
      | C_Stopped \<Rightarrow> s
      | C_Panic \<Rightarrow> s
      | C_Delete \<Rightarrow> delete_head (next_of s (pool_head s)) s
      | C_DeleteFunc a \<Rightarrow> deleteFunc_load a s
      | C_StoreMark a \<Rightarrow> deleteFunc_store a s
      | C_MarkLoad a \<Rightarrow> mark_load a s
      | C_MarkCAS a nx \<Rightarrow> mark_cas a nx s
      | C_MarkOriginal a nx \<Rightarrow> mark_original a nx s
      | C_GetUnmarked a \<Rightarrow> delete_getUnmarked a s
      | C_GetUnmarkedSpin a \<Rightarrow> delete_getUnmarked_spin a s)"

definition Stop :: "txdb \<Rightarrow> txdb" where
  "Stop s = s\<lparr>cancelled := True\<rparr>"

section \<open>Executions\<close>

text \<open>Any goroutine may take the next step.\<close>

inductive tx_step :: "txdb \<Rightarrow> txdb \<Rightarrow> bool" where
  writer: "tx_step s (writer_step i s)"
| cleaner: "tx_step s (cleaner_step stop s)"
| stop: "tx_step s (Stop s)"

text \<open>
  States reachable from a database whose counters both stand at \<open>t0\<close>, which is what
  opening a database leaves. The execution has not started so many transactions
  that the 64-bit counter wrapped around: every state on the way has \<open>t0 \<le> db_tx\<close>
  and a transaction only begins when the counter is below its maximum.
\<close>

inductive tx_reachable :: "uint64 \<Rightarrow> txdb \<Rightarrow> bool" for t0 :: uint64 where
  init: "tx_reachable t0 (resetToTxn t0 (NewTxPool 0 0))"
| step: "tx_reachable t0 s \<Longrightarrow> tx_step s s' \<Longrightarrow>
     db_tx s \<le> db_tx s' \<Longrightarrow> tx_reachable t0 s'"

text \<open>A schedule: which goroutine moves next. Running one gives a concrete execution.\<close>

datatype tx_event = Ev_Writer nat | Ev_Cleaner bool | Ev_Stop

fun tx_event_step :: "tx_event \<Rightarrow> txdb \<Rightarrow> txdb" where
  "tx_event_step (Ev_Writer i) s = writer_step i s"
| "tx_event_step (Ev_Cleaner stop) s = cleaner_step stop s"
| "tx_event_step Ev_Stop s = Stop s"

fun run_schedule :: "tx_event list \<Rightarrow> txdb \<Rightarrow> txdb" where
  "run_schedule [] s = s"
| "run_schedule (e # es) s = run_schedule es (tx_event_step e s)"

fun no_wrap :: "tx_event list \<Rightarrow> txdb \<Rightarrow> bool" where
  "no_wrap [] s = True"
| "no_wrap (e # es) s = (db_tx s \<le> db_tx (tx_event_step e s) \<and> no_wrap es (tx_event_step e s))"

lemma tx_event_step_step: "tx_step s (tx_event_step e s)"
  by (cases e) (auto intro: tx_step.intros)

lemma run_schedule_reachable:
  "tx_reachable t0 s \<Longrightarrow> no_wrap es s \<Longrightarrow> tx_reachable t0 (run_schedule es s)"
  by (induction es arbitrary: s) (auto intro: tx_reachable.step tx_event_step_step)

lemmas schedule_reachable = run_schedule_reachable [OF tx_reachable.init]

end
