(* ===== verification/Tx_Pool_Inv.thy ===== *)
theory Tx_Pool_Inv
  imports Tx_Pool
begin

text \<open>
  The invariant of the transaction machinery and its preservation by every atomic
  step. A node is private to the writer that allocated it until its
  compare-and-swap succeeds; the public nodes form a heap in which every node but the
  tail has a successor, sorted by transaction, and in which every node not marked as
  deleted is reachable from the head. Marked nodes lie at or below the watermark.
\<close>

section \<open>Views of the state\<close>

text \<open>The node a writer has allocated and not yet linked.\<close>

fun own :: "writer_pc \<Rightarrow> addr option" where
  "own (W_TryInsert n) = Some n"
| "own (W_Loop n _ _) = Some n"
| "own (W_IsMarkedSpin n _ _) = Some n"
| "own (W_Unlink n _ _ _) = Some n"
| "own (W_GetUnmarked n _) = Some n"
| "own (W_GetUnmarkedSpin n _) = Some n"
| "own (W_InsertStore n _ _) = Some n"
| "own (W_InsertCAS n _ _) = Some n"
| "own _ = None"

text \<open>The transaction a writer works for before its node is public.\<close>

fun active_tx :: "txdb \<Rightarrow> writer_pc \<Rightarrow> uint64 option" where
  "active_tx s (W_BeginLoad t) = Some t"
| "active_tx s (W_Open t) = Some t"
| "active_tx s (W_CommitLoad t) = Some t"
| "active_tx s (W_CommitStore t) = Some t"
| "active_tx s (W_Insert t) = Some t"
| "active_tx s p = map_option (tx_of s) (own p)"

text \<open>The transaction a writer runs and has not finished.\<close>

fun open_tx :: "writer_pc \<Rightarrow> uint64 option" where
  "open_tx (W_BeginLoad t) = Some t"
| "open_tx (W_Open t) = Some t"
| "open_tx _ = None"

text \<open>A writer between the call of its commit function and its return.\<close>

fun committing :: "writer_pc \<Rightarrow> bool" where
  "committing W_Idle = False"
| "committing (W_BeginLoad _) = False"
| "committing (W_Open _) = False"
| "committing _ = True"

definition owned :: "txdb \<Rightarrow> addr set" where
  "owned s = {n. \<exists>i. own (writers s i) = Some n}"

definition public :: "txdb \<Rightarrow> addr set" where
  "public s = {a. a < fresh s} - owned s"

definition inner :: "txdb \<Rightarrow> addr set" where
  "inner s = public s - {pool_head s, pool_tail s}"

text \<open>
  The list successor: the next pointer, the pointer saved when the node was marked, or
  the pointer the cleaner is about to save.
\<close>

definition succ_of :: "txdb \<Rightarrow> addr \<Rightarrow> addr option" where
  "succ_of s a =
     (case next_of s a of
        Some b \<Rightarrow> Some b
      | None \<Rightarrow>
          (case original_of s a of
             Some b \<Rightarrow> Some b
           | None \<Rightarrow>
               (case cleaner_at s of
                  C_MarkOriginal c nx \<Rightarrow> if c = a then Some nx else None
                | _ \<Rightarrow> None)))"

definition links :: "txdb \<Rightarrow> (addr \<times> addr) set" where
  "links s = {(a, b). succ_of s a = Some b}"

definition ordered :: "txdb \<Rightarrow> addr \<Rightarrow> addr \<Rightarrow> bool" where
  "ordered s a b \<longleftrightarrow>
     b = pool_tail s \<or> b \<in> inner s \<and> (a = pool_head s \<or> tx_of s a < tx_of s b)"

text \<open>A list node that is not marked as deleted.\<close>

definition live :: "txdb \<Rightarrow> addr \<Rightarrow> bool" where
  "live s a \<longleftrightarrow> a \<in> inner s \<and> next_of s a \<noteq> None"

section \<open>The invariant\<close>

definition sentinel_inv :: "txdb \<Rightarrow> bool" where
  "sentinel_inv s \<longleftrightarrow>
     pool_head s \<in> public s \<and> pool_tail s \<in> public s \<and> pool_head s \<noteq> pool_tail s \<and>
     tx_of s (pool_head s) = 0 \<and> tx_of s (pool_tail s) = 0 \<and>
     next_of s (pool_head s) \<noteq> None \<and>
     next_of s (pool_tail s) = None \<and> original_of s (pool_tail s) = None"

definition list_inv :: "txdb \<Rightarrow> bool" where
  "list_inv s \<longleftrightarrow>
     (\<forall>a \<in> public s. next_of s a \<noteq> None \<longrightarrow> original_of s a = None) \<and>
     (\<forall>a \<in> public s - {pool_tail s}. \<exists>b. succ_of s a = Some b \<and> ordered s a b) \<and>
     (\<forall>a \<in> inner s. tx_of s a \<noteq> 0) \<and>
     (\<forall>a \<in> inner s. next_of s a = None \<longrightarrow> tx_of s a \<le> highWatermark s) \<and>
     (\<forall>a. live s a \<longrightarrow> (pool_head s, a) \<in> (links s)\<^sup>*)"

lemma list_invI:
  assumes "\<And>a. a \<in> public s \<Longrightarrow> next_of s a \<noteq> None \<Longrightarrow> original_of s a = None"
    and "\<And>a. a \<in> public s \<Longrightarrow> a \<noteq> pool_tail s \<Longrightarrow> \<exists>b. succ_of s a = Some b \<and> ordered s a b"
    and "\<And>a. a \<in> inner s \<Longrightarrow> tx_of s a \<noteq> 0"
    and "\<And>a. a \<in> inner s \<Longrightarrow> next_of s a = None \<Longrightarrow> tx_of s a \<le> highWatermark s"
    and "\<And>a. live s a \<Longrightarrow> (pool_head s, a) \<in> (links s)\<^sup>*"
  shows "list_inv s"
  using assms unfolding list_inv_def by blast

lemma list_invD:
  assumes "list_inv s"
  shows "a \<in> public s \<Longrightarrow> next_of s a \<noteq> None \<Longrightarrow> original_of s a = None"
    and "a \<in> public s \<Longrightarrow> a \<noteq> pool_tail s \<Longrightarrow> \<exists>b. succ_of s a = Some b \<and> ordered s a b"
    and "a \<in> inner s \<Longrightarrow> tx_of s a \<noteq> 0"
    and "a \<in> inner s \<Longrightarrow> next_of s a = None \<Longrightarrow> tx_of s a \<le> highWatermark s"
    and "live s a \<Longrightarrow> (pool_head s, a) \<in> (links s)\<^sup>*"
  using assms unfolding list_inv_def by blast+

text \<open>What holds of the local variables of a writer at each program point.\<close>

definition private_node :: "txdb \<Rightarrow> addr \<Rightarrow> bool" where
  "private_node s n \<longleftrightarrow> n < fresh s \<and> tx_of s n \<noteq> 0 \<and> tx_of s n \<in> finished s \<and>
     original_of s n = None \<and> n \<noteq> pool_head s \<and> n \<noteq> pool_tail s"

definition prev_ok :: "txdb \<Rightarrow> addr \<Rightarrow> addr \<Rightarrow> bool" where
  "prev_ok s n prev \<longleftrightarrow>
     prev = pool_head s \<or> prev \<in> inner s \<and> tx_of s prev \<le> tx_of s n"

definition next_ok :: "txdb \<Rightarrow> addr \<Rightarrow> addr \<Rightarrow> bool" where
  "next_ok s n nx \<longleftrightarrow> nx = pool_tail s \<or> nx \<in> inner s \<and> tx_of s n < tx_of s nx"

fun writer_inv :: "txdb \<Rightarrow> writer_pc \<Rightarrow> bool" where
  "writer_inv s (W_CommitLoad t) = (t \<in> finished s)"
| "writer_inv s (W_CommitStore t) = (t \<in> finished s \<and> highWatermark s + 1 = t)"
| "writer_inv s (W_Insert t) = (t \<in> finished s)"
| "writer_inv s (W_TryInsert n) = private_node s n"
| "writer_inv s (W_Loop n prev node) = (private_node s n \<and> prev_ok s n prev \<and> node \<in> inner s)"
| "writer_inv s (W_IsMarkedSpin n prev node) =
     (private_node s n \<and> prev_ok s n prev \<and> node \<in> inner s \<and> next_of s node = None)"
| "writer_inv s (W_Unlink n prev node og) =
     (private_node s n \<and> prev_ok s n prev \<and> node \<in> inner s \<and> next_of s node = None \<and>
      original_of s node = Some og)"
| "writer_inv s (W_GetUnmarked n node) =
     (private_node s n \<and> node \<in> inner s \<and> tx_of s node \<le> tx_of s n)"
| "writer_inv s (W_GetUnmarkedSpin n node) =
     (private_node s n \<and> node \<in> inner s \<and> tx_of s node \<le> tx_of s n \<and> next_of s node = None)"
| "writer_inv s (W_InsertStore n prev nx) = (private_node s n \<and> prev_ok s n prev \<and> next_ok s n nx)"
| "writer_inv s (W_InsertCAS n prev nx) =
     (private_node s n \<and> prev_ok s n prev \<and> next_ok s n nx \<and> next_of s n = Some nx)"
| "writer_inv s _ = True"

fun cleaner_inv :: "txdb \<Rightarrow> cleaner_pc \<Rightarrow> bool" where
  "cleaner_inv s C_Panic = False"
| "cleaner_inv s (C_DeleteFunc a) = (a \<in> inner s)"
| "cleaner_inv s (C_StoreMark a) = (a \<in> inner s \<and> highWatermark s + 1 = tx_of s a)"
| "cleaner_inv s (C_MarkLoad a) = (a \<in> inner s \<and> tx_of s a \<le> highWatermark s)"
| "cleaner_inv s (C_MarkCAS a nx) = (a \<in> inner s \<and> tx_of s a \<le> highWatermark s)"
| "cleaner_inv s (C_MarkOriginal a nx) =
     (a \<in> inner s \<and> next_of s a = None \<and> original_of s a = None)"
| "cleaner_inv s (C_GetUnmarked a) = (a \<in> inner s \<and> next_of s a = None \<and> original_of s a \<noteq> None)"
| "cleaner_inv s (C_GetUnmarkedSpin a) =
     (a \<in> inner s \<and> next_of s a = None \<and> original_of s a \<noteq> None)"
| "cleaner_inv s _ = True"

text \<open>
  Every transaction id is held by at most one writer or public node; the watermark
  covers finished transactions only; a finished transaction above the watermark is
  either still with its writer or in the list.
\<close>

definition tx_inv :: "uint64 \<Rightarrow> txdb \<Rightarrow> bool" where
  "tx_inv t0 s \<longleftrightarrow>
     (\<forall>i j t. active_tx s (writers s i) = Some t \<longrightarrow> active_tx s (writers s j) = Some t \<longrightarrow> i = j) \<and>
     (\<forall>i t. active_tx s (writers s i) = Some t \<longrightarrow> t0 < t \<and> t \<le> db_tx s) \<and>
     (\<forall>i t a. active_tx s (writers s i) = Some t \<longrightarrow> a \<in> inner s \<longrightarrow> tx_of s a \<noteq> t) \<and>
     (\<forall>i t. open_tx (writers s i) = Some t \<longrightarrow> t \<notin> finished s) \<and>
     (\<forall>a. a \<in> inner s \<longrightarrow> tx_of s a \<in> finished s) \<and>
     (\<forall>t. t \<in> finished s \<longrightarrow> t0 < t \<and> t \<le> db_tx s) \<and>
     (\<forall>t. t \<in> finished s \<longrightarrow> highWatermark s < t \<longrightarrow>
        (\<exists>i. active_tx s (writers s i) = Some t) \<or> (\<exists>a \<in> inner s. tx_of s a = t)) \<and>
     (\<forall>t. t0 < t \<longrightarrow> t \<le> highWatermark s \<longrightarrow> t \<in> finished s) \<and>
     t0 \<le> highWatermark s \<and> highWatermark s \<le> db_tx s"

lemma tx_invI:
  assumes "\<And>i j t. active_tx s (writers s i) = Some t \<Longrightarrow> active_tx s (writers s j) = Some t \<Longrightarrow> i = j"
    and "\<And>i t. active_tx s (writers s i) = Some t \<Longrightarrow> t0 < t \<and> t \<le> db_tx s"
    and "\<And>i t a. active_tx s (writers s i) = Some t \<Longrightarrow> a \<in> inner s \<Longrightarrow> tx_of s a \<noteq> t"
    and "\<And>i t. open_tx (writers s i) = Some t \<Longrightarrow> t \<notin> finished s"
    and "\<And>a. a \<in> inner s \<Longrightarrow> tx_of s a \<in> finished s"
    and "\<And>t. t \<in> finished s \<Longrightarrow> t0 < t \<and> t \<le> db_tx s"
    and "\<And>t. t \<in> finished s \<Longrightarrow> highWatermark s < t \<Longrightarrow>
        (\<exists>i. active_tx s (writers s i) = Some t) \<or> (\<exists>a \<in> inner s. tx_of s a = t)"
    and "\<And>t. t0 < t \<Longrightarrow> t \<le> highWatermark s \<Longrightarrow> t \<in> finished s"
    and "t0 \<le> highWatermark s" and "highWatermark s \<le> db_tx s"
  shows "tx_inv t0 s"
  unfolding tx_inv_def by (intro conjI allI impI) (use assms in blast)+

lemma tx_invD:
  assumes "tx_inv t0 s"
  shows "active_tx s (writers s i) = Some t \<Longrightarrow> active_tx s (writers s j) = Some t \<Longrightarrow> i = j"
    and "active_tx s (writers s i) = Some t \<Longrightarrow> t0 < t \<and> t \<le> db_tx s"
    and "active_tx s (writers s i) = Some t \<Longrightarrow> a \<in> inner s \<Longrightarrow> tx_of s a \<noteq> t"
    and "open_tx (writers s i) = Some t \<Longrightarrow> t \<notin> finished s"
    and "a \<in> inner s \<Longrightarrow> tx_of s a \<in> finished s"
    and "t \<in> finished s \<Longrightarrow> t0 < t \<and> t \<le> db_tx s"
    and "t \<in> finished s \<Longrightarrow> highWatermark s < t \<Longrightarrow>
        (\<exists>i. active_tx s (writers s i) = Some t) \<or> (\<exists>a \<in> inner s. tx_of s a = t)"
    and "t0 < t \<Longrightarrow> t \<le> highWatermark s \<Longrightarrow> t \<in> finished s"
    and "t0 \<le> highWatermark s" and "highWatermark s \<le> db_tx s"
  using assms unfolding tx_inv_def by blast+

text \<open>
  When no commit is under way and no notification is pending, every live node the
  watermark has reached or is about to reach still lies ahead of the cleaner.
\<close>

fun ahead :: "txdb \<Rightarrow> cleaner_pc \<Rightarrow> addr \<Rightarrow> bool" where
  "ahead s C_Wait a = False"
| "ahead s (C_DeleteFunc c) a = ((c, a) \<in> (links s)\<^sup>*)"
| "ahead s (C_StoreMark c) a = ((c, a) \<in> (links s)\<^sup>*)"
| "ahead s (C_MarkLoad c) a = ((c, a) \<in> (links s)\<^sup>*)"
| "ahead s (C_MarkCAS c nx) a = ((c, a) \<in> (links s)\<^sup>*)"
| "ahead s (C_MarkOriginal c nx) a = ((c, a) \<in> (links s)\<^sup>*)"
| "ahead s (C_GetUnmarked c) a = ((c, a) \<in> (links s)\<^sup>*)"
| "ahead s (C_GetUnmarkedSpin c) a = ((c, a) \<in> (links s)\<^sup>*)"
| "ahead s _ a = True"

definition reached :: "txdb \<Rightarrow> addr \<Rightarrow> bool" where
  "reached s a \<longleftrightarrow> live s a \<and> (tx_of s a \<le> highWatermark s \<or> tx_of s a = highWatermark s + 1)"

definition quiet :: "txdb \<Rightarrow> bool" where
  "quiet s \<longleftrightarrow> \<not> drain s \<and> (\<forall>i. \<not> committing (writers s i))"

definition progress_inv :: "txdb \<Rightarrow> bool" where
  "progress_inv s \<longleftrightarrow> (quiet s \<longrightarrow> (\<forall>a. reached s a \<longrightarrow> ahead s (cleaner_at s) a))"

definition txpool_inv :: "uint64 \<Rightarrow> txdb \<Rightarrow> bool" where
  "txpool_inv t0 s \<longleftrightarrow>
     sentinel_inv s \<and> list_inv s \<and> (\<forall>i. writer_inv s (writers s i)) \<and>
     cleaner_inv s (cleaner_at s) \<and> tx_inv t0 s \<and> progress_inv s"

section \<open>Frame rules\<close>

lemma goto_frame [simp]:
  "heap (goto i p s) = heap s" "fresh (goto i p s) = fresh s"
  "pool_head (goto i p s) = pool_head s" "pool_tail (goto i p s) = pool_tail s"
  "drain (goto i p s) = drain s" "db_tx (goto i p s) = db_tx s"
  "highWatermark (goto i p s) = highWatermark s" "finished (goto i p s) = finished s"
  "cleaner_at (goto i p s) = cleaner_at s" "cancelled (goto i p s) = cancelled s"
  "writers (goto i p s) = (writers s)(i := p)"
  "next_of (goto i p s) = next_of s" "original_of (goto i p s) = original_of s"
  "tx_of (goto i p s) = tx_of s"
  by (auto simp: goto_def next_of_def original_of_def tx_of_def)

lemma cleaner_goto_frame [simp]:
  "heap (cleaner_goto p s) = heap s" "fresh (cleaner_goto p s) = fresh s"
  "pool_head (cleaner_goto p s) = pool_head s" "pool_tail (cleaner_goto p s) = pool_tail s"
  "drain (cleaner_goto p s) = drain s" "db_tx (cleaner_goto p s) = db_tx s"
  "highWatermark (cleaner_goto p s) = highWatermark s" "finished (cleaner_goto p s) = finished s"
  "cleaner_at (cleaner_goto p s) = p" "writers (cleaner_goto p s) = writers s"
  "cancelled (cleaner_goto p s) = cancelled s"
  "next_of (cleaner_goto p s) = next_of s" "original_of (cleaner_goto p s) = original_of s"
  "tx_of (cleaner_goto p s) = tx_of s"
  by (auto simp: cleaner_goto_def next_of_def original_of_def tx_of_def)

lemma store_next_frame [simp]:
  "fresh (store_next a v s) = fresh s"
  "pool_head (store_next a v s) = pool_head s" "pool_tail (store_next a v s) = pool_tail s"
  "drain (store_next a v s) = drain s" "db_tx (store_next a v s) = db_tx s"
  "highWatermark (store_next a v s) = highWatermark s" "finished (store_next a v s) = finished s"
  "cleaner_at (store_next a v s) = cleaner_at s" "writers (store_next a v s) = writers s"
  "cancelled (store_next a v s) = cancelled s"
  "next_of (store_next a v s) = (next_of s)(a := v)"
  "original_of (store_next a v s) = original_of s" "tx_of (store_next a v s) = tx_of s"
  by (auto simp: store_next_def next_of_def original_of_def tx_of_def)

lemma store_original_frame [simp]:
  "fresh (store_original a v s) = fresh s"
  "pool_head (store_original a v s) = pool_head s" "pool_tail (store_original a v s) = pool_tail s"
  "drain (store_original a v s) = drain s" "db_tx (store_original a v s) = db_tx s"
  "highWatermark (store_original a v s) = highWatermark s"
  "finished (store_original a v s) = finished s"
  "cleaner_at (store_original a v s) = cleaner_at s" "writers (store_original a v s) = writers s"
  "cancelled (store_original a v s) = cancelled s"
  "next_of (store_original a v s) = next_of s"
  "original_of (store_original a v s) = (original_of s)(a := v)"
  "tx_of (store_original a v s) = tx_of s"
  by (auto simp: store_original_def next_of_def original_of_def tx_of_def)

lemma new_node_frame [simp]:
  "fresh (new_node p t s) = Suc (fresh s)"
  "pool_head (new_node p t s) = pool_head s" "pool_tail (new_node p t s) = pool_tail s"
  "drain (new_node p t s) = drain s" "db_tx (new_node p t s) = db_tx s"
  "highWatermark (new_node p t s) = highWatermark s" "finished (new_node p t s) = finished s"
  "cleaner_at (new_node p t s) = cleaner_at s" "writers (new_node p t s) = writers s"
  "cancelled (new_node p t s) = cancelled s"
  "next_of (new_node p t s) = (next_of s)(fresh s := p)"
  "original_of (new_node p t s) = (original_of s)(fresh s := None)"
  "tx_of (new_node p t s) = (tx_of s)(fresh s := t)"
  by (auto simp: new_node_def next_of_def original_of_def tx_of_def)

lemma field_update_frame [simp]:
  "next_of (s\<lparr>db_tx := t\<rparr>) = next_of s" "original_of (s\<lparr>db_tx := t\<rparr>) = original_of s"
  "tx_of (s\<lparr>db_tx := t\<rparr>) = tx_of s"
  "next_of (s\<lparr>highWatermark := t\<rparr>) = next_of s"
  "original_of (s\<lparr>highWatermark := t\<rparr>) = original_of s" "tx_of (s\<lparr>highWatermark := t\<rparr>) = tx_of s"
  "next_of (s\<lparr>finished := F\<rparr>) = next_of s" "original_of (s\<lparr>finished := F\<rparr>) = original_of s"
  "tx_of (s\<lparr>finished := F\<rparr>) = tx_of s"
  "next_of (s\<lparr>drain := d\<rparr>) = next_of s" "original_of (s\<lparr>drain := d\<rparr>) = original_of s"
  "tx_of (s\<lparr>drain := d\<rparr>) = tx_of s"
  "next_of (s\<lparr>cancelled := d\<rparr>) = next_of s" "original_of (s\<lparr>cancelled := d\<rparr>) = original_of s"
  "tx_of (s\<lparr>cancelled := d\<rparr>) = tx_of s"
  by (auto simp: next_of_def original_of_def tx_of_def)

lemma publicI: "a < fresh s \<Longrightarrow> (\<And>i. own (writers s i) \<noteq> Some a) \<Longrightarrow> a \<in> public s"
  by (auto simp: public_def owned_def)

lemma publicD: "a \<in> public s \<Longrightarrow> a < fresh s \<and> (\<forall>i. own (writers s i) \<noteq> Some a)"
  by (auto simp: public_def owned_def)

lemma inner_public: "a \<in> inner s \<Longrightarrow> a \<in> public s"
  by (simp add: inner_def)

section \<open>Dependence of the invariant on the state\<close>

text \<open>
  A writer's facts survive any change of the state that keeps nodes public, never
  unmarks a node and never touches the writer's private node.
\<close>

definition grows :: "txdb \<Rightarrow> txdb \<Rightarrow> bool" where
  "grows s s' \<longleftrightarrow>
     pool_head s' = pool_head s \<and> pool_tail s' = pool_tail s \<and> fresh s \<le> fresh s' \<and>
     public s \<subseteq> public s' \<and> finished s \<subseteq> finished s' \<and>
     (\<forall>a < fresh s. tx_of s' a = tx_of s a) \<and>
     (\<forall>a \<in> public s. next_of s a = None \<longrightarrow> next_of s' a = None) \<and>
     (\<forall>a \<in> public s. original_of s a \<noteq> None \<longrightarrow> original_of s' a = original_of s a)"

lemma grows_inner: "grows s s' \<Longrightarrow> a \<in> inner s \<Longrightarrow> a \<in> inner s'"
  by (auto simp: grows_def inner_def)

lemma grows_tx_inner: "grows s s' \<Longrightarrow> a \<in> inner s \<Longrightarrow> tx_of s' a = tx_of s a"
  by (auto simp: grows_def inner_def dest: publicD)

lemma grows_private_node:
  assumes "grows s s'" "private_node s n" "original_of s' n = original_of s n"
  shows "private_node s' n"
  using assms by (auto simp: grows_def private_node_def)

lemma grows_prev_ok:
  assumes "grows s s'" "private_node s n" "prev_ok s n prev"
  shows "prev_ok s' n prev"
  using assms grows_inner [of s s' prev] grows_tx_inner [of s s' prev]
  by (auto simp: grows_def prev_ok_def private_node_def)

lemma grows_next_ok:
  assumes "grows s s'" "private_node s n" "next_ok s n nx"
  shows "next_ok s' n nx"
  using assms grows_inner [of s s' nx] grows_tx_inner [of s s' nx]
  by (auto simp: grows_def next_ok_def private_node_def)

lemma writer_inv_grows:
  assumes g: "grows s s'" and w: "writer_inv s q"
    and own: "\<And>n. own q = Some n \<Longrightarrow> next_of s' n = next_of s n \<and> original_of s' n = original_of s n"
    and hw: "\<And>t. q = W_CommitStore t \<Longrightarrow> highWatermark s' = highWatermark s"
  shows "writer_inv s' q"
proof -
  have nxt: "a \<in> inner s \<Longrightarrow> next_of s a = None \<Longrightarrow> next_of s' a = None" for a
    using g by (auto simp: grows_def dest: inner_public)
  have orig: "a \<in> inner s \<Longrightarrow> original_of s a = Some b \<Longrightarrow> original_of s' a = Some b" for a b
    using g by (fastforce simp: grows_def dest: inner_public)
  have tx: "private_node s n \<Longrightarrow> tx_of s' n = tx_of s n" for n
    using g by (auto simp: grows_def private_node_def)
  have fin: "finished s \<subseteq> finished s'" using g by (simp add: grows_def)
  show ?thesis
    using w own hw fin nxt orig
      grows_inner [OF g] grows_tx_inner [OF g] grows_private_node [OF g]
      grows_prev_ok [OF g] grows_next_ok [OF g] tx
    by (cases q) auto
qed

lemma cleaner_inv_grows:
  assumes g: "grows s s'" and c: "cleaner_inv s q"
    and hw: "highWatermark s' = highWatermark s \<or>
      highWatermark s \<le> highWatermark s' \<and> (\<forall>a. q \<noteq> C_StoreMark a)"
    and orig: "\<And>a nx. q = C_MarkOriginal a nx \<Longrightarrow> original_of s' a = original_of s a"
  shows "cleaner_inv s' q"
proof -
  have nxt: "a \<in> inner s \<Longrightarrow> next_of s a = None \<Longrightarrow> next_of s' a = None" for a
    using g by (auto simp: grows_def dest: inner_public)
  have og: "a \<in> inner s \<Longrightarrow> original_of s a \<noteq> None \<Longrightarrow> original_of s' a \<noteq> None" for a
    using g by (fastforce simp: grows_def dest: inner_public)
  show ?thesis
    using c hw orig nxt og grows_inner [OF g] grows_tx_inner [OF g]
    by (cases q) auto
qed

section \<open>Initial state\<close>

lemma NewTxPool_views [simp]:
  "next_of (NewTxPool t w) = (\<lambda>_. None)(1 := Some 0)"
  "original_of (NewTxPool t w) = (\<lambda>_. None)" "tx_of (NewTxPool t w) = (\<lambda>_. 0)"
  "next_of (resetToTxn u s) = next_of s" "original_of (resetToTxn u s) = original_of s"
  "tx_of (resetToTxn u s) = tx_of s"
  by (auto simp: NewTxPool_def resetToTxn_def next_of_def original_of_def tx_of_def)

lemma init_public: "public (resetToTxn t0 (NewTxPool 0 0)) = {0, 1}"
  by (auto simp: public_def owned_def resetToTxn_def NewTxPool_def)

lemma init_inner: "inner (resetToTxn t0 (NewTxPool 0 0)) = {}"
  by (auto simp: inner_def init_public) (auto simp: resetToTxn_def NewTxPool_def)

lemma txpool_inv_init: "txpool_inv t0 (resetToTxn t0 (NewTxPool 0 0))" (is "txpool_inv t0 ?s")
proof -
  have f: "pool_head ?s = 1" "pool_tail ?s = 0" "writers ?s = (\<lambda>_. W_Idle)" "cleaner_at ?s = C_Wait"
    "finished ?s = {}" "highWatermark ?s = t0" "db_tx ?s = t0"
    by (simp_all add: resetToTxn_def NewTxPool_def)
  show ?thesis
    by (simp add: txpool_inv_def sentinel_inv_def list_inv_def tx_inv_def progress_inv_def
        live_def reached_def init_public init_inner f)
       (auto simp: succ_of_def ordered_def f)
qed

section \<open>Steps that move a program counter\<close>

lemma owned_goto: "own p = own (writers s i) \<Longrightarrow> owned (goto i p s) = owned s"
  by (auto simp: owned_def)

lemma views_goto:
  assumes "own p = own (writers s i)"
  shows "public (goto i p s) = public s" "inner (goto i p s) = inner s"
    "succ_of (goto i p s) = succ_of s" "links (goto i p s) = links s"
    "ordered (goto i p s) = ordered s" "live (goto i p s) = live s"
    "reached (goto i p s) = reached s" "ahead (goto i p s) = ahead s"
proof -
  show p: "public (goto i p s) = public s"
    using owned_goto [OF assms] by (simp add: public_def)
  then show n: "inner (goto i p s) = inner s" by (simp add: inner_def)
  show s: "succ_of (goto i p s) = succ_of s" unfolding succ_of_def goto_frame ..
  then show l: "links (goto i p s) = links s" by (simp add: links_def)
  show "ordered (goto i p s) = ordered s" by (simp add: ordered_def fun_eq_iff n)
  show v: "live (goto i p s) = live s" by (simp add: live_def fun_eq_iff n)
  then show "reached (goto i p s) = reached s" by (simp add: reached_def fun_eq_iff)
  show "ahead (goto i p s) = ahead s"
    by (intro ext, rename_tac q a, case_tac q) (simp_all add: l)
qed

lemma active_tx_cong: "(\<And>n. own q = Some n \<Longrightarrow> tx_of s' n = tx_of s n) \<Longrightarrow> active_tx s' q = active_tx s q"
  by (cases q) auto

lemma active_tx_goto [simp]: "active_tx (goto i p s) q = active_tx s q"
  by (rule active_tx_cong) simp

lemma grows_goto: "own p = own (writers s i) \<Longrightarrow> grows s (goto i p s)"
  by (simp add: grows_def views_goto)

lemma goto_inv [inv_intros]:
  assumes inv: "txpool_inv t0 s" and own: "own p = own (writers s i)"
    and act: "active_tx s p = active_tx s (writers s i)"
    and opn: "open_tx p = open_tx (writers s i) \<or> open_tx p = None"
    and w: "writer_inv s p" and com: "committing p \<or> \<not> committing (writers s i)"
  shows "txpool_inv t0 (goto i p s)"
proof -
  note v = views_goto [OF own]
  have keep: "writer_inv (goto i p s) q" if "writer_inv s q" for q
    by (rule writer_inv_grows [OF grows_goto [OF own] that]) simp_all
  have "sentinel_inv (goto i p s)" "list_inv (goto i p s)"
    using inv by (simp_all add: txpool_inv_def sentinel_inv_def list_inv_def v)
  moreover have "\<forall>j. writer_inv (goto i p s) (writers (goto i p s) j)"
    using inv w by (simp add: txpool_inv_def keep)
  moreover have "cleaner_inv (goto i p s) (cleaner_at (goto i p s))"
    using inv cleaner_inv_grows [OF grows_goto [OF own], of "cleaner_at s"]
    by (simp add: txpool_inv_def)
  moreover have a: "active_tx s (((writers s)(i := p)) j) = active_tx s (writers s j)" for j
    using act by simp
  have "tx_inv t0 (goto i p s)"
    using inv opn unfolding txpool_inv_def tx_inv_def
    by (simp only: goto_frame v active_tx_goto a) auto
  moreover have "quiet (goto i p s) \<Longrightarrow> quiet s"
    using com unfolding quiet_def by (metis (mono_tags) fun_upd_apply goto_frame(5,11))
  then have "progress_inv (goto i p s)"
    using inv by (auto simp: txpool_inv_def progress_inv_def v)
  ultimately show ?thesis by (simp add: txpool_inv_def)
qed

lemma txpool_invD:
  assumes "txpool_inv t0 s"
  shows "sentinel_inv s" "list_inv s" "writer_inv s (writers s i)" "cleaner_inv s (cleaner_at s)"
    "tx_inv t0 s" "progress_inv s"
  using assms by (simp_all add: txpool_inv_def)

lemma succ_of_cong:
  "next_of s' a = next_of s a \<Longrightarrow> original_of s' a = original_of s a \<Longrightarrow>
   cleaner_at s' = cleaner_at s \<Longrightarrow> succ_of s' a = succ_of s a"
  by (simp only: succ_of_def)

lemma succ_next: "next_of s a = Some b \<Longrightarrow> succ_of s a = Some b"
  by (simp add: succ_of_def)

lemma succ_original: "next_of s a = None \<Longrightarrow> original_of s a = Some b \<Longrightarrow> succ_of s a = Some b"
  by (simp add: succ_of_def)

lemma succ_ordered:
  assumes "list_inv s" "a \<in> public s" "a \<noteq> pool_tail s" "succ_of s a = Some b"
  shows "ordered s a b"
proof -
  have "\<exists>b'. succ_of s a = Some b' \<and> ordered s a b'"
    using assms(1-3) unfolding list_inv_def by blast
  then show ?thesis using assms(4) by auto
qed

lemma inner_tx_nonzero: "list_inv s \<Longrightarrow> a \<in> inner s \<Longrightarrow> tx_of s a \<noteq> 0"
  by (simp add: list_inv_def)

lemma tail_tx_zero: "sentinel_inv s \<Longrightarrow> tx_of s (pool_tail s) = 0"
  by (simp add: sentinel_inv_def)

lemma ordered_target: "ordered s a b \<Longrightarrow> b = pool_tail s \<or> b \<in> inner s"
  by (auto simp: ordered_def)

text \<open>Arriving at the loop condition with a successor of a good predecessor.\<close>

lemma loop_head_inv [inv_intros]:
  assumes inv: "txpool_inv t0 s" and own: "own (writers s i) = Some n" and n: "private_node s n"
    and prev: "prev_ok s n prev" and b: "b = pool_tail s \<or> b \<in> inner s"
  shows "txpool_inv t0 (loop_head i n prev (Some b) s)"
proof -
  note i = txpool_invD [OF inv]
  have c: "committing (writers s i)" and o: "open_tx (writers s i) = None"
    and a: "active_tx s (writers s i) = Some (tx_of s n)"
    using own by (cases "writers s i"; simp)+
  show ?thesis
  proof (cases "tx_of s b = 0")
    case True
    then have "b = pool_tail s" using b inner_tx_nonzero [OF i(2)] by blast
    then show ?thesis unfolding loop_head_def
      using True n prev own a o by (auto intro!: goto_inv [OF inv] simp: next_ok_def)
  next
    case False
    then have "b \<in> inner s" using b tail_tx_zero [OF i(1)] by auto
    then show ?thesis unfolding loop_head_def
      using False n prev own a o by (auto intro!: goto_inv [OF inv])
  qed
qed

lemma tryInsert_start_inv [inv_intros]:
  assumes inv: "txpool_inv t0 s" and at: "writers s i = W_TryInsert n"
  shows "txpool_inv t0 (tryInsert_start i n s)"
proof -
  note i = txpool_invD [OF inv]
  obtain b where b: "next_of s (pool_head s) = Some b"
    using i(1) by (auto simp: sentinel_inv_def)
  have "ordered s (pool_head s) b"
    using i(1) by (intro succ_ordered [OF i(2)]) (auto simp: sentinel_inv_def succ_next b)
  then show ?thesis
    using i(3) [of i] at unfolding tryInsert_start_def b
    by (intro loop_head_inv [OF inv]) (auto simp: prev_ok_def ordered_def)
qed

lemma tryInsert_body_inv [inv_intros]:
  assumes inv: "txpool_inv t0 s" and at: "writers s i = W_Loop n prev node"
  shows "txpool_inv t0 (tryInsert_body i n prev node s)"
  using txpool_invD(3) [OF inv, of i] at unfolding tryInsert_body_def
  by (auto split: option.splits intro!: goto_inv [OF inv] simp: next_ok_def not_less)

lemma isMarked_spin_inv [inv_intros]:
  assumes inv: "txpool_inv t0 s" and at: "writers s i = W_IsMarkedSpin n prev node"
  shows "txpool_inv t0 (isMarked_spin i n prev node s)"
  using txpool_invD(3) [OF inv, of i] at inv unfolding isMarked_spin_def
  by (auto split: option.splits intro!: goto_inv [OF inv])

lemma node_prev_ok: "node \<in> inner s \<Longrightarrow> tx_of s node \<le> tx_of s n \<Longrightarrow> prev_ok s n node"
  by (simp add: prev_ok_def)

lemma getUnmarked_load_inv [inv_intros]:
  assumes inv: "txpool_inv t0 s" and at: "writers s i = W_GetUnmarked n node"
  shows "txpool_inv t0 (getUnmarked_load i n node s)"
proof (cases "next_of s node")
  case None
  then show ?thesis
    using txpool_invD(3) [OF inv, of i] at unfolding getUnmarked_load_def
    by (auto intro!: goto_inv [OF inv])
next
  case (Some b)
  note w = txpool_invD(3) [OF inv, of i, unfolded at, simplified]
  have "ordered s node b"
    using w Some by (intro succ_ordered [OF txpool_invD(2) [OF inv]]) (auto simp: inner_def succ_next)
  with w Some at show ?thesis unfolding getUnmarked_load_def
    by (auto intro!: loop_head_inv [OF inv] node_prev_ok dest: ordered_target)
qed

lemma getUnmarked_spin_inv [inv_intros]:
  assumes inv: "txpool_inv t0 s" and at: "writers s i = W_GetUnmarkedSpin n node"
  shows "txpool_inv t0 (getUnmarked_spin i n node s)"
proof (cases "original_of s node")
  case None
  then show ?thesis using inv by (simp add: getUnmarked_spin_def)
next
  case (Some b)
  note w = txpool_invD(3) [OF inv, of i, unfolded at, simplified]
  have "ordered s node b"
    using w Some
    by (intro succ_ordered [OF txpool_invD(2) [OF inv]]) (auto simp: inner_def succ_original)
  with w Some at show ?thesis unfolding getUnmarked_spin_def
    by (auto intro!: loop_head_inv [OF inv] node_prev_ok dest: ordered_target)
qed

lemma begin_load_inv [inv_intros]:
  assumes inv: "txpool_inv t0 s" and at: "writers s i = W_BeginLoad t"
  shows "txpool_inv t0 (begin_load i t s)"
  using at unfolding begin_load_def by (auto intro!: goto_inv [OF inv])

lemma commit_load_inv [inv_intros]:
  assumes inv: "txpool_inv t0 s" and at: "writers s i = W_CommitLoad t"
  shows "txpool_inv t0 (commit_load i t s)"
  using txpool_invD(3) [OF inv, of i] at unfolding commit_load_def
  by (auto intro!: goto_inv [OF inv])

section \<open>Steps that change a counter\<close>

text \<open>States with the same heap, sentinels, private nodes and cleaner have the same views.\<close>

definition same_heap :: "txdb \<Rightarrow> txdb \<Rightarrow> bool" where
  "same_heap s s' \<longleftrightarrow> heap s' = heap s \<and> fresh s' = fresh s \<and> pool_head s' = pool_head s \<and>
     pool_tail s' = pool_tail s \<and> owned s' = owned s \<and> cleaner_at s' = cleaner_at s"

lemma views_same:
  assumes "same_heap s s'"
  shows "next_of s' = next_of s" "original_of s' = original_of s" "tx_of s' = tx_of s"
    "public s' = public s" "inner s' = inner s" "succ_of s' = succ_of s" "links s' = links s"
    "ordered s' = ordered s" "live s' = live s" "active_tx s' = active_tx s"
    "pool_head s' = pool_head s" "pool_tail s' = pool_tail s" "cleaner_at s' = cleaner_at s"
proof -
  show h: "next_of s' = next_of s" "original_of s' = original_of s" and t: "tx_of s' = tx_of s"
    using assms by (auto simp: same_heap_def next_of_def original_of_def tx_of_def)
  show c: "pool_head s' = pool_head s" "pool_tail s' = pool_tail s" "cleaner_at s' = cleaner_at s"
    using assms by (auto simp: same_heap_def)
  show p: "public s' = public s" using assms by (simp add: same_heap_def public_def)
  then show n: "inner s' = inner s" using c by (simp add: inner_def)
  show u: "succ_of s' = succ_of s" unfolding succ_of_def h c ..
  then show "links s' = links s" by (simp add: links_def)
  show "ordered s' = ordered s" by (simp add: ordered_def fun_eq_iff n c t)
  show "live s' = live s" by (simp add: live_def fun_eq_iff n h)
  show "active_tx s' = active_tx s" by (intro ext active_tx_cong) (simp add: t)
qed

lemma same_heap_sentinel: "same_heap s s' \<Longrightarrow> sentinel_inv s \<Longrightarrow> sentinel_inv s'"
  by (simp add: sentinel_inv_def views_same)

lemma same_heap_list:
  assumes "same_heap s s'" "highWatermark s \<le> highWatermark s'" "list_inv s"
  shows "list_inv s'"
proof (rule list_invI, unfold views_same [OF assms(1)], goal_cases)
  case (4 a)
  then show ?case using list_invD(4) [OF assms(3)] assms(2) by (blast intro: order_trans)
qed (use list_invD(1-3,5) [OF assms(3)] in blast)+

lemma same_heap_grows: "same_heap s s' \<Longrightarrow> finished s \<subseteq> finished s' \<Longrightarrow> grows s s'"
  unfolding grows_def by (simp add: views_same) (simp add: same_heap_def)

lemma same_heap_owner: "own p = own (writers s i) \<Longrightarrow> heap s' = heap s \<Longrightarrow> fresh s' = fresh s \<Longrightarrow>
    pool_head s' = pool_head s \<Longrightarrow> pool_tail s' = pool_tail s \<Longrightarrow> cleaner_at s' = cleaner_at s \<Longrightarrow>
    writers s' = writers s \<Longrightarrow> same_heap s (goto i p s')"
  by (auto simp: same_heap_def owned_def)

lemma same_heap_inv:
  assumes inv: "txpool_inv t0 s" and sh: "same_heap s s'" and fin: "finished s \<subseteq> finished s'"
    and wr: "writers s' = (writers s)(i := p)" and w: "writer_inv s' p"
    and hw: "highWatermark s' = highWatermark s \<or> highWatermark s \<le> highWatermark s' \<and>
      (\<forall>j t. j \<noteq> i \<longrightarrow> writers s j \<noteq> W_CommitStore t) \<and> (\<forall>a. cleaner_at s \<noteq> C_StoreMark a)"
    and "tx_inv t0 s'" "progress_inv s'"
  shows "txpool_inv t0 s'"
proof -
  note i = txpool_invD [OF inv]
  have g: "grows s s'" by (rule same_heap_grows [OF sh fin])
  have "writer_inv s' (writers s' j)" for j
    using writer_inv_grows [OF g i(3) [of j]] w hw
    by (cases "j = i") (auto simp: wr views_same [OF sh])
  moreover have "cleaner_inv s' (cleaner_at s')"
    using cleaner_inv_grows [OF g i(4)] hw by (auto simp: views_same [OF sh])
  ultimately show ?thesis
    using assms(7,8) same_heap_sentinel [OF sh i(1)] same_heap_list [OF sh _ i(2)] hw
    by (auto simp: txpool_inv_def)
qed

lemma not_quiet: "committing (writers s i) \<Longrightarrow> progress_inv s"
  by (auto simp: progress_inv_def quiet_def)

lemma begin_step_inv [inv_intros]:
  assumes inv: "txpool_inv t0 s" and at: "writers s i = W_Idle" and nowrap: "db_tx s \<le> db_tx s + 1"
  shows "txpool_inv t0 (begin_step i s)" (is "txpool_inv t0 ?s")
proof -
  note i = txpool_invD [OF inv]
  have d: "db_tx s < db_tx s + 1" using nowrap by (simp add: order_less_le)
  have sh: "same_heap s ?s"
    using at unfolding begin_step_def Let_def by (auto intro!: same_heap_owner)
  note v = views_same [OF sh]
  have f: "highWatermark ?s = highWatermark s" "finished ?s = finished s" "db_tx ?s = db_tx s + 1"
    "writers ?s = (writers s)(i := W_BeginLoad (db_tx s + 1))" "drain ?s = drain s"
    by (simp_all add: begin_step_def Let_def)
  have "tx_inv t0 ?s"
  proof (rule tx_invI, unfold v f(1-3), goal_cases)
    case (1 j k t)
    then show ?case using tx_invD(1) [OF i(5), of j t k] tx_invD(2) [OF i(5), of _ "db_tx s + 1"] d
      by (auto simp: f split: if_splits dest: leD)
  next
    case (2 j t)
    then show ?case using tx_invD(2,9,10) [OF i(5)] d
      by (cases "j = i") (force simp: f)+
  next
    case (3 j t a)
    then show ?case using tx_invD(3,5,6) [OF i(5)] d by (cases "j = i") (fastforce simp: f)+
  next
    case (4 j t)
    then show ?case using tx_invD(4,6) [OF i(5)] d by (cases "j = i") (fastforce simp: f)+
  next
    case (7 t)
    then show ?case using tx_invD(7) [OF i(5), of t] at
      by (metis active_tx.simps(6) f(4) fun_upd_apply map_option_is_None option.distinct(1) own.simps(9))
  next
    case 10
    then show ?case using tx_invD(10) [OF i(5)] d by simp
  qed (use tx_invD(5,6,8,9) [OF i(5)] d in \<open>force+\<close>)
  moreover have "progress_inv ?s"
  proof -
    have "quiet ?s \<Longrightarrow> quiet s"
      using at unfolding quiet_def f by (metis committing.simps(1) fun_upd_apply)
    moreover have "ahead ?s = ahead s"
      by (intro ext, rename_tac q a, case_tac q) (simp_all add: v)
    ultimately show ?thesis using i(6) unfolding progress_inv_def reached_def v f by auto
  qed
  ultimately show ?thesis
    by (intro same_heap_inv [OF inv sh _ f(4)]) (simp_all add: f)
qed

lemma commit_call_inv [inv_intros]:
  assumes inv: "txpool_inv t0 s" and at: "writers s i = W_Open t"
  shows "txpool_inv t0 (commit_call i t s)" (is "txpool_inv t0 ?s")
proof -
  note i = txpool_invD [OF inv]
  have sh: "same_heap s ?s"
    using at unfolding commit_call_def by (auto intro!: same_heap_owner)
  note v = views_same [OF sh]
  have f: "highWatermark ?s = highWatermark s" "finished ?s = insert t (finished s)" "db_tx ?s = db_tx s"
    "writers ?s = (writers s)(i := W_CommitLoad t)"
    by (simp_all add: commit_call_def)
  have at': "active_tx s (writers s i) = Some t" by (simp add: at)
  have act: "active_tx s (writers ?s j) = active_tx s (writers s j)" for j
    using at by (simp add: f)
  have opn: "open_tx (writers ?s j) = Some u \<Longrightarrow> open_tx (writers s j) = Some u \<and> j \<noteq> i" for j u
    by (cases "j = i") (simp_all add: f)
  have open_active: "open_tx q = Some u \<Longrightarrow> active_tx s q = Some u" for q u
    by (cases q) simp_all
  have "tx_inv t0 ?s"
  proof (rule tx_invI, unfold v act f(1-3), goal_cases)
    case (4 j u)
    then show ?case
      using opn [of j u] tx_invD(4) [OF i(5), of j u] tx_invD(1) [OF i(5) at', of j] open_active
      by fastforce
  next
    case (6 u)
    then show ?case using tx_invD(2) [OF i(5) at'] tx_invD(6) [OF i(5), of u] by auto
  next
    case (7 u)
    then show ?case using at' tx_invD(7) [OF i(5), of u] by (metis insertE)
  next
    case (8 u)
    then show ?case using tx_invD(8) [OF i(5)] by blast
  qed (use tx_invD(1,2,3,5,9,10) [OF i(5)] in blast)+
  moreover have "progress_inv ?s" by (rule not_quiet [of _ i]) (simp add: f)
  ultimately show ?thesis
    by (intro same_heap_inv [OF inv sh _ f(4)]) (auto simp: f)
qed

lemma commit_store_inv [inv_intros]:
  assumes inv: "txpool_inv t0 s" and at: "writers s i = W_CommitStore t"
  shows "txpool_inv t0 (commit_store i t s)" (is "txpool_inv t0 ?s")
proof -
  note i = txpool_invD [OF inv]
  have t: "t \<in> finished s" "t = highWatermark s + 1" using i(3) [of i] at by auto
  have sh: "same_heap s ?s"
    using at unfolding commit_store_def by (auto intro!: same_heap_owner)
  note v = views_same [OF sh]
  have f: "highWatermark ?s = t" "finished ?s = finished s" "db_tx ?s = db_tx s"
    "writers ?s = (writers s)(i := W_Insert t)"
    by (simp_all add: commit_store_def)
  have at': "active_tx s (writers s i) = Some t" by (simp add: at)
  have act: "active_tx s (writers ?s j) = active_tx s (writers s j)" for j
    using at by (simp add: f)
  have "t \<noteq> 0" using tx_invD(2) [OF i(5) at'] by auto
  then have hw: "highWatermark s < t" using word_less_Suc t(2) by metis
  have "tx_inv t0 ?s"
  proof (rule tx_invI, unfold v act f(1-3), goal_cases)
    case (4 j u)
    then show ?case using tx_invD(4) [OF i(5), of j u] by (cases "j = i") (simp_all add: f)
  next
    case (7 u)
    then show ?case using tx_invD(7) [OF i(5), of u] hw by auto
  next
    case (8 u)
    then show ?case using tx_invD(8) [OF i(5), of u] t word_le_Suc_cases [of u "highWatermark s"] by auto
  next
    case 9
    then show ?case using tx_invD(9) [OF i(5)] hw by simp
  next
    case 10
    then show ?case using tx_invD(2) [OF i(5) at'] by simp
  qed (use tx_invD(1,2,3,5,6) [OF i(5)] in blast)+
  moreover have "progress_inv ?s" by (rule not_quiet [of _ i]) (simp add: f)
  moreover have "writers s j \<noteq> W_CommitStore u" if "j \<noteq> i" for j u
    using that tx_invD(1) [OF i(5) at', of j] i(3) [of j] t by auto
  moreover have "cleaner_at s \<noteq> C_StoreMark a" for a
    using i(4) tx_invD(3) [OF i(5) at', of a] t by auto
  ultimately show ?thesis
    using hw t(1) by (intro same_heap_inv [OF inv sh _ f(4)]) (auto simp: f)
qed

section \<open>Steps that change the heap\<close>

lemma succ_public:
  assumes "sentinel_inv s" "list_inv s" "cleaner_inv s (cleaner_at s)" "a \<in> public s" "succ_of s a = Some b"
  shows "b \<in> public s" "a \<noteq> pool_tail s" "ordered s a b"
proof -
  show t: "a \<noteq> pool_tail s"
    using assms by (auto simp: succ_of_def sentinel_inv_def inner_def split: cleaner_pc.splits if_splits)
  show "ordered s a b" using succ_ordered [OF assms(2,4) t assms(5)] .
  then show "b \<in> public s"
    using assms(1) by (auto simp: ordered_def inner_def sentinel_inv_def)
qed

text \<open>Reachability carries over when every public link is kept, possibly as a longer path.\<close>

lemma links_carry:
  assumes inv: "sentinel_inv s" "list_inv s" "cleaner_inv s (cleaner_at s)"
    and step: "\<And>x y. x \<in> public s \<Longrightarrow> succ_of s x = Some y \<Longrightarrow> (x, y) \<in> (links s')\<^sup>*"
    and c: "c \<in> public s" and r: "(c, a) \<in> (links s)\<^sup>*"
  shows "(c, a) \<in> (links s')\<^sup>* \<and> a \<in> public s"
  using r
proof (induction rule: rtrancl_induct)
  case base
  then show ?case using c by simp
next
  case (step y z)
  then show ?case
    using assms(4) [of y z] succ_public(1) [OF inv, of y z] by (auto simp: links_def)
qed

text \<open>Steps that touch private nodes only.\<close>

definition same_public :: "txdb \<Rightarrow> txdb \<Rightarrow> bool" where
  "same_public s s' \<longleftrightarrow>
     pool_head s' = pool_head s \<and> pool_tail s' = pool_tail s \<and> fresh s \<le> fresh s' \<and>
     cleaner_at s' = cleaner_at s \<and> public s' = public s \<and> finished s' = finished s \<and>
     highWatermark s' = highWatermark s \<and> db_tx s' = db_tx s \<and> (\<forall>a < fresh s. tx_of s' a = tx_of s a) \<and>
     (\<forall>a \<in> public s. next_of s' a = next_of s a \<and> original_of s' a = original_of s a)"

lemma same_public_grows: "same_public s s' \<Longrightarrow> grows s s'"
  by (auto simp: same_public_def grows_def)

lemma same_public_views:
  assumes "same_public s s'"
  shows "inner s' = inner s" and "live s' a = live s a"
    and "a \<in> public s \<Longrightarrow> succ_of s' a = succ_of s a"
    and "a \<in> public s \<Longrightarrow> ordered s' a b = ordered s a b"
    and "a \<in> inner s \<Longrightarrow> tx_of s' a = tx_of s a"
proof -
  show n: "inner s' = inner s" using assms by (simp add: same_public_def inner_def)
  show "live s' a = live s a" using assms by (auto simp: live_def n same_public_def dest: inner_public)
  show "a \<in> public s \<Longrightarrow> succ_of s' a = succ_of s a"
    using assms by (intro succ_of_cong) (simp_all add: same_public_def)
  have t: "a \<in> public s \<Longrightarrow> tx_of s' a = tx_of s a" for a
    using assms by (auto simp: same_public_def dest: publicD)
  then show "a \<in> inner s \<Longrightarrow> tx_of s' a = tx_of s a" by (simp add: inner_def)
  show "a \<in> public s \<Longrightarrow> ordered s' a b = ordered s a b"
    using assms t [of a] t [of b] by (auto simp: ordered_def n same_public_def dest: inner_public)
qed

lemma same_public_inv:
  assumes inv: "txpool_inv t0 s" and sp: "same_public s s'"
    and wr: "writers s' = (writers s)(i := p)" and w: "writer_inv s' p"
    and act: "active_tx s' p = active_tx s (writers s i)" and opn: "open_tx p = None"
    and com: "committing p"
    and priv: "\<And>j n. j \<noteq> i \<Longrightarrow> own (writers s j) = Some n \<Longrightarrow>
      next_of s' n = next_of s n \<and> original_of s' n = original_of s n"
  shows "txpool_inv t0 s'"
proof -
  note i = txpool_invD [OF inv]
  note g = same_public_grows [OF sp]
  note v = same_public_views [OF sp]
  have e: "pool_head s' = pool_head s" "pool_tail s' = pool_tail s" "public s' = public s"
    "highWatermark s' = highWatermark s" "finished s' = finished s" "db_tx s' = db_tx s"
    "cleaner_at s' = cleaner_at s"
    using sp by (simp_all add: same_public_def)
  have h: "a \<in> public s \<Longrightarrow> next_of s' a = next_of s a \<and> original_of s' a = original_of s a" for a
    using sp by (simp add: same_public_def)
  have "sentinel_inv s'"
    using i(1) h sp unfolding sentinel_inv_def e same_public_def by (auto dest!: publicD)
  moreover have "list_inv s'"
  proof (rule list_invI, unfold e v(1,2), goal_cases)
    case (5 a)
    have "(x, y) \<in> (links s')\<^sup>*" if "x \<in> public s" "succ_of s x = Some y" for x y
      using that v(3) by (auto simp: links_def)
    then show ?case
      using links_carry [OF i(1,2,4), of s' "pool_head s" a] list_invD(5) [OF i(2) 5] i(1)
      by (auto simp: sentinel_inv_def)
  next
    case (1 a)
    then show ?case using h list_invD(1) [OF i(2), of a] by simp
  next
    case (2 a)
    then show ?case using v(3,4) list_invD(2) [OF i(2), of a] by simp
  next
    case (3 a)
    then show ?case using v(5) list_invD(3) [OF i(2), of a] by simp
  next
    case (4 a)
    then show ?case using v(5) h [of a] list_invD(4) [OF i(2), of a] by (simp add: inner_public)
  qed
  moreover have priv_tx: "own (writers s j) = Some n \<Longrightarrow> tx_of s' n = tx_of s n" for j n
    using sp i(3) [of j] by (cases "writers s j") (auto simp: same_public_def private_node_def)
  have "writer_inv s' (writers s' j)" for j
    using writer_inv_grows [OF g i(3) [of j]] w priv [of j] by (cases "j = i") (auto simp: wr e)
  moreover have "cleaner_inv s' (cleaner_at s')"
  proof (unfold e, rule cleaner_inv_grows [OF g i(4)], goal_cases)
    case (2 a nx)
    then show ?case using i(4) h [of a] by (auto dest: inner_public)
  qed (simp add: e)
  moreover have a: "active_tx s' (writers s' j) = active_tx s (writers s j)" for j
    using act active_tx_cong [of "writers s j" s' s] priv_tx [of j] by (simp add: wr)
  have "tx_inv t0 s'"
  proof (rule tx_invI, unfold e v(1) a, goal_cases)
    case (3 j t b)
    then show ?case using tx_invD(3) [OF i(5), of j t b] v(5) by simp
  next
    case (4 j t)
    then show ?case using tx_invD(4) [OF i(5), of j t] opn by (cases "j = i") (auto simp: wr)
  next
    case (5 b)
    then show ?case using tx_invD(5) [OF i(5), of b] v(5) by simp
  next
    case (7 t)
    then show ?case using tx_invD(7) [OF i(5), of t] v(5) by auto
  qed (use tx_invD(1,2,6,8,9,10) [OF i(5)] in blast)+
  moreover have "progress_inv s'" using com by (intro not_quiet [of _ i]) (simp add: wr)
  ultimately show ?thesis by (simp add: txpool_inv_def)
qed

lemma own_private: "txpool_inv t0 s \<Longrightarrow> own (writers s j) = Some n \<Longrightarrow> private_node s n"
  using txpool_invD(3) [of t0 s j] by (cases "writers s j") auto

lemma own_unique:
  assumes "txpool_inv t0 s" "own (writers s j) = Some n" "own (writers s i) = Some n"
  shows "i = j"
proof -
  have "own q = Some n \<Longrightarrow> active_tx s q = Some (tx_of s n)" for q by (cases q) auto
  then show ?thesis using tx_invD(1) [OF txpool_invD(5) [OF assms(1)]] assms(2,3) by blast
qed

lemma Insert_alloc_inv [inv_intros]:
  assumes inv: "txpool_inv t0 s" and at: "writers s i = W_Insert t"
  shows "txpool_inv t0 (Insert_alloc i t s)"
proof -
  note i = txpool_invD [OF inv]
  have old: "own (writers s j) = Some n \<Longrightarrow> n < fresh s" for j n
    using own_private [OF inv, of j n] by (simp add: private_node_def)
  have old_i: "own (writers s i) = None" by (simp add: at)
  have own': "own (writers (Insert_alloc i t s) j) = (if j = i then Some (fresh s) else own (writers s j))" for j
    by (simp add: Insert_alloc_def)
  have "public (Insert_alloc i t s) = public s"
    unfolding public_def owned_def own' using old at
    by (auto simp: Insert_alloc_def less_Suc_eq split: if_splits) (metis old_i option.distinct(1))
  then have sp: "same_public s (Insert_alloc i t s)"
    by (auto simp: same_public_def Insert_alloc_def dest!: publicD)
  have s: "pool_head s < fresh s" "pool_tail s < fresh s"
    using i(1) by (auto simp: sentinel_inv_def dest!: publicD)
  have "t \<noteq> 0" using tx_invD(2) [OF i(5), of i t] at by auto
  then show ?thesis
    using i(3) [of i] at s
    by (intro same_public_inv [OF inv sp, where i = i and p = "W_TryInsert (fresh s)"])
       (auto simp: Insert_alloc_def private_node_def dest: old)
qed

lemma insert_store_inv [inv_intros]:
  assumes inv: "txpool_inv t0 s" and at: "writers s i = W_InsertStore n prev nx"
  shows "txpool_inv t0 (insert_store i n prev nx s)"
proof -
  note i = txpool_invD [OF inv]
  have n: "own (writers s i) = Some n" by (simp add: at)
  have own': "own (writers (insert_store i n prev nx s) j) = own (writers s j)" for j
    by (simp add: insert_store_def at)
  have "public (insert_store i n prev nx s) = public s"
    unfolding public_def owned_def own' by (simp add: insert_store_def)
  then have sp: "same_public s (insert_store i n prev nx s)"
    using n by (auto simp: same_public_def insert_store_def dest!: publicD)
  have "private_node s n" "prev_ok s n prev" "next_ok s n nx" using i(3) [of i] at by auto
  then have "writer_inv (insert_store i n prev nx s) (W_InsertCAS n prev nx)"
    using same_public_grows [OF sp] grows_private_node [of s _ n] grows_prev_ok [of s _ n prev]
      grows_next_ok [of s _ n nx] by (simp add: insert_store_def)
  then show ?thesis
    using at own_unique [OF inv _ n]
    by (intro same_public_inv [OF inv sp, where i = i and p = "W_InsertCAS n prev nx"])
       (auto simp: insert_store_def)
qed

text \<open>Linking a private node: the compare-and-swap of \<open>insert\<close> succeeds.\<close>

lemma insert_link_views:
  assumes inv: "txpool_inv t0 s" and at: "writers s i = W_InsertCAS n prev nx"
    and cas: "next_of s prev = Some nx"
  defines "s' \<equiv> goto i (W_Notify n) (store_next prev (Some n) s)"
  shows "public s' = insert n (public s)" "inner s' = insert n (inner s)" "n \<notin> public s"
    "prev \<in> public s" "prev \<noteq> pool_tail s"
    "succ_of s' = (succ_of s)(prev := Some n, n := Some nx)"
    "live s' a \<longleftrightarrow> a = n \<or> live s a"
    "ordered s a b \<Longrightarrow> ordered s' a b"
proof -
  note i = txpool_invD [OF inv]
  have n: "own (writers s i) = Some n" by (simp add: at)
  have w: "private_node s n" "prev_ok s n prev" "next_of s n = Some nx" using i(3) [of i] at by auto
  have own': "own (writers s' j) = (if j = i then None else own (writers s j))" for j
    by (simp add: s'_def)
  show np: "n \<notin> public s" using n by (auto dest: publicD)
  show prev: "prev \<in> public s" "prev \<noteq> pool_tail s"
    using w(2) i(1) by (auto simp: prev_ok_def sentinel_inv_def inner_def)
  have "own (writers s' j) \<noteq> Some a" if "own (writers s j) \<noteq> Some a" for j a
    using that own' by simp
  moreover have "own (writers s' j) \<noteq> Some n" for j using own' own_unique [OF inv _ n] by auto
  moreover have "own (writers s j) \<noteq> Some a" if "own (writers s' j) \<noteq> Some a" "a \<noteq> n" for j a
    using that own' n by (cases "j = i") auto
  moreover have "fresh s' = fresh s" "n < fresh s" using w(1) by (simp_all add: s'_def private_node_def)
  ultimately show p: "public s' = insert n (public s)"
    by (auto intro!: publicI dest: publicD)
  then show q: "inner s' = insert n (inner s)"
    using w(1) by (auto simp: inner_def s'_def private_node_def)
  have "n \<noteq> prev" using np prev by auto
  then show "succ_of s' = (succ_of s)(prev := Some n, n := Some nx)"
    using w(3) by (auto simp: fun_eq_iff s'_def succ_next intro!: succ_of_cong)
  show "live s' a \<longleftrightarrow> a = n \<or> live s a"
    using w(3) cas by (auto simp: live_def q) (auto simp: s'_def split: if_splits)
  show "ordered s a b \<Longrightarrow> ordered s' a b"
    by (auto simp: ordered_def q) (auto simp: s'_def)
qed

lemma insert_link_inv:
  assumes inv: "txpool_inv t0 s" and at: "writers s i = W_InsertCAS n prev nx"
    and cas: "next_of s prev = Some nx"
  shows "txpool_inv t0 (goto i (W_Notify n) (store_next prev (Some n) s))" (is "txpool_inv t0 ?s")
proof -
  note i = txpool_invD [OF inv] and v = insert_link_views [OF inv at cas]
  have n: "own (writers s i) = Some n" by (simp add: at)
  have act: "active_tx s (writers s i) = Some (tx_of s n)" by (simp add: at)
  have w: "private_node s n" "prev_ok s n prev" "next_ok s n nx" "next_of s n = Some nx"
    using i(3) [of i] at by auto
  have g: "grows s ?s" using cas by (auto simp: grows_def v(1))
  have "sentinel_inv ?s" using i(1) v(3,5) by (auto simp: sentinel_inv_def v(1))
  moreover have "list_inv ?s"
  proof (rule list_invI, goal_cases)
    case (1 a)
    then show ?case using list_invD(1) [OF i(2), of a] list_invD(1) [OF i(2) v(4)] cas w(1)
      by (auto simp: v(1) private_node_def split: if_splits)
  next
    case (2 a)
    have "tx_of s prev \<noteq> tx_of s n" if "prev \<in> inner s" using tx_invD(3) [OF i(5) act that] .
    then have "ordered ?s prev n" "ordered ?s n nx"
      using w by (auto simp: ordered_def v(2) prev_ok_def next_ok_def order_less_le)
    then show ?case using 2 list_invD(2) [OF i(2), of a] v(3,8) by (auto simp: v(1,6))
  next
    case (3 a)
    then show ?case using list_invD(3) [OF i(2), of a] w(1) by (auto simp: v(2) private_node_def)
  next
    case (4 a)
    then show ?case using list_invD(4) [OF i(2), of a] w(4) by (auto simp: v(2) split: if_splits)
  next
    case (5 a)
    have sub: "(prev, n) \<in> links ?s" "(n, nx) \<in> links ?s"
      using v(3,4) by (auto simp: links_def v(6))
    have step: "(x, y) \<in> (links ?s)\<^sup>*" if "x \<in> public s" "succ_of s x = Some y" for x y
    proof (cases "x = prev")
      case True
      then have "y = nx" using that(2) cas by (simp add: succ_next)
      then show ?thesis using True sub by (meson converse_rtrancl_into_rtrancl r_into_rtrancl)
    next
      case False
      then have "(x, y) \<in> links ?s" using that v(3) by (auto simp: links_def v(6))
      then show ?thesis by simp
    qed
    have hd: "pool_head s \<in> public s" using i(1) by (simp add: sentinel_inv_def)
    note carry = links_carry [OF i(1,2,4) step hd]
    have "(pool_head s, prev) \<in> (links s)\<^sup>*"
      using w(2) cas list_invD(5) [OF i(2), of prev] by (auto simp: prev_ok_def live_def)
    then have "(pool_head s, n) \<in> (links ?s)\<^sup>*"
      using carry [of prev] sub(1) by (meson rtrancl_into_rtrancl)
    then show ?case using 5 carry [of a] list_invD(5) [OF i(2), of a] by (auto simp: v(7))
  qed
  moreover have "writer_inv ?s (writers ?s j)" for j
  proof (cases "j = i")
    case False
    then have "own (writers s j) \<noteq> Some prev" using v(4) by (auto dest: publicD)
    then show ?thesis using False by (auto intro!: writer_inv_grows [OF g i(3) [of j]])
  qed simp
  moreover have "cleaner_inv ?s (cleaner_at ?s)"
    using cleaner_inv_grows [OF g i(4)] by simp
  moreover have "tx_inv t0 ?s"
  proof -
    have a: "active_tx ?s (writers ?s j) = (if j = i then None else active_tx s (writers s j))" for j
      by (cases "j = i") (auto intro!: active_tx_cong)
    show ?thesis
    proof (rule tx_invI, unfold a v(2), goal_cases)
      case (1 j k t)
      then show ?case using tx_invD(1) [OF i(5), of j t k] by (auto split: if_splits)
    next
      case (3 j t b)
      then show ?case using tx_invD(3) [OF i(5), of j t b] tx_invD(1) [OF i(5) act, of j]
        by (auto split: if_splits)
    next
      case (4 j t)
      then show ?case using tx_invD(4) [OF i(5), of j t] by (auto split: if_splits)
    next
      case (7 t)
      then consider k where "active_tx s (writers s k) = Some t" | b where "b \<in> inner s" "tx_of s b = t"
        using tx_invD(7) [OF i(5), of t] by auto
      then show ?case
      proof cases
        case (1 k)
        then show ?thesis using act by (cases "k = i") auto
      qed auto
    next
      case (5 b)
      then show ?case using tx_invD(5) [OF i(5), of b] w(1) by (auto simp: private_node_def)
    qed (use tx_invD(2,6,8,9,10) [OF i(5)] in \<open>auto split: if_splits\<close>)
  qed
  moreover have "progress_inv ?s" by (rule not_quiet [of _ i]) simp
  ultimately show ?thesis by (simp add: txpool_inv_def)
qed

lemma insert_cas_inv [inv_intros]:
  assumes inv: "txpool_inv t0 s" and at: "writers s i = W_InsertCAS n prev nx"
  shows "txpool_inv t0 (insert_cas i n prev nx s)"
  using insert_link_inv [OF inv at] txpool_invD(3) [OF inv, of i] at
  unfolding insert_cas_def by (auto intro!: goto_inv [OF inv])

text \<open>Steps that keep the public nodes and transaction numbers and all private nodes.\<close>

lemma relink_inv:
  assumes inv: "txpool_inv t0 s"
    and frame: "pool_head s' = pool_head s" "pool_tail s' = pool_tail s" "fresh s' = fresh s"
      "public s' = public s" "tx_of s' = tx_of s" "highWatermark s' = highWatermark s"
      "finished s' = finished s" "db_tx s' = db_tx s"
    and act: "\<And>j. active_tx s (writers s' j) = active_tx s (writers s j)"
    and opn: "\<And>j. open_tx (writers s' j) = open_tx (writers s j)"
    and wr: "\<And>j. writers s' j \<noteq> writers s j \<Longrightarrow> writer_inv s' (writers s' j)"
    and priv: "\<And>a. a \<notin> public s \<Longrightarrow> next_of s' a = next_of s a \<and> original_of s' a = original_of s a"
    and nxt: "\<And>a. a \<in> public s \<Longrightarrow> next_of s a = None \<Longrightarrow> next_of s' a = None"
    and orig: "\<And>a. a \<in> public s \<Longrightarrow> original_of s a \<noteq> None \<Longrightarrow> original_of s' a = original_of s a"
    and rest: "sentinel_inv s'" "list_inv s'" "cleaner_inv s' (cleaner_at s')" "progress_inv s'"
  shows "txpool_inv t0 s'"
proof -
  note i = txpool_invD [OF inv]
  have g: "grows s s'" using frame nxt orig by (auto simp: grows_def)
  have n: "inner s' = inner s" by (simp add: inner_def frame)
  have "writer_inv s' (writers s' j)" for j
  proof (cases "writers s' j = writers s j")
    case True
    then show ?thesis
      using frame priv by (auto intro!: writer_inv_grows [OF g i(3) [of j]] dest: publicD)
  qed (rule wr)
  moreover have "active_tx s' = active_tx s" by (intro ext active_tx_cong) (simp add: frame)
  then have "tx_inv t0 s'" using i(5) unfolding tx_inv_def by (simp add: frame n act opn)
  ultimately show ?thesis using rest by (simp add: txpool_inv_def)
qed

lemma own_not_public: "own (writers s j) = Some a \<Longrightarrow> a \<notin> public s"
  by (auto dest: publicD)

text \<open>Unlinking a deleted node: a node reachable before is reachable after, but for the node itself.\<close>

lemma unlink_reach:
  assumes succ': "succ_of s' = (succ_of s)(prev := Some og)"
    and "succ_of s prev = Some node" "succ_of s node = Some og" "prev \<noteq> node"
    and r: "(c, a) \<in> (links s)\<^sup>*"
  shows "(c, a) \<in> (links s')\<^sup>* \<or> a = node \<and> (c, prev) \<in> (links s')\<^sup>*"
  using r
proof (induction rule: rtrancl_induct)
  case (step y z)
  have l: "(x, w) \<in> links s' \<longleftrightarrow> (if x = prev then w = og else (x, w) \<in> links s)" for x w
    using succ' by (auto simp: links_def)
  show ?case
  proof (cases "y = node \<and> (c, prev) \<in> (links s')\<^sup>*")
    case True
    then have "z = og" using step.hyps assms(3) by (auto simp: links_def)
    moreover have "(prev, og) \<in> links s'" by (simp add: l)
    ultimately show ?thesis using True by (meson rtrancl_into_rtrancl)
  next
    case False
    then have y: "(c, y) \<in> (links s')\<^sup>*" using step.IH by blast
    show ?thesis
    proof (cases "y = prev")
      case True
      then show ?thesis using step.hyps assms(2) y by (simp add: links_def)
    next
      case False
      then have "(y, z) \<in> links s'" using step.hyps by (simp add: l)
      then show ?thesis using y by (meson rtrancl_into_rtrancl)
    qed
  qed
qed simp

lemma ordered_trans:
  "ordered s a b \<Longrightarrow> b \<in> inner s \<Longrightarrow> ordered s b c \<Longrightarrow> ordered s a c"
  by (auto simp: ordered_def inner_def)

lemma unlink_inv:
  assumes inv: "txpool_inv t0 s" and at: "writers s i = W_Unlink n prev node og"
    and cas: "next_of s prev = Some node"
  shows "txpool_inv t0 (goto i (W_TryInsert n) (store_next prev (Some og) s))" (is "txpool_inv t0 ?s")
proof -
  note i = txpool_invD [OF inv]
  have w: "private_node s n" "prev_ok s n prev" "node \<in> inner s" "next_of s node = None"
    "original_of s node = Some og"
    using i(3) [of i] at by auto
  have prev: "prev \<in> public s" "prev \<noteq> pool_tail s"
    using w(2) i(1) by (auto simp: prev_ok_def sentinel_inv_def inner_def)
  have ne: "prev \<noteq> node" using cas w(4) by auto
  have p: "public ?s = public s"
    by (subst views_goto(1)) (simp_all add: at public_def owned_def)
  then have n: "inner ?s = inner s" by (simp add: inner_def)
  have u: "succ_of ?s = (succ_of s)(prev := Some og)"
    by (auto simp: fun_eq_iff succ_next intro!: succ_of_cong)
  have o: "ordered ?s = ordered s" by (simp add: ordered_def fun_eq_iff n)
  have lv: "live ?s a \<longleftrightarrow> live s a" for a using cas by (auto simp: live_def n split: if_splits)
  have succs: "succ_of s prev = Some node" "succ_of s node = Some og"
    using cas w by (simp_all add: succ_next succ_original)
  have ord: "ordered s prev og"
    using ordered_trans [OF succ_ordered [OF i(2) prev succs(1)] w(3)]
      succ_ordered [OF i(2) inner_public [OF w(3)] _ succs(2)] w(3) by (auto simp: inner_def)
  have "list_inv ?s"
  proof (rule list_invI, unfold p n o lv u, goal_cases)
    case (1 a)
    then show ?case using list_invD(1) [OF i(2), of a] list_invD(1) [OF i(2) prev(1)] cas
      by (auto split: if_splits)
  next
    case (2 a)
    then show ?case using list_invD(2) [OF i(2), of a] ord by auto
  next
    case (3 a)
    then show ?case using list_invD(3) [OF i(2), of a] by simp
  next
    case (4 a)
    then show ?case using list_invD(4) [OF i(2), of a] by (auto split: if_splits)
  next
    case (5 a)
    then have "a \<noteq> node" using w(4) by (auto simp: live_def)
    then show ?case using unlink_reach [OF u succs ne list_invD(5) [OF i(2) 5]] by simp
  qed
  moreover have "sentinel_inv ?s" using i(1) prev by (auto simp: sentinel_inv_def p)
  moreover have "cleaner_inv ?s (cleaner_at ?s)"
    by (rule cleaner_inv_grows [of s]) (use i(4) cas in \<open>auto simp: grows_def p\<close>)
  moreover have "progress_inv ?s" by (rule not_quiet [of _ i]) simp
  moreover have "writer_inv ?s (W_TryInsert n)" using w(1) by (simp add: private_node_def)
  ultimately show ?thesis
    using at prev cas by (intro relink_inv [OF inv]) (auto simp: p split: if_splits)
qed

lemma tryInsert_unlink_inv [inv_intros]:
  assumes inv: "txpool_inv t0 s" and at: "writers s i = W_Unlink n prev node og"
  shows "txpool_inv t0 (tryInsert_unlink i n prev node og s)"
  using unlink_inv [OF inv at] txpool_invD(3) [OF inv, of i] at
  unfolding tryInsert_unlink_def by (auto intro!: goto_inv [OF inv])

lemma insert_notify_inv [inv_intros]:
  assumes inv: "txpool_inv t0 s" and at: "writers s i = W_Notify n"
  shows "txpool_inv t0 (insert_notify i s)" (is "txpool_inv t0 ?s")
proof -
  note i = txpool_invD [OF inv]
  have sh: "same_heap s ?s" using at unfolding insert_notify_def by (auto intro!: same_heap_owner)
  have f: "highWatermark ?s = highWatermark s" "finished ?s = finished s" "db_tx ?s = db_tx s"
    "writers ?s = (writers s)(i := W_Idle)" "drain ?s"
    by (simp_all add: insert_notify_def)
  have "active_tx s (writers ?s j) = active_tx s (writers s j)"
    "open_tx (writers ?s j) = open_tx (writers s j)" for j
    using at by (simp_all add: f)
  then have "tx_inv t0 ?s" using i(5) unfolding tx_inv_def views_same [OF sh] f(1-3) by simp
  moreover have "progress_inv ?s" by (simp add: progress_inv_def quiet_def f)
  ultimately show ?thesis
    by (intro same_heap_inv [OF inv sh _ f(4)]) (simp_all add: f)
qed

section \<open>Steps of the cleaner\<close>

lemma cleaner_move_inv:
  assumes inv: "txpool_inv t0 s"
    and frame: "pool_head s' = pool_head s" "pool_tail s' = pool_tail s" "fresh s' = fresh s"
      "tx_of s' = tx_of s" "highWatermark s' = highWatermark s"
      "finished s' = finished s" "db_tx s' = db_tx s" "writers s' = writers s"
    and succ: "succ_of s' = succ_of s"
    and nxt: "\<And>a. next_of s' a = next_of s a \<or>
      a \<in> inner s \<and> next_of s' a = None \<and> tx_of s a \<le> highWatermark s"
    and orig: "\<And>a. original_of s' a = original_of s a \<or>
      a \<in> inner s \<and> next_of s' a = None \<and> original_of s a = None"
    and rest: "cleaner_inv s' (cleaner_at s')" "progress_inv s'"
  shows "txpool_inv t0 s'"
proof -
  note i = txpool_invD [OF inv]
  have p: "public s' = public s" by (simp add: public_def owned_def frame)
  have n: "inner s' = inner s" by (simp add: inner_def frame p)
  have o: "ordered s' = ordered s" by (simp add: ordered_def fun_eq_iff n frame)
  have out: "next_of s' a = next_of s a \<and> original_of s' a = original_of s a" if "a \<notin> inner s" for a
    using that nxt [of a] orig [of a] by blast
  have "sentinel_inv s'"
    using i(1) out [of "pool_head s"] out [of "pool_tail s"]
    by (simp add: sentinel_inv_def p frame inner_def)
  moreover have "list_inv s'"
  proof (rule list_invI, unfold p n o succ frame, goal_cases)
    case (1 a)
    then show ?case using list_invD(1) [OF i(2), of a] nxt [of a] orig [of a] by auto
  next
    case (2 a)
    then show ?case using list_invD(2) [OF i(2), of a] by simp
  next
    case (3 a)
    then show ?case using list_invD(3) [OF i(2), of a] by simp
  next
    case (4 a)
    then show ?case using list_invD(4) [OF i(2), of a] nxt [of a] by auto
  next
    case (5 a)
    then have "live s a" using nxt [of a] by (auto simp: live_def n)
    then show ?case using list_invD(5) [OF i(2)] by (simp add: links_def succ)
  qed
  moreover have "next_of s' a = None" if "next_of s a = None" for a using that nxt [of a] by auto
  moreover have "original_of s' a = original_of s a" if "original_of s a \<noteq> None" for a
    using that orig [of a] by auto
  moreover have "next_of s' a = next_of s a \<and> original_of s' a = original_of s a" if "a \<notin> public s" for a
    using that out [of a] by (auto dest: inner_public)
  ultimately show ?thesis
    using rest by (intro relink_inv [OF inv]) (simp_all add: frame p)
qed

fun saving :: "cleaner_pc \<Rightarrow> bool" where
  "saving (C_MarkOriginal _ _) = True"
| "saving _ = False"

lemma succ_cleaner_goto:
  "\<not> saving (cleaner_at s) \<Longrightarrow> \<not> saving p \<Longrightarrow> succ_of (cleaner_goto p s) = succ_of s"
  unfolding succ_of_def cleaner_goto_frame by (auto split: cleaner_pc.splits option.splits simp: fun_eq_iff)

lemma ahead_links: "links s' = links s \<Longrightarrow> ahead s' q a = ahead s q a"
  by (cases q) simp_all

lemma cleaner_goto_inv [inv_intros]:
  assumes inv: "txpool_inv t0 s" and q: "\<not> saving (cleaner_at s)" "\<not> saving p"
    and c: "cleaner_inv s p"
    and prog: "\<And>a. quiet s \<Longrightarrow> reached s a \<Longrightarrow> ahead s p a"
  shows "txpool_inv t0 (cleaner_goto p s)"
proof -
  have su: "succ_of (cleaner_goto p s) = succ_of s" using q by (rule succ_cleaner_goto)
  have p: "public (cleaner_goto p s) = public s" by (simp add: public_def owned_def)
  then have n: "inner (cleaner_goto p s) = inner s" by (simp add: inner_def)
  have "grows s (cleaner_goto p s)" by (simp add: grows_def p)
  then have "cleaner_inv (cleaner_goto p s) p" using c by (rule cleaner_inv_grows) simp_all
  moreover have "progress_inv (cleaner_goto p s)"
    using prog ahead_links [of "cleaner_goto p s" s p]
    by (auto simp: progress_inv_def quiet_def reached_def live_def n links_def su)
  ultimately show ?thesis by (intro cleaner_move_inv [OF inv]) (simp_all add: su)
qed

lemma links_tail: "sentinel_inv s \<Longrightarrow> cleaner_inv s (cleaner_at s) \<Longrightarrow> (pool_tail s, a) \<in> (links s)\<^sup>* \<Longrightarrow> a = pool_tail s"
  by (erule converse_rtranclE) (auto simp: links_def succ_of_def sentinel_inv_def inner_def
      split: cleaner_pc.splits if_splits)

lemma links_sorted:
  assumes inv: "sentinel_inv s" "list_inv s" "cleaner_inv s (cleaner_at s)"
    and r: "(c, a) \<in> (links s)\<^sup>*" and c: "c \<in> inner s"
  shows "a = pool_tail s \<or> a \<in> inner s \<and> tx_of s c \<le> tx_of s a"
  using r
proof (induction rule: rtrancl_induct)
  case (step y z)
  have "y \<in> public s" using step.IH inv(1) by (auto simp: sentinel_inv_def inner_def)
  then have o: "ordered s y z" and y: "y \<noteq> pool_tail s"
    using succ_public [OF inv] step.hyps(2) by (auto simp: links_def)
  then show ?case using step.IH by (auto simp: ordered_def inner_def)
qed (simp add: c)

lemma links_first:
  assumes "(c, a) \<in> (links s)\<^sup>*" "a \<noteq> c" "succ_of s c = Some b"
  shows "(b, a) \<in> (links s)\<^sup>*"
  using assms by (auto simp: links_def elim: converse_rtranclE)

text \<open>The loop condition of \<open>delete\<close>.\<close>

lemma delete_head_inv [inv_intros]:
  assumes inv: "txpool_inv t0 s" and q: "\<not> saving (cleaner_at s)"
    and b: "b = pool_tail s \<or> b \<in> inner s"
    and prog: "\<And>a. quiet s \<Longrightarrow> reached s a \<Longrightarrow> (b, a) \<in> (links s)\<^sup>*"
  shows "txpool_inv t0 (delete_head (Some b) s)"
proof (cases "tx_of s b = 0")
  case True
  note i = txpool_invD [OF inv]
  have "b = pool_tail s" using b True inner_tx_nonzero [OF i(2)] by blast
  then have "\<not> (quiet s \<and> reached s a)" for a
    using prog [of a] links_tail [OF i(1,4)] by (auto simp: reached_def live_def inner_def)
  then show ?thesis using q True by (auto simp: delete_head_def intro!: cleaner_goto_inv [OF inv])
next
  case False
  then have "b \<in> inner s" using b tail_tx_zero [OF txpool_invD(1) [OF inv]] by auto
  then show ?thesis using q False prog by (auto simp: delete_head_def intro!: cleaner_goto_inv [OF inv])
qed

lemma delete_start_inv [inv_intros]:
  assumes inv: "txpool_inv t0 s" and at: "cleaner_at s = C_Delete"
  shows "txpool_inv t0 (delete_head (next_of s (pool_head s)) s)"
proof -
  note i = txpool_invD [OF inv]
  obtain b where b: "next_of s (pool_head s) = Some b" using i(1) by (auto simp: sentinel_inv_def)
  have "ordered s (pool_head s) b"
    using i(1) by (intro succ_ordered [OF i(2)]) (auto simp: sentinel_inv_def succ_next b)
  moreover have "(b, a) \<in> (links s)\<^sup>*" if "live s a" for a
    using links_first [OF list_invD(5) [OF i(2) that], of b] that succ_next [OF b]
    by (auto simp: live_def inner_def)
  ultimately show ?thesis
    using at unfolding b by (intro delete_head_inv [OF inv]) (auto simp: ordered_def reached_def)
qed

lemma deleteFunc_load_inv [inv_intros]:
  assumes inv: "txpool_inv t0 s" and at: "cleaner_at s = C_DeleteFunc c"
  shows "txpool_inv t0 (deleteFunc_load c s)"
proof -
  note i = txpool_invD [OF inv]
  have c: "c \<in> inner s" using i(4) at by simp
  have ah: "(c, a) \<in> (links s)\<^sup>*" if "quiet s" "reached s a" for a
    using i(6) that at by (auto simp: progress_inv_def)
  have stop: "highWatermark s + 1 = tx_of s c \<or> tx_of s c \<le> highWatermark s"
    if "quiet s" "reached s a" for a
  proof -
    have "tx_of s c \<le> tx_of s a"
      using links_sorted [OF i(1,2,4) ah [OF that] c] that(2) by (auto simp: reached_def live_def inner_def)
    then show ?thesis
      using that(2) word_le_Suc_cases [of "tx_of s c" "highWatermark s"] by (auto simp: reached_def)
  qed
  show ?thesis
    unfolding deleteFunc_load_def using at c ah stop
    by (intro cleaner_goto_inv [OF inv]) (auto split: if_splits)
qed

lemma single_valued_links: "single_valued (links s)"
  by (auto simp: single_valued_def links_def)

text \<open>Raising the watermark to the transaction of an unmarked node at the cleaner's position.\<close>

lemma raise_mark_inv:
  assumes inv: "txpool_inv t0 s" and at: "cleaner_at s = C_DeleteFunc c"
    and t: "highWatermark s + 1 = tx_of s c"
  shows "txpool_inv t0 (s\<lparr>highWatermark := tx_of s c\<rparr>)" (is "txpool_inv t0 ?s")
proof -
  note i = txpool_invD [OF inv]
  have c: "c \<in> inner s" using i(4) at by simp
  have sh: "same_heap s ?s" by (simp add: same_heap_def owned_def)
  note v = views_same [OF sh]
  have nz: "tx_of s c \<noteq> 0" by (rule list_invD(3) [OF i(2) c])
  have hw: "highWatermark s < tx_of s c" using word_less_Suc [of "highWatermark s"] t nz by simp
  have noc: "writers s j \<noteq> W_CommitStore u" for j u
    using i(3) [of j] tx_invD(3) [OF i(5), of j u c] c t by auto
  have "tx_inv t0 ?s"
  proof (rule tx_invI, unfold v, goal_cases)
    case (7 u)
    then show ?case using tx_invD(7) [OF i(5), of u] hw by auto
  next
    case (8 u)
    then show ?case using tx_invD(8) [OF i(5), of u] tx_invD(5) [OF i(5) c] t
        word_le_Suc_cases [of u "highWatermark s"] by auto
  next
    case 9
    then show ?case using tx_invD(9) [OF i(5)] hw by simp
  next
    case 10
    then show ?case using tx_invD(6) [OF i(5) tx_invD(5) [OF i(5) c]] by simp
  qed (use tx_invD(1-6) [OF i(5)] in \<open>simp, blast?\<close>)+
  moreover have "progress_inv ?s"
  proof -
    have "(c, a) \<in> (links s)\<^sup>*" if "quiet s" "live s a" "tx_of s a \<le> tx_of s c \<or> tx_of s a = tx_of s c + 1" for a
    proof (cases "tx_of s a \<le> tx_of s c")
      case True
      then have "reached s a" using that(2) word_le_Suc_cases [of "tx_of s a" "highWatermark s"] t
        by (auto simp: reached_def)
      then show ?thesis using i(6) that(1) at by (simp add: progress_inv_def)
    next
      case False
      have "live s c" using list_invD(4) [OF i(2) c] hw c by (force simp: live_def)
      then have "(c, a) \<in> (links s)\<^sup>* \<or> (a, c) \<in> (links s)\<^sup>*"
        using single_valued_confluent [OF single_valued_links] list_invD(5) [OF i(2)] that(2) by blast
      then show ?thesis
        using links_sorted [OF i(1,2,4), of a c] that(2) False c by (auto simp: live_def inner_def)
    qed
    then show ?thesis by (simp add: progress_inv_def reached_def v at quiet_def)
  qed
  ultimately show ?thesis
    using hw noc i(3) [of 0] at
    by (intro same_heap_inv [OF inv sh, where i = 0 and p = "writers s 0"])
       (auto intro!: writer_inv_grows [OF same_heap_grows [OF sh]])
qed

lemma deleteFunc_store_inv [inv_intros]:
  assumes inv: "txpool_inv t0 s" and at: "cleaner_at s = C_StoreMark c"
  shows "txpool_inv t0 (deleteFunc_store c s)"
proof -
  note i = txpool_invD [OF inv]
  let ?r = "cleaner_goto (C_DeleteFunc c) s"
  let ?u = "?r\<lparr>highWatermark := tx_of ?r c\<rparr>"
  have c: "c \<in> inner s" "highWatermark s + 1 = tx_of s c" using i(4) at by auto
  have r: "txpool_inv t0 ?r"
    using i(6) c at by (intro cleaner_goto_inv [OF inv]) (auto simp: progress_inv_def)
  have u: "txpool_inv t0 ?u" by (rule raise_mark_inv [OF r]) (simp_all add: c)
  have cu: "cleaner_at ?u = C_DeleteFunc c" by simp
  have "txpool_inv t0 (cleaner_goto (C_MarkLoad c) ?u)"
    using txpool_invD(4,6) [OF u] by (intro cleaner_goto_inv [OF u]) (auto simp: cu progress_inv_def)
  moreover have "cleaner_goto (C_MarkLoad c) ?u = deleteFunc_store c s"
    by (simp add: deleteFunc_store_def cleaner_goto_def tx_of_def)
  ultimately show ?thesis by simp
qed

lemma mark_load_inv [inv_intros]:
  assumes inv: "txpool_inv t0 s" and at: "cleaner_at s = C_MarkLoad c"
  shows "txpool_inv t0 (mark_load c s)"
proof -
  note i = txpool_invD [OF inv]
  have c: "c \<in> inner s" "tx_of s c \<le> highWatermark s" using i(4) at by auto
  have ah: "(c, a) \<in> (links s)\<^sup>*" if "quiet s" "reached s a" for a
    using i(6) that at by (auto simp: progress_inv_def)
  have "original_of s c \<noteq> None" if "next_of s c = None"
    using list_invD(2) [OF i(2) inner_public [OF c(1)]] c that at
    by (auto simp: succ_of_def inner_def split: option.splits)
  then show ?thesis
    unfolding mark_load_def using at c ah
    by (intro cleaner_goto_inv [OF inv]) (auto split: option.splits)
qed

lemma mark_cas_inv [inv_intros]:
  assumes inv: "txpool_inv t0 s" and at: "cleaner_at s = C_MarkCAS c nx"
  shows "txpool_inv t0 (mark_cas c nx s)"
proof (cases "next_of s c = Some nx")
  case True
  note i = txpool_invD [OF inv]
  let ?s = "cleaner_goto (C_MarkOriginal c nx) (store_next c None s)"
  have c: "c \<in> inner s" "tx_of s c \<le> highWatermark s" using i(4) at by auto
  have o: "original_of s c = None" using list_invD(1) [OF i(2) inner_public [OF c(1)]] True by simp
  have su: "succ_of ?s = succ_of s"
  proof
    fix a show "succ_of ?s a = succ_of s a"
      by (cases "a = c") (auto simp: succ_of_def o True at split: option.splits)
  qed
  have n: "inner ?s = inner s" by (simp add: inner_def public_def owned_def)
  have "progress_inv ?s"
    using i(6) at by (auto simp: progress_inv_def quiet_def reached_def live_def n links_def su
        split: if_splits)
  then show ?thesis
    using c o True by (auto simp: mark_cas_def n su intro!: cleaner_move_inv [OF inv] split: if_splits)
next
  case False
  have "txpool_inv t0 (cleaner_goto (C_MarkLoad c) s)"
    using txpool_invD(4,6) [OF inv] at by (intro cleaner_goto_inv [OF inv]) (auto simp: progress_inv_def)
  then show ?thesis using False by (simp add: mark_cas_def)
qed

lemma mark_original_inv [inv_intros]:
  assumes inv: "txpool_inv t0 s" and at: "cleaner_at s = C_MarkOriginal c nx"
  shows "txpool_inv t0 (mark_original c nx s)"
proof -
  note i = txpool_invD [OF inv]
  let ?s = "mark_original c nx s"
  have c: "c \<in> inner s" "next_of s c = None" "original_of s c = None" using i(4) at by auto
  have su: "succ_of ?s = succ_of s"
  proof
    fix a show "succ_of ?s a = succ_of s a"
      by (cases "a = c") (auto simp: succ_of_def mark_original_def c at split: option.splits)
  qed
  have n: "inner ?s = inner s" by (simp add: inner_def public_def owned_def mark_original_def)
  have l: "links ?s = links s" by (simp add: links_def su)
  have "progress_inv ?s"
    using i(6) at n l unfolding mark_original_def
    by (auto simp: progress_inv_def quiet_def reached_def live_def)
  then show ?thesis
    using c n su unfolding mark_original_def
    by (intro cleaner_move_inv [OF inv]) (auto split: if_splits)
qed

lemma delete_getUnmarked_inv [inv_intros]:
  assumes inv: "txpool_inv t0 s" and at: "cleaner_at s = C_GetUnmarked c"
  shows "txpool_inv t0 (delete_getUnmarked c s)"
  using txpool_invD(4,6) [OF inv] at unfolding delete_getUnmarked_def
  by (auto simp: progress_inv_def intro!: cleaner_goto_inv [OF inv])

lemma delete_getUnmarked_spin_inv [inv_intros]:
  assumes inv: "txpool_inv t0 s" and at: "cleaner_at s = C_GetUnmarkedSpin c"
  shows "txpool_inv t0 (delete_getUnmarked_spin c s)"
proof -
  note i = txpool_invD [OF inv]
  have c: "c \<in> inner s" "next_of s c = None" using i(4) at by auto
  obtain b where b: "original_of s c = Some b" using i(4) at by auto
  note su = succ_original [OF c(2) b]
  have "ordered s c b" using c by (intro succ_ordered [OF i(2) _ _ su]) (auto simp: inner_def)
  moreover have "(b, a) \<in> (links s)\<^sup>*" if "quiet s" "reached s a" for a
  proof -
    have "(c, a) \<in> (links s)\<^sup>*" using i(6) that at by (simp add: progress_inv_def)
    moreover have "a \<noteq> c" using that(2) c by (auto simp: reached_def live_def)
    ultimately show ?thesis by (rule links_first [OF _ _ su])
  qed
  ultimately show ?thesis
    using at b by (auto simp: delete_getUnmarked_spin_def intro!: delete_head_inv [OF inv]
        dest: ordered_target)
qed

lemma wake_inv:
  assumes inv: "txpool_inv t0 s" and at: "cleaner_at s = C_Wait"
  shows "txpool_inv t0 (cleaner_goto C_Delete (s\<lparr>drain := False\<rparr>))" (is "txpool_inv t0 ?s")
proof -
  have su: "succ_of ?s = succ_of s"
  proof
    fix a show "succ_of ?s a = succ_of s a" by (simp add: succ_of_def at split: option.splits)
  qed
  show ?thesis
    by (rule cleaner_move_inv [OF inv]) (simp_all add: su progress_inv_def)
qed

lemma Stop_inv: "txpool_inv t0 s \<Longrightarrow> txpool_inv t0 (Stop s)"
proof -
  assume inv: "txpool_inv t0 s"
  have sh: "same_heap s (Stop s)" by (simp add: same_heap_def owned_def Stop_def)
  have f: "writers (Stop s) = writers s" "highWatermark (Stop s) = highWatermark s"
    "finished (Stop s) = finished s" "db_tx (Stop s) = db_tx s" "drain (Stop s) = drain s"
    by (simp_all add: Stop_def)
  have "tx_inv t0 (Stop s)" using txpool_invD(5) [OF inv] unfolding tx_inv_def views_same [OF sh] f .
  moreover have "progress_inv (Stop s)"
    using txpool_invD(6) [OF inv] ahead_links [of "Stop s" s]
    unfolding progress_inv_def reached_def quiet_def views_same [OF sh] f by simp
  ultimately show ?thesis
    using txpool_invD(3) [OF inv, of 0]
    by (intro same_heap_inv [OF inv sh, where i = 0 and p = "writers s 0"])
       (auto simp: f views_same(1,2) [OF sh] intro!: writer_inv_grows [OF same_heap_grows [OF sh]])
qed

section \<open>Every reachable state\<close>

lemma writer_step_inv:
  assumes "txpool_inv t0 s" "db_tx s \<le> db_tx (writer_step i s)"
  shows "txpool_inv t0 (writer_step i s)"
  using assms
  by (cases "writers s i") (auto simp: writer_step_def begin_step_def Let_def intro: inv_intros
      intro!: begin_step_inv [unfolded begin_step_def Let_def])

lemma cleaner_step_inv:
  assumes inv: "txpool_inv t0 s"
  shows "txpool_inv t0 (cleaner_step stop s)"
proof (cases "cleaner_at s")
  case C_Wait
  have "txpool_inv t0 (cleaner_goto C_Stopped s)"
    by (rule cleaner_goto_inv [OF inv]) (simp_all add: C_Wait)
  then show ?thesis using C_Wait inv wake_inv [OF inv] by (simp add: cleaner_step_def)
qed (auto simp: cleaner_step_def inv intro: inv_intros)

theorem tx_step_inv:
  assumes "tx_step s s'" "txpool_inv t0 s" "db_tx s \<le> db_tx s'"
  shows "txpool_inv t0 s'"
  using assms by (cases rule: tx_step.cases) (auto intro: writer_step_inv cleaner_step_inv Stop_inv)

theorem tx_reachable_inv: "tx_reachable t0 s \<Longrightarrow> txpool_inv t0 s"
  by (induction rule: tx_reachable.induct) (auto intro: txpool_inv_init tx_step_inv)

section \<open>What the database relies on\<close>

text \<open>C1: Snapshot isolation. Whatever the interleaving of writers and cleaner, every
  transaction at or below the high watermark has finished: a read at the watermark
  never sees a transaction that is still running.\<close>

theorem watermark_only_finished:
  assumes "tx_reachable t0 s" and "t0 < t" and "t \<le> highWatermark s"
  shows "t \<in> finished s \<and> (\<forall>i. open_tx (writers s i) \<noteq> Some t)"
  using tx_invD(4,8) [OF txpool_invD(5) [OF tx_reachable_inv [OF assms(1)]]] assms(2,3) by blast

text \<open>Two writers begin transactions 1 and 2; transaction 2 commits first, then 1, then the cleaner runs.\<close>

definition commit_order :: "tx_event list" where
  "commit_order = [Ev_Writer 0, Ev_Writer 1] @ replicate 8 (Ev_Writer 1) @ replicate 5 (Ev_Cleaner False) @
     replicate 10 (Ev_Writer 0) @ replicate 20 (Ev_Cleaner False)"

theorem watermark_only_finished_witness:
  "(2 :: uint64) \<le> highWatermark (run_schedule commit_order (resetToTxn 0 (NewTxPool 0 0))) \<and>
   2 \<in> finished (run_schedule commit_order (resetToTxn 0 (NewTxPool 0 0)))"
proof -
  have w: "no_wrap commit_order (resetToTxn 0 (NewTxPool 0 0))" by code_simp
  have m: "(2 :: uint64) \<le> highWatermark (run_schedule commit_order (resetToTxn 0 (NewTxPool 0 0)))"
    by code_simp
  show ?thesis using watermark_only_finished [OF schedule_reachable [OF w], of 2] m by simp
qed

text \<open>C16: The high watermark never moves backwards, although both the committing
  writers and the cleaner load and store it without a lock.\<close>

theorem watermark_monotone:
  assumes r: "tx_reachable t0 s" and st: "tx_step s s'" and nw: "db_tx s \<le> db_tx s'"
  shows "highWatermark s \<le> highWatermark s'"
proof -
  note i = txpool_invD [OF tx_reachable_inv [OF r]]
  have hd: "highWatermark (loop_head i n p b u) = highWatermark u"
    "highWatermark (delete_head b u) = highWatermark u" for i n p b u
    by (simp_all add: loop_head_def delete_head_def split: option.splits)
  have up: "highWatermark s \<le> t" if "highWatermark s + 1 = t" "t \<noteq> 0" for t
    using that word_less_Suc [of "highWatermark s"] by auto
  have w: "highWatermark s \<le> highWatermark (writer_step j s)" for j
  proof (cases "writers s j")
    case (W_CommitStore t)
    then have "t0 < t" using tx_invD(2) [OF i(5), of j t] by simp
    then have "t \<noteq> 0" by auto
    then show ?thesis
      using i(3) [of j] up [of t] W_CommitStore
      by (auto simp: writer_step_def commit_store_def)
  qed (auto simp: writer_step_def begin_step_def begin_load_def commit_call_def commit_load_def
      Insert_alloc_def tryInsert_start_def tryInsert_body_def isMarked_spin_def tryInsert_unlink_def
      getUnmarked_load_def getUnmarked_spin_def insert_store_def insert_cas_def insert_notify_def
      Let_def hd split: option.splits)
  have c: "highWatermark s \<le> highWatermark (cleaner_step stop s)" for stop
  proof (cases "cleaner_at s")
    case (C_StoreMark a)
    then show ?thesis
      using i(4) list_invD(3) [OF i(2), of a] up [of "tx_of s a"]
      by (auto simp: cleaner_step_def deleteFunc_store_def)
  qed (auto simp: cleaner_step_def deleteFunc_load_def mark_load_def mark_cas_def mark_original_def
      delete_getUnmarked_def delete_getUnmarked_spin_def hd split: option.splits)
  show ?thesis using st by (cases rule: tx_step.cases) (auto simp: w c Stop_def)
qed

theorem watermark_monotone_witness:
  "highWatermark (resetToTxn 7 (NewTxPool 0 0)) \<le> highWatermark (writer_step 0 (resetToTxn 7 (NewTxPool 0 0)))"
proof -
  have "db_tx (resetToTxn 7 (NewTxPool 0 0)) \<le> db_tx (writer_step 0 (resetToTxn 7 (NewTxPool 0 0)))"
    by code_simp
  then show ?thesis using watermark_monotone [OF tx_reachable.init tx_step.writer] by blast
qed

lemma finished_place:
  assumes "tx_reachable t0 s" and "t \<in> finished s" and "highWatermark s < t"
  shows "(\<exists>i. committing (writers s i) \<and> active_tx s (writers s i) = Some t) \<or>
    (\<exists>a. live s a \<and> tx_of s a = t \<and> (pool_head s, a) \<in> (links s)\<^sup>*)"
proof -
  note i = txpool_invD [OF tx_reachable_inv [OF assms(1)]]
  have "committing (writers s j)" if a: "active_tx s (writers s j) = Some t" for j
    using a tx_invD(4) [OF i(5), of j t] assms(2) by (cases "writers s j") auto
  moreover have "live s a" if "a \<in> inner s" "tx_of s a = t" for a
    using that list_invD(4) [OF i(2), of a] assms(3) by (force simp: live_def)
  ultimately show ?thesis
    using tx_invD(7) [OF i(5) assms(2,3)] list_invD(5) [OF i(2)] by blast
qed

text \<open>C14: No finished transaction is lost. One above the watermark is either still being
  inserted by its writer or sits in the pool: an unmarked node with its id is
  reachable from the head.\<close>

theorem finished_not_lost:
  assumes "tx_reachable t0 s" and "t \<in> finished s" and "highWatermark s < t"
  shows "(\<exists>i. committing (writers s i) \<and> active_tx s (writers s i) = Some t) \<or>
    (\<exists>a. live s a \<and> tx_of s a = t \<and> (pool_head s, a) \<in> (links s)\<^sup>*)"
  using assms by (rule finished_place)

definition commit_two :: "tx_event list" where
  "commit_two = [Ev_Writer 0, Ev_Writer 1] @ replicate 8 (Ev_Writer 1) @ replicate 5 (Ev_Cleaner False)"

theorem finished_not_lost_witness:
  "highWatermark (run_schedule commit_two (resetToTxn 0 (NewTxPool 0 0))) = 0 \<and>
   (\<exists>i. committing (writers (run_schedule commit_two (resetToTxn 0 (NewTxPool 0 0))) i) \<and>
      active_tx (run_schedule commit_two (resetToTxn 0 (NewTxPool 0 0)))
        (writers (run_schedule commit_two (resetToTxn 0 (NewTxPool 0 0))) i) = Some 2 \<or>
    (\<exists>a. live (run_schedule commit_two (resetToTxn 0 (NewTxPool 0 0))) a \<and>
      tx_of (run_schedule commit_two (resetToTxn 0 (NewTxPool 0 0))) a = 2))"
proof -
  have w: "no_wrap commit_two (resetToTxn 0 (NewTxPool 0 0))" by code_simp
  have m: "highWatermark (run_schedule commit_two (resetToTxn 0 (NewTxPool 0 0))) = 0"
    "2 \<in> finished (run_schedule commit_two (resetToTxn 0 (NewTxPool 0 0)))"
    by code_simp+
  show ?thesis using finished_not_lost [OF schedule_reachable [OF w] m(2)] m(1) by auto
qed

text \<open>The nodes between \<open>a\<close> and the tail, along the successors.\<close>

fun pool_list :: "txdb \<Rightarrow> addr \<Rightarrow> addr list \<Rightarrow> bool" where
  "pool_list s a [] = (succ_of s a = Some (pool_tail s))"
| "pool_list s a (b # bs) = (succ_of s a = Some b \<and> pool_list s b bs)"

lemma pool_list_exists:
  assumes inv: "sentinel_inv s" "list_inv s" "cleaner_inv s (cleaner_at s)" and c: "c \<in> inner s"
  shows "\<exists>as. pool_list s c as \<and> set as \<subseteq> inner s \<and> sorted_wrt (<) (map (tx_of s) (c # as))"
  using c
proof (induction "2 ^ 64 - unat (tx_of s c)" arbitrary: c rule: less_induct)
  case less
  have "c \<in> public s" "c \<noteq> pool_tail s" "c \<noteq> pool_head s" using less.prems by (auto simp: inner_def)
  then obtain b where b: "succ_of s c = Some b" "ordered s c b" using list_invD(2) [OF inv(2)] by blast
  show ?case
  proof (cases "b = pool_tail s")
    case True
    then show ?thesis using b(1) by (intro exI [of _ "[]"]) simp
  next
    case False
    then have lt: "b \<in> inner s" "tx_of s c < tx_of s b" using b(2) \<open>c \<noteq> pool_head s\<close> by (auto simp: ordered_def)
    have "unat (tx_of s b) < 2 ^ 64" using unsigned_less [of "tx_of s b", where ?'a = nat] by simp
    then have "2 ^ 64 - unat (tx_of s b) < 2 ^ 64 - unat (tx_of s c)"
      using lt(2) by (simp add: word_less_nat_alt)
    from less.hyps [OF this lt(1)] obtain bs where
      "pool_list s b bs" "set bs \<subseteq> inner s" "sorted_wrt (<) (map (tx_of s) (b # bs))" by blast
    then show ?thesis using b(1) lt by (intro exI [of _ "b # bs"]) auto
  qed
qed

lemma pool_list_covers:
  assumes "pool_list s c as" "(c, a) \<in> (links s)\<^sup>*" "\<And>x. (pool_tail s, x) \<in> (links s)\<^sup>* \<Longrightarrow> x = pool_tail s"
  shows "a = c \<or> a \<in> set as \<or> a = pool_tail s"
  using assms(1,2)
proof (induction as arbitrary: c)
  case Nil
  then show ?case using assms(3) links_first [of c a s] by auto
next
  case (Cons b bs)
  then show ?case using links_first [of c a s b] by (cases "a = c") auto
qed

text \<open>The node whose \<open>original\<close> pointer a writer waits for.\<close>

fun spins_on :: "writer_pc \<Rightarrow> addr option" where
  "spins_on (W_IsMarkedSpin n prev node) = Some node"
| "spins_on (W_GetUnmarkedSpin n node) = Some node"
| "spins_on _ = None"

lemma spin_ends:
  assumes "txpool_inv t0 s" "spins_on (writers s i) = Some a"
  shows "original_of s a \<noteq> None \<or> (\<exists>nx. cleaner_at s = C_MarkOriginal a nx)"
proof -
  note inv = txpool_invD [OF assms(1)]
  have "a \<in> inner s" "next_of s a = None"
    using inv(3) [of i] assms(2) by (cases "writers s i"; simp)+
  moreover from this have "succ_of s a \<noteq> None" using list_invD(2) [OF inv(2), of a] by (auto simp: inner_def)
  ultimately show ?thesis by (auto simp: succ_of_def split: option.splits cleaner_pc.splits if_splits)
qed

text \<open>C15: The pool is a sorted list at every moment, also when it is empty: \<open>next\<close> of the head is never nil, following the
  successor pointers from the head meets nodes with strictly increasing transactions, none of them zero, and ends at the tail,
  and every node that is not marked as deleted is met. So \<open>delete\<close> never dereferences a nil
  pointer, and a writer that waits for the \<open>original\<close> pointer of a marked node finds it set or
  about to be set by the cleaner.\<close>

theorem pool_sorted_no_panic:
  assumes "tx_reachable t0 s"
  shows "cleaner_at s \<noteq> C_Panic \<and> next_of s (pool_head s) \<noteq> None \<and>
    (\<exists>as. pool_list s (pool_head s) as \<and> sorted_wrt (<) (map (tx_of s) as) \<and> 0 \<notin> tx_of s ` set as \<and> {a. live s a} \<subseteq> set as) \<and>
    (\<forall>i a. spins_on (writers s i) = Some a \<longrightarrow> original_of s a \<noteq> None \<or> (\<exists>nx. cleaner_at s = C_MarkOriginal a nx))"
proof -
  note i = txpool_invD [OF tx_reachable_inv [OF assms(1)]]
  have head: "pool_head s \<in> public s" "pool_head s \<noteq> pool_tail s" "next_of s (pool_head s) \<noteq> None"
    using i(1) by (auto simp: sentinel_inv_def)
  then obtain b where b: "succ_of s (pool_head s) = Some b" "ordered s (pool_head s) b" using list_invD(2) [OF i(2)] by blast
  have "\<exists>as. pool_list s (pool_head s) as \<and> set as \<subseteq> inner s \<and> sorted_wrt (<) (map (tx_of s) as)"
  proof (cases "b = pool_tail s")
    case True
    then show ?thesis using b(1) by (intro exI [of _ "[]"]) simp
  next
    case False
    then have "b \<in> inner s" using b(2) by (auto simp: ordered_def)
    from pool_list_exists [OF i(1,2,4) this] obtain bs where
      "pool_list s b bs" "set bs \<subseteq> inner s" "sorted_wrt (<) (map (tx_of s) (b # bs))" by blast
    then show ?thesis using b(1) \<open>b \<in> inner s\<close> by (intro exI [of _ "b # bs"]) auto
  qed
  then obtain as where as: "pool_list s (pool_head s) as" "set as \<subseteq> inner s" "sorted_wrt (<) (map (tx_of s) as)" by blast
  have "0 \<notin> tx_of s ` set as" using as(2) list_invD(3) [OF i(2)] by force
  moreover have "a \<in> set as" if "live s a" for a
    using pool_list_covers [OF as(1) list_invD(5) [OF i(2) that] links_tail [OF i(1,4)]] that by (auto simp: live_def inner_def)
  moreover have "cleaner_at s \<noteq> C_Panic" using i(4) by auto
  ultimately show ?thesis using as(1,3) head(3) spin_ends [OF tx_reachable_inv [OF assms]] by blast
qed

definition commit_both :: "tx_event list" where
  "commit_both = [Ev_Writer 0, Ev_Writer 1] @ replicate 8 (Ev_Writer 1) @ replicate 10 (Ev_Writer 0)"

text \<open>Two transactions have been inserted in the other order.\<close>

theorem pool_sorted_no_panic_witness:
  "\<exists>as. length as = 2 \<and> pool_list (run_schedule commit_both (resetToTxn 0 (NewTxPool 0 0))) 1 as \<and>
    sorted_wrt (<) (map (tx_of (run_schedule commit_both (resetToTxn 0 (NewTxPool 0 0)))) as)"
proof -
  let ?s = "run_schedule commit_both (resetToTxn 0 (NewTxPool 0 0))"
  have w: "no_wrap commit_both (resetToTxn 0 (NewTxPool 0 0))" by code_simp
  have h: "pool_head ?s = 1" "pool_tail ?s = 0" by code_simp+
  have "succ_of ?s 1 = Some 3" "succ_of ?s 3 = Some 2" "succ_of ?s 2 = Some 0" "succ_of ?s 0 = None" by code_simp+
  then have "length as = 2" if "pool_list ?s 1 as" for as
    using that h by (cases as; cases "tl as"; cases "tl (tl as)"; cases "tl (tl (tl as))") auto
  then show ?thesis using pool_sorted_no_panic [OF schedule_reachable [OF w]] h(1) by auto
qed

text \<open>C11: No wake-up is lost. When no commit is under way, no notification is pending and the
  cleaner waits, the watermark stands exactly below the first unfinished
  transaction: the next transaction has not finished.\<close>

theorem quiescent_watermark_maximal:
  assumes "tx_reachable t0 s" and "quiet s" and "cleaner_at s = C_Wait"
  shows "highWatermark s + 1 \<notin> finished s"
proof
  assume n: "highWatermark s + 1 \<in> finished s"
  note i = txpool_invD [OF tx_reachable_inv [OF assms(1)]]
  have "t0 < highWatermark s + 1" using tx_invD(6) [OF i(5) n] by simp
  then have "highWatermark s + 1 \<noteq> 0" by auto
  then have hw: "highWatermark s < highWatermark s + 1" by (rule word_less_Suc)
  have "\<not> committing (writers s j)" for j using assms(2) by (simp add: quiet_def)
  then obtain a where "live s a" "tx_of s a = highWatermark s + 1"
    using finished_place [OF assms(1) n hw] by blast
  then show False using i(6) assms(2,3) by (auto simp: progress_inv_def reached_def)
qed

text \<open>Transaction 1 stays open while transaction 2 commits and the cleaner sweeps.\<close>

theorem quiescent_watermark_maximal_witness:
  "finished (run_schedule commit_two (resetToTxn 0 (NewTxPool 0 0))) = {2} \<and>
   highWatermark (run_schedule commit_two (resetToTxn 0 (NewTxPool 0 0))) + 1 \<notin>
     finished (run_schedule commit_two (resetToTxn 0 (NewTxPool 0 0)))"
proof -
  let ?s = "run_schedule commit_two (resetToTxn 0 (NewTxPool 0 0))"
  have w: "no_wrap commit_two (resetToTxn 0 (NewTxPool 0 0))" by code_simp
  have c: "cleaner_at ?s = C_Wait" "drain ?s = False" "finished ?s = {2}" by code_simp+
  have p: "writers ?s 0 = W_BeginLoad 1" "writers ?s 1 = W_Idle" by code_simp+
  have "writers ?s i = W_Idle" if "1 < i" for i
  proof -
    have "writers (writer_step j u) i = writers u i" if "j \<noteq> i" for j u
      using that by (auto simp: writer_step_def begin_step_def begin_load_def commit_call_def commit_load_def
        commit_store_def Insert_alloc_def tryInsert_start_def tryInsert_body_def isMarked_spin_def
        tryInsert_unlink_def loop_head_def getUnmarked_load_def getUnmarked_spin_def insert_store_def
        insert_cas_def insert_notify_def Let_def split: option.splits writer_pc.splits)
    moreover have "writers (cleaner_step b u) i = writers u i" for b u
      by (auto simp: cleaner_step_def deleteFunc_load_def deleteFunc_store_def mark_load_def mark_cas_def
        mark_original_def delete_getUnmarked_def delete_getUnmarked_spin_def delete_head_def
        split: option.splits cleaner_pc.splits)
    ultimately show ?thesis
      using that by (simp add: commit_two_def numeral_eq_Suc) (simp add: resetToTxn_def NewTxPool_def)
  qed
  then have "\<not> committing (writers ?s i)" for i
    using p by (cases "i = 0"; cases "i = 1") auto
  then have "quiet ?s" using c(2) by (simp add: quiet_def)
  then show ?thesis using quiescent_watermark_maximal [OF schedule_reachable [OF w] _ c(1)] c(3) by simp
qed

end
