(* ===== verification/Go_Heap.thy ===== *)
theory Go_Heap
  imports Frost_Prelude
begin

text \<open>
  The operations of Go's standard package \<open>container/heap\<close> that the write-ahead log,
  the group ranges and the record merge use, on a slice with a \<open>Less\<close> method given as
  a function on elements. The package is part of the language's library; the model
  follows its sift-up and sift-down loops.
\<close>

section \<open>Sifting\<close>

text \<open>\<open>h[a], h[b] = h[b], h[a]\<close>, the \<open>Swap\<close> of every client.\<close>

definition Swap :: "'a list \<Rightarrow> nat \<Rightarrow> nat \<Rightarrow> 'a list" where
  "Swap h a b = (let x = h ! a; y = h ! b in (h[a := y])[b := x])"

fun heap_up :: "('a \<Rightarrow> 'a \<Rightarrow> bool) \<Rightarrow> 'a list \<Rightarrow> nat \<Rightarrow> 'a list" where
  "heap_up lt xs j =
     (let i = (j - 1) div 2
      in if i = j \<or> \<not> lt (xs ! j) (xs ! i) then xs else heap_up lt (Swap xs i j) i)"

declare heap_up.simps [simp del]

text \<open>The child that \<open>down\<close> compares with position \<open>i\<close>: the smaller one, the left one on a tie.\<close>

definition least_child :: "('a \<Rightarrow> 'a \<Rightarrow> bool) \<Rightarrow> 'a list \<Rightarrow> nat \<Rightarrow> nat \<Rightarrow> nat" where
  "least_child lt xs i n =
     (if 2 * i + 2 < n \<and> lt (xs ! (2 * i + 2)) (xs ! (2 * i + 1)) then 2 * i + 2 else 2 * i + 1)"

function heap_down :: "('a \<Rightarrow> 'a \<Rightarrow> bool) \<Rightarrow> 'a list \<Rightarrow> nat \<Rightarrow> nat \<Rightarrow> 'a list \<times> nat" where
  "heap_down lt xs i n =
     (if n \<le> 2 * i + 1 then (xs, i)
      else let j = least_child lt xs i n
           in if \<not> lt (xs ! j) (xs ! i) then (xs, i) else heap_down lt (Swap xs i j) j n)"
  by pat_completeness auto
termination
  by (relation "measure (\<lambda>(lt, xs, i, n). n - i)") (auto simp: least_child_def)

declare heap_down.simps [simp del]

section \<open>Operations\<close>

definition heap_push :: "('a \<Rightarrow> 'a \<Rightarrow> bool) \<Rightarrow> 'a \<Rightarrow> 'a list \<Rightarrow> 'a list" where
  "heap_push lt x xs = heap_up lt (xs @ [x]) (length xs)"

text \<open>\<open>Pop\<close> on an empty heap indexes out of range; callers guard it with \<open>Len\<close>, so it is \<open>None\<close> here.\<close>

definition heap_pop :: "('a \<Rightarrow> 'a \<Rightarrow> bool) \<Rightarrow> 'a list \<Rightarrow> ('a \<times> 'a list) option" where
  "heap_pop lt xs =
     (if xs = [] then None
      else let n = length xs - 1; ys = fst (heap_down lt (Swap xs 0 n) 0 n)
           in Some (ys ! n, take n ys))"

fun heap_init_from :: "('a \<Rightarrow> 'a \<Rightarrow> bool) \<Rightarrow> 'a list \<Rightarrow> nat \<Rightarrow> 'a list" where
  "heap_init_from lt xs 0 = xs"
| "heap_init_from lt xs (Suc i) = heap_init_from lt (fst (heap_down lt xs i (length xs))) i"

definition heap_init :: "('a \<Rightarrow> 'a \<Rightarrow> bool) \<Rightarrow> 'a list \<Rightarrow> 'a list" where
  "heap_init lt xs = heap_init_from lt xs (length xs div 2)"

definition heap_fix :: "('a \<Rightarrow> 'a \<Rightarrow> bool) \<Rightarrow> 'a list \<Rightarrow> nat \<Rightarrow> 'a list" where
  "heap_fix lt xs i =
     (let (ys, k) = heap_down lt xs i (length xs) in if i < k then ys else heap_up lt ys i)"

section \<open>Length and elements\<close>

lemma Swap_elements [simp]:
  shows length_Swap: "length (Swap h a b) = length h"
    and mset_Swap: "max a b < length h \<Longrightarrow> mset (Swap h a b) = mset h"
  unfolding Swap_def Let_def by (simp_all add: mset_swap)

lemma Swap_nth:
  assumes "max a b < length h"
  shows "Swap h a b ! c = h ! (if c = a then b else if c = b then a else c)"
  using assms unfolding Swap_def Let_def by (cases "c = a"; cases "c = b") simp_all

lemma heap_up_mset: "j < length xs \<Longrightarrow> mset (heap_up lt xs j) = mset xs"
proof (induction lt xs j rule: heap_up.induct)
  case (1 lt xs j)
  have "(j - 1) div 2 < length xs" using 1(2) by auto
  then show ?case using 1 by (subst heap_up.simps) (simp add: Let_def)
qed

lemma least_child_bounds: "2 * i + 1 < n \<Longrightarrow> i < least_child lt xs i n \<and> least_child lt xs i n < n"
  by (auto simp: least_child_def)

lemma heap_down_mset:
  "i < n \<Longrightarrow> n \<le> length xs \<Longrightarrow> mset (fst (heap_down lt xs i n)) = mset xs"
proof (induction lt xs i n rule: heap_down.induct)
  case (1 lt xs i n)
  show ?case
    using 1(1) 1(2-) least_child_bounds [of i n lt xs]
    by (subst heap_down.simps) (auto simp: Let_def not_le)
qed

lemma heap_down_length [simp]: "length (fst (heap_down lt xs i n)) = length xs"
proof (induction lt xs i n rule: heap_down.induct)
  case (1 lt xs i n)
  then show ?case by (subst heap_down.simps) (simp add: Let_def)
qed

text \<open>Nothing outside the window \<open>[i, n)\<close> moves.\<close>

lemma heap_down_outside:
  "n \<le> length xs \<Longrightarrow> k < i \<or> n \<le> k \<Longrightarrow> fst (heap_down lt xs i n) ! k = xs ! k"
proof (induction lt xs i n rule: heap_down.induct)
  case (1 lt xs i n)
  show ?case
  proof (cases "n \<le> 2 * i + 1")
    case False
    then have b: "i < least_child lt xs i n \<and> least_child lt xs i n < n" by (simp add: least_child_bounds)
    then show ?thesis
      using 1(1) [OF False refl] 1(2-) False
      by (subst heap_down.simps) (auto simp: Let_def Swap_nth)
  qed (subst heap_down.simps, simp)
qed

lemma heap_push_mset: "mset (heap_push lt x xs) = add_mset x (mset xs)"
  by (simp add: heap_push_def heap_up_mset)

lemma heap_pop_None [simp]: "heap_pop lt xs = None \<longleftrightarrow> xs = []"
  by (simp add: heap_pop_def Let_def)

lemma heap_pop_mset:
  assumes "heap_pop lt xs = Some (x, ys)"
  shows "mset xs = add_mset x (mset ys)"
proof -
  let ?n = "length xs - 1"
  let ?ws = "fst (heap_down lt (Swap xs 0 ?n) 0 ?n)"
  have ne: "xs \<noteq> []" and xy: "x = ?ws ! ?n" "ys = take ?n ?ws"
    using assms by (auto simp: heap_pop_def Let_def split: if_splits)
  have "mset ?ws = mset xs"
  proof (cases "?n = 0")
    case True then show ?thesis using ne by (simp add: heap_down.simps)
  next
    case False then show ?thesis using ne by (simp add: heap_down_mset)
  qed
  moreover have "?ws = take ?n ?ws @ [?ws ! ?n]"
    using ne by (metis (no_types) One_nat_def Suc_pred diff_Suc_less heap_down_length length_greater_0_conv
        length_Swap take_Suc_conv_app_nth take_all_iff order_refl)
  ultimately show ?thesis using xy by (metis mset.simps mset_append union_mset_add_mset_right add_mset_add_single)
qed

lemma heap_init_mset: "mset (heap_init lt xs) = mset xs"
proof -
  have "i \<le> length ys div 2 \<Longrightarrow> mset (heap_init_from lt ys i) = mset ys" for i ys
  proof (induction i arbitrary: ys)
    case (Suc i)
    then have "i < length ys" "i \<le> length ys div 2" by auto
    then show ?case using Suc.IH [of "fst (heap_down lt ys i (length ys))"] by (simp add: heap_down_mset)
  qed simp
  then show ?thesis by (simp add: heap_init_def)
qed

section \<open>Heap order\<close>

abbreviation par :: "nat \<Rightarrow> nat" where
  "par k \<equiv> (k - 1) div 2"

text \<open>Every position of the first \<open>n\<close> is not below its parent.\<close>

definition is_heap :: "('a \<Rightarrow> 'a \<Rightarrow> bool) \<Rightarrow> 'a list \<Rightarrow> nat \<Rightarrow> bool" where
  "is_heap lt xs n \<longleftrightarrow> (\<forall>k. 0 < k \<and> k < n \<longrightarrow> \<not> lt (xs ! k) (xs ! par k))"

lemma is_heap_code [code]: "is_heap lt xs n = list_all (\<lambda>k. \<not> lt (xs ! k) (xs ! par k)) [1..<n]"
  by (auto simp: is_heap_def list_all_iff)

text \<open>The same for the positions whose parent is at least \<open>i\<close>.\<close>

definition heap_from :: "('a \<Rightarrow> 'a \<Rightarrow> bool) \<Rightarrow> 'a list \<Rightarrow> nat \<Rightarrow> nat \<Rightarrow> bool" where
  "heap_from lt xs i n \<longleftrightarrow> (\<forall>k. 0 < k \<and> k < n \<and> i \<le> par k \<longrightarrow> \<not> lt (xs ! k) (xs ! par k))"

lemma is_heap_from: "is_heap lt xs n = heap_from lt xs 0 n"
  by (simp add: is_heap_def heap_from_def)

lemma child_cases: "0 < k \<Longrightarrow> par k = i \<Longrightarrow> k = 2 * i + 1 \<or> k = 2 * i + 2"
  by presburger

text \<open>
  The contract the package asks of \<open>Less\<close>: a strict weak order. Its clients get a
  priority queue.
\<close>

locale heap_order =
  fixes lt :: "'a \<Rightarrow> 'a \<Rightarrow> bool"
  assumes lt_asym: "lt x y \<Longrightarrow> \<not> lt y x"
    and not_lt_trans: "\<not> lt y x \<Longrightarrow> \<not> lt z y \<Longrightarrow> \<not> lt z x"
begin

lemma least_child_least:
  assumes "2 * i + 1 < n" "0 < k" "k < n" "par k = i"
  shows "\<not> lt (xs ! k) (xs ! least_child lt xs i n)"
proof -
  have "\<not> lt x x" for x using lt_asym by blast
  then show ?thesis
    using child_cases [OF assms(2,4)] assms(3) lt_asym by (auto simp: least_child_def)
qed

lemma heap_down_from:
  assumes "i0 \<le> i" "i < n" "n \<le> length xs"
    and "\<And>k. 0 < k \<Longrightarrow> k < n \<Longrightarrow> i0 \<le> par k \<Longrightarrow> par k \<noteq> i \<Longrightarrow> \<not> lt (xs ! k) (xs ! par k)"
    and "\<And>k. 0 < i \<Longrightarrow> i0 \<le> par i \<Longrightarrow> 0 < k \<Longrightarrow> k < n \<Longrightarrow> par k = i \<Longrightarrow> \<not> lt (xs ! k) (xs ! par i)"
  shows "heap_from lt (fst (heap_down lt xs i n)) i0 n"
  using assms
proof (induction "n - i" arbitrary: xs i rule: less_induct)
  case less
  let ?j = "least_child lt xs i n"
  show ?case
  proof (cases "n \<le> 2 * i + 1")
    case True
    then have "par k \<noteq> i" if "0 < k" "k < n" for k using child_cases [of k i] that by auto
    then show ?thesis using True less.prems(4) by (subst heap_down.simps) (simp add: heap_from_def)
  next
    case False
    then have j: "i < ?j" "?j < n" "0 < ?j" "par ?j = i"
      using least_child_bounds [of i n lt xs] by (auto simp: least_child_def)
    have least: "\<not> lt (xs ! k) (xs ! ?j)" if "0 < k" "k < n" "par k = i" for k
      using least_child_least False that by (simp add: not_le)
    show ?thesis
    proof (cases "lt (xs ! ?j) (xs ! i)")
      case False
      then have "\<not> lt (xs ! k) (xs ! i)" if "0 < k" "k < n" "par k = i" for k
        using least [OF that] not_lt_trans by blast
      then show ?thesis using False \<open>\<not> n \<le> 2 * i + 1\<close> less.prems(4)
        by (subst heap_down.simps) (auto simp: heap_from_def Let_def)
    next
      case True
      let ?ys = "Swap xs i ?j"
      have nth: "?ys ! k = (if k = i then xs ! ?j else if k = ?j then xs ! i else xs ! k)" for k
        using j less.prems(2,3) by (simp add: Swap_nth)
      have "heap_from lt (fst (heap_down lt ?ys ?j n)) i0 n"
      proof (rule less.hyps)
        fix k assume k: "0 < k" "k < n" "i0 \<le> par k" "par k \<noteq> ?j"
        consider "k = ?j" | "k = i" | "k \<noteq> ?j" "k \<noteq> i" "par k = i" | "k \<noteq> ?j" "k \<noteq> i" "par k \<noteq> i" by blast
        then show "\<not> lt (?ys ! k) (?ys ! par k)"
        proof cases
          case 1 then show ?thesis using j lt_asym [OF True] by (simp add: nth)
        next
          case 2
          then have "par i \<noteq> i" "par i \<noteq> ?j" using k(1) j by auto
          then show ?thesis using less.prems(5) [of ?j] 2 k j by (simp add: nth)
        next
          case 3 then show ?thesis using least [of k] k by (simp add: nth)
        next
          case 4 then show ?thesis using less.prems(4) [of k] k by (simp add: nth)
        qed
      next
        fix k assume k: "0 < ?j" "i0 \<le> par ?j" "0 < k" "k < n" "par k = ?j"
        then have "k \<noteq> i" "k \<noteq> ?j" using j by auto
        then show "\<not> lt (?ys ! k) (?ys ! par ?j)"
          using less.prems(4) [of k] k j by (simp add: nth)
      qed (use j less.prems in auto)
      then show ?thesis using True False by (subst heap_down.simps) (simp add: Let_def)
    qed
  qed
qed

lemma heap_up_heap:
  assumes "j < n" "n \<le> length xs"
    and "\<And>k. 0 < k \<Longrightarrow> k < n \<Longrightarrow> k \<noteq> j \<Longrightarrow> \<not> lt (xs ! k) (xs ! par k)"
    and "\<And>k. 0 < j \<Longrightarrow> 0 < k \<Longrightarrow> k < n \<Longrightarrow> par k = j \<Longrightarrow> \<not> lt (xs ! k) (xs ! par j)"
  shows "is_heap lt (heap_up lt xs j) n"
  using assms
proof (induction j arbitrary: xs rule: less_induct)
  case (less j)
  show ?case
  proof (cases "par j = j \<or> \<not> lt (xs ! j) (xs ! par j)")
    case True
    then have "\<not> lt (xs ! k) (xs ! par k)" if "0 < k" "k < n" for k
      using less.prems(3) [of k] that by (cases "k = j") auto
    then show ?thesis using True by (subst heap_up.simps) (auto simp: Let_def is_heap_def)
  next
    case False
    define i where "i = par j"
    let ?ys = "Swap xs i j"
    have i: "i < j" "0 < j" "par j = i" using False by (auto simp: i_def)
    have nth: "?ys ! k = (if k = i then xs ! j else if k = j then xs ! i else xs ! k)" for k
      using i less.prems(1,2) by (simp add: Swap_nth)
    have up: "\<not> lt (xs ! k) (xs ! j)" if "0 < k" "k < n" "k \<noteq> j" "par k = i" for k
      using less.prems(3) [of k] that not_lt_trans [of "xs ! i" "xs ! j" "xs ! k"] lt_asym False i_def by auto
    have "is_heap lt (heap_up lt ?ys i) n"
    proof (rule less.IH)
      fix k assume k: "0 < k" "k < n" "k \<noteq> i"
      consider "k = j" | "k \<noteq> j" "par k = j" | "k \<noteq> j" "par k = i" | "k \<noteq> j" "par k \<noteq> j" "par k \<noteq> i" by blast
      then show "\<not> lt (?ys ! k) (?ys ! par k)"
      proof cases
        case 1 then show ?thesis using i lt_asym False by (simp add: nth)
      next
        case 2 then show ?thesis using less.prems(4) [of k] k i by (simp add: nth)
      next
        case 3 then show ?thesis using up [of k] k by (simp add: nth)
      next
        case 4 then show ?thesis using less.prems(3) [of k] k by (simp add: nth)
      qed
    next
      fix k assume k: "0 < i" "0 < k" "k < n" "par k = i"
      have pi: "par i \<noteq> i" "par i \<noteq> j" using k(1) i(1) by auto
      have root: "\<not> lt (xs ! i) (xs ! par i)" using less.prems(1) less.prems(3) [of i] k(1) i by auto
      show "\<not> lt (?ys ! k) (?ys ! par i)"
      proof (cases "k = j")
        case True then show ?thesis using root pi i by (simp add: nth)
      next
        case False
        then have "\<not> lt (xs ! k) (xs ! i)" using less.prems(3) [of k] k by simp
        moreover have "k \<noteq> i" using k(4) pi(1) by auto
        ultimately show ?thesis using not_lt_trans [OF root] False pi by (simp add: nth)
      qed
    qed (use i less.prems(1,2) in auto)
    then show ?thesis using False i_def by (subst heap_up.simps) (simp add: Let_def i_def)
  qed
qed

lemma heap_root_least: "is_heap lt xs n \<Longrightarrow> k < n \<Longrightarrow> \<not> lt (xs ! k) (xs ! 0)"
proof (induction k rule: less_induct)
  case (less k)
  show ?case
  proof (cases "k = 0")
    case True then show ?thesis using lt_asym by blast
  next
    case False
    then have "\<not> lt (xs ! par k) (xs ! 0)" using less by auto
    moreover have "\<not> lt (xs ! k) (xs ! par k)" using False less.prems by (simp add: is_heap_def)
    ultimately show ?thesis by (rule not_lt_trans)
  qed
qed

lemma heap_push_heap:
  assumes "is_heap lt xs (length xs)"
  shows "is_heap lt (heap_push lt x xs) (length (heap_push lt x xs))"
proof -
  have "is_heap lt (heap_up lt (xs @ [x]) (length xs)) (Suc (length xs))"
  proof (rule heap_up_heap)
    fix k assume "0 < k" "k < Suc (length xs)" "k \<noteq> length xs"
    moreover then have "par k < length xs" by auto
    ultimately show "\<not> lt ((xs @ [x]) ! k) ((xs @ [x]) ! par k)"
      using assms by (simp add: nth_append is_heap_def)
  next
    fix k assume "0 < k" "k < Suc (length xs)" "par k = length xs"
    then show "\<not> lt ((xs @ [x]) ! k) ((xs @ [x]) ! par (length xs))" by auto
  qed simp_all
  moreover have "length (heap_up lt (xs @ [x]) (length xs)) = Suc (length xs)"
    using heap_up_mset [of "length xs" "xs @ [x]" lt] by (metis length_append_singleton lessI size_mset)
  ultimately show ?thesis by (simp add: heap_push_def)
qed

lemma heap_pop_correct:
  assumes h: "is_heap lt xs (length xs)" and p: "heap_pop lt xs = Some (x, ys)"
  shows "x = xs ! 0" "mset xs = add_mset x (mset ys)" "is_heap lt ys (length ys)"
    "\<And>y. y \<in> set xs \<Longrightarrow> \<not> lt y x" "length ys = length xs - 1"
proof -
  let ?n = "length xs - 1"
  let ?zs = "Swap xs 0 ?n" let ?ws = "fst (heap_down lt ?zs 0 ?n)"
  have ne: "xs \<noteq> []" and xy: "x = ?ws ! ?n" "ys = take ?n ?ws"
    using p by (auto simp: heap_pop_def Let_def split: if_splits)
  have out: "?ws ! ?n = ?zs ! ?n" by (rule heap_down_outside) auto
  show x: "x = xs ! 0" using ne xy(1) out by (simp add: Swap_nth)
  show "mset xs = add_mset x (mset ys)" using p by (rule heap_pop_mset)
  show l: "length ys = length xs - 1" using xy(2) by simp
  show "\<not> lt y x" if "y \<in> set xs" for y
    using that heap_root_least [OF h] by (auto simp: x in_set_conv_nth)
  show "is_heap lt ys (length ys)"
  proof (cases "?n = 0")
    case True then show ?thesis using l by (simp add: is_heap_def)
  next
    case False
    have "heap_from lt ?ws 0 ?n"
    proof (rule heap_down_from)
      fix k assume k: "0 < k" "k < ?n" "par k \<noteq> 0"
      then have "?zs ! k = xs ! k" "?zs ! par k = xs ! par k" using ne by (auto simp: Swap_nth)
      then show "\<not> lt (?zs ! k) (?zs ! par k)" using h k by (simp add: is_heap_def)
    qed (use False in auto)
    then have "is_heap lt ?ws ?n" by (simp add: is_heap_from)
    moreover have "ys ! k = ?ws ! k" if "k < ?n" for k using that by (simp add: xy(2))
    ultimately have "\<not> lt (ys ! k) (ys ! par k)" if "0 < k" "k < ?n" for k
      using that less_le_trans [of "par k" k ?n] by (auto simp: is_heap_def)
    then show ?thesis by (simp add: is_heap_def l)
  qed
qed

lemma heap_init_heap: "is_heap lt (heap_init lt xs) (length xs)"
proof -
  have "i \<le> length ys div 2 \<Longrightarrow> heap_from lt ys i (length ys) \<Longrightarrow>
      heap_from lt (heap_init_from lt ys i) 0 (length ys)" for i ys
  proof (induction i arbitrary: ys)
    case (Suc i)
    let ?ws = "fst (heap_down lt ys i (length ys))"
    have "heap_from lt ?ws i (length ys)"
      using Suc.prems by (intro heap_down_from) (auto simp: heap_from_def)
    then have "heap_from lt (heap_init_from lt ?ws i) 0 (length ?ws)"
      using Suc.prems(1) by (intro Suc.IH) auto
    then show ?case by simp
  qed simp
  moreover have "heap_from lt xs (length xs div 2) (length xs)" by (auto simp: heap_from_def)
  ultimately show ?thesis by (simp add: heap_init_def is_heap_from)
qed

text \<open>Repairing the root after its element changed.\<close>

lemma heap_fix_root:
  assumes h: "is_heap lt xs (length xs)" and ne: "xs \<noteq> []"
  shows "is_heap lt (heap_fix lt (xs[0 := x]) 0) (length xs)"
    and "mset (heap_fix lt (xs[0 := x]) 0) = mset (xs[0 := x])"
proof -
  let ?ys = "xs[0 := x]"
  have up0: "heap_up lt zs 0 = zs" for zs by (subst heap_up.simps) simp
  have e: "heap_fix lt ?ys 0 = fst (heap_down lt ?ys 0 (length xs))"
    by (simp add: heap_fix_def up0 split: prod.splits)
  have "heap_from lt (fst (heap_down lt ?ys 0 (length xs))) 0 (length xs)"
  proof (rule heap_down_from)
    fix k assume k: "0 < k" "k < length xs" "par k \<noteq> 0"
    then show "\<not> lt (?ys ! k) (?ys ! par k)" using h by (simp add: is_heap_def)
  qed (use ne in auto)
  then show "is_heap lt (heap_fix lt ?ys 0) (length xs)" unfolding e is_heap_from .
  show "mset (heap_fix lt ?ys 0) = mset ?ys" unfolding e using ne by (intro heap_down_mset) auto
qed

end

section \<open>A comparison that may panic\<close>

text \<open>
  The same loops for a \<open>Less\<close> that panics (\<open>None\<close>) on elements it cannot compare: the panic
  ends the operation. Where no comparison panics they are the loops above.
\<close>

definition least_child_p :: "('a \<Rightarrow> 'a \<Rightarrow> bool option) \<Rightarrow> 'a list \<Rightarrow> nat \<Rightarrow> nat \<Rightarrow> nat option" where
  "least_child_p less_p xs i n =
     (if 2 * i + 2 < n
      then map_option (\<lambda>b. if b then 2 * i + 2 else 2 * i + 1) (less_p (xs ! (2 * i + 2)) (xs ! (2 * i + 1)))
      else Some (2 * i + 1))"

function heap_down_p :: "('a \<Rightarrow> 'a \<Rightarrow> bool option) \<Rightarrow> 'a list \<Rightarrow> nat \<Rightarrow> nat \<Rightarrow> ('a list \<times> nat) option" where
  "heap_down_p less_p xs i n =
     (if n \<le> 2 * i + 1 then Some (xs, i)
      else case least_child_p less_p xs i n of
             None \<Rightarrow> None
           | Some j \<Rightarrow>
               (case less_p (xs ! j) (xs ! i) of
                  None \<Rightarrow> None
                | Some b \<Rightarrow> if \<not> b then Some (xs, i) else heap_down_p less_p (Swap xs i j) j n))"
  by pat_completeness auto
termination
  by (relation "measure (\<lambda>(lt, xs, i, n). n - i)") (auto simp: least_child_p_def split: if_splits)

fun heap_up_p :: "('a \<Rightarrow> 'a \<Rightarrow> bool option) \<Rightarrow> 'a list \<Rightarrow> nat \<Rightarrow> 'a list option" where
  "heap_up_p less_p xs j =
     (let i = (j - 1) div 2
      in if i = j then Some xs
         else case less_p (xs ! j) (xs ! i) of
                None \<Rightarrow> None
              | Some b \<Rightarrow> if \<not> b then Some xs else heap_up_p less_p (Swap xs i j) i)"

declare heap_down_p.simps [simp del] heap_up_p.simps [simp del]

definition heap_pop_p :: "('a \<Rightarrow> 'a \<Rightarrow> bool option) \<Rightarrow> 'a list \<Rightarrow> ('a \<times> 'a list) option" where
  "heap_pop_p less_p xs =
     (if xs = [] then None
      else let n = length xs - 1
           in map_option (\<lambda>(ys, _). (ys ! n, take n ys)) (heap_down_p less_p (Swap xs 0 n) 0 n))"

fun heap_init_from_p :: "('a \<Rightarrow> 'a \<Rightarrow> bool option) \<Rightarrow> 'a list \<Rightarrow> nat \<Rightarrow> 'a list option" where
  "heap_init_from_p less_p xs 0 = Some xs"
| "heap_init_from_p less_p xs (Suc i) =
     (case heap_down_p less_p xs i (length xs) of None \<Rightarrow> None | Some (ys, _) \<Rightarrow> heap_init_from_p less_p ys i)"

definition heap_init_p :: "('a \<Rightarrow> 'a \<Rightarrow> bool option) \<Rightarrow> 'a list \<Rightarrow> 'a list option" where
  "heap_init_p less_p xs = heap_init_from_p less_p xs (length xs div 2)"

definition heap_fix_p :: "('a \<Rightarrow> 'a \<Rightarrow> bool option) \<Rightarrow> 'a list \<Rightarrow> nat \<Rightarrow> 'a list option" where
  "heap_fix_p less_p xs i =
     (case heap_down_p less_p xs i (length xs) of
        None \<Rightarrow> None
      | Some (ys, k) \<Rightarrow> if i < k then Some ys else heap_up_p less_p ys i)"

text \<open>An operation that does not panic did what the total one does.\<close>

abbreviation holds_p :: "('a \<Rightarrow> 'a \<Rightarrow> bool option) \<Rightarrow> 'a \<Rightarrow> 'a \<Rightarrow> bool" where
  "holds_p less_p x y \<equiv> less_p x y = Some True"

lemma least_child_p_Some: "least_child_p less_p xs i n = Some j \<Longrightarrow> j = least_child (holds_p less_p) xs i n"
  by (auto simp: least_child_p_def least_child_def split: if_splits)

lemma heap_down_p_Some: "heap_down_p less_p xs i n = Some r \<Longrightarrow> r = heap_down (holds_p less_p) xs i n"
proof (induction less_p xs i n rule: heap_down_p.induct)
  case (1 less_p xs i n)
  show ?case
  proof (cases "n \<le> 2 * i + 1")
    case True then show ?thesis using 1(2) by (simp add: heap_down_p.simps heap_down.simps)
  next
    case False
    obtain j b where j: "least_child_p less_p xs i n = Some j" and b: "less_p (xs ! j) (xs ! i) = Some b"
      using 1(2) False by (subst (asm) heap_down_p.simps) (auto split: option.splits)
    have "heap_down_p less_p xs i n = (if \<not> b then Some (xs, i) else heap_down_p less_p (Swap xs i j) j n)"
      using False j b by (subst heap_down_p.simps) simp
    then have r: "(if \<not> b then Some (xs, i) else heap_down_p less_p (Swap xs i j) j n) = Some r"
      using 1(2) by simp
    show ?thesis
      using 1(1) [OF False j b] r False b least_child_p_Some [OF j]
      by (subst heap_down.simps) (auto simp: Let_def split: if_splits)
  qed
qed

lemma heap_pop_p_Some: "heap_pop_p less_p xs = Some r \<Longrightarrow> heap_pop (holds_p less_p) xs = Some r"
  by (auto simp: heap_pop_p_def heap_pop_def Let_def split: if_splits dest!: heap_down_p_Some) (metis fst_conv)+

text \<open>No panic when every two elements of the slice compare.\<close>

definition compares :: "('a \<Rightarrow> 'a \<Rightarrow> bool option) \<Rightarrow> ('a \<Rightarrow> 'a \<Rightarrow> bool) \<Rightarrow> 'a set \<Rightarrow> bool" where
  "compares less_p lt A \<longleftrightarrow> (\<forall>x\<in>A. \<forall>y\<in>A. less_p x y = Some (lt x y))"

lemma heap_down_p_total:
  assumes "compares less_p lt (set xs)" "n \<le> length xs"
  shows "heap_down_p less_p xs i n = Some (heap_down lt xs i n)"
  using assms
proof (induction less_p xs i n rule: heap_down_p.induct)
  case (1 less_p xs i n)
  show ?case
  proof (cases "n \<le> 2 * i + 1")
    case True then show ?thesis by (simp add: heap_down_p.simps heap_down.simps)
  next
    case False
    let ?j = "least_child lt xs i n"
    have b: "i < ?j" "?j < n" using least_child_bounds [of i n lt xs] False by auto
    have less_nth: "less_p (xs ! a) (xs ! b) = Some (lt (xs ! a) (xs ! b))" if "a < n" "b < n" for a b
      using 1(2,3) that by (auto simp: compares_def)
    have j: "least_child_p less_p xs i n = Some ?j"
      using False less_nth by (auto simp: least_child_p_def least_child_def)
    have "set (Swap xs i ?j) = set xs"
      using b 1(3) by (intro mset_eq_setD) simp
    then show ?thesis
      using 1(1) [OF False j less_nth] 1(2,3) b False j less_nth [of ?j i]
      by (subst heap_down_p.simps, subst heap_down.simps) (simp add: Let_def)
  qed
qed

lemma set_heap_down: "i < n \<Longrightarrow> n \<le> length xs \<Longrightarrow> set (fst (heap_down lt xs i n)) = set xs"
  using heap_down_mset mset_eq_setD by metis

lemma heap_pop_p_total: "compares less_p lt (set xs) \<Longrightarrow> heap_pop_p less_p xs = heap_pop lt xs"
proof -
  assume c: "compares less_p lt (set xs)"
  have "set (Swap xs 0 (length xs - 1)) = set xs" if "xs \<noteq> []"
    using that by (intro mset_eq_setD) simp
  then show ?thesis
    using c by (auto simp: heap_pop_p_def heap_pop_def Let_def heap_down_p_total split: prod.splits)
qed

lemma heap_init_p_total: "compares less_p lt (set xs) \<Longrightarrow> heap_init_p less_p xs = Some (heap_init lt xs)"
proof -
  assume c: "compares less_p lt (set xs)"
  have "i \<le> length ys div 2 \<Longrightarrow> set ys = set xs \<Longrightarrow> heap_init_from_p less_p ys i = Some (heap_init_from lt ys i)" for i ys
  proof (induction i arbitrary: ys)
    case (Suc i)
    have "i < length ys" using Suc.prems(1) by auto
    then show ?case
      using Suc.IH [of "fst (heap_down lt ys i (length ys))"] Suc.prems c
      by (simp add: heap_down_p_total set_heap_down split: prod.splits)
         (metis fst_conv heap_down_length le_eq_less_or_eq le_less_trans lessI order_refl set_heap_down)
  qed simp
  then show ?thesis by (simp add: heap_init_p_def heap_init_def)
qed

lemma heap_fix_p_mset:
  assumes "heap_fix_p less_p xs 0 = Some ys" "xs \<noteq> []"
  shows "mset ys = mset xs"
proof -
  obtain k where "heap_down_p less_p xs 0 (length xs) = Some (ys, k)"
    using assms by (auto simp: heap_fix_p_def heap_up_p.simps split: option.splits if_splits)
  then have "ys = fst (heap_down (holds_p less_p) xs 0 (length xs))" by (metis heap_down_p_Some fst_conv)
  then show ?thesis using assms(2) by (simp add: heap_down_mset)
qed

lemma heap_fix_p_root: "compares less_p lt (set xs) \<Longrightarrow> heap_fix_p less_p xs 0 = Some (heap_fix lt xs 0)"
  by (simp add: heap_fix_p_def heap_fix_def heap_down_p_total heap_up_p.simps heap_up.simps split: prod.splits)

end
