(* ===== verification/Wal.thy ===== *)
theory Wal
  imports Go_Heap
begin

text \<open>
  The file write-ahead log of \<open>wal/wal.go\<close>: the queue of log requests kept as a min-heap
  on transaction ids, the calls that fill it (\<open>Log\<close>, \<open>LogRecord\<close>, \<open>Truncate\<close>,
  \<open>Reset\<close>), the goroutine \<open>run\<close> that turns the queue into batches of consecutive
  transactions, and \<open>Replay\<close>. The segment files below it are a third-party log
  store: its operations are the parameter \<open>log_ops\<close>.
\<close>

section \<open>State\<close>

type_synonym bytes = "8 word list"

record logRequest =
  lr_tx :: uint64
  lr_data :: bytes

text \<open>\<open>logRequestQueue.Less\<close>.\<close>

definition logRequest_less :: "logRequest \<Rightarrow> logRequest \<Rightarrow> bool" where
  "logRequest_less r1 r2 \<longleftrightarrow> lr_tx r1 < lr_tx r2"

text \<open>The mutex-protected fields of \<open>FileWAL\<close> and its segment size.\<close>

record FileWAL =
  wal_queue :: "logRequest list"
  wal_truncateTx :: uint64
  wal_nextTx :: uint64
  wal_segmentSize :: nat

type_synonym log_entry = "uint64 \<times> bytes"

text \<open>
  The log store (package \<open>github.com/polarsignals/wal\<close>): each operation returns the store
  it leaves and whether it succeeded.
\<close>

record 'st log_ops =
  op_StoreLogs :: "'st \<Rightarrow> log_entry list \<Rightarrow> 'st \<times> bool"
  op_TruncateFront :: "'st \<Rightarrow> uint64 \<Rightarrow> 'st \<times> bool"
  op_TruncateBack :: "'st \<Rightarrow> uint64 \<Rightarrow> 'st \<times> bool"
  op_FirstIndex :: "'st \<Rightarrow> (string, uint64) result"
  op_LastIndex :: "'st \<Rightarrow> (string, uint64) result"
  op_GetLog :: "'st \<Rightarrow> uint64 \<Rightarrow> (string, bytes) result"

section \<open>Operations\<close>

definition Open_wal :: "'st log_ops \<Rightarrow> nat \<Rightarrow> 'st \<Rightarrow> (string, FileWAL) result" where
  "Open_wal L segmentSize st =
     bind_result (op_LastIndex L st) (\<lambda>lastIndex.
       Inr \<lparr>wal_queue = [], wal_truncateTx = 0, wal_nextTx = lastIndex + 1,
            wal_segmentSize = segmentSize\<rparr>)"

text \<open>\<open>Log\<close> and the second half of \<open>LogRecord\<close>: marshal and push under the lock.\<close>

definition push_request :: "uint64 \<Rightarrow> bytes \<Rightarrow> FileWAL \<Rightarrow> FileWAL" where
  "push_request tx data w =
     w\<lparr>wal_queue := heap_push logRequest_less \<lparr>lr_tx = tx, lr_data = data\<rparr> (wal_queue w)\<rparr>"

definition Log :: "('r \<Rightarrow> (string, bytes) result) \<Rightarrow> uint64 \<Rightarrow> 'r \<Rightarrow> FileWAL \<Rightarrow> (string, FileWAL) result" where
  "Log marshal tx record w = bind_result (marshal record) (\<lambda>data. Inr (push_request tx data w))"

text \<open>\<open>LogRecord\<close> refuses transactions below the next expected one, without an error.\<close>

definition LogRecord ::
  "('r \<Rightarrow> (string, bytes) result) \<Rightarrow> uint64 \<Rightarrow> 'r \<Rightarrow> FileWAL \<Rightarrow> (string, FileWAL) result" where
  "LogRecord marshal tx record w =
     (if tx < wal_nextTx w then Inr w else Log marshal tx record w)"

definition Truncate :: "uint64 \<Rightarrow> FileWAL \<Rightarrow> FileWAL" where
  "Truncate tx w = (if wal_truncateTx w < tx then w\<lparr>wal_truncateTx := tx\<rparr> else w)"

definition Reset :: "'st log_ops \<Rightarrow> uint64 \<Rightarrow> FileWAL \<times> 'st \<Rightarrow> (FileWAL \<times> 'st) \<times> bool" where
  "Reset L nextTx ws =
     (let (w, st) = ws; (st', ok) = op_TruncateFront L st (- 1)
      in ((w\<lparr>wal_queue := [], wal_nextTx := nextTx\<rparr>, st'), ok))"

lemma heap_pop_length: "heap_pop lt xs = Some (x, ys) \<Longrightarrow> length ys < length xs"
  by (auto simp: heap_pop_def Let_def split: if_splits)

text \<open>
  The loop of \<open>run\<close> that collects a batch: requests below the next transaction are
  dropped with a warning, the next one is taken, a gap ends the batch. The result is
  the batch, the dropped requests, the remaining queue and the next transaction.
\<close>

function collect_batch ::
  "nat \<Rightarrow> logRequest list \<Rightarrow> uint64 \<Rightarrow> nat \<Rightarrow> logRequest list \<times> logRequest list \<times> logRequest list \<times> uint64"
where
  "collect_batch segmentSize q nextTx batchSize =
     (case heap_pop logRequest_less q of
        None \<Rightarrow> ([], [], q, nextTx)
      | Some (r, q') \<Rightarrow>
          if \<not> batchSize < segmentSize then ([], [], q, nextTx)
          else if lr_tx (q ! 0) \<noteq> nextTx then
            if lr_tx (q ! 0) < nextTx then
              let (b, d, q'', n) = collect_batch segmentSize q' nextTx batchSize
              in (b, r # d, q'', n)
            else ([], [], q, nextTx)
          else
            let (b, d, q'', n) =
              collect_batch segmentSize q' (nextTx + 1) (batchSize + length (lr_data r))
            in (r # b, d, q'', n))"
  by pat_completeness auto
termination
  by (relation "measure (\<lambda>(_, q, _, _). length q)") (auto dest: heap_pop_length)

declare collect_batch.simps [simp del]

text \<open>Discarding the requests below a bound after a truncation past the next transaction.\<close>

function drop_below :: "uint64 \<Rightarrow> logRequest list \<Rightarrow> logRequest list \<times> logRequest list" where
  "drop_below bound q =
     (case heap_pop logRequest_less q of
        None \<Rightarrow> ([], q)
      | Some (r, q') \<Rightarrow>
          if bound \<le> lr_tx (q ! 0) then ([], q)
          else let (d, q'') = drop_below bound q' in (r # d, q''))"
  by pat_completeness auto
termination
  by (relation "measure (\<lambda>(_, q). length q)") (auto dest: heap_pop_length)

declare drop_below.simps [simp del]

text \<open>
  One tick of \<open>run\<close> has two critical sections with the writes to the store between
  them, so other goroutines may run in between: the program point records which
  part comes next and carries the batch and the requested truncation.
\<close>

datatype run_pc =
    R_Select
  | R_Store "logRequest list" uint64
  | R_Truncate uint64
  | R_Exit

text \<open>
  The WAL with its store. The last four fields record history that no operation
  reads: the requests pushed, the requests dropped, the entries handed to
  \<open>StoreLogs\<close>, and whether a truncation has skipped transactions.
\<close>

record 'st walsys =
  wal :: FileWAL
  store :: 'st
  run_at :: run_pc
  ctx_done :: bool
  requested :: "logRequest multiset"
  dropped :: "logRequest list"
  logged :: "logRequest list"
  skipped :: bool

definition tick_collect :: "'st walsys \<Rightarrow> 'st walsys" where
  "tick_collect s =
     (let w = wal s;
          (batch, d, q, n) = collect_batch (wal_segmentSize w) (wal_queue w) (wal_nextTx w) 0;
          truncateTx = wal_truncateTx w
      in s\<lparr>wal := w\<lparr>wal_queue := q, wal_nextTx := n, wal_truncateTx := 0\<rparr>,
           dropped := dropped s @ d,
           run_at := if batch = [] \<and> truncateTx = 0 then R_Select else R_Store batch truncateTx\<rparr>)"

definition tick_store :: "'st log_ops \<Rightarrow> logRequest list \<Rightarrow> uint64 \<Rightarrow> 'st walsys \<Rightarrow> 'st walsys" where
  "tick_store L batch truncateTx s =
     s\<lparr>store := if batch = [] then store s
               else fst (op_StoreLogs L (store s) (map (\<lambda>r. (lr_tx r, lr_data r)) batch)),
       logged := logged s @ batch,
       run_at := if truncateTx = 0 then R_Select else R_Truncate truncateTx\<rparr>"

definition tick_truncate :: "'st log_ops \<Rightarrow> uint64 \<Rightarrow> 'st walsys \<Rightarrow> 'st walsys" where
  "tick_truncate L truncateTx s =
     (let (st, ok) = op_TruncateFront L (store s) truncateTx; w = wal s
      in if ok \<and> wal_nextTx w < truncateTx then
           let (d, q) = drop_below (truncateTx + 1) (wal_queue w)
           in s\<lparr>store := st, wal := w\<lparr>wal_nextTx := truncateTx + 1, wal_queue := q\<rparr>,
                dropped := dropped s @ d, skipped := True, run_at := R_Select\<rparr>
         else s\<lparr>store := st, run_at := R_Select\<rparr>)"

definition run_step :: "'st log_ops \<Rightarrow> 'st walsys \<Rightarrow> 'st walsys" where
  "run_step L s =
     (case run_at s of
        R_Select \<Rightarrow> tick_collect s
      | R_Store batch truncateTx \<Rightarrow> tick_store L batch truncateTx s
      | R_Truncate truncateTx \<Rightarrow> tick_truncate L truncateTx s
      | R_Exit \<Rightarrow> s)"

text \<open>
  \<open>Close\<close> cancels the context of \<open>run\<close>; at its \<open>select\<close> the goroutine then also has the
  branch for the cancelled context, which leaves once the queue is drained or the
  close timeout has expired.
\<close>

definition Close_wal :: "'st walsys \<Rightarrow> 'st walsys" where
  "Close_wal s = s\<lparr>ctx_done := True\<rparr>"

definition select_done :: "bool \<Rightarrow> 'st walsys \<Rightarrow> 'st walsys" where
  "select_done timed_out s =
     (if run_at s \<noteq> R_Select \<or> \<not> ctx_done s then s
      else if wal_queue (wal s) \<noteq> [] \<and> \<not> timed_out then s
      else s\<lparr>run_at := R_Exit\<rparr>)"

text \<open>Concurrent use: writers push requests and ask for truncations while \<open>run\<close> ticks.\<close>

inductive wal_step :: "'st log_ops \<Rightarrow> 'st walsys \<Rightarrow> 'st walsys \<Rightarrow> bool" for L :: "'st log_ops" where
  push: "wal_step L s (s\<lparr>wal := push_request tx data (wal s),
     requested := add_mset \<lparr>lr_tx = tx, lr_data = data\<rparr> (requested s)\<rparr>)"
| truncate: "wal_step L s (s\<lparr>wal := Truncate tx (wal s)\<rparr>)"
| run: "wal_step L s (run_step L s)"
| close: "wal_step L s (Close_wal s)"
| shutdown: "wal_step L s (select_done timed_out s)"

definition wal_start :: "FileWAL \<Rightarrow> 'st \<Rightarrow> 'st walsys" where
  "wal_start w st = \<lparr>wal = w, store = st, run_at = R_Select, ctx_done = False, requested = {#}, dropped = [],
     logged = [], skipped = False\<rparr>"

text \<open>
  States reachable from an opened WAL whose next transaction is \<open>n0\<close>, as long as the
  64-bit counter has not wrapped around.
\<close>

inductive wal_reachable :: "'st log_ops \<Rightarrow> uint64 \<Rightarrow> 'st walsys \<Rightarrow> bool"
  for L :: "'st log_ops" and n0 :: uint64 where
  init: "n0 \<noteq> 0 \<Longrightarrow> wal_reachable L n0
     (wal_start \<lparr>wal_queue = [], wal_truncateTx = 0, wal_nextTx = n0, wal_segmentSize = k\<rparr> st)"
| step: "wal_reachable L n0 s \<Longrightarrow> wal_step L s s' \<Longrightarrow>
     wal_nextTx (wal s) \<le> wal_nextTx (wal s') \<Longrightarrow> wal_reachable L n0 s'"

section \<open>Replay\<close>

text \<open>The replay handler may succeed, return an error or panic; it carries the state \<open>'h\<close> it builds.\<close>

datatype 'h handler_result = H_Ok 'h | H_Err 'h string | H_Panic 'h

text \<open>
  How the loop ends: all records handled, the handler's error, or a panic at an index
  (an unreadable or undecodable record, or the handler's own).
\<close>

datatype 'h replay_end = End_Done 'h | End_Error 'h string | End_Panic 'h uint64

partial_function (option) replay_loop ::
  "'st log_ops \<Rightarrow> (bytes \<Rightarrow> (string, 'r) result) \<Rightarrow> ('h \<Rightarrow> uint64 \<Rightarrow> 'r \<Rightarrow> 'h handler_result) \<Rightarrow>
   'st \<Rightarrow> uint64 \<Rightarrow> uint64 \<Rightarrow> 'h \<Rightarrow> 'h replay_end option"
where
  "replay_loop L unmarshal handler st lastIndex tx h =
     (if \<not> tx \<le> lastIndex then Some (End_Done h)
      else case op_GetLog L st tx of
        Inl _ \<Rightarrow> Some (End_Panic h tx)
      | Inr data \<Rightarrow>
          (case unmarshal data of
             Inl _ \<Rightarrow> Some (End_Panic h tx)
           | Inr record \<Rightarrow>
               (case handler h tx record of
                  H_Ok h' \<Rightarrow> replay_loop L unmarshal handler st lastIndex (tx + 1) h'
                | H_Err h' e \<Rightarrow> Some (End_Error h' e)
                | H_Panic h' \<Rightarrow> Some (End_Panic h' tx))))"

text \<open>
  \<open>Replay\<close>: clamp the start to the first index, stop when the log is empty, run the
  loop, and on a panic cut the log back to the record before the offending one. A nil handler
  returns at once and is left out. The
  result is the handler's state, the store and the error.
\<close>

definition Replay ::
  "'st log_ops \<Rightarrow> (bytes \<Rightarrow> (string, 'r) result) \<Rightarrow> ('h \<Rightarrow> uint64 \<Rightarrow> 'r \<Rightarrow> 'h handler_result) \<Rightarrow>
   'st \<Rightarrow> uint64 \<Rightarrow> 'h \<Rightarrow> ('h \<times> 'st \<times> string option) option"
where
  "Replay L unmarshal handler st tx h =
     (case op_FirstIndex L st of
        Inl e \<Rightarrow> Some (h, st, Some e)
      | Inr logFirstIndex \<Rightarrow>
          (let tx' = (if tx = 0 \<or> tx < logFirstIndex then logFirstIndex else tx)
           in case op_LastIndex L st of
                Inl e \<Rightarrow> Some (h, st, Some e)
              | Inr lastIndex \<Rightarrow>
                  if tx' = 0 \<or> lastIndex = 0 then Some (h, st, None)
                  else
                    (case replay_loop L unmarshal handler st lastIndex tx' h of
                       None \<Rightarrow> None
                     | Some (End_Done h') \<Rightarrow> Some (h', st, None)
                     | Some (End_Error h' e) \<Rightarrow> Some (h', st, Some e)
                     | Some (End_Panic h' i) \<Rightarrow>
                         (let (st', ok) = op_TruncateBack L st (i - 1)
                          in Some (h', st', if ok then None else Some ''truncate back'')))))"

section \<open>The queue is a priority queue\<close>

interpretation wal_heap: heap_order logRequest_less
  by unfold_locales (auto simp: logRequest_less_def)

abbreviation queue_ok :: "logRequest list \<Rightarrow> bool" where
  "queue_ok q \<equiv> is_heap logRequest_less q (length q)"

lemma queue_pop:
  assumes "queue_ok q" "heap_pop logRequest_less q = Some (r, q')"
  shows "q ! 0 = r" "mset q = add_mset r (mset q')" "queue_ok q'"
    "\<And>x. x \<in> set q' \<Longrightarrow> lr_tx r \<le> lr_tx x"
proof -
  note p = wal_heap.heap_pop_correct [OF assms]
  show "q ! 0 = r" using p(1) by simp
  show m: "mset q = add_mset r (mset q')" by (rule p(2))
  show "queue_ok q'" by (rule p(3))
  have "set q' \<subseteq> set q" by (metis m set_mset_mset subset_insertI set_mset_add_mset_insert)
  then show "lr_tx r \<le> lr_tx x" if "x \<in> set q'" for x
    using p(4) [of x] that by (auto simp: logRequest_less_def not_less)
qed

lemma queue_push: "queue_ok (wal_queue w) \<Longrightarrow> queue_ok (wal_queue (push_request tx data w))"
  by (simp add: push_request_def wal_heap.heap_push_heap)

section \<open>Batches\<close>

text \<open>What one run of the collecting loop returns.\<close>

definition batch_spec ::
  "nat \<Rightarrow> logRequest list \<Rightarrow> uint64 \<Rightarrow> nat \<Rightarrow>
   logRequest list \<times> logRequest list \<times> logRequest list \<times> uint64 \<Rightarrow> bool"
where
  "batch_spec segmentSize q nextTx batchSize out \<longleftrightarrow>
     (case out of (b, d, q', n) \<Rightarrow>
        mset q = mset b + mset d + mset q' \<and> queue_ok q' \<and>
        map lr_tx b = map (\<lambda>k. nextTx + of_nat k) [0..<length b] \<and> n = nextTx + of_nat (length b) \<and>
        (\<forall>r \<in> set b. nextTx \<le> lr_tx r) \<and> sorted_wrt (<) (map lr_tx b) \<and>
        (n \<noteq> 0 \<longrightarrow> (\<forall>r \<in> set b. lr_tx r < n)) \<and>
        (\<forall>r \<in> set d. lr_tx r < nextTx \<or> lr_tx r \<in> lr_tx ` set b) \<and>
        (b \<noteq> [] \<longrightarrow> batchSize + sum_list (map (length \<circ> lr_data) (butlast b)) < segmentSize) \<and>
        (segmentSize \<le> batchSize \<longrightarrow> d = []) \<and>
        (q' \<noteq> [] \<longrightarrow> segmentSize \<le> batchSize + sum_list (map (length \<circ> lr_data) b) \<or> n < lr_tx (q' ! 0)))"

lemma batch_spec_stop:
  assumes "queue_ok q" "q = [] \<or> segmentSize \<le> batchSize \<or> nextTx < lr_tx (q ! 0)"
  shows "batch_spec segmentSize q nextTx batchSize ([], [], q, nextTx)"
  using assms by (auto simp: batch_spec_def)

lemma batch_spec_drop:
  assumes "queue_ok q" "heap_pop logRequest_less q = Some (r, q1)" "lr_tx r < nextTx" "batchSize < segmentSize"
    and "batch_spec segmentSize q1 nextTx batchSize (b, d, q', n)"
  shows "batch_spec segmentSize q nextTx batchSize (b, r # d, q', n)"
  using assms(3-5) queue_pop(2) [OF assms(1,2)] by (auto simp: batch_spec_def)

lemma upt_shift: "map (\<lambda>k. nextTx + of_nat k) [0..<Suc m] =
   (nextTx :: uint64) # map (\<lambda>k. nextTx + 1 + of_nat k) [0..<m]"
  by (simp add: upt_conv_Cons map_Suc_upt [symmetric] comp_def add.assoc del: upt_Suc)

lemma batch_spec_take:
  assumes h: "queue_ok q" and pop: "heap_pop logRequest_less q = Some (r, q1)" and r: "lr_tx r = nextTx"
    and seg: "batchSize < segmentSize"
    and ih: "batch_spec segmentSize q1 (nextTx + 1) (batchSize + length (lr_data r)) (b, d, q', n)"
  shows "batch_spec segmentSize q nextTx batchSize (r # b, d, q', n)"
proof -
  note p = queue_pop [OF h pop]
  have i: "mset q1 = mset b + mset d + mset q'" "queue_ok q'"
    "map lr_tx b = map (\<lambda>k. nextTx + 1 + of_nat k) [0..<length b]" "n = nextTx + 1 + of_nat (length b)"
    "\<forall>x \<in> set b. nextTx + 1 \<le> lr_tx x" "sorted_wrt (<) (map lr_tx b)"
    "n \<noteq> 0 \<longrightarrow> (\<forall>x \<in> set b. lr_tx x < n)"
    "\<forall>x \<in> set d. lr_tx x < nextTx + 1 \<or> lr_tx x \<in> lr_tx ` set b"
    "q' \<noteq> [] \<longrightarrow> segmentSize \<le> batchSize + length (lr_data r) + sum_list (map (length \<circ> lr_data) b) \<or>
       n < lr_tx (q' ! 0)"
    "b \<noteq> [] \<longrightarrow> batchSize + length (lr_data r) + sum_list (map (length \<circ> lr_data) (butlast b)) < segmentSize"
    using ih by (auto simp: batch_spec_def)
  have "set q1 = set_mset (mset b + mset d + mset q')" using i(1) by (metis set_mset_mset)
  then have sub: "set b \<subseteq> set q1" "set d \<subseteq> set q1" by auto
  have ge: "nextTx \<le> lr_tx x" if "x \<in> set q1" for x using p(4) [OF that] r by simp
  have nowrap: "nextTx + 1 \<noteq> 0" if "b \<noteq> []"
  proof
    assume z: "nextTx + 1 = 0"
    obtain x b' where b: "b = x # b'" using \<open>b \<noteq> []\<close> by (cases b) auto
    then have "lr_tx x = nextTx + 1" using i(3) by (auto simp: upt_conv_Cons simp del: upt_Suc)
    moreover have "nextTx \<le> lr_tx x" using ge sub(1) b by auto
    moreover have "nextTx = - 1" using z by (metis add_eq_0_iff2)
    ultimately show False using z by simp
  qed
  have gt: "nextTx < lr_tx x" if "x \<in> set b" for x
  proof -
    have "b \<noteq> []" using that by auto
    then have "nextTx < nextTx + 1" by (intro word_less_Suc nowrap)
    then show ?thesis using i(5) that by (auto intro: less_le_trans)
  qed
  have last: "nextTx < n" if "n \<noteq> 0"
  proof (cases b)
    case Nil then show ?thesis using i(4) that word_less_Suc [of nextTx] by simp
  next
    case (Cons x b')
    then show ?thesis using gt [of x] i(7) that by (auto intro: less_trans)
  qed
  have "\<forall>x \<in> set d. lr_tx x < nextTx \<or> lr_tx x \<in> lr_tx ` set (r # b)"
  proof
    fix x assume x: "x \<in> set d"
    show "lr_tx x < nextTx \<or> lr_tx x \<in> lr_tx ` set (r # b)"
    proof (cases "lr_tx x < nextTx + 1")
      case True
      moreover have "nextTx \<le> lr_tx x" using ge x sub(2) by auto
      ultimately have "lr_tx x = nextTx"
        using word_le_Suc_cases [of "lr_tx x" nextTx] by fastforce
      then show ?thesis using r by simp
    qed (use i(8) x in auto)
  qed
  moreover have "map lr_tx (r # b) = map (\<lambda>k. nextTx + of_nat k) [0..<length (r # b)]"
    unfolding list.map length_Cons upt_shift r i(3) ..
  moreover have "n = nextTx + of_nat (length (r # b))" using i(4) by (simp add: add.assoc)
  moreover have "sorted_wrt (<) (map lr_tx (r # b))" using i(6) gt r by simp
  moreover have "\<forall>x \<in> set (r # b). nextTx \<le> lr_tx x" using gt r by (auto intro: less_imp_le)
  moreover have "n \<noteq> 0 \<longrightarrow> (\<forall>x \<in> set (r # b). lr_tx x < n)" using i(7) last r by auto
  moreover have "mset q = mset (r # b) + mset d + mset q'" using i(1) p(2) by simp
  moreover have "q' \<noteq> [] \<longrightarrow>
      segmentSize \<le> batchSize + sum_list (map (length \<circ> lr_data) (r # b)) \<or> n < lr_tx (q' ! 0)"
    using i(9) by (simp add: add.assoc)
  moreover have "batchSize + sum_list (map (length \<circ> lr_data) (butlast (r # b))) < segmentSize"
    using i(10) seg by (simp add: add.assoc)
  moreover have "segmentSize \<le> batchSize \<longrightarrow> d = []" using seg by simp
  ultimately show ?thesis using i(2) unfolding batch_spec_def prod.case by blast
qed

theorem collect_batch_spec:
  assumes "queue_ok q"
  shows "batch_spec segmentSize q nextTx batchSize (collect_batch segmentSize q nextTx batchSize)"
  using assms
proof (induction segmentSize q nextTx batchSize rule: collect_batch.induct)
  case (1 segmentSize q nextTx batchSize)
  show ?case
  proof (cases "heap_pop logRequest_less q")
    case None
    then have "q = []" by simp
    then show ?thesis using 1(3) by (subst collect_batch.simps) (simp add: batch_spec_stop heap_pop_def)
  next
    case (Some rq)
    obtain r q1 where rq: "rq = (r, q1)" by (cases rq)
    note pop = Some [unfolded rq] and p = queue_pop [OF 1(3) Some [unfolded rq]]
    show ?thesis
    proof (cases "batchSize < segmentSize")
      case False
      then show ?thesis using 1(3) by (subst collect_batch.simps) (simp add: batch_spec_stop pop)
    next
      case seg: True
      consider "lr_tx r < nextTx" | "nextTx < lr_tx r" | "lr_tx r = nextTx" by fastforce
      then show ?thesis
      proof cases
        case 1
        then have ne: "lr_tx (q ! 0) \<noteq> nextTx" using p(1) by auto
        obtain b d q' n where o: "collect_batch segmentSize q1 nextTx batchSize = (b, d, q', n)"
          by (cases "collect_batch segmentSize q1 nextTx batchSize") auto
        have "batch_spec segmentSize q1 nextTx batchSize (b, d, q', n)"
          using "1.IH"(1) [OF pop refl _ ne _ p(3)] seg 1 p(1) o by simp
        then show ?thesis using batch_spec_drop [OF "1.prems" pop 1 seg] seg ne 1 p(1) o
          by (subst collect_batch.simps) (simp add: pop)
      next
        case 2
        then show ?thesis using "1.prems" seg p(1) pop
          by (subst collect_batch.simps) (auto simp: batch_spec_stop)
      next
        case 3
        obtain b d q' n where
          o: "collect_batch segmentSize q1 (nextTx + 1) (batchSize + length (lr_data r)) = (b, d, q', n)"
          by (cases "collect_batch segmentSize q1 (nextTx + 1) (batchSize + length (lr_data r))") auto
        have "batch_spec segmentSize q1 (nextTx + 1) (batchSize + length (lr_data r)) (b, d, q', n)"
          using "1.IH"(2) [OF pop refl _ _ p(3)] seg 3 p(1) o by simp
        then show ?thesis using batch_spec_take [OF "1.prems" pop 3 seg] seg 3 p(1) o
          by (subst collect_batch.simps) (simp add: pop)
      qed
    qed
  qed
qed

lemma drop_below_spec:
  assumes "queue_ok q" "drop_below bound q = (d, q')"
  shows "mset q = mset d + mset q' \<and> queue_ok q' \<and> (\<forall>r \<in> set d. lr_tx r < bound) \<and>
    (\<forall>r \<in> set q'. bound \<le> lr_tx r)"
  using assms
proof (induction bound q arbitrary: d q' rule: drop_below.induct)
  case (1 bound q)
  show ?case
  proof (cases "heap_pop logRequest_less q")
    case None
    then have "q = []" by simp
    then show ?thesis using 1(2,3) by (simp add: drop_below.simps [of bound "[]"] heap_pop_def)
  next
    case (Some rq)
    obtain r q1 where rq: "rq = (r, q1)" by (cases rq)
    note pop = Some [unfolded rq] and p = queue_pop [OF 1(2) Some [unfolded rq]]
    have sub: "set q = insert r (set q1)" using p(2) by (metis set_mset_mset set_mset_add_mset_insert)
    show ?thesis
    proof (cases "bound \<le> lr_tx (q ! 0)")
      case True
      then have "d = []" "q' = q" using 1(3) by (simp_all add: drop_below.simps [of bound q] pop)
      then show ?thesis using 1(2) True p(1,4) sub by (auto intro: order_trans)
    next
      case False
      obtain d1 q2 where o: "drop_below bound q1 = (d1, q2)" by (cases "drop_below bound q1")
      have e: "d = r # d1" "q' = q2" using 1(3) False by (simp_all add: drop_below.simps [of bound q] pop o)
      have "mset q1 = mset d1 + mset q2 \<and> queue_ok q2 \<and> (\<forall>r \<in> set d1. lr_tx r < bound) \<and>
          (\<forall>r \<in> set q2. bound \<le> lr_tx r)"
        by (rule 1(1) [OF pop refl False p(3) o])
      then show ?thesis using p(1,2) False e by auto
    qed
  qed
qed

section \<open>The invariant of the log\<close>

definition pending :: "'st walsys \<Rightarrow> logRequest list" where
  "pending s = (case run_at s of R_Store batch _ \<Rightarrow> batch | _ \<Rightarrow> [])"

definition consecutive :: "uint64 \<Rightarrow> logRequest list \<Rightarrow> bool" where
  "consecutive n rs \<longleftrightarrow> map lr_tx rs = map (\<lambda>k. n + of_nat k) [0..<length rs]"

definition wal_inv :: "uint64 \<Rightarrow> 'st walsys \<Rightarrow> bool" where
  "wal_inv n0 s \<longleftrightarrow>
     queue_ok (wal_queue (wal s)) \<and> n0 \<le> wal_nextTx (wal s) \<and> n0 \<noteq> 0 \<and>
     requested s = mset (wal_queue (wal s)) + mset (pending s) + mset (logged s) + mset (dropped s) \<and>
     sorted_wrt (<) (map lr_tx (logged s @ pending s)) \<and>
     (\<forall>r \<in> set (logged s @ pending s). lr_tx r < wal_nextTx (wal s)) \<and>
     (\<forall>r \<in> set (dropped s). lr_tx r < wal_nextTx (wal s)) \<and>
     (\<not> skipped s \<longrightarrow> consecutive n0 (logged s @ pending s) \<and>
        wal_nextTx (wal s) = n0 + of_nat (length (logged s @ pending s)))"

lemma wal_inv_init:
  "n0 \<noteq> 0 \<Longrightarrow> wal_inv n0 (wal_start \<lparr>wal_queue = [], wal_truncateTx = 0, wal_nextTx = n0,
     wal_segmentSize = k\<rparr> st)"
  by (simp add: wal_inv_def wal_start_def pending_def consecutive_def is_heap_def)

lemma wal_inv_push:
  assumes "wal_inv n0 s"
  shows "wal_inv n0 (s\<lparr>wal := push_request tx data (wal s),
     requested := add_mset \<lparr>lr_tx = tx, lr_data = data\<rparr> (requested s)\<rparr>)"
  using assms
  by (auto simp: wal_inv_def pending_def wal_heap.heap_push_heap heap_push_mset push_request_def)

lemma wal_inv_truncate: "wal_inv n0 s \<Longrightarrow> wal_inv n0 (s\<lparr>wal := Truncate tx (wal s)\<rparr>)"
  by (auto simp: wal_inv_def pending_def Truncate_def)

lemma wal_inv_close: "wal_inv n0 s \<Longrightarrow> wal_inv n0 (Close_wal s)"
  by (auto simp: wal_inv_def pending_def Close_wal_def)

lemma wal_inv_done: "wal_inv n0 s \<Longrightarrow> wal_inv n0 (select_done b s)"
  by (auto simp: wal_inv_def pending_def select_done_def)

lemma consecutive_append:
  "consecutive n rs \<Longrightarrow> consecutive (n + of_nat (length rs)) bs \<Longrightarrow> consecutive n (rs @ bs)"
proof -
  assume a: "consecutive n rs" "consecutive (n + of_nat (length rs)) bs"
  have "map (\<lambda>k. n + of_nat k) [length rs..<length rs + length bs] =
      map (\<lambda>k. n + of_nat (length rs) + of_nat k) [0..<length bs]"
    by (rule nth_equalityI) (simp_all add: add.assoc)
  moreover have "[0..<length rs + length bs] = [0..<length rs] @ [length rs..<length rs + length bs]"
    by (rule upt_add_eq_append) simp
  ultimately show ?thesis using a unfolding consecutive_def by (simp del: upt_Suc)
qed

lemma wal_inv_collect:
  assumes inv: "wal_inv n0 s" and at: "run_at s = R_Select"
    and mono: "wal_nextTx (wal s) \<le> wal_nextTx (wal (tick_collect s))"
  shows "wal_inv n0 (tick_collect s)"
proof -
  let ?w = "wal s"
  obtain b d q n where o: "collect_batch (wal_segmentSize ?w) (wal_queue ?w) (wal_nextTx ?w) 0 = (b, d, q, n)"
    by (cases "collect_batch (wal_segmentSize ?w) (wal_queue ?w) (wal_nextTx ?w) 0") auto
  have p0: "pending s = []" using at by (simp add: pending_def)
  have i: "queue_ok (wal_queue ?w)" "n0 \<le> wal_nextTx ?w" "n0 \<noteq> 0"
    "requested s = mset (wal_queue ?w) + mset (logged s) + mset (dropped s)"
    "sorted_wrt (<) (map lr_tx (logged s))" "\<forall>r \<in> set (logged s). lr_tx r < wal_nextTx ?w"
    "\<forall>r \<in> set (dropped s). lr_tx r < wal_nextTx ?w"
    "\<not> skipped s \<longrightarrow> consecutive n0 (logged s) \<and> wal_nextTx ?w = n0 + of_nat (length (logged s))"
    using inv by (simp_all add: wal_inv_def p0)
  have b: "mset (wal_queue ?w) = mset b + mset d + mset q" "queue_ok q" "consecutive (wal_nextTx ?w) b"
    "n = wal_nextTx ?w + of_nat (length b)" "\<forall>r \<in> set b. wal_nextTx ?w \<le> lr_tx r"
    "sorted_wrt (<) (map lr_tx b)" "n \<noteq> 0 \<longrightarrow> (\<forall>r \<in> set b. lr_tx r < n)"
    "\<forall>r \<in> set d. lr_tx r < wal_nextTx ?w \<or> lr_tx r \<in> lr_tx ` set b"
    using collect_batch_spec [OF i(1), of "wal_segmentSize ?w" "wal_nextTx ?w" 0]
    unfolding o batch_spec_def consecutive_def prod.case by blast+
  have f: "wal_queue (wal (tick_collect s)) = q" "wal_nextTx (wal (tick_collect s)) = n"
    "requested (tick_collect s) = requested s" "logged (tick_collect s) = logged s"
    "dropped (tick_collect s) = dropped s @ d" "pending (tick_collect s) = b"
    "skipped (tick_collect s) = skipped s"
    by (simp_all add: tick_collect_def Let_def o pending_def)
  have le: "wal_nextTx ?w \<le> n" using mono f by simp
  then have n0: "n \<noteq> 0" using i(2,3) by auto
  have "sorted_wrt (<) (map lr_tx (logged s @ b))"
    using i(5,6) b(5,6) by (fastforce simp: sorted_wrt_append)
  moreover have "\<forall>r \<in> set (logged s @ b). lr_tx r < n"
    using i(6) b(7) n0 le by (auto intro: less_le_trans)
  moreover have "\<forall>r \<in> set (dropped s @ d). lr_tx r < n"
    using i(7) b(7,8) n0 le by (fastforce intro: less_le_trans)
  moreover have "\<not> skipped s \<longrightarrow> consecutive n0 (logged s @ b) \<and> n = n0 + of_nat (length (logged s @ b))"
    using i(8) b(3,4) consecutive_append by (auto simp: add.assoc)
  ultimately show ?thesis
    using i(2-4) b(1,2) le unfolding wal_inv_def f by (auto intro: order_trans)
qed

lemma wal_inv_store:
  assumes "wal_inv n0 s" "run_at s = R_Store batch truncateTx"
  shows "wal_inv n0 (tick_store L batch truncateTx s)"
  using assms by (auto simp: wal_inv_def tick_store_def pending_def)

lemma wal_inv_tick_truncate:
  assumes inv: "wal_inv n0 s" and at: "run_at s = R_Truncate t"
    and mono: "wal_nextTx (wal s) \<le> wal_nextTx (wal (tick_truncate L t s))"
  shows "wal_inv n0 (tick_truncate L t s)"
proof -
  obtain st ok where tf: "op_TruncateFront L (store s) t = (st, ok)" by (cases "op_TruncateFront L (store s) t")
  show ?thesis
  proof (cases "ok \<and> wal_nextTx (wal s) < t")
    case False
    then show ?thesis using inv at tf by (auto simp: wal_inv_def tick_truncate_def pending_def Let_def)
  next
    case True
    obtain d q where o: "drop_below (t + 1) (wal_queue (wal s)) = (d, q)"
      by (cases "drop_below (t + 1) (wal_queue (wal s))")
    have sp: "mset (wal_queue (wal s)) = mset d + mset q" "queue_ok q" "\<forall>r \<in> set d. lr_tx r < t + 1"
      using drop_below_spec [OF _ o] inv by (auto simp: wal_inv_def)
    have lt: "wal_nextTx (wal s) \<le> t + 1"
      using mono True by (simp add: tick_truncate_def tf o Let_def)
    have p: "pending s = []" using at by (simp add: pending_def)
    have "\<forall>r \<in> set (logged s). lr_tx r < t + 1" "\<forall>r \<in> set (dropped s). lr_tx r < t + 1"
      "n0 \<le> t + 1"
      using inv lt by (auto simp: wal_inv_def p intro: less_le_trans order_trans)
    then show ?thesis using inv True sp
      by (auto simp: wal_inv_def tick_truncate_def tf o Let_def p) (simp_all add: pending_def)
  qed
qed

theorem wal_reachable_inv: "wal_reachable L n0 s \<Longrightarrow> wal_inv n0 s"
proof (induction rule: wal_reachable.induct)
  case (init k st)
  then show ?case by (rule wal_inv_init)
next
  case (step s s')
  from step.hyps(2) show ?case
  proof (cases rule: wal_step.cases)
    case run
    then show ?thesis using step.IH step.hyps(3)
      by (cases "run_at s")
         (auto simp: run_step_def intro: wal_inv_collect wal_inv_store wal_inv_tick_truncate)
  qed (use step.IH in \<open>auto intro: wal_inv_push wal_inv_truncate wal_inv_close wal_inv_done\<close>)
qed

section \<open>What the log promises\<close>

lemma consecutive_prefix: "consecutive n (xs @ ys) \<Longrightarrow> consecutive n xs"
proof -
  assume a: "consecutive n (xs @ ys)"
  have "[0..<length xs + length ys] = [0..<length xs] @ [length xs..<length xs + length ys]"
    by (rule upt_add_eq_append) simp
  then show ?thesis using a unfolding consecutive_def by (simp del: upt_Suc)
qed

text \<open>C5: Order. Whatever the order in which concurrent writers enqueue their records and
  whatever truncations are requested meanwhile, the entries handed to the log store have
  strictly increasing transaction ids, and as long as no truncation has skipped
  transactions they are consecutive from the first expected one: no gaps, no repeats.\<close>

theorem wal_log_in_order:
  assumes "wal_reachable L n0 s"
  shows "sorted_wrt (<) (map lr_tx (logged s)) \<and>
    (skipped s \<or> map lr_tx (logged s) = map (\<lambda>k. n0 + of_nat k) [0..<length (logged s)])"
  using wal_reachable_inv [OF assms] consecutive_prefix [of n0 "logged s" "pending s"]
  by (auto simp: wal_inv_def sorted_wrt_append consecutive_def)

text \<open>Transactions 7 and 6 are enqueued in that order; two ticks log them as 6, 7.\<close>

definition nop_store :: "unit log_ops" where
  "nop_store = \<lparr>op_StoreLogs = (\<lambda>st _. (st, True)), op_TruncateFront = (\<lambda>st _. (st, True)),
     op_TruncateBack = (\<lambda>st _. (st, True)), op_FirstIndex = (\<lambda>_. Inr 0), op_LastIndex = (\<lambda>_. Inr 5),
     op_GetLog = (\<lambda>_ _. Inl ''not found'')\<rparr>"

definition wal_push :: "uint64 \<Rightarrow> 'st walsys \<Rightarrow> 'st walsys" where
  "wal_push tx s = s\<lparr>wal := push_request tx [1, 2] (wal s),
     requested := add_mset \<lparr>lr_tx = tx, lr_data = [1, 2]\<rparr> (requested s)\<rparr>"

definition wal_fresh :: "unit walsys" where
  "wal_fresh = wal_start \<lparr>wal_queue = [], wal_truncateTx = 0, wal_nextTx = 6, wal_segmentSize = 100\<rparr> ()"

definition wal_example :: "unit walsys" where
  "wal_example = run_step nop_store (run_step nop_store (wal_push 6 (wal_push 7 wal_fresh)))"

lemma wal_push_reachable:
  "wal_reachable L n0 s \<Longrightarrow> wal_reachable L n0 (wal_push tx s)"
  unfolding wal_push_def by (erule wal_reachable.step [OF _ wal_step.push]) (simp add: push_request_def)

lemma wal_example_reachable: "wal_reachable nop_store 6 wal_example"
proof -
  let ?s = "wal_push 6 (wal_push 7 wal_fresh)"
  have "wal_reachable nop_store 6 wal_fresh"
    unfolding wal_fresh_def by (rule wal_reachable.init) simp
  then have "wal_reachable nop_store 6 ?s" by (intro wal_push_reachable)
  moreover have "wal_nextTx (wal ?s) \<le> wal_nextTx (wal (run_step nop_store ?s))" by code_simp
  ultimately have "wal_reachable nop_store 6 (run_step nop_store ?s)"
    by (rule wal_reachable.step [OF _ wal_step.run])
  moreover have "wal_nextTx (wal (run_step nop_store ?s)) \<le>
      wal_nextTx (wal (run_step nop_store (run_step nop_store ?s)))" by code_simp
  ultimately show ?thesis
    unfolding wal_example_def by (rule wal_reachable.step [OF _ wal_step.run])
qed

theorem wal_log_in_order_witness:
  "map lr_tx (logged wal_example) = [6, 7] \<and> sorted_wrt (<) (map lr_tx (logged wal_example))"
proof -
  have "map lr_tx (logged wal_example) = [6, 7]" by code_simp
  then show ?thesis using wal_log_in_order [OF wal_example_reachable] by simp
qed

text \<open>C17: Accounting. Every request ever pushed is exactly once in the queue, in the batch
  being written, in the log, or among the requests dropped with a warning; a dropped
  request's transaction is below the next expected one, so no request the log
  still waits for is lost.\<close>

theorem wal_requests_accounted:
  assumes "wal_reachable L n0 s"
  shows "requested s = mset (wal_queue (wal s)) + mset (pending s) + mset (logged s) + mset (dropped s) \<and>
    list_all (\<lambda>r. lr_tx r < wal_nextTx (wal s)) (dropped s)"
  using wal_reachable_inv [OF assms] by (auto simp: wal_inv_def list_all_iff)

theorem wal_requests_accounted_witness:
  "size (requested wal_example) = 2 \<and> requested wal_example =
     mset (wal_queue (wal wal_example)) + mset (pending wal_example) + mset (logged wal_example) +
     mset (dropped wal_example)"
proof -
  have "size (requested wal_example) = 2" by code_simp
  then show ?thesis using wal_requests_accounted [OF wal_example_reachable] by simp
qed

text \<open>C18: One tick takes as much as it can and no more: the batch is a run of consecutive transactions from the
  expected one on, its data without the last request is smaller than the segment size, it stops only at a gap, once the data has
  reached the segment size or at the end of the queue, and a request is dropped only if it is below the expected transaction or
  repeats one of the batch.\<close>

theorem collect_batch_maximal:
  assumes "is_heap logRequest_less q (length q)"
  shows "batch_spec segmentSize q nextTx 0 (collect_batch segmentSize q nextTx 0)"
  using assms by (rule collect_batch_spec)

text \<open>The data of the first request reaches the segment size: the next one stays in the queue.\<close>

theorem collect_batch_maximal_witness:
  "batch_spec 2 [\<lparr>lr_tx = 4, lr_data = [9]\<rparr>, \<lparr>lr_tx = 5, lr_data = [1, 2]\<rparr>, \<lparr>lr_tx = 6, lr_data = [3]\<rparr>] 5 0
     ([\<lparr>lr_tx = 5, lr_data = [1, 2]\<rparr>], [\<lparr>lr_tx = 4, lr_data = [9]\<rparr>], [\<lparr>lr_tx = 6, lr_data = [3]\<rparr>], 6)"
proof -
  let ?q = "[\<lparr>lr_tx = 4, lr_data = [9]\<rparr>, \<lparr>lr_tx = 5, lr_data = [1, 2]\<rparr>, \<lparr>lr_tx = 6, lr_data = [3]\<rparr>]"
  have h: "is_heap logRequest_less ?q (length ?q)"
    by code_simp
  have "collect_batch 2 ?q 5 0 =
    ([\<lparr>lr_tx = 5, lr_data = [1, 2]\<rparr>], [\<lparr>lr_tx = 4, lr_data = [9]\<rparr>], [\<lparr>lr_tx = 6, lr_data = [3]\<rparr>], 6)"
    by code_simp
  then show ?thesis using collect_batch_maximal [OF h, of 2 5] by simp
qed

section \<open>Replay\<close>

lemma unat_Suc_less: "(x :: uint64) < y \<Longrightarrow> unat (x + 1) = Suc (unat x)"
  by unat_arith

text \<open>The loop passes over every record that can be read and that the handler accepts.\<close>

lemma replay_loop_steps:
  assumes "tx \<le> k"
    and "\<And>i. tx \<le> i \<Longrightarrow> i < k \<Longrightarrow> i \<le> lastIndex \<and>
      (\<exists>d. op_GetLog L st i = Inr d \<and> unmarshal d = Inr (rec i))"
    and "\<And>h i. tx \<le> i \<Longrightarrow> i < k \<Longrightarrow> handler h i (rec i) = H_Ok (g h i)"
  shows "replay_loop L unmarshal handler st lastIndex tx h =
    replay_loop L unmarshal handler st lastIndex k (foldl (\<lambda>h i. g h (of_nat i)) h [unat tx..<unat k])"
  using assms
proof (induction "unat k - unat tx" arbitrary: tx h)
  case 0
  then have "unat tx = unat k" by (simp add: word_le_nat_alt)
  then have "tx = k" by (simp only: word_unat_eq_iff)
  then show ?case by simp
next
  case (Suc m)
  then have lt: "tx < k" by (auto simp: word_less_nat_alt)
  note u = unat_Suc_less [OF lt]
  obtain d where d: "tx \<le> lastIndex" "op_GetLog L st tx = Inr d" "unmarshal d = Inr (rec tx)"
    using Suc.prems(2) [of tx] lt by auto
  have le: "tx + 1 \<le> k" using lt u by (simp add: word_le_nat_alt word_less_nat_alt)
  have sub: "tx \<le> i" if "tx + 1 \<le> i" for i using that u by (simp add: word_le_nat_alt)
  have "replay_loop L unmarshal handler st lastIndex tx h =
      replay_loop L unmarshal handler st lastIndex (tx + 1) (g h tx)"
    using d Suc.prems(3) [of tx h] lt by (subst replay_loop.simps) simp
  also have "\<dots> = replay_loop L unmarshal handler st lastIndex k
      (foldl (\<lambda>h i. g h (of_nat i)) (g h tx) [unat (tx + 1)..<unat k])"
    using Suc.hyps(2) u by (intro Suc.hyps(1) le Suc.prems(2,3) sub) auto
  finally show ?case using lt u by (simp add: upt_conv_Cons word_less_nat_alt)
qed

lemma replay_loop_returns:
  assumes "lastIndex \<noteq> - 1"
  shows "\<exists>r. replay_loop L unmarshal handler st lastIndex tx h = Some r"
proof (induction "Suc (unat lastIndex) - unat tx" arbitrary: tx h)
  case 0
  then have "\<not> tx \<le> lastIndex" by (simp add: word_le_nat_alt)
  then show ?case by (subst replay_loop.simps) simp
next
  case (Suc m)
  then have le: "tx \<le> lastIndex" by (simp add: word_le_nat_alt)
  then have "tx \<noteq> - 1" using assms by (metis word_order.extremum_uniqueI)
  then have "unat (tx + 1) = Suc (unat tx)" by (simp add: unatSuc add.commute add_eq_0_iff)
  then have "m = Suc (unat lastIndex) - unat (tx + 1)" using Suc.hyps(2) by simp
  then have "\<exists>r. replay_loop L unmarshal handler st lastIndex (tx + 1) h' = Some r" for h'
    using Suc.hyps(1) by simp
  then show ?case
    using le by (subst replay_loop.simps) (auto split: sum.splits handler_result.splits)
qed

text \<open>Where \<open>Replay\<close> starts: the requested transaction, clamped to the first index of the log.\<close>

definition replay_start :: "uint64 \<Rightarrow> uint64 \<Rightarrow> uint64" where
  "replay_start first tx = (if tx = 0 \<or> tx < first then first else tx)"

text \<open>C19: Replay returns. With any handler and any contents of the log, \<open>Replay\<close> ends with a
  result unless the last index is the largest 64-bit number, where the loop counter
  would wrap around.\<close>

theorem Replay_returns:
  assumes "op_LastIndex L st \<noteq> Inr (- 1)"
  shows "\<exists>r. Replay L unmarshal handler st tx h = Some r"
proof (cases "op_FirstIndex L st")
  case (Inr f)
  show ?thesis
  proof (cases "op_LastIndex L st")
    case last: (Inr l)
    then obtain r where "replay_loop L unmarshal handler st l (if tx = 0 \<or> tx < f then f else tx) h = Some r"
      using replay_loop_returns [of l] assms by fastforce
    then show ?thesis by (cases r) (auto simp: Replay_def Inr last Let_def split: prod.splits)
  qed (simp add: Replay_def Inr Let_def)
qed (simp add: Replay_def)

theorem Replay_returns_witness:
  "\<exists>r. Replay nop_store (\<lambda>_. Inr ()) (\<lambda>h _ _. H_Ok (Suc h)) () 3 0 = Some r"
  by (rule Replay_returns) (simp add: nop_store_def)

text \<open>C20: Replay is complete and ordered. If every record from the start to the last index can be
  read and the handler accepts each, then the handler sees exactly those records, once
  each, in transaction order, and the log is unchanged.\<close>

theorem Replay_all_records:
  assumes "op_FirstIndex L st = Inr first" "op_LastIndex L st = Inr l" "first \<noteq> 0" "l \<noteq> - 1"
    and "replay_start first tx \<le> l"
    and "\<And>i. replay_start first tx \<le> i \<Longrightarrow> i \<le> l \<Longrightarrow>
      \<exists>d. op_GetLog L st i = Inr d \<and> unmarshal d = Inr (rec i)"
    and "\<And>h i. replay_start first tx \<le> i \<Longrightarrow> i \<le> l \<Longrightarrow> handler h i (rec i) = H_Ok (g h i)"
  shows "Replay L unmarshal handler st tx h =
    Some (foldl (\<lambda>h i. g h (of_nat i)) h [unat (replay_start first tx)..<Suc (unat l)], st, None)"
proof -
  let ?s = "replay_start first tx"
  have u: "unat (l + 1) = Suc (unat l)" using assms(4) by (simp add: unatSuc add.commute add_eq_0_iff)
  have up: "i < l + 1 \<longleftrightarrow> i \<le> l" for i using u by (simp add: word_le_nat_alt word_less_nat_alt less_Suc_eq_le)
  have "replay_loop L unmarshal handler st l ?s h =
    replay_loop L unmarshal handler st l (l + 1) (foldl (\<lambda>h i. g h (of_nat i)) h [unat ?s..<unat (l + 1)])"
    using assms(5-7) u up by (intro replay_loop_steps) (auto simp: word_le_nat_alt)
  also have "\<dots> = Some (End_Done (foldl (\<lambda>h i. g h (of_nat i)) h [unat ?s..<unat (l + 1)]))"
    using up [of "l + 1"] by (subst replay_loop.simps) auto
  finally have loop: "replay_loop L unmarshal handler st l ?s h =
    Some (End_Done (foldl (\<lambda>h i. g h (of_nat i)) h [unat ?s..<Suc (unat l)]))" by (simp only: u)
  have "?s \<noteq> 0" using assms(3) by (auto simp: replay_start_def)
  moreover have "l \<noteq> 0" using assms(5) calculation by auto
  ultimately show ?thesis
    using loop unfolding Replay_def assms(1,2) sum.case Let_def replay_start_def [symmetric] by simp
qed

text \<open>C21: Repair. If the records before index \<open>k\<close> are handled and the record at \<open>k\<close> cannot be
  read, the handler has seen exactly the records before \<open>k\<close>, and the log is cut back to
  \<open>k - 1\<close>; replay then reports success.\<close>

theorem Replay_repairs_corruption:
  assumes "op_FirstIndex L st = Inr first" "op_LastIndex L st = Inr l" "first \<noteq> 0"
    and "replay_start first tx \<le> k" "k \<le> l"
    and "\<And>i. replay_start first tx \<le> i \<Longrightarrow> i < k \<Longrightarrow>
      \<exists>d. op_GetLog L st i = Inr d \<and> unmarshal d = Inr (rec i)"
    and "\<And>h i. replay_start first tx \<le> i \<Longrightarrow> i < k \<Longrightarrow> handler h i (rec i) = H_Ok (g h i)"
    and "op_GetLog L st k = Inl e" and "op_TruncateBack L st (k - 1) = (st', True)"
  shows "Replay L unmarshal handler st tx h =
    Some (foldl (\<lambda>h i. g h (of_nat i)) h [unat (replay_start first tx)..<unat k], st', None)"
proof -
  let ?s = "replay_start first tx"
  have "replay_loop L unmarshal handler st l ?s h =
    replay_loop L unmarshal handler st l k (foldl (\<lambda>h i. g h (of_nat i)) h [unat ?s..<unat k])"
    using assms(4-7) by (intro replay_loop_steps) auto
  also have "\<dots> = Some (End_Panic (foldl (\<lambda>h i. g h (of_nat i)) h [unat ?s..<unat k]) k)"
    using assms(5,8) by (subst replay_loop.simps) simp
  finally have loop: "replay_loop L unmarshal handler st l ?s h =
    Some (End_Panic (foldl (\<lambda>h i. g h (of_nat i)) h [unat ?s..<unat k]) k)" .
  have "?s \<noteq> 0" using assms(3) by (auto simp: replay_start_def)
  moreover have "l \<noteq> 0" using assms(4,5) calculation by auto
  ultimately show ?thesis
    using loop assms(9) unfolding Replay_def assms(1,2) sum.case Let_def replay_start_def [symmetric] by simp
qed

text \<open>A log with indexes 3 to 5 whose record 5 is corrupt.\<close>

definition sample_store :: "bool \<Rightarrow> uint64 log_ops" where
  "sample_store corrupt = \<lparr>op_StoreLogs = (\<lambda>st _. (st, True)), op_TruncateFront = (\<lambda>st _. (st, True)),
     op_TruncateBack = (\<lambda>_ i. (i, True)), op_FirstIndex = (\<lambda>_. Inr 3), op_LastIndex = (\<lambda>st. Inr st),
     op_GetLog = (\<lambda>_ i. if corrupt \<and> i = 5 then Inl ''corrupt'' else Inr [ucast i])\<rparr>"

theorem Replay_all_records_witness:
  "Replay (sample_store False) (\<lambda>d. Inr (hd d)) (\<lambda>h i _. H_Ok (h @ [i])) 5 1 [] = Some ([3, 4, 5], 5, None)"
proof -
  have "Replay (sample_store False) (\<lambda>d. Inr (hd d)) (\<lambda>h i _. H_Ok (h @ [i])) 5 1 [] =
    Some (foldl (\<lambda>h i. h @ [of_nat i]) [] [unat (replay_start 3 1)..<Suc (unat (5 :: uint64))], 5, None)"
    by (rule Replay_all_records [where rec = "\<lambda>i. ucast i"]) (simp_all add: sample_store_def replay_start_def)
  also have "\<dots> = Some ([3, 4, 5], 5, None)" by (simp add: replay_start_def upt_rec)
  finally show ?thesis .
qed

theorem Replay_repairs_corruption_witness:
  "Replay (sample_store True) (\<lambda>d. Inr (hd d)) (\<lambda>h i _. H_Ok (h @ [i])) 5 1 [] = Some ([3, 4], 4, None)"
proof -
  have "Replay (sample_store True) (\<lambda>d. Inr (hd d)) (\<lambda>h i _. H_Ok (h @ [i])) 5 1 [] =
    Some (foldl (\<lambda>h i. h @ [of_nat i]) [] [unat (replay_start 3 1)..<unat (5 :: uint64)], 4, None)"
    by (rule Replay_repairs_corruption [where rec = "\<lambda>i. ucast i"])
       (auto simp add: sample_store_def replay_start_def)
  also have "\<dots> = Some ([3, 4], 4, None)" by (simp add: replay_start_def upt_rec)
  finally show ?thesis .
qed

end
