(* ===== verification/Dynamic_Columns.thy ===== *)
theory Dynamic_Columns
  imports Frost_Prelude "HOL-Library.AList" "HOL-Library.List_Lexorder" "HOL-Library.Char_ord"
begin

text \<open>
  The concrete names of the dynamic columns of a buffer: their serialized form
  (\<open>dynparquet/dynamiccolumns.go\<close>) and the merging of several sets of names
  (\<open>MergeDynamicColumnSets\<close> and its helpers in \<open>dynparquet/schema.go\<close>). A Go map
  is an association list with distinct keys, read with \<open>map_of\<close>; strings are ordered
  byte by byte.
\<close>

type_synonym dyn_cols = "(string \<times> string list) list"

section \<open>Serialization\<close>

fun write_labels :: "bool \<Rightarrow> string list \<Rightarrow> string" where
  "write_labels first [] = []"
| "write_labels first (l # ls) = (if first then [] else '','') @ l @ write_labels False ls"

fun write_columns :: "(string \<rightharpoonup> string list) \<Rightarrow> bool \<Rightarrow> string list \<Rightarrow> string" where
  "write_columns m first [] = []"
| "write_columns m first (name # names) =
     (if first then [] else '';'') @ name @ '':'' @
     write_labels True (case m name of None \<Rightarrow> [] | Some cols \<Rightarrow> cols) @ write_columns m False names"

definition serializeDynamicColumns :: "dyn_cols \<Rightarrow> string" where
  "serializeDynamicColumns dynamicColumns =
     write_columns (map_of dynamicColumns) True (sort (map fst dynamicColumns))"

text \<open>\<open>strings.Cut\<close> for a separator of one byte.\<close>

fun Cut :: "string \<Rightarrow> char \<Rightarrow> string \<times> string \<times> bool" where
  "Cut [] sep = ([], [], False)"
| "Cut (c # s) sep =
     (if c = sep then ([], s, True)
      else let (before, after, found) = Cut s sep in (c # before, after, found))"

lemma Cut_length: "s \<noteq> [] \<Longrightarrow> length (fst (snd (Cut s sep))) < length s"
proof (induction s)
  case (Cons c s)
  then show ?case by (cases "s = []") (auto split: prod.splits simp: Let_def)
qed simp

function read_labels :: "string \<Rightarrow> string list" where
  "read_labels labels =
     (if labels = [] then []
      else let (label, labels', _) = Cut labels (CHR '','') in label # read_labels labels')"
  by pat_completeness auto
termination
proof (relation "measure length")
  fix labels label rest :: string and x y b
  assume "labels \<noteq> []" "x = Cut labels (CHR '','')" "(label, y) = x" "(rest, b) = y"
  then show "(rest, labels) \<in> measure length"
    using Cut_length [of labels "CHR '',''"] by (metis fst_conv in_measure snd_conv)
qed simp

function read_columns :: "string \<Rightarrow> dyn_cols \<Rightarrow> dyn_cols option" where
  "read_columns columns dynCols =
     (if columns = [] then Some dynCols
      else let (column, columns', _) = Cut columns (CHR '';'');
               (name, labels, ok) = Cut column (CHR '':'')
           in if \<not> ok then None
              else read_columns columns' (AList.update name (read_labels labels) dynCols))"
  by pat_completeness auto
termination
proof (relation "measure (\<lambda>(columns, _). length columns)", goal_cases)
  case (2 columns dynCols x column y columns' b)
  then show ?case
    using Cut_length [of columns "CHR '';''"]
    by (metis case_prod_conv fst_conv in_measure snd_conv)
qed simp

declare read_labels.simps [simp del] read_columns.simps [simp del]

datatype dyncol_error = ErrMalformedDynamicColumns

definition deserializeDynamicColumns :: "string \<Rightarrow> (dyncol_error, dyn_cols) result" where
  "deserializeDynamicColumns columns =
     (case read_columns columns [] of
        None \<Rightarrow> Inl ErrMalformedDynamicColumns
      | Some dynCols \<Rightarrow> Inr dynCols)"

section \<open>Merging\<close>

definition MergeDeduplicatedDynCols :: "string list \<Rightarrow> string list" where
  "MergeDeduplicatedDynCols dyn = sort dyn"

fun merge_seen :: "string list \<Rightarrow> string list \<times> string set \<Rightarrow> string list \<times> string set" where
  "merge_seen [] rs = rs"
| "merge_seen (n # ns) (result, seen) =
     (if n \<notin> seen then merge_seen ns (result @ [n], insert n seen)
      else merge_seen ns (result, seen))"

definition mergeStrings :: "string list list \<Rightarrow> string list" where
  "mergeStrings str = MergeDeduplicatedDynCols (fst (foldl (\<lambda>rs s. merge_seen s rs) ([], {}) str))"

definition collect_sets :: "dyn_cols list \<Rightarrow> (string \<times> string list list) list" where
  "collect_sets sets =
     foldl (foldl (\<lambda>m (k, v).
       AList.update k ((case map_of m k of None \<Rightarrow> [] | Some vs \<Rightarrow> vs) @ [v]) m)) [] sets"

definition MergeDynamicColumnSets :: "dyn_cols list \<Rightarrow> dyn_cols" where
  "MergeDynamicColumnSets sets = map (\<lambda>(name, dynCols). (name, mergeStrings dynCols)) (collect_sets sets)"

section \<open>Round trip\<close>

lemma Cut_found: "sep \<notin> set a \<Longrightarrow> Cut (a @ sep # b) sep = (a, b, True)"
  by (induction a) auto

lemma Cut_not_found: "sep \<notin> set a \<Longrightarrow> Cut a sep = (a, [], False)"
  by (induction a) auto

lemma write_labels_Cons:
  "write_labels True (l # ls) = l @ (if ls = [] then [] else '','' @ write_labels True ls)"
  by (cases ls) simp_all

lemma write_columns_Cons:
  "write_columns m True (n # ns) = (n @ '':'' @ write_labels True (case m n of None \<Rightarrow> [] | Some c \<Rightarrow> c)) @
     (if ns = [] then [] else '';'' @ write_columns m True ns)"
  by (cases ns) simp_all

lemma set_write_labels: "set (write_labels first ls) \<subseteq> {CHR '',''} \<union> \<Union> (set ` set ls)"
  by (induction first ls rule: write_labels.induct) auto

text \<open>
  What the format can carry: names without the separators \<open>;\<close> and \<open>:\<close>, labels
  without \<open>;\<close> and \<open>,\<close>, and no list of labels that ends in the empty label (the
  serialized form of a trailing empty label is the same as that of none).
\<close>

definition labels_ok :: "string list \<Rightarrow> bool" where
  "labels_ok ls \<longleftrightarrow> (\<forall>l \<in> set ls. CHR '','' \<notin> set l \<and> CHR '';'' \<notin> set l) \<and> (ls \<noteq> [] \<longrightarrow> last ls \<noteq> [])"

definition serializable :: "dyn_cols \<Rightarrow> bool" where
  "serializable m \<longleftrightarrow> distinct (map fst m) \<and>
     (\<forall>(n, ls) \<in> set m. CHR '';'' \<notin> set n \<and> CHR '':'' \<notin> set n \<and> labels_ok ls)"

lemma labels_ok_Cons: "labels_ok (l # ls) \<Longrightarrow> ls \<noteq> [] \<Longrightarrow> labels_ok ls"
  by (simp add: labels_ok_def)

lemma read_write_labels: "labels_ok ls \<Longrightarrow> read_labels (write_labels True ls) = ls"
proof (induction ls)
  case Nil
  then show ?case by (simp add: read_labels.simps)
next
  case (Cons l ls)
  show ?case
  proof (cases "ls = []")
    case True
    with Cons.prems have "l \<noteq> []" "CHR '','' \<notin> set l" by (simp_all add: labels_ok_def)
    then show ?thesis using True
      by (subst read_labels.simps) (simp add: Cut_not_found read_labels.simps [of "[]"])
  next
    case False
    then have "labels_ok ls" "CHR '','' \<notin> set l" using Cons.prems
      by (auto intro: labels_ok_Cons simp: labels_ok_def)
    then show ?thesis using False Cons.IH
      by (subst read_labels.simps) (simp add: Cut_found write_labels_Cons del: write_labels.simps)
  qed
qed

definition update_all :: "(string \<rightharpoonup> string list) \<Rightarrow> string list \<Rightarrow> dyn_cols \<Rightarrow> dyn_cols" where
  "update_all m names d = foldl (\<lambda>d n. AList.update n (case m n of None \<Rightarrow> [] | Some c \<Rightarrow> c) d) d names"

lemma map_of_update_all:
  "map_of (update_all m names d) =
     (\<lambda>n. if n \<in> set names then Some (case m n of None \<Rightarrow> [] | Some c \<Rightarrow> c) else map_of d n)"
  by (induction names arbitrary: d) (auto simp: update_all_def update_conv' fun_eq_iff)

lemma read_write_columns:
  assumes "\<And>n. n \<in> set names \<Longrightarrow> CHR '';'' \<notin> set n \<and> CHR '':'' \<notin> set n \<and>
      labels_ok (case m n of None \<Rightarrow> [] | Some c \<Rightarrow> c)"
  shows "read_columns (write_columns m True names) d = Some (update_all m names d)"
  using assms
proof (induction names arbitrary: d)
  case Nil
  then show ?case by (simp add: read_columns.simps update_all_def)
next
  case (Cons n ns)
  let ?ls = "case m n of None \<Rightarrow> [] | Some c \<Rightarrow> c"
  let ?column = "n @ '':'' @ write_labels True ?ls"
  have ok: "CHR '';'' \<notin> set n" "CHR '':'' \<notin> set n" "labels_ok ?ls" using Cons.prems by simp_all
  have "CHR '';'' \<notin> set (write_labels True ?ls)"
    using set_write_labels [of True ?ls] ok(3) by (auto simp: labels_ok_def)
  then have sc: "CHR '';'' \<notin> set ?column" using ok by simp
  have cut: "Cut (write_columns m True (n # ns)) (CHR '';'') =
      (?column, if ns = [] then [] else write_columns m True ns, ns \<noteq> [])"
    using Cut_found [OF sc] Cut_not_found [OF sc] by (simp add: write_columns_Cons del: write_columns.simps)
  have "Cut ?column (CHR '':'') = (n, write_labels True ?ls, True)" using Cut_found [OF ok(2)] by simp
  moreover have "write_columns m True (n # ns) \<noteq> []" by simp
  moreover have "(if ns = [] then [] else write_columns m True ns) = write_columns m True ns" by simp
  ultimately show ?case
    using Cons.IH [of "AList.update n ?ls d"] Cons.prems read_write_labels [OF ok(3)] cut
    by (subst read_columns.simps) (simp add: update_all_def del: write_columns.simps)
qed

text \<open>C22: Round trip. Deserializing what was serialized gives the same dynamic columns, for every
  map whose names and labels avoid the separators of the format and no list of which
  ends in an empty label; the order in which the Go map is traversed does not matter.\<close>

theorem dynamic_columns_roundtrip:
  assumes "serializable m"
  shows "\<exists>d. deserializeDynamicColumns (serializeDynamicColumns m) = Inr d \<and> map_of d = map_of m"
proof -
  let ?names = "sort (map fst m)"
  have "read_columns (serializeDynamicColumns m) [] = Some (update_all (map_of m) ?names [])"
    unfolding serializeDynamicColumns_def
  proof (rule read_write_columns)
    fix n assume "n \<in> set ?names"
    then obtain ls where "(n, ls) \<in> set m" by auto
    with assms show "CHR '';'' \<notin> set n \<and> CHR '':'' \<notin> set n \<and>
        labels_ok (case map_of m n of None \<Rightarrow> [] | Some c \<Rightarrow> c)"
      by (auto simp: serializable_def)
  qed
  moreover have "map_of (update_all (map_of m) ?names []) = map_of m"
  proof
    fix k
    show "map_of (update_all (map_of m) ?names []) k = map_of m k"
      using map_of_eq_None_iff [of m k] by (cases "map_of m k") (auto simp: map_of_update_all)
  qed
  ultimately show ?thesis by (simp add: deserializeDynamicColumns_def)
qed

theorem dynamic_columns_roundtrip_witness:
  "\<exists>d. deserializeDynamicColumns (serializeDynamicColumns [(''labels'', [''a'', '''', ''b'']), (''c'', [])]) = Inr d \<and>
     map_of d = map_of [(''labels'', [''a'', '''', ''b'']), (''c'', [])]"
  by (rule dynamic_columns_roundtrip) (simp add: serializable_def labels_ok_def)

section \<open>Merged sets are sorted supersets\<close>

lemma merge_seen_spec:
  assumes "set result = seen" "distinct result"
  shows "\<exists>r. merge_seen ns (result, seen) = (r, set r) \<and> distinct r \<and> set r = seen \<union> set ns"
  using assms
proof (induction ns arbitrary: result seen)
  case (Cons n ns)
  show ?case
  proof (cases "n \<in> seen")
    case True
    then show ?thesis using Cons.IH [OF Cons.prems] by auto
  next
    case False
    then show ?thesis using Cons.IH [of "result @ [n]" "insert n seen"] Cons.prems by auto
  qed
qed auto

lemma merge_seen_fold:
  assumes "distinct r0"
  shows "\<exists>r. foldl (\<lambda>rs s. merge_seen s rs) (r0, set r0) str = (r, set r) \<and> distinct r \<and>
    set r = set r0 \<union> \<Union> (set ` set str)"
  using assms
proof (induction str arbitrary: r0)
  case (Cons s str)
  from merge_seen_spec [OF refl Cons.prems, of s]
  obtain r where r: "merge_seen s (r0, set r0) = (r, set r)" "distinct r" "set r = set r0 \<union> set s" by blast
  then show ?case using Cons.IH [OF r(2)] by auto
qed auto

lemma mergeStrings_spec:
  "sorted (mergeStrings str) \<and> distinct (mergeStrings str) \<and> set (mergeStrings str) = \<Union> (set ` set str)"
  using merge_seen_fold [of "[]" str] by (auto simp: mergeStrings_def MergeDeduplicatedDynCols_def)

text \<open>The values that the sets hold for a name, in order.\<close>

definition values_for :: "string \<Rightarrow> dyn_cols list \<Rightarrow> string list list" where
  "values_for k sets = map snd (filter (\<lambda>kv. fst kv = k) (concat sets))"

lemma collect_one:
  "map_of (foldl (\<lambda>m (k, v). AList.update k ((case map_of m k of None \<Rightarrow> [] | Some vs \<Rightarrow> vs) @ [v]) m) m0 kvs) k =
     (let new = map snd (filter (\<lambda>kv. fst kv = k) kvs)
      in case map_of m0 k of None \<Rightarrow> if new = [] then None else Some new | Some vs \<Rightarrow> Some (vs @ new))"
  by (induction kvs arbitrary: m0) (auto simp: update_conv' Let_def split: option.splits if_splits)

lemma collect_sets_concat:
  "collect_sets sets =
     foldl (\<lambda>m (k, v). AList.update k ((case map_of m k of None \<Rightarrow> [] | Some vs \<Rightarrow> vs) @ [v]) m) [] (concat sets)"
proof -
  have "foldl (foldl f) m xss = foldl f m (concat xss)"
    for f :: "'a \<Rightarrow> 'b \<Rightarrow> 'a" and m xss by (induction xss arbitrary: m) auto
  then show ?thesis by (simp only: collect_sets_def)
qed

lemma map_of_MergeDynamicColumnSets:
  "map_of (MergeDynamicColumnSets sets) k =
     (if values_for k sets = [] then None else Some (mergeStrings (values_for k sets)))"
proof -
  have "map_of (collect_sets sets) k = (if values_for k sets = [] then None else Some (values_for k sets))"
    by (simp add: collect_sets_concat collect_one values_for_def Let_def)
  then show ?thesis
    by (simp add: MergeDynamicColumnSets_def map_of_map)
qed

text \<open>The names that the given sets hold for a dynamic column.\<close>

definition names_in :: "string \<Rightarrow> dyn_cols list \<Rightarrow> string set" where
  "names_in k sets = \<Union> (set ` set (values_for k sets))"

text \<open>C23: Merging dynamic columns. The merged map has exactly the columns that some set has, and
  for each the sorted, duplicate-free list of all the names that the sets have for it.\<close>

theorem MergeDynamicColumnSets_spec:
  "(case map_of (MergeDynamicColumnSets sets) k of
      None \<Rightarrow> k \<notin> fst ` set (concat sets)
    | Some names \<Rightarrow> k \<in> fst ` set (concat sets) \<and> sorted names \<and> distinct names \<and> set names = names_in k sets)"
proof -
  have "values_for k sets = [] \<longleftrightarrow> k \<notin> fst ` set (concat sets)"
    by (force simp: values_for_def filter_empty_conv)
  then show ?thesis
    using mergeStrings_spec [of "values_for k sets"]
    by (simp add: map_of_MergeDynamicColumnSets names_in_def)
qed

end
