(* ===== verification/Dyn_Schema.thy ===== *)
theory Dyn_Schema
  imports Dynamic_Columns
begin

text \<open>
  Schemas with dynamic columns (\<open>dynparquet/schema.go\<close>): their construction from a
  definition, the concrete columns they have for given dynamic column names, and the
  adapter that presents a row group in a wider schema (\<open>DynamicRowGroupMergeAdapter\<close>
  with the null chunks of \<open>dynparquet/nil_chunk.go\<close>). The nodes of the parquet
  library are terms of the constructors the code applies.
\<close>

section \<open>Storage layouts\<close>

datatype encoding = RLEDictionary | DeltaBinaryPacked | DeltaByteArray | DeltaLengthByteArray

datatype codec = Snappy | Gzip | Brotli | Lz4Raw | Zstd

datatype pnode =
    P_String | P_Int64 | P_Double | P_Boolean
  | P_Optional pnode | P_Repeated pnode
  | P_Encoded pnode encoding | P_Compressed pnode codec
  | P_Group "(string \<times> pnode) list"

text \<open>The fields read through the interface \<open>StorageLayout\<close>; the numbers are the protobuf enums.\<close>

record StorageLayout =
  sl_Type :: int
  sl_Encoding :: int
  sl_Compression :: int
  sl_Nullable :: bool
  sl_Repeated :: bool

datatype schema_error =
    Unknown_storage_layout_type int
  | Unknown_encoding int
  | Unknown_compression int
  | Unknown_sorting_direction int

definition encodingFromDefinition :: "int \<Rightarrow> (schema_error, encoding) result" where
  "encodingFromDefinition enc =
     (if enc = 1 then Inr RLEDictionary
      else if enc = 2 then Inr DeltaBinaryPacked
      else if enc = 3 then Inr DeltaByteArray
      else if enc = 4 then Inr DeltaLengthByteArray
      else Inl (Unknown_encoding enc))"

definition compressionFromDefinition :: "int \<Rightarrow> (schema_error, codec) result" where
  "compressionFromDefinition c =
     (if c = 1 then Inr Snappy
      else if c = 2 then Inr Gzip
      else if c = 3 then Inr Brotli
      else if c = 4 then Inr Lz4Raw
      else if c = 5 then Inr Zstd
      else Inl (Unknown_compression c))"

definition storageLayoutToParquetNode :: "StorageLayout \<Rightarrow> (schema_error, pnode) result" where
  "storageLayoutToParquetNode l =
     bind_result
       (if sl_Type l = 1 then Inr P_String
        else if sl_Type l = 2 then Inr P_Int64
        else if sl_Type l = 3 then Inr P_Double
        else if sl_Type l = 4 then Inr P_Boolean
        else Inl (Unknown_storage_layout_type (sl_Type l)))
     (\<lambda>node. let node = (if sl_Nullable l then P_Optional node else node) in
     bind_result
       (if sl_Encoding l \<noteq> 0
        then bind_result (encodingFromDefinition (sl_Encoding l)) (\<lambda>enc. Inr (P_Encoded node enc))
        else Inr node)
     (\<lambda>node. bind_result
       (if sl_Compression l \<noteq> 0
        then bind_result (compressionFromDefinition (sl_Compression l)) (\<lambda>c. Inr (P_Compressed node c))
        else Inr node)
     (\<lambda>node. Inr (if sl_Repeated l then P_Repeated node else node))))"

section \<open>Columns and sorting columns\<close>

record ColumnDefinition =
  cd_Name :: string
  cd_StorageLayout :: pnode
  cd_Dynamic :: bool
  cd_PreHash :: bool

text \<open>The implementations of \<open>SortingColumn\<close>; a dynamic one wraps the column it was made from.\<close>

datatype SortingColumn =
    Ascending string
  | Descending string
  | NullsFirst SortingColumn
  | DynamicSortingColumn SortingColumn string string

fun ColumnName :: "SortingColumn \<Rightarrow> string" where
  "ColumnName (Ascending name) = name"
| "ColumnName (Descending name) = name"
| "ColumnName (NullsFirst sc) = ColumnName sc"
| "ColumnName (DynamicSortingColumn sc dynamicColumnName fullName) = fullName"

fun is_Descending :: "SortingColumn \<Rightarrow> bool" where
  "is_Descending (Ascending name) = False"
| "is_Descending (Descending name) = True"
| "is_Descending (NullsFirst sc) = is_Descending sc"
| "is_Descending (DynamicSortingColumn sc dynamicColumnName fullName) = is_Descending sc"

fun is_NullsFirst :: "SortingColumn \<Rightarrow> bool" where
  "is_NullsFirst (Ascending name) = False"
| "is_NullsFirst (Descending name) = False"
| "is_NullsFirst (NullsFirst sc) = True"
| "is_NullsFirst (DynamicSortingColumn sc dynamicColumnName fullName) = is_NullsFirst sc"

definition makeDynamicSortingColumn :: "string \<Rightarrow> SortingColumn \<Rightarrow> SortingColumn" where
  "makeDynamicSortingColumn dynamicColumnName sc =
     DynamicSortingColumn sc dynamicColumnName (ColumnName sc @ ''.'' @ dynamicColumnName)"

section \<open>Schemas\<close>

text \<open>The protobuf definitions: version 1 lists columns, version 2 is a tree of nodes.\<close>

record v1_Column =
  c1_Name :: string
  c1_StorageLayout :: StorageLayout
  c1_Dynamic :: bool
  c1_Prehash :: bool

record SortingColumn_def =
  sd_Name :: string
  sd_Direction :: int
  sd_NullsFirst :: bool

datatype v2_Node =
    Leaf string StorageLayout
  | Group string bool bool "v2_Node list"

datatype schema_def =
    V1 string "v1_Column list" "SortingColumn_def list" bool
  | V2 string "v2_Node list" "SortingColumn_def list" bool

record Schema =
  def_of :: schema_def
  sch_columns :: "ColumnDefinition list"
  sch_columnIndexes :: "(string \<times> nat) list"
  sch_sortingColumns :: "SortingColumn list"
  sch_dynamicColumns :: "nat list"
  UniquePrimaryIndex :: bool

definition newSchema :: "schema_def \<Rightarrow> ColumnDefinition list \<Rightarrow> SortingColumn list \<Rightarrow> bool \<Rightarrow> Schema" where
  "newSchema def columns sortingColumns uniquePrimaryIndex =
     (let columns = sort_key cd_Name columns
      in \<lparr>def_of = def, sch_columns = columns,
          sch_columnIndexes = foldl (\<lambda>m (i, col). AList.update (cd_Name col) i m) []
            (zip [0..<length columns] columns),
          sch_sortingColumns = sortingColumns,
          sch_dynamicColumns = filter (\<lambda>i. cd_Dynamic (columns ! i)) [0..<length columns],
          UniquePrimaryIndex = uniquePrimaryIndex\<rparr>)"

definition sortingColumnFromDef :: "SortingColumn_def \<Rightarrow> (schema_error, SortingColumn) result" where
  "sortingColumnFromDef col =
     bind_result
       (if sd_Direction col = 1 then Inr (Ascending (sd_Name col))
        else if sd_Direction col = 2 then Inr (Descending (sd_Name col))
        else Inl (Unknown_sorting_direction (sd_Direction col)))
     (\<lambda>sc. Inr (if sd_NullsFirst col then NullsFirst sc else sc))"

text \<open>A loop that returns at the first error.\<close>

fun map_result :: "('a \<Rightarrow> ('e, 'b) result) \<Rightarrow> 'a list \<Rightarrow> ('e, 'b list) result" where
  "map_result f [] = Inr []"
| "map_result f (x # xs) = bind_result (f x) (\<lambda>y. bind_result (map_result f xs) (\<lambda>ys. Inr (y # ys)))"

definition SortingColumnsFromDef :: "SortingColumn_def list \<Rightarrow> (schema_error, SortingColumn list) result" where
  "SortingColumnsFromDef cols = map_result sortingColumnFromDef cols"

text \<open>\<open>None\<close> is the panic on a leaf whose storage layout is invalid.\<close>

fun findLeavesFromNode :: "v2_Node \<Rightarrow> ColumnDefinition list option" where
  "findLeavesFromNode (Leaf name layout) =
     (case storageLayoutToParquetNode layout of
        Inl _ \<Rightarrow> None
      | Inr ret \<Rightarrow> Some [\<lparr>cd_Name = name, cd_StorageLayout = ret, cd_Dynamic = False, cd_PreHash = False\<rparr>])"
| "findLeavesFromNode (Group name nullable repeated nodes) =
     foldl (\<lambda>acc cols. case acc of
               None \<Rightarrow> None
             | Some cs \<Rightarrow> (case cols of None \<Rightarrow> None | Some cs' \<Rightarrow> Some (cs @ cs')))
       (Some []) (map findLeavesFromNode nodes)"

definition column_from_v1 :: "v1_Column \<Rightarrow> (schema_error, ColumnDefinition) result" where
  "column_from_v1 col =
     bind_result (storageLayoutToParquetNode (c1_StorageLayout col)) (\<lambda>layout.
       Inr \<lparr>cd_Name = c1_Name col, cd_StorageLayout = layout, cd_Dynamic = c1_Dynamic col,
            cd_PreHash = c1_Prehash col\<rparr>)"

definition SchemaFromDefinition :: "schema_def \<Rightarrow> (schema_error, Schema) result option" where
  "SchemaFromDefinition msg =
     (case msg of
        V1 name cols sorting unique \<Rightarrow>
          Some (bind_result (map_result column_from_v1 cols) (\<lambda>columns.
            bind_result (map_result sortingColumnFromDef sorting) (\<lambda>sortingColumns.
              Inr (newSchema msg columns sortingColumns unique))))
      | V2 name nodes sorting unique \<Rightarrow>
          (case findLeavesFromNode (Group name False False nodes) of
             None \<Rightarrow> None
           | Some columns \<Rightarrow>
               Some (bind_result (map_result sortingColumnFromDef sorting) (\<lambda>sortingColumns.
                 Inr (newSchema msg columns sortingColumns unique)))))"

text \<open>
  \<open>s.columns[s.columnIndexes[name]]\<close>: an unknown name reads index zero of the
  map, hence the first column; \<open>None\<close> is the panic when there is no column at all.
\<close>

definition column_at :: "Schema \<Rightarrow> string \<Rightarrow> ColumnDefinition option" where
  "column_at s name =
     (let i = (case map_of (sch_columnIndexes s) name of None \<Rightarrow> 0 | Some i \<Rightarrow> i)
      in if i < length (sch_columns s) then Some (sch_columns s ! i) else None)"

definition ColumnByName :: "Schema \<Rightarrow> string \<Rightarrow> ColumnDefinition option" where
  "ColumnByName s name =
     (case map_of (sch_columnIndexes s) name of None \<Rightarrow> None | Some i \<Rightarrow> Some (sch_columns s ! i))"

text \<open>The positions of the periods of a column name.\<close>

definition IsDynamicColumn :: "Schema \<Rightarrow> string \<Rightarrow> bool option" where
  "IsDynamicColumn s column =
     (case filter (\<lambda>i. column ! i = CHR ''.'') [0..<length column] of
        [] \<Rightarrow> Some False
      | [p] \<Rightarrow> map_option cd_Dynamic (column_at s (take p column))
      | _ \<Rightarrow> Some False)"

fun map_opt :: "('a \<Rightarrow> 'b option) \<Rightarrow> 'a list \<Rightarrow> 'b list option" where
  "map_opt f [] = Some []"
| "map_opt f (x # xs) =
     (case f x of
        None \<Rightarrow> None
      | Some y \<Rightarrow> (case map_opt f xs of None \<Rightarrow> None | Some ys \<Rightarrow> Some (y # ys)))"

definition SortingColumns :: "Schema \<Rightarrow> ColumnDefinition list option" where
  "SortingColumns s = map_opt (\<lambda>sc. column_at s (ColumnName sc)) (sch_sortingColumns s)"

definition dynamicColumnsFor :: "string \<Rightarrow> dyn_cols \<Rightarrow> string list" where
  "dynamicColumnsFor column dyn = (case map_of dyn column of None \<Rightarrow> [] | Some names \<Rightarrow> names)"

definition ParquetSortingColumns :: "Schema \<Rightarrow> dyn_cols \<Rightarrow> SortingColumn list option" where
  "ParquetSortingColumns s dyn =
     map_option concat (map_opt (\<lambda>col. map_option (\<lambda>def.
         if \<not> cd_Dynamic def then [col]
         else map (\<lambda>name. makeDynamicSortingColumn name col) (dynamicColumnsFor (ColumnName col) dyn))
       (column_at s (ColumnName col))) (sch_sortingColumns s))"

text \<open>
  \<open>parquet.Group\<close> is a map from names to nodes; the fields of a schema made of it
  are ordered by name. The model keeps the assignments and reads off the fields.
\<close>

type_synonym pgroup = "(string \<times> pnode) list"

definition group_fields :: "pgroup \<Rightarrow> string list" where
  "group_fields g = sorted_list_of_set (set (map fst g))"

fun nameFromNodeDef :: "v2_Node \<Rightarrow> string" where
  "nameFromNodeDef (Leaf name layout) = name"
| "nameFromNodeDef (Group name nullable repeated nodes) = name"

fun nodeFromDefinition :: "v2_Node \<Rightarrow> pnode option" where
  "nodeFromDefinition (Leaf name layout) =
     (case storageLayoutToParquetNode layout of Inl _ \<Rightarrow> None | Inr ret \<Rightarrow> Some ret)"
| "nodeFromDefinition (Group name nullable repeated nodes) =
     map_option (\<lambda>group.
         let node = P_Group (zip (map nameFromNodeDef nodes) group);
             node = (if nullable then P_Optional node else node)
         in if repeated then P_Repeated node else node)
       (map_opt id (map nodeFromDefinition nodes))"

definition ParquetSchemaFromV2Definition :: "v2_Node list \<Rightarrow> pgroup option" where
  "ParquetSchemaFromV2Definition nodes =
     map_option (zip (map nameFromNodeDef nodes)) (map_opt nodeFromDefinition nodes)"

definition HashedColumnName :: "string \<Rightarrow> string" where
  "HashedColumnName col = ''hashed.'' @ col"

text \<open>The columns one column definition of a version 1 schema stands for.\<close>

definition concrete_columns :: "ColumnDefinition \<Rightarrow> dyn_cols \<Rightarrow> pgroup" where
  "concrete_columns col dyn =
     concat (map (\<lambda>full. (full, cd_StorageLayout col) #
         (if cd_PreHash col then [(HashedColumnName full, P_Int64)] else []))
       (if cd_Dynamic col
        then map (\<lambda>name. cd_Name col @ ''.'' @ name) (dynamicColumnsFor (cd_Name col) dyn)
        else [cd_Name col]))"

definition dynamicParquetSchema :: "Schema \<Rightarrow> dyn_cols \<Rightarrow> pgroup option" where
  "dynamicParquetSchema s dyn =
     (case def_of s of
        V2 name nodes sorting unique \<Rightarrow> ParquetSchemaFromV2Definition nodes
      | V1 name cols sorting unique \<Rightarrow> Some (concat (map (\<lambda>col. concrete_columns col dyn) (sch_columns s))))"

definition parquetSortingSchema :: "Schema \<Rightarrow> dyn_cols \<Rightarrow> pgroup option" where
  "parquetSortingSchema s dyn =
     map_option concat (map_opt (\<lambda>col. map_option (\<lambda>def.
         if \<not> cd_Dynamic def then [(ColumnName col, cd_StorageLayout def)]
         else map (\<lambda>name. (ColumnName col @ ''.'' @ name, cd_StorageLayout def))
                (dynamicColumnsFor (cd_Name def) dyn))
       (column_at s (ColumnName col))) (sch_sortingColumns s))"

section \<open>Reading a row group in a wider schema\<close>

text \<open>\<open>mapMergedColumnNameIndexes\<close>: the index in the original schema, or -1.\<close>

fun map_indexes :: "string list \<Rightarrow> nat \<Rightarrow> string list \<Rightarrow> int list" where
  "map_indexes original j [] = []"
| "map_indexes original j (col # merged) =
     (if j < length original \<and> original ! j = col
      then int j # map_indexes original (j + 1) merged
      else - 1 # map_indexes original j merged)"

definition mapMergedColumnNameIndexes :: "string list \<Rightarrow> string list \<Rightarrow> int list" where
  "mapMergedColumnNameIndexes merged original = map_indexes original 0 merged"

text \<open>A value of a row group: the value (\<open>None\<close> is null), its levels and its column index.\<close>

record 'v pvalue =
  pv_value :: "'v option"
  pv_repetition :: nat
  pv_definition :: nat
  pv_column :: nat

definition null_value :: "nat \<Rightarrow> 'v pvalue" where
  "null_value i = \<lparr>pv_value = None, pv_repetition = 0, pv_definition = 0, pv_column = i\<rparr>"

text \<open>
  \<open>nilValueReader.ReadValues\<close> for a buffer of \<open>n\<close> values: the values read, the new
  position and whether the end was reached.
\<close>

definition nil_ReadValues :: "nat \<Rightarrow> nat \<Rightarrow> nat \<Rightarrow> nat \<Rightarrow> 'v pvalue list \<times> nat \<times> bool" where
  "nil_ReadValues numValues idx rd n =
     (let m = min n (numValues - rd)
      in (replicate m (null_value idx), rd + m, numValues \<le> rd + m))"

text \<open>The values of the single page of a \<open>NilColumnChunk\<close>, read to the end.\<close>

definition nil_chunk :: "nat \<Rightarrow> nat \<Rightarrow> 'v pvalue list" where
  "nil_chunk columnIndex numValues = fst (nil_ReadValues numValues columnIndex 0 numValues)"

text \<open>\<open>remappedValueReader.ReadValues\<close>: the values with the column index replaced.\<close>

definition remap_values :: "nat \<Rightarrow> 'v pvalue list \<Rightarrow> 'v pvalue list" where
  "remap_values remappedIndex vs = map (\<lambda>v. v\<lparr>pv_column := remappedIndex\<rparr>) vs"

definition FieldByName :: "string list \<Rightarrow> string \<Rightarrow> string option" where
  "FieldByName fs name = find (\<lambda>f. f = name) fs"

definition adapter_chunk ::
  "string list \<Rightarrow> string list \<Rightarrow> 'v pvalue list list \<Rightarrow> nat \<Rightarrow> nat \<Rightarrow> 'v pvalue list" where
  "adapter_chunk merged original chunks numRows i =
     (let colIndex = mapMergedColumnNameIndexes merged original ! i
      in if colIndex = - 1 then nil_chunk i numRows
         else remap_values i (chunks ! nat colIndex))"

definition adapter_ColumnChunks ::
  "string list \<Rightarrow> string list \<Rightarrow> 'v pvalue list list \<Rightarrow> nat \<Rightarrow> 'v pvalue list list" where
  "adapter_ColumnChunks merged original chunks numRows =
     map (adapter_chunk merged original chunks numRows) [0..<length merged]"

text \<open>\<open>mergeDynamicRowGroupDynamicColumns\<close> on the dynamic columns of the row groups.\<close>

definition mergeDynamicRowGroupDynamicColumns :: "dyn_cols list \<Rightarrow> dyn_cols" where
  "mergeDynamicRowGroupDynamicColumns sets = MergeDynamicColumnSets sets"

text \<open>
  A row group: its schema's field names, dynamic columns, column chunks and number of
  rows. \<open>MergeDynamicRowGroups\<close> passes a single one through; otherwise it hands one
  adapter per row group to \<open>parquet.MergeRowGroups\<close>, with the columns to sort by
  unless the row groups are already sorted.
\<close>

record 'v row_group =
  rg_Fields :: "string list"
  rg_DynamicColumns :: dyn_cols
  rg_Chunks :: "'v pvalue list list"
  rg_NumRows :: nat

record mergeOption =
  mo_dynamicColumns :: "dyn_cols option"
  mo_alreadySorted :: bool

definition merge_adapter :: "string list \<Rightarrow> dyn_cols \<Rightarrow> 'v row_group \<Rightarrow> 'v row_group" where
  "merge_adapter merged dyn rg =
     \<lparr>rg_Fields = merged, rg_DynamicColumns = dyn,
      rg_Chunks = adapter_ColumnChunks merged (rg_Fields rg) (rg_Chunks rg) (rg_NumRows rg),
      rg_NumRows = rg_NumRows rg\<rparr>"

definition MergeDynamicRowGroups ::
  "(SortingColumn list option \<Rightarrow> 'v row_group list \<Rightarrow> ('e, 'v row_group) result) \<Rightarrow>
   Schema \<Rightarrow> mergeOption \<Rightarrow> 'v row_group list \<Rightarrow> ('e, 'v row_group) result option" where
  "MergeDynamicRowGroups mergeRowGroups s m rowGroups =
     (case rowGroups of
        [rg] \<Rightarrow> Some (Inr rg)
      | _ \<Rightarrow>
         (let dyn = (case mo_dynamicColumns m of
                       None \<Rightarrow> mergeDynamicRowGroupDynamicColumns (map rg_DynamicColumns rowGroups)
                     | Some dyn \<Rightarrow> dyn)
          in case (dynamicParquetSchema s dyn, ParquetSortingColumns s dyn) of
               (Some ps, Some cols) \<Rightarrow>
                 Some (mergeRowGroups (if mo_alreadySorted m then None else Some cols)
                   (map (merge_adapter (group_fields ps) dyn) rowGroups))
             | _ \<Rightarrow> None))"

section \<open>Column lookup\<close>

lemma foldl_update_index:
  assumes "distinct (map cd_Name cols)"
  shows "map_of (foldl (\<lambda>m (i, col). AList.update (cd_Name col) i m) m0 (zip [k..<k + length cols] cols)) n =
    (case map_of (zip (map cd_Name cols) [k..<k + length cols]) n of None \<Rightarrow> map_of m0 n | Some i \<Rightarrow> Some i)"
  using assms
proof (induction cols arbitrary: k m0)
  case (Cons c cols)
  have u: "[k..<k + length (c # cols)] = k # [Suc k..<Suc k + length cols]" by (simp add: upt_rec)
  have "cd_Name c \<notin> set (map cd_Name cols)" using Cons.prems by simp
  then have "map_of (zip (map cd_Name cols) [Suc k..<Suc k + length cols]) (cd_Name c) = None"
    by (subst map_of_zip_is_None) (simp_all del: upt_Suc)
  then show ?case
    using Cons.IH [of "AList.update (cd_Name c) k m0" "Suc k"] Cons.prems unfolding u
    by (auto simp: update_conv' split: option.splits)
qed simp

lemma map_of_zip_index:
  "distinct ns \<Longrightarrow> map_of (zip ns [0..<length ns]) n = Some i \<longleftrightarrow> i < length ns \<and> ns ! i = n"
  by (metis (no_types, lifting) diff_zero in_set_conv_nth length_upt map_of_zip_is_None map_of_zip_nth
      nth_upt option.distinct(1) option.inject add_0)

lemma newSchema_index:
  assumes "distinct (map cd_Name cols)"
  shows "map_of (sch_columnIndexes (newSchema def cols sorting unique)) n = Some i \<longleftrightarrow>
    i < length cols \<and> cd_Name (sch_columns (newSchema def cols sorting unique) ! i) = n"
proof -
  let ?c = "sort_key cd_Name cols"
  have "mset (map cd_Name ?c) = mset (map cd_Name cols)" by simp
  then have d: "distinct (map cd_Name ?c)" using assms by (metis mset_eq_imp_distinct_iff)
  have "(case x of None \<Rightarrow> map_of [] n | Some i \<Rightarrow> Some i) = x" for x :: "nat option" by (cases x) simp_all
  then have "map_of (sch_columnIndexes (newSchema def cols sorting unique)) n =
      map_of (zip (map cd_Name ?c) [0..<length (map cd_Name ?c)]) n"
    using foldl_update_index [OF d, of "[]" 0 n] by (simp add: newSchema_def Let_def)
  then show ?thesis
    using map_of_zip_index [OF d] by (auto simp: newSchema_def Let_def)
qed

lemma newSchema_columns [simp]:
  "set (sch_columns (newSchema def cols sorting unique)) = set cols"
  "length (sch_columns (newSchema def cols sorting unique)) = length cols"
  "sch_sortingColumns (newSchema def cols sorting unique) = sorting"
  "def_of (newSchema def cols sorting unique) = def"
  by (simp_all add: newSchema_def Let_def)

text \<open>Schema lookup. In a schema built from column definitions with distinct names,
  \<open>ColumnByName\<close> finds exactly the definition with the given name, whatever order the
  definitions were given in, and the columns are kept in the order of their names.\<close>

theorem ColumnByName_newSchema:
  assumes "distinct (map cd_Name cols)"
  shows "(ColumnByName (newSchema def cols sorting unique) n = Some c) = (c \<in> set cols \<and> cd_Name c = n) \<and>
    sorted (map cd_Name (sch_columns (newSchema def cols sorting unique)))"
proof -
  let ?s = "newSchema def cols sorting unique"
  note idx = newSchema_index [OF assms, of def sorting unique]
  have "ColumnByName ?s n = Some c \<longleftrightarrow>
      (\<exists>i. map_of (sch_columnIndexes ?s) n = Some i \<and> sch_columns ?s ! i = c)"
    by (auto simp: ColumnByName_def split: option.splits)
  also have "\<dots> \<longleftrightarrow> (\<exists>i < length (sch_columns ?s). cd_Name (sch_columns ?s ! i) = n \<and> sch_columns ?s ! i = c)"
    by (auto simp: idx)
  also have "\<dots> \<longleftrightarrow> c \<in> set (sch_columns ?s) \<and> cd_Name c = n"
    unfolding in_set_conv_nth by blast
  finally show ?thesis by (simp add: newSchema_def Let_def)
qed

section \<open>The adapter shows the same columns\<close>

lemma map_indexes_length [simp]: "length (map_indexes original j merged) = length merged"
  by (induction original j merged rule: map_indexes.induct) auto

lemma map_indexes_spec:
  assumes "subseq (drop j original) merged" "distinct merged" "i < length merged"
  shows "(merged ! i \<notin> set (drop j original) \<longrightarrow> map_indexes original j merged ! i = - 1) \<and>
    (merged ! i \<in> set (drop j original) \<longrightarrow>
      (\<exists>k < length original. map_indexes original j merged ! i = int k \<and> original ! k = merged ! i))"
  using assms
proof (induction original j merged arbitrary: i rule: map_indexes.induct)
  case (2 original j col merged)
  show ?case
  proof (cases "j < length original \<and> original ! j = col")
    case True
    then have d: "drop j original = col # drop (j + 1) original"
      using Cons_nth_drop_Suc [of j original] by simp
    have s: "subseq (drop (j + 1) original) merged"
      using "2.prems"(1) unfolding d by (simp add: subseq_Cons2_iff)
    have nd: "col \<notin> set (drop (j + 1) original)"
      using s "2.prems"(2) by (auto dest: list_emb_set)
    show ?thesis
    proof (cases i)
      case 0
      then show ?thesis using True d by auto
    next
      case (Suc i')
      then have "merged ! i' \<noteq> col" using "2.prems"(2,3) by auto
      then show ?thesis
        using "2.IH"(1) [OF True s, of i'] "2.prems"(2,3) True Suc unfolding d by auto
    qed
  next
    case False
    have s: "subseq (drop j original) merged"
    proof (cases "drop j original")
      case (Cons x xs)
      then have "x = original ! j" "j < length original"
        by (metis hd_drop_conv_nth list.sel(1) drop_eq_Nil leI list.distinct(1))+
      then have "x \<noteq> col" using False by auto
      then show ?thesis using "2.prems"(1) Cons by (simp add: subseq_Cons2_neq)
    qed simp
    have nd: "col \<notin> set (drop j original)" using s "2.prems"(2) by (auto dest: list_emb_set)
    show ?thesis
    proof (cases i)
      case 0
      then show ?thesis using False nd by auto
    next
      case (Suc i')
      then show ?thesis using "2.IH"(2) [OF False s, of i'] "2.prems"(2,3) False by auto
    qed
  qed
qed simp

lemma subseq_sorted_list_of_set:
  assumes "finite B" "A \<subseteq> B"
  shows "subseq (sorted_list_of_set A) (sorted_list_of_set B)"
proof -
  have "finite A" using assms finite_subset by auto
  then have "filter (\<lambda>x. x \<in> A) (sorted_list_of_set B) = sorted_list_of_set A"
    using assms by (intro sorted_distinct_set_unique) (auto simp: sorted_wrt_filter)
  then show ?thesis by (metis subseq_filter_left)
qed

lemma group_fields_props [simp]:
  "distinct (group_fields g)" "set (group_fields g) = fst ` set g" "sorted (group_fields g)"
  by (simp_all add: group_fields_def)

lemma group_fields_subseq:
  "fst ` set g \<subseteq> fst ` set h \<Longrightarrow> subseq (group_fields g) (group_fields h)"
  by (simp add: group_fields_def subseq_sorted_list_of_set)

lemma dynamicColumnsFor_merged:
  assumes "d \<in> set sets" "distinct (map fst d)"
  shows "set (dynamicColumnsFor c d) \<subseteq> set (dynamicColumnsFor c (MergeDynamicColumnSets sets))"
proof (cases "map_of d c")
  case (Some names)
  then have "(c, names) \<in> set (concat sets)" using assms by (auto dest: map_of_SomeD)
  then have "names \<in> set (values_for c sets)" by (force simp: values_for_def)
  then show ?thesis using Some mergeStrings_spec [of "values_for c sets"]
    by (auto simp: dynamicColumnsFor_def map_of_MergeDynamicColumnSets)
qed (simp add: dynamicColumnsFor_def)

lemma concrete_columns_mono:
  assumes "set (dynamicColumnsFor (cd_Name col) d) \<subseteq> set (dynamicColumnsFor (cd_Name col) d')"
  shows "set (concrete_columns col d) \<subseteq> set (concrete_columns col d')"
  using assms by (auto simp: concrete_columns_def)

lemma dynamicParquetSchema_mono:
  assumes "\<And>c. set (dynamicColumnsFor c d) \<subseteq> set (dynamicColumnsFor c d')"
    and "dynamicParquetSchema s d = Some g" "dynamicParquetSchema s d' = Some g'"
  shows "set g \<subseteq> set g'"
proof (cases "def_of s")
  case V1
  then show ?thesis using assms(2,3) concrete_columns_mono [OF assms(1)]
    by (fastforce simp: dynamicParquetSchema_def)
qed (use assms in \<open>simp add: dynamicParquetSchema_def\<close>)

text \<open>The chunk a row group has for a column name.\<close>

definition chunk_named :: "'v row_group \<Rightarrow> string \<Rightarrow> 'v pvalue list option" where
  "chunk_named rg name = map_of (zip (rg_Fields rg) (rg_Chunks rg)) name"

lemma adapter_chunk_spec:
  assumes "subseq (rg_Fields rg) merged" "distinct merged" "i < length merged"
    and "length (rg_Chunks rg) = length (rg_Fields rg)"
  shows "rg_Chunks (merge_adapter merged dyn rg) ! i =
    (case chunk_named rg (merged ! i) of
       Some chunk \<Rightarrow> map (\<lambda>v. v\<lparr>pv_column := i\<rparr>) chunk
     | None \<Rightarrow> replicate (rg_NumRows rg) (null_value i))"
proof -
  have d: "distinct (rg_Fields rg)" using assms(1,2) by (metis subseq_conv_nths distinct_nthsI)
  note spec = map_indexes_spec [of 0 "rg_Fields rg" merged i, simplified, OF assms(1-3)]
  show ?thesis
  proof (cases "merged ! i \<in> set (rg_Fields rg)")
    case True
    then obtain k where k: "k < length (rg_Fields rg)" "map_indexes (rg_Fields rg) 0 merged ! i = int k"
      "rg_Fields rg ! k = merged ! i" using spec by blast
    then have "chunk_named rg (merged ! i) = Some (rg_Chunks rg ! k)"
      using assms(4) d by (metis chunk_named_def map_of_zip_nth)
    then show ?thesis using k assms(3)
      by (simp add: merge_adapter_def adapter_ColumnChunks_def adapter_chunk_def
          mapMergedColumnNameIndexes_def remap_values_def)
  next
    case False
    then have "chunk_named rg (merged ! i) = None"
      by (simp add: chunk_named_def map_of_zip_is_None assms(4))
    then show ?thesis using False spec assms(3)
      by (simp add: merge_adapter_def adapter_ColumnChunks_def adapter_chunk_def Let_def
          mapMergedColumnNameIndexes_def nil_chunk_def nil_ReadValues_def)
  qed
qed

text \<open>C24: Merging row groups. Every row group given to \<open>MergeDynamicRowGroups\<close> is presented in the
  schema of the merged dynamic columns with its own data: at each column of the merged
  schema the adapter shows the chunk the row group has under that name, with the
  column index of the merged schema, and exactly as many nulls as the row group has
  rows where it has no such column.\<close>

theorem MergeDynamicRowGroups_adapters:
  assumes "dynamicParquetSchema s (mergeDynamicRowGroupDynamicColumns (map rg_DynamicColumns rgs)) = Some ps"
    and "rg \<in> set rgs" "distinct (map fst (rg_DynamicColumns rg))"
    and "dynamicParquetSchema s (rg_DynamicColumns rg) = Some qs" "rg_Fields rg = group_fields qs"
    and "length (rg_Chunks rg) = length (rg_Fields rg)" "i < length (group_fields ps)"
  shows "rg_Chunks (merge_adapter (group_fields ps) dyn rg) ! i =
    (case chunk_named rg (group_fields ps ! i) of
       Some chunk \<Rightarrow> map (\<lambda>v. v\<lparr>pv_column := i\<rparr>) chunk
     | None \<Rightarrow> replicate (rg_NumRows rg) (null_value i))"
proof -
  have "set qs \<subseteq> set ps"
    by (rule dynamicParquetSchema_mono [OF dynamicColumnsFor_merged assms(4)
          assms(1) [unfolded mergeDynamicRowGroupDynamicColumns_def]]) (use assms in simp_all)
  then have "subseq (rg_Fields rg) (group_fields ps)"
    unfolding assms(5) by (intro group_fields_subseq) auto
  then show ?thesis using assms(6,7) by (intro adapter_chunk_spec) simp_all
qed

definition sample_schema :: Schema where
  "sample_schema = newSchema (V1 ''test'' [] [] False)
     [\<lparr>cd_Name = ''ts'', cd_StorageLayout = P_Int64, cd_Dynamic = False, cd_PreHash = False\<rparr>,
      \<lparr>cd_Name = ''labels'', cd_StorageLayout = P_Optional P_String, cd_Dynamic = True, cd_PreHash = False\<rparr>]
     [NullsFirst (Ascending ''labels''), Ascending ''ts''] False"

theorem ColumnByName_newSchema_witness:
  "ColumnByName sample_schema ''ts'' =
     Some \<lparr>cd_Name = ''ts'', cd_StorageLayout = P_Int64, cd_Dynamic = False, cd_PreHash = False\<rparr>"
  unfolding sample_schema_def
  by (subst ColumnByName_newSchema [THEN conjunct1]) simp_all

definition sample_group :: "string \<Rightarrow> int row_group" where
  "sample_group l = \<lparr>rg_Fields = [''labels.'' @ l, ''ts''], rg_DynamicColumns = [(''labels'', [l])],
     rg_Chunks = [[\<lparr>pv_value = Some 7, pv_repetition = 0, pv_definition = 1, pv_column = 0\<rparr>],
                  [\<lparr>pv_value = Some 9, pv_repetition = 0, pv_definition = 0, pv_column = 1\<rparr>]],
     rg_NumRows = 1\<rparr>"

theorem MergeDynamicRowGroups_adapters_witness:
  "rg_Chunks (merge_adapter [''labels.a'', ''labels.b'', ''ts''] [] (sample_group ''b'')) ! 0 = [null_value 0] \<and>
   map pv_value (rg_Chunks (merge_adapter [''labels.a'', ''labels.b'', ''ts''] [] (sample_group ''b'')) ! 1) = [Some 7]"
proof -
  let ?rgs = "[sample_group ''a'', sample_group ''b'']"
  define ps where "ps = the (dynamicParquetSchema sample_schema
    (mergeDynamicRowGroupDynamicColumns (map rg_DynamicColumns ?rgs)))"
  have p: "dynamicParquetSchema sample_schema
      (mergeDynamicRowGroupDynamicColumns (map rg_DynamicColumns ?rgs)) = Some ps"
    "group_fields ps = [''labels.a'', ''labels.b'', ''ts'']"
    unfolding ps_def by code_simp+
  define qs where "qs = the (dynamicParquetSchema sample_schema (rg_DynamicColumns (sample_group ''b'')))"
  have q: "dynamicParquetSchema sample_schema (rg_DynamicColumns (sample_group ''b'')) = Some qs"
    "rg_Fields (sample_group ''b'') = group_fields qs" unfolding qs_def by code_simp+
  note t = MergeDynamicRowGroups_adapters [OF p(1) _ _ q, of _ "[]", unfolded p(2)]
  show ?thesis
    using t [of 0] t [of 1] by (simp add: sample_group_def chunk_named_def)
qed

end
