(* ===== verification/Dyn_Row.thy ===== *)
theory Dyn_Row
  imports Dyn_Schema
begin

text \<open>
  Rows with dynamic columns and their order (\<open>dynparquet/row.go\<close>). Two rows are compared
  on the sorting columns that the two of them have; the comparison of the values of one
  sorting column belongs to the parquet library and is the parameter \<open>cmpv\<close>.
\<close>

section \<open>Rows\<close>

record 'v DynamicRow =
  dr_Row :: "'v pvalue list"
  dr_DynamicColumns :: dyn_cols
  dr_fields :: "string list"

fun child_index :: "string list \<Rightarrow> string \<Rightarrow> nat \<Rightarrow> int" where
  "child_index [] name i = - 1"
| "child_index (f # fs) name i = (if f = name then int i else child_index fs name (i + 1))"

definition FindChildIndex :: "string list \<Rightarrow> string \<Rightarrow> int" where
  "FindChildIndex fs name = child_index fs name 0"

text \<open>The loop of \<open>ValuesForIndex\<close> and its slice; \<open>None\<close> is the panic of the slice \<open>row[-1:-1]\<close>.\<close>

fun values_loop :: "int \<Rightarrow> nat \<Rightarrow> int \<Rightarrow> int \<Rightarrow> 'v pvalue list \<Rightarrow> int \<times> int" where
  "values_loop index i start stop [] = (start, stop)"
| "values_loop index i start stop (v # vs) =
     (let idx = int (pv_column v)
      in if stop \<noteq> - 1 \<and> stop = idx - 1 then (start, stop)
         else if idx = index
         then values_loop index (i + 1) (if start = - 1 then int i else start) (int i + 1) vs
         else values_loop index (i + 1) start stop vs)"

definition ValuesForIndex :: "'v pvalue list \<Rightarrow> int \<Rightarrow> 'v pvalue list option" where
  "ValuesForIndex row index =
     (let (start, stop) = values_loop index 0 (- 1) (- 1) row
      in if start < 0 then None else Some (take (nat (stop - start)) (drop (nat start) row)))"

definition extractValues ::
  "'v DynamicRow \<Rightarrow> 'v DynamicRow \<Rightarrow> int \<Rightarrow> int \<Rightarrow> ('v pvalue list \<times> 'v pvalue list) option" where
  "extractValues a b aIndex bIndex =
     (if aIndex \<noteq> - 1 \<and> bIndex = - 1
      then map_option (\<lambda>av. (av, [null_value (nat aIndex)])) (ValuesForIndex (dr_Row a) aIndex)
      else if aIndex = - 1 \<and> bIndex \<noteq> - 1
      then map_option (\<lambda>bv. ([null_value (nat bIndex)], bv)) (ValuesForIndex (dr_Row b) bIndex)
      else case (ValuesForIndex (dr_Row a) aIndex, ValuesForIndex (dr_Row b) bIndex) of
             (Some av, Some bv) \<Rightarrow> Some (av, bv)
           | _ \<Rightarrow> None)"

fun cmp_rows ::
  "'v DynamicRow \<Rightarrow> 'v DynamicRow \<Rightarrow> string list \<Rightarrow> ('v pvalue list \<times> 'v pvalue list) option" where
  "cmp_rows a b [] = Some ([], [])"
| "cmp_rows a b (name # names) =
     (let aIndex = FindChildIndex (dr_fields a) name; bIndex = FindChildIndex (dr_fields b) name
      in if aIndex = - 1 \<and> bIndex = - 1 then cmp_rows a b names
         else case extractValues a b aIndex bIndex of
                None \<Rightarrow> None
              | Some (av, bv) \<Rightarrow>
                  (case cmp_rows a b names of
                     None \<Rightarrow> None
                   | Some (rowA, rowB) \<Rightarrow> Some (av @ rowA, bv @ rowB)))"

definition relabel :: "'v pvalue list \<Rightarrow> 'v pvalue list" where
  "relabel row = map (\<lambda>(i, v). v\<lparr>pv_column := i\<rparr>) (zip [0..<length row] row)"

text \<open>
  \<open>Schema.Cmp\<close>. The comparator of the parquet schema is the parameter \<open>Comparator\<close>: it
  gets the sorting columns, the columns of the sorting schema and the two rows. The
  result is \<open>None\<close> where the code panics.
\<close>

definition Cmp ::
  "(SortingColumn list \<Rightarrow> string list \<Rightarrow> 'v pvalue list \<Rightarrow> 'v pvalue list \<Rightarrow> int) \<Rightarrow>
   Schema \<Rightarrow> 'v DynamicRow \<Rightarrow> 'v DynamicRow \<Rightarrow> int option" where
  "Cmp Comparator s a b =
     (let dyn = MergeDynamicColumnSets [dr_DynamicColumns a, dr_DynamicColumns b]
      in case (ParquetSortingColumns s dyn, parquetSortingSchema s dyn) of
           (Some cols, Some g) \<Rightarrow>
             (case cmp_rows a b (group_fields g) of
                None \<Rightarrow> None
              | Some (rowA, rowB) \<Rightarrow>
                  if length rowB < length rowA then None
                  else Some (Comparator cols (group_fields g) (relabel rowA)
                         (relabel (take (length rowA) rowB) @ drop (length rowA) rowB)))
         | _ \<Rightarrow> None)"

definition RowLessThan where
  "RowLessThan Comparator s a b = map_option (\<lambda>c. c < 0) (Cmp Comparator s a b)"

text \<open>\<open>DynamicRows.IsSorted\<close>.\<close>

fun IsSorted where
  "IsSorted Comparator s (a # b # rows) =
     (case RowLessThan Comparator s b a of
        None \<Rightarrow> None
      | Some True \<Rightarrow> Some False
      | Some False \<Rightarrow> IsSorted Comparator s (b # rows))"
| "IsSorted Comparator s rows = Some True"

text \<open>
  What the parquet library documents of its row comparator: rows are ordered by the
  sorting columns, one after the other, each compared on the value the row has for it.
\<close>

definition column_value :: "'v pvalue list \<Rightarrow> int \<Rightarrow> 'v option" where
  "column_value row i = (case find (\<lambda>v. int (pv_column v) = i) row of None \<Rightarrow> None | Some v \<Rightarrow> pv_value v)"

definition lex_comparator ::
  "(SortingColumn \<Rightarrow> 'v option \<Rightarrow> 'v option \<Rightarrow> int) \<Rightarrow>
   SortingColumn list \<Rightarrow> string list \<Rightarrow> 'v pvalue list \<Rightarrow> 'v pvalue list \<Rightarrow> int" where
  "lex_comparator cmpv cols schemaCols rowA rowB =
     lex_cmp (map (\<lambda>c. let i = FindChildIndex schemaCols (ColumnName c)
                        in cmpv c (column_value rowA i) (column_value rowB i)) cols)"

section \<open>Values of a column\<close>

lemma values_loop_before:
  "\<forall>v \<in> set xs. int (pv_column v) \<noteq> k \<Longrightarrow>
   values_loop k i (- 1) (- 1) (xs @ ys) = values_loop k (i + length xs) (- 1) (- 1) ys"
  by (induction xs arbitrary: i) (auto simp: Let_def)

lemma values_loop_inside:
  "\<forall>v \<in> set xs. int (pv_column v) = k \<Longrightarrow> k \<le> int i \<Longrightarrow> start \<noteq> - 1 \<Longrightarrow>
   values_loop k i start (int i) (xs @ ys) = values_loop k (i + length xs) start (int (i + length xs)) ys"
proof (induction xs arbitrary: i)
  case (Cons x xs)
  have "values_loop k i start (int i) ((x # xs) @ ys) = values_loop k (i + 1) start (int (i + 1)) (xs @ ys)"
    using Cons.prems by (simp add: Let_def add.commute)
  then show ?case using Cons.IH [of "i + 1"] Cons.prems by simp
qed simp

lemma values_loop_after:
  "\<forall>v \<in> set xs. int (pv_column v) \<noteq> k \<Longrightarrow> values_loop k i start stop xs = (start, stop)"
  by (induction xs arbitrary: i) (auto simp: Let_def)

lemma sorted_split:
  assumes "sorted (map f xs)"
  shows "xs = filter (\<lambda>x. f x < k) xs @ filter (\<lambda>x. f x = k) xs @ filter (\<lambda>x. k < f x) xs"
  using assms
proof (induction xs)
  case (Cons x xs)
  have le: "\<forall>y \<in> set xs. f x \<le> f y" "sorted (map f xs)" using Cons.prems by auto
  consider "f x < k" | "f x = k" | "k < f x" by (rule linorder_cases)
  then show ?case
  proof cases
    case 2
    then have "filter (\<lambda>y. f y < k) xs = []" using le by (auto simp: filter_empty_conv)
    then show ?thesis using 2 Cons.IH le by simp
  next
    case 3
    then have "filter (\<lambda>y. f y < k) xs = []" "filter (\<lambda>y. f y = k) xs = []"
      using le by (auto simp: filter_empty_conv)
    then show ?thesis using 3 Cons.IH le by simp
  qed (use Cons.IH le in auto)
qed simp

lemma ValuesForIndex_filter:
  assumes "sorted (map pv_column row)" "set (map pv_column row) = {..<n}" "k < n"
  shows "ValuesForIndex row (int k) = Some (filter (\<lambda>v. pv_column v = k) row)"
proof -
  let ?L = "filter (\<lambda>v. pv_column v < k) row" and ?K = "filter (\<lambda>v. pv_column v = k) row"
    and ?R = "filter (\<lambda>v. k < pv_column v) row"
  have row: "row = ?L @ ?K @ ?R" by (rule sorted_split [OF assms(1)])
  have "{..<k} \<subseteq> pv_column ` set ?L"
  proof
    fix i assume i: "i \<in> {..<k}"
    then have "i \<in> pv_column ` set row" using assms(2,3) by simp
    then show "i \<in> pv_column ` set ?L" using i by auto
  qed
  then have "card {..<k} \<le> card (pv_column ` set ?L)" by (intro card_mono) auto
  also have "\<dots> \<le> length ?L" by (metis card_image_le card_length List.finite_set order_trans)
  finally have len: "k \<le> length ?L" by simp
  have "k \<in> pv_column ` set row" using assms(2,3) by auto
  then have ne: "?K \<noteq> []" by (auto simp: filter_empty_conv)
  then obtain v vs where K: "?K = v # vs" by (cases ?K) auto
  have kv: "pv_column v = k" "\<forall>w \<in> set vs. pv_column w = k"
    using K filter_set [of "\<lambda>v. pv_column v = k" row] by auto
  have "values_loop (int k) 0 (- 1) (- 1) (?L @ ?K @ ?R) =
      values_loop (int k) (length ?L) (- 1) (- 1) (?K @ ?R)"
    by (subst values_loop_before) auto
  also have "\<dots> = values_loop (int k) (length ?L + 1) (int (length ?L)) (int (length ?L + 1)) (vs @ ?R)"
    unfolding K using kv by (simp add: Let_def add.commute)
  also have "\<dots> = values_loop (int k) (length ?L + 1 + length vs) (int (length ?L))
      (int (length ?L + 1 + length vs)) ?R"
    using kv len by (intro values_loop_inside) auto
  also have "\<dots> = (int (length ?L), int (length ?L + length ?K))"
    by (subst values_loop_after) (auto simp: K)
  finally have "ValuesForIndex row (int k) = Some (take (length ?K) (drop (length ?L) (?L @ ?K @ ?R)))"
    using row by (simp add: ValuesForIndex_def)
  then show ?thesis by simp
qed

text \<open>Column values of a row. In every row that lists the values of its columns in order, each
  column with at least one value, the slice that \<open>ValuesForIndex\<close> returns is exactly the
  values of the requested column, although the loop compares a position in the row with
  a column index to stop early.\<close>

theorem ValuesForIndex_correct:
  assumes "sorted (map pv_column row)" "set (map pv_column row) = {..<n}" "k < n"
  shows "ValuesForIndex row (int k) = Some (filter (\<lambda>v. pv_column v = k) row)"
  by (rule ValuesForIndex_filter [OF assms])

theorem ValuesForIndex_correct_witness:
  "map pv_value (the (ValuesForIndex
     [\<lparr>pv_value = Some (1::nat), pv_repetition = 0, pv_definition = 0, pv_column = 0\<rparr>,
      \<lparr>pv_value = Some 2, pv_repetition = 0, pv_definition = 1, pv_column = 1\<rparr>,
      \<lparr>pv_value = Some 3, pv_repetition = 1, pv_definition = 1, pv_column = 1\<rparr>,
      \<lparr>pv_value = None, pv_repetition = 0, pv_definition = 0, pv_column = 2\<rparr>] (int 1))) = [Some 2, Some 3]"
  by (subst ValuesForIndex_correct [where n = 3]) (simp_all, auto)

lemma flat_row_columns:
  assumes "map pv_column row = [0..<n]"
  shows "length row = n" "k < n \<Longrightarrow> pv_column (row ! k) = k"
proof -
  show len: "length row = n" using assms by (metis length_map length_upt diff_zero)
  assume "k < n"
  then show "pv_column (row ! k) = k" using len assms by (metis nth_map nth_upt add_0)
qed

lemma flat_row_filter:
  assumes "map pv_column row = [0..<n]" "k < n"
  shows "filter (\<lambda>v. pv_column v = k) row = [row ! k]"
proof -
  have "filter (\<lambda>v. pv_column v = k) row =
      filter (\<lambda>v. pv_column v = k) (take k row @ row ! k # drop (Suc k) row)"
    using id_take_nth_drop [of k row] flat_row_columns [OF assms(1)] assms(2) by simp
  moreover have "filter (\<lambda>v. pv_column v = k) (take k row) = []"
  proof -
    have "pv_column (take k row ! j) = j" if "j < length (take k row)" for j
      using that flat_row_columns(1) [OF assms(1)] flat_row_columns(2) [OF assms(1), of j] by simp
    then show ?thesis unfolding filter_empty_conv all_set_conv_all_nth
      by (metis length_take min_less_iff_conj less_irrefl)
  qed
  moreover have "filter (\<lambda>v. pv_column v = k) (drop (Suc k) row) = []"
  proof -
    have "pv_column (drop (Suc k) row ! j) = Suc k + j" if "j < length (drop (Suc k) row)" for j
      using that flat_row_columns(1) [OF assms(1)] flat_row_columns(2) [OF assms(1), of "Suc k + j"] by simp
    then show ?thesis unfolding filter_empty_conv all_set_conv_all_nth
      by (metis add_Suc n_not_Suc_n less_add_Suc1 less_irrefl)
  qed
  ultimately show ?thesis using flat_row_columns [OF assms(1)] assms(2) by simp
qed

lemma flat_row_value:
  assumes "map pv_column row = [0..<n]" "k < n"
  shows "ValuesForIndex row (int k) = Some [row ! k]"
proof -
  have "ValuesForIndex row (int k) = Some (filter (\<lambda>v. pv_column v = k) row)"
    using assms by (intro ValuesForIndex_filter [where n = n]) (simp_all add: atLeast0LessThan)
  then show ?thesis by (simp add: flat_row_filter [OF assms])
qed

section \<open>The order of rows\<close>

text \<open>
  A well-formed schema knows its sorting columns. A well-formed row has one value per
  field, has the static sorting columns among its fields, and its fields for a dynamic
  sorting column are the ones its dynamic columns list.
\<close>

definition sorting_ok :: "Schema \<Rightarrow> bool" where
  "sorting_ok s \<longleftrightarrow> list_all (\<lambda>sc. map_option cd_Name (column_at s (ColumnName sc)) = Some (ColumnName sc))
     (sch_sortingColumns s)"

definition is_dyn :: "Schema \<Rightarrow> SortingColumn \<Rightarrow> bool" where
  "is_dyn s sc = (case column_at s (ColumnName sc) of None \<Rightarrow> False | Some def \<Rightarrow> cd_Dynamic def)"

definition dyn_names :: "string \<Rightarrow> string list \<Rightarrow> string set" where
  "dyn_names c fs = set (map (drop (length c + 1)) (filter (\<lambda>f. take (length c + 1) f = c @ ''.'') fs))"

definition row_ok :: "Schema \<Rightarrow> 'v DynamicRow \<Rightarrow> bool" where
  "row_ok s r \<longleftrightarrow> map pv_column (dr_Row r) = [0..<length (dr_fields r)] \<and>
     distinct (map fst (dr_DynamicColumns r)) \<and>
     list_all (\<lambda>sc. if is_dyn s sc
         then dyn_names (ColumnName sc) (dr_fields r) = set (dynamicColumnsFor (ColumnName sc) (dr_DynamicColumns r))
         else ColumnName sc \<in> set (dr_fields r))
       (sch_sortingColumns s)"

lemma dyn_names_iff: "n \<in> dyn_names c fs \<longleftrightarrow> c @ ''.'' @ n \<in> set fs"
proof
  assume "n \<in> dyn_names c fs"
  then obtain f where f: "f \<in> set fs" "take (length c + 1) f = c @ ''.''" "n = drop (length c + 1) f"
    by (auto simp: dyn_names_def)
  have "f = (c @ ''.'') @ n" using append_take_drop_id [of "length c + 1" f] unfolding f(2,3) by (rule sym)
  then have "(c @ ''.'') @ n \<in> set fs" using f(1) by metis
  then show "c @ ''.'' @ n \<in> set fs" by simp
next
  assume "c @ ''.'' @ n \<in> set fs"
  then show "n \<in> dyn_names c fs"
    unfolding dyn_names_def set_map by (intro image_eqI [of _ _ "c @ ''.'' @ n"]) simp_all
qed

text \<open>The value a row has under a column name, null where it has none.\<close>

definition cell :: "'v DynamicRow \<Rightarrow> string \<Rightarrow> 'v option" where
  "cell r name = (let i = FindChildIndex (dr_fields r) name
                  in if i = - 1 then None else pv_value (dr_Row r ! nat i))"

text \<open>The sorting columns one sorting column stands for.\<close>

definition sort_cols :: "Schema \<Rightarrow> dyn_cols \<Rightarrow> SortingColumn \<Rightarrow> SortingColumn list" where
  "sort_cols s dyn sc =
     (if is_dyn s sc then map (\<lambda>name. makeDynamicSortingColumn name sc) (dynamicColumnsFor (ColumnName sc) dyn)
      else [sc])"

definition all_sort_cols :: "Schema \<Rightarrow> dyn_cols \<Rightarrow> SortingColumn list" where
  "all_sort_cols s dyn = concat (map (sort_cols s dyn) (sch_sortingColumns s))"

lemma ColumnName_dynamic [simp]: "ColumnName (makeDynamicSortingColumn n sc) = ColumnName sc @ ''.'' @ n"
  by (simp add: makeDynamicSortingColumn_def)

lemma map_opt_Some: "(\<And>x. x \<in> set xs \<Longrightarrow> f x = Some (g x)) \<Longrightarrow> map_opt f xs = Some (map g xs)"
  by (induction xs) auto

lemma sorting_okD:
  assumes "sorting_ok s" "sc \<in> set (sch_sortingColumns s)"
  obtains def where "column_at s (ColumnName sc) = Some def" "cd_Name def = ColumnName sc" "cd_Dynamic def = is_dyn s sc"
  using assms by (auto simp: sorting_ok_def list_all_iff is_dyn_def)

lemma ParquetSortingColumns_eq:
  assumes "sorting_ok s"
  shows "ParquetSortingColumns s dyn = Some (all_sort_cols s dyn)"
proof -
  have "map_opt (\<lambda>col. map_option (\<lambda>def.
         if \<not> cd_Dynamic def then [col]
         else map (\<lambda>name. makeDynamicSortingColumn name col) (dynamicColumnsFor (ColumnName col) dyn))
       (column_at s (ColumnName col))) (sch_sortingColumns s) = Some (map (sort_cols s dyn) (sch_sortingColumns s))"
    by (rule map_opt_Some) (auto elim: sorting_okD [OF assms] simp: sort_cols_def)
  then show ?thesis by (simp add: ParquetSortingColumns_def all_sort_cols_def)
qed

lemma parquetSortingSchema_eq:
  assumes "sorting_ok s"
  shows "\<exists>g. parquetSortingSchema s dyn = Some g \<and> fst ` set g = ColumnName ` set (all_sort_cols s dyn)"
proof -
  define h where "h sc = (let def = the (column_at s (ColumnName sc)) in
     if \<not> cd_Dynamic def then [(ColumnName sc, cd_StorageLayout def)]
     else map (\<lambda>name. (ColumnName sc @ ''.'' @ name, cd_StorageLayout def)) (dynamicColumnsFor (cd_Name def) dyn))" for sc
  have "map_opt (\<lambda>col. map_option (\<lambda>def.
         if \<not> cd_Dynamic def then [(ColumnName col, cd_StorageLayout def)]
         else map (\<lambda>name. (ColumnName col @ ''.'' @ name, cd_StorageLayout def)) (dynamicColumnsFor (cd_Name def) dyn))
       (column_at s (ColumnName col))) (sch_sortingColumns s) = Some (map h (sch_sortingColumns s))"
  proof (rule map_opt_Some)
    fix sc assume "sc \<in> set (sch_sortingColumns s)"
    then obtain def where "column_at s (ColumnName sc) = Some def" by (rule sorting_okD [OF assms])
    then show "map_option (\<lambda>def.
         if \<not> cd_Dynamic def then [(ColumnName sc, cd_StorageLayout def)]
         else map (\<lambda>name. (ColumnName sc @ ''.'' @ name, cd_StorageLayout def)) (dynamicColumnsFor (cd_Name def) dyn))
       (column_at s (ColumnName sc)) = Some (h sc)" by (simp add: h_def Let_def)
  qed
  then have "parquetSortingSchema s dyn = Some (concat (map h (sch_sortingColumns s)))"
    by (simp add: parquetSortingSchema_def)
  moreover have "fst ` set (h sc) = ColumnName ` set (sort_cols s dyn sc)" if "sc \<in> set (sch_sortingColumns s)" for sc
    using that by (auto elim!: sorting_okD [OF assms] simp: h_def sort_cols_def image_image)
  then have "fst ` set (concat (map h (sch_sortingColumns s))) = ColumnName ` set (all_sort_cols s dyn)"
    by (simp add: all_sort_cols_def image_UN)
  ultimately show ?thesis by blast
qed

lemma child_index_spec:
  "(name \<notin> set fs \<longrightarrow> child_index fs name i = - 1) \<and>
   (name \<in> set fs \<longrightarrow> (\<exists>k < length fs. child_index fs name i = int (i + k) \<and> fs ! k = name))"
proof (induction fs arbitrary: i)
  case (Cons f fs)
  show ?case
  proof (cases "f = name")
    case False
    then show ?thesis using Cons.IH [of "i + 1"] by force
  qed auto
qed simp

lemma FindChildIndex_None: "name \<notin> set fs \<Longrightarrow> FindChildIndex fs name = - 1"
  using child_index_spec [of name fs 0] by (simp add: FindChildIndex_def)

lemma FindChildIndex_Some:
  assumes "name \<in> set fs"
  obtains k where "k < length fs" "FindChildIndex fs name = int k" "fs ! k = name"
  using child_index_spec [of name fs 0] assms by (auto simp: FindChildIndex_def)

lemma cell_None: "name \<notin> set (dr_fields r) \<Longrightarrow> cell r name = None"
  by (simp add: cell_def FindChildIndex_None)

lemma row_value:
  assumes "row_ok s r" "name \<in> set (dr_fields r)"
  obtains v where "ValuesForIndex (dr_Row r) (FindChildIndex (dr_fields r) name) = Some [v]"
    "pv_value v = cell r name" "FindChildIndex (dr_fields r) name \<noteq> - 1"
proof -
  from assms(2) obtain k where k: "k < length (dr_fields r)" "FindChildIndex (dr_fields r) name = int k"
    by (rule FindChildIndex_Some)
  have "map pv_column (dr_Row r) = [0..<length (dr_fields r)]" using assms(1) by (simp add: row_ok_def)
  from flat_row_value [OF this k(1)] show thesis
    using k by (intro that [of "dr_Row r ! k"]) (simp_all add: cell_def)
qed

lemma extractValues_cells:
  assumes "row_ok s a" "row_ok s b" "name \<in> set (dr_fields a) \<union> set (dr_fields b)"
  obtains va vb where "extractValues a b (FindChildIndex (dr_fields a) name) (FindChildIndex (dr_fields b) name) =
      Some ([va], [vb])" "pv_value va = cell a name" "pv_value vb = cell b name"
    "\<not> (FindChildIndex (dr_fields a) name = - 1 \<and> FindChildIndex (dr_fields b) name = - 1)"
proof (cases "name \<in> set (dr_fields a)"; cases "name \<in> set (dr_fields b)")
  assume n: "name \<in> set (dr_fields a)" "name \<in> set (dr_fields b)"
  from row_value [OF assms(1) n(1)] obtain va where
    "ValuesForIndex (dr_Row a) (FindChildIndex (dr_fields a) name) = Some [va]"
    "pv_value va = cell a name" "FindChildIndex (dr_fields a) name \<noteq> - 1" by metis
  moreover from row_value [OF assms(2) n(2)] obtain vb where
    "ValuesForIndex (dr_Row b) (FindChildIndex (dr_fields b) name) = Some [vb]"
    "pv_value vb = cell b name" "FindChildIndex (dr_fields b) name \<noteq> - 1" by metis
  ultimately show thesis by (intro that [of va vb]) (simp_all add: extractValues_def)
next
  assume n: "name \<in> set (dr_fields a)" "name \<notin> set (dr_fields b)"
  from row_value [OF assms(1) n(1)] obtain va where
    "ValuesForIndex (dr_Row a) (FindChildIndex (dr_fields a) name) = Some [va]"
    "pv_value va = cell a name" "FindChildIndex (dr_fields a) name \<noteq> - 1" by metis
  then show thesis using n
    by (intro that [of va "null_value (nat (FindChildIndex (dr_fields a) name))"])
       (simp_all add: extractValues_def FindChildIndex_None cell_None null_value_def)
next
  assume n: "name \<notin> set (dr_fields a)" "name \<in> set (dr_fields b)"
  from row_value [OF assms(2) n(2)] obtain vb where
    "ValuesForIndex (dr_Row b) (FindChildIndex (dr_fields b) name) = Some [vb]"
    "pv_value vb = cell b name" "FindChildIndex (dr_fields b) name \<noteq> - 1" by metis
  then show thesis using n
    by (intro that [of "null_value (nat (FindChildIndex (dr_fields b) name))" vb])
       (simp_all add: extractValues_def FindChildIndex_None cell_None null_value_def)
qed (use assms(3) in simp)

lemma cmp_rows_cells:
  assumes "row_ok s a" "row_ok s b" "set names \<subseteq> set (dr_fields a) \<union> set (dr_fields b)"
  shows "\<exists>ra rb. cmp_rows a b names = Some (ra, rb) \<and> map pv_value ra = map (cell a) names \<and>
    map pv_value rb = map (cell b) names"
  using assms(3)
proof (induction names)
  case (Cons name names)
  then obtain ra rb where "cmp_rows a b names = Some (ra, rb)" "map pv_value ra = map (cell a) names"
    "map pv_value rb = map (cell b) names" by auto
  moreover from extractValues_cells [OF assms(1,2), of name] Cons.prems obtain va vb where
    "extractValues a b (FindChildIndex (dr_fields a) name) (FindChildIndex (dr_fields b) name) =
      Some ([va], [vb])" "pv_value va = cell a name" "pv_value vb = cell b name"
    "\<not> (FindChildIndex (dr_fields a) name = - 1 \<and> FindChildIndex (dr_fields b) name = - 1)" by auto
  ultimately show ?case by (simp add: Let_def)
qed simp

lemma column_value_relabel:
  assumes "k < length row"
  shows "column_value (relabel row) (int k) = pv_value (row ! k)"
proof -
  have "find (\<lambda>v. int (pv_column v) = int k) (relabel row) = Some ((row ! k)\<lparr>pv_column := k\<rparr>)"
    using assms unfolding find_Some_iff by (intro exI [of _ k]) (simp add: relabel_def)
  then show ?thesis by (simp add: column_value_def)
qed

lemma row_ok_dyn:
  assumes "row_ok s r" "sc \<in> set (sch_sortingColumns s)" "is_dyn s sc"
  shows "ColumnName sc @ ''.'' @ n \<in> set (dr_fields r) \<longleftrightarrow>
    n \<in> set (dynamicColumnsFor (ColumnName sc) (dr_DynamicColumns r))"
proof -
  have "dyn_names (ColumnName sc) (dr_fields r) = set (dynamicColumnsFor (ColumnName sc) (dr_DynamicColumns r))"
    using assms by (auto simp: row_ok_def list_all_iff)
  then show ?thesis using dyn_names_iff by blast
qed

lemma row_ok_static:
  assumes "row_ok s r" "sc \<in> set (sch_sortingColumns s)" "\<not> is_dyn s sc"
  shows "ColumnName sc \<in> set (dr_fields r)"
  using assms by (auto simp: row_ok_def list_all_iff)

lemma in_dynamicColumnsFor:
  "n \<in> set (dynamicColumnsFor c d) \<longleftrightarrow> (\<exists>ls. map_of d c = Some ls \<and> n \<in> set ls)"
  by (cases "map_of d c") (simp_all add: dynamicColumnsFor_def)

lemma merged_names:
  assumes "\<And>d. d \<in> set sets \<Longrightarrow> distinct (map fst d)"
  shows "set (dynamicColumnsFor c (MergeDynamicColumnSets sets)) = (\<Union>d \<in> set sets. set (dynamicColumnsFor c d))"
    and "sorted (dynamicColumnsFor c (MergeDynamicColumnSets sets))"
    and "distinct (dynamicColumnsFor c (MergeDynamicColumnSets sets))"
proof -
  have v: "ls \<in> set (values_for c sets) \<longleftrightarrow> (\<exists>d \<in> set sets. map_of d c = Some ls)" for ls
    using assms by (fastforce simp: values_for_def image_iff)
  have "(\<Union> (set ` set (values_for c sets))) = (\<Union>d \<in> set sets. set (dynamicColumnsFor c d))"
    using v by (simp add: set_eq_iff in_dynamicColumnsFor) blast
  then show "set (dynamicColumnsFor c (MergeDynamicColumnSets sets)) = (\<Union>d \<in> set sets. set (dynamicColumnsFor c d))"
    using mergeStrings_spec [of "values_for c sets"]
    by (auto simp: dynamicColumnsFor_def [of c "MergeDynamicColumnSets sets"] map_of_MergeDynamicColumnSets)
  show "sorted (dynamicColumnsFor c (MergeDynamicColumnSets sets))"
    "distinct (dynamicColumnsFor c (MergeDynamicColumnSets sets))"
    using mergeStrings_spec [of "values_for c sets"]
    by (simp_all add: dynamicColumnsFor_def map_of_MergeDynamicColumnSets)
qed

definition merged_dyn :: "'v DynamicRow list \<Rightarrow> dyn_cols" where
  "merged_dyn rs = MergeDynamicColumnSets (map dr_DynamicColumns rs)"

lemma merged_dyn_names:
  assumes "\<And>r. r \<in> set rs \<Longrightarrow> row_ok s r" "sc \<in> set (sch_sortingColumns s)" "is_dyn s sc"
  shows "set (dynamicColumnsFor (ColumnName sc) (merged_dyn rs)) =
      {n. \<exists>r \<in> set rs. ColumnName sc @ ''.'' @ n \<in> set (dr_fields r)}"
    and "sorted (dynamicColumnsFor (ColumnName sc) (merged_dyn rs))"
    and "distinct (dynamicColumnsFor (ColumnName sc) (merged_dyn rs))"
proof -
  have d: "distinct (map fst d)" if "d \<in> set (map dr_DynamicColumns rs)" for d
    using that assms(1) by (auto simp: row_ok_def)
  note m = merged_names [OF d, of "map dr_DynamicColumns rs" "ColumnName sc"]
  show "set (dynamicColumnsFor (ColumnName sc) (merged_dyn rs)) =
      {n. \<exists>r \<in> set rs. ColumnName sc @ ''.'' @ n \<in> set (dr_fields r)}"
    using m(1) row_ok_dyn [OF assms(1) assms(2,3)] by (auto simp: merged_dyn_def)
  show "sorted (dynamicColumnsFor (ColumnName sc) (merged_dyn rs))"
    "distinct (dynamicColumnsFor (ColumnName sc) (merged_dyn rs))"
    using m(2,3) by (simp_all add: merged_dyn_def)
qed

lemma sort_cols_in_fields:
  assumes "\<And>r. r \<in> set rs \<Longrightarrow> row_ok s r" "rs \<noteq> []" "c \<in> set (all_sort_cols s (merged_dyn rs))"
  shows "\<exists>r \<in> set rs. ColumnName c \<in> set (dr_fields r)"
proof -
  from assms(3) obtain sc where sc: "sc \<in> set (sch_sortingColumns s)" "c \<in> set (sort_cols s (merged_dyn rs) sc)"
    by (auto simp: all_sort_cols_def)
  show ?thesis
  proof (cases "is_dyn s sc")
    case True
    then show ?thesis using sc merged_dyn_names(1) [OF assms(1) sc(1) True] by (auto simp: sort_cols_def)
  next
    case False
    then have "c = sc" using sc by (simp add: sort_cols_def)
    moreover obtain r where "r \<in> set rs" using assms(2) by (meson hd_in_set)
    ultimately show ?thesis using row_ok_static [OF assms(1) sc(1) False] by blast
  qed
qed

lemma Cmp_lex:
  assumes "sorting_ok s" "row_ok s a" "row_ok s b"
  shows "Cmp (lex_comparator cmpv) s a b =
    Some (lex_cmp (map (\<lambda>c. cmpv c (cell a (ColumnName c)) (cell b (ColumnName c))) (all_sort_cols s (merged_dyn [a, b]))))"
proof -
  let ?dyn = "merged_dyn [a, b]"
  obtain g where g: "parquetSortingSchema s ?dyn = Some g" "fst ` set g = ColumnName ` set (all_sort_cols s ?dyn)"
    using parquetSortingSchema_eq [OF assms(1)] by blast
  have rs: "\<And>r. r \<in> set [a, b] \<Longrightarrow> row_ok s r" using assms by auto
  have sub: "set (group_fields g) \<subseteq> set (dr_fields a) \<union> set (dr_fields b)"
    using sort_cols_in_fields [OF rs, of "[a, b]"] g(2) by fastforce
  obtain ra rb where r: "cmp_rows a b (group_fields g) = Some (ra, rb)"
    "map pv_value ra = map (cell a) (group_fields g)" "map pv_value rb = map (cell b) (group_fields g)"
    using cmp_rows_cells [OF assms(2,3) sub] by blast
  have len: "length ra = length (group_fields g)" "length rb = length (group_fields g)"
    using r(2,3) by (metis length_map)+
  have "lex_comparator cmpv (all_sort_cols s ?dyn) (group_fields g) (relabel ra) (relabel rb) =
      lex_cmp (map (\<lambda>c. cmpv c (cell a (ColumnName c)) (cell b (ColumnName c))) (all_sort_cols s ?dyn))"
    unfolding lex_comparator_def
  proof (intro arg_cong [where f = lex_cmp] map_cong refl)
    fix c assume "c \<in> set (all_sort_cols s ?dyn)"
    then have "ColumnName c \<in> set (group_fields g)" using g(2) by simp
    then obtain k where k: "k < length (group_fields g)" "FindChildIndex (group_fields g) (ColumnName c) = int k"
      "group_fields g ! k = ColumnName c" by (rule FindChildIndex_Some)
    then have "pv_value (ra ! k) = cell a (ColumnName c)" "pv_value (rb ! k) = cell b (ColumnName c)"
      using r(2,3) len by (metis nth_map)+
    then show "(let i = FindChildIndex (group_fields g) (ColumnName c)
        in cmpv c (column_value (relabel ra) i) (column_value (relabel rb) i)) =
        cmpv c (cell a (ColumnName c)) (cell b (ColumnName c))"
      using k len by (simp add: column_value_relabel)
  qed
  then show ?thesis
    using r(1) len g(1) ParquetSortingColumns_eq [OF assms(1)]
    by (simp add: Cmp_def merged_dyn_def Let_def)
qed

text \<open>Columns that neither row has do not influence the comparison.\<close>

lemma all_sort_cols_subset:
  assumes "\<And>r. r \<in> set rs \<Longrightarrow> row_ok s r" "a \<in> set rs" "b \<in> set rs"
  shows "all_sort_cols s (merged_dyn [a, b]) =
    filter (\<lambda>c. ColumnName c \<in> set (dr_fields a) \<union> set (dr_fields b)) (all_sort_cols s (merged_dyn rs))"
proof -
  let ?P = "\<lambda>c. ColumnName c \<in> set (dr_fields a) \<union> set (dr_fields b)"
  have ab: "\<And>r. r \<in> set [a, b] \<Longrightarrow> row_ok s r" using assms by auto
  have "sort_cols s (merged_dyn [a, b]) sc = filter ?P (sort_cols s (merged_dyn rs) sc)"
    if sc: "sc \<in> set (sch_sortingColumns s)" for sc
  proof (cases "is_dyn s sc")
    case True
    note small = merged_dyn_names [where rs = "[a, b]", OF ab sc True]
      and big = merged_dyn_names [where rs = rs, OF assms(1) sc True]
    have "dynamicColumnsFor (ColumnName sc) (merged_dyn [a, b]) =
        filter (\<lambda>n. ColumnName sc @ ''.'' @ n \<in> set (dr_fields a) \<union> set (dr_fields b))
          (dynamicColumnsFor (ColumnName sc) (merged_dyn rs))"
      using small big assms(2,3)
      by (intro sorted_distinct_set_unique) (auto simp: sorted_wrt_filter)
    then show ?thesis using True by (simp add: sort_cols_def filter_map comp_def)
  next
    case False
    then show ?thesis using row_ok_static [OF assms(1) sc False] assms(2) by (auto simp: sort_cols_def)
  qed
  then show ?thesis by (simp add: all_sort_cols_def filter_concat comp_def cong: map_cong)
qed

lemma Cmp_superset:
  assumes "sorting_ok s" "\<And>r. r \<in> set rs \<Longrightarrow> row_ok s r" "a \<in> set rs" "b \<in> set rs"
    and "\<And>c. cmpv c None None = 0"
  shows "Cmp (lex_comparator cmpv) s a b =
    Some (lex_cmp (map (\<lambda>c. cmpv c (cell a (ColumnName c)) (cell b (ColumnName c))) (all_sort_cols s (merged_dyn rs))))"
proof -
  have "all_sort_cols s (merged_dyn [a, b]) =
      filter (\<lambda>c. ColumnName c \<in> set (dr_fields a) \<union> set (dr_fields b)) (all_sort_cols s (merged_dyn rs))"
    using assms(2-4) by (intro all_sort_cols_subset) auto
  then show ?thesis
    unfolding Cmp_lex [OF assms(1) assms(2) [OF assms(3)] assms(2) [OF assms(4)]]
    using lex_cmp_filter [of "all_sort_cols s (merged_dyn rs)"
        "\<lambda>c. ColumnName c \<in> set (dr_fields a) \<union> set (dr_fields b)"
        "\<lambda>c. cmpv c (cell a (ColumnName c)) (cell b (ColumnName c))"] assms(5)
    by (simp add: cell_None)
qed

lemma Cmp_cmp_order:
  assumes "sorting_ok s" and ord: "\<And>c. cmp_order (cmpv c) (\<lambda>_. True)"
  shows "cmp_order (\<lambda>a b. the (Cmp (lex_comparator cmpv) s a b)) (row_ok s)"
proof -
  have z: "cmpv c None None = 0" for c using cmp_order.cmp_refl [OF ord] by simp
  have lex: "cmp_order (\<lambda>a b. lex_cmp (map (\<lambda>c. cmpv c (cell a (ColumnName c)) (cell b (ColumnName c))) ks)) (row_ok s)"
    for ks
  proof (rule lex_cmp_order)
    fix c
    show "cmp_order (\<lambda>a b. cmpv c (cell a (ColumnName c)) (cell b (ColumnName c))) (row_ok s)"
      using cmp_order.cmp_flip [OF ord] cmp_order.cmp_trans [OF ord] by unfold_locales blast+
  qed
  show ?thesis
  proof
    fix a b :: "'a DynamicRow" assume o: "row_ok s a" "row_ok s b"
    then have rs: "\<And>r. r \<in> set [a, b] \<Longrightarrow> row_ok s r" by auto
    show "the (Cmp (lex_comparator cmpv) s a b) \<le> 0 \<longleftrightarrow> 0 \<le> the (Cmp (lex_comparator cmpv) s b a)"
      using Cmp_superset [where s = s and rs = "[a, b]" and a = a and b = b and cmpv = cmpv]
        Cmp_superset [where s = s and rs = "[a, b]" and a = b and b = a and cmpv = cmpv]
        assms(1) rs z cmp_order.cmp_flip [OF lex o] by simp
  next
    fix a b c :: "'a DynamicRow" assume o: "row_ok s a" "row_ok s b" "row_ok s c"
      and le: "the (Cmp (lex_comparator cmpv) s a b) \<le> 0" "the (Cmp (lex_comparator cmpv) s b c) \<le> 0"
    then have rs: "\<And>r. r \<in> set [a, b, c] \<Longrightarrow> row_ok s r" by auto
    have sup: "the (Cmp (lex_comparator cmpv) s x y) =
        lex_cmp (map (\<lambda>k. cmpv k (cell x (ColumnName k)) (cell y (ColumnName k))) (all_sort_cols s (merged_dyn [a, b, c])))"
      if "x \<in> set [a, b, c]" "y \<in> set [a, b, c]" for x y
      using Cmp_superset [where s = s and rs = "[a, b, c]" and a = x and b = y and cmpv = cmpv] assms(1) rs z that
      by simp
    show "the (Cmp (lex_comparator cmpv) s a c) \<le> 0"
      using sup [of a b] sup [of b c] sup [of a c] le
        cmp_order.cmp_trans [OF lex o, of "all_sort_cols s (merged_dyn [a, b, c])"] by simp
  qed
qed

text \<open>C12: The order of rows. \<open>Cmp\<close> never panics on well-formed rows and is a total preorder on them,
  although each call compares only the dynamic columns the two rows at hand have: its
  sign is antisymmetric and it is transitive, for every comparison of single values the
  parquet library uses that is itself a total preorder.\<close>

theorem Cmp_total_preorder:
  assumes "sorting_ok s" "\<And>c. cmp_order (cmpv c) (\<lambda>_. True)"
    and "row_ok s a" "row_ok s b" "row_ok s c"
  shows "\<exists>ab ba bc ac. Cmp (lex_comparator cmpv) s a b = Some ab \<and> Cmp (lex_comparator cmpv) s b a = Some ba \<and>
    Cmp (lex_comparator cmpv) s b c = Some bc \<and> Cmp (lex_comparator cmpv) s a c = Some ac \<and>
    (ab \<le> 0 \<longleftrightarrow> 0 \<le> ba) \<and> (ab \<le> 0 \<and> bc \<le> 0 \<longrightarrow> ac \<le> 0)"
proof -
  have o: "cmp_order (\<lambda>a b. the (Cmp (lex_comparator cmpv) s a b)) (row_ok s)"
    using assms(1,2) by (rule Cmp_cmp_order)
  show ?thesis
    using Cmp_lex [OF assms(1,3,4), of cmpv] Cmp_lex [OF assms(1,4,3), of cmpv]
      Cmp_lex [OF assms(1,4,5), of cmpv] Cmp_lex [OF assms(1,3,5), of cmpv]
      cmp_order.cmp_flip [OF o assms(3,4)] cmp_order.cmp_trans [OF o assms(3-5)]
    by simp
qed

text \<open>Values compared as numbers, nulls after all others unless the column says otherwise.\<close>

definition int_cmpv :: "SortingColumn \<Rightarrow> int option \<Rightarrow> int option \<Rightarrow> int" where
  "int_cmpv c x y =
     (case (x, y) of
        (None, None) \<Rightarrow> 0
      | (None, Some _) \<Rightarrow> if is_NullsFirst c then - 1 else 1
      | (Some _, None) \<Rightarrow> if is_NullsFirst c then 1 else - 1
      | (Some i, Some j) \<Rightarrow> if is_Descending c then sgn (j - i) else sgn (i - j))"

interpretation int_cmpv: cmp_order "int_cmpv c" "\<lambda>_. True" for c
proof
  fix x y z :: "int option"
  show "int_cmpv c x y \<le> 0 \<longleftrightarrow> 0 \<le> int_cmpv c y x"
    by (cases x; cases y) (auto simp: int_cmpv_def sgn_if split: if_splits)
  show "int_cmpv c x y \<le> 0 \<Longrightarrow> int_cmpv c y z \<le> 0 \<Longrightarrow> int_cmpv c x z \<le> 0"
    by (cases x; cases y; cases z) (auto simp: int_cmpv_def sgn_if split: if_splits)
qed

text \<open>A row of the sample schema with one label.\<close>

definition sample_row :: "string \<Rightarrow> int \<Rightarrow> int \<Rightarrow> int DynamicRow" where
  "sample_row l v ts = \<lparr>dr_Row =
       [\<lparr>pv_value = Some v, pv_repetition = 0, pv_definition = 1, pv_column = 0\<rparr>,
        \<lparr>pv_value = Some ts, pv_repetition = 0, pv_definition = 0, pv_column = 1\<rparr>],
     dr_DynamicColumns = [(''labels'', [l])], dr_fields = [''labels.'' @ l, ''ts'']\<rparr>"

lemma sample_rows_ok:
  "sorting_ok sample_schema" "row_ok sample_schema (sample_row ''a'' 1 5)"
  "row_ok sample_schema (sample_row ''b'' 0 3)" "row_ok sample_schema (sample_row ''c'' 0 3)"
  by code_simp+

theorem Cmp_total_preorder_witness:
  "\<exists>ab ba bc ac. Cmp (lex_comparator int_cmpv) sample_schema (sample_row ''a'' 1 5) (sample_row ''b'' 0 3) = Some ab \<and>
     Cmp (lex_comparator int_cmpv) sample_schema (sample_row ''b'' 0 3) (sample_row ''a'' 1 5) = Some ba \<and>
     Cmp (lex_comparator int_cmpv) sample_schema (sample_row ''b'' 0 3) (sample_row ''c'' 0 3) = Some bc \<and>
     Cmp (lex_comparator int_cmpv) sample_schema (sample_row ''a'' 1 5) (sample_row ''c'' 0 3) = Some ac \<and>
     (ab \<le> 0) = (0 \<le> ba)"
  using Cmp_total_preorder [where cmpv = int_cmpv, OF sample_rows_ok(1) int_cmpv.cmp_order_axioms sample_rows_ok(2-4)]
  by blast

end
