(* ===== verification/Parts.thy ===== *)
theory Parts
  imports Dyn_Row
begin

text \<open>
  Parts of a table (\<open>parts/part.go\<close>, \<open>parts/arrow.go\<close>, \<open>parts/parquet.go\<close>) and the
  selection of parts that do not overlap. The contents of a part are the rows of its Arrow record or the rows of the row groups of its Parquet buffer.
\<close>

section \<open>Parts\<close>

record basePart =
  part_tx :: uint64
  part_compactionLevel :: nat

datatype 'r Part =
    arrowPart basePart "'r list" int
  | parquetPart basePart "'r list list" int

type_synonym part_option = "basePart \<Rightarrow> basePart"

definition WithCompactionLevel :: "nat \<Rightarrow> part_option" where
  "WithCompactionLevel level p = p\<lparr>part_compactionLevel := level\<rparr>"

definition apply_options :: "part_option list \<Rightarrow> basePart \<Rightarrow> basePart" where
  "apply_options options p = foldl (\<lambda>p option. option p) p options"

definition NewArrowPart :: "uint64 \<Rightarrow> 'r list \<Rightarrow> int \<Rightarrow> part_option list \<Rightarrow> 'r Part" where
  "NewArrowPart tx record sz options =
     arrowPart (apply_options options \<lparr>part_tx = tx, part_compactionLevel = 0\<rparr>) record sz"

definition NewParquetPart :: "uint64 \<Rightarrow> 'r list list \<times> int \<Rightarrow> part_option list \<Rightarrow> 'r Part" where
  "NewParquetPart tx buf options =
     parquetPart (apply_options options \<lparr>part_tx = tx, part_compactionLevel = 0\<rparr>) (fst buf) (snd buf)"

fun base :: "'r Part \<Rightarrow> basePart" where
  "base (arrowPart b record sz) = b"
| "base (parquetPart b buf sz) = b"

definition TX :: "'r Part \<Rightarrow> uint64" where
  "TX p = part_tx (base p)"

definition CompactionLevel :: "'r Part \<Rightarrow> nat" where
  "CompactionLevel p = part_compactionLevel (base p)"

fun Record :: "'r Part \<Rightarrow> 'r list option" where
  "Record (arrowPart b record sz) = Some record"
| "Record (parquetPart b buf sz) = None"

fun NumRows :: "'r Part \<Rightarrow> nat" where
  "NumRows (arrowPart b record sz) = length record"
| "NumRows (parquetPart b buf sz) = length (concat buf)"

fun part_Size :: "'r Part \<Rightarrow> int" where
  "part_Size (arrowPart b record sz) = sz"
| "part_Size (parquetPart b buf sz) = sz"

text \<open>\<open>SerializeBuffer\<close> writes the record of an Arrow part and refuses a Parquet part.\<close>

fun SerializeBuffer :: "('r list \<Rightarrow> (string, 'w) result) \<Rightarrow> 'r Part \<Rightarrow> (string, 'w) result" where
  "SerializeBuffer RecordToFile (arrowPart b record sz) = RecordToFile record"
| "SerializeBuffer RecordToFile (parquetPart b buf sz) = Inl ''not a record part''"

fun AsSerializedBuffer :: "('r list \<Rightarrow> (string, 'r list list \<times> int) result) \<Rightarrow> 'r Part \<Rightarrow> (string, 'r list list \<times> int) result" where
  "AsSerializedBuffer SerializeRecord (arrowPart b record sz) = SerializeRecord record"
| "AsSerializedBuffer SerializeRecord (parquetPart b buf sz) = Inr (buf, sz)"

text \<open>The first and the last row; reading a row that is not there is an error.\<close>

fun Least :: "'r Part \<Rightarrow> (string, 'r) result" where
  "Least (arrowPart b record sz) = (case record of [] \<Rightarrow> Inl ''no row'' | r # _ \<Rightarrow> Inr r)"
| "Least (parquetPart b buf sz) =
     (case buf of (r # _) # _ \<Rightarrow> Inr r | _ \<Rightarrow> Inl ''read first row of part'')"

fun Most :: "'r Part \<Rightarrow> (string, 'r) result" where
  "Most (arrowPart b record sz) = (if record = [] then Inl ''no row'' else Inr (last record))"
| "Most (parquetPart b buf sz) =
     (if buf = [] \<or> last buf = [] then Inl ''read last row of part'' else Inr (last (last buf)))"

definition OverlapsWith ::
  "('r \<Rightarrow> 'r \<Rightarrow> int) \<Rightarrow> 'r Part \<Rightarrow> 'r Part \<Rightarrow> (string, bool) result" where
  "OverlapsWith cmp p otherPart =
     bind_result (Least p) (\<lambda>a. bind_result (Most p) (\<lambda>b.
     bind_result (Least otherPart) (\<lambda>c. bind_result (Most otherPart) (\<lambda>d.
       Inr (cmp a d \<le> 0 \<and> cmp c b \<le> 0)))))"

section \<open>Selecting parts that do not overlap\<close>

text \<open>
  Sorting by the least row. \<open>sort.Sort\<close> compares every part at least once, so a part
  whose least row cannot be read makes \<open>PartSorter.Err\<close> report the error.
\<close>

fun least_row :: "'r Part \<Rightarrow> 'r option" where
  "least_row p = (case Least p of Inl _ \<Rightarrow> None | Inr r \<Rightarrow> Some r)"

definition part_less :: "('r \<Rightarrow> 'r \<Rightarrow> int) \<Rightarrow> 'r Part \<Rightarrow> 'r Part \<Rightarrow> bool" where
  "part_less cmp p q = (case (Least p, Least q) of (Inr a, Inr b) \<Rightarrow> cmp a b < 0 | _ \<Rightarrow> False)"

fun insert_part :: "('r \<Rightarrow> 'r \<Rightarrow> int) \<Rightarrow> 'r Part \<Rightarrow> 'r Part list \<Rightarrow> 'r Part list" where
  "insert_part cmp p [] = [p]"
| "insert_part cmp p (q # qs) = (if part_less cmp q p then q # insert_part cmp p qs else p # q # qs)"

definition sort_parts :: "('r \<Rightarrow> 'r \<Rightarrow> int) \<Rightarrow> 'r Part list \<Rightarrow> (string, 'r Part list) result" where
  "sort_parts cmp parts =
     bind_result (map_result Least parts) (\<lambda>_. Inr (foldr (insert_part cmp) parts []))"

text \<open>
  The loop over the sorted parts: \<open>prev\<close> is the part kept last, \<open>prevEnd\<close> its end row.
  The code tells parts apart by their address; here each carries its position in the
  sorted slice.
\<close>

type_synonym 'r numbered = "nat \<times> 'r Part"

fun overlap_loop ::
  "('r \<Rightarrow> 'r \<Rightarrow> int) \<Rightarrow> 'r numbered list \<Rightarrow> 'r numbered \<Rightarrow> 'r \<Rightarrow> 'r numbered list \<Rightarrow> 'r numbered list \<Rightarrow>
   'r numbered option \<Rightarrow> (string, 'r numbered list \<times> 'r numbered list \<times> 'r numbered option) result" where
  "overlap_loop cmp [] prev prevEnd nonOverlapping overlapping missing =
     Inr (nonOverlapping, overlapping, missing)"
| "overlap_loop cmp (p # ps) prev prevEnd nonOverlapping overlapping missing =
     bind_result (Least (snd p)) (\<lambda>start. bind_result (Most (snd p)) (\<lambda>curEnd.
       if cmp prevEnd start \<le> 0
       then overlap_loop cmp ps p curEnd (nonOverlapping @ [prev]) overlapping missing
       else if 0 \<le> cmp prevEnd curEnd
       then overlap_loop cmp ps p curEnd nonOverlapping (overlapping @ [prev]) missing
       else overlap_loop cmp ps prev prevEnd nonOverlapping (overlapping @ [p])
              (if ps = [] then Some prev else missing)))"

definition FindMaximumNonOverlappingSet ::
  "('r \<Rightarrow> 'r \<Rightarrow> int) \<Rightarrow> 'r Part list \<Rightarrow> (string, 'r Part list \<times> 'r Part list) result" where
  "FindMaximumNonOverlappingSet cmp parts =
     (if length parts < 2 then Inr (parts, [])
      else bind_result (sort_parts cmp parts) (\<lambda>sorted_parts.
        let parts = zip [0..<length sorted_parts] sorted_parts in
        bind_result (Most (snd (hd parts))) (\<lambda>prevEnd.
        bind_result (overlap_loop cmp (tl parts) (hd parts) prevEnd [] [] None)
          (\<lambda>(nonOverlapping, overlapping, missing).
             if overlapping = [] \<or> fst (last overlapping) \<noteq> fst (last parts)
             then Inr (map snd (nonOverlapping @ [last parts]), map snd overlapping)
             else Inr (map snd nonOverlapping,
                       map snd (overlapping @ (case missing of None \<Rightarrow> [] | Some m \<Rightarrow> [m])))))))"

section \<open>What the selection promises\<close>

lemma map_result_Inr:
  "map_result f xs = Inr ys \<Longrightarrow> length ys = length xs \<and> (\<forall>i < length xs. f (xs ! i) = Inr (ys ! i))"
proof (induction xs arbitrary: ys)
  case (Cons x xs)
  then obtain y ys' where "f x = Inr y" "map_result f xs = Inr ys'" "ys = y # ys'" by auto
  then show ?case using Cons.IH [of ys'] by (auto simp: less_Suc_eq_0_disj)
qed simp

lemma insert_part_mset [simp]: "mset (insert_part cmp p qs) = add_mset p (mset qs)"
  by (induction qs) auto

lemma foldr_insert_mset [simp]: "mset (foldr (insert_part cmp) ps []) = mset ps"
  by (induction ps) auto

text \<open>A part whose end rows can be read and lie in the carrier of the order.\<close>

definition readable :: "('r \<Rightarrow> bool) \<Rightarrow> 'r Part \<Rightarrow> bool" where
  "readable ok p \<longleftrightarrow> (case (Least p, Most p) of (Inr a, Inr b) \<Rightarrow> ok a \<and> ok b | _ \<Rightarrow> False)"

definition least :: "'r Part \<Rightarrow> 'r" where
  "least p = (case Least p of Inr a \<Rightarrow> a | Inl _ \<Rightarrow> undefined)"

definition most :: "'r Part \<Rightarrow> 'r" where
  "most p = (case Most p of Inr a \<Rightarrow> a | Inl _ \<Rightarrow> undefined)"

lemma readableD:
  assumes "readable ok p"
  shows "Least p = Inr (least p)" "Most p = Inr (most p)" "ok (least p)" "ok (most p)"
  using assms by (auto simp: readable_def least_def most_def split: sum.splits)

context cmp_order
begin

lemma insert_part_sorted:
  assumes "sorted_wrt (\<lambda>p q. cmp (least p) (least q) \<le> 0) qs" "readable ok p" "\<forall>q \<in> set qs. readable ok q"
  shows "sorted_wrt (\<lambda>p q. cmp (least p) (least q) \<le> 0) (insert_part cmp p qs)"
  using assms
proof (induction qs)
  case (Cons q qs)
  have r: "ok (least p)" "ok (least q)" "\<forall>x \<in> set qs. ok (least x)" using Cons.prems by (auto dest: readableD)
  have set_ins: "set (insert_part cmp p qs) = insert p (set qs)"
    by (metis insert_part_mset set_mset_add_mset_insert set_mset_mset)
  show ?case
  proof (cases "part_less cmp q p")
    case True
    then have "cmp (least q) (least p) \<le> 0"
      using Cons.prems by (auto simp: part_less_def readableD)
    then show ?thesis using True Cons set_ins by auto
  next
    case False
    then have "cmp (least p) (least q) \<le> 0"
      using Cons.prems r cmp_flip [of "least p" "least q"] by (auto simp: part_less_def readableD)
    then show ?thesis using False Cons.prems r cmp_trans [of "least p" "least q"] by auto
  qed
qed simp

lemma foldr_insert_sorted:
  "\<forall>q \<in> set ps. readable ok q \<Longrightarrow>
   sorted_wrt (\<lambda>p q. cmp (least p) (least q) \<le> 0) (foldr (insert_part cmp) ps [])"
proof (induction ps)
  case (Cons p ps)
  have "set (foldr (insert_part cmp) ps []) = set ps" by (metis foldr_insert_mset set_mset_mset)
  then show ?case using Cons insert_part_sorted [of "foldr (insert_part cmp) ps []" p] by simp
qed simp

text \<open>The state of the loop: everything kept ends before everything that is still to come.\<close>

definition loop_inv :: "'a numbered list \<Rightarrow> 'a numbered \<Rightarrow> 'a numbered list \<Rightarrow> bool" where
  "loop_inv ps prev nonOverlapping \<longleftrightarrow>
     sorted_wrt (\<lambda>p q. cmp (least p) (least q) \<le> 0) (map snd (prev # ps)) \<and>
     sorted_wrt (\<lambda>p q. cmp (most p) (least q) \<le> 0) (map snd (nonOverlapping @ [prev])) \<and>
     (\<forall>q \<in> set (prev # ps @ nonOverlapping). readable ok (snd q))"

lemma loop_inv_step:
  assumes "loop_inv (p # ps) prev non"
  shows "loop_inv ps p non" "loop_inv ps prev non"
    "cmp (most (snd prev)) (least (snd p)) \<le> 0 \<Longrightarrow> loop_inv ps p (non @ [prev])"
proof -
  have o: "ok (least (snd prev))" "ok (least (snd p))" "\<forall>q \<in> set non. ok (most (snd q))"
    using assms by (auto simp: loop_inv_def dest: readableD)
  have le: "cmp (least (snd prev)) (least (snd p)) \<le> 0" "\<forall>q \<in> set non. cmp (most (snd q)) (least (snd prev)) \<le> 0"
    using assms by (auto simp: loop_inv_def sorted_wrt_append)
  then have nx: "\<forall>q \<in> set non. cmp (most (snd q)) (least (snd p)) \<le> 0" using cmp_trans o by blast
  then show "loop_inv ps p non" "loop_inv ps prev non"
    using assms by (auto simp: loop_inv_def sorted_wrt_append)
  assume "cmp (most (snd prev)) (least (snd p)) \<le> 0"
  then show "loop_inv ps p (non @ [prev])" using assms nx by (auto simp: loop_inv_def sorted_wrt_append)
qed

lemma overlap_loop_ordered:
  assumes "loop_inv ps prev non"
  shows "\<exists>prev' non' over' missing'. overlap_loop cmp ps prev (most (snd prev)) non over missing =
      Inr (non', over', missing') \<and> loop_inv [] prev' non' \<and>
      (prev' = last (prev # ps) \<or> (over' \<noteq> [] \<and> last over' = last ps \<and> ps \<noteq> []))"
  using assms
proof (induction ps arbitrary: prev non over missing)
  case (Cons p ps)
  note inv = loop_inv_step [OF Cons.prems]
  have rd: "Least (snd p) = Inr (least (snd p))" "Most (snd p) = Inr (most (snd p))"
    using Cons.prems by (auto simp: loop_inv_def dest: readableD)
  consider "cmp (most (snd prev)) (least (snd p)) \<le> 0"
    | "\<not> cmp (most (snd prev)) (least (snd p)) \<le> 0" "0 \<le> cmp (most (snd prev)) (most (snd p))"
    | "\<not> cmp (most (snd prev)) (least (snd p)) \<le> 0" "\<not> 0 \<le> cmp (most (snd prev)) (most (snd p))" by blast
  then show ?case
  proof cases
    case 1
    then show ?thesis using Cons.IH [OF inv(3), of over missing] rd by (auto split: if_splits)
  next
    case 2
    then show ?thesis using Cons.IH [OF inv(1), of "over @ [prev]" missing] rd by (auto split: if_splits)
  next
    case 3
    then show ?thesis using Cons.IH [OF inv(2), of "over @ [p]" "if ps = [] then Some prev else missing"] rd
      by (cases "ps = []") auto
  qed
qed auto

end

text \<open>The loop distributes the parts, whatever the comparison returns.\<close>

lemma overlap_loop_mset:
  assumes "overlap_loop cmp ps prev prevEnd non over missing = Inr (non', over', missing')"
  shows "\<exists>prev'. add_mset prev' (mset non' + mset over') = add_mset prev (mset ps + mset non + mset over) \<and>
    (if ps = [] then prev' = prev \<and> over' = over \<and> missing' = missing
     else prev' = last ps \<or> (over' \<noteq> [] \<and> last over' = last ps \<and> missing' = Some prev'))"
  using assms
proof (induction ps arbitrary: prev prevEnd non over missing)
  case (Cons p ps)
  from Cons.prems obtain start curEnd where rd: "Least (snd p) = Inr start" "Most (snd p) = Inr curEnd" by auto
  consider "cmp prevEnd start \<le> 0" | "\<not> cmp prevEnd start \<le> 0" "0 \<le> cmp prevEnd curEnd"
    | "\<not> cmp prevEnd start \<le> 0" "\<not> 0 \<le> cmp prevEnd curEnd" by blast
  then show ?case
  proof cases
    case 1
    then have "overlap_loop cmp ps p curEnd (non @ [prev]) over missing = Inr (non', over', missing')"
      using Cons.prems rd by simp
    from Cons.IH [OF this] obtain prev' where
      "add_mset prev' (mset non' + mset over') = add_mset p (mset ps + mset (non @ [prev]) + mset over) \<and>
       (if ps = [] then prev' = p \<and> over' = over \<and> missing' = missing
        else prev' = last ps \<or> (over' \<noteq> [] \<and> last over' = last ps \<and> missing' = Some prev'))" by blast
    moreover have "add_mset p (mset ps + mset (non @ [prev]) + mset over) = add_mset prev (mset (p # ps) + mset non + mset over)"
      by (simp add: add_mset_commute)
    ultimately show ?thesis by (intro exI [of _ prev'] conjI; (simp only:)?) (auto split: if_splits)
  next
    case 2
    then have "overlap_loop cmp ps p curEnd non (over @ [prev]) missing = Inr (non', over', missing')"
      using Cons.prems rd by simp
    from Cons.IH [OF this] obtain prev' where
      "add_mset prev' (mset non' + mset over') = add_mset p (mset ps + mset non + mset (over @ [prev])) \<and>
       (if ps = [] then prev' = p \<and> over' = over @ [prev] \<and> missing' = missing
        else prev' = last ps \<or> (over' \<noteq> [] \<and> last over' = last ps \<and> missing' = Some prev'))" by blast
    moreover have "add_mset p (mset ps + mset non + mset (over @ [prev])) = add_mset prev (mset (p # ps) + mset non + mset over)"
      by (simp add: add_mset_commute)
    ultimately show ?thesis by (intro exI [of _ prev'] conjI; (simp only:)?) (auto split: if_splits)
  next
    case 3
    then have "overlap_loop cmp ps prev prevEnd non (over @ [p]) (if ps = [] then Some prev else missing) =
        Inr (non', over', missing')" using Cons.prems rd by simp
    from Cons.IH [OF this] show ?thesis by (cases "ps = []") auto
  qed
qed simp

lemma FindMaximumNonOverlappingSet_mset:
  assumes "FindMaximumNonOverlappingSet cmp parts = Inr (non, over)"
  shows "mset non + mset over = mset parts"
proof (cases "length parts < 2")
  case True
  then show ?thesis using assms by (simp add: FindMaximumNonOverlappingSet_def)
next
  case False
  let ?s = "foldr (insert_part cmp) parts []"
  let ?z = "zip [0..<length ?s] ?s"
  have len: "length ?s = length parts" by (metis foldr_insert_mset size_mset)
  obtain p ps where z: "?z = p # ps" "ps \<noteq> []"
    using False len by (cases ?z; cases "tl ?z") (auto dest: arg_cong [where f = length])
  have dz: "distinct (map fst ?z)" by simp
  have ms: "image_mset snd (mset ?z) = mset parts"
    by (metis foldr_insert_mset length_upt map_snd_zip minus_nat.diff_0 mset_map)
  from assms obtain non' over' missing' prevEnd where
    o: "overlap_loop cmp ps p prevEnd [] [] None = Inr (non', over', missing')"
    and r: "(if over' = [] \<or> fst (last over') \<noteq> fst (last ?z)
         then Inr (map snd (non' @ [last ?z]), map snd over')
         else Inr (map snd non', map snd (over' @ (case missing' of None \<Rightarrow> [] | Some m \<Rightarrow> [m])))) =
       (Inr (non, over) :: (string, 'a Part list \<times> 'a Part list) result)"
    using False z by (auto simp: FindMaximumNonOverlappingSet_def sort_parts_def Let_def)
  from overlap_loop_mset [OF o] z(2) obtain prev' where
    m: "add_mset prev' (mset non' + mset over') = mset ?z"
    and l: "prev' = last ps \<or> (over' \<noteq> [] \<and> last over' = last ps \<and> missing' = Some prev')" using z(1) by auto
  have m': "add_mset (snd prev') (mset (map snd non') + mset (map snd over')) = mset parts"
    using arg_cong [OF m, of "image_mset snd"] ms by simp
  show ?thesis
  proof (cases "over' = [] \<or> fst (last over') \<noteq> fst (last ?z)")
    case True
    then have "prev' = last ?z" using l z by auto
    then show ?thesis using r True m' by auto
  next
    case nxt: False
    have "prev' \<noteq> last ps"
    proof
      assume e: "prev' = last ps"
      have "mset (map fst (prev' # non' @ over')) = mset (map fst ?z)"
        using arg_cong [OF m, of "image_mset fst"] by (simp only: mset_map mset.simps mset_append image_mset_add_mset)
      then have "distinct (map fst (prev' # non' @ over'))" using dz mset_eq_imp_distinct_iff by metis
      moreover have "fst prev' \<in> fst ` set over'" using nxt e z last_in_set [of over'] by (metis image_eqI last_ConsR)
      ultimately show False by auto
    qed
    then have "missing' = Some prev'" using l by auto
    then show ?thesis using r nxt m' by auto
  qed
qed

context cmp_order
begin

lemma FindMaximumNonOverlappingSet_ordered:
  assumes "\<forall>p \<in> set parts. readable ok p"
  shows "\<exists>non over. FindMaximumNonOverlappingSet cmp parts = Inr (non, over) \<and>
    sorted_wrt (\<lambda>p q. cmp (most p) (least q) \<le> 0) non"
proof (cases "length parts < 2")
  case True
  then show ?thesis by (cases parts; cases "tl parts") (auto simp: FindMaximumNonOverlappingSet_def)
next
  case False
  let ?s = "foldr (insert_part cmp) parts []"
  let ?z = "zip [0..<length ?s] ?s"
  have len: "length ?s = length parts" by (metis foldr_insert_mset size_mset)
  have set_s: "set ?s = set parts" by (metis foldr_insert_mset set_mset_mset)
  obtain p ps where z: "?z = p # ps" "ps \<noteq> []"
    using False len by (cases ?z; cases "tl ?z") (auto dest: arg_cong [where f = length])
  have snd_z: "map snd (p # ps) = ?s" unfolding z(1) [symmetric] by simp
  have "map_result Least parts = Inr (map least parts)"
    using assms by (induction parts) (auto dest: readableD)
  then have sp: "sort_parts cmp parts = Inr ?s" by (simp add: sort_parts_def)
  have rd: "\<forall>q \<in> set (p # ps). readable ok (snd q)"
  proof
    fix q assume "q \<in> set (p # ps)"
    then have "snd q \<in> set ?s" unfolding snd_z [symmetric] set_map by (rule imageI)
    then show "readable ok (snd q)" using assms set_s by simp
  qed
  have "loop_inv ps p []"
    using foldr_insert_sorted [OF assms] rd unfolding loop_inv_def snd_z by simp
  from overlap_loop_ordered [OF this, of "[]" None] obtain prev' non' over' missing' where
    o: "overlap_loop cmp ps p (most (snd p)) [] [] None = Inr (non', over', missing')"
    and inv: "loop_inv [] prev' non'" and l: "prev' = last (p # ps) \<or> (over' \<noteq> [] \<and> last over' = last ps)" by blast
  have mp: "Most (snd p) = Inr (most (snd p))" using rd by (auto dest: readableD)
  have srt: "sorted_wrt (\<lambda>p q. cmp (most p) (least q) \<le> 0) (map snd (non' @ [prev']))" using inv by (simp add: loop_inv_def)
  have F: "FindMaximumNonOverlappingSet cmp parts =
      (if over' = [] \<or> fst (last over') \<noteq> fst (last (p # ps))
       then Inr (map snd (non' @ [last (p # ps)]), map snd over')
       else Inr (map snd non', map snd (over' @ (case missing' of None \<Rightarrow> [] | Some m \<Rightarrow> [m]))))"
    using False sp mp o z by (simp add: FindMaximumNonOverlappingSet_def Let_def)
  show ?thesis
  proof (cases "over' = [] \<or> fst (last over') \<noteq> fst (last (p # ps))")
    case True
    then have "prev' = last (p # ps)" using l z(2) by auto
    then show ?thesis using F True srt by auto
  next
    case False
    then show ?thesis using F srt by (auto simp: sorted_wrt_append)
  qed
qed

end

text \<open>C25: Non-overlapping parts. For parts whose end rows can be read, \<open>FindMaximumNonOverlappingSet\<close>
  loses and duplicates no part: the two lists together are the given parts. The parts of
  the first list do not overlap: each ends no later than every later one of the list
  begins, in the row order of the schema.\<close>

theorem FindMaximumNonOverlappingSet_partition:
  assumes "sorting_ok s" "\<And>c. cmp_order (cmpv c) (\<lambda>_. True)" "\<forall>p \<in> set parts. readable (row_ok s) p"
  shows "\<exists>non over. FindMaximumNonOverlappingSet (\<lambda>a b. the (Cmp (lex_comparator cmpv) s a b)) parts = Inr (non, over) \<and>
    mset non + mset over = mset parts \<and>
    sorted_wrt (\<lambda>p q. the (Cmp (lex_comparator cmpv) s (most p) (least q)) \<le> 0) non"
  using cmp_order.FindMaximumNonOverlappingSet_ordered [OF Cmp_cmp_order [where cmpv = cmpv, OF assms(1,2)] assms(3)]
    FindMaximumNonOverlappingSet_mset by blast

definition sample_part :: "int \<Rightarrow> int \<Rightarrow> int DynamicRow Part" where
  "sample_part lo hi = NewArrowPart 1 [sample_row ''a'' lo 0, sample_row ''a'' hi 0] 10 []"

theorem FindMaximumNonOverlappingSet_partition_witness:
  "\<exists>non over. FindMaximumNonOverlappingSet (\<lambda>a b. the (Cmp (lex_comparator int_cmpv) sample_schema a b))
       [sample_part 5 9, sample_part 1 4, sample_part 2 3] = Inr (non, over) \<and>
     mset non + mset over = mset [sample_part 5 9, sample_part 1 4, sample_part 2 3] \<and>
     sorted_wrt (\<lambda>p q. the (Cmp (lex_comparator int_cmpv) sample_schema (most p) (least q)) \<le> 0) non"
proof (rule FindMaximumNonOverlappingSet_partition [where cmpv = int_cmpv, OF sample_rows_ok(1) int_cmpv.cmp_order_axioms])
  show "\<forall>p \<in> set [sample_part 5 9, sample_part 1 4, sample_part 2 3]. readable (row_ok sample_schema) p"
    by code_simp
qed

text \<open>
  The set is not always the largest possible one: when the part removed last is the last
  part, the part it overlapped with is removed too. Of two overlapping parts, the
  second of which ends later, none is kept.
\<close>

lemma FindMaximumNonOverlappingSet_not_maximum:
  "FindMaximumNonOverlappingSet (\<lambda>a b. a - b)
     [NewArrowPart 1 [1, 5] 10 [], NewArrowPart 1 [2, 9] 10 []] =
   Inr ([], [NewArrowPart 1 [2, 9] 10 [], NewArrowPart 1 [1, 5] 10 []])"
  by code_simp

end
