(* ===== verification/LSM_Index.thy ===== *)
theory LSM_Index
  imports Parts
begin

text \<open>
  The log-structured merge index of a table block (\<open>index/lsm.go\<close>,
  \<open>index/lsm_list.go\<close>): one linked list of nodes in which sentinel nodes start the
  levels. Nodes live in a store and point to each other by address, so that
  insertions, a running compaction and readers can be interleaved.
\<close>

section \<open>The list\<close>

record 'r Node =
  nd_next :: "nat option"
  nd_part :: "'r Part option"
  nd_sentinel :: nat

type_synonym 'r nodes = "nat \<Rightarrow> 'r Node"

text \<open>
  \<open>LevelConfig\<close>: the compaction function gets the parts and options for the new
  parts, and returns them with the sizes before and after.
\<close>

type_synonym 'r compact_fn = "'r Part list \<Rightarrow> part_option list \<Rightarrow> (string, 'r Part list \<times> int \<times> int) result"

record 'r LevelConfig =
  lc_Level :: nat
  lc_MaxSize :: int
  lc_Compact :: "'r compact_fn option"

record 'r LSM =
  lsm_nodes :: "'r nodes"
  lsm_fresh :: nat
  lsm_levels :: nat
  lsm_sizes :: "int list"
  lsm_configs :: "'r LevelConfig list"
  lsm_compacting :: bool

datatype lsm_error =
    Level_not_in_order nat
  | Last_level_has_compact nat
  | Level_without_compact nat
  | Level_does_not_exist nat
  | No_external_writer
  | Compact_failed string
  | Lsm_panic

text \<open>
  \<open>prepend\<close>: the new node gets the next pointer of \<open>n\<close> and takes its place. The code
  repeats a load, a store and a compare-and-swap until the swap succeeds; its
  effect is that of the last round.
\<close>

definition prepend :: "nat \<Rightarrow> 'r Part option \<Rightarrow> nat \<Rightarrow> 'r LSM \<Rightarrow> 'r LSM" where
  "prepend n part sentinel l =
     (let h = lsm_nodes l; a = lsm_fresh l;
          node = \<lparr>nd_next = nd_next (h n), nd_part = part, nd_sentinel = sentinel\<rparr>
      in l\<lparr>lsm_nodes := h(a := node, n := (h n)\<lparr>nd_next := Some a\<rparr>), lsm_fresh := a + 1\<rparr>)"

definition Sentinel :: "nat \<Rightarrow> nat \<Rightarrow> 'r LSM \<Rightarrow> 'r LSM" where
  "Sentinel n s l = prepend n None s l"

definition Prepend :: "nat \<Rightarrow> 'r Part \<Rightarrow> 'r LSM \<Rightarrow> 'r LSM" where
  "Prepend n part l = prepend n (Some part) 0 l"

text \<open>\<open>Iterate\<close>: the nodes from a pointer on, at most as many as there are nodes.\<close>

fun nodes_from :: "'r nodes \<Rightarrow> nat \<Rightarrow> nat option \<Rightarrow> nat list" where
  "nodes_from h 0 p = []"
| "nodes_from h (Suc n) None = []"
| "nodes_from h (Suc n) (Some a) = a # nodes_from h n (nd_next (h a))"

definition Iterate :: "'r LSM \<Rightarrow> nat list" where
  "Iterate l = nodes_from (lsm_nodes l) (lsm_fresh l) (Some (lsm_levels l))"

section \<open>Construction\<close>

fun validate_from :: "nat \<Rightarrow> nat \<Rightarrow> 'r LevelConfig list \<Rightarrow> lsm_error option" where
  "validate_from n i [] = None"
| "validate_from n i (l # ls) =
     (if lc_Level l \<noteq> i then Some (Level_not_in_order (lc_Level l))
      else if i + 1 = n then
        if lc_Compact l \<noteq> None then Some (Last_level_has_compact (lc_Level l)) else validate_from n (i + 1) ls
      else if lc_Compact l = None then Some (Level_without_compact (lc_Level l))
      else validate_from n (i + 1) ls)"

definition validateLevels :: "'r LevelConfig list \<Rightarrow> lsm_error option" where
  "validateLevels levels = validate_from (length levels) 0 levels"

definition NewLSM :: "'r LevelConfig list \<Rightarrow> (lsm_error, 'r LSM) result" where
  "NewLSM levels =
     (case validateLevels levels of
        Some e \<Rightarrow> Inl e
      | None \<Rightarrow>
          Inr (foldl (\<lambda>l i. Sentinel 0 (lc_Level (levels ! i)) l)
            \<lparr>lsm_nodes = (\<lambda>_. \<lparr>nd_next = None, nd_part = None, nd_sentinel = 0\<rparr>), lsm_fresh = 1,
             lsm_levels = 0, lsm_sizes = replicate (length levels) 0, lsm_configs = levels,
             lsm_compacting = False\<rparr>
            (rev [1..<length levels])))"

definition lsm_Size :: "'r LSM \<Rightarrow> int" where
  "lsm_Size l = sum_list (lsm_sizes l)"

definition LevelSize :: "'r LSM \<Rightarrow> nat \<Rightarrow> int" where
  "LevelSize l t = lsm_sizes l ! t"

definition MaxLevel :: "'r LSM \<Rightarrow> nat" where
  "MaxLevel l = length (lsm_configs l) - 1"

section \<open>Insertion and lookup\<close>

definition findLevel :: "'r LSM \<Rightarrow> nat \<Rightarrow> nat option" where
  "findLevel l level =
     find (\<lambda>a. nd_part (lsm_nodes l a) = None \<and> nd_sentinel (lsm_nodes l a) = level) (Iterate l)"

definition findNode :: "'r LSM \<Rightarrow> nat \<Rightarrow> nat option" where
  "findNode l node = find (\<lambda>a. nd_next (lsm_nodes l a) = Some node) (Iterate l)"

definition add_size :: "nat \<Rightarrow> int \<Rightarrow> 'r LSM \<Rightarrow> 'r LSM" where
  "add_size level d l = l\<lparr>lsm_sizes := (lsm_sizes l)[level := lsm_sizes l ! level + d]\<rparr>"

text \<open>
  \<open>Add\<close> links the part and then adds its size; the second step tells whether a
  compaction has to be started.
\<close>

definition Add_link :: "uint64 \<Rightarrow> 'r list \<Rightarrow> int \<Rightarrow> 'r LSM \<Rightarrow> 'r LSM" where
  "Add_link tx record sz l =
     Prepend (lsm_levels l) (NewArrowPart tx record sz [WithCompactionLevel 0]) l"

definition Add_size :: "int \<Rightarrow> 'r LSM \<Rightarrow> 'r LSM \<times> bool" where
  "Add_size sz l =
     (let l = add_size 0 sz l
      in if lc_MaxSize (lsm_configs l ! 0) \<le> lsm_sizes l ! 0 \<and> \<not> lsm_compacting l
         then (l\<lparr>lsm_compacting := True\<rparr>, True) else (l, False))"

definition InsertPart :: "nat \<Rightarrow> 'r Part \<Rightarrow> 'r LSM \<Rightarrow> 'r LSM option" where
  "InsertPart level part l =
     (case findLevel l level of
        None \<Rightarrow> None
      | Some n \<Rightarrow> Some (add_size level (part_Size part) (Prepend n part l)))"

section \<open>Scanning\<close>

text \<open>What one node contributes to a scan at transaction \<open>tx\<close>: its record, or the row groups that may match.\<close>

fun filter_groups :: "('r list \<Rightarrow> (string, bool) result) \<Rightarrow> 'r list list \<Rightarrow> 'r list list \<times> string option" where
  "filter_groups mayContain [] = ([], None)"
| "filter_groups mayContain (rg # rgs) =
     (case mayContain rg of
        Inl e \<Rightarrow> ([], Some e)
      | Inr b \<Rightarrow> (let (out, err) = filter_groups mayContain rgs in (if b then rg # out else out, err)))"

definition scan_node :: "('r list \<Rightarrow> (string, bool) result) \<Rightarrow> uint64 \<Rightarrow> 'r Node \<Rightarrow> 'r list list \<times> string option" where
  "scan_node mayContain tx node =
     (case nd_part node of
        None \<Rightarrow> ([], None)
      | Some p \<Rightarrow>
          if tx < TX p then ([], None)
          else case p of
            arrowPart b record sz \<Rightarrow> ([record], None)
          | parquetPart b buf sz \<Rightarrow> filter_groups mayContain buf)"

fun scan_nodes ::
  "('r list \<Rightarrow> (string, bool) result) \<Rightarrow> uint64 \<Rightarrow> 'r nodes \<Rightarrow> nat list \<Rightarrow> 'r list list \<times> string option" where
  "scan_nodes mayContain tx h [] = ([], None)"
| "scan_nodes mayContain tx h (a # as) =
     (case scan_node mayContain tx (h a) of
        (out, Some e) \<Rightarrow> (out, Some e)
      | (out, None) \<Rightarrow> (let (out', err) = scan_nodes mayContain tx h as in (out @ out', err)))"

text \<open>\<open>Scan\<close> with a callback that accepts everything it is given.\<close>

definition Scan :: "('r list \<Rightarrow> (string, bool) result) \<Rightarrow> uint64 \<Rightarrow> 'r LSM \<Rightarrow> 'r list list \<times> string option" where
  "Scan mayContain tx l = scan_nodes mayContain tx (lsm_nodes l) (Iterate l)"

section \<open>Compaction\<close>

text \<open>
  The first loop of \<open>merge\<close>: the part nodes of the level, and the node the new list
  continues with.
\<close>

fun merge_nodes :: "nat \<Rightarrow> 'r nodes \<Rightarrow> nat list \<Rightarrow> nat list \<times> nat option" where
  "merge_nodes level h [] = ([], None)"
| "merge_nodes level h (a # as) =
     (if nd_part (h a) = None then
        if nd_sentinel (h a) = level then merge_nodes level h as
        else if nd_sentinel (h a) = level + 1 then ([], nd_next (h a))
        else ([], Some a)
      else let (ns, nxt) = merge_nodes level h as in (a # ns, nxt))"

type_synonym 'r external_writer = "'r Part list \<Rightarrow> (string, int) result"

definition merge_collect ::
  "nat \<Rightarrow> bool \<Rightarrow> 'r LSM \<Rightarrow> (lsm_error, nat list \<times> nat option) result" where
  "merge_collect level has_writer l =
     (if length (lsm_configs l) < level then Inl (Level_does_not_exist level)
      else if level + 1 = length (lsm_configs l) \<and> \<not> has_writer then Inl No_external_writer
      else case findLevel l level of
             None \<Rightarrow> Inl Lsm_panic
           | Some a \<Rightarrow> Inr (merge_nodes level (lsm_nodes l) (nodes_from (lsm_nodes l) (lsm_fresh l) (Some a))))"

definition parts_of :: "'r nodes \<Rightarrow> nat list \<Rightarrow> 'r Part list" where
  "parts_of h ns = List.map_filter (\<lambda>a. nd_part (h a)) ns"

text \<open>The list of the compacted parts in front of \<open>nxt\<close>, and its first node.\<close>

fun alloc_parts :: "'r Part list \<Rightarrow> nat option \<Rightarrow> 'r LSM \<Rightarrow> 'r LSM \<times> nat option" where
  "alloc_parts [] nxt l = (l, nxt)"
| "alloc_parts (p # ps) nxt l =
     (let (l', q) = alloc_parts ps nxt l; a = lsm_fresh l'
      in (l'\<lparr>lsm_nodes := (lsm_nodes l')(a := \<lparr>nd_next = q, nd_part = Some p, nd_sentinel = 0\<rparr>), lsm_fresh := a + 1\<rparr>,
          Some a))"

definition alloc_sentinel :: "nat \<Rightarrow> nat option \<Rightarrow> 'r LSM \<Rightarrow> 'r LSM \<times> nat" where
  "alloc_sentinel s nxt l =
     (let a = lsm_fresh l
      in (l\<lparr>lsm_nodes := (lsm_nodes l)(a := \<lparr>nd_next = nxt, nd_part = None, nd_sentinel = s\<rparr>), lsm_fresh := a + 1\<rparr>, a))"

text \<open>
  The middle of \<open>merge\<close>: write or compact the parts, build the new list behind a new
  sentinel, and add the compacted size to the next level. The result is the
  index, the new sentinel and the size to take from the level.
\<close>

definition merge_build ::
  "nat \<Rightarrow> 'r external_writer option \<Rightarrow> nat list \<times> nat option \<Rightarrow> 'r LSM \<Rightarrow> (lsm_error, 'r LSM \<times> nat \<times> int) result" where
  "merge_build level writer nn l =
     (let mergeList = parts_of (lsm_nodes l) (fst nn)
      in case writer of
           Some w \<Rightarrow>
             (case w mergeList of
                Inl e \<Rightarrow> Inl (Compact_failed e)
              | Inr sz \<Rightarrow> (let (l', s) = alloc_sentinel (level + 1) (snd nn) l in Inr (l', s, sz)))
         | None \<Rightarrow>
             if length (lsm_configs l) \<le> level then Inl Lsm_panic
             else (case lc_Compact (lsm_configs l ! level) of
                None \<Rightarrow> Inl Lsm_panic
              | Some compact \<Rightarrow>
                  (case compact mergeList [WithCompactionLevel (level + 1)] of
                     Inl e \<Rightarrow> Inl (Compact_failed e)
                   | Inr ([], _) \<Rightarrow> Inl Lsm_panic
                   | Inr (p # ps, sz, compactedSize) \<Rightarrow>
                       (let (l1, q) = alloc_parts (p # ps) (snd nn) l;
                            (l2, s) = alloc_sentinel (level + 1) q l1
                        in Inr (add_size (level + 1) compactedSize l2, s, sz)))))"

text \<open>
  The compare-and-swap that replaces the old nodes: repeated until it hits the node
  that points to the first of them; its effect is that of the round that succeeds.
\<close>

definition merge_swap :: "nat \<Rightarrow> nat \<Rightarrow> 'r LSM \<Rightarrow> (lsm_error, 'r LSM) result" where
  "merge_swap old s l =
     (case findNode l old of
        None \<Rightarrow> Inl Lsm_panic
      | Some a \<Rightarrow> Inr (l\<lparr>lsm_nodes := (lsm_nodes l)(a := (lsm_nodes l a)\<lparr>nd_next := Some s\<rparr>)\<rparr>))"

definition merge_lsm :: "nat \<Rightarrow> 'r external_writer option \<Rightarrow> 'r LSM \<Rightarrow> (lsm_error, 'r LSM) result" where
  "merge_lsm level writer l =
     bind_result (merge_collect level (writer \<noteq> None) l) (\<lambda>nn.
       if fst nn = [] then Inr l
       else bind_result (merge_build level writer nn l) (\<lambda>(l, s, sz).
         bind_result (merge_swap (hd (fst nn)) s l) (\<lambda>l. Inr (add_size level (- sz) l))))"

fun compact_levels :: "bool \<Rightarrow> nat list \<Rightarrow> 'r LSM \<Rightarrow> (lsm_error, 'r LSM) result" where
  "compact_levels ignoreSizes [] l = Inr l"
| "compact_levels ignoreSizes (i # is) l =
     (if ignoreSizes \<or> lc_MaxSize (lsm_configs l ! i) \<le> lsm_sizes l ! i
      then bind_result (merge_lsm i None l) (compact_levels ignoreSizes is)
      else compact_levels ignoreSizes is l)"

definition compact_lsm :: "bool \<Rightarrow> 'r LSM \<Rightarrow> (lsm_error, 'r LSM) result" where
  "compact_lsm ignoreSizes l =
     bind_result (compact_levels ignoreSizes [0..<length (lsm_configs l) - 1] l)
       (\<lambda>l. Inr (l\<lparr>lsm_compacting := False\<rparr>))"

definition EnsureCompaction :: "'r LSM \<Rightarrow> (lsm_error, 'r LSM) result" where
  "EnsureCompaction l = compact_lsm True (l\<lparr>lsm_compacting := True\<rparr>)"

text \<open>\<open>Rotate\<close>: merge every level into the next, then hand the given level to the writer.\<close>

definition Rotate :: "nat \<Rightarrow> 'r external_writer \<Rightarrow> 'r LSM \<Rightarrow> (lsm_error, 'r LSM) result" where
  "Rotate level writer l =
     bind_result (compact_levels True [0..<length (lsm_configs l) - 1] (l\<lparr>lsm_compacting := True\<rparr>)) (\<lambda>l.
       bind_result (merge_lsm level (Some writer) l) (\<lambda>l. Inr (l\<lparr>lsm_compacting := False\<rparr>)))"

end
