(* ===== verification/LSM_Inv.thy ===== *)
theory LSM_Inv
  imports LSM_Index
begin

text \<open>
  Correctness of the index under concurrency: writers add parts, one compaction runs and
  a reader scans, in any interleaving of their atomic steps.
\<close>

section \<open>Rows and compaction functions\<close>

fun part_rows :: "'r Part \<Rightarrow> 'r multiset" where
  "part_rows (arrowPart b rcd sz) = mset rcd"
| "part_rows (parquetPart b buf sz) = mset (concat buf)"

definition rows_of :: "'r Part list \<Rightarrow> 'r multiset" where
  "rows_of ps = sum_list (map part_rows ps)"

text \<open>
  What the index relies on of the compaction function of a level: the new parts hold
  exactly the rows of the old ones, are visible to every transaction, and the sizes
  returned are those of the parts.
\<close>

locale compaction =
  fixes compact :: "'r compact_fn"
  assumes compact_rows: "ps \<noteq> [] \<Longrightarrow> compact ps [WithCompactionLevel k] = Inr (cs, sz, csz) \<Longrightarrow> rows_of cs = rows_of ps"
    and compact_nonempty: "ps \<noteq> [] \<Longrightarrow> compact ps [WithCompactionLevel k] = Inr (cs, sz, csz) \<Longrightarrow> cs \<noteq> []"
    and compact_tx: "ps \<noteq> [] \<Longrightarrow> compact ps [WithCompactionLevel k] = Inr (cs, sz, csz) \<Longrightarrow> \<forall>c \<in> set cs. TX c = 0"
    and compact_sizes: "ps \<noteq> [] \<Longrightarrow> compact ps [WithCompactionLevel k] = Inr (cs, sz, csz) \<Longrightarrow>
      sz = sum_list (map part_Size ps) \<and> csz = sum_list (map part_Size cs)"

definition configs_ok :: "'r LevelConfig list \<Rightarrow> bool" where
  "configs_ok cfgs \<longleftrightarrow> cfgs \<noteq> [] \<and>
     (\<forall>i < length cfgs - 1. \<exists>f. lc_Compact (cfgs ! i) = Some f \<and> compaction f)"

section \<open>The concurrent index\<close>

datatype comp_pc =
    C_Idle
  | C_Loop bool nat
  | C_Build bool nat "nat list \<times> nat option"
  | C_Swap bool nat "nat list \<times> nat option" nat int
  | C_Size bool nat int
  | C_Panic

text \<open>
  The index with the program point of its compaction, the sizes of the parts linked but not
  yet accounted for, and one reader: the node it visits next, its transaction and
  what it has delivered. The rows inserted, and the rows visible to the reader when it
  started, are recorded but never read.
\<close>

record 'r lsm_sys =
  lsm :: "'r LSM"
  comp_at :: comp_pc
  unaccounted :: "int list"
  rd_cur :: "nat option"
  rd_tx :: uint64
  rd_out :: "'r list list"
  inserted :: "'r multiset"
  rd_start :: "'r multiset"

definition visible :: "uint64 \<Rightarrow> 'r Part list \<Rightarrow> 'r multiset" where
  "visible tx ps = rows_of (filter (\<lambda>p. TX p \<le> tx) ps)"

text \<open>One step of \<open>compact\<close> with the merges it calls.\<close>

definition comp_stop :: "'r lsm_sys \<Rightarrow> 'r lsm_sys" where
  "comp_stop s = s\<lparr>lsm := (lsm s)\<lparr>lsm_compacting := False\<rparr>, comp_at := C_Idle\<rparr>"

definition comp_fail :: "lsm_error \<Rightarrow> 'r lsm_sys \<Rightarrow> 'r lsm_sys" where
  "comp_fail e s = (if e = Lsm_panic then s\<lparr>comp_at := C_Panic\<rparr> else comp_stop s)"

definition comp_loop :: "bool \<Rightarrow> nat \<Rightarrow> 'r lsm_sys \<Rightarrow> 'r lsm_sys" where
  "comp_loop ignoreSizes i s =
     (let l = lsm s
      in if length (lsm_configs l) - 1 \<le> i then comp_stop s
         else if \<not> (ignoreSizes \<or> lc_MaxSize (lsm_configs l ! i) \<le> lsm_sizes l ! i)
         then s\<lparr>comp_at := C_Loop ignoreSizes (i + 1)\<rparr>
         else case merge_collect i False l of
                Inl e \<Rightarrow> comp_fail e s
              | Inr nn \<Rightarrow>
                  if fst nn = [] then s\<lparr>comp_at := C_Loop ignoreSizes (i + 1)\<rparr>
                  else s\<lparr>comp_at := C_Build ignoreSizes i nn\<rparr>)"

definition comp_build :: "bool \<Rightarrow> nat \<Rightarrow> nat list \<times> nat option \<Rightarrow> 'r lsm_sys \<Rightarrow> 'r lsm_sys" where
  "comp_build ignoreSizes i nn s =
     (case merge_build i None nn (lsm s) of
        Inl e \<Rightarrow> comp_fail e s
      | Inr (l, a, sz) \<Rightarrow> s\<lparr>lsm := l, comp_at := C_Swap ignoreSizes i nn a sz\<rparr>)"

definition comp_swap :: "bool \<Rightarrow> nat \<Rightarrow> nat list \<times> nat option \<Rightarrow> nat \<Rightarrow> int \<Rightarrow> 'r lsm_sys \<Rightarrow> 'r lsm_sys" where
  "comp_swap ignoreSizes i nn a sz s =
     (case merge_swap (hd (fst nn)) a (lsm s) of
        Inl e \<Rightarrow> comp_fail e s
      | Inr l \<Rightarrow> s\<lparr>lsm := l, comp_at := C_Size ignoreSizes i sz\<rparr>)"

definition comp_size :: "bool \<Rightarrow> nat \<Rightarrow> int \<Rightarrow> 'r lsm_sys \<Rightarrow> 'r lsm_sys" where
  "comp_size ignoreSizes i sz s =
     s\<lparr>lsm := add_size i (- sz) (lsm s), comp_at := C_Loop ignoreSizes (i + 1)\<rparr>"

definition comp_step :: "'r lsm_sys \<Rightarrow> 'r lsm_sys" where
  "comp_step s =
     (case comp_at s of
        C_Idle \<Rightarrow> s
      | C_Loop ign i \<Rightarrow> comp_loop ign i s
      | C_Build ign i nn \<Rightarrow> comp_build ign i nn s
      | C_Swap ign i nn a sz \<Rightarrow> comp_swap ign i nn a sz s
      | C_Size ign i sz \<Rightarrow> comp_size ign i sz s
      | C_Panic \<Rightarrow> s)"

text \<open>The two halves of \<open>Add\<close>.\<close>

definition sys_link :: "uint64 \<Rightarrow> 'r list \<Rightarrow> int \<Rightarrow> 'r lsm_sys \<Rightarrow> 'r lsm_sys" where
  "sys_link tx rcd sz s =
     s\<lparr>lsm := Add_link tx rcd sz (lsm s), unaccounted := sz # unaccounted s,
       inserted := inserted s + mset rcd\<rparr>"

definition sys_account :: "int \<Rightarrow> 'r lsm_sys \<Rightarrow> 'r lsm_sys" where
  "sys_account sz s =
     (let (l, start) = Add_size sz (lsm s)
      in s\<lparr>lsm := l, unaccounted := remove1 sz (unaccounted s),
           comp_at := if start then C_Loop False 0 else comp_at s\<rparr>)"

definition sys_ensure :: "'r lsm_sys \<Rightarrow> 'r lsm_sys" where
  "sys_ensure s =
     (if lsm_compacting (lsm s) then s
      else s\<lparr>lsm := (lsm s)\<lparr>lsm_compacting := True\<rparr>, comp_at := C_Loop True 0\<rparr>)"

text \<open>A scan starts at the head and visits one node per step.\<close>

definition scan_start :: "uint64 \<Rightarrow> 'r lsm_sys \<Rightarrow> 'r lsm_sys" where
  "scan_start tx s =
     s\<lparr>rd_cur := Some (lsm_levels (lsm s)), rd_tx := tx, rd_out := [],
       rd_start := visible tx (parts_of (lsm_nodes (lsm s)) (Iterate (lsm s)))\<rparr>"

definition scan_step :: "('r list \<Rightarrow> bool) \<Rightarrow> 'r lsm_sys \<Rightarrow> 'r lsm_sys" where
  "scan_step m s =
     (case rd_cur s of
        None \<Rightarrow> s
      | Some a \<Rightarrow>
          (let node = lsm_nodes (lsm s) a
           in s\<lparr>rd_out := rd_out s @ fst (scan_node (\<lambda>g. Inr (m g)) (rd_tx s) node),
                rd_cur := nd_next node\<rparr>))"

inductive lsm_step :: "('r list \<Rightarrow> bool) \<Rightarrow> 'r lsm_sys \<Rightarrow> 'r lsm_sys \<Rightarrow> bool" for m where
  link: "lsm_step m s (sys_link tx rcd sz s)"
| account: "sz \<in> set (unaccounted s) \<Longrightarrow> lsm_step m s (sys_account sz s)"
| ensure: "lsm_step m s (sys_ensure s)"
| compact: "lsm_step m s (comp_step s)"
| start: "lsm_step m s (scan_start tx s)"
| scan: "lsm_step m s (scan_step m s)"

definition lsm_init :: "'r LSM \<Rightarrow> 'r lsm_sys" where
  "lsm_init l = \<lparr>lsm = l, comp_at = C_Idle, unaccounted = [], rd_cur = None, rd_tx = 0, rd_out = [],
     inserted = {#}, rd_start = {#}\<rparr>"

inductive lsm_reachable :: "('r list \<Rightarrow> bool) \<Rightarrow> 'r LevelConfig list \<Rightarrow> 'r lsm_sys \<Rightarrow> bool" for m cfgs where
  init: "NewLSM cfgs = Inr l \<Longrightarrow> configs_ok cfgs \<Longrightarrow> lsm_reachable m cfgs (lsm_init l)"
| step: "lsm_reachable m cfgs s \<Longrightarrow> lsm_step m s s' \<Longrightarrow> lsm_reachable m cfgs s'"

section \<open>Paths\<close>

fun path :: "'r nodes \<Rightarrow> nat option \<Rightarrow> nat list \<Rightarrow> bool" where
  "path h p [] \<longleftrightarrow> p = None"
| "path h p (a # as) \<longleftrightarrow> p = Some a \<and> path h (nd_next (h a)) as"

lemma path_det: "path h p xs \<Longrightarrow> path h p ys \<Longrightarrow> xs = ys"
proof (induction xs arbitrary: p ys)
  case Nil
  then show ?case by (cases ys) auto
next
  case (Cons a xs)
  then show ?case by (cases ys) auto
qed

lemma path_suffix: "path h p (xs @ a # ys) \<Longrightarrow> path h (Some a) (a # ys)"
  by (induction xs arbitrary: p) auto

lemma path_distinct: "path h p xs \<Longrightarrow> distinct xs"
proof (induction xs arbitrary: p)
  case (Cons a xs)
  have "a \<notin> set xs"
  proof
    assume "a \<in> set xs"
    then obtain ys zs where xs: "xs = ys @ a # zs" by (meson split_list)
    then have "path h (Some a) (a # zs)" using Cons.prems path_suffix [of h p "a # ys" a zs] by simp
    moreover have "path h (Some a) (a # xs)" using Cons.prems by simp
    ultimately have "zs = xs" using path_det by blast
    then show False using xs by simp
  qed
  then show ?case using Cons by auto
qed simp

lemma path_upd: "a \<notin> set xs \<Longrightarrow> path (h(a := n)) p xs \<longleftrightarrow> path h p xs"
  by (induction xs arbitrary: p) auto

lemma path_cong: "(\<And>a. a \<in> set xs \<Longrightarrow> h' a = h a) \<Longrightarrow> path h' p xs \<longleftrightarrow> path h p xs"
  by (induction xs arbitrary: p) auto

text \<open>Redirecting a node of a path.\<close>

lemma path_redirect:
  assumes "path h p (xs @ a # ys)" "path h q zs" "a \<notin> set zs"
  shows "path (h(a := (h a)\<lparr>nd_next := q\<rparr>)) p (xs @ a # zs)"
proof -
  have "a \<notin> set xs" using path_distinct [OF assms(1)] by simp
  then show ?thesis
    using assms(1) path_upd [OF assms(3), of h "(h a)\<lparr>nd_next := q\<rparr>" q] assms(2)
    by (induction xs arbitrary: p) auto
qed

lemma nodes_from_path: "path h p xs \<Longrightarrow> length xs \<le> n \<Longrightarrow> nodes_from h n p = xs"
proof (induction xs arbitrary: p n)
  case Nil
  then show ?case by (cases n) auto
next
  case (Cons a xs)
  then show ?case by (cases n) auto
qed

lemma path_length: "path h p xs \<Longrightarrow> \<forall>a \<in> set xs. a < n \<Longrightarrow> length xs \<le> n"
proof -
  assume "path h p xs" "\<forall>a \<in> set xs. a < n"
  then have "card (set xs) = length xs" "set xs \<subseteq> {..<n}" using path_distinct distinct_card by blast+
  then show ?thesis by (metis card_lessThan card_mono finite_lessThan)
qed

lemma path_pred:
  assumes "path h p (xs @ a # b # ys)" "x \<in> set (xs @ a # b # ys)" "nd_next (h x) = Some b"
  shows "x = a"
proof -
  have d: "distinct (xs @ a # b # ys)" using path_distinct assms(1) by blast
  obtain us vs where s: "xs @ a # b # ys = us @ x # vs" using assms(2) by (meson split_list)
  then have "path h (Some b) vs" using path_suffix [of h p us x vs] assms(1,3) by simp
  moreover have "path h (Some b) (b # ys)" using path_suffix [of h p "xs @ [a]" b ys] assms(1) by simp
  ultimately have "vs = b # ys" by (rule path_det)
  then have "(us @ [x]) @ b # ys = (xs @ [a]) @ b # ys" using s by simp
  then show ?thesis by (simp only: append_same_eq append1_eq_conv)
qed

section \<open>Levels\<close>

definition sentinels :: "'r nodes \<Rightarrow> nat list \<Rightarrow> nat list" where
  "sentinels h xs = map (\<lambda>a. nd_sentinel (h a)) (filter (\<lambda>a. nd_part (h a) = None) xs)"

text \<open>The parts of a list of nodes, each with the level of the last sentinel before it.\<close>

fun tagged :: "nat \<Rightarrow> 'r nodes \<Rightarrow> nat list \<Rightarrow> (nat \<times> 'r Part) list" where
  "tagged c h [] = []"
| "tagged c h (a # as) =
     (case nd_part (h a) of
        None \<Rightarrow> tagged (nd_sentinel (h a)) h as
      | Some p \<Rightarrow> (c, p) # tagged c h as)"

definition level_size :: "nat \<Rightarrow> (nat \<times> 'r Part) list \<Rightarrow> int" where
  "level_size i ts = sum_list (map (\<lambda>(j, p). if j = i then part_Size p else 0) ts)"

definition same_nodes :: "'r nodes \<Rightarrow> 'r nodes \<Rightarrow> nat list \<Rightarrow> bool" where
  "same_nodes h h' xs \<longleftrightarrow>
     (\<forall>a \<in> set xs. nd_part (h' a) = nd_part (h a) \<and> nd_sentinel (h' a) = nd_sentinel (h a))"

lemma same_nodes_tagged: "same_nodes h h' xs \<Longrightarrow> tagged c h' xs = tagged c h xs"
  by (induction xs arbitrary: c) (auto simp: same_nodes_def split: option.splits)

lemma same_nodes_sentinels: "same_nodes h h' xs \<Longrightarrow> sentinels h' xs = sentinels h xs"
  by (induction xs) (auto simp: same_nodes_def sentinels_def)

lemma same_nodes_parts: "same_nodes h h' xs \<Longrightarrow> parts_of h' xs = parts_of h xs"
  by (induction xs) (auto simp: same_nodes_def parts_of_def map_filter_simps split: option.splits)

lemma sentinels_simps [simp]:
  "sentinels h [] = []"
  "sentinels h (a # xs) = (if nd_part (h a) = None then nd_sentinel (h a) # sentinels h xs else sentinels h xs)"
  "sentinels h (xs @ ys) = sentinels h xs @ sentinels h ys"
  by (simp_all add: sentinels_def)

lemma parts_of_simps [simp]:
  "parts_of h [] = []"
  "parts_of h (a # xs) = (case nd_part (h a) of None \<Rightarrow> parts_of h xs | Some p \<Rightarrow> p # parts_of h xs)"
  "parts_of h (xs @ ys) = parts_of h xs @ parts_of h ys"
  by (auto simp: parts_of_def map_filter_simps map_filter_def split: option.splits)

lemma tagged_append:
  "tagged c h (xs @ ys) = tagged c h xs @ tagged (last (c # sentinels h xs)) h ys"
  by (induction xs arbitrary: c) (auto split: option.splits)

lemma tagged_parts: "map snd (tagged c h xs) = parts_of h xs"
  by (induction xs arbitrary: c) (auto split: option.splits)

lemma tagged_no_sentinel: "\<forall>a \<in> set xs. nd_part (h a) \<noteq> None \<Longrightarrow> tagged c h xs = map (Pair c) (parts_of h xs)"
  by (induction xs) auto

lemma level_size_simps [simp]:
  "level_size i [] = 0"
  "level_size i ((j, p) # ts) = (if j = i then part_Size p else 0) + level_size i ts"
  "level_size i (ts @ us) = level_size i ts + level_size i us"
  "level_size i (map (Pair j) ps) = (if j = i then sum_list (map part_Size ps) else 0)"
  by (auto simp: level_size_def comp_def)

lemma rows_of_simps [simp]:
  "rows_of [] = {#}" "rows_of (p # ps) = part_rows p + rows_of ps" "rows_of (ps @ qs) = rows_of ps + rows_of qs"
  by (simp_all add: rows_of_def)

lemma sentinel_split:
  assumes "sentinels h xs = [k..<n]" "k \<le> i" "i < n"
  obtains A a B where "xs = A @ a # B" "sentinels h A = [k..<i]" "nd_part (h a) = None"
    "nd_sentinel (h a) = i" "sentinels h B = [Suc i..<n]"
proof -
  have "\<exists>A a B. xs = A @ a # B \<and> sentinels h A = [k..<i] \<and> nd_part (h a) = None \<and>
      nd_sentinel (h a) = i \<and> sentinels h B = [Suc i..<n]"
    using assms
  proof (induction xs arbitrary: k)
    case (Cons x xs)
    show ?case
    proof (cases "nd_part (h x) = None")
      case True
      then have x: "nd_sentinel (h x) = k" "sentinels h xs = [Suc k..<n]"
        using Cons.prems by (simp_all add: upt_conv_Cons)
      show ?thesis
      proof (cases "k = i")
        case True
        then show ?thesis using \<open>nd_part (h x) = None\<close> x by (intro exI [of _ "[]"]) auto
      next
        case False
        then obtain A a B where "xs = A @ a # B" "sentinels h A = [Suc k..<i]" "nd_part (h a) = None"
          "nd_sentinel (h a) = i" "sentinels h B = [Suc i..<n]"
          using Cons.IH [OF x(2)] Cons.prems by auto
        then show ?thesis using True x False Cons.prems
          by (intro exI [of _ "x # A"] exI [of _ a] exI [of _ B]) (auto simp: upt_conv_Cons)
      qed
    next
      case False
      then obtain A a B where "xs = A @ a # B" "sentinels h A = [k..<i]" "nd_part (h a) = None"
          "nd_sentinel (h a) = i" "sentinels h B = [Suc i..<n]"
        using Cons.IH [of k] Cons.prems by auto
      then show ?thesis using False by (intro exI [of _ "x # A"] exI [of _ a] exI [of _ B]) auto
    qed
  next
    case Nil
    then have "[k..<n] = []" by simp
    then show ?case using Nil.prems by auto
  qed
  then show thesis using that by blast
qed

lemma merge_nodes_spec:
  assumes "sentinels h B = Suc i # r"
  obtains ns t ys where "B = ns @ t # ys" "merge_nodes i h B = (ns, nd_next (h t))"
    "\<forall>a \<in> set ns. nd_part (h a) \<noteq> None" "nd_part (h t) = None" "nd_sentinel (h t) = Suc i"
proof -
  have "\<exists>ns t ys. B = ns @ t # ys \<and> merge_nodes i h B = (ns, nd_next (h t)) \<and>
      (\<forall>a \<in> set ns. nd_part (h a) \<noteq> None) \<and> nd_part (h t) = None \<and> nd_sentinel (h t) = Suc i"
    using assms
  proof (induction B)
    case (Cons b B)
    show ?case
    proof (cases "nd_part (h b) = None")
      case True
      then show ?thesis using Cons.prems by (intro exI [of _ "[]"] exI [of _ b] exI [of _ B]) simp
    next
      case False
      then obtain ns t ys where "B = ns @ t # ys" "merge_nodes i h B = (ns, nd_next (h t))"
        "\<forall>a \<in> set ns. nd_part (h a) \<noteq> None" "nd_part (h t) = None" "nd_sentinel (h t) = Suc i"
        using Cons by auto
      then show ?thesis using False by (intro exI [of _ "b # ns"] exI [of _ t] exI [of _ ys]) auto
    qed
  qed simp
  then show thesis using that by blast
qed

section \<open>The invariant\<close>

definition list_ok :: "'r LSM \<Rightarrow> nat list \<Rightarrow> bool" where
  "list_ok l xs \<longleftrightarrow> path (lsm_nodes l) (Some (lsm_levels l)) xs \<and> (\<forall>a \<in> set xs. a < lsm_fresh l) \<and>
     sentinels (lsm_nodes l) xs = [0..<length (lsm_configs l)] \<and> configs_ok (lsm_configs l) \<and>
     nd_part (lsm_nodes l (lsm_levels l)) = None"

text \<open>The part nodes of a level as the compaction found them, still in the list.\<close>

definition collected :: "'r nodes \<Rightarrow> nat list \<Rightarrow> nat \<Rightarrow> nat list \<times> nat option \<Rightarrow> bool" where
  "collected h xs i nn \<longleftrightarrow> fst nn \<noteq> [] \<and>
     (\<exists>P t ys. xs = P @ fst nn @ t # ys \<and> P \<noteq> [] \<and> sentinels h P = [0..<Suc i] \<and>
        (\<forall>a \<in> set (fst nn). nd_part (h a) \<noteq> None) \<and> nd_part (h t) = None \<and> nd_sentinel (h t) = Suc i \<and>
        snd nn = nd_next (h t))"

text \<open>The new list behind its sentinel \<open>a\<close>, not yet reachable.\<close>

definition built :: "'r LSM \<Rightarrow> nat list \<Rightarrow> nat \<Rightarrow> nat list \<times> nat option \<Rightarrow> nat \<Rightarrow> nat list \<Rightarrow> bool" where
  "built l xs i nn a cs \<longleftrightarrow>
     (let h = lsm_nodes l in
      (\<exists>ys. path h (Some a) (a # cs @ ys) \<and> path h (snd nn) ys) \<and>
      set (a # cs) \<inter> set xs = {} \<and> (\<forall>x \<in> set (a # cs). x < lsm_fresh l) \<and>
      nd_part (h a) = None \<and> nd_sentinel (h a) = Suc i \<and> (\<forall>c \<in> set cs. nd_part (h c) \<noteq> None) \<and>
      rows_of (parts_of h cs) = rows_of (parts_of h (fst nn)) \<and> (\<forall>p \<in> set (parts_of h cs). TX p = 0))"

definition sizes_ok :: "'r lsm_sys \<Rightarrow> nat list \<Rightarrow> (nat \<Rightarrow> int) \<Rightarrow> bool" where
  "sizes_ok s xs extra \<longleftrightarrow> length (lsm_sizes (lsm s)) = length (lsm_configs (lsm s)) \<and>
     (\<forall>j < length (lsm_configs (lsm s)). lsm_sizes (lsm s) ! j =
        level_size j (tagged 0 (lsm_nodes (lsm s)) xs) - (if j = 0 then sum_list (unaccounted s) else 0) + extra j)"

definition parts_size :: "'r nodes \<Rightarrow> nat list \<Rightarrow> int" where
  "parts_size h ns = sum_list (map part_Size (parts_of h ns))"

definition extra_at :: "nat \<Rightarrow> int \<Rightarrow> nat \<Rightarrow> int" where
  "extra_at i d j = (if j = i then d else 0)"

definition comp_inv :: "'r lsm_sys \<Rightarrow> nat list \<Rightarrow> bool" where
  "comp_inv s xs \<longleftrightarrow>
     (case comp_at s of
        C_Idle \<Rightarrow> \<not> lsm_compacting (lsm s) \<and> sizes_ok s xs (\<lambda>_. 0)
      | C_Loop ign i \<Rightarrow> lsm_compacting (lsm s) \<and> sizes_ok s xs (\<lambda>_. 0)
      | C_Build ign i nn \<Rightarrow> lsm_compacting (lsm s) \<and> Suc i < length (lsm_configs (lsm s)) \<and>
          collected (lsm_nodes (lsm s)) xs i nn \<and> sizes_ok s xs (\<lambda>_. 0)
      | C_Swap ign i nn a sz \<Rightarrow> lsm_compacting (lsm s) \<and> Suc i < length (lsm_configs (lsm s)) \<and>
          collected (lsm_nodes (lsm s)) xs i nn \<and> sz = parts_size (lsm_nodes (lsm s)) (fst nn) \<and>
          (\<exists>cs. built (lsm s) xs i nn a cs \<and>
             sizes_ok s xs (extra_at (Suc i) (parts_size (lsm_nodes (lsm s)) cs)))
      | C_Size ign i sz \<Rightarrow> lsm_compacting (lsm s) \<and> Suc i < length (lsm_configs (lsm s)) \<and>
          sizes_ok s xs (extra_at i sz)
      | C_Panic \<Rightarrow> False)"

definition reader_inv :: "('r \<Rightarrow> bool) \<Rightarrow> 'r lsm_sys \<Rightarrow> bool" where
  "reader_inv u s \<longleftrightarrow>
     (\<exists>zs. path (lsm_nodes (lsm s)) (rd_cur s) zs \<and> (\<forall>a \<in> set zs. a < lsm_fresh (lsm s)) \<and>
        filter_mset u (rd_start s) \<subseteq>#
          filter_mset u (mset (concat (rd_out s)) + visible (rd_tx s) (parts_of (lsm_nodes (lsm s)) zs)) \<and>
        mset (concat (rd_out s)) + rows_of (parts_of (lsm_nodes (lsm s)) zs) \<subseteq># inserted s)"

definition sys_inv :: "('r \<Rightarrow> bool) \<Rightarrow> 'r lsm_sys \<Rightarrow> bool" where
  "sys_inv u s \<longleftrightarrow>
     (\<exists>xs. list_ok (lsm s) xs \<and> rows_of (parts_of (lsm_nodes (lsm s)) xs) = inserted s \<and> comp_inv s xs) \<and>
     reader_inv u s"

lemma list_ok_Iterate: "list_ok l xs \<Longrightarrow> Iterate l = xs"
  unfolding Iterate_def list_ok_def by (blast intro: nodes_from_path path_length)

lemma list_ok_head:
  assumes "list_ok l xs"
  obtains xs' where "xs = lsm_levels l # xs'"
  using assms by (cases xs) (auto simp: list_ok_def)

lemma list_ok_head_sentinel: "list_ok l xs \<Longrightarrow> nd_sentinel (lsm_nodes l (lsm_levels l)) = 0"
  by (cases xs) (auto simp: list_ok_def configs_ok_def upt_conv_Cons)

lemma visible_simps [simp]:
  "visible tx [] = {#}"
  "visible tx (p # ps) = (if TX p \<le> tx then part_rows p else {#}) + visible tx ps"
  "visible tx (ps @ qs) = visible tx ps + visible tx qs"
  by (simp_all add: visible_def)

lemma visible_subset: "visible tx ps \<subseteq># rows_of ps"
  by (induction ps) (auto intro: subset_mset.add_mono subset_mset.add_increasing)

lemma visible_all: "\<forall>p \<in> set ps. TX p = 0 \<Longrightarrow> visible tx ps = rows_of ps"
  by (simp add: visible_def)

section \<open>Adding parts\<close>

text \<open>The effect of linking a new node behind the head on any list of nodes.\<close>

definition link_path :: "nat \<Rightarrow> nat \<Rightarrow> nat list \<Rightarrow> nat list" where
  "link_path hd_addr f zs = concat (map (\<lambda>a. if a = hd_addr then [a, f] else [a]) zs)"

lemma link_path_id: "n \<notin> set zs \<Longrightarrow> link_path n f zs = zs"
  by (induction zs) (auto simp: link_path_def)

lemma path_link:
  assumes "path h p zs" "f \<notin> set zs" "n \<noteq> f"
  shows "path (h(f := \<lparr>nd_next = nd_next (h n), nd_part = q, nd_sentinel = k\<rparr>, n := (h n)\<lparr>nd_next := Some f\<rparr>))
    p (link_path n f zs)"
  using assms(1,2)
proof (induction zs arbitrary: p)
  case (Cons a zs)
  show ?case
  proof (cases "a = n")
    case True
    then have "n \<notin> set zs" using path_distinct [OF Cons.prems(1)] by simp
    then show ?thesis using Cons True assms(3) by (auto simp: link_path_def)
  next
    case False
    then show ?thesis using Cons by (auto simp: link_path_def)
  qed
qed (simp add: link_path_def)

lemma parts_link:
  assumes "f \<notin> set zs" "n \<noteq> f" "nd_part (h n) = None" "distinct zs"
  shows "mset (parts_of (h(f := \<lparr>nd_next = q, nd_part = Some p, nd_sentinel = k\<rparr>, n := (h n)\<lparr>nd_next := Some f\<rparr>))
      (link_path n f zs)) = mset (parts_of h zs) + (if n \<in> set zs then {#p#} else {#})"
  using assms by (induction zs) (auto simp: link_path_def split: option.splits)

lemma rows_of_mset: "rows_of ps = sum_mset (image_mset part_rows (mset ps))"
  by (induction ps) auto

lemma visible_mset: "visible tx ps = sum_mset (image_mset part_rows (filter_mset (\<lambda>p. TX p \<le> tx) (mset ps)))"
  by (simp add: visible_def rows_of_mset)

lemma same_nodes_link:
  "f \<notin> set zs \<Longrightarrow> same_nodes h (h(f := node, n := (h n)\<lparr>nd_next := q\<rparr>)) zs"
  by (auto simp: same_nodes_def)

lemma Add_link_simps:
  "lsm_nodes (Add_link tx rcd sz l) = (lsm_nodes l)
     (lsm_fresh l := \<lparr>nd_next = nd_next (lsm_nodes l (lsm_levels l)),
        nd_part = Some (NewArrowPart tx rcd sz [WithCompactionLevel 0]), nd_sentinel = 0\<rparr>,
      lsm_levels l := (lsm_nodes l (lsm_levels l))\<lparr>nd_next := Some (lsm_fresh l)\<rparr>)"
  "lsm_fresh (Add_link tx rcd sz l) = Suc (lsm_fresh l)"
  "lsm_levels (Add_link tx rcd sz l) = lsm_levels l"
  "lsm_configs (Add_link tx rcd sz l) = lsm_configs l"
  "lsm_sizes (Add_link tx rcd sz l) = lsm_sizes l"
  "lsm_compacting (Add_link tx rcd sz l) = lsm_compacting l"
  by (simp_all add: Add_link_def Prepend_def prepend_def Let_def)

lemma new_arrow_part [simp]:
  "part_rows (NewArrowPart tx rcd sz opts) = mset rcd"
  "part_Size (NewArrowPart tx rcd sz opts) = sz"
  by (simp_all add: NewArrowPart_def)

lemma reader_inv_link:
  assumes "list_ok (lsm s) xs" "reader_inv u s"
  shows "reader_inv u (sys_link tx rcd sz s)"
proof -
  let ?l = "lsm s" and ?l' = "Add_link tx rcd sz (lsm s)"
  let ?n = "lsm_levels ?l" and ?f = "lsm_fresh ?l"
  obtain zs where zs: "path (lsm_nodes ?l) (rd_cur s) zs" "\<forall>a \<in> set zs. a < ?f"
    "filter_mset u (rd_start s) \<subseteq>#
       filter_mset u (mset (concat (rd_out s)) + visible (rd_tx s) (parts_of (lsm_nodes ?l) zs))"
    "mset (concat (rd_out s)) + rows_of (parts_of (lsm_nodes ?l) zs) \<subseteq># inserted s"
    using assms(2) unfolding reader_inv_def by blast
  let ?zs = "link_path ?n ?f zs"
  obtain xs' where "xs = ?n # xs'" by (rule list_ok_head [OF assms(1)])
  then have f: "?f \<notin> set zs" "?n < ?f" "nd_part (lsm_nodes ?l ?n) = None"
    using zs(2) assms(1) by (auto simp: list_ok_def)
  have p: "path (lsm_nodes ?l') (rd_cur s) ?zs"
    unfolding Add_link_simps using f by (intro path_link zs(1)) auto
  have b: "\<forall>a \<in> set ?zs. a < Suc ?f" using zs(2) f(2) by (auto simp: link_path_def less_Suc_eq)
  let ?p = "NewArrowPart tx rcd sz [WithCompactionLevel 0]"
  have m: "mset (parts_of (lsm_nodes ?l') ?zs) = mset (parts_of (lsm_nodes ?l) zs) + (if ?n \<in> set zs then {#?p#} else {#})"
    unfolding Add_link_simps using f path_distinct [OF zs(1)] by (intro parts_link) auto
  have v: "visible (rd_tx s) (parts_of (lsm_nodes ?l) zs) \<subseteq># visible (rd_tx s) (parts_of (lsm_nodes ?l') ?zs)"
    unfolding visible_mset m by simp
  have r: "rows_of (parts_of (lsm_nodes ?l') ?zs) \<subseteq># rows_of (parts_of (lsm_nodes ?l) zs) + mset rcd"
    unfolding rows_of_mset m by simp
  have "filter_mset u (rd_start s) \<subseteq>#
      filter_mset u (mset (concat (rd_out s)) + visible (rd_tx s) (parts_of (lsm_nodes ?l') ?zs))"
    using zs(3) v by (meson multiset_filter_mono mset_subset_eq_mono_add_left_cancel subset_mset.order_trans)
  moreover have "mset (concat (rd_out s)) + rows_of (parts_of (lsm_nodes ?l') ?zs) \<subseteq># inserted s + mset rcd"
  proof -
    have "mset (concat (rd_out s)) + rows_of (parts_of (lsm_nodes ?l') ?zs) \<subseteq>#
        mset (concat (rd_out s)) + (rows_of (parts_of (lsm_nodes ?l) zs) + mset rcd)"
      using r by (simp only: mset_subset_eq_mono_add_left_cancel)
    also have "\<dots> \<subseteq># inserted s + mset rcd"
      using zs(4) by (simp only: add.assoc [symmetric] mset_subset_eq_mono_add_right_cancel)
    finally show ?thesis .
  qed
  ultimately show ?thesis
    unfolding reader_inv_def sys_link_def using p b by (auto simp: Add_link_simps(2))
qed

lemma link_list:
  assumes "list_ok (lsm s) xs" "xs = lsm_levels (lsm s) # xs'"
  shows "list_ok (Add_link tx rcd sz (lsm s)) (lsm_levels (lsm s) # lsm_fresh (lsm s) # xs')"
    and "same_nodes (lsm_nodes (lsm s)) (lsm_nodes (Add_link tx rcd sz (lsm s))) xs"
    and "nd_part (lsm_nodes (Add_link tx rcd sz (lsm s)) (lsm_fresh (lsm s))) =
      Some (NewArrowPart tx rcd sz [WithCompactionLevel 0])"
proof -
  let ?l = "lsm s" and ?l' = "Add_link tx rcd sz (lsm s)"
  let ?n = "lsm_levels ?l" and ?f = "lsm_fresh ?l"
  have f: "?f \<notin> set xs" "?n < ?f" using assms by (auto simp: list_ok_def)
  have "distinct xs" using assms(1) path_distinct unfolding list_ok_def by blast
  then have "?n \<notin> set xs'" using assms(2) by simp
  then have lp: "link_path ?n ?f xs = ?n # ?f # xs'"
    using link_path_id [of ?n xs' ?f] assms(2) by (simp add: link_path_def)
  show sn: "same_nodes (lsm_nodes ?l) (lsm_nodes ?l') xs"
    unfolding Add_link_simps using f by (intro same_nodes_link)
  show np: "nd_part (lsm_nodes ?l' ?f) = Some (NewArrowPart tx rcd sz [WithCompactionLevel 0])"
    using f by (simp add: Add_link_simps)
  have "path (lsm_nodes ?l') (Some ?n) (?n # ?f # xs')"
    unfolding lp [symmetric] Add_link_simps using f assms(1) by (intro path_link) (auto simp: list_ok_def)
  moreover have "sentinels (lsm_nodes ?l') xs = sentinels (lsm_nodes ?l) xs" using sn by (rule same_nodes_sentinels)
  moreover have "sentinels (lsm_nodes ?l') (?n # ?f # xs') = sentinels (lsm_nodes ?l') xs"
    unfolding assms(2) by (simp add: np)
  ultimately show "list_ok ?l' (?n # ?f # xs')"
    using assms f unfolding list_ok_def by (auto simp: Add_link_simps)
qed

lemma same_nodes_parts_size: "same_nodes h h' ns \<Longrightarrow> parts_size h' ns = parts_size h ns"
  by (simp add: parts_size_def same_nodes_parts)

lemma same_nodes_subset: "same_nodes h h' xs \<Longrightarrow> set ys \<subseteq> set xs \<Longrightarrow> same_nodes h h' ys"
  by (auto simp: same_nodes_def)

lemma collected_link:
  assumes "collected h (n # xs') i nn" "same_nodes h h' (n # xs')" "nd_part (h' f) \<noteq> None"
    and "\<And>a. a \<in> set xs' \<Longrightarrow> h' a = h a" "distinct (n # xs')" "nd_part (h n) = None"
  shows "collected h' (n # f # xs') i nn"
proof -
  obtain P t ys where P: "n # xs' = P @ fst nn @ t # ys" "P \<noteq> []" "sentinels h P = [0..<Suc i]"
    "\<forall>a \<in> set (fst nn). nd_part (h a) \<noteq> None" "nd_part (h t) = None" "nd_sentinel (h t) = Suc i"
    "snd nn = nd_next (h t)" "fst nn \<noteq> []" using assms(1) unfolding collected_def by blast
  obtain P' where P': "P = n # P'" "xs' = P' @ fst nn @ t # ys" using P(1,2) by (cases P) auto
  have "same_nodes h h' P" using assms(2) P(1) by (auto intro: same_nodes_subset)
  then have s: "sentinels h' (n # f # P') = [0..<Suc i]"
    using same_nodes_sentinels [of h h' P] P(3) P'(1) assms(3) by auto
  have t: "h' t = h t" using assms(4) P'(2) by simp
  have "\<forall>a \<in> set (fst nn). nd_part (h' a) \<noteq> None" using P(4) assms(4) P'(2) by simp
  then show ?thesis unfolding collected_def using s t P P' assms(3)
    by (intro conjI exI [of _ "n # f # P'"] exI [of _ t] exI [of _ ys]) simp_all
qed

lemma built_link:
  assumes "built l xs i nn a cs" "xs = lsm_levels l # xs'" "list_ok l xs" "collected (lsm_nodes l) xs i nn"
  shows "built (Add_link tx rcd sz l) (lsm_levels l # lsm_fresh l # xs') i nn a cs"
    and "parts_size (lsm_nodes (Add_link tx rcd sz l)) cs = parts_size (lsm_nodes l) cs"
proof -
  let ?l' = "Add_link tx rcd sz l"
  obtain ys where ys: "path (lsm_nodes l) (Some a) (a # cs @ ys)" "path (lsm_nodes l) (snd nn) ys"
    and b: "set (a # cs) \<inter> set xs = {}" "\<forall>x \<in> set (a # cs). x < lsm_fresh l" "nd_part (lsm_nodes l a) = None"
      "nd_sentinel (lsm_nodes l a) = Suc i" "\<forall>c \<in> set cs. nd_part (lsm_nodes l c) \<noteq> None"
      "rows_of (parts_of (lsm_nodes l) cs) = rows_of (parts_of (lsm_nodes l) (fst nn))"
      "\<forall>p \<in> set (parts_of (lsm_nodes l) cs). TX p = 0"
    using assms(1) unfolding built_def Let_def by blast
  obtain P t ys' where P: "xs = P @ fst nn @ t # ys'" "P \<noteq> []" "snd nn = nd_next (lsm_nodes l t)"
    using assms(4) unfolding collected_def by blast
  have px: "path (lsm_nodes l) (Some (lsm_levels l)) xs" "\<forall>x \<in> set xs. x < lsm_fresh l"
    using assms(3) by (auto simp: list_ok_def)
  have "path (lsm_nodes l) (nd_next (lsm_nodes l t)) ys'"
    using path_suffix [of "lsm_nodes l" "Some (lsm_levels l)" "P @ fst nn" t ys'] px(1) P(1) by simp
  then have e: "ys' = ys" using ys(2) P(3) path_det by metis
  have d: "distinct xs" using path_distinct px(1) by blast
  then have nin: "lsm_levels l \<notin> set ys" "lsm_levels l \<notin> set (fst nn)" "lsm_levels l \<in> set xs"
    using P(1,2) e assms(2) by (cases P; auto)+
  have fr: "\<And>x. x \<in> set (a # cs @ ys) \<union> set (fst nn) \<Longrightarrow> lsm_nodes ?l' x = lsm_nodes l x"
  proof -
    fix x assume "x \<in> set (a # cs @ ys) \<union> set (fst nn)"
    then have "x \<noteq> lsm_levels l" "x < lsm_fresh l"
      using nin b(1,2) px(2) P(1) e by auto
    then show "lsm_nodes ?l' x = lsm_nodes l x" by (simp add: Add_link_simps)
  qed
  have sn: "parts_of (lsm_nodes ?l') cs = parts_of (lsm_nodes l) cs"
    "parts_of (lsm_nodes ?l') (fst nn) = parts_of (lsm_nodes l) (fst nn)"
    using fr by (intro same_nodes_parts; simp add: same_nodes_def)+
  show "parts_size (lsm_nodes ?l') cs = parts_size (lsm_nodes l) cs" by (simp add: parts_size_def sn)
  have "path (lsm_nodes ?l') (Some a) (a # cs @ ys)" "path (lsm_nodes ?l') (snd nn) ys"
    using path_cong [of "a # cs @ ys" "lsm_nodes ?l'" "lsm_nodes l"]
      path_cong [of ys "lsm_nodes ?l'" "lsm_nodes l"] fr ys by auto
  then show "built ?l' (lsm_levels l # lsm_fresh l # xs') i nn a cs"
    unfolding built_def Let_def sn using b fr assms(2) by (auto simp: Add_link_simps(2) less_Suc_eq)
qed

lemma sizes_link:
  assumes "sizes_ok s xs extra" "list_ok (lsm s) xs" "xs = lsm_levels (lsm s) # xs'"
  shows "sizes_ok (sys_link tx rcd sz s) (lsm_levels (lsm s) # lsm_fresh (lsm s) # xs') extra"
proof -
  let ?h = "lsm_nodes (lsm s)" and ?h' = "lsm_nodes (Add_link tx rcd sz (lsm s))"
  note L = link_list [OF assms(2,3), of tx rcd sz]
  have "tagged 0 ?h' xs = tagged 0 ?h xs" using L(2) by (rule same_nodes_tagged)
  moreover have "nd_part (?h' (lsm_levels (lsm s))) = None" "nd_sentinel (?h' (lsm_levels (lsm s))) = 0"
    using assms(2) L(2) list_ok_head_sentinel [OF assms(2)] unfolding same_nodes_def list_ok_def assms(3) by simp_all
  ultimately have "tagged 0 ?h' (lsm_levels (lsm s) # lsm_fresh (lsm s) # xs') =
      (0, NewArrowPart tx rcd sz [WithCompactionLevel 0]) # tagged 0 ?h xs"
    using L(3) unfolding assms(3) by simp
  then show ?thesis using assms(1) unfolding sizes_ok_def sys_link_def by (auto simp: Add_link_simps(4,5))
qed

lemma sys_inv_link:
  assumes "sys_inv u s"
  shows "sys_inv u (sys_link tx rcd sz s)"
proof -
  let ?l = "lsm s" and ?l' = "Add_link tx rcd sz (lsm s)"
  obtain xs where xs: "list_ok ?l xs" "rows_of (parts_of (lsm_nodes ?l) xs) = inserted s" "comp_inv s xs"
    and rd: "reader_inv u s" using assms unfolding sys_inv_def by blast
  obtain xs' where x: "xs = lsm_levels ?l # xs'" by (rule list_ok_head [OF xs(1)])
  let ?xs = "lsm_levels ?l # lsm_fresh ?l # xs'"
  note L = link_list [OF xs(1) x, of tx rcd sz]
  have "mset (parts_of (lsm_nodes ?l') ?xs) =
      add_mset (NewArrowPart tx rcd sz [WithCompactionLevel 0]) (mset (parts_of (lsm_nodes ?l') xs))"
    using L(3) unfolding x by (simp split: option.split)
  then have "rows_of (parts_of (lsm_nodes ?l') ?xs) = inserted s + mset rcd"
    using xs(2) by (simp add: rows_of_mset same_nodes_parts [OF L(2)])
  moreover have "comp_inv (sys_link tx rcd sz s) ?xs"
  proof -
    have d: "distinct xs" using xs(1) path_distinct unfolding list_ok_def by blast
    have fr: "\<And>a. a \<in> set xs' \<Longrightarrow> lsm_nodes ?l' a = lsm_nodes ?l a"
      using xs(1) d x by (auto simp: Add_link_simps list_ok_def)
    have col: "collected (lsm_nodes ?l') ?xs i nn" if "collected (lsm_nodes ?l) xs i nn" for i nn
      using that d L(2,3) fr xs(1) unfolding x by (intro collected_link) (auto simp: list_ok_def)
    have ps: "parts_size (lsm_nodes ?l') (fst nn) = parts_size (lsm_nodes ?l) (fst nn)"
      if "collected (lsm_nodes ?l) xs i nn" for i nn
      using that L(2) by (auto simp: collected_def intro!: same_nodes_parts_size elim: same_nodes_subset)
    have sz: "sizes_ok (sys_link tx rcd sz s) ?xs e" if "sizes_ok s xs e" for e
      using sizes_link [OF that xs(1) x] .
    have f: "lsm (sys_link tx rcd sz s) = ?l'" "comp_at (sys_link tx rcd sz s) = comp_at s"
      by (simp_all add: sys_link_def)
    show ?thesis
    proof (cases "comp_at s")
      case (C_Swap ign i nn a sz')
      then have c: "lsm_compacting ?l" "Suc i < length (lsm_configs ?l)" "collected (lsm_nodes ?l) xs i nn"
        "sz' = parts_size (lsm_nodes ?l) (fst nn)"
        "\<exists>cs. built ?l xs i nn a cs \<and> sizes_ok s xs (extra_at (Suc i) (parts_size (lsm_nodes ?l) cs))"
        using xs(3) by (simp_all add: comp_inv_def)
      then obtain cs where cs: "built ?l xs i nn a cs"
        "sizes_ok s xs (extra_at (Suc i) (parts_size (lsm_nodes ?l) cs))" by blast
      then show ?thesis unfolding comp_inv_def f C_Swap
        using c(1,2) col [OF c(3)] ps [OF c(3)] c(4) sz [OF cs(2)] built_link [OF cs(1) x xs(1) c(3), of tx rcd sz]
        by (simp add: Add_link_simps(4,6)) (rule exI [of _ cs], simp)
    qed (use xs(3) col sz in \<open>auto simp: comp_inv_def f Add_link_simps(4,6)\<close>)
  qed
  ultimately show ?thesis
    unfolding sys_inv_def using L(1) reader_inv_link [OF xs(1) rd, of tx rcd sz]
    by (auto simp: sys_link_def)
qed

section \<open>Sizes, compaction requests and scans\<close>

lemma list_ok_frame:
  assumes "list_ok l xs" "lsm_nodes l' = lsm_nodes l" "lsm_fresh l' = lsm_fresh l" "lsm_levels l' = lsm_levels l"
    "lsm_configs l' = lsm_configs l"
  shows "list_ok l' xs"
  using assms by (simp add: list_ok_def)

lemma built_frame:
  assumes "built l xs i nn a cs" "lsm_nodes l' = lsm_nodes l" "lsm_fresh l' = lsm_fresh l"
  shows "built l' xs i nn a cs"
  using assms by (simp add: built_def)

lemma add_size_simps [simp]:
  "lsm_nodes (add_size i d l) = lsm_nodes l" "lsm_fresh (add_size i d l) = lsm_fresh l"
  "lsm_levels (add_size i d l) = lsm_levels l" "lsm_configs (add_size i d l) = lsm_configs l"
  "lsm_compacting (add_size i d l) = lsm_compacting l"
  "lsm_sizes (add_size i d l) = (lsm_sizes l)[i := lsm_sizes l ! i + d]"
  by (simp_all add: add_size_def)

lemma reader_inv_frame:
  assumes "reader_inv u s" "lsm_nodes (lsm s') = lsm_nodes (lsm s)" "lsm_fresh (lsm s') = lsm_fresh (lsm s)"
    "rd_cur s' = rd_cur s" "rd_tx s' = rd_tx s" "rd_out s' = rd_out s" "rd_start s' = rd_start s" "inserted s' = inserted s"
  shows "reader_inv u s'"
  using assms by (simp add: reader_inv_def)

text \<open>A step that changes only sizes, the compaction flag and the program point of the compaction.\<close>

lemma sys_inv_frame:
  assumes "sys_inv u s" "lsm_nodes (lsm s') = lsm_nodes (lsm s)" "lsm_fresh (lsm s') = lsm_fresh (lsm s)"
    "lsm_levels (lsm s') = lsm_levels (lsm s)" "lsm_configs (lsm s') = lsm_configs (lsm s)"
    "rd_cur s' = rd_cur s" "rd_tx s' = rd_tx s" "rd_out s' = rd_out s" "rd_start s' = rd_start s" "inserted s' = inserted s"
    and "\<And>xs. list_ok (lsm s) xs \<Longrightarrow> comp_inv s xs \<Longrightarrow> comp_inv s' xs"
  shows "sys_inv u s'"
proof -
  obtain xs where xs: "list_ok (lsm s) xs" "rows_of (parts_of (lsm_nodes (lsm s)) xs) = inserted s" "comp_inv s xs"
    and rd: "reader_inv u s" using assms(1) unfolding sys_inv_def by blast
  have "list_ok (lsm s') xs" by (rule list_ok_frame [OF xs(1) assms(2-5)])
  then show ?thesis unfolding sys_inv_def
    using xs assms(2,10) assms(11) [OF xs(1,3)] reader_inv_frame [OF rd assms(2,3,6-10)] by auto
qed

lemma sizes_ok_change:
  assumes "sizes_ok s xs e" "lsm_nodes (lsm s') = lsm_nodes (lsm s)" "lsm_configs (lsm s') = lsm_configs (lsm s)"
    "length (lsm_sizes (lsm s')) = length (lsm_sizes (lsm s))"
    "\<And>j. j < length (lsm_sizes (lsm s)) \<Longrightarrow> lsm_sizes (lsm s') ! j + (if j = 0 then sum_list (unaccounted s') else 0) - e' j =
       lsm_sizes (lsm s) ! j + (if j = 0 then sum_list (unaccounted s) else 0) - e j"
  shows "sizes_ok s' xs e'"
  using assms unfolding sizes_ok_def by (auto simp: algebra_simps split: if_splits)

lemma sum_list_remove1: "sz \<in> set xs \<Longrightarrow> sum_list (remove1 sz xs) = sum_list xs - (sz :: int)"
  by (induction xs) auto

lemma comp_inv_cong:
  assumes "comp_inv s xs" "comp_at s' = comp_at s" "lsm_nodes (lsm s') = lsm_nodes (lsm s)"
    "lsm_fresh (lsm s') = lsm_fresh (lsm s)" "lsm_configs (lsm s') = lsm_configs (lsm s)"
    "lsm_compacting (lsm s') = lsm_compacting (lsm s)"
    "\<And>e. sizes_ok s xs e \<Longrightarrow> sizes_ok s' xs e"
  shows "comp_inv s' xs"
proof -
  have "built (lsm s') xs i nn a cs = built (lsm s) xs i nn a cs" for i nn a cs
    using assms(3,4) by (simp add: built_def)
  then show ?thesis using assms unfolding comp_inv_def by (auto split: comp_pc.splits)
qed

lemma sys_inv_account:
  assumes "sys_inv u s" "sz \<in> set (unaccounted s)"
  shows "sys_inv u (sys_account sz s)"
proof (rule sys_inv_frame [OF assms(1)])
  let ?s' = "sys_account sz s"
  fix xs assume ok: "list_ok (lsm s) xs" and c: "comp_inv s xs"
  have ne: "lsm_configs (lsm s) \<noteq> []" using ok by (simp add: list_ok_def configs_ok_def)
  have sz: "sizes_ok ?s' xs e" if "sizes_ok s xs e" for e
  proof (rule sizes_ok_change [OF that])
    fix j assume "j < length (lsm_sizes (lsm s))"
    then show "lsm_sizes (lsm ?s') ! j + (if j = 0 then sum_list (unaccounted ?s') else 0) - e j =
        lsm_sizes (lsm s) ! j + (if j = 0 then sum_list (unaccounted s) else 0) - e j"
      using sum_list_remove1 [OF assms(2)] by (auto simp: sys_account_def Add_size_def Let_def nth_list_update)
  qed (simp_all add: sys_account_def Add_size_def Let_def)
  show "comp_inv ?s' xs"
  proof (cases "snd (Add_size sz (lsm s))")
    case True
    then have "\<not> lsm_compacting (lsm s)" by (auto simp: Add_size_def Let_def split: if_splits)
    then have "comp_at s = C_Idle" using c by (auto simp: comp_inv_def split: comp_pc.splits)
    then have "sizes_ok s xs (\<lambda>_. 0)" using c by (simp add: comp_inv_def)
    from sz [OF this] show ?thesis using True
      by (auto simp: comp_inv_def sys_account_def Add_size_def Let_def split: if_splits)
  next
    case False
    then show ?thesis using sz
      by (intro comp_inv_cong [OF c]) (auto simp: sys_account_def Add_size_def Let_def split: if_splits)
  qed
qed (simp_all add: sys_account_def Add_size_def Let_def)

lemma sys_inv_ensure: "sys_inv u s \<Longrightarrow> sys_inv u (sys_ensure s)"
proof (cases "lsm_compacting (lsm s)")
  case False
  assume inv: "sys_inv u s"
  show ?thesis
  proof (rule sys_inv_frame [OF inv])
    fix xs assume "comp_inv s xs"
    then have "sizes_ok s xs (\<lambda>_. 0)"
      using False by (auto simp: comp_inv_def split: comp_pc.splits)
    then show "comp_inv (sys_ensure s) xs"
      using False by (simp add: comp_inv_def sys_ensure_def sizes_ok_def)
  qed (simp_all add: sys_ensure_def)
qed (simp add: sys_ensure_def)

lemma sys_inv_start:
  assumes "sys_inv u s"
  shows "sys_inv u (scan_start tx s)"
proof -
  obtain xs where xs: "list_ok (lsm s) xs" "rows_of (parts_of (lsm_nodes (lsm s)) xs) = inserted s" "comp_inv s xs"
    using assms unfolding sys_inv_def by blast
  have "reader_inv u (scan_start tx s)"
    unfolding reader_inv_def
    by (rule exI [of _ xs]) (use xs in \<open>auto simp: scan_start_def list_ok_Iterate [OF xs(1)] list_ok_def\<close>)
  moreover have "comp_inv (scan_start tx s) xs"
    by (rule comp_inv_cong [OF xs(3)]) (simp_all add: scan_start_def sizes_ok_def)
  ultimately show ?thesis unfolding sys_inv_def using xs by (auto simp: scan_start_def)
qed

text \<open>The filter on row groups is sound: it keeps every group with a row the query wants.\<close>

definition filter_sound :: "('r list \<Rightarrow> bool) \<Rightarrow> ('r \<Rightarrow> bool) \<Rightarrow> bool" where
  "filter_sound m u \<longleftrightarrow> (\<forall>g r. r \<in> set g \<longrightarrow> u r \<longrightarrow> m g)"

lemma filter_groups_total:
  "filter_groups (\<lambda>g. Inr (m g)) gs = (filter m gs, None)"
  by (induction gs) auto

lemma filter_groups_rows:
  assumes "filter_sound m u"
  shows "filter_mset u (mset (concat gs)) = filter_mset u (mset (concat (filter m gs)))"
proof (induction gs)
  case (Cons g gs)
  show ?case
  proof (cases "m g")
    case False
    then have "\<forall>r \<in> set g. \<not> u r" using assms by (auto simp: filter_sound_def)
    then have "filter_mset u (mset g) = {#}" by (simp add: filter_mset_eq_conv)
    then show ?thesis using False Cons by simp
  qed (use Cons in simp)
qed simp

lemma concat_filter_subset: "mset (concat (filter m gs)) \<subseteq># mset (concat gs)"
  by (induction gs) (auto intro: subset_mset.add_mono subset_mset.add_increasing)

lemma scan_node_rows:
  assumes "filter_sound m u"
  shows "filter_mset u (visible tx (parts_of h [a])) \<subseteq>#
      filter_mset u (mset (concat (fst (scan_node (\<lambda>g. Inr (m g)) tx (h a)))))"
    and "mset (concat (fst (scan_node (\<lambda>g. Inr (m g)) tx (h a)))) \<subseteq># rows_of (parts_of h [a])"
proof -
  have "filter_mset u (visible tx (parts_of h [a])) \<subseteq>#
      filter_mset u (mset (concat (fst (scan_node (\<lambda>g. Inr (m g)) tx (h a))))) \<and>
    mset (concat (fst (scan_node (\<lambda>g. Inr (m g)) tx (h a)))) \<subseteq># rows_of (parts_of h [a])"
  proof (cases "nd_part (h a)")
    case (Some p)
    show ?thesis
    proof (cases p)
      case (parquetPart b buf sz)
      then show ?thesis
        using Some filter_groups_rows [OF assms, of buf, symmetric] concat_filter_subset [of m buf]
        by (cases "TX p \<le> tx") (simp_all add: scan_node_def filter_groups_total not_le [symmetric])
    qed (use Some in \<open>auto simp: scan_node_def\<close>)
  qed (simp add: scan_node_def)
  then show "filter_mset u (visible tx (parts_of h [a])) \<subseteq>#
      filter_mset u (mset (concat (fst (scan_node (\<lambda>g. Inr (m g)) tx (h a)))))"
    "mset (concat (fst (scan_node (\<lambda>g. Inr (m g)) tx (h a)))) \<subseteq># rows_of (parts_of h [a])" by blast+
qed

lemma reader_inv_scan:
  assumes "filter_sound m u" "reader_inv u s"
  shows "reader_inv u (scan_step m s)"
proof (cases "rd_cur s")
  case (Some a)
  let ?h = "lsm_nodes (lsm s)" and ?out = "fst (scan_node (\<lambda>g. Inr (m g)) (rd_tx s) (lsm_nodes (lsm s) a))"
  obtain zs where zs: "path ?h (rd_cur s) zs" "\<forall>a \<in> set zs. a < lsm_fresh (lsm s)"
    "filter_mset u (rd_start s) \<subseteq>#
       filter_mset u (mset (concat (rd_out s)) + visible (rd_tx s) (parts_of ?h zs))"
    "mset (concat (rd_out s)) + rows_of (parts_of ?h zs) \<subseteq># inserted s"
    using assms(2) unfolding reader_inv_def by blast
  obtain zs' where z: "zs = a # zs'" "path ?h (nd_next (?h a)) zs'" using zs(1) Some by (cases zs) auto
  have sp: "parts_of ?h zs = parts_of ?h [a] @ parts_of ?h zs'" using z(1) by (metis append_Cons append_Nil parts_of_simps(3))
  note R = scan_node_rows [OF assms(1), of "rd_tx s" ?h a]
  have "filter_mset u (rd_start s) \<subseteq># filter_mset u (mset (concat (rd_out s))) +
      (filter_mset u (visible (rd_tx s) (parts_of ?h [a])) + filter_mset u (visible (rd_tx s) (parts_of ?h zs')))"
    using zs(3) unfolding sp by (simp only: visible_simps filter_union_mset)
  also have "\<dots> \<subseteq># filter_mset u (mset (concat (rd_out s))) +
      (filter_mset u (mset (concat ?out)) + filter_mset u (visible (rd_tx s) (parts_of ?h zs')))"
    using R(1) by (simp only: mset_subset_eq_mono_add_left_cancel mset_subset_eq_mono_add_right_cancel)
  finally have A: "filter_mset u (rd_start s) \<subseteq>#
      filter_mset u (mset (concat (rd_out s @ ?out)) + visible (rd_tx s) (parts_of ?h zs'))"
    by (simp only: concat_append mset_append filter_union_mset add.assoc)
  have "mset (concat (rd_out s)) + (mset (concat ?out) + rows_of (parts_of ?h zs')) \<subseteq>#
      mset (concat (rd_out s)) + (rows_of (parts_of ?h [a]) + rows_of (parts_of ?h zs'))"
    using R(2) by (simp only: mset_subset_eq_mono_add_left_cancel mset_subset_eq_mono_add_right_cancel)
  also have "\<dots> \<subseteq># inserted s" using zs(4) unfolding sp by (simp only: rows_of_simps)
  finally have B: "mset (concat (rd_out s @ ?out)) + rows_of (parts_of ?h zs') \<subseteq># inserted s"
    by (simp only: concat_append mset_append add.assoc)
  have f: "lsm (scan_step m s) = lsm s" "rd_cur (scan_step m s) = nd_next (?h a)"
    "rd_out (scan_step m s) = rd_out s @ ?out" "rd_tx (scan_step m s) = rd_tx s"
    "rd_start (scan_step m s) = rd_start s" "inserted (scan_step m s) = inserted s"
    by (simp_all add: scan_step_def Let_def Some)
  have "\<forall>a \<in> set zs'. a < lsm_fresh (lsm s)" using zs(2) z(1) by simp
  then show ?thesis unfolding reader_inv_def f using z(2) A B by blast
qed (use assms in \<open>simp add: scan_step_def\<close>)

lemma sys_inv_scan:
  assumes "filter_sound m u" "sys_inv u s"
  shows "sys_inv u (scan_step m s)"
proof -
  obtain xs where xs: "list_ok (lsm s) xs" "rows_of (parts_of (lsm_nodes (lsm s)) xs) = inserted s" "comp_inv s xs"
    and rd: "reader_inv u s" using assms(2) unfolding sys_inv_def by blast
  have f: "lsm (scan_step m s) = lsm s" "inserted (scan_step m s) = inserted s" "comp_at (scan_step m s) = comp_at s"
    "unaccounted (scan_step m s) = unaccounted s"
    by (simp_all add: scan_step_def Let_def split: option.splits)
  have "comp_inv (scan_step m s) xs"
    by (rule comp_inv_cong [OF xs(3)]) (simp_all add: f sizes_ok_def)
  then show ?thesis unfolding sys_inv_def f using xs reader_inv_scan [OF assms(1) rd] by auto
qed

section \<open>Compaction\<close>

lemma find_unique:
  "find P (A @ a # B) = Some a" if "\<forall>x \<in> set A. \<not> P x" "P a"
  using that by (induction A) auto

lemma findLevel_spec:
  assumes "list_ok l xs" "i < length (lsm_configs l)"
  obtains A a B where "xs = A @ a # B" "findLevel l i = Some a" "sentinels (lsm_nodes l) A = [0..<i]"
    "nd_part (lsm_nodes l a) = None" "nd_sentinel (lsm_nodes l a) = i"
    "sentinels (lsm_nodes l) B = [Suc i..<length (lsm_configs l)]"
proof -
  have "sentinels (lsm_nodes l) xs = [0..<length (lsm_configs l)]" using assms(1) by (simp add: list_ok_def)
  then obtain A a B where x: "xs = A @ a # B" "sentinels (lsm_nodes l) A = [0..<i]"
    "nd_part (lsm_nodes l a) = None" "nd_sentinel (lsm_nodes l a) = i"
    "sentinels (lsm_nodes l) B = [Suc i..<length (lsm_configs l)]"
    by (rule sentinel_split [OF _ _ assms(2)]) auto
  have "nd_sentinel (lsm_nodes l y) \<noteq> i" if "y \<in> set A" "nd_part (lsm_nodes l y) = None" for y
  proof -
    have "nd_sentinel (lsm_nodes l y) \<in> set (sentinels (lsm_nodes l) A)" using that by (simp add: sentinels_def)
    then show ?thesis using x(2) by simp
  qed
  then have "findLevel l i = Some a"
    unfolding findLevel_def list_ok_Iterate [OF assms(1)] x(1) using x(3,4) by (intro find_unique) auto
  then show thesis using that x by blast
qed

lemma merge_collect_spec:
  assumes "list_ok l xs" "Suc i < length (lsm_configs l)"
  shows "\<exists>nn. merge_collect i w l = Inr nn \<and> (fst nn = [] \<or> collected (lsm_nodes l) xs i nn)"
proof -
  obtain A a B where x: "xs = A @ a # B" "findLevel l i = Some a" "sentinels (lsm_nodes l) A = [0..<i]"
    "nd_part (lsm_nodes l a) = None" "nd_sentinel (lsm_nodes l a) = i"
    "sentinels (lsm_nodes l) B = [Suc i..<length (lsm_configs l)]"
    by (rule findLevel_spec [OF assms(1), of i]) (use assms(2) in auto)
  have p: "path (lsm_nodes l) (Some (lsm_levels l)) (A @ a # B)" "\<forall>y \<in> set (A @ a # B). y < lsm_fresh l"
    using assms(1) x(1) by (auto simp: list_ok_def)
  then have nf: "nodes_from (lsm_nodes l) (lsm_fresh l) (Some a) = a # B"
    using path_length [OF p] by (intro nodes_from_path path_suffix [OF p(1)]) simp
  have "sentinels (lsm_nodes l) B = Suc i # [Suc (Suc i)..<length (lsm_configs l)]"
    using x(6) assms(2) by (simp add: upt_conv_Cons)
  then obtain ns t ys where m: "B = ns @ t # ys" "merge_nodes i (lsm_nodes l) B = (ns, nd_next (lsm_nodes l t))"
    "\<forall>a \<in> set ns. nd_part (lsm_nodes l a) \<noteq> None" "nd_part (lsm_nodes l t) = None" "nd_sentinel (lsm_nodes l t) = Suc i"
    by (rule merge_nodes_spec)
  have "merge_collect i w l = Inr (ns, nd_next (lsm_nodes l t))"
    using assms(2) x(2,4,5) nf m(2) by (simp add: merge_collect_def)
  moreover have "collected (lsm_nodes l) xs i (ns, nd_next (lsm_nodes l t))" if "ns \<noteq> []"
    unfolding collected_def using that m x
    by (intro conjI exI [of _ "A @ [a]"] exI [of _ t] exI [of _ ys]) auto
  ultimately show ?thesis by (intro exI [of _ "(ns, nd_next (lsm_nodes l t))"]) auto
qed

lemma alloc_parts_spec:
  assumes "path (lsm_nodes l) nxt ys" "\<forall>y \<in> set ys. y < lsm_fresh l" "alloc_parts ps nxt l = (l', q)"
  shows "\<exists>cs. path (lsm_nodes l') q (cs @ ys) \<and> map (\<lambda>c. nd_part (lsm_nodes l' c)) cs = map Some ps \<and>
    (\<forall>c \<in> set cs. lsm_fresh l \<le> c \<and> c < lsm_fresh l') \<and> (\<forall>y < lsm_fresh l. lsm_nodes l' y = lsm_nodes l y) \<and>
    lsm_fresh l \<le> lsm_fresh l' \<and> lsm_levels l' = lsm_levels l \<and> lsm_configs l' = lsm_configs l \<and>
    lsm_sizes l' = lsm_sizes l \<and> lsm_compacting l' = lsm_compacting l"
  using assms(3)
proof (induction ps arbitrary: l' q)
  case Nil
  then show ?case using assms(1) by (intro exI [of _ "[]"]) auto
next
  case (Cons p ps)
  obtain l1 q1 where a: "alloc_parts ps nxt l = (l1, q1)" by (cases "alloc_parts ps nxt l")
  from Cons.IH [OF a] obtain cs where c: "path (lsm_nodes l1) q1 (cs @ ys)"
    "map (\<lambda>c. nd_part (lsm_nodes l1 c)) cs = map Some ps" "\<forall>c \<in> set cs. lsm_fresh l \<le> c \<and> c < lsm_fresh l1"
    "\<forall>y < lsm_fresh l. lsm_nodes l1 y = lsm_nodes l y" "lsm_fresh l \<le> lsm_fresh l1"
    "lsm_levels l1 = lsm_levels l" "lsm_configs l1 = lsm_configs l" "lsm_sizes l1 = lsm_sizes l"
    "lsm_compacting l1 = lsm_compacting l" by blast
  let ?a = "lsm_fresh l1"
  have l': "l' = l1\<lparr>lsm_nodes := (lsm_nodes l1)(?a := \<lparr>nd_next = q1, nd_part = Some p, nd_sentinel = 0\<rparr>), lsm_fresh := ?a + 1\<rparr>"
    "q = Some ?a" using Cons.prems a by (auto simp: Let_def)
  have nin: "?a \<notin> set (cs @ ys)" using c(3,5) assms(2) by auto
  have "path ((lsm_nodes l1)(?a := n)) q1 (cs @ ys)" for n
    using c(1) by (simp only: path_upd [OF nin])
  then have "path (lsm_nodes l') q ((?a # cs) @ ys)" using l' by simp
  moreover have "map (\<lambda>c. nd_part (lsm_nodes l' c)) (?a # cs) = map Some (p # ps)"
  proof -
    have "map (\<lambda>c. nd_part (lsm_nodes l' c)) cs = map (\<lambda>c. nd_part (lsm_nodes l1 c)) cs"
      using nin l' by (intro map_cong) auto
    then show ?thesis using c(2) l' by simp
  qed
  moreover have "\<forall>c \<in> set (?a # cs). lsm_fresh l \<le> c \<and> c < lsm_fresh l'"
    "\<forall>y < lsm_fresh l. lsm_nodes l' y = lsm_nodes l y" "lsm_fresh l \<le> lsm_fresh l'" "lsm_levels l' = lsm_levels l"
    "lsm_configs l' = lsm_configs l" "lsm_sizes l' = lsm_sizes l" "lsm_compacting l' = lsm_compacting l"
    using c(3-9) l' by (auto simp: less_Suc_eq)
  ultimately show ?case by blast
qed

lemma parts_of_map_Some: "map (\<lambda>c. nd_part (h c)) cs = map Some ps \<Longrightarrow> parts_of h cs = ps"
  by (induction cs arbitrary: ps) auto

lemma parts_of_nonempty: "ns \<noteq> [] \<Longrightarrow> \<forall>a \<in> set ns. nd_part (h a) \<noteq> None \<Longrightarrow> parts_of h ns \<noteq> []"
  by (cases ns) (auto split: option.splits)

lemma merge_build_spec:
  assumes "list_ok l xs" "collected (lsm_nodes l) xs i nn" "Suc i < length (lsm_configs l)"
    and "merge_build i None nn l = Inr (l', a, sz)"
  shows "\<exists>cs. built l' xs i nn a cs \<and> sz = parts_size (lsm_nodes l) (fst nn) \<and>
    (\<forall>y < lsm_fresh l. lsm_nodes l' y = lsm_nodes l y) \<and> lsm_fresh l \<le> lsm_fresh l' \<and>
    lsm_levels l' = lsm_levels l \<and> lsm_configs l' = lsm_configs l \<and> lsm_compacting l' = lsm_compacting l \<and>
    lsm_sizes l' = (lsm_sizes l)[Suc i := lsm_sizes l ! Suc i + parts_size (lsm_nodes l') cs]"
proof -
  let ?ps = "parts_of (lsm_nodes l) (fst nn)"
  obtain P t ys where P: "xs = P @ fst nn @ t # ys" "P \<noteq> []" "\<forall>a \<in> set (fst nn). nd_part (lsm_nodes l a) \<noteq> None"
    "snd nn = nd_next (lsm_nodes l t)" "fst nn \<noteq> []" using assms(2) unfolding collected_def by blast
  have px: "path (lsm_nodes l) (Some (lsm_levels l)) xs" "\<forall>x \<in> set xs. x < lsm_fresh l"
    using assms(1) by (auto simp: list_ok_def)
  have py: "path (lsm_nodes l) (snd nn) ys" "\<forall>y \<in> set ys. y < lsm_fresh l"
    using path_suffix [of "lsm_nodes l" "Some (lsm_levels l)" "P @ fst nn" t ys] px P(1,4) by auto
  obtain f where f: "lc_Compact (lsm_configs l ! i) = Some f" "compaction f"
  proof -
    have "i < length (lsm_configs l) - 1" using assms(3) by simp
    then show thesis using assms(1) that unfolding list_ok_def configs_ok_def by blast
  qed
  obtain p ps csz where r: "f ?ps [WithCompactionLevel (i + 1)] = Inr (p # ps, sz, csz)"
    and l': "(let (l1, q) = alloc_parts (p # ps) (snd nn) l; (l2, s) = alloc_sentinel (i + 1) q l1
       in Inr (add_size (i + 1) csz l2, s, sz)) = (Inr (l', a, sz) :: (lsm_error, 'a LSM \<times> nat \<times> int) result)"
    using assms(3,4) f(1) unfolding merge_build_def
    by (auto simp: Let_def split: sum.splits list.splits prod.splits if_splits)
  have ne: "?ps \<noteq> []" using P(3,5) by (rule parts_of_nonempty [rotated])
  note C = compaction.compact_rows [OF f(2) ne r] compaction.compact_tx [OF f(2) ne r]
    compaction.compact_sizes [OF f(2) ne r]
  obtain l1 q where al: "alloc_parts (p # ps) (snd nn) l = (l1, q)" by (cases "alloc_parts (p # ps) (snd nn) l")
  from alloc_parts_spec [OF py al] obtain cs where c: "path (lsm_nodes l1) q (cs @ ys)"
    "map (\<lambda>c. nd_part (lsm_nodes l1 c)) cs = map Some (p # ps)" "\<forall>c \<in> set cs. lsm_fresh l \<le> c \<and> c < lsm_fresh l1"
    "\<forall>y < lsm_fresh l. lsm_nodes l1 y = lsm_nodes l y" "lsm_fresh l \<le> lsm_fresh l1"
    "lsm_levels l1 = lsm_levels l" "lsm_configs l1 = lsm_configs l" "lsm_sizes l1 = lsm_sizes l"
    "lsm_compacting l1 = lsm_compacting l" by blast
  let ?a = "lsm_fresh l1"
  let ?n = "\<lparr>nd_next = q, nd_part = None, nd_sentinel = Suc i\<rparr>"
  have e: "a = ?a" "lsm_nodes l' = (lsm_nodes l1)(?a := ?n)" "lsm_fresh l' = Suc ?a" "lsm_levels l' = lsm_levels l"
    "lsm_configs l' = lsm_configs l" "lsm_compacting l' = lsm_compacting l"
    "lsm_sizes l' = (lsm_sizes l)[Suc i := lsm_sizes l ! Suc i + csz]"
    using l' al c(6-9) by (auto simp: alloc_sentinel_def Let_def)
  have nin: "?a \<notin> set (cs @ ys)" "?a \<notin> set xs" using c(3,5) py(2) px(2) by auto
  have ocs: "\<And>x. x \<in> set (cs @ ys) \<Longrightarrow> lsm_nodes l' x = lsm_nodes l1 x" using nin e(2) by auto
  have old: "\<And>y. y < lsm_fresh l \<Longrightarrow> lsm_nodes l' y = lsm_nodes l y" using c(4,5) e(2) by auto
  have pc: "path (lsm_nodes l') (Some a) (a # cs @ ys)"
  proof -
    have "path ((lsm_nodes l1)(?a := ?n)) q (cs @ ys)" using c(1) by (simp only: path_upd [OF nin(1)])
    then show ?thesis using e(1,2) by simp
  qed
  have pn: "path (lsm_nodes l') (snd nn) ys"
    using py path_cong [of ys "lsm_nodes l'" "lsm_nodes l"] old by auto
  have pcs: "parts_of (lsm_nodes l') cs = p # ps"
    using c(2) ocs by (intro parts_of_map_Some) (simp cong: map_cong)
  have pns: "parts_of (lsm_nodes l') (fst nn) = ?ps"
    using old px(2) P(1) by (intro same_nodes_parts) (auto simp: same_nodes_def)
  have ncs: "\<forall>c \<in> set cs. nd_part (lsm_nodes l' c) \<noteq> None"
  proof
    fix c' assume "c' \<in> set cs"
    then have "nd_part (lsm_nodes l1 c') \<in> set (map Some (p # ps))" using c(2) by (metis (mono_tags, lifting) image_eqI list.set_map)
    then show "nd_part (lsm_nodes l' c') \<noteq> None" using ocs \<open>c' \<in> set cs\<close> by auto
  qed
  have disj: "set (a # cs) \<inter> set xs = {}" "\<forall>x \<in> set (a # cs). x < lsm_fresh l'"
    using c(3,5) px(2) nin e(1,3) by (fastforce simp: less_Suc_eq)+
  have an: "nd_part (lsm_nodes l' a) = None" "nd_sentinel (lsm_nodes l' a) = Suc i" using e(1,2) by simp_all
  have "built l' xs i nn a cs"
    unfolding built_def Let_def pcs pns using pc pn disj an ncs C(1,2) by blast
  then show ?thesis
    using old c(5) e C(3) pcs by (intro exI [of _ cs]) (auto simp: parts_size_def)
qed

lemma merge_build_no_panic:
  assumes "list_ok l xs" "collected (lsm_nodes l) xs i nn" "Suc i < length (lsm_configs l)"
  shows "merge_build i None nn l \<noteq> Inl Lsm_panic"
proof -
  obtain f where f: "lc_Compact (lsm_configs l ! i) = Some f" "compaction f"
  proof -
    have "i < length (lsm_configs l) - 1" using assms(3) by simp
    then show thesis using assms(1) that unfolding list_ok_def configs_ok_def by blast
  qed
  have "fst nn \<noteq> []" "\<forall>a \<in> set (fst nn). nd_part (lsm_nodes l a) \<noteq> None"
    using assms(2) unfolding collected_def by blast+
  then have ne: "parts_of (lsm_nodes l) (fst nn) \<noteq> []" by (rule parts_of_nonempty)
  show ?thesis
    using assms(3) f(1) compaction.compact_nonempty [OF f(2) ne]
    by (auto simp: merge_build_def Let_def split: sum.splits list.splits prod.splits)
qed

lemma sys_inv_comp_stop:
  assumes "sys_inv u s" "\<And>xs. comp_inv s xs \<Longrightarrow> sizes_ok s xs (\<lambda>_. 0)"
  shows "sys_inv u (comp_stop s)"
proof (rule sys_inv_frame [OF assms(1)])
  fix xs assume "comp_inv s xs"
  then have "sizes_ok s xs (\<lambda>_. 0)" by (rule assms(2))
  then show "comp_inv (comp_stop s) xs" by (simp add: comp_inv_def comp_stop_def sizes_ok_def)
qed (simp_all add: comp_stop_def)

lemma sys_inv_set_pc:
  assumes "sys_inv u s" "\<And>xs. list_ok (lsm s) xs \<Longrightarrow> comp_inv s xs \<Longrightarrow> comp_inv (s\<lparr>comp_at := c\<rparr>) xs"
  shows "sys_inv u (s\<lparr>comp_at := c\<rparr>)"
  by (rule sys_inv_frame [OF assms(1)]) (use assms(2) in simp_all)

lemma sizes_ok_pc [simp]: "sizes_ok (s\<lparr>comp_at := c\<rparr>) xs e = sizes_ok s xs e"
  by (simp add: sizes_ok_def)

lemma sys_inv_loop:
  assumes "sys_inv u s" "comp_at s = C_Loop ign i"
  shows "sys_inv u (comp_loop ign i s)"
proof (cases "Suc i < length (lsm_configs (lsm s))")
  case False
  then have "comp_loop ign i s = comp_stop s" by (simp add: comp_loop_def Let_def)
  then show ?thesis using sys_inv_comp_stop [OF assms(1)] assms(2) by (simp add: comp_inv_def)
next
  case True
  obtain xs where xs: "list_ok (lsm s) xs" using assms(1) unfolding sys_inv_def by blast
  obtain nn where nn: "merge_collect i False (lsm s) = Inr nn" using merge_collect_spec [OF xs True] by blast
  have nxt: "sys_inv u (s\<lparr>comp_at := C_Loop ign (i + 1)\<rparr>)"
    using assms(2) by (intro sys_inv_set_pc [OF assms(1)]) (simp add: comp_inv_def)
  have bld: "sys_inv u (s\<lparr>comp_at := C_Build ign i nn\<rparr>)" if "fst nn \<noteq> []"
    using assms(2) True that nn merge_collect_spec [OF _ True, of _ False]
    by (intro sys_inv_set_pc [OF assms(1)]) (auto simp: comp_inv_def)
  show ?thesis using True nn nxt bld by (auto simp: comp_loop_def Let_def)
qed

text \<open>New nodes that nothing points to change neither the list nor the reader's path.\<close>

lemma reader_inv_alloc:
  assumes "reader_inv u s" "\<forall>y < lsm_fresh (lsm s). lsm_nodes l' y = lsm_nodes (lsm s) y" "lsm_fresh (lsm s) \<le> lsm_fresh l'"
  shows "reader_inv u (s\<lparr>lsm := l', comp_at := c\<rparr>)"
proof -
  obtain zs where zs: "path (lsm_nodes (lsm s)) (rd_cur s) zs" "\<forall>a \<in> set zs. a < lsm_fresh (lsm s)"
    "filter_mset u (rd_start s) \<subseteq>#
       filter_mset u (mset (concat (rd_out s)) + visible (rd_tx s) (parts_of (lsm_nodes (lsm s)) zs))"
    "mset (concat (rd_out s)) + rows_of (parts_of (lsm_nodes (lsm s)) zs) \<subseteq># inserted s"
    using assms(1) unfolding reader_inv_def by blast
  have e: "\<And>a. a \<in> set zs \<Longrightarrow> lsm_nodes l' a = lsm_nodes (lsm s) a" using zs(2) assms(2) by auto
  have "parts_of (lsm_nodes l') zs = parts_of (lsm_nodes (lsm s)) zs"
    using e by (intro same_nodes_parts) (simp add: same_nodes_def)
  moreover have "path (lsm_nodes l') (rd_cur s) zs" using zs(1) path_cong [OF e] by simp
  ultimately show ?thesis unfolding reader_inv_def using zs assms(3)
    by (intro exI [of _ zs]) (auto intro: less_le_trans)
qed

lemma sys_inv_build:
  assumes "sys_inv u s" "comp_at s = C_Build ign i nn"
  shows "sys_inv u (comp_build ign i nn s)"
proof -
  obtain xs where xs: "list_ok (lsm s) xs" "rows_of (parts_of (lsm_nodes (lsm s)) xs) = inserted s" "comp_inv s xs"
    and rd: "reader_inv u s" using assms(1) unfolding sys_inv_def by blast
  have c: "lsm_compacting (lsm s)" "Suc i < length (lsm_configs (lsm s))" "collected (lsm_nodes (lsm s)) xs i nn"
    "sizes_ok s xs (\<lambda>_. 0)" using xs(3) assms(2) by (simp_all add: comp_inv_def)
  show ?thesis
  proof (cases "merge_build i None nn (lsm s)")
    case (Inl e)
    then have "comp_build ign i nn s = comp_stop s"
      using merge_build_no_panic [OF xs(1) c(3,2)] by (auto simp: comp_build_def comp_fail_def)
    then show ?thesis using sys_inv_comp_stop [OF assms(1)] assms(2) by (simp add: comp_inv_def)
  next
    case (Inr r)
    obtain l' a sz where r: "r = (l', a, sz)" by (cases r)
    from merge_build_spec [OF xs(1) c(3,2) Inr [unfolded r]] obtain cs where
      b: "built l' xs i nn a cs" "sz = parts_size (lsm_nodes (lsm s)) (fst nn)"
      "\<forall>y < lsm_fresh (lsm s). lsm_nodes l' y = lsm_nodes (lsm s) y" "lsm_fresh (lsm s) \<le> lsm_fresh l'"
      "lsm_levels l' = lsm_levels (lsm s)" "lsm_configs l' = lsm_configs (lsm s)"
      "lsm_compacting l' = lsm_compacting (lsm s)"
      "lsm_sizes l' = (lsm_sizes (lsm s))[Suc i := lsm_sizes (lsm s) ! Suc i + parts_size (lsm_nodes l') cs]" by blast
    let ?s' = "s\<lparr>lsm := l', comp_at := C_Swap ign i nn a sz\<rparr>"
    have e: "\<And>y. y \<in> set xs \<Longrightarrow> lsm_nodes l' y = lsm_nodes (lsm s) y" using xs(1) b(3) by (auto simp: list_ok_def)
    then have sn: "same_nodes (lsm_nodes (lsm s)) (lsm_nodes l') xs" by (simp add: same_nodes_def)
    obtain xs' where h: "xs = lsm_levels (lsm s) # xs'" by (rule list_ok_head [OF xs(1)])
    have "list_ok l' xs"
      using xs(1) b(4-6) path_cong [OF e] same_nodes_sentinels [OF sn] e [of "lsm_levels (lsm s)"] h
      unfolding list_ok_def by (auto intro: less_le_trans)
    moreover have "collected (lsm_nodes l') xs i nn"
    proof -
      obtain P t ys where P: "xs = P @ fst nn @ t # ys" "P \<noteq> []" "sentinels (lsm_nodes (lsm s)) P = [0..<Suc i]"
        "\<forall>a \<in> set (fst nn). nd_part (lsm_nodes (lsm s) a) \<noteq> None" "nd_part (lsm_nodes (lsm s) t) = None"
        "nd_sentinel (lsm_nodes (lsm s) t) = Suc i" "snd nn = nd_next (lsm_nodes (lsm s) t)" "fst nn \<noteq> []"
        using c(3) unfolding collected_def by blast
      have "same_nodes (lsm_nodes (lsm s)) (lsm_nodes l') P" using sn P(1) by (auto intro: same_nodes_subset)
      then have "sentinels (lsm_nodes l') P = [0..<Suc i]" using same_nodes_sentinels P(3) by metis
      moreover have "\<forall>a \<in> set (fst nn). nd_part (lsm_nodes l' a) \<noteq> None" "lsm_nodes l' t = lsm_nodes (lsm s) t"
        using e P(1,4) by auto
      ultimately show ?thesis unfolding collected_def using P by metis
    qed
    moreover have "parts_size (lsm_nodes l') (fst nn) = parts_size (lsm_nodes (lsm s)) (fst nn)"
      using sn c(3) by (auto simp: collected_def intro!: same_nodes_parts_size elim: same_nodes_subset)
    moreover have "sizes_ok ?s' xs (extra_at (Suc i) (parts_size (lsm_nodes l') cs))"
      using c(2,4) b(6,8) same_nodes_tagged [OF sn, of 0]
      by (auto simp: sizes_ok_def extra_at_def nth_list_update)
    ultimately show ?thesis
      using b(1,2,6,7) c(1,2) xs(2) same_nodes_parts [OF sn] reader_inv_alloc [OF rd b(3,4), of "C_Swap ign i nn a sz"]
      unfolding sys_inv_def comp_build_def Inr r by (auto simp: comp_inv_def)
  qed
qed

text \<open>The swap: the node before the old nodes now points to the new list.\<close>

lemma merge_swap_spec:
  assumes "list_ok l xs" "collected (lsm_nodes l) xs i nn" "built l xs i nn a cs"
  obtains P b t ys where "xs = (P @ [b]) @ fst nn @ t # ys" "sentinels (lsm_nodes l) (P @ [b]) = [0..<Suc i]"
    "nd_part (lsm_nodes l t) = None" "nd_sentinel (lsm_nodes l t) = Suc i" "path (lsm_nodes l) (Some a) (a # cs @ ys)"
    "merge_swap (hd (fst nn)) a l = Inr (l\<lparr>lsm_nodes := (lsm_nodes l)(b := (lsm_nodes l b)\<lparr>nd_next := Some a\<rparr>)\<rparr>)"
    "b \<notin> set (a # cs @ ys)" "nd_next (lsm_nodes l b) = Some (hd (fst nn))" "path (lsm_nodes l) (Some (hd (fst nn))) (fst nn @ t # ys)"
    "b \<notin> set (fst nn @ t # ys)"
proof -
  let ?h = "lsm_nodes l"
  obtain P0 t ys where P: "xs = P0 @ fst nn @ t # ys" "P0 \<noteq> []" "sentinels ?h P0 = [0..<Suc i]"
    "nd_part (?h t) = None" "nd_sentinel (?h t) = Suc i" "snd nn = nd_next (?h t)" "fst nn \<noteq> []"
    using assms(2) unfolding collected_def by blast
  obtain P b where Pb: "P0 = P @ [b]" using P(2) by (metis rev_exhaust)
  obtain n ns where n: "fst nn = n # ns" using P(7) by (cases "fst nn") auto
  obtain ys' where y: "path ?h (Some a) (a # cs @ ys')" "path ?h (snd nn) ys'" "set (a # cs) \<inter> set xs = {}"
    using assms(3) unfolding built_def Let_def by blast
  have px: "path ?h (Some (lsm_levels l)) xs" using assms(1) by (simp add: list_ok_def)
  then have "path ?h (nd_next (?h t)) ys"
    using path_suffix [of ?h "Some (lsm_levels l)" "P0 @ fst nn" t ys] P(1) by simp
  then have e: "ys' = ys" using y(2) P(6) path_det by metis
  have d: "distinct xs" using path_distinct px by blast
  have sx: "path ?h (Some (lsm_levels l)) (P @ b # n # ns @ t # ys)" using px P(1) Pb n by simp
  have nb: "path ?h (nd_next (?h b)) (n # ns @ t # ys)" using path_suffix [OF sx] by simp
  then have bn: "nd_next (?h b) = Some n" by simp
  have "findNode l n = Some b"
  proof -
    have "\<forall>x \<in> set P. nd_next (?h x) \<noteq> Some n"
    proof
      fix x assume "x \<in> set P"
      moreover have "b \<notin> set P" using d P(1) Pb by simp
      ultimately show "nd_next (?h x) \<noteq> Some n" using path_pred [OF sx, of x] by auto
    qed
    then show ?thesis
      unfolding findNode_def list_ok_Iterate [OF assms(1)] using P(1) Pb n bn by (simp add: find_unique)
  qed
  then have ms: "merge_swap (hd (fst nn)) a l = Inr (l\<lparr>lsm_nodes := ?h(b := (?h b)\<lparr>nd_next := Some a\<rparr>)\<rparr>)"
    using n by (simp add: merge_swap_def)
  show thesis
  proof (rule that [of P b t ys])
    show "b \<notin> set (a # cs @ ys)" using y(3) d P(1) Pb e by auto
    show "b \<notin> set (fst nn @ t # ys)" using d P(1) Pb by auto
    show "path ?h (Some (hd (fst nn))) (fst nn @ t # ys)" "nd_next (?h b) = Some (hd (fst nn))" using nb n bn by auto
  qed (use P Pb y(1) e ms in auto)
qed

lemma reader_inv_swap:
  assumes "reader_inv u s" "list_ok (lsm s) xs" "collected (lsm_nodes (lsm s)) xs i nn" "built (lsm s) xs i nn a cs"
    and "merge_swap (hd (fst nn)) a (lsm s) = Inr l'"
  shows "reader_inv u (s\<lparr>lsm := l', comp_at := c\<rparr>)"
proof -
  let ?h = "lsm_nodes (lsm s)"
  obtain P b t ys where S: "xs = (P @ [b]) @ fst nn @ t # ys" "nd_part (?h t) = None"
    "path ?h (Some a) (a # cs @ ys)"
    "merge_swap (hd (fst nn)) a (lsm s) = Inr ((lsm s)\<lparr>lsm_nodes := ?h(b := (?h b)\<lparr>nd_next := Some a\<rparr>)\<rparr>)"
    "b \<notin> set (a # cs @ ys)" "nd_next (?h b) = Some (hd (fst nn))" "path ?h (Some (hd (fst nn))) (fst nn @ t # ys)"
    by (rule merge_swap_spec [OF assms(2-4)]) blast
  let ?h' = "?h(b := (?h b)\<lparr>nd_next := Some a\<rparr>)"
  have l': "lsm_nodes l' = ?h'" "lsm_fresh l' = lsm_fresh (lsm s)" using S(4) assms(5) by auto
  have sn: "parts_of ?h' zs = parts_of ?h zs" for zs by (rule same_nodes_parts) (simp add: same_nodes_def)
  have B: "\<forall>x \<in> set (a # cs). x < lsm_fresh (lsm s)" "nd_part (?h a) = None"
    "rows_of (parts_of ?h cs) = rows_of (parts_of ?h (fst nn))" "\<forall>p \<in> set (parts_of ?h cs). TX p = 0"
    using assms(4) unfolding built_def Let_def by blast+
  obtain zs where zs: "path ?h (rd_cur s) zs" "\<forall>x \<in> set zs. x < lsm_fresh (lsm s)"
    "filter_mset u (rd_start s) \<subseteq>#
       filter_mset u (mset (concat (rd_out s)) + visible (rd_tx s) (parts_of ?h zs))"
    "mset (concat (rd_out s)) + rows_of (parts_of ?h zs) \<subseteq># inserted s"
    using assms(1) unfolding reader_inv_def by blast
  have "\<exists>zs'. path ?h' (rd_cur s) zs' \<and> (\<forall>x \<in> set zs'. x < lsm_fresh (lsm s)) \<and>
      visible (rd_tx s) (parts_of ?h zs) \<subseteq># visible (rd_tx s) (parts_of ?h zs') \<and>
      rows_of (parts_of ?h zs') = rows_of (parts_of ?h zs)"
  proof (cases "b \<in> set zs")
    case False
    then show ?thesis using zs(1,2) path_upd [OF False] by (intro exI [of _ zs]) auto
  next
    case True
    then obtain Z1 Z2 where z: "zs = Z1 @ b # Z2" by (meson split_list)
    have "path ?h (nd_next (?h b)) Z2" using path_suffix [of ?h "rd_cur s" Z1 b Z2] zs(1) z by simp
    then have Z2: "Z2 = fst nn @ t # ys" using S(6,7) path_det by metis
    have p: "path ?h' (rd_cur s) (Z1 @ b # a # cs @ ys)"
      using zs(1) z S(3,5) by (intro path_redirect) auto
    have b: "\<forall>x \<in> set (Z1 @ b # a # cs @ ys). x < lsm_fresh (lsm s)"
      using zs(2) B(1) z Z2 by auto
    have v: "visible (rd_tx s) (parts_of ?h (fst nn)) \<subseteq># visible (rd_tx s) (parts_of ?h cs)"
      using visible_subset [of "rd_tx s" "parts_of ?h (fst nn)"] visible_all [OF B(4)] B(3) by simp
    have d1: "parts_of ?h zs = (parts_of ?h Z1 @ parts_of ?h [b]) @ parts_of ?h (fst nn) @ parts_of ?h ys"
      using z Z2 S(2) by (simp split: option.split)
    have d2: "parts_of ?h (Z1 @ b # a # cs @ ys) =
        (parts_of ?h Z1 @ parts_of ?h [b]) @ parts_of ?h cs @ parts_of ?h ys"
      using B(2) by (simp split: option.split)
    have "visible (rd_tx s) (parts_of ?h zs) \<subseteq># visible (rd_tx s) (parts_of ?h (Z1 @ b # a # cs @ ys))"
      unfolding d1 d2 visible_simps using v by (intro subset_mset.add_mono) auto
    moreover have "rows_of (parts_of ?h (Z1 @ b # a # cs @ ys)) = rows_of (parts_of ?h zs)"
      unfolding d1 d2 rows_of_simps B(3) ..
    ultimately show ?thesis using p b by blast
  qed
  then obtain zs' where zs': "path ?h' (rd_cur s) zs'" "\<forall>x \<in> set zs'. x < lsm_fresh (lsm s)"
    "visible (rd_tx s) (parts_of ?h zs) \<subseteq># visible (rd_tx s) (parts_of ?h zs')"
    "rows_of (parts_of ?h zs') = rows_of (parts_of ?h zs)" by blast
  have "filter_mset u (rd_start s) \<subseteq>#
      filter_mset u (mset (concat (rd_out s)) + visible (rd_tx s) (parts_of ?h zs'))"
    using zs(3) zs'(3) by (meson multiset_filter_mono mset_subset_eq_mono_add_left_cancel subset_mset.order_trans)
  moreover have "mset (concat (rd_out s)) + rows_of (parts_of ?h zs') \<subseteq># inserted s" using zs(4) zs'(4) by simp
  ultimately have "path (lsm_nodes l') (rd_cur s) zs' \<and> (\<forall>x \<in> set zs'. x < lsm_fresh l') \<and>
      filter_mset u (rd_start s) \<subseteq>#
        filter_mset u (mset (concat (rd_out s)) + visible (rd_tx s) (parts_of (lsm_nodes l') zs')) \<and>
      mset (concat (rd_out s)) + rows_of (parts_of (lsm_nodes l') zs') \<subseteq># inserted s"
    unfolding l' sn using zs'(1,2) by blast
  then show ?thesis unfolding reader_inv_def by auto
qed

lemma swap_list:
  assumes "list_ok l xs" "collected (lsm_nodes l) xs i nn" "built l xs i nn a cs" "Suc i < length (lsm_configs l)"
    and "merge_swap (hd (fst nn)) a l = Inr l'"
  obtains xs' where "list_ok l' xs'" "rows_of (parts_of (lsm_nodes l') xs') = rows_of (parts_of (lsm_nodes l) xs)"
    "\<And>j. level_size j (tagged 0 (lsm_nodes l') xs') = level_size j (tagged 0 (lsm_nodes l) xs)
       - extra_at i (parts_size (lsm_nodes l) (fst nn)) j + extra_at (Suc i) (parts_size (lsm_nodes l) cs) j"
    "lsm_configs l' = lsm_configs l" "lsm_sizes l' = lsm_sizes l" "lsm_compacting l' = lsm_compacting l"
proof -
  let ?h = "lsm_nodes l"
  obtain P b t ys where S: "xs = (P @ [b]) @ fst nn @ t # ys" "sentinels ?h (P @ [b]) = [0..<Suc i]"
    "nd_part (?h t) = None" "nd_sentinel (?h t) = Suc i" "path ?h (Some a) (a # cs @ ys)"
    "merge_swap (hd (fst nn)) a l = Inr (l\<lparr>lsm_nodes := ?h(b := (?h b)\<lparr>nd_next := Some a\<rparr>)\<rparr>)"
    "b \<notin> set (a # cs @ ys)" by (rule merge_swap_spec [OF assms(1-3)]) blast
  let ?h' = "?h(b := (?h b)\<lparr>nd_next := Some a\<rparr>)"
  let ?xs = "(P @ [b]) @ a # cs @ ys"
  have l': "l' = l\<lparr>lsm_nodes := ?h'\<rparr>" using S(6) assms(5) by simp
  have sn: "same_nodes ?h ?h' zs" for zs by (simp add: same_nodes_def)
  have B: "\<forall>x \<in> set (a # cs). x < lsm_fresh l" "nd_part (?h a) = None" "nd_sentinel (?h a) = Suc i"
    "\<forall>c \<in> set cs. nd_part (?h c) \<noteq> None" "rows_of (parts_of ?h cs) = rows_of (parts_of ?h (fst nn))"
    using assms(3) unfolding built_def Let_def by blast+
  have N: "\<forall>a \<in> set (fst nn). nd_part (?h a) \<noteq> None" using assms(2) unfolding collected_def by blast
  have L: "path ?h (Some (lsm_levels l)) ((P @ [b]) @ fst nn @ t # ys)" "\<forall>x \<in> set xs. x < lsm_fresh l"
    "sentinels ?h xs = [0..<length (lsm_configs l)]" "configs_ok (lsm_configs l)" "nd_part (?h (lsm_levels l)) = None"
    using assms(1) S(1) by (auto simp: list_ok_def)
  have none: "sentinels ?h cs = []" "sentinels ?h (fst nn) = []" using B(4) N by (auto simp: sentinels_def)
  have p: "path ?h' (Some (lsm_levels l)) ?xs"
    using path_redirect [of ?h "Some (lsm_levels l)" P b "fst nn @ t # ys" "Some a" "a # cs @ ys"] L(1) S(5,7) by simp
  have "sentinels ?h (a # cs @ ys) = sentinels ?h (fst nn @ t # ys)"
    by (simp add: B(2,3) S(3,4) none)
  then have st: "sentinels ?h' ?xs = [0..<length (lsm_configs l)]"
    using L(3) unfolding same_nodes_sentinels [OF sn] S(1) sentinels_simps(3) by metis
  have ok: "list_ok l' ?xs"
    unfolding list_ok_def l' using p st L(2,4,5) B(1) S(1) by (auto split: if_splits)
  have la: "last (0 # [0..<Suc i]) = i" by simp
  have t1: "tagged 0 ?h xs = tagged 0 ?h (P @ [b]) @ map (Pair i) (parts_of ?h (fst nn)) @ tagged (Suc i) ?h ys"
    unfolding S(1) tagged_append S(2) la using S(3,4) none(2) tagged_no_sentinel [OF N] by (simp add: tagged_append)
  have t2: "tagged 0 ?h ?xs = tagged 0 ?h (P @ [b]) @ map (Pair (Suc i)) (parts_of ?h cs) @ tagged (Suc i) ?h ys"
    unfolding tagged_append S(2) la using B(2,3) none(1) tagged_no_sentinel [OF B(4)] by (simp add: tagged_append)
  have lv: "level_size j (tagged 0 ?h' ?xs) = level_size j (tagged 0 ?h xs)
       - extra_at i (parts_size ?h (fst nn)) j + extra_at (Suc i) (parts_size ?h cs) j" for j
    unfolding same_nodes_tagged [OF sn] t1 t2 by (simp add: extra_at_def parts_size_def)
  have "parts_of ?h' ?xs = parts_of ?h (P @ [b]) @ parts_of ?h cs @ parts_of ?h ys"
    "parts_of ?h xs = parts_of ?h (P @ [b]) @ parts_of ?h (fst nn) @ parts_of ?h ys"
    unfolding same_nodes_parts [OF sn] S(1) parts_of_simps(3) using B(2) S(3) by simp_all
  then have "rows_of (parts_of ?h' ?xs) = rows_of (parts_of ?h xs)" by (simp only: rows_of_simps B(5))
  then show thesis using ok lv by (intro that [of ?xs]) (simp_all add: l')
qed

lemma sys_inv_swap:
  assumes "sys_inv u s" "comp_at s = C_Swap ign i nn a sz"
  shows "sys_inv u (comp_swap ign i nn a sz s)"
proof -
  obtain xs where xs: "list_ok (lsm s) xs" "rows_of (parts_of (lsm_nodes (lsm s)) xs) = inserted s" "comp_inv s xs"
    and rd: "reader_inv u s" using assms(1) unfolding sys_inv_def by blast
  obtain cs where c: "lsm_compacting (lsm s)" "Suc i < length (lsm_configs (lsm s))"
    "collected (lsm_nodes (lsm s)) xs i nn" "sz = parts_size (lsm_nodes (lsm s)) (fst nn)"
    "built (lsm s) xs i nn a cs" "sizes_ok s xs (extra_at (Suc i) (parts_size (lsm_nodes (lsm s)) cs))"
    using xs(3) assms(2) by (auto simp: comp_inv_def)
  obtain l' where l': "merge_swap (hd (fst nn)) a (lsm s) = Inr l'"
    by (rule merge_swap_spec [OF xs(1) c(3,5)]) blast
  obtain xs' where x: "list_ok l' xs'" "rows_of (parts_of (lsm_nodes l') xs') = rows_of (parts_of (lsm_nodes (lsm s)) xs)"
    "\<And>j. level_size j (tagged 0 (lsm_nodes l') xs') = level_size j (tagged 0 (lsm_nodes (lsm s)) xs)
       - extra_at i (parts_size (lsm_nodes (lsm s)) (fst nn)) j + extra_at (Suc i) (parts_size (lsm_nodes (lsm s)) cs) j"
    "lsm_configs l' = lsm_configs (lsm s)" "lsm_sizes l' = lsm_sizes (lsm s)" "lsm_compacting l' = lsm_compacting (lsm s)"
    by (rule swap_list [OF xs(1) c(3,5,2) l']) blast
  let ?s' = "s\<lparr>lsm := l', comp_at := C_Size ign i sz\<rparr>"
  have "sizes_ok ?s' xs' (extra_at i sz)"
    using c(6) x(3-5) c(4) by (auto simp: sizes_ok_def)
  then have "comp_inv ?s' xs'" using c(1,2) x(4,6) by (simp add: comp_inv_def)
  then show ?thesis
    unfolding sys_inv_def comp_swap_def l' using x(1,2) xs(2) reader_inv_swap [OF rd xs(1) c(3,5) l', of "C_Size ign i sz"]
    by auto
qed

lemma sys_inv_size:
  assumes "sys_inv u s" "comp_at s = C_Size ign i sz"
  shows "sys_inv u (comp_size ign i sz s)"
proof (rule sys_inv_frame [OF assms(1)])
  fix xs assume "list_ok (lsm s) xs" "comp_inv s xs"
  then have c: "lsm_compacting (lsm s)" "Suc i < length (lsm_configs (lsm s))" "sizes_ok s xs (extra_at i sz)"
    using assms(2) by (simp_all add: comp_inv_def)
  have "sizes_ok (comp_size ign i sz s) xs (\<lambda>_. 0)"
    by (rule sizes_ok_change [OF c(3)]) (auto simp: comp_size_def extra_at_def nth_list_update)
  then show "comp_inv (comp_size ign i sz s) xs" using c(1) by (simp add: comp_inv_def comp_size_def)
qed (simp_all add: comp_size_def)

lemma sys_inv_comp:
  assumes "sys_inv u s"
  shows "sys_inv u (comp_step s)"
  using assms sys_inv_loop sys_inv_build sys_inv_swap sys_inv_size
  by (cases "comp_at s") (auto simp: comp_step_def)

section \<open>Construction\<close>

lemma Sentinel_list:
  assumes "path (lsm_nodes l) (Some 0) (0 # xs)" "\<forall>a \<in> set (0 # xs). a < lsm_fresh l" "nd_part (lsm_nodes l 0) = None"
  shows "path (lsm_nodes (Sentinel 0 k l)) (Some 0) (0 # lsm_fresh l # xs)"
    "\<forall>a \<in> set (0 # lsm_fresh l # xs). a < lsm_fresh (Sentinel 0 k l)"
    "sentinels (lsm_nodes (Sentinel 0 k l)) (0 # lsm_fresh l # xs) =
       nd_sentinel (lsm_nodes l 0) # k # tl (sentinels (lsm_nodes l) (0 # xs))"
    "nd_part (lsm_nodes (Sentinel 0 k l) 0) = None"
    "parts_of (lsm_nodes (Sentinel 0 k l)) (0 # lsm_fresh l # xs) = parts_of (lsm_nodes l) (0 # xs)"
    "nd_sentinel (lsm_nodes (Sentinel 0 k l) 0) = nd_sentinel (lsm_nodes l 0)"
proof -
  have f: "lsm_fresh l \<notin> set (0 # xs)" "0 \<noteq> lsm_fresh l" using assms(2) by auto
  have n: "0 \<notin> set xs" using path_distinct [OF assms(1)] by simp
  have lp: "link_path 0 (lsm_fresh l) (0 # xs) = 0 # lsm_fresh l # xs"
    using link_path_id [OF n, of "lsm_fresh l"] by (simp add: link_path_def)
  have h: "lsm_nodes (Sentinel 0 k l) = (lsm_nodes l)(lsm_fresh l := \<lparr>nd_next = nd_next (lsm_nodes l 0), nd_part = None,
      nd_sentinel = k\<rparr>, 0 := (lsm_nodes l 0)\<lparr>nd_next := Some (lsm_fresh l)\<rparr>)"
    by (simp add: Sentinel_def prepend_def Let_def)
  show "path (lsm_nodes (Sentinel 0 k l)) (Some 0) (0 # lsm_fresh l # xs)"
    unfolding lp [symmetric] h using assms(1) f by (intro path_link) auto
  have sn: "same_nodes (lsm_nodes l) (lsm_nodes (Sentinel 0 k l)) xs"
    unfolding h using f by (intro same_nodes_link) simp
  show "sentinels (lsm_nodes (Sentinel 0 k l)) (0 # lsm_fresh l # xs) =
       nd_sentinel (lsm_nodes l 0) # k # tl (sentinels (lsm_nodes l) (0 # xs))"
    "parts_of (lsm_nodes (Sentinel 0 k l)) (0 # lsm_fresh l # xs) = parts_of (lsm_nodes l) (0 # xs)"
    using same_nodes_sentinels [OF sn] same_nodes_parts [OF sn] f assms(3) by (simp_all add: h)
  show "\<forall>a \<in> set (0 # lsm_fresh l # xs). a < lsm_fresh (Sentinel 0 k l)"
    using assms(2) by (auto simp: Sentinel_def prepend_def Let_def less_Suc_eq)
  show "nd_part (lsm_nodes (Sentinel 0 k l) 0) = None" "nd_sentinel (lsm_nodes (Sentinel 0 k l) 0) = nd_sentinel (lsm_nodes l 0)"
    using assms(3) by (simp_all add: h)
qed

definition empty_lsm :: "'r LevelConfig list \<Rightarrow> 'r LSM" where
  "empty_lsm levels = \<lparr>lsm_nodes = (\<lambda>_. \<lparr>nd_next = None, nd_part = None, nd_sentinel = 0\<rparr>), lsm_fresh = 1,
     lsm_levels = 0, lsm_sizes = replicate (length levels) 0, lsm_configs = levels, lsm_compacting = False\<rparr>"

lemma Sentinel_frame [simp]:
  "lsm_levels (Sentinel n k l) = lsm_levels l" "lsm_configs (Sentinel n k l) = lsm_configs l"
  "lsm_sizes (Sentinel n k l) = lsm_sizes l" "lsm_compacting (Sentinel n k l) = lsm_compacting l"
  by (simp_all add: Sentinel_def prepend_def Let_def)

lemma foldl_Sentinel_frame [simp]:
  "lsm_levels (foldl (\<lambda>l i. Sentinel 0 (f i) l) l is) = lsm_levels l"
  "lsm_configs (foldl (\<lambda>l i. Sentinel 0 (f i) l) l is) = lsm_configs l"
  "lsm_sizes (foldl (\<lambda>l i. Sentinel 0 (f i) l) l is) = lsm_sizes l"
  "lsm_compacting (foldl (\<lambda>l i. Sentinel 0 (f i) l) l is) = lsm_compacting l"
  by (induction "is" arbitrary: l) simp_all

lemma foldl_Sentinel:
  assumes "\<And>i. i < n \<Longrightarrow> f i = i" "Suc k \<le> n"
  shows "\<exists>xs. let l = foldl (\<lambda>l i. Sentinel 0 (f i) l) (empty_lsm cfgs) (rev [Suc k..<n]) in
     path (lsm_nodes l) (Some 0) (0 # xs) \<and> (\<forall>a \<in> set (0 # xs). a < lsm_fresh l) \<and> nd_part (lsm_nodes l 0) = None \<and>
     nd_sentinel (lsm_nodes l 0) = 0 \<and> sentinels (lsm_nodes l) (0 # xs) = 0 # [Suc k..<n] \<and> parts_of (lsm_nodes l) (0 # xs) = []"
  using assms(2)
proof (induction "n - Suc k" arbitrary: k)
  case 0
  then have "[Suc k..<n] = []" by simp
  then show ?case unfolding Let_def empty_lsm_def by (intro exI [of _ "[]"]) (simp del: upt_eq_Nil_conv)
next
  case (Suc d)
  let ?l = "foldl (\<lambda>l i. Sentinel 0 (f i) l) (empty_lsm cfgs) (rev [Suc (Suc k)..<n])"
  have lt: "Suc k < n" using Suc.hyps(2) by simp
  have u: "[Suc k..<n] = Suc k # [Suc (Suc k)..<n]" using lt by (rule upt_conv_Cons)
  obtain xs where x: "path (lsm_nodes ?l) (Some 0) (0 # xs)" "\<forall>a \<in> set (0 # xs). a < lsm_fresh ?l"
    "nd_part (lsm_nodes ?l 0) = None" "nd_sentinel (lsm_nodes ?l 0) = 0"
    "sentinels (lsm_nodes ?l) (0 # xs) = 0 # [Suc (Suc k)..<n]" "parts_of (lsm_nodes ?l) (0 # xs) = []"
  proof -
    have "d = n - Suc (Suc k)" "Suc (Suc k) \<le> n" using Suc.hyps(2) lt by simp_all
    then show thesis using Suc.hyps(1) [of "Suc k"] that unfolding Let_def by blast
  qed
  note S = Sentinel_list [OF x(1-3), of "f (Suc k)"]
  have l: "foldl (\<lambda>l i. Sentinel 0 (f i) l) (empty_lsm cfgs) (rev [Suc k..<n]) = Sentinel 0 (f (Suc k)) ?l"
    by (simp add: u)
  have "sentinels (lsm_nodes (Sentinel 0 (f (Suc k)) ?l)) (0 # lsm_fresh ?l # xs) = 0 # [Suc k..<n]"
    unfolding S(3) x(4,5) u using assms(1) [OF lt] by simp
  then show ?case
    unfolding l Let_def using S(1,2,4) S(6) [unfolded x(4)] S(5) [unfolded x(6)] by blast
qed

lemma validate_from_iff:
  "validate_from n i ls = None \<longleftrightarrow>
     list_all (\<lambda>j. lc_Level (ls ! j) = i + j \<and> (lc_Compact (ls ! j) = None) = (i + j + 1 = n)) [0..<length ls]"
proof (induction n i ls rule: validate_from.induct)
  case (2 n i l ls)
  have "list_all P [0..<Suc m] \<longleftrightarrow> P 0 \<and> list_all (\<lambda>j. P (Suc j)) [0..<m]" for P m
    by (auto simp: list_all_iff less_Suc_eq_0_disj simp del: upt_Suc)
  then show ?case using 2 by (auto simp del: upt_Suc)
qed simp

lemma NewLSM_levels:
  "NewLSM cfgs = (case validateLevels cfgs of Some e \<Rightarrow> Inl e
     | None \<Rightarrow> Inr (foldl (\<lambda>l i. Sentinel 0 (lc_Level (cfgs ! i)) l) (empty_lsm cfgs) (rev [1..<length cfgs])))"
  unfolding NewLSM_def empty_lsm_def by (rule refl)

lemma NewLSM_list:
  assumes "NewLSM cfgs = Inr l" "configs_ok cfgs"
  obtains xs where "list_ok l xs" "parts_of (lsm_nodes l) xs = []" "lsm_sizes l = replicate (length cfgs) 0"
    "\<not> lsm_compacting l" "lsm_configs l = cfgs"
proof -
  have v: "validateLevels cfgs = None" using assms(1) by (simp add: NewLSM_def split: option.splits)
  then have lv: "\<And>i. i < length cfgs \<Longrightarrow> lc_Level (cfgs ! i) = i"
    by (auto simp: validateLevels_def validate_from_iff list_all_iff)
  have l: "l = foldl (\<lambda>l i. Sentinel 0 (lc_Level (cfgs ! i)) l) (empty_lsm cfgs) (rev [Suc 0..<length cfgs])"
    using assms(1) v by (simp add: NewLSM_levels)
  have n: "Suc 0 \<le> length cfgs" using assms(2) by (cases cfgs) (auto simp: configs_ok_def)
  obtain xs where x: "path (lsm_nodes l) (Some 0) (0 # xs)" "\<forall>a \<in> set (0 # xs). a < lsm_fresh l"
    "nd_part (lsm_nodes l 0) = None" "sentinels (lsm_nodes l) (0 # xs) = 0 # [Suc 0..<length cfgs]"
    "parts_of (lsm_nodes l) (0 # xs) = []"
    using foldl_Sentinel [of "length cfgs" "\<lambda>i. lc_Level (cfgs ! i)" 0 cfgs] lv n unfolding l [symmetric] Let_def by auto
  have "0 # [Suc 0..<length cfgs] = [0..<length cfgs]" using n by (intro upt_conv_Cons [symmetric]) auto
  then have "list_ok l (0 # xs)"
    using x assms(2) unfolding list_ok_def by (simp add: l) (simp add: empty_lsm_def)
  then show thesis using x(5) by (intro that [of "0 # xs"]) (simp_all add: l empty_lsm_def)
qed

lemma sys_inv_init:
  assumes "NewLSM cfgs = Inr l" "configs_ok cfgs"
  shows "sys_inv u (lsm_init l)"
proof -
  obtain xs where x: "list_ok l xs" "parts_of (lsm_nodes l) xs = []" "lsm_sizes l = replicate (length cfgs) 0"
    "\<not> lsm_compacting l" "lsm_configs l = cfgs" by (rule NewLSM_list [OF assms])
  have "map snd (tagged 0 (lsm_nodes l) xs) = []" unfolding tagged_parts x(2) ..
  then have "tagged 0 (lsm_nodes l) xs = []" by simp
  then have "comp_inv (lsm_init l) xs" using x by (simp add: comp_inv_def sizes_ok_def lsm_init_def)
  moreover have "reader_inv u (lsm_init l)"
    unfolding reader_inv_def by (rule exI [of _ "[]"]) (simp add: lsm_init_def)
  ultimately show ?thesis unfolding sys_inv_def using x by (auto simp: lsm_init_def)
qed

theorem lsm_reachable_inv:
  assumes "lsm_reachable m cfgs s" "filter_sound m u"
  shows "sys_inv u s"
  using assms(1)
proof (induction rule: lsm_reachable.induct)
  case (step s s')
  from step.hyps(2) show ?case
    by (cases rule: lsm_step.cases)
       (use step.IH in \<open>auto intro: sys_inv_link sys_inv_account sys_inv_ensure sys_inv_comp sys_inv_start sys_inv_scan [OF assms(2)]\<close>)
qed (rule sys_inv_init)

lemma lsm_reachable_configs: "lsm_reachable m cfgs s \<Longrightarrow> lsm_configs (lsm s) = cfgs"
proof (induction rule: lsm_reachable.induct)
  case (init l)
  then show ?case using NewLSM_list [OF init] by (metis lsm_init_def lsm_sys.select_convs(1))
next
  case (step s s')
  have b: "merge_build i w nn l = Inr (l', a, sz) \<Longrightarrow> lsm_configs l' = lsm_configs l" for i w nn l l' a sz
  proof -
    have "lsm_configs (fst (alloc_parts ps q l)) = lsm_configs l" for ps q
      by (induction ps) (auto simp: Let_def split: prod.splits)
    then show "merge_build i w nn l = Inr (l', a, sz) \<Longrightarrow> lsm_configs l' = lsm_configs l"
      by (auto simp: merge_build_def alloc_sentinel_def Let_def split: option.splits sum.splits list.splits prod.splits if_splits)
         (metis fst_conv)+
  qed
  from step.hyps(2) have "lsm_configs (lsm s') = lsm_configs (lsm s)"
    by (cases rule: lsm_step.cases)
       (auto simp: sys_link_def Add_link_simps sys_account_def Add_size_def Let_def sys_ensure_def scan_start_def scan_step_def
         comp_step_def comp_loop_def comp_stop_def comp_fail_def comp_build_def comp_swap_def merge_swap_def comp_size_def
         dest: b split: comp_pc.splits sum.splits option.splits prod.splits)
  then show ?case using step.IH by simp
qed

section \<open>What the index promises\<close>

text \<open>C2: Scans miss nothing. While writers add parts and a compaction rewrites the list, a scan that
  has run to its end has delivered every wanted row that was visible to its transaction
  when it started, and no row more often than it was inserted, for every sound filter
  on row groups and every interleaving of the atomic steps.\<close>

theorem lsm_scan_complete:
  assumes "lsm_reachable m cfgs s" "filter_sound m u" "rd_cur s = None"
  shows "filter_mset u (rd_start s) \<subseteq># mset (concat (rd_out s)) \<and> mset (concat (rd_out s)) \<subseteq># inserted s"
proof -
  obtain zs where "path (lsm_nodes (lsm s)) (rd_cur s) zs"
    "filter_mset u (rd_start s) \<subseteq>#
      filter_mset u (mset (concat (rd_out s)) + visible (rd_tx s) (parts_of (lsm_nodes (lsm s)) zs))"
    "mset (concat (rd_out s)) + rows_of (parts_of (lsm_nodes (lsm s)) zs) \<subseteq># inserted s"
    using lsm_reachable_inv [OF assms(1,2)] unfolding sys_inv_def reader_inv_def by blast
  moreover from this(1) have "zs = []" using assms(3) by (cases zs) auto
  ultimately show ?thesis by (auto intro: subset_mset.order_trans)
qed

text \<open>C6: Compaction loses nothing. In every reachable state the parts in the list hold exactly the
  rows inserted, the sentinels of all levels are in the list in order, and the
  compaction has not run into a panic.\<close>

theorem lsm_rows_preserved:
  assumes "lsm_reachable m cfgs s"
  shows "rows_of (parts_of (lsm_nodes (lsm s)) (Iterate (lsm s))) = inserted s \<and>
    sentinels (lsm_nodes (lsm s)) (Iterate (lsm s)) = [0..<length cfgs] \<and> comp_at s \<noteq> C_Panic"
proof -
  have "filter_sound m (\<lambda>_. False)" by (simp add: filter_sound_def)
  from lsm_reachable_inv [OF assms this] obtain xs where
    x: "list_ok (lsm s) xs" "rows_of (parts_of (lsm_nodes (lsm s)) xs) = inserted s" "comp_inv s xs"
    unfolding sys_inv_def by blast
  then show ?thesis using list_ok_Iterate [OF x(1)] lsm_reachable_configs [OF assms]
    by (auto simp: list_ok_def comp_inv_def)
qed

text \<open>C26: Size accounting. When no insertion is half done and no compaction runs, the size recorded
  for every level is the sum of the sizes of the parts in that level of the list.\<close>

theorem lsm_level_sizes:
  assumes "lsm_reachable m cfgs s" "comp_at s = C_Idle" "unaccounted s = []" "i < length cfgs"
  shows "LevelSize (lsm s) i = level_size i (tagged 0 (lsm_nodes (lsm s)) (Iterate (lsm s)))"
proof -
  have "filter_sound m (\<lambda>_. False)" by (simp add: filter_sound_def)
  from lsm_reachable_inv [OF assms(1) this] obtain xs where x: "list_ok (lsm s) xs" "comp_inv s xs"
    unfolding sys_inv_def by blast
  then show ?thesis using list_ok_Iterate [OF x(1)] lsm_reachable_configs [OF assms(1)] assms(2-4)
    by (simp add: comp_inv_def sizes_ok_def LevelSize_def)
qed

text \<open>Validation. \<open>NewLSM\<close> succeeds exactly for levels numbered in order of which all but the last
  have a compaction function and the last has none.\<close>

theorem NewLSM_valid:
  "(\<exists>l. NewLSM cfgs = Inr l) =
     list_all (\<lambda>i. lc_Level (cfgs ! i) = i \<and> (lc_Compact (cfgs ! i) = None) = (i + 1 = length cfgs)) [0..<length cfgs]"
proof -
  have "(\<exists>l. NewLSM cfgs = Inr l) \<longleftrightarrow> validateLevels cfgs = None"
    by (cases "validateLevels cfgs") (simp_all add: NewLSM_def)
  then show ?thesis by (simp add: validateLevels_def validate_from_iff)
qed

end
