(* ===== verification/Table_Compaction.thy ===== *)
theory Table_Compaction
  imports LSM_Inv
begin

text \<open>
  How a table compacts parts (\<open>table.go\<close>): the row group writer, the choice between merging,
  concatenating and writing records directly, the compaction functions given to the
  index, and the file that on-disk levels share. Reading and writing Parquet, sorting
  row groups and the distinct operator are parameters.
\<close>

section \<open>Writing row groups\<close>

text \<open>
  \<open>parquetRowWriter\<close> with what it has written: the flushed row groups and the rows of the
  current one. The buffer matters only by its length.
\<close>

record 'r parquetRowWriter =
  rw_rowGroupSize :: nat
  rw_maxNumRows :: nat
  rw_rowsBuf :: nat
  rw_rowGroupRowsWritten :: nat
  rw_totalRowsWritten :: nat
  rw_groups :: "'r list list"
  rw_current :: "'r list"

definition rowWriter :: "nat \<Rightarrow> 'r parquetRowWriter" where
  "rowWriter rowGroupSize =
     \<lparr>rw_rowGroupSize = rowGroupSize, rw_maxNumRows = 0,
      rw_rowsBuf = (if rowGroupSize > 0 then rowGroupSize else 256),
      rw_rowGroupRowsWritten = 0, rw_totalRowsWritten = 0, rw_groups = [], rw_current = []\<rparr>"

text \<open>The two adjustments of the buffer at the head of the loop.\<close>

definition shrink_buf :: "'r parquetRowWriter \<Rightarrow> 'r parquetRowWriter" where
  "shrink_buf p =
     (let p = (if 0 < rw_rowGroupSize p \<and> rw_rowGroupSize p < rw_rowGroupRowsWritten p + rw_rowsBuf p
               then p\<lparr>rw_rowsBuf := rw_rowGroupSize p - rw_rowGroupRowsWritten p\<rparr> else p)
      in if rw_maxNumRows p \<noteq> 0 \<and> rw_maxNumRows p < rw_totalRowsWritten p + rw_rowsBuf p
         then p\<lparr>rw_rowsBuf := rw_maxNumRows p - rw_totalRowsWritten p\<rparr> else p)"

definition write_batch :: "'r list \<Rightarrow> 'r parquetRowWriter \<Rightarrow> 'r parquetRowWriter" where
  "write_batch rows p =
     (let n = length rows;
          p = p\<lparr>rw_current := rw_current p @ rows, rw_rowGroupRowsWritten := rw_rowGroupRowsWritten p + n,
                rw_totalRowsWritten := rw_totalRowsWritten p + n\<rparr>
      in if 0 < rw_rowGroupSize p \<and> rw_rowGroupSize p \<le> rw_rowGroupRowsWritten p
         then p\<lparr>rw_groups := rw_groups p @ [rw_current p], rw_current := [], rw_rowGroupRowsWritten := 0\<rparr>
         else p)"

text \<open>
  The loop of \<open>writeRows\<close>. The reader decides how many rows it returns for a buffer:
  \<open>rd n rows\<close> of the remaining ones.
\<close>

function writeRows :: "(nat \<Rightarrow> 'r list \<Rightarrow> nat) \<Rightarrow> 'r list \<Rightarrow> 'r parquetRowWriter \<Rightarrow> 'r parquetRowWriter" where
  "writeRows rd rows p =
     (if \<not> (rw_maxNumRows p = 0 \<or> rw_totalRowsWritten p < rw_maxNumRows p) then p
      else let p' = shrink_buf p; n = min (rd (rw_rowsBuf p') rows) (rw_rowsBuf p')
           in if n = 0 \<or> rows = [] then p'
              else writeRows rd (drop n rows) (write_batch (take n rows) p'))"
  by pat_completeness auto
termination
  by (relation "measure (\<lambda>(rd, rows, p). length rows)") auto

declare writeRows.simps [simp del]

text \<open>Closing the writer flushes the rows of an unfinished row group.\<close>

definition close_writer :: "'r parquetRowWriter \<Rightarrow> 'r list list" where
  "close_writer p = rw_groups p @ (if rw_current p = [] then [] else [rw_current p])"

section \<open>Compacting parts\<close>

text \<open>
  What compaction uses of other components: the row order, the distinct operator on
  records, writing records to a Parquet file (sorting them on demand), serializing a
  record, merging row groups in order, deduplicating a sorted reader, the reader, and
  the size of a file.
\<close>

record 'r table_env =
  te_cmp :: "'r \<Rightarrow> 'r \<Rightarrow> int"
  te_unique :: bool
  te_rowGroupSize :: nat
  te_distinct :: "'r list list \<Rightarrow> (string, 'r list list) result"
  te_RecordsToFile :: "bool \<Rightarrow> 'r list list \<Rightarrow> (string, 'r list list) result"
  te_SerializeRecord :: "'r list \<Rightarrow> (string, 'r list list \<times> int) result"
  te_MergeRowGroups :: "bool \<Rightarrow> 'r list list \<Rightarrow> (string, 'r list) result"
  te_Dedupe :: "'r list \<Rightarrow> 'r list"
  te_ReadRows :: "nat \<Rightarrow> 'r list \<Rightarrow> nat"
  te_FileSize :: "'r list list \<Rightarrow> int"

text \<open>\<open>distinctRecordsForCompaction\<close>: \<open>None\<close> as soon as a part is not an Arrow part.\<close>

definition distinctRecordsForCompaction :: "'r table_env \<Rightarrow> 'r Part list \<Rightarrow> (string, 'r list list option) result" where
  "distinctRecordsForCompaction E compact =
     (if list_ex (\<lambda>p. Record p = None) compact then Inr None
      else bind_result (te_distinct E (List.map_filter Record compact)) (\<lambda>rs. Inr (Some rs)))"

text \<open>The rows of all row groups of a buffer (\<open>MultiDynamicRowGroup\<close>).\<close>

definition buffer_rows :: "'r table_env \<Rightarrow> 'r Part \<Rightarrow> (string, 'r list) result" where
  "buffer_rows E p = bind_result (AsSerializedBuffer (te_SerializeRecord E) p) (\<lambda>(groups, _). Inr (concat groups))"

text \<open>
  \<open>buffersForCompaction\<close>: the row groups to merge, or (as \<open>Inl\<close>) the row groups it has
  written directly.
\<close>

definition buffersForCompaction ::
  "'r table_env \<Rightarrow> 'r Part list \<Rightarrow> (string, 'r list list + 'r list list) result" where
  "buffersForCompaction E inputParts =
     bind_result (FindMaximumNonOverlappingSet (te_cmp E) inputParts) (\<lambda>(nonOverlapping, overlapping).
     bind_result (map_result (buffer_rows E) overlapping) (\<lambda>result.
       if nonOverlapping = [] then Inr (Inr result)
       else if length nonOverlapping = 1 \<or> list_ex (\<lambda>p. Record p = None) nonOverlapping then
         bind_result (map_result (buffer_rows E) nonOverlapping) (\<lambda>groups.
           bind_result (if length groups > 1 then te_MergeRowGroups E True groups else Inr (hd groups))
             (\<lambda>merged. Inr (Inr (result @ [merged]))))
       else
         bind_result (te_RecordsToFile E False (List.map_filter Record nonOverlapping)) (\<lambda>groups.
           if overlapping = [] then Inr (Inl groups)
           else Inr (Inr (result @ [concat groups])))))"

text \<open>\<open>MergeDynamicRowGroups\<close> returns a single row group as it is.\<close>

definition merge_groups :: "'r table_env \<Rightarrow> 'r list list \<Rightarrow> (string, 'r list) result" where
  "merge_groups E bufs = (case bufs of [b] \<Rightarrow> Inr b | _ \<Rightarrow> te_MergeRowGroups E False bufs)"

definition compactParts :: "'r table_env \<Rightarrow> 'r Part list \<Rightarrow> (string, 'r list list \<times> int) result" where
  "compactParts E compact =
     (let preCompactionSize = sum_list (map part_Size compact);
          normal = bind_result (buffersForCompaction E compact) (\<lambda>bufs.
            case bufs of
              Inl written \<Rightarrow> Inr (written, preCompactionSize)
            | Inr bufs \<Rightarrow>
                bind_result (merge_groups E bufs) (\<lambda>merged.
                  let rows = (if te_unique E then te_Dedupe E merged else merged)
                  in Inr (close_writer (writeRows (te_ReadRows E) rows (rowWriter (te_rowGroupSize E))),
                          preCompactionSize)))
      in if te_unique E then
           bind_result (distinctRecordsForCompaction E compact) (\<lambda>r. case r of
               Some records \<Rightarrow>
                 bind_result (te_RecordsToFile E True records) (\<lambda>groups. Inr (groups, preCompactionSize))
             | None \<Rightarrow> normal)
         else normal)"

definition parquetCompaction :: "'r table_env \<Rightarrow> 'r compact_fn" where
  "parquetCompaction E compact options =
     bind_result
       (if length compact > 1 then
          bind_result (compactParts E compact) (\<lambda>(groups, pre). Inr ((groups, te_FileSize E groups), pre))
        else if length compact = 1 then
          bind_result (AsSerializedBuffer (te_SerializeRecord E) (hd compact)) (\<lambda>buf.
            Inr (buf, part_Size (hd compact)))
        else Inr (([], 0), 0))
     (\<lambda>(buf, pre). Inr ([NewParquetPart 0 buf options], pre, snd buf))"

definition externalParquetCompaction :: "'r table_env \<Rightarrow> 'r Part list \<Rightarrow> (string, 'r list list \<times> int) result" where
  "externalParquetCompaction E compact = compactParts E compact"

section \<open>Level configuration\<close>

datatype CompactionType = CompactionTypeUnknown | CompactionTypeParquet | CompactionTypeParquetDisk

record IndexConfig =
  ic_Level :: nat
  ic_MaxSize :: int
  ic_Type :: CompactionType

text \<open>\<open>configureLSMLevels\<close>; \<open>None\<close> is the panic on an unknown type before the last level.\<close>

fun configure_from ::
  "'r compact_fn \<Rightarrow> (nat \<Rightarrow> 'r compact_fn) \<Rightarrow> nat \<Rightarrow> nat \<Rightarrow> IndexConfig list \<Rightarrow> 'r LevelConfig list option" where
  "configure_from pq disk n i [] = Some []"
| "configure_from pq disk n i (level # levels) =
     (case (case ic_Type level of
              CompactionTypeParquet \<Rightarrow> Some (Some pq)
            | CompactionTypeParquetDisk \<Rightarrow> Some (Some (disk (i + 1)))
            | CompactionTypeUnknown \<Rightarrow> if i + 1 \<noteq> n then None else Some None) of
        None \<Rightarrow> None
      | Some compact \<Rightarrow>
          map_option (\<lambda>cs. \<lparr>lc_Level = ic_Level level, lc_MaxSize = ic_MaxSize level, lc_Compact = compact\<rparr> # cs)
            (configure_from pq disk n (i + 1) levels))"

definition configureLSMLevels ::
  "'r compact_fn \<Rightarrow> (nat \<Rightarrow> 'r compact_fn) \<Rightarrow> IndexConfig list \<Rightarrow> 'r LevelConfig list option" where
  "configureLSMLevels pq disk levels = configure_from pq disk (length levels) 0 levels"

definition DefaultIndexConfig :: "IndexConfig list" where
  "DefaultIndexConfig =
     [\<lparr>ic_Level = 0, ic_MaxSize = 1024 * 1024 * 15, ic_Type = CompactionTypeParquet\<rparr>,
      \<lparr>ic_Level = 1, ic_MaxSize = 1024 * 1024 * 128, ic_Type = CompactionTypeParquet\<rparr>,
      \<lparr>ic_Level = 2, ic_MaxSize = 1024 * 1024 * 512, ic_Type = CompactionTypeUnknown\<rparr>]"

section \<open>The file of an on-disk level\<close>

text \<open>
  \<open>fileCompaction\<close>: the operating system's write position is kept beside the offset the
  code maintains. A write may fail after some bytes, and opening the written section
  may fail; a part is the section it reads.
\<close>

record fileCompaction =
  fc_offset :: nat
  fc_ref :: int
  fc_position :: nat

datatype write_result = Write_failed nat | Open_failed nat | Written nat

definition writeRecordsToParquetFile :: "write_result \<Rightarrow> fileCompaction \<Rightarrow> fileCompaction \<times> (nat \<times> nat) option" where
  "writeRecordsToParquetFile r f =
     (case r of
        Write_failed n \<Rightarrow> (f\<lparr>fc_position := fc_position f + n\<rparr>, None)
      | Open_failed n \<Rightarrow>
          (f\<lparr>fc_position := fc_position f + n, fc_offset := fc_offset f + n, fc_ref := fc_ref f + 1\<rparr>, None)
      | Written n \<Rightarrow>
          (f\<lparr>fc_position := fc_position f + n, fc_offset := fc_offset f + n, fc_ref := fc_ref f + 1\<rparr>,
           Some (fc_offset f, n)))"

definition release_file :: "fileCompaction \<Rightarrow> fileCompaction \<times> bool" where
  "release_file f =
     (let f = f\<lparr>fc_ref := fc_ref f - 1\<rparr>
      in if fc_ref f = 0 then (f\<lparr>fc_offset := 0, fc_position := 0\<rparr>, True) else (f, False))"

section \<open>Row groups are complete and bounded\<close>

definition reader_ok :: "(nat \<Rightarrow> 'r list \<Rightarrow> nat) \<Rightarrow> bool" where
  "reader_ok rd \<longleftrightarrow> (\<forall>n rows. 0 < n \<longrightarrow> rows \<noteq> [] \<longrightarrow> 0 < rd n rows)"

definition writer_inv :: "nat \<Rightarrow> 'r parquetRowWriter \<Rightarrow> bool" where
  "writer_inv g p \<longleftrightarrow> rw_rowGroupSize p = g \<and> rw_maxNumRows p = 0 \<and> 0 < rw_rowsBuf p \<and>
     (if g = 0 then rw_groups p = []
      else rw_rowGroupRowsWritten p = length (rw_current p) \<and> length (rw_current p) < g \<and>
           list_all (\<lambda>x. length x = g) (rw_groups p))"

lemma writer_inv_init: "writer_inv g (rowWriter g)"
  by (simp add: writer_inv_def rowWriter_def)

lemma rowWriter_empty [simp]: "rw_groups (rowWriter g) = []" "rw_current (rowWriter g) = []"
  by (simp_all add: rowWriter_def)

lemma shrink_buf_inv:
  assumes "writer_inv g p"
  shows "writer_inv g (shrink_buf p)" "0 < g \<longrightarrow> length (rw_current p) + rw_rowsBuf (shrink_buf p) \<le> g"
    "rw_groups (shrink_buf p) = rw_groups p" "rw_current (shrink_buf p) = rw_current p"
  using assms by (auto simp: writer_inv_def shrink_buf_def Let_def)

lemma write_batch_inv:
  assumes "writer_inv g p" "0 < g \<longrightarrow> length (rw_current p) + length rows \<le> g"
  shows "writer_inv g (write_batch rows p)"
    "concat (rw_groups (write_batch rows p)) @ rw_current (write_batch rows p) =
     concat (rw_groups p) @ rw_current p @ rows"
  using assms by (auto simp: writer_inv_def write_batch_def Let_def)

lemma writeRows_spec:
  assumes "reader_ok rd" "writer_inv g p"
  shows "writer_inv g (writeRows rd rows p) \<and>
    concat (rw_groups (writeRows rd rows p)) @ rw_current (writeRows rd rows p) =
      concat (rw_groups p) @ rw_current p @ rows"
  using assms(2)
proof (induction "length rows" arbitrary: rows p rule: less_induct)
  case less
  let ?p = "shrink_buf p"
  let ?n = "min (rd (rw_rowsBuf ?p) rows) (rw_rowsBuf ?p)"
  note sh = shrink_buf_inv [OF less.prems]
  have m: "rw_maxNumRows p = 0" using less.prems by (simp add: writer_inv_def)
  show ?case
  proof (cases "rows = []")
    case True
    then have "writeRows rd rows p = ?p" using m by (subst writeRows.simps) (simp add: Let_def)
    then show ?thesis using sh True by simp
  next
    case False
    have n: "0 < ?n" using False sh(1) assms(1) by (simp add: writer_inv_def reader_ok_def)
    then have w: "writeRows rd rows p = writeRows rd (drop ?n rows) (write_batch (take ?n rows) ?p)"
      using m False by (subst writeRows.simps) (simp add: Let_def min_def split: if_splits)
    have "0 < g \<longrightarrow> length (rw_current ?p) + length (take ?n rows) \<le> g" using sh(2,4) by auto
    note wb = write_batch_inv [OF sh(1) this]
    have "length (drop ?n rows) < length rows" using n False by auto
    note IH = less.hyps [OF this wb(1)]
    have "concat (rw_groups (write_batch (take ?n rows) ?p)) @ rw_current (write_batch (take ?n rows) ?p) @ drop ?n rows =
        concat (rw_groups p) @ rw_current p @ rows"
      using arg_cong [OF wb(2), of "\<lambda>x. x @ drop ?n rows"] sh(3,4) by simp
    then show ?thesis using IH unfolding w by simp
  qed
qed

text \<open>C27: Row groups. Whatever numbers of rows the reader returns, \<open>writeRows\<close> writes all rows in
  order, and with a row group size every row group but the last has exactly that many
  rows and none has more.\<close>

theorem writeRows_groups:
  assumes "reader_ok rd"
  shows "concat (close_writer (writeRows rd rows (rowWriter g))) = rows \<and>
    (g = 0 \<or> list_all (\<lambda>x. length x = g) (butlast (close_writer (writeRows rd rows (rowWriter g)))) \<and>
             list_all (\<lambda>x. length x \<le> g) (close_writer (writeRows rd rows (rowWriter g))))"
proof -
  let ?p = "writeRows rd rows (rowWriter g)"
  have s: "writer_inv g ?p" "concat (rw_groups ?p) @ rw_current ?p = rows"
    using writeRows_spec [OF assms writer_inv_init, of g rows] by simp_all
  then show ?thesis
    by (auto simp: close_writer_def writer_inv_def list_all_iff butlast_append dest: in_set_butlastD split: if_splits)
qed

lemma reader_ok_min: "reader_ok (\<lambda>n rows. min n (length rows))"
  by (simp add: reader_ok_def)

theorem writeRows_groups_witness:
  "concat (close_writer (writeRows (\<lambda>n rows. min n (length rows)) [1, 2, 3, 4, 5 :: int] (rowWriter 2))) = [1, 2, 3, 4, 5]"
  using writeRows_groups [OF reader_ok_min] by blast

section \<open>Compaction keeps the rows\<close>

text \<open>
  What compaction relies on: writing, serializing and merging keep the rows, and a reader
  returns rows while there are some.
\<close>

definition env_ok :: "'r table_env \<Rightarrow> bool" where
  "env_ok E \<longleftrightarrow> reader_ok (te_ReadRows E) \<and>
     (\<forall>b rs gs. te_RecordsToFile E b rs = Inr gs \<longrightarrow> mset (concat gs) = mset (concat rs)) \<and>
     (\<forall>r gs sz. te_SerializeRecord E r = Inr (gs, sz) \<longrightarrow> mset (concat gs) = mset r) \<and>
     (\<forall>b gs m. te_MergeRowGroups E b gs = Inr m \<longrightarrow> mset m = mset (concat gs))"

lemma buffer_rows_mset:
  assumes "env_ok E" "buffer_rows E p = Inr rs"
  shows "mset rs = part_rows p"
  using assms by (cases p) (auto simp: buffer_rows_def env_ok_def)

lemma map_result_rows:
  assumes "env_ok E" "map_result (buffer_rows E) ps = Inr rss"
  shows "mset (concat rss) = rows_of ps \<and> length rss = length ps"
  using assms(2)
proof (induction ps arbitrary: rss)
  case (Cons p ps)
  then show ?case using buffer_rows_mset [OF assms(1)] by auto
qed simp

lemma records_rows: "\<not> list_ex (\<lambda>p. Record p = None) ps \<Longrightarrow> mset (concat (List.map_filter Record ps)) = rows_of ps"
proof (induction ps)
  case (Cons p ps)
  then show ?case by (cases p) (auto simp: map_filter_simps)
qed (simp add: map_filter_simps)

lemma buffersForCompaction_rows:
  assumes "env_ok E" "buffersForCompaction E ps = Inr r"
  shows "mset (concat (case r of Inl gs \<Rightarrow> gs | Inr gs \<Rightarrow> gs)) = rows_of ps"
proof -
  from assms(2) obtain non over result where
    f: "FindMaximumNonOverlappingSet (te_cmp E) ps = Inr (non, over)"
    and o: "map_result (buffer_rows E) over = Inr result"
    and r: "(if non = [] then Inr (Inr result)
       else if length non = 1 \<or> list_ex (\<lambda>p. Record p = None) non then
         bind_result (map_result (buffer_rows E) non) (\<lambda>groups.
           bind_result (if length groups > 1 then te_MergeRowGroups E True groups else Inr (hd groups))
             (\<lambda>merged. Inr (Inr (result @ [merged]))))
       else
         bind_result (te_RecordsToFile E False (List.map_filter Record non)) (\<lambda>groups.
           if over = [] then Inr (Inl groups) else Inr (Inr (result @ [concat groups])))) = Inr r"
    unfolding buffersForCompaction_def by auto
  have m: "rows_of ps = rows_of non + rows_of over"
    using FindMaximumNonOverlappingSet_mset [OF f] by (metis image_mset_union rows_of_mset sum_mset.union)
  note ro = map_result_rows [OF assms(1) o]
  consider "non = []" | "non \<noteq> []" "length non = 1 \<or> list_ex (\<lambda>p. Record p = None) non"
    | "non \<noteq> []" "\<not> (length non = 1 \<or> list_ex (\<lambda>p. Record p = None) non)" by blast
  then show ?thesis
  proof cases
    case 1
    then show ?thesis using r ro m by auto
  next
    case 2
    then obtain groups merged where g: "map_result (buffer_rows E) non = Inr groups"
      "(if length groups > 1 then te_MergeRowGroups E True groups else Inr (hd groups)) = Inr merged"
      "r = Inr (result @ [merged])" using r by (auto split: if_splits)
    note rn = map_result_rows [OF assms(1) g(1)]
    have "mset merged = mset (concat groups)"
    proof (cases "length groups > 1")
      case True
      then show ?thesis using g(2) assms(1) by (auto simp: env_ok_def)
    next
      case False
      then have "length groups = 1" using rn 2(1) by (metis One_nat_def length_0_conv less_one linorder_neqE_nat)
      then obtain x where "groups = [x]" by (cases groups) auto
      then show ?thesis using g(2) by simp
    qed
    then show ?thesis using g(3) ro rn m by (simp add: add.commute)
  next
    case 3
    then obtain groups where g: "te_RecordsToFile E False (List.map_filter Record non) = Inr groups"
      "r = (if over = [] then Inl groups else Inr (result @ [concat groups]))" using r by (auto split: if_splits)
    have "mset (concat groups) = rows_of non"
      using g(1) assms(1) records_rows [of non] 3(2) by (auto simp: env_ok_def)
    then show ?thesis using g(2) ro m by (auto simp: add.commute)
  qed
qed

lemma compactParts_rows:
  assumes "env_ok E" "\<not> te_unique E" "compactParts E ps = Inr (gs, pre)"
  shows "mset (concat gs) = rows_of ps" "pre = sum_list (map part_Size ps)"
proof -
  from assms(2,3) obtain r where r: "buffersForCompaction E ps = Inr r" unfolding compactParts_def Let_def by auto
  note rows = buffersForCompaction_rows [OF assms(1) r]
  have "mset (concat gs) = rows_of ps \<and> pre = sum_list (map part_Size ps)"
  proof (cases r)
    case (Inl w)
    then show ?thesis using assms(2,3) r rows by (simp add: compactParts_def)
  next
    case (Inr bufs)
    then obtain merged where m: "merge_groups E bufs = Inr merged"
      "gs = close_writer (writeRows (te_ReadRows E) merged (rowWriter (te_rowGroupSize E)))"
      "pre = sum_list (map part_Size ps)"
      using assms(2,3) r by (auto simp: compactParts_def Let_def)
    have "mset merged = mset (concat bufs)"
      using m(1) assms(1) by (auto simp: merge_groups_def env_ok_def split: list.splits)
    moreover have "concat gs = merged"
    proof -
      have "reader_ok (te_ReadRows E)" using assms(1) by (simp add: env_ok_def)
      from writeRows_spec [OF this writer_inv_init, of "te_rowGroupSize E" merged] show ?thesis
        unfolding m(2) close_writer_def by auto
    qed
    ultimately show ?thesis using m(3) rows Inr by simp
  qed
  then show "mset (concat gs) = rows_of ps" "pre = sum_list (map part_Size ps)" by blast+
qed

lemma new_parquet_part:
  "rows_of [NewParquetPart tx buf opts] = mset (concat (fst buf))" "part_Size (NewParquetPart tx buf opts) = snd buf"
  "TX (NewParquetPart tx buf [WithCompactionLevel k]) = tx"
  by (simp_all add: NewParquetPart_def TX_def apply_options_def WithCompactionLevel_def)

lemma parquetCompaction_spec:
  assumes "env_ok E" "\<not> te_unique E" "ps \<noteq> []" "parquetCompaction E ps opts = Inr (cs, sz, csz)"
  shows "\<exists>buf. cs = [NewParquetPart 0 buf opts] \<and> csz = snd buf \<and> mset (concat (fst buf)) = rows_of ps \<and>
    sz = sum_list (map part_Size ps)"
proof (cases "length ps > 1")
  case True
  then obtain gs where g: "compactParts E ps = Inr (gs, sz)" "cs = [NewParquetPart 0 (gs, te_FileSize E gs) opts]"
    "csz = te_FileSize E gs" using assms(4) by (auto simp: parquetCompaction_def)
  then show ?thesis using compactParts_rows [OF assms(1,2) g(1)] by auto
next
  case False
  then obtain p where p: "ps = [p]" using assms(3) by (cases ps) auto
  then show ?thesis using assms(1,4) by (cases p) (auto simp: parquetCompaction_def env_ok_def)
qed

lemma parquetCompaction_compaction:
  assumes "env_ok E" "\<not> te_unique E"
  shows "compaction (parquetCompaction E)"
proof
  fix ps :: "'a Part list" and k cs sz csz
  assume "ps \<noteq> []" "parquetCompaction E ps [WithCompactionLevel k] = Inr (cs, sz, csz)"
  from parquetCompaction_spec [OF assms this] obtain buf where
    "cs = [NewParquetPart 0 buf [WithCompactionLevel k]]" "csz = snd buf" "mset (concat (fst buf)) = rows_of ps"
    "sz = sum_list (map part_Size ps)" by blast
  then show "rows_of cs = rows_of ps" "cs \<noteq> []" "\<forall>c \<in> set cs. TX c = 0"
    "sz = sum_list (map part_Size ps) \<and> csz = sum_list (map part_Size cs)"
    using new_parquet_part(1) [of 0 buf "[WithCompactionLevel k]"] by (simp_all add: new_parquet_part(2,3))
qed

text \<open>
  The functions in memory: records and row groups are written as they are, merging sorts
  by insertion, a reader fills its buffer, and the size of a file is its number of rows.
\<close>

fun insert_row :: "('r \<Rightarrow> 'r \<Rightarrow> int) \<Rightarrow> 'r \<Rightarrow> 'r list \<Rightarrow> 'r list" where
  "insert_row cmp x [] = [x]"
| "insert_row cmp x (y # ys) = (if cmp y x < 0 then y # insert_row cmp x ys else x # y # ys)"

definition sort_rows :: "('r \<Rightarrow> 'r \<Rightarrow> int) \<Rightarrow> 'r list \<Rightarrow> 'r list" where
  "sort_rows cmp rows = foldr (insert_row cmp) rows []"

lemma sort_rows_mset: "mset (sort_rows cmp rows) = mset rows"
proof -
  have "mset (insert_row cmp x ys) = add_mset x (mset ys)" for x ys by (induction ys) auto
  then show ?thesis by (induction rows) (simp_all add: sort_rows_def)
qed

definition memory_env :: "('r \<Rightarrow> 'r \<Rightarrow> int) \<Rightarrow> nat \<Rightarrow> 'r table_env" where
  "memory_env cmp g =
     \<lparr>te_cmp = cmp, te_unique = False, te_rowGroupSize = g, te_distinct = Inr,
      te_RecordsToFile = (\<lambda>sort rs. Inr [if sort then sort_rows cmp (concat rs) else concat rs]),
      te_SerializeRecord = (\<lambda>r. Inr ([r], int (length r))),
      te_MergeRowGroups = (\<lambda>already gs. Inr (if already then concat gs else sort_rows cmp (concat gs))),
      te_Dedupe = id, te_ReadRows = (\<lambda>n rows. min n (length rows)),
      te_FileSize = (\<lambda>gs. int (length (concat gs)))\<rparr>"

lemma memory_env_ok: "env_ok (memory_env cmp g)" "\<not> te_unique (memory_env cmp g)"
  by (auto simp: env_ok_def memory_env_def reader_ok_def sort_rows_mset)

interpretation memory: compaction "parquetCompaction (memory_env cmp g)" for cmp g
  by (rule parquetCompaction_compaction [OF memory_env_ok])




section \<open>The index on the table's compaction\<close>

definition sample_levels :: "int LevelConfig list" where
  "sample_levels = the (configureLSMLevels (parquetCompaction (memory_env (\<lambda>a b. a - b) 2))
     (\<lambda>_. parquetCompaction (memory_env (\<lambda>a b. a - b) 2))
     [\<lparr>ic_Level = 0, ic_MaxSize = 25, ic_Type = CompactionTypeParquet\<rparr>,
      \<lparr>ic_Level = 1, ic_MaxSize = 100, ic_Type = CompactionTypeUnknown\<rparr>])"

lemma sample_levels_eq: "sample_levels =
   [\<lparr>lc_Level = 0, lc_MaxSize = 25, lc_Compact = Some (parquetCompaction (memory_env (\<lambda>a b. a - b) 2))\<rparr>,
    \<lparr>lc_Level = 1, lc_MaxSize = 100, lc_Compact = None\<rparr>]"
  by (simp add: sample_levels_def configureLSMLevels_def)

lemma sample_levels_ok: "configs_ok sample_levels"
  by (simp add: configs_ok_def sample_levels_eq memory.compaction_axioms)

text \<open>Two insertions, the second of which starts a compaction that ends while a scan is under way.\<close>

fun run_ops :: "('a \<Rightarrow> 'a) list \<Rightarrow> 'a \<Rightarrow> 'a" where
  "run_ops [] s = s"
| "run_ops (f # fs) s = run_ops fs (f s)"

definition all_groups :: "int list \<Rightarrow> bool" where
  "all_groups g = True"

definition sample_ops :: "(int lsm_sys \<Rightarrow> int lsm_sys) list" where
  "sample_ops = [sys_link 1 [1, 7] 20, sys_account 20, sys_link 2 [3, 9] 30, scan_start 1, scan_step all_groups,
     sys_account 30, comp_step, comp_step, scan_step all_groups, comp_step, comp_step, comp_step,
     scan_step all_groups, scan_step all_groups]"

definition sample_index :: "int LSM" where
  "sample_index = (case NewLSM sample_levels of Inr l \<Rightarrow> l | Inl _ \<Rightarrow> undefined)"

lemma sample_index_new: "NewLSM sample_levels = Inr sample_index"
proof -
  have "validateLevels sample_levels = None" by (simp add: validateLevels_def sample_levels_eq)
  then show ?thesis by (simp add: sample_index_def NewLSM_def)
qed

definition sample_sys :: "int lsm_sys" where
  "sample_sys = run_ops sample_ops (lsm_init sample_index)"

lemma sample_reachable: "lsm_reachable all_groups sample_levels sample_sys"
proof -
  have st: "lsm_reachable all_groups sample_levels s \<Longrightarrow> lsm_step all_groups s s' \<Longrightarrow> lsm_reachable all_groups sample_levels s'"
    for s s' by (rule lsm_reachable.step)
  have r: "lsm_reachable all_groups sample_levels (lsm_init sample_index)"
    by (rule lsm_reachable.init [OF sample_index_new sample_levels_ok])
  have un: "sz \<in> set (unaccounted s) \<Longrightarrow> lsm_reachable all_groups sample_levels s \<Longrightarrow>
      lsm_reachable all_groups sample_levels (sys_account sz s)" for sz s
    by (blast intro: st lsm_step.account)
  note ops = st [OF _ lsm_step.link] un st [OF _ lsm_step.compact] st [OF _ lsm_step.start] st [OF _ lsm_step.scan]
  show ?thesis
    unfolding sample_sys_def sample_ops_def run_ops.simps
    by (intro ops r) (simp_all add: sys_link_def sys_account_def Add_size_def Let_def lsm_init_def scan_start_def
        scan_step_def split: option.split)
qed

theorem lsm_scan_complete_witness:
  "rd_start sample_sys = {#1, 7#} \<and> filter_mset (\<lambda>r. r < 5) (rd_start sample_sys) \<subseteq># mset (concat (rd_out sample_sys))"
proof -
  have "rd_cur sample_sys = None" "rd_start sample_sys = {#1, 7#}" by code_simp+
  moreover have "filter_sound all_groups (\<lambda>r. r < 5)" by (simp add: filter_sound_def all_groups_def)
  ultimately show ?thesis using lsm_scan_complete [OF sample_reachable] by blast
qed

theorem lsm_rows_preserved_witness:
  "rows_of (parts_of (lsm_nodes (lsm sample_sys)) (Iterate (lsm sample_sys))) = {#1, 7, 3, 9#}"
proof -
  have "inserted sample_sys = {#1, 7, 3, 9#}" by code_simp
  then show ?thesis using lsm_rows_preserved [OF sample_reachable] by simp
qed

theorem lsm_level_sizes_witness:
  "LevelSize (lsm sample_sys) 1 = 4 \<and>
   LevelSize (lsm sample_sys) 1 = level_size 1 (tagged 0 (lsm_nodes (lsm sample_sys)) (Iterate (lsm sample_sys)))"
proof -
  have "comp_at sample_sys = C_Idle" "unaccounted sample_sys = []" "1 < length sample_levels"
    "LevelSize (lsm sample_sys) 1 = 4" by code_simp+
  then show ?thesis using lsm_level_sizes [OF sample_reachable] by simp
qed

text \<open>
  Compacted parts carry transaction 0, so rows written by transaction 2 become visible to
  a scan at transaction 1 as soon as they are compacted: before the compaction the scan
  returns the rows 1 and 7, after it all four.
\<close>

lemma compaction_exposes_newer_rows:
  "Scan (\<lambda>_. Inr True) 1 (lsm (run_ops [sys_link 1 [1, 7] 20, sys_link 2 [3, 9] 30] (lsm_init sample_index))) =
     ([[1, 7]], None)"
  "Scan (\<lambda>_. Inr True) 1 (case EnsureCompaction
     (lsm (run_ops [sys_link 1 [1, 7] 20, sys_link 2 [3, 9] 30] (lsm_init sample_index))) of Inr l \<Rightarrow> l) =
     ([[1, 3], [7, 9]], None)"
  by code_simp+

section \<open>Sections of the level file\<close>

text \<open>The file with the sections of the parts that still refer to it; a release names one of them.\<close>

datatype file_op = F_Write write_result | F_Release nat

fun file_step :: "fileCompaction \<times> (nat \<times> nat) list \<Rightarrow> file_op \<Rightarrow> fileCompaction \<times> (nat \<times> nat) list" where
  "file_step (f, live) (F_Write r) =
     (let (f', sec) = writeRecordsToParquetFile r f in (f', live @ (case sec of None \<Rightarrow> [] | Some x \<Rightarrow> [x])))"
| "file_step (f, live) (F_Release k) =
     (if k < length live then (fst (release_file f), take k live @ drop (Suc k) live) else (f, live))"

definition empty_file :: fileCompaction where
  "empty_file = \<lparr>fc_offset = 0, fc_ref = 0, fc_position = 0\<rparr>"

definition disjoint_sections :: "(nat \<times> nat) list \<Rightarrow> bool" where
  "disjoint_sections = sorted_wrt (\<lambda>(o1, n1) (o2, n2). o1 + n1 \<le> o2)"

definition file_inv :: "fileCompaction \<times> (nat \<times> nat) list \<Rightarrow> bool" where
  "file_inv fl \<longleftrightarrow> fc_offset (fst fl) = fc_position (fst fl) \<and> fc_ref (fst fl) = int (length (snd fl)) \<and>
     disjoint_sections (snd fl) \<and> list_all (\<lambda>(o1, n1). o1 + n1 \<le> fc_position (fst fl)) (snd fl)"

lemma sorted_wrt_remove:
  assumes "sorted_wrt P xs"
  shows "sorted_wrt P (take k xs @ drop (Suc k) xs)"
proof -
  have "sorted_wrt P (take k xs @ drop k xs)" using assms by simp
  then have "\<forall>x \<in> set (take k xs). \<forall>y \<in> set (drop k xs). P x y" unfolding sorted_wrt_append by blast
  moreover have "set (drop (Suc k) xs) \<subseteq> set (drop k xs)" by (rule set_drop_subset_set_drop) simp
  ultimately show ?thesis
    using sorted_wrt_take [OF assms] sorted_wrt_drop [OF assms] by (auto simp: sorted_wrt_append)
qed

lemma disjoint_sections_drop: "disjoint_sections xs \<Longrightarrow> disjoint_sections (take k xs @ drop (Suc k) xs)"
  unfolding disjoint_sections_def by (rule sorted_wrt_remove)

lemma file_inv_step:
  assumes "file_inv fl" "\<And>n. op \<noteq> F_Write (Write_failed n)" "\<And>n. op \<noteq> F_Write (Open_failed n)"
  shows "file_inv (file_step fl op)"
proof (cases op)
  case (F_Write r)
  then obtain n where r: "r = Written n" using assms(2,3) by (cases r) auto
  then show ?thesis using assms(1) F_Write
    by (cases fl) (auto simp: file_inv_def writeRecordsToParquetFile_def disjoint_sections_def sorted_wrt_append list_all_iff)
next
  case (F_Release k)
  obtain f live where fl: "fl = (f, live)" by (cases fl)
  show ?thesis
  proof (cases "k < length live")
    case True
    let ?live = "take k live @ drop (Suc k) live"
    have len: "length ?live = length live - 1" using True by auto
    have "disjoint_sections ?live" using assms(1) True fl by (intro disjoint_sections_drop) (simp_all add: file_inv_def)
    moreover have "list_all (\<lambda>(o1, n1). o1 + n1 \<le> fc_position f) ?live"
      using assms(1) fl by (auto simp: file_inv_def list_all_iff dest: in_set_takeD in_set_dropD)
    moreover have "length live = 1 \<Longrightarrow> ?live = []" using len by (metis diff_self_eq_0 length_0_conv)
    ultimately show ?thesis using assms(1) True fl len F_Release
      by (auto simp: file_inv_def release_file_def Let_def)
  qed (use assms(1) F_Release fl in simp)
qed

text \<open>C28: The level file. As long as no write or open fails, after any sequence of compactions into the
  file and releases of parts the recorded offset is the write position, the sections of
  the parts still in use lie in the file and do not overlap, and the file is cut to
  zero only when no part refers to it.\<close>

theorem level_file_sections:
  assumes "list_all (\<lambda>op. case op of F_Write (Written _) \<Rightarrow> True | F_Release _ \<Rightarrow> True | _ \<Rightarrow> False) ops"
  shows "case foldl file_step (empty_file, []) ops of
    (f, live) \<Rightarrow> fc_offset f = fc_position f \<and> fc_ref f = int (length live) \<and> disjoint_sections live \<and>
      list_all (\<lambda>(o1, n1). o1 + n1 \<le> fc_position f) live"
proof -
  have "file_inv (foldl file_step fl ops)" if "file_inv fl" for fl
    using assms that
  proof (induction ops arbitrary: fl)
    case (Cons op ops)
    have "file_inv (file_step fl op)"
      by (rule file_inv_step [OF Cons.prems(2)]) (use Cons.prems(1) in \<open>auto split: file_op.splits write_result.splits\<close>)
    then show ?case using Cons by simp
  qed simp
  then have "file_inv (foldl file_step (empty_file, []) ops)"
    by (simp add: file_inv_def empty_file_def disjoint_sections_def)
  then show ?thesis by (auto simp: file_inv_def split: prod.splits)
qed

theorem level_file_sections_witness:
  "(case foldl file_step (empty_file, []) [F_Write (Written 5), F_Write (Written 7), F_Release 0] of
    (f, live) \<Rightarrow> fc_offset f = fc_position f \<and> fc_ref f = int (length live) \<and> disjoint_sections live \<and>
      list_all (\<lambda>(o1, n1). o1 + n1 \<le> fc_position f) live)"
  by (rule level_file_sections) simp

text \<open>
  After a write that fails half-way the operating system's position has moved and the
  recorded offset has not: the next part reads a section that is not its own.
\<close>

lemma failed_write_shifts_sections:
  "foldl file_step (empty_file, []) [F_Write (Write_failed 3), F_Write (Written 5)] =
     (\<lparr>fc_offset = 5, fc_ref = 1, fc_position = 8\<rparr>, [(0, 5)])"
  by code_simp

end
