(* ===== verification/Logical_Expr.thy ===== *)
theory Logical_Expr
  imports Frost_Prelude
begin

text \<open>
  The expressions of logical plans (\<open>query/logicalplan/expr.go\<close>): the operators, the
  expression types with their methods \<open>Clone\<close>, \<open>Accept\<close>, \<open>Name\<close>, \<open>ColumnsUsedExprs\<close>,
  \<open>MatchPath\<close>, \<open>MatchColumn\<close> and \<open>Computed\<close>, the constructors \<open>And\<close> and \<open>Or\<close>, and the
  two searches that the filters make with a visitor.

  A method that panics (the name of an unknown operator) is \<open>None\<close>. The text of an
  Arrow scalar and the matching of Go regular expressions are parameters: a regular
  expression is its source text.
\<close>

section \<open>Operators\<close>

datatype Op = OpUnknown | OpEq | OpNotEq | OpLt | OpLtEq | OpGt | OpGtEq
  | OpRegexMatch | OpRegexNotMatch | OpAnd | OpOr

fun Op_String :: "Op \<Rightarrow> string option" where
  "Op_String OpEq = Some ''==''"
| "Op_String OpNotEq = Some ''!=''"
| "Op_String OpLt = Some ''<''"
| "Op_String OpLtEq = Some ''<=''"
| "Op_String OpGt = Some ''>''"
| "Op_String OpGtEq = Some ''>=''"
| "Op_String OpRegexMatch = Some ''=~''"
| "Op_String OpRegexNotMatch = Some ''!~''"
| "Op_String OpAnd = Some ''&&''"
| "Op_String OpOr = Some ''||''"
| "Op_String OpUnknown = None"

datatype AggFunc = AggFuncUnknown | AggFuncSum | AggFuncMin | AggFuncMax | AggFuncCount | AggFuncAvg

fun AggFunc_String :: "AggFunc \<Rightarrow> string option" where
  "AggFunc_String AggFuncSum = Some ''sum''"
| "AggFunc_String AggFuncMin = Some ''min''"
| "AggFunc_String AggFuncMax = Some ''max''"
| "AggFunc_String AggFuncCount = Some ''count''"
| "AggFunc_String AggFuncAvg = Some ''avg''"
| "AggFunc_String AggFuncUnknown = None"

section \<open>Expressions\<close>

text \<open>
  The Arrow scalars that \<open>scalar.MakeScalar\<close> builds for a literal. All of them are valid
  but the null scalar. A \<open>float64\<close> is its bit pattern; the remaining types carry their text.
\<close>

datatype scalar = S_Null | S_Boolean bool | S_Int64 int | S_Float64 "64 word" | S_String string
  | S_Binary string | S_FixedSizeBinary string | S_Other string

datatype Expr =
    BinaryExpr Expr Op Expr
  | Column string
  | DynamicColumn string
  | LiteralExpr scalar
  | AggregationFunction AggFunc Expr
  | AliasExpr Expr string
  | DurationExpr int
  | AverageExpr Expr
  | RegexpColumnMatch bool string
  | AllExpr
  | NotExpr Expr

text \<open>\<open>Clone\<close>. The copy of a \<open>RegexpColumnMatch\<close> has the same pattern and a fresh \<open>inverse\<close> field.\<close>

primrec Clone :: "Expr \<Rightarrow> Expr" where
  "Clone (BinaryExpr l op r) = BinaryExpr (Clone l) op (Clone r)"
| "Clone (Column c) = Column c"
| "Clone (DynamicColumn c) = DynamicColumn c"
| "Clone (LiteralExpr v) = LiteralExpr v"
| "Clone (AggregationFunction f e) = AggregationFunction f (Clone e)"
| "Clone (AliasExpr e a) = AliasExpr (Clone e) a"
| "Clone (DurationExpr d) = DurationExpr d"
| "Clone (AverageExpr e) = AverageExpr (Clone e)"
| "Clone (RegexpColumnMatch notMatch match) = RegexpColumnMatch False match"
| "Clone AllExpr = AllExpr"
| "Clone (NotExpr e) = NotExpr e"

primrec Computed :: "Expr \<Rightarrow> bool" where
  "Computed (BinaryExpr l op r) = True"
| "Computed (Column c) = False"
| "Computed (DynamicColumn c) = False"
| "Computed (LiteralExpr v) = False"
| "Computed (AggregationFunction f e) = True"
| "Computed (AliasExpr e a) = Computed e"
| "Computed (DurationExpr d) = False"
| "Computed (AverageExpr e) = True"
| "Computed (RegexpColumnMatch notMatch match) = True"
| "Computed AllExpr = False"
| "Computed (NotExpr e) = False"

primrec Name :: "(scalar \<Rightarrow> string) \<Rightarrow> Expr \<Rightarrow> string option" where
  "Name str (BinaryExpr l op r) =
     (case (Name str l, Op_String op, Name str r) of
        (Some a, Some o', Some b) \<Rightarrow> Some (a @ '' '' @ o' @ '' '' @ b)
      | _ \<Rightarrow> None)"
| "Name str (Column c) = Some c"
| "Name str (DynamicColumn c) = Some c"
| "Name str (LiteralExpr v) = Some (str v)"
| "Name str (AggregationFunction f e) =
     (case (AggFunc_String f, Name str e) of
        (Some g, Some n) \<Rightarrow> Some (g @ ''('' @ n @ '')'')
      | _ \<Rightarrow> None)"
| "Name str (AliasExpr e a) = Some a"
| "Name str (DurationExpr d) = Some []"
| "Name str (AverageExpr e) = Name str e"
| "Name str (RegexpColumnMatch notMatch match) = Some match"
| "Name str AllExpr = Some ''all''"
| "Name str (NotExpr e) = map_option (\<lambda>n. ''not '' @ n) (Name str e)"

text \<open>The expressions whose columns must be read to evaluate the expression.\<close>

primrec ColumnsUsedExprs :: "Expr \<Rightarrow> Expr list" where
  "ColumnsUsedExprs (BinaryExpr l op r) = ColumnsUsedExprs l @ ColumnsUsedExprs r"
| "ColumnsUsedExprs (Column c) = [Column c]"
| "ColumnsUsedExprs (DynamicColumn c) = [DynamicColumn c]"
| "ColumnsUsedExprs (LiteralExpr v) = []"
| "ColumnsUsedExprs (AggregationFunction f e) = ColumnsUsedExprs e"
| "ColumnsUsedExprs (AliasExpr e a) = ColumnsUsedExprs e"
| "ColumnsUsedExprs (DurationExpr d) = [Column ''timestamp'']"
| "ColumnsUsedExprs (AverageExpr e) = ColumnsUsedExprs e"
| "ColumnsUsedExprs (RegexpColumnMatch notMatch match) = [RegexpColumnMatch notMatch match]"
| "ColumnsUsedExprs AllExpr = [AllExpr]"
| "ColumnsUsedExprs (NotExpr e) = [NotExpr e]"

primrec MatchColumn :: "(scalar \<Rightarrow> string) \<Rightarrow> (string \<Rightarrow> string \<Rightarrow> bool) \<Rightarrow> Expr \<Rightarrow> string \<Rightarrow> bool option" where
  "MatchColumn str rx (BinaryExpr l op r) columnName =
     map_option (\<lambda>n. n = columnName) (Name str (BinaryExpr l op r))"
| "MatchColumn str rx (Column c) columnName = Some (c = columnName)"
| "MatchColumn str rx (DynamicColumn c) columnName = Some (prefix (c @ ''.'') columnName)"
| "MatchColumn str rx (LiteralExpr v) columnName = Some (str v = columnName)"
| "MatchColumn str rx (AggregationFunction f e) columnName =
     map_option (\<lambda>n. n = columnName) (Name str (AggregationFunction f e))"
| "MatchColumn str rx (AliasExpr e a) columnName = Some (a = columnName)"
| "MatchColumn str rx (DurationExpr d) columnName = Some (columnName = ''timestamp'')"
| "MatchColumn str rx (AverageExpr e) columnName = MatchColumn str rx e columnName"
| "MatchColumn str rx (RegexpColumnMatch notMatch match) columnName = Some (rx match columnName \<noteq> notMatch)"
| "MatchColumn str rx AllExpr columnName = Some True"
| "MatchColumn str rx (NotExpr e) columnName = map_option Not (MatchColumn str rx e columnName)"

primrec MatchPath :: "(scalar \<Rightarrow> string) \<Rightarrow> (string \<Rightarrow> string \<Rightarrow> bool) \<Rightarrow> Expr \<Rightarrow> string \<Rightarrow> bool option" where
  "MatchPath str rx (BinaryExpr l op r) path = map_option (prefix path) (Name str (BinaryExpr l op r))"
| "MatchPath str rx (Column c) path = Some (prefix path c)"
| "MatchPath str rx (DynamicColumn c) path = Some (prefix path c)"
| "MatchPath str rx (LiteralExpr v) path = Some (prefix path (str v))"
| "MatchPath str rx (AggregationFunction f e) path =
     map_option (prefix path) (Name str (AggregationFunction f e))"
| "MatchPath str rx (AliasExpr e a) path = Some (prefix path a)"
| "MatchPath str rx (DurationExpr d) path = Some False"
| "MatchPath str rx (AverageExpr e) path = MatchPath str rx e path"
| "MatchPath str rx (RegexpColumnMatch notMatch match) path = Some (rx match path \<noteq> notMatch)"
| "MatchPath str rx AllExpr path = Some True"
| "MatchPath str rx (NotExpr e) path = map_option Not (MatchPath str rx e path)"

section \<open>Visitors\<close>

text \<open>A visitor has its own state, which its three methods read and change.\<close>

record 's Visitor =
  PreVisit :: "Expr \<Rightarrow> 's \<Rightarrow> bool \<times> 's"
  Visit :: "Expr \<Rightarrow> 's \<Rightarrow> bool \<times> 's"
  PostVisit :: "Expr \<Rightarrow> 's \<Rightarrow> bool \<times> 's"

text \<open>\<open>if !continu { return false }\<close> between two steps of a visit.\<close>

definition continu :: "bool \<times> 's \<Rightarrow> ('s \<Rightarrow> bool \<times> 's) \<Rightarrow> bool \<times> 's" where
  "continu r f = (if fst r then f (snd r) else (False, snd r))"

primrec Accept :: "'s Visitor \<Rightarrow> Expr \<Rightarrow> 's \<Rightarrow> bool \<times> 's" where
  "Accept v (BinaryExpr l op r) s =
     continu (PreVisit v (BinaryExpr l op r) s) (\<lambda>s.
     continu (Accept v l s) (\<lambda>s.
     continu (Visit v (BinaryExpr l op r) s) (\<lambda>s.
     continu (Accept v r s) (PostVisit v (BinaryExpr l op r)))))"
| "Accept v (Column c) s = continu (PreVisit v (Column c) s) (PostVisit v (Column c))"
| "Accept v (DynamicColumn c) s = continu (PreVisit v (DynamicColumn c) s) (PostVisit v (DynamicColumn c))"
| "Accept v (LiteralExpr x) s = continu (PreVisit v (LiteralExpr x) s) (PostVisit v (LiteralExpr x))"
| "Accept v (AggregationFunction f e) s =
     continu (PreVisit v (AggregationFunction f e) s) (\<lambda>s.
     continu (Accept v e s) (PostVisit v (AggregationFunction f e)))"
| "Accept v (AliasExpr e a) s =
     continu (PreVisit v (AliasExpr e a) s) (\<lambda>s. continu (Accept v e s) (PostVisit v (AliasExpr e a)))"
| "Accept v (DurationExpr d) s = continu (PreVisit v (DurationExpr d) s) (PostVisit v (DurationExpr d))"
| "Accept v (AverageExpr e) s = continu (PreVisit v (AverageExpr e) s) (PostVisit v (AverageExpr e))"
| "Accept v (RegexpColumnMatch i m) s =
     continu (PreVisit v (RegexpColumnMatch i m) s) (PostVisit v (RegexpColumnMatch i m))"
| "Accept v AllExpr s = continu (PreVisit v AllExpr s) (PostVisit v AllExpr)"
| "Accept v (NotExpr e) s = continu (PreVisit v (NotExpr e) s) (PostVisit v (NotExpr e))"

text \<open>
  The visitors of the filters are a \<open>PreExprVisitorFunc\<close>: only \<open>PreVisit\<close> does something,
  and \<open>Visit\<close> and \<open>PostVisit\<close> stop the walk. They look for the column on the left side of a
  comparison and for the literal on its right side.
\<close>

definition PreExprVisitorFunc :: "(Expr \<Rightarrow> 's \<Rightarrow> bool \<times> 's) \<Rightarrow> 's Visitor" where
  "PreExprVisitorFunc f = \<lparr>PreVisit = f, Visit = (\<lambda>_ s. (False, s)), PostVisit = (\<lambda>_ s. (False, s))\<rparr>"

fun see_column :: "Expr \<Rightarrow> string option \<Rightarrow> bool \<times> string option" where
  "see_column (Column c) s = (False, Some c)"
| "see_column _ s = (True, s)"

fun see_literal :: "Expr \<Rightarrow> scalar option \<Rightarrow> bool \<times> scalar option" where
  "see_literal (LiteralExpr v) s = (False, Some v)"
| "see_literal _ s = (True, s)"

definition left_column :: "Expr \<Rightarrow> string option" where
  "left_column e = snd (Accept (PreExprVisitorFunc see_column) e None)"

definition right_literal :: "Expr \<Rightarrow> scalar option" where
  "right_literal e = snd (Accept (PreExprVisitorFunc see_literal) e None)"

section \<open>Conjunctions and disjunctions\<close>

fun compute_nonNil :: "Expr list \<Rightarrow> Op \<Rightarrow> Expr option" where
  "compute_nonNil [] op = None"
| "compute_nonNil [e] op = Some e"
| "compute_nonNil [e, e'] op = Some (BinaryExpr e op e')"
| "compute_nonNil (e # es) op = map_option (BinaryExpr e op) (compute_nonNil es op)"

definition computeBinaryExpr :: "Expr option list \<Rightarrow> Op \<Rightarrow> Expr option" where
  "computeBinaryExpr exprs op = compute_nonNil (List.map_filter id exprs) op"

definition and_exprs :: "Expr option list \<Rightarrow> Expr option" where
  "and_exprs exprs = computeBinaryExpr exprs OpAnd"

definition or_exprs :: "Expr option list \<Rightarrow> Expr option" where
  "or_exprs exprs = computeBinaryExpr exprs OpOr"

section \<open>Properties\<close>

lemma continu_simps [simp]:
  "continu (True, s) f = f s"
  "continu (False, s) f = (False, s)"
  by (simp_all add: continu_def)

lemma Pre_only_stops: "\<not> fst (Accept (PreExprVisitorFunc f) e s)"
proof (induction e arbitrary: s)
  case (BinaryExpr l op r)
  then show ?case by (simp add: continu_def PreExprVisitorFunc_def)
qed (simp_all add: continu_def PreExprVisitorFunc_def)

lemma PreExprVisitorFunc_simps [simp]:
  "PreVisit (PreExprVisitorFunc f) = f"
  "Visit (PreExprVisitorFunc f) e s = (False, s)"
  "PostVisit (PreExprVisitorFunc f) e s = (False, s)"
  by (simp_all add: PreExprVisitorFunc_def)

lemma continu_Pre [simp]:
  "snd (continu (Accept (PreExprVisitorFunc f) e s) g) = snd (Accept (PreExprVisitorFunc f) e s)"
  by (simp add: continu_def Pre_only_stops)

text \<open>
  Both searches only walk down the left spine: into the left operand of a binary expression
  and into an alias or an aggregation function.
\<close>

lemma left_column_simps [simp]:
  "left_column (BinaryExpr l op r) = left_column l"
  "left_column (Column c) = Some c"
  "left_column (DynamicColumn c) = None"
  "left_column (LiteralExpr v) = None"
  "left_column (AggregationFunction f e) = left_column e"
  "left_column (AliasExpr e a) = left_column e"
  "left_column (DurationExpr d) = None"
  "left_column (AverageExpr e) = None"
  "left_column (RegexpColumnMatch i m) = None"
  "left_column AllExpr = None"
  "left_column (NotExpr e) = None"
  by (simp_all add: left_column_def)

lemma right_literal_simps [simp]:
  "right_literal (BinaryExpr l op r) = right_literal l"
  "right_literal (Column c) = None"
  "right_literal (DynamicColumn c) = None"
  "right_literal (LiteralExpr v) = Some v"
  "right_literal (AggregationFunction f e) = right_literal e"
  "right_literal (AliasExpr e a) = right_literal e"
  "right_literal (DurationExpr d) = None"
  "right_literal (AverageExpr e) = None"
  "right_literal (RegexpColumnMatch i m) = None"
  "right_literal AllExpr = None"
  "right_literal (NotExpr e) = None"
  by (simp_all add: right_literal_def)

lemma left_column_used: "left_column e = Some c \<Longrightarrow> Column c \<in> set (ColumnsUsedExprs e)"
  by (induction e) auto

text \<open>The expressions that \<open>Clone\<close> changes: an inverted column match outside a negation.\<close>

primrec has_inverse_match :: "Expr \<Rightarrow> bool" where
  "has_inverse_match (BinaryExpr l op r) \<longleftrightarrow> has_inverse_match l \<or> has_inverse_match r"
| "has_inverse_match (Column c) \<longleftrightarrow> False"
| "has_inverse_match (DynamicColumn c) \<longleftrightarrow> False"
| "has_inverse_match (LiteralExpr v) \<longleftrightarrow> False"
| "has_inverse_match (AggregationFunction f e) \<longleftrightarrow> has_inverse_match e"
| "has_inverse_match (AliasExpr e a) \<longleftrightarrow> has_inverse_match e"
| "has_inverse_match (DurationExpr d) \<longleftrightarrow> False"
| "has_inverse_match (AverageExpr e) \<longleftrightarrow> has_inverse_match e"
| "has_inverse_match (RegexpColumnMatch notMatch match) \<longleftrightarrow> notMatch"
| "has_inverse_match AllExpr \<longleftrightarrow> False"
| "has_inverse_match (NotExpr e) \<longleftrightarrow> False"

lemma Clone_deep_copy: "Clone e = e \<longleftrightarrow> \<not> has_inverse_match e"
  by (induction e) auto

text \<open>So the copy of an inverted match selects exactly the columns the original does not.\<close>

lemma Clone_inverts_match:
  "MatchColumn str rx (Clone (RegexpColumnMatch True match)) c =
     map_option Not (MatchColumn str rx (RegexpColumnMatch True match) c)"
  by simp

end
