(* ===== verification/Logical_Plan.thy ===== *)
theory Logical_Plan
  imports Logical_Expr Dyn_Schema
begin

text \<open>
  Logical plans (\<open>query/logicalplan/logicalplan.go\<close>), the builder that makes them
  (\<open>builder.go\<close>) and their validation (\<open>validate.go\<close>).

  A plan has one optional pointer per kind of step, of which a valid plan sets one. The
  table provider is a value of type \<open>'p\<close>; \<open>schema_of\<close> stands for asking it for a table and that
  table for its schema, \<open>None\<close> when the table does not exist.
\<close>

section \<open>Plans\<close>

record 'p scan =
  sc_TableProvider :: 'p
  sc_TableName :: string
  sc_PhysicalProjection :: "Expr list"
  sc_Filter :: "Expr option"
  sc_Distinct :: "Expr list"
  sc_Projection :: "Expr list"
  sc_SkipSources :: bool

record Aggregation =
  ag_AggExprs :: "Expr list"
  ag_GroupExprs :: "Expr list"

datatype 'p LogicalPlan =
  LogicalPlan (pl_Input: "'p LogicalPlan option") (pl_SchemaScan: "'p scan option") (pl_TableScan: "'p scan option")
    (pl_Filter: "Expr option") (pl_Distinct: "Expr list option") (pl_Projection: "Expr list option")
    (pl_Aggregation: "Aggregation option")

text \<open>\<open>TableReader\<close> and \<open>InputSchema\<close>: the scan at the bottom of the plan.\<close>

fun TableReader :: "'p LogicalPlan \<Rightarrow> ('p \<times> string) option" where
  "TableReader (LogicalPlan inp ss ts f d p a) =
     (case ts of
        Some t \<Rightarrow> Some (sc_TableProvider t, sc_TableName t)
      | None \<Rightarrow>
          (case ss of
             Some s \<Rightarrow> Some (sc_TableProvider s, sc_TableName s)
           | None \<Rightarrow> (case inp of Some i \<Rightarrow> TableReader i | None \<Rightarrow> None)))"

definition InputSchema :: "('p \<Rightarrow> string \<Rightarrow> Schema option) \<Rightarrow> 'p LogicalPlan \<Rightarrow> Schema option" where
  "InputSchema schema_of plan = (case TableReader plan of None \<Rightarrow> None | Some (p, n) \<Rightarrow> schema_of p n)"

section \<open>The builder\<close>

definition new_scan :: "'p \<Rightarrow> string \<Rightarrow> 'p scan" where
  "new_scan provider tableName =
     \<lparr>sc_TableProvider = provider, sc_TableName = tableName, sc_PhysicalProjection = [], sc_Filter = None,
      sc_Distinct = [], sc_Projection = [], sc_SkipSources = False\<rparr>"

type_synonym 'p Builder = "'p LogicalPlan option"

definition Builder_Scan :: "'p \<Rightarrow> string \<Rightarrow> 'p Builder" where
  "Builder_Scan provider tableName = Some (LogicalPlan None None (Some (new_scan provider tableName)) None None None None)"

definition ScanSchema :: "'p \<Rightarrow> string \<Rightarrow> 'p Builder" where
  "ScanSchema provider tableName = Some (LogicalPlan None (Some (new_scan provider tableName)) None None None None None)"

definition Builder_Project :: "'p Builder \<Rightarrow> Expr list \<Rightarrow> 'p Builder" where
  "Builder_Project b exprs = Some (LogicalPlan b None None None None (Some exprs) None)"

definition Builder_Filter :: "'p Builder \<Rightarrow> Expr option \<Rightarrow> 'p Builder" where
  "Builder_Filter b expr = (case expr of None \<Rightarrow> b | Some e \<Rightarrow> Some (LogicalPlan b None None (Some e) None None None))"

definition Builder_Distinct :: "'p Builder \<Rightarrow> Expr list \<Rightarrow> 'p Builder" where
  "Builder_Distinct b exprs = Some (LogicalPlan b None None None (Some exprs) None None)"

definition Builder_Aggregate :: "'p Builder \<Rightarrow> Expr list \<Rightarrow> Expr list \<Rightarrow> 'p Builder" where
  "Builder_Aggregate b aggExpr groupExprs =
     Some (LogicalPlan b None None None None None (Some \<lparr>ag_AggExprs = aggExpr, ag_GroupExprs = groupExprs\<rparr>))"

section \<open>Validation\<close>

datatype message = M_Fields "string list" | M_Text string | M_ColumnNotFound string | M_AliasTwice string
  | M_NilLogicalType scalar | M_Children bool bool

datatype ExprValidationError = ExprValidationError message Expr "ExprValidationError list"

datatype 'p PlanValidationError =
  PlanValidationError message "'p LogicalPlan" "ExprValidationError list" "'p PlanValidationError option"

text \<open>\<open>findExpressionForTypeVisitor\<close>: the first expression of a type, in the order in which a visit leaves them.\<close>

definition find_type :: "(Expr \<Rightarrow> bool) \<Rightarrow> Expr \<Rightarrow> Expr option" where
  "find_type is_type e =
     snd (Accept \<lparr>PreVisit = (\<lambda>_ s. (True, s)), Visit = (\<lambda>_ s. (True, s)),
                   PostVisit = (\<lambda>x s. if is_type x then (False, Some x) else (True, s))\<rparr> e None)"

fun is_Column :: "Expr \<Rightarrow> bool" where
  "is_Column (Column _) = True" | "is_Column _ = False"

fun is_DynamicColumn :: "Expr \<Rightarrow> bool" where
  "is_DynamicColumn (DynamicColumn _) = True" | "is_DynamicColumn _ = False"

fun is_AggregationFunction :: "Expr \<Rightarrow> bool" where
  "is_AggregationFunction (AggregationFunction _ _) = True" | "is_AggregationFunction _ = False"

fun is_LiteralExpr :: "Expr \<Rightarrow> bool" where
  "is_LiteralExpr (LiteralExpr _) = True" | "is_LiteralExpr _ = False"

definition field_names :: "'p LogicalPlan \<Rightarrow> string list" where
  "field_names plan =
     (if pl_SchemaScan plan \<noteq> None then [''SchemaScan''] else []) @
     (if pl_TableScan plan \<noteq> None then [''TableScan''] else []) @
     (if pl_Filter plan \<noteq> None then [''Filter''] else []) @
     (if pl_Distinct plan \<noteq> None then [''Distinct''] else []) @
     (if pl_Projection plan \<noteq> None then [''Projection''] else []) @
     (if pl_Aggregation plan \<noteq> None then [''Aggregation''] else [])"

definition ValidateSingleFieldSet :: "'p LogicalPlan \<Rightarrow> 'p PlanValidationError option" where
  "ValidateSingleFieldSet plan =
     (if length (field_names plan) \<noteq> 1
      then Some (PlanValidationError (M_Fields (field_names plan)) plan [] None) else None)"

text \<open>The logical type of a leaf; wrappers keep the type of the node they wrap.\<close>

datatype logical_type = L_UTF8 | L_Integer

fun LogicalType :: "pnode \<Rightarrow> logical_type option" where
  "LogicalType P_String = Some L_UTF8"
| "LogicalType P_Int64 = Some L_Integer"
| "LogicalType (P_Optional n) = LogicalType n"
| "LogicalType (P_Repeated n) = LogicalType n"
| "LogicalType (P_Encoded n _) = LogicalType n"
| "LogicalType (P_Compressed n _) = LogicalType n"
| "LogicalType _ = None"

text \<open>\<open>ValidateComparingTypes\<close>: the message of the error, if the types cannot be compared.\<close>

definition ValidateComparingTypes :: "logical_type option \<Rightarrow> scalar \<Rightarrow> message option" where
  "ValidateComparingTypes columnType literal =
     (case columnType of
        None \<Rightarrow> (case literal of S_Boolean _ \<Rightarrow> None | _ \<Rightarrow> Some (M_NilLogicalType literal))
      | Some L_UTF8 \<Rightarrow>
          (case literal of
             S_Float64 _ \<Rightarrow> Some (M_Text ''incompatible types: string column cannot be compared with numeric literal'')
           | S_Int64 _ \<Rightarrow> Some (M_Text ''incompatible types: string column cannot be compared with numeric literal'')
           | _ \<Rightarrow> None)
      | Some L_Integer \<Rightarrow>
          (case literal of
             S_String _ \<Rightarrow> Some (M_Text ''incompatible types: numeric column cannot be compared with string literal'')
           | _ \<Rightarrow> None))"

text \<open>\<open>ValidateFilterExpr\<close> with the functions it is mutually recursive with; \<open>schema\<close> is the plan's input schema.\<close>

definition ValidateComparison :: "Schema option \<Rightarrow> Expr \<Rightarrow> Op \<Rightarrow> Expr \<Rightarrow> ExprValidationError option" where
  "ValidateComparison schema l op r =
     (case find_type is_Column l of
        Some (Column columnName) \<Rightarrow>
          (case schema of
             None \<Rightarrow> None
           | Some s \<Rightarrow>
               (case ColumnByName s columnName of
                  None \<Rightarrow> None
                | Some column \<Rightarrow>
                    (case find_type is_LiteralExpr r of
                       Some (LiteralExpr v) \<Rightarrow>
                         map_option (\<lambda>m. ExprValidationError m (BinaryExpr l op r) [])
                           (ValidateComparingTypes (LogicalType (cd_StorageLayout column)) v)
                     | _ \<Rightarrow> None)))
      | _ \<Rightarrow> Some (ExprValidationError (M_Text ''left side of binary expression must be a column'') (BinaryExpr l op r) []))"

fun ValidateFilterExpr :: "Schema option \<Rightarrow> Expr \<Rightarrow> ExprValidationError option" where
  "ValidateFilterExpr schema (BinaryExpr l op r) =
     (if op = OpAnd \<or> op = OpOr then
        (let leftErr = ValidateFilterExpr schema l; rightErr = ValidateFilterExpr schema r
         in if leftErr \<noteq> None \<or> rightErr \<noteq> None
            then Some (ExprValidationError (M_Children (leftErr \<noteq> None) (rightErr \<noteq> None)) (BinaryExpr l op r)
                        (List.map_filter id [leftErr, rightErr]))
            else None)
      else ValidateComparison schema l op r)"
| "ValidateFilterExpr schema _ = None"

definition ValidateFilter :: "('p \<Rightarrow> string \<Rightarrow> Schema option) \<Rightarrow> 'p LogicalPlan \<Rightarrow> Expr \<Rightarrow> 'p PlanValidationError option" where
  "ValidateFilter schema_of plan e =
     map_option (\<lambda>err. PlanValidationError (M_Text ''invalid filter'') plan [err] None)
       (ValidateFilterExpr (InputSchema schema_of plan) e)"

text \<open>
  \<open>ValidateAggregationExpr\<close>: the loop over the aggregation expressions with the aliases seen so
  far. Without an input schema the first expression ends it.
\<close>

fun column_name :: "Expr \<Rightarrow> string" where
  "column_name (Column c) = c" | "column_name (DynamicColumn c) = c" | "column_name _ = []"

fun ValidateAggregationExprs :: "Schema option \<Rightarrow> string list \<Rightarrow> Expr list \<Rightarrow> ExprValidationError option" where
  "ValidateAggregationExprs schema aliases [] = None"
| "ValidateAggregationExprs schema aliases (e # es) =
     (case ((case find_type is_Column e of Some c \<Rightarrow> Some c | None \<Rightarrow> find_type is_DynamicColumn e), find_type is_AggregationFunction e) of
        (Some named, Some (AggregationFunction aggFunc x)) \<Rightarrow>
          (case schema of
             None \<Rightarrow> None
           | Some s \<Rightarrow>
               (case ColumnByName s (column_name named) of
                  None \<Rightarrow> Some (ExprValidationError (M_ColumnNotFound (column_name named)) e [])
                | Some column \<Rightarrow>
                    (case e of
                       AliasExpr y alias \<Rightarrow>
                         if alias \<in> set aliases then Some (ExprValidationError (M_AliasTwice alias) e [])
                         else if LogicalType (cd_StorageLayout column) = Some L_UTF8 \<and> aggFunc = AggFuncSum
                         then Some (ExprValidationError (M_Text ''cannot sum text column'') e [])
                         else if LogicalType (cd_StorageLayout column) = Some L_UTF8 \<and> aggFunc = AggFuncMax
                         then Some (ExprValidationError (M_Text ''cannot max text column'') e [])
                         else ValidateAggregationExprs schema (alias # aliases) es
                     | _ \<Rightarrow>
                         if LogicalType (cd_StorageLayout column) = Some L_UTF8 \<and> aggFunc = AggFuncSum
                         then Some (ExprValidationError (M_Text ''cannot sum text column'') e [])
                         else if LogicalType (cd_StorageLayout column) = Some L_UTF8 \<and> aggFunc = AggFuncMax
                         then Some (ExprValidationError (M_Text ''cannot max text column'') e [])
                         else ValidateAggregationExprs schema aliases es)))
      | _ \<Rightarrow> Some (ExprValidationError
               (M_Text ''aggregation expression is invalid. must contain AggregationFunction and Column'') e []))"

definition ValidateAggregation :: "('p \<Rightarrow> string \<Rightarrow> Schema option) \<Rightarrow> 'p LogicalPlan \<Rightarrow> Aggregation \<Rightarrow> 'p PlanValidationError option" where
  "ValidateAggregation schema_of plan a =
     (if ag_AggExprs a = [] then Some (PlanValidationError (M_Text ''invalid aggregation: expression cannot be nil'') plan [] None)
      else map_option (\<lambda>err. PlanValidationError (M_Text ''invalid aggregation'') plan [err] None)
             (ValidateAggregationExprs (InputSchema schema_of plan) [] (ag_AggExprs a)))"

fun set_input :: "'p PlanValidationError option \<Rightarrow> 'p PlanValidationError \<Rightarrow> 'p PlanValidationError" where
  "set_input inp (PlanValidationError m plan children old) = PlanValidationError m plan children inp"

fun Validate :: "('p \<Rightarrow> string \<Rightarrow> Schema option) \<Rightarrow> 'p LogicalPlan \<Rightarrow> 'p PlanValidationError option" where
  "Validate schema_of (LogicalPlan inp ss ts f d p a) =
     (let plan = LogicalPlan inp ss ts f d p a;
          err = (case ValidateSingleFieldSet plan of
                   Some e \<Rightarrow> Some e
                 | None \<Rightarrow>
                     (case (ss, ts, f, d, p, a) of
                        (None, None, Some e, _, _, _) \<Rightarrow> ValidateFilter schema_of plan e
                      | (None, None, None, None, None, Some ag) \<Rightarrow> ValidateAggregation schema_of plan ag
                      | _ \<Rightarrow> None));
          inputErr = (case inp of None \<Rightarrow> None | Some i \<Rightarrow> Validate schema_of i)
      in (case inputErr of
            None \<Rightarrow> err
          | Some ie \<Rightarrow> (case err of None \<Rightarrow> Some ie | Some e \<Rightarrow> Some (set_input (Some ie) e))))"

definition Build :: "('p \<Rightarrow> string \<Rightarrow> Schema option) \<Rightarrow> 'p LogicalPlan \<Rightarrow> ('p PlanValidationError, 'p LogicalPlan) result" where
  "Build schema_of plan = (case Validate schema_of plan of Some e \<Rightarrow> Inl e | None \<Rightarrow> Inr plan)"

section \<open>What a valid plan is\<close>

text \<open>A type finder sees the expressions in the order in which a visit leaves them.\<close>

primrec postorder :: "Expr \<Rightarrow> Expr list" where
  "postorder (BinaryExpr l op r) = postorder l @ postorder r @ [BinaryExpr l op r]"
| "postorder (Column c) = [Column c]"
| "postorder (DynamicColumn c) = [DynamicColumn c]"
| "postorder (LiteralExpr v) = [LiteralExpr v]"
| "postorder (AggregationFunction f e) = postorder e @ [AggregationFunction f e]"
| "postorder (AliasExpr e a) = postorder e @ [AliasExpr e a]"
| "postorder (DurationExpr d) = [DurationExpr d]"
| "postorder (AverageExpr e) = [AverageExpr e]"
| "postorder (RegexpColumnMatch i m) = [RegexpColumnMatch i m]"
| "postorder AllExpr = [AllExpr]"
| "postorder (NotExpr e) = [NotExpr e]"

lemma find_append: "List.find P (xs @ ys) = (case List.find P xs of Some x \<Rightarrow> Some x | None \<Rightarrow> List.find P ys)"
  by (induction xs) auto

lemma find_type_postorder: "find_type is_type e = List.find is_type (postorder e)"
proof -
  let ?v = "\<lparr>PreVisit = (\<lambda>_ s. (True, s)), Visit = (\<lambda>_ s. (True, s)),
      PostVisit = (\<lambda>x s. if is_type x then (False, Some x) else (True, s))\<rparr>"
  have "Accept ?v e s = (case List.find is_type (postorder e) of Some x \<Rightarrow> (False, Some x) | None \<Rightarrow> (True, s))" for s
    by (induction e arbitrary: s) (auto simp: find_append split: option.splits)
  then show ?thesis by (simp add: find_type_def split: option.splits)
qed

text \<open>The comparisons of a filter, and what validation asks of one.\<close>

fun comparisons :: "Expr \<Rightarrow> (Expr \<times> Expr) list" where
  "comparisons (BinaryExpr l op r) = (if op = OpAnd \<or> op = OpOr then comparisons l @ comparisons r else [(l, r)])"
| "comparisons _ = []"

definition types_comparable :: "logical_type option \<Rightarrow> scalar \<Rightarrow> bool" where
  "types_comparable t v \<longleftrightarrow>
     (t = None \<longrightarrow> (\<exists>b. v = S_Boolean b)) \<and>
     (t = Some L_UTF8 \<longrightarrow> (\<forall>x. v \<noteq> S_Int64 x) \<and> (\<forall>x. v \<noteq> S_Float64 x)) \<and>
     (t = Some L_Integer \<longrightarrow> (\<forall>x. v \<noteq> S_String x))"

definition comparison_valid :: "Schema option \<Rightarrow> Expr \<times> Expr \<Rightarrow> bool" where
  "comparison_valid schema lr \<longleftrightarrow>
     (\<exists>c. List.find is_Column (postorder (fst lr)) = Some (Column c) \<and>
        (\<forall>s col v. schema = Some s \<longrightarrow> ColumnByName s c = Some col \<longrightarrow>
           List.find is_LiteralExpr (postorder (snd lr)) = Some (LiteralExpr v) \<longrightarrow>
           types_comparable (LogicalType (cd_StorageLayout col)) v))"

text \<open>
  An aggregation expression: it contains an aggregation function and a column of the schema, and it neither
  sums a text column nor takes its maximum.
\<close>

definition aggregated_column :: "Expr \<Rightarrow> Expr option" where
  "aggregated_column e =
     (case List.find is_Column (postorder e) of Some c \<Rightarrow> Some c | None \<Rightarrow> List.find is_DynamicColumn (postorder e))"

definition aggregation_shaped :: "Expr \<Rightarrow> bool" where
  "aggregation_shaped e \<longleftrightarrow> aggregated_column e \<noteq> None \<and> List.find is_AggregationFunction (postorder e) \<noteq> None"

definition aggregation_typed :: "Schema \<Rightarrow> Expr \<Rightarrow> bool" where
  "aggregation_typed s e \<longleftrightarrow>
     (\<exists>c col f x. aggregated_column e = Some c \<and> ColumnByName s (column_name c) = Some col \<and>
        List.find is_AggregationFunction (postorder e) = Some (AggregationFunction f x) \<and>
        (LogicalType (cd_StorageLayout col) = Some L_UTF8 \<longrightarrow> f \<noteq> AggFuncSum \<and> f \<noteq> AggFuncMax))"

fun alias_of :: "Expr \<Rightarrow> string option" where
  "alias_of (AliasExpr e a) = Some a" | "alias_of _ = None"

definition aggregation_valid :: "Schema option \<Rightarrow> Expr list \<Rightarrow> bool" where
  "aggregation_valid schema es \<longleftrightarrow> es \<noteq> [] \<and>
     (case schema of
        None \<Rightarrow> aggregation_shaped (hd es)
      | Some s \<Rightarrow> list_all (aggregation_typed s) es \<and> distinct (List.map_filter alias_of es))"

text \<open>The steps of a plan, and the condition on a single one.\<close>

fun plan_steps :: "'p LogicalPlan \<Rightarrow> 'p LogicalPlan list" where
  "plan_steps (LogicalPlan inp ss ts f d p a) =
     LogicalPlan inp ss ts f d p a # (case inp of None \<Rightarrow> [] | Some i \<Rightarrow> plan_steps i)"

definition step_valid :: "('p \<Rightarrow> string \<Rightarrow> Schema option) \<Rightarrow> 'p LogicalPlan \<Rightarrow> bool" where
  "step_valid schema_of plan \<longleftrightarrow> length (field_names plan) = 1 \<and>
     (\<forall>e. pl_Filter plan = Some e \<longrightarrow> list_all (comparison_valid (InputSchema schema_of plan)) (comparisons e)) \<and>
     (\<forall>a. pl_Aggregation plan = Some a \<longrightarrow> aggregation_valid (InputSchema schema_of plan) (ag_AggExprs a))"

lemma ValidateComparingTypes_iff: "ValidateComparingTypes t v = None \<longleftrightarrow> types_comparable t v"
  by (auto simp: ValidateComparingTypes_def types_comparable_def split: option.splits logical_type.splits scalar.splits)

lemma find_SomeD: "List.find P xs = Some x \<Longrightarrow> P x"
  by (induction xs) (auto split: if_splits)

lemma is_Column_iff [simp]: "is_Column e \<longleftrightarrow> (\<exists>c. e = Column c)"
  by (cases e) auto

lemma is_LiteralExpr_iff [simp]: "is_LiteralExpr e \<longleftrightarrow> (\<exists>c. e = LiteralExpr c)"
  by (cases e) auto

lemma is_AggregationFunction_iff [simp]: "is_AggregationFunction e \<longleftrightarrow> (\<exists>f x. e = AggregationFunction f x)"
  by (cases e) auto

lemma ValidateComparison_iff: "ValidateComparison schema l op r = None \<longleftrightarrow> comparison_valid schema (l, r)"
proof (cases "List.find is_Column (postorder l)")
  case (Some e)
  then obtain c where c: "List.find is_Column (postorder l) = Some (Column c)" using find_SomeD [OF Some] by auto
  show ?thesis
  proof (cases "List.find is_LiteralExpr (postorder r)")
    case None
    then show ?thesis using c
      by (simp add: ValidateComparison_def comparison_valid_def find_type_postorder split: option.splits)
  next
    case (Some e')
    then obtain v where v: "List.find is_LiteralExpr (postorder r) = Some (LiteralExpr v)" using find_SomeD [OF Some] by auto
    show ?thesis using c v
      by (simp add: ValidateComparison_def comparison_valid_def find_type_postorder ValidateComparingTypes_iff split: option.splits)
  qed
qed (simp add: ValidateComparison_def comparison_valid_def find_type_postorder)

lemma ValidateFilterExpr_iff:
  "ValidateFilterExpr schema e = None \<longleftrightarrow> list_all (comparison_valid schema) (comparisons e)"
  by (induction schema e rule: ValidateFilterExpr.induct) (auto simp: ValidateComparison_iff Let_def)

lemma ValidateAggregationExprs_iff:
  assumes "es \<noteq> []"
  shows "ValidateAggregationExprs None aliases es = None \<longleftrightarrow> aggregation_shaped (hd es)"
proof -
  obtain e es' where es: "es = e # es'" using assms by (cases es) auto
  show ?thesis using find_SomeD [of is_AggregationFunction "postorder e"]
    by (auto simp: es aggregation_shaped_def aggregated_column_def find_type_postorder split: option.splits Expr.splits)
qed

lemma ValidateAggregationExprs_Some_iff:
  "ValidateAggregationExprs (Some s) aliases es = None \<longleftrightarrow>
     list_all (aggregation_typed s) es \<and> distinct (List.map_filter alias_of es) \<and>
     set aliases \<inter> set (List.map_filter alias_of es) = {}"
proof (induction es arbitrary: aliases)
  case (Cons e es)
  note IH = Cons.IH
  have unf: "find_type is_Column e = List.find is_Column (postorder e)"
    "find_type is_DynamicColumn e = List.find is_DynamicColumn (postorder e)"
    "find_type is_AggregationFunction e = List.find is_AggregationFunction (postorder e)"
    by (simp_all add: find_type_postorder)
  show ?case
  proof (cases "aggregation_shaped e")
    case False
    then have "\<not> aggregation_typed s e" by (auto simp: aggregation_shaped_def aggregation_typed_def)
    moreover have "ValidateAggregationExprs (Some s) aliases (e # es) \<noteq> None"
      using False unfolding ValidateAggregationExprs.simps unf aggregated_column_def [symmetric] aggregation_shaped_def
      by (auto split: option.splits)
    ultimately show ?thesis by simp
  next
    case True
    then obtain c f x where c: "aggregated_column e = Some c" "List.find is_AggregationFunction (postorder e) = Some (AggregationFunction f x)"
      using find_SomeD [of is_AggregationFunction "postorder e"] by (auto simp: aggregation_shaped_def)
    show ?thesis
    proof (cases "ColumnByName s (column_name c)")
      case None
      then have "\<not> aggregation_typed s e" using c by (auto simp: aggregation_typed_def)
      moreover have "ValidateAggregationExprs (Some s) aliases (e # es) \<noteq> None"
        using c None unfolding ValidateAggregationExprs.simps unf aggregated_column_def [symmetric] by simp
      ultimately show ?thesis by simp
    next
      case (Some col)
      let ?bad = "LogicalType (cd_StorageLayout col) = Some L_UTF8 \<and> (f = AggFuncSum \<or> f = AggFuncMax)"
      have typed: "aggregation_typed s e \<longleftrightarrow> \<not> ?bad" using c Some by (auto simp: aggregation_typed_def)
      have "ValidateAggregationExprs (Some s) aliases (e # es) = None \<longleftrightarrow>
          (case alias_of e of
             None \<Rightarrow> \<not> ?bad \<and> ValidateAggregationExprs (Some s) aliases es = None
           | Some a \<Rightarrow> a \<notin> set aliases \<and> \<not> ?bad \<and> ValidateAggregationExprs (Some s) (a # aliases) es = None)"
        using c Some unfolding ValidateAggregationExprs.simps unf aggregated_column_def [symmetric]
        by (cases e) auto
      then show ?thesis using typed IH by (auto simp: map_filter_simps split: option.splits)
    qed
  qed
qed (simp add: map_filter_simps)

lemma ValidateFilter_iff:
  "ValidateFilter schema_of plan e = None \<longleftrightarrow> list_all (comparison_valid (InputSchema schema_of plan)) (comparisons e)"
  by (simp add: ValidateFilter_def ValidateFilterExpr_iff)

lemma ValidateAggregation_iff:
  "ValidateAggregation schema_of plan a = None \<longleftrightarrow> aggregation_valid (InputSchema schema_of plan) (ag_AggExprs a)"
  by (simp add: ValidateAggregation_def aggregation_valid_def ValidateAggregationExprs_iff ValidateAggregationExprs_Some_iff
      split: option.splits)

text \<open>C29: \<open>Build\<close> accepts exactly the valid plans: every step sets one field, every comparison in a filter
  has a column on its left side whose type can be compared with the literal on the right, and every
  aggregation has expressions of known columns under distinct aliases that do not sum text or take its maximum.\<close>

theorem Build_iff_valid:
  "Build schema_of plan = Inr plan \<longleftrightarrow> list_all (step_valid schema_of) (plan_steps plan)"
proof -
  have "Validate schema_of plan = None \<longleftrightarrow> list_all (step_valid schema_of) (plan_steps plan)"
  proof (induction plan rule: plan_steps.induct)
    case (1 inp ss ts f d p a)
    let ?plan = "LogicalPlan inp ss ts f d p a"
    have "(case ValidateSingleFieldSet ?plan of
              Some e \<Rightarrow> Some e
            | None \<Rightarrow>
                (case (ss, ts, f, d, p, a) of
                   (None, None, Some e, _, _, _) \<Rightarrow> ValidateFilter schema_of ?plan e
                 | (None, None, None, None, None, Some ag) \<Rightarrow> ValidateAggregation schema_of ?plan ag
                 | _ \<Rightarrow> None)) = None \<longleftrightarrow> step_valid schema_of ?plan"
      by (cases ss; cases ts; cases f; cases d; cases p; cases a)
        (simp_all add: ValidateSingleFieldSet_def field_names_def step_valid_def ValidateFilter_iff ValidateAggregation_iff)
    then show ?case using 1 by (auto simp: Let_def split: option.splits)
  qed
  then show ?thesis by (auto simp: Build_def split: option.splits)
qed

end
