(* ===== verification/Pred_Filter.thy ===== *)
theory Pred_Filter
  imports Logical_Expr
begin

text \<open>
  The predicate filter of the query engine (\<open>query/physicalplan/filter.go\<close>,
  \<open>binaryscalarexpr.go\<close>, \<open>regexpfilter.go\<close>): compiling a logical filter expression, evaluating
  it on an Arrow record to a bitmap of rows, and cutting the record down to those rows.

  An Arrow array is its type with the cells it shows; a null cell is \<open>None\<close>, and a
  dictionary array shows the values its indices select, a list array of binary dictionaries the
  lists of values. The arrays carry the canonical
  instances of their Arrow types. A roaring bitmap is a finite set of 32-bit numbers. A panic is an
  error value.
\<close>

section \<open>Records\<close>

datatype cell = C_Bool bool | C_Int int | C_Bytes string | C_Float "64 word" | C_List "string list"

datatype arrow_type = T_Boolean | T_FixedSizeBinary | T_String | T_Binary | T_Int64
  | T_DictBinary | T_DictString | T_DictOther | T_List | T_OtherType

record arrow_array =
  arr_type :: arrow_type
  arr_cells :: "cell option list"

record arrow_record =
  rec_columns :: "(string \<times> arrow_array) list"
  rec_rows :: nat

fun type_of_cell :: "arrow_type \<Rightarrow> cell \<Rightarrow> bool" where
  "type_of_cell T_Boolean (C_Bool _) = True"
| "type_of_cell T_Int64 (C_Int _) = True"
| "type_of_cell T_FixedSizeBinary (C_Bytes _) = True"
| "type_of_cell T_String (C_Bytes _) = True"
| "type_of_cell T_Binary (C_Bytes _) = True"
| "type_of_cell T_DictBinary (C_Bytes _) = True"
| "type_of_cell T_DictString (C_Bytes _) = True"
| "type_of_cell T_DictOther _ = True"
| "type_of_cell T_List _ = True"
| "type_of_cell T_OtherType _ = True"
| "type_of_cell _ _ = False"

definition array_wf :: "arrow_array \<Rightarrow> bool" where
  "array_wf a \<longleftrightarrow> list_all (\<lambda>c. case c of None \<Rightarrow> True | Some x \<Rightarrow> type_of_cell (arr_type a) x) (arr_cells a)"

definition record_wf :: "arrow_record \<Rightarrow> bool" where
  "record_wf r \<longleftrightarrow> rec_rows r < 2 ^ 32 \<and>
     list_all (\<lambda>(n, a). length (arr_cells a) = rec_rows r \<and> array_wf a) (rec_columns r)"

datatype filter_error = E_Panic | E_LeftNotColumn | E_BadRegexp | ErrUnsupportedBooleanExpression
  | ErrUnsupportedBinaryOperation | E_UnsupportedOperator Op | E_UnsupportedRegexType

section \<open>Bitmaps\<close>

type_synonym Bitmap = "nat set"

text \<open>The loop \<open>for i := 0; i < left.Len(); i++\<close> that adds \<open>uint32(i)\<close> where a test succeeds.\<close>

definition array_bitmap :: "(cell option \<Rightarrow> bool) \<Rightarrow> arrow_array \<Rightarrow> Bitmap" where
  "array_bitmap p a =
     set (map (\<lambda>i. i mod 2 ^ 32) (filter (\<lambda>i. p (arr_cells a ! i)) [0..<length (arr_cells a)]))"

definition all_rows :: "arrow_record \<Rightarrow> Bitmap" where
  "all_rows r = set [0..<rec_rows r]"

definition ToArray :: "Bitmap \<Rightarrow> nat list" where
  "ToArray b = sorted_list_of_set b"

section \<open>Comparing an array with a scalar\<close>

fun is_bytes :: "(string \<Rightarrow> bool) \<Rightarrow> cell \<Rightarrow> bool" where
  "is_bytes p (C_Bytes s) = p s"
| "is_bytes p _ = False"

fun is_int :: "(int \<Rightarrow> bool) \<Rightarrow> cell \<Rightarrow> bool" where
  "is_int p (C_Int x) = p x"
| "is_int p _ = False"

fun is_bool :: "(bool \<Rightarrow> bool) \<Rightarrow> cell \<Rightarrow> bool" where
  "is_bool p (C_Bool x) = p x"
| "is_bool p _ = False"

text \<open>\<open>if left.IsNull(i) { continue }\<close>, and \<open>if left.IsNull(i) { res.Add(uint32(i)); continue }\<close>.\<close>

definition skip_null :: "(cell \<Rightarrow> bool) \<Rightarrow> cell option \<Rightarrow> bool" where
  "skip_null p c = (case c of None \<Rightarrow> False | Some x \<Rightarrow> p x)"

definition add_null :: "(cell \<Rightarrow> bool) \<Rightarrow> cell option \<Rightarrow> bool" where
  "add_null p c = (case c of None \<Rightarrow> True | Some x \<Rightarrow> p x)"

definition FixedSizeBinaryArrayScalarEqual :: "arrow_array \<Rightarrow> string \<Rightarrow> Bitmap" where
  "FixedSizeBinaryArrayScalarEqual left v = array_bitmap (skip_null (is_bytes (\<lambda>s. s = v))) left"

definition FixedSizeBinaryArrayScalarNotEqual :: "arrow_array \<Rightarrow> string \<Rightarrow> Bitmap" where
  "FixedSizeBinaryArrayScalarNotEqual left v = array_bitmap (add_null (is_bytes (\<lambda>s. s \<noteq> v))) left"

definition StringArrayScalarEqual :: "arrow_array \<Rightarrow> string \<Rightarrow> Bitmap" where
  "StringArrayScalarEqual left v = array_bitmap (skip_null (is_bytes (\<lambda>s. s = v))) left"

definition StringArrayScalarNotEqual :: "arrow_array \<Rightarrow> string \<Rightarrow> Bitmap" where
  "StringArrayScalarNotEqual left v = array_bitmap (add_null (is_bytes (\<lambda>s. s \<noteq> v))) left"

definition BinaryArrayScalarEqual :: "arrow_array \<Rightarrow> string \<Rightarrow> Bitmap" where
  "BinaryArrayScalarEqual left v = array_bitmap (skip_null (is_bytes (\<lambda>s. s = v))) left"

definition BinaryArrayScalarNotEqual :: "arrow_array \<Rightarrow> string \<Rightarrow> Bitmap" where
  "BinaryArrayScalarNotEqual left v = array_bitmap (add_null (is_bytes (\<lambda>s. s \<noteq> v))) left"

definition Int64ArrayScalarEqual :: "arrow_array \<Rightarrow> int \<Rightarrow> Bitmap" where
  "Int64ArrayScalarEqual left v = array_bitmap (skip_null (is_int (\<lambda>x. x = v))) left"

definition Int64ArrayScalarNotEqual :: "arrow_array \<Rightarrow> int \<Rightarrow> Bitmap" where
  "Int64ArrayScalarNotEqual left v = array_bitmap (add_null (is_int (\<lambda>x. x \<noteq> v))) left"

definition Int64ArrayScalarLessThan :: "arrow_array \<Rightarrow> int \<Rightarrow> Bitmap" where
  "Int64ArrayScalarLessThan left v = array_bitmap (skip_null (is_int (\<lambda>x. x < v))) left"

definition Int64ArrayScalarLessThanOrEqual :: "arrow_array \<Rightarrow> int \<Rightarrow> Bitmap" where
  "Int64ArrayScalarLessThanOrEqual left v = array_bitmap (skip_null (is_int (\<lambda>x. x \<le> v))) left"

definition Int64ArrayScalarGreaterThan :: "arrow_array \<Rightarrow> int \<Rightarrow> Bitmap" where
  "Int64ArrayScalarGreaterThan left v = array_bitmap (skip_null (is_int (\<lambda>x. v < x))) left"

definition Int64ArrayScalarGreaterThanOrEqual :: "arrow_array \<Rightarrow> int \<Rightarrow> Bitmap" where
  "Int64ArrayScalarGreaterThanOrEqual left v = array_bitmap (skip_null (is_int (\<lambda>x. v \<le> x))) left"

definition BooleanArrayScalarEqual :: "arrow_array \<Rightarrow> bool \<Rightarrow> Bitmap" where
  "BooleanArrayScalarEqual left v = array_bitmap (skip_null (is_bool (\<lambda>x. x = v))) left"

definition BooleanArrayScalarNotEqual :: "arrow_array \<Rightarrow> bool \<Rightarrow> Bitmap" where
  "BooleanArrayScalarNotEqual left v = array_bitmap (skip_null (is_bool (\<lambda>x. x \<noteq> v))) left"

text \<open>
  Dictionaries compare with the bytes of a string or binary scalar; any other scalar leaves
  the bytes nil, which are equal to an empty string. A dictionary of another element type matches no row.
\<close>

fun scalar_data :: "scalar option \<Rightarrow> string" where
  "scalar_data (Some (S_Binary d)) = d"
| "scalar_data (Some (S_String d)) = d"
| "scalar_data _ = []"

definition dict_bytes :: "arrow_array \<Rightarrow> (string \<Rightarrow> bool) \<Rightarrow> cell \<Rightarrow> bool" where
  "dict_bytes left p c = (arr_type left \<in> {T_DictBinary, T_DictString} \<and> is_bytes p c)"

definition DictionaryArrayScalarNotEqual :: "arrow_array \<Rightarrow> scalar option \<Rightarrow> Bitmap" where
  "DictionaryArrayScalarNotEqual left right =
     (if right = Some S_Null then array_bitmap (\<lambda>c. c \<noteq> None) left
      else array_bitmap (skip_null (dict_bytes left (\<lambda>s. s \<noteq> scalar_data right))) left)"

definition DictionaryArrayScalarEqual :: "arrow_array \<Rightarrow> scalar option \<Rightarrow> Bitmap" where
  "DictionaryArrayScalarEqual left right =
     (if right = Some S_Null then array_bitmap (\<lambda>c. c = None) left
      else array_bitmap (skip_null (dict_bytes left (\<lambda>s. s = scalar_data right))) left)"

text \<open>
  The dispatch on the array's type. A type assertion on the scalar that does not hold
  panics. The case for fixed-size binaries compares the type with the address of a new
  struct, which no array's type equals, so these arrays reach the last line.
\<close>

definition BinaryScalarOperation :: "arrow_array \<Rightarrow> scalar option \<Rightarrow> Op \<Rightarrow> (filter_error, Bitmap) result" where
  "BinaryScalarOperation left right operator =
     (case arr_type left of
        T_Boolean \<Rightarrow>
          (case (operator, right) of
             (OpEq, Some (S_Boolean v)) \<Rightarrow> Inr (BooleanArrayScalarEqual left v)
           | (OpNotEq, Some (S_Boolean v)) \<Rightarrow> Inr (BooleanArrayScalarNotEqual left v)
           | _ \<Rightarrow> Inl E_Panic)
      | T_String \<Rightarrow>
          (case (operator, right) of
             (OpEq, Some (S_String v)) \<Rightarrow> Inr (StringArrayScalarEqual left v)
           | (OpNotEq, Some (S_String v)) \<Rightarrow> Inr (StringArrayScalarNotEqual left v)
           | _ \<Rightarrow> Inl E_Panic)
      | T_Binary \<Rightarrow>
          (case (operator, right) of
             (OpEq, Some (S_Binary v)) \<Rightarrow> Inr (BinaryArrayScalarEqual left v)
           | (OpEq, Some (S_String v)) \<Rightarrow> Inr (BinaryArrayScalarEqual left v)
           | (OpNotEq, Some (S_Binary v)) \<Rightarrow> Inr (BinaryArrayScalarNotEqual left v)
           | (OpNotEq, Some (S_String v)) \<Rightarrow> Inr (BinaryArrayScalarNotEqual left v)
           | _ \<Rightarrow> Inl E_Panic)
      | T_Int64 \<Rightarrow>
          (case right of
             Some (S_Int64 v) \<Rightarrow>
               (case operator of
                  OpEq \<Rightarrow> Inr (Int64ArrayScalarEqual left v)
                | OpNotEq \<Rightarrow> Inr (Int64ArrayScalarNotEqual left v)
                | OpLt \<Rightarrow> Inr (Int64ArrayScalarLessThan left v)
                | OpLtEq \<Rightarrow> Inr (Int64ArrayScalarLessThanOrEqual left v)
                | OpGt \<Rightarrow> Inr (Int64ArrayScalarGreaterThan left v)
                | OpGtEq \<Rightarrow> Inr (Int64ArrayScalarGreaterThanOrEqual left v)
                | _ \<Rightarrow> Inl E_Panic)
           | _ \<Rightarrow> Inl E_Panic)
      | T_List \<Rightarrow> Inl E_Panic
      | T_FixedSizeBinary \<Rightarrow> Inl ErrUnsupportedBinaryOperation
      | T_OtherType \<Rightarrow> Inl ErrUnsupportedBinaryOperation
      | _ \<Rightarrow>
          (case operator of
             OpEq \<Rightarrow> Inr (DictionaryArrayScalarEqual left right)
           | OpNotEq \<Rightarrow> Inr (DictionaryArrayScalarNotEqual left right)
           | _ \<Rightarrow> Inl (E_UnsupportedOperator operator)))"

section \<open>Boolean expressions\<close>

datatype BooleanExpression =
    BinaryScalarExpr string Op "scalar option"
  | RegExpFilter string bool string
  | AndExpr BooleanExpression BooleanExpression
  | OrExpr BooleanExpression BooleanExpression

text \<open>\<open>ArrayRef.ArrowArray\<close>: the column if exactly one has the name.\<close>

definition ArrowArray :: "string \<Rightarrow> arrow_record \<Rightarrow> arrow_array option" where
  "ArrowArray columnName r =
     (case filter (\<lambda>(n, a). n = columnName) (rec_columns r) of
        [(n, a)] \<Rightarrow> Some a
      | _ \<Rightarrow> None)"

definition BinaryScalarExpr_Eval :: "string \<Rightarrow> Op \<Rightarrow> scalar option \<Rightarrow> arrow_record \<Rightarrow> (filter_error, Bitmap) result" where
  "BinaryScalarExpr_Eval left op right r =
     (case ArrowArray left r of
        Some leftData \<Rightarrow> BinaryScalarOperation leftData right op
      | None \<Rightarrow>
          (case op of
             OpEq \<Rightarrow>
               (case right of
                  None \<Rightarrow> Inl E_Panic
                | Some (S_Binary t) \<Rightarrow> Inr (if t \<noteq> [] then {} else all_rows r)
                | Some (S_String t) \<Rightarrow> Inr (if t \<noteq> [] then {} else all_rows r)
                | _ \<Rightarrow> Inr (all_rows r))
           | OpNotEq \<Rightarrow>
               (case right of
                  None \<Rightarrow> Inl E_Panic
                | Some S_Null \<Rightarrow> Inr {}
                | _ \<Rightarrow> Inr (all_rows r))
           | OpLt \<Rightarrow> Inr {}
           | OpLtEq \<Rightarrow> Inr {}
           | OpGt \<Rightarrow> Inr {}
           | OpGtEq \<Rightarrow> Inr {}
           | _ \<Rightarrow> Inr (all_rows r)))"

text \<open>Regular expressions; null cells are skipped by both kinds of match.\<close>

definition BinaryArrayScalarRegexMatch :: "(string \<Rightarrow> string \<Rightarrow> bool) \<Rightarrow> arrow_array \<Rightarrow> string \<Rightarrow> Bitmap" where
  "BinaryArrayScalarRegexMatch rx left right = array_bitmap (skip_null (is_bytes (rx right))) left"

definition BinaryArrayScalarRegexNotMatch :: "(string \<Rightarrow> string \<Rightarrow> bool) \<Rightarrow> arrow_array \<Rightarrow> string \<Rightarrow> Bitmap" where
  "BinaryArrayScalarRegexNotMatch rx left right = array_bitmap (skip_null (is_bytes (\<lambda>s. \<not> rx right s))) left"

definition StringArrayScalarRegexMatch :: "(string \<Rightarrow> string \<Rightarrow> bool) \<Rightarrow> arrow_array \<Rightarrow> string \<Rightarrow> Bitmap" where
  "StringArrayScalarRegexMatch rx left right = array_bitmap (skip_null (is_bytes (rx right))) left"

definition StringArrayScalarRegexNotMatch :: "(string \<Rightarrow> string \<Rightarrow> bool) \<Rightarrow> arrow_array \<Rightarrow> string \<Rightarrow> Bitmap" where
  "StringArrayScalarRegexNotMatch rx left right = array_bitmap (skip_null (is_bytes (\<lambda>s. \<not> rx right s))) left"

definition BinaryDictionaryArrayScalarRegexMatch :: "(string \<Rightarrow> string \<Rightarrow> bool) \<Rightarrow> arrow_array \<Rightarrow> string \<Rightarrow> Bitmap" where
  "BinaryDictionaryArrayScalarRegexMatch rx left right = array_bitmap (skip_null (is_bytes (rx right))) left"

definition BinaryDictionaryArrayScalarRegexNotMatch :: "(string \<Rightarrow> string \<Rightarrow> bool) \<Rightarrow> arrow_array \<Rightarrow> string \<Rightarrow> Bitmap" where
  "BinaryDictionaryArrayScalarRegexNotMatch rx left right = array_bitmap (skip_null (is_bytes (\<lambda>s. \<not> rx right s))) left"

definition ArrayScalarRegexMatch :: "(string \<Rightarrow> string \<Rightarrow> bool) \<Rightarrow> arrow_array \<Rightarrow> string \<Rightarrow> (filter_error, Bitmap) result" where
  "ArrayScalarRegexMatch rx left right =
     (case arr_type left of
        T_Binary \<Rightarrow> Inr (BinaryArrayScalarRegexMatch rx left right)
      | T_String \<Rightarrow> Inr (StringArrayScalarRegexMatch rx left right)
      | T_DictBinary \<Rightarrow> Inr (BinaryDictionaryArrayScalarRegexMatch rx left right)
      | _ \<Rightarrow> Inl E_UnsupportedRegexType)"

definition ArrayScalarRegexNotMatch :: "(string \<Rightarrow> string \<Rightarrow> bool) \<Rightarrow> arrow_array \<Rightarrow> string \<Rightarrow> (filter_error, Bitmap) result" where
  "ArrayScalarRegexNotMatch rx left right =
     (case arr_type left of
        T_Binary \<Rightarrow> Inr (BinaryArrayScalarRegexNotMatch rx left right)
      | T_String \<Rightarrow> Inr (StringArrayScalarRegexNotMatch rx left right)
      | T_DictBinary \<Rightarrow> Inr (BinaryDictionaryArrayScalarRegexNotMatch rx left right)
      | _ \<Rightarrow> Inl E_UnsupportedRegexType)"

definition RegExpFilter_Eval :: "(string \<Rightarrow> string \<Rightarrow> bool) \<Rightarrow> string \<Rightarrow> bool \<Rightarrow> string \<Rightarrow> arrow_record \<Rightarrow> (filter_error, Bitmap) result" where
  "RegExpFilter_Eval rx left notMatch right r =
     (case ArrowArray left r of
        None \<Rightarrow>
          (let emptyMatch = rx right []
           in Inr (if (notMatch \<and> \<not> emptyMatch) \<or> (\<not> notMatch \<and> emptyMatch)
                   then set (map (\<lambda>i. i mod 2 ^ 32) [0..<rec_rows r]) else {}))
      | Some leftData \<Rightarrow>
          if notMatch then ArrayScalarRegexNotMatch rx leftData right
          else ArrayScalarRegexMatch rx leftData right)"

primrec Eval :: "(string \<Rightarrow> string \<Rightarrow> bool) \<Rightarrow> BooleanExpression \<Rightarrow> arrow_record \<Rightarrow> (filter_error, Bitmap) result" where
  "Eval rx (BinaryScalarExpr left op right) r = BinaryScalarExpr_Eval left op right r"
| "Eval rx (RegExpFilter left notMatch right) r = RegExpFilter_Eval rx left notMatch right r"
| "Eval rx (AndExpr a b) r =
     bind_result (Eval rx a r) (\<lambda>left. bind_result (Eval rx b r) (\<lambda>right. Inr (left \<inter> right)))"
| "Eval rx (OrExpr a b) r =
     bind_result (Eval rx a r) (\<lambda>left. bind_result (Eval rx b r) (\<lambda>right. Inr (left \<union> right)))"

text \<open>Compilation. \<open>rx_ok\<close> says whether \<open>regexp.Compile\<close> accepts a pattern.\<close>

definition compile_comparison :: "(string \<Rightarrow> bool) \<Rightarrow> Expr \<Rightarrow> Op \<Rightarrow> Expr \<Rightarrow> (filter_error, BooleanExpression) result" where
  "compile_comparison rx_ok l op r =
     (case left_column l of
        None \<Rightarrow> Inl E_LeftNotColumn
      | Some c \<Rightarrow>
          if op \<in> {OpRegexMatch, OpRegexNotMatch} then
            (case right_literal r of
               Some (S_String pattern) \<Rightarrow>
                 if rx_ok pattern then Inr (RegExpFilter c (op = OpRegexNotMatch) pattern)
                 else Inl E_BadRegexp
             | _ \<Rightarrow> Inl E_Panic)
          else Inr (BinaryScalarExpr c op (right_literal r)))"

fun booleanExpr :: "(string \<Rightarrow> bool) \<Rightarrow> Expr \<Rightarrow> (filter_error, BooleanExpression) result" where
  "booleanExpr rx_ok (BinaryExpr l op r) =
     (if op = OpAnd then
        bind_result (booleanExpr rx_ok l) (\<lambda>a. bind_result (booleanExpr rx_ok r) (\<lambda>b. Inr (AndExpr a b)))
      else if op = OpOr then
        bind_result (booleanExpr rx_ok l) (\<lambda>a. bind_result (booleanExpr rx_ok r) (\<lambda>b. Inr (OrExpr a b)))
      else if op = OpUnknown then Inl E_Panic
      else compile_comparison rx_ok l op r)"
| "booleanExpr rx_ok _ = Inl ErrUnsupportedBooleanExpression"

section \<open>Cutting the record\<close>

text \<open>\<open>buildIndexRanges\<close>; the bounds are \<open>uint32\<close> numbers.\<close>

fun extend_ranges :: "32 word \<times> 32 word \<Rightarrow> 32 word list \<Rightarrow> (32 word \<times> 32 word) list" where
  "extend_ranges cur [] = [cur]"
| "extend_ranges cur (i # is) =
     (if i = snd cur then extend_ranges (fst cur, snd cur + 1) is
      else cur # extend_ranges (i, i + 1) is)"

definition buildIndexRanges :: "32 word list \<Rightarrow> (32 word \<times> 32 word) list option" where
  "buildIndexRanges indices =
     (case indices of [] \<Rightarrow> None | i # is \<Rightarrow> Some (extend_ranges (i, i + 1) is))"

definition slice :: "nat \<Rightarrow> nat \<Rightarrow> 'a list \<Rightarrow> 'a list" where
  "slice from to xs = take (to - from) (drop from xs)"

definition NewSlice :: "arrow_record \<Rightarrow> nat \<Rightarrow> nat \<Rightarrow> arrow_record" where
  "NewSlice r from to =
     \<lparr>rec_columns = map (\<lambda>(n, a). (n, a\<lparr>arr_cells := slice from to (arr_cells a)\<rparr>)) (rec_columns r),
      rec_rows = to - from\<rparr>"

definition filter_record :: "(string \<Rightarrow> string \<Rightarrow> bool) \<Rightarrow> BooleanExpression \<Rightarrow> arrow_record \<Rightarrow> (filter_error, arrow_record option) result" where
  "filter_record rx filterExpr ar =
     bind_result (Eval rx filterExpr ar) (\<lambda>bitmap.
       if bitmap = {} then Inr None
       else case buildIndexRanges (map of_nat (ToArray bitmap)) of
              None \<Rightarrow> Inl E_Panic
            | Some ranges \<Rightarrow>
                let recordRanges = map (\<lambda>(s, e). NewSlice ar (unat s) (unat e)) ranges;
                    totalRows = sum_list (map (\<lambda>(s, e). unat (e - s)) ranges)
                in Inr (Some
                     \<lparr>rec_columns =
                        map (\<lambda>i. (fst (rec_columns ar ! i),
                              \<lparr>arr_type = arr_type (snd (rec_columns ar ! i)),
                               arr_cells = concat (map (\<lambda>rr. arr_cells (snd (rec_columns rr ! i))) recordRanges)\<rparr>))
                          [0..<length (rec_columns ar)],
                      rec_rows = totalRows\<rparr>))"

text \<open>\<open>PredicateFilter.Callback\<close>: what is passed on to the next operator.\<close>

definition Callback :: "(string \<Rightarrow> string \<Rightarrow> bool) \<Rightarrow> BooleanExpression \<Rightarrow> arrow_record \<Rightarrow> (filter_error, arrow_record list) result" where
  "Callback rx filterExpr r =
     bind_result (filter_record rx filterExpr r) (\<lambda>filtered. Inr (case filtered of None \<Rightarrow> [] | Some x \<Rightarrow> [x]))"

section \<open>Row by row\<close>

text \<open>
  The reference: whether a single row satisfies the filter. A null cell equals the null
  literal only in a dictionary, and differs from every literal only outside of dictionaries and booleans.
\<close>

definition is_dict :: "arrow_type \<Rightarrow> bool" where
  "is_dict ty \<longleftrightarrow> ty \<in> {T_DictBinary, T_DictString, T_DictOther}"

fun literal_cell :: "scalar option \<Rightarrow> cell" where
  "literal_cell (Some (S_Boolean b)) = C_Bool b"
| "literal_cell (Some (S_Int64 x)) = C_Int x"
| "literal_cell s = C_Bytes (scalar_data s)"

fun compare_cells :: "Op \<Rightarrow> cell \<Rightarrow> cell \<Rightarrow> bool" where
  "compare_cells OpEq x y \<longleftrightarrow> x = y"
| "compare_cells OpNotEq x y \<longleftrightarrow> x \<noteq> y"
| "compare_cells OpLt (C_Int x) (C_Int y) \<longleftrightarrow> x < y"
| "compare_cells OpLtEq (C_Int x) (C_Int y) \<longleftrightarrow> x \<le> y"
| "compare_cells OpGt (C_Int x) (C_Int y) \<longleftrightarrow> y < x"
| "compare_cells OpGtEq (C_Int x) (C_Int y) \<longleftrightarrow> y \<le> x"
| "compare_cells _ _ _ \<longleftrightarrow> False"

definition cell_matches :: "arrow_type \<Rightarrow> Op \<Rightarrow> scalar option \<Rightarrow> cell option \<Rightarrow> bool" where
  "cell_matches ty op right c \<longleftrightarrow>
     (case c of
        None \<Rightarrow> if is_dict ty then op = OpEq \<and> right = Some S_Null else op = OpNotEq \<and> ty \<noteq> T_Boolean
      | Some x \<Rightarrow>
          if is_dict ty \<and> right = Some S_Null then op = OpNotEq
          else if is_dict ty then ty \<noteq> T_DictOther \<and> compare_cells op x (C_Bytes (scalar_data right))
          else compare_cells op x (literal_cell right))"

text \<open>A missing column holds the value of no row: it equals null, the empty text and every literal that is not text.\<close>

fun absent_matches :: "Op \<Rightarrow> scalar option \<Rightarrow> bool" where
  "absent_matches OpEq (Some (S_String t)) \<longleftrightarrow> t = []"
| "absent_matches OpEq (Some (S_Binary t)) \<longleftrightarrow> t = []"
| "absent_matches OpEq _ \<longleftrightarrow> True"
| "absent_matches OpNotEq (Some S_Null) \<longleftrightarrow> False"
| "absent_matches OpNotEq _ \<longleftrightarrow> True"
| "absent_matches OpLt _ \<longleftrightarrow> False"
| "absent_matches OpLtEq _ \<longleftrightarrow> False"
| "absent_matches OpGt _ \<longleftrightarrow> False"
| "absent_matches OpGtEq _ \<longleftrightarrow> False"
| "absent_matches _ _ \<longleftrightarrow> True"

text \<open>A regular expression is tested on the text of a cell; a null cell neither matches nor fails to match.\<close>

definition regex_cell :: "(string \<Rightarrow> bool) \<Rightarrow> cell option \<Rightarrow> bool" where
  "regex_cell q c = (case c of Some (C_Bytes s) \<Rightarrow> q s | _ \<Rightarrow> False)"

primrec row_holds :: "(string \<Rightarrow> string \<Rightarrow> bool) \<Rightarrow> BooleanExpression \<Rightarrow> arrow_record \<Rightarrow> nat \<Rightarrow> bool" where
  "row_holds rx (BinaryScalarExpr left op right) r i \<longleftrightarrow>
     (case ArrowArray left r of
        None \<Rightarrow> absent_matches op right
      | Some a \<Rightarrow> cell_matches (arr_type a) op right (arr_cells a ! i))"
| "row_holds rx (RegExpFilter left notMatch right) r i \<longleftrightarrow>
     (case ArrowArray left r of
        None \<Rightarrow> rx right [] \<noteq> notMatch
      | Some a \<Rightarrow> regex_cell (\<lambda>s. rx right s \<noteq> notMatch) (arr_cells a ! i))"
| "row_holds rx (AndExpr a b) r i \<longleftrightarrow> row_holds rx a r i \<and> row_holds rx b r i"
| "row_holds rx (OrExpr a b) r i \<longleftrightarrow> row_holds rx a r i \<or> row_holds rx b r i"

section \<open>The bitmap of a filter\<close>

lemma mod_small_image: "n \<le> 2 ^ 32 \<Longrightarrow> (\<lambda>i. i mod 2 ^ 32) ` {i. i < n \<and> P i} = {i. i < n \<and> P i}"
  for n :: nat
  by (auto simp: image_def)

lemma array_bitmap_eq:
  assumes "length (arr_cells a) < 2 ^ 32"
  shows "array_bitmap p a = {i. i < length (arr_cells a) \<and> p (arr_cells a ! i)}"
  using mod_small_image [of "length (arr_cells a)" "\<lambda>i. p (arr_cells a ! i)"] assms
  by (simp add: array_bitmap_def)

lemma ArrowArray_wf:
  assumes "record_wf r" "ArrowArray c r = Some a"
  shows "length (arr_cells a) = rec_rows r" "array_wf a" "length (arr_cells a) < 2 ^ 32"
proof -
  obtain n where f: "filter (\<lambda>(n, a). n = c) (rec_columns r) = [(n, a)]"
    using assms(2) by (auto simp: ArrowArray_def split: list.splits prod.splits)
  then have "(n, a) \<in> set (filter (\<lambda>(n, a). n = c) (rec_columns r))" by simp
  then have "(n, a) \<in> set (rec_columns r)" by auto
  then show "length (arr_cells a) = rec_rows r" "array_wf a" "length (arr_cells a) < 2 ^ 32"
    using assms(1) by (auto simp: record_wf_def list_all_iff)
qed

lemma array_wf_cell:
  "array_wf a \<Longrightarrow> i < length (arr_cells a) \<Longrightarrow> arr_cells a ! i = Some x \<Longrightarrow> type_of_cell (arr_type a) x"
  using nth_mem [of i "arr_cells a"] by (auto simp: array_wf_def list_all_iff)

lemmas array_ops =
  FixedSizeBinaryArrayScalarEqual_def FixedSizeBinaryArrayScalarNotEqual_def StringArrayScalarEqual_def
  StringArrayScalarNotEqual_def BinaryArrayScalarEqual_def BinaryArrayScalarNotEqual_def
  Int64ArrayScalarEqual_def Int64ArrayScalarNotEqual_def Int64ArrayScalarLessThan_def
  Int64ArrayScalarLessThanOrEqual_def Int64ArrayScalarGreaterThan_def
  Int64ArrayScalarGreaterThanOrEqual_def BooleanArrayScalarEqual_def BooleanArrayScalarNotEqual_def
  DictionaryArrayScalarEqual_def DictionaryArrayScalarNotEqual_def

lemma type_of_cell_iff [simp]:
  "type_of_cell T_Boolean x \<longleftrightarrow> (\<exists>b. x = C_Bool b)"
  "type_of_cell T_Int64 x \<longleftrightarrow> (\<exists>v. x = C_Int v)"
  "type_of_cell T_String x \<longleftrightarrow> (\<exists>v. x = C_Bytes v)"
  "type_of_cell T_Binary x \<longleftrightarrow> (\<exists>v. x = C_Bytes v)"
  "type_of_cell T_DictBinary x \<longleftrightarrow> (\<exists>v. x = C_Bytes v)"
  "type_of_cell T_DictString x \<longleftrightarrow> (\<exists>v. x = C_Bytes v)"
  by (cases x; simp)+

text \<open>Every comparison of an array tests its cells one by one.\<close>

definition cell_ok :: "arrow_type \<Rightarrow> cell option \<Rightarrow> bool" where
  "cell_ok ty c \<longleftrightarrow> (case c of None \<Rightarrow> True | Some x \<Rightarrow> type_of_cell ty x)"

lemma dict_test:
  assumes "is_dict (arr_type a)" "BinaryScalarOperation a right op = Inr b"
  shows "\<exists>p. b = array_bitmap p a \<and> (\<forall>c. cell_ok (arr_type a) c \<longrightarrow> p c = cell_matches (arr_type a) op right c)"
proof -
  define test where
    "test q = (if right = Some S_Null then (\<lambda>c. (c = None) = q) else skip_null (dict_bytes a (\<lambda>s. (s = scalar_data right) = q)))"
    for q
  have ops: "op = OpEq \<and> b = array_bitmap (test True) a \<or> op = OpNotEq \<and> b = array_bitmap (test False) a"
  proof -
    consider "arr_type a = T_DictBinary" | "arr_type a = T_DictString" | "arr_type a = T_DictOther"
      using assms(1) by (auto simp: is_dict_def)
    then have "(case op of OpEq \<Rightarrow> Inr (DictionaryArrayScalarEqual a right) | OpNotEq \<Rightarrow> Inr (DictionaryArrayScalarNotEqual a right)
        | _ \<Rightarrow> Inl (E_UnsupportedOperator op)) = Inr b"
      using assms(2) by cases (simp_all add: BinaryScalarOperation_def)
    then show ?thesis by (cases op; cases "right = Some S_Null") (simp_all add: array_ops test_def)
  qed
  have "test True c = cell_matches (arr_type a) OpEq right c \<and> test False c = cell_matches (arr_type a) OpNotEq right c"
    if ok: "cell_ok (arr_type a) c" for c
  proof (cases c)
    case None
    then show ?thesis using assms(1) by (simp add: test_def cell_matches_def skip_null_def)
  next
    case (Some x)
    show ?thesis
    proof (cases "arr_type a = T_DictOther \<or> right = Some S_Null")
      case True
      then show ?thesis using assms(1) Some
        by (auto simp: test_def cell_matches_def skip_null_def dict_bytes_def)
    next
      case False
      then obtain s where "x = C_Bytes s"
        using ok Some assms(1) by (auto simp: is_dict_def cell_ok_def)
      then show ?thesis using assms(1) Some False
        by (auto simp: test_def cell_matches_def skip_null_def dict_bytes_def is_dict_def)
    qed
  qed
  then show ?thesis using ops by blast
qed

lemma BinaryScalarOperation_test:
  assumes "BinaryScalarOperation a right op = Inr b"
  shows "\<exists>p. b = array_bitmap p a \<and> (\<forall>c. cell_ok (arr_type a) c \<longrightarrow> p c = cell_matches (arr_type a) op right c)"
proof -
  note defs = BinaryScalarOperation_def array_ops cell_matches_def cell_ok_def is_dict_def skip_null_def add_null_def
    dict_bytes_def
  show ?thesis
  proof (cases "arr_type a")
    case T_Boolean
    then show ?thesis using assms
      by (auto simp: defs intro!: exI conjI split: Op.splits option.splits scalar.splits)
  next
    case T_String
    then show ?thesis using assms
      by (auto simp: defs intro!: exI conjI split: Op.splits option.splits scalar.splits)
  next
    case T_Binary
    then show ?thesis using assms
      by (auto simp: defs intro!: exI conjI split: Op.splits option.splits scalar.splits)
  next
    case T_Int64
    then show ?thesis using assms
      by (auto simp: defs intro!: exI conjI split: Op.splits option.splits scalar.splits)
  qed (use assms dict_test [of a right op b] in \<open>simp_all add: BinaryScalarOperation_def is_dict_def\<close>)
qed

lemma BinaryScalarOperation_rows:
  assumes "BinaryScalarOperation a right op = Inr b" "array_wf a" "length (arr_cells a) < 2 ^ 32"
  shows "b = {i. i < length (arr_cells a) \<and> cell_matches (arr_type a) op right (arr_cells a ! i)}"
proof -
  obtain p where p: "b = array_bitmap p a"
    "\<And>c. cell_ok (arr_type a) c \<Longrightarrow> p c = cell_matches (arr_type a) op right c"
    using BinaryScalarOperation_test [OF assms(1)] by blast
  have "cell_ok (arr_type a) (arr_cells a ! i)" if "i < length (arr_cells a)" for i
    using array_wf_cell [OF assms(2) that] by (auto simp: cell_ok_def split: option.splits)
  then show ?thesis using p array_bitmap_eq [OF assms(3), of p] by auto
qed

lemma skip_null_bytes: "skip_null (is_bytes q) = regex_cell q"
proof (rule ext)
  fix c
  show "skip_null (is_bytes q) c = regex_cell q c"
  proof (cases c)
    case (Some x)
    then show ?thesis by (cases x) (simp_all add: skip_null_def regex_cell_def)
  qed (simp add: skip_null_def regex_cell_def)
qed

lemma regex_dispatch:
  "ArrayScalarRegexMatch rx a pat =
     (if arr_type a \<in> {T_Binary, T_String, T_DictBinary} then Inr (array_bitmap (skip_null (is_bytes (rx pat))) a)
      else Inl E_UnsupportedRegexType)"
  "ArrayScalarRegexNotMatch rx a pat =
     (if arr_type a \<in> {T_Binary, T_String, T_DictBinary} then Inr (array_bitmap (skip_null (is_bytes (\<lambda>s. \<not> rx pat s))) a)
      else Inl E_UnsupportedRegexType)"
  by (cases "arr_type a"; simp add: ArrayScalarRegexMatch_def ArrayScalarRegexNotMatch_def BinaryArrayScalarRegexMatch_def
      BinaryArrayScalarRegexNotMatch_def StringArrayScalarRegexMatch_def StringArrayScalarRegexNotMatch_def
      BinaryDictionaryArrayScalarRegexMatch_def BinaryDictionaryArrayScalarRegexNotMatch_def)+

lemma regex_rows:
  assumes "length (arr_cells a) < 2 ^ 32"
  shows "array_bitmap (skip_null (is_bytes q)) a =
    {i. i < length (arr_cells a) \<and> regex_cell q (arr_cells a ! i)}"
  unfolding skip_null_bytes by (rule array_bitmap_eq [OF assms])

lemma Eval_rows:
  assumes "record_wf r" "Eval rx e r = Inr b"
  shows "b = {i. i < rec_rows r \<and> row_holds rx e r i}"
  using assms(2)
proof (induction e arbitrary: b)
  case (BinaryScalarExpr c op right)
  show ?case
  proof (cases "ArrowArray c r")
    case None
    then show ?thesis using BinaryScalarExpr
      by (auto simp: BinaryScalarExpr_Eval_def all_rows_def split: Op.splits option.splits scalar.splits if_splits)
  next
    case (Some a)
    note wf = ArrowArray_wf [OF assms(1) Some]
    show ?thesis
      using BinaryScalarExpr Some BinaryScalarOperation_rows [OF _ wf(2,3)] wf(1)
      by (simp add: BinaryScalarExpr_Eval_def)
  qed
next
  case (RegExpFilter c notMatch pat)
  show ?case
  proof (cases "ArrowArray c r")
    case None
    have "(\<lambda>i. i mod 2 ^ 32) ` {i. i < rec_rows r} = {i. i < rec_rows r}"
      using mod_small_image [of "rec_rows r" "\<lambda>_. True"] assms(1) by (simp add: record_wf_def)
    then show ?thesis using RegExpFilter None
      by (auto simp: RegExpFilter_Eval_def Let_def atLeast0LessThan lessThan_def split: if_splits)
  next
    case (Some a)
    note wf = ArrowArray_wf [OF assms(1) Some]
    show ?thesis
      using RegExpFilter Some wf(1) regex_rows [OF wf(3)]
      by (cases notMatch) (simp_all add: RegExpFilter_Eval_def regex_dispatch split: if_splits)
  qed
qed auto

section \<open>Ranges of indices\<close>

definition expand :: "32 word \<times> 32 word \<Rightarrow> nat list" where
  "expand r = [unat (fst r)..<unat (snd r)]"

text \<open>Ranges that are not empty, in increasing order and with a gap between each two.\<close>

fun separated :: "(32 word \<times> 32 word) list \<Rightarrow> bool" where
  "separated [] \<longleftrightarrow> True"
| "separated [(s, e)] \<longleftrightarrow> s < e"
| "separated ((s, e) # (s', e') # rs) \<longleftrightarrow> s < e \<and> e < s' \<and> separated ((s', e') # rs)"

lemma unat_Suc_32: "unat (i :: 32 word) + 1 < 2 ^ 32 \<Longrightarrow> unat (i + 1) = unat i + 1"
  using unat_add_lem [of i 1] by simp

lemma extend_ranges_spec:
  assumes "s < e" "sorted_wrt (<) ixs" "\<And>i. i \<in> set ixs \<Longrightarrow> e \<le> i \<and> unat i + 1 < 2 ^ 32"
  shows "concat (map expand (extend_ranges (s, e) ixs)) = [unat s..<unat e] @ map unat ixs \<and>
    separated (extend_ranges (s, e) ixs) \<and> (\<exists>e' rs. extend_ranges (s, e) ixs = (s, e') # rs)"
  using assms
proof (induction ixs arbitrary: s e)
  case Nil
  then show ?case by (simp add: expand_def)
next
  case (Cons i ixs)
  have lt: "i < j" if "j \<in> set ixs" for j using Cons.prems(2) that by simp
  have up: "unat (i + 1) = unat i + 1" using Cons.prems(3) [of i] unat_Suc_32 [of i] by simp
  have next_le: "i + 1 \<le> j" if "j \<in> set ixs" for j
    using lt [OF that] up by (simp add: word_le_nat_alt word_less_nat_alt)
  have i_lt: "i < i + 1" using up by (simp add: word_less_nat_alt)
  show ?case
  proof (cases "i = e")
    case True
    have "s < e + 1" using Cons.prems(1) True i_lt by simp
    moreover have "[unat s..<unat (e + 1)] = [unat s..<unat e] @ [unat e]"
      using up True Cons.prems(1) by (simp add: word_less_nat_alt)
    ultimately show ?thesis
      using True Cons.IH [of s "e + 1"] Cons.prems(2,3) next_le by auto
  next
    case False
    then have "e < i" using Cons.prems(3) [of i] by (auto simp: less_le)
    moreover have "expand (s, e) = [unat s..<unat e]" by (simp add: expand_def)
    moreover have "[unat i..<unat (i + 1)] = [unat i]" using up by simp
    ultimately show ?thesis
      using False Cons.IH [OF i_lt] Cons.prems next_le by auto
  qed
qed

lemma buildIndexRanges_total:
  assumes "sorted_wrt (<) ixs" "ixs \<noteq> []" "\<forall>i \<in> set ixs. unat i + 1 < 2 ^ 32"
  obtains ranges where "buildIndexRanges ixs = Some ranges" "concat (map expand ranges) = map unat ixs" "separated ranges"
proof -
  obtain i js where ix: "ixs = i # js" using assms(2) by (cases ixs) auto
  have up: "unat (i + 1) = unat i + 1" using assms(3) ix unat_Suc_32 [of i] by simp
  have "i < i + 1" using up by (simp add: word_less_nat_alt)
  moreover have "i + 1 \<le> j \<and> unat j + 1 < 2 ^ 32" if "j \<in> set js" for j
    using assms ix that up by (auto simp: word_le_nat_alt word_less_nat_alt)
  ultimately show ?thesis
    using that extend_ranges_spec [of i "i + 1" js] assms(1) ix up by (auto simp: buildIndexRanges_def)
qed

text \<open>\<open>buildIndexRanges\<close> loses and adds no index and gives the fewest ranges: for
  increasing indices below the largest \<open>uint32\<close>, the ranges list exactly the indices, in order, none
  is empty, and between two ranges at least one index is missing.\<close>

theorem buildIndexRanges_exact:
  assumes "sorted_wrt (<) ixs" "ixs \<noteq> []" "\<forall>i \<in> set ixs. unat i + 1 < 2 ^ 32"
  shows "\<exists>ranges. buildIndexRanges ixs = Some ranges \<and> concat (map expand ranges) = map unat ixs \<and> separated ranges"
  using buildIndexRanges_total [OF assms] by blast

theorem buildIndexRanges_exact_witness:
  "\<exists>ranges. buildIndexRanges [1, 2, 7, 8, 9] = Some ranges \<and>
     concat (map expand ranges) = map unat [1, 2, 7, 8, 9 :: 32 word] \<and> separated ranges"
  by (rule buildIndexRanges_exact) simp_all

section \<open>The filter\<close>

lemma slice_nth: "to \<le> length xs \<Longrightarrow> slice from to xs = map ((!) xs) [from..<to]"
  by (rule nth_equalityI) (auto simp: slice_def)

lemma NewSlice_column:
  "i < length (rec_columns r) \<Longrightarrow>
   arr_cells (snd (rec_columns (NewSlice r from to) ! i)) = slice from to (arr_cells (snd (rec_columns r ! i)))"
  by (simp add: NewSlice_def split: prod.splits)

lemma ranges_column:
  assumes "\<And>k. k \<in> set (concat (map expand ranges)) \<Longrightarrow> k < n" "separated ranges" "length xs = n"
  shows "concat (map (\<lambda>(s, e). slice (unat s) (unat e) xs) ranges) = map ((!) xs) (concat (map expand ranges))"
    and "sum_list (map (\<lambda>(s, e). unat (e - s)) ranges) = length (concat (map expand ranges))"
  using assms
proof (induction ranges rule: separated.induct)
  case (2 s e)
  {
    case 1
    have "unat e - 1 \<in> set (expand (s, e))" using 1(2) by (auto simp: expand_def word_less_nat_alt)
    then have "unat e \<le> length xs" using 1(1) [of "unat e - 1"] 1(3) by auto
    then show ?case by (simp add: slice_nth expand_def)
  next
    case 2
    then show ?case by (simp add: expand_def unat_sub less_imp_le)
  }
next
  case (3 s e s' e' rs)
  {
    case 1
    have "unat e - 1 \<in> set (expand (s, e))" using 1(2) by (auto simp: expand_def word_less_nat_alt)
    then have "unat e \<le> length xs" using 1(1) [of "unat e - 1"] 1(3) by auto
    then have "slice (unat s) (unat e) xs = map ((!) xs) (expand (s, e))" by (simp add: slice_nth expand_def)
    then show ?case using 3(1) 1 by auto
  next
    case 2
    then show ?case using 3(2) by (auto simp: expand_def unat_sub less_imp_le)
  }
qed simp_all

definition keep_rows :: "nat list \<Rightarrow> arrow_record \<Rightarrow> arrow_record" where
  "keep_rows keep r =
     \<lparr>rec_columns = map (\<lambda>(n, a). (n, a\<lparr>arr_cells := map ((!) (arr_cells a)) keep\<rparr>)) (rec_columns r),
      rec_rows = length keep\<rparr>"

lemma set_cells: "(a :: arrow_array)\<lparr>arr_cells := cs\<rparr> = \<lparr>arr_type = arr_type a, arr_cells = cs\<rparr>"
  by (cases a) simp

lemma ToArray_rows:
  fixes n :: nat
  shows "ToArray {i. i < n \<and> P i} = filter P [0..<n]"
proof -
  have "set (filter P [0..<n]) = {i. i < n \<and> P i}" by auto
  moreover have "sorted (filter P [0..<n])" "distinct (filter P [0..<n])" by (simp_all add: sorted_wrt_filter)
  ultimately show ?thesis
    unfolding ToArray_def using sorted_list_of_set.idem_if_sorted_distinct [of "filter P [0..<n]"] by simp
qed

lemma filter_record_total:
  assumes "record_wf r" "Eval rx e r = Inr b"
  shows "filter_record rx e r =
    (let keep = filter (row_holds rx e r) [0..<rec_rows r]
     in Inr (if keep = [] then None else Some (keep_rows keep r)))"
proof (cases "b = {}")
  case True
  then have "filter (row_holds rx e r) [0..<rec_rows r] = []"
    using Eval_rows [OF assms] by (auto simp: filter_empty_conv)
  then show ?thesis using True assms by (simp add: filter_record_def Let_def)
next
  case False
  let ?keep = "filter (row_holds rx e r) [0..<rec_rows r]"
  have arr: "ToArray b = ?keep" using Eval_rows [OF assms] ToArray_rows by simp
  have ne: "?keep \<noteq> []" using False Eval_rows [OF assms] by (auto simp: filter_empty_conv)
  have n: "rec_rows r < 2 ^ 32" using assms(1) by (simp add: record_wf_def)
  have conv: "map unat (map of_nat ?keep :: 32 word list) = ?keep"
    using n by (auto simp: o_def unat_of_nat intro!: map_idI)
  have "sorted_wrt (<) (map of_nat ?keep :: 32 word list)"
  proof -
    have "sorted_wrt (<) ?keep" by (simp add: sorted_wrt_filter)
    moreover have "(of_nat i :: 32 word) < of_nat j" if "i \<in> set ?keep" "j \<in> set ?keep" "i < j" for i j
    proof -
      have "i < 2 ^ 32" "j < 2 ^ 32" using that(1,2) n by auto
      then show ?thesis using that(3) by (simp add: word_less_nat_alt unat_of_nat)
    qed
    ultimately have "sorted_wrt (\<lambda>i j. (of_nat i :: 32 word) < of_nat j) ?keep"
      by (rule sorted_wrt_mono_rel [rotated])
    then show ?thesis by (simp add: sorted_wrt_map)
  qed
  moreover have "\<forall>i \<in> set (map of_nat ?keep :: 32 word list). unat i + 1 < 2 ^ 32"
    using n by (auto simp: unat_of_nat)
  ultimately obtain ranges where rs: "buildIndexRanges (map of_nat ?keep) = Some ranges"
    "concat (map expand ranges) = ?keep" "separated ranges"
    using conv ne by (elim buildIndexRanges_total) auto
  have cells: "concat (map (\<lambda>rr. arr_cells (snd (rec_columns rr ! i))) (map (\<lambda>(s, e). NewSlice r (unat s) (unat e)) ranges)) =
      map ((!) (arr_cells (snd (rec_columns r ! i)))) ?keep"
    if "i < length (rec_columns r)" for i
  proof -
    have len: "length (arr_cells (snd (rec_columns r ! i))) = rec_rows r"
      using assms(1) nth_mem [OF that] by (cases "rec_columns r ! i") (fastforce simp: record_wf_def list_all_iff)
    have "concat (map (\<lambda>rr. arr_cells (snd (rec_columns rr ! i))) (map (\<lambda>(s, e). NewSlice r (unat s) (unat e)) ranges)) =
        concat (map (\<lambda>(s, e). slice (unat s) (unat e) (arr_cells (snd (rec_columns r ! i)))) ranges)"
      by (rule arg_cong [of _ _ concat]) (auto simp: NewSlice_column [OF that])
    then show "concat (map (\<lambda>rr. arr_cells (snd (rec_columns rr ! i))) (map (\<lambda>(s, e). NewSlice r (unat s) (unat e)) ranges)) =
        map ((!) (arr_cells (snd (rec_columns r ! i)))) ?keep"
      using ranges_column(1) [OF _ rs(3) len] rs(2) by simp
  qed
  have total': "sum_list (map (\<lambda>(s, e). unat (e - s)) ranges) = length ?keep"
    using ranges_column(2) [OF _ rs(3), of "rec_rows r" "replicate (rec_rows r) 0"] rs(2) by simp
  have "map (\<lambda>i. (fst (rec_columns r ! i), \<lparr>arr_type = arr_type (snd (rec_columns r ! i)),
          arr_cells = concat (map (\<lambda>rr. arr_cells (snd (rec_columns rr ! i)))
            (map (\<lambda>(s, e). NewSlice r (unat s) (unat e)) ranges))\<rparr>)) [0..<length (rec_columns r)] =
      map (\<lambda>(n, a). (n, a\<lparr>arr_cells := map ((!) (arr_cells a)) ?keep\<rparr>)) (rec_columns r)"
    by (rule nth_equalityI) (simp_all add: cells [unfolded case_prod_unfold] case_prod_unfold set_cells del: map_map)
  then show ?thesis
    using assms(2) False ne rs(1) arr total'
    by (simp add: filter_record_def keep_rows_def Let_def del: map_map map_eq_conv)
qed

lemma Callback_total:
  assumes "record_wf r" "Eval rx e r = Inr b" "filter (row_holds rx e r) [0..<rec_rows r] = keep"
  shows "Callback rx e r = Inr (if keep = [] then [] else [keep_rows keep r])"
  using filter_record_total [OF assms(1,2)] assms(3) by (simp add: Callback_def Let_def)

text \<open>C4: The vectorised predicate filter is equivalent to testing row by row: whenever the
  filter evaluates without error on a record, it passes on exactly the rows that satisfy the
  filter expression, in order and with every column, and passes nothing on when there is none.\<close>

theorem filter_record_exact:
  assumes "record_wf r" "filter_record rx e r = Inr out"
  shows "out = (let keep = filter (row_holds rx e r) [0..<rec_rows r]
                in if keep = [] then None else Some (keep_rows keep r))"
proof -
  obtain b where "Eval rx e r = Inr b" using assms(2) by (auto simp: filter_record_def)
  then show ?thesis using filter_record_total [OF assms(1)] assms(2) by (simp add: Let_def)
qed

section \<open>Filters in sequence\<close>

text \<open>The chain of predicate filters above a scan: each passes its output on to the next.\<close>

fun run_filters :: "(string \<Rightarrow> string \<Rightarrow> bool) \<Rightarrow> BooleanExpression list \<Rightarrow> arrow_record \<Rightarrow> (filter_error, arrow_record list) result" where
  "run_filters rx [] r = Inr [r]"
| "run_filters rx (e # es) r =
     bind_result (filter_record rx e r) (\<lambda>filtered. case filtered of None \<Rightarrow> Inr [] | Some r' \<Rightarrow> run_filters rx es r')"

lemma ArrowArray_keep:
  "ArrowArray c (keep_rows keep r) = map_option (\<lambda>a. a\<lparr>arr_cells := map ((!) (arr_cells a)) keep\<rparr>) (ArrowArray c r)"
proof -
  have "filter (\<lambda>(n, a). n = c) (rec_columns (keep_rows keep r)) =
      map (\<lambda>(n, a). (n, a\<lparr>arr_cells := map ((!) (arr_cells a)) keep\<rparr>)) (filter (\<lambda>(n, a). n = c) (rec_columns r))"
    by (simp add: keep_rows_def filter_map o_def case_prod_unfold)
  then show ?thesis by (auto simp: ArrowArray_def split: list.splits)
qed

lemma row_holds_keep:
  "j < length keep \<Longrightarrow> row_holds rx e (keep_rows keep r) j = row_holds rx e r (keep ! j)"
  by (induction e) (auto simp: ArrowArray_keep split: option.splits)

lemma BinaryScalarOperation_ok:
  assumes "arr_type a = arr_type a'" "BinaryScalarOperation a right op = Inr b"
  shows "\<exists>b'. BinaryScalarOperation a' right op = Inr b'"
proof (cases "arr_type a")
  case T_Int64
  then show ?thesis using assms
    by (cases right; simp add: BinaryScalarOperation_def split: scalar.splits; cases op; simp)
next
  case T_Binary
  then show ?thesis using assms
    by (cases right; simp add: BinaryScalarOperation_def; cases op; simp split: scalar.splits)
next
  case T_String
  then show ?thesis using assms
    by (cases right; simp add: BinaryScalarOperation_def; cases op; simp split: scalar.splits)
next
  case T_Boolean
  then show ?thesis using assms
    by (cases right; simp add: BinaryScalarOperation_def; cases op; simp split: scalar.splits)
qed (use assms in \<open>(cases op; simp add: BinaryScalarOperation_def)\<close>)+

lemma Eval_ok_keep:
  "Eval rx e (keep_rows keep r) = Inr b \<Longrightarrow> \<exists>b'. Eval rx e r = Inr b'"
proof (induction e arbitrary: b)
  case (BinaryScalarExpr c op right)
  show ?case
  proof (cases "ArrowArray c r")
    case None
    then show ?thesis using BinaryScalarExpr
      by (auto simp: BinaryScalarExpr_Eval_def ArrowArray_keep split: Op.splits option.splits scalar.splits)
  next
    case (Some a)
    then show ?thesis
      using BinaryScalarExpr BinaryScalarOperation_ok [of "a\<lparr>arr_cells := map ((!) (arr_cells a)) keep\<rparr>" a right op b]
      by (simp add: BinaryScalarExpr_Eval_def ArrowArray_keep)
  qed
next
  case (RegExpFilter c notMatch pat)
  then show ?case
    by (auto simp: RegExpFilter_Eval_def ArrowArray_keep regex_dispatch Let_def split: option.splits if_splits)
qed fastforce+

lemma array_wf_iff: "array_wf a \<longleftrightarrow> (\<forall>c \<in> set (arr_cells a). cell_ok (arr_type a) c)"
  by (simp add: array_wf_def cell_ok_def list_all_iff)

lemma record_wf_keep:
  assumes "record_wf r" "set keep \<subseteq> {..<rec_rows r}" "length keep \<le> rec_rows r"
  shows "record_wf (keep_rows keep r)"
proof -
  have "array_wf (a\<lparr>arr_cells := map ((!) (arr_cells a)) keep\<rparr>)" if "(n, a) \<in> set (rec_columns r)" for n a
  proof -
    have "array_wf a" "length (arr_cells a) = rec_rows r" using assms(1) that by (auto simp: record_wf_def list_all_iff)
    then show ?thesis using assms(2) by (auto simp: array_wf_iff subset_eq)
  qed
  then show ?thesis using assms by (auto simp: record_wf_def keep_rows_def list_all_iff)
qed

text \<open>One filter of the chain that selects no row of the record makes the chain pass nothing on.\<close>

lemma run_filters_nothing:
  assumes "record_wf r" "e \<in> set es" "\<And>b. Eval rx e r = Inr b \<Longrightarrow> b = {}" "run_filters rx es r = Inr out"
  shows "out = []"
  using assms
proof (induction es arbitrary: r)
  case (Cons d es)
  obtain f where f: "filter_record rx d r = Inr f" using Cons.prems(4) by auto
  obtain b where b: "Eval rx d r = Inr b" using f by (auto simp: filter_record_def)
  let ?keep = "filter (row_holds rx d r) [0..<rec_rows r]"
  show ?case
  proof (cases "?keep = []")
    case True
    then show ?thesis using Cons.prems(4) filter_record_total [OF Cons.prems(1) b] by (auto simp: Let_def)
  next
    case False
    then have rest: "run_filters rx es (keep_rows ?keep r) = Inr out"
      using Cons.prems(4) filter_record_total [OF Cons.prems(1) b] by (auto simp: Let_def)
    have "e \<noteq> d"
      using False Cons.prems(3) b Eval_rows [OF Cons.prems(1) b] by (auto simp: filter_empty_conv)
    moreover have wf: "record_wf (keep_rows ?keep r)"
      using length_filter_le [of "row_holds rx d r" "[0..<rec_rows r]"]
      by (intro record_wf_keep [OF Cons.prems(1)]) auto
    moreover have "c = {}" if c: "Eval rx e (keep_rows ?keep r) = Inr c" for c
    proof -
      obtain b' where b': "Eval rx e r = Inr b'" using Eval_ok_keep [OF c] by blast
      then have none: "\<not> row_holds rx e r i" if "i < rec_rows r" for i
        using Cons.prems(3) Eval_rows [OF Cons.prems(1) b'] that by auto
      have "\<not> row_holds rx e (keep_rows ?keep r) j" if "j < length ?keep" for j
        using row_holds_keep [OF that] none nth_mem [OF that] by auto
      then show ?thesis using Eval_rows [OF wf c] by (auto simp: keep_rows_def)
    qed
    ultimately show ?thesis using Cons.IH [OF _ _ _ rest] Cons.prems(2) by auto
  qed
qed simp

definition sample_record :: arrow_record where
  "sample_record =
     \<lparr>rec_columns =
        [(''stacktrace'', \<lparr>arr_type = T_DictBinary,
            arr_cells = [Some (C_Bytes ''a''), None, Some (C_Bytes ''b''), Some (C_Bytes ''a'')]\<rparr>),
         (''timestamp'', \<lparr>arr_type = T_Int64, arr_cells = [Some (C_Int 1), Some (C_Int 2), Some (C_Int 3), Some (C_Int 9)]\<rparr>)],
      rec_rows = 4\<rparr>"

definition sample_filter :: BooleanExpression where
  "sample_filter = AndExpr (BinaryScalarExpr ''stacktrace'' OpEq (Some (S_String ''a'')))
                     (BinaryScalarExpr ''timestamp'' OpLt (Some (S_Int64 5)))"

theorem filter_record_exact_witness:
  "filter_record (\<lambda>_ _. False) sample_filter sample_record = Inr (Some (keep_rows [0] sample_record))"
proof -
  have wf: "record_wf sample_record"
    by (simp add: record_wf_def sample_record_def array_wf_def)
  obtain b where "Eval (\<lambda>_ _. False) sample_filter sample_record = Inr b"
    by (simp add: sample_filter_def sample_record_def BinaryScalarExpr_Eval_def ArrowArray_def BinaryScalarOperation_def)
  then obtain out where out: "filter_record (\<lambda>_ _. False) sample_filter sample_record = Inr out"
    using filter_record_total [OF wf] by (simp add: Let_def)
  have "filter (row_holds (\<lambda>_ _. False) sample_filter sample_record) [0..<rec_rows sample_record] = [0]"
    by code_simp
  then show ?thesis using filter_record_exact [OF wf out] out by simp
qed

end
