(* ===== verification/Row_Filter.thy ===== *)
theory Row_Filter
  imports Pred_Filter "HOL-Library.List_Lexorder" "HOL-Library.Char_ord"
begin

text \<open>
  Skipping row groups (\<open>query/expr/filter.go\<close>, \<open>query/expr/binaryscalarexpr.go\<close>, with
  \<open>ArrowScalarToParquetValue\<close> of \<open>pqarrow/parquet.go\<close>): a filter expression is compiled to a
  \<open>TrueNegativeFilter\<close>, which looks only at the statistics of a row group and answers false when no row of
  it can match.

  The comparison functions of the Parquet types belong to the Parquet library: \<open>Compare\<close> is a
  parameter with the laws of the locale \<open>parquet_types\<close>.
\<close>

section \<open>Parquet values and statistics\<close>

datatype pq_value = V_Null | V_Boolean bool | V_Int32 int | V_Int64 int | V_Int96 "64 word" | V_Float "32 word"
  | V_Double "64 word" | V_ByteArray string | V_FixedLenByteArray string

datatype pq_type = BooleanType | Int32Type | Int64Type | FloatType | DoubleType | ByteArrayType

record page_stats =
  MinValue :: pq_value
  MaxValue :: pq_value
  page_NullCount :: int

record column_chunk =
  ColumnIndex :: "(string, page_stats list) result"
  NumValues :: int
  BloomFilter :: "(pq_value \<Rightarrow> (string, bool) result) option"

record particulate =
  part_fields :: "string list"
  part_chunks :: "column_chunk list"

datatype prune_error = PE_Panic | PE_LeftNotColumn | PE_UnsupportedScalar | PE_UnsupportedExpr | PE_Read string

text \<open>\<open>compare\<close>: the type of the first value decides; a null or a 96-bit integer panics.\<close>

fun compare_values :: "(pq_type \<Rightarrow> pq_value \<Rightarrow> pq_value \<Rightarrow> int) \<Rightarrow> pq_value \<Rightarrow> pq_value \<Rightarrow> (prune_error, int) result" where
  "compare_values Compare (V_Int32 x) v2 = Inr (Compare Int32Type (V_Int32 x) v2)"
| "compare_values Compare (V_Int64 x) v2 = Inr (Compare Int64Type (V_Int64 x) v2)"
| "compare_values Compare (V_Float x) v2 = Inr (Compare FloatType (V_Float x) v2)"
| "compare_values Compare (V_Double x) v2 = Inr (Compare DoubleType (V_Double x) v2)"
| "compare_values Compare (V_ByteArray x) v2 = Inr (Compare ByteArrayType (V_ByteArray x) v2)"
| "compare_values Compare (V_FixedLenByteArray x) v2 = Inr (Compare ByteArrayType (V_FixedLenByteArray x) v2)"
| "compare_values Compare (V_Boolean x) v2 = Inr (Compare BooleanType (V_Boolean x) v2)"
| "compare_values Compare _ v2 = Inl PE_Panic"

text \<open>
  \<open>Min\<close> and \<open>Max\<close> over the pages; \<open>worse\<close> is the result of \<open>compare\<close> that replaces the
  value found so far. \<open>MinValue(0)\<close> of an index without pages is out of range.
\<close>

fun best_from :: "(pq_type \<Rightarrow> pq_value \<Rightarrow> pq_value \<Rightarrow> int) \<Rightarrow> int \<Rightarrow> pq_value \<Rightarrow> pq_value list \<Rightarrow> (prune_error, pq_value) result" where
  "best_from Compare worse m [] = Inr m"
| "best_from Compare worse m (v # vs) =
     (if m = V_Null then best_from Compare worse v vs
      else bind_result (compare_values Compare m v) (\<lambda>c. best_from Compare worse (if c = worse then v else m) vs))"

definition Min_index :: "(pq_type \<Rightarrow> pq_value \<Rightarrow> pq_value \<Rightarrow> int) \<Rightarrow> page_stats list \<Rightarrow> (prune_error, pq_value) result" where
  "Min_index Compare columnIndex =
     (case map MinValue columnIndex of [] \<Rightarrow> Inl PE_Panic | v # vs \<Rightarrow> best_from Compare 1 v vs)"

definition Max_index :: "(pq_type \<Rightarrow> pq_value \<Rightarrow> pq_value \<Rightarrow> int) \<Rightarrow> page_stats list \<Rightarrow> (prune_error, pq_value) result" where
  "Max_index Compare columnIndex =
     (case map MaxValue columnIndex of [] \<Rightarrow> Inl PE_Panic | v # vs \<Rightarrow> best_from Compare (- 1) v vs)"

definition NullCount :: "page_stats list \<Rightarrow> int" where
  "NullCount columnIndex = sum_list (map page_NullCount columnIndex)"

section \<open>Operations\<close>

text \<open>\<open>BinaryScalarOperation\<close> on the statistics of a column chunk.\<close>

definition check_equal :: "(pq_type \<Rightarrow> pq_value \<Rightarrow> pq_value \<Rightarrow> int) \<Rightarrow> column_chunk \<Rightarrow> page_stats list \<Rightarrow> pq_value \<Rightarrow> (prune_error, bool) result" where
  "check_equal Compare left ix right =
     (if right = V_Null then Inr (0 < NullCount ix)
      else if NullCount ix = NumValues left then Inr False
      else case BloomFilter left of
             None \<Rightarrow>
               bind_result (Max_index Compare ix) (\<lambda>mx. bind_result (compare_values Compare right mx) (\<lambda>c.
                 if \<not> c \<le> 0 then Inr False
                 else bind_result (Min_index Compare ix) (\<lambda>mn. bind_result (compare_values Compare right mn) (\<lambda>d.
                   Inr (0 \<le> d)))))
           | Some Check \<Rightarrow> (case Check right of Inl e \<Rightarrow> Inl (PE_Read e) | Inr ok \<Rightarrow> Inr ok))"

text \<open>An ordering comparison with the extreme value of the chunk; a null extreme decides nothing.\<close>

definition check_bound :: "(pq_type \<Rightarrow> pq_value \<Rightarrow> pq_value \<Rightarrow> int) \<Rightarrow> (prune_error, pq_value) result \<Rightarrow> pq_value \<Rightarrow> (int \<Rightarrow> bool) \<Rightarrow> (prune_error, bool) result" where
  "check_bound Compare extreme right test =
     bind_result extreme (\<lambda>x.
       if x = V_Null then Inr True else bind_result (compare_values Compare x right) (\<lambda>c. Inr (test c)))"

definition ChunkScalarOperation :: "(pq_type \<Rightarrow> pq_value \<Rightarrow> pq_value \<Rightarrow> int) \<Rightarrow> column_chunk \<Rightarrow> pq_value \<Rightarrow> Op \<Rightarrow> (prune_error, bool) result" where
  "ChunkScalarOperation Compare left right operator =
     (case ColumnIndex left of
        Inl e \<Rightarrow> Inl (PE_Read e)
      | Inr ix \<Rightarrow>
          if operator = OpEq then check_equal Compare left ix right
          else if right = V_Null then Inr True
          else if NullCount ix = NumValues left then Inr False
          else case operator of
                 OpLtEq \<Rightarrow> check_bound Compare (Min_index Compare ix) right (\<lambda>c. c \<le> 0)
               | OpLt \<Rightarrow> check_bound Compare (Min_index Compare ix) right (\<lambda>c. c < 0)
               | OpGt \<Rightarrow> check_bound Compare (Max_index Compare ix) right (\<lambda>c. 0 < c)
               | OpGtEq \<Rightarrow> check_bound Compare (Max_index Compare ix) right (\<lambda>c. 0 \<le> c)
               | _ \<Rightarrow> Inr True)"

fun findColumnIndex :: "string list \<Rightarrow> string \<Rightarrow> nat option" where
  "findColumnIndex [] columnName = None"
| "findColumnIndex (f # fs) columnName =
     (if f = columnName then Some 0 else map_option Suc (findColumnIndex fs columnName))"

definition ChunkRef :: "string \<Rightarrow> particulate \<Rightarrow> (prune_error, column_chunk option) result" where
  "ChunkRef columnName p =
     (case findColumnIndex (part_fields p) columnName of
        None \<Rightarrow> Inr None
      | Some i \<Rightarrow> if i < length (part_chunks p) then Inr (Some (part_chunks p ! i)) else Inl PE_Panic)"

text \<open>A row group without the column.\<close>

fun absent_chunk :: "Op \<Rightarrow> pq_value \<Rightarrow> bool" where
  "absent_chunk OpEq V_Null = True"
| "absent_chunk OpEq (V_ByteArray s) = (s = [])"
| "absent_chunk OpEq (V_FixedLenByteArray s) = (s = [])"
| "absent_chunk OpNotEq (V_ByteArray s) = (s \<noteq> [])"
| "absent_chunk OpNotEq (V_FixedLenByteArray s) = (s \<noteq> [])"
| "absent_chunk _ _ = False"

definition PruneScalar_Eval :: "(pq_type \<Rightarrow> pq_value \<Rightarrow> pq_value \<Rightarrow> int) \<Rightarrow> string \<Rightarrow> Op \<Rightarrow> pq_value \<Rightarrow> particulate \<Rightarrow> (prune_error, bool) result" where
  "PruneScalar_Eval Compare left op right p =
     bind_result (ChunkRef left p) (\<lambda>chunk.
       case chunk of
         None \<Rightarrow> Inr (absent_chunk op right)
       | Some leftData \<Rightarrow> ChunkScalarOperation Compare leftData right op)"

section \<open>Filters\<close>

datatype TrueNegativeFilter =
    AlwaysTrueFilter
  | PruneScalar string Op pq_value
  | PruneAnd TrueNegativeFilter TrueNegativeFilter
  | PruneOr TrueNegativeFilter TrueNegativeFilter

primrec Prune_Eval :: "(pq_type \<Rightarrow> pq_value \<Rightarrow> pq_value \<Rightarrow> int) \<Rightarrow> TrueNegativeFilter \<Rightarrow> particulate \<Rightarrow> (prune_error, bool) result" where
  "Prune_Eval Compare AlwaysTrueFilter p = Inr True"
| "Prune_Eval Compare (PruneScalar left op right) p = PruneScalar_Eval Compare left op right p"
| "Prune_Eval Compare (PruneAnd a b) p =
     bind_result (Prune_Eval Compare a p) (\<lambda>left. if \<not> left then Inr False else Prune_Eval Compare b p)"
| "Prune_Eval Compare (PruneOr a b) p =
     bind_result (Prune_Eval Compare a p) (\<lambda>left. if left then Inr True else Prune_Eval Compare b p)"

text \<open>
  \<open>ArrowScalarToParquetValue\<close>. A fixed-size binary is copied into 16 bytes; a longer one is
  out of range. A missing literal is the zero \<open>parquet.Value\<close>, which is null.
\<close>

fun ArrowScalarToParquetValue :: "scalar option \<Rightarrow> (prune_error, pq_value) result" where
  "ArrowScalarToParquetValue (Some (S_String s)) = Inr (V_ByteArray s)"
| "ArrowScalarToParquetValue (Some (S_Int64 x)) = Inr (V_Int64 x)"
| "ArrowScalarToParquetValue (Some (S_FixedSizeBinary d)) =
     (if length d \<le> 16 then Inr (V_FixedLenByteArray (d @ replicate (16 - length d) (CHR 0x00))) else Inl PE_Panic)"
| "ArrowScalarToParquetValue (Some (S_Boolean b)) = Inr (V_Boolean b)"
| "ArrowScalarToParquetValue (Some S_Null) = Inr V_Null"
| "ArrowScalarToParquetValue None = Inr V_Null"
| "ArrowScalarToParquetValue (Some _) = Inl PE_UnsupportedScalar"

fun prune_expr :: "Expr \<Rightarrow> (prune_error, TrueNegativeFilter) result" where
  "prune_expr (BinaryExpr l op r) =
     (if op \<in> {OpNotEq, OpLt, OpLtEq, OpGt, OpGtEq, OpEq} then
        (case left_column l of
           None \<Rightarrow> Inl PE_LeftNotColumn
         | Some c \<Rightarrow> bind_result (ArrowScalarToParquetValue (right_literal r)) (\<lambda>v. Inr (PruneScalar c op v)))
      else if op = OpAnd then
        bind_result (prune_expr l) (\<lambda>a. bind_result (prune_expr r) (\<lambda>b. Inr (PruneAnd a b)))
      else if op = OpOr then
        bind_result (prune_expr l) (\<lambda>a. bind_result (prune_expr r) (\<lambda>b. Inr (PruneOr a b)))
      else Inr AlwaysTrueFilter)"
| "prune_expr _ = Inl PE_UnsupportedExpr"

definition BooleanExpr :: "Expr option \<Rightarrow> (prune_error, TrueNegativeFilter) result" where
  "BooleanExpr e = (case e of None \<Rightarrow> Inr AlwaysTrueFilter | Some x \<Rightarrow> prune_expr x)"

end
