(* ===== verification/Prune_Sound.thy ===== *)
theory Prune_Sound
  imports Row_Filter
begin

text \<open>
  Why skipping a row group is sound: when the statistics of a row group describe the record that is
  read from it and the filter on the statistics answers false, the predicate filter of the query engine
  selects no row of that record. The hypotheses on single comparisons name the cases in which the two
  filters disagree; the last section shows that each of them is needed.
\<close>

section \<open>The Parquet types\<close>

text \<open>The values of the types on which the query engine compares, and their documented orders.\<close>

fun kind :: "pq_value \<Rightarrow> pq_type option" where
  "kind (V_Int64 _) = Some Int64Type"
| "kind (V_Boolean _) = Some BooleanType"
| "kind (V_ByteArray _) = Some ByteArrayType"
| "kind _ = None"

fun val_cmp :: "pq_value \<Rightarrow> pq_value \<Rightarrow> int" where
  "val_cmp (V_Int64 a) (V_Int64 b) = cmp3 a b"
| "val_cmp (V_Boolean a) (V_Boolean b) = cmp3 a b"
| "val_cmp (V_ByteArray a) (V_ByteArray b) = cmp3 a b"
| "val_cmp _ _ = 0"

locale parquet_types =
  fixes Compare :: "pq_type \<Rightarrow> pq_value \<Rightarrow> pq_value \<Rightarrow> int"
  assumes Compare_int64: "Compare Int64Type (V_Int64 a) (V_Int64 b) = cmp3 a b"
    and Compare_bool: "Compare BooleanType (V_Boolean x) (V_Boolean y) = cmp3 x y"
    and Compare_bytes: "Compare ByteArrayType (V_ByteArray s) (V_ByteArray t) = cmp3 s t"

interpretation pqv: cmp_order val_cmp "\<lambda>v. kind v = Some k" for k
proof
  fix a b c :: pq_value
  assume a: "kind a = Some k" and b: "kind b = Some k"
  then show "(val_cmp a b \<le> 0) = (0 \<le> val_cmp b a)"
    by (cases a; cases b) auto
  assume c: "kind c = Some k"
  show "val_cmp a b \<le> 0 \<Longrightarrow> val_cmp b c \<le> 0 \<Longrightarrow> val_cmp a c \<le> 0"
    using a b c by (cases a; cases b; cases c) auto
qed

lemma val_cmp_range: "val_cmp a b \<in> {- 1, 0, 1}"
  by (cases "(a, b)" rule: val_cmp.cases) (simp_all add: cmp3_def)

lemma val_cmp_eq: "kind a = Some k \<Longrightarrow> kind b = Some k \<Longrightarrow> val_cmp a b = 0 \<Longrightarrow> a = b"
  by (cases a; cases b) auto

section \<open>Statistics that describe an array\<close>

primrec cell_value :: "cell \<Rightarrow> pq_value" where
  "cell_value (C_Bool b) = V_Boolean b"
| "cell_value (C_Int x) = V_Int64 x"
| "cell_value (C_Bytes s) = V_ByteArray s"
| "cell_value (C_Float w) = V_Double w"

definition cell_vals :: "cell option list \<Rightarrow> pq_value list" where
  "cell_vals cs = map cell_value (List.map_filter id cs)"

text \<open>The smallest (\<open>w = 1\<close>) or largest (\<open>w = - 1\<close>) value of a page, null when all its cells are null.\<close>

definition extreme_of :: "int \<Rightarrow> pq_value \<Rightarrow> cell option list \<Rightarrow> bool" where
  "extreme_of w v cs \<longleftrightarrow>
     (let vs = cell_vals cs
      in if vs = [] then v = V_Null else v \<in> set vs \<and> list_all (\<lambda>y. w * val_cmp v y \<le> 0) vs)"

definition page_describes :: "cell option list \<Rightarrow> page_stats \<Rightarrow> bool" where
  "page_describes cs pg \<longleftrightarrow>
     page_NullCount pg = int (length (filter (\<lambda>c. c = None) cs)) \<and>
     extreme_of 1 (MinValue pg) cs \<and> extreme_of (- 1) (MaxValue pg) cs"

text \<open>No page of nulls follows a page with values.\<close>

definition nulls_first :: "pq_value list \<Rightarrow> bool" where
  "nulls_first vs \<longleftrightarrow> V_Null \<notin> set (dropWhile (\<lambda>v. v = V_Null) vs)"

definition bloom_describes :: "(pq_value \<Rightarrow> (string, bool) result) option \<Rightarrow> cell option list \<Rightarrow> bool" where
  "bloom_describes bloom cs \<longleftrightarrow>
     (case bloom of None \<Rightarrow> True | Some Check \<Rightarrow> list_all (\<lambda>v. Check v \<noteq> Inr False) (cell_vals cs))"

definition chunk_describes :: "column_chunk \<Rightarrow> arrow_array \<Rightarrow> bool" where
  "chunk_describes ch a \<longleftrightarrow>
     (\<exists>ix segs. ColumnIndex ch = Inr ix \<and> concat segs = arr_cells a \<and> list_all2 page_describes segs ix) \<and>
     NumValues ch = int (length (arr_cells a)) \<and> bloom_describes (BloomFilter ch) (arr_cells a)"

definition null_pages_first :: "column_chunk \<Rightarrow> bool" where
  "null_pages_first ch \<longleftrightarrow>
     (case ColumnIndex ch of Inl _ \<Rightarrow> True | Inr ix \<Rightarrow> nulls_first (map MinValue ix) \<and> nulls_first (map MaxValue ix))"

text \<open>The literal has the type of the column, as \<open>ValidateComparingTypes\<close> requires, or is null.\<close>

fun literal_fits :: "arrow_type \<Rightarrow> scalar option \<Rightarrow> bool" where
  "literal_fits _ (Some S_Null) \<longleftrightarrow> True"
| "literal_fits T_Int64 (Some (S_Int64 _)) \<longleftrightarrow> True"
| "literal_fits T_Boolean (Some (S_Boolean _)) \<longleftrightarrow> True"
| "literal_fits T_String (Some (S_String _)) \<longleftrightarrow> True"
| "literal_fits T_Binary (Some (S_String _)) \<longleftrightarrow> True"
| "literal_fits T_DictBinary (Some (S_String _)) \<longleftrightarrow> True"
| "literal_fits T_DictString (Some (S_String _)) \<longleftrightarrow> True"
| "literal_fits _ _ \<longleftrightarrow> False"

text \<open>On a missing column the two filters agree on the ordering comparisons, on null and on texts, except for \<open>!= ""\<close>.\<close>

fun absent_fits :: "Op \<Rightarrow> scalar option \<Rightarrow> bool" where
  "absent_fits OpEq (Some S_Null) \<longleftrightarrow> True"
| "absent_fits OpEq (Some (S_String _)) \<longleftrightarrow> True"
| "absent_fits OpEq _ \<longleftrightarrow> False"
| "absent_fits OpNotEq (Some S_Null) \<longleftrightarrow> True"
| "absent_fits OpNotEq (Some (S_String s)) \<longleftrightarrow> s \<noteq> []"
| "absent_fits OpNotEq _ \<longleftrightarrow> False"
| "absent_fits _ _ \<longleftrightarrow> True"

primrec all_comparisons :: "(string \<Rightarrow> Op \<Rightarrow> scalar option \<Rightarrow> bool) \<Rightarrow> BooleanExpression \<Rightarrow> bool" where
  "all_comparisons P (BinaryScalarExpr c op right) \<longleftrightarrow> P c op right"
| "all_comparisons P (RegExpFilter c notMatch pat) \<longleftrightarrow> True"
| "all_comparisons P (AndExpr a b) \<longleftrightarrow> all_comparisons P a \<and> all_comparisons P b"
| "all_comparisons P (OrExpr a b) \<longleftrightarrow> all_comparisons P a \<and> all_comparisons P b"

text \<open>
  The statistics are those of the record: every column of a comparison is missing in both or described by its chunk and of the
  type of the literal.
\<close>

definition described :: "particulate \<Rightarrow> arrow_record \<Rightarrow> string \<Rightarrow> scalar option \<Rightarrow> bool" where
  "described p r c right \<longleftrightarrow>
     (case ArrowArray c r of
        None \<Rightarrow> ChunkRef c p = Inr None
      | Some a \<Rightarrow> (\<exists>ch. ChunkRef c p = Inr (Some ch) \<and> chunk_describes ch a) \<and> literal_fits (arr_type a) right)"

definition describes :: "particulate \<Rightarrow> arrow_record \<Rightarrow> BooleanExpression \<Rightarrow> bool" where
  "describes p r be \<longleftrightarrow> all_comparisons (\<lambda>c op right. described p r c right) be"

text \<open>
  The cases in which the filter on the statistics rules out rows that the filter on the record selects, to be excluded: \<open>=\<close> and
  \<open>!=\<close> with a number or a boolean, and \<open>!= ""\<close>, on a column that the record lacks; \<open>!=\<close> on a plain column of nulls
  only; a page of nulls behind a page with values.
\<close>

definition absent_ok :: "arrow_record \<Rightarrow> string \<Rightarrow> Op \<Rightarrow> scalar option \<Rightarrow> bool" where
  "absent_ok r c op right \<longleftrightarrow> (case ArrowArray c r of None \<Rightarrow> absent_fits op right | Some a \<Rightarrow> True)"

definition nulls_ok :: "arrow_record \<Rightarrow> string \<Rightarrow> Op \<Rightarrow> bool" where
  "nulls_ok r c op \<longleftrightarrow>
     (case ArrowArray c r of
        None \<Rightarrow> True
      | Some a \<Rightarrow> op = OpNotEq \<longrightarrow> arr_type a \<in> {T_String, T_Binary, T_Int64} \<longrightarrow> (\<exists>x. Some x \<in> set (arr_cells a)))"

definition pages_ok :: "particulate \<Rightarrow> string \<Rightarrow> bool" where
  "pages_ok p c \<longleftrightarrow> (case ChunkRef c p of Inr (Some ch) \<Rightarrow> null_pages_first ch | _ \<Rightarrow> True)"

definition equality_on_absent :: "arrow_record \<Rightarrow> BooleanExpression \<Rightarrow> bool" where
  "equality_on_absent r be \<longleftrightarrow> \<not> all_comparisons (\<lambda>c op right. absent_ok r c op right) be"

definition unequal_on_nulls :: "arrow_record \<Rightarrow> BooleanExpression \<Rightarrow> bool" where
  "unequal_on_nulls r be \<longleftrightarrow> \<not> all_comparisons (\<lambda>c op right. nulls_ok r c op) be"

definition null_page_behind :: "particulate \<Rightarrow> BooleanExpression \<Rightarrow> bool" where
  "null_page_behind p be \<longleftrightarrow> \<not> all_comparisons (\<lambda>c op right. pages_ok p c) be"

definition comparison_ok :: "particulate \<Rightarrow> arrow_record \<Rightarrow> string \<Rightarrow> Op \<Rightarrow> scalar option \<Rightarrow> bool" where
  "comparison_ok p r c op right \<longleftrightarrow> described p r c right \<and> absent_ok r c op right \<and> nulls_ok r c op \<and> pages_ok p c"

lemma comparisons_ok:
  assumes "describes p r be" "\<not> equality_on_absent r be" "\<not> unequal_on_nulls r be" "\<not> null_page_behind p be"
  shows "all_comparisons (comparison_ok p r) be"
  using assms unfolding describes_def equality_on_absent_def unequal_on_nulls_def null_page_behind_def not_not
  by (induction be) (auto simp: comparison_ok_def)

section \<open>Bounds of a chunk\<close>

lemma set_cell_vals: "v \<in> set (cell_vals cs) \<longleftrightarrow> (\<exists>x. Some x \<in> set cs \<and> v = cell_value x)"
  by (induction cs) (auto simp: cell_vals_def map_filter_simps split: option.splits)

lemma cell_vals_append [simp]: "cell_vals (cs @ ds) = cell_vals cs @ cell_vals ds"
  by (induction cs) (auto simp: cell_vals_def map_filter_simps split: option.splits)

lemma cell_vals_Nil [simp]: "cell_vals [] = []"
  by (simp add: cell_vals_def map_filter_simps)

context parquet_types
begin

lemma compare_values_kind:
  "kind v = Some k \<Longrightarrow> kind v' = Some k \<Longrightarrow> compare_values Compare v v' = Inr (val_cmp v v')"
  by (cases v; cases v') (auto simp: Compare_int64 Compare_bool Compare_bytes)

text \<open>Over values of one type, \<open>Min\<close> and \<open>Max\<close> find an extreme one.\<close>

lemma best_from_extreme:
  assumes "w = 1 \<or> w = - 1" "\<forall>v \<in> set (m # vs). kind v = Some k"
  shows "\<exists>x. best_from Compare w m vs = Inr x \<and> kind x = Some k \<and> (\<forall>v \<in> set (m # vs). w * val_cmp x v \<le> 0)"
  using assms(2)
proof (induction vs arbitrary: m)
  case Nil
  then show ?case using pqv.cmp_refl [of m k] by auto
next
  case (Cons v vs)
  have km: "kind m = Some k" and kv: "kind v = Some k" and kvs: "\<forall>u \<in> set vs. kind u = Some k" using Cons.prems by auto
  let ?n = "if val_cmp m v = w then v else m"
  have nn: "m \<noteq> V_Null" using km by auto
  have kn: "\<forall>u \<in> set (?n # vs). kind u = Some k" using km kv kvs by auto
  obtain x where x: "best_from Compare w ?n vs = Inr x" "kind x = Some k" "\<forall>u \<in> set (?n # vs). w * val_cmp x u \<le> 0"
    using Cons.IH [OF kn] by blast
  have step: "w * val_cmp x m \<le> 0 \<and> w * val_cmp x v \<le> 0"
  proof -
    have xn: "w * val_cmp x ?n \<le> 0" using x(3) by simp
    have r: "val_cmp m v \<in> {- 1, 0, 1}" by (rule val_cmp_range)
    show ?thesis
    proof (cases "w = 1")
      case True
      show ?thesis
        using True xn r pqv.cmp_trans [OF x(2) km kv] pqv.cmp_trans [OF x(2) kv km]
          pqv.cmp_flip [OF km kv] pqv.cmp_less_flip [OF kv km] by (auto split: if_splits)
    next
      case False
      then have w: "w = - 1" using assms(1) by simp
      show ?thesis
        using w xn r pqv.cmp_trans [OF km kv x(2)] pqv.cmp_trans [OF kv km x(2)]
          pqv.cmp_flip [OF km x(2)] pqv.cmp_flip [OF kv x(2)] pqv.cmp_flip [OF kv km] by (auto split: if_splits)
    qed
  qed
  have "best_from Compare w m (v # vs) = Inr x"
    using nn x(1) by (simp add: compare_values_kind [OF km kv])
  then show ?case using x(2,3) step by auto
qed

lemma best_from_skip:
  "best_from Compare w m vs =
     (case dropWhile (\<lambda>v. v = V_Null) (m # vs) of [] \<Rightarrow> Inr V_Null | u # us \<Rightarrow> best_from Compare w u us)"
  by (induction vs arbitrary: m) auto

text \<open>The extreme value of a column index whose pages are described bounds every value of the chunk.\<close>

lemma index_bound:
  assumes "w = 1 \<or> w = - 1" "list_all2 (extreme_of w) vs segs" "nulls_first vs"
    and "\<forall>v \<in> set (cell_vals (concat segs)). kind v = Some k" "y \<in> set (cell_vals (concat segs))"
  shows "\<exists>x v us. vs = v # us \<and> best_from Compare w v us = Inr x \<and> kind x = Some k \<and> w * val_cmp x y \<le> 0"
proof -
  let ?us = "dropWhile (\<lambda>v. v = V_Null) vs"
  have page: "v = V_Null \<and> cell_vals cs = [] \<or>
      v \<in> set (cell_vals cs) \<and> (\<forall>u \<in> set (cell_vals cs). w * val_cmp v u \<le> 0)"
    if "extreme_of w v cs" for v cs
    using that by (auto simp: extreme_of_def Let_def list_all_iff split: if_splits)
  have conc: "set (cell_vals (concat segs)) = (\<Union>cs \<in> set segs. set (cell_vals cs))"
    by (induction segs) simp_all
  have kinds: "kind v = Some k" if v: "v \<in> set vs" and nonnull: "v \<noteq> V_Null" for v
  proof -
    obtain i where i: "i < length vs" "vs ! i = v" using v by (auto simp: in_set_conv_nth)
    then have "extreme_of w v (segs ! i)" "segs ! i \<in> set segs"
      using assms(2) by (auto simp: list_all2_conv_all_nth)
    then show ?thesis using page nonnull conc assms(4) by blast
  qed
  obtain cs where cs: "cs \<in> set segs" "y \<in> set (cell_vals cs)" using assms(5) conc by auto
  then obtain i where i: "i < length vs" "extreme_of w (vs ! i) cs"
    using assms(2) by (auto simp: list_all2_conv_all_nth in_set_conv_nth)
  have vi: "w * val_cmp (vs ! i) y \<le> 0" "vs ! i \<in> set (cell_vals cs)" using page [OF i(2)] cs(2) by auto
  have ki: "kind (vs ! i) = Some k" using vi(2) conc cs(1) assms(4) by blast
  have ky: "kind y = Some k" using assms(4,5) by blast
  have "vs ! i \<noteq> V_Null" using ki by auto
  then have mem: "vs ! i \<in> set ?us" using i(1) by (metis (mono_tags) nth_mem set_dropWhileD set_takeWhileD takeWhile_dropWhile_id Un_iff set_append)
  then obtain u us where us: "?us = u # us" by (cases ?us) auto
  have "\<forall>v \<in> set (u # us). kind v = Some k"
    using kinds assms(3) us set_dropWhileD [of _ "\<lambda>v. v = V_Null" vs] unfolding nulls_first_def by metis
  from best_from_extreme [OF assms(1) this] obtain x where
    x: "best_from Compare w u us = Inr x" "kind x = Some k" "\<forall>v \<in> set (u # us). w * val_cmp x v \<le> 0"
    by blast
  obtain v vs' where v: "vs = v # vs'" using i(1) by (cases vs) auto
  have "best_from Compare w v vs' = Inr x" using x(1) us v by (subst best_from_skip) simp
  moreover have "w * val_cmp x y \<le> 0"
  proof -
    have xi: "w * val_cmp x (vs ! i) \<le> 0" using x(3) mem us by auto
    show ?thesis
      using xi vi(1) assms(1) pqv.cmp_trans [OF x(2) ki ky] pqv.cmp_trans [OF ky ki x(2)]
        pqv.cmp_flip [OF ky ki] pqv.cmp_flip [OF ki x(2)] pqv.cmp_flip [OF ky x(2)] by auto
  qed
  ultimately show ?thesis using v x(2) by blast
qed

lemma chunk_extremes:
  assumes "chunk_describes ch a" "ColumnIndex ch = Inr ix" "null_pages_first ch"
    and "\<forall>v \<in> set (cell_vals (arr_cells a)). kind v = Some k" "y \<in> set (cell_vals (arr_cells a))"
  shows "\<exists>x. Min_index Compare ix = Inr x \<and> kind x = Some k \<and> val_cmp x y \<le> 0"
    and "\<exists>x. Max_index Compare ix = Inr x \<and> kind x = Some k \<and> 0 \<le> val_cmp x y"
proof -
  obtain segs where segs: "concat segs = arr_cells a" "list_all2 page_describes segs ix"
    "nulls_first (map MinValue ix)" "nulls_first (map MaxValue ix)"
    using assms(1-3) by (auto simp: chunk_describes_def null_pages_first_def)
  have "list_all2 (extreme_of 1) (map MinValue ix) segs" "list_all2 (extreme_of (- 1)) (map MaxValue ix) segs"
    using segs(2) by (simp_all add: list_all2_conv_all_nth page_describes_def)
  then show "\<exists>x. Min_index Compare ix = Inr x \<and> kind x = Some k \<and> val_cmp x y \<le> 0"
    and "\<exists>x. Max_index Compare ix = Inr x \<and> kind x = Some k \<and> 0 \<le> val_cmp x y"
    using index_bound [of 1 "map MinValue ix" segs k y] index_bound [of "- 1" "map MaxValue ix" segs k y]
      segs(1,3,4) assms(4,5)
    by (auto simp: Min_index_def Max_index_def split: list.splits)
qed

end

lemma page_nulls:
  "list_all2 page_describes segs ix \<Longrightarrow> NullCount ix = int (length (filter (\<lambda>c. c = None) (concat segs)))"
  by (induction rule: list_all2_induct) (simp_all add: NullCount_def page_describes_def)

lemma length_filter_all: "length (filter P cs) = length cs \<longleftrightarrow> (\<forall>c \<in> set cs. P c)"
proof (induction cs)
  case (Cons c cs)
  have "length (filter P cs) \<noteq> Suc (length cs)" using length_filter_le [of P cs] by linarith
  then show ?case using Cons by auto
qed simp

lemma chunk_nulls:
  assumes "chunk_describes ch a" "ColumnIndex ch = Inr ix"
  shows "0 < NullCount ix \<longleftrightarrow> None \<in> set (arr_cells a)"
    and "NullCount ix = NumValues ch \<longleftrightarrow> (\<forall>c \<in> set (arr_cells a). c = None)"
proof -
  obtain segs where "concat segs = arr_cells a" "list_all2 page_describes segs ix" "NumValues ch = int (length (arr_cells a))"
    using assms by (auto simp: chunk_describes_def)
  then show "0 < NullCount ix \<longleftrightarrow> None \<in> set (arr_cells a)"
    and "NullCount ix = NumValues ch \<longleftrightarrow> (\<forall>c \<in> set (arr_cells a). c = None)"
    by (auto simp: page_nulls filter_empty_conv length_filter_all)
qed

lemma fitting_literal:
  assumes "literal_fits (arr_type a) right" "ArrowScalarToParquetValue right = Inr v" "v \<noteq> V_Null" "array_wf a"
  obtains k where "kind v = Some k" "\<forall>y \<in> set (cell_vals (arr_cells a)). kind y = Some k"
proof -
  have "\<forall>y \<in> set (cell_vals (arr_cells a)). kind y = kind v" "kind v \<noteq> None"
    using assms by (cases "(arr_type a, right)" rule: literal_fits.cases;
      fastforce simp: set_cell_vals array_wf_def list_all_iff split: option.splits)+
  then show ?thesis using that by auto
qed

text \<open>What a match says of the value of the cell and the literal.\<close>

lemma match_value:
  assumes "literal_fits ty right" "ArrowScalarToParquetValue right = Inr v" "v \<noteq> V_Null" "type_of_cell ty x"
    and "cell_matches ty op right (Some x)"
  shows "case op of OpEq \<Rightarrow> cell_value x = v | OpLt \<Rightarrow> val_cmp (cell_value x) v < 0 | OpLtEq \<Rightarrow> val_cmp (cell_value x) v \<le> 0
    | OpGt \<Rightarrow> 0 < val_cmp (cell_value x) v | OpGtEq \<Rightarrow> 0 \<le> val_cmp (cell_value x) v | _ \<Rightarrow> True"
  using assms
  by (cases "(ty, right)" rule: literal_fits.cases; cases op; auto simp: cell_matches_def is_dict_def)

context parquet_types
begin

text \<open>A chunk whose statistics rule out a comparison has no cell that satisfies it.\<close>

lemma chunk_sound:
  assumes ch: "chunk_describes ch a" "null_pages_first ch" and wf: "array_wf a" and fits: "literal_fits (arr_type a) right"
    and ne: "op = OpNotEq \<Longrightarrow> arr_type a \<in> {T_String, T_Binary, T_Int64} \<Longrightarrow> \<exists>x. Some x \<in> set (arr_cells a)"
    and v: "ArrowScalarToParquetValue right = Inr v"
    and f: "ChunkScalarOperation Compare ch v op = Inr False" and b: "BinaryScalarOperation a right op = Inr b"
    and c: "c \<in> set (arr_cells a)"
  shows "\<not> cell_matches (arr_type a) op right c"
proof
  assume m: "cell_matches (arr_type a) op right c"
  obtain ix where ix: "ColumnIndex ch = Inr ix" using ch(1) by (auto simp: chunk_describes_def)
  note nulls = chunk_nulls [OF ch(1) ix]
  show False
  proof (cases "v = V_Null")
    case True
    then have null: "right = Some S_Null" using v fits by (cases "(arr_type a, right)" rule: literal_fits.cases) auto
    have "op = OpEq" using f ix True by (auto simp: ChunkScalarOperation_def split: if_splits)
    moreover have "None \<notin> set (arr_cells a)" using calculation f ix True nulls(1)
      by (simp add: ChunkScalarOperation_def check_equal_def)
    moreover have "is_dict (arr_type a)" using b null by (auto simp: BinaryScalarOperation_def is_dict_def split: arrow_type.splits Op.splits)
    ultimately show False using m c null by (cases c) (auto simp: cell_matches_def)
  next
    case nonnull: False
    then have r: "right \<noteq> Some S_Null" using v by auto
    show False
    proof (cases c)
      case None
      then have "op = OpNotEq" "arr_type a \<noteq> T_Boolean" "\<not> is_dict (arr_type a)"
        using m r by (auto simp: cell_matches_def split: if_splits)
      moreover have "arr_type a \<in> {T_String, T_Binary, T_Int64}"
        using calculation fits r by (cases "(arr_type a, right)" rule: literal_fits.cases) (auto simp: is_dict_def)
      moreover have "\<forall>c \<in> set (arr_cells a). c = None"
        using calculation(1) f ix nonnull nulls(2) by (auto simp: ChunkScalarOperation_def split: if_splits)
      ultimately show False using ne by fastforce
    next
      case (Some x)
      obtain k where k: "kind v = Some k" "\<forall>y \<in> set (cell_vals (arr_cells a)). kind y = Some k"
        by (rule fitting_literal [OF fits v nonnull wf])
      have y: "cell_value x \<in> set (cell_vals (arr_cells a))" using c Some by (auto simp: set_cell_vals)
      have ty: "type_of_cell (arr_type a) x" using wf c Some by (auto simp: array_wf_def list_all_iff)
      note mv = match_value [OF fits v nonnull ty m [unfolded Some]]
      have full: "NullCount ix \<noteq> NumValues ch" using nulls(2) c Some by auto
      obtain mn mx where mn: "Min_index Compare ix = Inr mn" "kind mn = Some k" "val_cmp mn (cell_value x) \<le> 0"
        and mx: "Max_index Compare ix = Inr mx" "kind mx = Some k" "0 \<le> val_cmp mx (cell_value x)"
        using chunk_extremes [OF ch(1) ix ch(2) k(2) y] by blast
      have ky: "kind (cell_value x) = Some k" using k(2) y by blast
      have nn: "mn \<noteq> V_Null" "mx \<noteq> V_Null" using mn(2) mx(2) by auto
      note cmps = compare_values_kind [OF mn(2) k(1)] compare_values_kind [OF mx(2) k(1)]
        compare_values_kind [OF k(1) mn(2)] compare_values_kind [OF k(1) mx(2)]
      have lower: "val_cmp (cell_value x) v \<le> 0 \<Longrightarrow> val_cmp mn v \<le> 0" "val_cmp (cell_value x) v < 0 \<Longrightarrow> val_cmp mn v < 0"
        using pqv.cmp_trans [OF mn(2) ky k(1) mn(3)] pqv.cmp_le_less_trans [OF mn(2) ky k(1) mn(3)] by auto
      have ge: "val_cmp (cell_value x) mx \<le> 0" using mx(3) pqv.cmp_flip [OF ky mx(2)] by simp
      have upper: "0 \<le> val_cmp (cell_value x) v \<Longrightarrow> 0 \<le> val_cmp mx v" "0 < val_cmp (cell_value x) v \<Longrightarrow> 0 < val_cmp mx v"
        using pqv.cmp_trans [OF k(1) ky mx(2) _ ge] pqv.cmp_less_trans [OF k(1) ky mx(2) _ ge]
          pqv.cmp_flip [OF k(1) ky] pqv.cmp_flip [OF k(1) mx(2)] pqv.cmp_less_flip [OF k(1) ky] pqv.cmp_less_flip [OF k(1) mx(2)]
        by auto
      have bloom: "Check v \<noteq> Inr False" if "BloomFilter ch = Some Check" "cell_value x = v" for Check
        using ch(1) that y by (auto simp: chunk_describes_def bloom_describes_def list_all_iff)
      have eq: "val_cmp v mx \<le> 0" "0 \<le> val_cmp v mn" if "cell_value x = v"
        using that ge mn(3) pqv.cmp_flip [OF mn(2) k(1)] by auto
      show False
        using f ix full nonnull mv lower upper bloom eq nn
        by (cases op)
          (auto simp: ChunkScalarOperation_def check_equal_def check_bound_def mn(1) mx(1) cmps split: option.splits sum.splits if_splits)
    qed
  qed
qed

lemma comparison_sound:
  assumes wf: "record_wf r" and ok: "comparison_ok p r c op right"
    and v: "ArrowScalarToParquetValue right = Inr v" and ops: "op \<in> {OpNotEq, OpLt, OpLtEq, OpGt, OpGtEq, OpEq}"
    and f: "PruneScalar_Eval Compare c op v p = Inr False" and b: "BinaryScalarExpr_Eval c op right r = Inr b"
  shows "b = {}"
proof -
  have rows: "b = {i. i < rec_rows r \<and> row_holds rx (BinaryScalarExpr c op right) r i}" for rx
    using Eval_rows [OF wf, of rx "BinaryScalarExpr c op right"] b by simp
  show ?thesis
  proof (cases "ArrowArray c r")
    case None
    then have "ChunkRef c p = Inr None" "absent_fits op right" using ok by (auto simp: comparison_ok_def described_def absent_ok_def)
    then have "\<not> absent_matches op right" using f v ops
      by (cases "(op, right)" rule: absent_fits.cases) (auto simp: PruneScalar_Eval_def)
    then show ?thesis using rows None by simp
  next
    case (Some a)
    note awf = ArrowArray_wf [OF wf Some]
    obtain ch where ch: "ChunkRef c p = Inr (Some ch)" "chunk_describes ch a" "null_pages_first ch" "literal_fits (arr_type a) right"
      "op = OpNotEq \<longrightarrow> arr_type a \<in> {T_String, T_Binary, T_Int64} \<longrightarrow> (\<exists>x. Some x \<in> set (arr_cells a))"
      using ok Some by (auto simp: comparison_ok_def described_def nulls_ok_def pages_ok_def)
    have f': "ChunkScalarOperation Compare ch v op = Inr False" using f ch(1) by (simp add: PruneScalar_Eval_def)
    have b': "BinaryScalarOperation a right op = Inr b" using b Some by (simp add: BinaryScalarExpr_Eval_def)
    have "\<not> cell_matches (arr_type a) op right (arr_cells a ! i)" if "i < rec_rows r" for i
      using chunk_sound [OF ch(2,3) awf(2) ch(4) _ v f' b'] ch(5) that awf(1) by auto
    then show ?thesis using rows Some by auto
  qed
qed

lemma prune_sound:
  assumes "record_wf r" "booleanExpr rx_ok e = Inr be" "prune_expr e = Inr f" "all_comparisons (comparison_ok p r) be"
    and "Prune_Eval Compare f p = Inr False" "Eval rx be r = Inr b"
  shows "b = {}"
  using assms(2-)
proof (induction e arbitrary: be f b)
  case (BinaryExpr l op rt)
  consider "op = OpAnd" | "op = OpOr" | "op \<in> {OpNotEq, OpLt, OpLtEq, OpGt, OpGtEq, OpEq}"
    | "op \<in> {OpUnknown, OpRegexMatch, OpRegexNotMatch}" by (cases op) auto
  then show ?case
  proof cases
    case 1
    then obtain a a' g g' where c: "be = AndExpr a a'" "f = PruneAnd g g'" "booleanExpr rx_ok l = Inr a"
      "booleanExpr rx_ok rt = Inr a'" "prune_expr l = Inr g" "prune_expr rt = Inr g'"
      using BinaryExpr.prems(1,2) by auto
    obtain x y where xy: "Eval rx a r = Inr x" "Eval rx a' r = Inr y" "b = x \<inter> y"
      using BinaryExpr.prems(5) c(1) by auto
    have "Prune_Eval Compare g p = Inr False \<or> Prune_Eval Compare g' p = Inr False"
      using BinaryExpr.prems(4) c(2) by (auto split: if_splits)
    then show ?thesis
      using BinaryExpr.IH(1) [OF c(3,5)] BinaryExpr.IH(2) [OF c(4,6)] BinaryExpr.prems(3) c(1) xy by auto
  next
    case 2
    then obtain a a' g g' where c: "be = OrExpr a a'" "f = PruneOr g g'" "booleanExpr rx_ok l = Inr a"
      "booleanExpr rx_ok rt = Inr a'" "prune_expr l = Inr g" "prune_expr rt = Inr g'"
      using BinaryExpr.prems(1,2) by auto
    obtain x y where xy: "Eval rx a r = Inr x" "Eval rx a' r = Inr y" "b = x \<union> y"
      using BinaryExpr.prems(5) c(1) by auto
    have "Prune_Eval Compare g p = Inr False" "Prune_Eval Compare g' p = Inr False"
      using BinaryExpr.prems(4) c(2) by (auto split: if_splits)
    then show ?thesis
      using BinaryExpr.IH(1) [OF c(3,5)] BinaryExpr.IH(2) [OF c(4,6)] BinaryExpr.prems(3) c(1) xy by auto
  next
    case 3
    then obtain c v where c: "be = BinaryScalarExpr c op (right_literal rt)" "f = PruneScalar c op v"
      "ArrowScalarToParquetValue (right_literal rt) = Inr v"
      using BinaryExpr.prems(1,2) by (auto simp: compile_comparison_def split: option.splits)
    then show ?thesis
      using comparison_sound [OF assms(1) _ c(3) 3] BinaryExpr.prems(3-5) by simp
  next
    case 4
    then show ?thesis using BinaryExpr.prems(2,4) by auto
  qed
qed auto

end

section \<open>Scanning with and without the statistics\<close>

text \<open>
  The row groups a scan visits, each with the record read from it, and the predicate filter that receives
  them: groups the first argument rules out are not read.
\<close>

fun run_groups :: "(particulate \<Rightarrow> (prune_error, bool) result) \<Rightarrow> (arrow_record \<Rightarrow> (filter_error, arrow_record list) result) \<Rightarrow>
    (particulate \<times> arrow_record) list \<Rightarrow> (prune_error + filter_error, arrow_record list) result" where
  "run_groups mayContain callback [] = Inr []"
| "run_groups mayContain callback ((p, r) # gs) =
     (case mayContain p of
        Inl e \<Rightarrow> Inl (Inl e)
      | Inr useful \<Rightarrow>
          (case (if useful then callback r else Inr []) of
             Inl e \<Rightarrow> Inl (Inr e)
           | Inr out \<Rightarrow> bind_result (run_groups mayContain callback gs) (\<lambda>outs. Inr (out @ outs))))"

text \<open>C9: Skipping row groups by their statistics does not change the result of a filter, apart from three kinds of comparisons:
  when every row group's statistics describe the record read from it, both filters of a query compile and evaluate
  without error, and for no row group the filter has \<open>=\<close> or \<open>!=\<close> with a number or a boolean, or
  \<open>!= ""\<close>, on a column the record lacks, \<open>!=\<close> on a plain column that has only nulls, or a column with a page of nulls
  behind a page with values, then scanning only the row groups that may contain matching rows gives the query engine's
  filter the same output as scanning all of them. In the excluded cases rows can be lost (below).\<close>

theorem pruned_scan_equivalent:
  assumes "parquet_types Compare" "booleanExpr rx_ok e = Inr be" "BooleanExpr (Some e) = Inr f"
    and "\<forall>(p, r) \<in> set gs. record_wf r \<and> describes p r be \<and> (\<exists>m. Prune_Eval Compare f p = Inr m)"
    and "\<forall>(p, r) \<in> set gs. \<not> equality_on_absent r be \<and> \<not> unequal_on_nulls r be \<and> \<not> null_page_behind p be"
    and "run_groups (\<lambda>p. Inr True) (Callback rx be) gs = Inr out"
  shows "run_groups (Prune_Eval Compare f) (Callback rx be) gs = Inr out"
  using assms(4-6)
proof (induction gs arbitrary: out)
  case (Cons g gs)
  obtain p r where g: "g = (p, r)" by fastforce
  obtain x xs where out: "Callback rx be r = Inr x" "run_groups (\<lambda>p. Inr True) (Callback rx be) gs = Inr xs" "out = x @ xs"
    using Cons.prems(3) g by (auto split: sum.splits)
  have IH: "run_groups (Prune_Eval Compare f) (Callback rx be) gs = Inr xs"
    using Cons.IH [OF _ _ out(2)] Cons.prems(1,2) by simp
  obtain m where m: "Prune_Eval Compare f p = Inr m" and wf: "record_wf r" "all_comparisons (comparison_ok p r) be"
    using Cons.prems(1,2) g comparisons_ok [of p r be] by auto
  show ?case
  proof (cases m)
    case False
    obtain b where b: "Eval rx be r = Inr b" using out(1) by (auto simp: Callback_def filter_record_def)
    then have "b = {}"
      using parquet_types.prune_sound [OF assms(1) wf(1) assms(2) _ wf(2)] m False assms(3) by (simp add: BooleanExpr_def)
    then have "x = []" using out(1) b by (simp add: Callback_def filter_record_def)
    then show ?thesis using g m False IH out(3) by simp
  qed (use g m IH out in simp)
qed simp

section \<open>An instance of the comparison functions\<close>

text \<open>A comparison that reads the zero value where a value is null.\<close>

fun as_int :: "pq_value \<Rightarrow> int" where
  "as_int (V_Int64 x) = x" | "as_int (V_Int32 x) = x" | "as_int _ = 0"

fun as_bool :: "pq_value \<Rightarrow> bool" where
  "as_bool (V_Boolean x) = x" | "as_bool _ = False"

fun as_bytes :: "pq_value \<Rightarrow> string" where
  "as_bytes (V_ByteArray x) = x" | "as_bytes (V_FixedLenByteArray x) = x" | "as_bytes _ = []"

fun zero_compare :: "pq_type \<Rightarrow> pq_value \<Rightarrow> pq_value \<Rightarrow> int" where
  "zero_compare BooleanType a b = cmp3 (as_bool a) (as_bool b)"
| "zero_compare ByteArrayType a b = cmp3 (as_bytes a) (as_bytes b)"
| "zero_compare _ a b = cmp3 (as_int a) (as_int b)"

interpretation zero: parquet_types zero_compare
  by unfold_locales simp_all

definition sample_expr :: Expr where
  "sample_expr = BinaryExpr (BinaryExpr (Column ''stacktrace'') OpEq (LiteralExpr (S_String ''a''))) OpAnd
                   (BinaryExpr (Column ''timestamp'') OpLt (LiteralExpr (S_Int64 5)))"

definition stats :: "int \<Rightarrow> pq_value \<Rightarrow> pq_value \<Rightarrow> int \<Rightarrow> column_chunk" where
  "stats n mn mx nulls = \<lparr>ColumnIndex = Inr [\<lparr>MinValue = mn, MaxValue = mx, page_NullCount = nulls\<rparr>],
     NumValues = n, BloomFilter = None\<rparr>"

definition early_group :: particulate where
  "early_group = \<lparr>part_fields = [''stacktrace'', ''timestamp''],
     part_chunks = [stats 4 (V_ByteArray ''a'') (V_ByteArray ''b'') 1, stats 4 (V_Int64 1) (V_Int64 9) 0]\<rparr>"

text \<open>A second group, of later timestamps, which the statistics rule out.\<close>

definition late_record :: arrow_record where
  "late_record = \<lparr>rec_columns =
       [(''stacktrace'', \<lparr>arr_type = T_DictBinary, arr_cells = [Some (C_Bytes ''a'')]\<rparr>),
        (''timestamp'', \<lparr>arr_type = T_Int64, arr_cells = [Some (C_Int 7)]\<rparr>)], rec_rows = 1\<rparr>"

definition late_group :: particulate where
  "late_group = \<lparr>part_fields = [''stacktrace'', ''timestamp''],
     part_chunks = [stats 1 (V_ByteArray ''a'') (V_ByteArray ''a'') 0, stats 1 (V_Int64 7) (V_Int64 7) 0]\<rparr>"

lemma stats_describes:
  "page_describes (arr_cells a) \<lparr>MinValue = mn, MaxValue = mx, page_NullCount = nulls\<rparr> \<Longrightarrow>
   n = int (length (arr_cells a)) \<Longrightarrow> chunk_describes (stats n mn mx nulls) a"
  unfolding chunk_describes_def stats_def bloom_describes_def
  by (auto intro!: exI [of _ "[arr_cells a]"])

theorem pruned_scan_equivalent_witness:
  "run_groups (Prune_Eval zero_compare (PruneAnd (PruneScalar ''stacktrace'' OpEq (V_ByteArray ''a''))
       (PruneScalar ''timestamp'' OpLt (V_Int64 5)))) (Callback (\<lambda>_ _. False) sample_filter)
     [(early_group, sample_record), (late_group, late_record)] = Inr [keep_rows [0] sample_record]"
proof -
  let ?f = "PruneAnd (PruneScalar ''stacktrace'' OpEq (V_ByteArray ''a'')) (PruneScalar ''timestamp'' OpLt (V_Int64 5))"
  let ?gs = "[(early_group, sample_record), (late_group, late_record)]"
  have d1: "describes early_group sample_record sample_filter"
    by (auto simp: sample_filter_def describes_def described_def ArrowArray_def sample_record_def ChunkRef_def early_group_def
        page_describes_def extreme_of_def cell_vals_def map_filter_simps cmp3_def intro!: stats_describes)
  have d2: "describes late_group late_record sample_filter"
    by (auto simp: sample_filter_def describes_def described_def ArrowArray_def late_record_def ChunkRef_def late_group_def
        page_describes_def extreme_of_def cell_vals_def map_filter_simps cmp3_def intro!: stats_describes)
  have wf: "record_wf sample_record" "record_wf late_record"
    by (simp_all add: record_wf_def array_wf_def sample_record_def late_record_def)
  have evs: "Prune_Eval zero_compare ?f early_group = Inr True" "Prune_Eval zero_compare ?f late_group = Inr False"
    by code_simp+
  have c: "booleanExpr (\<lambda>_. True) sample_expr = Inr sample_filter" "BooleanExpr (Some sample_expr) = Inr ?f"
    by (simp_all add: sample_expr_def sample_filter_def compile_comparison_def BooleanExpr_def)
  have out: "run_groups (\<lambda>p. Inr True) (Callback (\<lambda>_ _. False) sample_filter) ?gs = Inr [keep_rows [0] sample_record]"
  proof -
    have ev: "\<exists>b. Eval (\<lambda>_ _. False) sample_filter sample_record = Inr b" "\<exists>b. Eval (\<lambda>_ _. False) sample_filter late_record = Inr b"
      by (simp_all add: sample_filter_def sample_record_def late_record_def BinaryScalarExpr_Eval_def ArrowArray_def
          BinaryScalarOperation_def)
    have keep: "filter (row_holds (\<lambda>_ _. False) sample_filter sample_record) [0..<rec_rows sample_record] = [0]"
      "filter (row_holds (\<lambda>_ _. False) sample_filter late_record) [0..<rec_rows late_record] = []"
      by code_simp+
    obtain b b' where "Eval (\<lambda>_ _. False) sample_filter sample_record = Inr b"
      "Eval (\<lambda>_ _. False) sample_filter late_record = Inr b'" using ev by blast
    then show ?thesis using Callback_total [OF wf(1) _ keep(1)] Callback_total [OF wf(2) _ keep(2)] by simp
  qed
  have gs: "\<forall>(p, r) \<in> set ?gs. record_wf r \<and> describes p r sample_filter \<and> (\<exists>m. Prune_Eval zero_compare ?f p = Inr m)"
    using wf d1 d2 evs by (simp del: Prune_Eval.simps) blast
  have agree: "\<forall>(p, r) \<in> set ?gs. \<not> equality_on_absent r sample_filter \<and> \<not> unequal_on_nulls r sample_filter \<and> \<not> null_page_behind p sample_filter"
    by (simp add: equality_on_absent_def unequal_on_nulls_def null_page_behind_def sample_filter_def absent_ok_def nulls_ok_def pages_ok_def
        ArrowArray_def sample_record_def late_record_def ChunkRef_def early_group_def late_group_def stats_def null_pages_first_def nulls_first_def)
  show ?thesis
    by (rule pruned_scan_equivalent [OF zero.parquet_types_axioms c gs agree out])
qed

section \<open>Where the two filters disagree\<close>

text \<open>
  A column that neither the row group nor the record has: a comparison with a number
  selects every row in the query engine, but the statistics rule the row group out.
\<close>

lemma absent_number_disagrees:
  assumes "ArrowArray c r = None" "ChunkRef c p = Inr None" "op = OpEq \<or> op = OpNotEq"
  shows "PruneScalar_Eval Compare c op (V_Int64 x) p = Inr False"
    and "BinaryScalarExpr_Eval c op (Some (S_Int64 x)) r = Inr (all_rows r)"
  using assms by (auto simp: PruneScalar_Eval_def BinaryScalarExpr_Eval_def)

text \<open>A chunk of nulls: \<open>!=\<close> selects every null of a plain column, but the statistics rule the chunk out.\<close>

lemma null_chunk_disagrees:
  "ChunkScalarOperation Compare (stats 2 V_Null V_Null 2) (V_Int64 x) OpNotEq = Inr False"
  "BinaryScalarOperation \<lparr>arr_type = T_Int64, arr_cells = [None, None]\<rparr> (Some (S_Int64 x)) OpNotEq = Inr {0, 1}"
  by (simp_all add: ChunkScalarOperation_def stats_def NullCount_def BinaryScalarOperation_def
      Int64ArrayScalarNotEqual_def array_bitmap_def add_null_def insert_commute)

text \<open>
  A page of nulls between two pages with values: \<open>Min\<close> takes the null for a smaller value and
  then forgets the values before it, so \<open>< 10\<close> rules out a chunk that contains 5.
\<close>

lemma null_page_forgets_minimum:
  "Min_index zero_compare
     [\<lparr>MinValue = V_Int64 5, MaxValue = V_Int64 9, page_NullCount = 0\<rparr>,
      \<lparr>MinValue = V_Null, MaxValue = V_Null, page_NullCount = 3\<rparr>,
      \<lparr>MinValue = V_Int64 20, MaxValue = V_Int64 30, page_NullCount = 0\<rparr>] = Inr (V_Int64 20)"
  by code_simp

text \<open>Comparing a column of integers with null panics, and fixed-size binaries cannot be compared at all.\<close>

lemma int_null_panics: "arr_type a = T_Int64 \<Longrightarrow> BinaryScalarOperation a (Some S_Null) op = Inl E_Panic"
  by (simp add: BinaryScalarOperation_def)

lemma fixed_size_binary_unsupported:
  "arr_type a = T_FixedSizeBinary \<Longrightarrow> BinaryScalarOperation a right op = Inl ErrUnsupportedBinaryOperation"
  by (simp add: BinaryScalarOperation_def)

end
