(* ===== verification/Plan_Optimize.thy ===== *)
theory Plan_Optimize
  imports Logical_Plan Prune_Sound
begin

text \<open>
  The optimizers of logical plans (\<open>query/logicalplan/optimize.go\<close>) in the order of
  \<open>DefaultOptimizers\<close>. They change the plan in place and return it; here they return the changed plan.
\<close>

section \<open>AverageAggregationPushDown\<close>

fun average_of :: "Expr \<Rightarrow> (Expr \<times> string option) option" where
  "average_of (AliasExpr (AggregationFunction AggFuncAvg e) alias) = Some (e, Some alias)"
| "average_of (AggregationFunction AggFuncAvg e) = Some (e, None)"
| "average_of _ = None"

text \<open>
  The loop ranges over the slice as it was at the start, while \<open>slices.Delete\<close> shifts the elements of
  the same array to the left and, when the slice has room for it (\<open>spare\<close>), \<open>append\<close> writes behind
  them. \<open>arr\<close> is that array up to the original length. Once an average was found \<open>plan\<close> is the new
  projection, which has no aggregation, so that a second average dereferences nil: \<open>None\<close>.
\<close>

definition average_projection :: "Expr \<Rightarrow> string option \<Rightarrow> Expr" where
  "average_projection column alias =
     AverageExpr (case alias of None \<Rightarrow> column | Some a \<Rightarrow> AliasExpr column a)"

fun average_step :: "bool \<Rightarrow> nat \<Rightarrow> Expr list \<times> 'p LogicalPlan \<Rightarrow> (Expr list \<times> 'p LogicalPlan) option" where
  "average_step spare i (arr, LogicalPlan inp ss ts f d p a) =
     (case average_of (arr ! i) of
        None \<Rightarrow> Some (arr, LogicalPlan inp ss ts f d p a)
      | Some (column, alias) \<Rightarrow>
          (case a of
             None \<Rightarrow> None
           | Some ag \<Rightarrow>
               let rest = take i arr @ drop (i + 1) arr;
                   arr' = rest @ [if spare then AggregationFunction AggFuncSum column else last arr];
                   exprs = rest @ [AggregationFunction AggFuncSum column, AggregationFunction AggFuncCount column]
               in Some (arr', LogicalPlan (Some (LogicalPlan inp ss ts f d p (Some (ag\<lparr>ag_AggExprs := exprs\<rparr>))))
                          None None None None (Some [average_projection column alias]) None)))"

fun average_loop :: "bool \<Rightarrow> nat list \<Rightarrow> Expr list \<times> 'p LogicalPlan \<Rightarrow> 'p LogicalPlan option" where
  "average_loop spare [] st = Some (snd st)"
| "average_loop spare (i # is) st =
     (case average_step spare i st of None \<Rightarrow> None | Some st' \<Rightarrow> average_loop spare is st')"

definition AverageAggregationPushDown :: "bool \<Rightarrow> 'p LogicalPlan \<Rightarrow> 'p LogicalPlan option" where
  "AverageAggregationPushDown spare plan =
     (case pl_Aggregation plan of
        None \<Rightarrow> Some plan
      | Some ag \<Rightarrow> average_loop spare [0..<length (ag_AggExprs ag)] (ag_AggExprs ag, plan))"

section \<open>PhysicalProjectionPushDown\<close>

definition hashedMatch :: string where
  "hashedMatch = ''hashed''"

text \<open>The optimizer's own \<open>defaultProjections\<close> are state: any step but a scan empties them.\<close>

definition columns_of :: "Expr list \<Rightarrow> Expr list" where
  "columns_of es = concat (map ColumnsUsedExprs es)"

definition step_columns :: "Expr option \<Rightarrow> Expr list option \<Rightarrow> Expr list option \<Rightarrow> Aggregation option \<Rightarrow> Expr list option" where
  "step_columns f d p a =
     (case (f, d, p, a) of
        (Some e, _) \<Rightarrow> Some (ColumnsUsedExprs e)
      | (None, Some es, _) \<Rightarrow> Some (columns_of es)
      | (None, None, Some es, _) \<Rightarrow> Some (columns_of es)
      | (None, None, None, Some ag) \<Rightarrow>
          Some (columns_of (ag_GroupExprs ag) @ columns_of (ag_AggExprs ag) @ [DynamicColumn hashedMatch])
      | _ \<Rightarrow> None)"

fun physical_optimize :: "'p LogicalPlan \<Rightarrow> Expr list \<Rightarrow> Expr list \<Rightarrow> 'p LogicalPlan" where
  "physical_optimize (LogicalPlan inp ss ts f d p a) defaults used =
     (let down = (\<lambda>ss ts defaults used.
            LogicalPlan (case inp of None \<Rightarrow> None | Some i \<Rightarrow> Some (physical_optimize i defaults used)) ss ts f d p a)
      in (case (ss, ts) of
            (Some s, _) \<Rightarrow> down (Some (s\<lparr>sc_PhysicalProjection := defaults @ used\<rparr>)) ts defaults used
          | (None, Some t) \<Rightarrow> down None (Some (t\<lparr>sc_PhysicalProjection := defaults @ used\<rparr>)) defaults used
          | (None, None) \<Rightarrow>
              (case step_columns f d p a of
                 None \<Rightarrow> down None None defaults used
               | Some cols \<Rightarrow> down None None [] (used @ cols))))"

definition PhysicalProjectionPushDown :: "'p LogicalPlan \<Rightarrow> 'p LogicalPlan" where
  "PhysicalProjectionPushDown plan = physical_optimize plan [NotExpr (DynamicColumn hashedMatch)] []"

section \<open>FilterPushDown and DistinctPushDown\<close>

definition push_filter :: "Expr list \<Rightarrow> 'p scan \<Rightarrow> 'p scan" where
  "push_filter exprs s = (if exprs \<noteq> [] then s\<lparr>sc_Filter := and_exprs (map Some exprs)\<rparr> else s)"

fun filter_optimize :: "'p LogicalPlan \<Rightarrow> Expr list \<Rightarrow> 'p LogicalPlan" where
  "filter_optimize (LogicalPlan inp ss ts f d p a) exprs =
     (let down = (\<lambda>ss ts exprs.
            LogicalPlan (case inp of None \<Rightarrow> None | Some i \<Rightarrow> Some (filter_optimize i exprs)) ss ts f d p a)
      in (case (ss, ts, f) of
            (Some s, _) \<Rightarrow> down (Some (push_filter exprs s)) ts exprs
          | (None, Some t, _) \<Rightarrow> down None (Some (push_filter exprs t)) exprs
          | (None, None, Some e) \<Rightarrow> down None None (exprs @ [e])
          | _ \<Rightarrow> down None None exprs))"

definition FilterPushDown :: "'p LogicalPlan \<Rightarrow> 'p LogicalPlan" where
  "FilterPushDown plan = filter_optimize plan []"

fun distinct_optimize :: "'p LogicalPlan \<Rightarrow> Expr list \<Rightarrow> 'p LogicalPlan" where
  "distinct_optimize (LogicalPlan inp ss ts f d p a) cols =
     (let down = (\<lambda>ts cols.
            LogicalPlan (case inp of None \<Rightarrow> None | Some i \<Rightarrow> Some (distinct_optimize i cols)) ss ts f d p a)
      in (case (ts, d) of
            (Some t, _) \<Rightarrow> down (Some (if cols \<noteq> [] then t\<lparr>sc_Distinct := cols\<rparr> else t)) cols
          | (None, Some es) \<Rightarrow> down None (cols @ es)
          | _ \<Rightarrow> down None cols))"

definition DistinctPushDown :: "'p LogicalPlan \<Rightarrow> 'p LogicalPlan" where
  "DistinctPushDown plan = distinct_optimize plan []"

section \<open>ProjectionPushDown\<close>

fun collect_projections :: "'p LogicalPlan \<Rightarrow> Expr list" where
  "collect_projections (LogicalPlan inp ss ts f d p a) =
     (case (d, p) of (Some es, _) \<Rightarrow> es | (None, Some es) \<Rightarrow> es | _ \<Rightarrow> []) @
     (case inp of None \<Rightarrow> [] | Some i \<Rightarrow> collect_projections i)"

fun filterColumns :: "'p LogicalPlan \<Rightarrow> Expr list" where
  "filterColumns (LogicalPlan inp ss ts f d p a) =
     (case f of None \<Rightarrow> [] | Some e \<Rightarrow> ColumnsUsedExprs e) @ (case inp of None \<Rightarrow> [] | Some i \<Rightarrow> filterColumns i)"

fun aggregationColumns :: "'p LogicalPlan \<Rightarrow> Expr list" where
  "aggregationColumns (LogicalPlan inp ss ts f d p a) =
     (case a of
        None \<Rightarrow> []
      | Some ag \<Rightarrow> concat (map ColumnsUsedExprs (ag_GroupExprs ag)) @ concat (map ColumnsUsedExprs (ag_AggExprs ag))) @
     (case inp of None \<Rightarrow> [] | Some i \<Rightarrow> aggregationColumns i)"

fun projectionColumns :: "'p LogicalPlan \<Rightarrow> Expr list" where
  "projectionColumns (LogicalPlan inp ss ts f d p a) =
     (case p of None \<Rightarrow> [] | Some es \<Rightarrow> concat (map ColumnsUsedExprs es)) @
     (case inp of None \<Rightarrow> [] | Some i \<Rightarrow> projectionColumns i)"

fun removeProjection :: "'p LogicalPlan \<Rightarrow> 'p LogicalPlan option" where
  "removeProjection (LogicalPlan inp ss ts f d p a) =
     (if p \<noteq> None then inp
      else Some (LogicalPlan (case inp of None \<Rightarrow> None | Some i \<Rightarrow> removeProjection i) ss ts f d p a))"

fun insertProjection :: "Expr list \<Rightarrow> 'p LogicalPlan \<Rightarrow> 'p LogicalPlan" where
  "insertProjection projection (LogicalPlan inp ss ts f d p a) =
     (if ts \<noteq> None \<or> ss \<noteq> None
      then LogicalPlan (Some (LogicalPlan inp ss ts f d p a)) None None None None (Some projection) None
      else LogicalPlan (case inp of None \<Rightarrow> None | Some i \<Rightarrow> Some (insertProjection projection i)) ss ts f d p a)"

text \<open>The loops over the columns; the name of a column may panic.\<close>

fun column_names :: "(scalar \<Rightarrow> string) \<Rightarrow> Expr list \<Rightarrow> string list option" where
  "column_names str [] = Some []"
| "column_names str (m # ms) =
     (case Name str m of None \<Rightarrow> None | Some n \<Rightarrow> map_option (Cons n) (column_names str ms))"

fun some_missing :: "(scalar \<Rightarrow> string) \<Rightarrow> string list \<Rightarrow> Expr list \<Rightarrow> bool option" where
  "some_missing str projectMap [] = Some False"
| "some_missing str projectMap (m # ms) =
     (case Name str m of
        None \<Rightarrow> None
      | Some n \<Rightarrow> if n \<notin> set projectMap then Some True else some_missing str projectMap ms)"

text \<open>The outer option is a panic, the inner one a nil plan.\<close>

definition ProjectionPushDown :: "(scalar \<Rightarrow> string) \<Rightarrow> 'p LogicalPlan \<Rightarrow> 'p LogicalPlan option option" where
  "ProjectionPushDown str plan =
     (case column_names str (projectionColumns plan) of
        None \<Rightarrow> None
      | Some projectMap \<Rightarrow>
          (case some_missing str projectMap (filterColumns plan) of
             None \<Rightarrow> None
           | Some True \<Rightarrow> Some (Some plan)
           | Some False \<Rightarrow>
               (case some_missing str projectMap (aggregationColumns plan) of
                  None \<Rightarrow> None
                | Some True \<Rightarrow> Some (Some plan)
                | Some False \<Rightarrow>
                    if collect_projections plan = [] then Some (Some plan)
                    else Some (map_option (insertProjection (collect_projections plan)) (removeProjection plan)))))"

text \<open>\<open>DefaultOptimizers\<close>, applied one after the other.\<close>

definition optimize_default :: "(scalar \<Rightarrow> string) \<Rightarrow> bool \<Rightarrow> 'p LogicalPlan \<Rightarrow> 'p LogicalPlan option option" where
  "optimize_default str spare plan =
     (case AverageAggregationPushDown spare plan of
        None \<Rightarrow> None
      | Some plan \<Rightarrow> ProjectionPushDown str (DistinctPushDown (FilterPushDown (PhysicalProjectionPushDown plan))))"

section \<open>Averages\<close>

lemma average_step_skip:
  "average_of (arr ! i) = None \<Longrightarrow> average_step spare i (arr, plan) = Some (arr, plan)"
  by (cases plan) simp

lemma average_loop_skip:
  "\<forall>i \<in> set ixs. average_of (arr ! i) = None \<Longrightarrow> average_loop spare (ixs @ jxs) (arr, plan) = average_loop spare jxs (arr, plan)"
  by (induction ixs) (simp_all add: average_step_skip)

text \<open>An aggregation with one average is rewritten as intended, whatever the room in the slice of
  expressions: the average is replaced by the sum and the count of its column behind the other expressions, which
  keep their order, and a projection of the average is put on top of the aggregation.\<close>

theorem AverageAggregationPushDown_single:
  assumes "ag_AggExprs ag = xs @ e # ys" "average_of e = Some (c, alias)" "\<forall>x \<in> set xs \<union> set ys. average_of x = None"
  shows "AverageAggregationPushDown spare (LogicalPlan inp ss ts f d p (Some ag)) =
    Some (LogicalPlan (Some (LogicalPlan inp ss ts f d p
              (Some (ag\<lparr>ag_AggExprs := xs @ ys @ [AggregationFunction AggFuncSum c, AggregationFunction AggFuncCount c]\<rparr>))))
            None None None None (Some [average_projection c alias]) None)"
proof -
  let ?n = "length xs" let ?es = "xs @ e # ys"
  let ?z = "if spare then AggregationFunction AggFuncSum c else last ?es"
  have split: "[0..<length ?es] = [0..<?n] @ ?n # [Suc ?n..<length ?es]"
    using upt_add_eq_append [of 0 ?n "Suc (length ys)"] by (simp add: upt_conv_Cons del: upt_Suc)
  have pre: "\<forall>i \<in> set [0..<?n]. average_of (?es ! i) = None" using assms(3) by (auto simp: nth_append)
  have post: "\<forall>i \<in> set [Suc ?n..<length ?es]. average_of ((xs @ ys @ [?z]) ! i) = None"
  proof
    fix i assume i: "i \<in> set [Suc ?n..<length ?es]"
    then have "ys \<noteq> []" by auto
    then have "average_of ?z = None" using assms(3) by auto
    moreover have "(xs @ ys @ [?z]) ! i \<in> set ys \<union> {?z}"
      using i by (auto simp: nth_append intro!: nth_mem)
    ultimately show "average_of ((xs @ ys @ [?z]) ! i) = None" using assms(3) by auto
  qed
  have step: "average_step spare ?n (?es, LogicalPlan inp ss ts f d p (Some ag)) =
      Some (xs @ ys @ [?z], LogicalPlan (Some (LogicalPlan inp ss ts f d p
              (Some (ag\<lparr>ag_AggExprs := xs @ ys @ [AggregationFunction AggFuncSum c, AggregationFunction AggFuncCount c]\<rparr>))))
            None None None None (Some [average_projection c alias]) None)"
    using assms(2) by (simp add: Let_def)
  have tail: "average_loop spare [Suc ?n..<length ?es] (xs @ ys @ [?z], plan) = Some plan" for plan :: "'a LogicalPlan"
    using average_loop_skip [OF post, where jxs = "[]" and spare = spare and plan = plan]
    by (simp only: append_Nil2 average_loop.simps snd_conv)
  have "average_loop spare [0..<length ?es] (?es, LogicalPlan inp ss ts f d p (Some ag)) =
      average_loop spare (?n # [Suc ?n..<length ?es]) (?es, LogicalPlan inp ss ts f d p (Some ag))"
    unfolding split by (rule average_loop_skip [OF pre])
  then show ?thesis
    unfolding AverageAggregationPushDown_def
    by (simp only: assms(1) LogicalPlan.sel option.case average_loop.simps step tail)
qed

theorem AverageAggregationPushDown_single_witness:
  "AverageAggregationPushDown False (LogicalPlan None None None None None None
      (Some \<lparr>ag_AggExprs = [AggregationFunction AggFuncMin (Column ''value''),
          AliasExpr (AggregationFunction AggFuncAvg (Column ''value'')) ''mean'',
          AggregationFunction AggFuncMax (Column ''value'')], ag_GroupExprs = []\<rparr>) :: unit LogicalPlan) =
   Some (LogicalPlan (Some (LogicalPlan None None None None None None
      (Some \<lparr>ag_AggExprs = [AggregationFunction AggFuncMin (Column ''value''), AggregationFunction AggFuncMax (Column ''value''),
          AggregationFunction AggFuncSum (Column ''value''), AggregationFunction AggFuncCount (Column ''value'')],
         ag_GroupExprs = []\<rparr>))) None None None None
      (Some [AverageExpr (AliasExpr (Column ''value'') ''mean'')]) None)"
  using AverageAggregationPushDown_single [of
      "\<lparr>ag_AggExprs = [AggregationFunction AggFuncMin (Column ''value''),
          AliasExpr (AggregationFunction AggFuncAvg (Column ''value'')) ''mean'',
          AggregationFunction AggFuncMax (Column ''value'')], ag_GroupExprs = []\<rparr>"
      "[AggregationFunction AggFuncMin (Column ''value'')]" "AliasExpr (AggregationFunction AggFuncAvg (Column ''value'')) ''mean''"
      "[AggregationFunction AggFuncMax (Column ''value'')]" "Column ''value''" "Some ''mean''" False None None None None None None]
  by (simp add: average_projection_def)

text \<open>Two averages: without room in the slice the second one dereferences nil, with room it is left in the aggregation.\<close>

lemma two_averages:
  fixes plan :: "unit LogicalPlan"
  defines "plan \<equiv> LogicalPlan None None None None None None
      (Some \<lparr>ag_AggExprs = [AggregationFunction AggFuncAvg (Column ''a''), AggregationFunction AggFuncAvg (Column ''b'')],
         ag_GroupExprs = []\<rparr>)"
  shows "AverageAggregationPushDown False plan = None"
    and "\<exists>ag p. AverageAggregationPushDown True plan = Some (LogicalPlan (Some (LogicalPlan None None None None None None (Some ag)))
           None None None None p None) \<and> AggregationFunction AggFuncAvg (Column ''b'') \<in> set (ag_AggExprs ag)"
  by (simp_all add: plan_def AverageAggregationPushDown_def upt_rec)

section \<open>Filters pushed to the scan\<close>

text \<open>The table scan at the bottom of a plan, and the filters above it, the topmost first.\<close>

fun scan_at_bottom :: "'p LogicalPlan \<Rightarrow> 'p scan option" where
  "scan_at_bottom (LogicalPlan inp ss ts f d p a) =
     (case (ss, ts) of
        (None, Some t) \<Rightarrow> Some t
      | (None, None) \<Rightarrow> (case inp of None \<Rightarrow> None | Some i \<Rightarrow> scan_at_bottom i)
      | _ \<Rightarrow> None)"

fun plan_filters :: "'p LogicalPlan \<Rightarrow> Expr list" where
  "plan_filters (LogicalPlan inp ss ts f d p a) =
     (if ss = None \<and> ts = None
      then (case f of None \<Rightarrow> [] | Some e \<Rightarrow> [e]) @ (case inp of None \<Rightarrow> [] | Some i \<Rightarrow> plan_filters i)
      else [])"

lemma filter_optimize_scan:
  "scan_at_bottom (filter_optimize plan exprs) = map_option (push_filter (exprs @ plan_filters plan)) (scan_at_bottom plan)"
proof (induction plan exprs rule: filter_optimize.induct)
  case (1 inp ss ts f d p a exprs)
  then show ?case
    by (cases "ss = None \<and> ts = None"; cases f; cases inp) (auto simp: Let_def split: option.splits)
qed

lemma map_filter_id_Some [simp]: "List.map_filter id (map Some xs) = xs"
  by (induction xs) (simp_all add: map_filter_simps)

lemma prune_conjunction:
  assumes "compute_nonNil es OpAnd = Some e" "prune_expr e = Inr f" "Prune_Eval Compare f p = Inr False"
  shows "\<exists>x \<in> set es. \<exists>g. prune_expr x = Inr g \<and> Prune_Eval Compare g p = Inr False"
  using assms
proof (induction es OpAnd arbitrary: e f rule: compute_nonNil.induct)
  case (3 x y)
  then show ?case by (auto split: if_splits)
next
  case (4 x y z es)
  then obtain e' where e': "compute_nonNil (y # z # es) OpAnd = Some e'" "e = BinaryExpr x OpAnd e'" by auto
  then obtain g g' where g: "prune_expr x = Inr g" "prune_expr e' = Inr g'" "f = PruneAnd g g'" using 4(3) by auto
  show ?case using 4(1) [OF e'(1) g(2)] 4(4) g by (auto split: if_splits)
qed auto

text \<open>
  Running a plan on the records that its scan reads: filters are those of the query engine, what the other steps make
  of the records they get is a parameter. \<open>None\<close> is an error.
\<close>

fun read_groups :: "(particulate \<Rightarrow> (prune_error, bool) result) \<Rightarrow> (particulate \<times> arrow_record) list \<Rightarrow> arrow_record list option" where
  "read_groups mayContain [] = Some []"
| "read_groups mayContain ((p, r) # gs) =
     (case mayContain p of
        Inl _ \<Rightarrow> None
      | Inr useful \<Rightarrow> map_option ((@) (if useful then [r] else [])) (read_groups mayContain gs))"

definition value_of :: "('e, 'a) result \<Rightarrow> 'a option" where
  "value_of x = (case x of Inl _ \<Rightarrow> None | Inr y \<Rightarrow> Some y)"

fun run_each :: "('a \<Rightarrow> 'b list option) \<Rightarrow> 'a list \<Rightarrow> 'b list option" where
  "run_each h [] = Some []"
| "run_each h (r # rs) = Option.bind (h r) (\<lambda>x. map_option ((@) x) (run_each h rs))"

fun run_plan :: "(string \<Rightarrow> bool) \<Rightarrow> (string \<Rightarrow> string \<Rightarrow> bool) \<Rightarrow> ('p LogicalPlan \<Rightarrow> arrow_record list \<Rightarrow> arrow_record list option) \<Rightarrow>
    'p LogicalPlan \<Rightarrow> arrow_record list \<Rightarrow> arrow_record list option" where
  "run_plan rx_ok rx other (LogicalPlan inp ss ts f d p a) recs =
     (if ss \<noteq> None \<or> ts \<noteq> None then Some recs
      else case inp of
             None \<Rightarrow> None
           | Some i \<Rightarrow>
               Option.bind (run_plan rx_ok rx other i recs) (\<lambda>out.
                 case f of
                   None \<Rightarrow> other (LogicalPlan None None None None d p a) out
                 | Some e \<Rightarrow> Option.bind (value_of (booleanExpr rx_ok e)) (\<lambda>be. run_each (\<lambda>r. value_of (Callback rx be r)) out)))"

text \<open>No filter of the plan is above a step that is not a filter.\<close>

fun only_filters :: "'p LogicalPlan \<Rightarrow> bool" where
  "only_filters (LogicalPlan inp ss ts f d p a) \<longleftrightarrow>
     ss \<noteq> None \<or> ts \<noteq> None \<or> f \<noteq> None \<and> (case inp of None \<Rightarrow> False | Some i \<Rightarrow> only_filters i)"

fun filters_first :: "'p LogicalPlan \<Rightarrow> bool" where
  "filters_first (LogicalPlan inp ss ts f d p a) \<longleftrightarrow>
     only_filters (LogicalPlan inp ss ts f d p a) \<or> f = None \<and> (case inp of None \<Rightarrow> False | Some i \<Rightarrow> filters_first i)"

lemma run_plan_filter_optimize: "run_plan rx_ok rx other (filter_optimize plan exprs) recs = run_plan rx_ok rx other plan recs"
proof (induction plan exprs arbitrary: recs rule: filter_optimize.induct)
  case (1 inp ss ts f d p a exprs)
  show ?case
  proof (cases "ss = None \<and> ts = None")
    case True
    then show ?thesis using 1 by (cases inp; cases f) (simp_all add: Let_def)
  qed (auto simp: Let_def split: option.splits)
qed

lemma map_option_append_Nil [simp]: "map_option ((@) []) x = x"
  by (cases x) simp_all

lemma run_each_append: "run_each h (xs @ ys) = Option.bind (run_each h xs) (\<lambda>x. map_option ((@) x) (run_each h ys))"
proof (induction xs)
  case (Cons x xs)
  then show ?case by (cases "h x"; cases "run_each h xs"; cases "run_each h ys") simp_all
qed simp

lemma run_each_bind: "Option.bind (run_each h rs) (run_each g) = run_each (\<lambda>r. Option.bind (h r) (run_each g)) rs"
proof (induction rs)
  case (Cons r rs)
  then show ?case by (cases "h r"; cases "run_each h rs") (auto simp: run_each_append split: bind_splits)
qed simp

lemma run_each_single: "run_each (\<lambda>r. Some [r]) rs = Some rs"
  by (induction rs) simp_all

lemma run_filters_snoc:
  "value_of (run_filters rx (es @ [be]) r) = Option.bind (value_of (run_filters rx es r)) (run_each (\<lambda>r. value_of (Callback rx be r)))"
proof (induction es arbitrary: r)
  case Nil
  show ?case by (cases "filter_record rx be r") (auto simp: value_of_def Callback_def split: option.splits)
next
  case (Cons e es)
  then show ?case by (cases "filter_record rx e r") (auto simp: value_of_def split: option.splits)
qed

lemma run_only_filters:
  "only_filters plan \<Longrightarrow> list_all2 (\<lambda>e be. booleanExpr rx_ok e = Inr be) (plan_filters plan) bes \<Longrightarrow>
     run_plan rx_ok rx other plan recs = run_each (\<lambda>r. value_of (run_filters rx (rev bes) r)) recs"
proof (induction plan arbitrary: bes rule: only_filters.induct)
  case (1 inp ss ts f d p a)
  show ?case
  proof (cases "ss = None \<and> ts = None")
    case False
    then have "bes = []" using "1.prems"(2) by auto
    then show ?thesis using False by (auto simp: value_of_def run_each_single)
  next
    case True
    then obtain e i where fi: "f = Some e" "inp = Some i" "only_filters i" using "1.prems"(1) by (auto split: option.splits)
    then obtain be bs where bes: "bes = be # bs" "booleanExpr rx_ok e = Inr be"
        "list_all2 (\<lambda>e be. booleanExpr rx_ok e = Inr be) (plan_filters i) bs"
      using "1.prems"(2) True by (auto simp: list_all2_Cons1)
    have "run_plan rx_ok rx other i recs = run_each (\<lambda>r. value_of (run_filters rx (rev bs) r)) recs"
      using "1.IH" fi bes(3) by blast
    then show ?thesis using True fi bes(1,2) by (simp add: value_of_def [of "Inr be"] run_each_bind run_filters_snoc)
  qed
qed

lemma run_filters_first:
  assumes "filters_first plan" "list_all2 (\<lambda>e be. booleanExpr rx_ok e = Inr be) (plan_filters plan) bes"
    and "run_each (\<lambda>r. value_of (run_filters rx (rev bes) r)) recs = run_each (\<lambda>r. value_of (run_filters rx (rev bes) r)) recs'"
  shows "run_plan rx_ok rx other plan recs = run_plan rx_ok rx other plan recs'"
  using assms
proof (induction plan rule: filters_first.induct)
  case (1 inp ss ts f d p a)
  show ?case
  proof (cases "only_filters (LogicalPlan inp ss ts f d p a)")
    case True
    then show ?thesis using run_only_filters [OF True "1.prems"(2)] "1.prems"(3) by simp
  next
    case False
    then obtain i where i: "f = None" "inp = Some i" "filters_first i" "ss = None" "ts = None"
      using "1.prems"(1) by (auto split: option.splits)
    then have "plan_filters (LogicalPlan inp ss ts f d p a) = plan_filters i" by simp
    then have "run_plan rx_ok rx other i recs = run_plan rx_ok rx other i recs'" using "1.IH" i "1.prems"(2,3) by simp
    then show ?thesis using i by simp
  qed
qed

lemma pushed_filter_sound:
  assumes "parquet_types Compare" "scan_at_bottom (FilterPushDown plan) = Some t" "plan_filters plan \<noteq> []"
    and "list_all2 (\<lambda>e be. booleanExpr rx_ok e = Inr be) (plan_filters plan) bes" "BooleanExpr (sc_Filter t) = Inr f"
    and "record_wf r" "list_all (\<lambda>be. all_comparisons (comparison_ok p r) be) bes"
    and "Prune_Eval Compare f p = Inr False" "run_filters rx (rev bes) r = Inr x"
  shows "x = []"
proof -
  obtain t' where "t = t'\<lparr>sc_Filter := and_exprs (map Some (plan_filters plan))\<rparr>"
    using assms(2,3) by (auto simp: FilterPushDown_def filter_optimize_scan push_filter_def)
  then obtain F where F: "compute_nonNil (plan_filters plan) OpAnd = Some F" "prune_expr F = Inr f"
    using assms(3,5,8) by (auto simp: and_exprs_def computeBinaryExpr_def BooleanExpr_def split: option.splits)
  obtain e h where e: "e \<in> set (plan_filters plan)" "prune_expr e = Inr h" "Prune_Eval Compare h p = Inr False"
    using prune_conjunction [OF F assms(8)] by blast
  then obtain be where be: "be \<in> set bes" "booleanExpr rx_ok e = Inr be"
    using assms(4) by (auto simp: list_all2_conv_all_nth in_set_conv_nth) (metis nth_mem)
  have "all_comparisons (comparison_ok p r) be" using assms(7) be(1) by (simp add: list_all_iff)
  then have "b = {}" if "Eval rx be r = Inr b" for b
    using parquet_types.prune_sound [OF assms(1,6) be(2) e(2) _ e(3)] that by blast
  then show ?thesis using run_filters_nothing [OF assms(6) _ _ assms(9), of be] be(1) by simp
qed

text \<open>C30: Pushing filters down to the scan does not change the result of a plan in which no filter is above a step of another kind:
  the plan that \<open>FilterPushDown\<close> returns, on a scan that skips every row group which the filter given to it rules out by
  the statistics, gives what the original plan gives on a scan of all row groups, whatever the steps above the filters do. The
  statistics describe the records, and the comparisons that are excluded for the filter on
  statistics (on columns a record lacks, on columns of nulls only and on pages of nulls behind pages with values) are excluded here too.\<close>

theorem FilterPushDown_equivalent:
  assumes "parquet_types Compare" "scan_at_bottom (FilterPushDown plan) = Some t" "plan_filters plan \<noteq> []" "filters_first plan"
    and "list_all2 (\<lambda>e be. booleanExpr rx_ok e = Inr be) (plan_filters plan) bes" "BooleanExpr (sc_Filter t) = Inr f"
    and "\<forall>(p, r) \<in> set gs. record_wf r \<and> list_all (describes p r) bes \<and> (\<exists>m. Prune_Eval Compare f p = Inr m)"
    and "\<forall>(p, r) \<in> set gs. \<forall>be\<in>set bes. \<not> equality_on_absent r be \<and> \<not> unequal_on_nulls r be \<and> \<not> null_page_behind p be"
    and "Option.bind (read_groups (\<lambda>p. Inr True) gs) (run_plan rx_ok rx other plan) = Some out"
  shows "Option.bind (read_groups (Prune_Eval Compare f) gs) (run_plan rx_ok rx other (FilterPushDown plan)) = Some out"
proof -
  let ?h = "\<lambda>r. value_of (run_filters rx (rev bes) r)"
  have skip: "?h r = None \<or> ?h r = Some []" if "(p, r) \<in> set gs" "Prune_Eval Compare f p = Inr False" for p r
  proof -
    have "record_wf r" "list_all (\<lambda>be. all_comparisons (comparison_ok p r) be) bes"
      using assms(7,8) that(1) by (auto simp: list_all_iff intro!: comparisons_ok)
    then show ?thesis
      using pushed_filter_sound [OF assms(1,2,3,5,6) _ _ that(2)] by (auto simp: value_of_def split: sum.splits)
  qed
  have all: "read_groups (\<lambda>p. Inr True) hs = Some (map snd hs)" for hs by (induction hs) auto
  have kept: "\<exists>kept. read_groups (Prune_Eval Compare f) hs = Some kept \<and> (run_each ?h (map snd hs) = None \<or> run_each ?h kept = run_each ?h (map snd hs))"
    if "set hs \<subseteq> set gs" for hs
    using that
  proof (induction hs)
    case (Cons g hs)
    obtain p r where g: "g = (p, r)" by (cases g)
    obtain kept where k: "read_groups (Prune_Eval Compare f) hs = Some kept"
        "run_each ?h (map snd hs) = None \<or> run_each ?h kept = run_each ?h (map snd hs)" using Cons by auto
    have pr: "(p, r) \<in> set gs" using Cons.prems g by simp
    then obtain m where m: "Prune_Eval Compare f p = Inr m" using assms(7) by auto
    then show ?case using k g skip [OF pr] by (cases m) (auto split: bind_splits)
  qed simp
  obtain recs where recs: "read_groups (Prune_Eval Compare f) gs = Some recs"
      "run_each ?h (map snd gs) = None \<or> run_each ?h recs = run_each ?h (map snd gs)" using kept [of gs] by blast
  have run: "run_plan rx_ok rx other plan (map snd gs) = Some out" using assms(9) by (simp add: all)
  have "run_each ?h (map snd gs) \<noteq> None"
    using run assms(4,5)
  proof (induction plan arbitrary: out rule: filters_first.induct)
    case (1 inp ss ts f d p a)
    show ?case
    proof (cases "only_filters (LogicalPlan inp ss ts f d p a)")
      case True
      then show ?thesis using run_only_filters [OF True "1.prems"(3), of rx other] "1.prems"(1) by simp
    next
      case False
      then obtain i where i: "f = None" "inp = Some i" "filters_first i" "ss = None" "ts = None"
        using "1.prems"(2) by (auto split: option.splits)
      then show ?thesis using "1.IH" "1.prems"(1,3) by (auto split: bind_splits)
    qed
  qed
  then have "run_plan rx_ok rx other plan recs = Some out" using run_filters_first [OF assms(4,5)] recs(2) run by metis
  then show ?thesis using recs(1) by (simp add: FilterPushDown_def run_plan_filter_optimize)
qed

section \<open>Columns read by the scan\<close>

text \<open>The expressions that the steps of a plan evaluate.\<close>

fun step_exprs :: "'p LogicalPlan \<Rightarrow> Expr list" where
  "step_exprs (LogicalPlan inp ss ts f d p a) =
     (case (f, d, p, a) of
        (Some e, _) \<Rightarrow> [e]
      | (None, Some es, _) \<Rightarrow> es
      | (None, None, Some es, _) \<Rightarrow> es
      | (None, None, None, Some ag) \<Rightarrow> ag_GroupExprs ag @ ag_AggExprs ag
      | _ \<Rightarrow> [])"

fun plan_exprs :: "'p LogicalPlan \<Rightarrow> Expr list" where
  "plan_exprs (LogicalPlan inp ss ts f d p a) =
     (if ss = None \<and> ts = None
      then step_exprs (LogicalPlan inp ss ts f d p a) @ (case inp of None \<Rightarrow> [] | Some i \<Rightarrow> plan_exprs i)
      else [])"

lemma step_columns_used:
  "x \<in> set (step_exprs (LogicalPlan inp ss ts f d p a)) \<Longrightarrow>
   set (ColumnsUsedExprs x) \<subseteq> set (case step_columns f d p a of None \<Rightarrow> [] | Some cols \<Rightarrow> cols)"
  by (cases f; cases d; cases p; cases a) (auto simp: step_columns_def columns_of_def)

lemma physical_optimize_scan:
  assumes "scan_at_bottom (physical_optimize plan defaults used) = Some t" "x \<in> set (plan_exprs plan)"
  shows "set used \<union> set (ColumnsUsedExprs x) \<subseteq> set (sc_PhysicalProjection t)"
proof -
  have "set used \<subseteq> set (sc_PhysicalProjection t) \<and>
      (\<forall>x \<in> set (plan_exprs plan). set (ColumnsUsedExprs x) \<subseteq> set (sc_PhysicalProjection t))"
    using assms(1)
  proof (induction plan arbitrary: defaults used rule: scan_at_bottom.induct)
    case (1 inp ss ts f d p a)
    show ?case
    proof (cases "ss = None \<and> ts = None")
      case False
      then show ?thesis using 1 by (cases ss; cases ts) (auto simp: Let_def)
    next
      case True
      define D where "D = (case step_columns f d p a of None \<Rightarrow> defaults | Some cols \<Rightarrow> [])"
      define U where "U = used @ (case step_columns f d p a of None \<Rightarrow> [] | Some cols \<Rightarrow> cols)"
      have opt: "physical_optimize (LogicalPlan inp ss ts f d p a) defaults used =
          LogicalPlan (case inp of None \<Rightarrow> None | Some i \<Rightarrow> Some (physical_optimize i D U)) None None f d p a"
        using True by (cases "step_columns f d p a"; cases inp) (simp_all add: D_def U_def Let_def)
      obtain i where i: "inp = Some i" using 1(2) [unfolded opt] by (cases inp) simp_all
      have "scan_at_bottom (physical_optimize i D U) = Some t" using 1(2) [unfolded opt] by (simp add: i)
      from 1(1) [OF refl _ _ i this] True
      have "set U \<subseteq> set (sc_PhysicalProjection t)" "\<forall>x \<in> set (plan_exprs i). set (ColumnsUsedExprs x) \<subseteq> set (sc_PhysicalProjection t)"
        by auto
      moreover have "set (plan_exprs (LogicalPlan inp ss ts f d p a)) =
          set (step_exprs (LogicalPlan inp ss ts f d p a)) \<union> set (plan_exprs i)"
        using True i by simp
      ultimately show ?thesis
        using step_columns_used [of _ inp ss ts f d p a] unfolding U_def set_append by blast
    qed
  qed
  then show ?thesis using assms(2) by blast
qed

text \<open>A record with only the columns that some expression of the projection matches.\<close>

definition project_columns :: "(scalar \<Rightarrow> string) \<Rightarrow> (string \<Rightarrow> string \<Rightarrow> bool) \<Rightarrow> Expr list \<Rightarrow> arrow_record \<Rightarrow> arrow_record" where
  "project_columns str rx ms r =
     r\<lparr>rec_columns := filter (\<lambda>(n, a). list_ex (\<lambda>m. MatchColumn str rx m n = Some True) ms) (rec_columns r)\<rparr>"

lemma ArrowArray_project:
  assumes "Column c \<in> set ms"
  shows "ArrowArray c (project_columns str rx ms r) = ArrowArray c r"
proof -
  have "list_ex (\<lambda>m. MatchColumn str rx m c = Some True) ms"
    using assms by (auto simp: list_ex_iff intro!: bexI [of _ "Column c"])
  then have "filter (\<lambda>(n, a). n = c) (rec_columns (project_columns str rx ms r)) = filter (\<lambda>(n, a). n = c) (rec_columns r)"
    by (auto simp: project_columns_def intro!: filter_cong)
  then show ?thesis by (simp add: ArrowArray_def)
qed

lemma Eval_project:
  assumes "booleanExpr rx_ok e = Inr be" "set (ColumnsUsedExprs e) \<subseteq> set ms"
  shows "Eval rx be (project_columns str rx ms r) = Eval rx be r"
  using assms
proof (induction e arbitrary: be)
  case (BinaryExpr l op rt)
  have rows: "all_rows (project_columns str rx ms r) = all_rows r" "rec_rows (project_columns str rx ms r) = rec_rows r"
    by (simp_all add: all_rows_def project_columns_def)
  show ?case
  proof (cases "op = OpAnd \<or> op = OpOr")
    case True
    then show ?thesis using BinaryExpr by auto
  next
    case False
    then have cc: "compile_comparison rx_ok l op rt = Inr be" using BinaryExpr.prems(1) by (auto split: if_splits)
    then obtain c where c: "left_column l = Some c" by (auto simp: compile_comparison_def split: option.splits)
    have arr: "ArrowArray c (project_columns str rx ms r) = ArrowArray c r"
      using left_column_used [OF c] BinaryExpr.prems(2) by (auto intro!: ArrowArray_project)
    have "BinaryScalarExpr_Eval c o' right (project_columns str rx ms r) = BinaryScalarExpr_Eval c o' right r"
      "RegExpFilter_Eval rx c notMatch pat (project_columns str rx ms r) = RegExpFilter_Eval rx c notMatch pat r"
      for o' right notMatch pat
      unfolding BinaryScalarExpr_Eval_def RegExpFilter_Eval_def arr rows by (rule refl)+
    then show ?thesis using cc c by (auto simp: compile_comparison_def split: if_splits option.splits scalar.splits)
  qed
qed simp_all

text \<open>C31: The physical projection pushed down to the scan is sufficient for the filters: reading
  only the columns that \<open>PhysicalProjectionPushDown\<close> asks for, every filter of the plan evaluates to the
  same rows, or the same error, as on all columns.\<close>

theorem PhysicalProjectionPushDown_sufficient:
  assumes "scan_at_bottom (PhysicalProjectionPushDown plan) = Some t" "e \<in> set (plan_exprs plan)"
    and "booleanExpr rx_ok e = Inr be"
  shows "Eval rx be (project_columns str rx (sc_PhysicalProjection t) r) = Eval rx be r"
  using physical_optimize_scan [OF assms(1) [unfolded PhysicalProjectionPushDown_def] assms(2)] Eval_project [OF assms(3)] by blast

definition sample_plan :: "unit LogicalPlan" where
  "sample_plan =
     LogicalPlan
       (Some (LogicalPlan
          (Some (LogicalPlan None None (Some (new_scan () ''stacks'')) None None None None))
          None None (Some (BinaryExpr (Column ''timestamp'') OpLt (LiteralExpr (S_Int64 5)))) None None None))
       None None (Some (BinaryExpr (Column ''stacktrace'') OpEq (LiteralExpr (S_String ''a'')))) None None None"

theorem PhysicalProjectionPushDown_sufficient_witness:
  "Eval (\<lambda>_ _. False) (BinaryScalarExpr ''timestamp'' OpLt (Some (S_Int64 5)))
      (project_columns (\<lambda>_. []) (\<lambda>_ _. False) [Column ''stacktrace'', Column ''timestamp'']
         \<lparr>rec_columns = (''value'', \<lparr>arr_type = T_Int64, arr_cells = [None, None, None, None]\<rparr>) # rec_columns sample_record,
          rec_rows = 4\<rparr>) = Inr {0, 1, 2}"
proof -
  let ?r = "\<lparr>rec_columns = (''value'', \<lparr>arr_type = T_Int64, arr_cells = [None, None, None, None]\<rparr>) # rec_columns sample_record,
      rec_rows = 4\<rparr>"
  let ?t = "(new_scan () ''stacks'')\<lparr>sc_PhysicalProjection := [Column ''stacktrace'', Column ''timestamp'']\<rparr>"
  have scan: "scan_at_bottom (PhysicalProjectionPushDown sample_plan) = Some ?t"
    by (simp add: PhysicalProjectionPushDown_def sample_plan_def step_columns_def)
  have "BinaryExpr (Column ''timestamp'') OpLt (LiteralExpr (S_Int64 5)) \<in> set (plan_exprs sample_plan)"
    by (simp add: sample_plan_def)
  moreover have "booleanExpr (\<lambda>_. True) (BinaryExpr (Column ''timestamp'') OpLt (LiteralExpr (S_Int64 5))) =
      Inr (BinaryScalarExpr ''timestamp'' OpLt (Some (S_Int64 5)))"
    by (simp add: compile_comparison_def)
  ultimately have "Eval (\<lambda>_ _. False) (BinaryScalarExpr ''timestamp'' OpLt (Some (S_Int64 5)))
      (project_columns (\<lambda>_. []) (\<lambda>_ _. False) (sc_PhysicalProjection ?t) ?r) =
      Eval (\<lambda>_ _. False) (BinaryScalarExpr ''timestamp'' OpLt (Some (S_Int64 5))) ?r"
    by (rule PhysicalProjectionPushDown_sufficient [OF scan])
  also have "\<dots> = Inr {0, 1, 2}"
    by (simp add: BinaryScalarExpr_Eval_def ArrowArray_def sample_record_def BinaryScalarOperation_def
        Int64ArrayScalarLessThan_def array_bitmap_def skip_null_def upt_rec) auto
  finally show ?thesis by simp
qed

text \<open>A distinct above the two filters; the row group is skipped.\<close>

definition distinct_plan :: "unit LogicalPlan" where
  "distinct_plan = LogicalPlan (Some sample_plan) None None None (Some [Column ''stacktrace'']) None None"

theorem FilterPushDown_equivalent_witness:
  "Option.bind (read_groups (Prune_Eval zero_compare (PruneAnd (PruneScalar ''stacktrace'' OpEq (V_ByteArray ''a''))
       (PruneScalar ''timestamp'' OpLt (V_Int64 5)))) [(late_group, late_record)])
     (run_plan (\<lambda>_. True) (\<lambda>_ _. False) (\<lambda>step recs. Some (remdups recs)) (FilterPushDown distinct_plan)) = Some []"
proof -
  let ?b1 = "BinaryScalarExpr ''stacktrace'' OpEq (Some (S_String ''a''))"
  let ?b2 = "BinaryScalarExpr ''timestamp'' OpLt (Some (S_Int64 5))"
  let ?f = "PruneAnd (PruneScalar ''stacktrace'' OpEq (V_ByteArray ''a'')) (PruneScalar ''timestamp'' OpLt (V_Int64 5))"
  let ?e1 = "BinaryExpr (Column ''stacktrace'') OpEq (LiteralExpr (S_String ''a''))"
  let ?e2 = "BinaryExpr (Column ''timestamp'') OpLt (LiteralExpr (S_Int64 5))"
  let ?t = "(new_scan () ''stacks'')\<lparr>sc_Filter := Some (BinaryExpr ?e1 OpAnd ?e2)\<rparr>"
  have t: "scan_at_bottom (FilterPushDown distinct_plan) = Some ?t"
    by (simp add: FilterPushDown_def distinct_plan_def sample_plan_def push_filter_def and_exprs_def computeBinaryExpr_def map_filter_simps)
  have fs: "plan_filters distinct_plan = [?e1, ?e2]" "filters_first distinct_plan" by (simp_all add: distinct_plan_def sample_plan_def)
  have comp: "list_all2 (\<lambda>e be. booleanExpr (\<lambda>_. True) e = Inr be) (plan_filters distinct_plan) [?b1, ?b2]"
    by (simp add: fs compile_comparison_def)
  have prune: "BooleanExpr (sc_Filter ?t) = Inr ?f" by (simp add: BooleanExpr_def)
  have ev: "Prune_Eval zero_compare ?f late_group = Inr False" by code_simp
  have wf: "record_wf late_record" by (simp add: record_wf_def array_wf_def late_record_def)
  have d: "list_all (describes late_group late_record) [?b1, ?b2]"
    by (auto simp: describes_def described_def ArrowArray_def late_record_def ChunkRef_def late_group_def
        page_describes_def extreme_of_def cell_vals_def map_filter_simps cmp3_def intro!: stats_describes)
  have gs: "\<forall>(p, r) \<in> set [(late_group, late_record)]. record_wf r \<and> list_all (describes p r) [?b1, ?b2] \<and>
      (\<exists>m. Prune_Eval zero_compare ?f p = Inr m)"
    using wf d ev by (simp del: Prune_Eval.simps) blast
  have agree: "\<forall>(p, r) \<in> set [(late_group, late_record)]. \<forall>be\<in>set [?b1, ?b2].
      \<not> equality_on_absent r be \<and> \<not> unequal_on_nulls r be \<and> \<not> null_page_behind p be"
    by (simp add: equality_on_absent_def unequal_on_nulls_def null_page_behind_def absent_ok_def nulls_ok_def pages_ok_def
        ArrowArray_def late_record_def ChunkRef_def late_group_def stats_def null_pages_first_def nulls_first_def)
  have ok: "\<exists>b. Eval (\<lambda>_ _. False) ?b2 late_record = Inr b"
    by (simp add: late_record_def BinaryScalarExpr_Eval_def ArrowArray_def BinaryScalarOperation_def)
  have "filter (row_holds (\<lambda>_ _. False) ?b2 late_record) [0..<rec_rows late_record] = []" by code_simp
  then have "run_filters (\<lambda>_ _. False) [?b2, ?b1] late_record = Inr []" using ok filter_record_total [OF wf] by (auto simp: Let_def)
  then have each: "run_each (\<lambda>r. value_of (run_filters (\<lambda>_ _. False) (rev [?b1, ?b2]) r)) [late_record] = Some []"
    by (simp add: value_of_def del: run_filters.simps)
  have "only_filters sample_plan" "list_all2 (\<lambda>e be. booleanExpr (\<lambda>_. True) e = Inr be) (plan_filters sample_plan) [?b1, ?b2]"
    by (simp_all add: sample_plan_def compile_comparison_def)
  from run_only_filters [OF this] have "run_plan (\<lambda>_. True) (\<lambda>_ _. False) other sample_plan [late_record] = Some []" for other
    using each by (rule trans)
  then have "Option.bind (read_groups (\<lambda>p. Inr True) [(late_group, late_record)])
      (run_plan (\<lambda>_. True) (\<lambda>_ _. False) (\<lambda>step recs. Some (remdups recs)) distinct_plan) = Some []"
    by (simp add: distinct_plan_def)
  then show ?thesis
    using fs(1) by (intro FilterPushDown_equivalent [OF zero.parquet_types_axioms t _ fs(2) comp prune gs agree]) simp_all
qed

text \<open>
  A filter on the result of an aggregation is pushed to the scan as well, where its column does
  not exist, so that every row group is ruled out.
\<close>

definition having_plan :: "unit LogicalPlan" where
  "having_plan =
     LogicalPlan
       (Some (LogicalPlan
          (Some (LogicalPlan None None (Some (new_scan () ''stacks'')) None None None None))
          None None None None None
          (Some \<lparr>ag_AggExprs = [AggregationFunction AggFuncSum (Column ''value'')], ag_GroupExprs = [Column ''stacktrace'']\<rparr>)))
       None None (Some (BinaryExpr (Column ''sum(value)'') OpGt (LiteralExpr (S_Int64 10)))) None None None"

lemma filter_above_aggregation_prunes_everything:
  assumes "''sum(value)'' \<notin> set (part_fields p)"
  shows "\<exists>t f. scan_at_bottom (FilterPushDown having_plan) = Some t \<and> BooleanExpr (sc_Filter t) = Inr f \<and>
    Prune_Eval Compare f p = Inr False"
proof -
  have "c \<notin> set fs \<Longrightarrow> findColumnIndex fs c = None" for fs c by (induction fs) auto
  then have "findColumnIndex (part_fields p) ''sum(value)'' = None" using assms by blast
  then show ?thesis
    by (simp add: FilterPushDown_def having_plan_def push_filter_def and_exprs_def computeBinaryExpr_def map_filter_simps
        BooleanExpr_def PruneScalar_Eval_def ChunkRef_def)
qed

text \<open>
  An average over all rows: the projection of the average that the first optimizer puts on top of
  the aggregation is moved below it by the last one, so that the result is the sum and the count.
\<close>

lemma average_projection_moved:
  "\<exists>scan. optimize_default (\<lambda>_. []) False
     (LogicalPlan (Some (LogicalPlan None None (Some (new_scan () ''stacks'')) None None None None)) None None None None None
        (Some \<lparr>ag_AggExprs = [AggregationFunction AggFuncAvg (Column ''value'')], ag_GroupExprs = []\<rparr>)) =
   Some (Some (LogicalPlan
     (Some (LogicalPlan (Some (LogicalPlan None None (Some scan) None None None None)) None None None None
        (Some [AverageExpr (Column ''value'')]) None))
     None None None None None
     (Some \<lparr>ag_AggExprs = [AggregationFunction AggFuncSum (Column ''value''), AggregationFunction AggFuncCount (Column ''value'')],
        ag_GroupExprs = []\<rparr>)))"
  by (simp add: optimize_default_def AverageAggregationPushDown_def PhysicalProjectionPushDown_def step_columns_def columns_of_def
      FilterPushDown_def DistinctPushDown_def ProjectionPushDown_def push_filter_def average_projection_def)

end
