(* ===== verification/Column_Builder.thy ===== *)
theory Column_Builder
  imports Pred_Filter
begin

text \<open>
  Columns and column builders: the virtual arrays of nulls (\<open>pqarrow/arrowutils/nullarray.go\<close>),
  the choice of a builder for a type and the appending of one value to it
  (\<open>pqarrow/builder/utils.go\<close>), and the record builder (\<open>pqarrow/builder/recordbuilder.go\<close>).

  A builder is its type with the cells appended so far. The only arrays of an
  otherwise unnamed type that show floating point numbers are those of \<open>float64\<close>; a list array
  shows \<open>C_List\<close> cells exactly if its values are dictionaries of binaries. Running out of
  dictionary indices, the one error of appending to a dictionary builder, is left out.
\<close>

section \<open>Columns\<close>

datatype column = Physical arrow_array | VirtualNullArray arrow_type nat

definition MakeVirtualNullArray :: "arrow_type \<Rightarrow> nat \<Rightarrow> column" where
  "MakeVirtualNullArray dt len = VirtualNullArray dt len"

definition MakeNullArray :: "arrow_type \<Rightarrow> nat \<Rightarrow> column" where
  "MakeNullArray dt len = Physical \<lparr>arr_type = dt, arr_cells = replicate len None\<rparr>"

fun column_DataType :: "column \<Rightarrow> arrow_type" where
  "column_DataType (Physical a) = arr_type a"
| "column_DataType (VirtualNullArray dt _) = dt"

fun column_Len :: "column \<Rightarrow> nat" where
  "column_Len (Physical a) = length (arr_cells a)"
| "column_Len (VirtualNullArray _ len) = len"

text \<open>\<open>IsNull(i)\<close> with \<open>Value(i)\<close>. A virtual array answers for every index; reading past the end of a physical one panics.\<close>

fun cell_at :: "column \<Rightarrow> nat \<Rightarrow> cell option option" where
  "cell_at (Physical a) i = (if i < length (arr_cells a) then Some (arr_cells a ! i) else None)"
| "cell_at (VirtualNullArray _ _) i = Some None"

definition column_cells :: "column \<Rightarrow> cell option list" where
  "column_cells c = (case c of Physical a \<Rightarrow> arr_cells a | VirtualNullArray _ len \<Rightarrow> replicate len None)"

section \<open>Builders\<close>

datatype ColumnBuilder = OptBinaryBuilder | OptInt64Builder | ListBuilder | OptBooleanBuilder | StringBuilder
  | FixedSizeBinaryBuilder | BinaryDictionaryBuilder | OtherDictionaryBuilder | OtherBuilder

fun NewBuilder :: "arrow_type \<Rightarrow> ColumnBuilder" where
  "NewBuilder T_Binary = OptBinaryBuilder"
| "NewBuilder T_Int64 = OptInt64Builder"
| "NewBuilder T_List = ListBuilder"
| "NewBuilder T_Boolean = OptBooleanBuilder"
| "NewBuilder T_String = StringBuilder"
| "NewBuilder T_FixedSizeBinary = FixedSizeBinaryBuilder"
| "NewBuilder T_DictBinary = BinaryDictionaryBuilder"
| "NewBuilder T_DictString = BinaryDictionaryBuilder"
| "NewBuilder T_DictOther = OtherDictionaryBuilder"
| "NewBuilder T_OtherType = OtherBuilder"

definition MaxInt32 :: nat where
  "MaxInt32 = 2 ^ 31 - 1"

text \<open>The bytes that the cells take up in a binary builder.\<close>

fun cell_bytes :: "cell option \<Rightarrow> nat" where
  "cell_bytes (Some (C_Bytes s)) = length s"
| "cell_bytes _ = 0"

definition data_size :: "cell option list \<Rightarrow> nat" where
  "data_size cells = sum_list (map cell_bytes cells)"

datatype builder_error = BE_Panic | ErrMaxSizeReached | BE_DictionaryType | BE_NotDictionary | BE_UnsupportedAppend

text \<open>
  What \<open>AppendValue\<close> appends: the cell, or nothing for a list of other values than binary
  dictionaries. The type assertions panic for an array of another type.
\<close>

definition append_typed :: "ColumnBuilder \<Rightarrow> arrow_type \<Rightarrow> cell \<Rightarrow> cell option list \<Rightarrow> (builder_error, cell option list) result" where
  "append_typed b dt x cells =
     (let expect = (\<lambda>ty. if dt = ty then Inr [Some x] else Inl BE_Panic)
      in case b of
           OptBinaryBuilder \<Rightarrow>
             if dt = T_Binary \<and> MaxInt32 < data_size cells + cell_bytes (Some x) then Inl ErrMaxSizeReached
             else expect T_Binary
         | OptInt64Builder \<Rightarrow> expect T_Int64
         | OptBooleanBuilder \<Rightarrow> expect T_Boolean
         | StringBuilder \<Rightarrow> expect T_String
         | FixedSizeBinaryBuilder \<Rightarrow> expect T_FixedSizeBinary
         | BinaryDictionaryBuilder \<Rightarrow>
             if dt \<in> {T_DictBinary, T_DictString} then Inr [Some x]
             else if dt = T_DictOther then Inl BE_DictionaryType
             else Inl BE_NotDictionary
         | ListBuilder \<Rightarrow>
             if dt = T_List then Inr (case x of C_List _ \<Rightarrow> [Some x] | _ \<Rightarrow> []) else Inl BE_Panic
         | OtherDictionaryBuilder \<Rightarrow> Inl BE_UnsupportedAppend
         | OtherBuilder \<Rightarrow>
             (case x of
                C_Float _ \<Rightarrow> expect T_OtherType
              | _ \<Rightarrow> Inl BE_UnsupportedAppend))"

definition AppendValue :: "ColumnBuilder \<Rightarrow> column \<Rightarrow> nat \<Rightarrow> cell option list \<Rightarrow> (builder_error, cell option list) result" where
  "AppendValue cb arr i cells =
     (case cell_at arr i of
        None \<Rightarrow> Inl BE_Panic
      | Some None \<Rightarrow> Inr (cells @ [None])
      | Some (Some x) \<Rightarrow>
          bind_result (append_typed cb (column_DataType arr) x cells) (\<lambda>new. Inr (cells @ new)))"

section \<open>Records\<close>

record table_rec =
  tr_fields :: "(string \<times> arrow_type) list"
  tr_columns :: "column list"
  tr_rows :: nat

record RecordBuilder =
  rb_schema :: "(string \<times> arrow_type) list"
  rb_fields :: "(ColumnBuilder \<times> cell option list) list"

definition NewRecordBuilder :: "(string \<times> arrow_type) list \<Rightarrow> RecordBuilder" where
  "NewRecordBuilder schema = \<lparr>rb_schema = schema, rb_fields = map (\<lambda>f. (NewBuilder (snd f), [])) schema\<rparr>"

text \<open>The loop over the builder's fields that appends row \<open>i\<close> of a record.\<close>

fun append_row :: "(ColumnBuilder \<times> cell option list) list \<Rightarrow> column list \<Rightarrow> nat \<Rightarrow> (builder_error, (ColumnBuilder \<times> cell option list) list) result" where
  "append_row [] cols i = Inr []"
| "append_row ((cb, cells) # bs) [] i = Inl BE_Panic"
| "append_row ((cb, cells) # bs) (c # cols) i =
     bind_result (AppendValue cb c i cells) (\<lambda>cells'.
       bind_result (append_row bs cols i) (\<lambda>bs'. Inr ((cb, cells') # bs')))"

text \<open>\<open>NewRecord\<close> panics for columns of different lengths; the array a builder makes has the type of its field.\<close>

definition NewRecord :: "RecordBuilder \<Rightarrow> (builder_error, table_rec) result" where
  "NewRecord b =
     (case map (length \<circ> snd) (rb_fields b) of
        [] \<Rightarrow> Inr \<lparr>tr_fields = rb_schema b, tr_columns = [], tr_rows = 0\<rparr>
      | n # ns \<Rightarrow>
          if list_all (\<lambda>m. m = n) ns
          then Inr \<lparr>tr_fields = rb_schema b,
                    tr_columns = map (\<lambda>(f, (_, cells)). Physical \<lparr>arr_type = snd f, arr_cells = cells\<rparr>)
                      (zip (rb_schema b) (rb_fields b)),
                    tr_rows = n\<rparr>
          else Inl BE_Panic)"

section \<open>Rows of a record\<close>

text \<open>A row is the list of the cells at one index.\<close>

definition row_at :: "table_rec \<Rightarrow> nat \<Rightarrow> cell option list" where
  "row_at r i = map (\<lambda>c. case cell_at c i of None \<Rightarrow> None | Some x \<Rightarrow> x) (tr_columns r)"

definition rec_rows_of :: "table_rec \<Rightarrow> cell option list list" where
  "rec_rows_of r = map (row_at r) [0..<tr_rows r]"

text \<open>
  Well-formed records: a column per field with the field's type and the record's number of rows,
  and the cells of the columns fit their types.
\<close>

definition cell_ok :: "arrow_type \<Rightarrow> cell \<Rightarrow> bool" where
  "cell_ok ty x \<longleftrightarrow> type_of_cell ty x \<and>
     (ty = T_List \<longrightarrow> (case x of C_List _ \<Rightarrow> True | _ \<Rightarrow> False)) \<and>
     (ty = T_OtherType \<longrightarrow> (case x of C_Float _ \<Rightarrow> True | _ \<Rightarrow> False)) \<and> ty \<noteq> T_DictOther"

definition column_ok :: "nat \<Rightarrow> arrow_type \<Rightarrow> column \<Rightarrow> bool" where
  "column_ok n ty c \<longleftrightarrow> column_DataType c = ty \<and> column_Len c = n \<and>
     list_all (\<lambda>x. case x of None \<Rightarrow> True | Some y \<Rightarrow> cell_ok ty y) (column_cells c)"

definition rec_ok :: "(string \<times> arrow_type) list \<Rightarrow> table_rec \<Rightarrow> bool" where
  "rec_ok fs r \<longleftrightarrow> tr_fields r = fs \<and> list_all2 (\<lambda>f c. column_ok (tr_rows r) (snd f) c) fs (tr_columns r)"

lemma column_cells_length [simp]: "length (column_cells c) = column_Len c"
  by (cases c) (auto simp: column_cells_def)

lemma cell_at_cells: "i < column_Len c \<Longrightarrow> cell_at c i = Some (column_cells c ! i)"
  by (cases c) (auto simp: column_cells_def)

lemma data_size_append [simp]: "data_size (xs @ ys) = data_size xs + data_size ys"
  by (simp add: data_size_def)

lemma append_typed_ok:
  "cell_ok ty x \<Longrightarrow> (ty = T_Binary \<Longrightarrow> data_size cells + cell_bytes (Some x) \<le> MaxInt32) \<Longrightarrow>
     append_typed (NewBuilder ty) ty x cells = Inr [Some x]"
  by (cases ty; cases x) (auto simp: append_typed_def cell_ok_def)

lemma AppendValue_ok:
  assumes "column_ok n ty c" "i < n" "ty = T_Binary \<Longrightarrow> data_size cells + cell_bytes (column_cells c ! i) \<le> MaxInt32"
  shows "AppendValue (NewBuilder ty) c i cells = Inr (cells @ [column_cells c ! i])"
proof -
  have c: "cell_at c i = Some (column_cells c ! i)" "column_DataType c = ty"
    using assms by (auto simp: column_ok_def cell_at_cells)
  have "case column_cells c ! i of None \<Rightarrow> True | Some y \<Rightarrow> cell_ok ty y"
    using assms by (auto simp: column_ok_def list_all_length)
  then show ?thesis using c assms(3) by (cases "column_cells c ! i") (auto simp: AppendValue_def append_typed_ok)
qed

lemma rec_ok_length: "rec_ok fs r \<Longrightarrow> length (tr_columns r) = length fs"
  by (auto simp: rec_ok_def dest: list_all2_lengthD)

lemma rec_ok_column: "rec_ok fs r \<Longrightarrow> k < length fs \<Longrightarrow> column_ok (tr_rows r) (snd (fs ! k)) (tr_columns r ! k)"
  by (auto simp: rec_ok_def list_all2_conv_all_nth)

lemma row_at_nth:
  "rec_ok fs r \<Longrightarrow> k < length fs \<Longrightarrow> i < tr_rows r \<Longrightarrow> row_at r i ! k = column_cells (tr_columns r ! k) ! i"
  using rec_ok_column [of fs r k] rec_ok_length [of fs r]
  by (simp add: row_at_def cell_at_cells column_ok_def)

lemma row_at_length [simp]: "length (row_at r i) = length (tr_columns r)"
  by (simp add: row_at_def)

text \<open>
  Builders of the fields \<open>fs\<close> that hold the rows \<open>rows\<close>; appending a row of a well-formed
  record gives the builders that hold one more row.
\<close>

definition builders :: "(string \<times> arrow_type) list \<Rightarrow> cell option list list \<Rightarrow> (ColumnBuilder \<times> cell option list) list" where
  "builders fs rows = map (\<lambda>k. (NewBuilder (snd (fs ! k)), map (\<lambda>row. row ! k) rows)) [0..<length fs]"

lemma NewRecordBuilder_builders: "rb_fields (NewRecordBuilder fs) = builders fs []"
  by (auto simp: NewRecordBuilder_def builders_def intro!: nth_equalityI)

lemma append_row_columns:
  assumes "list_all2 (\<lambda>f c. column_ok n (snd f) c) fs cols" "i < n" "length cells = length fs"
    and "\<forall>k < length fs. snd (fs ! k) = T_Binary \<longrightarrow>
      data_size (cells ! k) + cell_bytes (column_cells (cols ! k) ! i) \<le> MaxInt32"
  shows "append_row (zip (map (NewBuilder \<circ> snd) fs) cells) cols i =
    Inr (zip (map (NewBuilder \<circ> snd) fs) (map2 (\<lambda>cs c. cs @ [column_cells c ! i]) cells cols))"
  using assms
proof (induction fs cols arbitrary: cells rule: list_all2_induct)
  case (Cons f fs c cols)
  obtain d cells' where "cells = d # cells'" using Cons.prems(2) by (cases cells) auto
  moreover have "AppendValue (NewBuilder (snd f)) c i d = Inr (d @ [column_cells c ! i])"
    if "cells = d # cells'" for d cells'
    using AppendValue_ok [OF Cons.hyps(1) Cons.prems(1), of d] Cons.prems(3) that
    by (auto dest: spec [where x = 0])
  moreover have "append_row (zip (map (NewBuilder \<circ> snd) fs) cells') cols i =
      Inr (zip (map (NewBuilder \<circ> snd) fs) (map2 (\<lambda>cs c. cs @ [column_cells c ! i]) cells' cols))"
    if "cells = d # cells'" for d cells'
  proof (rule Cons.IH [OF Cons.prems(1)])
    show "length cells' = length fs" using Cons.prems(2) that by simp
    show "\<forall>k<length fs. snd (fs ! k) = T_Binary \<longrightarrow>
        data_size (cells' ! k) + cell_bytes (column_cells (cols ! k) ! i) \<le> MaxInt32"
      using Cons.prems(3) that by (metis Suc_less_eq length_Cons nth_Cons_Suc)
  qed
  ultimately show ?case by (simp add: comp_def)
qed simp

lemma builders_zip:
  "builders fs rows = zip (map (NewBuilder \<circ> snd) fs) (map (\<lambda>k. map (\<lambda>row. row ! k) rows) [0..<length fs])"
  by (auto simp: builders_def intro!: nth_equalityI)

text \<open>The rows fit into builders: no binary column is longer than an Arrow array can be.\<close>

definition col_size :: "nat \<Rightarrow> cell option list list \<Rightarrow> nat" where
  "col_size k rows = data_size (map (\<lambda>row. row ! k) rows)"

definition rows_fit :: "(string \<times> arrow_type) list \<Rightarrow> cell option list list \<Rightarrow> bool" where
  "rows_fit fs rows \<longleftrightarrow> list_all (\<lambda>k. snd (fs ! k) = T_Binary \<longrightarrow> col_size k rows \<le> MaxInt32) [0..<length fs]"

lemma col_size_append: "col_size k (xs @ ys) = col_size k xs + col_size k ys"
  by (simp add: col_size_def)

lemma col_size_mset: "mset xs = mset ys \<Longrightarrow> col_size k xs = col_size k ys"
  unfolding col_size_def data_size_def map_map by (metis mset_map sum_mset_sum_list)

lemma rows_fit_mset: "mset xs = mset ys \<Longrightarrow> rows_fit fs xs \<longleftrightarrow> rows_fit fs ys"
  by (simp add: rows_fit_def col_size_mset [of xs ys])

lemma rows_fit_prefix: "rows_fit fs (xs @ ys) \<Longrightarrow> rows_fit fs xs"
  by (auto simp: rows_fit_def list_all_iff col_size_append)

lemma append_row_builders:
  assumes "rec_ok fs r" "i < tr_rows r" "rows_fit fs (rows @ [row_at r i])"
  shows "append_row (builders fs rows) (tr_columns r) i = Inr (builders fs (rows @ [row_at r i]))"
proof -
  have "map2 (\<lambda>cs c. cs @ [column_cells c ! i]) (map (\<lambda>k. map (\<lambda>row. row ! k) rows) [0..<length fs]) (tr_columns r)
      = map (\<lambda>k. map (\<lambda>row. row ! k) (rows @ [row_at r i])) [0..<length fs]"
    using assms rec_ok_length [OF assms(1)] by (auto simp: row_at_nth intro!: nth_equalityI)
  then show ?thesis
    unfolding builders_zip using assms rec_ok_length [OF assms(1)]
    by (subst append_row_columns)
       (auto simp: rec_ok_def rows_fit_def list_all_iff col_size_def data_size_def [of "[_]"] row_at_nth [OF assms(1)])
qed

lemma NewRecord_builders:
  assumes "list_all (\<lambda>row. length row = length fs) rows" "fs \<noteq> []"
  obtains r where "NewRecord \<lparr>rb_schema = fs, rb_fields = builders fs rows\<rparr> = Inr r"
    "tr_fields r = fs" "rec_rows_of r = rows"
    "tr_columns r = map (\<lambda>k. Physical \<lparr>arr_type = snd (fs ! k), arr_cells = map (\<lambda>row. row ! k) rows\<rparr>) [0..<length fs]"
proof -
  let ?r = "\<lparr>tr_fields = fs,
    tr_columns = map (\<lambda>(f, (_, cells)). Physical \<lparr>arr_type = snd f, arr_cells = cells\<rparr>) (zip fs (builders fs rows)),
    tr_rows = length rows\<rparr>"
  have l: "map (length \<circ> snd) (builders fs rows) = replicate (length fs) (length rows)"
    by (auto simp: builders_def intro!: nth_equalityI)
  then have n: "NewRecord \<lparr>rb_schema = fs, rb_fields = builders fs rows\<rparr> = Inr ?r"
    using assms(2) by (cases fs) (auto simp: NewRecord_def list_all_iff)
  have "row_at ?r i = rows ! i" if "i < length rows" for i
    using that assms(1) by (auto simp: row_at_def builders_def list_all_length intro!: nth_equalityI)
  then have "rec_rows_of ?r = rows" by (auto simp: rec_rows_of_def intro!: nth_equalityI)
  moreover have "tr_columns ?r = map (\<lambda>k. Physical \<lparr>arr_type = snd (fs ! k), arr_cells = map (\<lambda>row. row ! k) rows\<rparr>) [0..<length fs]"
    by (auto simp: builders_def intro!: nth_equalityI)
  ultimately show thesis using n that [of ?r] by simp
qed

end
