(* ===== verification/Record_Merge.thy ===== *)
theory Record_Merge
  imports Column_Builder Go_Heap "HOL-Library.List_Lexorder" "HOL-Library.Char_ord" "HOL-Library.Product_Lexorder"
begin

text \<open>
  Merging sorted records (\<open>pqarrow/arrowutils/merge.go\<close>): a heap of cursors, one per record,
  ordered by the values of the key columns at the cursors' rows. Nulls come first, bytes and
  numbers in their order.
\<close>

section \<open>Cursors\<close>

record cursor =
  cu_r :: table_rec
  cu_idx :: nat

text \<open>Both values null is equal; the second component says whether a null decided.\<close>

definition nullComparison :: "bool \<Rightarrow> bool \<Rightarrow> int \<times> bool" where
  "nullComparison leftNull rightNull =
     (if \<not> leftNull \<and> \<not> rightNull then (0, False)
      else if leftNull then (if \<not> rightNull then - 1 else 0, True)
      else (1, True))"

text \<open>The comparison of two values by the type of the first column; another type of the second one panics.\<close>

definition compare_typed :: "arrow_type \<Rightarrow> arrow_type \<Rightarrow> cell \<Rightarrow> cell \<Rightarrow> int option" where
  "compare_typed ty1 ty2 x y =
     (if ty1 \<noteq> ty2 then None
      else case (ty1, x, y) of
             (T_Binary, C_Bytes s, C_Bytes t) \<Rightarrow> Some (cmp3 s t)
           | (T_Int64, C_Int v1, C_Int v2) \<Rightarrow> Some (cmp3 v1 v2)
           | (T_DictBinary, C_Bytes s, C_Bytes t) \<Rightarrow> Some (cmp3 s t)
           | _ \<Rightarrow> None)"

fun cursor_Less :: "nat list \<Rightarrow> cursor \<Rightarrow> cursor \<Rightarrow> bool option" where
  "cursor_Less [] c1 c2 = Some False"
| "cursor_Less (i # cols) c1 c2 =
     (if length (tr_columns (cu_r c1)) \<le> i \<or> length (tr_columns (cu_r c2)) \<le> i then None
      else
        let col1 = tr_columns (cu_r c1) ! i; col2 = tr_columns (cu_r c2) ! i
        in case (cell_at col1 (cu_idx c1), cell_at col2 (cu_idx c2)) of
             (Some x, Some y) \<Rightarrow>
               (case nullComparison (x = None) (y = None) of
                  (cmp, True) \<Rightarrow> if cmp = 0 then cursor_Less cols c1 c2 else Some (cmp < 0)
                | (_, False) \<Rightarrow>
                    (case compare_typed (column_DataType col1) (column_DataType col2) (the x) (the y) of
                       None \<Rightarrow> None
                     | Some cmp \<Rightarrow> if cmp = 0 then cursor_Less cols c1 c2 else Some (cmp < 0)))
           | _ \<Rightarrow> None)"

section \<open>The merge\<close>

text \<open>What the cursors still have to deliver, with one for the cursor itself: it shrinks in every iteration.\<close>

definition cursors_size :: "cursor list \<Rightarrow> nat" where
  "cursors_size h = sum_list (map (\<lambda>c. Suc (tr_rows (cu_r c) - cu_idx c)) h)"

lemma cursors_size_mset: "mset h = mset h' \<Longrightarrow> cursors_size h = cursors_size h'"
  by (simp add: cursors_size_def mset_map flip: sum_mset_sum_list)

lemma cursors_size_Cons [simp]: "cursors_size (c # h) = Suc (tr_rows (cu_r c) - cu_idx c) + cursors_size h"
  by (simp add: cursors_size_def)

lemma cursors_size_pop: "heap_pop_p less_p h = Some (c, h') \<Longrightarrow> cursors_size h' < cursors_size h"
  using cursors_size_mset [of h "c # h'"] heap_pop_mset [OF heap_pop_p_Some] by fastforce

function merge_loop :: "nat list \<Rightarrow> cursor list \<Rightarrow> (ColumnBuilder \<times> cell option list) list \<Rightarrow> (builder_error, (ColumnBuilder \<times> cell option list) list) result" where
  "merge_loop orderByCols h bs =
     (case h of
        [] \<Rightarrow> Inr bs
      | c # cs \<Rightarrow>
          (case append_row bs (tr_columns (cu_r c)) (cu_idx c) of
             Inl e \<Rightarrow> Inl e
           | Inr bs' \<Rightarrow>
               if tr_rows (cu_r c) \<le> cu_idx c + 1
               then (case heap_pop_p (cursor_Less orderByCols) h of
                       None \<Rightarrow> Inl BE_Panic
                     | Some (_, h') \<Rightarrow> merge_loop orderByCols h' bs')
               else (case heap_fix_p (cursor_Less orderByCols) (c\<lparr>cu_idx := cu_idx c + 1\<rparr> # cs) 0 of
                       None \<Rightarrow> Inl BE_Panic
                     | Some h' \<Rightarrow> merge_loop orderByCols h' bs')))"
  by pat_completeness auto
termination
proof (relation "measure (\<lambda>(_, h, _). cursors_size h)", goal_cases)
  case (2 cols h bs c cs bs' p x h')
  then show ?case by (auto dest: cursors_size_pop)
next
  case (3 cols h bs c cs bs' h')
  then have "mset h' = mset (c\<lparr>cu_idx := cu_idx c + 1\<rparr> # cs)" by (auto dest: heap_fix_p_mset)
  then have "cursors_size h' = cursors_size (c\<lparr>cu_idx := cu_idx c + 1\<rparr> # cs)" by (rule cursors_size_mset)
  then show ?case using 3 by auto
qed simp

declare merge_loop.simps [simp del]

definition MergeRecords :: "table_rec list \<Rightarrow> nat list \<Rightarrow> (builder_error, table_rec) result" where
  "MergeRecords records orderByCols =
     (case records of
        [] \<Rightarrow> Inl BE_Panic
      | r0 # _ \<Rightarrow>
          let b = NewRecordBuilder (tr_fields r0)
          in case heap_init_p (cursor_Less orderByCols) (map (\<lambda>r. \<lparr>cu_r = r, cu_idx = 0\<rparr>) records) of
               None \<Rightarrow> Inl BE_Panic
             | Some h \<Rightarrow>
                 bind_result (merge_loop orderByCols h (rb_fields b)) (\<lambda>bs. NewRecord (b\<lparr>rb_fields := bs\<rparr>)))"

section \<open>The order of the keys\<close>

text \<open>A total preorder on all cells: nulls, numbers, bytes, truth values, everything else.\<close>

fun cell_key :: "cell option \<Rightarrow> nat \<times> int \<times> string" where
  "cell_key None = (0, 0, [])"
| "cell_key (Some (C_Int v)) = (1, v, [])"
| "cell_key (Some (C_Bytes s)) = (2, 0, s)"
| "cell_key (Some (C_Bool b)) = (3, of_bool b, [])"
| "cell_key _ = (4, 0, [])"

definition cell_cmp :: "cell option \<Rightarrow> cell option \<Rightarrow> int" where
  "cell_cmp x y = cmp3 (cell_key x) (cell_key y)"

definition key_cmp :: "nat list \<Rightarrow> cell option list \<Rightarrow> cell option list \<Rightarrow> int" where
  "key_cmp cols a b = lex_cmp (map (\<lambda>k. cell_cmp (a ! k) (b ! k)) cols)"

abbreviation key_le :: "nat list \<Rightarrow> cell option list \<Rightarrow> cell option list \<Rightarrow> bool" where
  "key_le cols a b \<equiv> key_cmp cols a b \<le> 0"

interpretation keys: cmp_order "key_cmp cols" "\<lambda>_. True" for cols
  unfolding key_cmp_def by (rule lex_cmp_order) (unfold_locales, auto simp: cell_cmp_def)

definition cur_row :: "cursor \<Rightarrow> cell option list" where
  "cur_row c = row_at (cu_r c) (cu_idx c)"

definition cursor_lt :: "nat list \<Rightarrow> cursor \<Rightarrow> cursor \<Rightarrow> bool" where
  "cursor_lt cols c d \<longleftrightarrow> key_cmp cols (cur_row c) (cur_row d) < 0"

lemma not_cursor_lt: "\<not> cursor_lt cols c d \<longleftrightarrow> key_le cols (cur_row d) (cur_row c)"
  using keys.cmp_flip [of cols "cur_row d" "cur_row c"] by (simp add: cursor_lt_def not_less)

interpretation cursors: heap_order "cursor_lt cols" for cols
proof
  show "cursor_lt cols c d \<Longrightarrow> \<not> cursor_lt cols d c" for c d
    by (simp add: not_cursor_lt) (simp add: cursor_lt_def)
  show "\<not> cursor_lt cols d c \<Longrightarrow> \<not> cursor_lt cols e d \<Longrightarrow> \<not> cursor_lt cols e c" for c d e
    unfolding not_cursor_lt by (blast intro: keys.cmp_trans)
qed

section \<open>Correctness\<close>

definition keys_ok :: "(string \<times> arrow_type) list \<Rightarrow> nat list \<Rightarrow> bool" where
  "keys_ok fs cols \<longleftrightarrow>
     list_all (\<lambda>k. k < length fs \<and> snd (fs ! k) \<in> {T_Binary, T_Int64, T_DictBinary}) cols"

definition cursor_ok :: "(string \<times> arrow_type) list \<Rightarrow> cursor \<Rightarrow> bool" where
  "cursor_ok fs c \<longleftrightarrow> rec_ok fs (cu_r c) \<and> cu_idx c < tr_rows (cu_r c)"

lemma compare_typed_cells:
  assumes "ty \<in> {T_Binary, T_Int64, T_DictBinary}" "cell_ok ty x" "cell_ok ty y"
  shows "compare_typed ty ty x y = Some (cell_cmp (Some x) (Some y))"
  using assms by (cases x; cases y) (auto simp: compare_typed_def cell_ok_def cell_cmp_def cmp3_def)

lemma cursor_cell:
  assumes "cursor_ok fs c" "k < length fs"
  shows "cell_at (tr_columns (cu_r c) ! k) (cu_idx c) = Some (cur_row c ! k)"
    and "column_DataType (tr_columns (cu_r c) ! k) = snd (fs ! k)"
    and "case cur_row c ! k of None \<Rightarrow> True | Some x \<Rightarrow> cell_ok (snd (fs ! k)) x"
proof -
  let ?c = "tr_columns (cu_r c) ! k"
  have c: "column_ok (tr_rows (cu_r c)) (snd (fs ! k)) ?c" and i: "cu_idx c < tr_rows (cu_r c)"
    using assms rec_ok_column by (auto simp: cursor_ok_def)
  have row: "cur_row c ! k = column_cells ?c ! cu_idx c"
    using assms row_at_nth by (auto simp: cursor_ok_def cur_row_def)
  show "cell_at ?c (cu_idx c) = Some (cur_row c ! k)" "column_DataType ?c = snd (fs ! k)"
    using c i row by (auto simp: column_ok_def cell_at_cells)
  show "case cur_row c ! k of None \<Rightarrow> True | Some x \<Rightarrow> cell_ok (snd (fs ! k)) x"
    using c i unfolding row column_ok_def list_all_length by auto
qed

lemma cursor_Less_lt:
  assumes "cursor_ok fs c" "cursor_ok fs d" "keys_ok fs cols"
  shows "cursor_Less cols c d = Some (cursor_lt cols c d)"
  using assms(3)
proof (induction cols)
  case Nil
  show ?case by (simp add: cursor_lt_def key_cmp_def)
next
  case (Cons k cols)
  have k: "k < length fs" "snd (fs ! k) \<in> {T_Binary, T_Int64, T_DictBinary}"
    using Cons.prems by (simp_all add: keys_ok_def)
  have n: "k < length (tr_columns (cu_r c))" "k < length (tr_columns (cu_r d))"
    using assms(1,2) k rec_ok_length by (auto simp: cursor_ok_def)
  have IH: "cursor_Less cols c d = Some (cursor_lt cols c d)" using Cons by (simp add: keys_ok_def)
  have lt: "cursor_lt (k # cols) c d \<longleftrightarrow>
      (if cell_cmp (cur_row c ! k) (cur_row d ! k) = 0 then cursor_lt cols c d
       else cell_cmp (cur_row c ! k) (cur_row d ! k) < 0)"
    by (simp add: cursor_lt_def key_cmp_def)
  note cc = cursor_cell [OF assms(1) k(1)] and dd = cursor_cell [OF assms(2) k(1)]
  show ?case
  proof (cases "cur_row c ! k = None \<or> cur_row d ! k = None")
    case True
    then have "nullComparison (cur_row c ! k = None) (cur_row d ! k = None)
        = (cell_cmp (cur_row c ! k) (cur_row d ! k), True)"
      by (cases "cur_row c ! k" rule: cell_key.cases; cases "cur_row d ! k" rule: cell_key.cases)
         (auto simp: nullComparison_def cell_cmp_def cmp3_def)
    then show ?thesis using n cc dd IH lt by (simp add: Let_def)
  next
    case False
    then obtain x y where xy: "cur_row c ! k = Some x" "cur_row d ! k = Some y" by auto
    have "compare_typed (snd (fs ! k)) (snd (fs ! k)) x y = Some (cell_cmp (Some x) (Some y))"
      using compare_typed_cells [OF k(2)] cc(3) dd(3) xy by simp
    then show ?thesis using n cc dd IH lt xy by (simp add: Let_def nullComparison_def)
  qed
qed

lemma cursors_compare:
  "\<forall>c\<in>set h. cursor_ok fs c \<Longrightarrow> keys_ok fs cols \<Longrightarrow> compares (cursor_Less cols) (cursor_lt cols) (set h)"
  by (auto simp: compares_def intro: cursor_Less_lt)

text \<open>The rows a cursor has not delivered yet, and the records whose rows are in order.\<close>

definition remaining :: "cursor \<Rightarrow> cell option list list" where
  "remaining c = map (row_at (cu_r c)) [cu_idx c..<tr_rows (cu_r c)]"

definition rows_sorted :: "nat list \<Rightarrow> cell option list list \<Rightarrow> bool" where
  "rows_sorted cols rows \<longleftrightarrow> sorted_wrt (key_le cols) rows"

lemma remaining_Cons:
  "cu_idx c < tr_rows (cu_r c) \<Longrightarrow> remaining c = cur_row c # remaining (c\<lparr>cu_idx := cu_idx c + 1\<rparr>)"
  by (simp add: remaining_def cur_row_def upt_conv_Cons)

lemma remaining_last: "tr_rows (cu_r c) \<le> cu_idx c \<Longrightarrow> remaining c = []"
  by (simp add: remaining_def)

abbreviation all_remaining :: "cursor list \<Rightarrow> cell option list list" where
  "all_remaining h \<equiv> concat (map remaining h)"

lemma all_remaining_mset: "mset h = mset h' \<Longrightarrow> mset (all_remaining h) = mset (all_remaining h')"
  by (simp add: mset_concat mset_map flip: sum_mset_sum_list)

definition cursors_ok :: "(string \<times> arrow_type) list \<Rightarrow> nat list \<Rightarrow> cursor list \<Rightarrow> bool" where
  "cursors_ok fs cols h \<longleftrightarrow> is_heap (cursor_lt cols) h (length h) \<and>
     list_all (\<lambda>c. cursor_ok fs c \<and> rows_sorted cols (remaining c)) h"

lemma cursors_ok_mset:
  "is_heap (cursor_lt cols) h (length h) \<Longrightarrow> mset h = mset h' \<Longrightarrow>
     list_all (\<lambda>c. cursor_ok fs c \<and> rows_sorted cols (remaining c)) h' \<Longrightarrow> cursors_ok fs cols h"
  using mset_eq_setD [of h h'] by (simp add: cursors_ok_def list_all_iff)

text \<open>The row at the root comes before every row that is still to be delivered.\<close>

lemma root_least:
  assumes "cursors_ok fs cols (c # cs)" "row \<in> set (all_remaining (c # cs))"
  shows "key_le cols (cur_row c) row"
proof -
  obtain d where d: "d \<in> set (c # cs)" "row \<in> set (remaining d)" using assms(2) by auto
  then have ok: "cursor_ok fs d" "rows_sorted cols (remaining d)"
    using assms(1) by (auto simp: cursors_ok_def list_all_iff)
  have "\<not> cursor_lt cols d c"
    using assms(1) d(1) cursors.heap_root_least [of cols "c # cs" "length (c # cs)"]
    by (fastforce simp: cursors_ok_def in_set_conv_nth)
  then have "key_le cols (cur_row c) (cur_row d)" by (simp add: not_cursor_lt)
  moreover have "key_le cols (cur_row d) row"
    using ok d(2) remaining_Cons [of d] keys.cmp_refl [where cols = cols]
    by (auto simp: cursor_ok_def rows_sorted_def)
  ultimately show ?thesis by (blast intro: keys.cmp_trans)
qed

text \<open>One iteration: the heap after the root's row has been delivered.\<close>

lemma merge_step:
  assumes ok: "cursors_ok fs cols (c # cs)" and keys: "keys_ok fs cols"
    and fit: "rows_fit fs (acc @ all_remaining (c # cs))"
  obtains h' where
    "merge_loop cols (c # cs) (builders fs acc) = merge_loop cols h' (builders fs (acc @ [cur_row c]))"
    "cursors_ok fs cols h'" "mset (cur_row c # all_remaining h') = mset (all_remaining (c # cs))"
    "cursors_size h' < cursors_size (c # cs)"
proof -
  have c: "cursor_ok fs c" "rows_sorted cols (remaining c)"
    and cs: "list_all (\<lambda>c. cursor_ok fs c \<and> rows_sorted cols (remaining c)) (c # cs)"
    and heap: "is_heap (cursor_lt cols) (c # cs) (length (c # cs))"
    using ok by (auto simp: cursors_ok_def)
  have i: "cu_idx c < tr_rows (cu_r c)" and r: "rec_ok fs (cu_r c)" using c by (auto simp: cursor_ok_def)
  have rem: "remaining c = cur_row c # remaining (c\<lparr>cu_idx := cu_idx c + 1\<rparr>)" by (rule remaining_Cons [OF i])
  have "rows_fit fs (acc @ [cur_row c])"
    using fit rem rows_fit_prefix [of fs "acc @ [cur_row c]"] by simp
  then have app: "append_row (builders fs acc) (tr_columns (cu_r c)) (cu_idx c) = Inr (builders fs (acc @ [cur_row c]))"
    using append_row_builders [OF r i] by (simp add: cur_row_def)
  show thesis
  proof (cases "tr_rows (cu_r c) \<le> cu_idx c + 1")
    case True
    have cmp: "compares (cursor_Less cols) (cursor_lt cols) (set (c # cs))"
      using cs keys by (intro cursors_compare) (auto simp: list_all_iff)
    obtain d h' where pop: "heap_pop (cursor_lt cols) (c # cs) = Some (d, h')"
      by (metis heap_pop_None list.distinct(1) option.exhaust surj_pair)
    note p = cursors.heap_pop_correct [OF heap pop]
    have d: "d = c" and m: "mset h' = mset cs" using p(1,2) by auto
    have "cursors_ok fs cols h'" using cs by (intro cursors_ok_mset [OF p(3) m]) simp
    moreover have "merge_loop cols (c # cs) (builders fs acc) = merge_loop cols h' (builders fs (acc @ [cur_row c]))"
      using app True pop heap_pop_p_total [OF cmp] by (subst merge_loop.simps) simp
    moreover have "remaining (c\<lparr>cu_idx := cu_idx c + 1\<rparr>) = []" using True by (intro remaining_last) simp
    ultimately show thesis
      using that rem all_remaining_mset [OF m] cursors_size_mset [OF m] by simp
  next
    case False
    let ?c = "c\<lparr>cu_idx := cu_idx c + 1\<rparr>"
    let ?h = "heap_fix (cursor_lt cols) ((c # cs)[0 := ?c]) 0"
    have ok': "list_all (\<lambda>c. cursor_ok fs c \<and> rows_sorted cols (remaining c)) (?c # cs)"
      using cs c False rem by (auto simp: cursor_ok_def rows_sorted_def)
    then have cmp: "compares (cursor_Less cols) (cursor_lt cols) (set (?c # cs))"
      using keys by (intro cursors_compare) (auto simp: list_all_iff)
    note fx = cursors.heap_fix_root [OF heap, of ?c]
    have m: "mset ?h = mset (?c # cs)" using fx(2) by simp
    have "cursors_ok fs cols ?h"
      using fx(1) ok' m size_mset [of ?h] by (intro cursors_ok_mset [OF _ m]) (simp_all add: mset_eq_length [OF m])
    moreover have "merge_loop cols (c # cs) (builders fs acc) = merge_loop cols ?h (builders fs (acc @ [cur_row c]))"
      using app False heap_fix_p_root [OF cmp] by (subst merge_loop.simps) simp
    ultimately show thesis
      using that rem all_remaining_mset [OF m] cursors_size_mset [OF m] i by (simp add: Suc_diff_Suc)
  qed
qed

lemma merge_loop_sorted:
  assumes "cursors_ok fs cols h" "keys_ok fs cols" "rows_fit fs (acc @ all_remaining h)"
  obtains out where "merge_loop cols h (builders fs acc) = Inr (builders fs (acc @ out))"
    "mset out = mset (all_remaining h)" "rows_sorted cols out"
  using assms
proof (induction "cursors_size h" arbitrary: h acc thesis rule: less_induct)
  case less
  show ?case
  proof (cases h)
    case Nil
    then show ?thesis using less.prems(1) [of "[]"] by (simp add: merge_loop.simps rows_sorted_def)
  next
    case (Cons c cs)
    obtain h' where h': "merge_loop cols h (builders fs acc) = merge_loop cols h' (builders fs (acc @ [cur_row c]))"
      "cursors_ok fs cols h'" "mset (cur_row c # all_remaining h') = mset (all_remaining h)"
      "cursors_size h' < cursors_size h"
      using merge_step [of fs cols c cs acc] less.prems(2-4) unfolding Cons by blast
    have "mset ((acc @ [cur_row c]) @ all_remaining h') = mset (acc @ all_remaining h)"
      using h'(3) by simp
    then have "rows_fit fs ((acc @ [cur_row c]) @ all_remaining h')"
      using less.prems(4) rows_fit_mset by blast
    then obtain out where out: "merge_loop cols h' (builders fs (acc @ [cur_row c])) = Inr (builders fs ((acc @ [cur_row c]) @ out))"
      "mset out = mset (all_remaining h')" "rows_sorted cols out"
      using less.hyps [OF h'(4) _ h'(2) less.prems(3)] by blast
    have "key_le cols (cur_row c) row" if "row \<in> set out" for row
    proof (rule root_least)
      show "cursors_ok fs cols (c # cs)" using less.prems(2) Cons by simp
      have "row \<in># mset (all_remaining h)" using that out(2) h'(3) by (metis insert_iff set_mset_add_mset_insert set_mset_mset mset.simps(2))
      then show "row \<in> set (all_remaining (c # cs))" unfolding Cons by simp
    qed
    then show ?thesis
      using less.prems(1) [of "cur_row c # out"] out h'(1,3) by (simp add: rows_sorted_def)
  qed
qed

lemma merge_of_records:
  assumes "records \<noteq> []" "fs \<noteq> []" "keys_ok fs cols"
    and recs: "list_all (\<lambda>r. rec_ok fs r \<and> 0 < tr_rows r \<and> rows_sorted cols (rec_rows_of r)) records"
    and fit: "rows_fit fs (concat (map rec_rows_of records))"
  shows "\<exists>r. MergeRecords records cols = Inr r \<and> tr_fields r = fs \<and> rows_sorted cols (rec_rows_of r) \<and>
    mset (rec_rows_of r) = mset (concat (map rec_rows_of records)) \<and>
    tr_columns r = map (\<lambda>k. Physical \<lparr>arr_type = snd (fs ! k), arr_cells = map (\<lambda>row. row ! k) (rec_rows_of r)\<rparr>) [0..<length fs]"
proof -
  let ?cs = "map (\<lambda>r. \<lparr>cu_r = r, cu_idx = 0\<rparr>) records"
  let ?h = "heap_init (cursor_lt cols) ?cs"
  have all: "all_remaining ?cs = concat (map rec_rows_of records)"
    by (simp add: remaining_def rec_rows_of_def [abs_def] comp_def)
  have cs: "list_all (\<lambda>c. cursor_ok fs c \<and> rows_sorted cols (remaining c)) ?cs"
    using recs by (auto simp: list_all_iff cursor_ok_def remaining_def rec_rows_of_def)
  have "compares (cursor_Less cols) (cursor_lt cols) (set ?cs)"
    using cs assms(3) by (intro cursors_compare) (auto simp: list_all_iff)
  then have init: "heap_init_p (cursor_Less cols) ?cs = Some ?h" by (rule heap_init_p_total)
  have m: "mset ?h = mset ?cs" by (rule heap_init_mset)
  have "cursors_ok fs cols ?h"
    using cursors.heap_init_heap [of cols ?cs] mset_eq_length [OF m] cs by (intro cursors_ok_mset [OF _ m]) simp_all
  moreover have am: "mset (all_remaining ?h) = mset (all_remaining ?cs)" by (rule all_remaining_mset [OF m])
  moreover have "rows_fit fs ([] @ all_remaining ?h)" using fit am all by (metis append_Nil rows_fit_mset)
  ultimately obtain out where out: "merge_loop cols ?h (builders fs []) = Inr (builders fs out)"
    "mset out = mset (concat (map rec_rows_of records))" "rows_sorted cols out"
    using merge_loop_sorted [of fs cols ?h "[]"] assms(3) all by (metis append_Nil)
  have "length row = length fs" if "row \<in> set out" for row
    using that recs mset_eq_setD [OF out(2)] rec_ok_length
    by (auto simp: list_all_iff rec_rows_of_def)
  then obtain r where r: "NewRecord \<lparr>rb_schema = fs, rb_fields = builders fs out\<rparr> = Inr r"
      "tr_fields r = fs" "rec_rows_of r = out"
      "tr_columns r = map (\<lambda>k. Physical \<lparr>arr_type = snd (fs ! k), arr_cells = map (\<lambda>row. row ! k) out\<rparr>) [0..<length fs]"
    using NewRecord_builders [of fs out] assms(2) by (auto simp: list_all_iff)
  obtain r0 rs where rr: "records = r0 # rs" using assms(1) by (cases records) auto
  then have "tr_fields r0 = fs" using recs by (simp add: rec_ok_def)
  then have "MergeRecords records cols = NewRecord \<lparr>rb_schema = fs, rb_fields = builders fs out\<rparr>"
    using init out(1) NewRecordBuilder_builders [of fs] unfolding rr
    by (simp add: MergeRecords_def Let_def) (simp add: NewRecordBuilder_def)
  then show ?thesis using r out by (intro exI [of _ r]) simp
qed

text \<open>C13: \<open>MergeRecords\<close> of non-empty records of one schema, each in the order of the key columns, does not fail: the
  merged record has the schema, its rows are exactly the rows of the records, and they are in the order of the key
  columns.\<close>

theorem MergeRecords_merges:
  assumes "records \<noteq> []" "fs \<noteq> []" "keys_ok fs cols"
    and recs: "list_all (\<lambda>r. rec_ok fs r \<and> 0 < tr_rows r \<and> rows_sorted cols (rec_rows_of r)) records"
    and fit: "rows_fit fs (concat (map rec_rows_of records))"
  shows "\<exists>r. MergeRecords records cols = Inr r \<and> tr_fields r = fs \<and> rows_sorted cols (rec_rows_of r) \<and>
    mset (rec_rows_of r) = mset (concat (map rec_rows_of records))"
  using merge_of_records [OF assms] by blast

definition sample_fields :: "(string \<times> arrow_type) list" where
  "sample_fields = [(''stacktrace'', T_DictBinary), (''timestamp'', T_Int64)]"

definition sample_rec :: "(cell option \<times> int) list \<Rightarrow> table_rec" where
  "sample_rec rows =
     \<lparr>tr_fields = sample_fields,
      tr_columns = [Physical \<lparr>arr_type = T_DictBinary, arr_cells = map fst rows\<rparr>,
                    Physical \<lparr>arr_type = T_Int64, arr_cells = map (\<lambda>x. Some (C_Int (snd x))) rows\<rparr>],
      tr_rows = length rows\<rparr>"

definition sample_recs :: "table_rec list" where
  "sample_recs =
     [sample_rec [(None, 4), (Some (C_Bytes ''a''), 3)],
      sample_rec [(Some (C_Bytes ''a''), 1), (Some (C_Bytes ''b''), 2)]]"

lemma MergeRecords_merges_witness:
  "\<exists>r. MergeRecords sample_recs [0, 1] = Inr r \<and> tr_fields r = sample_fields \<and> rows_sorted [0, 1] (rec_rows_of r) \<and>
    mset (rec_rows_of r) = mset (concat (map rec_rows_of sample_recs))"
proof (rule MergeRecords_merges)
  show "list_all (\<lambda>r. rec_ok sample_fields r \<and> 0 < tr_rows r \<and> rows_sorted [0, 1] (rec_rows_of r)) sample_recs"
    by code_simp
  show "rows_fit sample_fields (concat (map rec_rows_of sample_recs))"
    by (simp add: rows_fit_def sample_fields_def upt_rec)
qed (code_simp)+

text \<open>Records without rows are not supported: the cursor of such a record reads past its end.\<close>

lemma MergeRecords_empty_record: "MergeRecords [sample_rec []] [0] = Inl BE_Panic"
  by code_simp

end
