(* ===== verification/Ordered_Sync.thy ===== *)
theory Ordered_Sync
  imports Record_Merge Dynamic_Columns
begin

text \<open>
  The ordered synchronizer of the query engine (\<open>query/physicalplan/ordered_synchronizer.go\<close>). Several
  inputs, each a goroutine, push records in order; a record is held until every input that has not
  finished has pushed one, and the held records are merged into one. The step relation
  interleaves the inputs at their critical sections, at the receives and sends on the channel
  \<open>wait\<close> and at the cancellation of a waiting input. The next operator's \<open>Callback\<close> and \<open>Finish\<close> return no error.
\<close>

section \<open>One schema for all records\<close>

datatype sync_error = SE_Panic | SE_MultipleFields | SE_Merge builder_error | SE_TooManyFinish | SE_Cancelled

type_synonym field_map = "(string \<times> arrow_type) list"

text \<open>One order by expression: the fields that match it, and the others, over all records.\<close>

fun split_fields :: "(string \<Rightarrow> bool option) \<Rightarrow> field_map \<Rightarrow> field_map \<times> field_map \<Rightarrow> (field_map \<times> field_map) option" where
  "split_fields m [] st = Some st"
| "split_fields m ((name, ty) # fs) (found, left) =
     (case m name of
        None \<Rightarrow> None
      | Some True \<Rightarrow> split_fields m fs (AList.update name ty found, left)
      | Some False \<Rightarrow> split_fields m fs (found, AList.update name ty left))"

fun order_columns :: "('e \<Rightarrow> string \<Rightarrow> bool option) \<Rightarrow> 'e list \<Rightarrow> field_map \<Rightarrow> field_map \<Rightarrow> (field_map list \<times> field_map) option" where
  "order_columns match [] fs left = Some ([], left)"
| "order_columns match (e # es) fs left =
     (case split_fields (match e) fs ([], left) of
        None \<Rightarrow> None
      | Some (found, left') \<Rightarrow> map_option (\<lambda>(cols, l). (found # cols, l)) (order_columns match es fs left'))"

text \<open>The fields of one order by expression: several are dynamic columns and sorted by their names.\<close>

definition ordered_fields :: "field_map \<Rightarrow> field_map" where
  "ordered_fields found =
     (if length found \<le> 1 then found
      else map (\<lambda>name. (name, the (map_of found name))) (MergeDeduplicatedDynCols (map fst found)))"

text \<open>A record with the columns of the common schema; missing ones are virtual nulls.\<close>

definition field_column :: "table_rec \<Rightarrow> string \<times> arrow_type \<Rightarrow> (sync_error, column) result" where
  "field_column r f =
     (case filter (\<lambda>k. fst (tr_fields r ! k) = fst f) [0..<length (tr_fields r)] of
        [] \<Rightarrow> Inr (MakeVirtualNullArray (snd f) (tr_rows r))
      | [k] \<Rightarrow> if k < length (tr_columns r) then Inr (tr_columns r ! k) else Inl SE_Panic
      | _ \<Rightarrow> Inl SE_MultipleFields)"

fun field_columns :: "table_rec \<Rightarrow> field_map \<Rightarrow> (sync_error, column list) result" where
  "field_columns r [] = Inr []"
| "field_columns r (f # fs) =
     bind_result (field_column r f) (\<lambda>c. bind_result (field_columns r fs) (\<lambda>cs. Inr (c # cs)))"

definition conform :: "field_map \<Rightarrow> table_rec \<Rightarrow> (sync_error, table_rec) result" where
  "conform schema r =
     (if tr_fields r = schema then Inr r
      else bind_result (field_columns r schema) (\<lambda>cs. Inr \<lparr>tr_fields = schema, tr_columns = cs, tr_rows = tr_rows r\<rparr>))"

text \<open>The records are replaced one after the other; the first error leaves the rest as they were.\<close>

fun conform_all :: "field_map \<Rightarrow> table_rec list \<Rightarrow> table_rec list \<times> sync_error option" where
  "conform_all schema [] = ([], None)"
| "conform_all schema (r # rs) =
     (case conform schema r of
        Inl e \<Rightarrow> (r # rs, Some e)
      | Inr r' \<Rightarrow> (case conform_all schema rs of (rs', e) \<Rightarrow> (r' # rs', e)))"

section \<open>The synchronizer\<close>

text \<open>Where an input is: outside of the synchronizer, waiting on the channel, about to merge, merging in \<open>Callback\<close> or in
  \<open>Finish\<close>, finished, or returned with an error.\<close>

datatype input_pc = P_Run | P_Wait | P_Last | P_Merging | P_Finishing | P_Done | P_Failed

text \<open>The mutex: free, or held by an input that still has to wake \<open>n\<close> others and then passes the merged record on.\<close>

datatype sync_lock = Free | Sending nat int table_rec

text \<open>
  The fields of the struct and, for the specification, what is held with the input it came from, what every input
  pushed, and the batches merged so far with the inputs that were running then.
\<close>

record OrderedSynchronizer =
  os_orderByCols :: "nat list"
  os_lastSchema :: "field_map option"
  os_data :: "table_rec list"
  os_inputsWaiting :: int
  os_inputsRunning :: int
  os_lock :: sync_lock
  os_pc :: "nat \<Rightarrow> input_pc"
  os_out :: "table_rec list"
  os_finishes :: nat
  os_held :: "(nat \<times> table_rec) list"
  os_pushed :: "nat \<Rightarrow> table_rec list"
  os_batches :: "((nat \<times> table_rec) list \<times> nat set) list"

text \<open>The surroundings: the number of inputs, the order by expressions and how they match, and the order in which
  Go iterates over a map.\<close>

record 'e sync_env =
  se_inputs :: nat
  se_exprs :: "'e list"
  se_match :: "'e \<Rightarrow> string \<Rightarrow> bool option"
  se_range :: "field_map \<Rightarrow> field_map"

definition NewOrderedSynchronizer :: "'e sync_env \<Rightarrow> OrderedSynchronizer" where
  "NewOrderedSynchronizer E =
     \<lparr>os_orderByCols = [], os_lastSchema = None, os_data = [], os_inputsWaiting = 0, os_inputsRunning = int (se_inputs E),
      os_lock = Free, os_pc = (\<lambda>_. P_Run), os_out = [], os_finishes = 0, os_held = [], os_pushed = (\<lambda>_. []), os_batches = []\<rparr>"

definition ensureSameSchema :: "'e sync_env \<Rightarrow> OrderedSynchronizer \<Rightarrow> OrderedSynchronizer \<times> sync_error option" where
  "ensureSameSchema E s =
     (if list_all (\<lambda>r. os_lastSchema s = Some (tr_fields r)) (os_data s) then (s, None)
      else case order_columns (se_match E) (se_exprs E) (concat (map tr_fields (os_data s))) [] of
             None \<Rightarrow> (s, Some SE_Panic)
           | Some (orderCols, leftoverCols) \<Rightarrow>
               let newFields = concat (map ordered_fields orderCols);
                   s = s\<lparr>os_orderByCols := [0..<length newFields]\<rparr>;
                   schema = newFields @ se_range E leftoverCols
               in case conform_all schema (os_data s) of
                    (records, None) \<Rightarrow> (s\<lparr>os_data := records, os_lastSchema := Some schema\<rparr>, None)
                  | (records, Some e) \<Rightarrow> (s\<lparr>os_data := records\<rparr>, Some e))"

text \<open>The first half of \<open>mergeRecordsLocked\<close>, before the other inputs are woken.\<close>

definition merge_records :: "'e sync_env \<Rightarrow> OrderedSynchronizer \<Rightarrow> OrderedSynchronizer \<times> (sync_error, table_rec) result" where
  "merge_records E s =
     (case ensureSameSchema E s of
        (s, Some e) \<Rightarrow> (s, Inl e)
      | (s, None) \<Rightarrow>
          (s, case MergeRecords (os_data s) (os_orderByCols s) of Inl e \<Rightarrow> Inl (SE_Merge e) | Inr m \<Rightarrow> Inr m))"

definition set_pc :: "nat \<Rightarrow> input_pc \<Rightarrow> OrderedSynchronizer \<Rightarrow> OrderedSynchronizer" where
  "set_pc i p s = s\<lparr>os_pc := (os_pc s)(i := p)\<rparr>"

definition start_merge :: "'e sync_env \<Rightarrow> nat \<Rightarrow> input_pc \<Rightarrow> OrderedSynchronizer \<Rightarrow> OrderedSynchronizer" where
  "start_merge E i p s =
     (case merge_records E s of
        (s, Inl e) \<Rightarrow> set_pc i P_Failed s
      | (s, Inr m) \<Rightarrow> set_pc i p (s\<lparr>os_lock := Sending i (os_inputsWaiting s) m\<rparr>))"

text \<open>\<open>Callback\<close>: the first critical section, and the second one of the last input.\<close>

definition Callback_push :: "nat \<Rightarrow> table_rec \<Rightarrow> OrderedSynchronizer \<Rightarrow> OrderedSynchronizer" where
  "Callback_push i r s =
     set_pc i (if os_inputsWaiting s + 1 \<noteq> os_inputsRunning s then P_Wait else P_Last)
       (s\<lparr>os_data := os_data s @ [r], os_inputsWaiting := os_inputsWaiting s + 1,
          os_held := os_held s @ [(i, r)], os_pushed := (os_pushed s)(i := os_pushed s i @ [r])\<rparr>)"

definition Callback_merge :: "'e sync_env \<Rightarrow> nat \<Rightarrow> OrderedSynchronizer \<Rightarrow> OrderedSynchronizer" where
  "Callback_merge E i s = start_merge E i P_Merging (s\<lparr>os_inputsWaiting := os_inputsWaiting s - 1\<rparr>)"

definition Finish_call :: "'e sync_env \<Rightarrow> nat \<Rightarrow> OrderedSynchronizer \<Rightarrow> OrderedSynchronizer" where
  "Finish_call E i s =
     (let s = s\<lparr>os_inputsRunning := os_inputsRunning s - 1\<rparr>; running = os_inputsRunning s
      in if running > 0 \<and> running = os_inputsWaiting s then start_merge E i P_Finishing s
         else if running < 0 then set_pc i P_Failed s
         else if running > 0 then set_pc i P_Done s
         else set_pc i P_Done (s\<lparr>os_finishes := os_finishes s + 1\<rparr>))"

text \<open>A send that meets the receive of a waiting input, and the end of the loop of sends.\<close>

definition wake :: "nat \<Rightarrow> OrderedSynchronizer \<Rightarrow> OrderedSynchronizer" where
  "wake j s =
     (case os_lock s of
        Free \<Rightarrow> s
      | Sending i n m \<Rightarrow> set_pc j P_Run (s\<lparr>os_lock := Sending i (n - 1) m\<rparr>))"

text \<open>The inputs that have not finished.\<close>

definition running_inputs :: "'e sync_env \<Rightarrow> OrderedSynchronizer \<Rightarrow> nat set" where
  "running_inputs E s = set (filter (\<lambda>j. os_pc s j \<noteq> P_Done \<and> os_pc s j \<noteq> P_Finishing) [0..<se_inputs E])"

definition merge_end :: "'e sync_env \<Rightarrow> OrderedSynchronizer \<Rightarrow> OrderedSynchronizer" where
  "merge_end E s =
     (case os_lock s of
        Free \<Rightarrow> s
      | Sending i n m \<Rightarrow>
          set_pc i (if os_pc s i = P_Finishing then P_Done else P_Run)
            (s\<lparr>os_inputsWaiting := 0, os_data := [], os_lock := Free, os_out := os_out s @ [m],
               os_batches := os_batches s @ [(os_held s, running_inputs E s)], os_held := []\<rparr>))"

inductive osync_step :: "'e sync_env \<Rightarrow> OrderedSynchronizer \<Rightarrow> OrderedSynchronizer \<Rightarrow> bool" for E where
  push: "i < se_inputs E \<Longrightarrow> os_lock s = Free \<Longrightarrow> os_pc s i = P_Run \<Longrightarrow> osync_step E s (Callback_push i r s)"
| merge: "i < se_inputs E \<Longrightarrow> os_lock s = Free \<Longrightarrow> os_pc s i = P_Last \<Longrightarrow> osync_step E s (Callback_merge E i s)"
| finish: "i < se_inputs E \<Longrightarrow> os_lock s = Free \<Longrightarrow> os_pc s i = P_Run \<Longrightarrow> osync_step E s (Finish_call E i s)"
| send: "j < se_inputs E \<Longrightarrow> os_lock s = Sending i n m \<Longrightarrow> 0 < n \<Longrightarrow> os_pc s j = P_Wait \<Longrightarrow> osync_step E s (wake j s)"
| unlock: "os_lock s = Sending i n m \<Longrightarrow> n \<le> 0 \<Longrightarrow> osync_step E s (merge_end E s)"
| cancel: "j < se_inputs E \<Longrightarrow> os_pc s j = P_Wait \<Longrightarrow> osync_step E s (set_pc j P_Failed s)"

inductive osync_reachable :: "'e sync_env \<Rightarrow> OrderedSynchronizer \<Rightarrow> bool" for E where
  init: "osync_reachable E (NewOrderedSynchronizer E)"
| step: "osync_reachable E s \<Longrightarrow> osync_step E s s' \<Longrightarrow> osync_reachable E s'"

section \<open>The invariant\<close>

lemma running_inputs_eq:
  "running_inputs E s = {j. j < se_inputs E \<and> os_pc s j \<noteq> P_Done \<and> os_pc s j \<noteq> P_Finishing}"
  by (auto simp: running_inputs_def)

definition inputs_at :: "'e sync_env \<Rightarrow> OrderedSynchronizer \<Rightarrow> input_pc set \<Rightarrow> nat set" where
  "inputs_at E s ps = {j. j < se_inputs E \<and> os_pc s j \<in> ps}"

abbreviation waiting_inputs :: "'e sync_env \<Rightarrow> OrderedSynchronizer \<Rightarrow> nat set" where
  "waiting_inputs E s \<equiv> inputs_at E s {P_Wait, P_Last}"

definition of_input :: "nat \<Rightarrow> (nat \<times> table_rec) list \<Rightarrow> table_rec list" where
  "of_input i b = map snd (filter (\<lambda>x. fst x = i) b)"

definition failed :: "'e sync_env \<Rightarrow> OrderedSynchronizer \<Rightarrow> bool" where
  "failed E s \<longleftrightarrow> inputs_at E s {P_Failed} \<noteq> {}"

text \<open>The batches so far: one record of every input that was running, and nothing is lost or reordered.\<close>

definition batches_ok :: "OrderedSynchronizer \<Rightarrow> bool" where
  "batches_ok s \<longleftrightarrow>
     (\<forall>(b, R)\<in>set (os_batches s). distinct (map fst b) \<and> set (map fst b) = R) \<and>
     (\<forall>i. os_pushed s i = concat (map (\<lambda>(b, R). of_input i b) (os_batches s)) @ of_input i (os_held s))"

definition lock_ok :: "'e sync_env \<Rightarrow> OrderedSynchronizer \<Rightarrow> bool" where
  "lock_ok E s \<longleftrightarrow>
     (case os_lock s of
        Free \<Rightarrow>
          set (map fst (os_held s)) = waiting_inputs E s \<and> os_inputsWaiting s = int (card (waiting_inputs E s)) \<and>
          inputs_at E s {P_Merging, P_Finishing} = {} \<and>
          (if inputs_at E s {P_Last} = {} then running_inputs E s = {} \<or> waiting_inputs E s \<noteq> running_inputs E s
           else waiting_inputs E s = running_inputs E s \<and> (\<exists>i. inputs_at E s {P_Last} = {i}))
      | Sending i n m \<Rightarrow>
          i < se_inputs E \<and> set (map fst (os_held s)) = running_inputs E s \<and>
          n = int (card (inputs_at E s {P_Wait})) \<and> inputs_at E s {P_Last} = {} \<and>
          inputs_at E s {P_Merging, P_Finishing} = {i})"

definition osync_inv :: "'e sync_env \<Rightarrow> OrderedSynchronizer \<Rightarrow> bool" where
  "osync_inv E s \<longleftrightarrow> os_inputsRunning s = int (card (running_inputs E s)) \<and> distinct (map fst (os_held s)) \<and>
     batches_ok s \<and> lock_ok E s"

definition holder_ok :: "OrderedSynchronizer \<Rightarrow> bool" where
  "holder_ok s \<longleftrightarrow> (case os_lock s of Free \<Rightarrow> True | Sending i n m \<Rightarrow> os_pc s i \<in> {P_Merging, P_Finishing})"

lemma finite_inputs [simp]: "finite (inputs_at E s ps)" "finite (running_inputs E s)"
  by (simp_all add: inputs_at_def running_inputs_def)

lemma inputs_at_upd:
  "os_pc u = (os_pc s)(i := p) \<Longrightarrow> i < se_inputs E \<Longrightarrow>
     inputs_at E u ps = (if p \<in> ps then insert i (inputs_at E s ps) else inputs_at E s ps - {i})"
  by (auto simp: inputs_at_def)

lemma inputs_at_Un: "inputs_at E s {p, q} = inputs_at E s {p} \<union> inputs_at E s {q}"
  by (auto simp: inputs_at_def)

lemma inputs_at_iff: "i \<in> inputs_at E s ps \<longleftrightarrow> i < se_inputs E \<and> os_pc s i \<in> ps"
  by (simp add: inputs_at_def)

lemma running_inputs_upd:
  "os_pc u = (os_pc s)(i := p) \<Longrightarrow> i < se_inputs E \<Longrightarrow>
     running_inputs E u =
       (if p = P_Done \<or> p = P_Finishing then running_inputs E s - {i} else insert i (running_inputs E s))"
  by (auto simp: running_inputs_eq)

lemma running_inputs_iff: "i \<in> running_inputs E s \<longleftrightarrow> i < se_inputs E \<and> os_pc s i \<noteq> P_Done \<and> os_pc s i \<noteq> P_Finishing"
  by (simp add: running_inputs_eq)

lemma merge_records_frame:
  assumes "merge_records E s = (s', r)"
  shows "os_pc s' = os_pc s" "os_lock s' = os_lock s" "os_inputsWaiting s' = os_inputsWaiting s"
    "os_inputsRunning s' = os_inputsRunning s" "os_held s' = os_held s" "os_pushed s' = os_pushed s"
    "os_batches s' = os_batches s"
  using assms unfolding merge_records_def ensureSameSchema_def
  by (auto simp: Let_def split: if_splits option.splits prod.splits)

lemma set_pc_simps [simp]:
  "os_pc (set_pc i p s) = (os_pc s)(i := p)" "os_lock (set_pc i p s) = os_lock s"
  "os_inputsWaiting (set_pc i p s) = os_inputsWaiting s" "os_inputsRunning (set_pc i p s) = os_inputsRunning s"
  "os_held (set_pc i p s) = os_held s" "os_pushed (set_pc i p s) = os_pushed s" "os_batches (set_pc i p s) = os_batches s"
  by (simp_all add: set_pc_def)

text \<open>A merge either fails, or takes the lock with the same inputs waiting.\<close>

lemma start_merge_cases:
  assumes "i < se_inputs E"
  obtains "failed E (start_merge E i p s)" "os_lock (start_merge E i p s) = os_lock s"
  | m where "os_pc (start_merge E i p s) = (os_pc s)(i := p)"
    "os_lock (start_merge E i p s) = Sending i (os_inputsWaiting s) m"
    "os_inputsRunning (start_merge E i p s) = os_inputsRunning s" "os_held (start_merge E i p s) = os_held s"
    "os_pushed (start_merge E i p s) = os_pushed s" "os_batches (start_merge E i p s) = os_batches s"
proof -
  obtain s' r where m: "merge_records E s = (s', r)" by force
  note f = merge_records_frame [OF m]
  show thesis
  proof (cases r)
    case (Inl e)
    then have "start_merge E i p s = set_pc i P_Failed s'" using m by (simp add: start_merge_def)
    moreover from this have "i \<in> inputs_at E (start_merge E i p s) {P_Failed}" using assms by (simp add: inputs_at_def)
    ultimately show thesis using that(1) f by (auto simp: failed_def)
  next
    case (Inr x)
    then have "start_merge E i p s = set_pc i p (s'\<lparr>os_lock := Sending i (os_inputsWaiting s') x\<rparr>)"
      using m by (simp add: start_merge_def)
    then show thesis using that(2) f by simp
  qed
qed

lemma of_input_simps [simp]:
  "of_input i [] = []" "of_input i (b @ [(j, r)]) = of_input i b @ (if i = j then [r] else [])"
  by (auto simp: of_input_def)

lemma free_inv:
  assumes "osync_inv E s" "os_lock s = Free"
  shows "set (map fst (os_held s)) = waiting_inputs E s" "os_inputsWaiting s = int (card (waiting_inputs E s))"
    "os_inputsRunning s = int (card (running_inputs E s))" "inputs_at E s {P_Merging, P_Finishing} = {}"
    "if inputs_at E s {P_Last} = {} then running_inputs E s = {} \<or> waiting_inputs E s \<noteq> running_inputs E s
     else waiting_inputs E s = running_inputs E s \<and> (\<exists>i. inputs_at E s {P_Last} = {i})"
  using assms unfolding osync_inv_def lock_ok_def by auto

lemma no_last:
  assumes "osync_inv E s" "os_lock s = Free" "i < se_inputs E" "os_pc s i = P_Run"
  shows "inputs_at E s {P_Last} = {}"
proof -
  have "i \<in> running_inputs E s" "i \<notin> waiting_inputs E s" using assms by (auto simp: running_inputs_eq inputs_at_def)
  then show ?thesis using free_inv(5) [OF assms(1,2)] by (auto split: if_splits)
qed

lemma push_inv:
  assumes inv: "osync_inv E s" and i: "i < se_inputs E" "os_lock s = Free" "os_pc s i = P_Run"
  shows "osync_inv E (Callback_push i r s)"
proof -
  let ?s = "Callback_push i r s" let ?W = "waiting_inputs E s" let ?R = "running_inputs E s"
  note held = free_inv(1) [OF inv i(2)] and w = free_inv(2) [OF inv i(2)] and run = free_inv(3) [OF inv i(2)]
    and nm = free_inv(4) [OF inv i(2)] and nolast = no_last [OF inv i(2,1,3)]
  have iW: "i \<notin> ?W" using i by (simp add: inputs_at_def)
  have W': "waiting_inputs E ?s = insert i ?W" and R': "running_inputs E ?s = ?R"
    using i by (auto simp: Callback_push_def inputs_at_def running_inputs_eq)
  have c: "card (insert i ?W) = card ?W + 1" using iW by simp
  have sub: "insert i ?W \<subseteq> ?R" using i by (auto simp: inputs_at_def running_inputs_eq)
  have last: "inputs_at E ?s {P_Last} = (if insert i ?W = ?R then {i} else {})"
  proof -
    have "insert i ?W = ?R \<longleftrightarrow> card (insert i ?W) = card ?R"
      using card_subset_eq [of ?R "insert i ?W"] sub by auto
    then have "insert i ?W = ?R \<longleftrightarrow> os_inputsWaiting s + 1 = os_inputsRunning s" using w run c by linarith
    then show ?thesis using nolast i by (auto simp: Callback_push_def inputs_at_def)
  qed
  have "lock_ok E ?s"
    unfolding lock_ok_def W' R' last
    using held w c nm i sub by (auto simp: Callback_push_def inputs_at_def)
  moreover have "batches_ok ?s" using inv by (simp add: osync_inv_def batches_ok_def Callback_push_def)
  moreover have "distinct (map fst (os_held ?s))" using inv held iW by (auto simp: osync_inv_def Callback_push_def)
  moreover have "os_inputsRunning ?s = int (card ?R)" using run by (simp add: Callback_push_def)
  ultimately show ?thesis unfolding osync_inv_def R' by blast
qed

lemma merge_inv:
  assumes inv: "osync_inv E s" and i: "i < se_inputs E" "os_lock s = Free" "os_pc s i = P_Last"
  shows "failed E (Callback_merge E i s) \<or> osync_inv E (Callback_merge E i s)"
proof -
  let ?s = "Callback_merge E i s" let ?t = "s\<lparr>os_inputsWaiting := os_inputsWaiting s - 1\<rparr>"
  note w = free_inv(2) [OF inv i(2)] and nm = free_inv(4) [OF inv i(2)]
  have "i \<in> inputs_at E s {P_Last}" using i by (simp add: inputs_at_def)
  then have last: "inputs_at E s {P_Last} = {i}" and held: "set (map fst (os_held s)) = running_inputs E s"
    using free_inv(1,5) [OF inv i(2)] by (auto split: if_splits)
  have "waiting_inputs E s = insert i (inputs_at E s {P_Wait})" "i \<notin> inputs_at E s {P_Wait}"
    using last i by (auto simp: inputs_at_def)
  then have w': "os_inputsWaiting s - 1 = int (card (inputs_at E s {P_Wait}))" using w by simp
  show ?thesis
    unfolding Callback_merge_def
  proof (rule start_merge_cases [OF i(1), of P_Merging ?t])
    fix m
    let ?u = "start_merge E i P_Merging ?t"
    assume u: "os_pc ?u = (os_pc ?t)(i := P_Merging)" "os_lock ?u = Sending i (os_inputsWaiting ?t) m"
      "os_inputsRunning ?u = os_inputsRunning ?t" "os_held ?u = os_held ?t"
      "os_pushed ?u = os_pushed ?t" "os_batches ?u = os_batches ?t"
    have R: "running_inputs E ?u = running_inputs E s" using u(1) i by (auto simp: running_inputs_eq)
    have "inputs_at E ?u {P_Wait} = inputs_at E s {P_Wait}" "inputs_at E ?u {P_Last} = {}"
      "inputs_at E ?u {P_Merging, P_Finishing} = {i}"
      using u(1) i last nm by (auto simp: inputs_at_def)
    then have "lock_ok E ?u" using u i held w' R by (simp add: lock_ok_def)
    moreover have "batches_ok ?u" using inv u by (simp add: osync_inv_def batches_ok_def)
    ultimately have "osync_inv E ?u" using inv u R by (simp add: osync_inv_def)
    then show "failed E ?u \<or> osync_inv E ?u" ..
  qed simp
qed

lemma finish_inv:
  assumes inv: "osync_inv E s" and i: "i < se_inputs E" "os_lock s = Free" "os_pc s i = P_Run"
  shows "failed E (Finish_call E i s) \<or> osync_inv E (Finish_call E i s)"
proof -
  let ?t = "s\<lparr>os_inputsRunning := os_inputsRunning s - 1\<rparr>"
  let ?W = "waiting_inputs E s" let ?R = "running_inputs E s - {i}"
  note held = free_inv(1) [OF inv i(2)] and w = free_inv(2) [OF inv i(2)] and run = free_inv(3) [OF inv i(2)]
    and nm = free_inv(4) [OF inv i(2)] and nolast = no_last [OF inv i(2,1,3)]
  have iR: "i \<in> running_inputs E s" using i by (simp add: running_inputs_eq)
  then have run': "os_inputsRunning ?t = int (card ?R)" using run card_gt_0_iff [of "running_inputs E s"] by auto
  have sub: "?W \<subseteq> ?R" using i by (auto simp: inputs_at_def running_inputs_eq)
  have w': "os_inputsWaiting ?t = int (card ?W)" using w by simp
  have eq: "?W = ?R \<longleftrightarrow> os_inputsRunning ?t = os_inputsWaiting ?t"
  proof
    assume "?W = ?R"
    then have "card ?W = card ?R" by (rule arg_cong)
    then show "os_inputsRunning ?t = os_inputsWaiting ?t" unfolding run' w' by (simp only:)
  next
    assume "os_inputsRunning ?t = os_inputsWaiting ?t"
    then have "card ?W = card ?R" unfolding run' w' by (simp only: of_nat_eq_iff)
    then show "?W = ?R" by (rule card_subset_eq [OF finite_Diff [OF finite_inputs(2)] sub])
  qed
  have W: "?W = inputs_at E s {P_Wait}" using nolast by (auto simp: inputs_at_def)
  have b: "batches_ok s" "distinct (map fst (os_held s))" using inv by (simp_all add: osync_inv_def)
  have pcs: "running_inputs E u = ?R" "waiting_inputs E u = ?W" "inputs_at E u {P_Last} = {}"
      "inputs_at E u {P_Wait} = inputs_at E s {P_Wait}"
      "inputs_at E u {P_Merging, P_Finishing} = (if p = P_Finishing then {i} else {})"
    if "os_pc u = (os_pc s)(i := p)" "p \<in> {P_Finishing, P_Done}" for u p
    using that(2) i nm nolast unfolding inputs_at_upd [OF that(1) i(1)] running_inputs_upd [OF that(1) i(1)]
    by (auto simp: inputs_at_iff)
  show ?thesis
  proof (cases "os_inputsRunning ?t > 0 \<and> os_inputsRunning ?t = os_inputsWaiting ?t")
    case True
    then have f: "Finish_call E i s = start_merge E i P_Finishing ?t" by (simp add: Finish_call_def Let_def)
    show ?thesis unfolding f
    proof (rule start_merge_cases [OF i(1), of P_Finishing ?t])
      fix m
      let ?u = "start_merge E i P_Finishing ?t"
      assume u: "os_pc ?u = (os_pc ?t)(i := P_Finishing)" "os_lock ?u = Sending i (os_inputsWaiting ?t) m"
        "os_inputsRunning ?u = os_inputsRunning ?t" "os_held ?u = os_held ?t"
        "os_pushed ?u = os_pushed ?t" "os_batches ?u = os_batches ?t"
      note p = pcs [of ?u P_Finishing]
      have "lock_ok E ?u" using u p held eq True w W i by (simp add: lock_ok_def)
      moreover have "batches_ok ?u" using b u by (simp add: batches_ok_def)
      ultimately have "osync_inv E ?u" using b(2) u p run' by (simp add: osync_inv_def)
      then show "failed E ?u \<or> osync_inv E ?u" ..
    qed simp
  next
    case False
    let ?u = "Finish_call E i s"
    have "\<not> os_inputsRunning ?t < 0" unfolding run' by simp
    then have f: "?u = (if os_inputsRunning ?t > 0 then set_pc i P_Done ?t
        else set_pc i P_Done (?t\<lparr>os_finishes := os_finishes ?t + 1\<rparr>))"
      using False unfolding Finish_call_def Let_def by (simp only: if_False)
    have u: "os_pc ?u = (os_pc s)(i := P_Done)" "os_lock ?u = Free" "os_inputsRunning ?u = os_inputsRunning ?t"
      "os_inputsWaiting ?u = os_inputsWaiting s" "os_held ?u = os_held s" "os_pushed ?u = os_pushed s"
      "os_batches ?u = os_batches s"
      unfolding f using i(2) by simp_all
    note p = pcs [OF u(1)]
    have "?R = {} \<or> ?W \<noteq> ?R" using False eq run' by (auto simp: card_gt_0_iff)
    then have "lock_ok E ?u" using u p held w by (simp add: lock_ok_def)
    moreover have "batches_ok ?u" using b u by (simp add: batches_ok_def)
    ultimately show ?thesis using b(2) u p run' by (simp add: osync_inv_def)
  qed
qed

lemma osync_wake_inv:
  assumes inv: "osync_inv E s" and j: "j < se_inputs E" "os_lock s = Sending i n m" "os_pc s j = P_Wait"
  shows "osync_inv E (wake j s)"
proof -
  let ?u = "wake j s"
  have u: "os_pc ?u = (os_pc s)(j := P_Run)" "os_lock ?u = Sending i (n - 1) m" "os_inputsRunning ?u = os_inputsRunning s"
    "os_held ?u = os_held s" "os_pushed ?u = os_pushed s" "os_batches ?u = os_batches s"
    using j by (simp_all add: wake_def)
  have l: "i < se_inputs E" "set (map fst (os_held s)) = running_inputs E s" "n = int (card (inputs_at E s {P_Wait}))"
    "inputs_at E s {P_Last} = {}" "inputs_at E s {P_Merging, P_Finishing} = {i}"
    using inv j by (simp_all add: osync_inv_def lock_ok_def)
  note upd = inputs_at_upd [OF u(1) j(1)] and R = running_inputs_upd [OF u(1) j(1)]
  have R: "running_inputs E ?u = running_inputs E s" unfolding R using j by (auto simp: running_inputs_iff)
  have W: "inputs_at E s {P_Wait} = insert j (inputs_at E ?u {P_Wait})" "j \<notin> inputs_at E ?u {P_Wait}"
    using j unfolding upd by (auto simp: inputs_at_iff)
  have "n - 1 = int (card (inputs_at E ?u {P_Wait}))" using l(3) W by simp
  moreover have "j \<notin> inputs_at E s {P_Merging, P_Finishing}" using j by (simp add: inputs_at_iff)
  then have "inputs_at E ?u {P_Last} = {}" "inputs_at E ?u {P_Merging, P_Finishing} = {i}"
    using l(4,5) unfolding upd by auto
  ultimately have "lock_ok E ?u" using u l(1,2) R by (simp add: lock_ok_def)
  then show ?thesis using inv u R by (simp add: osync_inv_def batches_ok_def)
qed

lemma merge_end_inv:
  assumes inv: "osync_inv E s" and l: "os_lock s = Sending i n m" "n \<le> 0"
  shows "osync_inv E (merge_end E s)"
proof -
  let ?u = "merge_end E s" let ?p = "if os_pc s i = P_Finishing then P_Done else P_Run"
  have u: "os_pc ?u = (os_pc s)(i := ?p)" "os_lock ?u = Free" "os_inputsRunning ?u = os_inputsRunning s"
    "os_inputsWaiting ?u = 0" "os_held ?u = []" "os_pushed ?u = os_pushed s"
    "os_batches ?u = os_batches s @ [(os_held s, running_inputs E s)]"
    using l by (simp_all add: merge_end_def)
  have k: "set (map fst (os_held s)) = running_inputs E s" "inputs_at E s {P_Wait} = {}"
    "inputs_at E s {P_Last} = {}" "inputs_at E s {P_Merging, P_Finishing} = {i}"
    using inv l by (simp_all add: osync_inv_def lock_ok_def)
  have "os_pc s i = P_Merging \<or> os_pc s i = P_Finishing" using k(4) by (auto simp: inputs_at_def)
  then have R: "running_inputs E ?u = running_inputs E s"
    using u(1) by (auto simp: running_inputs_eq split: if_splits)
  have pcs: "waiting_inputs E ?u = {}" "inputs_at E ?u {P_Last} = {}" "inputs_at E ?u {P_Merging, P_Finishing} = {}"
    using k(2-4) u(1) by (auto simp: inputs_at_def split: if_splits)
  have "lock_ok E ?u" using u pcs R by (auto simp: lock_ok_def)
  moreover have "batches_ok ?u"
    using inv k(1) u by (auto simp: osync_inv_def batches_ok_def)
  ultimately show ?thesis using inv u R by (simp add: osync_inv_def)
qed

text \<open>An input that failed stays failed, and the holder of the lock is merging.\<close>

inductive_cases osync_stepE: "osync_step E s s'"

lemma start_merge_holder: "os_lock s = Free \<Longrightarrow> p \<in> {P_Merging, P_Finishing} \<Longrightarrow> holder_ok (start_merge E i p s)"
  using merge_records_frame [of E s]
  by (cases "merge_records E s"; cases "snd (merge_records E s)") (auto simp: start_merge_def holder_ok_def)

lemma start_merge_other: "j \<noteq> i \<Longrightarrow> os_pc (start_merge E i p s) j = os_pc s j"
  using merge_records_frame(1) [of E s]
  by (cases "merge_records E s"; cases "snd (merge_records E s)") (auto simp: start_merge_def)

lemma Finish_call_cases:
  obtains "Finish_call E i s = start_merge E i P_Finishing (s\<lparr>os_inputsRunning := os_inputsRunning s - 1\<rparr>)"
  | "os_lock (Finish_call E i s) = os_lock s" "\<And>j. j \<noteq> i \<Longrightarrow> os_pc (Finish_call E i s) j = os_pc s j"
proof (cases "0 < os_inputsRunning s - 1 \<and> os_inputsRunning s - 1 = os_inputsWaiting s")
  case True then show thesis using that(1) by (simp add: Finish_call_def Let_def)
next
  case False
  then have "os_lock (Finish_call E i s) = os_lock s" "j \<noteq> i \<Longrightarrow> os_pc (Finish_call E i s) j = os_pc s j" for j
    unfolding Finish_call_def Let_def by auto
  then show thesis by (rule that(2))
qed

lemma holder_ok_step:
  assumes "osync_step E s s'" "holder_ok s"
  shows "holder_ok s'"
  using assms(1)
proof (cases rule: osync_step.cases)
  case (push i r) then show ?thesis by (simp add: holder_ok_def Callback_push_def)
next
  case (merge i) then show ?thesis by (simp add: Callback_merge_def start_merge_holder)
next
  case (finish i)
  show ?thesis
    using Finish_call_cases [of E i s]
  proof cases
    case 1 then show ?thesis unfolding finish(1) using finish(3) by (simp add: start_merge_holder)
  next
    case 2 then show ?thesis unfolding finish(1) using finish(3) by (simp add: holder_ok_def)
  qed
next
  case (send j i n m) then show ?thesis using assms(2) by (auto simp: holder_ok_def wake_def)
next
  case (unlock i n m) then show ?thesis by (simp add: holder_ok_def merge_end_def)
next
  case (cancel j) then show ?thesis using assms(2) by (auto simp: holder_ok_def split: sync_lock.splits)
qed

lemma failed_step:
  assumes "osync_step E s s'" "holder_ok s" "os_pc s j = P_Failed"
  shows "os_pc s' j = P_Failed"
  using assms(1)
proof (cases rule: osync_step.cases)
  case (push i r) then show ?thesis using assms(3) by (auto simp: Callback_push_def)
next
  case (merge i)
  then have "j \<noteq> i" using assms(3) by auto
  then show ?thesis using merge(1) assms(3) by (simp add: Callback_merge_def start_merge_other)
next
  case (finish i)
  then have j: "j \<noteq> i" using assms(3) by auto
  show ?thesis
    using Finish_call_cases [of E i s]
    by cases (use finish(1) j assms(3) in \<open>simp_all add: start_merge_other\<close>)
next
  case (send k i n m) then show ?thesis using assms(3) by (auto simp: wake_def)
next
  case (unlock i n m) then show ?thesis using assms(2,3) by (auto simp: merge_end_def holder_ok_def)
next
  case (cancel k) then show ?thesis using assms(3) by simp
qed

lemma osync_inv_init: "osync_inv E (NewOrderedSynchronizer E)"
proof -
  let ?s = "NewOrderedSynchronizer E"
  have "running_inputs E ?s = {..<se_inputs E}" by (auto simp: running_inputs_eq NewOrderedSynchronizer_def)
  moreover have "inputs_at E ?s ps = (if P_Run \<in> ps then {..<se_inputs E} else {})" for ps
    by (auto simp: inputs_at_def NewOrderedSynchronizer_def)
  ultimately show ?thesis
    by (auto simp: osync_inv_def lock_ok_def batches_ok_def) (auto simp: NewOrderedSynchronizer_def)
qed

lemma osync_inv_step:
  assumes "osync_step E s s'" "osync_inv E s"
  shows "failed E s' \<or> osync_inv E s'"
  using assms(1)
proof (cases rule: osync_step.cases)
  case (push i r) then show ?thesis using push_inv [OF assms(2)] by blast
next
  case (merge i) then show ?thesis using merge_inv [OF assms(2)] by blast
next
  case (finish i) then show ?thesis using finish_inv [OF assms(2)] by blast
next
  case (send j i n m) then show ?thesis using osync_wake_inv [OF assms(2)] by blast
next
  case (unlock i n m) then show ?thesis using merge_end_inv [OF assms(2)] by blast
next
  case (cancel j) then show ?thesis by (auto simp: failed_def inputs_at_def)
qed

lemma osync_reachable_inv:
  assumes "osync_reachable E s"
  shows "holder_ok s" "failed E s \<or> osync_inv E s"
proof -
  have "holder_ok s \<and> (failed E s \<or> osync_inv E s)"
    using assms
  proof induction
    case init
    show ?case using osync_inv_init by (auto simp: holder_ok_def NewOrderedSynchronizer_def)
  next
    case (step s s')
    have "failed E s'" if "failed E s"
      using that failed_step [OF step.hyps(2)] step.IH by (auto simp: failed_def inputs_at_def)
    then show ?case using step holder_ok_step osync_inv_step by blast
  qed
  then show "holder_ok s" "failed E s \<or> osync_inv E s" by auto
qed

section \<open>Batches and progress\<close>

text \<open>
  What is passed on is merged from what is held: the records are brought to one schema, whose first columns are those that match
  an order by expression, and merged by these columns. The order in which Go iterates over a map is any that visits all of it.
\<close>

definition order_names :: "'e sync_env \<Rightarrow> field_map \<Rightarrow> string set" where
  "order_names E fs = {name \<in> fst ` set fs. \<exists>e\<in>set (se_exprs E). se_match E e name = Some True}"

definition merge_of :: "'e sync_env \<Rightarrow> table_rec list \<Rightarrow> table_rec \<Rightarrow> bool" where
  "merge_of E rs m \<longleftrightarrow> (\<exists>schema n recs. conform_all schema rs = (recs, None) \<and>
     fst ` set (take n schema) = order_names E (concat (map tr_fields rs)) \<and> MergeRecords recs [0..<n] = Inr m)"

definition iterates :: "'e sync_env \<Rightarrow> bool" where
  "iterates E \<longleftrightarrow> (\<forall>fs. mset (se_range E fs) = mset fs)"

lemma split_fields_names:
  "split_fields m fs (found, left) = Some (found', left') \<Longrightarrow>
     fst ` set found' = fst ` set found \<union> {name \<in> fst ` set fs. m name = Some True} \<and>
     fst ` set left' = fst ` set left \<union> {name \<in> fst ` set fs. m name = Some False}"
proof (induction fs arbitrary: found left)
  case (Cons f fs)
  obtain name ty where f: "f = (name, ty)" by (cases f)
  have upd: "fst ` set (AList.update k v xs) = insert k (fst ` set xs)" for k :: string and v :: arrow_type and xs
    by (simp add: dom_update flip: dom_map_of_conv_image_fst) (simp add: update_conv' dom_map_of_conv_image_fst)
  show ?case using Cons unfolding f by (auto simp: upd split: option.splits bool.splits)
qed auto

lemma order_columns_names:
  "order_columns match es fs left = Some (cols, left') \<Longrightarrow>
     fst ` set (concat cols) = {name \<in> fst ` set fs. \<exists>e\<in>set es. match e name = Some True} \<and>
     fst ` set left' \<subseteq> fst ` set left \<union> fst ` set fs"
proof (induction es arbitrary: left cols)
  case (Cons e es)
  then obtain found l cols' where l: "split_fields (match e) fs ([], left) = Some (found, l)"
      "order_columns match es fs l = Some (cols', left')" "cols = found # cols'"
    by (auto split: option.splits)
  have "fst ` set (concat cols) = fst ` set found \<union> fst ` set (concat cols')" by (simp add: l(3) image_Un)
  then show ?case using Cons.IH [OF l(2)] split_fields_names [OF l(1)] by (auto simp del: set_concat)
qed auto

lemma ordered_fields_names: "fst ` set (ordered_fields found) = fst ` set found"
  by (auto simp: ordered_fields_def MergeDeduplicatedDynCols_def image_image)

lemma ordered_columns_names: "fst ` set (concat (map ordered_fields cols)) = fst ` set (concat cols)"
  by (induction cols) (simp_all add: image_Un ordered_fields_names)

definition schema_ok :: "'e sync_env \<Rightarrow> OrderedSynchronizer \<Rightarrow> bool" where
  "schema_ok E s \<longleftrightarrow> (\<forall>schema. os_lastSchema s = Some schema \<longrightarrow>
     (\<exists>n. os_orderByCols s = [0..<n] \<and> fst ` set (take n schema) = order_names E schema))"

lemma conform_all_same: "list_all (\<lambda>r. tr_fields r = schema) rs \<Longrightarrow> conform_all schema rs = (rs, None)"
  by (induction rs) (simp_all add: conform_def)

lemma ensureSameSchema_ok:
  assumes "ensureSameSchema E s = (t, None)" "schema_ok E s" "os_data s \<noteq> []" "iterates E"
  shows "schema_ok E t \<and> (\<exists>schema n. conform_all schema (os_data s) = (os_data t, None) \<and> os_orderByCols t = [0..<n] \<and>
    fst ` set (take n schema) = order_names E (concat (map tr_fields (os_data s))))"
proof (cases "list_all (\<lambda>r. os_lastSchema s = Some (tr_fields r)) (os_data s)")
  case True
  obtain r where r: "r \<in> set (os_data s)" using assms(3) by (cases "os_data s") auto
  then have last: "os_lastSchema s = Some (tr_fields r)" using True by (auto simp: list_all_iff)
  then have same: "list_all (\<lambda>x. tr_fields x = tr_fields r) (os_data s)" using True by (auto simp: list_all_iff)
  then have "tr_fields ` set (os_data s) = {tr_fields r}" using r unfolding list_all_iff by blast
  moreover have "set (concat (map tr_fields (os_data s))) = (\<Union>fs\<in>tr_fields ` set (os_data s). set fs)" by auto
  ultimately have "set (concat (map tr_fields (os_data s))) = set (tr_fields r)" by simp
  then have names: "order_names E (concat (map tr_fields (os_data s))) = order_names E (tr_fields r)" by (simp only: order_names_def)
  have t: "t = s" using True assms(1) by (simp add: ensureSameSchema_def)
  obtain n where "os_orderByCols s = [0..<n]" "fst ` set (take n (tr_fields r)) = order_names E (tr_fields r)"
    using assms(2) last by (auto simp: schema_ok_def)
  then show ?thesis using conform_all_same [OF same] assms(2) unfolding t names by blast
next
  case False
  let ?fs = "concat (map tr_fields (os_data s))"
  obtain cols left where c: "order_columns (se_match E) (se_exprs E) ?fs [] = Some (cols, left)"
    using False assms(1) by (auto simp: ensureSameSchema_def split: option.splits)
  let ?new = "concat (map ordered_fields cols)" let ?schema = "?new @ se_range E left"
  have t: "conform_all ?schema (os_data s) = (os_data t, None)" "os_orderByCols t = [0..<length ?new]" "os_lastSchema t = Some ?schema"
  proof -
    obtain recs e where recs: "conform_all ?schema (os_data s) = (recs, e)" by force
    have "ensureSameSchema E s = (case e of
        None \<Rightarrow> (s\<lparr>os_orderByCols := [0..<length ?new], os_data := recs, os_lastSchema := Some ?schema\<rparr>, None)
      | Some e \<Rightarrow> (s\<lparr>os_orderByCols := [0..<length ?new], os_data := recs\<rparr>, Some e))"
      unfolding ensureSameSchema_def if_not_P [OF False] c using recs by (simp add: Let_def del: set_concat split: option.splits)
    then show "conform_all ?schema (os_data s) = (os_data t, None)" "os_orderByCols t = [0..<length ?new]" "os_lastSchema t = Some ?schema"
      using assms(1) recs by (cases e; force)+
  qed
  have new: "fst ` set ?new = order_names E ?fs" and l: "fst ` set left \<subseteq> fst ` set ?fs"
    using order_columns_names [OF c] by (simp_all add: ordered_columns_names order_names_def del: set_concat)
  have "set (se_range E left) = set left" using assms(4) by (metis iterates_def mset_eq_setD)
  then have "order_names E ?schema = order_names E ?fs" using new l by (auto simp: order_names_def image_Un simp del: set_concat)
  moreover have take: "fst ` set (take (length ?new) ?schema) = order_names E ?fs" using new by (simp del: set_concat length_concat)
  ultimately have "schema_ok E t" unfolding schema_ok_def t(2,3) option.inject by metis
  then show ?thesis using t(1,2) take by blast
qed

lemma ensureSameSchema_out: "ensureSameSchema E s = (t, e) \<Longrightarrow> os_out t = os_out s"
  unfolding ensureSameSchema_def by (simp add: Let_def split: if_splits option.splits prod.splits) auto

definition data_ok :: "'e sync_env \<Rightarrow> OrderedSynchronizer \<Rightarrow> bool" where
  "data_ok E s \<longleftrightarrow> schema_ok E s \<and> list_all2 (\<lambda>(b, R) m. merge_of E (map snd b) m) (os_batches s) (os_out s) \<and>
     (case os_lock s of Free \<Rightarrow> os_data s = map snd (os_held s) | Sending i n m \<Rightarrow> merge_of E (map snd (os_held s)) m)"

lemma start_merge_data:
  assumes "i < se_inputs E" "data_ok E s" "os_lock s = Free" "os_held s \<noteq> []" "iterates E"
  shows "failed E (start_merge E i p s) \<or> data_ok E (start_merge E i p s)"
proof -
  obtain s' r where m: "merge_records E s = (s', r)" by force
  note f = merge_records_frame [OF m]
  show ?thesis
  proof (cases r)
    case (Inl e)
    then have "start_merge E i p s = set_pc i P_Failed s'" using m by (simp add: start_merge_def)
    then have "i \<in> inputs_at E (start_merge E i p s) {P_Failed}" using assms(1) by (simp add: inputs_at_def)
    then show ?thesis by (auto simp: failed_def)
  next
    case (Inr x)
    then have s': "ensureSameSchema E s = (s', None)" "MergeRecords (os_data s') (os_orderByCols s') = Inr x"
      using m by (auto simp: merge_records_def split: prod.splits option.splits sum.splits)
    have data: "os_data s = map snd (os_held s)" "schema_ok E s" using assms(2,3) by (auto simp: data_ok_def)
    then have "os_data s \<noteq> []" using assms(4) by simp
    from ensureSameSchema_ok [OF s'(1) data(2) this assms(5)] obtain schema n where ok: "schema_ok E s'"
        "conform_all schema (os_data s) = (os_data s', None)" "os_orderByCols s' = [0..<n]"
        "fst ` set (take n schema) = order_names E (concat (map tr_fields (os_data s)))"
      by blast
    have "merge_of E (os_data s) x" unfolding merge_of_def using ok(2,4) s'(2) [unfolded ok(3)] by blast
    then show ?thesis
      using m f Inr ensureSameSchema_out [OF s'(1)] data(1) assms(2) ok(1) by (simp add: start_merge_def data_ok_def schema_ok_def set_pc_def)
  qed
qed

lemma held_ne:
  assumes "osync_inv E s" "os_lock s = Free"
  shows "i < se_inputs E \<Longrightarrow> os_pc s i = P_Last \<Longrightarrow> os_held s \<noteq> []" "0 < os_inputsWaiting s \<Longrightarrow> os_held s \<noteq> []"
proof -
  note f = free_inv(1,2) [OF assms]
  show "os_held s \<noteq> []" if "i < se_inputs E" "os_pc s i = P_Last"
    using f(1) that inputs_at_iff [of i E s "{P_Wait, P_Last}"] by auto
  show "os_held s \<noteq> []" if "0 < os_inputsWaiting s"
  proof
    assume "os_held s = []"
    then have "waiting_inputs E s = {}" using f(1) by simp
    then show False using f(2) that by simp
  qed
qed

lemma data_ok_simps [simp]:
  "data_ok E (set_pc i p s) = data_ok E s" "data_ok E (s\<lparr>os_inputsRunning := r\<rparr>) = data_ok E s"
  "data_ok E (s\<lparr>os_inputsWaiting := w\<rparr>) = data_ok E s" "data_ok E (s\<lparr>os_finishes := k\<rparr>) = data_ok E s"
  by (simp_all add: data_ok_def schema_ok_def set_pc_def split: sync_lock.splits)

lemma data_ok_step:
  assumes "osync_step E s s'" "data_ok E s" "osync_inv E s" "iterates E"
  shows "failed E s' \<or> data_ok E s'"
  using assms(1)
proof cases
  case (push i r)
  then show ?thesis using assms(2) by (simp add: Callback_push_def) (simp add: data_ok_def schema_ok_def)
next
  case (merge i)
  then show ?thesis
    unfolding merge(1) Callback_merge_def using assms held_ne(1) [OF assms(3) merge(3,2,4)] by (intro start_merge_data) auto
next
  case (finish i)
  let ?s = "s\<lparr>os_inputsRunning := os_inputsRunning s - 1\<rparr>"
  have "failed E (start_merge E i P_Finishing ?s) \<or> data_ok E (start_merge E i P_Finishing ?s)" if "0 < os_inputsWaiting s"
    using finish assms(2,4) held_ne(2) [OF assms(3) finish(3) that] by (intro start_merge_data) auto
  then show ?thesis using finish assms(2) by (auto simp: Finish_call_def Let_def)
next
  case (send j i n m)
  then show ?thesis using assms(2) by (simp add: wake_def) (simp add: data_ok_def schema_ok_def)
next
  case (unlock i n m)
  then have "list_all2 (\<lambda>(b, R) m. merge_of E (map snd b) m) (os_batches s @ [(os_held s, running_inputs E s)]) (os_out s @ [m])"
    using assms(2) by (intro list_all2_appendI) (auto simp: data_ok_def)
  then show ?thesis using assms(2) unlock by (simp add: merge_end_def) (simp add: data_ok_def schema_ok_def)
next
  case (cancel j)
  then show ?thesis using assms(2) by simp
qed

lemma osync_reachable_data: "osync_reachable E s \<Longrightarrow> iterates E \<Longrightarrow> failed E s \<or> data_ok E s"
proof (induction rule: osync_reachable.induct)
  case init
  show ?case by (simp add: data_ok_def schema_ok_def NewOrderedSynchronizer_def)
next
  case (step s s')
  have "failed E s'" if "failed E s"
    using that failed_step [OF step.hyps(2)] osync_reachable_inv(1) [OF step.hyps(1)] by (auto simp: failed_def inputs_at_def)
  then show ?case using step data_ok_step osync_reachable_inv(2) [OF step.hyps(1)] by blast
qed

text \<open>C32: in every interleaving in which no input has returned an error, each record passed on is the merge of
  a batch of pushed records, exactly one of every input that had not finished then: they are brought to one schema that starts with the
  columns that match an order by expression, and merged by these columns. The records of an input are in the
  batches once each and in the order in which it pushed them, and those that are in no batch yet are what the synchronizer
  holds, unless it is passing on their merge.\<close>

theorem osync_batches_complete:
  assumes "osync_reachable E s" "\<not> failed E s" "iterates E"
  shows "list_all2 (\<lambda>(b, R) m. merge_of E (map snd b) m) (os_batches s) (os_out s) \<and>
    (\<forall>(b, R)\<in>set (os_batches s). distinct (map fst b) \<and> set (map fst b) = R) \<and>
    (\<forall>i. os_pushed s i = concat (map (\<lambda>(b, R). of_input i b) (os_batches s)) @ of_input i (os_held s)) \<and>
    (case os_lock s of Free \<Rightarrow> os_data s = map snd (os_held s) | Sending i n m \<Rightarrow> merge_of E (map snd (os_held s)) m)"
  using osync_reachable_inv(2) [OF assms(1)] osync_reachable_data [OF assms(1,3)] assms(2)
  unfolding osync_inv_def batches_ok_def data_ok_def by blast

text \<open>C33: in every interleaving in which no input has returned an error, the inputs never all wait for each other: unless
  all of them have finished, one of them is outside of the synchronizer or about to merge, and an input that wakes the
  others finds one that waits for each of its messages.\<close>

theorem osync_no_deadlock:
  assumes "osync_reachable E s" "\<not> failed E s"
  shows "case os_lock s of
      Free \<Rightarrow> (\<forall>i < se_inputs E. os_pc s i = P_Done) \<or> (\<exists>i < se_inputs E. os_pc s i = P_Run \<or> os_pc s i = P_Last)
    | Sending i n m \<Rightarrow> n = int (card {j. j < se_inputs E \<and> os_pc s j = P_Wait})"
proof (cases "os_lock s")
  case Free
  have inv: "osync_inv E s" using osync_reachable_inv(2) [OF assms(1)] assms(2) by blast
  note f = free_inv(4,5) [OF inv Free]
  have pcs: "os_pc s i \<in> {P_Run, P_Wait, P_Last, P_Done}" if "i < se_inputs E" for i
    using that f(1) assms(2) by (cases "os_pc s i") (auto simp: failed_def inputs_at_def)
  show ?thesis
  proof (cases "\<exists>i < se_inputs E. os_pc s i = P_Run \<or> os_pc s i = P_Last")
    case False
    then have "inputs_at E s {P_Last} = {}" "waiting_inputs E s = running_inputs E s"
      using pcs by (force simp: inputs_at_def running_inputs_eq)+
    then have "running_inputs E s = {}" using f(2) by simp
    then have "\<forall>i < se_inputs E. os_pc s i = P_Done" using pcs by (force simp: running_inputs_eq)
    then show ?thesis using Free by simp
  qed (simp add: Free)
next
  case (Sending i n m)
  have "osync_inv E s" using osync_reachable_inv(2) [OF assms(1)] assms(2) by blast
  then show ?thesis using Sending by (simp add: osync_inv_def lock_ok_def inputs_at_def)
qed

text \<open>Two inputs, ordered by one column; the first pushes a record with another schema than the second.\<close>

definition two_inputs :: "string sync_env" where
  "two_inputs =
     \<lparr>se_inputs = 2, se_exprs = [''stacktrace''], se_match = (\<lambda>e name. Some (e = name)), se_range = (\<lambda>fs. fs)\<rparr>"

definition plain_rec :: "string list \<Rightarrow> table_rec" where
  "plain_rec stacks =
     \<lparr>tr_fields = [(''stacktrace'', T_DictBinary)],
      tr_columns = [Physical \<lparr>arr_type = T_DictBinary, arr_cells = map (\<lambda>s. Some (C_Bytes s)) stacks\<rparr>],
      tr_rows = length stacks\<rparr>"

definition sample_run :: "(OrderedSynchronizer \<Rightarrow> OrderedSynchronizer) list" where
  "sample_run =
     [Callback_push 0 (plain_rec [''a'', ''c'']), Callback_push 1 (sample_rec [(Some (C_Bytes ''b''), 7)]),
      Callback_merge two_inputs 1]"

definition run_sync :: "'e sync_env \<Rightarrow> (OrderedSynchronizer \<Rightarrow> OrderedSynchronizer) list \<Rightarrow> OrderedSynchronizer" where
  "run_sync E ops = foldl (\<lambda>s f. f s) (NewOrderedSynchronizer E) ops"

lemma run_sync_snoc [simp]: "run_sync E [] = NewOrderedSynchronizer E" "run_sync E (ops @ [f]) = f (run_sync E ops)"
  by (simp_all add: run_sync_def)

definition sample_sync :: OrderedSynchronizer where
  "sample_sync = run_sync two_inputs sample_run"

lemma sample_pushes:
  "osync_reachable two_inputs (run_sync two_inputs (take 2 sample_run))"
proof -
  have "osync_reachable two_inputs (Callback_push 0 (plain_rec [''a'', ''c'']) (NewOrderedSynchronizer two_inputs))"
    by (rule osync_reachable.step [OF osync_reachable.init osync_step.push]) code_simp+
  then have "osync_reachable two_inputs (Callback_push 1 (sample_rec [(Some (C_Bytes ''b''), 7)])
      (Callback_push 0 (plain_rec [''a'', ''c'']) (NewOrderedSynchronizer two_inputs)))"
    by (rule osync_reachable.step [OF _ osync_step.push]) code_simp+
  then show ?thesis by (simp add: sample_run_def run_sync_def)
qed

lemma sample_sync_reachable: "osync_reachable two_inputs sample_sync"
proof -
  have "sample_sync = Callback_merge two_inputs 1 (run_sync two_inputs (take 2 sample_run))"
    by (simp add: sample_sync_def run_sync_def sample_run_def)
  moreover have "osync_step two_inputs (run_sync two_inputs (take 2 sample_run))
      (Callback_merge two_inputs 1 (run_sync two_inputs (take 2 sample_run)))"
    by (rule osync_step.merge) code_simp+
  ultimately show ?thesis using osync_reachable.step [OF sample_pushes] by simp
qed

definition sample_done :: OrderedSynchronizer where
  "sample_done = merge_end two_inputs (wake 0 sample_sync)"

lemma failed_code: "failed E s \<longleftrightarrow> list_ex (\<lambda>i. os_pc s i = P_Failed) [0..<se_inputs E]"
  by (auto simp: failed_def inputs_at_def list_ex_iff)

lemma sample_lock: "case os_lock sample_sync of Free \<Rightarrow> False | Sending i n m \<Rightarrow> i = 1 \<and> n = 1"
  by code_simp

lemma sample_done_reachable: "osync_reachable two_inputs sample_done"
proof -
  obtain m where l: "os_lock sample_sync = Sending 1 1 m"
    using sample_lock by (auto split: sync_lock.splits)
  have "os_pc sample_sync 0 = P_Wait" "0 < se_inputs two_inputs" by code_simp+
  then have "osync_step two_inputs sample_sync (wake 0 sample_sync)"
    using l by (intro osync_step.send) auto
  moreover have "osync_step two_inputs (wake 0 sample_sync) sample_done"
    using l unfolding sample_done_def by (intro osync_step.unlock [of _ 1 0 m]) (simp_all add: wake_def)
  ultimately show ?thesis using sample_sync_reachable by (blast intro: osync_reachable.step)
qed

lemma osync_batches_complete_witness:
  "list_all (\<lambda>(b, R). distinct (map fst b) \<and> set (map fst b) = R) (os_batches sample_done) \<and>
   (\<forall>i. os_pushed sample_done i =
      concat (map (\<lambda>(b, R). of_input i b) (os_batches sample_done)) @ of_input i (os_held sample_done)) \<and>
   list_all2 (\<lambda>(b, R) m. merge_of two_inputs (map snd b) m) (os_batches sample_done) (os_out sample_done) \<and> os_data sample_done = [] \<and>
   map rec_rows_of (os_out sample_done) =
     [[[Some (C_Bytes ''a''), None], [Some (C_Bytes ''b''), Some (C_Int 7)], [Some (C_Bytes ''c''), None]]]"
proof -
  have "\<not> failed two_inputs sample_done" unfolding failed_code by code_simp
  moreover have "map rec_rows_of (os_out sample_done) =
     [[[Some (C_Bytes ''a''), None], [Some (C_Bytes ''b''), Some (C_Int 7)], [Some (C_Bytes ''c''), None]]]" by code_simp
  moreover have "os_data sample_done = []" by code_simp
  moreover have "iterates two_inputs" by (simp add: iterates_def two_inputs_def)
  ultimately show ?thesis using osync_batches_complete [OF sample_done_reachable] unfolding list_all_iff by blast
qed

lemma osync_no_deadlock_witness:
  "case os_lock sample_sync of Free \<Rightarrow> False
    | Sending i n m \<Rightarrow> i = 1 \<and> n = 1 \<and> n = int (card {j. j < se_inputs two_inputs \<and> os_pc sample_sync j = P_Wait})"
proof -
  have "\<not> failed two_inputs sample_sync" unfolding failed_code by code_simp
  from osync_no_deadlock [OF sample_sync_reachable this] sample_lock
  show ?thesis by (auto split: sync_lock.splits)
qed

text \<open>
  An input whose context is cancelled while it waits is still counted: the input that merges then holds the mutex
  forever, waiting for a receiver.
\<close>

definition stuck_sync :: OrderedSynchronizer where
  "stuck_sync =
     Callback_merge two_inputs 1 (Callback_push 1 (plain_rec [''b'']) (set_pc 0 P_Failed
       (Callback_push 0 (plain_rec [''a'']) (NewOrderedSynchronizer two_inputs))))"

lemma cancelled_input_blocks_merge:
  "osync_reachable two_inputs stuck_sync \<and> os_lock stuck_sync \<noteq> Free \<and> (\<nexists>s'. osync_step two_inputs stuck_sync s')"
proof (intro conjI)
  let ?a = "Callback_push 0 (plain_rec [''a'']) (NewOrderedSynchronizer two_inputs)"
  have "osync_reachable two_inputs ?a"
    by (rule osync_reachable.step [OF osync_reachable.init osync_step.push]) code_simp+
  then have "osync_reachable two_inputs (set_pc 0 P_Failed ?a)"
    by (rule osync_reachable.step [OF _ osync_step.cancel]) code_simp+
  then have "osync_reachable two_inputs (Callback_push 1 (plain_rec [''b'']) (set_pc 0 P_Failed ?a))"
    by (rule osync_reachable.step [OF _ osync_step.push]) code_simp+
  then show "osync_reachable two_inputs stuck_sync"
    unfolding stuck_sync_def by (rule osync_reachable.step [OF _ osync_step.merge]) code_simp+
  have lock: "case os_lock stuck_sync of Free \<Rightarrow> False | Sending i n m \<Rightarrow> n = 1" by code_simp
  have pc: "list_all (\<lambda>j. os_pc stuck_sync j \<noteq> P_Wait) [0..<se_inputs two_inputs]" by code_simp
  show "os_lock stuck_sync \<noteq> Free" using lock by auto
  show "\<nexists>s'. osync_step two_inputs stuck_sync s'"
    using lock pc by (auto elim!: osync_stepE simp: list_all_iff)
qed

text \<open>
  With two order by expressions each ordered field is among the fields left over by the other, so it
  appears twice in the common schema.
\<close>

lemma order_columns_duplicated:
  "order_columns (\<lambda>e name. Some (e = name)) [''a'', ''b''] [(''a'', T_Int64), (''b'', T_Int64)] [] =
     Some ([[(''a'', T_Int64)], [(''b'', T_Int64)]], [(''b'', T_Int64), (''a'', T_Int64)])"
  by code_simp

end
