(* ===== verification/Group_Ranges.thy ===== *)
theory Group_Ranges
  imports Record_Merge
begin

text \<open>
  The ranges of equal group keys in ordered columns (\<open>pqarrow/arrowutils/groupranges.go\<close>): for
  every column the row numbers where its value changes, and those where it decreases, are
  pushed to two heaps of \<open>int64\<close>, from which they are read in order without repetitions.
\<close>

section \<open>The heap of row numbers\<close>

type_synonym Int64Heap = "int list"

abbreviation Int64_Less :: "int \<Rightarrow> int \<Rightarrow> bool" where
  "Int64_Less \<equiv> (<)"

lemma heap_pop_shrinks: "heap_pop lt h = Some (v, h') \<Longrightarrow> length h' < length h"
  using heap_pop_mset [of lt h v h'] by (metis length_Cons lessI mset.simps(2) mset_eq_length)

function PopNextNotEqual :: "int \<Rightarrow> Int64Heap \<Rightarrow> (int \<times> bool) \<times> Int64Heap" where
  "PopNextNotEqual compare h =
     (case heap_pop Int64_Less h of
        None \<Rightarrow> ((0, False), h)
      | Some (v, h') \<Rightarrow> if v \<noteq> compare then ((v, True), h') else PopNextNotEqual compare h')"
  by pat_completeness auto
termination
  by (relation "measure (\<lambda>(_, h). length h)") (auto dest: heap_pop_shrinks)

function unwrap_loop :: "int \<Rightarrow> Int64Heap \<Rightarrow> int list" where
  "unwrap_loop cmp h =
     (case heap_pop Int64_Less h of
        None \<Rightarrow> []
      | Some (v, h') \<Rightarrow> if v \<noteq> cmp then v # unwrap_loop v h' else unwrap_loop cmp h')"
  by pat_completeness auto
termination
  by (relation "measure (\<lambda>(_, h). length h)") (auto dest: heap_pop_shrinks)

declare PopNextNotEqual.simps [simp del] unwrap_loop.simps [simp del]

definition Unwrap :: "Int64Heap \<Rightarrow> int list" where
  "Unwrap h = (case h of [] \<Rightarrow> [] | cmp # _ \<Rightarrow> cmp # unwrap_loop cmp h)"

interpretation int64s: heap_order Int64_Less
  by unfold_locales auto

abbreviation ranges_ok :: "Int64Heap \<Rightarrow> bool" where
  "ranges_ok h \<equiv> is_heap Int64_Less h (length h)"

lemma sorted_list_of_set_least:
  assumes "finite A" "\<forall>x\<in>A. a < x"
  shows "sorted_list_of_set (insert a A) = a # sorted_list_of_set A"
proof -
  have "sorted_wrt (<) (a # sorted_list_of_set A) \<and> set (a # sorted_list_of_set A) = insert a A \<and>
      length (a # sorted_list_of_set A) = card (insert a A)"
    using assms by (auto simp: card_insert_if)
  then show ?thesis using assms(1) sorted_list_of_set_unique [of "insert a A"] by blast
qed

lemma unwrap_loop_sorted:
  assumes "ranges_ok h" "\<forall>v\<in>set h. cmp \<le> v"
  shows "cmp # unwrap_loop cmp h = sorted_list_of_set (insert cmp (set h))"
  using assms
proof (induction cmp h rule: unwrap_loop.induct)
  case (1 cmp h)
  show ?case
  proof (cases "heap_pop Int64_Less h")
    case None
    then have "h = []" by simp
    then show ?thesis by (subst unwrap_loop.simps) (simp add: heap_pop_def)
  next
    case (Some p)
    obtain v h' where p: "p = (v, h')" by (cases p)
    note pop = int64s.heap_pop_correct [OF 1(3), of v h']
    have heap': "ranges_ok h'" and set: "set h = insert v (set h')" and least: "\<forall>w\<in>set h'. v \<le> w"
      using pop Some p mset_eq_setD [of h "v # h'"] by (auto simp: not_less)
    show ?thesis
    proof (cases "v = cmp")
      case True
      then show ?thesis
        using 1(2) [OF Some p [symmetric]] 1(4) heap' set Some p by (subst unwrap_loop.simps) (simp add: insert_absorb)
    next
      case False
      have IH: "v # unwrap_loop v h' = sorted_list_of_set (insert v (set h'))"
        using 1(1) [OF Some p [symmetric]] False heap' least by simp
      have "cmp < v" using False 1(4) set by force
      then have "sorted_list_of_set (insert cmp (set h)) = cmp # sorted_list_of_set (set h)"
        using least set by (intro sorted_list_of_set_least) auto
      then show ?thesis using IH Some p set False by (subst unwrap_loop.simps) simp
    qed
  qed
qed

lemma Unwrap_sorted: "ranges_ok h \<Longrightarrow> Unwrap h = sorted_list_of_set (set h)"
proof (cases h)
  case (Cons cmp t)
  assume h: "ranges_ok h"
  have "\<forall>v\<in>set h. cmp \<le> v"
    using int64s.heap_root_least [OF h] Cons by (fastforce simp: in_set_conv_nth not_less)
  then show ?thesis
    using unwrap_loop_sorted [OF h] Cons by (simp add: Unwrap_def insert_absorb)
qed (simp add: Unwrap_def)

section \<open>Group values\<close>

text \<open>
  A Go value of type \<open>any\<close>: nothing, a byte slice (which may itself be nil), a string, a number or a truth value.
\<close>

datatype go_any = Any_nil | Any_bytes "string option" | Any_string string | Any_int int | Any_bool bool

text \<open>The copy of a value; \<open>append([]byte(nil), v...)\<close> is nil for an empty \<open>v\<close>.\<close>

fun safe_copy :: "go_any \<Rightarrow> go_any" where
  "safe_copy (Any_bytes (Some [])) = Any_bytes None"
| "safe_copy v = v"

text \<open>\<open>GetOneForMarshal\<close> of the cell of an array.\<close>

fun GetOneForMarshal :: "arrow_type \<Rightarrow> cell option \<Rightarrow> go_any" where
  "GetOneForMarshal ty (Some (C_Bytes s)) = (if ty = T_String then Any_string s else Any_bytes (Some s))"
| "GetOneForMarshal ty (Some (C_Int v)) = Any_int v"
| "GetOneForMarshal ty (Some (C_Bool b)) = Any_bool b"
| "GetOneForMarshal ty _ = Any_nil"

definition compareInt64 :: "int \<Rightarrow> int \<Rightarrow> int" where
  "compareInt64 a b = (if a < b then - 1 else if a > b then 1 else 0)"

definition compareBools :: "bool \<Rightarrow> bool \<Rightarrow> int" where
  "compareBools a b = (if a = b then 0 else if \<not> a then - 1 else 1)"

text \<open>
  The comparison of the current group's value with a cell, for each type of array; a value of
  another kind or an array of another type panics. A nil byte slice counts as null.
\<close>

definition null_or :: "bool \<Rightarrow> bool \<Rightarrow> int \<Rightarrow> int" where
  "null_or leftNull rightNull cmp =
     (case nullComparison leftNull rightNull of (c, ok) \<Rightarrow> if \<not> ok then cmp else c)"

fun group_cmp :: "arrow_type \<Rightarrow> go_any \<Rightarrow> cell option \<Rightarrow> int option" where
  "group_cmp ty cur v =
     (if ty = T_Binary \<or> ty = T_DictBinary then
        (case cur of
           Any_nil \<Rightarrow> Some (null_or True (v = None) 0)
         | Any_bytes b \<Rightarrow>
             Some (null_or (b = None) (v = None)
               (case (b, v) of (Some s, Some (C_Bytes t)) \<Rightarrow> cmp3 s t | _ \<Rightarrow> 0))
         | _ \<Rightarrow> None)
      else if ty = T_String then
        (case cur of
           Any_nil \<Rightarrow> Some (null_or True (v = None) 0)
         | Any_string s \<Rightarrow> Some (null_or False (v = None) (case v of Some (C_Bytes t) \<Rightarrow> cmp3 s t | _ \<Rightarrow> 0))
         | _ \<Rightarrow> None)
      else if ty = T_Int64 then
        (case cur of
           Any_nil \<Rightarrow> Some (null_or True (v = None) 0)
         | Any_int x \<Rightarrow> Some (null_or False (v = None) (case v of Some (C_Int y) \<Rightarrow> compareInt64 x y | _ \<Rightarrow> 0))
         | _ \<Rightarrow> None)
      else if ty = T_Boolean then
        (case cur of
           Any_nil \<Rightarrow> Some (null_or True (v = None) 0)
         | Any_bool x \<Rightarrow> Some (null_or False (v = None) (case v of Some (C_Bool y) \<Rightarrow> compareBools x y | _ \<Rightarrow> 0))
         | _ \<Rightarrow> None)
      else None)"

declare group_cmp.simps [simp del]

section \<open>The ranges\<close>

datatype group_error = GE_ColumnsMismatch nat nat | GE_Panic

text \<open>\<open>handleCmpResult\<close>: the heaps and the value of the column's current group.\<close>

definition handleCmpResult :: "int \<Rightarrow> arrow_type \<Rightarrow> cell option \<Rightarrow> nat \<Rightarrow> go_any \<times> Int64Heap \<times> Int64Heap \<Rightarrow> go_any \<times> Int64Heap \<times> Int64Heap" where
  "handleCmpResult cmp ty v j st =
     (case st of (cur, groupRanges, setRanges) \<Rightarrow>
        if cmp = - 1 \<or> cmp = 1
        then (safe_copy (GetOneForMarshal ty v), heap_push Int64_Less (int j) groupRanges,
              if cmp = 1 then heap_push Int64_Less (int j) setRanges else setRanges)
        else st)"

text \<open>The loop over the rows of one array.\<close>

fun array_ranges :: "arrow_type \<Rightarrow> cell option list \<Rightarrow> nat \<Rightarrow> go_any \<times> Int64Heap \<times> Int64Heap \<Rightarrow> (go_any \<times> Int64Heap \<times> Int64Heap) option" where
  "array_ranges ty [] j st = Some st"
| "array_ranges ty (v # vs) j st =
     (case group_cmp ty (fst st) v of
        None \<Rightarrow> None
      | Some cmp \<Rightarrow> array_ranges ty vs (j + 1) (handleCmpResult cmp ty v j st))"

fun null_ranges :: "arrow_type \<Rightarrow> nat \<Rightarrow> nat \<Rightarrow> go_any \<times> Int64Heap \<times> Int64Heap \<Rightarrow> go_any \<times> Int64Heap \<times> Int64Heap" where
  "null_ranges ty 0 j st = st"
| "null_ranges ty (Suc n) j st =
     null_ranges ty n (j + 1) (handleCmpResult (fst (nullComparison (fst st = Any_nil) True)) ty None j st)"

fun column_ranges :: "column \<Rightarrow> go_any \<times> Int64Heap \<times> Int64Heap \<Rightarrow> (go_any \<times> Int64Heap \<times> Int64Heap) option" where
  "column_ranges (VirtualNullArray dt len) st = Some (null_ranges dt len 0 st)"
| "column_ranges (Physical a) st =
     (if arr_type a \<in> {T_Binary, T_String, T_Int64, T_Boolean, T_DictBinary}
      then array_ranges (arr_type a) (arr_cells a) 0 st else None)"

fun columns_ranges :: "go_any list \<Rightarrow> column list \<Rightarrow> Int64Heap \<times> Int64Heap \<Rightarrow> (go_any list \<times> Int64Heap \<times> Int64Heap) option" where
  "columns_ranges (cur # rest) (arr # arrs) (groupRanges, setRanges) =
     (case column_ranges arr (cur, groupRanges, setRanges) of
        None \<Rightarrow> None
      | Some (cur', g, s) \<Rightarrow> map_option (\<lambda>(grp, r). (cur' # grp, r)) (columns_ranges rest arrs (g, s)))"
| "columns_ranges _ _ st = Some ([], st)"

definition GetGroupsAndOrderedSetRanges :: "go_any list \<Rightarrow> column list \<Rightarrow> (group_error, Int64Heap \<times> Int64Heap \<times> go_any list) result" where
  "GetGroupsAndOrderedSetRanges firstGroup arrs =
     (if length firstGroup \<noteq> length arrs then Inl (GE_ColumnsMismatch (length firstGroup) (length arrs))
      else case columns_ranges (map safe_copy firstGroup) arrs ([], []) of
             None \<Rightarrow> Inl GE_Panic
           | Some (curGroup, groupRanges, setRanges) \<Rightarrow> Inr (groupRanges, setRanges, curGroup))"

section \<open>Where values change\<close>

text \<open>Cells that the comparison tells from nulls: byte strings must not be empty.\<close>

definition value_ok :: "arrow_type \<Rightarrow> cell option \<Rightarrow> bool" where
  "value_ok ty x \<longleftrightarrow>
     (case x of
        None \<Rightarrow> True
      | Some y \<Rightarrow> ty \<in> {T_Binary, T_String, T_Int64, T_Boolean, T_DictBinary} \<and> type_of_cell ty y \<and>
                  (ty \<in> {T_Binary, T_DictBinary} \<longrightarrow> y \<noteq> C_Bytes []))"

lemma value_ok_cases:
  assumes "value_ok ty x"
  obtains "x = None" | s where "x = Some (C_Bytes s)" "ty = T_Binary \<or> ty = T_DictBinary" "s \<noteq> []"
    | s where "x = Some (C_Bytes s)" "ty = T_String" | v where "x = Some (C_Int v)" "ty = T_Int64"
    | b where "x = Some (C_Bool b)" "ty = T_Boolean"
proof (cases x)
  case (Some y)
  then show ?thesis using assms that by (cases y; cases ty) (auto simp: value_ok_def)
qed (use that in blast)

lemma safe_copy_value: "value_ok ty x \<Longrightarrow> safe_copy (GetOneForMarshal ty x) = GetOneForMarshal ty x"
  by (erule value_ok_cases) (auto simp: neq_Nil_conv)

lemma GetOneForMarshal_nil: "value_ok ty x \<Longrightarrow> GetOneForMarshal ty x = Any_nil \<longleftrightarrow> x = None"
  by (erule value_ok_cases) auto

lemma cell_cmp_values: "cell_cmp x y \<in> {- 1, 0, 1}"
  by (simp add: cell_cmp_def cmp3_def)

lemma cell_cmp_eq: "value_ok ty x \<Longrightarrow> value_ok ty y \<Longrightarrow> cell_cmp x y = 0 \<longleftrightarrow> x = y"
  by (erule value_ok_cases; erule value_ok_cases) (auto simp: cell_cmp_def)

lemma group_cmp_cells:
  assumes "value_ok ty x" "value_ok ty y" "ty \<in> {T_Binary, T_String, T_Int64, T_Boolean, T_DictBinary}"
  shows "group_cmp ty (GetOneForMarshal ty x) y = Some (cell_cmp x y)"
  using assms
  by (elim value_ok_cases)
     (auto simp: group_cmp.simps null_or_def nullComparison_def cell_cmp_def cmp3_def compareInt64_def compareBools_def)

text \<open>The rows where a relation holds between a value and the one before it; the first value follows \<open>x\<close>.\<close>

fun changes :: "(cell option \<Rightarrow> cell option \<Rightarrow> bool) \<Rightarrow> cell option \<Rightarrow> cell option list \<Rightarrow> nat \<Rightarrow> nat list" where
  "changes P x [] j = []"
| "changes P x (v # vs) j = (if P x v then [j] else []) @ changes P v vs (j + 1)"

lemma set_changes: "set (changes P x vs j) = {j + k |k. k < length vs \<and> P ((x # vs) ! k) (vs ! k)}"
proof (induction vs arbitrary: x j)
  case (Cons v vs)
  have "k < length (v # vs) \<and> P ((x # v # vs) ! k) ((v # vs) ! k) \<longleftrightarrow>
      k = 0 \<and> P x v \<or> (\<exists>m < length vs. k = Suc m \<and> P ((v # vs) ! m) (vs ! m))" for k
    by (cases k) auto
  then have "{j + k |k. k < length (v # vs) \<and> P ((x # v # vs) ! k) ((v # vs) ! k)} =
      (if P x v then {j} else {}) \<union> {j + 1 + k |k. k < length vs \<and> P ((v # vs) ! k) (vs ! k)}"
    by auto
  then show ?case using Cons by simp
qed simp

definition push_all :: "Int64Heap \<Rightarrow> nat list \<Rightarrow> Int64Heap" where
  "push_all h js = foldl (\<lambda>h j. heap_push Int64_Less (int j) h) h js"

lemma push_all_simps [simp]:
  "push_all h [] = h" "push_all h (j # js) = push_all (heap_push Int64_Less (int j) h) js"
  by (simp_all add: push_all_def)

lemma push_all_heap: "ranges_ok h \<Longrightarrow> ranges_ok (push_all h js) \<and> set (push_all h js) = set h \<union> int ` set js"
proof (induction js arbitrary: h)
  case (Cons j js)
  have m: "mset (heap_push Int64_Less (int j) h) = mset (int j # h)" by (simp add: heap_push_mset)
  have "ranges_ok (heap_push Int64_Less (int j) h)"
    by (rule int64s.heap_push_heap [OF Cons.prems])
  then show ?case using Cons.IH mset_eq_setD [OF m] by auto
qed simp

abbreviation cell_gt :: "cell option \<Rightarrow> cell option \<Rightarrow> bool" where
  "cell_gt x y \<equiv> 0 < cell_cmp x y"

lemma handleCmpResult_values:
  assumes "value_ok ty x" "value_ok ty v"
  shows "handleCmpResult (cell_cmp x v) ty v j (GetOneForMarshal ty x, g, s) =
    (GetOneForMarshal ty v, push_all g (changes (\<noteq>) x [v] j), push_all s (changes cell_gt x [v] j))"
  using cell_cmp_values [of x v] cell_cmp_eq [OF assms] safe_copy_value [OF assms(2)]
  by (auto simp: handleCmpResult_def)

lemma push_all_append: "push_all h (js @ ks) = push_all (push_all h js) ks"
  by (simp add: push_all_def)

lemma array_ranges_values:
  assumes "value_ok ty x" "list_all (value_ok ty) vs" "ty \<in> {T_Binary, T_String, T_Int64, T_Boolean, T_DictBinary}"
  shows "array_ranges ty vs j (GetOneForMarshal ty x, g, s) =
    Some (GetOneForMarshal ty (last (x # vs)), push_all g (changes (\<noteq>) x vs j), push_all s (changes cell_gt x vs j))"
  using assms(1,2)
proof (induction vs arbitrary: x j g s)
  case (Cons v vs)
  have "value_ok ty x" "value_ok ty v" using Cons.prems by auto
  then show ?case
    using Cons.IH [of v "j + 1"] Cons.prems handleCmpResult_values [of ty x v j g s] group_cmp_cells [of ty x v] assms(3)
    by (simp add: push_all_append)
qed simp

lemma null_ranges_values:
  assumes "value_ok ty x"
  shows "null_ranges ty n j (GetOneForMarshal ty x, g, s) =
    (GetOneForMarshal ty (last (x # replicate n None)), push_all g (changes (\<noteq>) x (replicate n None) j),
     push_all s (changes cell_gt x (replicate n None) j))"
  using assms
proof (induction n arbitrary: x j g s)
  case (Suc n)
  have none: "value_ok ty None" by (simp add: value_ok_def)
  have "fst (nullComparison (GetOneForMarshal ty x = Any_nil) True) = cell_cmp x None"
    using GetOneForMarshal_nil [OF Suc.prems]
    by (cases x rule: cell_key.cases) (auto simp: nullComparison_def cell_cmp_def cmp3_def)
  then show ?case
    using Suc.IH [OF none, of "j + 1"] handleCmpResult_values [OF Suc.prems none, of j g s]
    by (simp add: push_all_append)
qed simp

section \<open>The ranges of a record\<close>

definition group_column_ok :: "nat \<Rightarrow> cell option \<Rightarrow> column \<Rightarrow> bool" where
  "group_column_ok n x c \<longleftrightarrow> column_Len c = n \<and> list_all (value_ok (column_DataType c)) (x # column_cells c) \<and>
     (case c of Physical a \<Rightarrow> arr_type a \<in> {T_Binary, T_String, T_Int64, T_Boolean, T_DictBinary} | _ \<Rightarrow> True)"

lemma column_ranges_values:
  assumes "group_column_ok n x c"
  shows "column_ranges c (GetOneForMarshal (column_DataType c) x, g, s) =
    Some (GetOneForMarshal (column_DataType c) (last (x # column_cells c)),
      push_all g (changes (\<noteq>) x (column_cells c) 0), push_all s (changes cell_gt x (column_cells c) 0))"
  using assms
proof (cases c)
  case (Physical a)
  then show ?thesis
    using assms array_ranges_values [of "arr_type a" x "arr_cells a" 0 g s]
    by (simp add: group_column_ok_def column_cells_def)
next
  case (VirtualNullArray dt n)
  then show ?thesis
    using assms null_ranges_values [of dt x n 0 g s] by (simp add: group_column_ok_def column_cells_def)
qed

definition group_values :: "cell option list \<Rightarrow> column list \<Rightarrow> go_any list" where
  "group_values row arrs = map2 (\<lambda>x c. GetOneForMarshal (column_DataType c) x) row arrs"

definition changed_in :: "(cell option \<Rightarrow> cell option \<Rightarrow> bool) \<Rightarrow> cell option list \<Rightarrow> column list \<Rightarrow> nat set" where
  "changed_in P row arrs = (\<Union>(x, c)\<in>set (zip row arrs). set (changes P x (column_cells c) 0))"

lemma columns_ranges_values:
  assumes "list_all2 (group_column_ok n) row arrs" "ranges_ok g" "ranges_ok s"
  shows "\<exists>g' s'. columns_ranges (group_values row arrs) arrs (g, s) =
      Some (group_values (map2 (\<lambda>x c. last (x # column_cells c)) row arrs) arrs, g', s') \<and>
    ranges_ok g' \<and> set g' = set g \<union> int ` changed_in (\<noteq>) row arrs \<and>
    ranges_ok s' \<and> set s' = set s \<union> int ` changed_in cell_gt row arrs"
  using assms
proof (induction row arrs arbitrary: g s rule: list_all2_induct)
  case Nil
  then show ?case by (auto simp: group_values_def changed_in_def)
next
  case (Cons x row c arrs)
  let ?g = "push_all g (changes (\<noteq>) x (column_cells c) 0)"
  let ?s = "push_all s (changes cell_gt x (column_cells c) 0)"
  have gs: "ranges_ok ?g" "set ?g = set g \<union> int ` set (changes (\<noteq>) x (column_cells c) 0)"
    "ranges_ok ?s" "set ?s = set s \<union> int ` set (changes cell_gt x (column_cells c) 0)"
    using push_all_heap Cons.prems by auto
  have un: "changed_in P (x # row) (c # arrs) = set (changes P x (column_cells c) 0) \<union> changed_in P row arrs" for P
    by (simp add: changed_in_def)
  show ?case
    using Cons.IH [OF gs(1,3)] column_ranges_values [OF Cons.hyps(1), of g s] gs(2,4)
    by (auto simp: group_values_def un image_Un)
qed

text \<open>The \<open>j\<close>-th row of a list of arrays, counted from one; row zero is the group before the first row.\<close>

definition group_row :: "cell option list \<Rightarrow> column list \<Rightarrow> nat \<Rightarrow> cell option list" where
  "group_row row0 arrs j = (if j = 0 then row0 else map (\<lambda>c. column_cells c ! (j - 1)) arrs)"

lemma group_row_nth:
  "list_all2 (group_column_ok n) row0 arrs \<Longrightarrow> i < length arrs \<Longrightarrow>
     group_row row0 arrs j ! i = (row0 ! i # column_cells (arrs ! i)) ! j"
  by (auto simp: group_row_def nth_Cons' dest: list_all2_lengthD)

lemma changed_in_rows:
  assumes "list_all2 (group_column_ok n) row0 arrs"
  shows "changed_in P row0 arrs =
    {j. j < n \<and> (\<exists>i < length arrs. P (group_row row0 arrs j ! i) (group_row row0 arrs (j + 1) ! i))}"
proof -
  have len: "length row0 = length arrs" using assms by (rule list_all2_lengthD)
  have n: "column_Len (arrs ! i) = n" if "i < length arrs" for i
    using assms that by (auto simp: list_all2_conv_all_nth group_column_ok_def)
  have "changed_in P row0 arrs = (\<Union>i\<in>{..<length arrs}. set (changes P (row0 ! i) (column_cells (arrs ! i)) 0))"
    using len by (auto simp: changed_in_def set_zip)
  also have "\<dots> = (\<Union>i\<in>{..<length arrs}. {j. j < n \<and> P (group_row row0 arrs j ! i) (group_row row0 arrs (j + 1) ! i)})"
    using group_row_nth [OF assms] n by (simp add: set_changes)
  finally show ?thesis by auto
qed

lemma Unwrap_numbers:
  assumes "ranges_ok h" "set h = int ` {j. j < n \<and> Q j}"
  shows "Unwrap h = map int (filter Q [0..<n])"
proof -
  have "sorted_wrt (<) (map int (filter Q [0..<n]))"
    by (simp add: sorted_wrt_map sorted_wrt_filter)
  moreover have "set (map int (filter Q [0..<n])) = int ` {j. j < n \<and> Q j}" by auto
  ultimately show ?thesis
    unfolding Unwrap_sorted [OF assms(1)] assms(2)
    by (metis (no_types, lifting) List.finite_set distinct_card distinct_sorted_list_of_set sorted_list_of_set_unique strict_sorted_iff)
qed

lemma ranges_of_groups:
  assumes ok: "list_all2 (group_column_ok n) row0 arrs"
  shows "\<exists>g s. ranges_ok g \<and> ranges_ok s \<and> GetGroupsAndOrderedSetRanges (group_values row0 arrs) arrs =
      Inr (g, s, group_values (group_row row0 arrs n) arrs) \<and>
    Unwrap g = map int (filter (\<lambda>j. group_row row0 arrs j \<noteq> group_row row0 arrs (j + 1)) [0..<n]) \<and>
    Unwrap s = map int (filter (\<lambda>j. \<exists>i < length arrs.
      cell_gt (group_row row0 arrs j ! i) (group_row row0 arrs (j + 1) ! i)) [0..<n])"
proof -
  have len: "length row0 = length arrs" using ok by (rule list_all2_lengthD)
  have rows: "length (group_row row0 arrs j) = length arrs" for j by (simp add: group_row_def len)
  have copy: "map safe_copy (group_values row0 arrs) = group_values row0 arrs"
    using ok by (auto simp: group_values_def list_all2_iff group_column_ok_def safe_copy_value)
  have last: "map2 (\<lambda>x c. last (x # column_cells c)) row0 arrs = group_row row0 arrs n"
  proof (rule nth_equalityI)
    fix i assume "i < length (map2 (\<lambda>x c. last (x # column_cells c)) row0 arrs)"
    then have i: "i < length arrs" by simp
    then have "column_Len (arrs ! i) = n" using ok by (simp add: list_all2_conv_all_nth group_column_ok_def)
    then have "last (row0 ! i # column_cells (arrs ! i)) = (row0 ! i # column_cells (arrs ! i)) ! n"
      using last_conv_nth [of "row0 ! i # column_cells (arrs ! i)"] by simp
    then show "map2 (\<lambda>x c. last (x # column_cells c)) row0 arrs ! i = group_row row0 arrs n ! i"
      using i len group_row_nth [OF ok i, of n] by simp
  qed (simp add: rows len)
  have empty: "ranges_ok []" by (simp add: is_heap_def)
  obtain g s where gs: "columns_ranges (group_values row0 arrs) arrs ([], []) =
        Some (group_values (group_row row0 arrs n) arrs, g, s)"
      "ranges_ok g" "set g = int ` changed_in (\<noteq>) row0 arrs" "ranges_ok s" "set s = int ` changed_in cell_gt row0 arrs"
    using columns_ranges_values [OF ok empty empty] unfolding last by auto
  have "GetGroupsAndOrderedSetRanges (group_values row0 arrs) arrs = Inr (g, s, group_values (group_row row0 arrs n) arrs)"
    using gs(1) len copy by (simp add: GetGroupsAndOrderedSetRanges_def) (simp add: group_values_def len)
  moreover have "changed_in (\<noteq>) row0 arrs = {j. j < n \<and> group_row row0 arrs j \<noteq> group_row row0 arrs (j + 1)}"
    unfolding changed_in_rows [OF ok] using rows by (auto simp: list_eq_iff_nth_eq)
  ultimately show ?thesis
    using Unwrap_numbers [OF gs(2)] Unwrap_numbers [OF gs(4)] gs(2-5) unfolding changed_in_rows [OF ok, of cell_gt] by auto
qed

text \<open>For columns of supported types, equally long and without empty byte strings, the group ranges unwrap to
  exactly the rows that differ from the row before them (the given first group for the first row), the set ranges
  to exactly the rows in which some column is smaller than in the row before, each once and in increasing order, and
  the group returned is the last row.\<close>

lemma group_ranges_exact:
  assumes ok: "list_all2 (group_column_ok n) row0 arrs"
  shows "\<exists>g s. GetGroupsAndOrderedSetRanges (group_values row0 arrs) arrs =
      Inr (g, s, group_values (group_row row0 arrs n) arrs) \<and>
    Unwrap g = map int (filter (\<lambda>j. group_row row0 arrs j \<noteq> group_row row0 arrs (j + 1)) [0..<n]) \<and>
    Unwrap s = map int (filter (\<lambda>j. \<exists>i < length arrs.
      cell_gt (group_row row0 arrs j ! i) (group_row row0 arrs (j + 1) ! i)) [0..<n])"
  using ranges_of_groups [OF ok] by blast

definition sample_group :: "column list" where
  "sample_group =
     [Physical \<lparr>arr_type = T_Binary, arr_cells = map (\<lambda>s. Some (C_Bytes s)) [''a'', ''a'', ''c'', ''d'', ''a'', ''b'', ''c'']\<rparr>]"

lemma group_ranges_example:
  "\<exists>g s. GetGroupsAndOrderedSetRanges (group_values [Some (C_Bytes ''a'')] sample_group) sample_group =
      Inr (g, s, [Any_bytes (Some ''c'')]) \<and>
    Unwrap g = [2, 3, 4, 5, 6] \<and> Unwrap s = [4]"
proof -
  let ?row = "group_row [Some (C_Bytes ''a'')] sample_group"
  have "list_all2 (group_column_ok 7) [Some (C_Bytes ''a'')] sample_group" by code_simp
  from group_ranges_exact [OF this] show ?thesis
  proof -
    have "filter (\<lambda>j. ?row j \<noteq> ?row (j + 1)) [0..<7] = [2, 3, 4, 5, 6]" by code_simp
    moreover have "filter (\<lambda>j. \<exists>i < length sample_group. cell_gt (?row j ! i) (?row (j + 1) ! i)) [0..<7] = [4]" by code_simp
    moreover have "group_values (?row 7) sample_group = [Any_bytes (Some ''c'')]" by code_simp
    ultimately show ?thesis using group_ranges_exact [OF \<open>list_all2 _ _ _\<close>] by simp
  qed
qed

text \<open>
  The copy of an empty byte string is nil and counts as null: equal keys that are empty are
  split into groups of one row each, and an empty key before a null is not told from it.
\<close>

lemma empty_key_splits_groups:
  "\<exists>g s. GetGroupsAndOrderedSetRanges [Any_bytes (Some [])]
      [Physical \<lparr>arr_type = T_Binary, arr_cells = [Some (C_Bytes []), Some (C_Bytes []), None]\<rparr>] = Inr (g, s, [Any_bytes None]) \<and>
    Unwrap g = [0, 1] \<and> Unwrap s = []"
  by (rule exI [of _ "[0, 1]"], rule exI [of _ "[]"]) code_simp

end
