(* ===== verification/Opt_Builders.thy ===== *)
theory Opt_Builders
  imports Frost_Prelude
begin

text \<open>
  The optimized column builders (\<open>pqarrow/builder/optbuilders.go\<close>): growing buffers of values with a validity
  bitmap, and for binary values with the offsets into one buffer of bytes.

  A bitmap is the list of its bits, a multiple of eight; growing a slice within its capacity shows
  whatever the memory held before, growing beyond it shows zeros: what lies behind the end of a slice is the argument \<open>g\<close>,
  about which nothing is known. The bit operations are those of Arrow's \<open>bitutil\<close>; the reference
  counts are left out.
\<close>

section \<open>Slices and bitmaps\<close>

definition reslice :: "(nat \<Rightarrow> 'a) \<Rightarrow> 'a list \<Rightarrow> nat \<Rightarrow> 'a list" where
  "reslice g xs n = map (\<lambda>i. if i < length xs then xs ! i else g i) [0..<n]"

definition BytesForBits :: "nat \<Rightarrow> nat" where
  "BytesForBits bits = (bits + 7) div 8"

definition resizeBitmap :: "(nat \<Rightarrow> bool) \<Rightarrow> bool list \<Rightarrow> nat \<Rightarrow> bool list" where
  "resizeBitmap g bitmap valuesToRepresent = reslice g bitmap (8 * BytesForBits valuesToRepresent)"

definition SetBitsTo :: "bool list \<Rightarrow> nat \<Rightarrow> nat \<Rightarrow> bool \<Rightarrow> bool list" where
  "SetBitsTo bits start n v = map (\<lambda>i. if start \<le> i \<and> i < start + n then v else bits ! i) [0..<length bits]"

lemma reslice_length [simp]: "length (reslice g xs n) = n"
  by (simp add: reslice_def)

lemma reslice_nth: "i < n \<Longrightarrow> i < length xs \<Longrightarrow> reslice g xs n ! i = xs ! i"
  by (simp add: reslice_def)

lemma SetBitsTo_length [simp]: "length (SetBitsTo bits a n v) = length bits"
  by (simp add: SetBitsTo_def)

lemma SetBitsTo_nth: "i < length bits \<Longrightarrow> SetBitsTo bits a n v ! i = (if a \<le> i \<and> i < a + n then v else bits ! i)"
  by (simp add: SetBitsTo_def)

lemma bytes_enough: "n \<le> 8 * BytesForBits n"
  by (auto simp: BytesForBits_def)

lemma bytes_mono: "n \<le> m \<Longrightarrow> 8 * BytesForBits n \<le> 8 * BytesForBits m"
  by (simp add: BytesForBits_def div_le_mono)

section \<open>The base of all builders\<close>

record builderBase =
  length_of :: nat
  validityBitmap :: "bool list"

definition base_reset :: "'x builderBase_scheme \<Rightarrow> 'x builderBase_scheme" where
  "base_reset b = b\<lparr>length_of := 0, validityBitmap := []\<rparr>"

definition base_AppendNulls :: "(nat \<Rightarrow> bool) \<Rightarrow> nat \<Rightarrow> 'x builderBase_scheme \<Rightarrow> 'x builderBase_scheme" where
  "base_AppendNulls g n b =
     b\<lparr>validityBitmap := SetBitsTo (resizeBitmap g (validityBitmap b) (length_of b + n)) (length_of b) n False,
       length_of := length_of b + n\<rparr>"

definition appendValid :: "(nat \<Rightarrow> bool) \<Rightarrow> nat \<Rightarrow> 'x builderBase_scheme \<Rightarrow> 'x builderBase_scheme" where
  "appendValid g n b =
     b\<lparr>validityBitmap := SetBitsTo (resizeBitmap g (validityBitmap b) (length_of b + n)) (length_of b) n True,
       length_of := length_of b + n\<rparr>"

definition SetNull :: "nat \<Rightarrow> 'x builderBase_scheme \<Rightarrow> 'x builderBase_scheme option" where
  "SetNull i b =
     (if length_of b \<le> i then None else Some (b\<lparr>validityBitmap := (validityBitmap b)[i := False]\<rparr>))"

definition IsValid :: "nat \<Rightarrow> 'x builderBase_scheme \<Rightarrow> bool option" where
  "IsValid n b = (if length_of b \<le> n then None else Some (validityBitmap b ! n))"

definition IsNull :: "nat \<Rightarrow> 'x builderBase_scheme \<Rightarrow> bool option" where
  "IsNull n b = (if length_of b \<le> n then None else Some (\<not> validityBitmap b ! n))"

text \<open>One more valid value: the bitmap is resized for the new length and the last bit set.\<close>

definition set_last_valid :: "(nat \<Rightarrow> bool) \<Rightarrow> 'x builderBase_scheme \<Rightarrow> 'x builderBase_scheme" where
  "set_last_valid g b =
     b\<lparr>length_of := length_of b + 1,
       validityBitmap := (resizeBitmap g (validityBitmap b) (length_of b + 1))[length_of b := True]\<rparr>"

definition last_is_null :: "'x builderBase_scheme \<Rightarrow> bool option" where
  "last_is_null b = (if length_of b = 0 then None else Some (\<not> validityBitmap b ! (length_of b - 1)))"

text \<open>The bits that count: those of the values appended.\<close>

definition base_ok :: "'x builderBase_scheme \<Rightarrow> bool" where
  "base_ok b \<longleftrightarrow> length_of b \<le> length (validityBitmap b)"

definition bits :: "'x builderBase_scheme \<Rightarrow> bool list" where
  "bits b = take (length_of b) (validityBitmap b)"

lemma take_resizeBitmap:
  assumes "k \<le> length bm" "k \<le> n"
  shows "take k (resizeBitmap g bm n) = take k bm"
  using assms bytes_enough [of n]
  by (auto simp: resizeBitmap_def reslice_def intro!: nth_equalityI)

lemma bits_append:
  assumes "base_ok b"
  shows "take (length_of b + n) (SetBitsTo (resizeBitmap g (validityBitmap b) (length_of b + n)) (length_of b) n v) =
    bits b @ replicate n v"
  using assms bytes_enough [of "length_of b + n"]
  by (auto simp: bits_def base_ok_def resizeBitmap_def SetBitsTo_nth reslice_nth nth_append intro!: nth_equalityI)

lemma bits_base_AppendNulls:
  "base_ok b \<Longrightarrow> base_ok (base_AppendNulls g n b) \<and> bits (base_AppendNulls g n b) = bits b @ replicate n False \<and>
     length_of (base_AppendNulls g n b) = length_of b + n"
  using bytes_enough [of "length_of b + n"] bits_append [of b n g False]
  by (simp add: base_AppendNulls_def base_ok_def bits_def resizeBitmap_def)

lemma bits_appendValid:
  "base_ok b \<Longrightarrow> base_ok (appendValid g n b) \<and> bits (appendValid g n b) = bits b @ replicate n True \<and>
     length_of (appendValid g n b) = length_of b + n"
  using bytes_enough [of "length_of b + n"] bits_append [of b n g True]
  by (simp add: appendValid_def base_ok_def bits_def resizeBitmap_def)

lemma bits_set_last_valid:
  assumes "base_ok b"
  shows "base_ok (set_last_valid g b) \<and> bits (set_last_valid g b) = bits b @ [True] \<and>
     length_of (set_last_valid g b) = length_of b + 1"
proof -
  let ?n = "length_of b" let ?r = "resizeBitmap g (validityBitmap b) (?n + 1)"
  have l: "?n + 1 \<le> length ?r" using bytes_enough [of "?n + 1"] by (simp add: resizeBitmap_def)
  have "take (?n + 1) (?r[?n := True]) = take ?n ?r @ [True]"
    using l by (simp add: take_Suc_conv_app_nth)
  then show ?thesis
    using assms l take_resizeBitmap [of ?n "validityBitmap b" "?n + 1" g]
    by (simp add: set_last_valid_def base_ok_def bits_def)
qed

lemma bits_length [simp]: "base_ok b \<Longrightarrow> length (bits b) = length_of b"
  by (simp add: base_ok_def bits_def)

lemma last_is_null_bits: "base_ok b \<Longrightarrow> last_is_null b = (if bits b = [] then None else Some (\<not> last (bits b)))"
  by (auto simp: last_is_null_def bits_def base_ok_def last_conv_nth nth_take)

text \<open>Shortening.\<close>

definition base_shorten :: "(nat \<Rightarrow> bool) \<Rightarrow> nat \<Rightarrow> 'x builderBase_scheme \<Rightarrow> 'x builderBase_scheme" where
  "base_shorten g n b = b\<lparr>length_of := n, validityBitmap := resizeBitmap g (validityBitmap b) n\<rparr>"

lemma bits_base_shorten:
  "base_ok b \<Longrightarrow> n \<le> length_of b \<Longrightarrow> base_ok (base_shorten g n b) \<and> bits (base_shorten g n b) = take n (bits b) \<and>
     length_of (base_shorten g n b) = n"
  using bytes_enough [of n] take_resizeBitmap [of n "validityBitmap b" n g]
  by (auto simp: base_shorten_def base_ok_def bits_def resizeBitmap_def min_def)

section \<open>What a builder promises\<close>

text \<open>
  The interface \<open>OptimizedBuilder\<close>: a builder stands for the list of values appended, where a null is \<open>None\<close>. An operation
  may fail (\<open>None\<close>) when the values do not \<open>fit\<close>.
\<close>

datatype 'v builder_op = Op_Append 'v | Op_Nulls nat | Op_Repeat nat | Op_Reset nat

fun op_spec :: "'v builder_op \<Rightarrow> 'v option list \<Rightarrow> 'v option list option" where
  "op_spec (Op_Append v) xs = Some (xs @ [Some v])"
| "op_spec (Op_Nulls n) xs = Some (xs @ replicate n None)"
| "op_spec (Op_Repeat n) xs = (if xs = [] then None else Some (xs @ replicate n (last xs)))"
| "op_spec (Op_Reset n) xs = (if n \<le> length xs then Some (take n xs) else None)"

fun run_ops_p :: "('o \<Rightarrow> 's \<Rightarrow> 's option) \<Rightarrow> 'o list \<Rightarrow> 's \<Rightarrow> 's option" where
  "run_ops_p f [] s = Some s"
| "run_ops_p f (x # xs) s = (case f x s of None \<Rightarrow> None | Some s' \<Rightarrow> run_ops_p f xs s')"

text \<open>All lists that a sequence of operations goes through.\<close>

fun op_trace :: "'v builder_op list \<Rightarrow> 'v option list \<Rightarrow> 'v option list list" where
  "op_trace [] xs = [xs]"
| "op_trace (x # ops) xs = xs # (case op_spec x xs of None \<Rightarrow> [] | Some ys \<Rightarrow> op_trace ops ys)"

locale column_builder =
  fixes view :: "'b \<Rightarrow> 'v option list" and ok :: "'b \<Rightarrow> bool" and fresh :: 'b
    and fits :: "'v option list \<Rightarrow> bool"
    and append :: "'v \<Rightarrow> 'b \<Rightarrow> 'b option" and append_nulls :: "nat \<Rightarrow> 'b \<Rightarrow> 'b option"
    and repeat_last :: "nat \<Rightarrow> 'b \<Rightarrow> 'b option" and reset_to :: "nat \<Rightarrow> 'b \<Rightarrow> 'b option"
  assumes fresh: "ok fresh" "view fresh = []"
    and append: "ok b \<Longrightarrow> fits (view b @ [Some v]) \<Longrightarrow> \<exists>b'. append v b = Some b' \<and> ok b' \<and> view b' = view b @ [Some v]"
    and append_nulls: "ok b \<Longrightarrow> \<exists>b'. append_nulls n b = Some b' \<and> ok b' \<and> view b' = view b @ replicate n None"
    and repeat_last: "ok b \<Longrightarrow> view b \<noteq> [] \<Longrightarrow> fits (view b @ replicate n (last (view b))) \<Longrightarrow>
      \<exists>b'. repeat_last n b = Some b' \<and> ok b' \<and> view b' = view b @ replicate n (last (view b))"
    and reset_to: "ok b \<Longrightarrow> n \<le> length (view b) \<Longrightarrow> \<exists>b'. reset_to n b = Some b' \<and> ok b' \<and> view b' = take n (view b)"
begin

fun apply_op :: "'v builder_op \<Rightarrow> 'b \<Rightarrow> 'b option" where
  "apply_op (Op_Append v) b = append v b"
| "apply_op (Op_Nulls n) b = append_nulls n b"
| "apply_op (Op_Repeat n) b = repeat_last n b"
| "apply_op (Op_Reset n) b = reset_to n b"

lemma apply_op_refines:
  assumes "ok b" "op_spec x (view b) = Some ys" "fits ys"
  shows "\<exists>b'. apply_op x b = Some b' \<and> ok b' \<and> view b' = ys"
  using assms append append_nulls repeat_last reset_to by (cases x) (auto split: if_splits)

lemma run_refines:
  assumes "ok b" "run_ops_p op_spec ops (view b) = Some ys" "list_all fits (op_trace ops (view b))"
  shows "\<exists>b'. run_ops_p apply_op ops b = Some b' \<and> ok b' \<and> view b' = ys"
  using assms
proof (induction ops arbitrary: b)
  case (Cons x ops)
  obtain zs where z: "op_spec x (view b) = Some zs" and r: "run_ops_p op_spec ops zs = Some ys"
    using Cons.prems(2) by (auto split: option.splits)
  have f: "list_all fits (op_trace ops zs)" using Cons.prems(3) z by simp
  then have "fits zs" by (cases ops) auto
  then obtain b' where b': "apply_op x b = Some b'" "ok b'" "view b' = zs"
    using apply_op_refines [OF Cons.prems(1) z] by blast
  then show ?case using Cons.IH [OF b'(2)] r f by simp
qed simp

lemma run_from_fresh:
  assumes "run_ops_p op_spec ops [] = Some ys" "list_all fits (op_trace ops [])"
  shows "\<exists>b'. run_ops_p apply_op ops fresh = Some b' \<and> view b' = ys"
  using run_refines [OF fresh(1), of ops ys] assms fresh(2) by auto

end

section \<open>Numbers\<close>

record 'a num_builder = builderBase +
  num_data :: "'a list"

definition num_new :: "'a num_builder" where
  "num_new = \<lparr>length_of = 0, validityBitmap = [], num_data = []\<rparr>"

definition resizeData :: "(nat \<Rightarrow> 'a) \<Rightarrow> nat \<Rightarrow> 'a num_builder \<Rightarrow> 'a num_builder" where
  "resizeData h neededLength b = b\<lparr>num_data := reslice h (num_data b) neededLength\<rparr>"

definition num_AppendNulls :: "(nat \<Rightarrow> bool) \<Rightarrow> (nat \<Rightarrow> 'a) \<Rightarrow> nat \<Rightarrow> 'a num_builder \<Rightarrow> 'a num_builder" where
  "num_AppendNulls g h n b = base_AppendNulls g n (resizeData h (length_of b + n) b)"

definition num_NewArray :: "'a num_builder \<Rightarrow> 'a option list \<times> 'a num_builder" where
  "num_NewArray b =
     (map (\<lambda>i. if validityBitmap b ! i then Some (num_data b ! i) else None) [0..<length_of b],
      (base_reset b)\<lparr>num_data := []\<rparr>)"

definition num_AppendData :: "(nat \<Rightarrow> bool) \<Rightarrow> 'a list \<Rightarrow> 'a num_builder \<Rightarrow> 'a num_builder" where
  "num_AppendData g data b = appendValid g (length data) (b\<lparr>num_data := num_data b @ data\<rparr>)"

definition num_Append :: "(nat \<Rightarrow> bool) \<Rightarrow> 'a \<Rightarrow> 'a num_builder \<Rightarrow> 'a num_builder" where
  "num_Append g v b = set_last_valid g (b\<lparr>num_data := num_data b @ [v]\<rparr>)"

definition num_Set :: "nat \<Rightarrow> 'a \<Rightarrow> 'a num_builder \<Rightarrow> 'a num_builder option" where
  "num_Set i v b = (if length (num_data b) \<le> i then None else Some (b\<lparr>num_data := (num_data b)[i := v]\<rparr>))"

definition num_Add :: "nat \<Rightarrow> 'a::plus \<Rightarrow> 'a num_builder \<Rightarrow> 'a num_builder option" where
  "num_Add i v b =
     (if length (num_data b) \<le> i then None
      else Some (b\<lparr>num_data := (num_data b)[i := num_data b ! i + v]\<rparr>))"

definition num_Value :: "nat \<Rightarrow> 'a num_builder \<Rightarrow> 'a option" where
  "num_Value i b = (if length (num_data b) \<le> i then None else Some (num_data b ! i))"

text \<open>Parquet values; the number of a null is zero.\<close>

definition num_AppendParquetValues :: "(nat \<Rightarrow> bool) \<Rightarrow> (nat \<Rightarrow> 'a) \<Rightarrow> 'a::zero option list \<Rightarrow> 'a num_builder \<Rightarrow> 'a num_builder" where
  "num_AppendParquetValues g h values b =
     (let n = length_of b; m = length values;
          data = reslice h (num_data b) (n + m);
          bm = resizeBitmap g (validityBitmap b) (n + m)
      in b\<lparr>num_data := map (\<lambda>i. if n \<le> i then (case values ! (i - n) of None \<Rightarrow> 0 | Some v \<Rightarrow> v) else data ! i) [0..<n + m],
           validityBitmap := map (\<lambda>i. if n \<le> i \<and> i < n + m then values ! (i - n) \<noteq> None else bm ! i) [0..<length bm],
           length_of := n + m\<rparr>)"

definition num_RepeatLastValue :: "(nat \<Rightarrow> bool) \<Rightarrow> (nat \<Rightarrow> 'a) \<Rightarrow> nat \<Rightarrow> 'a num_builder \<Rightarrow> 'a num_builder option" where
  "num_RepeatLastValue g h n b =
     (case last_is_null b of
        None \<Rightarrow> None
      | Some True \<Rightarrow> Some (num_AppendNulls g h n b)
      | Some False \<Rightarrow>
          let lastValue = num_data b ! (length_of b - 1)
          in Some (appendValid g n
               (b\<lparr>num_data := map (\<lambda>i. if length_of b \<le> i then lastValue else num_data b ! i) [0..<length_of b + n]\<rparr>)))"

text \<open>Extending beyond the length depends on the capacity, beyond the capacity it panics; the callers only shorten.\<close>

definition num_ResetToLength :: "(nat \<Rightarrow> bool) \<Rightarrow> (nat \<Rightarrow> 'a) \<Rightarrow> nat \<Rightarrow> nat \<Rightarrow> 'a num_builder \<Rightarrow> 'a num_builder option" where
  "num_ResetToLength g h capacity n b =
     (if n = length_of b then Some b
      else if max capacity (length (num_data b)) < n then None
      else Some (base_shorten g n (b\<lparr>num_data := reslice h (num_data b) n\<rparr>)))"

definition num_ok :: "'a num_builder \<Rightarrow> bool" where
  "num_ok b \<longleftrightarrow> base_ok b \<and> length (num_data b) = length_of b"

definition num_view :: "'a num_builder \<Rightarrow> 'a option list" where
  "num_view b = map2 (\<lambda>v x. if v then Some x else None) (bits b) (num_data b)"

lemma base_more:
  "num_data (base_AppendNulls g n b) = num_data b" "num_data (appendValid g n b) = num_data b"
  "num_data (set_last_valid g b) = num_data b" "num_data (base_shorten g n b) = num_data b"
  by (simp_all add: base_AppendNulls_def appendValid_def set_last_valid_def base_shorten_def)

lemma base_other [simp]:
  "base_ok (b\<lparr>num_data := d\<rparr>) = base_ok b" "bits (b\<lparr>num_data := d\<rparr>) = bits b"
  by (simp_all add: base_ok_def bits_def)

lemma reslice_append: "length xs \<le> n \<Longrightarrow> \<exists>zs. reslice g xs n = xs @ zs \<and> length zs = n - length xs"
  by (rule exI [of _ "drop (length xs) (reslice g xs n)"])
     (auto simp: reslice_def nth_append intro!: nth_equalityI)

lemma zip_with_replicate_False:
  "length zs = n \<Longrightarrow> map2 (\<lambda>v x. if v then Some x else None) (replicate n False) zs = replicate n None"
  by (induction n arbitrary: zs) (auto simp: length_Suc_conv)

lemma num_view_length: "num_ok b \<Longrightarrow> length (num_view b) = length_of b"
  by (simp add: num_view_def num_ok_def)

lemma num_AppendNulls_view:
  assumes "num_ok b"
  shows "num_ok (num_AppendNulls g h n b) \<and> num_view (num_AppendNulls g h n b) = num_view b @ replicate n None"
proof -
  obtain zs where z: "reslice h (num_data b) (length_of b + n) = num_data b @ zs" "length zs = n"
    using reslice_append [of "num_data b" "length_of b + n" h] assms by (auto simp: num_ok_def)
  let ?b = "resizeData h (length_of b + n) b"
  have "base_ok ?b" using assms by (simp add: resizeData_def num_ok_def)
  note B = bits_base_AppendNulls [OF this, of g n]
  show ?thesis
    using B z assms
    by (simp add: num_AppendNulls_def num_ok_def num_view_def base_more resizeData_def zip_append zip_with_replicate_False)
qed

lemma num_Append_view:
  assumes "num_ok b"
  shows "num_ok (num_Append g v b) \<and> num_view (num_Append g v b) = num_view b @ [Some v]"
proof -
  have "base_ok (b\<lparr>num_data := num_data b @ [v]\<rparr>)" using assms by (simp add: num_ok_def)
  from bits_set_last_valid [OF this, of g] show ?thesis
    using assms by (simp add: num_Append_def num_ok_def num_view_def base_more)
qed

lemma num_last:
  assumes "num_ok b" "num_view b \<noteq> []"
  shows "last (num_view b) = (if last (bits b) then Some (num_data b ! (length_of b - 1)) else None)" "bits b \<noteq> []"
proof -
  show ne: "bits b \<noteq> []" using assms by (auto simp: num_view_def)
  then have "0 < length_of b" by (cases "length_of b") (auto simp: bits_def)
  then show "last (num_view b) = (if last (bits b) then Some (num_data b ! (length_of b - 1)) else None)"
    using assms ne by (simp add: num_view_def num_ok_def last_conv_nth)
qed

lemma num_RepeatLastValue_view:
  assumes "num_ok b" "num_view b \<noteq> []"
  shows "\<exists>b'. num_RepeatLastValue g h n b = Some b' \<and> num_ok b' \<and>
    num_view b' = num_view b @ replicate n (last (num_view b))"
proof (cases "last (bits b)")
  case False
  then show ?thesis
    using assms num_last [OF assms] num_AppendNulls_view [OF assms(1), of g h n] last_is_null_bits [of b]
    by (simp add: num_RepeatLastValue_def num_ok_def)
next
  case True
  let ?v = "num_data b ! (length_of b - 1)"
  let ?d = "map (\<lambda>i. if length_of b \<le> i then ?v else num_data b ! i) [0..<length_of b + n]"
  have d: "?d = num_data b @ replicate n ?v"
    using assms(1) by (auto simp: num_ok_def nth_append intro!: nth_equalityI)
  let ?b = "b\<lparr>num_data := num_data b @ replicate n ?v\<rparr>"
  have e: "num_RepeatLastValue g h n b = Some (appendValid g n ?b)"
    using True assms num_last(2) [OF assms] last_is_null_bits [of b]
    unfolding num_RepeatLastValue_def Let_def d by (simp add: num_ok_def)
  have "base_ok ?b" using assms(1) by (simp add: num_ok_def)
  note B = bits_appendValid [OF this, of g n]
  have "map2 (\<lambda>v x. if v then Some x else None) (replicate n True) (replicate n ?v) = replicate n (Some ?v)"
    by (simp add: zip_replicate)
  then show ?thesis
    unfolding e using True assms num_last(1) [OF assms] B
    by (simp add: num_ok_def num_view_def base_more zip_append)
qed

lemma num_ResetToLength_view:
  assumes "num_ok b" "n \<le> length (num_view b)"
  shows "\<exists>b'. num_ResetToLength g h c n b = Some b' \<and> num_ok b' \<and> num_view b' = take n (num_view b)"
proof (cases "n = length_of b")
  case True
  then show ?thesis using assms num_view_length [OF assms(1)] by (simp add: num_ResetToLength_def)
next
  case False
  have n: "n \<le> length_of b" using assms num_view_length [OF assms(1)] by simp
  have d: "reslice h (num_data b) n = take n (num_data b)"
    using n assms(1) by (auto simp: num_ok_def reslice_def intro!: nth_equalityI)
  have "base_ok (b\<lparr>num_data := reslice h (num_data b) n\<rparr>)" using assms(1) by (simp add: num_ok_def)
  from bits_base_shorten [OF this, of n g] n show ?thesis
    using False assms(1) d
    by (simp add: num_ResetToLength_def num_ok_def num_view_def base_more take_zip take_map)
qed

text \<open>The two instances; their Go code differs in the type of the numbers only.\<close>

type_synonym int32 = "32 word"
type_synonym OptInt64Builder = "int64 num_builder"
type_synonym OptInt32Builder = "int32 num_builder"

definition OptInt64_Append :: "(nat \<Rightarrow> bool) \<Rightarrow> int64 \<Rightarrow> OptInt64Builder \<Rightarrow> OptInt64Builder" where
  "OptInt64_Append = num_Append"

definition OptInt32_Append :: "(nat \<Rightarrow> bool) \<Rightarrow> int32 \<Rightarrow> OptInt32Builder \<Rightarrow> OptInt32Builder" where
  "OptInt32_Append = num_Append"

definition OptInt32_AppendNulls :: "(nat \<Rightarrow> bool) \<Rightarrow> (nat \<Rightarrow> int32) \<Rightarrow> nat \<Rightarrow> OptInt32Builder \<Rightarrow> OptInt32Builder" where
  "OptInt32_AppendNulls = num_AppendNulls"

definition OptInt32_RepeatLastValue :: "(nat \<Rightarrow> bool) \<Rightarrow> (nat \<Rightarrow> int32) \<Rightarrow> nat \<Rightarrow> OptInt32Builder \<Rightarrow> OptInt32Builder option" where
  "OptInt32_RepeatLastValue = num_RepeatLastValue"

definition OptInt32_ResetToLength :: "(nat \<Rightarrow> bool) \<Rightarrow> (nat \<Rightarrow> int32) \<Rightarrow> nat \<Rightarrow> nat \<Rightarrow> OptInt32Builder \<Rightarrow> OptInt32Builder option" where
  "OptInt32_ResetToLength = num_ResetToLength"

definition OptInt32_AppendData :: "(nat \<Rightarrow> bool) \<Rightarrow> int32 list \<Rightarrow> OptInt32Builder \<Rightarrow> OptInt32Builder" where
  "OptInt32_AppendData = num_AppendData"

definition OptInt32_AppendParquetValues :: "(nat \<Rightarrow> bool) \<Rightarrow> (nat \<Rightarrow> int32) \<Rightarrow> int32 option list \<Rightarrow> OptInt32Builder \<Rightarrow> OptInt32Builder" where
  "OptInt32_AppendParquetValues = num_AppendParquetValues"

definition OptInt32_NewArray :: "OptInt32Builder \<Rightarrow> int32 option list \<times> OptInt32Builder" where
  "OptInt32_NewArray = num_NewArray"

definition OptInt32_Set :: "nat \<Rightarrow> int32 \<Rightarrow> OptInt32Builder \<Rightarrow> OptInt32Builder option" where
  "OptInt32_Set = num_Set"

definition OptInt32_Add :: "nat \<Rightarrow> int32 \<Rightarrow> OptInt32Builder \<Rightarrow> OptInt32Builder option" where
  "OptInt32_Add = num_Add"

interpretation numbers: column_builder num_view num_ok num_new "\<lambda>_. True" "\<lambda>v b. Some (num_Append g v b)"
  "\<lambda>n b. Some (num_AppendNulls g h n b)" "num_RepeatLastValue g h" "num_ResetToLength g h c" for g h c
proof
  show "num_ok num_new" "num_view num_new = []"
    by (simp_all add: num_ok_def num_view_def num_new_def base_ok_def bits_def)
  fix b :: "'a num_builder" assume b: "num_ok b"
  show "\<exists>b'. Some (num_Append g v b) = Some b' \<and> num_ok b' \<and> num_view b' = num_view b @ [Some v]" for v
    using num_Append_view [OF b] by simp
  show "\<exists>b'. Some (num_AppendNulls g h n b) = Some b' \<and> num_ok b' \<and> num_view b' = num_view b @ replicate n None" for n
    using num_AppendNulls_view [OF b] by simp
qed (simp_all add: num_RepeatLastValue_view num_ResetToLength_view)

text \<open>Bulk appends, and what the array made from a builder shows.\<close>

lemma num_AppendData_view:
  assumes "num_ok b"
  shows "num_ok (num_AppendData g xs b) \<and> num_view (num_AppendData g xs b) = num_view b @ map Some xs"
proof -
  have "base_ok (b\<lparr>num_data := num_data b @ xs\<rparr>)" using assms by (simp add: num_ok_def)
  note B = bits_appendValid [OF this, of g "length xs"]
  have "map2 (\<lambda>v x. if v then Some x else None) (replicate (length xs) True) xs = map Some xs"
    by (auto intro!: nth_equalityI)
  then show ?thesis using B assms by (simp add: num_AppendData_def num_ok_def num_view_def base_more zip_append)
qed

lemma num_AppendParquetValues_view:
  assumes "num_ok b"
  shows "num_ok (num_AppendParquetValues g h vs b) \<and> num_view (num_AppendParquetValues g h vs b) = num_view b @ vs"
proof -
  let ?b = "num_AppendParquetValues g h vs b" let ?n = "length_of b" let ?m = "length vs"
  have ok: "num_ok ?b"
    using bytes_enough [of "?n + ?m"] by (simp add: num_AppendParquetValues_def num_ok_def base_ok_def Let_def resizeBitmap_def)
  have bb: "base_ok ?b" "length_of ?b = ?n + ?m" using ok by (auto simp: num_ok_def num_AppendParquetValues_def Let_def)
  have "num_view ?b ! i = (num_view b @ vs) ! i" if "i < ?n + ?m" for i
    using that assms bytes_enough [of "?n + ?m"]
    by (auto simp: num_view_def num_AppendParquetValues_def Let_def bits_def num_ok_def base_ok_def resizeBitmap_def
        reslice_nth nth_append split: option.splits)
  then show ?thesis
    using ok assms num_view_length [OF ok] num_view_length [OF assms] bb(2) by (auto intro!: nth_equalityI)
qed

lemma num_NewArray_view: "num_ok b \<Longrightarrow> num_NewArray b = (num_view b, num_new)"
  by (auto simp: num_NewArray_def num_view_def num_new_def num_ok_def base_reset_def bits_def base_ok_def intro!: nth_equalityI)

text \<open>Changing single values: a value is set and added to whether it is null or not.\<close>

lemma num_Add_view:
  assumes "num_ok b" "i < length_of b"
  shows "\<exists>b'. num_Add i v b = Some b' \<and> num_ok b' \<and> num_view b' = (num_view b)[i := map_option (\<lambda>x. x + v) (num_view b ! i)]"
  using assms
  by (auto simp: num_Add_def num_ok_def num_view_def nth_list_update intro!: nth_equalityI)

section \<open>Truth values\<close>

record OptBooleanBuilder = builderBase +
  bool_data :: "bool list"

definition bool_new :: OptBooleanBuilder where
  "bool_new = \<lparr>length_of = 0, validityBitmap = [], bool_data = []\<rparr>"

text \<open>The loops that set the bits of the new values one by one, in both bitmaps.\<close>

definition bool_extend :: "(nat \<Rightarrow> bool) \<Rightarrow> bool list \<Rightarrow> bool \<Rightarrow> OptBooleanBuilder \<Rightarrow> OptBooleanBuilder" where
  "bool_extend g vs valid b =
     (let n = length_of b; m = length vs;
          data = resizeBitmap g (bool_data b) (n + m);
          bm = resizeBitmap g (validityBitmap b) (n + m)
      in b\<lparr>bool_data := map (\<lambda>i. if n \<le> i \<and> i < n + m then vs ! (i - n) else data ! i) [0..<length data],
           validityBitmap := SetBitsTo bm n m valid, length_of := n + m\<rparr>)"

definition bool_AppendNulls :: "(nat \<Rightarrow> bool) \<Rightarrow> nat \<Rightarrow> OptBooleanBuilder \<Rightarrow> OptBooleanBuilder" where
  "bool_AppendNulls g n b = bool_extend g (replicate n False) False b"

definition bool_Append :: "(nat \<Rightarrow> bool) \<Rightarrow> bool list \<Rightarrow> nat \<Rightarrow> OptBooleanBuilder \<Rightarrow> OptBooleanBuilder option" where
  "bool_Append g data valid b = (if length data < valid then None else Some (bool_extend g (take valid data) True b))"

definition bool_AppendSingle :: "(nat \<Rightarrow> bool) \<Rightarrow> bool \<Rightarrow> OptBooleanBuilder \<Rightarrow> OptBooleanBuilder" where
  "bool_AppendSingle g v b = bool_extend g [v] True b"

text \<open>Every Parquet value is marked as valid, a null reads as false.\<close>

definition bool_AppendParquetValues :: "(nat \<Rightarrow> bool) \<Rightarrow> bool option list \<Rightarrow> OptBooleanBuilder \<Rightarrow> OptBooleanBuilder" where
  "bool_AppendParquetValues g values b =
     bool_extend g (map (\<lambda>v. case v of None \<Rightarrow> False | Some x \<Rightarrow> x) values) True b"

definition bool_Set :: "nat \<Rightarrow> bool \<Rightarrow> OptBooleanBuilder \<Rightarrow> OptBooleanBuilder option" where
  "bool_Set i v b = (if length_of b \<le> i then None else Some (b\<lparr>bool_data := (bool_data b)[i := v]\<rparr>))"

definition bool_Value :: "nat \<Rightarrow> OptBooleanBuilder \<Rightarrow> bool option" where
  "bool_Value i b = (if length_of b \<le> i then None else Some (bool_data b ! i))"

definition bool_RepeatLastValue :: "(nat \<Rightarrow> bool) \<Rightarrow> nat \<Rightarrow> OptBooleanBuilder \<Rightarrow> OptBooleanBuilder option" where
  "bool_RepeatLastValue g n b =
     (case last_is_null b of
        None \<Rightarrow> None
      | Some True \<Rightarrow> Some (bool_AppendNulls g n b)
      | Some False \<Rightarrow>
          Some (appendValid g n
            (b\<lparr>bool_data := SetBitsTo (resizeBitmap g (bool_data b) (length_of b + n)) (length_of b) n
                 (bool_data b ! (length_of b - 1))\<rparr>)))"

definition bool_ResetToLength :: "(nat \<Rightarrow> bool) \<Rightarrow> nat \<Rightarrow> OptBooleanBuilder \<Rightarrow> OptBooleanBuilder option" where
  "bool_ResetToLength g n b =
     (if n = length_of b then Some b
      else Some (base_shorten g n (b\<lparr>bool_data := resizeBitmap g (bool_data b) n\<rparr>)))"

definition bool_NewArray :: "OptBooleanBuilder \<Rightarrow> bool option list \<times> OptBooleanBuilder" where
  "bool_NewArray b =
     (map (\<lambda>i. if validityBitmap b ! i then Some (bool_data b ! i) else None) [0..<length_of b],
      (base_reset b)\<lparr>bool_data := []\<rparr>)"

definition bool_ok :: "OptBooleanBuilder \<Rightarrow> bool" where
  "bool_ok b \<longleftrightarrow> base_ok b \<and> length_of b \<le> length (bool_data b)"

definition bool_view :: "OptBooleanBuilder \<Rightarrow> bool option list" where
  "bool_view b = map (\<lambda>i. if validityBitmap b ! i then Some (bool_data b ! i) else None) [0..<length_of b]"

lemma bool_view_length [simp]: "length (bool_view b) = length_of b"
  by (simp add: bool_view_def)

lemma bool_extend_view:
  assumes "bool_ok b"
  shows "bool_ok (bool_extend g vs valid b) \<and>
    bool_view (bool_extend g vs valid b) = bool_view b @ map (\<lambda>v. if valid then Some v else None) vs"
proof -
  let ?b = "bool_extend g vs valid b" let ?n = "length_of b" let ?m = "length vs"
  have l: "length_of ?b = ?n + ?m" by (simp add: bool_extend_def Let_def)
  have "bool_view ?b ! i = (bool_view b @ map (\<lambda>v. if valid then Some v else None) vs) ! i" if "i < ?n + ?m" for i
    using that assms bytes_enough [of "?n + ?m"]
    by (auto simp: bool_view_def bool_extend_def Let_def bool_ok_def base_ok_def resizeBitmap_def SetBitsTo_nth
        reslice_nth nth_append)
  then have "bool_view ?b = bool_view b @ map (\<lambda>v. if valid then Some v else None) vs"
    using l by (intro nth_equalityI) simp_all
  moreover have "bool_ok ?b"
    using bytes_enough [of "?n + ?m"] by (simp add: bool_ok_def base_ok_def bool_extend_def Let_def resizeBitmap_def)
  ultimately show ?thesis by simp
qed

lemma bool_last_null:
  "bool_ok b \<Longrightarrow> bool_view b \<noteq> [] \<Longrightarrow> last_is_null b = Some (last (bool_view b) = None) \<and>
     (last (bool_view b) \<noteq> None \<longrightarrow> last (bool_view b) = Some (bool_data b ! (length_of b - 1)))"
  by (auto simp: last_is_null_def last_conv_nth bool_view_def split: if_splits)

lemma bool_RepeatLastValue_view:
  assumes "bool_ok b" "bool_view b \<noteq> []"
  shows "\<exists>b'. bool_RepeatLastValue g n b = Some b' \<and> bool_ok b' \<and>
    bool_view b' = bool_view b @ replicate n (last (bool_view b))"
proof (cases "last (bool_view b)")
  case None
  then show ?thesis
    using bool_last_null [OF assms] bool_extend_view [OF assms(1), of g "replicate n False" False]
    by (simp add: bool_RepeatLastValue_def bool_AppendNulls_def)
next
  case (Some v)
  then have v: "v = bool_data b ! (length_of b - 1)" using bool_last_null [OF assms] by simp
  let ?b = "appendValid g n (b\<lparr>bool_data := SetBitsTo (resizeBitmap g (bool_data b) (length_of b + n)) (length_of b) n v\<rparr>)"
  have e: "bool_RepeatLastValue g n b = Some ?b"
    using bool_last_null [OF assms] Some v by (simp add: bool_RepeatLastValue_def)
  have "SetBitsTo xs k n v = map (\<lambda>i. if k \<le> i \<and> i < k + n then replicate n v ! (i - k) else xs ! i) [0..<length xs]" for xs k
    by (auto simp: SetBitsTo_def)
  then have "?b = bool_extend g (replicate n v) True b"
    by (simp only: appendValid_def bool_extend_def Let_def length_replicate) simp
  then show ?thesis unfolding e using bool_extend_view [OF assms(1), of g "replicate n v" True] Some by simp
qed

lemma bool_ResetToLength_view:
  assumes "bool_ok b" "n \<le> length (bool_view b)"
  shows "\<exists>b'. bool_ResetToLength g n b = Some b' \<and> bool_ok b' \<and> bool_view b' = take n (bool_view b)"
proof (cases "n = length_of b")
  case False
  then show ?thesis
    using assms bytes_enough [of n]
    by (auto simp: bool_ResetToLength_def bool_ok_def base_ok_def base_shorten_def bool_view_def resizeBitmap_def
        reslice_nth take_map intro!: nth_equalityI)
qed (use assms in \<open>simp add: bool_ResetToLength_def\<close>)

interpretation booleans: column_builder bool_view bool_ok bool_new "\<lambda>_. True" "\<lambda>v b. Some (bool_AppendSingle g v b)"
  "\<lambda>n b. Some (bool_AppendNulls g n b)" "bool_RepeatLastValue g" "bool_ResetToLength g" for g
proof
  show "bool_ok bool_new" "bool_view bool_new = []"
    by (simp_all add: bool_ok_def bool_view_def bool_new_def base_ok_def)
  fix b assume b: "bool_ok b"
  show "\<exists>b'. Some (bool_AppendSingle g v b) = Some b' \<and> bool_ok b' \<and> bool_view b' = bool_view b @ [Some v]" for v
    using bool_extend_view [OF b, of g "[v]" True] by (simp add: bool_AppendSingle_def)
  show "\<exists>b'. Some (bool_AppendNulls g n b) = Some b' \<and> bool_ok b' \<and> bool_view b' = bool_view b @ replicate n None" for n
    using bool_extend_view [OF b, of g "replicate n False" False] by (simp add: bool_AppendNulls_def)
qed (simp_all add: bool_RepeatLastValue_view bool_ResetToLength_view)

text \<open>Unlike the other builders this one forgets which of the Parquet values were null.\<close>

lemma bool_AppendParquetValues_view:
  "bool_ok b \<Longrightarrow> bool_view (bool_AppendParquetValues g vs b) = bool_view b @ map (\<lambda>v. Some (v = Some True)) vs"
  using bool_extend_view [of b g "map (\<lambda>v. case v of None \<Rightarrow> False | Some x \<Rightarrow> x) vs" True]
  by (auto simp: bool_AppendParquetValues_def split: option.splits)

lemma bool_null_becomes_false:
  "fst (bool_NewArray (bool_AppendParquetValues (\<lambda>_. False) [None, Some True] bool_new)) = [Some False, Some True]"
  by code_simp

section \<open>Sequences of operations\<close>

fun num_op :: "(nat \<Rightarrow> bool) \<Rightarrow> (nat \<Rightarrow> 'a) \<Rightarrow> nat \<Rightarrow> 'a builder_op \<Rightarrow> 'a num_builder \<Rightarrow> 'a num_builder option" where
  "num_op g h c (Op_Append v) b = Some (num_Append g v b)"
| "num_op g h c (Op_Nulls n) b = Some (num_AppendNulls g h n b)"
| "num_op g h c (Op_Repeat n) b = num_RepeatLastValue g h n b"
| "num_op g h c (Op_Reset n) b = num_ResetToLength g h c n b"

fun bool_op :: "(nat \<Rightarrow> bool) \<Rightarrow> bool builder_op \<Rightarrow> OptBooleanBuilder \<Rightarrow> OptBooleanBuilder option" where
  "bool_op g (Op_Append v) b = Some (bool_AppendSingle g v b)"
| "bool_op g (Op_Nulls n) b = Some (bool_AppendNulls g n b)"
| "bool_op g (Op_Repeat n) b = bool_RepeatLastValue g n b"
| "bool_op g (Op_Reset n) b = bool_ResetToLength g n b"

lemma all_true [simp]: "list_all (\<lambda>_. True) xs"
  by (simp add: list_all_iff)

lemma fixed_width_builders_refine:
  shows "run_ops_p op_spec ops [] = Some xs \<Longrightarrow>
      \<exists>b. run_ops_p (num_op g h c) ops num_new = Some b \<and> num_NewArray b = (xs, num_new)"
    and "run_ops_p op_spec bops [] = Some bs \<Longrightarrow>
      \<exists>b. run_ops_p (bool_op g) bops bool_new = Some b \<and> bool_NewArray b = (bs, bool_new)"
proof -
  have "num_op g h c x b = numbers.apply_op g h c x b" for x and b :: "'a num_builder" by (cases x) simp_all
  then have n: "num_op g h c = (numbers.apply_op g h c :: 'a builder_op \<Rightarrow> 'a num_builder \<Rightarrow> 'a num_builder option)" by (intro ext)
  have "bool_op g x b = booleans.apply_op g x b" for x b by (cases x) simp_all
  then have b: "bool_op g = booleans.apply_op g" by (intro ext)
  show "\<exists>b. run_ops_p (num_op g h c) ops num_new = Some b \<and> num_NewArray b = (xs, num_new)"
    if "run_ops_p op_spec ops [] = Some xs"
    using numbers.run_refines [OF numbers.fresh(1), of ops xs g h c] that n num_NewArray_view by (metis all_true numbers.fresh(2))
  have "bool_NewArray b = (bool_view b, bool_new)" for b
    by (simp add: bool_NewArray_def bool_view_def bool_new_def base_reset_def)
  then show "\<exists>b. run_ops_p (bool_op g) bops bool_new = Some b \<and> bool_NewArray b = (bs, bool_new)"
    if "run_ops_p op_spec bops [] = Some bs"
    using booleans.run_refines [OF booleans.fresh(1), of bops bs g] that b by (metis all_true booleans.fresh(2))
qed

end
