(* ===== verification/Binary_Builder.thy ===== *)
theory Binary_Builder
  imports Opt_Builders
begin

text \<open>
  The optimized builder of binary columns (\<open>OptBinaryBuilder\<close> in \<open>pqarrow/builder/optbuilders.go\<close>): all values in one
  buffer of bytes, with \<open>uint32\<close> offsets of where each one starts. The last value is open: it ends where the buffer ends. The
  buffer never grows beyond \<open>math.MaxInt32\<close> bytes, so the offsets do not wrap around.
\<close>

section \<open>Operations\<close>

definition MaxInt32_bytes :: nat where
  "MaxInt32_bytes = 2147483647"

datatype binary_error = Bin_MaxSizeReached | Bin_Panic

record OptBinaryBuilder = builderBase +
  bin_data :: string
  bin_offsets :: "32 word list"

definition bin_new :: OptBinaryBuilder where
  "bin_new = \<lparr>length_of = 0, validityBitmap = [], bin_data = [], bin_offsets = []\<rparr>"

definition bin_end :: "OptBinaryBuilder \<Rightarrow> 32 word" where
  "bin_end b = of_nat (length (bin_data b))"

definition bin_AppendNull :: "(nat \<Rightarrow> bool) \<Rightarrow> OptBinaryBuilder \<Rightarrow> OptBinaryBuilder" where
  "bin_AppendNull g b = base_AppendNulls g 1 (b\<lparr>bin_offsets := bin_offsets b @ [bin_end b]\<rparr>)"

definition bin_AppendNulls :: "(nat \<Rightarrow> bool) \<Rightarrow> nat \<Rightarrow> OptBinaryBuilder \<Rightarrow> OptBinaryBuilder" where
  "bin_AppendNulls g n b = base_AppendNulls g n (b\<lparr>bin_offsets := bin_offsets b @ replicate n (bin_end b)\<rparr>)"

text \<open>The bytes of value \<open>i\<close>, from its offset to the next one or to the end.\<close>

definition bin_slice :: "string \<Rightarrow> 32 word list \<Rightarrow> nat \<Rightarrow> string" where
  "bin_slice data offsets i =
     (let from = unat (offsets ! i)
      in if i + 1 < length offsets then take (unat (offsets ! (i + 1)) - from) (drop from data) else drop from data)"

definition bin_Value :: "nat \<Rightarrow> OptBinaryBuilder \<Rightarrow> string option" where
  "bin_Value i b = (if length_of b \<le> i then None else Some (bin_slice (bin_data b) (bin_offsets b) i))"

definition bin_NewArray :: "OptBinaryBuilder \<Rightarrow> string option list \<times> OptBinaryBuilder" where
  "bin_NewArray b =
     (let offsets = bin_offsets b @ [bin_end b]
      in (map (\<lambda>i. if validityBitmap b ! i then Some (bin_slice (bin_data b) offsets i) else None) [0..<length_of b],
          (base_reset b)\<lparr>bin_offsets := [], bin_data := []\<rparr>))"

definition bin_AppendData :: "(nat \<Rightarrow> bool) \<Rightarrow> string \<Rightarrow> 32 word list \<Rightarrow> OptBinaryBuilder \<Rightarrow> (binary_error, OptBinaryBuilder) result" where
  "bin_AppendData g data offsets b =
     (if MaxInt32_bytes < length (bin_data b) + length data then Inl Bin_MaxSizeReached
      else if offsets = [] then Inl Bin_Panic
      else
        let offs = butlast offsets; start = length (bin_offsets b); n = length_of b + length offs
        in Inr (b\<lparr>bin_data := bin_data b @ data, bin_offsets := bin_offsets b @ map (\<lambda>o'. o' + bin_end b) offs,
                  length_of := n,
                  validityBitmap := SetBitsTo (resizeBitmap g (validityBitmap b) n) start (length offs) True\<rparr>))"

definition bin_Append :: "(nat \<Rightarrow> bool) \<Rightarrow> string \<Rightarrow> OptBinaryBuilder \<Rightarrow> (binary_error, OptBinaryBuilder) result" where
  "bin_Append g v b =
     (if MaxInt32_bytes < length (bin_data b) + length v then Inl Bin_MaxSizeReached
      else Inr (set_last_valid g (b\<lparr>bin_offsets := bin_offsets b @ [bin_end b], bin_data := bin_data b @ v\<rparr>)))"

text \<open>Parquet values; a null has no bytes.\<close>

definition value_bytes :: "string option \<Rightarrow> string" where
  "value_bytes v = (case v of None \<Rightarrow> [] | Some s \<Rightarrow> s)"

fun append_values :: "string list \<Rightarrow> OptBinaryBuilder \<Rightarrow> OptBinaryBuilder" where
  "append_values [] b = b"
| "append_values (v # vs) b = append_values vs (b\<lparr>bin_offsets := bin_offsets b @ [bin_end b], bin_data := bin_data b @ v\<rparr>)"

definition bin_AppendParquetValues :: "(nat \<Rightarrow> bool) \<Rightarrow> string option list \<Rightarrow> OptBinaryBuilder \<Rightarrow> (binary_error, OptBinaryBuilder) result" where
  "bin_AppendParquetValues g values b =
     (if MaxInt32_bytes < length (bin_data b) + sum_list (map (length \<circ> value_bytes) values) then Inl Bin_MaxSizeReached
      else
        let b' = append_values (map value_bytes values) b; n = length_of b; m = length values;
            bm = resizeBitmap g (validityBitmap b) (n + m)
        in Inr (b'\<lparr>length_of := n + m,
                   validityBitmap := map (\<lambda>i. if n \<le> i \<and> i < n + m then values ! (i - n) \<noteq> None else bm ! i) [0..<length bm]\<rparr>))"

definition bin_RepeatLastValue :: "(nat \<Rightarrow> bool) \<Rightarrow> nat \<Rightarrow> OptBinaryBuilder \<Rightarrow> (binary_error, OptBinaryBuilder) result" where
  "bin_RepeatLastValue g n b =
     (case last_is_null b of
        None \<Rightarrow> Inl Bin_Panic
      | Some True \<Rightarrow> Inr (bin_AppendNulls g n b)
      | Some False \<Rightarrow>
          let lastValue = drop (unat (last (bin_offsets b))) (bin_data b)
          in if MaxInt32_bytes < length (bin_data b) + length lastValue * n then Inl Bin_MaxSizeReached
             else Inr (appendValid g n (append_values (replicate n lastValue) b)))"

definition bin_ResetToLength :: "(nat \<Rightarrow> bool) \<Rightarrow> nat \<Rightarrow> OptBinaryBuilder \<Rightarrow> (binary_error, OptBinaryBuilder) result" where
  "bin_ResetToLength g n b =
     (if n = length_of b then Inr b
      else if length (bin_offsets b) \<le> n then Inl Bin_Panic
      else Inr (base_shorten g n
             (b\<lparr>bin_data := take (unat (bin_offsets b ! n)) (bin_data b), bin_offsets := take n (bin_offsets b)\<rparr>)))"

section \<open>Representation\<close>

text \<open>The offsets of a list of values, and when a builder holds such a list.\<close>

definition starts :: "string list \<Rightarrow> 32 word list" where
  "starts vs = map (\<lambda>i. of_nat (length (concat (take i vs)))) [0..<length vs]"

definition bin_rep :: "string list \<Rightarrow> OptBinaryBuilder \<Rightarrow> bool" where
  "bin_rep vs b \<longleftrightarrow> base_ok b \<and> length vs = length_of b \<and> bin_data b = concat vs \<and> bin_offsets b = starts vs \<and>
     length (concat vs) \<le> MaxInt32_bytes \<and> (\<forall>i < length vs. \<not> bits b ! i \<longrightarrow> vs ! i = [])"

definition bin_values :: "OptBinaryBuilder \<Rightarrow> string list" where
  "bin_values b = map (bin_slice (bin_data b) (bin_offsets b)) [0..<length_of b]"

definition bin_ok :: "OptBinaryBuilder \<Rightarrow> bool" where
  "bin_ok b \<longleftrightarrow> bin_rep (bin_values b) b"

definition mask :: "bool list \<Rightarrow> 'a list \<Rightarrow> 'a option list" where
  "mask vs xs = map2 (\<lambda>v x. if v then Some x else None) vs xs"

definition bin_view :: "OptBinaryBuilder \<Rightarrow> string option list" where
  "bin_view b = mask (bits b) (bin_values b)"

definition bin_fits :: "string option list \<Rightarrow> bool" where
  "bin_fits xs \<longleftrightarrow> length (concat (map value_bytes xs)) \<le> MaxInt32_bytes"

lemma starts_length [simp]: "length (starts vs) = length vs"
  by (simp add: starts_def)

lemma starts_nth: "i < length vs \<Longrightarrow> starts vs ! i = of_nat (length (concat (take i vs)))"
  by (simp add: starts_def)

lemma starts_append: "starts (vs @ ws) = starts vs @ map (\<lambda>o'. o' + of_nat (length (concat vs))) (starts ws)"
  by (auto simp: starts_def nth_append intro!: nth_equalityI)

lemma starts_take: "starts (take n vs) = take n (starts vs)"
  by (auto simp: starts_def min_def intro!: nth_equalityI)

lemma starts_Nil: "starts (replicate n []) = replicate n 0"
  by (auto simp: starts_def intro!: nth_equalityI)

lemma length_concat_take: "length (concat (take i vs)) \<le> length (concat vs)"
proof -
  have "concat vs = concat (take i vs) @ concat (drop i vs)" by (metis append_take_drop_id concat_append)
  then show ?thesis by simp
qed

lemma unat_starts:
  assumes "length (concat vs) \<le> MaxInt32_bytes"
  shows "unat (of_nat (length (concat (take i vs))) :: 32 word) = length (concat (take i vs))"
proof -
  have "length (concat (take i vs)) < 2 ^ LENGTH(32)"
    using assms length_concat_take [of i vs] by (simp add: MaxInt32_bytes_def)
  then show ?thesis by (simp only: unat_of_nat mod_less)
qed

lemma bin_slice_values:
  assumes "length (concat vs) \<le> MaxInt32_bytes" "i < length vs"
  shows "bin_slice (concat vs) (starts vs) i = vs ! i"
    and "bin_slice (concat vs) (starts vs @ [of_nat (length (concat vs))]) i = vs ! i"
proof -
  have vs: "vs = take i vs @ vs ! i # drop (Suc i) vs" using assms(2) by (rule id_take_nth_drop)
  have d: "drop (length (concat (take i vs))) (concat vs) = vs ! i @ concat (drop (Suc i) vs)"
    by (subst (2) vs) simp
  have t: "length (concat (take (Suc i) vs)) = length (concat (take i vs)) + length (vs ! i)"
    using assms(2) by (simp add: take_Suc_conv_app_nth)
  have u: "unat (starts vs ! i) = length (concat (take i vs))"
    using unat_starts [OF assms(1)] assms(2) by (simp add: starts_nth)
  have n: "unat (starts vs ! Suc i) = length (concat (take (Suc i) vs))" if "Suc i < length vs"
    using unat_starts [OF assms(1)] that by (simp add: starts_nth)
  have e: "unat (of_nat (length (concat vs)) :: 32 word) = length (concat vs)"
    using unat_starts [OF assms(1), of "length vs"] by simp
  have l: "concat (drop (Suc i) vs) = []" "length (concat vs) = length (concat (take (Suc i) vs))" if "\<not> Suc i < length vs"
    using that by simp_all
  show "bin_slice (concat vs) (starts vs) i = vs ! i"
    using u n d t l(1) by (auto simp: bin_slice_def Let_def)
  show "bin_slice (concat vs) (starts vs @ [of_nat (length (concat vs))]) i = vs ! i"
  proof (cases "Suc i < length vs")
    case True
    then have "(starts vs @ [of_nat (length (concat vs))]) ! i = starts vs ! i"
      "(starts vs @ [of_nat (length (concat vs))]) ! (i + 1) = starts vs ! Suc i"
      using assms(2) by (simp_all add: nth_append)
    then show ?thesis using True u n d t by (simp add: bin_slice_def Let_def)
  next
    case False
    then have "(starts vs @ [of_nat (length (concat vs))]) ! i = starts vs ! i"
      "(starts vs @ [of_nat (length (concat vs))]) ! (i + 1) = of_nat (length (concat vs))"
      using assms(2) by (simp_all add: nth_append)
    moreover have "length (concat vs) - length (concat (take i vs)) = length (vs ! i)"
      using l(2) [OF False] t by linarith
    ultimately show ?thesis using u d e assms(2) l(1) [OF False] by (simp add: bin_slice_def Let_def)
  qed
qed

lemma bin_rep_values:
  assumes "bin_rep vs b"
  shows "bin_values b = vs" "bin_ok b" "bin_view b = mask (bits b) vs"
proof -
  show v: "bin_values b = vs"
    using assms bin_slice_values(1) by (auto simp: bin_rep_def bin_values_def intro!: nth_equalityI)
  show "bin_ok b" "bin_view b = mask (bits b) vs" using assms v by (simp_all add: bin_ok_def bin_view_def)
qed

lemma mask_append: "length vs = length xs \<Longrightarrow> mask (vs @ vs') (xs @ xs') = mask vs xs @ mask vs' xs'"
  by (simp add: mask_def)

lemma mask_length [simp]: "length (mask vs xs) = min (length vs) (length xs)"
  by (simp add: mask_def)

lemma mask_replicate: "mask (replicate n v) (replicate n x) = replicate n (if v then Some x else None)"
  by (simp add: mask_def)

section \<open>The operations keep the representation\<close>

lemma bin_more [simp]:
  "bin_data (base_AppendNulls g n b) = bin_data b" "bin_offsets (base_AppendNulls g n b) = bin_offsets b"
  "bin_data (appendValid g n b) = bin_data b" "bin_offsets (appendValid g n b) = bin_offsets b"
  "bin_data (set_last_valid g b) = bin_data b" "bin_offsets (set_last_valid g b) = bin_offsets b"
  "bin_data (base_shorten g n b) = bin_data b" "bin_offsets (base_shorten g n b) = bin_offsets b"
  "base_ok (b\<lparr>bin_offsets := o', bin_data := d\<rparr>) = base_ok b" "bits (b\<lparr>bin_offsets := o', bin_data := d\<rparr>) = bits b"
  "base_ok (b\<lparr>bin_offsets := o'\<rparr>) = base_ok b" "bits (b\<lparr>bin_offsets := o'\<rparr>) = bits b"
  "base_ok (b\<lparr>bin_data := d\<rparr>) = base_ok b" "bits (b\<lparr>bin_data := d\<rparr>) = bits b"
  "base_ok (b\<lparr>bin_data := d, bin_offsets := o'\<rparr>) = base_ok b" "bits (b\<lparr>bin_data := d, bin_offsets := o'\<rparr>) = bits b"
  by (simp_all add: base_AppendNulls_def appendValid_def set_last_valid_def base_shorten_def base_ok_def bits_def)

text \<open>A builder that got the values \<open>ws\<close> and the validity bits \<open>bs\<close> more.\<close>

lemma bin_rep_extend:
  assumes r: "bin_rep vs b" and b': "base_ok b'" "bits b' = bits b @ bs" "length_of b' = length_of b + length bs"
    and l: "length bs = length ws" and d: "bin_data b' = bin_data b @ concat ws"
    and o': "bin_offsets b' = bin_offsets b @ map (\<lambda>o'. o' + bin_end b) (starts ws)"
    and fit: "length (bin_data b) + length (concat ws) \<le> MaxInt32_bytes"
    and null: "\<forall>i < length ws. \<not> bs ! i \<longrightarrow> ws ! i = []"
  shows "bin_rep (vs @ ws) b'" "bin_view b' = bin_view b @ mask bs ws"
proof -
  have len: "length (bits b) = length vs" using r by (simp add: bin_rep_def)
  show rep: "bin_rep (vs @ ws) b'"
    unfolding bin_rep_def
  proof (intro conjI allI impI)
    fix i assume "i < length (vs @ ws)" "\<not> bits b' ! i"
    then show "(vs @ ws) ! i = []"
      using r null l len by (auto simp: b'(2) nth_append bin_rep_def split: if_splits)
  qed (use r b' l d o' fit in \<open>auto simp: bin_rep_def starts_append bin_end_def\<close>)
  show "bin_view b' = bin_view b @ mask bs ws"
    using bin_rep_values(3) [OF rep] bin_rep_values(3) [OF r] b'(2) len by (simp add: mask_append)
qed

lemma append_values_eq:
  "append_values ws b =
     b\<lparr>bin_offsets := bin_offsets b @ map (\<lambda>o'. o' + bin_end b) (starts ws), bin_data := bin_data b @ concat ws\<rparr>"
proof (induction ws arbitrary: b)
  case (Cons w ws)
  have "starts (w # ws) = 0 # map (\<lambda>o'. o' + of_nat (length w)) (starts ws)"
    using starts_append [of "[w]" ws] by (simp add: starts_def)
  then show ?case using Cons.IH by (simp add: bin_end_def add.assoc add.commute)
qed (simp add: starts_def)

lemma bin_ok_rep: "bin_ok b \<Longrightarrow> bin_rep (bin_values b) b"
  by (simp add: bin_ok_def)

text \<open>The bytes of the values are exactly the bytes of the view: nulls have none.\<close>

lemma bin_view_bytes:
  assumes "bin_rep vs b"
  shows "map value_bytes (bin_view b) = vs"
  using assms bin_rep_values(3) [OF assms]
  by (auto simp: bin_rep_def mask_def value_bytes_def intro!: nth_equalityI)

lemma bin_view_length: "bin_ok b \<Longrightarrow> length (bin_view b) = length_of b"
  by (auto simp: bin_view_def bin_ok_def bin_rep_def)

lemma bin_fits_view: "bin_rep vs b \<Longrightarrow> bin_fits (bin_view b @ xs) \<longleftrightarrow> length (bin_data b) + length (concat (map value_bytes xs)) \<le> MaxInt32_bytes"
  using bin_view_bytes [of vs b] by (simp add: bin_fits_def bin_rep_def)

lemma bin_AppendNulls_view:
  assumes "bin_ok b"
  shows "bin_ok (bin_AppendNulls g n b) \<and> bin_view (bin_AppendNulls g n b) = bin_view b @ replicate n None"
proof -
  have r: "bin_rep (bin_values b) b" using assms by (rule bin_ok_rep)
  let ?t = "b\<lparr>bin_offsets := bin_offsets b @ replicate n (bin_end b)\<rparr>"
  have "base_ok ?t" using r by (simp add: bin_rep_def)
  note B = bits_base_AppendNulls [OF this, of g n]
  have "length (bin_data b) \<le> MaxInt32_bytes" using r by (simp add: bin_rep_def)
  then have "bin_rep (bin_values b @ replicate n []) (bin_AppendNulls g n b) \<and>
      bin_view (bin_AppendNulls g n b) = bin_view b @ mask (replicate n False) (replicate n [])"
    using bin_rep_extend [OF r, of "bin_AppendNulls g n b" "replicate n False" "replicate n []"] B
    by (simp add: bin_AppendNulls_def starts_Nil)
  then show ?thesis using bin_rep_values(2) by (auto simp: mask_replicate)
qed

lemma bin_Append_view:
  assumes "bin_ok b" "bin_fits (bin_view b @ [Some v])"
  shows "\<exists>b'. bin_Append g v b = Inr b' \<and> bin_ok b' \<and> bin_view b' = bin_view b @ [Some v]"
proof -
  have r: "bin_rep (bin_values b) b" using assms(1) by (rule bin_ok_rep)
  have fit: "length (bin_data b) + length v \<le> MaxInt32_bytes"
    using assms(2) bin_fits_view [OF r, of "[Some v]"] by (simp add: value_bytes_def)
  let ?t = "b\<lparr>bin_offsets := bin_offsets b @ [bin_end b], bin_data := bin_data b @ v\<rparr>"
  have "base_ok ?t" using r by (simp add: bin_rep_def)
  note B = bits_set_last_valid [OF this, of g]
  have "bin_rep (bin_values b @ [v]) (set_last_valid g ?t) \<and>
      bin_view (set_last_valid g ?t) = bin_view b @ mask [True] [v]"
    using bin_rep_extend [OF r, of "set_last_valid g ?t" "[True]" "[v]"] B fit by (simp add: starts_def)
  then show ?thesis using fit bin_rep_values(2) by (auto simp: bin_Append_def mask_def)
qed

lemma bin_last:
  assumes "bin_ok b" "bin_view b \<noteq> []"
  shows "last_is_null b = Some (last (bin_view b) = None)"
    "last (bin_view b) \<noteq> None \<Longrightarrow> last (bin_view b) = Some (drop (unat (last (bin_offsets b))) (bin_data b))"
proof -
  let ?n = "length_of b"
  have r: "bin_rep (bin_values b) b" using assms(1) by (rule bin_ok_rep)
  have n: "0 < ?n" using assms bin_view_length [OF assms(1)] by (cases ?n) auto
  have last: "last (bin_view b) = (if last (bits b) then Some (bin_values b ! (?n - 1)) else None)"
    using r n assms(2) by (simp add: bin_view_def mask_def last_conv_nth bin_rep_def)
  have "bits b \<noteq> []" using n r by (metis bin_rep_def bits_length length_greater_0_conv)
  then show "last_is_null b = Some (last (bin_view b) = None)"
    using last r last_is_null_bits [of b] by (simp add: bin_rep_def)
  have "bin_values b ! (?n - 1) = drop (unat (last (bin_offsets b))) (bin_data b)"
  proof -
    have "length (bin_offsets b) = ?n" using r by (simp add: bin_rep_def)
    moreover from this have "last (bin_offsets b) = bin_offsets b ! (?n - 1)"
      using n by (subst last_conv_nth) auto
    ultimately show ?thesis using n by (simp add: bin_values_def bin_slice_def Let_def)
  qed
  then show "last (bin_view b) \<noteq> None \<Longrightarrow> last (bin_view b) = Some (drop (unat (last (bin_offsets b))) (bin_data b))"
    using last by (auto split: if_splits)
qed

lemma bin_RepeatLastValue_view:
  assumes "bin_ok b" "bin_view b \<noteq> []" "bin_fits (bin_view b @ replicate n (last (bin_view b)))"
  shows "\<exists>b'. bin_RepeatLastValue g n b = Inr b' \<and> bin_ok b' \<and>
    bin_view b' = bin_view b @ replicate n (last (bin_view b))"
proof (cases "last (bin_view b)")
  case None
  then show ?thesis
    using bin_last(1) [OF assms(1,2)] bin_AppendNulls_view [OF assms(1), of g n] by (simp add: bin_RepeatLastValue_def)
next
  case (Some v)
  have r: "bin_rep (bin_values b) b" using assms(1) by (rule bin_ok_rep)
  have v: "drop (unat (last (bin_offsets b))) (bin_data b) = v" using bin_last(2) [OF assms(1,2)] Some by simp
  have fit: "length (bin_data b) + length (concat (replicate n v)) \<le> MaxInt32_bytes"
    using assms(3) Some bin_fits_view [OF r] by (simp add: value_bytes_def)
  then have "length (bin_data b) + length v * n \<le> MaxInt32_bytes"
    by (simp add: length_concat sum_list_replicate mult.commute)
  then have e: "bin_RepeatLastValue g n b = Inr (appendValid g n (append_values (replicate n v) b))"
    using bin_last(1) [OF assms(1,2)] Some v by (simp add: bin_RepeatLastValue_def)
  let ?t = "append_values (replicate n v) b"
  have t: "base_ok ?t" "bits ?t = bits b" "length_of ?t = length_of b" using r by (simp_all add: append_values_eq bin_rep_def)
  note B = bits_appendValid [OF t(1), of g n]
  have "bin_rep (bin_values b @ replicate n v) (appendValid g n ?t) \<and>
      bin_view (appendValid g n ?t) = bin_view b @ mask (replicate n True) (replicate n v)"
    using bin_rep_extend [OF r, of "appendValid g n ?t" "replicate n True" "replicate n v"] B t fit
    by (simp add: append_values_eq)
  then show ?thesis unfolding e using Some bin_rep_values(2) by (auto simp: mask_replicate)
qed

lemma bin_ResetToLength_view:
  assumes "bin_ok b" "n \<le> length (bin_view b)"
  shows "\<exists>b'. bin_ResetToLength g n b = Inr b' \<and> bin_ok b' \<and> bin_view b' = take n (bin_view b)"
proof (cases "n = length_of b")
  case True
  then show ?thesis using assms bin_view_length [OF assms(1)] by (simp add: bin_ResetToLength_def)
next
  case False
  have r: "bin_rep (bin_values b) b" using assms(1) by (rule bin_ok_rep)
  let ?vs = "bin_values b"
  have n: "n < length ?vs" "n < length_of b" using False assms bin_view_length [OF assms(1)] r by (auto simp: bin_rep_def)
  let ?t = "b\<lparr>bin_data := take (unat (bin_offsets b ! n)) (bin_data b), bin_offsets := take n (bin_offsets b)\<rparr>"
  have d: "bin_data ?t = concat (take n ?vs)"
  proof -
    have "unat (bin_offsets b ! n) = length (concat (take n ?vs))"
      using r n(1) unat_starts [of ?vs n] by (simp add: bin_rep_def starts_nth)
    moreover have "bin_data b = concat (take n ?vs) @ concat (drop n ?vs)"
      using r by (metis append_take_drop_id bin_rep_def concat_append)
    ultimately show ?thesis by simp
  qed
  have t: "base_ok ?t" "bits ?t = bits b" "length_of ?t = length_of b" using r by (simp_all add: bin_rep_def)
  note B = bits_base_shorten [OF t(1), of n g]
  have e: "bin_ResetToLength g n b = Inr (base_shorten g n ?t)"
    using False n r by (simp add: bin_ResetToLength_def bin_rep_def)
  have rep: "bin_rep (take n ?vs) (base_shorten g n ?t)"
    using r n d t B length_concat_take [of n ?vs] by (auto simp: bin_rep_def starts_take)
  have "bin_view (base_shorten g n ?t) = take n (bin_view b)"
    using bin_rep_values(3) [OF rep] bin_rep_values(3) [OF r] B t n by (simp add: mask_def take_zip take_map)
  then show ?thesis unfolding e using bin_rep_values(2) [OF rep] by simp
qed

definition to_option :: "('e, 'a) result \<Rightarrow> 'a option" where
  "to_option r = (case r of Inl _ \<Rightarrow> None | Inr x \<Rightarrow> Some x)"

lemma to_option_Inr [simp]: "to_option r = Some x \<longleftrightarrow> r = Inr x" "to_option (Inr x) = Some x"
  by (cases r) (auto simp: to_option_def)

lemma bin_new_rep: "bin_rep [] bin_new"
  by (simp add: bin_rep_def bin_new_def base_ok_def starts_def MaxInt32_bytes_def)

interpretation binaries: column_builder bin_view bin_ok bin_new bin_fits "\<lambda>v b. to_option (bin_Append g v b)"
  "\<lambda>n b. Some (bin_AppendNulls g n b)" "\<lambda>n b. to_option (bin_RepeatLastValue g n b)"
  "\<lambda>n b. to_option (bin_ResetToLength g n b)" for g
proof
  show "bin_ok bin_new" "bin_view bin_new = []"
    using bin_rep_values [OF bin_new_rep] by (auto simp: mask_def bits_def)
qed (simp_all add: bin_Append_view bin_AppendNulls_view bin_RepeatLastValue_view bin_ResetToLength_view)

text \<open>Bulk appends. \<open>AppendData\<close> expects the values of an Arrow array whose first offset is zero.\<close>

lemma bin_AppendData_view:
  assumes "bin_ok b" "bin_fits (bin_view b @ map Some ws)"
  shows "\<exists>b'. bin_AppendData g (concat ws) (starts ws @ [of_nat (length (concat ws))]) b = Inr b' \<and> bin_ok b' \<and>
    bin_view b' = bin_view b @ map Some ws"
proof -
  have r: "bin_rep (bin_values b) b" using assms(1) by (rule bin_ok_rep)
  have fit: "length (bin_data b) + length (concat ws) \<le> MaxInt32_bytes"
    using assms(2) bin_fits_view [OF r, of "map Some ws"] by (simp add: value_bytes_def comp_def)
  let ?t = "b\<lparr>bin_data := bin_data b @ concat ws, bin_offsets := bin_offsets b @ map (\<lambda>o'. o' + bin_end b) (starts ws)\<rparr>"
  let ?u = "appendValid g (length ws) ?t"
  have start: "length (bin_offsets b) = length_of b" using r by (simp add: bin_rep_def)
  have e: "bin_AppendData g (concat ws) (starts ws @ [of_nat (length (concat ws))]) b = Inr ?u"
    using fit start by (simp add: bin_AppendData_def appendValid_def Let_def)
  have "base_ok ?t" using r by (simp add: bin_rep_def)
  note B = bits_appendValid [OF this, of g "length ws"]
  have "bin_rep (bin_values b @ ws) ?u \<and> bin_view ?u = bin_view b @ mask (replicate (length ws) True) ws"
    using bin_rep_extend [OF r, of ?u "replicate (length ws) True" ws] B fit by simp
  moreover have "mask (replicate (length ws) True) ws = map Some ws" by (auto simp: mask_def intro!: nth_equalityI)
  ultimately show ?thesis unfolding e using bin_rep_values(2) by auto
qed

lemma bin_AppendParquetValues_view:
  assumes "bin_ok b" "bin_fits (bin_view b @ vs)"
  shows "\<exists>b'. bin_AppendParquetValues g vs b = Inr b' \<and> bin_ok b' \<and> bin_view b' = bin_view b @ vs"
proof -
  have r: "bin_rep (bin_values b) b" using assms(1) by (rule bin_ok_rep)
  let ?n = "length_of b" let ?m = "length vs" let ?ws = "map value_bytes vs"
  let ?bm = "resizeBitmap g (validityBitmap b) (?n + ?m)"
  let ?bits = "map (\<lambda>i. if ?n \<le> i \<and> i < ?n + ?m then vs ! (i - ?n) \<noteq> None else ?bm ! i) [0..<length ?bm]"
  let ?u = "(append_values ?ws b)\<lparr>length_of := ?n + ?m, validityBitmap := ?bits\<rparr>"
  have fit: "length (bin_data b) + length (concat ?ws) \<le> MaxInt32_bytes"
    using assms(2) bin_fits_view [OF r, of vs] by simp
  then have e: "bin_AppendParquetValues g vs b = Inr ?u"
    by (simp add: bin_AppendParquetValues_def Let_def length_concat comp_def)
  have l: "?n + ?m \<le> length ?bm" using bytes_enough [of "?n + ?m"] by (simp add: resizeBitmap_def)
  have "take (?n + ?m) ?bits = bits b @ map (\<lambda>v. v \<noteq> None) vs"
    using r l by (auto simp: bits_def bin_rep_def base_ok_def resizeBitmap_def reslice_nth nth_append intro!: nth_equalityI)
  then have B: "base_ok ?u" "bits ?u = bits b @ map (\<lambda>v. v \<noteq> None) vs" using l by (simp_all add: base_ok_def bits_def)
  have "bin_rep (bin_values b @ ?ws) ?u \<and> bin_view ?u = bin_view b @ mask (map (\<lambda>v. v \<noteq> None) vs) ?ws"
    using bin_rep_extend [OF r, of ?u "map (\<lambda>v. v \<noteq> None) vs" ?ws] B fit
    by (simp add: append_values_eq value_bytes_def)
  moreover have "mask (map (\<lambda>v. v \<noteq> None) vs) ?ws = vs"
    by (auto simp: mask_def value_bytes_def intro!: nth_equalityI split: option.splits)
  ultimately have "bin_ok ?u" "bin_view ?u = bin_view b @ vs" by (auto simp only: intro: bin_rep_values(2))
  then show ?thesis unfolding e by blast
qed

lemma bin_NewArray_view: "bin_ok b \<Longrightarrow> bin_NewArray b = (bin_view b, bin_new)"
proof -
  assume b: "bin_ok b"
  let ?vs = "bin_values b"
  have r: "bin_rep ?vs b" using b by (rule bin_ok_rep)
  have "bin_slice (bin_data b) (bin_offsets b @ [bin_end b]) i = ?vs ! i" if "i < length_of b" for i
    using that r bin_slice_values(2) [of ?vs i] by (simp add: bin_rep_def bin_end_def)
  then have "fst (bin_NewArray b) = bin_view b"
    using r by (auto simp: bin_NewArray_def Let_def bin_view_def mask_def bin_rep_def bits_def base_ok_def intro!: nth_equalityI)
  then show ?thesis by (auto simp: bin_NewArray_def Let_def base_reset_def bin_new_def)
qed

text \<open>The builder under a sequence of operations; a failed one ends it.\<close>

fun bin_op :: "(nat \<Rightarrow> bool) \<Rightarrow> string builder_op \<Rightarrow> OptBinaryBuilder \<Rightarrow> OptBinaryBuilder option" where
  "bin_op g (Op_Append v) b = to_option (bin_Append g v b)"
| "bin_op g (Op_Nulls n) b = Some (bin_AppendNulls g n b)"
| "bin_op g (Op_Repeat n) b = to_option (bin_RepeatLastValue g n b)"
| "bin_op g (Op_Reset n) b = to_option (bin_ResetToLength g n b)"

text \<open>C34: for every sequence of appends, nulls, repetitions and resets that never holds more than \<open>math.MaxInt32\<close> bytes
  the binary builder succeeds, and the array it makes shows exactly the values that the sequence leaves in a list, nulls in
  their places, whatever the memory behind its slices held before.\<close>

theorem binary_builder_refines:
  assumes "run_ops_p op_spec ops [] = Some xs" "list_all bin_fits (op_trace ops [])"
  shows "\<exists>b. run_ops_p (bin_op g) ops bin_new = Some b \<and> bin_NewArray b = (xs, bin_new)"
proof -
  have "bin_op g x b = binaries.apply_op g x b" for x b by (cases x) simp_all
  then have "bin_op g = binaries.apply_op g" by (intro ext)
  moreover obtain b where "run_ops_p (binaries.apply_op g) ops bin_new = Some b" "bin_ok b" "bin_view b = xs"
    using binaries.run_refines [OF binaries.fresh(1), of ops xs g] assms binaries.fresh(2) by auto
  ultimately show ?thesis using bin_NewArray_view by metis
qed

definition sample_builder_ops :: "string builder_op list" where
  "sample_builder_ops = [Op_Append ''ab'', Op_Nulls 2, Op_Append ''c'', Op_Repeat 2, Op_Reset 5, Op_Append ''d'']"

lemma binary_builder_refines_witness:
  "\<exists>b. run_ops_p (bin_op (\<lambda>_. True)) sample_builder_ops bin_new = Some b \<and>
    bin_NewArray b = ([Some ''ab'', None, None, Some ''c'', Some ''c'', Some ''d''], bin_new)"
proof (rule binary_builder_refines)
  show "run_ops_p op_spec sample_builder_ops [] = Some [Some ''ab'', None, None, Some ''c'', Some ''c'', Some ''d'']"
    by code_simp
  have "list_all (\<lambda>xs. length (concat (map value_bytes xs)) \<le> 10) (op_trace sample_builder_ops [])" by code_simp
  moreover have "bin_fits xs" if "length (concat (map value_bytes xs)) \<le> 10" for xs
    using that unfolding bin_fits_def MaxInt32_bytes_def by linarith
  ultimately show "list_all bin_fits (op_trace sample_builder_ops [])" by (auto simp: list_all_iff)
qed

text \<open>
  \<open>AppendData\<close> with the offsets of a slice of an array, which do not start at zero: the values
  are cut out of the wrong places.
\<close>

lemma AppendData_of_slice_wrong:
  "case bin_AppendData (\<lambda>_. False) ''bcd'' [1, 2, 4] bin_new of
     Inl _ \<Rightarrow> False | Inr b \<Rightarrow> fst (bin_NewArray b) = [Some ''c'', Some ''d'']"
  by (simp add: bin_AppendData_def MaxInt32_bytes_def bin_new_def bin_NewArray_def resizeBitmap_def reslice_def
      SetBitsTo_def BytesForBits_def bin_slice_def bin_end_def upt_rec)

end
