(* ===== verification/Column_Hash.thy ===== *)
theory Column_Hash
  imports Column_Builder Dyn_Schema
begin

text \<open>
  Hashes of columns (\<open>dynparquet/hashed.go\<close>): the hash of every value of an array, the columns
  of hashes that a schema can ask for (\<open>PrehashColumns\<close>), and how they are found and removed.

  The two hash functions are third-party code and a parameter: \<open>metro\<close> is \<open>metro.Hash64\<close>
  with the seed 0, \<open>xxhash\<close> the digest of the bytes written since the last reset. A list array
  whose cells are all null is taken to have binary dictionaries as values.
\<close>

section \<open>Hashes of arrays\<close>

record hashers =
  metro :: "string \<Rightarrow> uint64"
  xxhash :: "string \<Rightarrow> uint64"

fun hash_bytes :: "hashers \<Rightarrow> cell option \<Rightarrow> uint64 option" where
  "hash_bytes H None = Some 0"
| "hash_bytes H (Some (C_Bytes s)) = Some (metro H s)"
| "hash_bytes H (Some _) = None"

fun hash_int64 :: "cell option \<Rightarrow> uint64 option" where
  "hash_int64 None = Some 0"
| "hash_int64 (Some (C_Int v)) = Some (word_of_int v)"
| "hash_int64 (Some _) = None"

fun hash_boolean :: "cell option \<Rightarrow> uint64 option" where
  "hash_boolean None = Some 0"
| "hash_boolean (Some (C_Bool b)) = Some (if b then 2 else 1)"
| "hash_boolean (Some _) = None"

text \<open>A null list has no values; \<open>ToConcreteList\<close> refuses lists of anything but binary dictionaries.\<close>

fun hash_list :: "hashers \<Rightarrow> cell option \<Rightarrow> uint64 option" where
  "hash_list H None = Some (xxhash H [])"
| "hash_list H (Some (C_List vs)) = Some (xxhash H (concat vs))"
| "hash_list H (Some _) = None"

text \<open>Only a value that is there makes a dictionary of another type panic.\<close>

fun hash_unsupported :: "cell option \<Rightarrow> uint64 option" where
  "hash_unsupported None = Some 0"
| "hash_unsupported (Some _) = None"

fun hash_cell :: "hashers \<Rightarrow> arrow_type \<Rightarrow> cell option \<Rightarrow> uint64 option" where
  "hash_cell H T_String x = hash_bytes H x"
| "hash_cell H T_Binary x = hash_bytes H x"
| "hash_cell H T_Int64 x = hash_int64 x"
| "hash_cell H T_Boolean x = hash_boolean x"
| "hash_cell H T_DictBinary x = hash_bytes H x"
| "hash_cell H T_DictString x = hash_bytes H x"
| "hash_cell H T_DictOther x = hash_unsupported x"
| "hash_cell H T_List x = hash_list H x"
| "hash_cell H T_FixedSizeBinary x = None"
| "hash_cell H T_OtherType x = None"

text \<open>\<open>HashArray\<close> panics for every other type of array, virtual arrays of nulls among them.\<close>

fun HashArray :: "hashers \<Rightarrow> column \<Rightarrow> uint64 list option" where
  "HashArray H (Physical a) =
     (if arr_type a \<in> {T_FixedSizeBinary, T_OtherType} then None
      else those (map (hash_cell H (arr_type a)) (arr_cells a)))"
| "HashArray H (VirtualNullArray _ _) = None"

definition hashable_type :: "arrow_type \<Rightarrow> bool" where
  "hashable_type ty \<longleftrightarrow> ty \<notin> {T_FixedSizeBinary, T_OtherType, T_DictOther}"

lemma hash_cell_ok: "hashable_type ty \<Longrightarrow> cell_ok ty x \<Longrightarrow> hash_cell H ty (Some x) \<noteq> None"
  by (cases ty; cases x) (auto simp: hashable_type_def cell_ok_def)

lemma hash_cell_null: "hashable_type ty \<Longrightarrow> hash_cell H ty None \<noteq> None"
  by (cases ty) (auto simp: hashable_type_def)

lemma those_nth: "those xs = Some ys \<Longrightarrow> length ys = length xs \<and> (\<forall>i < length xs. xs ! i = Some (ys ! i))"
proof (induction xs arbitrary: ys)
  case (Cons x xs)
  then obtain y ys' where "x = Some y" "those xs = Some ys'" "ys = y # ys'"
    by (auto split: option.splits)
  then show ?case using Cons.IH by (auto simp: nth_Cons split: nat.splits)
qed simp

lemma those_map_Some: "those (map (\<lambda>x. Some (g x)) xs) = Some (map g xs)"
  by (induction xs) simp_all

lemma those_ex: "\<forall>x \<in> set xs. x \<noteq> None \<Longrightarrow> \<exists>ys. those xs = Some ys"
  by (induction xs) auto

text \<open>The array of a well-formed column of a type that can be hashed has the hashes of its cells.\<close>

lemma HashArray_ok:
  assumes "column_ok n ty (Physical a)" "hashable_type ty"
  obtains hs where "HashArray H (Physical a) = Some hs" "length hs = n"
    "\<forall>i < n. hash_cell H ty (arr_cells a ! i) = Some (hs ! i)"
proof -
  have ty: "arr_type a = ty" "length (arr_cells a) = n" using assms by (auto simp: column_ok_def)
  have "hash_cell H ty x \<noteq> None" if "x \<in> set (arr_cells a)" for x
  proof (cases x)
    case None
    then show ?thesis using hash_cell_null [OF assms(2)] by simp
  next
    case (Some y)
    then have "cell_ok ty y" using that assms(1) by (force simp: column_ok_def column_cells_def list_all_iff)
    then show ?thesis using Some hash_cell_ok [OF assms(2)] by simp
  qed
  then obtain hs where hs: "those (map (hash_cell H ty) (arr_cells a)) = Some hs"
    using those_ex [of "map (hash_cell H ty) (arr_cells a)"] by auto
  then have "HashArray H (Physical a) = Some hs" using assms(2) ty by (auto simp: hashable_type_def)
  then show thesis using that those_nth [OF hs] ty by auto
qed

section \<open>Columns of hashes\<close>

definition IsHashedColumn :: "string \<Rightarrow> bool" where
  "IsHashedColumn col \<longleftrightarrow> prefix ''hashed'' col"

text \<open>The index of the first field with the name of the hash column; the code returns -1 for none.\<close>

fun find_hashed :: "string \<Rightarrow> nat \<Rightarrow> (string \<times> arrow_type) list \<Rightarrow> nat option" where
  "find_hashed col j [] = None"
| "find_hashed col j (f # fs) = (if HashedColumnName col = fst f then Some j else find_hashed col (Suc j) fs)"

definition FindHashedColumn :: "string \<Rightarrow> (string \<times> arrow_type) list \<Rightarrow> nat option" where
  "FindHashedColumn col fs = find_hashed col 0 fs"

definition hash_column :: "uint64 list \<Rightarrow> column" where
  "hash_column hs = Physical \<lparr>arr_type = T_Int64, arr_cells = map (\<lambda>h. Some (C_Int (sint h))) hs\<rparr>"

definition prehash_matches :: "ColumnDefinition \<Rightarrow> string \<Rightarrow> bool" where
  "prehash_matches col name \<longleftrightarrow> cd_PreHash col \<and> (cd_Name col = name \<or> cd_Dynamic col \<and> prefix (cd_Name col) name)"

text \<open>The inner loop over the fields of the record, for one column of the schema.\<close>

fun prehash_fields :: "hashers \<Rightarrow> ColumnDefinition \<Rightarrow> ((string \<times> arrow_type) \<times> column) list \<Rightarrow> ((string \<times> arrow_type) \<times> column) list option" where
  "prehash_fields H col [] = Some []"
| "prehash_fields H col ((f, c) # fs) =
     (if prehash_matches col (fst f)
      then (case HashArray H c of
              None \<Rightarrow> None
            | Some hs \<Rightarrow> map_option (Cons ((HashedColumnName (fst f), T_Int64), hash_column hs)) (prehash_fields H col fs))
      else prehash_fields H col fs)"

fun prehash_all :: "hashers \<Rightarrow> ColumnDefinition list \<Rightarrow> ((string \<times> arrow_type) \<times> column) list \<Rightarrow> ((string \<times> arrow_type) \<times> column) list option" where
  "prehash_all H [] fs = Some []"
| "prehash_all H (col # cols) fs =
     (case prehash_fields H col fs of
        None \<Rightarrow> None
      | Some new \<Rightarrow> map_option ((@) new) (prehash_all H cols fs))"

definition PrehashColumns :: "hashers \<Rightarrow> Schema \<Rightarrow> table_rec \<Rightarrow> table_rec option" where
  "PrehashColumns H schema r =
     map_option (\<lambda>new.
         if new = [] then r
         else r\<lparr>tr_fields := tr_fields r @ map fst new, tr_columns := tr_columns r @ map snd new\<rparr>)
       (prehash_all H (sch_columns schema) (zip (tr_fields r) (tr_columns r)))"

definition RemoveHashedColumns :: "table_rec \<Rightarrow> table_rec" where
  "RemoveHashedColumns r =
     (let kept = filter (\<lambda>(f, _). \<not> IsHashedColumn (fst f)) (zip (tr_fields r) (tr_columns r))
      in r\<lparr>tr_fields := map fst kept, tr_columns := map snd kept\<rparr>)"

section \<open>Finding and removing them\<close>

lemma IsHashedColumn_name [simp]: "IsHashedColumn (HashedColumnName col)"
  by (simp add: IsHashedColumn_def HashedColumnName_def)

lemma HashedColumnName_inject [simp]: "HashedColumnName a = HashedColumnName b \<longleftrightarrow> a = b"
  by (simp add: HashedColumnName_def)

text \<open>The hash column of a field.\<close>

definition hashed_field :: "hashers \<Rightarrow> (string \<times> arrow_type) \<times> column \<Rightarrow> (string \<times> arrow_type) \<times> column \<Rightarrow> bool" where
  "hashed_field H p x \<longleftrightarrow> fst x = (HashedColumnName (fst (fst p)), T_Int64) \<and>
     (case HashArray H (snd p) of None \<Rightarrow> False | Some hs \<Rightarrow> snd x = hash_column hs)"

lemma prehash_fields_in:
  "prehash_fields H col fs = Some new \<Longrightarrow>
     x \<in> set new \<longleftrightarrow> (\<exists>p \<in> set fs. prehash_matches col (fst (fst p)) \<and> hashed_field H p x)"
proof (induction H col fs arbitrary: new rule: prehash_fields.induct)
  case (2 H col f d fs)
  show ?case
  proof (cases "prehash_matches col (fst f)")
    case True
    then obtain hs new' where new: "HashArray H d = Some hs" "prehash_fields H col fs = Some new'"
        "new = ((HashedColumnName (fst f), T_Int64), hash_column hs) # new'"
      using "2.prems" by (auto split: option.splits)
    have "x \<in> set new' \<longleftrightarrow> (\<exists>p \<in> set fs. prehash_matches col (fst (fst p)) \<and> hashed_field H p x)"
      using "2.IH"(1) True new by blast
    moreover have "hashed_field H (f, d) x \<longleftrightarrow> x = ((HashedColumnName (fst f), T_Int64), hash_column hs)"
      using new(1) by (cases x) (auto simp: hashed_field_def)
    ultimately show ?thesis using True unfolding new(3) by simp
  next
    case False
    then show ?thesis using 2 by simp
  qed
qed simp

lemma prehash_all_in:
  "prehash_all H cols fs = Some new \<Longrightarrow>
     x \<in> set new \<longleftrightarrow> (\<exists>col \<in> set cols. \<exists>p \<in> set fs. prehash_matches col (fst (fst p)) \<and> hashed_field H p x)"
proof (induction cols arbitrary: new)
  case (Cons col cols)
  then obtain new1 new2 where new: "prehash_fields H col fs = Some new1" "prehash_all H cols fs = Some new2"
      "new = new1 @ new2"
    by (auto split: option.splits)
  then show ?case
    using Cons.IH [OF new(2)] prehash_fields_in [OF new(1)] by simp
qed simp

lemma find_hashed_Some:
  "find_hashed col j fs = Some k \<Longrightarrow> j \<le> k \<and> k - j < length fs \<and> fst (fs ! (k - j)) = HashedColumnName col"
proof (induction col j fs rule: find_hashed.induct)
  case (2 col j f fs)
  then show ?case by (auto split: if_splits simp: nth_Cons' Suc_diff_le)
qed simp

lemma find_hashed_None: "find_hashed col j fs = None \<longleftrightarrow> HashedColumnName col \<notin> fst ` set fs"
  by (induction col j fs rule: find_hashed.induct) auto

text \<open>
  The names that a schema marks: those of the columns with \<open>PreHash\<close> set, and all that start with the name of a dynamic one.
\<close>

definition marked :: "Schema \<Rightarrow> string \<Rightarrow> bool" where
  "marked schema name \<longleftrightarrow>
     list_ex (\<lambda>col. cd_PreHash col \<and> (name = cd_Name col \<or> cd_Dynamic col \<and> take (length (cd_Name col)) name = cd_Name col))
       (sch_columns schema)"

lemma marked_matches: "marked schema name \<longleftrightarrow> (\<exists>col\<in>set (sch_columns schema). prehash_matches col name)"
proof -
  have "prefix p name \<longleftrightarrow> take (length p) name = p" for p :: string
    by (metis append_eq_conv_conj append_take_drop_id prefix_def)
  then show ?thesis by (auto simp: marked_def prehash_matches_def list_ex_iff)
qed

lemma prehash_fields_defined:
  "(\<exists>new. prehash_fields H col fs = Some new) \<longleftrightarrow>
     (\<forall>p \<in> set fs. prehash_matches col (fst (fst p)) \<longrightarrow> (\<exists>hs. HashArray H (snd p) = Some hs))"
  by (induction H col fs rule: prehash_fields.induct) (auto split: option.splits)

lemma prehash_all_defined:
  "(\<exists>new. prehash_all H cols fs = Some new) \<longleftrightarrow>
     (\<forall>p \<in> set fs. \<forall>col \<in> set cols. prehash_matches col (fst (fst p)) \<longrightarrow> (\<exists>hs. HashArray H (snd p) = Some hs))"
proof (induction cols)
  case (Cons col cols)
  have "(\<exists>new. prehash_all H (col # cols) fs = Some new) \<longleftrightarrow>
      (\<exists>new. prehash_fields H col fs = Some new) \<and> (\<exists>new. prehash_all H cols fs = Some new)"
    by (auto split: option.splits)
  then show ?case unfolding Cons.IH prehash_fields_defined by (simp add: ball_conj_distrib)
qed simp

lemma RemoveHashedColumns_undo:
  assumes "length (tr_fields r) = length (tr_columns r)" "list_all (\<lambda>f. \<not> IsHashedColumn (fst f)) (tr_fields r)"
    and "\<forall>x \<in> set new. IsHashedColumn (fst (fst x))"
  shows "RemoveHashedColumns (r\<lparr>tr_fields := tr_fields r @ map fst new, tr_columns := tr_columns r @ map snd new\<rparr>) = r"
proof -
  have "filter (\<lambda>(f, _). \<not> IsHashedColumn (fst f)) (zip (tr_fields r) (tr_columns r)) = zip (tr_fields r) (tr_columns r)"
    using assms(2) by (auto simp: filter_id_conv list_all_iff dest: set_zip_leftD)
  moreover have "filter (\<lambda>(f, _). \<not> IsHashedColumn (fst f)) new = []"
    using assms(3) by (auto simp: filter_empty_conv)
  ultimately show ?thesis
    using assms(1) by (simp add: RemoveHashedColumns_def zip_map_fst_snd)
qed

text \<open>The hash column of field \<open>k\<close>, when it is looked up by name in the record with the columns of hashes.\<close>

definition finds_hash :: "hashers \<Rightarrow> table_rec \<Rightarrow> table_rec \<Rightarrow> nat \<Rightarrow> bool \<Rightarrow> bool" where
  "finds_hash H r r' k is_marked \<longleftrightarrow>
     (case FindHashedColumn (fst (tr_fields r ! k)) (tr_fields r') of
        None \<Rightarrow> \<not> is_marked
      | Some j \<Rightarrow> is_marked \<and> (case HashArray H (tr_columns r ! k) of
            None \<Rightarrow> False
          | Some hs \<Rightarrow> column_DataType (tr_columns r' ! j) = T_Int64 \<and> column_cells (tr_columns r' ! j) = map (\<lambda>h. Some (C_Int (sint h))) hs))"

lemma prehashed_found:
  assumes "length (tr_fields r) = length (tr_columns r)" "list_all (\<lambda>f. \<not> IsHashedColumn (fst f)) (tr_fields r)"
    and "distinct (map fst (tr_fields r))" "k < length (tr_fields r)"
    and new: "prehash_all H (sch_columns schema) (zip (tr_fields r) (tr_columns r)) = Some new"
  shows "finds_hash H r (r\<lparr>tr_fields := tr_fields r @ map fst new, tr_columns := tr_columns r @ map snd new\<rparr>) k
    (marked schema (fst (tr_fields r ! k)))"
proof (cases "FindHashedColumn (fst (tr_fields r ! k)) (tr_fields r @ map fst new)")
  case None
  let ?p = "(tr_fields r ! k, tr_columns r ! k)"
  have p: "?p \<in> set (zip (tr_fields r) (tr_columns r))" using assms(1,4) by (auto simp: set_zip)
  have "\<not> prehash_matches col (fst (tr_fields r ! k))" if "col \<in> set (sch_columns schema)" for col
  proof
    assume m: "prehash_matches col (fst (tr_fields r ! k))"
    have "\<exists>hs. HashArray H (snd ?p) = Some hs"
      using iffD1 [OF prehash_all_defined exI [of _ new], OF new] p m that by (metis fst_conv)
    then obtain hs where hs: "HashArray H (tr_columns r ! k) = Some hs" by auto
    let ?x = "((HashedColumnName (fst (tr_fields r ! k)), T_Int64), hash_column hs)"
    have "?x \<in> set new" unfolding prehash_all_in [OF new]
    proof (intro bexI conjI)
      show "hashed_field H ?p ?x" using hs by (simp add: hashed_field_def)
      show "prehash_matches col (fst (fst ?p))" using m by simp
    qed (use that p in auto)
    then show False using None by (force simp: FindHashedColumn_def find_hashed_None)
  qed
  then show ?thesis using None by (auto simp: finds_hash_def marked_matches)
next
  case (Some j)
  then have j: "j < length (tr_fields r) + length new"
      "fst ((tr_fields r @ map fst new) ! j) = HashedColumnName (fst (tr_fields r ! k))"
    using find_hashed_Some [of "fst (tr_fields r ! k)" 0 "tr_fields r @ map fst new" j]
    by (simp_all add: FindHashedColumn_def)
  have "\<not> j < length (tr_fields r)"
    using j assms(2) IsHashedColumn_name by (auto simp: nth_append list_all_length)
  then obtain i where i: "j = length (tr_fields r) + i" "i < length new" using j(1) by (auto simp: not_less le_iff_add)
  then obtain col p where p: "col \<in> set (sch_columns schema)" "p \<in> set (zip (tr_fields r) (tr_columns r))"
      "prehash_matches col (fst (fst p))" "hashed_field H p (new ! i)"
    using prehash_all_in [OF new, of "new ! i"] by auto
  then obtain k' where k': "k' < length (tr_fields r)" "p = (tr_fields r ! k', tr_columns r ! k')"
    by (auto simp: set_zip)
  then have "fst (tr_fields r ! k') = fst (tr_fields r ! k)"
    using j(2) p(4) i by (simp add: hashed_field_def nth_append)
  then have "k' = k" using assms(3,4) k'(1) by (metis distinct_conv_nth length_map nth_map)
  moreover have "(tr_columns r @ map snd new) ! j = snd (new ! i)" using i assms(1) by (simp add: nth_append)
  ultimately show ?thesis using Some p k' by (auto simp: finds_hash_def marked_matches hashed_field_def hash_column_def column_cells_def split: option.splits)
qed

text \<open>C35: For a record without columns of hashes, whose marked columns have types that can be hashed,
  \<open>PrehashColumns\<close> adds columns that \<open>RemoveHashedColumns\<close> takes away again to give
  the record back, and \<open>FindHashedColumn\<close> finds for every marked column, and for no other
  one, the column of its hashes. A column is marked if the schema has a column with \<open>PreHash\<close> set of its name, or a dynamic one
  whose name it starts with.
\<close>

theorem prehash_roundtrip:
  assumes "rec_ok fs r" "distinct (map fst fs)" "list_all (\<lambda>f. \<not> IsHashedColumn (fst f)) fs"
    and "\<forall>k < length fs. marked schema (fst (fs ! k)) \<longrightarrow> HashArray H (tr_columns r ! k) \<noteq> None"
  shows "\<exists>r'. PrehashColumns H schema r = Some r' \<and> RemoveHashedColumns r' = r \<and>
    (\<forall>k < length fs. finds_hash H r r' k (marked schema (fst (fs ! k))))"
proof -
  have fs: "tr_fields r = fs" "length (tr_columns r) = length fs"
    using assms(1) rec_ok_length by (auto simp: rec_ok_def)
  obtain new where new: "prehash_all H (sch_columns schema) (zip (tr_fields r) (tr_columns r)) = Some new"
  proof -
    have "\<exists>hs. HashArray H (snd p) = Some hs"
      if p: "p \<in> set (zip (tr_fields r) (tr_columns r))" and col: "col \<in> set (sch_columns schema)" "prehash_matches col (fst (fst p))"
      for p col
    proof -
      obtain k where "k < length fs" "p = (fs ! k, tr_columns r ! k)" using p fs by (auto simp: set_zip)
      then show ?thesis using assms(4) col by (auto simp: marked_matches)
    qed
    then have "\<exists>new. prehash_all H (sch_columns schema) (zip (tr_fields r) (tr_columns r)) = Some new"
      unfolding prehash_all_defined by blast
    with that show thesis by blast
  qed
  let ?r = "r\<lparr>tr_fields := tr_fields r @ map fst new, tr_columns := tr_columns r @ map snd new\<rparr>"
  have "IsHashedColumn (fst (fst x))" if "x \<in> set new" for x
    using that unfolding prehash_all_in [OF new] by (auto simp: hashed_field_def)
  then have "RemoveHashedColumns ?r = r" using fs assms(3) by (intro RemoveHashedColumns_undo) auto
  moreover have "PrehashColumns H schema r = Some ?r" using new by (auto simp: PrehashColumns_def)
  ultimately show ?thesis using prehashed_found [OF _ _ _ _ new] fs assms(2,3) by auto
qed

text \<open>Numbers for strings, to run the examples.\<close>

fun toy_hash :: "string \<Rightarrow> uint64" where
  "toy_hash [] = 5381"
| "toy_hash (c # s) = toy_hash s * 33 + word_of_nat (of_char c)"

definition toy_hashers :: hashers where
  "toy_hashers = \<lparr>metro = toy_hash, xxhash = toy_hash\<rparr>"

definition hashed_schema :: Schema where
  "hashed_schema = newSchema (V1 ''s'' [] [] False)
     [\<lparr>cd_Name = ''labels'', cd_StorageLayout = P_Optional P_String, cd_Dynamic = True, cd_PreHash = True\<rparr>,
      \<lparr>cd_Name = ''v'', cd_StorageLayout = P_Int64, cd_Dynamic = False, cd_PreHash = False\<rparr>] [] False"

definition labelled_rec :: table_rec where
  "labelled_rec = \<lparr>tr_fields = [(''labels.a'', T_Binary), (''v'', T_Int64)],
     tr_columns = [Physical \<lparr>arr_type = T_Binary, arr_cells = [Some (C_Bytes ''x''), None]\<rparr>,
       Physical \<lparr>arr_type = T_Int64, arr_cells = [Some (C_Int 1), Some (C_Int 2)]\<rparr>],
     tr_rows = 2\<rparr>"

text \<open>The dynamic column is hashed, the other one is not marked.\<close>

theorem prehash_roundtrip_witness:
  "\<exists>r'. PrehashColumns toy_hashers hashed_schema labelled_rec = Some r' \<and> RemoveHashedColumns r' = labelled_rec \<and>
    finds_hash toy_hashers labelled_rec r' 0 True \<and> finds_hash toy_hashers labelled_rec r' 1 False"
proof -
  have "rec_ok (tr_fields labelled_rec) labelled_rec" "distinct (map fst (tr_fields labelled_rec))"
    "list_all (\<lambda>f. \<not> IsHashedColumn (fst f)) (tr_fields labelled_rec)" "length (tr_fields labelled_rec) = 2"
    "HashArray toy_hashers (tr_columns labelled_rec ! 0) \<noteq> None" "HashArray toy_hashers (tr_columns labelled_rec ! 1) \<noteq> None"
    "marked hashed_schema (fst (tr_fields labelled_rec ! 0))" "\<not> marked hashed_schema (fst (tr_fields labelled_rec ! 1))"
    by code_simp+
  then show ?thesis
    using prehash_roundtrip [of "tr_fields labelled_rec" labelled_rec hashed_schema toy_hashers]
    by (auto simp: less_2_cases_iff)
qed

text \<open>A column that only starts like a dynamic column is marked by it too.\<close>

lemma prefix_marks_other_columns: "marked hashed_schema ''labelset''"
  by code_simp

end
