(* ===== verification/Hash_Aggregate.thy ===== *)
theory Hash_Aggregate
  imports Column_Hash Logical_Plan
begin

text \<open>
  The hash aggregation (\<open>query/physicalplan/aggregate.go\<close>): rows are put into groups by a
  hash of their group by columns, the values to aggregate are collected in one builder per group
  and aggregation, and \<open>Finish\<close> runs the aggregation functions over them and passes one record
  per \<open>hashAggregate\<close> on. When a group by column has no room left, \<open>Callback\<close> starts another
  \<open>hashAggregate\<close>.

  A builder is the array it would make. Third-party code is the parameter \<open>agg_env\<close>: the
  hash functions, \<open>scalar.Hash\<close> of a field's name under the seed, and the sums of Arrow's
  \<open>math\<close> package and the comparison of floating point numbers. Where an array is read without looking at its
  validity (\<open>Int64Values\<close>), a null is the zero its builder stored. The next operator is taken to
  return no error. Arrays of floating point numbers have the type \<open>T_OtherType\<close>, the only one of its
  types that the aggregation functions know.
\<close>

section \<open>Hashes\<close>

definition hashCombine :: "uint64 \<Rightarrow> uint64 \<Rightarrow> uint64" where
  "hashCombine lhs rhs = xor lhs (rhs + 0x9e3779b9 + push_bit 6 lhs + drop_bit 2 lhs)"

datatype hashCombiner = uint64HashCombine uint64 | durationHashCombine uint64

text \<open>Dividing by a duration of zero milliseconds panics.\<close>

fun combiner_hash :: "hashCombiner \<Rightarrow> uint64 \<Rightarrow> uint64 option" where
  "combiner_hash (uint64HashCombine val) rhs = Some (hashCombine val rhs)"
| "combiner_hash (durationHashCombine milliseconds) rhs =
     (if milliseconds = 0 then None else Some (rhs div milliseconds))"

section \<open>State\<close>

record agg_env =
  ae_str :: "scalar \<Rightarrow> string"
  ae_regex :: "string \<Rightarrow> string \<Rightarrow> bool"
  ae_hashers :: hashers
  ae_field_hash :: "string \<Rightarrow> uint64"
  ae_sum_int64 :: "cell option list \<Rightarrow> int64"
  ae_sum_float64 :: "cell option list \<Rightarrow> 64 word"
  ae_float_less :: "64 word \<Rightarrow> 64 word \<Rightarrow> bool"

definition matches :: "agg_env \<Rightarrow> Expr \<Rightarrow> string \<Rightarrow> bool option" where
  "matches env e name = MatchColumn (ae_str env) (ae_regex env) e name"

record PAggregation =
  pa_expr :: Expr
  pa_dynamic :: bool
  pa_resultName :: string
  pa_function :: AggFunc
  pa_arrays :: "arrow_array list"

record hashAggregate =
  dynamicAggregations :: "PAggregation list"
  dynamicAggregationsConverted :: "string list"
  ha_aggregations :: "PAggregation list"
  concreteAggregations :: nat
  groupByCols :: "(string \<times> arrow_array) list"
  colOrdering :: "string list"
  rowCount :: nat

record HashAggregate =
  groupByColumnMatchers :: "Expr list"
  finalStage :: bool
  hashToAggregate :: "(uint64 \<times> nat \<times> nat) list"
  aggregates :: "hashAggregate list"

datatype agg_error = AE_Panic | AE_FunctionNotFound | AE_ColumnNotFound | AE_OrderedMultiple nat
  | AE_FieldNotFound | AE_Builder builder_error | AE_Rollback | AE_UnknownField string
  | AE_UnsupportedFunction AggFunc | ErrUnsupportedSumType | ErrUnsupportedMinType | ErrUnsupportedMaxType

text \<open>The operator panics or goes on.\<close>

definition or_panic :: "'a option \<Rightarrow> (agg_error, 'a) result" where
  "or_panic x = (case x of None \<Rightarrow> Inl AE_Panic | Some y \<Rightarrow> Inr y)"

section \<open>Planning\<close>

text \<open>The visitor that looks for the function and the column of an aggregation expression.\<close>

fun see_aggregation :: "Expr \<Rightarrow> AggFunc option \<times> Expr option \<times> bool \<Rightarrow> bool \<times> (AggFunc option \<times> Expr option \<times> bool)" where
  "see_aggregation (AggregationFunction f e) (fn, col, dyn) = (True, (Some f, col, dyn))"
| "see_aggregation (Column c) (fn, col, dyn) = (True, (fn, Some (Column c), dyn))"
| "see_aggregation (DynamicColumn c) (fn, col, dyn) = (True, (fn, Some (DynamicColumn c), True))"
| "see_aggregation _ s = (True, s)"

definition plan_aggregation :: "agg_env \<Rightarrow> Expr \<Rightarrow> (agg_error, PAggregation) result" where
  "plan_aggregation env expr =
     (case snd (Accept (PreExprVisitorFunc see_aggregation) expr (None, None, False)) of
        (None, _, _) \<Rightarrow> Inl AE_FunctionNotFound
      | (Some f, None, _) \<Rightarrow> Inl AE_ColumnNotFound
      | (Some f, Some col, dyn) \<Rightarrow>
          bind_result (or_panic (Name (ae_str env) expr)) (\<lambda>name.
            Inr \<lparr>pa_expr = col, pa_dynamic = dyn, pa_resultName = name, pa_function = f, pa_arrays = []\<rparr>))"

fun plan_aggregations :: "agg_env \<Rightarrow> Expr list \<Rightarrow> (agg_error, PAggregation list) result" where
  "plan_aggregations env [] = Inr []"
| "plan_aggregations env (e # es) =
     bind_result (plan_aggregation env e) (\<lambda>a. bind_result (plan_aggregations env es) (\<lambda>as. Inr (a # as)))"

definition NewHashAggregate :: "PAggregation list \<Rightarrow> Expr list \<Rightarrow> bool \<Rightarrow> HashAggregate" where
  "NewHashAggregate aggregations matchers final =
     \<lparr>groupByColumnMatchers = matchers, finalStage = final, hashToAggregate = [],
      aggregates = [\<lparr>dynamicAggregations = filter pa_dynamic aggregations,
        dynamicAggregationsConverted = [],
        ha_aggregations = filter (\<lambda>a. \<not> pa_dynamic a) aggregations,
        concreteAggregations = length (filter (\<lambda>a. \<not> pa_dynamic a) aggregations),
        groupByCols = [], colOrdering = [], rowCount = 0\<rparr>]\<rparr>"

text \<open>The operator that \<open>Aggregate\<close> plans: an ordered aggregation of one function, or a hash aggregation.\<close>

datatype agg_plan = Plan_Ordered PAggregation "Expr list" bool | Plan_Hash HashAggregate

definition Aggregate :: "agg_env \<Rightarrow> Aggregation \<Rightarrow> bool \<Rightarrow> bool \<Rightarrow> (agg_error, agg_plan) result" where
  "Aggregate env agg final ordered =
     bind_result (plan_aggregations env (ag_AggExprs agg)) (\<lambda>aggregations.
       if ordered
       then if 1 < length aggregations then Inl (AE_OrderedMultiple (length aggregations))
            else case aggregations of
                   [] \<Rightarrow> Inl AE_Panic
                 | a # _ \<Rightarrow> Inr (Plan_Ordered a (ag_GroupExprs agg) final)
       else Inr (Plan_Hash (NewHashAggregate aggregations (ag_GroupExprs agg) final)))"

section \<open>Looking at the fields of a record\<close>

text \<open>\<open>duration.Milliseconds()\<close> rounds the nanoseconds towards zero.\<close>

definition duration_ms :: "int \<Rightarrow> uint64" where
  "duration_ms d = word_of_int (sgn d * (\<bar>d\<bar> div 1000000))"

definition field_combiner :: "agg_env \<Rightarrow> bool \<Rightarrow> Expr \<Rightarrow> string \<Rightarrow> hashCombiner" where
  "field_combiner env final matcher name =
     (if final then uint64HashCombine (ae_field_hash env name)
      else case matcher of
             DurationExpr d \<Rightarrow> durationHashCombine (duration_ms d)
           | _ \<Rightarrow> uint64HashCombine (ae_field_hash env name))"

type_synonym group_col = "(string \<times> arrow_type) \<times> column \<times> hashCombiner"

fun match_groups :: "agg_env \<Rightarrow> bool \<Rightarrow> Expr list \<Rightarrow> string \<times> arrow_type \<Rightarrow> column \<Rightarrow> group_col list option" where
  "match_groups env final [] f c = Some []"
| "match_groups env final (m # ms) f c =
     (case matches env m (fst f) of
        None \<Rightarrow> None
      | Some True \<Rightarrow> map_option (Cons (f, c, field_combiner env final m (fst f))) (match_groups env final ms f c)
      | Some False \<Rightarrow> match_groups env final ms f c)"

fun resultNameWithConcreteColumn :: "AggFunc \<Rightarrow> string \<Rightarrow> string" where
  "resultNameWithConcreteColumn AggFuncSum col = ''sum('' @ col @ '')''"
| "resultNameWithConcreteColumn AggFuncMin col = ''min('' @ col @ '')''"
| "resultNameWithConcreteColumn AggFuncMax col = ''max('' @ col @ '')''"
| "resultNameWithConcreteColumn AggFuncCount col = ''count('' @ col @ '')''"
| "resultNameWithConcreteColumn AggFuncAvg col = ''avg('' @ col @ '')''"
| "resultNameWithConcreteColumn AggFuncUnknown col = []"

text \<open>The concrete aggregations that the dynamic ones stand for on this column.\<close>

fun convert_dynamic :: "agg_env \<Rightarrow> bool \<Rightarrow> PAggregation list \<Rightarrow> string \<Rightarrow> PAggregation list option" where
  "convert_dynamic env final [] name = Some []"
| "convert_dynamic env final (a # as) name =
     (case matches env (pa_expr a) name of
        None \<Rightarrow> None
      | Some True \<Rightarrow> map_option (Cons
          \<lparr>pa_expr = Column name, pa_dynamic = True,
           pa_resultName = (if final then resultNameWithConcreteColumn (pa_function a) name else name),
           pa_function = pa_function a, pa_arrays = []\<rparr>) (convert_dynamic env final as name)
      | Some False \<Rightarrow> convert_dynamic env final as name)"

definition aggregates_field :: "agg_env \<Rightarrow> bool \<Rightarrow> PAggregation \<Rightarrow> string \<Rightarrow> bool option" where
  "aggregates_field env final a name =
     (if final
      then if pa_resultName a = name then Some True
           else if pa_dynamic a then matches env (pa_expr a) name else Some False
      else matches env (pa_expr a) name)"

text \<open>The columns to aggregate, with the numbers of concrete and dynamic fields found so far.\<close>

fun assign_column :: "agg_env \<Rightarrow> bool \<Rightarrow> string \<Rightarrow> column \<Rightarrow> PAggregation list \<Rightarrow> column option list \<times> nat \<times> nat \<Rightarrow> (column option list \<times> nat \<times> nat) option" where
  "assign_column env final name c [] (cols, concrete, dyn) = Some (cols, concrete, dyn)"
| "assign_column env final name c (a # as) (cols, concrete, dyn) =
     (case cols of
        [] \<Rightarrow> None
      | col # cols' \<Rightarrow>
          (case aggregates_field env final a name of
             None \<Rightarrow> None
           | Some found \<Rightarrow>
               (case assign_column env final name c as
                       (cols', if found \<and> \<not> pa_dynamic a then Suc concrete else concrete,
                        if found \<and> pa_dynamic a then Suc dyn else dyn) of
                  None \<Rightarrow> None
                | Some (cols'', concrete', dyn') \<Rightarrow>
                    Some ((if found then Some c else col) # cols'', concrete', dyn'))))"

record field_scan =
  fs_groups :: "group_col list"
  fs_aggregate :: hashAggregate
  fs_columns :: "column option list"
  fs_concrete :: nat
  fs_dynamic :: nat

definition scan_field :: "agg_env \<Rightarrow> bool \<Rightarrow> Expr list \<Rightarrow> (string \<times> arrow_type) \<times> column \<Rightarrow> field_scan \<Rightarrow> field_scan option" where
  "scan_field env final matchers fc s =
     (case fc of (f, c) \<Rightarrow>
     (case match_groups env final matchers f c of
        None \<Rightarrow> None
      | Some groups \<Rightarrow>
     (let ag = fs_aggregate s
      in case (if fst f \<in> set (dynamicAggregationsConverted ag) then Some []
               else convert_dynamic env final (dynamicAggregations ag) (fst f)) of
           None \<Rightarrow> None
         | Some new \<Rightarrow>
     (let ag' = ag\<lparr>ha_aggregations := ha_aggregations ag @ new,
                   dynamicAggregationsConverted := dynamicAggregationsConverted ag @ (if new = [] then [] else [fst f])\<rparr>
      in case assign_column env final (fst f) c (ha_aggregations ag')
                (fs_columns s @ replicate (length new) None, fs_concrete s, fs_dynamic s) of
           None \<Rightarrow> None
         | Some (cols, concrete, dyn) \<Rightarrow>
             Some \<lparr>fs_groups = fs_groups s @ groups, fs_aggregate = ag', fs_columns = cols,
                   fs_concrete = concrete, fs_dynamic = dyn\<rparr>))))"

fun scan_fields :: "agg_env \<Rightarrow> bool \<Rightarrow> Expr list \<Rightarrow> ((string \<times> arrow_type) \<times> column) list \<Rightarrow> field_scan \<Rightarrow> field_scan option" where
  "scan_fields env final matchers [] s = Some s"
| "scan_fields env final matchers (fc # fcs) s =
     (case scan_field env final matchers fc s of
        None \<Rightarrow> None
      | Some s' \<Rightarrow> scan_fields env final matchers fcs s')"

text \<open>
  The hashes of one group by column: those of its hash column, read as they are stored, or those
  of its own values.
\<close>

fun read_hashes :: "column \<Rightarrow> uint64 list option" where
  "read_hashes (Physical a) =
     (if arr_type a = T_Int64
      then Some (map (\<lambda>x. case x of Some (C_Int v) \<Rightarrow> word_of_int v | _ \<Rightarrow> 0) (arr_cells a))
      else None)"
| "read_hashes (VirtualNullArray _ _) = None"

definition column_hashes :: "agg_env \<Rightarrow> table_rec \<Rightarrow> string \<Rightarrow> column \<Rightarrow> uint64 list option" where
  "column_hashes env r name c =
     (case FindHashedColumn name (tr_fields r) of
        Some k \<Rightarrow> if k < length (tr_columns r) then read_hashes (tr_columns r ! k) else None
      | None \<Rightarrow> HashArray (ae_hashers env) c)"

text \<open>The hash of a row, over the group by columns with their hashes; a hash of 0 is skipped.\<close>

fun hash_row :: "(hashCombiner \<times> uint64 list) list \<Rightarrow> nat \<Rightarrow> uint64 \<Rightarrow> uint64 option" where
  "hash_row [] i hash = Some hash"
| "hash_row ((cmb, hs) # cols) i hash =
     (if length hs \<le> i then None
      else if hs ! i = 0 then hash_row cols i hash
      else case combiner_hash cmb (hs ! i) of
             None \<Rightarrow> None
           | Some h \<Rightarrow> hash_row cols i (hashCombine hash h))"

section \<open>Builders\<close>

definition new_builder :: "arrow_type \<Rightarrow> arrow_array" where
  "new_builder dt = \<lparr>arr_type = dt, arr_cells = []\<rparr>"

definition append_value :: "arrow_array \<Rightarrow> column \<Rightarrow> nat \<Rightarrow> (agg_error, arrow_array) result" where
  "append_value b c i =
     (case AppendValue (NewBuilder (arr_type b)) c i (arr_cells b) of
        Inl e \<Rightarrow> Inl (AE_Builder e)
      | Inr cells \<Rightarrow> Inr (b\<lparr>arr_cells := cells\<rparr>))"

text \<open>\<open>AppendNull\<close> until the builder has \<open>n\<close> values.\<close>

definition backfill :: "nat \<Rightarrow> arrow_array \<Rightarrow> arrow_array" where
  "backfill n b = b\<lparr>arr_cells := arr_cells b @ replicate (n - length (arr_cells b)) None\<rparr>"

text \<open>\<open>RollbackPrevious\<close> shortens a builder by one value; lists and floating point numbers are not supported.\<close>

definition RollbackPrevious :: "arrow_array \<Rightarrow> (agg_error, arrow_array) result" where
  "RollbackPrevious b =
     (if NewBuilder (arr_type b) \<in> {ListBuilder, OtherDictionaryBuilder, OtherBuilder} then Inl AE_Rollback
      else Inr (b\<lparr>arr_cells := butlast (arr_cells b)\<rparr>))"

fun rollback_cols :: "string list \<Rightarrow> (string \<times> arrow_array) list \<Rightarrow> (string \<times> arrow_array) list \<times> agg_error option" where
  "rollback_cols [] cols = (cols, None)"
| "rollback_cols (name # names) cols =
     (case map_of cols name of
        None \<Rightarrow> (cols, Some AE_Rollback)
      | Some b \<Rightarrow>
          (case RollbackPrevious b of
             Inl e \<Rightarrow> (cols, Some e)
           | Inr b' \<Rightarrow> rollback_cols names (AList.update name b' cols)))"

section \<open>Groups\<close>

text \<open>
  The loop of \<open>updateGroupByCols\<close>: \<open>appended\<close> are the names of the columns it has
  appended to, \<open>n\<close> is the index of the new group. The result keeps what happened before an error.
\<close>

fun update_cols :: "nat \<Rightarrow> nat \<Rightarrow> string list \<Rightarrow> group_col list \<Rightarrow> hashAggregate \<Rightarrow> hashAggregate \<times> agg_error option" where
  "update_cols row n appended [] ag = (ag, None)"
| "update_cols row n appended ((f, c, cmb) # gs) ag =
     (let found = map_of (groupByCols ag) (fst f);
          b = backfill n (case found of None \<Rightarrow> new_builder (snd f) | Some b \<Rightarrow> b);
          ag1 = ag\<lparr>groupByCols := AList.update (fst f) b (groupByCols ag),
                   colOrdering := colOrdering ag @ (if found = None then [fst f] else [])\<rparr>
      in case append_value b c row of
           Inl e \<Rightarrow>
             (case rollback_cols appended (groupByCols ag1) of
                (cols, None) \<Rightarrow> (ag1\<lparr>groupByCols := cols\<rparr>, Some e)
              | (cols, Some e') \<Rightarrow> (ag1\<lparr>groupByCols := cols\<rparr>, Some e'))
         | Inr b' \<Rightarrow>
             update_cols row n (appended @ [fst f]) gs (ag1\<lparr>groupByCols := AList.update (fst f) b' (groupByCols ag1)\<rparr>))"

definition updateGroupByCols :: "nat \<Rightarrow> group_col list \<Rightarrow> hashAggregate \<Rightarrow> hashAggregate \<times> agg_error option" where
  "updateGroupByCols row gs ag =
     (case ha_aggregations ag of
        [] \<Rightarrow> if gs = [] then (ag, None) else (ag, Some AE_Panic)
      | a # _ \<Rightarrow> update_cols row (length (pa_arrays a) - 1) [] gs ag)"

text \<open>A new builder for every column to aggregate; a column that is missing has no type to ask for.\<close>

fun add_builders :: "column option list \<Rightarrow> PAggregation list \<Rightarrow> PAggregation list option" where
  "add_builders [] as = Some as"
| "add_builders (None # cols) as = None"
| "add_builders (Some c # cols) [] = None"
| "add_builders (Some c # cols) (a # as) =
     map_option (Cons (a\<lparr>pa_arrays := pa_arrays a @ [new_builder (column_DataType c)]\<rparr>)) (add_builders cols as)"

definition set_last :: "'a list \<Rightarrow> 'a \<Rightarrow> 'a list" where
  "set_last xs x = xs[length xs - 1 := x]"

text \<open>The new group in the current aggregate, and its place.\<close>

definition open_group :: "uint64 \<Rightarrow> column option list \<Rightarrow> HashAggregate \<Rightarrow> (agg_error, (nat \<times> nat) \<times> HashAggregate) result" where
  "open_group hash cols a =
     (let ag = last (aggregates a)
      in bind_result (or_panic (add_builders cols (ha_aggregations ag))) (\<lambda>as.
           case as of
             [] \<Rightarrow> Inl AE_Panic
           | a0 # _ \<Rightarrow>
               let tuple = (length (aggregates a) - 1, length (pa_arrays a0) - 1)
               in Inr (tuple, a\<lparr>hashToAggregate := AList.update hash tuple (hashToAggregate a),
                        aggregates := set_last (aggregates a) (ag\<lparr>ha_aggregations := as, rowCount := rowCount ag + 1\<rparr>)\<rparr>)))"

definition drop_builders :: "column option list \<Rightarrow> PAggregation list \<Rightarrow> PAggregation list" where
  "drop_builders cols as =
     map (\<lambda>a. a\<lparr>pa_arrays := butlast (pa_arrays a)\<rparr>) (take (length cols) as) @ drop (length cols) as"

definition fresh_aggregate :: "hashAggregate \<Rightarrow> hashAggregate" where
  "fresh_aggregate ag0 =
     \<lparr>dynamicAggregations = [], dynamicAggregationsConverted = [],
      ha_aggregations = map (\<lambda>a. a\<lparr>pa_dynamic := False, pa_arrays := []\<rparr>) (ha_aggregations ag0),
      concreteAggregations = 0, groupByCols = [], colOrdering = [], rowCount = 0\<rparr>"

text \<open>
  A row of a group that is not there yet. When a group by column is full, the group is taken back
  and put into a new aggregate.
\<close>

definition insert_group :: "nat \<Rightarrow> group_col list \<Rightarrow> column option list \<Rightarrow> uint64 \<Rightarrow> HashAggregate \<Rightarrow> (agg_error, (nat \<times> nat) \<times> HashAggregate) result" where
  "insert_group row gs cols hash a =
     bind_result (open_group hash cols a) (\<lambda>(tuple, a1).
       case updateGroupByCols row gs (last (aggregates a1)) of
         (ag, None) \<Rightarrow> Inr (tuple, a1\<lparr>aggregates := set_last (aggregates a1) ag\<rparr>)
       | (ag, Some e) \<Rightarrow>
           if e \<noteq> AE_Builder ErrMaxSizeReached then Inl e
           else
             let ag' = ag\<lparr>rowCount := rowCount ag - 1, ha_aggregations := drop_builders cols (ha_aggregations ag)\<rparr>;
                 ags = set_last (aggregates a1) ag';
                 a2 = a1\<lparr>aggregates := ags @ [fresh_aggregate (hd ags)]\<rparr>
             in bind_result (open_group hash cols a2) (\<lambda>(tuple', a3).
                  case updateGroupByCols row gs (last (aggregates a3)) of
                    (ag3, None) \<Rightarrow> Inr (tuple', a3\<lparr>aggregates := set_last (aggregates a3) ag3\<rparr>)
                  | (ag3, Some e3) \<Rightarrow> Inl e3))"

text \<open>The values of the row are appended to the builders of its group.\<close>

definition upd_aggregation :: "nat \<Rightarrow> (PAggregation \<Rightarrow> PAggregation) \<Rightarrow> hashAggregate \<Rightarrow> hashAggregate" where
  "upd_aggregation j f ag = ag\<lparr>ha_aggregations := (ha_aggregations ag)[j := f (ha_aggregations ag ! j)]\<rparr>"

fun append_group_values :: "nat \<Rightarrow> nat \<times> nat \<Rightarrow> nat \<Rightarrow> column option list \<Rightarrow> HashAggregate \<Rightarrow> (agg_error, HashAggregate) result" where
  "append_group_values row tuple j [] a = Inr a"
| "append_group_values row tuple j (None # cols) a = append_group_values row tuple (Suc j) cols a"
| "append_group_values row tuple j (Some c # cols) a =
     (if length (aggregates a) \<le> fst tuple \<or> length (ha_aggregations (aggregates a ! fst tuple)) \<le> j
        \<or> pa_arrays (ha_aggregations (aggregates a ! fst tuple) ! j) = [] \<and> length (ha_aggregations (last (aggregates a))) \<le> j
      then Inl AE_Panic
      else
        let a1 = (if pa_arrays (ha_aggregations (aggregates a ! fst tuple) ! j) = []
                  then a\<lparr>aggregates := set_last (aggregates a)
                         (upd_aggregation j (\<lambda>x. x\<lparr>pa_arrays := pa_arrays x @ [new_builder (column_DataType c)]\<rparr>) (last (aggregates a)))\<rparr>
                  else a);
            arrays = pa_arrays (ha_aggregations (aggregates a1 ! fst tuple) ! j)
        in if length arrays \<le> snd tuple then Inl AE_Panic
           else bind_result (append_value (arrays ! snd tuple) c row) (\<lambda>b.
                  append_group_values row tuple (Suc j) cols
                    (a1\<lparr>aggregates := (aggregates a1)[fst tuple :=
                       upd_aggregation j (\<lambda>x. x\<lparr>pa_arrays := arrays[snd tuple := b]\<rparr>) (aggregates a1 ! fst tuple)]\<rparr>)))"

definition aggregate_row :: "(hashCombiner \<times> uint64 list) list \<Rightarrow> group_col list \<Rightarrow> column option list \<Rightarrow> nat \<Rightarrow> HashAggregate \<Rightarrow> (agg_error, HashAggregate) result" where
  "aggregate_row hcols gs cols i a =
     bind_result (or_panic (hash_row hcols i 0)) (\<lambda>hash.
     bind_result (case map_of (hashToAggregate a) hash of
                    Some tuple \<Rightarrow> Inr (tuple, a)
                  | None \<Rightarrow> insert_group i gs cols hash a) (\<lambda>(tuple, a').
       append_group_values i tuple 0 cols a'))"

fun aggregate_rows :: "(hashCombiner \<times> uint64 list) list \<Rightarrow> group_col list \<Rightarrow> column option list \<Rightarrow> nat list \<Rightarrow> HashAggregate \<Rightarrow> (agg_error, HashAggregate) result" where
  "aggregate_rows hcols gs cols [] a = Inr a"
| "aggregate_rows hcols gs cols (i # is) a =
     bind_result (aggregate_row hcols gs cols i a) (aggregate_rows hcols gs cols is)"

definition agg_Callback :: "agg_env \<Rightarrow> table_rec \<Rightarrow> HashAggregate \<Rightarrow> (agg_error, HashAggregate) result" where
  "agg_Callback env r a =
     (let ag = last (aggregates a);
          s0 = \<lparr>fs_groups = [], fs_aggregate = ag, fs_columns = replicate (length (ha_aggregations ag)) None,
                fs_concrete = 0, fs_dynamic = 0\<rparr>
      in bind_result (or_panic (scan_fields env (finalStage a) (groupByColumnMatchers a) (zip (tr_fields r) (tr_columns r)) s0)) (\<lambda>s.
           let ag' = fs_aggregate s
           in if fs_concrete s \<noteq> concreteAggregations ag' \<or> (dynamicAggregations ag' \<noteq> [] \<and> fs_dynamic s = 0)
              then Inl AE_FieldNotFound
              else bind_result (or_panic (those (map (\<lambda>(f, c, cmb). map_option (Pair cmb) (column_hashes env r (fst f) c)) (fs_groups s)))) (\<lambda>hcols.
                     aggregate_rows hcols (fs_groups s) (fs_columns s) [0..<tr_rows r]
                       (a\<lparr>aggregates := set_last (aggregates a) ag'\<rparr>))))"

section \<open>Aggregation functions\<close>

definition int64_array :: "cell option list \<Rightarrow> arrow_array" where
  "int64_array cells = \<lparr>arr_type = T_Int64, arr_cells = cells\<rparr>"

definition float64_array :: "cell option list \<Rightarrow> arrow_array" where
  "float64_array cells = \<lparr>arr_type = T_OtherType, arr_cells = cells\<rparr>"

text \<open>The raw values of an array: nulls are zero.\<close>

definition Int64Values :: "cell option list \<Rightarrow> int list" where
  "Int64Values cells = map (\<lambda>x. case x of Some (C_Int v) \<Rightarrow> v | _ \<Rightarrow> 0) cells"

definition Float64Values :: "cell option list \<Rightarrow> 64 word list" where
  "Float64Values cells = map (\<lambda>x. case x of Some (C_Float v) \<Rightarrow> v | _ \<Rightarrow> 0) cells"

definition SumAggregation :: "agg_env \<Rightarrow> arrow_array list \<Rightarrow> (agg_error, arrow_array) result" where
  "SumAggregation env arrs =
     (case arrs of
        [] \<Rightarrow> Inr (int64_array [])
      | arr # _ \<Rightarrow>
          if arr_type arr = T_Int64
          then Inr (int64_array (map (\<lambda>a. Some (C_Int (sint (ae_sum_int64 env (arr_cells a))))) arrs))
          else if arr_type arr = T_OtherType
          then Inr (float64_array (map (\<lambda>a. Some (C_Float (ae_sum_float64 env (arr_cells a)))) arrs))
          else Inl ErrUnsupportedSumType)"

text \<open>The loops over the values keep the first one that is better than all before it.\<close>

definition best :: "('a \<Rightarrow> 'a \<Rightarrow> bool) \<Rightarrow> 'a list \<Rightarrow> 'a" where
  "best better vals = fold (\<lambda>v m. if better v m then v else m) vals (hd vals)"

definition minInt64array :: "cell option list \<Rightarrow> int" where
  "minInt64array cells = best (<) (Int64Values cells)"

definition maxInt64array :: "cell option list \<Rightarrow> int" where
  "maxInt64array cells = best (>) (Int64Values cells)"

definition minFloat64array :: "agg_env \<Rightarrow> cell option list \<Rightarrow> 64 word" where
  "minFloat64array env cells = best (ae_float_less env) (Float64Values cells)"

definition maxFloat64array :: "agg_env \<Rightarrow> cell option list \<Rightarrow> 64 word" where
  "maxFloat64array env cells = best (\<lambda>x y. ae_float_less env y x) (Float64Values cells)"

text \<open>An array without values gives a null.\<close>

definition or_null :: "(cell option list \<Rightarrow> cell) \<Rightarrow> arrow_array \<Rightarrow> cell option" where
  "or_null f a = (if arr_cells a = [] then None else Some (f (arr_cells a)))"

definition MinAggregation :: "agg_env \<Rightarrow> arrow_array list \<Rightarrow> (agg_error, arrow_array) result" where
  "MinAggregation env arrs =
     (case arrs of
        [] \<Rightarrow> Inr (int64_array [])
      | arr # _ \<Rightarrow>
          if arr_type arr = T_Int64 then Inr (int64_array (map (or_null (\<lambda>xs. C_Int (minInt64array xs))) arrs))
          else if arr_type arr = T_OtherType then Inr (float64_array (map (or_null (\<lambda>xs. C_Float (minFloat64array env xs))) arrs))
          else Inl ErrUnsupportedMinType)"

definition MaxAggregation :: "agg_env \<Rightarrow> arrow_array list \<Rightarrow> (agg_error, arrow_array) result" where
  "MaxAggregation env arrs =
     (case arrs of
        [] \<Rightarrow> Inr (int64_array [])
      | arr # _ \<Rightarrow>
          if arr_type arr = T_Int64 then Inr (int64_array (map (or_null (\<lambda>xs. C_Int (maxInt64array xs))) arrs))
          else if arr_type arr = T_OtherType then Inr (float64_array (map (or_null (\<lambda>xs. C_Float (maxFloat64array env xs))) arrs))
          else Inl ErrUnsupportedMaxType)"

definition CountAggregation :: "arrow_array list \<Rightarrow> (agg_error, arrow_array) result" where
  "CountAggregation arrs = Inr (int64_array (map (\<lambda>a. Some (C_Int (int (length (arr_cells a))))) arrs))"

fun chooseAggregationFunction :: "agg_env \<Rightarrow> AggFunc \<Rightarrow> (agg_error, arrow_array list \<Rightarrow> (agg_error, arrow_array) result) result" where
  "chooseAggregationFunction env AggFuncSum = Inr (SumAggregation env)"
| "chooseAggregationFunction env AggFuncMin = Inr (MinAggregation env)"
| "chooseAggregationFunction env AggFuncMax = Inr (MaxAggregation env)"
| "chooseAggregationFunction env AggFuncCount = Inr CountAggregation"
| "chooseAggregationFunction env f = Inl (AE_UnsupportedFunction f)"

text \<open>The final stage adds up the counts of the earlier stages.\<close>

definition runAggregation :: "agg_env \<Rightarrow> bool \<Rightarrow> AggFunc \<Rightarrow> arrow_array list \<Rightarrow> (agg_error, arrow_array) result" where
  "runAggregation env final f arrs =
     (if arrs = [] then Inr (int64_array [])
      else bind_result (chooseAggregationFunction env f) (\<lambda>aggFunc.
             if f = AggFuncCount \<and> final then SumAggregation env arrs else aggFunc arrs))"

section \<open>Finish\<close>

text \<open>\<open>array.NewRecord\<close> panics for a column with fewer values than the record has rows.\<close>

definition new_record :: "((string \<times> arrow_type) \<times> arrow_array) list \<Rightarrow> nat \<Rightarrow> (agg_error, table_rec) result" where
  "new_record cols n =
     (if list_all (\<lambda>(f, a). n \<le> length (arr_cells a) \<and> snd f = arr_type a) cols
      then Inr \<lparr>tr_fields = map fst cols, tr_columns = map (Physical \<circ> snd) cols, tr_rows = n\<rparr>
      else Inl AE_Panic)"

fun sorted_hashes :: "nat \<Rightarrow> (uint64 \<times> nat \<times> nat) list \<Rightarrow> int list \<Rightarrow> int list option" where
  "sorted_hashes aggIdx [] hs = Some hs"
| "sorted_hashes aggIdx ((hash, ai, k) # m) hs =
     (if ai \<noteq> aggIdx then sorted_hashes aggIdx m hs
      else if length hs \<le> k then None
      else sorted_hashes aggIdx m (hs[k := sint hash]))"

fun finish_groups :: "HashAggregate \<Rightarrow> nat \<Rightarrow> hashAggregate \<Rightarrow> string list \<Rightarrow> (agg_error, ((string \<times> arrow_type) \<times> arrow_array) list) result" where
  "finish_groups a aggIdx ag [] = Inr []"
| "finish_groups a aggIdx ag (name # names) =
     (if finalStage a \<and> IsHashedColumn name then finish_groups a aggIdx ag names
      else case map_of (groupByCols ag) name of
             None \<Rightarrow> Inl (AE_UnknownField name)
           | Some b \<Rightarrow>
               let arr = backfill (rowCount ag) b
               in bind_result
                    (if finalStage a then Inr []
                     else bind_result (or_panic (sorted_hashes aggIdx (hashToAggregate a) (replicate (length (arr_cells arr)) 0)))
                            (\<lambda>hs. Inr [((HashedColumnName name, T_Int64), int64_array (map (\<lambda>h. Some (C_Int h)) hs))]))
                    (\<lambda>hashed. bind_result (finish_groups a aggIdx ag names) (\<lambda>cols.
                       Inr (((name, arr_type arr), arr) # hashed @ cols))))"

fun finish_aggregations :: "agg_env \<Rightarrow> bool \<Rightarrow> PAggregation list \<Rightarrow> (agg_error, ((string \<times> arrow_type) \<times> arrow_array) list) result" where
  "finish_aggregations env final [] = Inr []"
| "finish_aggregations env final (p # ps) =
     bind_result (runAggregation env final (pa_function p) (pa_arrays p)) (\<lambda>arr.
     bind_result (finish_aggregations env final ps) (\<lambda>cols.
       Inr (((pa_resultName p, arr_type arr), arr) # cols)))"

definition finishAggregate :: "agg_env \<Rightarrow> HashAggregate \<Rightarrow> nat \<Rightarrow> hashAggregate \<Rightarrow> (agg_error, table_rec option) result" where
  "finishAggregate env a aggIdx ag =
     (if rowCount ag = 0 then Inr None
      else bind_result (finish_groups a aggIdx ag (colOrdering ag)) (\<lambda>groups.
           bind_result (finish_aggregations env (finalStage a) (ha_aggregations ag)) (\<lambda>aggs.
           bind_result (new_record (groups @ aggs) (rowCount ag)) (\<lambda>r. Inr (Some r)))))"

text \<open>The records that are passed to the next operator.\<close>

fun finish_all :: "agg_env \<Rightarrow> HashAggregate \<Rightarrow> nat \<Rightarrow> hashAggregate list \<Rightarrow> (agg_error, table_rec list) result" where
  "finish_all env a i [] = Inr []"
| "finish_all env a i (ag # ags) =
     bind_result (finishAggregate env a i ag) (\<lambda>r.
     bind_result (finish_all env a (Suc i) ags) (\<lambda>rs.
       Inr ((case r of None \<Rightarrow> [] | Some x \<Rightarrow> [x]) @ rs)))"

definition Finish :: "agg_env \<Rightarrow> HashAggregate \<Rightarrow> (agg_error, table_rec list) result" where
  "Finish env a = finish_all env a 0 (aggregates a)"

fun run_callbacks :: "agg_env \<Rightarrow> table_rec list \<Rightarrow> HashAggregate \<Rightarrow> (agg_error, HashAggregate) result" where
  "run_callbacks env [] a = Inr a"
| "run_callbacks env (r # rs) a = bind_result (agg_Callback env r a) (run_callbacks env rs)"

definition hash_aggregate :: "agg_env \<Rightarrow> HashAggregate \<Rightarrow> table_rec list \<Rightarrow> (agg_error, table_rec list) result" where
  "hash_aggregate env a rs = bind_result (run_callbacks env rs a) (Finish env)"

end
