(* ===== verification/Hash_Groups.thy ===== *)
theory Hash_Groups
  imports Hash_Aggregate
begin

text \<open>
  The hash aggregation computes groups: for aggregations of concrete columns, its output is the
  one of a reference that lists the hashes of all rows in the order of their first occurrence, takes the
  group by columns from the first row of each hash, and aggregates the values of all its rows.
\<close>

section \<open>First occurrences\<close>

definition firsts :: "'a list \<Rightarrow> 'a list" where
  "firsts xs = rev (remdups (rev xs))"

lemma firsts_Nil [simp]: "firsts [] = []"
  by (simp add: firsts_def)

lemma firsts_snoc: "firsts (xs @ [x]) = (if x \<in> set xs then firsts xs else firsts xs @ [x])"
  by (simp add: firsts_def)

lemma set_firsts [simp]: "set (firsts xs) = set xs"
  by (simp add: firsts_def)

lemma distinct_firsts [simp]: "distinct (firsts xs)"
  by (simp add: firsts_def)

lemma firsts_append: "firsts (xs @ ys) = firsts xs @ filter (\<lambda>y. y \<notin> set xs) (firsts ys)"
  by (induction ys rule: rev_induct) (auto simp: firsts_snoc simp flip: append_assoc)

lemma firsts_distinct: "distinct xs \<Longrightarrow> firsts xs = xs"
  by (simp add: firsts_def distinct_remdups_id)

section \<open>The reference\<close>

text \<open>What the aggregation needs to know of a row.\<close>

record agg_row =
  ar_hash :: uint64
  ar_keys :: "(string \<times> cell option) list"
  ar_vals :: "cell option list"

definition key_of :: "string \<Rightarrow> agg_row \<Rightarrow> cell option" where
  "key_of name row = (case map_of (ar_keys row) name of None \<Rightarrow> None | Some x \<Rightarrow> x)"

definition row_hashes :: "agg_row list \<Rightarrow> uint64 list" where
  "row_hashes rows = firsts (map ar_hash rows)"

definition rows_with :: "agg_row list \<Rightarrow> uint64 \<Rightarrow> agg_row list" where
  "rows_with rows h = filter (\<lambda>row. ar_hash row = h) rows"

definition leaders :: "agg_row list \<Rightarrow> agg_row list" where
  "leaders rows = map (\<lambda>h. hd (rows_with rows h)) (row_hashes rows)"

definition key_names :: "agg_row list \<Rightarrow> string list" where
  "key_names rows = firsts (concat (map (map fst \<circ> ar_keys) (leaders rows)))"

definition group_arrays :: "agg_row list \<Rightarrow> arrow_type \<Rightarrow> nat \<Rightarrow> arrow_array list" where
  "group_arrays rows ty j =
     map (\<lambda>h. \<lparr>arr_type = ty, arr_cells = map (\<lambda>row. ar_vals row ! j) (rows_with rows h)\<rparr>) (row_hashes rows)"

definition key_column :: "bool \<Rightarrow> agg_row list \<Rightarrow> (string \<Rightarrow> arrow_type) \<Rightarrow> string \<Rightarrow> ((string \<times> arrow_type) \<times> arrow_array) list" where
  "key_column final rows ty name =
     ((name, ty name), \<lparr>arr_type = ty name, arr_cells = map (key_of name) (leaders rows)\<rparr>) #
     (if final then []
      else [((HashedColumnName name, T_Int64), int64_array (map (\<lambda>h. Some (C_Int (sint h))) (row_hashes rows)))])"

text \<open>The aggregations of the columns \<open>0, 1, ...\<close>, the first error among them if there is one.\<close>

fun value_columns :: "agg_env \<Rightarrow> bool \<Rightarrow> agg_row list \<Rightarrow> nat \<Rightarrow> (PAggregation \<times> arrow_type) list \<Rightarrow> (agg_error, ((string \<times> arrow_type) \<times> arrow_array) list) result" where
  "value_columns env final rows j [] = Inr []"
| "value_columns env final rows j ((p, ty) # ps) =
     bind_result (runAggregation env final (pa_function p) (group_arrays rows ty j)) (\<lambda>arr.
     bind_result (value_columns env final rows (Suc j) ps) (\<lambda>cols.
       Inr (((pa_resultName p, arr_type arr), arr) # cols)))"

definition grouped :: "agg_env \<Rightarrow> bool \<Rightarrow> (PAggregation \<times> arrow_type) list \<Rightarrow> (string \<Rightarrow> arrow_type) \<Rightarrow> agg_row list \<Rightarrow> (agg_error, table_rec list) result" where
  "grouped env final ps ty rows =
     (if rows = [] then Inr []
      else bind_result (value_columns env final rows 0 ps) (\<lambda>vals.
        let cols = concat (map (key_column final rows ty) (filter (\<lambda>name. \<not> (final \<and> IsHashedColumn name)) (key_names rows))) @ vals
        in Inr [\<lparr>tr_fields = map fst cols, tr_columns = map (Physical \<circ> snd) cols, tr_rows = length (row_hashes rows)\<rparr>]))"

lemma rows_with_snoc: "rows_with (rows @ [x]) h = rows_with rows h @ (if ar_hash x = h then [x] else [])"
  by (simp add: rows_with_def)

lemma rows_with_nonempty: "h \<in> set (map ar_hash rows) \<longleftrightarrow> rows_with rows h \<noteq> []"
  by (auto simp: rows_with_def filter_empty_conv)

lemma row_hashes_snoc:
  "row_hashes (rows @ [x]) = (if ar_hash x \<in> set (row_hashes rows) then row_hashes rows else row_hashes rows @ [ar_hash x])"
  by (auto simp: row_hashes_def firsts_snoc)

lemma distinct_row_hashes [simp]: "distinct (row_hashes rows)"
  by (simp add: row_hashes_def)

lemma leaders_snoc:
  "leaders (rows @ [x]) = (if ar_hash x \<in> set (row_hashes rows) then leaders rows else leaders rows @ [x])"
proof -
  have old: "hd (rows_with (rows @ [x]) h) = hd (rows_with rows h)" if "h \<in> set (row_hashes rows)" for h
    using that rows_with_nonempty [of h rows] by (simp add: rows_with_snoc row_hashes_def)
  have new: "rows_with rows (ar_hash x) = []" if "ar_hash x \<notin> set (row_hashes rows)"
    using that rows_with_nonempty [of "ar_hash x" rows] by (simp add: row_hashes_def)
  show ?thesis
    using old new by (auto simp: leaders_def row_hashes_snoc rows_with_snoc [of rows x "ar_hash x"])
qed

lemma length_leaders [simp]: "length (leaders rows) = length (row_hashes rows)"
  by (simp add: leaders_def)

section \<open>The rows of a record\<close>

definition record_columns :: "table_rec \<Rightarrow> ((string \<times> arrow_type) \<times> column) list" where
  "record_columns r = zip (tr_fields r) (tr_columns r)"

definition field_groups :: "agg_env \<Rightarrow> bool \<Rightarrow> Expr list \<Rightarrow> (string \<times> arrow_type) \<times> column \<Rightarrow> group_col list" where
  "field_groups env final ms fc =
     map (\<lambda>m. (fst fc, snd fc, field_combiner env final m (fst (fst fc))))
       (filter (\<lambda>m. matches env m (fst (fst fc)) = Some True) ms)"

definition group_cols :: "agg_env \<Rightarrow> bool \<Rightarrow> Expr list \<Rightarrow> table_rec \<Rightarrow> group_col list" where
  "group_cols env final ms r = concat (map (field_groups env final ms) (record_columns r))"

definition value_fields :: "agg_env \<Rightarrow> bool \<Rightarrow> PAggregation \<Rightarrow> ((string \<times> arrow_type) \<times> column) list \<Rightarrow> ((string \<times> arrow_type) \<times> column) list" where
  "value_fields env final p fcs = filter (\<lambda>fc. aggregates_field env final p (fst (fst fc)) = Some True) fcs"

definition value_col :: "agg_env \<Rightarrow> bool \<Rightarrow> table_rec \<Rightarrow> PAggregation \<Rightarrow> column" where
  "value_col env final r p = snd (last (value_fields env final p (record_columns r)))"

definition hash_cols :: "agg_env \<Rightarrow> bool \<Rightarrow> Expr list \<Rightarrow> table_rec \<Rightarrow> (hashCombiner \<times> uint64 list) list option" where
  "hash_cols env final ms r =
     those (map (\<lambda>(f, c, cmb). map_option (Pair cmb) (column_hashes env r (fst f) c)) (group_cols env final ms r))"

definition row_hash :: "agg_env \<Rightarrow> bool \<Rightarrow> Expr list \<Rightarrow> table_rec \<Rightarrow> nat \<Rightarrow> uint64 option" where
  "row_hash env final ms r i = (case hash_cols env final ms r of None \<Rightarrow> None | Some hcols \<Rightarrow> hash_row hcols i 0)"

definition agg_row_of :: "agg_env \<Rightarrow> bool \<Rightarrow> Expr list \<Rightarrow> PAggregation list \<Rightarrow> table_rec \<Rightarrow> nat \<Rightarrow> agg_row" where
  "agg_row_of env final ms ps r i =
     \<lparr>ar_hash = the (row_hash env final ms r i),
      ar_keys = map (\<lambda>(f, c, cmb). (fst f, column_cells c ! i)) (group_cols env final ms r),
      ar_vals = map (\<lambda>p. column_cells (value_col env final r p) ! i) ps\<rparr>"

definition agg_rows :: "agg_env \<Rightarrow> bool \<Rightarrow> Expr list \<Rightarrow> PAggregation list \<Rightarrow> table_rec \<Rightarrow> agg_row list" where
  "agg_rows env final ms ps r = map (agg_row_of env final ms ps r) [0..<tr_rows r]"

text \<open>
  The records that can be aggregated: every field matches at most one group by expression,
  every aggregation has exactly one column, the types are those of the other records, and the
  group by columns can be hashed.
\<close>

definition agg_rec_ok :: "agg_env \<Rightarrow> bool \<Rightarrow> Expr list \<Rightarrow> (PAggregation \<times> arrow_type) list \<Rightarrow> (string \<Rightarrow> arrow_type) \<Rightarrow> table_rec \<Rightarrow> bool" where
  "agg_rec_ok env final ms ps ty r \<longleftrightarrow>
     rec_ok (tr_fields r) r \<and>
     list_all (\<lambda>f. list_all (\<lambda>m. matches env m (fst f) \<noteq> None) ms \<and>
       list_all (\<lambda>p. aggregates_field env final (fst p) (fst f) \<noteq> None) ps) (tr_fields r) \<and>
     distinct (map (\<lambda>g. fst (fst g)) (group_cols env final ms r)) \<and>
     list_all (\<lambda>g. snd (fst g) = ty (fst (fst g))) (group_cols env final ms r) \<and>
     list_all (\<lambda>p. length (value_fields env final (fst p) (record_columns r)) = 1 \<and>
       column_DataType (value_col env final r (fst p)) = snd p) ps \<and>
     hash_cols env final ms r \<noteq> None \<and>
     list_all (\<lambda>i. row_hash env final ms r i \<noteq> None) [0..<tr_rows r]"

section \<open>Scanning the fields\<close>

lemma match_groups_eq:
  "list_all (\<lambda>m. matches env m (fst f) \<noteq> None) ms \<Longrightarrow> match_groups env final ms f c = Some (field_groups env final ms (f, c))"
  by (induction env final ms f c rule: match_groups.induct) (auto simp: field_groups_def split: option.splits bool.splits)

lemma assign_column_eq:
  assumes "list_all (\<lambda>p. aggregates_field env final p name \<noteq> None \<and> \<not> pa_dynamic p) ps" "length cols = length ps"
  shows "assign_column env final name c ps (cols, concrete, dyn) =
    Some (map2 (\<lambda>p col. if aggregates_field env final p name = Some True then Some c else col) ps cols,
      concrete + length (filter (\<lambda>p. aggregates_field env final p name = Some True) ps), dyn)"
  using assms
proof (induction ps arbitrary: cols concrete)
  case (Cons p ps)
  obtain col cols' where cols: "cols = col # cols'" "length cols' = length ps" using Cons.prems by (cases cols) auto
  obtain b where "aggregates_field env final p name = Some b" using Cons.prems by auto
  then show ?case using Cons cols by (cases b) auto
qed simp

definition static_aggregate :: "PAggregation list \<Rightarrow> hashAggregate \<Rightarrow> bool" where
  "static_aggregate ps ag \<longleftrightarrow> dynamicAggregations ag = [] \<and>
     ps = map (\<lambda>p. p\<lparr>pa_arrays := []\<rparr>) (ha_aggregations ag) \<and> list_all (\<lambda>p. \<not> pa_dynamic p) ps"

lemma aggregates_field_cong [simp]: "aggregates_field env final (p\<lparr>pa_arrays := x\<rparr>) name = aggregates_field env final p name"
  by (simp add: aggregates_field_def)

lemma static_aggregate_fields:
  "static_aggregate ps ag \<Longrightarrow> list_all (\<lambda>p. aggregates_field env final p name \<noteq> None) ps \<Longrightarrow>
     list_all (\<lambda>p. aggregates_field env final p name \<noteq> None \<and> \<not> pa_dynamic p) (ha_aggregations ag)"
  by (clarsimp simp: static_aggregate_def list_all_length)

definition found_cols :: "agg_env \<Rightarrow> bool \<Rightarrow> ((string \<times> arrow_type) \<times> column) list \<Rightarrow> PAggregation list \<Rightarrow> column option list \<Rightarrow> column option list" where
  "found_cols env final fcs ps cols =
     map2 (\<lambda>p col. if value_fields env final p fcs = [] then col else Some (snd (last (value_fields env final p fcs)))) ps cols"

lemma map2_static:
  "static_aggregate ps ag \<Longrightarrow> (\<And>p x. f (p\<lparr>pa_arrays := x\<rparr>) = f p) \<Longrightarrow> map2 f (ha_aggregations ag) ys = map2 f ps ys"
  by (auto simp: static_aggregate_def zip_map1 comp_def split_def)

lemma scan_fields_static:
  assumes "static_aggregate ps (fs_aggregate s)" "length (fs_columns s) = length ps"
    and "\<forall>fc \<in> set fcs. list_all (\<lambda>m. matches env m (fst (fst fc)) \<noteq> None) ms \<and>
      list_all (\<lambda>p. aggregates_field env final p (fst (fst fc)) \<noteq> None) ps"
  shows "scan_fields env final ms fcs s = Some (s\<lparr>fs_groups := fs_groups s @ concat (map (field_groups env final ms) fcs),
    fs_columns := found_cols env final fcs ps (fs_columns s),
    fs_concrete := fs_concrete s + sum_list (map (\<lambda>p. length (value_fields env final p fcs)) ps)\<rparr>)"
  using assms
proof (induction fcs arbitrary: s)
  case Nil
  have "map2 (\<lambda>x y. y) ps (fs_columns s) = fs_columns s" using Nil.prems(2) by (auto intro!: nth_equalityI)
  then show ?case by (simp add: found_cols_def value_fields_def)
next
  case (Cons fc fcs)
  obtain f c where fc: "fc = (f, c)" by fastforce
  let ?found = "\<lambda>p. aggregates_field env final p (fst f) = Some True"
  let ?s = "s\<lparr>fs_groups := fs_groups s @ field_groups env final ms fc,
    fs_columns := map2 (\<lambda>p col. if ?found p then Some c else col) ps (fs_columns s),
    fs_concrete := fs_concrete s + length (filter ?found ps)\<rparr>"
  have len: "length (ha_aggregations (fs_aggregate s)) = length ps"
    using Cons.prems(1) by (auto simp: static_aggregate_def)
  have filt: "length (filter ?found (ha_aggregations (fs_aggregate s))) = length (filter ?found ps)"
    using Cons.prems(1) by (auto simp: static_aggregate_def filter_map comp_def)
  have "assign_column env final (fst f) c (ha_aggregations (fs_aggregate s)) (fs_columns s, fs_concrete s, fs_dynamic s) =
      Some (fs_columns ?s, fs_concrete ?s, fs_dynamic s)"
    using Cons.prems fc len filt map2_static [OF Cons.prems(1), of "\<lambda>p col. if ?found p then Some c else col" "fs_columns s"]
    by (subst assign_column_eq [OF static_aggregate_fields [OF Cons.prems(1)]]) simp_all
  moreover have "match_groups env final ms f c = Some (field_groups env final ms (f, c))"
    using Cons.prems fc by (intro match_groups_eq) simp
  moreover have "dynamicAggregations (fs_aggregate s) = []" using Cons.prems(1) by (simp add: static_aggregate_def)
  ultimately have step: "scan_field env final ms fc s = Some ?s"
    by (simp add: scan_field_def fc Let_def)
  have rest: "scan_fields env final ms fcs ?s = Some (?s\<lparr>fs_groups := fs_groups ?s @ concat (map (field_groups env final ms) fcs),
      fs_columns := found_cols env final fcs ps (fs_columns ?s),
      fs_concrete := fs_concrete ?s + sum_list (map (\<lambda>p. length (value_fields env final p fcs)) ps)\<rparr>)"
    using Cons.prems by (intro Cons.IH) auto
  have "found_cols env final fcs ps (fs_columns ?s) = found_cols env final (fc # fcs) ps (fs_columns s)"
    using Cons.prems(2) fc by (auto simp: found_cols_def value_fields_def intro!: nth_equalityI)
  moreover have "length (filter ?found ps) + sum_list (map (\<lambda>p. length (value_fields env final p fcs)) ps) =
      sum_list (map (\<lambda>p. length (value_fields env final p (fc # fcs))) ps)"
    using fc by (induction ps) (auto simp: value_fields_def)
  ultimately show ?case using step rest by (simp add: add.assoc)
qed

section \<open>Appending a row\<close>

lemma data_size_nulls [simp]: "data_size (replicate k None) = 0"
  by (induction k) (simp_all add: data_size_def)

lemma backfill_simps [simp]:
  "arr_type (backfill n b) = arr_type b"
  "data_size (arr_cells (backfill n b)) = data_size (arr_cells b)"
  by (simp_all add: backfill_def)

lemma append_value_ok:
  assumes "column_ok m (arr_type b) c" "i < m"
    and "arr_type b = T_Binary \<Longrightarrow> data_size (arr_cells b) + cell_bytes (column_cells c ! i) \<le> MaxInt32"
  shows "append_value b c i = Inr (b\<lparr>arr_cells := arr_cells b @ [column_cells c ! i]\<rparr>)"
  using AppendValue_ok [OF assms(1,2), of "arr_cells b"] assms(3) by (simp add: append_value_def)

definition builder_for :: "(string \<times> arrow_array) list \<Rightarrow> string \<times> arrow_type \<Rightarrow> arrow_array" where
  "builder_for cols f = (case map_of cols (fst f) of None \<Rightarrow> new_builder (snd f) | Some b \<Rightarrow> b)"

definition put_cell :: "nat \<Rightarrow> cell option \<Rightarrow> arrow_array \<Rightarrow> arrow_array" where
  "put_cell n x b = b\<lparr>arr_cells := arr_cells (backfill n b) @ [x]\<rparr>"

definition group_col_ok :: "nat \<Rightarrow> nat \<Rightarrow> (string \<times> arrow_array) list \<Rightarrow> group_col \<Rightarrow> bool" where
  "group_col_ok m row cols g \<longleftrightarrow>
     (case g of (f, c, cmb) \<Rightarrow> column_ok m (snd f) c \<and> arr_type (builder_for cols f) = snd f \<and>
        (snd f = T_Binary \<longrightarrow> data_size (arr_cells (builder_for cols f)) + cell_bytes (column_cells c ! row) \<le> MaxInt32))"

abbreviation col_name :: "group_col \<Rightarrow> string" where
  "col_name g \<equiv> fst (fst g)"

abbreviation col_cell :: "nat \<Rightarrow> group_col \<Rightarrow> cell option" where
  "col_cell row g \<equiv> column_cells (fst (snd g)) ! row"

lemma update_cols_ok:
  assumes "distinct (map col_name gs)" "\<forall>g \<in> set gs. group_col_ok m row (groupByCols ag) g" "row < m"
  shows "\<exists>cols. update_cols row n appended gs ag =
      (ag\<lparr>colOrdering := colOrdering ag @ filter (\<lambda>name. map_of (groupByCols ag) name = None) (map col_name gs),
          groupByCols := cols\<rparr>, None) \<and>
    (\<forall>g \<in> set gs. map_of cols (col_name g) = Some (put_cell n (col_cell row g) (builder_for (groupByCols ag) (fst g)))) \<and>
    (\<forall>name. name \<notin> set (map col_name gs) \<longrightarrow> map_of cols name = map_of (groupByCols ag) name)"
  using assms
proof (induction gs arbitrary: ag appended)
  case (Cons g gs)
  obtain f c cmb where g: "g = (f, c, cmb)" by (cases g) auto
  let ?b = "backfill n (builder_for (groupByCols ag) f)"
  let ?b' = "put_cell n (column_cells c ! row) (builder_for (groupByCols ag) f)"
  let ?ag = "ag\<lparr>colOrdering := colOrdering ag @ (if map_of (groupByCols ag) (fst f) = None then [fst f] else []),
    groupByCols := AList.update (fst f) ?b' (AList.update (fst f) ?b (groupByCols ag))\<rparr>"
  have ok: "group_col_ok m row (groupByCols ag) g" using Cons.prems(2) by simp
  have "append_value ?b c row = Inr ?b'"
    using ok Cons.prems(3) by (subst append_value_ok [of m]) (auto simp: group_col_ok_def g put_cell_def backfill_def)
  then have step: "update_cols row n appended (g # gs) ag = update_cols row n (appended @ [fst f]) gs ?ag"
    by (simp add: g Let_def builder_for_def)
  have lookup: "map_of (groupByCols ?ag) name = (if name = fst f then Some ?b' else map_of (groupByCols ag) name)" for name
    by (simp add: update_conv')
  have same: "builder_for (groupByCols ?ag) h = builder_for (groupByCols ag) h" if "fst h \<noteq> fst f" for h
    unfolding builder_for_def [of _ h] lookup using that by simp
  have other: "col_name g' \<noteq> fst f" if "g' \<in> set gs" for g' using that Cons.prems(1) g by force
  obtain cols where cols: "update_cols row n (appended @ [fst f]) gs ?ag =
      (?ag\<lparr>colOrdering := colOrdering ?ag @ filter (\<lambda>name. map_of (groupByCols ?ag) name = None) (map col_name gs),
          groupByCols := cols\<rparr>, None)"
    "\<forall>g \<in> set gs. map_of cols (col_name g) = Some (put_cell n (col_cell row g) (builder_for (groupByCols ?ag) (fst g)))"
    "\<forall>name. name \<notin> set (map col_name gs) \<longrightarrow> map_of cols name = map_of (groupByCols ?ag) name"
  proof -
    have "\<forall>g' \<in> set gs. group_col_ok m row (groupByCols ?ag) g'"
      using Cons.prems(2) same other by (auto simp: group_col_ok_def simp del: hashAggregate.simps)
    then show thesis using Cons.IH [of ?ag "appended @ [fst f]"] Cons.prems that by auto
  qed
  have filt: "filter (\<lambda>name. map_of (groupByCols ?ag) name = None) (map col_name gs) =
      filter (\<lambda>name. map_of (groupByCols ag) name = None) (map col_name gs)"
  proof (intro filter_cong refl)
    fix name assume "name \<in> set (map col_name gs)"
    then have "name \<noteq> fst f" using other by auto
    then show "(map_of (groupByCols ?ag) name = None) = (map_of (groupByCols ag) name = None)" unfolding lookup by simp
  qed
  show ?case
  proof (intro exI [of _ cols] conjI ballI allI impI)
    show "update_cols row n appended (g # gs) ag = (ag\<lparr>colOrdering := colOrdering ag @
        filter (\<lambda>name. map_of (groupByCols ag) name = None) (map col_name (g # gs)), groupByCols := cols\<rparr>, None)"
      unfolding step cols(1) filt by (simp add: g)
  next
    fix g' assume "g' \<in> set (g # gs)"
    then show "map_of cols (col_name g') = Some (put_cell n (col_cell row g') (builder_for (groupByCols ag) (fst g')))"
    proof (cases "g' = g")
      case True
      then show ?thesis using cols(3) Cons.prems(1) g by (simp add: update_conv')
    next
      case False
      then show ?thesis using \<open>g' \<in> set (g # gs)\<close> cols(2) same [OF other] by simp
    qed
  next
    fix name assume "name \<notin> set (map col_name (g # gs))"
    then show "map_of cols name = map_of (groupByCols ag) name" using cols(3) g by (simp add: update_conv')
  qed
next
  case Nil
  show ?case by (rule exI [of _ "groupByCols ag"]) simp
qed

text \<open>The states with one aggregate, and what a row does to them.\<close>

lemma add_builders_ok:
  "length as = length vs \<Longrightarrow> add_builders (map Some vs) as =
     Some (map2 (\<lambda>c p. p\<lparr>pa_arrays := pa_arrays p @ [new_builder (column_DataType c)]\<rparr>) vs as)"
proof (induction vs arbitrary: as)
  case (Cons v vs)
  then show ?case by (cases as) auto
qed simp

definition add_cell :: "nat \<Rightarrow> nat \<Rightarrow> column \<Rightarrow> PAggregation \<Rightarrow> PAggregation" where
  "add_cell row k c p = p\<lparr>pa_arrays := (pa_arrays p)[k := (pa_arrays p ! k)\<lparr>arr_cells := arr_cells (pa_arrays p ! k) @ [column_cells c ! row]\<rparr>]\<rparr>"

definition builder_room :: "nat \<Rightarrow> nat \<Rightarrow> nat \<Rightarrow> column \<Rightarrow> PAggregation \<Rightarrow> bool" where
  "builder_room m row k c p \<longleftrightarrow> k < length (pa_arrays p) \<and> column_ok m (arr_type (pa_arrays p ! k)) c \<and>
     (arr_type (pa_arrays p ! k) = T_Binary \<longrightarrow>
        data_size (arr_cells (pa_arrays p ! k)) + cell_bytes (column_cells c ! row) \<le> MaxInt32)"

lemma append_group_values_ok:
  assumes "aggregates a = [ag]" "ha_aggregations ag = done_as @ as" "length done_as = j"
    and "list_all2 (builder_room m row k) vs as" "row < m"
  shows "append_group_values row (0, k) j (map Some vs) a =
    Inr (a\<lparr>aggregates := [ag\<lparr>ha_aggregations := done_as @ map2 (add_cell row k) vs as\<rparr>]\<rparr>)"
  using assms(4,1-3,5)
proof (induction vs as arbitrary: a ag done_as j rule: list_all2_induct)
  case Nil
  then have "a = a\<lparr>aggregates := [ag\<lparr>ha_aggregations := done_as\<rparr>]\<rparr>" by simp
  then show ?case by simp
next
  case (Cons v vs p as)
  let ?b = "pa_arrays p ! k"
  let ?b' = "?b\<lparr>arr_cells := arr_cells ?b @ [column_cells v ! row]\<rparr>"
  let ?ag = "ag\<lparr>ha_aggregations := (done_as @ [add_cell row k v p]) @ as\<rparr>"
  have p: "ha_aggregations ag ! j = p" "j < length (ha_aggregations ag)" "pa_arrays p \<noteq> []" "k < length (pa_arrays p)"
    using Cons.prems Cons.hyps(1) by (auto simp: nth_append builder_room_def)
  have b: "append_value ?b v row = Inr ?b'"
    using Cons.hyps(1) Cons.prems(4) by (intro append_value_ok [of m]) (auto simp: builder_room_def)
  have "upd_aggregation j (\<lambda>x. x\<lparr>pa_arrays := (pa_arrays p)[k := ?b']\<rparr>) ag = ?ag"
    using Cons.prems p(1) by (simp add: upd_aggregation_def add_cell_def list_update_append)
  then have "append_group_values row (0, k) j (map Some (v # vs)) a =
      append_group_values row (0, k) (Suc j) (map Some vs) (a\<lparr>aggregates := [?ag]\<rparr>)"
    using Cons.prems(1) p b by (simp add: Let_def)
  also have "\<dots> = Inr (a\<lparr>aggregates := [?ag\<lparr>ha_aggregations := (done_as @ [add_cell row k v p]) @ map2 (add_cell row k) vs as\<rparr>]\<rparr>)"
    using Cons.prems by (subst Cons.IH [of _ ?ag "done_as @ [add_cell row k v p]"]) auto
  finally show ?case by simp
qed

section \<open>Room in the builders\<close>

definition agg_bytes :: "agg_row \<Rightarrow> nat" where
  "agg_bytes row = sum_list (map (cell_bytes \<circ> snd) (ar_keys row)) + sum_list (map cell_bytes (ar_vals row))"

definition rows_bytes :: "agg_row list \<Rightarrow> nat" where
  "rows_bytes rows = sum_list (map agg_bytes rows)"

lemma rows_bytes_simps [simp]:
  "rows_bytes [] = 0" "rows_bytes (x # xs) = agg_bytes x + rows_bytes xs" "rows_bytes (xs @ ys) = rows_bytes xs + rows_bytes ys"
  by (simp_all add: rows_bytes_def)

lemma key_bytes: "cell_bytes (key_of name row) \<le> agg_bytes row"
proof (cases "map_of (ar_keys row) name")
  case (Some x)
  then have "(name, x) \<in> set (ar_keys row)" by (rule map_of_SomeD)
  then have "cell_bytes x \<in> set (map (cell_bytes \<circ> snd) (ar_keys row))" by force
  then have "cell_bytes x \<le> sum_list (map (cell_bytes \<circ> snd) (ar_keys row))" by (intro member_le_sum_list) simp_all
  then show ?thesis using Some by (simp add: key_of_def agg_bytes_def)
qed (simp add: key_of_def)

lemma val_bytes: "j < length (ar_vals row) \<Longrightarrow> cell_bytes (ar_vals row ! j) \<le> agg_bytes row"
  using member_le_sum_list [of "cell_bytes (ar_vals row ! j)" "map cell_bytes (ar_vals row)"]
  by (simp add: agg_bytes_def)

lemma data_size_le: "(\<And>x. x \<in> set xs \<Longrightarrow> cell_bytes (f x) \<le> agg_bytes x) \<Longrightarrow> data_size (map f xs) \<le> rows_bytes xs"
  unfolding data_size_def rows_bytes_def map_map by (rule sum_list_mono) simp

lemma leaders_bytes: "rows_bytes (leaders rows) \<le> rows_bytes rows"
  by (induction rows rule: rev_induct) (auto simp: leaders_snoc, simp add: leaders_def row_hashes_def)

lemma rows_with_bytes: "rows_bytes (rows_with rows h) \<le> rows_bytes rows"
  by (induction rows) (auto simp: rows_with_def)

lemma leader_keys_size: "data_size (map (key_of name) (leaders rows)) \<le> rows_bytes rows"
  using data_size_le [of "leaders rows" "key_of name"] key_bytes leaders_bytes [of rows] le_trans by blast

lemma group_vals_size:
  "\<forall>row \<in> set rows. j < length (ar_vals row) \<Longrightarrow> data_size (map (\<lambda>row. ar_vals row ! j) (rows_with rows h)) \<le> rows_bytes rows"
  using data_size_le [of "rows_with rows h" "\<lambda>row. ar_vals row ! j"] val_bytes rows_with_bytes [of rows h]
  by (fastforce simp: rows_with_def)

section \<open>The invariant\<close>

definition key_builders_ok :: "(string \<Rightarrow> arrow_type) \<Rightarrow> agg_row list \<Rightarrow> (string \<times> arrow_array) list \<Rightarrow> bool" where
  "key_builders_ok ty rows cols \<longleftrightarrow> (\<forall>name.
     case map_of cols name of
       None \<Rightarrow> name \<notin> set (key_names rows)
     | Some b \<Rightarrow> name \<in> set (key_names rows) \<and> arr_type b = ty name \<and> length (arr_cells b) \<le> length (row_hashes rows) \<and>
         arr_cells (backfill (length (row_hashes rows)) b) = map (key_of name) (leaders rows))"

definition agg_ok :: "(PAggregation \<times> arrow_type) list \<Rightarrow> (string \<Rightarrow> arrow_type) \<Rightarrow> agg_row list \<Rightarrow> hashAggregate \<Rightarrow> bool" where
  "agg_ok ps ty rows ag \<longleftrightarrow>
     dynamicAggregations ag = [] \<and> concreteAggregations ag = length ps \<and> rowCount ag = length (row_hashes rows) \<and>
     ha_aggregations ag = map (\<lambda>j. (fst (ps ! j))\<lparr>pa_arrays := group_arrays rows (snd (ps ! j)) j\<rparr>) [0..<length ps] \<and>
     colOrdering ag = key_names rows \<and> key_builders_ok ty rows (groupByCols ag)"

definition group_places :: "agg_row list \<Rightarrow> (uint64 \<times> nat \<times> nat) list" where
  "group_places rows = zip (row_hashes rows) (map (Pair 0) [0..<length (row_hashes rows)])"

definition agg_state_ok :: "(PAggregation \<times> arrow_type) list \<Rightarrow> (string \<Rightarrow> arrow_type) \<Rightarrow> agg_row list \<Rightarrow> HashAggregate \<Rightarrow> bool" where
  "agg_state_ok ps ty rows a \<longleftrightarrow> hashToAggregate a = group_places rows \<and> (\<exists>ag. aggregates a = [ag] \<and> agg_ok ps ty rows ag)"

lemma group_places_old:
  "k < length (row_hashes rows) \<Longrightarrow> map_of (group_places rows) (row_hashes rows ! k) = Some (0, k)"
  using map_of_zip_nth [of "row_hashes rows" "map (Pair 0) [0..<length (row_hashes rows)]" k] by (simp add: group_places_def)

lemma group_places_new: "h \<notin> set (row_hashes rows) \<Longrightarrow> map_of (group_places rows) h = None"
  by (simp add: group_places_def)

lemma group_arrays_old:
  assumes "k < length (row_hashes rows)" "row_hashes rows ! k = ar_hash x"
  shows "group_arrays (rows @ [x]) vt j =
    (group_arrays rows vt j)[k := (group_arrays rows vt j ! k)\<lparr>arr_cells := arr_cells (group_arrays rows vt j ! k) @ [ar_vals x ! j]\<rparr>]"
proof -
  have "ar_hash x \<in> set (row_hashes rows)" using assms by (metis nth_mem)
  then show ?thesis
    using assms by (auto simp: group_arrays_def row_hashes_snoc rows_with_snoc nth_list_update nth_eq_iff_index_eq intro!: nth_equalityI)
qed

lemma group_arrays_new:
  assumes "ar_hash x \<notin> set (row_hashes rows)"
  shows "group_arrays (rows @ [x]) vt j = group_arrays rows vt j @ [\<lparr>arr_type = vt, arr_cells = [ar_vals x ! j]\<rparr>]"
proof -
  have "rows_with rows (ar_hash x) = []" using assms rows_with_nonempty [of "ar_hash x" rows] by (simp add: row_hashes_def)
  then show ?thesis using assms by (auto simp: group_arrays_def row_hashes_snoc rows_with_snoc)
qed

lemma key_names_new:
  assumes "ar_hash x \<notin> set (row_hashes rows)" "distinct (map fst (ar_keys x))"
  shows "key_names (rows @ [x]) = key_names rows @ filter (\<lambda>name. name \<notin> set (key_names rows)) (map fst (ar_keys x))"
  using assms by (simp add: key_names_def leaders_snoc firsts_append firsts_distinct)

lemma key_of_absent: "name \<notin> set (key_names rows) \<Longrightarrow> l \<in> set (leaders rows) \<Longrightarrow> key_of name l = None"
  by (force simp: key_names_def key_of_def split: option.splits dest: map_of_SomeD)

section \<open>One row\<close>

lemma builder_for_ok:
  assumes "key_builders_ok ty rows cols" "snd f = ty (fst f)"
  shows "arr_type (builder_for cols f) = snd f"
    and "arr_cells (backfill (length (row_hashes rows)) (builder_for cols f)) = map (key_of (fst f)) (leaders rows)"
    and "data_size (arr_cells (builder_for cols f)) \<le> rows_bytes rows"
proof -
  show t: "arr_type (builder_for cols f) = snd f"
    using assms by (auto simp: key_builders_ok_def builder_for_def new_builder_def split: option.splits)
  show c: "arr_cells (backfill (length (row_hashes rows)) (builder_for cols f)) = map (key_of (fst f)) (leaders rows)"
  proof (cases "map_of cols (fst f)")
    case None
    then have "fst f \<notin> set (key_names rows)" using assms(1) by (auto simp: key_builders_ok_def dest: spec [of _ "fst f"])
    then have "map (key_of (fst f)) (leaders rows) = map (\<lambda>_. None) (leaders rows)" using key_of_absent by auto
    then show ?thesis using None by (simp add: builder_for_def new_builder_def backfill_def map_replicate_const)
  next
    case (Some b)
    then show ?thesis using assms(1) by (auto simp: key_builders_ok_def builder_for_def dest: spec [of _ "fst f"])
  qed
  show "data_size (arr_cells (builder_for cols f)) \<le> rows_bytes rows"
    using leader_keys_size [of "fst f" rows] unfolding c [symmetric] by simp
qed

lemma put_cell_backfilled:
  "arr_cells (backfill n b) = xs \<Longrightarrow> length xs = n \<Longrightarrow> arr_cells (backfill (Suc n) (put_cell n x b)) = xs @ [x]"
  by (auto simp: put_cell_def backfill_def)

lemma backfill_Suc: "length (arr_cells b) \<le> n \<Longrightarrow> arr_cells (backfill (Suc n) b) = arr_cells (backfill n b) @ [None]"
  by (simp add: backfill_def Suc_diff_le replicate_append_same)

lemma key_builders_new:
  assumes kb: "key_builders_ok ty rows cols" and new: "ar_hash x \<notin> set (row_hashes rows)"
    and keys: "ar_keys x = map (\<lambda>g. (col_name g, col_cell row g)) gs" "distinct (map col_name gs)"
    and types: "\<forall>g \<in> set gs. snd (fst g) = ty (col_name g)"
    and put: "\<forall>g \<in> set gs. map_of cols' (col_name g) = Some (put_cell (length (row_hashes rows)) (col_cell row g) (builder_for cols (fst g)))"
    and rest: "\<forall>name. name \<notin> set (map col_name gs) \<longrightarrow> map_of cols' name = map_of cols name"
  shows "key_builders_ok ty (rows @ [x]) cols'"
proof -
  let ?n = "length (row_hashes rows)"
  have n: "length (row_hashes (rows @ [x])) = Suc ?n" using new by (simp add: row_hashes_snoc)
  have leaders: "leaders (rows @ [x]) = leaders rows @ [x]" using new by (simp add: leaders_snoc)
  have fsts: "map fst (ar_keys x) = map col_name gs" using keys(1) by simp
  have names: "set (key_names (rows @ [x])) = set (key_names rows) \<union> set (map col_name gs)"
    using new keys(2) fsts by (auto simp: key_names_new)
  have *: "case map_of cols' name of None \<Rightarrow> name \<notin> set (key_names (rows @ [x]))
     | Some b \<Rightarrow> name \<in> set (key_names (rows @ [x])) \<and> arr_type b = ty name \<and> length (arr_cells b) \<le> Suc ?n \<and>
         arr_cells (backfill (Suc ?n) b) = map (key_of name) (leaders rows) @ [key_of name x]" for name
  proof (cases "name \<in> set (map col_name gs)")
    case True
    then obtain g where g: "g \<in> set gs" "name = col_name g" by auto
    let ?b = "builder_for cols (fst g)"
    have b: "arr_type ?b = ty name" "arr_cells (backfill ?n ?b) = map (key_of name) (leaders rows)"
      using builder_for_ok [OF kb, of "fst g"] types g by auto
    have "length (arr_cells ?b) \<le> ?n"
      using arg_cong [OF b(2), of length] by (simp add: backfill_def)
    then have "length (arr_cells (put_cell ?n y ?b)) \<le> Suc ?n" for y by (simp add: put_cell_def backfill_def)
    moreover have "key_of name x = col_cell row g"
    proof -
      have "map_of (ar_keys x) name = Some (col_cell row g)"
        using g keys by (intro map_of_is_SomeI) (auto simp: comp_def)
      then show ?thesis by (simp add: key_of_def)
    qed
    moreover have "map_of cols' name = Some (put_cell ?n (col_cell row g) ?b)" using put g by blast
    moreover have "arr_type (put_cell ?n y ?b) = ty name" for y using b(1) by (simp add: put_cell_def)
    ultimately show ?thesis
      using True put_cell_backfilled [OF b(2), of "col_cell row g"] unfolding names by simp
  next
    case False
    have "map_of (ar_keys x) name = None" using False keys(1) by (force simp: map_of_eq_None_iff)
    then have k: "key_of name x = None" by (simp add: key_of_def)
    have "map_of cols' name = map_of cols name" using rest False by blast
    moreover have "case map_of cols name of None \<Rightarrow> name \<notin> set (key_names rows)
     | Some b \<Rightarrow> name \<in> set (key_names rows) \<and> arr_type b = ty name \<and> length (arr_cells b) \<le> ?n \<and>
         arr_cells (backfill ?n b) = map (key_of name) (leaders rows)"
      using kb unfolding key_builders_ok_def by blast
    ultimately show ?thesis using False backfill_Suc unfolding names k by (auto split: option.splits)
  qed
  show ?thesis unfolding key_builders_ok_def n leaders map_append list.map using * by blast
qed

lemma record_column_ok:
  "rec_ok (tr_fields r) r \<Longrightarrow> fc \<in> set (record_columns r) \<Longrightarrow> column_ok (tr_rows r) (snd (fst fc)) (snd fc)"
  using rec_ok_column [of "tr_fields r" r] rec_ok_length [of "tr_fields r" r] by (auto simp: record_columns_def set_zip)

lemma group_cols_in: "g \<in> set (group_cols env final ms r) \<Longrightarrow> (fst g, fst (snd g)) \<in> set (record_columns r)"
  by (auto simp: group_cols_def field_groups_def)

lemma value_col_ok:
  assumes "agg_rec_ok env final ms ps ty r" "p \<in> set ps"
  shows "column_ok (tr_rows r) (snd p) (value_col env final r (fst p))"
proof -
  let ?fs = "value_fields env final (fst p) (record_columns r)"
  have l: "length ?fs = 1" "column_DataType (snd (last ?fs)) = snd p" "rec_ok (tr_fields r) r"
    using assms by (auto simp: agg_rec_ok_def list_all_iff value_col_def)
  then have "?fs \<noteq> []" by fastforce
  then have "last ?fs \<in> set (record_columns r)"
    using last_in_set [of ?fs] unfolding value_fields_def by simp
  then show ?thesis
    using record_column_ok [OF l(3), of "last ?fs"] l(2) by (simp add: value_col_def column_ok_def)
qed

text \<open>The values of a row go to the builders at one index, which hold \<open>cells\<close>.\<close>

lemma append_group:
  assumes r: "agg_rec_ok env final ms ps ty r" "i < tr_rows r"
    and a: "aggregates a = [ag]" "ha_aggregations ag = map (\<lambda>j. (fst (ps ! j))\<lparr>pa_arrays := A j\<rparr>) [0..<length ps]"
    and A: "\<forall>j < length ps. k < length (A j) \<and> A j ! k = \<lparr>arr_type = snd (ps ! j), arr_cells = cells j\<rparr> \<and>
      data_size (cells j) + cell_bytes (column_cells (value_col env final r (fst (ps ! j))) ! i) \<le> MaxInt32"
  shows "append_group_values i (0, k) 0 (map (\<lambda>p. Some (value_col env final r (fst p))) ps) a =
    Inr (a\<lparr>aggregates := [ag\<lparr>ha_aggregations := map (\<lambda>j. (fst (ps ! j))\<lparr>pa_arrays :=
      (A j)[k := \<lparr>arr_type = snd (ps ! j), arr_cells = cells j @ [column_cells (value_col env final r (fst (ps ! j))) ! i]\<rparr>]\<rparr>) [0..<length ps]\<rparr>]\<rparr>)"
proof -
  let ?vs = "map (\<lambda>p. value_col env final r (fst p)) ps"
  have "list_all2 (builder_room (tr_rows r) i k) ?vs (ha_aggregations ag)"
    using A value_col_ok [OF r(1)] by (auto simp: list_all2_conv_all_nth a(2) builder_room_def)
  then have "append_group_values i (0, k) 0 (map Some ?vs) a =
      Inr (a\<lparr>aggregates := [ag\<lparr>ha_aggregations := [] @ map2 (add_cell i k) ?vs (ha_aggregations ag)\<rparr>]\<rparr>)"
    using a(1) r(2) by (intro append_group_values_ok) auto
  moreover have "map2 (add_cell i k) ?vs (ha_aggregations ag) = map (\<lambda>j. (fst (ps ! j))\<lparr>pa_arrays :=
      (A j)[k := \<lparr>arr_type = snd (ps ! j), arr_cells = cells j @ [column_cells (value_col env final r (fst (ps ! j))) ! i]\<rparr>]\<rparr>) [0..<length ps]"
    using A by (auto simp: a(2) add_cell_def intro!: nth_equalityI)
  ultimately show ?thesis by (simp add: comp_def)
qed

lemma group_arrays_length [simp]: "length (group_arrays rows vt j) = length (row_hashes rows)"
  by (simp add: group_arrays_def)

text \<open>The bytes of one more row fit into every builder.\<close>

lemma value_room:
  assumes "\<forall>row \<in> set rows. length (ar_vals row) = n" "length (ar_vals x) = n" "j < n" "rows_bytes (rows @ [x]) \<le> MaxInt32"
  shows "data_size (map (\<lambda>row. ar_vals row ! j) (rows_with rows h)) + cell_bytes (ar_vals x ! j) \<le> MaxInt32"
    and "cell_bytes (ar_vals x ! j) \<le> MaxInt32"
  using group_vals_size [of rows j h] val_bytes [of j x] assms by auto

lemma row_of_known_group:
  assumes a: "agg_state_ok ps ty rows a" and r: "agg_rec_ok env final ms ps ty r" "i < tr_rows r"
    and x: "x = agg_row_of env final ms (map fst ps) r i" "rows_bytes (rows @ [x]) \<le> MaxInt32"
    and vals: "\<forall>row \<in> set rows. length (ar_vals row) = length ps"
    and k: "k < length (row_hashes rows)" "row_hashes rows ! k = ar_hash x"
  obtains a' where "append_group_values i (0, k) 0 (map (\<lambda>p. Some (value_col env final r (fst p))) ps) a = Inr a'"
    "agg_state_ok ps ty (rows @ [x]) a'" "finalStage a' = finalStage a" "groupByColumnMatchers a' = groupByColumnMatchers a"
proof -
  obtain ag where ag: "aggregates a = [ag]" "agg_ok ps ty rows ag" "hashToAggregate a = group_places rows"
    using a by (auto simp: agg_state_ok_def)
  have hash: "ar_hash x \<in> set (row_hashes rows)" using k by (metis nth_mem)
  have xj: "ar_vals x ! j = column_cells (value_col env final r (fst (ps ! j))) ! i" if "j < length ps" for j
    using that x(1) by (simp add: agg_row_of_def)
  have lx: "length (ar_vals x) = length ps" using x(1) by (simp add: agg_row_of_def)
  let ?cells = "\<lambda>j. map (\<lambda>row. ar_vals row ! j) (rows_with rows (ar_hash x))"
  let ?ag = "ag\<lparr>ha_aggregations := map (\<lambda>j. (fst (ps ! j))\<lparr>pa_arrays := group_arrays (rows @ [x]) (snd (ps ! j)) j\<rparr>) [0..<length ps]\<rparr>"
  have A: "k < length (group_arrays rows (snd (ps ! j)) j) \<and>
      group_arrays rows (snd (ps ! j)) j ! k = \<lparr>arr_type = snd (ps ! j), arr_cells = ?cells j\<rparr> \<and>
      data_size (?cells j) + cell_bytes (column_cells (value_col env final r (fst (ps ! j))) ! i) \<le> MaxInt32"
    if "j < length ps" for j
    using k value_room(1) [OF vals lx that x(2), of "ar_hash x"] xj [OF that] by (simp add: group_arrays_def)
  have "append_group_values i (0, k) 0 (map (\<lambda>p. Some (value_col env final r (fst p))) ps) a = Inr (a\<lparr>aggregates := [?ag]\<rparr>)"
    using append_group [OF r ag(1), of "\<lambda>j. group_arrays rows (snd (ps ! j)) j" k ?cells] A ag(2) k
    by (simp add: agg_ok_def group_arrays_old xj cong: map_cong)
  moreover have "agg_state_ok ps ty (rows @ [x]) (a\<lparr>aggregates := [?ag]\<rparr>)"
  proof -
    have same: "row_hashes (rows @ [x]) = row_hashes rows" "leaders (rows @ [x]) = leaders rows" "key_names (rows @ [x]) = key_names rows"
      using hash by (simp_all add: row_hashes_snoc leaders_snoc key_names_def)
    have "key_builders_ok ty (rows @ [x]) (groupByCols ag)"
      using ag(2) unfolding agg_ok_def key_builders_ok_def same by blast
    then show ?thesis using ag same by (simp add: agg_state_ok_def agg_ok_def group_places_def)
  qed
  ultimately show thesis using that by simp
qed

lemma AList_update_new: "h \<notin> fst ` set m \<Longrightarrow> AList.update h t m = m @ [(h, t)]"
  by (induction m) auto

lemma group_places_snoc:
  "ar_hash x \<notin> set (row_hashes rows) \<Longrightarrow>
     AList.update (ar_hash x) (0, length (row_hashes rows)) (group_places rows) = group_places (rows @ [x])"
  by (subst AList_update_new) (auto simp: group_places_def row_hashes_snoc set_zip)

definition opened :: "(PAggregation \<times> arrow_type) list \<Rightarrow> agg_row list \<Rightarrow> hashAggregate \<Rightarrow> hashAggregate" where
  "opened ps rows ag = ag\<lparr>ha_aggregations := map (\<lambda>j. (fst (ps ! j))\<lparr>pa_arrays :=
     group_arrays rows (snd (ps ! j)) j @ [new_builder (snd (ps ! j))]\<rparr>) [0..<length ps], rowCount := rowCount ag + 1\<rparr>"

lemma open_group_ok:
  assumes a: "aggregates a = [ag]" "agg_ok ps ty rows ag" "hashToAggregate a = group_places rows"
    and r: "agg_rec_ok env final ms ps ty r" and "ps \<noteq> []" "ar_hash x \<notin> set (row_hashes rows)"
  shows "open_group (ar_hash x) (map (\<lambda>p. Some (value_col env final r (fst p))) ps) a =
    Inr ((0, length (row_hashes rows)), a\<lparr>hashToAggregate := group_places (rows @ [x]), aggregates := [opened ps rows ag]\<rparr>)"
proof -
  let ?vs = "map (\<lambda>p. value_col env final r (fst p)) ps"
  have ty: "column_DataType (value_col env final r (fst (ps ! j))) = snd (ps ! j)" if "j < length ps" for j
    using value_col_ok [OF r nth_mem [OF that]] by (simp add: column_ok_def)
  have "add_builders (map Some ?vs) (ha_aggregations ag) = Some (ha_aggregations (opened ps rows ag))"
    using a(2) ty by (subst add_builders_ok) (auto simp: agg_ok_def opened_def intro!: nth_equalityI)
  moreover obtain p ps' where "ps = p # ps'" using assms(5) by (cases ps) auto
  then obtain a0 as where "ha_aggregations (opened ps rows ag) = a0 # as" "length (pa_arrays a0) = Suc (length (row_hashes rows))"
    by (simp add: opened_def upt_conv_Cons del: upt_Suc)
  moreover have "opened ps rows ag = ag\<lparr>ha_aggregations := ha_aggregations (opened ps rows ag), rowCount := rowCount ag + 1\<rparr>"
    by (simp add: opened_def)
  ultimately show ?thesis
    using a(1,3) group_places_snoc [OF assms(6)] by (simp add: open_group_def or_panic_def set_last_def comp_def)
qed

lemma group_cols_room:
  assumes kb: "key_builders_ok ty rows cols" and r: "agg_rec_ok env final ms ps ty r" "i < tr_rows r"
    and x: "x = agg_row_of env final ms (map fst ps) r i" "rows_bytes (rows @ [x]) \<le> MaxInt32"
    and g: "g \<in> set (group_cols env final ms r)"
  shows "group_col_ok (tr_rows r) i cols g"
proof -
  obtain f c cmb where fc: "g = (f, c, cmb)" by (cases g) auto
  have "column_ok (tr_rows r) (snd f) c"
    using record_column_ok [OF _ group_cols_in [OF g]] r(1) fc by (simp add: agg_rec_ok_def)
  moreover have ty: "snd f = ty (fst f)" using r(1) g fc by (auto simp: agg_rec_ok_def list_all_iff)
  moreover have "cell_bytes (column_cells c ! i) \<le> agg_bytes x"
  proof -
    have "(fst f, column_cells c ! i) \<in> set (ar_keys x)" using g fc x(1) by (force simp: agg_row_of_def)
    then have "cell_bytes (column_cells c ! i) \<in> set (map (cell_bytes \<circ> snd) (ar_keys x))" by force
    then have "cell_bytes (column_cells c ! i) \<le> sum_list (map (cell_bytes \<circ> snd) (ar_keys x))"
      by (intro member_le_sum_list) simp_all
    then show ?thesis by (simp add: agg_bytes_def)
  qed
  ultimately show ?thesis
    using builder_for_ok [OF kb ty] x(2) by (simp add: group_col_ok_def fc)
qed

lemma updateGroupByCols_opened:
  assumes ag: "agg_ok ps ty rows ag" and r: "agg_rec_ok env final ms ps ty r" "i < tr_rows r"
    and x: "x = agg_row_of env final ms (map fst ps) r i" "rows_bytes (rows @ [x]) \<le> MaxInt32"
    and new: "ar_hash x \<notin> set (row_hashes rows)" and "ps \<noteq> []"
  obtains cols where "updateGroupByCols i (group_cols env final ms r) (opened ps rows ag) =
      ((opened ps rows ag)\<lparr>colOrdering := key_names (rows @ [x]), groupByCols := cols\<rparr>, None)"
    "key_builders_ok ty (rows @ [x]) cols"
proof -
  let ?gs = "group_cols env final ms r" let ?ag = "opened ps rows ag"
  have kb: "key_builders_ok ty rows (groupByCols ag)" using ag by (simp add: agg_ok_def)
  have same: "groupByCols ?ag = groupByCols ag" "colOrdering ?ag = key_names rows"
    using ag by (simp_all add: opened_def agg_ok_def)
  have dist: "distinct (map col_name ?gs)" using r(1) by (simp add: agg_rec_ok_def)
  have keys: "ar_keys x = map (\<lambda>g. (col_name g, col_cell i g)) ?gs"
    using x(1) by (simp add: agg_row_of_def split_def)
  obtain p ps' where "ps = p # ps'" using assms(7) by (cases ps) auto
  then have first: "updateGroupByCols i ?gs ?ag = update_cols i (length (row_hashes rows)) [] ?gs ?ag"
    by (simp add: updateGroupByCols_def opened_def upt_conv_Cons del: upt_Suc)
  obtain cols where cols: "update_cols i (length (row_hashes rows)) [] ?gs ?ag =
      (?ag\<lparr>colOrdering := colOrdering ?ag @ filter (\<lambda>name. map_of (groupByCols ?ag) name = None) (map col_name ?gs),
          groupByCols := cols\<rparr>, None)"
    "\<forall>g \<in> set ?gs. map_of cols (col_name g) = Some (put_cell (length (row_hashes rows)) (col_cell i g) (builder_for (groupByCols ?ag) (fst g)))"
    "\<forall>name. name \<notin> set (map col_name ?gs) \<longrightarrow> map_of cols name = map_of (groupByCols ?ag) name"
    using update_cols_ok [OF dist, of "tr_rows r" i ?ag "length (row_hashes rows)" "[]"] r(2)
      group_cols_room [OF kb r x] same(1) by auto
  have names: "colOrdering ?ag @ filter (\<lambda>name. map_of (groupByCols ?ag) name = None) (map col_name ?gs) = key_names (rows @ [x])"
  proof -
    have "map_of (groupByCols ag) name = None \<longleftrightarrow> name \<notin> set (key_names rows)" for name
      using kb [unfolded key_builders_ok_def, rule_format, of name] by (auto split: option.splits)
    moreover have "map fst (ar_keys x) = map col_name ?gs" using keys by simp
    ultimately show ?thesis using key_names_new [OF new] dist same by simp
  qed
  have "key_builders_ok ty (rows @ [x]) cols"
    using r(1) cols(2,3) unfolding same(1)
    by (intro key_builders_new [OF kb new keys dist]) (auto simp: agg_rec_ok_def list_all_iff)
  then show thesis using that [of cols] cols(1) first unfolding names by simp
qed

lemma row_of_new_group:
  assumes a: "agg_state_ok ps ty rows a" and r: "agg_rec_ok env final ms ps ty r" "i < tr_rows r"
    and x: "x = agg_row_of env final ms (map fst ps) r i" "rows_bytes (rows @ [x]) \<le> MaxInt32"
    and vals: "\<forall>row \<in> set rows. length (ar_vals row) = length ps"
    and new: "ar_hash x \<notin> set (row_hashes rows)" and "ps \<noteq> []"
  obtains a1 a' where "insert_group i (group_cols env final ms r) (map (\<lambda>p. Some (value_col env final r (fst p))) ps) (ar_hash x) a =
      Inr ((0, length (row_hashes rows)), a1)"
    "append_group_values i (0, length (row_hashes rows)) 0 (map (\<lambda>p. Some (value_col env final r (fst p))) ps) a1 = Inr a'"
    "agg_state_ok ps ty (rows @ [x]) a'" "finalStage a' = finalStage a" "groupByColumnMatchers a' = groupByColumnMatchers a"
proof -
  let ?k = "length (row_hashes rows)"
  obtain ag where ag: "aggregates a = [ag]" "agg_ok ps ty rows ag" "hashToAggregate a = group_places rows"
    using a by (auto simp: agg_state_ok_def)
  obtain cols where cols: "updateGroupByCols i (group_cols env final ms r) (opened ps rows ag) =
      ((opened ps rows ag)\<lparr>colOrdering := key_names (rows @ [x]), groupByCols := cols\<rparr>, None)"
    "key_builders_ok ty (rows @ [x]) cols"
    using updateGroupByCols_opened [OF ag(2) r x new assms(8)] by blast
  let ?ag = "(opened ps rows ag)\<lparr>colOrdering := key_names (rows @ [x]), groupByCols := cols\<rparr>"
  let ?a1 = "a\<lparr>hashToAggregate := group_places (rows @ [x]), aggregates := [?ag]\<rparr>"
  let ?ag' = "?ag\<lparr>ha_aggregations := map (\<lambda>j. (fst (ps ! j))\<lparr>pa_arrays := group_arrays (rows @ [x]) (snd (ps ! j)) j\<rparr>) [0..<length ps]\<rparr>"
  have "insert_group i (group_cols env final ms r) (map (\<lambda>p. Some (value_col env final r (fst p))) ps) (ar_hash x) a =
      Inr ((0, ?k), ?a1)" (is ?inserted)
    unfolding insert_group_def open_group_ok [OF ag r(1) assms(8) new] using cols(1) by (simp add: set_last_def)
  have xj: "ar_vals x ! j = column_cells (value_col env final r (fst (ps ! j))) ! i" if "j < length ps" for j
    using that x(1) by (simp add: agg_row_of_def)
  have lx: "length (ar_vals x) = length ps" using x(1) by (simp add: agg_row_of_def)
  let ?A = "\<lambda>j. group_arrays rows (snd (ps ! j)) j @ [new_builder (snd (ps ! j))]"
  let ?new = "\<lambda>j. \<lparr>arr_type = snd (ps ! j), arr_cells = [] @ [column_cells (value_col env final r (fst (ps ! j))) ! i]\<rparr>"
  have "append_group_values i (0, ?k) 0 (map (\<lambda>p. Some (value_col env final r (fst p))) ps) ?a1 =
      Inr (?a1\<lparr>aggregates := [?ag\<lparr>ha_aggregations := map (\<lambda>j. (fst (ps ! j))\<lparr>pa_arrays := (?A j)[?k := ?new j]\<rparr>) [0..<length ps]\<rparr>]\<rparr>)"
  proof (rule append_group [OF r])
    show "aggregates ?a1 = [?ag]" by simp
    show "ha_aggregations ?ag = map (\<lambda>j. (fst (ps ! j))\<lparr>pa_arrays := ?A j\<rparr>) [0..<length ps]" by (simp add: opened_def)
    show "\<forall>j<length ps. ?k < length (?A j) \<and> ?A j ! ?k = \<lparr>arr_type = snd (ps ! j), arr_cells = []\<rparr> \<and>
        data_size [] + cell_bytes (column_cells (value_col env final r (fst (ps ! j))) ! i) \<le> MaxInt32"
      using value_room(2) [OF vals lx _ x(2)] xj by (auto simp: nth_append new_builder_def data_size_def)
  qed
  moreover have "map (\<lambda>j. (fst (ps ! j))\<lparr>pa_arrays := (?A j)[?k := ?new j]\<rparr>) [0..<length ps] =
      map (\<lambda>j. (fst (ps ! j))\<lparr>pa_arrays := group_arrays (rows @ [x]) (snd (ps ! j)) j\<rparr>) [0..<length ps]"
    using xj by (intro map_cong refl) (simp add: group_arrays_new [OF new] list_update_append)
  ultimately have "append_group_values i (0, ?k) 0 (map (\<lambda>p. Some (value_col env final r (fst p))) ps) ?a1 = Inr (?a1\<lparr>aggregates := [?ag']\<rparr>)"
    by (simp only:)
  moreover have "agg_state_ok ps ty (rows @ [x]) (?a1\<lparr>aggregates := [?ag']\<rparr>)"
    using ag(2) cols(2) new by (simp add: agg_state_ok_def agg_ok_def opened_def row_hashes_snoc)
  ultimately show thesis using that \<open>?inserted\<close> by simp
qed

lemma aggregate_row_ok:
  assumes a: "agg_state_ok ps ty rows a" and r: "agg_rec_ok env final ms ps ty r" "i < tr_rows r"
    and x: "x = agg_row_of env final ms (map fst ps) r i" "rows_bytes (rows @ [x]) \<le> MaxInt32"
    and vals: "\<forall>row \<in> set rows. length (ar_vals row) = length ps"
    and ps: "ps \<noteq> []" and hcols: "hash_cols env final ms r = Some hcols"
  obtains a' where "aggregate_row hcols (group_cols env final ms r) (map (\<lambda>p. Some (value_col env final r (fst p))) ps) i a = Inr a'"
    "agg_state_ok ps ty (rows @ [x]) a'" "finalStage a' = finalStage a" "groupByColumnMatchers a' = groupByColumnMatchers a"
proof -
  have hash: "hash_row hcols i 0 = Some (ar_hash x)"
    using r x(1) hcols by (auto simp: agg_rec_ok_def list_all_iff agg_row_of_def row_hash_def)
  have places: "hashToAggregate a = group_places rows" using a by (auto simp: agg_state_ok_def)
  show thesis
  proof (cases "ar_hash x \<in> set (row_hashes rows)")
    case True
    then obtain k where k: "k < length (row_hashes rows)" "row_hashes rows ! k = ar_hash x" by (auto simp: in_set_conv_nth)
    then have "map_of (hashToAggregate a) (ar_hash x) = Some (0, k)" using group_places_old places by metis
    moreover obtain a' where "append_group_values i (0, k) 0 (map (\<lambda>p. Some (value_col env final r (fst p))) ps) a = Inr a'"
      "agg_state_ok ps ty (rows @ [x]) a'" "finalStage a' = finalStage a" "groupByColumnMatchers a' = groupByColumnMatchers a"
      by (rule row_of_known_group [OF a r x vals k])
    ultimately show ?thesis using hash that [of a'] by (simp add: aggregate_row_def or_panic_def)
  next
    case False
    then have none: "map_of (hashToAggregate a) (ar_hash x) = None" using group_places_new places by metis
    obtain a1 a' where "insert_group i (group_cols env final ms r) (map (\<lambda>p. Some (value_col env final r (fst p))) ps) (ar_hash x) a =
        Inr ((0, length (row_hashes rows)), a1)"
      "append_group_values i (0, length (row_hashes rows)) 0 (map (\<lambda>p. Some (value_col env final r (fst p))) ps) a1 = Inr a'"
      "agg_state_ok ps ty (rows @ [x]) a'" "finalStage a' = finalStage a" "groupByColumnMatchers a' = groupByColumnMatchers a"
      by (rule row_of_new_group [OF a r x vals False ps])
    then show ?thesis using hash none that [of a'] by (simp add: aggregate_row_def or_panic_def)
  qed
qed

section \<open>Records\<close>

lemma agg_row_of_vals [simp]: "length (ar_vals (agg_row_of env final ms ps r i)) = length ps"
  by (simp add: agg_row_of_def)

lemma aggregate_rows_ok:
  assumes "agg_rec_ok env final ms ps ty r" "ps \<noteq> []" "hash_cols env final ms r = Some hcols"
    and "agg_state_ok ps ty rows a" "\<forall>i \<in> set is. i < tr_rows r" "\<forall>row \<in> set rows. length (ar_vals row) = length ps"
    and "rows_bytes (rows @ map (agg_row_of env final ms (map fst ps) r) is) \<le> MaxInt32"
  shows "\<exists>a'. aggregate_rows hcols (group_cols env final ms r) (map (\<lambda>p. Some (value_col env final r (fst p))) ps) is a = Inr a' \<and>
    agg_state_ok ps ty (rows @ map (agg_row_of env final ms (map fst ps) r) is) a' \<and>
    finalStage a' = finalStage a \<and> groupByColumnMatchers a' = groupByColumnMatchers a"
  using assms(4-7)
proof (induction "is" arbitrary: rows a)
  case (Cons i "is")
  let ?x = "agg_row_of env final ms (map fst ps) r i"
  obtain a1 where a1: "aggregate_row hcols (group_cols env final ms r) (map (\<lambda>p. Some (value_col env final r (fst p))) ps) i a = Inr a1"
    "agg_state_ok ps ty (rows @ [?x]) a1" "finalStage a1 = finalStage a" "groupByColumnMatchers a1 = groupByColumnMatchers a"
  proof (rule aggregate_row_ok [OF Cons.prems(1) assms(1) _ refl _ Cons.prems(3) assms(2,3)])
    show "i < tr_rows r" "rows_bytes (rows @ [?x]) \<le> MaxInt32" using Cons.prems(2,4) by simp_all
  qed
  have "\<forall>row \<in> set (rows @ [?x]). length (ar_vals row) = length ps" using Cons.prems(3) by simp
  then show ?case using Cons.IH [OF a1(2)] Cons.prems(2,4) a1 by auto
qed simp

definition plan_ok :: "(PAggregation \<times> arrow_type) list \<Rightarrow> bool" where
  "plan_ok ps \<longleftrightarrow> ps \<noteq> [] \<and> list_all (\<lambda>p. \<not> pa_dynamic (fst p) \<and> pa_arrays (fst p) = []) ps"

lemma agg_ok_static: "agg_ok ps ty rows ag \<Longrightarrow> plan_ok ps \<Longrightarrow> static_aggregate (map fst ps) ag"
  by (auto simp: agg_ok_def static_aggregate_def plan_ok_def list_all_length intro!: nth_equalityI)

lemma found_cols_ok:
  assumes "agg_rec_ok env final ms ps ty r" "length cols = length ps"
  shows "found_cols env final (record_columns r) (map fst ps) cols = map (\<lambda>p. Some (value_col env final r (fst p))) ps"
proof -
  have "value_fields env final (fst (ps ! i)) (record_columns r) \<noteq> []" if "i < length ps" for i
    using assms(1) that by (fastforce simp: agg_rec_ok_def list_all_length)
  then show ?thesis using assms(2) by (auto simp: found_cols_def value_col_def intro!: nth_equalityI)
qed

lemma concrete_found:
  "agg_rec_ok env final ms ps ty r \<Longrightarrow>
     sum_list (map (\<lambda>p. length (value_fields env final p (record_columns r))) (map fst ps)) = length ps"
proof -
  assume "agg_rec_ok env final ms ps ty r"
  then have "map (\<lambda>p. length (value_fields env final p (record_columns r))) (map fst ps) = map (\<lambda>_. 1) ps"
    by (auto simp: agg_rec_ok_def list_all_iff)
  then show ?thesis by (simp only:) (simp add: sum_list_triv)
qed

lemma record_fields_ok:
  assumes "agg_rec_ok env final ms ps ty r"
  shows "\<forall>fc \<in> set (record_columns r). list_all (\<lambda>m. matches env m (fst (fst fc)) \<noteq> None) ms \<and>
    list_all (\<lambda>p. aggregates_field env final p (fst (fst fc)) \<noteq> None) (map fst ps)"
proof
  fix fc assume "fc \<in> set (record_columns r)"
  then have "fst fc \<in> set (tr_fields r)" by (metis record_columns_def prod.collapse set_zip_leftD)
  then show "list_all (\<lambda>m. matches env m (fst (fst fc)) \<noteq> None) ms \<and>
    list_all (\<lambda>p. aggregates_field env final p (fst (fst fc)) \<noteq> None) (map fst ps)"
    using assms by (simp add: agg_rec_ok_def list_all_iff)
qed

lemma Callback_ok:
  assumes a: "agg_state_ok ps ty rows a" and r: "agg_rec_ok env (finalStage a) (groupByColumnMatchers a) ps ty r" and ps: "plan_ok ps"
    and vals: "\<forall>row \<in> set rows. length (ar_vals row) = length ps"
    and bytes: "rows_bytes (rows @ agg_rows env (finalStage a) (groupByColumnMatchers a) (map fst ps) r) \<le> MaxInt32"
  shows "\<exists>a'. agg_Callback env r a = Inr a' \<and> agg_state_ok ps ty (rows @ agg_rows env (finalStage a) (groupByColumnMatchers a) (map fst ps) r) a' \<and>
    finalStage a' = finalStage a \<and> groupByColumnMatchers a' = groupByColumnMatchers a"
proof -
  let ?final = "finalStage a" let ?ms = "groupByColumnMatchers a"
  obtain ag where ag: "aggregates a = [ag]" "agg_ok ps ty rows ag" using a by (auto simp: agg_state_ok_def)
  let ?s = "\<lparr>fs_groups = [], fs_aggregate = ag, fs_columns = replicate (length (ha_aggregations ag)) None, fs_concrete = 0, fs_dynamic = 0\<rparr>"
  have scan: "scan_fields env ?final ?ms (record_columns r) ?s = Some \<lparr>fs_groups = group_cols env ?final ?ms r, fs_aggregate = ag,
      fs_columns = map (\<lambda>p. Some (value_col env ?final r (fst p))) ps, fs_concrete = length ps, fs_dynamic = 0\<rparr>"
    using scan_fields_static [of "map fst ps" ?s "record_columns r" env ?ms ?final] record_fields_ok [OF r] agg_ok_static [OF ag(2) ps] ag(2)
      found_cols_ok [OF r] concrete_found [OF r]
    by (simp add: group_cols_def agg_ok_def)
  obtain hcols where hcols: "hash_cols env ?final ?ms r = Some hcols" using r by (auto simp: agg_rec_ok_def)
  have "a\<lparr>aggregates := set_last (aggregates a) ag\<rparr> = a" using ag(1) by (simp add: set_last_def)
  then have "agg_Callback env r a = aggregate_rows hcols (group_cols env ?final ?ms r)
      (map (\<lambda>p. Some (value_col env ?final r (fst p))) ps) [0..<tr_rows r] a"
    using scan hcols ag by (simp add: agg_Callback_def Let_def or_panic_def hash_cols_def record_columns_def agg_ok_def)
  then show ?thesis
    using aggregate_rows_ok [OF r _ hcols a, of "[0..<tr_rows r]"] vals bytes ps by (simp add: plan_ok_def agg_rows_def)
qed

lemma run_callbacks_ok:
  assumes "agg_state_ok ps ty rows a" "list_all (agg_rec_ok env (finalStage a) (groupByColumnMatchers a) ps ty) rs" "plan_ok ps"
    and "\<forall>row \<in> set rows. length (ar_vals row) = length ps"
    and "rows_bytes (rows @ concat (map (agg_rows env (finalStage a) (groupByColumnMatchers a) (map fst ps)) rs)) \<le> MaxInt32"
  shows "\<exists>a'. run_callbacks env rs a = Inr a' \<and>
    agg_state_ok ps ty (rows @ concat (map (agg_rows env (finalStage a) (groupByColumnMatchers a) (map fst ps)) rs)) a' \<and>
    finalStage a' = finalStage a"
  using assms
proof (induction rs arbitrary: rows a)
  case (Cons r rs)
  let ?rows = "agg_rows env (finalStage a) (groupByColumnMatchers a) (map fst ps)"
  obtain a1 where a1: "agg_Callback env r a = Inr a1" "agg_state_ok ps ty (rows @ ?rows r) a1"
      "finalStage a1 = finalStage a" "groupByColumnMatchers a1 = groupByColumnMatchers a"
    using Callback_ok [of ps ty rows a env r] Cons.prems by auto
  have "\<forall>row \<in> set (rows @ ?rows r). length (ar_vals row) = length ps"
    using Cons.prems(4) by (auto simp: agg_rows_def)
  then show ?case using Cons.IH [OF a1(2)] Cons.prems a1 by auto
qed simp

section \<open>Finish\<close>

lemma sorted_hashes_zip:
  "length zs = length hs \<Longrightarrow>
     sorted_hashes idx (zip hs (map (Pair idx) [length ys..<length ys + length hs])) (ys @ zs) = Some (ys @ map sint hs)"
proof (induction hs arbitrary: ys zs)
  case (Cons h hs)
  then obtain z zs' where zs: "zs = z # zs'" "length zs' = length hs" by (cases zs) auto
  have "[length ys..<length ys + length (h # hs)] = length ys # [length (ys @ [sint h])..<length (ys @ [sint h]) + length hs]"
    by (simp add: upt_conv_Cons del: upt_Suc)
  then show ?case
    using Cons.IH [of zs' "ys @ [sint h]"] zs by (simp add: list_update_append del: upt_Suc)
qed simp

lemma sorted_hashes_places:
  "sorted_hashes 0 (group_places rows) (replicate (length (row_hashes rows)) 0) = Some (map sint (row_hashes rows))"
  using sorted_hashes_zip [of "replicate (length (row_hashes rows)) 0" "row_hashes rows" 0 "[]"] by (simp add: group_places_def)

lemma finish_groups_ok:
  assumes "hashToAggregate a = group_places rows" "agg_ok ps ty rows ag" "set names \<subseteq> set (key_names rows)"
  shows "finish_groups a 0 ag names =
    Inr (concat (map (key_column (finalStage a) rows ty) (filter (\<lambda>name. \<not> (finalStage a \<and> IsHashedColumn name)) names)))"
  using assms(3)
proof (induction names)
  case (Cons name names)
  have n: "rowCount ag = length (row_hashes rows)" using assms(2) by (simp add: agg_ok_def)
  have "case map_of (groupByCols ag) name of None \<Rightarrow> name \<notin> set (key_names rows)
     | Some b \<Rightarrow> name \<in> set (key_names rows) \<and> arr_type b = ty name \<and> length (arr_cells b) \<le> length (row_hashes rows) \<and>
         arr_cells (backfill (length (row_hashes rows)) b) = map (key_of name) (leaders rows)"
    using assms(2) unfolding agg_ok_def key_builders_ok_def by blast
  then obtain b where b: "map_of (groupByCols ag) name = Some b" "arr_type b = ty name"
      "arr_cells (backfill (length (row_hashes rows)) b) = map (key_of name) (leaders rows)"
    using Cons.prems by (auto split: option.splits)
  then have "backfill (rowCount ag) b = \<lparr>arr_type = ty name, arr_cells = map (key_of name) (leaders rows)\<rparr>"
    using n by (intro arrow_array.equality) simp_all
  then show ?case
    using Cons b(1) sorted_hashes_places [of rows]
    by (auto simp: key_column_def Let_def assms(1) or_panic_def comp_def)
qed simp

lemma finish_aggregations_ok:
  assumes "j \<le> length ps"
  shows "finish_aggregations env final (map (\<lambda>j. (fst (ps ! j))\<lparr>pa_arrays := group_arrays rows (snd (ps ! j)) j\<rparr>) [j..<length ps]) =
    value_columns env final rows j (drop j ps)"
  using assms
proof (induction rule: inc_induct)
  case (step m)
  have "drop m ps = (fst (ps ! m), snd (ps ! m)) # drop (Suc m) ps" using step by (simp add: Cons_nth_drop_Suc)
  then show ?case using step by (cases "ps ! m") (simp add: upt_conv_Cons del: upt_Suc)
qed simp

lemma runAggregation_length: "runAggregation env final f arrs = Inr arr \<Longrightarrow> length (arr_cells arr) = length arrs"
  by (cases f; cases arrs)
     (auto simp: runAggregation_def SumAggregation_def MinAggregation_def MaxAggregation_def CountAggregation_def
        int64_array_def float64_array_def split: if_splits)

lemma value_columns_length:
  "value_columns env final rows j ps = Inr cols \<Longrightarrow> (f, arr) \<in> set cols \<Longrightarrow>
     snd f = arr_type arr \<and> length (arr_cells arr) = length (row_hashes rows)"
  by (induction env final rows j ps arbitrary: cols rule: value_columns.induct) (auto dest!: runAggregation_length)

lemma key_column_length:
  "(f, arr) \<in> set (key_column final rows ty name) \<Longrightarrow> snd f = arr_type arr \<and> length (arr_cells arr) = length (row_hashes rows)"
  by (auto simp: key_column_def int64_array_def split: if_splits)

lemma row_hashes_empty: "row_hashes rows = [] \<longleftrightarrow> rows = []"
  by (metis set_firsts set_empty row_hashes_def map_is_Nil_conv)

lemma Finish_ok:
  assumes "agg_state_ok ps ty rows a"
  shows "Finish env a = grouped env (finalStage a) ps ty rows"
proof -
  obtain ag where ag: "aggregates a = [ag]" "agg_ok ps ty rows ag" "hashToAggregate a = group_places rows"
    using assms by (auto simp: agg_state_ok_def)
  let ?keys = "concat (map (key_column (finalStage a) rows ty) (filter (\<lambda>name. \<not> (finalStage a \<and> IsHashedColumn name)) (key_names rows)))"
  have n: "rowCount ag = length (row_hashes rows)" "colOrdering ag = key_names rows" using ag(2) by (simp_all add: agg_ok_def)
  have groups: "finish_groups a 0 ag (key_names rows) = Inr ?keys" using finish_groups_ok [OF ag(3,2)] by simp
  have aggs: "finish_aggregations env (finalStage a) (ha_aggregations ag) = value_columns env (finalStage a) rows 0 ps"
    using finish_aggregations_ok [of 0 ps] ag(2) by (simp add: agg_ok_def)
  have rec: "new_record (?keys @ vals) (length (row_hashes rows)) =
      Inr \<lparr>tr_fields = map fst (?keys @ vals), tr_columns = map (Physical \<circ> snd) (?keys @ vals), tr_rows = length (row_hashes rows)\<rparr>"
    if "value_columns env (finalStage a) rows 0 ps = Inr vals" for vals
  proof -
    have "list_all (\<lambda>(f, x). length (row_hashes rows) \<le> length (arr_cells x) \<and> snd f = arr_type x) (?keys @ vals)"
      using value_columns_length [OF that] key_column_length by (fastforce simp: list_all_iff)
    then show ?thesis unfolding new_record_def by (simp only: if_True)
  qed
  have "Finish env a = bind_result (finishAggregate env a 0 ag) (\<lambda>r. Inr (case r of None \<Rightarrow> [] | Some x \<Rightarrow> [x]))"
    using ag(1) by (simp add: Finish_def)
  then show ?thesis
    using rec by (cases "value_columns env (finalStage a) rows 0 ps")
      (simp_all add: finishAggregate_def n groups aggs grouped_def row_hashes_empty Let_def)
qed

lemma NewHashAggregate_ok: "plan_ok ps \<Longrightarrow> agg_state_ok ps ty [] (NewHashAggregate (map fst ps) ms final)"
proof -
  assume "plan_ok ps"
  then have "filter pa_dynamic (map fst ps) = []" "filter (\<lambda>a. \<not> pa_dynamic a) (map fst ps) = map fst ps"
    by (auto simp: plan_ok_def list_all_iff filter_empty_conv)
  moreover have "map fst ps = map (\<lambda>j. (fst (ps ! j))\<lparr>pa_arrays := group_arrays [] (snd (ps ! j)) j\<rparr>) [0..<length ps]"
    using \<open>plan_ok ps\<close> by (auto simp: plan_ok_def list_all_length group_arrays_def row_hashes_def intro!: nth_equalityI)
  ultimately show ?thesis
    by (simp add: NewHashAggregate_def agg_state_ok_def agg_ok_def group_places_def row_hashes_def key_names_def
        leaders_def key_builders_ok_def)
qed

text \<open>C7: For aggregations of concrete columns and records that can be aggregated, together no longer
  than a binary array can be, the hash aggregation ends without an error of its own and gives
  exactly the groups of the reference: one row per hash of the group by columns in the order of
  first occurrence, with the group by values of the first row (nulls where its record lacks the
  column) and the aggregations over all rows with the hash.
\<close>

theorem hash_aggregate_groups:
  assumes "plan_ok ps" "list_all (agg_rec_ok env final ms ps ty) rs"
    and "rows_bytes (concat (map (agg_rows env final ms (map fst ps)) rs)) \<le> MaxInt32"
  shows "hash_aggregate env (NewHashAggregate (map fst ps) ms final) rs =
    grouped env final ps ty (concat (map (agg_rows env final ms (map fst ps)) rs))"
proof -
  let ?a = "NewHashAggregate (map fst ps) ms final"
  have a: "finalStage ?a = final" "groupByColumnMatchers ?a = ms" by (simp_all add: NewHashAggregate_def)
  obtain a' where "run_callbacks env rs ?a = Inr a'" "finalStage a' = final"
      "agg_state_ok ps ty (concat (map (agg_rows env final ms (map fst ps)) rs)) a'"
    using run_callbacks_ok [OF NewHashAggregate_ok [OF assms(1), of ty ms final], of env rs] assms a by auto
  then show ?thesis using Finish_ok by (simp add: hash_aggregate_def)
qed

definition demo_env :: agg_env where
  "demo_env = \<lparr>ae_str = (\<lambda>_. []), ae_regex = (\<lambda>_ _. False), ae_hashers = toy_hashers, ae_field_hash = toy_hash,
     ae_sum_int64 = (\<lambda>xs. sum_list (map word_of_int (Int64Values xs))),
     ae_sum_float64 = (\<lambda>_. 0), ae_float_less = (\<lambda>_ _. False)\<rparr>"

definition sum_v :: PAggregation where
  "sum_v = \<lparr>pa_expr = Column ''v'', pa_dynamic = False, pa_resultName = ''sum(v)'', pa_function = AggFuncSum, pa_arrays = []\<rparr>"

definition two_columns :: "string \<Rightarrow> string \<Rightarrow> string option list \<Rightarrow> int list \<Rightarrow> table_rec" where
  "two_columns name vname keys vals = \<lparr>tr_fields = [(name, T_String), (vname, T_Int64)],
     tr_columns = [Physical \<lparr>arr_type = T_String, arr_cells = map (map_option C_Bytes) keys\<rparr>,
       Physical \<lparr>arr_type = T_Int64, arr_cells = map (Some \<circ> C_Int) vals\<rparr>],
     tr_rows = length vals\<rparr>"

theorem hash_aggregate_groups_witness:
  "hash_aggregate demo_env (NewHashAggregate [sum_v] [DynamicColumn ''l''] True)
     [two_columns ''l.a'' ''sum(v)'' [Some ''x'', None, Some ''x''] [1, 2, 5], two_columns ''l.b'' ''sum(v)'' [Some ''x'', None] [10, 20]] =
   Inr [\<lparr>tr_fields = [(''l.a'', T_String), (''l.b'', T_String), (''sum(v)'', T_Int64)],
     tr_columns = [Physical \<lparr>arr_type = T_String, arr_cells = [Some (C_Bytes ''x''), None, None]\<rparr>,
       Physical \<lparr>arr_type = T_String, arr_cells = [None, None, Some (C_Bytes ''x'')]\<rparr>,
       Physical \<lparr>arr_type = T_Int64, arr_cells = [Some (C_Int 6), Some (C_Int 22), Some (C_Int 10)]\<rparr>],
     tr_rows = 3\<rparr>]"
proof -
  let ?rs = "[two_columns ''l.a'' ''sum(v)'' [Some ''x'', None, Some ''x''] [1, 2, 5], two_columns ''l.b'' ''sum(v)'' [Some ''x'', None] [10, 20]]"
  let ?rows = "concat (map (agg_rows demo_env True [DynamicColumn ''l''] [sum_v]) ?rs)"
  have "plan_ok [(sum_v, T_Int64)]" by code_simp
  moreover have "list_all (agg_rec_ok demo_env True [DynamicColumn ''l''] [(sum_v, T_Int64)] (\<lambda>_. T_String)) ?rs" by code_simp
  moreover have "rows_bytes ?rows = 3" by code_simp
  then have "rows_bytes ?rows \<le> MaxInt32" by (simp add: MaxInt32_def)
  ultimately have "hash_aggregate demo_env (NewHashAggregate [sum_v] [DynamicColumn ''l''] True) ?rs =
      grouped demo_env True [(sum_v, T_Int64)] (\<lambda>_. T_String) ?rows"
    using hash_aggregate_groups [of "[(sum_v, T_Int64)]"] by simp
  also have "\<dots> = Inr [\<lparr>tr_fields = [(''l.a'', T_String), (''l.b'', T_String), (''sum(v)'', T_Int64)],
     tr_columns = [Physical \<lparr>arr_type = T_String, arr_cells = [Some (C_Bytes ''x''), None, None]\<rparr>,
       Physical \<lparr>arr_type = T_String, arr_cells = [None, None, Some (C_Bytes ''x'')]\<rparr>,
       Physical \<lparr>arr_type = T_Int64, arr_cells = [Some (C_Int 6), Some (C_Int 22), Some (C_Int 10)]\<rparr>],
     tr_rows = 3\<rparr>]" by code_simp
  finally show ?thesis .
qed

end
