(* ===== verification/Hash_Stages.thy ===== *)
theory Hash_Stages
  imports Hash_Groups
begin

text \<open>
  Aggregating in two stages: every input of a query aggregates its own records, and a final
  hash aggregation combines their results. For columns of numbers this gives the groups of
  one aggregation over all rows when the inputs have the same group by columns.
\<close>

section \<open>Aggregation functions over numbers\<close>

text \<open>What Arrow's \<open>math.Int64.Sum\<close> promises: the sum of the values, nulls left out, with wrap-around.\<close>

definition sums_int64 :: "agg_env \<Rightarrow> bool" where
  "sums_int64 env \<longleftrightarrow> (\<forall>cells. ae_sum_int64 env cells = sum_list (map word_of_int (Int64Values cells)))"

fun agg_value :: "agg_env \<Rightarrow> AggFunc \<Rightarrow> cell option list \<Rightarrow> int" where
  "agg_value env AggFuncSum cells = sint (ae_sum_int64 env cells)"
| "agg_value env AggFuncMin cells = minInt64array cells"
| "agg_value env AggFuncMax cells = maxInt64array cells"
| "agg_value env _ cells = int (length cells)"

definition supported :: "AggFunc \<Rightarrow> bool" where
  "supported f \<longleftrightarrow> f \<in> {AggFuncSum, AggFuncMin, AggFuncMax, AggFuncCount}"

definition final_function :: "AggFunc \<Rightarrow> AggFunc" where
  "final_function f = (if f = AggFuncCount then AggFuncSum else f)"

lemma runAggregation_int64:
  assumes "supported f" "css \<noteq> []" "[] \<notin> set css"
  shows "runAggregation env final f (map int64_array css) =
    Inr (int64_array (map (\<lambda>cs. Some (C_Int (agg_value env (if final then final_function f else f) cs))) css))"
proof -
  obtain c cs where css: "css = c # cs" using assms(2) by (cases css) auto
  have "or_null g (int64_array x) = Some (g x)" if "x \<in> set css" for g x
    using that assms(3) by (auto simp: or_null_def int64_array_def)
  then show ?thesis
    using assms(1) css
    by (auto simp: supported_def final_function_def runAggregation_def SumAggregation_def MinAggregation_def MaxAggregation_def
        CountAggregation_def int64_array_def)
qed

lemma fold_min: "fold (\<lambda>v m. if v < m then v else m) vs (m :: int) = fold min vs m"
  by (induction vs arbitrary: m) (auto simp: min_def not_less)

lemma fold_max: "fold (\<lambda>v m. if m < v then v else m) vs (m :: int) = fold max vs m"
  by (induction vs arbitrary: m) (auto simp: max_def not_less)

lemma best_Min: "vs \<noteq> [] \<Longrightarrow> best (<) vs = Min (set (vs :: int list))"
proof -
  assume "vs \<noteq> []"
  then obtain v ws where "vs = v # ws" by (cases vs) auto
  then show ?thesis using Min.set_eq_fold [of v ws] by (simp add: best_def fold_min)
qed

lemma best_Max: "vs \<noteq> [] \<Longrightarrow> best (>) vs = Max (set (vs :: int list))"
proof -
  assume "vs \<noteq> []"
  then obtain v ws where "vs = v # ws" by (cases vs) auto
  then show ?thesis using Max.set_eq_fold [of v ws] by (simp add: best_def fold_max)
qed

lemma Int64Values_map [simp]: "Int64Values (map (\<lambda>x. Some (C_Int (g x))) xs) = map g xs"
  by (simp add: Int64Values_def)

lemma Int64Values_simps [simp]:
  "Int64Values (xs @ ys) = Int64Values xs @ Int64Values ys"
  "Int64Values xs = [] \<longleftrightarrow> xs = []"
  by (simp_all add: Int64Values_def)

lemma Int64Values_concat: "Int64Values (concat css) = concat (map Int64Values css)"
  by (induction css) (simp_all add: Int64Values_def)

lemma Min_parts:
  assumes "parts \<noteq> []" "[] \<notin> set parts"
  shows "Min (set (map (\<lambda>vs. Min (set vs)) parts)) = Min (set (concat (parts :: int list list)))"
  using assms
proof (induction parts)
  case (Cons vs parts)
  show ?case
  proof (cases "parts = []")
    case False
    then have "concat parts \<noteq> []" using Cons.prems by (cases parts) auto
    then have "set (concat parts) \<noteq> {}" by (simp only: set_empty not_False_eq_True)
    moreover have "set vs \<noteq> {}" using Cons.prems by auto
    ultimately have "Min (set (concat (vs # parts))) = min (Min (set vs)) (Min (set (concat parts)))"
      by (simp add: Min_Un del: set_concat)
    then show ?thesis using Cons False by simp
  qed simp
qed simp

lemma Max_parts:
  assumes "parts \<noteq> []" "[] \<notin> set parts"
  shows "Max (set (map (\<lambda>vs. Max (set vs)) parts)) = Max (set (concat (parts :: int list list)))"
  using assms
proof (induction parts)
  case (Cons vs parts)
  show ?case
  proof (cases "parts = []")
    case False
    then have "concat parts \<noteq> []" using Cons.prems by (cases parts) auto
    then have "set (concat parts) \<noteq> {}" by (simp only: set_empty not_False_eq_True)
    moreover have "set vs \<noteq> {}" using Cons.prems by auto
    ultimately have "Max (set (concat (vs # parts))) = max (Max (set vs)) (Max (set (concat parts)))"
      by (simp add: Max_Un del: set_concat)
    then show ?thesis using Cons False by simp
  qed simp
qed simp

lemma sum_parts: "sum_list (map word_of_int (concat parts)) = sum_list (map (\<lambda>vs. sum_list (map word_of_int vs)) parts)"
  for parts :: "int list list"
  by (induction parts) simp_all

lemma count_parts: "sum_list (map (\<lambda>vs. word_of_int (int (length vs))) parts) = (word_of_int (int (length (concat parts))) :: 64 word)"
  by (induction parts) simp_all

lemma sint_int64: "- (2 ^ 63) \<le> v \<Longrightarrow> v < 2 ^ 63 \<Longrightarrow> sint (word_of_int v :: int64) = v"
  by (simp add: sint_sbintrunc' signed_take_bit_int_eq_self)

lemma nonempty_parts: "css \<noteq> [] \<Longrightarrow> [] \<notin> set css \<Longrightarrow> concat css \<noteq> []"
  by (cases css) auto

text \<open>Aggregating the results of the parts is aggregating all the values.\<close>

lemma agg_value_parts:
  assumes "sums_int64 env" "supported f" "css \<noteq> []" "[] \<notin> set css" "length (concat css) < 2 ^ 63"
  shows "agg_value env (final_function f) (map (\<lambda>cs. Some (C_Int (agg_value env f cs))) css) = agg_value env f (concat css)"
proof -
  have ne: "map Int64Values css \<noteq> []" "[] \<notin> set (map Int64Values css)" "Int64Values (concat css) \<noteq> []"
    using assms(3,4) nonempty_parts [OF assms(3,4)] by (auto simp del: concat_eq_Nil_conv) (metis Int64Values_simps(2))
  consider "f = AggFuncSum" | "f = AggFuncMin" | "f = AggFuncMax" | "f = AggFuncCount"
    using assms(2) by (auto simp: supported_def)
  then show ?thesis
  proof cases
    case 1
    have "(sum_list (map word_of_int (Int64Values (concat css))) :: int64) =
        sum_list (map (\<lambda>cs. sum_list (map word_of_int (Int64Values cs))) css)"
      using sum_parts [of "map Int64Values css"] by (simp add: Int64Values_concat comp_def)
    then show ?thesis using 1 assms(1) by (simp add: sums_int64_def final_function_def comp_def)
  next
    case 2
    have "map (\<lambda>cs. best (<) (Int64Values cs)) css = map (\<lambda>vs. Min (set vs)) (map Int64Values css)"
      using assms(4) by (auto intro!: best_Min)
    then show ?thesis
      using 2 ne Min_parts [OF ne(1,2)] assms(3)
      by (simp add: final_function_def minInt64array_def best_Min Int64Values_concat del: set_concat)
  next
    case 3
    have "map (\<lambda>cs. best (>) (Int64Values cs)) css = map (\<lambda>vs. Max (set vs)) (map Int64Values css)"
      using assms(4) by (auto intro!: best_Max)
    then show ?thesis
      using 3 ne Max_parts [OF ne(1,2)] assms(3)
      by (simp add: final_function_def maxInt64array_def best_Max Int64Values_concat del: set_concat)
  next
    case 4
    have "sint (word_of_int (int (length (concat css))) :: 64 word) = int (length (concat css))"
      using assms(5) by (intro sint_int64) auto
    then show ?thesis
      using 4 assms(1) count_parts [of css] by (simp add: sums_int64_def final_function_def comp_def)
  qed
qed

section \<open>The rows of a partial result\<close>

text \<open>The hash that the final stage gives to a group with the hash \<open>h\<close>.\<close>

definition final_hash :: "agg_env \<Rightarrow> string list \<Rightarrow> uint64 \<Rightarrow> uint64" where
  "final_hash env names h =
     (if h = 0 then 0 else fold (\<lambda>n acc. hashCombine acc (hashCombine (ae_field_hash env n) h)) names 0)"

definition partial_row :: "agg_env \<Rightarrow> string list \<Rightarrow> AggFunc list \<Rightarrow> agg_row list \<Rightarrow> uint64 \<Rightarrow> agg_row" where
  "partial_row env names fs rows h =
     \<lparr>ar_hash = final_hash env names h,
      ar_keys = map (\<lambda>n. (n, key_of n (hd (rows_with rows h)))) names,
      ar_vals = map (\<lambda>j. Some (C_Int (agg_value env (fs ! j) (map (\<lambda>row. ar_vals row ! j) (rows_with rows h))))) [0..<length fs]\<rparr>"

definition partial_rows :: "agg_env \<Rightarrow> string list \<Rightarrow> AggFunc list \<Rightarrow> agg_row list \<Rightarrow> agg_row list" where
  "partial_rows env names fs rows = map (partial_row env names fs rows) (row_hashes rows)"

section \<open>Groups of partial rows\<close>

lemma filter_inj_singleton:
  "distinct xs \<Longrightarrow> inj_on f (insert x (set xs)) \<Longrightarrow> filter (\<lambda>y. f y = f x) xs = (if x \<in> set xs then [x] else [])"
proof (induction xs)
  case (Cons y ys)
  have "f y = f x \<longleftrightarrow> y = x" using Cons.prems(2) by (auto simp: inj_on_def)
  moreover have "inj_on f (insert x (set ys))" using Cons.prems(2) by (auto simp: inj_on_def)
  ultimately show ?case using Cons by auto
qed simp

lemma firsts_map: "inj_on f (set xs) \<Longrightarrow> firsts (map f xs) = map f (firsts xs)"
proof (induction xs rule: rev_induct)
  case (snoc x xs)
  have "f x \<in> f ` set xs \<longleftrightarrow> x \<in> set xs" using snoc.prems by (auto simp: inj_on_def)
  moreover have "inj_on f (set xs)" using snoc.prems by (auto simp: inj_on_def)
  ultimately show ?case using snoc.IH by (simp add: firsts_snoc)
qed simp

lemma firsts_firsts [simp]: "firsts (firsts xs) = firsts xs"
  by (simp add: firsts_distinct)

lemma firsts_concat: "firsts (concat (map firsts xss)) = firsts (concat xss)"
proof (induction xss rule: rev_induct)
  case (snoc xs xss)
  have "set (concat (map firsts xss)) = set (concat xss)" by auto
  then show ?case using snoc by (simp add: firsts_append del: set_concat)
qed simp

lemma rows_with_append: "rows_with (xs @ ys) h = rows_with xs h @ rows_with ys h"
  by (simp add: rows_with_def)

lemma rows_with_concat:
  "rows_with (concat rowss) h = concat (map (\<lambda>rows. rows_with rows h) (filter (\<lambda>rows. h \<in> set (row_hashes rows)) rowss))"
proof (induction rowss)
  case (Cons rows rowss)
  have "rows_with rows h = []" if "h \<notin> set (row_hashes rows)"
    using that rows_with_nonempty [of h rows] by (simp add: row_hashes_def)
  then show ?case using Cons by (auto simp: rows_with_append)
qed (simp add: rows_with_def)

lemma row_hashes_concat: "row_hashes (concat rowss) = firsts (concat (map row_hashes rowss))"
proof -
  have "map row_hashes rowss = map firsts (map (map ar_hash) rowss)" by (simp add: row_hashes_def)
  then show ?thesis unfolding row_hashes_def [of "concat rowss"] map_concat by (simp only: firsts_concat)
qed

lemma partial_rows_with:
  assumes "inj_on (final_hash env names) (insert h (set (row_hashes rows)))"
  shows "rows_with (partial_rows env names fs rows) (final_hash env names h) =
    (if h \<in> set (row_hashes rows) then [partial_row env names fs rows h] else [])"
proof -
  have "rows_with (partial_rows env names fs rows) (final_hash env names h) =
      map (partial_row env names fs rows) (filter (\<lambda>y. final_hash env names y = final_hash env names h) (row_hashes rows))"
    by (simp add: rows_with_def partial_rows_def filter_map comp_def partial_row_def)
  then show ?thesis using filter_inj_singleton [OF _ assms] by simp
qed

lemma all_partial_rows_with:
  assumes "inj_on (final_hash env names) (set (row_hashes (concat rowss)))" "h \<in> set (row_hashes (concat rowss))"
  shows "rows_with (concat (map (partial_rows env names fs) rowss)) (final_hash env names h) =
    map (\<lambda>rows. partial_row env names fs rows h) (filter (\<lambda>rows. h \<in> set (row_hashes rows)) rowss)"
proof -
  have "inj_on (final_hash env names) (insert h (set (row_hashes rows)))" if "rows \<in> set rowss" for rows
    using assms that by (intro inj_on_subset [OF assms(1)]) (auto simp: row_hashes_concat)
  then have "map (\<lambda>rows. rows_with (partial_rows env names fs rows) (final_hash env names h)) rowss =
      map (\<lambda>rows. if h \<in> set (row_hashes rows) then [partial_row env names fs rows h] else []) rowss"
    by (intro map_cong refl) (simp add: partial_rows_with)
  moreover have "rows_with (concat xss) k = concat (map (\<lambda>xs. rows_with xs k) xss)" for xss k
    by (induction xss) (simp_all add: rows_with_def)
  moreover have "concat (map (\<lambda>rows. if P rows then [g rows] else []) xs) = map g (filter P xs)" for P xs and g :: "agg_row list \<Rightarrow> agg_row"
    by (induction xs) simp_all
  ultimately show ?thesis by (simp only: map_map comp_def)
qed

lemma partial_row_hashes:
  assumes "inj_on (final_hash env names) (set (row_hashes (concat rowss)))"
  shows "row_hashes (concat (map (partial_rows env names fs) rowss)) = map (final_hash env names) (row_hashes (concat rowss))"
proof -
  have "map ar_hash (concat (map (partial_rows env names fs) rowss)) = map (final_hash env names) (concat (map row_hashes rowss))"
    by (induction rowss) (simp_all add: partial_rows_def partial_row_def)
  moreover have "inj_on (final_hash env names) (set (concat (map row_hashes rowss)))"
    using assms by (simp only: row_hashes_concat set_firsts)
  ultimately show ?thesis
    unfolding row_hashes_def [of "concat (map (partial_rows env names fs) rowss)"] row_hashes_concat [of rowss]
    by (simp only: firsts_map)
qed

lemma rows_of_hash_nonempty: "h \<in> set (row_hashes rows) \<Longrightarrow> rows_with rows h \<noteq> []"
  using rows_with_nonempty [of h rows] by (simp add: row_hashes_def)

lemma inputs_of_hash:
  assumes "h \<in> set (row_hashes (concat rowss))"
  shows "filter (\<lambda>rows. h \<in> set (row_hashes rows)) rowss \<noteq> []"
  using assms by (auto simp: row_hashes_concat filter_empty_conv)

lemma key_of_partial_row: "n \<in> set names \<Longrightarrow> key_of n (partial_row env names fs rows h) = key_of n (hd (rows_with rows h))"
  unfolding key_of_def [of n "partial_row env names fs rows h"]
  by (simp add: partial_row_def map_of_map_restrict restrict_map_def)

lemma leaders_partial:
  assumes "inj_on (final_hash env names) (set (row_hashes (concat rowss)))" "n \<in> set names"
  shows "map (key_of n) (leaders (concat (map (partial_rows env names fs) rowss))) = map (key_of n) (leaders (concat rowss))"
proof -
  have "key_of n (hd (rows_with (concat (map (partial_rows env names fs) rowss)) (final_hash env names h))) =
      key_of n (hd (rows_with (concat rowss) h))" if h: "h \<in> set (row_hashes (concat rowss))" for h
  proof -
    obtain rows rest where r: "filter (\<lambda>rows. h \<in> set (row_hashes rows)) rowss = rows # rest"
      using inputs_of_hash [OF h] by (cases "filter (\<lambda>rows. h \<in> set (row_hashes rows)) rowss") auto
    then have "h \<in> set (row_hashes rows)" by (auto simp: filter_eq_Cons_iff)
    then show ?thesis
      using all_partial_rows_with [OF assms(1) h] r rows_of_hash_nonempty [of h rows] assms(2)
      by (simp add: rows_with_concat [of rowss] key_of_partial_row)
  qed
  then show ?thesis using assms(1) by (simp add: leaders_def partial_row_hashes)
qed

lemma values_partial:
  assumes env: "sums_int64 env" and inj: "inj_on (final_hash env names) (set (row_hashes (concat rowss)))"
    and f: "j < length fs" "supported (fs ! j)" and rows: "concat rowss \<noteq> []" "length (concat rowss) < 2 ^ 63"
  shows "runAggregation env True (fs ! j) (group_arrays (concat (map (partial_rows env names fs) rowss)) T_Int64 j) =
    runAggregation env False (fs ! j) (group_arrays (concat rowss) T_Int64 j)"
proof -
  let ?hs = "row_hashes (concat rowss)"
  let ?css = "map (\<lambda>h. map (\<lambda>row. ar_vals row ! j) (rows_with (concat rowss) h)) ?hs"
  let ?dss = "map (\<lambda>h. map (\<lambda>row. ar_vals row ! j) (rows_with (concat (map (partial_rows env names fs) rowss)) (final_hash env names h))) ?hs"
  have gv: "group_arrays (concat rowss) T_Int64 j = map int64_array ?css"
    "group_arrays (concat (map (partial_rows env names fs) rowss)) T_Int64 j = map int64_array ?dss"
    by (simp_all only: group_arrays_def int64_array_def partial_row_hashes [OF inj] map_map comp_def)
  have ne: "?css \<noteq> []" "?dss \<noteq> []" using rows(1) by (auto simp: row_hashes_empty simp del: concat_eq_Nil_conv)
  have val: "agg_value env (final_function (fs ! j)) (map (\<lambda>row. ar_vals row ! j) (rows_with (concat (map (partial_rows env names fs) rowss)) (final_hash env names h))) =
      agg_value env (fs ! j) (map (\<lambda>row. ar_vals row ! j) (rows_with (concat rowss) h))"
    and "map (\<lambda>row. ar_vals row ! j) (rows_with (concat (map (partial_rows env names fs) rowss)) (final_hash env names h)) \<noteq> []"
    and "map (\<lambda>row. ar_vals row ! j) (rows_with (concat rowss) h) \<noteq> []"
    if h: "h \<in> set ?hs" for h
  proof -
    let ?in = "filter (\<lambda>rows. h \<in> set (row_hashes rows)) rowss"
    let ?parts = "map (\<lambda>rows. map (\<lambda>row. ar_vals row ! j) (rows_with rows h)) ?in"
    have parts: "map (\<lambda>row. ar_vals row ! j) (rows_with (concat (map (partial_rows env names fs) rowss)) (final_hash env names h)) =
        map (\<lambda>cs. Some (C_Int (agg_value env (fs ! j) cs))) ?parts"
      using f(1) by (simp add: all_partial_rows_with [OF inj h] partial_row_def)
    have all: "map (\<lambda>row. ar_vals row ! j) (rows_with (concat rowss) h) = concat ?parts"
      by (simp add: rows_with_concat map_concat comp_def)
    have in_ne: "?parts \<noteq> []" "[] \<notin> set ?parts" using inputs_of_hash [OF h] rows_of_hash_nonempty by auto
    have "length (concat ?parts) = length (rows_with (concat rowss) h)"
      unfolding all [symmetric] by simp
    also have "\<dots> \<le> length (concat rowss)" by (simp add: rows_with_def del: filter_concat)
    finally have "length (concat ?parts) < 2 ^ 63" using rows(2) by linarith
    then show "agg_value env (final_function (fs ! j)) (map (\<lambda>row. ar_vals row ! j) (rows_with (concat (map (partial_rows env names fs) rowss)) (final_hash env names h))) =
      agg_value env (fs ! j) (map (\<lambda>row. ar_vals row ! j) (rows_with (concat rowss) h))"
      unfolding parts all by (intro agg_value_parts env f(2) in_ne)
    show "map (\<lambda>row. ar_vals row ! j) (rows_with (concat (map (partial_rows env names fs) rowss)) (final_hash env names h)) \<noteq> []"
      unfolding parts using in_ne by simp
    show "map (\<lambda>row. ar_vals row ! j) (rows_with (concat rowss) h) \<noteq> []" using rows_of_hash_nonempty [OF h] by simp
  qed
  then have ne': "[] \<notin> set ?css" "[] \<notin> set ?dss" by auto
  show ?thesis
    unfolding gv runAggregation_int64 [OF f(2) ne(1) ne'(1)] runAggregation_int64 [OF f(2) ne(2) ne'(2)]
    using val by (simp cong: map_cong)
qed

lemma firsts_repeat: "distinct names \<Longrightarrow> xs \<noteq> [] \<Longrightarrow> firsts (concat (map (\<lambda>_. names) xs)) = names"
proof (induction xs rule: rev_induct)
  case (snoc x xs)
  then show ?case by (cases "xs = []") (auto simp: firsts_append firsts_distinct filter_empty_conv)
qed simp

lemma leader_in: "h \<in> set (row_hashes rows) \<Longrightarrow> hd (rows_with rows h) \<in> set (leaders rows)"
  by (simp add: leaders_def)

lemma leaders_in: "set (leaders rows) \<subseteq> set rows"
proof
  fix l assume "l \<in> set (leaders rows)"
  then obtain h where "h \<in> set (row_hashes rows)" "l = hd (rows_with rows h)" by (auto simp: leaders_def)
  then have "l \<in> set (rows_with rows h)" using rows_of_hash_nonempty by simp
  then show "l \<in> set rows" by (simp add: rows_with_def)
qed

lemma leaders_append:
  "leaders (xs @ ys) = leaders xs @ map (\<lambda>h. hd (rows_with (xs @ ys) h)) (filter (\<lambda>h. h \<notin> set (row_hashes xs)) (row_hashes ys))"
proof -
  have "hd (rows_with (xs @ ys) h) = hd (rows_with xs h)" if "h \<in> set (row_hashes xs)" for h
    using rows_of_hash_nonempty [OF that] by (simp add: rows_with_append)
  then show ?thesis by (simp add: leaders_def row_hashes_def firsts_append)
qed

lemma leader_of_input:
  assumes "l \<in> set (leaders (concat rowss))"
  shows "\<exists>rows \<in> set rowss. l \<in> set (leaders rows)"
proof -
  obtain h where h: "h \<in> set (row_hashes (concat rowss))" "l = hd (rows_with (concat rowss) h)"
    using assms by (auto simp: leaders_def)
  obtain rows rest where r: "filter (\<lambda>rows. h \<in> set (row_hashes rows)) rowss = rows # rest"
    using inputs_of_hash [OF h(1)] by (cases "filter (\<lambda>rows. h \<in> set (row_hashes rows)) rowss") auto
  then have "h \<in> set (row_hashes rows)" "rows \<in> set rowss" by (auto simp: filter_eq_Cons_iff)
  moreover have "l = hd (rows_with rows h)"
    using h(2) r rows_of_hash_nonempty [of h rows] calculation by (simp add: rows_with_concat)
  ultimately show ?thesis using leader_in by blast
qed

lemma key_names_concat:
  assumes "rowss \<noteq> []" "\<forall>rows \<in> set rowss. key_names rows = names"
  shows "key_names (concat rowss) = names"
proof -
  obtain rows rest where r: "rowss = rows # rest" using assms(1) by (cases rowss) auto
  let ?keys = "map fst \<circ> ar_keys"
  obtain ls where ls: "leaders (concat rowss) = leaders rows @ ls" using leaders_append r by auto
  have "set (?keys l) \<subseteq> set names" if l: "l \<in> set (leaders (concat rowss))" for l
  proof -
    obtain rows' where "rows' \<in> set rowss" "l \<in> set (leaders rows')" using leader_of_input [OF l] by blast
    then have "set (?keys l) \<subseteq> set (key_names rows')" by (auto simp: key_names_def)
    then show ?thesis using assms(2) \<open>rows' \<in> set rowss\<close> by simp
  qed
  then have "set (concat (map ?keys ls)) \<subseteq> set names" using ls by fastforce
  moreover have "firsts (concat (map ?keys (leaders rows))) = names"
    using assms(2) r by (simp add: key_names_def)
  moreover from this have "set (concat (map ?keys (leaders rows))) = set names" using set_firsts by metis
  ultimately have "filter (\<lambda>y. y \<notin> set (concat (map ?keys (leaders rows)))) (firsts (concat (map ?keys ls))) = []"
    by (simp only: filter_empty_conv set_firsts) blast
  then show ?thesis
    using \<open>firsts (concat (map ?keys (leaders rows))) = names\<close>
    unfolding key_names_def ls map_append concat_append firsts_append by (simp only: append_Nil2)
qed

lemma key_names_partial:
  assumes "distinct names" "concat rowss \<noteq> []" "inj_on (final_hash env names) (set (row_hashes (concat rowss)))"
  shows "key_names (concat (map (partial_rows env names fs) rowss)) = names"
proof -
  let ?B = "concat (map (partial_rows env names fs) rowss)"
  have "map fst (ar_keys l) = names" if "l \<in> set (leaders ?B)" for l
    using that leaders_in [of ?B] by (auto simp: partial_rows_def partial_row_def comp_def)
  then have "map (map fst \<circ> ar_keys) (leaders ?B) = map (\<lambda>_. names) (leaders ?B)" by simp
  moreover have "leaders ?B \<noteq> []"
    using assms(2,3) by (auto simp: leaders_def partial_row_hashes row_hashes_empty simp del: concat_eq_Nil_conv)
  ultimately show ?thesis unfolding key_names_def by (simp only: firsts_repeat [OF assms(1)] not_False_eq_True)
qed

lemma value_columns_partial:
  assumes "sums_int64 env" "inj_on (final_hash env names) (set (row_hashes (concat rowss)))"
    and "concat rowss \<noteq> []" "length (concat rowss) < 2 ^ 63"
    and "list_all (\<lambda>p. supported (pa_function (fst p)) \<and> snd p = T_Int64) ps"
    and "fs = gs @ map (pa_function \<circ> fst) ps" "length gs = j"
  shows "value_columns env True (concat (map (partial_rows env names fs) rowss)) j ps = value_columns env False (concat rowss) j ps"
  using assms(5-7)
proof (induction ps arbitrary: gs j)
  case (Cons p ps)
  obtain q ty where p: "p = (q, ty)" by fastforce
  have "runAggregation env True (fs ! j) (group_arrays (concat (map (partial_rows env names fs) rowss)) T_Int64 j) =
      runAggregation env False (fs ! j) (group_arrays (concat rowss) T_Int64 j)"
    using Cons.prems by (intro values_partial assms(1-4)) (auto simp: nth_append)
  moreover have "fs ! j = pa_function q" "ty = T_Int64" using Cons.prems p by (auto simp: nth_append)
  moreover have "value_columns env True (concat (map (partial_rows env names fs) rowss)) (Suc j) ps =
      value_columns env False (concat rowss) (Suc j) ps"
    using Cons.prems by (intro Cons.IH [of "gs @ [pa_function (fst p)]"]) auto
  ultimately show ?case by (simp add: p)
qed simp

section \<open>The record of a partial result\<close>

abbreviation hashes_array :: "agg_row list \<Rightarrow> arrow_array" where
  "hashes_array rows \<equiv> int64_array (map (\<lambda>h. Some (C_Int (sint h))) (row_hashes rows))"

definition values_array :: "agg_env \<Rightarrow> AggFunc \<Rightarrow> nat \<Rightarrow> agg_row list \<Rightarrow> arrow_array" where
  "values_array env f j rows =
     int64_array (map (\<lambda>h. Some (C_Int (agg_value env f (map (\<lambda>row. ar_vals row ! j) (rows_with rows h))))) (row_hashes rows))"

definition value_entries :: "agg_env \<Rightarrow> (PAggregation \<times> arrow_type) list \<Rightarrow> agg_row list \<Rightarrow> ((string \<times> arrow_type) \<times> arrow_array) list" where
  "value_entries env ps rows =
     map (\<lambda>j. ((pa_resultName (fst (ps ! j)), T_Int64), values_array env (pa_function (fst (ps ! j))) j rows)) [0..<length ps]"

definition int_plan :: "(PAggregation \<times> arrow_type) list \<Rightarrow> bool" where
  "int_plan ps \<longleftrightarrow> plan_ok ps \<and> list_all (\<lambda>p. supported (pa_function (fst p)) \<and> snd p = T_Int64) ps"

lemma value_columns_int64:
  assumes "list_all (\<lambda>p. supported (pa_function (fst p)) \<and> snd p = T_Int64) ps" "rows \<noteq> []" "j \<le> length ps"
  shows "value_columns env False rows j (drop j ps) =
    Inr (map (\<lambda>j. ((pa_resultName (fst (ps ! j)), T_Int64), values_array env (pa_function (fst (ps ! j))) j rows)) [j..<length ps])"
  using assms(3)
proof (induction rule: inc_induct)
  case (step m)
  have d: "drop m ps = ps ! m # drop (Suc m) ps" using step by (simp add: Cons_nth_drop_Suc)
  let ?css = "map (\<lambda>h. map (\<lambda>row. ar_vals row ! m) (rows_with rows h)) (row_hashes rows)"
  have css: "?css \<noteq> []" "[] \<notin> set ?css" using assms(2) rows_of_hash_nonempty by (auto simp: row_hashes_empty)
  have f: "supported (pa_function (fst (ps ! m)))" using assms(1) step.hyps(2) by (simp add: list_all_length)
  have "group_arrays rows T_Int64 m = map int64_array ?css" by (simp add: group_arrays_def int64_array_def)
  then have "runAggregation env False (pa_function (fst (ps ! m))) (group_arrays rows T_Int64 m) =
      Inr (values_array env (pa_function (fst (ps ! m))) m rows)"
    using runAggregation_int64 [OF f css, of env False] by (simp add: values_array_def comp_def)
  moreover have "snd (ps ! m) = T_Int64" using assms(1) step.hyps(2) by (simp add: list_all_length)
  ultimately show ?case
    using step d by (cases "ps ! m") (simp add: upt_conv_Cons values_array_def int64_array_def del: upt_Suc)
qed simp

definition part_columns :: "agg_env \<Rightarrow> (PAggregation \<times> arrow_type) list \<Rightarrow> (string \<Rightarrow> arrow_type) \<Rightarrow> agg_row list \<Rightarrow> ((string \<times> arrow_type) \<times> arrow_array) list" where
  "part_columns env ps ty rows = concat (map (key_column False rows ty) (key_names rows)) @ value_entries env ps rows"

definition record_of :: "((string \<times> arrow_type) \<times> arrow_array) list \<Rightarrow> nat \<Rightarrow> table_rec" where
  "record_of cols n = \<lparr>tr_fields = map fst cols, tr_columns = map (Physical \<circ> snd) cols, tr_rows = n\<rparr>"

definition part :: "agg_env \<Rightarrow> (PAggregation \<times> arrow_type) list \<Rightarrow> (string \<Rightarrow> arrow_type) \<Rightarrow> agg_row list \<Rightarrow> table_rec" where
  "part env ps ty rows = record_of (part_columns env ps ty rows) (length (row_hashes rows))"

lemma grouped_part: "int_plan ps \<Longrightarrow> rows \<noteq> [] \<Longrightarrow> grouped env False ps ty rows = Inr [part env ps ty rows]"
  using value_columns_int64 [of ps rows 0 env]
  by (simp add: grouped_def int_plan_def part_def part_columns_def record_of_def value_entries_def)

lemma record_columns_of: "record_columns (record_of cols n) = map (\<lambda>x. (fst x, Physical (snd x))) cols"
  by (simp add: record_columns_def record_of_def zip_map_map zip_same_conv_map)

text \<open>
  The columns of a partial result do not confuse the final stage: one group by expression matches
  a group by column, none a column of hashes or of values, and the names are all different.
\<close>

definition names_ok :: "agg_env \<Rightarrow> Expr list \<Rightarrow> (PAggregation \<times> arrow_type) list \<Rightarrow> string list \<Rightarrow> bool" where
  "names_ok env ms ps names \<longleftrightarrow>
     distinct (map (pa_resultName \<circ> fst) ps) \<and>
     list_all (\<lambda>n. length (filter (\<lambda>m. matches env m n = Some True) ms) = 1 \<and>
       list_all (\<lambda>m. matches env m n \<noteq> None \<and> matches env m (HashedColumnName n) = Some False) ms \<and>
       \<not> IsHashedColumn n \<and> list_all (\<lambda>p. pa_resultName (fst p) \<noteq> n) ps) names \<and>
     list_all (\<lambda>p. \<not> IsHashedColumn (pa_resultName (fst p)) \<and>
       list_all (\<lambda>m. matches env m (pa_resultName (fst p)) = Some False) ms) ps"

abbreviation keys_array :: "(string \<Rightarrow> arrow_type) \<Rightarrow> agg_row list \<Rightarrow> string \<Rightarrow> arrow_array" where
  "keys_array ty rows n \<equiv> \<lparr>arr_type = ty n, arr_cells = map (key_of n) (leaders rows)\<rparr>"

lemma part_columns_in:
  "x \<in> set (part_columns env ps ty rows) \<longleftrightarrow>
     (\<exists>n \<in> set (key_names rows). x = ((n, ty n), keys_array ty rows n) \<or> x = ((HashedColumnName n, T_Int64), hashes_array rows)) \<or>
     (\<exists>j < length ps. x = ((pa_resultName (fst (ps ! j)), T_Int64), values_array env (pa_function (fst (ps ! j))) j rows))"
  by (auto simp: part_columns_def value_entries_def key_column_def)

lemma part_group_cols:
  assumes "names_ok env ms ps (key_names rows)"
  shows "group_cols env True ms (part env ps ty rows) =
    map (\<lambda>n. ((n, ty n), Physical (keys_array ty rows n), uint64HashCombine (ae_field_hash env n))) (key_names rows)"
proof -
  let ?g = "\<lambda>x. field_groups env True ms (fst x, Physical (snd x))"
  have key: "?g ((n, ty n), keys_array ty rows n) = [((n, ty n), Physical (keys_array ty rows n), uint64HashCombine (ae_field_hash env n))]"
    and hashed: "?g ((HashedColumnName n, T_Int64), hashes_array rows) = []" if "n \<in> set (key_names rows)" for n
  proof -
    have n: "length (filter (\<lambda>m. matches env m n = Some True) ms) = 1" "\<forall>m \<in> set ms. matches env m (HashedColumnName n) = Some False"
      using assms that by (auto simp: names_ok_def list_all_iff)
    then obtain m where "filter (\<lambda>m. matches env m n = Some True) ms = [m]" by (auto simp: length_Suc_conv)
    then show "?g ((n, ty n), keys_array ty rows n) = [((n, ty n), Physical (keys_array ty rows n), uint64HashCombine (ae_field_hash env n))]"
      by (simp add: field_groups_def field_combiner_def)
    show "?g ((HashedColumnName n, T_Int64), hashes_array rows) = []" using n(2) by (simp add: field_groups_def filter_empty_conv)
  qed
  have "concat (map ?g (concat (map (key_column False rows ty) ns))) =
      map (\<lambda>n. ((n, ty n), Physical (keys_array ty rows n), uint64HashCombine (ae_field_hash env n))) ns"
    if "set ns \<subseteq> set (key_names rows)" for ns
    using that by (induction ns) (auto simp: key_column_def key [simplified] hashed [simplified])
  moreover have "concat (map ?g (value_entries env ps rows)) = []"
  proof -
    have "?g ((pa_resultName (fst (ps ! j)), T_Int64), arr) = []" if "j < length ps" for j arr
      using assms that by (auto simp: field_groups_def filter_empty_conv names_ok_def list_all_iff)
    then show ?thesis by (simp add: value_entries_def)
  qed
  ultimately show ?thesis by (simp add: group_cols_def part_def record_columns_of part_columns_def comp_def)
qed

lemma aggregates_result: "\<not> pa_dynamic p \<Longrightarrow> aggregates_field env True p name = Some (pa_resultName p = name)"
  by (simp add: aggregates_field_def)

lemma result_not_hashed:
  "names_ok env ms ps names \<Longrightarrow> j < length ps \<Longrightarrow> pa_resultName (fst (ps ! j)) \<noteq> HashedColumnName n"
  using IsHashedColumn_name [of n] by (auto simp: names_ok_def list_all_length)

lemma part_value_fields:
  assumes "names_ok env ms ps (key_names rows)" "plan_ok ps" "j < length ps"
  shows "value_fields env True (fst (ps ! j)) (record_columns (part env ps ty rows)) =
    [((pa_resultName (fst (ps ! j)), T_Int64), Physical (values_array env (pa_function (fst (ps ! j))) j rows))]"
proof -
  let ?p = "fst (ps ! j)"
  let ?P = "\<lambda>x :: (string \<times> arrow_type) \<times> arrow_array. pa_resultName ?p = fst (fst x)"
  have dyn: "\<not> pa_dynamic ?p" using assms(2,3) by (simp add: plan_ok_def list_all_length)
  have not_key: "pa_resultName ?p \<noteq> n" "pa_resultName ?p \<noteq> HashedColumnName n" if "n \<in> set (key_names rows)" for n
    using assms(1,3) that result_not_hashed [OF assms(1,3)] by (auto simp: names_ok_def list_all_iff dest: nth_mem)
  have "filter ?P (concat (map (key_column False rows ty) (key_names rows))) = []"
    using not_key by (auto simp: filter_empty_conv key_column_def)
  moreover have "filter ?P (value_entries env ps rows) =
      map (\<lambda>j. ((pa_resultName (fst (ps ! j)), T_Int64), values_array env (pa_function (fst (ps ! j))) j rows))
        (filter (\<lambda>i. pa_resultName ?p = pa_resultName (fst (ps ! i))) [0..<length ps])"
    by (simp add: value_entries_def filter_map comp_def)
  moreover have "inj_on (\<lambda>i. pa_resultName (fst (ps ! i))) (insert j (set [0..<length ps]))"
  proof (rule inj_onI)
    fix x y assume "x \<in> insert j (set [0..<length ps])" "y \<in> insert j (set [0..<length ps])"
      "pa_resultName (fst (ps ! x)) = pa_resultName (fst (ps ! y))"
    moreover have "distinct (map (pa_resultName \<circ> fst) ps)" using assms(1) by (simp add: names_ok_def)
    ultimately show "x = y" using assms(3) nth_eq_iff_index_eq [of "map (pa_resultName \<circ> fst) ps" x y] by auto
  qed
  then have "filter (\<lambda>i. pa_resultName ?p = pa_resultName (fst (ps ! i))) [0..<length ps] = [j]"
    using filter_inj_singleton [of "[0..<length ps]" "\<lambda>i. pa_resultName (fst (ps ! i))" j] assms(3)
    by (simp add: eq_commute [of "pa_resultName (fst (ps ! j))"])
  ultimately show ?thesis
    by (simp add: value_fields_def part_def record_columns_of part_columns_def filter_map comp_def aggregates_result [OF dyn])
qed

lemma read_hashes_array: "read_hashes (Physical (hashes_array rows)) = Some (row_hashes rows)"
  by (simp add: int64_array_def comp_def)

lemma part_hashes:
  assumes "names_ok env ms ps (key_names rows)" "n \<in> set (key_names rows)"
  shows "column_hashes env (part env ps ty rows) n c = Some (row_hashes rows)"
proof -
  let ?cols = "part_columns env ps ty rows"
  have fields: "tr_fields (part env ps ty rows) = map fst ?cols" "tr_columns (part env ps ty rows) = map (Physical \<circ> snd) ?cols"
    by (simp_all add: part_def record_of_def)
  have "((HashedColumnName n, T_Int64), hashes_array rows) \<in> set ?cols" using assms(2) by (auto simp: part_columns_in)
  then have "HashedColumnName n \<in> fst ` set (map fst ?cols)" by force
  then obtain k where k: "FindHashedColumn n (map fst ?cols) = Some k"
    using find_hashed_None [of n 0 "map fst ?cols"] by (auto simp: FindHashedColumn_def)
  then have kl: "k < length ?cols" "fst (fst (?cols ! k)) = HashedColumnName n"
    using find_hashed_Some [of n 0 "map fst ?cols" k] by (auto simp: FindHashedColumn_def)
  have "snd (?cols ! k) = hashes_array rows"
    using nth_mem [OF kl(1)] kl(2) assms(1) IsHashedColumn_name [of n] result_not_hashed [OF assms(1)] unfolding part_columns_in
    by (auto simp: names_ok_def list_all_iff)
  then show ?thesis using k kl(1) read_hashes_array [of rows] by (simp add: column_hashes_def fields del: read_hashes.simps)
qed

lemma part_hash_cols:
  assumes "names_ok env ms ps (key_names rows)"
  shows "hash_cols env True ms (part env ps ty rows) =
    Some (map (\<lambda>n. (uint64HashCombine (ae_field_hash env n), row_hashes rows)) (key_names rows))"
proof -
  have "map (\<lambda>(f, c, cmb). map_option (Pair cmb) (column_hashes env (part env ps ty rows) (fst f) c)) (group_cols env True ms (part env ps ty rows)) =
      map (\<lambda>n. Some (uint64HashCombine (ae_field_hash env n), row_hashes rows)) (key_names rows)"
    using part_hashes [OF assms] by (simp add: part_group_cols [OF assms])
  then show ?thesis by (simp add: hash_cols_def those_map_Some)
qed

lemma hash_row_final:
  assumes "i < length hs"
  shows "hash_row (map (\<lambda>n. (uint64HashCombine (ae_field_hash env n), hs)) names) i acc =
    Some (if hs ! i = 0 then acc else fold (\<lambda>n acc. hashCombine acc (hashCombine (ae_field_hash env n) (hs ! i))) names acc)"
  using assms by (induction names arbitrary: acc) auto

lemma part_rows:
  assumes "names_ok env ms ps (key_names rows)" "plan_ok ps"
  shows "agg_rows env True ms (map fst ps) (part env ps ty rows) = partial_rows env (key_names rows) (map (pa_function \<circ> fst) ps) rows"
proof (rule nth_equalityI)
  show len: "length (agg_rows env True ms (map fst ps) (part env ps ty rows)) =
      length (partial_rows env (key_names rows) (map (pa_function \<circ> fst) ps) rows)"
    by (simp add: agg_rows_def partial_rows_def part_def record_of_def)
  fix i assume "i < length (agg_rows env True ms (map fst ps) (part env ps ty rows))"
  then have i: "i < length (row_hashes rows)" by (simp add: agg_rows_def part_def record_of_def)
  have "row_hash env True ms (part env ps ty rows) i = Some (final_hash env (key_names rows) (row_hashes rows ! i))"
    using i by (simp add: row_hash_def part_hash_cols [OF assms(1)] hash_row_final final_hash_def)
  moreover have "value_col env True (part env ps ty rows) (fst (ps ! j)) = Physical (values_array env (pa_function (fst (ps ! j))) j rows)"
    if "j < length ps" for j
    using part_value_fields [OF assms that] by (simp add: value_col_def)
  ultimately have "agg_row_of env True ms (map fst ps) (part env ps ty rows) i =
      partial_row env (key_names rows) (map (pa_function \<circ> fst) ps) rows (row_hashes rows ! i)"
    using i by (auto simp: agg_row_of_def partial_row_def part_group_cols [OF assms(1)] column_cells_def leaders_def
        values_array_def int64_array_def intro!: nth_equalityI)
  then show "agg_rows env True ms (map fst ps) (part env ps ty rows) ! i =
      partial_rows env (key_names rows) (map (pa_function \<circ> fst) ps) rows ! i"
    using i by (simp add: agg_rows_def partial_rows_def part_def record_of_def)
qed

definition row_keys_ok :: "(string \<Rightarrow> arrow_type) \<Rightarrow> agg_row list \<Rightarrow> bool" where
  "row_keys_ok ty rows \<longleftrightarrow>
     (\<forall>row \<in> set rows. \<forall>n. case key_of n row of None \<Rightarrow> True | Some y \<Rightarrow> cell_ok (ty n) y)"

lemma agg_rows_keys_ok: "agg_rec_ok env final ms ps ty r \<Longrightarrow> row_keys_ok ty (agg_rows env final ms qs r)"
proof -
  assume r: "agg_rec_ok env final ms ps ty r"
  have "case key_of n (agg_row_of env final ms qs r i) of None \<Rightarrow> True | Some y \<Rightarrow> cell_ok (ty n) y" if i: "i < tr_rows r" for n i
  proof (cases "key_of n (agg_row_of env final ms qs r i)")
    case (Some y)
    then have "(n, Some y) \<in> set (ar_keys (agg_row_of env final ms qs r i))"
      by (auto simp: key_of_def split: option.splits dest: map_of_SomeD)
    then obtain g where g: "g \<in> set (group_cols env final ms r)" "n = col_name g" "col_cell i g = Some y"
      by (auto simp: agg_row_of_def)
    have "column_ok (tr_rows r) (ty n) (fst (snd g))"
      using record_column_ok [OF _ group_cols_in [OF g(1)]] r g(1,2) by (auto simp: agg_rec_ok_def list_all_iff)
    then show ?thesis using i g(3) Some by (auto simp: column_ok_def list_all_length split: option.splits)
  qed simp
  then show ?thesis by (auto simp: row_keys_ok_def agg_rows_def)
qed

lemma int64_column_ok: "length xs = n \<Longrightarrow> column_ok n T_Int64 (Physical (int64_array (map (\<lambda>x. Some (C_Int (g x))) xs)))"
  by (auto simp: column_ok_def column_cells_def int64_array_def list_all_iff cell_ok_def)

lemma part_ok:
  assumes names: "names_ok env ms ps (key_names rows)" and ps: "int_plan ps" and keys: "row_keys_ok ty rows"
  shows "agg_rec_ok env True ms ps ty (part env ps ty rows)"
proof -
  let ?r = "part env ps ty rows" let ?cols = "part_columns env ps ty rows" let ?n = "length (row_hashes rows)"
  have plan: "plan_ok ps" "\<And>j. j < length ps \<Longrightarrow> snd (ps ! j) = T_Int64"
    using ps by (auto simp: int_plan_def list_all_length)
  have static: "\<not> pa_dynamic (fst p)" if "p \<in> set ps" for p
    using plan(1) that by (auto simp: plan_ok_def list_all_iff)
  have r: "tr_fields ?r = map fst ?cols" "tr_columns ?r = map (Physical \<circ> snd) ?cols" "tr_rows ?r = ?n"
    by (simp_all add: part_def record_of_def)
  have col: "column_ok ?n (snd (fst x)) (Physical (snd x))" if "x \<in> set ?cols" for x
  proof -
    have "column_ok ?n (ty n) (Physical (keys_array ty rows n))" for n
      using keys leaders_in [of rows] by (auto simp: column_ok_def column_cells_def row_keys_ok_def list_all_iff)
    moreover have "column_ok ?n T_Int64 (Physical (hashes_array rows))" by (rule int64_column_ok) simp
    moreover have "column_ok ?n T_Int64 (Physical (values_array env f j rows))" for f j
      unfolding values_array_def by (rule int64_column_ok) simp
    ultimately show ?thesis using that unfolding part_columns_in by auto
  qed
  have "rec_ok (tr_fields ?r) ?r"
    using col unfolding rec_ok_def r by (simp add: list_all2_conv_all_nth)
  moreover have "matches env m (fst (fst x)) \<noteq> None" if "x \<in> set ?cols" "m \<in> set ms" for x m
    using that names unfolding part_columns_in by (auto simp: names_ok_def list_all_iff)
  moreover have "aggregates_field env True (fst p) n \<noteq> None" if "p \<in> set ps" for p n
    using static [OF that] by (simp add: aggregates_result)
  moreover have "row_hash env True ms ?r i \<noteq> None" if "i < ?n" for i
    using that by (simp add: row_hash_def part_hash_cols [OF names] hash_row_final)
  moreover have "length (value_fields env True (fst p) (record_columns ?r)) = 1 \<and>
      column_DataType (value_col env True ?r (fst p)) = snd p" if p: "p \<in> set ps" for p
  proof -
    obtain j where "j < length ps" "p = ps ! j" using p by (auto simp: in_set_conv_nth)
    then show ?thesis
      using part_value_fields [OF names plan(1), of j ty] plan(2) by (simp add: value_col_def values_array_def int64_array_def)
  qed
  moreover have "distinct (key_names rows)" by (simp add: key_names_def)
  ultimately show ?thesis
    unfolding agg_rec_ok_def part_group_cols [OF names] part_hash_cols [OF names]
    using r by (auto simp: list_all_iff comp_def)
qed

lemma lookup_bytes:
  assumes "distinct names"
  shows "sum_list (map (\<lambda>n. cell_bytes (case map_of ks n of None \<Rightarrow> None | Some x \<Rightarrow> x)) names) \<le> sum_list (map (cell_bytes \<circ> snd) ks)"
proof (induction ks)
  case (Cons k ks)
  let ?b = "\<lambda>ks n. cell_bytes (case map_of ks n of None \<Rightarrow> None | Some x \<Rightarrow> x)"
  have "sum_list (map (?b (k # ks)) names) \<le> (if fst k \<in> set names then cell_bytes (snd k) else 0) + sum_list (map (?b ks) names)"
    using assms by (induction names) (auto split: if_splits)
  then show ?case using Cons by (simp split: if_splits)
qed (simp add: sum_list_eq_0_iff)

lemma partial_row_bytes: "distinct names \<Longrightarrow> agg_bytes (partial_row env names fs rows h) \<le> agg_bytes (hd (rows_with rows h))"
proof -
  assume d: "distinct names"
  have "agg_bytes (partial_row env names fs rows h) = sum_list (map (\<lambda>n. cell_bytes (key_of n (hd (rows_with rows h)))) names)"
    by (simp add: agg_bytes_def partial_row_def comp_def)
  also have "\<dots> \<le> sum_list (map (cell_bytes \<circ> snd) (ar_keys (hd (rows_with rows h))))"
    using lookup_bytes [OF d, of "ar_keys (hd (rows_with rows h))"] by (simp add: key_of_def)
  finally show ?thesis by (simp add: agg_bytes_def)
qed

lemma partial_rows_bytes: "distinct names \<Longrightarrow> rows_bytes (partial_rows env names fs rows) \<le> rows_bytes rows"
proof -
  assume d: "distinct names"
  have "rows_bytes (partial_rows env names fs rows) \<le> rows_bytes (leaders rows)"
    unfolding rows_bytes_def partial_rows_def leaders_def map_map
    by (rule sum_list_mono) (simp add: partial_row_bytes [OF d])
  then show ?thesis using leaders_bytes [of rows] by linarith
qed

lemma all_partial_bytes: "distinct names \<Longrightarrow> rows_bytes (concat (map (partial_rows env names fs) rowss)) \<le> rows_bytes (concat rowss)"
  by (induction rowss) (auto intro: add_mono partial_rows_bytes)

section \<open>Two stages are one\<close>

lemma RemoveHashedColumns_of:
  "RemoveHashedColumns (record_of cols n) = record_of (filter (\<lambda>x. \<not> IsHashedColumn (fst (fst x))) cols) n"
  by (simp add: RemoveHashedColumns_def record_of_def zip_map_map zip_same_conv_map filter_map comp_def split_def)

lemma part_without_hashes:
  assumes "names_ok env ms ps (key_names rows)"
  shows "RemoveHashedColumns (part env ps ty rows) =
    record_of (map (\<lambda>n. ((n, ty n), keys_array ty rows n)) (key_names rows) @ value_entries env ps rows) (length (row_hashes rows))"
proof -
  have "filter (\<lambda>x. \<not> IsHashedColumn (fst (fst x))) (concat (map (key_column False rows ty) ns)) =
      map (\<lambda>n. ((n, ty n), keys_array ty rows n)) ns" if "\<forall>n \<in> set ns. \<not> IsHashedColumn n" for ns
    using that by (induction ns) (auto simp: key_column_def)
  moreover have "filter (\<lambda>x. \<not> IsHashedColumn (fst (fst x))) (value_entries env ps rows) = value_entries env ps rows"
    using assms by (auto simp: filter_id_conv value_entries_def names_ok_def list_all_length)
  moreover have "\<forall>n \<in> set (key_names rows). \<not> IsHashedColumn n" using assms by (auto simp: names_ok_def list_all_iff)
  ultimately show ?thesis by (simp add: part_def RemoveHashedColumns_of part_columns_def)
qed

lemma final_groups:
  assumes env: "sums_int64 env" and ps: "int_plan ps" and names: "names_ok env ms ps names"
    and rowss: "rowss \<noteq> []" "[] \<notin> set rowss" "\<forall>rows \<in> set rowss. key_names rows = names"
    and inj: "inj_on (final_hash env names) (set (row_hashes (concat rowss)))" and rows: "length (concat rowss) < 2 ^ 63"
  shows "grouped env True ps ty (concat (map (partial_rows env names (map (pa_function \<circ> fst) ps)) rowss)) =
    Inr [RemoveHashedColumns (part env ps ty (concat rowss))]"
proof -
  let ?fs = "map (pa_function \<circ> fst) ps" let ?A = "concat rowss"
  let ?B = "concat (map (partial_rows env names ?fs) rowss)"
  have ne: "?A \<noteq> []" using rowss(1,2) nonempty_parts by blast
  have hs: "row_hashes ?B = map (final_hash env names) (row_hashes ?A)" by (rule partial_row_hashes [OF inj])
  then have neB: "?B \<noteq> []" using ne row_hashes_empty [of ?A] row_hashes_empty [of ?B] by auto
  have kA: "key_names ?A = names" by (rule key_names_concat [OF rowss(1,3)])
  have d: "distinct names" unfolding kA [symmetric] by (simp add: key_names_def)
  have kB: "key_names ?B = names" by (rule key_names_partial [OF d ne inj])
  have list: "list_all (\<lambda>p. supported (pa_function (fst p)) \<and> snd p = T_Int64) ps" using ps by (simp add: int_plan_def)
  have vals: "value_columns env True ?B 0 ps = Inr (value_entries env ps ?A)"
    using value_columns_partial [OF env inj ne rows list, of ?fs "[]"] value_columns_int64 [OF list ne, of 0 env]
    by (simp add: value_entries_def)
  have keys: "concat (map (key_column True ?B ty) ns) = map (\<lambda>n. ((n, ty n), keys_array ty ?A n)) ns" if "set ns \<subseteq> set names" for ns
    using that by (induction ns) (auto simp: key_column_def leaders_partial [OF inj])
  have filt: "filter (\<lambda>name. \<not> (True \<and> IsHashedColumn name)) names = names"
    using names by (auto simp: filter_id_conv names_ok_def list_all_iff)
  have "grouped env True ps ty ?B = Inr [record_of (map (\<lambda>n. ((n, ty n), keys_array ty ?A n)) names @ value_entries env ps ?A) (length (row_hashes ?A))]"
    unfolding grouped_def kB filt if_not_P [OF neB] using keys [OF subset_refl] vals hs by (simp add: record_of_def)
  then show ?thesis using part_without_hashes [of env ms ps ?A ty] names kA by simp
qed

definition input_rows :: "agg_env \<Rightarrow> Expr list \<Rightarrow> (PAggregation \<times> arrow_type) list \<Rightarrow> table_rec list \<Rightarrow> agg_row list" where
  "input_rows env ms ps rs = concat (map (agg_rows env False ms (map fst ps)) rs)"

text \<open>
  The inputs: records that can be aggregated, at least one row each, the same group by columns in
  all of them, and different hashes stay different in the final stage.
\<close>

definition inputs_ok :: "agg_env \<Rightarrow> Expr list \<Rightarrow> (PAggregation \<times> arrow_type) list \<Rightarrow> (string \<Rightarrow> arrow_type) \<Rightarrow> string list \<Rightarrow> table_rec list list \<Rightarrow> bool" where
  "inputs_ok env ms ps ty names rss \<longleftrightarrow> rss \<noteq> [] \<and>
     list_all (\<lambda>rs. list_all (agg_rec_ok env False ms ps ty) rs \<and> input_rows env ms ps rs \<noteq> [] \<and>
       key_names (input_rows env ms ps rs) = names) rss \<and>
     distinct (map (final_hash env names) (row_hashes (input_rows env ms ps (concat rss))))"

lemma input_rows_concat: "input_rows env ms ps (concat rss) = concat (map (input_rows env ms ps) rss)"
  by (induction rss) (simp_all add: input_rows_def)

lemma one_stage:
  assumes "int_plan ps" "list_all (agg_rec_ok env False ms ps ty) rs" "input_rows env ms ps rs \<noteq> []"
    and "rows_bytes (input_rows env ms ps rs) \<le> MaxInt32"
  shows "hash_aggregate env (NewHashAggregate (map fst ps) ms False) rs = Inr [part env ps ty (input_rows env ms ps rs)]"
proof -
  let ?a = "NewHashAggregate (map fst ps) ms False"
  have p: "plan_ok ps" using assms(1) by (simp add: int_plan_def)
  have a: "finalStage ?a = False" "groupByColumnMatchers ?a = ms" by (simp_all add: NewHashAggregate_def)
  obtain a' where "run_callbacks env rs ?a = Inr a'" "finalStage a' = False" "agg_state_ok ps ty (input_rows env ms ps rs) a'"
    using run_callbacks_ok [OF NewHashAggregate_ok [OF p, of ty ms False], of env rs] assms p a by (auto simp: input_rows_def)
  then show ?thesis using Finish_ok grouped_part [OF assms(1,3)] by (simp add: hash_aggregate_def)
qed

lemma rows_bytes_part: "rows \<in> set rowss \<Longrightarrow> rows_bytes rows \<le> rows_bytes (concat rowss)"
  by (induction rowss) auto

text \<open>C3: Aggregating sums, minima, maxima and counts of numbers in two stages gives what one stage
  gives: if every input aggregates its own records and a final hash aggregation combines the
  results, its record is the one of a single aggregation over the records of all inputs without the
  columns of hashes. The inputs have the same group by columns, and \<open>math.Int64.Sum\<close> adds up the values.
\<close>

theorem two_stage_aggregation:
  assumes "sums_int64 env" "int_plan ps" "names_ok env ms ps names" "inputs_ok env ms ps ty names rss"
    and "rows_bytes (input_rows env ms ps (concat rss)) \<le> MaxInt32" "length (input_rows env ms ps (concat rss)) < 2 ^ 63"
  shows "\<exists>parts one.
    map (hash_aggregate env (NewHashAggregate (map fst ps) ms False)) rss = map (\<lambda>p. Inr [p]) parts \<and>
    hash_aggregate env (NewHashAggregate (map fst ps) ms False) (concat rss) = Inr [one] \<and>
    hash_aggregate env (NewHashAggregate (map fst ps) ms True) parts = Inr [RemoveHashedColumns one]"
proof -
  let ?rowss = "map (input_rows env ms ps) rss" let ?fs = "map (pa_function \<circ> fst) ps"
  let ?parts = "map (part env ps ty) ?rowss"
  have p: "plan_ok ps" using assms(2) by (simp add: int_plan_def)
  have all: "input_rows env ms ps (concat rss) = concat ?rowss" by (rule input_rows_concat)
  have ok: "list_all (agg_rec_ok env False ms ps ty) rs" "input_rows env ms ps rs \<noteq> []" "key_names (input_rows env ms ps rs) = names"
    if "rs \<in> set rss" for rs
    using assms(4) that by (auto simp: inputs_ok_def list_all_iff)
  have rowss: "?rowss \<noteq> []" "[] \<notin> set ?rowss" "\<forall>rows \<in> set ?rowss. key_names rows = names"
    using assms(4) ok by (force simp: inputs_ok_def)+
  have inj: "inj_on (final_hash env names) (set (row_hashes (concat ?rowss)))"
    using assms(4) unfolding inputs_ok_def all by (simp add: distinct_map)
  have "hash_aggregate env (NewHashAggregate (map fst ps) ms False) rs = Inr [part env ps ty (input_rows env ms ps rs)]" if "rs \<in> set rss" for rs
    using that rows_bytes_part [of "input_rows env ms ps rs" ?rowss] assms(5) all ok [OF that]
    by (intro one_stage [OF assms(2)]) auto
  then have first: "map (hash_aggregate env (NewHashAggregate (map fst ps) ms False)) rss = map (\<lambda>p. Inr [p]) ?parts" by simp
  have ne: "concat ?rowss \<noteq> []" using rowss(1,2) nonempty_parts by blast
  have "list_all (agg_rec_ok env False ms ps ty) (concat rss)" using ok(1) by (auto simp: list_all_iff)
  then have single: "hash_aggregate env (NewHashAggregate (map fst ps) ms False) (concat rss) = Inr [part env ps ty (concat ?rowss)]"
    using one_stage [OF assms(2)] ne assms(5) unfolding all [symmetric] by blast
  have part: "agg_rec_ok env True ms ps ty (part env ps ty (input_rows env ms ps rs)) \<and>
      agg_rows env True ms (map fst ps) (part env ps ty (input_rows env ms ps rs)) = partial_rows env names ?fs (input_rows env ms ps rs)"
    if rs: "rs \<in> set rss" for rs
  proof -
    have "row_keys_ok ty (input_rows env ms ps rs)"
      using ok(1) [OF rs] agg_rows_keys_ok unfolding row_keys_ok_def input_rows_def list_all_iff by fastforce
    moreover have n: "names_ok env ms ps (key_names (input_rows env ms ps rs))" using assms(3) ok(3) [OF rs] by simp
    ultimately show ?thesis using part_ok [OF n assms(2)] part_rows [OF n p] ok(3) [OF rs] by simp
  qed
  let ?B = "concat (map (partial_rows env names ?fs) ?rowss)"
  have rows: "concat (map (agg_rows env True ms (map fst ps)) ?parts) = ?B" using part by (simp add: comp_def cong: map_cong)
  have d: "distinct names" using key_names_concat [OF rowss(1,3)] by (auto simp: key_names_def)
  have bytes: "rows_bytes ?B \<le> MaxInt32" using all_partial_bytes [OF d, of env ?fs ?rowss] assms(5) unfolding all by linarith
  let ?a = "NewHashAggregate (map fst ps) ms True"
  have a: "finalStage ?a = True" "groupByColumnMatchers ?a = ms" by (simp_all add: NewHashAggregate_def)
  have "list_all (agg_rec_ok env True ms ps ty) ?parts" using part by (auto simp: list_all_iff)
  then obtain a' where "run_callbacks env ?parts ?a = Inr a'" "finalStage a' = True" "agg_state_ok ps ty ?B a'"
    using run_callbacks_ok [OF NewHashAggregate_ok [OF p, of ty ms True], of env ?parts] p bytes a rows by auto
  then have "hash_aggregate env ?a ?parts = Inr [RemoveHashedColumns (part env ps ty (concat ?rowss))]"
    using Finish_ok final_groups [OF assms(1,2,3) rowss inj, of ty] assms(6) all by (simp add: hash_aggregate_def)
  then show ?thesis using first single by blast
qed

definition both_inputs :: "table_rec list list" where
  "both_inputs = [[two_columns ''l.a'' ''v'' [Some ''x'', None] [1, 2]], [two_columns ''l.a'' ''v'' [Some ''x''] [10]]]"

lemma demo_sums: "sums_int64 demo_env"
  by (simp add: sums_int64_def demo_env_def)

theorem two_stage_aggregation_witness:
  "\<exists>parts one.
    map (hash_aggregate demo_env (NewHashAggregate [sum_v] [DynamicColumn ''l''] False)) both_inputs = map (\<lambda>p. Inr [p]) parts \<and>
    hash_aggregate demo_env (NewHashAggregate [sum_v] [DynamicColumn ''l''] False) (concat both_inputs) = Inr [one] \<and>
    hash_aggregate demo_env (NewHashAggregate [sum_v] [DynamicColumn ''l''] True) parts = Inr [RemoveHashedColumns one]"
proof -
  let ?ps = "[(sum_v, T_Int64)]" let ?ms = "[DynamicColumn ''l'']"
  have "int_plan ?ps" "names_ok demo_env ?ms ?ps [''l.a'']" by code_simp+
  moreover have "inputs_ok demo_env ?ms ?ps (\<lambda>_. T_String) [''l.a''] both_inputs" by code_simp
  moreover have "rows_bytes (input_rows demo_env ?ms ?ps (concat both_inputs)) = 2" by code_simp
  then have "rows_bytes (input_rows demo_env ?ms ?ps (concat both_inputs)) \<le> MaxInt32" by (simp add: MaxInt32_def)
  moreover have "length (input_rows demo_env ?ms ?ps (concat both_inputs)) = 3" by code_simp
  then have "length (input_rows demo_env ?ms ?ps (concat both_inputs)) < 2 ^ 63" by simp
  ultimately show ?thesis using two_stage_aggregation [OF demo_sums, of ?ps ?ms] by fastforce
qed

section \<open>Groups that are wrong\<close>

text \<open>
  The final stage combines the hash of a whole row once per group by column of its record. A
  group that one input delivers in a record with more group by columns, null for this group, gets
  another final hash, and the result has the group twice.
\<close>

definition three_columns :: table_rec where
  "three_columns = \<lparr>tr_fields = [(''l.a'', T_String), (''l.b'', T_String), (''v'', T_Int64)],
     tr_columns = [Physical \<lparr>arr_type = T_String, arr_cells = [None, Some (C_Bytes ''z'')]\<rparr>,
       Physical \<lparr>arr_type = T_String, arr_cells = [Some (C_Bytes ''y''), None]\<rparr>,
       Physical \<lparr>arr_type = T_Int64, arr_cells = [Some (C_Int 2), Some (C_Int 5)]\<rparr>],
     tr_rows = 2\<rparr>"

definition first_stage :: "table_rec list \<Rightarrow> table_rec list" where
  "first_stage rs = (case hash_aggregate demo_env (NewHashAggregate [sum_v] [DynamicColumn ''l''] False) rs of Inl _ \<Rightarrow> [] | Inr out \<Rightarrow> out)"

lemma group_twice:
  "map_option (map rec_rows_of) (case hash_aggregate demo_env (NewHashAggregate [sum_v] [DynamicColumn ''l''] True)
      (first_stage [two_columns ''l.b'' ''v'' [Some ''y''] [1]] @ first_stage [three_columns]) of Inl _ \<Rightarrow> None | Inr out \<Rightarrow> Some out) =
    Some [[[Some (C_Bytes ''y''), None, Some (C_Int 1)], [Some (C_Bytes ''y''), None, Some (C_Int 2)],
      [None, Some (C_Bytes ''z''), Some (C_Int 5)]]]"
  by code_simp

text \<open>The key 0 has the hash of a null and falls into its group.\<close>

lemma zero_key_is_null:
  "map_option (map (\<lambda>r. (tr_rows r, rec_rows_of r))) (case hash_aggregate demo_env (NewHashAggregate [sum_v\<lparr>pa_resultName := ''v''\<rparr>] [Column ''k''] True)
      [\<lparr>tr_fields = [(''k'', T_Int64), (''v'', T_Int64)],
        tr_columns = [Physical (int64_array [Some (C_Int 0), None]), Physical (int64_array [Some (C_Int 1), Some (C_Int 2)])],
        tr_rows = 2\<rparr>] of Inl _ \<Rightarrow> None | Inr out \<Rightarrow> Some out) =
    Some [(1, [[Some (C_Int 0), Some (C_Int 3)]])]"
  by code_simp

text \<open>The minimum and the maximum count a null as zero.\<close>

lemma null_is_minimum:
  "runAggregation env final AggFuncMin [int64_array [Some (C_Int 5), None]] = Inr (int64_array [Some (C_Int 0)])"
  "runAggregation env final AggFuncMax [int64_array [Some (C_Int (- 5)), None]] = Inr (int64_array [Some (C_Int 0)])"
  by (simp_all add: runAggregation_def MinAggregation_def MaxAggregation_def or_null_def minInt64array_def maxInt64array_def
      best_def Int64Values_def int64_array_def)

text \<open>A duration of less than a millisecond divides by zero.\<close>

lemma short_duration_panics:
  "combiner_hash (field_combiner env False (DurationExpr 999999) ''timestamp'') h = None"
  by (simp add: field_combiner_def duration_ms_def)

text \<open>
  A new aggregate after a split expects no concrete columns: the next record with the columns to
  aggregate is refused.
\<close>

lemma record_after_split_refused:
  assumes "aggregates a = ags @ [fresh_aggregate ag]" "plan_ok ps"
    and "map (\<lambda>p. p\<lparr>pa_arrays := []\<rparr>) (ha_aggregations ag) = map fst ps"
    and "agg_rec_ok env (finalStage a) (groupByColumnMatchers a) ps ty r"
  shows "agg_Callback env r a = Inl AE_FieldNotFound"
proof -
  let ?ag = "fresh_aggregate ag" let ?final = "finalStage a" let ?ms = "groupByColumnMatchers a"
  let ?s = "\<lparr>fs_groups = [], fs_aggregate = ?ag, fs_columns = replicate (length (ha_aggregations ?ag)) None, fs_concrete = 0, fs_dynamic = 0\<rparr>"
  have "p\<lparr>pa_dynamic := False, pa_arrays := []\<rparr> = p\<lparr>pa_arrays := []\<rparr>" if "p \<in> set (ha_aggregations ag)" for p
  proof -
    have "p\<lparr>pa_arrays := []\<rparr> \<in> set (map fst ps)" unfolding assms(3) [symmetric] using that by simp
    then have "\<not> pa_dynamic (p\<lparr>pa_arrays := []\<rparr>)" using assms(2) unfolding plan_ok_def list_all_iff by force
    then show ?thesis by simp
  qed
  then have "ha_aggregations ?ag = map fst ps" unfolding assms(3) [symmetric] by (simp add: fresh_aggregate_def)
  moreover have "map (\<lambda>p. p\<lparr>pa_arrays := []\<rparr>) (map fst ps) = map fst ps" unfolding assms(3) [symmetric] by simp
  ultimately have "static_aggregate (map fst ps) ?ag"
    using assms(2) by (simp add: static_aggregate_def fresh_aggregate_def plan_ok_def list_all_iff)
  moreover have "length (ha_aggregations ?ag) = length ps" using \<open>ha_aggregations ?ag = map fst ps\<close> by simp
  moreover have "\<forall>fc \<in> set (record_columns r). list_all (\<lambda>m. matches env m (fst (fst fc)) \<noteq> None) ?ms \<and>
      list_all (\<lambda>p. aggregates_field env ?final p (fst (fst fc)) \<noteq> None) (map fst ps)"
    by (rule record_fields_ok [OF assms(4)])
  ultimately obtain s where "scan_fields env ?final ?ms (record_columns r) ?s = Some s" "fs_aggregate s = ?ag" "fs_concrete s = length ps"
    using scan_fields_static [of "map fst ps" ?s "record_columns r" env ?ms ?final] concrete_found [OF assms(4)] by simp
  then show ?thesis
    using assms(1,2) by (simp add: agg_Callback_def Let_def or_panic_def record_columns_def fresh_aggregate_def plan_ok_def)
qed

end
