(* ===== verification/Ordered_Aggregate.thy ===== *)
theory Ordered_Aggregate
  imports Hash_Aggregate Group_Ranges
begin

text \<open>
  The ordered aggregation (\<open>query/physicalplan/ordered_aggregate.go\<close>), with the bulk append and the append of Go values
  of \<open>pqarrow/builder/utils.go\<close> and the array concatenator of \<open>pqarrow/arrowutils/utils.go\<close>: the rows arrive in
  ordered sets, a group is complete once another key is seen, the values of the last group of a record are carried over to
  the next record, and the results of the ordered sets are merged at the end.

  The builder of carried values keeps its memory when an array is made of it, so the array and the builder share
  it: the memory is a store of buffers, and an array made by the builder is a reference to one of them. How
  much room an append asks for beyond what it needs, and what Arrow's builders append for a nil byte slice, are parameters.
  Builders of other types than \<open>int64\<close> are taken to make copies: of what they carry only the number of values is read.
  The group by columns are built with fresh builders for every ordered set and are arrays by value.
\<close>

section \<open>Appending to builders\<close>

text \<open>\<open>array.NewSlice\<close>: the data of a virtual null array cannot be sliced.\<close>

definition array_NewSlice :: "column \<Rightarrow> nat \<Rightarrow> nat \<Rightarrow> arrow_array option" where
  "array_NewSlice c i j =
     (case c of
        Physical a \<Rightarrow>
          if i \<le> j \<and> j \<le> length (arr_cells a) then Some (a\<lparr>arr_cells := take (j - i) (drop i (arr_cells a))\<rparr>) else None
      | VirtualNullArray _ _ \<Rightarrow> None)"

fun append_values :: "ColumnBuilder \<Rightarrow> column \<Rightarrow> nat list \<Rightarrow> cell option list \<Rightarrow> (builder_error, cell option list) result" where
  "append_values cb arr [] cells = Inr cells"
| "append_values cb arr (i # is) cells = bind_result (AppendValue cb arr i cells) (append_values cb arr is)"

text \<open>The optimized builders append the raw values: a null becomes a zero or an empty string.\<close>

definition AppendArray :: "ColumnBuilder \<Rightarrow> arrow_array \<Rightarrow> cell option list \<Rightarrow> (builder_error, cell option list) result" where
  "AppendArray cb arr cells =
     (case cb of
        OptBinaryBuilder \<Rightarrow>
          if arr_type arr \<noteq> T_Binary then Inl BE_Panic
          else if MaxInt32 < data_size cells + data_size (arr_cells arr) then Inl ErrMaxSizeReached
          else Inr (cells @ map (\<lambda>x. Some (case x of None \<Rightarrow> C_Bytes [] | Some y \<Rightarrow> y)) (arr_cells arr))
      | OptInt64Builder \<Rightarrow>
          if arr_type arr \<noteq> T_Int64 then Inl BE_Panic
          else Inr (cells @ map (\<lambda>v. Some (C_Int v)) (Int64Values (arr_cells arr)))
      | _ \<Rightarrow> append_values cb (Physical arr) [0..<length (arr_cells arr)] cells)"

text \<open>A nil byte slice is not a nil value: the optimized builder appends an empty string for it.\<close>

definition AppendGoValue :: "(ColumnBuilder \<Rightarrow> cell option) \<Rightarrow> ColumnBuilder \<Rightarrow> go_any \<Rightarrow> cell option list \<Rightarrow> (builder_error, cell option list) result" where
  "AppendGoValue nil_bytes cb v cells =
     (if v = Any_nil then Inr (cells @ [None])
      else case cb of
        OptBinaryBuilder \<Rightarrow>
          (case v of
             Any_bytes b \<Rightarrow>
               let s = (case b of None \<Rightarrow> [] | Some s \<Rightarrow> s)
               in if MaxInt32 < data_size cells + length s then Inl ErrMaxSizeReached else Inr (cells @ [Some (C_Bytes s)])
           | _ \<Rightarrow> Inl BE_Panic)
      | OptInt64Builder \<Rightarrow> (case v of Any_int x \<Rightarrow> Inr (cells @ [Some (C_Int x)]) | _ \<Rightarrow> Inl BE_Panic)
      | OptBooleanBuilder \<Rightarrow> (case v of Any_bool x \<Rightarrow> Inr (cells @ [Some (C_Bool x)]) | _ \<Rightarrow> Inl BE_Panic)
      | StringBuilder \<Rightarrow> (case v of Any_string s \<Rightarrow> Inr (cells @ [Some (C_Bytes s)]) | _ \<Rightarrow> Inl BE_Panic)
      | FixedSizeBinaryBuilder \<Rightarrow>
          (case v of
             Any_bytes b \<Rightarrow> Inr (cells @ [case b of None \<Rightarrow> nil_bytes cb | Some s \<Rightarrow> Some (C_Bytes s)])
           | _ \<Rightarrow> Inl BE_Panic)
      | BinaryDictionaryBuilder \<Rightarrow>
          (case v of
             Any_bytes b \<Rightarrow> Inr (cells @ [case b of None \<Rightarrow> nil_bytes cb | Some s \<Rightarrow> Some (C_Bytes s)])
           | _ \<Rightarrow> Inl BE_Panic)
      | _ \<Rightarrow> Inl BE_UnsupportedAppend)"

section \<open>State\<close>

record ord_env =
  oe_agg :: agg_env
  oe_grow :: "nat \<Rightarrow> nat"
  oe_nil_bytes :: "ColumnBuilder \<Rightarrow> cell option"

datatype ordered_error = OE_Panic | OE_FieldNotFound | OE_Builder builder_error | OE_Agg agg_error | OE_Ranges group_error
  | OE_Concatenate

definition or_fail :: "'a option \<Rightarrow> (ordered_error, 'a) result" where
  "or_fail x = (case x of None \<Rightarrow> Inl OE_Panic | Some y \<Rightarrow> Inr y)"

definition wrap_error :: "('e \<Rightarrow> ordered_error) \<Rightarrow> ('e, 'a) result \<Rightarrow> (ordered_error, 'a) result" where
  "wrap_error w x = (case x of Inl e \<Rightarrow> Inl (w e) | Inr y \<Rightarrow> Inr y)"

text \<open>The builder of carried values: all buffers it ever had, the last one in use, and the number of values in it.\<close>

record carry =
  ca_type :: arrow_type
  ca_heap :: "cell option list list"
  ca_len :: nat

definition new_carry :: "arrow_type \<Rightarrow> carry" where
  "new_carry ty = \<lparr>ca_type = ty, ca_heap = [[]], ca_len = 0\<rparr>"

definition carry_cells :: "carry \<Rightarrow> cell option list" where
  "carry_cells ca = take (ca_len ca) (last (ca_heap ca))"

text \<open>The values to aggregate: a slice of a record's column, or the first values of a buffer.\<close>

datatype agg_input = Sliced arrow_array | Shared arrow_type nat nat

fun resolve :: "cell option list list \<Rightarrow> agg_input \<Rightarrow> arrow_array" where
  "resolve heap (Sliced a) = a"
| "resolve heap (Shared ty k n) = \<lparr>arr_type = ty, arr_cells = take n (heap ! k)\<rparr>"

text \<open>
  Appending writes into the memory of the current buffer when there is room, and moves the values to a larger buffer otherwise.
\<close>

definition carry_AppendArray :: "ord_env \<Rightarrow> arrow_array \<Rightarrow> carry \<Rightarrow> (ordered_error, carry) result" where
  "carry_AppendArray env arr ca =
     bind_result (wrap_error OE_Builder (AppendArray (NewBuilder (ca_type ca)) arr (carry_cells ca))) (\<lambda>cells.
       let mem = last (ca_heap ca)
       in Inr (ca\<lparr>ca_len := length cells,
                 ca_heap := (if length cells \<le> length mem
                             then butlast (ca_heap ca) @ [cells @ drop (length cells) mem]
                             else ca_heap ca @ [cells @ replicate (oe_grow env (length cells)) None])\<rparr>))"

definition carry_NewArray :: "carry \<Rightarrow> agg_input \<times> carry" where
  "carry_NewArray ca =
     (Shared (ca_type ca) (length (ca_heap ca) - 1) (ca_len ca),
      ca\<lparr>ca_len := 0, ca_heap := (if NewBuilder (ca_type ca) = OptInt64Builder then ca_heap ca else ca_heap ca @ [[]])\<rparr>)"

text \<open>A name that is not in the map of the current group has the value nil.\<close>

record OrderedAggregate =
  oa_resultColumnName :: string
  oa_columnToAggregate :: Expr
  oa_groupByColumnMatchers :: "Expr list"
  oa_aggregationFunction :: AggFunc
  oa_finalStage :: bool
  oa_groupColOrdering :: "(string \<times> arrow_type) list"
  oa_notFirstCall :: bool
  oa_curGroup :: "string \<Rightarrow> go_any"
  oa_groupBuilders :: "(string \<times> arrow_array) list"
  oa_groupResults :: "arrow_array list list"
  oa_arrayToAggCarry :: "carry option"
  oa_aggResultBuilder :: "arrow_array list"
  oa_aggregationResults :: "arrow_array list"

definition NewOrderedAggregate :: "PAggregation \<Rightarrow> Expr list \<Rightarrow> bool \<Rightarrow> OrderedAggregate" where
  "NewOrderedAggregate aggregation matchers final =
     \<lparr>oa_resultColumnName = pa_resultName aggregation, oa_columnToAggregate = pa_expr aggregation,
      oa_groupByColumnMatchers = matchers, oa_aggregationFunction = pa_function aggregation, oa_finalStage = final,
      oa_groupColOrdering = [], oa_notFirstCall = False, oa_curGroup = (\<lambda>_. Any_nil), oa_groupBuilders = [],
      oa_groupResults = [], oa_arrayToAggCarry = None, oa_aggResultBuilder = [], oa_aggregationResults = []\<rparr>"

section \<open>Concatenating arrays\<close>

text \<open>\<open>array.Concatenate\<close> fails for no arrays and for arrays of different types.\<close>

definition Concatenate :: "arrow_array list \<Rightarrow> (ordered_error, arrow_array) result" where
  "Concatenate arrs =
     (case arrs of
        [] \<Rightarrow> Inl OE_Concatenate
      | a # as \<Rightarrow>
          if list_all (\<lambda>b. arr_type b = arr_type a) as
          then Inr \<lparr>arr_type = arr_type a, arr_cells = concat (map arr_cells arrs)\<rparr> else Inl OE_Concatenate)"

text \<open>The results so far, when there are any, followed by new ones.\<close>

definition close_results :: "arrow_array list \<Rightarrow> arrow_array \<Rightarrow> (ordered_error, arrow_array) result" where
  "close_results carried results = (if carried = [] then Inr results else Concatenate (carried @ [results]))"

section \<open>The fields of a record\<close>

record ordered_scan =
  os_agg :: OrderedAggregate
  os_groupByMap :: "(string \<times> column) list"
  os_column :: "column option"
  os_foundNew :: bool

text \<open>A field seen for the first time gets a builder, with a null for every group of the current ordered set.\<close>

definition found_group :: "string \<times> arrow_type \<Rightarrow> column \<Rightarrow> ordered_scan \<Rightarrow> ordered_scan option" where
  "found_group f c s =
     (let a = os_agg s; s1 = s\<lparr>os_groupByMap := AList.update (fst f) c (os_groupByMap s)\<rparr>
      in case map_of (oa_groupBuilders a) (fst f) of
           Some _ \<Rightarrow> Some s1
         | None \<Rightarrow>
             let colOrder = oa_groupColOrdering a @ [f];
                 builders = AList.update (fst f) (new_builder (snd f)) (oa_groupBuilders a)
             in (case map_of builders (fst (hd colOrder)) of
                   None \<Rightarrow> None
                 | Some first \<Rightarrow>
                     let n = (if oa_notFirstCall a then length (arr_cells first) else 0)
                     in Some (s1\<lparr>os_foundNew := True,
                                 os_agg := a\<lparr>oa_groupColOrdering := colOrder,
                                   oa_groupBuilders := AList.update (fst f) \<lparr>arr_type = snd f, arr_cells = replicate n None\<rparr> builders\<rparr>\<rparr>)))"

fun scan_matchers :: "ord_env \<Rightarrow> Expr list \<Rightarrow> string \<times> arrow_type \<Rightarrow> column \<Rightarrow> ordered_scan \<Rightarrow> ordered_scan option" where
  "scan_matchers env [] f c s = Some s"
| "scan_matchers env (m # ms) f c s =
     (case matches (oe_agg env) m (fst f) of
        None \<Rightarrow> None
      | Some True \<Rightarrow> (case found_group f c s of None \<Rightarrow> None | Some s' \<Rightarrow> scan_matchers env ms f c s')
      | Some False \<Rightarrow> scan_matchers env ms f c s)"

definition scan_aggregate_column :: "ord_env \<Rightarrow> string \<times> arrow_type \<Rightarrow> column \<Rightarrow> ordered_scan \<Rightarrow> ordered_scan option" where
  "scan_aggregate_column env f c s =
     (case matches (oe_agg env) (oa_columnToAggregate (os_agg s)) (fst f) of
        None \<Rightarrow> None
      | Some False \<Rightarrow> Some s
      | Some True \<Rightarrow>
          Some (s\<lparr>os_column := Some c,
                  os_agg := (os_agg s)\<lparr>oa_arrayToAggCarry :=
                    (case oa_arrayToAggCarry (os_agg s) of
                       None \<Rightarrow> Some (new_carry (column_DataType c))
                     | Some ca \<Rightarrow> Some ca)\<rparr>\<rparr>))"

fun scan_record :: "ord_env \<Rightarrow> ((string \<times> arrow_type) \<times> column) list \<Rightarrow> ordered_scan \<Rightarrow> ordered_scan option" where
  "scan_record env [] s = Some s"
| "scan_record env ((f, c) # fcs) s =
     (case scan_matchers env (oa_groupByColumnMatchers (os_agg s)) f c s of
        None \<Rightarrow> None
      | Some s1 \<Rightarrow>
          (case scan_aggregate_column env f c s1 of
             None \<Rightarrow> None
           | Some s2 \<Rightarrow> scan_record env fcs s2))"

text \<open>The columns of earlier ordered sets, filled up with nulls for new group by columns.\<close>

definition fill_nulls :: "(string \<times> arrow_type) list \<Rightarrow> arrow_array list \<Rightarrow> arrow_array list option" where
  "fill_nulls colOrder cols =
     (case drop (length cols) colOrder of
        [] \<Rightarrow> Some cols
      | missing \<Rightarrow>
          (case cols of
             [] \<Rightarrow> None
           | c # _ \<Rightarrow> Some (cols @ map (\<lambda>f. \<lparr>arr_type = snd f, arr_cells = replicate (length (arr_cells c)) None\<rparr>) missing)))"

definition groupByArrays :: "(string \<times> column) list \<Rightarrow> nat \<Rightarrow> (string \<times> arrow_type) list \<Rightarrow> column list" where
  "groupByArrays m rows colOrder =
     map (\<lambda>f. case map_of m (fst f) of None \<Rightarrow> MakeVirtualNullArray (snd f) rows | Some c \<Rightarrow> c) colOrder"

definition one_for_marshal :: "column \<Rightarrow> nat \<Rightarrow> go_any option" where
  "one_for_marshal c i = map_option (GetOneForMarshal (column_DataType c)) (cell_at c i)"

text \<open>The current group is the first row of the first record.\<close>

fun init_curGroup :: "(string \<times> arrow_type) list \<Rightarrow> column list \<Rightarrow> (string \<Rightarrow> go_any) \<Rightarrow> (string \<Rightarrow> go_any) option" where
  "init_curGroup (f # fs) (c # cs) cur =
     (case one_for_marshal c 0 of
        None \<Rightarrow> None
      | Some v \<Rightarrow> init_curGroup fs cs (cur(fst f := safe_copy v)))"
| "init_curGroup _ _ cur = Some cur"

section \<open>The groups of a record\<close>

text \<open>The values of a group that ends at row \<open>groupEnd\<close>, together with those carried over.\<close>

definition take_values :: "ord_env \<Rightarrow> column \<Rightarrow> nat \<Rightarrow> nat \<Rightarrow> carry \<Rightarrow> (ordered_error, agg_input \<times> carry) result" where
  "take_values env col groupStart groupEnd ca =
     (if groupEnd = 0 then Inr (carry_NewArray ca)
      else bind_result (or_fail (array_NewSlice col groupStart groupEnd)) (\<lambda>toAgg.
             if 0 < ca_len ca then bind_result (carry_AppendArray env toAgg ca) (\<lambda>ca'. Inr (carry_NewArray ca'))
             else Inr (Sliced toAgg, ca)))"

text \<open>The loop over the group by columns; \<open>flush\<close> tells the end of an ordered set.\<close>

fun append_groups :: "ord_env \<Rightarrow> bool \<Rightarrow> nat \<Rightarrow> nat \<Rightarrow> (string \<times> arrow_type) list \<Rightarrow> column list \<Rightarrow> OrderedAggregate \<Rightarrow> (ordered_error, OrderedAggregate) result" where
  "append_groups env flush groupStart groupEnd (f # fs) (c # cs) a =
     bind_result (or_fail (if groupEnd = 0 then Some (oa_curGroup a (fst f)) else one_for_marshal c groupStart)) (\<lambda>v.
     bind_result (or_fail (map_of (oa_groupBuilders a) (fst f))) (\<lambda>b.
     bind_result (wrap_error OE_Builder (AppendGoValue (oe_nil_bytes env) (NewBuilder (arr_type b)) v (arr_cells b))) (\<lambda>cells.
       let b' = b\<lparr>arr_cells := cells\<rparr>
       in append_groups env flush groupStart groupEnd fs cs
            (if flush
             then a\<lparr>oa_groupBuilders := AList.update (fst f) (new_builder (arr_type b)) (oa_groupBuilders a),
                    oa_groupResults := butlast (oa_groupResults a) @ [last (oa_groupResults a) @ [b']]\<rparr>
             else a\<lparr>oa_groupBuilders := AList.update (fst f) b' (oa_groupBuilders a)\<rparr>))))"
| "append_groups env flush groupStart groupEnd _ _ a = Inr a"

record group_walk =
  gw_agg :: OrderedAggregate
  gw_inputs :: "agg_input list"
  gw_setIdxs :: "nat list"
  gw_setRanges :: "int list"

text \<open>One group that is complete.\<close>

definition close_group :: "ord_env \<Rightarrow> column \<Rightarrow> column list \<Rightarrow> nat \<Rightarrow> int \<Rightarrow> group_walk \<Rightarrow> (ordered_error, group_walk) result" where
  "close_group env col arrs groupStart groupEnd w =
     (let a = gw_agg w
      in bind_result (or_fail (oa_arrayToAggCarry a)) (\<lambda>ca.
         bind_result (take_values env col groupStart (nat groupEnd) ca) (\<lambda>(toAgg, ca').
         let inputs = gw_inputs w @ [toAgg];
             flush = (gw_setRanges w \<noteq> [] \<and> hd (gw_setRanges w) = groupEnd);
             a1 = a\<lparr>oa_arrayToAggCarry := Some ca', oa_groupResults := oa_groupResults a @ (if flush then [[]] else [])\<rparr>
         in bind_result (append_groups env flush groupStart (nat groupEnd) (oa_groupColOrdering a1) arrs a1) (\<lambda>a2.
            Inr \<lparr>gw_agg = a2, gw_inputs = inputs,
                 gw_setIdxs = gw_setIdxs w @ (if flush then [length inputs] else []),
                 gw_setRanges = (if flush then tl (gw_setRanges w) else gw_setRanges w)\<rparr>))))"

text \<open>The rows after the last boundary are carried over.\<close>

definition carry_over :: "ord_env \<Rightarrow> column \<Rightarrow> nat \<Rightarrow> group_walk \<Rightarrow> (ordered_error, group_walk) result" where
  "carry_over env col groupStart w =
     bind_result (or_fail (oa_arrayToAggCarry (gw_agg w))) (\<lambda>ca.
     bind_result (or_fail (array_NewSlice col groupStart (column_Len col))) (\<lambda>rest.
     bind_result (carry_AppendArray env rest ca) (\<lambda>ca'.
       Inr (w\<lparr>gw_agg := (gw_agg w)\<lparr>oa_arrayToAggCarry := Some ca'\<rparr>\<rparr>))))"

lemma PopNextNotEqual_shrinks: "PopNextNotEqual v h = ((e, True), h') \<Longrightarrow> length h' < length h"
proof (induction v h rule: PopNextNotEqual.induct)
  case (1 compare h)
  show ?case
  proof (cases "heap_pop Int64_Less h")
    case None
    then show ?thesis using "1.prems" by (subst (asm) PopNextNotEqual.simps) (simp add: heap_pop_def)
  next
    case (Some p)
    obtain v h1 where p: "p = (v, h1)" by (cases p)
    have "length h1 < length h" using heap_pop_shrinks [of Int64_Less h v h1] Some p by simp
    then show ?thesis
      using "1.prems" "1.IH" [OF Some p [symmetric]] Some p
      by (auto simp: PopNextNotEqual.simps [of compare h] split: if_splits)
  qed
qed

function group_loop :: "ord_env \<Rightarrow> column \<Rightarrow> column list \<Rightarrow> int \<Rightarrow> Int64Heap \<Rightarrow> group_walk \<Rightarrow> (ordered_error, group_walk) result" where
  "group_loop env col arrs groupStart h w =
     (case PopNextNotEqual groupStart h of
        ((groupEnd, groupOk), h') \<Rightarrow>
          let start = nat (if groupStart = - 1 then 0 else groupStart)
          in if \<not> groupOk then carry_over env col start w
             else bind_result (close_group env col arrs start groupEnd w) (group_loop env col arrs groupEnd h'))"
  by pat_completeness auto
termination
  by (relation "measure (\<lambda>(_, _, _, _, h, _). length h)") (auto dest: PopNextNotEqual_shrinks [OF sym])

declare group_loop.simps [simp del]

section \<open>Callback\<close>

text \<open>The results of complete ordered sets, and those of the last one, which are kept.\<close>

fun flush_sets :: "arrow_array \<Rightarrow> nat \<Rightarrow> nat list \<Rightarrow> OrderedAggregate \<Rightarrow> (ordered_error, OrderedAggregate) result" where
  "flush_sets results setStart [] a =
     bind_result (or_fail (array_NewSlice (Physical results) setStart (length (arr_cells results)))) (\<lambda>rest.
       Inr (a\<lparr>oa_aggResultBuilder := oa_aggResultBuilder a @ [rest]\<rparr>))"
| "flush_sets results setStart (setEnd # ends) a =
     bind_result (or_fail (array_NewSlice (Physical results) setStart setEnd)) (\<lambda>part.
     bind_result (close_results (oa_aggResultBuilder a) part) (\<lambda>done_set.
       flush_sets results setEnd ends
         (a\<lparr>oa_aggResultBuilder := [], oa_aggregationResults := oa_aggregationResults a @ [done_set]\<rparr>)))"

text \<open>The part of \<open>Callback\<close> that looks at the fields of the record.\<close>

definition scan_columns :: "ord_env \<Rightarrow> table_rec \<Rightarrow> OrderedAggregate \<Rightarrow> (ordered_error, column \<times> column list \<times> OrderedAggregate) result" where
  "scan_columns env r a =
     bind_result (or_fail (scan_record env (zip (tr_fields r) (tr_columns r))
       \<lparr>os_agg = a, os_groupByMap = [], os_column = None, os_foundNew = False\<rparr>)) (\<lambda>s.
     case os_column s of
       None \<Rightarrow> Inl OE_FieldNotFound
     | Some col \<Rightarrow>
         let a1 = os_agg s; colOrder = oa_groupColOrdering a1
         in bind_result (or_fail (if os_foundNew s then those (map (fill_nulls colOrder) (oa_groupResults a1))
                                  else Some (oa_groupResults a1))) (\<lambda>results.
            let arrs = groupByArrays (os_groupByMap s) (tr_rows r) colOrder
            in bind_result (or_fail (if oa_notFirstCall a1 then Some (oa_curGroup a1)
                                     else init_curGroup colOrder arrs (oa_curGroup a1))) (\<lambda>cur.
               Inr (col, arrs, a1\<lparr>oa_groupResults := results, oa_curGroup := cur, oa_notFirstCall := True\<rparr>))))"

definition set_curGroup :: "go_any list \<Rightarrow> OrderedAggregate \<Rightarrow> OrderedAggregate" where
  "set_curGroup lastGroup a =
     a\<lparr>oa_curGroup := fold (\<lambda>(f, v) cur. cur(fst f := v)) (zip (oa_groupColOrdering a) lastGroup) (oa_curGroup a)\<rparr>"

definition oa_Callback :: "ord_env \<Rightarrow> table_rec \<Rightarrow> OrderedAggregate \<Rightarrow> (ordered_error, OrderedAggregate) result" where
  "oa_Callback env r a =
     bind_result (scan_columns env r a) (\<lambda>(col, arrs, a1).
     bind_result (wrap_error OE_Ranges (GetGroupsAndOrderedSetRanges
       (map (\<lambda>f. oa_curGroup a1 (fst f)) (oa_groupColOrdering a1)) arrs)) (\<lambda>(groupRanges, setRanges, lastGroup).
     bind_result (group_loop env col arrs (- 1) groupRanges
       \<lparr>gw_agg = a1, gw_inputs = [], gw_setIdxs = [], gw_setRanges = Unwrap setRanges\<rparr>) (\<lambda>w.
     let a2 = gw_agg w
     in if gw_inputs w = [] then Inr (set_curGroup lastGroup a2)
        else bind_result (or_fail (oa_arrayToAggCarry a2)) (\<lambda>ca.
             bind_result (wrap_error OE_Agg (runAggregation (oe_agg env) (oa_finalStage a2) (oa_aggregationFunction a2)
               (map (resolve (ca_heap ca)) (gw_inputs w)))) (\<lambda>results.
             bind_result (flush_sets results 0 (gw_setIdxs w) a2) (\<lambda>a3. Inr (set_curGroup lastGroup a3)))))))"

section \<open>Finish\<close>

definition getResultColumnName :: "ord_env \<Rightarrow> OrderedAggregate \<Rightarrow> string option" where
  "getResultColumnName env a =
     (case Name (ae_str (oe_agg env)) (oa_columnToAggregate a) of
        None \<Rightarrow> None
      | Some fieldName \<Rightarrow> Some (if oa_finalStage a then oa_resultColumnName a else fieldName))"

text \<open>The last group and, with it, the last ordered set.\<close>

fun last_groups :: "ord_env \<Rightarrow> (string \<times> arrow_type) list \<Rightarrow> OrderedAggregate \<Rightarrow> (ordered_error, arrow_array list \<times> OrderedAggregate) result" where
  "last_groups env [] a = Inr ([], a)"
| "last_groups env (f # fs) a =
     bind_result (or_fail (map_of (oa_groupBuilders a) (fst f))) (\<lambda>b.
     bind_result (wrap_error OE_Builder (AppendGoValue (oe_nil_bytes env) (NewBuilder (arr_type b)) (oa_curGroup a (fst f)) (arr_cells b))) (\<lambda>cells.
     bind_result (last_groups env fs (a\<lparr>oa_groupBuilders := AList.update (fst f) (b\<lparr>arr_cells := []\<rparr>) (oa_groupBuilders a)\<rparr>)) (\<lambda>(arrs, a').
       Inr (b\<lparr>arr_cells := cells\<rparr> # arrs, a'))))"

definition close_last :: "ord_env \<Rightarrow> carry \<Rightarrow> OrderedAggregate \<Rightarrow> (ordered_error, OrderedAggregate) result" where
  "close_last env ca a =
     (if ca_len ca = 0 then Inr a
      else bind_result (last_groups env (oa_groupColOrdering a) a) (\<lambda>(arrs, a1).
           case carry_NewArray ca of (toAgg, ca') \<Rightarrow>
           bind_result (wrap_error OE_Agg (runAggregation (oe_agg env) (oa_finalStage a) (oa_aggregationFunction a)
             [resolve (ca_heap ca') toAgg])) (\<lambda>results.
           bind_result (close_results (oa_aggResultBuilder a1) results) (\<lambda>lastResults.
             Inr (a1\<lparr>oa_groupResults := oa_groupResults a1 @ [arrs], oa_arrayToAggCarry := Some ca', oa_aggResultBuilder := [],
                     oa_aggregationResults := oa_aggregationResults a1 @ [lastResults]\<rparr>)))))"

text \<open>The records of the ordered sets; a set without results panics.\<close>

fun set_records :: "(string \<times> arrow_type) list \<Rightarrow> arrow_array list list \<Rightarrow> arrow_array list \<Rightarrow> (ordered_error, table_rec list) result" where
  "set_records schema [] results = Inr []"
| "set_records schema (grp # grps) [] = Inl OE_Panic"
| "set_records schema (grp # grps) (res # results) =
     (if length (grp @ [res]) \<noteq> length schema then Inl OE_Panic
      else bind_result (wrap_error OE_Agg (new_record (zip schema (grp @ [res])) (length (arr_cells res)))) (\<lambda>r.
           bind_result (set_records schema grps results) (\<lambda>rs. Inr (r # rs))))"

text \<open>A column of the merged groups: the value in the first row of every range.\<close>

definition range_starts :: "nat list \<Rightarrow> nat list" where
  "range_starts ends = 0 # butlast ends"

definition merged_groups :: "OrderedAggregate \<Rightarrow> table_rec \<Rightarrow> nat list \<Rightarrow> (ordered_error, arrow_array list) result" where
  "merged_groups a merged ends =
     fold (\<lambda>(f, c) acc. bind_result acc (\<lambda>arrs.
         bind_result (or_fail (map_of (oa_groupBuilders a) (fst f))) (\<lambda>b.
         bind_result (wrap_error OE_Builder (append_values (NewBuilder (arr_type b)) c (range_starts ends) (arr_cells b))) (\<lambda>cells.
           Inr (arrs @ [b\<lparr>arr_cells := cells\<rparr>])))))
       (zip (oa_groupColOrdering a) (tr_columns merged)) (Inr [])"

definition merge_sets :: "ord_env \<Rightarrow> (string \<times> arrow_type) list \<Rightarrow> table_rec list \<Rightarrow> OrderedAggregate \<Rightarrow> (ordered_error, table_rec) result" where
  "merge_sets env schema records a =
     (let n = length (oa_groupColOrdering a)
      in bind_result (wrap_error OE_Builder (MergeRecords records [0..<n])) (\<lambda>merged.
         let groupArrs = take n (tr_columns merged)
         in bind_result (or_fail (those (map (\<lambda>c. one_for_marshal c 0) groupArrs))) (\<lambda>firstGroup.
            bind_result (wrap_error OE_Ranges (GetGroupsAndOrderedSetRanges firstGroup groupArrs)) (\<lambda>(wrapped, _, _).
            let ends = map nat (Unwrap wrapped) @ [tr_rows merged]
            in bind_result (merged_groups a merged ends) (\<lambda>groups.
               bind_result (or_fail (those (map (\<lambda>(i, j). array_NewSlice (tr_columns merged ! n) i j) (zip (range_starts ends) ends)))) (\<lambda>toAggregate.
               bind_result (wrap_error OE_Agg (runAggregation (oe_agg env) True (oa_aggregationFunction a) toAggregate)) (\<lambda>result.
                 wrap_error OE_Agg (new_record (zip schema (groups @ [result])) (length (arr_cells result))))))))))"

text \<open>The records that are passed to the next operator.\<close>

definition oa_Finish :: "ord_env \<Rightarrow> OrderedAggregate \<Rightarrow> (ordered_error, table_rec list) result" where
  "oa_Finish env a =
     (if \<not> oa_notFirstCall a then Inr []
      else bind_result (or_fail (oa_arrayToAggCarry a)) (\<lambda>ca.
           bind_result (close_last env ca a) (\<lambda>a1.
           bind_result (or_fail (getResultColumnName env a1)) (\<lambda>name.
           case oa_aggregationResults a1 of
             [] \<Rightarrow> Inl OE_Panic
           | res # _ \<Rightarrow>
               let schema = oa_groupColOrdering a1 @ [(name, arr_type res)]
               in bind_result (set_records schema (oa_groupResults a1) (oa_aggregationResults a1)) (\<lambda>records.
                  case records of
                    [r] \<Rightarrow> Inr [r]
                  | _ \<Rightarrow> bind_result (merge_sets env schema records a1) (\<lambda>r. Inr [r]))))))"

fun oa_callbacks :: "ord_env \<Rightarrow> table_rec list \<Rightarrow> OrderedAggregate \<Rightarrow> (ordered_error, OrderedAggregate) result" where
  "oa_callbacks env [] a = Inr a"
| "oa_callbacks env (r # rs) a = bind_result (oa_Callback env r a) (oa_callbacks env rs)"

definition ordered_aggregate :: "ord_env \<Rightarrow> OrderedAggregate \<Rightarrow> table_rec list \<Rightarrow> (ordered_error, table_rec list) result" where
  "ordered_aggregate env a rs = bind_result (oa_callbacks env rs a) (oa_Finish env)"

section \<open>Examples\<close>

text \<open>The sum of the values of column \<open>v\<close> by the columns \<open>a\<close> and \<open>b\<close>, both dictionaries.\<close>

definition sample_ord_env :: ord_env where
  "sample_ord_env =
     \<lparr>oe_agg = \<lparr>ae_str = (\<lambda>_. []), ae_regex = (\<lambda>_ _. False), ae_hashers = toy_hashers, ae_field_hash = toy_hash,
        ae_sum_int64 = (\<lambda>cells. sum_list (map word_of_int (Int64Values cells))), ae_sum_float64 = (\<lambda>_. 0), ae_float_less = (\<lambda>_ _. False)\<rparr>,
      oe_grow = (\<lambda>_. 0), oe_nil_bytes = (\<lambda>_. None)\<rparr>"

definition ordered_op :: "AggFunc \<Rightarrow> OrderedAggregate" where
  "ordered_op f =
     NewOrderedAggregate \<lparr>pa_expr = Column ''v'', pa_dynamic = False, pa_resultName = ''r'', pa_function = f, pa_arrays = []\<rparr>
       [Column ''a'', Column ''b''] True"

definition keyed_rec :: "string \<Rightarrow> (string \<times> int) list \<Rightarrow> table_rec" where
  "keyed_rec name rows =
     \<lparr>tr_fields = [(name, T_DictBinary), (''v'', T_Int64)],
      tr_columns = [Physical \<lparr>arr_type = T_DictBinary, arr_cells = map (\<lambda>(k, _). Some (C_Bytes k)) rows\<rparr>,
                    Physical \<lparr>arr_type = T_Int64, arr_cells = map (\<lambda>(_, v). Some (C_Int v)) rows\<rparr>],
      tr_rows = length rows\<rparr>"

definition result_rows :: "(ordered_error, table_rec list) result \<Rightarrow> cell option list list list" where
  "result_rows res = (case res of Inl _ \<Rightarrow> [] | Inr rs \<Rightarrow> map rec_rows_of rs)"

text \<open>Rows in two ordered sets: the results of both are merged.\<close>

lemma partial_order_example:
  "result_rows (ordered_aggregate sample_ord_env (ordered_op AggFuncSum)
     [keyed_rec ''a'' [(''x'', 1), (''x'', 2), (''y'', 5), (''x'', 7), (''z'', 1)]]) =
   [[[Some (C_Bytes ''x''), Some (C_Int 10)], [Some (C_Bytes ''y''), Some (C_Int 5)], [Some (C_Bytes ''z''), Some (C_Int 1)]]]"
  by code_simp

text \<open>
  The array made of the carried values shares its memory with the builder, which is filled with the values of
  the record's last group before the aggregation runs. Here the sum of the first group is 12 instead of 3.
\<close>

lemma carried_values_overwritten:
  "result_rows (ordered_aggregate sample_ord_env (ordered_op AggFuncSum)
     [keyed_rec ''a'' [(''x'', 1)], keyed_rec ''a'' [(''x'', 2), (''y'', 10)]]) =
   [[[Some (C_Bytes ''x''), Some (C_Int 12)], [Some (C_Bytes ''y''), Some (C_Int 10)]]]"
  by code_simp

text \<open>When the last group needs more room than the buffer has, the values are intact.\<close>

lemma carried_values_moved:
  "result_rows (ordered_aggregate sample_ord_env (ordered_op AggFuncSum)
     [keyed_rec ''a'' [(''x'', 1)], keyed_rec ''a'' [(''x'', 2), (''y'', 10), (''y'', 5), (''y'', 5)]]) =
   [[[Some (C_Bytes ''x''), Some (C_Int 3)], [Some (C_Bytes ''y''), Some (C_Int 20)]]]"
  by code_simp

text \<open>A record without group by columns and rows as the only input: \<open>Finish\<close> reads the first of no results.\<close>

lemma only_empty_records_panic:
  "ordered_aggregate sample_ord_env (ordered_op AggFuncSum) [keyed_rec ''c'' []] = Inl OE_Panic"
  by code_simp

text \<open>
  Empty byte strings as keys: the copy of the current group's empty key is nil, which is not the key of the row, so that a group without
  values is closed before the first row and every row with the empty key is a group of its own.
\<close>

lemma empty_keys_split:
  "result_rows (ordered_aggregate sample_ord_env (NewOrderedAggregate \<lparr>pa_expr = Column ''v'', pa_dynamic = False, pa_resultName = ''r'',
      pa_function = AggFuncCount, pa_arrays = []\<rparr> [Column ''a''] False) [keyed_rec ''a'' [([], 1), ([], 2), (''y'', 3)]]) =
   [[[None, Some (C_Int 0)], [Some (C_Bytes []), Some (C_Int 1)], [Some (C_Bytes []), Some (C_Int 1)], [Some (C_Bytes ''y''), Some (C_Int 1)]]]"
  by code_simp

end
