(* ===== verification/Ordered_Runs.thy ===== *)
theory Ordered_Runs
  imports Ordered_Aggregate Hash_Stages
begin

text \<open>
  What the ordered aggregation computes, on lists of keyed values: the maximal runs of equal keys, split into ordered sets
  where some column of the key becomes smaller. A key gives a value to every group by column that is not null.
\<close>

section \<open>Runs\<close>

type_synonym group_key = "string \<rightharpoonup> cell"

record run_state =
  rs_sets :: "(group_key \<times> int list) list list"
  rs_cur :: "(group_key \<times> int list) list"
  rs_key :: group_key
  rs_vals :: "int list"

definition drops :: "group_key \<Rightarrow> group_key \<Rightarrow> bool" where
  "drops k k' \<longleftrightarrow> (\<exists>n. cell_gt (k n) (k' n))"

text \<open>The next key: nothing changes, the open run is closed, or the ordered set is closed with it.\<close>

definition enter :: "group_key \<Rightarrow> run_state \<Rightarrow> run_state" where
  "enter k' S =
     (if k' = rs_key S then S
      else if drops (rs_key S) k'
      then \<lparr>rs_sets = rs_sets S @ [rs_cur S @ [(rs_key S, rs_vals S)]], rs_cur = [], rs_key = k', rs_vals = []\<rparr>
      else \<lparr>rs_sets = rs_sets S, rs_cur = rs_cur S @ [(rs_key S, rs_vals S)], rs_key = k', rs_vals = []\<rparr>)"

definition add_vals :: "int list \<Rightarrow> run_state \<Rightarrow> run_state" where
  "add_vals vs S = S\<lparr>rs_vals := rs_vals S @ vs\<rparr>"

definition row_step :: "group_key \<times> int \<Rightarrow> run_state \<Rightarrow> run_state" where
  "row_step row S = add_vals [snd row] (enter (fst row) S)"

definition all_runs :: "run_state \<Rightarrow> (group_key \<times> int list) list" where
  "all_runs S = concat (rs_sets S) @ rs_cur S @ [(rs_key S, rs_vals S)]"

lemma add_vals_simps [simp]:
  "rs_sets (add_vals vs S) = rs_sets S" "rs_cur (add_vals vs S) = rs_cur S" "rs_key (add_vals vs S) = rs_key S"
  "rs_vals (add_vals vs S) = rs_vals S @ vs" "add_vals [] S = S" "add_vals vs (add_vals us S) = add_vals (us @ vs) S"
  by (simp_all add: add_vals_def)

lemma enter_key [simp]: "rs_key (enter k S) = k" "enter (rs_key S) S = S"
  by (simp_all add: enter_def)

lemma row_steps_same_key: "(\<forall>row\<in>set rows. fst row = rs_key S) \<Longrightarrow> fold row_step rows S = add_vals (map snd rows) S"
proof (induction rows arbitrary: S)
  case (Cons row rows)
  have "row_step row S = add_vals [snd row] S" using Cons.prems by (simp add: row_step_def)
  then show ?case using Cons.IH [of "add_vals [snd row] S"] Cons.prems by simp
qed simp

section \<open>The order of keys\<close>

definition key_less :: "group_key \<Rightarrow> group_key \<Rightarrow> bool" where
  "key_less k k' \<longleftrightarrow> \<not> drops k k' \<and> k \<noteq> k'"

text \<open>Keys over the group by columns: typed values without empty byte strings.\<close>

definition key_ok :: "(string \<times> arrow_type) list \<Rightarrow> group_key \<Rightarrow> bool" where
  "key_ok fs k \<longleftrightarrow> dom k \<subseteq> fst ` set fs \<and> (\<forall>f\<in>set fs. value_ok (snd f) (k (fst f)))"

lemma cell_gt_iff: "cell_gt x y \<longleftrightarrow> cell_key y < cell_key x"
  by (auto simp: cell_cmp_def cmp3_def)

lemma key_cells_eq:
  assumes "key_ok fs k" "key_ok fs k'" "\<And>n. cell_key (k n) = cell_key (k' n)"
  shows "k = k'"
proof
  fix n
  show "k n = k' n"
  proof (cases "n \<in> fst ` set fs")
    case True
    then obtain ty where "value_ok ty (k n)" "value_ok ty (k' n)" using assms(1,2) by (fastforce simp: key_ok_def)
    then show ?thesis using cell_cmp_eq [of ty "k n" "k' n"] assms(3) [of n] by (simp add: cell_cmp_def cmp3_def)
  next
    case False
    then have "n \<notin> dom k" "n \<notin> dom k'" using assms(1,2) unfolding key_ok_def by blast+
    then show ?thesis by (simp add: domIff)
  qed
qed

lemma key_less_trans:
  assumes "key_ok fs a" "key_ok fs b" "key_ok fs c" "key_less a b" "key_less b c"
  shows "key_less a c"
proof -
  have le: "cell_key (a n) \<le> cell_key (b n)" "cell_key (b n) \<le> cell_key (c n)" for n
    using assms(4,5) unfolding key_less_def drops_def cell_gt_iff by (auto simp: not_less)
  have "a \<noteq> c"
  proof
    assume "a = c"
    then have "cell_key (a n) = cell_key (b n)" for n using le [of n] by simp
    then show False using key_cells_eq [OF assms(1,2)] assms(4) by (simp add: key_less_def)
  qed
  moreover have "\<not> drops a c" using le order_trans unfolding drops_def cell_gt_iff by (metis not_less)
  ultimately show ?thesis by (simp add: key_less_def)
qed

section \<open>Invariants of runs\<close>

definition runs_ok :: "(string \<times> arrow_type) list \<Rightarrow> run_state \<Rightarrow> bool" where
  "runs_ok fs S \<longleftrightarrow> list_all (\<lambda>X. X \<noteq> [] \<and> sorted_wrt key_less (map fst X)) (rs_sets S) \<and>
     sorted_wrt key_less (map fst (rs_cur S) @ [rs_key S]) \<and> list_all (\<lambda>(k, vs). key_ok fs k) (all_runs S) \<and>
     list_all (\<lambda>(k, vs). vs \<noteq> []) (concat (rs_sets S) @ rs_cur S) \<and> (rs_sets S = [] \<or> fs \<noteq> [])"

lemma runs_ok_keys: "runs_ok fs S \<Longrightarrow> run \<in> set (all_runs S) \<Longrightarrow> key_ok fs (fst run)"
  by (cases run) (auto simp: runs_ok_def list_all_iff)

lemma enter_cases:
  obtains (same) "k = rs_key S" "enter k S = S"
  | (set_end) "k \<noteq> rs_key S" "drops (rs_key S) k"
      "enter k S = \<lparr>rs_sets = rs_sets S @ [rs_cur S @ [(rs_key S, rs_vals S)]], rs_cur = [], rs_key = k, rs_vals = []\<rparr>"
  | (group_end) "key_less (rs_key S) k"
      "enter k S = \<lparr>rs_sets = rs_sets S, rs_cur = rs_cur S @ [(rs_key S, rs_vals S)], rs_key = k, rs_vals = []\<rparr>"
  unfolding enter_def key_less_def by (cases "k = rs_key S"; cases "drops (rs_key S) k") simp_all

lemma enter_runs_ok:
  assumes "runs_ok fs S" "key_ok fs k" "k \<noteq> rs_key S \<Longrightarrow> rs_vals S \<noteq> []"
  shows "runs_ok fs (enter k S)"
proof (cases k S rule: enter_cases)
  case group_end
  have "key_less x k" if "x \<in> fst ` set (rs_cur S)" for x
  proof -
    have "key_ok fs x" "key_ok fs (rs_key S)" "key_less x (rs_key S)"
      using assms(1) that by (auto simp: runs_ok_def all_runs_def list_all_iff sorted_wrt_append)
    then show ?thesis using key_less_trans assms(2) group_end(1) by blast
  qed
  then show ?thesis
    unfolding group_end(2) using assms group_end(1)
    by (auto simp: runs_ok_def all_runs_def sorted_wrt_append key_less_def)
next
  case set_end
  have "fs \<noteq> []"
  proof
    assume "fs = []"
    then have "dom k = {}" "dom (rs_key S) = {}" using assms(1,2) by (auto simp: runs_ok_def all_runs_def key_ok_def)
    then show False using set_end(1) by simp
  qed
  then show ?thesis unfolding set_end(3) using assms set_end(1) by (auto simp: runs_ok_def all_runs_def)
qed (use assms in \<open>auto simp: runs_ok_def all_runs_def\<close>)

lemma runs_without_fields: "runs_ok [] S \<Longrightarrow> rs_cur S = [] \<and> rs_sets S = []"
proof -
  assume S: "runs_ok [] S"
  have "rs_cur S = []"
  proof (rule ccontr)
    assume "rs_cur S \<noteq> []"
    then obtain k vs where run: "(k, vs) \<in> set (rs_cur S)" by (cases "rs_cur S") auto
    have "\<forall>x\<in>set (rs_cur S). key_less (fst x) (rs_key S)" "\<forall>(k, vs)\<in>set (rs_cur S). key_ok [] k" "key_ok [] (rs_key S)"
      using S by (simp_all add: runs_ok_def all_runs_def sorted_wrt_append list_all_iff)
    then have "key_less k (rs_key S)" "dom k = {}" "dom (rs_key S) = {}" using run by (auto simp: key_ok_def)
    then show False by (simp add: key_less_def)
  qed
  then show ?thesis using S by (simp add: runs_ok_def)
qed

lemma add_vals_runs_ok: "runs_ok fs S \<Longrightarrow> runs_ok fs (add_vals vs S)"
  by (simp add: runs_ok_def all_runs_def)

lemma row_step_runs_ok:
  assumes "runs_ok fs S" "key_ok fs (fst row)" "fst row \<noteq> rs_key S \<Longrightarrow> rs_vals S \<noteq> []"
  shows "runs_ok fs (row_step row S)" "rs_vals (row_step row S) \<noteq> []"
  using enter_runs_ok [OF assms(1,2)] assms(3) add_vals_runs_ok by (auto simp: row_step_def)

lemma row_steps_runs_ok:
  assumes "runs_ok fs S" "\<forall>row\<in>set rows. key_ok fs (fst row)" "rs_vals S = [] \<Longrightarrow> rows \<noteq> [] \<Longrightarrow> fst (hd rows) = rs_key S"
  shows "runs_ok fs (fold row_step rows S) \<and> (rs_vals S \<noteq> [] \<or> rows \<noteq> [] \<longrightarrow> rs_vals (fold row_step rows S) \<noteq> [])"
  using assms
proof (induction rows arbitrary: S)
  case (Cons row rows)
  have "runs_ok fs (row_step row S)" "rs_vals (row_step row S) \<noteq> []"
    using row_step_runs_ok [of fs S row] Cons.prems by auto
  then show ?case using Cons.IH [of "row_step row S"] Cons.prems(2) by auto
qed simp

text \<open>The runs are the rows, in order.\<close>

definition flat :: "(group_key \<times> int list) list \<Rightarrow> (group_key \<times> int) list" where
  "flat runs = concat (map (\<lambda>(k, vs). map (Pair k) vs) runs)"

lemma flat_append [simp]: "flat (xs @ ys) = flat xs @ flat ys" "flat [] = []" "flat ((k, vs) # runs) = map (Pair k) vs @ flat runs"
  by (simp_all add: flat_def)

lemma enter_flat: "flat (all_runs (enter k S)) = flat (all_runs S)"
  by (cases k S rule: enter_cases) (simp_all add: all_runs_def)

lemma row_steps_flat: "flat (all_runs (fold row_step rows S)) = flat (all_runs S) @ rows"
proof (induction rows arbitrary: S)
  case (Cons row rows)
  have "flat (all_runs (row_step row S)) = flat (all_runs S) @ [row]"
    using enter_flat [of "fst row" S] by (simp add: row_step_def all_runs_def)
  then show ?case using Cons.IH by simp
qed simp

text \<open>The bytes of a column of the keys never exceed those of the rows.\<close>

definition key_bytes :: "string \<Rightarrow> group_key list \<Rightarrow> nat" where
  "key_bytes n ks = data_size (map (\<lambda>k. k n) ks)"

lemma key_bytes_append [simp]: "key_bytes n (xs @ ys) = key_bytes n xs + key_bytes n ys" "key_bytes n [] = 0"
  by (simp_all add: key_bytes_def data_size_def)

lemma key_bytes_runs:
  "list_all (\<lambda>(k, vs). vs \<noteq> []) runs \<Longrightarrow> key_bytes n (map fst runs) \<le> key_bytes n (map fst (flat runs))"
proof (induction runs)
  case (Cons run runs)
  obtain k vs where run: "run = (k, vs)" by (cases run)
  then obtain v ws where vs: "vs = v # ws" using Cons.prems by (cases vs) auto
  have "key_bytes n [k] \<le> key_bytes n (map fst (map (Pair k) vs))" unfolding vs by (simp add: key_bytes_def data_size_def)
  moreover have "flat (run # runs) = map (Pair k) vs @ flat runs" using run by (simp add: flat_def)
  ultimately show ?case using Cons run key_bytes_append(1) [of n "[k]" "map fst runs"] by simp
qed simp

end
