(* ===== verification/Ordered_Groups.thy ===== *)
theory Ordered_Groups
  imports Ordered_Runs
begin

text \<open>
  The ordered aggregation computes the runs of its input: what the operator holds after a record represents the state
  of the runs, and closing it gives one row for every key with the aggregate of all its values.
\<close>

section \<open>Boundaries from the heap\<close>

definition pops :: "int \<Rightarrow> Int64Heap \<Rightarrow> int list \<Rightarrow> bool" where
  "pops g h bs \<longleftrightarrow> ranges_ok h \<and> (\<forall>v\<in>set h. g \<le> v) \<and> sorted_list_of_set (set h - {g}) = bs"

lemma PopNextNotEqual_pops:
  assumes "ranges_ok h" "\<forall>v\<in>set h. g \<le> v"
  shows "case sorted_list_of_set (set h - {g}) of
      [] \<Rightarrow> \<exists>h'. PopNextNotEqual g h = ((0, False), h')
    | e # bs \<Rightarrow> \<exists>h'. PopNextNotEqual g h = ((e, True), h') \<and> pops e h' bs"
  using assms
proof (induction g h rule: PopNextNotEqual.induct)
  case (1 g h)
  show ?case
  proof (cases "heap_pop Int64_Less h")
    case None
    then have "h = []" by simp
    then show ?thesis by (simp add: PopNextNotEqual.simps [of g "[]"] heap_pop_def)
  next
    case (Some p)
    obtain v h' where p: "p = (v, h')" by (cases p)
    note pop = int64s.heap_pop_correct [OF 1(2), of v h']
    have heap': "ranges_ok h'" and set: "set h = insert v (set h')" and least: "\<forall>w\<in>set h'. v \<le> w"
      using pop Some p mset_eq_setD [of h "v # h'"] by (auto simp: not_less)
    show ?thesis
    proof (cases "v = g")
      case True
      then have eq: "set h - {g} = set h' - {g}" using set by auto
      have "PopNextNotEqual g h = PopNextNotEqual g h'" using True Some p by (subst PopNextNotEqual.simps) simp
      then show ?thesis unfolding eq using 1(1) [OF Some p [symmetric]] True heap' least by metis
    next
      case False
      have "g < v" using False 1(3) set by force
      then have "set h - {g} = insert v (set h' - {v})" using set least by auto
      moreover have "sorted_list_of_set (insert v (set h' - {v})) = v # sorted_list_of_set (set h' - {v})"
        using least by (intro sorted_list_of_set_least) auto
      moreover have "PopNextNotEqual g h = ((v, True), h')" using False Some p by (subst PopNextNotEqual.simps) simp
      ultimately show ?thesis using heap' least by (simp add: pops_def)
    qed
  qed
qed

lemma pops_Nil: "pops g h [] \<Longrightarrow> \<exists>h'. PopNextNotEqual g h = ((0, False), h')"
  using PopNextNotEqual_pops [of h g] unfolding pops_def by (elim conjE) (simp only: list.case)

lemma pops_Cons: "pops g h (e # bs) \<Longrightarrow> \<exists>h'. PopNextNotEqual g h = ((e, True), h') \<and> pops e h' bs"
  using PopNextNotEqual_pops [of h g] unfolding pops_def by simp

text \<open>The first number with a property, and the ones after it.\<close>

lemma upt_split: "s \<le> e \<Longrightarrow> e < n \<Longrightarrow> [s..<n] = [s..<e] @ e # [Suc e..<n]"
  using upt_add_eq_append [of s e "n - e"] by (simp add: upt_conv_Cons)

lemma filter_upt_Cons:
  assumes "filter P [s..<n] = e # bs"
  shows "s \<le> e" "e < n" "P e" "\<forall>j\<in>{s..<e}. \<not> P j" "bs = filter P [Suc e..<n]"
proof -
  have "e \<in> set (filter P [s..<n])" using assms by simp
  then show e: "s \<le> e" "e < n" "P e" by auto
  note split = upt_split [OF e(1,2)]
  have "filter P [s..<e] = []"
  proof (rule ccontr)
    assume "filter P [s..<e] \<noteq> []"
    then obtain d ds where d: "filter P [s..<e] = d # ds" by (cases "filter P [s..<e]") auto
    then have "d \<in> set (filter P [s..<e])" by simp
    moreover have "d = e" using assms d unfolding split by simp
    ultimately show False by simp
  qed
  then show "\<forall>j\<in>{s..<e}. \<not> P j" "bs = filter P [Suc e..<n]" using assms e(3) unfolding split by (auto simp: filter_empty_conv)
qed

lemma filter_upt_Nil: "filter P [s..<n] = [] \<Longrightarrow> \<forall>j\<in>{s..<n}. \<not> P j"
  by (auto simp: filter_empty_conv)

lemma filter_weaker:
  assumes "filter P [s..<n] = e # bs" "\<And>j. Q j \<Longrightarrow> P j"
  shows "filter Q [s..<n] = (if Q e then [e] else []) @ filter Q [Suc e..<n]"
proof -
  note c = filter_upt_Cons [OF assms(1)]
  note split = upt_split [OF c(1,2)]
  have "filter Q [s..<e] = []" using c(4) assms(2) by (auto simp: filter_empty_conv)
  then show ?thesis unfolding split by simp
qed

section \<open>Group by columns\<close>

definition key_col :: "(group_key \<times> int list) list \<Rightarrow> string \<times> arrow_type \<Rightarrow> arrow_array" where
  "key_col X f = \<lparr>arr_type = snd f, arr_cells = map (\<lambda>run. fst run (fst f)) X\<rparr>"

definition group_types :: "(string \<times> arrow_type) list \<Rightarrow> bool" where
  "group_types fs \<longleftrightarrow> distinct (map fst fs) \<and> list_all (\<lambda>f. snd f \<in> {T_Binary, T_Int64, T_DictBinary}) fs"

definition groups_repr :: "(string \<times> arrow_type) list \<Rightarrow> run_state \<Rightarrow> OrderedAggregate \<Rightarrow> bool" where
  "groups_repr fs S a \<longleftrightarrow> oa_groupColOrdering a = fs \<and>
     oa_groupBuilders a = map (\<lambda>f. (fst f, key_col (rs_cur S) f)) fs \<and>
     oa_groupResults a = map (\<lambda>X. map (key_col X) fs) (rs_sets S)"

text \<open>No column of the keys of all runs is longer than an array can be.\<close>

definition runs_fit :: "(string \<times> arrow_type) list \<Rightarrow> run_state \<Rightarrow> bool" where
  "runs_fit fs S \<longleftrightarrow> list_all (\<lambda>f. snd f = T_Binary \<longrightarrow> key_bytes (fst f) (map fst (all_runs S)) \<le> MaxInt32) fs"

lemma AppendGoValue_key:
  assumes "value_ok ty x" "ty \<in> {T_Binary, T_Int64, T_DictBinary}"
    and "ty = T_Binary \<Longrightarrow> data_size cells + cell_bytes x \<le> MaxInt32"
  shows "AppendGoValue nb (NewBuilder ty) (GetOneForMarshal ty x) cells = Inr (cells @ [x])"
  using assms(1)
proof (cases rule: value_ok_cases)
  case (2 s)
  then show ?thesis using assms(2,3) by (auto simp: AppendGoValue_def Let_def)
qed (use assms(2) in \<open>auto simp: AppendGoValue_def\<close>)

lemma AList_update_append: "k \<notin> fst ` set xs \<Longrightarrow> AList.update k v (xs @ ys) = xs @ AList.update k v ys"
  by (induction xs) auto

lemma distinct_fst_Cons: "distinct (map fst (f # fs)) \<Longrightarrow> g \<in> set fs \<Longrightarrow> fst g \<noteq> fst f"
  by (auto intro: rev_image_eqI)

lemma fold_AList_update:
  assumes "distinct (map fst fs)" "\<forall>f\<in>set fs. fst f \<notin> fst ` set xs"
  shows "fold (\<lambda>f. AList.update (fst f) (C f)) fs (xs @ map (\<lambda>f. (fst f, B f)) fs) = xs @ map (\<lambda>f. (fst f, C f)) fs"
  using assms
proof (induction fs arbitrary: xs)
  case (Cons f fs)
  have "AList.update (fst f) (C f) (xs @ map (\<lambda>f. (fst f, B f)) (f # fs)) = (xs @ [(fst f, C f)]) @ map (\<lambda>f. (fst f, B f)) fs"
    using Cons.prems by (simp add: AList_update_append)
  moreover have "\<forall>g\<in>set fs. fst g \<notin> fst ` set (xs @ [(fst f, C f)])"
    using Cons.prems(2) distinct_fst_Cons [OF Cons.prems(1)] by simp
  ultimately show ?case using Cons.IH [of "xs @ [(fst f, C f)]"] Cons.prems by simp
qed simp

definition with_key :: "group_key \<Rightarrow> string \<times> arrow_type \<Rightarrow> arrow_array \<Rightarrow> arrow_array" where
  "with_key k f b = b\<lparr>arr_cells := arr_cells b @ [k (fst f)]\<rparr>"

lemma append_groups_builders:
  assumes "length cs = length fs" "group_types fs" "\<forall>f\<in>set fs. value_ok (snd f) (k (fst f))"
    and "\<forall>f\<in>set fs. map_of (oa_groupBuilders a) (fst f) = Some (B f) \<and> arr_type (B f) = snd f"
    and "\<forall>f\<in>set fs. snd f = T_Binary \<longrightarrow> data_size (arr_cells (B f)) + cell_bytes (k (fst f)) \<le> MaxInt32"
    and "\<forall>(f, c)\<in>set (zip fs cs). (if e = 0 then Some (oa_curGroup a (fst f)) else one_for_marshal c s) =
      Some (GetOneForMarshal (snd f) (k (fst f)))"
    and "flush \<Longrightarrow> oa_groupResults a \<noteq> []"
  shows "append_groups env flush s e fs cs a =
    Inr (a\<lparr>oa_groupBuilders := fold (\<lambda>f. AList.update (fst f) (if flush then new_builder (snd f) else with_key k f (B f))) fs (oa_groupBuilders a),
           oa_groupResults := (if flush then butlast (oa_groupResults a) @ [last (oa_groupResults a) @ map (\<lambda>f. with_key k f (B f)) fs]
                               else oa_groupResults a)\<rparr>)"
  using assms
proof (induction fs arbitrary: cs a)
  case Nil
  then show ?case by (cases flush) auto
next
  case (Cons f fs)
  obtain c cs' where cs: "cs = c # cs'" using Cons.prems(1) by (cases cs) auto
  let ?b = "with_key k f (B f)"
  let ?a = "if flush
      then a\<lparr>oa_groupBuilders := AList.update (fst f) (new_builder (snd f)) (oa_groupBuilders a),
             oa_groupResults := butlast (oa_groupResults a) @ [last (oa_groupResults a) @ [?b]]\<rparr>
      else a\<lparr>oa_groupBuilders := AList.update (fst f) ?b (oa_groupBuilders a)\<rparr>"
  have "AppendGoValue (oe_nil_bytes env) (NewBuilder (snd f)) (GetOneForMarshal (snd f) (k (fst f))) (arr_cells (B f)) =
      Inr (arr_cells (B f) @ [k (fst f)])"
    using Cons.prems(2,3,5) by (intro AppendGoValue_key) (auto simp: group_types_def)
  then have step: "append_groups env flush s e (f # fs) (c # cs') a = append_groups env flush s e fs cs' ?a"
    using Cons.prems(4,6) cs by (auto simp: or_fail_def wrap_error_def with_key_def Let_def)
  have ne: "\<forall>g\<in>set fs. fst g \<noteq> fst f"
    using Cons.prems(2) distinct_fst_Cons [of f fs] unfolding group_types_def by blast
  have "append_groups env flush s e fs cs' ?a = Inr (?a\<lparr>oa_groupBuilders :=
      fold (\<lambda>f. AList.update (fst f) (if flush then new_builder (snd f) else with_key k f (B f))) fs (oa_groupBuilders ?a),
           oa_groupResults := (if flush then butlast (oa_groupResults ?a) @ [last (oa_groupResults ?a) @ map (\<lambda>f. with_key k f (B f)) fs]
                               else oa_groupResults ?a)\<rparr>)"
    using Cons.prems cs ne by (intro Cons.IH) (auto simp: group_types_def update_conv')
  then show ?case using step cs by (cases flush) simp_all
qed

section \<open>Carried values\<close>

definition int_cells :: "int list \<Rightarrow> cell option list" where
  "int_cells vs = map (\<lambda>v. Some (C_Int v)) vs"

lemma int_cells_simps [simp]:
  "length (int_cells vs) = length vs" "int_cells (vs @ ws) = int_cells vs @ int_cells ws" "int_cells [] = []" "Int64Values (int_cells vs) = vs"
  by (simp_all add: int_cells_def comp_def)

definition carry_ok :: "int list \<Rightarrow> carry \<Rightarrow> bool" where
  "carry_ok vs ca \<longleftrightarrow> ca_type ca = T_Int64 \<and> ca_heap ca \<noteq> [] \<and> ca_len ca \<le> length (last (ca_heap ca)) \<and> carry_cells ca = int_cells vs"

text \<open>Buffers are added and written to, never dropped or shortened.\<close>

definition heap_grows :: "cell option list list \<Rightarrow> cell option list list \<Rightarrow> bool" where
  "heap_grows h h' \<longleftrightarrow> length h \<le> length h' \<and> (\<forall>k < length h. length (h ! k) \<le> length (h' ! k))"

lemma heap_grows_refl [simp]: "heap_grows h h"
  by (simp add: heap_grows_def)

lemma heap_grows_add: "heap_grows h (h @ [x])"
  by (simp add: heap_grows_def nth_append)

lemma heap_grows_last: "length m \<le> length x \<Longrightarrow> heap_grows (h @ [m]) (h @ [x])"
  by (simp add: heap_grows_def nth_append)

lemma carry_ok_len: "carry_ok vs ca \<Longrightarrow> ca_len ca = length vs"
proof -
  assume ca: "carry_ok vs ca"
  then have "ca_len ca \<le> length (last (ca_heap ca))" by (simp add: carry_ok_def)
  then have "length (carry_cells ca) = ca_len ca" by (simp add: carry_cells_def)
  then show ?thesis using ca by (simp add: carry_ok_def)
qed

lemma carry_AppendArray_ok:
  assumes "carry_ok vs ca" "arr_type arr = T_Int64"
  shows "\<exists>ca'. carry_AppendArray env arr ca = Inr ca' \<and> carry_ok (vs @ Int64Values (arr_cells arr)) ca' \<and> heap_grows (ca_heap ca) (ca_heap ca')"
proof -
  let ?cells = "int_cells (vs @ Int64Values (arr_cells arr))" let ?mem = "last (ca_heap ca)"
  let ?h = "if length ?cells \<le> length ?mem then butlast (ca_heap ca) @ [?cells @ drop (length ?cells) ?mem]
    else ca_heap ca @ [?cells @ replicate (oe_grow env (length ?cells)) None]"
  have "AppendArray (NewBuilder (ca_type ca)) arr (carry_cells ca) = Inr ?cells"
    using assms by (simp add: AppendArray_def carry_ok_def int_cells_def)
  then have eq: "carry_AppendArray env arr ca = Inr (ca\<lparr>ca_len := length ?cells, ca_heap := ?h\<rparr>)"
    by (simp add: carry_AppendArray_def wrap_error_def Let_def)
  have grows: "heap_grows (ca_heap ca) ?h"
  proof -
    obtain h0 m where h0: "ca_heap ca = h0 @ [m]" using assms(1) by (cases "ca_heap ca" rule: rev_cases) (auto simp: carry_ok_def)
    show ?thesis
      unfolding h0 using heap_grows_add [of "h0 @ [m]"] heap_grows_last [of m _ h0] by (cases "length ?cells \<le> length m") simp_all
  qed
  have ok: "carry_ok (vs @ Int64Values (arr_cells arr)) (ca\<lparr>ca_len := length ?cells, ca_heap := ?h\<rparr>)"
    using assms(1) by (auto simp: carry_ok_def carry_cells_def)
  show ?thesis by (intro exI conjI, rule eq, rule ok) (use grows in simp)
qed

lemma carry_NewArray_ok:
  assumes "carry_ok vs ca"
  shows "\<exists>ca'. carry_NewArray ca = (Shared T_Int64 (length (ca_heap ca) - 1) (length vs), ca') \<and> carry_ok [] ca' \<and> ca_heap ca' = ca_heap ca"
  using assms carry_ok_len [OF assms] by (simp add: carry_NewArray_def carry_ok_def carry_cells_def)

text \<open>
  An input of the aggregation stands for values: exactly, for a slice of the record's column, or by its length only, for memory
  shared with the builder.
\<close>

fun input_ok :: "bool \<Rightarrow> cell option list list \<Rightarrow> int list \<Rightarrow> agg_input \<Rightarrow> bool" where
  "input_ok exact h vs (Sliced a) \<longleftrightarrow> arr_type a = T_Int64 \<and> Int64Values (arr_cells a) = vs"
| "input_ok exact h vs (Shared ty k n) \<longleftrightarrow> \<not> exact \<and> ty = T_Int64 \<and> n = length vs \<and> k < length h \<and> n \<le> length (h ! k)"

lemma input_ok_grows: "input_ok exact h vs i \<Longrightarrow> heap_grows h h' \<Longrightarrow> input_ok exact h' vs i"
  by (cases i) (auto simp: heap_grows_def intro: order_trans)

definition slice_vals :: "arrow_array \<Rightarrow> nat \<Rightarrow> nat \<Rightarrow> int list" where
  "slice_vals c s e = Int64Values (take (e - s) (drop s (arr_cells c)))"

lemma array_NewSlice_values:
  "s \<le> e \<Longrightarrow> e \<le> length (arr_cells c) \<Longrightarrow>
     array_NewSlice (Physical c) s e = Some (c\<lparr>arr_cells := take (e - s) (drop s (arr_cells c))\<rparr>)"
  by (simp add: array_NewSlice_def)

lemma take_values_ok:
  assumes "carry_ok vs ca" "arr_type c = T_Int64" "s \<le> e" "e \<le> length (arr_cells c)" "exact \<Longrightarrow> vs = [] \<and> e \<noteq> 0"
  shows "\<exists>i ca'. take_values env (Physical c) s e ca = Inr (i, ca') \<and> carry_ok [] ca' \<and> heap_grows (ca_heap ca) (ca_heap ca') \<and>
    input_ok exact (ca_heap ca') (vs @ slice_vals c s e) i"
proof -
  have shared: "\<exists>ca'. carry_NewArray ca = (Shared T_Int64 (length (ca_heap ca) - 1) (length vs), ca') \<and> carry_ok [] ca' \<and>
      ca_heap ca' = ca_heap ca \<and> length (ca_heap ca) - 1 < length (ca_heap ca) \<and> length vs \<le> length (ca_heap ca ! (length (ca_heap ca) - 1))"
    if "carry_ok vs ca" for vs ca
    using carry_NewArray_ok [OF that] carry_ok_len [OF that] that by (auto simp: carry_ok_def last_conv_nth)
  let ?arr = "c\<lparr>arr_cells := take (e - s) (drop s (arr_cells c))\<rparr>"
  consider "e = 0" | "e \<noteq> 0" "vs = []" | "e \<noteq> 0" "vs \<noteq> []" by blast
  then show ?thesis
  proof cases
    case 1
    then show ?thesis using shared [OF assms(1)] assms(5) by (auto simp: take_values_def slice_vals_def Int64Values_def)
  next
    case 2
    then show ?thesis
      using assms carry_ok_len [OF assms(1)] array_NewSlice_values [OF assms(3,4)]
      by (simp add: take_values_def or_fail_def slice_vals_def)
  next
    case 3
    obtain ca1 where ca1: "carry_AppendArray env ?arr ca = Inr ca1" "carry_ok (vs @ slice_vals c s e) ca1" "heap_grows (ca_heap ca) (ca_heap ca1)"
      using carry_AppendArray_ok [OF assms(1), of ?arr env] assms(2) by (auto simp: slice_vals_def)
    obtain ca2 where ca2: "carry_NewArray ca1 = (Shared T_Int64 (length (ca_heap ca1) - 1) (length (vs @ slice_vals c s e)), ca2)"
        "carry_ok [] ca2" "ca_heap ca2 = ca_heap ca1" "length (ca_heap ca1) - 1 < length (ca_heap ca1)"
        "length (vs @ slice_vals c s e) \<le> length (ca_heap ca1 ! (length (ca_heap ca1) - 1))"
      using shared [OF ca1(2)] by blast
    have "take_values env (Physical c) s e ca = Inr (carry_NewArray ca1)"
      using 3 ca1(1) carry_ok_len [OF assms(1)] array_NewSlice_values [OF assms(3,4)] by (simp add: take_values_def or_fail_def)
    then show ?thesis using ca1(3) ca2 assms(5) 3(2) by auto
  qed
qed

section \<open>Closing groups\<close>

text \<open>The runs closed since a state: the complete ordered sets, the first of which continues the current one, and the rest.\<close>

fun attach :: "'a list \<Rightarrow> 'a list list \<Rightarrow> 'a list list" where
  "attach xs [] = []"
| "attach xs (Y # Ys) = (xs @ Y) # Ys"

definition split_from :: "run_state \<Rightarrow> run_state \<Rightarrow> (group_key \<times> int list) list list \<Rightarrow> (group_key \<times> int list) list \<Rightarrow> bool" where
  "split_from S T Ys Z \<longleftrightarrow> rs_sets T = rs_sets S @ attach (rs_cur S) Ys \<and> rs_cur T = (if Ys = [] then rs_cur S @ Z else Z) \<and> [] \<notin> set Ys"

fun ends :: "nat \<Rightarrow> 'a list list \<Rightarrow> nat list" where
  "ends c [] = []"
| "ends c (Y # Ys) = (c + length Y) # ends (c + length Y) Ys"

lemma attach_snoc: "attach xs (Ys @ [Y]) = attach xs Ys @ [if Ys = [] then xs @ Y else Y]"
  by (cases Ys) simp_all

lemma ends_snoc: "ends c (Ys @ [Y]) = ends c Ys @ [c + length (concat Ys) + length Y]"
  by (induction Ys arbitrary: c) simp_all

lemma split_from_enter:
  assumes "split_from S T Ys Z" "k \<noteq> rs_key T"
  shows "if drops (rs_key T) k then split_from S (enter k T) (Ys @ [Z @ [(rs_key T, rs_vals T)]]) []
    else split_from S (enter k T) Ys (Z @ [(rs_key T, rs_vals T)])"
  using assms by (auto simp: split_from_def enter_def attach_snoc)

text \<open>What the loop over groups leaves alone.\<close>

definition same_config :: "OrderedAggregate \<Rightarrow> OrderedAggregate \<Rightarrow> bool" where
  "same_config a a' \<longleftrightarrow>
     a' = a\<lparr>oa_groupBuilders := oa_groupBuilders a', oa_groupResults := oa_groupResults a', oa_arrayToAggCarry := oa_arrayToAggCarry a'\<rparr>"

lemma same_config_updates:
  "same_config a a' \<Longrightarrow> same_config a (a'\<lparr>oa_arrayToAggCarry := ca, oa_groupBuilders := b, oa_groupResults := g\<rparr>)"
  by (cases a; cases a') (simp add: same_config_def)

lemma same_config_fields:
  assumes "same_config a a'"
  shows "oa_curGroup a' = oa_curGroup a" "oa_notFirstCall a' = oa_notFirstCall a" "oa_aggResultBuilder a' = oa_aggResultBuilder a"
    "oa_aggregationResults a' = oa_aggregationResults a" "oa_aggregationFunction a' = oa_aggregationFunction a"
    "oa_finalStage a' = oa_finalStage a" "oa_resultColumnName a' = oa_resultColumnName a"
    "oa_columnToAggregate a' = oa_columnToAggregate a" "oa_groupByColumnMatchers a' = oa_groupByColumnMatchers a"
    "oa_groupColOrdering a' = oa_groupColOrdering a"
  using assms by (cases a; cases a'; simp add: same_config_def)+

definition walk_ok :: "bool \<Rightarrow> (string \<times> arrow_type) list \<Rightarrow> OrderedAggregate \<Rightarrow> run_state \<Rightarrow> run_state \<Rightarrow> group_walk \<Rightarrow> bool" where
  "walk_ok exact fs a S T w \<longleftrightarrow> same_config a (gw_agg w) \<and> groups_repr fs T (gw_agg w) \<and>
     (\<exists>ca Ys Z. oa_arrayToAggCarry (gw_agg w) = Some ca \<and> carry_ok (rs_vals T) ca \<and> split_from S T Ys Z \<and>
        list_all2 (\<lambda>run i. input_ok exact (ca_heap ca) (snd run) i) (concat Ys @ Z) (gw_inputs w) \<and> gw_setIdxs w = ends 0 Ys)"

lemma map_of_keyed: "distinct (map fst fs) \<Longrightarrow> f \<in> set fs \<Longrightarrow> map_of (map (\<lambda>f. (fst f, B f)) fs) (fst f) = Some (B f)"
proof (induction fs)
  case (Cons g fs)
  show ?case
  proof (cases "f = g")
    case False
    then have "f \<in> set fs" using Cons.prems by simp
    then show ?thesis using Cons distinct_fst_Cons [OF Cons.prems(1)] by simp
  qed simp
qed simp

lemma append_groups_repr:
  assumes "groups_repr fs T a" "length cs = length fs" "group_types fs" "key_ok fs (rs_key T)" "runs_fit fs T" "k' \<noteq> rs_key T"
    and "\<forall>(f, c)\<in>set (zip fs cs). (if e = 0 then Some (oa_curGroup a (fst f)) else one_for_marshal c s) =
      Some (GetOneForMarshal (snd f) (rs_key T (fst f)))"
  shows "\<exists>b g. append_groups env (drops (rs_key T) k') s e fs cs
      (a\<lparr>oa_arrayToAggCarry := ca, oa_groupResults := oa_groupResults a @ (if drops (rs_key T) k' then [[]] else [])\<rparr>) =
      Inr (a\<lparr>oa_arrayToAggCarry := ca, oa_groupBuilders := b, oa_groupResults := g\<rparr>) \<and>
    groups_repr fs (enter k' T) (a\<lparr>oa_arrayToAggCarry := ca, oa_groupBuilders := b, oa_groupResults := g\<rparr>)"
proof -
  let ?k = "rs_key T" let ?flush = "drops (rs_key T) k'"
  let ?B = "key_col (rs_cur T)"
  let ?a = "a\<lparr>oa_arrayToAggCarry := ca, oa_groupResults := oa_groupResults a @ (if ?flush then [[]] else [])\<rparr>"
  have bs: "oa_groupBuilders ?a = map (\<lambda>f. (fst f, ?B f)) fs" using assms(1) by (simp add: groups_repr_def)
  have fit: "data_size (arr_cells (?B f)) + cell_bytes (?k (fst f)) \<le> MaxInt32" if "f \<in> set fs" "snd f = T_Binary" for f
    using assms(5) that by (auto simp: runs_fit_def list_all_iff all_runs_def key_bytes_def key_col_def comp_def data_size_def)
  have "append_groups env ?flush s e fs cs ?a = Inr (?a\<lparr>oa_groupBuilders :=
        fold (\<lambda>f. AList.update (fst f) (if ?flush then new_builder (snd f) else with_key ?k f (?B f))) fs (oa_groupBuilders ?a),
      oa_groupResults := (if ?flush then butlast (oa_groupResults ?a) @ [last (oa_groupResults ?a) @ map (\<lambda>f. with_key ?k f (?B f)) fs]
        else oa_groupResults ?a)\<rparr>)"
    using assms(2-4,7) map_of_keyed [of fs _ ?B] fit
    by (intro append_groups_builders) (auto simp: bs group_types_def key_ok_def key_col_def)
  moreover have "fold (\<lambda>f. AList.update (fst f) (if ?flush then new_builder (snd f) else with_key ?k f (?B f))) fs (oa_groupBuilders ?a) =
      map (\<lambda>f. (fst f, key_col (rs_cur (enter k' T)) f)) fs"
    unfolding bs using fold_AList_update [of fs "[]" "\<lambda>f. if ?flush then new_builder (snd f) else with_key ?k f (?B f)" ?B] assms(3,6)
    by (auto simp: group_types_def enter_def key_col_def with_key_def new_builder_def)
  moreover have "(if ?flush then butlast (oa_groupResults ?a) @ [last (oa_groupResults ?a) @ map (\<lambda>f. with_key ?k f (?B f)) fs]
      else oa_groupResults ?a) = map (\<lambda>X. map (key_col X) fs) (rs_sets (enter k' T))"
    using assms(1,6) by (auto simp: groups_repr_def enter_def key_col_def with_key_def)
  ultimately show ?thesis using assms(1) by (intro exI conjI) (auto simp: groups_repr_def)
qed

lemma close_group_ok:
  assumes walk: "walk_ok exact fs a S T w" and col: "arr_type c = T_Int64" "s \<le> e" "e \<le> length (arr_cells c)"
    and exact: "exact \<Longrightarrow> rs_vals T = [] \<and> e \<noteq> 0"
    and keys: "length cs = length fs" "group_types fs" "key_ok fs (rs_key T)" "runs_fit fs T" "k' \<noteq> rs_key T"
    and vals: "\<forall>(f, c)\<in>set (zip fs cs). (if e = 0 then Some (oa_curGroup a (fst f)) else one_for_marshal c s) =
      Some (GetOneForMarshal (snd f) (rs_key T (fst f)))"
    and flush: "(gw_setRanges w \<noteq> [] \<and> hd (gw_setRanges w) = int e) = drops (rs_key T) k'"
  shows "\<exists>w'. close_group env (Physical c) cs s (int e) w = Inr w' \<and>
    walk_ok exact fs a S (enter k' (add_vals (slice_vals c s e) T)) w' \<and>
    gw_setRanges w' = (if drops (rs_key T) k' then tl (gw_setRanges w) else gw_setRanges w)"
proof -
  let ?T = "add_vals (slice_vals c s e) T"
  let ?flush = "drops (rs_key T) k'"
  obtain ca Ys Z where ca: "oa_arrayToAggCarry (gw_agg w) = Some ca" "carry_ok (rs_vals T) ca" "split_from S T Ys Z"
      "list_all2 (\<lambda>run i. input_ok exact (ca_heap ca) (snd run) i) (concat Ys @ Z) (gw_inputs w)" "gw_setIdxs w = ends 0 Ys"
    and conf: "same_config a (gw_agg w)" and repr: "groups_repr fs T (gw_agg w)"
    using walk unfolding walk_ok_def by blast
  obtain i ca' where i: "take_values env (Physical c) s e ca = Inr (i, ca')" "carry_ok [] ca'" "heap_grows (ca_heap ca) (ca_heap ca')"
      "input_ok exact (ca_heap ca') (rs_vals T @ slice_vals c s e) i"
    using take_values_ok [OF ca(2) col exact] by blast
  have cur: "oa_curGroup (gw_agg w) = oa_curGroup a" by (subst conf [unfolded same_config_def]) simp
  have vals': "\<forall>(f, c)\<in>set (zip fs cs). (if e = 0 then Some (oa_curGroup (gw_agg w) (fst f)) else one_for_marshal c s) =
      Some (GetOneForMarshal (snd f) (rs_key T (fst f)))"
    unfolding cur by (rule vals)
  have repr': "groups_repr fs ?T (gw_agg w)" using repr by (simp add: groups_repr_def)
  have fit': "runs_fit fs ?T" using keys(4) by (simp add: runs_fit_def all_runs_def)
  obtain b g where bg: "append_groups env ?flush s e fs cs
        ((gw_agg w)\<lparr>oa_arrayToAggCarry := Some ca', oa_groupResults := oa_groupResults (gw_agg w) @ (if ?flush then [[]] else [])\<rparr>) =
      Inr ((gw_agg w)\<lparr>oa_arrayToAggCarry := Some ca', oa_groupBuilders := b, oa_groupResults := g\<rparr>)"
      "groups_repr fs (enter k' ?T) ((gw_agg w)\<lparr>oa_arrayToAggCarry := Some ca', oa_groupBuilders := b, oa_groupResults := g\<rparr>)"
    using append_groups_repr [OF repr' keys(1,2) _ fit', of k' e s env "Some ca'", unfolded add_vals_simps, OF keys(3,5) vals'] by blast
  let ?w = "\<lparr>gw_agg = (gw_agg w)\<lparr>oa_arrayToAggCarry := Some ca', oa_groupBuilders := b, oa_groupResults := g\<rparr>, gw_inputs = gw_inputs w @ [i],
    gw_setIdxs = gw_setIdxs w @ (if ?flush then [length (gw_inputs w @ [i])] else []),
    gw_setRanges = (if ?flush then tl (gw_setRanges w) else gw_setRanges w)\<rparr>"
  have "oa_groupColOrdering (gw_agg w) = fs" using repr by (simp add: groups_repr_def)
  then have close: "close_group env (Physical c) cs s (int e) w = Inr ?w"
    unfolding close_group_def using ca(1) i(1) bg(1) flush by (simp add: or_fail_def Let_def)
  have ins: "list_all2 (\<lambda>run i. input_ok exact (ca_heap ca') (snd run) i) (concat Ys @ Z @ [(rs_key T, rs_vals ?T)]) (gw_inputs w @ [i])"
    using list_all2_mono [OF ca(4)] input_ok_grows [OF _ i(3)] i(4) by (auto simp: list_all2_appendI simp flip: append_assoc)
  have "same_config a (gw_agg ?w)" using same_config_updates [OF conf] by simp
  moreover have "rs_vals (enter k' ?T) = []" using keys(5) by (simp add: enter_def)
  moreover have "\<exists>Ys Z. split_from S (enter k' ?T) Ys Z \<and>
      list_all2 (\<lambda>run i. input_ok exact (ca_heap ca') (snd run) i) (concat Ys @ Z) (gw_inputs ?w) \<and> gw_setIdxs ?w = ends 0 Ys"
  proof -
    have "split_from S ?T Ys Z" using ca(3) by (simp add: split_from_def)
    note sp = split_from_enter [OF this, of k']
    have len: "length (gw_inputs w) = length (concat Ys) + length Z" using list_all2_lengthD [OF ca(4)] by simp
    show ?thesis
    proof (cases ?flush)
      case True
      then show ?thesis using sp keys(5) ins ca(5) len
        by (intro exI [of _ "Ys @ [Z @ [(rs_key T, rs_vals ?T)]]"] exI [of _ "[]"]) (simp add: ends_snoc)
    next
      case False
      then show ?thesis using sp keys(5) ins ca(5) by (intro exI [of _ Ys] exI [of _ "Z @ [(rs_key T, rs_vals ?T)]"]) simp
    qed
  qed
  ultimately have "walk_ok exact fs a S (enter k' ?T) ?w" unfolding walk_ok_def using bg(2) i(2) by auto
  then show ?thesis using close by auto
qed

section \<open>The loop over the groups of a record\<close>

text \<open>The key before a row and the key of the row.\<close>

definition change_at :: "group_key \<Rightarrow> (group_key \<times> int) list \<Rightarrow> nat \<Rightarrow> bool" where
  "change_at k rows j \<longleftrightarrow> (k # map fst rows) ! j \<noteq> (k # map fst rows) ! Suc j"

definition drop_at :: "group_key \<Rightarrow> (group_key \<times> int) list \<Rightarrow> nat \<Rightarrow> bool" where
  "drop_at k rows j \<longleftrightarrow> drops ((k # map fst rows) ! j) ((k # map fst rows) ! Suc j)"

lemma drop_at_change: "drop_at k rows j \<Longrightarrow> change_at k rows j"
  by (auto simp: drop_at_def change_at_def drops_def cell_gt_iff)

lemma unchanged_keys:
  assumes "\<forall>j\<in>{p..<e}. \<not> change_at k rows j" "p \<le> j" "j \<le> e"
  shows "(k # map fst rows) ! j = (k # map fst rows) ! p"
  using assms(2,3)
proof (induction rule: dec_induct)
  case (step m)
  then show ?case using assms(1) by (auto simp: change_at_def)
qed simp

lemma keys_grow: "\<exists>ks. map fst (all_runs (row_step row S)) = map fst (all_runs S) @ ks"
  by (cases "fst row" S rule: enter_cases) (auto simp: row_step_def all_runs_def)

lemma runs_fit_step: "runs_fit fs (row_step row S) \<Longrightarrow> runs_fit fs S"
  using keys_grow [of row S] by (auto simp: runs_fit_def list_all_iff)

lemma runs_fit_steps: "runs_fit fs (fold row_step rows S) \<Longrightarrow> runs_fit fs S"
  by (induction rows arbitrary: S) (auto dest: runs_fit_step)

lemma runs_fit_simps [simp]: "runs_fit fs (add_vals vs S) = runs_fit fs S"
  by (simp add: runs_fit_def all_runs_def)

lemma row_steps_enter: "fold row_step (row # rows) (enter (fst row) S) = fold row_step (row # rows) S"
proof -
  have "enter (fst row) (enter (fst row) S) = enter (fst row) S" using enter_key(2) [of "enter (fst row) S"] by simp
  then show ?thesis by (simp add: row_step_def)
qed

text \<open>A record as the loop sees it: the group by columns and the column of values hold the rows.\<close>

definition record_view :: "(string \<times> arrow_type) list \<Rightarrow> column list \<Rightarrow> arrow_array \<Rightarrow> (group_key \<times> int) list \<Rightarrow> bool" where
  "record_view fs cs c rows \<longleftrightarrow> length cs = length fs \<and> arr_type c = T_Int64 \<and> Int64Values (arr_cells c) = map snd rows \<and>
     (\<forall>row\<in>set rows. key_ok fs (fst row)) \<and>
     (\<forall>j < length rows. \<forall>(f, c)\<in>set (zip fs cs). one_for_marshal c j = Some (GetOneForMarshal (snd f) (fst (rows ! j) (fst f))))"

lemma record_view_length: "record_view fs cs c rows \<Longrightarrow> length (arr_cells c) = length rows"
  unfolding record_view_def by (metis Int64Values_def length_map)

lemma slice_vals_rows: "record_view fs cs c rows \<Longrightarrow> slice_vals c s e = map snd (take (e - s) (drop s rows))"
  unfolding record_view_def slice_vals_def Int64Values_def by (metis drop_map take_map)

lemma rows_of_run:
  assumes "\<forall>j\<in>{p..<e}. \<not> change_at k rows j" "p \<le> Suc s" "s \<le> e" "e \<le> length rows" "K = (k # map fst rows) ! p"
  shows "\<forall>row\<in>set (take (e - s) (drop s rows)). fst row = K" "s < e \<Longrightarrow> fst (rows ! s) = K" "p \<le> e \<Longrightarrow> (k # map fst rows) ! e = K"
proof -
  have key: "fst (rows ! j) = K" if "s \<le> j" "j < e" for j
    using unchanged_keys [OF assms(1), of "Suc j"] that assms(2,4,5) by simp
  have "fst (take (e - s) (drop s rows) ! i) = K" if "i < length (take (e - s) (drop s rows))" for i
    using that key [of "s + i"] assms(3,4) by simp
  then show "\<forall>row\<in>set (take (e - s) (drop s rows)). fst row = K" by (metis in_set_conv_nth)
  show "s < e \<Longrightarrow> fst (rows ! s) = K" using key by simp
  show "p \<le> e \<Longrightarrow> (k # map fst rows) ! e = K" 
    using unchanged_keys [OF assms(1), of e] unfolding assms(5) by blast
qed

lemma carry_over_ok:
  assumes walk: "walk_ok exact fs a S T w" and view: "record_view fs cs c rows" and "s \<le> length rows"
  shows "\<exists>w'. carry_over env (Physical c) s w = Inr w' \<and> walk_ok exact fs a S (add_vals (map snd (drop s rows)) T) w'"
proof -
  obtain ca Ys Z where ca: "oa_arrayToAggCarry (gw_agg w) = Some ca" "carry_ok (rs_vals T) ca" "split_from S T Ys Z"
      "list_all2 (\<lambda>run i. input_ok exact (ca_heap ca) (snd run) i) (concat Ys @ Z) (gw_inputs w)" "gw_setIdxs w = ends 0 Ys"
    and conf: "same_config a (gw_agg w)" and repr: "groups_repr fs T (gw_agg w)"
    using walk unfolding walk_ok_def by blast
  let ?n = "length (arr_cells c)" let ?arr = "c\<lparr>arr_cells := take (length (arr_cells c) - s) (drop s (arr_cells c))\<rparr>"
  have slice: "array_NewSlice (Physical c) s ?n = Some ?arr" using assms(3) record_view_length [OF view] by (intro array_NewSlice_values) auto
  have "arr_type ?arr = T_Int64" using view by (simp add: record_view_def)
  from carry_AppendArray_ok [OF ca(2) this, of env]
  obtain ca' where ca': "carry_AppendArray env ?arr ca = Inr ca'" "carry_ok (rs_vals T @ slice_vals c s ?n) ca'" "heap_grows (ca_heap ca) (ca_heap ca')"
    by (auto simp: slice_vals_def)
  let ?w = "w\<lparr>gw_agg := (gw_agg w)\<lparr>oa_arrayToAggCarry := Some ca'\<rparr>\<rparr>"
  have "carry_over env (Physical c) s w = Inr ?w" using ca(1) ca'(1) slice by (simp add: carry_over_def or_fail_def)
  moreover have "slice_vals c s ?n = map snd (drop s rows)" using slice_vals_rows [OF view, of s ?n] record_view_length [OF view] by simp
  moreover have "same_config a (gw_agg ?w)"
    using same_config_updates [OF conf, where ca = "Some ca'" and b = "oa_groupBuilders (gw_agg w)" and g = "oa_groupResults (gw_agg w)"] by simp
  moreover have "groups_repr fs (add_vals vs T) (gw_agg ?w)" for vs using repr by (simp add: groups_repr_def)
  moreover have "split_from S (add_vals vs T) Ys Z" for vs using ca(3) by (simp add: split_from_def)
  moreover have "list_all2 (\<lambda>run i. input_ok exact (ca_heap ca') (snd run) i) (concat Ys @ Z) (gw_inputs ?w)"
    using list_all2_mono [OF ca(4)] input_ok_grows [OF _ ca'(3)] by simp
  ultimately show ?thesis unfolding walk_ok_def using ca(5) ca'(2) by (intro exI [of _ ?w]) auto
qed

definition row_number :: "int \<Rightarrow> nat" where
  "row_number g = nat (if g = - 1 then 0 else g)"

lemma group_loop_ok:
  assumes pop: "pops g h (map int bs)" "bs = filter (change_at k rows) [nat (g + 1)..<length rows]" "g = - 1 \<or> 0 \<le> g" "g < int (length rows)"
    and walk: "walk_ok exact fs a S T w" and view: "record_view fs cs c rows" and types: "group_types fs"
    and ranges: "gw_setRanges w = map int (filter (drop_at k rows) [nat (g + 1)..<length rows])"
    and key: "rs_key T = (k # map fst rows) ! nat (g + 1)" "key_ok fs k"
    and exact: "exact \<Longrightarrow> rs_vals T = [] \<and> (g = - 1 \<longrightarrow> \<not> change_at k rows 0)"
    and cur: "\<forall>f\<in>set fs. oa_curGroup a (fst f) = GetOneForMarshal (snd f) (k (fst f))"
    and fit: "runs_fit fs (fold row_step (drop (row_number g) rows) T)"
  shows "\<exists>w'. group_loop env (Physical c) cs g h w = Inr w' \<and> walk_ok exact fs a S (fold row_step (drop (row_number g) rows) T) w'"
  using pop walk ranges key(1) exact fit
proof (induction bs arbitrary: g h T w)
  case Nil
  let ?s = "row_number g" let ?p = "nat (g + 1)" let ?n = "length rows"
  have s: "?p \<le> Suc ?s" "?s \<le> ?n" using Nil.prems(3,4) by (auto simp: row_number_def)
  have "\<forall>j\<in>{?p..<?n}. \<not> change_at k rows j" using filter_upt_Nil Nil.prems(2) by metis
  from rows_of_run(1) [OF this s _ Nil.prems(7)] have "\<forall>row\<in>set (drop ?s rows). fst row = rs_key T" by simp
  then have "fold row_step (drop ?s rows) T = add_vals (map snd (drop ?s rows)) T" by (rule row_steps_same_key)
  moreover obtain h' where "PopNextNotEqual g h = ((0, False), h')" using pops_Nil Nil.prems(1) by auto
  then have "group_loop env (Physical c) cs g h w = carry_over env (Physical c) ?s w"
    by (subst group_loop.simps) (simp add: row_number_def Let_def)
  ultimately show ?case using carry_over_ok [OF Nil.prems(5) view s(2), of env] by simp
next
  case (Cons e bs)
  let ?s = "row_number g" let ?p = "nat (g + 1)" let ?n = "length rows" let ?k' = "fst (rows ! e)"
  note e = filter_upt_Cons [OF Cons.prems(2) [symmetric]]
  have s: "?p \<le> Suc ?s" "?s \<le> e" "e \<noteq> 0 \<Longrightarrow> ?s < e" "e = 0 \<Longrightarrow> g = - 1"
    using Cons.prems(3) e(1) by (auto simp: row_number_def)
  note run = rows_of_run [OF e(4) s(1,2) less_imp_le [OF e(2)] Cons.prems(7)]
  have K: "(k # map fst rows) ! Suc e = ?k'" using e(2) by simp
  have k': "?k' \<noteq> rs_key T" using e(3) run(3) [OF e(1)] K by (auto simp: change_at_def)
  have flush: "drop_at k rows e \<longleftrightarrow> drops (rs_key T) ?k'" using run(3) [OF e(1)] K by (simp add: drop_at_def)
  have sr: "gw_setRanges w = (if drops (rs_key T) ?k' then [int e] else []) @ map int (filter (drop_at k rows) [Suc e..<?n])"
    using Cons.prems(6) filter_weaker [OF Cons.prems(2) [symmetric] drop_at_change] flush by simp
  have hd: "(gw_setRanges w \<noteq> [] \<and> hd (gw_setRanges w) = int e) = drops (rs_key T) ?k'"
  proof (cases "drops (rs_key T) ?k'")
    case False
    have "v \<noteq> int e" if "v \<in> set (gw_setRanges w)" for v using that False unfolding sr by auto
    then show ?thesis using False hd_in_set by blast
  qed (simp add: sr)
  have fit_T: "runs_fit fs T" using runs_fit_steps Cons.prems(9) by blast
  have keyT: "key_ok fs (rs_key T)" using Cons.prems(7) key(2) view Cons.prems(3,4) by (auto simp: record_view_def nth_Cons')
  have vals: "\<forall>(f, c)\<in>set (zip fs cs). (if e = 0 then Some (oa_curGroup a (fst f)) else one_for_marshal c ?s) =
      Some (GetOneForMarshal (snd f) (rs_key T (fst f)))"
  proof (cases "e = 0")
    case True
    then have "rs_key T = k" using Cons.prems(7) s(4) by simp
    then show ?thesis using True cur by (auto dest: set_zip_leftD)
  next
    case False
    then have "fst (rows ! ?s) = rs_key T" "?s < ?n" using run(2) s(3) e(2) by auto
    then show ?thesis using view False unfolding record_view_def by fastforce
  qed
  let ?T = "enter ?k' (add_vals (slice_vals c ?s e) T)"
  have len: "length cs = length fs" "arr_type c = T_Int64" "e \<le> length (arr_cells c)"
    using view e(2) record_view_length [OF view] by (auto simp: record_view_def)
  have ex: "exact \<Longrightarrow> rs_vals T = [] \<and> e \<noteq> 0" using Cons.prems(8) s(4) e(3) by (cases "e = 0") auto
  obtain w1 where w1: "close_group env (Physical c) cs ?s (int e) w = Inr w1" "walk_ok exact fs a S ?T w1"
      "gw_setRanges w1 = (if drops (rs_key T) ?k' then tl (gw_setRanges w) else gw_setRanges w)"
    using close_group_ok [OF Cons.prems(5) len(2) s(2) len(3) ex len(1) types keyT fit_T k' vals hd, of env] by blast
  have T: "fold row_step (drop e rows) ?T = fold row_step (drop ?s rows) T"
  proof -
    have "drop ?s rows = take (e - ?s) (drop ?s rows) @ drop e rows"
      using append_take_drop_id [of "e - ?s" "drop ?s rows"] s(2) by simp
    moreover have "fold row_step (take (e - ?s) (drop ?s rows)) T = add_vals (slice_vals c ?s e) T"
      using row_steps_same_key [OF run(1)] slice_vals_rows [OF view] by simp
    moreover have "drop e rows = rows ! e # drop (Suc e) rows" using e(2) by (simp add: Cons_nth_drop_Suc)
    ultimately show ?thesis using row_steps_enter [of "rows ! e"] by (metis fold_append comp_apply)
  qed
  obtain h1 where h1: "PopNextNotEqual g h = ((int e, True), h1)" "pops (int e) h1 (map int bs)"
    using pops_Cons Cons.prems(1) by fastforce
  have loop: "group_loop env (Physical c) cs g h w = group_loop env (Physical c) cs (int e) h1 w1"
    using h1(1) w1(1) by (subst group_loop.simps) (simp add: row_number_def Let_def)
  have "\<exists>w'. group_loop env (Physical c) cs (int e) h1 w1 = Inr w' \<and> walk_ok exact fs a S (fold row_step (drop (row_number (int e)) rows) ?T) w'"
  proof (rule Cons.IH [OF h1(2)])
    show "bs = filter (change_at k rows) [nat (int e + 1)..<?n]" using e(5) by (simp add: nat_add_distrib)
    show "gw_setRanges w1 = map int (filter (drop_at k rows) [nat (int e + 1)..<?n])" using w1(3) sr by (simp add: nat_add_distrib)
    show "rs_key ?T = (k # map fst rows) ! nat (int e + 1)" using K by (simp add: nat_add_distrib)
    show "runs_fit fs (fold row_step (drop (row_number (int e)) rows) ?T)" using Cons.prems(9) T by (simp add: row_number_def)
    show "rs_vals ?T = [] \<and> (int e = - 1 \<longrightarrow> \<not> change_at k rows 0)" using k' by (simp add: enter_def)
  qed (use e(2) w1(2) in auto)
  then show ?case using loop T by (simp add: row_number_def)
qed

end
