(* ===== verification/Ordered_Results.thy ===== *)
theory Ordered_Results
  imports Ordered_Groups
begin

text \<open>
  The results of the ordered aggregation: what a call of \<open>Callback\<close> adds to them, and the state it leaves behind.
\<close>

section \<open>Aggregates of runs\<close>

lemma agg_value_cong:
  assumes "sums_int64 env" "Int64Values xs = Int64Values ys"
  shows "agg_value env f xs = agg_value env f ys"
proof -
  have "length xs = length ys" using arg_cong [OF assms(2), of length] by (simp add: Int64Values_def)
  then show ?thesis using assms by (cases f) (simp_all add: sums_int64_def minInt64array_def maxInt64array_def)
qed

definition stage_function :: "AggFunc \<Rightarrow> bool \<Rightarrow> AggFunc" where
  "stage_function f final = (if final then final_function f else f)"

definition run_cell :: "ord_env \<Rightarrow> AggFunc \<Rightarrow> group_key \<times> int list \<Rightarrow> cell option" where
  "run_cell env f run = Some (C_Int (agg_value (oe_agg env) f (int_cells (snd run))))"

lemma resolved_input:
  assumes "input_ok exact h vs i" "sums_int64 env" "exact \<or> f = AggFuncCount"
  shows "\<exists>cells. resolve h i = int64_array cells \<and> length cells = length vs \<and> agg_value env f cells = agg_value env f (int_cells vs)"
proof (cases i)
  case (Sliced a)
  then have "Int64Values (arr_cells a) = Int64Values (int_cells vs)" using assms(1) by simp
  moreover have "length (arr_cells a) = length vs" using Sliced assms(1) by (auto simp: Int64Values_def)
  ultimately show ?thesis
    using Sliced assms(1) agg_value_cong [OF assms(2)] by (intro exI [of _ "arr_cells a"]) (cases a; auto simp: int64_array_def)
next
  case (Shared ty k n)
  then show ?thesis using assms(1,3) by (auto simp: int64_array_def)
qed

lemma run_results:
  assumes "list_all2 (\<lambda>run i. input_ok exact h (snd run) i) runs inputs" "runs \<noteq> []" "list_all (\<lambda>(k, vs). vs \<noteq> []) runs"
    and "sums_int64 (oe_agg env)" "supported f" "exact \<or> f = AggFuncCount \<and> \<not> final"
  shows "runAggregation (oe_agg env) final f (map (resolve h) inputs) = Inr (int64_array (map (run_cell env (stage_function f final)) runs))"
proof -
  let ?f = "stage_function f final"
  have ex: "exact \<or> ?f = AggFuncCount" using assms(6) by (auto simp: stage_function_def)
  have "\<exists>css. map (resolve h) inputs = map int64_array css \<and> list_all2 (\<lambda>run cs. length cs = length (snd run) \<and>
      agg_value (oe_agg env) ?f cs = agg_value (oe_agg env) ?f (int_cells (snd run))) runs css"
    using assms(1)
  proof (induction rule: list_all2_induct)
    case Nil
    then show ?case by simp
  next
    case (Cons run runs i inps)
    from Cons.IH obtain css where css: "map (resolve h) inps = map int64_array css" "list_all2 (\<lambda>run cs. length cs = length (snd run) \<and>
      agg_value (oe_agg env) ?f cs = agg_value (oe_agg env) ?f (int_cells (snd run))) runs css" by blast
    obtain cs where "resolve h i = int64_array cs" "length cs = length (snd run)"
      "agg_value (oe_agg env) ?f cs = agg_value (oe_agg env) ?f (int_cells (snd run))"
      using resolved_input [OF Cons.hyps(1) assms(4) ex] by blast
    then show ?case using css by (intro exI [of _ "cs # css"]) simp
  qed
  then obtain css where css: "map (resolve h) inputs = map int64_array css" "list_all2 (\<lambda>run cs. length cs = length (snd run) \<and>
      agg_value (oe_agg env) ?f cs = agg_value (oe_agg env) ?f (int_cells (snd run))) runs css" by blast
  have "css \<noteq> []" using css(2) assms(2) by auto
  moreover have "[] \<notin> set css" using css(2) assms(3) by (fastforce simp: list_all2_conv_all_nth in_set_conv_nth list_all_length)
  moreover have "map (\<lambda>cs. Some (C_Int (agg_value (oe_agg env) ?f cs))) css = map (run_cell env ?f) runs"
    using css(2) by (induction rule: list_all2_induct) (simp_all add: run_cell_def)
  ultimately show ?thesis using runAggregation_int64 [OF assms(5), of css "oe_agg env" final] css(1) by (simp add: stage_function_def)
qed

section \<open>Ordered sets of results\<close>

definition all_int64 :: "arrow_array list \<Rightarrow> bool" where
  "all_int64 arrs \<longleftrightarrow> list_all (\<lambda>b. arr_type b = T_Int64) arrs"

lemma int64_array_eta: "arr_type a = T_Int64 \<Longrightarrow> int64_array (arr_cells a) = a"
  by (cases a) (simp add: int64_array_def)

lemma int64_array_simps [simp]: "arr_type (int64_array cells) = T_Int64" "arr_cells (int64_array cells) = cells"
  by (simp_all add: int64_array_def)

lemma close_results_ok:
  assumes "all_int64 carried" "arr_type res = T_Int64"
  shows "close_results carried res = Inr (int64_array (concat (map arr_cells carried) @ arr_cells res))"
proof (cases carried)
  case Nil
  then show ?thesis using int64_array_eta [OF assms(2)] by (simp add: close_results_def)
next
  case (Cons b bs)
  then show ?thesis using assms by (auto simp: close_results_def Concatenate_def all_int64_def int64_array_def list_all_iff)
qed

lemma flush_sets_ok:
  assumes "arr_type results = T_Int64" "arr_cells results = P @ map g (concat Ys @ Z)" "length P = c"
    and "all_int64 (oa_aggResultBuilder a)" "concat (map arr_cells (oa_aggResultBuilder a)) = map g cur"
  shows "\<exists>rb. flush_sets results c (ends c Ys) a = Inr (a\<lparr>oa_aggResultBuilder := rb,
      oa_aggregationResults := oa_aggregationResults a @ map (\<lambda>X. int64_array (map g X)) (attach cur Ys)\<rparr>) \<and>
    all_int64 rb \<and> concat (map arr_cells rb) = map g (if Ys = [] then cur @ Z else Z)"
  using assms
proof (induction Ys arbitrary: P c a cur)
  case Nil
  have "array_NewSlice (Physical results) c (length (arr_cells results)) = Some (results\<lparr>arr_cells := map g Z\<rparr>)"
    using Nil.prems(2,3) by (simp add: array_NewSlice_values)
  then show ?case using Nil.prems by (auto simp: or_fail_def all_int64_def)
next
  case (Cons Y Ys)
  let ?part = "results\<lparr>arr_cells := map g Y\<rparr>"
  let ?a = "a\<lparr>oa_aggResultBuilder := [], oa_aggregationResults := oa_aggregationResults a @ [int64_array (map g (cur @ Y))]\<rparr>"
  have "array_NewSlice (Physical results) c (c + length Y) = Some ?part"
    using Cons.prems(2,3) by (simp add: array_NewSlice_values)
  moreover have "close_results (oa_aggResultBuilder a) ?part = Inr (int64_array (map g (cur @ Y)))"
    using close_results_ok [OF Cons.prems(4), of ?part] Cons.prems(1,5) by simp
  ultimately have "flush_sets results c (ends c (Y # Ys)) a = flush_sets results (c + length Y) (ends (c + length Y) Ys) ?a"
    by (simp add: or_fail_def)
  moreover have "\<exists>rb. flush_sets results (c + length Y) (ends (c + length Y) Ys) ?a = Inr (?a\<lparr>oa_aggResultBuilder := rb,
      oa_aggregationResults := oa_aggregationResults ?a @ map (\<lambda>X. int64_array (map g X)) (attach [] Ys)\<rparr>) \<and>
    all_int64 rb \<and> concat (map arr_cells rb) = map g (if Ys = [] then [] @ Z else Z)"
    using Cons.prems(2,3) by (intro Cons.IH [OF Cons.prems(1), of "P @ map g Y"]) (simp_all add: all_int64_def)
  moreover have "attach [] Ys = Ys" by (cases Ys) simp_all
  ultimately show ?case by auto
qed

section \<open>The boundaries of a record\<close>

definition columns_view :: "(string \<times> arrow_type) list \<Rightarrow> column list \<Rightarrow> (group_key \<times> int) list \<Rightarrow> bool" where
  "columns_view fs cs rows \<longleftrightarrow>
     list_all2 (\<lambda>f c. column_DataType c = snd f \<and> column_cells c = map (\<lambda>row. fst row (fst f)) rows) fs cs"

definition key_row :: "(string \<times> arrow_type) list \<Rightarrow> group_key \<Rightarrow> cell option list" where
  "key_row fs k = map (\<lambda>f. k (fst f)) fs"

lemma key_row_inj:
  assumes "key_ok fs k" "key_ok fs k'"
  shows "key_row fs k = key_row fs k' \<longleftrightarrow> k = k'"
proof
  assume eq: "key_row fs k = key_row fs k'"
  have "k n = k' n" for n
  proof (cases "n \<in> fst ` set fs")
    case True
    then show ?thesis using eq by (auto simp: key_row_def)
  next
    case False
    then have "n \<notin> dom k" "n \<notin> dom k'" using assms unfolding key_ok_def by blast+
    then show ?thesis by (simp add: domIff)
  qed
  then show "k = k'" by blast
qed simp

lemma drops_key_row:
  assumes "key_ok fs k" "key_ok fs k'"
  shows "drops k k' \<longleftrightarrow> (\<exists>i < length fs. cell_gt (key_row fs k ! i) (key_row fs k' ! i))"
proof
  assume "drops k k'"
  then obtain n where n: "cell_gt (k n) (k' n)" by (auto simp: drops_def)
  then have "n \<in> dom k \<or> n \<in> dom k'" by (cases "k n"; cases "k' n") (auto simp: cell_gt_iff)
  then have "n \<in> fst ` set fs" using assms unfolding key_ok_def by blast
  then obtain i where "i < length fs" "n = fst (fs ! i)" by (auto simp: in_set_conv_nth)
  then show "\<exists>i < length fs. cell_gt (key_row fs k ! i) (key_row fs k' ! i)" using n by (auto simp: key_row_def)
qed (auto simp: key_row_def drops_def)

definition cur_repr :: "(string \<times> arrow_type) list \<Rightarrow> group_key \<Rightarrow> (string \<Rightarrow> go_any) \<Rightarrow> bool" where
  "cur_repr fs k cur \<longleftrightarrow> cur = (\<lambda>n. case map_of fs n of None \<Rightarrow> Any_nil | Some ty \<Rightarrow> GetOneForMarshal ty (k n))"

lemma cur_repr_field: "cur_repr fs k cur \<Longrightarrow> distinct (map fst fs) \<Longrightarrow> f \<in> set fs \<Longrightarrow> cur (fst f) = GetOneForMarshal (snd f) (k (fst f))"
  by (cases f) (simp add: cur_repr_def)

lemma columns_view_group:
  assumes "columns_view fs cs rows" "group_types fs" "key_ok fs k" "\<forall>row\<in>set rows. key_ok fs (fst row)"
  shows "list_all2 (group_column_ok (length rows)) (key_row fs k) cs"
proof -
  have "group_column_ok (length rows) (k (fst f)) c"
    if "f \<in> set fs" "column_DataType c = snd f" "column_cells c = map (\<lambda>row. fst row (fst f)) rows" for f c
  proof -
    have "column_Len c = length rows" using arg_cong [OF that(3), of length] by simp
    moreover have "case c of Physical a \<Rightarrow> arr_type a \<in> {T_Binary, T_String, T_Int64, T_Boolean, T_DictBinary} | _ \<Rightarrow> True"
      using assms(2) that(1,2) by (auto simp: group_types_def list_all_iff split: column.splits)
    ultimately show ?thesis
      using assms(3,4) that by (auto simp: group_column_ok_def list_all_iff key_ok_def simp del: column_cells_length)
  qed
  then show ?thesis
    using assms(1) by (auto simp: columns_view_def key_row_def list_all2_conv_all_nth)
qed

lemma columns_view_rows:
  assumes "columns_view fs cs rows" "j \<le> length rows"
  shows "group_row (key_row fs k) cs j = key_row fs ((k # map fst rows) ! j)"
  using assms by (auto simp: columns_view_def group_row_def key_row_def list_all2_conv_all_nth nth_Cons' intro!: nth_equalityI)

lemma columns_view_values:
  assumes "columns_view fs cs rows"
  shows "group_values (key_row fs k) cs = map (\<lambda>f. GetOneForMarshal (snd f) (k (fst f))) fs"
  using assms by (auto simp: columns_view_def group_values_def key_row_def list_all2_conv_all_nth intro!: nth_equalityI)

lemma columns_view_record:
  assumes "columns_view fs cs rows" "arr_type c = T_Int64" "Int64Values (arr_cells c) = map snd rows" "\<forall>row\<in>set rows. key_ok fs (fst row)"
  shows "record_view fs cs c rows"
proof -
  have "one_for_marshal d j = Some (GetOneForMarshal (snd f) (fst (rows ! j) (fst f)))"
    if "j < length rows" "column_DataType d = snd f" "column_cells d = map (\<lambda>row. fst row (fst f)) rows" for j f d
  proof -
    have "j < column_Len d" using that(1,3) by (metis column_cells_length length_map)
    then show ?thesis using that by (simp add: one_for_marshal_def cell_at_cells)
  qed
  then show ?thesis
    using assms by (auto simp: record_view_def columns_view_def list_all2_iff)
qed

text \<open>The heaps hold the changes and the drops of the keys, and the group returned is the last row's.\<close>

lemma record_ranges:
  assumes "columns_view fs cs rows" "group_types fs" "key_ok fs k" "\<forall>row\<in>set rows. key_ok fs (fst row)" "cur_repr fs k cur"
  shows "\<exists>g s. GetGroupsAndOrderedSetRanges (map (\<lambda>f. cur (fst f)) fs) cs =
      Inr (g, s, map (\<lambda>f. GetOneForMarshal (snd f) (last (k # map fst rows) (fst f))) fs) \<and>
    pops (- 1) g (map int (filter (change_at k rows) [0..<length rows])) \<and>
    Unwrap g = map int (filter (change_at k rows) [0..<length rows]) \<and> Unwrap s = map int (filter (drop_at k rows) [0..<length rows])"
proof -
  let ?n = "length rows" let ?K = "k # map fst rows"
  have keys: "key_ok fs (?K ! j)" if "j \<le> ?n" for j using that assms(3,4) by (auto simp: nth_Cons')
  obtain g s where gs: "ranges_ok g" "GetGroupsAndOrderedSetRanges (group_values (key_row fs k) cs) cs =
        Inr (g, s, group_values (group_row (key_row fs k) cs ?n) cs)"
      "Unwrap g = map int (filter (\<lambda>j. group_row (key_row fs k) cs j \<noteq> group_row (key_row fs k) cs (j + 1)) [0..<?n])"
      "Unwrap s = map int (filter (\<lambda>j. \<exists>i < length cs. cell_gt (group_row (key_row fs k) cs j ! i) (group_row (key_row fs k) cs (j + 1) ! i)) [0..<?n])"
    using ranges_of_groups [OF columns_view_group [OF assms(1-4)]] by blast
  have rows: "group_row (key_row fs k) cs j = key_row fs (?K ! j)" if "j \<le> ?n" for j by (rule columns_view_rows [OF assms(1) that])
  have len: "length cs = length fs" using assms(1) by (simp add: columns_view_def list_all2_lengthD)
  have changes: "filter (\<lambda>j. group_row (key_row fs k) cs j \<noteq> group_row (key_row fs k) cs (j + 1)) [0..<?n] = filter (change_at k rows) [0..<?n]"
  proof (rule filter_cong [OF refl])
    fix j assume "j \<in> set [0..<?n]"
    then have "j \<le> ?n" "Suc j \<le> ?n" by auto
    then show "(group_row (key_row fs k) cs j \<noteq> group_row (key_row fs k) cs (j + 1)) = change_at k rows j"
      using rows [of j] rows [of "Suc j"] key_row_inj [OF keys keys, of j "Suc j"] by (simp add: change_at_def)
  qed
  have drops: "filter (\<lambda>j. \<exists>i < length cs. cell_gt (group_row (key_row fs k) cs j ! i) (group_row (key_row fs k) cs (j + 1) ! i)) [0..<?n] =
      filter (drop_at k rows) [0..<?n]"
  proof (rule filter_cong [OF refl])
    fix j assume "j \<in> set [0..<?n]"
    then have "j \<le> ?n" "Suc j \<le> ?n" by auto
    then show "(\<exists>i < length cs. cell_gt (group_row (key_row fs k) cs j ! i) (group_row (key_row fs k) cs (j + 1) ! i)) = drop_at k rows j"
      using rows [of j] rows [of "Suc j"] drops_key_row [OF keys keys, of j "Suc j"] len by (simp add: drop_at_def)
  qed
  have "group_values (key_row fs k) cs = map (\<lambda>f. cur (fst f)) fs"
    using columns_view_values [OF assms(1)] cur_repr_field [OF assms(5)] assms(2) by (auto simp: group_types_def)
  moreover have "?K ! ?n = last ?K" by (metis last_conv_nth length_map length_Cons list.distinct(1) diff_Suc_1)
  then have "group_values (group_row (key_row fs k) cs ?n) cs = map (\<lambda>f. GetOneForMarshal (snd f) (last ?K (fst f))) fs"
    using rows [of ?n] columns_view_values [OF assms(1)] by simp
  moreover have "pops (- 1) g (map int (filter (change_at k rows) [0..<?n]))"
  proof -
    have U: "sorted_list_of_set (set g) = map int (filter (change_at k rows) [0..<?n])"
      using Unwrap_sorted [OF gs(1)] gs(3) changes by simp
    then have "set g = int ` set (filter (change_at k rows) [0..<?n])"
      by (metis List.finite_set list.set_map set_sorted_list_of_set)
    then have "\<forall>v\<in>set g. 0 \<le> v" by auto
    then have "set g - {- 1} = set g" "\<forall>v\<in>set g. - 1 \<le> v" by force+
    then show ?thesis using gs(1) U by (simp add: pops_def)
  qed
  ultimately show ?thesis using gs(2-4) drops changes by auto
qed

section \<open>The state after a record\<close>

lemma last_run_key: "rs_key (fold row_step rows S) = last (rs_key S # map fst rows)"
proof (induction rows arbitrary: S)
  case (Cons row rows)
  have "rs_key (row_step row S) = fst row" by (simp add: row_step_def)
  then show ?case using Cons.IH [of "row_step row S"] by simp
qed simp

lemma set_curGroup_fold:
  assumes "distinct (map fst fs)"
  shows "fold (\<lambda>(f, v) cur. cur(fst f := v)) (zip fs (map G fs)) cur =
    (\<lambda>n. case map_of (map (\<lambda>f. (fst f, G f)) fs) n of None \<Rightarrow> cur n | Some v \<Rightarrow> v)"
  using assms
proof (induction fs arbitrary: cur)
  case (Cons f fs)
  have "map_of (map (\<lambda>f. (fst f, G f)) fs) (fst f) = None" using Cons.prems by (auto simp: map_of_eq_None_iff image_image)
  then show ?case using Cons by (auto split: option.splits)
qed simp

lemma cur_repr_update:
  assumes "cur_repr fs k cur" "distinct (map fst fs)"
  shows "cur_repr fs k' (fold (\<lambda>(f, v) cur. cur(fst f := v)) (zip fs (map (\<lambda>f. GetOneForMarshal (snd f) (k' (fst f))) fs)) cur)"
proof -
  have "map_of (map (\<lambda>f. (fst f, GetOneForMarshal (snd f) (k' (fst f)))) fs) n = map_option (\<lambda>ty. GetOneForMarshal ty (k' n)) (map_of fs n)" for n
    by (induction fs) auto
  then show ?thesis
    using assms unfolding cur_repr_def set_curGroup_fold [OF assms(2)] by (auto split: option.splits)
qed

definition oa_repr :: "ord_env \<Rightarrow> AggFunc \<Rightarrow> (string \<times> arrow_type) list \<Rightarrow> run_state \<Rightarrow> OrderedAggregate \<Rightarrow> bool" where
  "oa_repr env f fs S a \<longleftrightarrow> groups_repr fs S a \<and> oa_notFirstCall a \<and> cur_repr fs (rs_key S) (oa_curGroup a) \<and>
     (\<exists>ca. oa_arrayToAggCarry a = Some ca \<and> carry_ok (rs_vals S) ca) \<and>
     oa_aggregationResults a = map (\<lambda>X. int64_array (map (run_cell env f) X)) (rs_sets S) \<and>
     all_int64 (oa_aggResultBuilder a) \<and> concat (map arr_cells (oa_aggResultBuilder a)) = map (run_cell env f) (rs_cur S)"

text \<open>After the fields of a record are known, \<open>Callback\<close> adds its rows to the runs.\<close>

lemma walk_record:
  assumes repr: "oa_repr env f' fs S a"
    and view: "columns_view fs cs rows" "arr_type c = T_Int64" "Int64Values (arr_cells c) = map snd rows" "rows \<noteq> []"
    and types: "group_types fs" and keys: "key_ok fs (rs_key S)" "\<forall>row\<in>set rows. key_ok fs (fst row)"
    and vals: "rs_vals S = [] \<Longrightarrow> fst (hd rows) = rs_key S" and exact: "exact \<Longrightarrow> rs_vals S = []" and fit: "runs_fit fs (fold row_step rows S)"
  obtains g s w where "GetGroupsAndOrderedSetRanges (map (\<lambda>f. oa_curGroup a (fst f)) fs) cs =
        Inr (g, s, map (\<lambda>f. GetOneForMarshal (snd f) (rs_key (fold row_step rows S) (fst f))) fs)"
      "group_loop env (Physical c) cs (- 1) g \<lparr>gw_agg = a, gw_inputs = [], gw_setIdxs = [], gw_setRanges = Unwrap s\<rparr> = Inr w"
      "walk_ok exact fs a S (fold row_step rows S) w"
proof -
  let ?k = "rs_key S" let ?n = "length rows" let ?S = "fold row_step rows S"
  note repr' = repr [unfolded oa_repr_def]
  have dist: "distinct (map fst fs)" using types by (simp add: group_types_def)
  obtain g s where gs: "GetGroupsAndOrderedSetRanges (map (\<lambda>f. oa_curGroup a (fst f)) fs) cs =
        Inr (g, s, map (\<lambda>f. GetOneForMarshal (snd f) (last (?k # map fst rows) (fst f))) fs)"
      "pops (- 1) g (map int (filter (change_at ?k rows) [0..<?n]))" "Unwrap s = map int (filter (drop_at ?k rows) [0..<?n])"
    using record_ranges [OF view(1) types keys] repr' by blast
  let ?w = "\<lparr>gw_agg = a, gw_inputs = [], gw_setIdxs = [], gw_setRanges = Unwrap s\<rparr>"
  have walk: "walk_ok exact fs a S S ?w"
    using repr' unfolding walk_ok_def by (auto simp: same_config_def split_from_def intro!: exI [of _ "[]"])
  have ex: "exact \<Longrightarrow> rs_vals S = [] \<and> (- 1 = - (1::int) \<longrightarrow> \<not> change_at ?k rows 0)"
    using exact vals view(4) by (cases rows) (auto simp: change_at_def)
  have cur: "\<forall>f\<in>set fs. oa_curGroup a (fst f) = GetOneForMarshal (snd f) (?k (fst f))"
    using cur_repr_field [OF _ dist] repr' by blast
  obtain w where w: "group_loop env (Physical c) cs (- 1) g ?w = Inr w" "walk_ok exact fs a S ?S w"
    using group_loop_ok [where g = "- 1" and T = S and k = ?k and exact = exact and fs = fs and a = a and S = S and w = ?w and rows = rows and cs = cs and c = c and h = g,
        OF gs(2) _ _ _ walk columns_view_record [OF view(1-3) keys(2)] types _ _ keys(1) ex cur, of env] gs(3) fit
    by (auto simp: row_number_def)
  have "map (\<lambda>f. GetOneForMarshal (snd f) (last (?k # map fst rows) (fst f))) fs = map (\<lambda>f. GetOneForMarshal (snd f) (rs_key ?S (fst f))) fs"
    using last_run_key [of rows S] by simp
  from that [OF gs(1) [unfolded this] w] show thesis .
qed

lemma Callback_rows:
  assumes scan: "scan_columns env r a0 = Inr (Physical c, cs, a)" and repr: "oa_repr env (stage_function f final) fs S a"
    and config: "oa_aggregationFunction a = f" "oa_finalStage a = final"
    and view: "columns_view fs cs rows" "arr_type c = T_Int64" "Int64Values (arr_cells c) = map snd rows" "rows \<noteq> []"
    and types: "group_types fs" and keys: "key_ok fs (rs_key S)" "\<forall>row\<in>set rows. key_ok fs (fst row)" and runs: "runs_ok fs S"
    and vals: "rs_vals S = [] \<Longrightarrow> fst (hd rows) = rs_key S"
    and exact: "exact \<Longrightarrow> rs_vals S = []" "exact \<or> f = AggFuncCount \<and> \<not> final"
    and fit: "runs_fit fs (fold row_step rows S)" and laws: "sums_int64 (oe_agg env)" "supported f"
  shows "\<exists>a'. oa_Callback env r a0 = Inr a' \<and> oa_repr env (stage_function f final) fs (fold row_step rows S) a' \<and>
    oa_aggregationFunction a' = f \<and> oa_finalStage a' = final \<and> oa_resultColumnName a' = oa_resultColumnName a \<and>
    oa_columnToAggregate a' = oa_columnToAggregate a \<and> oa_groupByColumnMatchers a' = oa_groupByColumnMatchers a"
proof -
  let ?S = "fold row_step rows S" let ?rc = "run_cell env (stage_function f final)"
  note repr' = repr [unfolded oa_repr_def]
  have ord: "oa_groupColOrdering a = fs" using repr' by (simp add: groups_repr_def)
  have dist: "distinct (map fst fs)" using types by (simp add: group_types_def)
  let ?last = "map (\<lambda>f. GetOneForMarshal (snd f) (rs_key ?S (fst f))) fs"
  obtain g s w where gs: "GetGroupsAndOrderedSetRanges (map (\<lambda>f. oa_curGroup a (fst f)) fs) cs = Inr (g, s, ?last)"
      and w: "group_loop env (Physical c) cs (- 1) g \<lparr>gw_agg = a, gw_inputs = [], gw_setIdxs = [], gw_setRanges = Unwrap s\<rparr> = Inr w"
        "walk_ok exact fs a S ?S w"
    using walk_record [OF repr view types keys vals exact(1) fit] by blast
  obtain ca Ys Z where ca: "oa_arrayToAggCarry (gw_agg w) = Some ca" "carry_ok (rs_vals ?S) ca" "split_from S ?S Ys Z"
      "list_all2 (\<lambda>run i. input_ok exact (ca_heap ca) (snd run) i) (concat Ys @ Z) (gw_inputs w)" "gw_setIdxs w = ends 0 Ys"
    and conf: "same_config a (gw_agg w)" and groups: "groups_repr fs ?S (gw_agg w)"
    using w(2) unfolding walk_ok_def by blast
  let ?a = "gw_agg w"
  note same = same_config_fields [OF conf]
  have cur': "cur_repr fs (rs_key ?S) (fold (\<lambda>(f, v) cur. cur(fst f := v)) (zip fs ?last) (oa_curGroup a))"
    using cur_repr_update [OF _ dist] repr' by blast
  have call: "oa_Callback env r a0 = (if gw_inputs w = [] then Inr (set_curGroup ?last ?a)
      else bind_result (wrap_error OE_Agg (runAggregation (oe_agg env) final f (map (resolve (ca_heap ca)) (gw_inputs w)))) (\<lambda>results.
           bind_result (flush_sets results 0 (ends 0 Ys) ?a) (\<lambda>a3. Inr (set_curGroup ?last a3))))"
    using scan gs w(1) ca(1,5) same config ord by (simp add: oa_Callback_def wrap_error_def or_fail_def Let_def)
  show ?thesis
  proof (cases "gw_inputs w = []")
    case True
    then have "Ys = []" "Z = []" using ca(3,4) by (auto simp: split_from_def) (metis list.set_intros(1) neq_Nil_conv)
    then have "rs_sets ?S = rs_sets S" "rs_cur ?S = rs_cur S" using ca(3) by (auto simp: split_from_def)
    then show ?thesis
      using True call repr' groups ca(1,2) cur' same config ord
      by (intro exI [of _ "set_curGroup ?last ?a"]) (auto simp: oa_repr_def set_curGroup_def groups_repr_def)
  next
    case False
    have "list_all (\<lambda>(k, vs). vs \<noteq> []) (concat (rs_sets ?S) @ rs_cur ?S)"
      using row_steps_runs_ok [OF runs keys(2) vals] by (simp add: runs_ok_def)
    moreover have "set (concat Ys @ Z) \<subseteq> set (concat (rs_sets ?S) @ rs_cur ?S)"
      using ca(3) by (cases Ys) (auto simp: split_from_def)
    ultimately have ne: "list_all (\<lambda>(k, vs). vs \<noteq> []) (concat Ys @ Z)" unfolding list_all_iff by blast
    have "concat Ys @ Z \<noteq> []" using ca(4) False by (metis list_all2_Nil)
    from run_results [OF ca(4) this ne laws exact(2)]
    have res: "runAggregation (oe_agg env) final f (map (resolve (ca_heap ca)) (gw_inputs w)) = Inr (int64_array (map ?rc (concat Ys @ Z)))" .
    obtain rb where rb: "flush_sets (int64_array (map ?rc (concat Ys @ Z))) 0 (ends 0 Ys) ?a = Inr (?a\<lparr>oa_aggResultBuilder := rb,
          oa_aggregationResults := oa_aggregationResults ?a @ map (\<lambda>X. int64_array (map ?rc X)) (attach (rs_cur S) Ys)\<rparr>)"
        "all_int64 rb" "concat (map arr_cells rb) = map ?rc (if Ys = [] then rs_cur S @ Z else Z)"
      using flush_sets_ok [of "int64_array (map ?rc (concat Ys @ Z))" "[]" ?rc Ys Z 0 ?a "rs_cur S"] repr' same by auto
    let ?a3 = "?a\<lparr>oa_aggResultBuilder := rb,
          oa_aggregationResults := oa_aggregationResults ?a @ map (\<lambda>X. int64_array (map ?rc X)) (attach (rs_cur S) Ys)\<rparr>"
    have "oa_Callback env r a0 = Inr (set_curGroup ?last ?a3)" using call False res rb(1) by (simp add: wrap_error_def)
    moreover have "oa_repr env (stage_function f final) fs ?S (set_curGroup ?last ?a3)"
      using repr' groups ca(1-3) cur' same ord rb(2,3)
      by (auto simp: oa_repr_def set_curGroup_def groups_repr_def split_from_def)
    ultimately show ?thesis using same config by (intro exI [of _ "set_curGroup ?last ?a3"]) (simp add: set_curGroup_def)
  qed
qed

end
