(* ===== verification/Ordered_Scan.thy ===== *)
theory Ordered_Scan
  imports Ordered_Results
begin

text \<open>
  The fields of a record in the ordered aggregation: which columns are group by columns, what happens to those that
  are seen for the first time, and the rows that a record stands for.
\<close>

section \<open>Rows of a record\<close>

definition group_name :: "ord_env \<Rightarrow> Expr list \<Rightarrow> string \<Rightarrow> bool" where
  "group_name env ms n \<longleftrightarrow> list_ex (\<lambda>m. matches (oe_agg env) m n = Some True) ms"

definition key_fields :: "ord_env \<Rightarrow> Expr list \<Rightarrow> table_rec \<Rightarrow> (string \<times> arrow_type) list" where
  "key_fields env ms r = filter (\<lambda>f. group_name env ms (fst f)) (tr_fields r)"

definition named_columns :: "table_rec \<Rightarrow> (string \<times> column) list" where
  "named_columns r = zip (map fst (tr_fields r)) (tr_columns r)"

definition row_key :: "ord_env \<Rightarrow> Expr list \<Rightarrow> table_rec \<Rightarrow> nat \<Rightarrow> group_key" where
  "row_key env ms r i = (\<lambda>n. if group_name env ms n then (case map_of (named_columns r) n of None \<Rightarrow> None | Some c \<Rightarrow> column_cells c ! i) else None)"

definition aggregate_columns :: "ord_env \<Rightarrow> Expr \<Rightarrow> ((string \<times> arrow_type) \<times> column) list \<Rightarrow> ((string \<times> arrow_type) \<times> column) list" where
  "aggregate_columns env e fcs = filter (\<lambda>(f, c). matches (oe_agg env) e (fst f) = Some True) fcs"

definition value_column :: "ord_env \<Rightarrow> Expr \<Rightarrow> table_rec \<Rightarrow> arrow_array option" where
  "value_column env e r = (case aggregate_columns env e (zip (tr_fields r) (tr_columns r)) of [(_, Physical c)] \<Rightarrow> Some c | _ \<Rightarrow> None)"

definition row_values :: "ord_env \<Rightarrow> Expr \<Rightarrow> table_rec \<Rightarrow> int list" where
  "row_values env e r = (case value_column env e r of None \<Rightarrow> [] | Some c \<Rightarrow> Int64Values (arr_cells c))"

definition keyed_rows :: "ord_env \<Rightarrow> Expr list \<Rightarrow> Expr \<Rightarrow> table_rec \<Rightarrow> (group_key \<times> int) list" where
  "keyed_rows env ms e r = zip (map (row_key env ms r) [0..<tr_rows r]) (row_values env e r)"

text \<open>The group by columns after some records: new ones are added at the end.\<close>

definition add_fields :: "(string \<times> arrow_type) list \<Rightarrow> (string \<times> arrow_type) list \<Rightarrow> (string \<times> arrow_type) list" where
  "add_fields fs new = fs @ filter (\<lambda>f. fst f \<notin> set (map fst fs)) new"

text \<open>
  Records the aggregation is made for: rows with distinct fields, one column of numbers to aggregate, group by columns with the
  names and types of the fields \<open>all\<close> and values without empty byte strings.
\<close>

definition group_column_fits :: "(string \<times> arrow_type) list \<Rightarrow> nat \<Rightarrow> (string \<times> arrow_type) \<times> column \<Rightarrow> bool" where
  "group_column_fits fs n fc \<longleftrightarrow> fst fc \<in> set fs \<and> column_DataType (snd fc) = snd (fst fc) \<and> column_Len (snd fc) = n \<and>
     list_all (value_ok (snd (fst fc))) (column_cells (snd fc))"

definition matchable :: "ord_env \<Rightarrow> Expr list \<Rightarrow> Expr \<Rightarrow> string \<Rightarrow> bool" where
  "matchable env ms e n \<longleftrightarrow> list_all (\<lambda>m. matches (oe_agg env) m n \<noteq> None) (e # ms)"

definition record_fits :: "ord_env \<Rightarrow> Expr list \<Rightarrow> Expr \<Rightarrow> (string \<times> arrow_type) list \<Rightarrow> table_rec \<Rightarrow> bool" where
  "record_fits env ms e fs r \<longleftrightarrow> length (tr_columns r) = length (tr_fields r) \<and> distinct (map fst (tr_fields r)) \<and> 0 < tr_rows r \<and>
     list_all (\<lambda>f. matchable env ms e (fst f)) (tr_fields r) \<and>
     (case value_column env e r of None \<Rightarrow> False | Some c \<Rightarrow> arr_type c = T_Int64 \<and> length (arr_cells c) = tr_rows r) \<and>
     list_all (group_column_fits fs (tr_rows r)) (filter (\<lambda>fc. group_name env ms (fst (fst fc))) (zip (tr_fields r) (tr_columns r)))"

section \<open>Looking at the fields\<close>

definition scan_state :: "OrderedAggregate \<Rightarrow> (group_key \<times> int list) list \<Rightarrow> (string \<times> arrow_type) list \<Rightarrow> carry option \<Rightarrow> (string \<times> column) list \<Rightarrow> column option \<Rightarrow> bool \<Rightarrow> ordered_scan" where
  "scan_state a cur fs ca m col new =
     \<lparr>os_agg = a\<lparr>oa_groupColOrdering := fs, oa_groupBuilders := map (\<lambda>f. (fst f, key_col cur f)) fs, oa_arrayToAggCarry := ca\<rparr>,
      os_groupByMap = m, os_column = col, os_foundNew = new\<rparr>"

text \<open>The runs of the current ordered set when the group by columns are \<open>fs\<close>.\<close>

definition cur_fits :: "OrderedAggregate \<Rightarrow> (group_key \<times> int list) list \<Rightarrow> (string \<times> arrow_type) list \<Rightarrow> bool" where
  "cur_fits a cur fs \<longleftrightarrow> distinct (map fst fs) \<and> (\<forall>run\<in>set cur. dom (fst run) \<subseteq> fst ` set fs) \<and>
     (cur = [] \<or> oa_notFirstCall a \<and> fs \<noteq> [])"

lemma cur_fits_add: "cur_fits a cur fs \<Longrightarrow> cur_fits a cur (add_fields fs [f])"
  by (auto simp: cur_fits_def add_fields_def)

lemma found_group_ok:
  assumes "cur_fits a cur fs"
  shows "\<exists>m'. found_group f c (scan_state a cur fs ca m col new) =
      Some (scan_state a cur (add_fields fs [f]) ca m' col (new \<or> fst f \<notin> set (map fst fs))) \<and> map_of m' = (map_of m)(fst f \<mapsto> c)"
proof (cases "fst f \<in> set (map fst fs)")
  case True
  then obtain f' where "f' \<in> set fs" "fst f' = fst f" by auto
  then have "map_of (map (\<lambda>f. (fst f, key_col cur f)) fs) (fst f) = Some (key_col cur f')"
    using map_of_keyed [of fs f' "key_col cur"] assms by (simp add: cur_fits_def)
  then show ?thesis using True by (auto simp: found_group_def scan_state_def add_fields_def update_conv' Let_def)
next
  case False
  let ?B = "map (\<lambda>f. (fst f, key_col cur f)) fs"
  have none: "map_of ?B (fst f) = None" using False by (simp add: map_of_eq_None_iff image_image)
  have new: "AList.update (fst f) v ?B = ?B @ [(fst f, v)]" "AList.update (fst f) v (?B @ [(fst f, u)]) = ?B @ [(fst f, v)]" for v u
    using False AList_update_append [of "fst f" ?B v "[]"] AList_update_append [of "fst f" ?B v "[(fst f, u)]"] by (auto simp: image_image)
  have "fst run (fst f) = None" if "run \<in> set cur" for run
  proof -
    have "dom (fst run) \<subseteq> set (map fst fs)" using assms that by (simp add: cur_fits_def)
    then show ?thesis using False by (meson domIff in_mono)
  qed
  then have col: "\<lparr>arr_type = snd f, arr_cells = replicate (length cur) None\<rparr> = key_col cur f"
    by (simp add: key_col_def map_replicate_const [symmetric])
  have first: "map_of (?B @ [(fst f, new_builder (snd f))]) (fst (hd (fs @ [f]))) = Some b \<Longrightarrow>
      (if oa_notFirstCall a then length (arr_cells b) else 0) = length cur" for b
    using assms by (cases fs) (auto simp: cur_fits_def new_builder_def key_col_def)
  obtain b where b: "map_of (?B @ [(fst f, new_builder (snd f))]) (fst (hd (fs @ [f]))) = Some b" by (cases fs) auto
  have "found_group f c (scan_state a cur fs ca m col new) =
      Some (scan_state a cur (fs @ [f]) ca (AList.update (fst f) c m) col True)"
    using none b first [OF b] col by (simp add: found_group_def scan_state_def Let_def new)
  then show ?thesis using False by (intro exI [of _ "AList.update (fst f) c m"]) (simp add: add_fields_def update_conv')
qed

lemma add_fields_twice [simp]: "add_fields (add_fields fs [f]) [f] = add_fields fs [f]"
  by (simp add: add_fields_def)

lemma scan_matchers_ok:
  assumes "cur_fits a cur fs" "list_all (\<lambda>m. matches (oe_agg env) m (fst f) \<noteq> None) ms"
  shows "\<exists>m'. scan_matchers env ms f c (scan_state a cur fs ca m col new) =
      Some (scan_state a cur (if group_name env ms (fst f) then add_fields fs [f] else fs) ca m' col
        (new \<or> group_name env ms (fst f) \<and> fst f \<notin> set (map fst fs))) \<and>
    map_of m' = (if group_name env ms (fst f) then (map_of m)(fst f \<mapsto> c) else map_of m)"
  using assms
proof (induction ms arbitrary: fs m new)
  case Nil
  show ?case by (intro exI [of _ m]) (simp add: group_name_def)
next
  case (Cons g ms)
  show ?case
  proof (cases "matches (oe_agg env) g (fst f) = Some True")
    case True
    obtain m1 where m1: "found_group f c (scan_state a cur fs ca m col new) =
        Some (scan_state a cur (add_fields fs [f]) ca m1 col (new \<or> fst f \<notin> set (map fst fs)))" "map_of m1 = (map_of m)(fst f \<mapsto> c)"
      using found_group_ok [OF Cons.prems(1)] by blast
    have in1: "fst f \<in> set (map fst (add_fields fs [f]))" by (auto simp: add_fields_def)
    define new' where "new' = (new \<or> fst f \<notin> set (map fst fs))"
    have "\<exists>m2. scan_matchers env ms f c (scan_state a cur (add_fields fs [f]) ca m1 col new') =
        Some (scan_state a cur (add_fields fs [f]) ca m2 col new') \<and> map_of m2 = (map_of m)(fst f \<mapsto> c)"
      using Cons.IH [OF cur_fits_add [OF Cons.prems(1)], of f m1 new'] Cons.prems(2) m1(2) in1 by (auto split: if_splits)
    then show ?thesis using m1(1) True unfolding new'_def by (simp add: group_name_def fun_upd_def)
  next
    case False
    then have "matches (oe_agg env) g (fst f) = Some False" using Cons.prems(2) by auto
    then show ?thesis using Cons.IH [OF Cons.prems(1), of m new] Cons.prems(2) by (simp add: group_name_def)
  qed
qed


definition scanned_map :: "ord_env \<Rightarrow> Expr list \<Rightarrow> ((string \<times> arrow_type) \<times> column) list \<Rightarrow> (string \<rightharpoonup> column) \<Rightarrow> (string \<rightharpoonup> column)" where
  "scanned_map env ms fcs m = (\<lambda>n. if group_name env ms n \<and> n \<in> set (map (fst \<circ> fst) fcs)
     then map_of (map (\<lambda>(f, c). (fst f, c)) fcs) n else m n)"

definition scanned_carry :: "((string \<times> arrow_type) \<times> column) list \<Rightarrow> carry option \<Rightarrow> carry option" where
  "scanned_carry vcols ca = (if vcols = [] \<or> ca \<noteq> None then ca else Some (new_carry (column_DataType (snd (hd vcols)))))"

definition scanned_column :: "((string \<times> arrow_type) \<times> column) list \<Rightarrow> column option \<Rightarrow> column option" where
  "scanned_column vcols col = (if vcols = [] then col else Some (snd (last vcols)))"

lemma add_fields_Cons:
  assumes "fst f \<notin> set (map fst new)"
  shows "add_fields (add_fields fs [f]) new = add_fields fs (f # new)"
proof -
  have "filter (\<lambda>g. P g \<and> fst g \<noteq> fst f) new = filter P new" for P using assms by (intro filter_cong) (force simp: image_iff)+
  then show ?thesis by (auto simp: add_fields_def)
qed

lemma scan_record_ok:
  assumes "cur_fits a cur fs" "distinct (map (fst \<circ> fst) fcs)"
    "list_all (\<lambda>fc. matchable env (oa_groupByColumnMatchers a) (oa_columnToAggregate a) (fst (fst fc))) fcs"
  shows "\<exists>m'. scan_record env fcs (scan_state a cur fs ca m col new) =
      (let ms = oa_groupByColumnMatchers a; vcols = aggregate_columns env (oa_columnToAggregate a) fcs;
           fs' = add_fields fs (filter (\<lambda>f. group_name env ms (fst f)) (map fst fcs))
       in Some (scan_state a cur fs' (scanned_carry vcols ca) m' (scanned_column vcols col) (new \<or> fs' \<noteq> fs))) \<and>
    map_of m' = scanned_map env (oa_groupByColumnMatchers a) fcs (map_of m)"
  using assms
proof (induction fcs arbitrary: fs ca m col new)
  case Nil
  then show ?case by (auto simp: aggregate_columns_def scanned_carry_def scanned_column_def scanned_map_def add_fields_def)
next
  case (Cons fc fcs)
  obtain f c where fc: "fc = (f, c)" by (cases fc)
  let ?ms = "oa_groupByColumnMatchers a" let ?e = "oa_columnToAggregate a"
  let ?g = "group_name env ?ms (fst f)" let ?fs = "if ?g then add_fields fs [f] else fs"
  define new' where "new' = (new \<or> ?g \<and> fst f \<notin> set (map fst fs))"
  define ca' where "ca' = scanned_carry (aggregate_columns env ?e [(f, c)]) ca"
  define col' where "col' = scanned_column (aggregate_columns env ?e [(f, c)]) col"
  have match: "list_all (\<lambda>m. matches (oe_agg env) m (fst f) \<noteq> None) ?ms" "matches (oe_agg env) ?e (fst f) \<noteq> None"
    using Cons.prems(3) fc by (simp_all add: matchable_def)
  obtain m1 where m1: "scan_matchers env ?ms f c (scan_state a cur fs ca m col new) = Some (scan_state a cur ?fs ca m1 col new')"
      "map_of m1 = (if ?g then (map_of m)(fst f \<mapsto> c) else map_of m)"
    using scan_matchers_ok [OF Cons.prems(1) match(1)] unfolding new'_def by blast
  have agg: "scan_aggregate_column env f c (scan_state a cur ?fs ca m1 col new') = Some (scan_state a cur ?fs ca' m1 col' new')"
    using match(2) unfolding ca'_def col'_def
    by (auto simp: scan_aggregate_column_def scan_state_def aggregate_columns_def scanned_carry_def scanned_column_def split: option.splits bool.splits)
  have cur: "cur_fits a cur ?fs" using cur_fits_add [OF Cons.prems(1)] Cons.prems(1) by simp
  have step: "scan_record env (fc # fcs) (scan_state a cur fs ca m col new) = scan_record env fcs (scan_state a cur ?fs ca' m1 col' new')"
    using m1(1) agg fc by (simp add: scan_state_def)
  let ?G = "filter (\<lambda>f. group_name env ?ms (fst f)) (map fst fcs)" let ?V = "aggregate_columns env ?e fcs"
  have notin: "fst f \<notin> set (map fst ?G)" using Cons.prems(2) fc by (force simp: image_iff)
  have fs': "add_fields ?fs ?G = add_fields fs (filter (\<lambda>f. group_name env ?ms (fst f)) (map fst (fc # fcs)))"
    using add_fields_Cons [OF notin] fc by simp
  have V: "scanned_carry ?V ca' = scanned_carry (aggregate_columns env ?e (fc # fcs)) ca"
      "scanned_column ?V col' = scanned_column (aggregate_columns env ?e (fc # fcs)) col"
    by (auto simp: ca'_def col'_def fc aggregate_columns_def scanned_carry_def scanned_column_def)
  have new: "(new' \<or> add_fields ?fs ?G \<noteq> ?fs) = (new \<or> add_fields ?fs ?G \<noteq> fs)"
    by (auto simp: new'_def add_fields_def)
  have map: "scanned_map env ?ms fcs (map_of m1) = scanned_map env ?ms (fc # fcs) (map_of m)"
    using Cons.prems(2) fc m1(2) by (fastforce simp: scanned_map_def)
  obtain m2 where m2: "scan_record env fcs (scan_state a cur ?fs ca' m1 col' new') =
      Some (scan_state a cur (add_fields ?fs ?G) (scanned_carry ?V ca') m2 (scanned_column ?V col') (new' \<or> add_fields ?fs ?G \<noteq> ?fs))"
      "map_of m2 = scanned_map env ?ms fcs (map_of m1)"
    using Cons.IH [OF cur, of ca' m1 col' new'] Cons.prems(2,3) by (auto simp: Let_def)
  show ?case unfolding Let_def step using m2 [unfolded new map] unfolding fs' V by blast
qed

section \<open>Columns and rows\<close>

lemma named_columns_zip: "map (\<lambda>(f, c). (fst f, c)) (zip (tr_fields r) (tr_columns r)) = named_columns r"
  by (simp add: named_columns_def zip_map1)

lemma scanned_map_named:
  assumes "length (tr_columns r) = length (tr_fields r)"
  shows "scanned_map env ms (zip (tr_fields r) (tr_columns r)) (\<lambda>_. None) =
    (\<lambda>n. if group_name env ms n then map_of (named_columns r) n else None)"
proof -
  have "map (fst \<circ> fst) (zip (tr_fields r) (tr_columns r)) = map fst (tr_fields r)"
    using assms by (metis map_fst_zip map_map)
  moreover have "map_of (named_columns r) n = None" if "n \<notin> set (map fst (tr_fields r))" for n
    using that assms by (simp add: named_columns_def)
  ultimately show ?thesis by (auto simp: scanned_map_def named_columns_zip)
qed

lemma distinct_fields_eq: "distinct (map fst fs) \<Longrightarrow> f \<in> set fs \<Longrightarrow> g \<in> set fs \<Longrightarrow> fst f = fst g \<Longrightarrow> f = g"
  by (metis eq_key_imp_eq_value prod.collapse)

lemma group_column_at:
  assumes "record_fits env ms e all r" "group_name env ms n" "map_of (named_columns r) n = Some c"
  obtains ty where "(n, ty) \<in> set (key_fields env ms r)" "(n, ty) \<in> set all" "column_DataType c = ty" "column_Len c = tr_rows r"
    "list_all (value_ok ty) (column_cells c)"
proof -
  have "(n, c) \<in> set (named_columns r)" using assms(3) by (rule map_of_SomeD)
  then have "(n, c) \<in> set (map (\<lambda>(f, c). (fst f, c)) (zip (tr_fields r) (tr_columns r)))" unfolding named_columns_zip .
  then obtain ty where ty: "((n, ty), c) \<in> set (zip (tr_fields r) (tr_columns r))" by auto
  have "group_column_fits all (tr_rows r) ((n, ty), c)"
    using assms(1) ty assms(2) unfolding record_fits_def list_all_iff by fastforce
  moreover have "(n, ty) \<in> set (key_fields env ms r)"
    using set_zip_leftD [OF ty] assms(2) by (simp add: key_fields_def)
  ultimately show thesis using that by (auto simp: group_column_fits_def)
qed

lemma keyed_rows_simps:
  assumes "record_fits env ms e all r"
  shows "length (keyed_rows env ms e r) = tr_rows r" "map fst (keyed_rows env ms e r) = map (row_key env ms r) [0..<tr_rows r]"
    "map snd (keyed_rows env ms e r) = row_values env e r" "keyed_rows env ms e r \<noteq> []"
proof -
  have len: "length (row_values env e r) = tr_rows r"
    using assms by (auto simp: record_fits_def row_values_def Int64Values_def split: option.splits)
  then show "length (keyed_rows env ms e r) = tr_rows r" "map fst (keyed_rows env ms e r) = map (row_key env ms r) [0..<tr_rows r]"
    "map snd (keyed_rows env ms e r) = row_values env e r" by (simp_all add: keyed_rows_def)
  then show "keyed_rows env ms e r \<noteq> []" using assms by (auto simp: record_fits_def)
qed

lemma keyed_rows_ok:
  assumes "record_fits env ms e all r" "distinct (map fst all)" "set fs \<subseteq> set all" "set (map fst (key_fields env ms r)) \<subseteq> fst ` set fs"
  shows "\<forall>row\<in>set (keyed_rows env ms e r). key_ok fs (fst row)"
proof
  fix row assume "row \<in> set (keyed_rows env ms e r)"
  then have "fst row \<in> set (map fst (keyed_rows env ms e r))" by simp
  then obtain i where i: "i < tr_rows r" "fst row = row_key env ms r i" unfolding keyed_rows_simps(2) [OF assms(1)] by auto
  have "dom (fst row) \<subseteq> fst ` set fs"
  proof
    fix n assume "n \<in> dom (fst row)"
    then have "group_name env ms n" "map_of (named_columns r) n \<noteq> None" by (auto simp: i(2) row_key_def split: if_splits option.splits)
    then obtain ty where "(n, ty) \<in> set (key_fields env ms r)" using group_column_at [OF assms(1)] by blast
    then show "n \<in> fst ` set fs" using assms(4) by force
  qed
  moreover have "value_ok (snd f) (fst row (fst f))" if "f \<in> set fs" for f
  proof (cases "group_name env ms (fst f) \<and> map_of (named_columns r) (fst f) \<noteq> None")
    case True
    then obtain c where c: "map_of (named_columns r) (fst f) = Some c" by blast
    then obtain ty where ty: "(fst f, ty) \<in> set all" "column_Len c = tr_rows r" "list_all (value_ok ty) (column_cells c)"
      using group_column_at [OF assms(1)] True by blast
    then have "snd f = ty" using distinct_fields_eq [OF assms(2), of f "(fst f, ty)"] that assms(3) by (metis fst_conv in_mono snd_conv)
    then show ?thesis using ty i(1) True c by (simp add: i(2) row_key_def list_all_length)
  qed (auto simp: i(2) row_key_def value_ok_def)
  ultimately show "key_ok fs (fst row)" by (simp add: key_ok_def)
qed

lemma group_arrays_view:
  assumes "record_fits env ms e all r" "distinct (map fst all)" "set fs \<subseteq> set all"
    and "map_of m = scanned_map env ms (zip (tr_fields r) (tr_columns r)) (\<lambda>_. None)"
  shows "columns_view fs (groupByArrays m (tr_rows r) fs) (keyed_rows env ms e r)"
proof -
  let ?rows = "keyed_rows env ms e r"
  have len: "length (tr_columns r) = length (tr_fields r)" using assms(1) by (simp add: record_fits_def)
  note m = assms(4) [unfolded scanned_map_named [OF len]]
  have keys: "map (\<lambda>row. fst row n) ?rows = map (\<lambda>i. row_key env ms r i n) [0..<tr_rows r]" for n
    using arg_cong [OF keyed_rows_simps(2) [OF assms(1)], of "map (\<lambda>k. k n)"] by (simp add: comp_def)
  let ?c = "\<lambda>f. case map_of m (fst f) of None \<Rightarrow> MakeVirtualNullArray (snd f) (tr_rows r) | Some c \<Rightarrow> c"
  have "column_DataType (?c f) = snd f \<and> column_cells (?c f) = map (\<lambda>row. fst row (fst f)) ?rows" if f: "f \<in> set fs" for f
  proof (cases "map_of m (fst f)")
    case None
    then have "row_key env ms r i (fst f) = None" for i using fun_cong [OF m, of "fst f"] by (auto simp: row_key_def split: if_splits)
    then show ?thesis using None keys by (simp add: MakeVirtualNullArray_def column_cells_def map_replicate_const)
  next
    case (Some c)
    then have c: "group_name env ms (fst f)" "map_of (named_columns r) (fst f) = Some c" using fun_cong [OF m, of "fst f"] by (auto split: if_splits)
    then obtain ty where ty: "(fst f, ty) \<in> set all" "column_DataType c = ty" "column_Len c = tr_rows r"
      using group_column_at [OF assms(1)] by blast
    then have "snd f = ty" using distinct_fields_eq [OF assms(2), of f "(fst f, ty)"] f assms(3) by (metis fst_conv in_mono snd_conv)
    moreover have "column_cells c = map (\<lambda>i. column_cells c ! i) [0..<tr_rows r]" using ty(3) map_nth [of "column_cells c"] by simp
    ultimately show ?thesis using Some ty(2) keys c by (simp add: row_key_def)
  qed
  then show ?thesis by (simp add: columns_view_def groupByArrays_def list_all2_conv_all_nth)
qed

section \<open>The state before the rows of a record\<close>

lemma fill_nulls_ok:
  assumes "\<forall>run\<in>set X. dom (fst run) \<subseteq> fst ` set fs" "fs \<noteq> []"
  shows "fill_nulls (add_fields fs new) (map (key_col X) fs) = Some (map (key_col X) (add_fields fs new))"
proof -
  define N where "N = filter (\<lambda>f. fst f \<notin> set (map fst fs)) new"
  obtain g gs where fs: "fs = g # gs" using assms(2) by (cases fs) auto
  have null: "key_col X f = \<lparr>arr_type = snd f, arr_cells = replicate (length X) None\<rparr>" if "f \<in> set N" for f
  proof -
    have "fst run (fst f) = None" if "run \<in> set X" for run
      using assms(1) that \<open>f \<in> set N\<close> by (fastforce simp: domIff N_def)
    then show ?thesis by (simp add: key_col_def map_replicate_const [symmetric])
  qed
  have "length (arr_cells (key_col X g)) = length X" by (simp add: key_col_def)
  then have "fill_nulls (fs @ N) (map (key_col X) fs) =
      Some (map (key_col X) fs @ map (\<lambda>f. \<lparr>arr_type = snd f, arr_cells = replicate (length X) None\<rparr>) N)"
    by (simp add: fill_nulls_def fs split: list.split)
  moreover have "map (\<lambda>f. \<lparr>arr_type = snd f, arr_cells = replicate (length X) None\<rparr>) N = map (key_col X) N"
    by (rule map_cong [OF refl]) (simp add: null)
  ultimately show ?thesis by (simp add: add_fields_def N_def)
qed

lemma those_map: "(\<And>x. x \<in> set xs \<Longrightarrow> f x = Some (g x)) \<Longrightarrow> those (map f xs) = Some (map g xs)"
  by (induction xs) auto

lemma init_curGroup_ok:
  assumes "columns_view fs cs rows" "rows \<noteq> []" "key_ok fs (fst (hd rows))"
  shows "init_curGroup fs cs cur =
    Some (fold (\<lambda>(f, v) cur. cur(fst f := v)) (zip fs (map (\<lambda>f. GetOneForMarshal (snd f) (fst (hd rows) (fst f))) fs)) cur)"
proof -
  have "\<forall>f\<in>set fs. value_ok (snd f) (fst (hd rows) (fst f))" using assms(3) by (simp add: key_ok_def)
  then show ?thesis
    using assms(1) unfolding columns_view_def
  proof (induction fs cs arbitrary: cur rule: list_induct2')
    case (4 f fs c cs)
    have cells: "column_cells c = map (\<lambda>row. fst row (fst f)) rows" "column_DataType c = snd f" using 4(3) by auto
    then have "0 < column_Len c" using assms(2) by (metis column_cells_length length_greater_0_conv length_map)
    then have "cell_at c 0 = Some (fst (hd rows) (fst f))" using cell_at_cells [of 0 c] cells assms(2) by (simp add: hd_conv_nth)
    then have "one_for_marshal c 0 = Some (GetOneForMarshal (snd f) (fst (hd rows) (fst f)))" using cells by (simp add: one_for_marshal_def)
    then show ?case using 4 safe_copy_value [of "snd f"] by (simp add: fun_upd_def)
  qed simp_all
qed

definition first_state :: "group_key \<Rightarrow> run_state" where
  "first_state k = \<lparr>rs_sets = [], rs_cur = [], rs_key = k, rs_vals = []\<rparr>"

text \<open>The operator before its first record.\<close>

definition fresh :: "OrderedAggregate \<Rightarrow> bool" where
  "fresh a \<longleftrightarrow> oa_groupColOrdering a = [] \<and> \<not> oa_notFirstCall a \<and> oa_curGroup a = (\<lambda>_. Any_nil) \<and> oa_groupBuilders a = [] \<and>
     oa_groupResults a = [] \<and> oa_arrayToAggCarry a = None \<and> oa_aggResultBuilder a = [] \<and> oa_aggregationResults a = []"

definition config_of :: "OrderedAggregate \<Rightarrow> string \<times> Expr \<times> Expr list \<times> AggFunc \<times> bool" where
  "config_of a = (oa_resultColumnName a, oa_columnToAggregate a, oa_groupByColumnMatchers a, oa_aggregationFunction a, oa_finalStage a)"

text \<open>What a scan gives, in terms of the operator before it.\<close>

lemma scan_columns_eq:
  assumes fits: "record_fits env (oa_groupByColumnMatchers a) (oa_columnToAggregate a) all r"
    and cur: "cur_fits a cur fs" "oa_groupColOrdering a = fs" "oa_groupBuilders a = map (\<lambda>f. (fst f, key_col cur f)) fs"
    and fs': "fs' = add_fields fs (key_fields env (oa_groupByColumnMatchers a) r)"
  shows "\<exists>m c. map_of m = scanned_map env (oa_groupByColumnMatchers a) (zip (tr_fields r) (tr_columns r)) (\<lambda>_. None) \<and>
    value_column env (oa_columnToAggregate a) r = Some c \<and>
    (let cs = groupByArrays m (tr_rows r) fs';
         a1 = a\<lparr>oa_groupColOrdering := fs', oa_groupBuilders := map (\<lambda>f. (fst f, key_col cur f)) fs',
                oa_arrayToAggCarry := (case oa_arrayToAggCarry a of None \<Rightarrow> Some (new_carry (arr_type c)) | Some ca \<Rightarrow> Some ca)\<rparr>
     in scan_columns env r a =
          bind_result (or_fail (if fs' \<noteq> fs then those (map (fill_nulls fs') (oa_groupResults a)) else Some (oa_groupResults a))) (\<lambda>results.
          bind_result (or_fail (if oa_notFirstCall a then Some (oa_curGroup a) else init_curGroup fs' cs (oa_curGroup a))) (\<lambda>g.
            Inr (Physical c, cs, a1\<lparr>oa_groupResults := results, oa_curGroup := g, oa_notFirstCall := True\<rparr>))))"
proof -
  let ?ms = "oa_groupByColumnMatchers a" let ?e = "oa_columnToAggregate a" let ?fcs = "zip (tr_fields r) (tr_columns r)"
  have len: "length (tr_columns r) = length (tr_fields r)" using fits by (simp add: record_fits_def)
  have names: "map (fst \<circ> fst) ?fcs = map fst (tr_fields r)" "map fst ?fcs = tr_fields r" using len by (simp_all flip: map_map)
  obtain c where c: "value_column env ?e r = Some c" using fits by (auto simp: record_fits_def split: option.splits)
  then obtain f where vc: "aggregate_columns env ?e ?fcs = [(f, Physical c)]"
    by (auto simp: value_column_def split: list.splits prod.splits column.splits)
  have match: "list_all (\<lambda>fc. matchable env ?ms ?e (fst (fst fc))) ?fcs"
  proof -
    have "matchable env ?ms ?e (fst f)" if "f \<in> set (tr_fields r)" for f using fits that by (simp add: record_fits_def list_all_iff)
    then show ?thesis unfolding list_all_iff by (metis prod.collapse set_zip_leftD)
  qed
  have dist: "distinct (map (fst \<circ> fst) ?fcs)" using fits names(1) by (simp add: record_fits_def)
  obtain m where m: "scan_record env ?fcs (scan_state a cur fs (oa_arrayToAggCarry a) [] None False) =
        Some (scan_state a cur fs' (scanned_carry [(f, Physical c)] (oa_arrayToAggCarry a)) m (Some (Physical c)) (fs' \<noteq> fs))"
      "map_of m = scanned_map env ?ms ?fcs (\<lambda>_. None)"
    using scan_record_ok [OF cur(1) dist match, of "oa_arrayToAggCarry a" "[]" None False] names(2) vc
    by (auto simp: Let_def fs' key_fields_def scanned_column_def map_of_def)
  have start: "\<lparr>os_agg = a, os_groupByMap = [], os_column = None, os_foundNew = False\<rparr> = scan_state a cur fs (oa_arrayToAggCarry a) [] None False"
    using cur(2,3) by (simp add: scan_state_def)
  have carry: "scanned_carry [(f, Physical c)] (oa_arrayToAggCarry a) =
      (case oa_arrayToAggCarry a of None \<Rightarrow> Some (new_carry (arr_type c)) | Some ca \<Rightarrow> Some ca)"
    by (simp add: scanned_carry_def split: option.splits)
  have "scan_record env ?fcs \<lparr>os_agg = a, os_groupByMap = [], os_column = None, os_foundNew = False\<rparr> =
      Some \<lparr>os_agg = a\<lparr>oa_groupColOrdering := fs', oa_groupBuilders := map (\<lambda>f. (fst f, key_col cur f)) fs',
          oa_arrayToAggCarry := (case oa_arrayToAggCarry a of None \<Rightarrow> Some (new_carry (arr_type c)) | Some ca \<Rightarrow> Some ca)\<rparr>,
        os_groupByMap = m, os_column = Some (Physical c), os_foundNew = (fs' \<noteq> fs)\<rparr>"
    using m(1) unfolding start carry by (simp add: scan_state_def)
  then show ?thesis using m(2) c unfolding scan_columns_def by (intro exI [of _ m] exI [of _ c]) (simp add: or_fail_def Let_def)
qed

lemma key_ok_add: "key_ok fs k \<Longrightarrow> key_ok (add_fields fs new) k"
proof -
  assume k: "key_ok fs k"
  then have "k (fst f) = None" if "fst f \<notin> set (map fst fs)" for f :: "string \<times> arrow_type"
    using that unfolding key_ok_def by (metis domIff in_mono list.set_map)
  then show ?thesis using k by (auto simp: key_ok_def add_fields_def value_ok_def)
qed

lemma runs_ok_add: "runs_ok fs S \<Longrightarrow> runs_ok (add_fields fs new) S"
  using key_ok_add unfolding runs_ok_def by (auto simp: list_all_iff add_fields_def)

lemma cur_repr_add:
  assumes "cur_repr fs k cur" "key_ok fs k"
  shows "cur_repr (add_fields fs new) k cur"
proof -
  have "(case map_of (add_fields fs new) n of None \<Rightarrow> Any_nil | Some ty \<Rightarrow> GetOneForMarshal ty (k n)) =
      (case map_of fs n of None \<Rightarrow> Any_nil | Some ty \<Rightarrow> GetOneForMarshal ty (k n))" for n
  proof (cases "map_of fs n")
    case None
    then have "n \<notin> dom k" using assms(2) by (auto simp: key_ok_def map_of_eq_None_iff)
    then show ?thesis using None by (auto simp: add_fields_def map_add_def domIff split: option.splits)
  qed (auto simp: add_fields_def map_add_def split: option.splits)
  then show ?thesis using assms(1) by (simp add: cur_repr_def)
qed

lemma distinct_add_fields: "distinct (map fst fs) \<Longrightarrow> distinct (map fst new) \<Longrightarrow> distinct (map fst (add_fields fs new))"
  by (auto simp: add_fields_def distinct_map_filter intro: rev_image_eqI)

text \<open>What is assumed of all records together.\<close>

definition all_fields_ok :: "(string \<times> arrow_type) list \<Rightarrow> (string \<times> arrow_type) list \<Rightarrow> bool" where
  "all_fields_ok all fs \<longleftrightarrow> group_types all \<and> distinct (map fst fs) \<and> set fs \<subseteq> set all"

lemma all_fields_step:
  assumes "all_fields_ok all fs" "record_fits env ms e all r"
  shows "all_fields_ok all (add_fields fs (key_fields env ms r))" "group_types (add_fields fs (key_fields env ms r))"
    "set (map fst (key_fields env ms r)) \<subseteq> fst ` set (add_fields fs (key_fields env ms r))"
proof -
  have "f \<in> set all" if f: "f \<in> set (key_fields env ms r)" for f
  proof -
    have "length (tr_columns r) = length (tr_fields r)" "f \<in> set (tr_fields r)" "group_name env ms (fst f)"
      using assms(2) f by (auto simp: record_fits_def key_fields_def)
    then obtain c where "(f, c) \<in> set (zip (tr_fields r) (tr_columns r))" by (metis in_set_impl_in_set_zip1)
    then have "(f, c) \<in> set (filter (\<lambda>fc. group_name env ms (fst (fst fc))) (zip (tr_fields r) (tr_columns r)))"
      using \<open>group_name env ms (fst f)\<close> by simp
    then have "group_column_fits all (tr_rows r) (f, c)" using assms(2) unfolding record_fits_def list_all_iff by blast
    then show ?thesis by (simp add: group_column_fits_def)
  qed
  moreover have "distinct (map fst (key_fields env ms r))"
    using assms(2) by (simp add: record_fits_def key_fields_def distinct_map_filter)
  ultimately show ok: "all_fields_ok all (add_fields fs (key_fields env ms r))"
    using assms(1) distinct_add_fields unfolding all_fields_ok_def by (fastforce simp: add_fields_def)
  then show "group_types (add_fields fs (key_fields env ms r))" unfolding all_fields_ok_def group_types_def list_all_iff by blast
  show "set (map fst (key_fields env ms r)) \<subseteq> fst ` set (add_fields fs (key_fields env ms r))"
    by (auto simp: add_fields_def)
qed

section \<open>One record\<close>

lemma Callback_next:
  assumes repr: "oa_repr env (stage_function f final) fs S a" and config: "config_of a = (name, e, ms, f, final)"
    and runs: "runs_ok fs S" "rs_vals S \<noteq> []" and fields: "all_fields_ok all fs" and fits: "record_fits env ms e all r"
    and fs': "fs' = add_fields fs (key_fields env ms r)" and count: "f = AggFuncCount" "\<not> final"
    and fit: "runs_fit fs' (fold row_step (keyed_rows env ms e r) S)" and laws: "sums_int64 (oe_agg env)" "supported f"
  shows "\<exists>a'. oa_Callback env r a = Inr a' \<and> oa_repr env (stage_function f final) fs' (fold row_step (keyed_rows env ms e r) S) a' \<and>
    config_of a' = config_of a"
proof -
  let ?rows = "keyed_rows env ms e r"
  have cfg: "oa_groupByColumnMatchers a = ms" "oa_columnToAggregate a = e" "oa_aggregationFunction a = f" "oa_finalStage a = final"
    using config by (simp_all add: config_of_def)
  note repr' = repr [unfolded oa_repr_def groups_repr_def]
  obtain ca where ca: "oa_arrayToAggCarry a = Some ca" "carry_ok (rs_vals S) ca" using repr' by blast
  note step = all_fields_step [OF fields fits, folded fs']
  have doms: "\<forall>run\<in>set (concat (rs_sets S) @ rs_cur S). dom (fst run) \<subseteq> fst ` set fs"
    using runs_ok_keys [OF runs(1)] by (auto simp: all_runs_def key_ok_def)
  have key: "key_ok fs (rs_key S)" using runs_ok_keys [OF runs(1), of "(rs_key S, rs_vals S)"] by (simp add: all_runs_def)
  have cur: "cur_fits a (rs_cur S) fs"
    using fields doms repr' runs_without_fields [of S] runs(1) by (cases "fs = []") (auto simp: cur_fits_def all_fields_ok_def)
  obtain m c where mc: "map_of m = scanned_map env ms (zip (tr_fields r) (tr_columns r)) (\<lambda>_. None)" "value_column env e r = Some c"
    and scan: "scan_columns env r a =
      bind_result (or_fail (if fs' \<noteq> fs then those (map (fill_nulls fs') (oa_groupResults a)) else Some (oa_groupResults a))) (\<lambda>results.
        Inr (Physical c, groupByArrays m (tr_rows r) fs', a\<lparr>oa_groupColOrdering := fs', oa_groupBuilders := map (\<lambda>f. (fst f, key_col (rs_cur S) f)) fs',
          oa_arrayToAggCarry := Some ca, oa_groupResults := results, oa_curGroup := oa_curGroup a, oa_notFirstCall := True\<rparr>))"
    using scan_columns_eq [of env a all r "rs_cur S" fs fs'] fits cur repr' fs' cfg ca(1) by (auto simp: Let_def or_fail_def)
  have "(if fs' \<noteq> fs then those (map (fill_nulls fs') (oa_groupResults a)) else Some (oa_groupResults a)) =
      Some (map (\<lambda>X. map (key_col X) fs') (rs_sets S))"
  proof (cases "fs' = fs")
    case False
    have "fill_nulls fs' (map (key_col X) fs) = Some (map (key_col X) fs')" if "X \<in> set (rs_sets S)" for X
      unfolding fs' using doms that runs_without_fields [of S] runs(1) by (intro fill_nulls_ok) auto
    then show ?thesis using False repr' those_map [of "rs_sets S" "\<lambda>X. fill_nulls fs' (map (key_col X) fs)"] by (simp add: comp_def)
  qed (use repr' in simp)
  let ?a = "a\<lparr>oa_groupColOrdering := fs', oa_groupBuilders := map (\<lambda>f. (fst f, key_col (rs_cur S) f)) fs',
          oa_arrayToAggCarry := Some ca, oa_groupResults := map (\<lambda>X. map (key_col X) fs') (rs_sets S), oa_curGroup := oa_curGroup a, oa_notFirstCall := True\<rparr>"
  have scan': "scan_columns env r a = Inr (Physical c, groupByArrays m (tr_rows r) fs', ?a)" using scan \<open>(if _ then _ else _) = _\<close> by (simp add: or_fail_def)
  have repr1: "oa_repr env (stage_function f final) fs' S ?a"
    using repr' ca cur_repr_add [OF _ key] by (simp add: oa_repr_def groups_repr_def fs')
  have dist: "distinct (map fst all)" "set fs' \<subseteq> set all" using step(1) fields by (simp_all add: all_fields_ok_def group_types_def)
  note view = group_arrays_view [OF fits dist mc(1)]
  have vals: "arr_type c = T_Int64" "Int64Values (arr_cells c) = map snd ?rows"
    using fits mc(2) keyed_rows_simps(3) [OF fits] by (simp_all add: record_fits_def row_values_def)
  have "\<exists>a'. oa_Callback env r a = Inr a' \<and> oa_repr env (stage_function f final) fs' (fold row_step ?rows S) a' \<and>
    oa_aggregationFunction a' = f \<and> oa_finalStage a' = final \<and> oa_resultColumnName a' = oa_resultColumnName ?a \<and>
    oa_columnToAggregate a' = oa_columnToAggregate ?a \<and> oa_groupByColumnMatchers a' = oa_groupByColumnMatchers ?a"
    using runs keyed_rows_simps(4) [OF fits] keyed_rows_ok [OF fits dist step(3)] key count cfg fs'
    by (intro Callback_rows [where exact = False, OF scan' repr1 _ _ view vals _ step(2) _ _ _ _ _ _ fit laws]) (auto intro: key_ok_add runs_ok_add)
  then show ?thesis using cfg by (auto simp: config_of_def)
qed

lemma Callback_first:
  assumes fresh: "fresh a" and config: "config_of a = (name, e, ms, f, final)"
    and types: "group_types all" and fits: "record_fits env ms e all r" and fs': "fs' = add_fields [] (key_fields env ms r)"
    and fit: "runs_fit fs' (fold row_step (keyed_rows env ms e r) (first_state (row_key env ms r 0)))"
    and laws: "sums_int64 (oe_agg env)" "supported f"
  shows "\<exists>a'. oa_Callback env r a = Inr a' \<and>
    oa_repr env (stage_function f final) fs' (fold row_step (keyed_rows env ms e r) (first_state (row_key env ms r 0))) a' \<and> config_of a' = config_of a"
proof -
  let ?rows = "keyed_rows env ms e r" let ?k = "row_key env ms r 0" let ?S = "first_state (row_key env ms r 0)"
  have cfg: "oa_groupByColumnMatchers a = ms" "oa_columnToAggregate a = e" "oa_aggregationFunction a = f" "oa_finalStage a = final"
    using config by (simp_all add: config_of_def)
  have fields: "all_fields_ok all []" using types by (simp add: all_fields_ok_def)
  note step = all_fields_step [OF fields fits, folded fs']
  have dist: "distinct (map fst all)" "set fs' \<subseteq> set all" using step(1) types by (simp_all add: all_fields_ok_def group_types_def)
  obtain m c where mc: "map_of m = scanned_map env ms (zip (tr_fields r) (tr_columns r)) (\<lambda>_. None)" "value_column env e r = Some c"
    and scan: "scan_columns env r a =
      bind_result (or_fail (init_curGroup fs' (groupByArrays m (tr_rows r) fs') (\<lambda>_. Any_nil))) (\<lambda>g.
        Inr (Physical c, groupByArrays m (tr_rows r) fs', a\<lparr>oa_groupColOrdering := fs', oa_groupBuilders := map (\<lambda>f. (fst f, key_col [] f)) fs',
          oa_arrayToAggCarry := Some (new_carry (arr_type c)), oa_groupResults := [], oa_curGroup := g, oa_notFirstCall := True\<rparr>))"
    using scan_columns_eq [of env a all r "[]" "[]" fs'] fits fresh fs' cfg by (auto simp: Let_def or_fail_def fresh_def cur_fits_def split: if_splits)
  note view = group_arrays_view [OF fits dist mc(1)]
  have vals: "arr_type c = T_Int64" "Int64Values (arr_cells c) = map snd ?rows"
    using fits mc(2) keyed_rows_simps(3) [OF fits] by (simp_all add: record_fits_def row_values_def)
  note keys = keyed_rows_ok [OF fits dist step(3)]
  have ne: "?rows \<noteq> []" by (rule keyed_rows_simps(4) [OF fits])
  have hd: "fst (hd ?rows) = ?k"
  proof -
    have "fst (hd ?rows) = hd (map fst ?rows)" using ne by (simp add: hd_map)
    then show ?thesis using keyed_rows_simps(2) [OF fits] fits by (simp add: record_fits_def upt_conv_Cons)
  qed
  have key: "key_ok fs' ?k" using keys ne hd by (metis hd_in_set)
  let ?cur = "fold (\<lambda>(f, v) cur. cur(fst f := v)) (zip fs' (map (\<lambda>f. GetOneForMarshal (snd f) (?k (fst f))) fs')) (\<lambda>_. Any_nil)"
  let ?a = "a\<lparr>oa_groupColOrdering := fs', oa_groupBuilders := map (\<lambda>f. (fst f, key_col [] f)) fs',
          oa_arrayToAggCarry := Some (new_carry (arr_type c)), oa_groupResults := [], oa_curGroup := ?cur, oa_notFirstCall := True\<rparr>"
  have scan': "scan_columns env r a = Inr (Physical c, groupByArrays m (tr_rows r) fs', ?a)"
    using scan init_curGroup_ok [OF view ne] key hd by (simp add: or_fail_def)
  have "cur_repr fs' (\<lambda>_. None) (\<lambda>_. Any_nil)" unfolding cur_repr_def by (rule ext) (simp split: option.splits)
  then have "cur_repr fs' ?k ?cur" using cur_repr_update step(2) by (simp add: group_types_def)
  then have repr1: "oa_repr env (stage_function f final) fs' ?S ?a"
    using fresh vals(1) by (simp add: oa_repr_def groups_repr_def first_state_def fresh_def carry_ok_def new_carry_def carry_cells_def all_int64_def)
  have runs: "runs_ok fs' ?S" using key by (simp add: runs_ok_def all_runs_def first_state_def)
  have "\<exists>a'. oa_Callback env r a = Inr a' \<and> oa_repr env (stage_function f final) fs' (fold row_step ?rows ?S) a' \<and>
    oa_aggregationFunction a' = f \<and> oa_finalStage a' = final \<and> oa_resultColumnName a' = oa_resultColumnName ?a \<and>
    oa_columnToAggregate a' = oa_columnToAggregate ?a \<and> oa_groupByColumnMatchers a' = oa_groupByColumnMatchers ?a"
    using ne keys key hd cfg
    by (intro Callback_rows [where exact = True, OF scan' repr1 _ _ view vals _ step(2) _ _ runs _ _ _ fit laws]) (auto simp: first_state_def)
  then show ?thesis using cfg by (auto simp: config_of_def)
qed

end
