(* ===== verification/Ordered_Finish.thy ===== *)
theory Ordered_Finish
  imports Ordered_Scan
begin

text \<open>
  The end of the ordered aggregation: the last group is closed, the ordered sets become records, and if there are several of them
  they are merged and aggregated once more. The result has one row for every key, in the order of the keys, with the aggregate
  of all values of the key.
\<close>

section \<open>All records\<close>

definition seen_fields :: "ord_env \<Rightarrow> Expr list \<Rightarrow> table_rec list \<Rightarrow> (string \<times> arrow_type) list" where
  "seen_fields env ms rs = fold (\<lambda>r fs. add_fields fs (key_fields env ms r)) rs []"

definition arriving_rows :: "ord_env \<Rightarrow> Expr list \<Rightarrow> Expr \<Rightarrow> table_rec list \<Rightarrow> (group_key \<times> int) list" where
  "arriving_rows env ms e rs = concat (map (keyed_rows env ms e) rs)"

definition keys_fit :: "(string \<times> arrow_type) list \<Rightarrow> (group_key \<times> int) list \<Rightarrow> bool" where
  "keys_fit fs rows \<longleftrightarrow> list_all (\<lambda>f. snd f = T_Binary \<longrightarrow> key_bytes (fst f) (map fst rows) \<le> MaxInt32) fs"

lemma runs_fit_rows:
  assumes "keys_fit all (flat (all_runs S) @ rest)" "runs_ok fs S" "rs_vals S \<noteq> []" "set fs \<subseteq> set all"
  shows "runs_fit fs S"
proof -
  have ne: "list_all (\<lambda>(k, vs). vs \<noteq> []) (all_runs S)" using assms(2,3) by (simp add: runs_ok_def all_runs_def)
  have "key_bytes (fst f) (map fst (all_runs S)) \<le> MaxInt32" if "f \<in> set fs" "snd f = T_Binary" for f
  proof -
    have "key_bytes (fst f) (map fst (flat (all_runs S))) \<le> MaxInt32"
      using assms(1,4) that by (auto simp: keys_fit_def list_all_iff)
    then show ?thesis using key_bytes_runs [OF ne, of "fst f"] by simp
  qed
  then show ?thesis by (simp add: runs_fit_def list_all_iff)
qed

lemma flat_first_state [simp]: "flat (all_runs (first_state k)) = []"
  by (simp add: first_state_def all_runs_def)

lemma callbacks_next:
  assumes "oa_repr env (stage_function f final) fs S a" "config_of a = (name, e, ms, f, final)"
    and "runs_ok fs S" "rs_vals S \<noteq> []" "all_fields_ok all fs" "list_all (record_fits env ms e all) rs"
    and count: "rs = [] \<or> f = AggFuncCount \<and> \<not> final" and laws: "sums_int64 (oe_agg env)" "supported f"
    and "keys_fit all (flat (all_runs S) @ arriving_rows env ms e rs)"
    and fs': "fs' = fold (\<lambda>r fs. add_fields fs (key_fields env ms r)) rs fs"
  shows "\<exists>a'. oa_callbacks env rs a = Inr a' \<and> oa_repr env (stage_function f final) fs' (fold row_step (arriving_rows env ms e rs) S) a' \<and>
    config_of a' = (name, e, ms, f, final) \<and> runs_ok fs' (fold row_step (arriving_rows env ms e rs) S) \<and>
    rs_vals (fold row_step (arriving_rows env ms e rs) S) \<noteq> [] \<and> all_fields_ok all fs'"
  using assms
proof (induction rs arbitrary: fs S a)
  case Nil
  then show ?case by (simp add: arriving_rows_def)
next
  case (Cons r rs)
  let ?rows = "keyed_rows env ms e r" let ?fs = "add_fields fs (key_fields env ms r)" let ?S = "fold row_step (keyed_rows env ms e r) S"
  have r: "record_fits env ms e all r" using Cons.prems(6) by simp
  note step = all_fields_step [OF Cons.prems(5) r]
  have "\<forall>row\<in>set ?rows. key_ok ?fs (fst row)"
    using step(1,3) Cons.prems(5) by (intro keyed_rows_ok [OF r]) (auto simp: all_fields_ok_def group_types_def)
  then have runs: "runs_ok ?fs ?S" "rs_vals ?S \<noteq> []"
    using row_steps_runs_ok [OF runs_ok_add [OF Cons.prems(3)], of ?rows] Cons.prems(4) by auto
  have flat: "flat (all_runs ?S) = flat (all_runs S) @ ?rows" by (rule row_steps_flat)
  have rows: "arriving_rows env ms e (r # rs) = ?rows @ arriving_rows env ms e rs" by (simp add: arriving_rows_def)
  have fit: "runs_fit ?fs ?S"
    using runs_fit_rows [OF _ runs, of all "arriving_rows env ms e rs"] step(1) Cons.prems(10) by (simp add: flat rows all_fields_ok_def)
  obtain a1 where a1: "oa_Callback env r a = Inr a1" "oa_repr env (stage_function f final) ?fs ?S a1" "config_of a1 = config_of a"
    using Callback_next [OF Cons.prems(1-5) r refl _ _ fit laws] Cons.prems(7) by auto
  have "\<exists>a'. oa_callbacks env rs a1 = Inr a' \<and> oa_repr env (stage_function f final) fs' (fold row_step (arriving_rows env ms e rs) ?S) a' \<and>
    config_of a' = (name, e, ms, f, final) \<and> runs_ok fs' (fold row_step (arriving_rows env ms e rs) ?S) \<and>
    rs_vals (fold row_step (arriving_rows env ms e rs) ?S) \<noteq> [] \<and> all_fields_ok all fs'"
    using Cons.prems a1 runs step(1) by (intro Cons.IH [of ?fs ?S a1]) (auto simp: flat rows)
  then show ?case using a1(1) by (simp add: rows)
qed

lemma callbacks_repr:
  assumes "fresh a" "config_of a = (name, e, ms, f, final)" "rs \<noteq> []" "group_types all" "list_all (record_fits env ms e all) rs"
    and count: "length rs = 1 \<or> f = AggFuncCount \<and> \<not> final" and laws: "sums_int64 (oe_agg env)" "supported f"
    and fit: "keys_fit all (arriving_rows env ms e rs)" and fs: "fs = seen_fields env ms rs"
  obtains a' S where "oa_callbacks env rs a = Inr a'" "oa_repr env (stage_function f final) fs S a'" "config_of a' = (name, e, ms, f, final)"
    "runs_ok fs S" "rs_vals S \<noteq> []" "flat (all_runs S) = arriving_rows env ms e rs" "all_fields_ok all fs" "runs_fit fs S"
proof -
  obtain r rs' where rs: "rs = r # rs'" using assms(3) by (cases rs) auto
  let ?rows = "keyed_rows env ms e r" let ?fs = "add_fields [] (key_fields env ms r)" let ?T = "first_state (row_key env ms r 0)"
  let ?S = "fold row_step ?rows ?T"
  have r: "record_fits env ms e all r" using assms(5) rs by simp
  have "all_fields_ok all []" using assms(4) by (simp add: all_fields_ok_def)
  note step = all_fields_step [OF this r]
  have keys: "\<forall>row\<in>set ?rows. key_ok ?fs (fst row)"
    using step(1,3) assms(4) by (intro keyed_rows_ok [OF r]) (auto simp: all_fields_ok_def group_types_def)
  have ne: "?rows \<noteq> []" by (rule keyed_rows_simps(4) [OF r])
  have hd: "fst (hd ?rows) = row_key env ms r 0"
  proof -
    have "fst (hd ?rows) = hd (map fst ?rows)" using ne by (simp add: hd_map)
    then show ?thesis using keyed_rows_simps(2) [OF r] r by (simp add: record_fits_def upt_conv_Cons)
  qed
  have "key_ok ?fs (row_key env ms r 0)" using keys ne hd by (metis hd_in_set)
  then have "runs_ok ?fs ?T" by (simp add: runs_ok_def all_runs_def first_state_def)
  then have runs: "runs_ok ?fs ?S" "rs_vals ?S \<noteq> []"
    using row_steps_runs_ok [of ?fs ?T ?rows] keys ne hd by (auto simp: first_state_def)
  have rows: "arriving_rows env ms e rs = ?rows @ arriving_rows env ms e rs'" by (simp add: arriving_rows_def rs)
  have flat: "flat (all_runs ?S) = ?rows" by (simp add: row_steps_flat)
  have fitS: "runs_fit ?fs ?S"
    using runs_fit_rows [OF _ runs, of all "arriving_rows env ms e rs'"] step(1) fit by (simp add: flat rows all_fields_ok_def)
  obtain a1 where a1: "oa_Callback env r a = Inr a1" "oa_repr env (stage_function f final) ?fs ?S a1" "config_of a1 = config_of a"
    using Callback_first [OF assms(1,2,4) r refl fitS laws] by blast
  have fs': "fs = fold (\<lambda>r fs. add_fields fs (key_fields env ms r)) rs' ?fs" using fs rs by (simp add: seen_fields_def)
  have "\<exists>a'. oa_callbacks env rs' a1 = Inr a' \<and> oa_repr env (stage_function f final) fs (fold row_step (arriving_rows env ms e rs') ?S) a' \<and>
    config_of a' = (name, e, ms, f, final) \<and> runs_ok fs (fold row_step (arriving_rows env ms e rs') ?S) \<and>
    rs_vals (fold row_step (arriving_rows env ms e rs') ?S) \<noteq> [] \<and> all_fields_ok all fs"
    using assms(2,5) a1 runs step(1) count fit [unfolded rows] rs by (intro callbacks_next [OF a1(2) _ _ _ _ _ _ laws _ fs']) (auto simp: flat)
  then obtain a' where a': "oa_callbacks env rs' a1 = Inr a'" "oa_repr env (stage_function f final) fs (fold row_step (arriving_rows env ms e rs') ?S) a'"
    "config_of a' = (name, e, ms, f, final)" "runs_ok fs (fold row_step (arriving_rows env ms e rs') ?S)"
    "rs_vals (fold row_step (arriving_rows env ms e rs') ?S) \<noteq> []" "all_fields_ok all fs" by blast
  have flat': "flat (all_runs (fold row_step (arriving_rows env ms e rs') ?S)) = arriving_rows env ms e rs" by (simp add: row_steps_flat rows flat)
  have "runs_fit fs (fold row_step (arriving_rows env ms e rs') ?S)"
    using runs_fit_rows [OF _ a'(4,5), of all "[]"] fit flat' a'(6) by (simp add: all_fields_ok_def)
  then show thesis using that [OF _ a'(2-5) flat' a'(6)] a1(1) a'(1) rs by simp
qed

section \<open>Closing the last group\<close>

lemma last_groups_ok:
  assumes "group_types fs" "\<forall>f\<in>set fs. value_ok (snd f) (k (fst f)) \<and> oa_curGroup a (fst f) = GetOneForMarshal (snd f) (k (fst f))"
    and "\<forall>f\<in>set fs. map_of (oa_groupBuilders a) (fst f) = Some (B f) \<and> arr_type (B f) = snd f"
    and "\<forall>f\<in>set fs. snd f = T_Binary \<longrightarrow> data_size (arr_cells (B f)) + cell_bytes (k (fst f)) \<le> MaxInt32"
  shows "last_groups env fs a = Inr (map (\<lambda>f. with_key k f (B f)) fs,
    a\<lparr>oa_groupBuilders := fold (\<lambda>f. AList.update (fst f) ((B f)\<lparr>arr_cells := []\<rparr>)) fs (oa_groupBuilders a)\<rparr>)"
  using assms
proof (induction fs arbitrary: a)
  case (Cons f fs)
  let ?a = "a\<lparr>oa_groupBuilders := AList.update (fst f) ((B f)\<lparr>arr_cells := []\<rparr>) (oa_groupBuilders a)\<rparr>"
  have "AppendGoValue (oe_nil_bytes env) (NewBuilder (snd f)) (GetOneForMarshal (snd f) (k (fst f))) (arr_cells (B f)) =
      Inr (arr_cells (B f) @ [k (fst f)])"
    using Cons.prems(1,2,4) by (intro AppendGoValue_key) (auto simp: group_types_def)
  moreover have ne: "\<forall>g\<in>set fs. fst g \<noteq> fst f"
    using Cons.prems(1) distinct_fst_Cons [of f fs] unfolding group_types_def by blast
  have "last_groups env fs ?a = Inr (map (\<lambda>f. with_key k f (B f)) fs,
    ?a\<lparr>oa_groupBuilders := fold (\<lambda>f. AList.update (fst f) ((B f)\<lparr>arr_cells := []\<rparr>)) fs (oa_groupBuilders ?a)\<rparr>)"
    using Cons.prems ne by (intro Cons.IH) (auto simp: group_types_def update_conv')
  ultimately show ?case using Cons.prems(2,3) by (simp add: or_fail_def wrap_error_def with_key_def)
qed simp

text \<open>All ordered sets, the last one closed.\<close>

definition closed_sets :: "run_state \<Rightarrow> (group_key \<times> int list) list list" where
  "closed_sets S = rs_sets S @ [rs_cur S @ [(rs_key S, rs_vals S)]]"

lemma close_last_ok:
  assumes repr: "oa_repr env (stage_function f final) fs S a" and config: "oa_aggregationFunction a = f" "oa_finalStage a = final"
    and runs: "runs_ok fs S" "rs_vals S \<noteq> []" "runs_fit fs S" and types: "group_types fs" and laws: "supported f"
    and carry: "oa_arrayToAggCarry a = Some ca"
  shows "\<exists>ca'. close_last env ca a = Inr (a\<lparr>oa_groupBuilders := map (\<lambda>f. (fst f, new_builder (snd f))) fs,
      oa_groupResults := map (\<lambda>X. map (key_col X) fs) (closed_sets S), oa_arrayToAggCarry := Some ca', oa_aggResultBuilder := [],
      oa_aggregationResults := map (\<lambda>X. int64_array (map (run_cell env (stage_function f final)) X)) (closed_sets S)\<rparr>)"
proof -
  let ?k = "rs_key S" let ?B = "key_col (rs_cur S)" let ?rc = "run_cell env (stage_function f final)"
  note repr' = repr [unfolded oa_repr_def groups_repr_def]
  have ca: "carry_ok (rs_vals S) ca" using repr' carry by auto
  have dist: "distinct (map fst fs)" using types by (simp add: group_types_def)
  have key: "key_ok fs ?k" using runs_ok_keys [OF runs(1), of "(?k, rs_vals S)"] by (simp add: all_runs_def)
  have fit: "data_size (arr_cells (?B f)) + cell_bytes (?k (fst f)) \<le> MaxInt32" if "f \<in> set fs" "snd f = T_Binary" for f
    using runs(3) that by (auto simp: runs_fit_def list_all_iff all_runs_def key_bytes_def key_col_def comp_def data_size_def)
  have cur: "oa_curGroup a (fst f) = GetOneForMarshal (snd f) (?k (fst f))" if "f \<in> set fs" for f
    using cur_repr_field [OF _ dist that] repr' by blast
  have bs: "oa_groupBuilders a = map (\<lambda>f. (fst f, ?B f)) fs" using repr' by simp
  let ?a1 = "a\<lparr>oa_groupBuilders := map (\<lambda>f. (fst f, new_builder (snd f))) fs\<rparr>"
  have "last_groups env fs a = Inr (map (\<lambda>f. with_key ?k f (?B f)) fs,
      a\<lparr>oa_groupBuilders := fold (\<lambda>f. AList.update (fst f) ((?B f)\<lparr>arr_cells := []\<rparr>)) fs (oa_groupBuilders a)\<rparr>)"
    using types key cur fit map_of_keyed [OF dist, of _ ?B] by (intro last_groups_ok) (auto simp: bs key_ok_def key_col_def)
  moreover have "map (\<lambda>f. with_key ?k f (?B f)) fs = map (key_col (rs_cur S @ [(?k, rs_vals S)])) fs" by (simp add: with_key_def key_col_def)
  moreover have "fold (\<lambda>f. AList.update (fst f) ((?B f)\<lparr>arr_cells := []\<rparr>)) fs (oa_groupBuilders a) = map (\<lambda>f. (fst f, new_builder (snd f))) fs"
    unfolding bs using fold_AList_update [OF dist, of "[]" "\<lambda>f. (?B f)\<lparr>arr_cells := []\<rparr>" ?B] by (simp add: key_col_def new_builder_def)
  ultimately have groups: "last_groups env fs a = Inr (map (key_col (rs_cur S @ [(?k, rs_vals S)])) fs, ?a1)" by simp
  obtain ca' where ca': "carry_NewArray ca = (Shared T_Int64 (length (ca_heap ca) - 1) (length (rs_vals S)), ca')" "ca_heap ca' = ca_heap ca"
    using carry_NewArray_ok [OF ca] by blast
  have "resolve (ca_heap ca) (Shared T_Int64 (length (ca_heap ca) - 1) (length (rs_vals S))) = int64_array (int_cells (rs_vals S))"
    using ca carry_ok_len [OF ca] by (auto simp: carry_ok_def carry_cells_def last_conv_nth int64_array_def)
  moreover have "int_cells (rs_vals S) \<noteq> []" using runs(2) by (metis int_cells_simps(1) length_0_conv)
  ultimately have res: "runAggregation (oe_agg env) final f [resolve (ca_heap ca) (Shared T_Int64 (length (ca_heap ca) - 1) (length (rs_vals S)))] =
      Inr (int64_array [?rc (?k, rs_vals S)])"
    using runAggregation_int64 [OF laws, of "[int_cells (rs_vals S)]" "oe_agg env" final] by (simp add: run_cell_def stage_function_def)
  have "close_results (oa_aggResultBuilder a) (int64_array [?rc (?k, rs_vals S)]) = Inr (int64_array (map ?rc (rs_cur S @ [(?k, rs_vals S)])))"
    using close_results_ok [of "oa_aggResultBuilder a" "int64_array [?rc (?k, rs_vals S)]"] repr' by simp
  then have "close_last env ca a = Inr (?a1\<lparr>oa_groupResults := oa_groupResults a @ [map (key_col (rs_cur S @ [(?k, rs_vals S)])) fs],
      oa_arrayToAggCarry := Some ca', oa_aggResultBuilder := [],
      oa_aggregationResults := oa_aggregationResults a @ [int64_array (map ?rc (rs_cur S @ [(?k, rs_vals S)]))]\<rparr>)"
    using groups ca' res carry_ok_len [OF ca] runs(2) config repr' by (simp add: close_last_def wrap_error_def)
  then show ?thesis using repr' by (intro exI [of _ ca']) (simp add: closed_sets_def)
qed

section \<open>Records of ordered sets\<close>

definition run_row :: "ord_env \<Rightarrow> AggFunc \<Rightarrow> (string \<times> arrow_type) list \<Rightarrow> group_key \<times> int list \<Rightarrow> cell option list" where
  "run_row env f fs run = key_row fs (fst run) @ [run_cell env f run]"

definition runs_rec :: "ord_env \<Rightarrow> AggFunc \<Rightarrow> (string \<times> arrow_type) list \<Rightarrow> string \<Rightarrow> (group_key \<times> int list) list \<Rightarrow> table_rec" where
  "runs_rec env f fs name X = \<lparr>tr_fields = fs @ [(name, T_Int64)],
     tr_columns = map (Physical \<circ> key_col X) fs @ [Physical (int64_array (map (run_cell env f) X))], tr_rows = length X\<rparr>"

lemma runs_rec_rows: "rec_rows_of (runs_rec env f fs name X) = map (run_row env f fs) X"
proof -
  have "row_at (runs_rec env f fs name X) i = run_row env f fs (X ! i)" if "i < length X" for i
    using that by (simp add: row_at_def runs_rec_def run_row_def key_row_def key_col_def)
  then show ?thesis by (auto simp: rec_rows_of_def runs_rec_def intro!: nth_equalityI)
qed

lemma runs_rec_ok:
  assumes "group_types fs" "\<forall>run\<in>set X. key_ok fs (fst run)"
  shows "rec_ok (fs @ [(name, T_Int64)]) (runs_rec env f fs name X)"
proof -
  have "column_ok (length X) (snd g) (Physical (key_col X g))" if "g \<in> set fs" for g
  proof -
    have "case fst run (fst g) of None \<Rightarrow> True | Some y \<Rightarrow> cell_ok (snd g) y" if "run \<in> set X" for run
    proof -
      have "value_ok (snd g) (fst run (fst g))" "snd g \<in> {T_Binary, T_Int64, T_DictBinary}"
        using assms that \<open>g \<in> set fs\<close> by (auto simp: key_ok_def group_types_def list_all_iff)
      then show ?thesis by (auto simp: value_ok_def cell_ok_def split: option.splits)
    qed
    then show ?thesis by (auto simp: column_ok_def key_col_def column_cells_def list_all_iff)
  qed
  moreover have "column_ok (length X) T_Int64 (Physical (int64_array (map (run_cell env f) X)))"
    by (simp add: column_ok_def column_cells_def list_all_iff run_cell_def cell_ok_def)
  ultimately show ?thesis by (auto simp: rec_ok_def runs_rec_def list_all2_conv_all_nth nth_append less_Suc_eq)
qed

lemma new_record_runs:
  "new_record (zip (fs @ [(name, T_Int64)]) (map (key_col X) fs @ [int64_array (map (run_cell env f) X)])) (length X) = Inr (runs_rec env f fs name X)"
proof -
  let ?cols = "map (key_col X) fs @ [int64_array (map (run_cell env f) X)]"
  have "list_all (\<lambda>(g, a). length X \<le> length (arr_cells a) \<and> snd g = arr_type a) (zip (fs @ [(name, T_Int64)]) ?cols)"
    by (simp add: list_all_iff key_col_def zip_map2 zip_same_conv_map)
  then show ?thesis by (simp add: new_record_def runs_rec_def flip: map_map)
qed

lemma set_records_ok:
  "set_records (fs @ [(name, T_Int64)]) (map (\<lambda>X. map (key_col X) fs) Xs) (map (\<lambda>X. int64_array (map (run_cell env f) X)) Xs) =
    Inr (map (runs_rec env f fs name) Xs)"
  by (induction Xs) (use new_record_runs in \<open>simp_all add: wrap_error_def\<close>)

section \<open>The order of keys\<close>

abbreviation key_cols :: "(string \<times> arrow_type) list \<Rightarrow> nat list" where
  "key_cols fs \<equiv> [0..<length fs]"

definition key_lt :: "(string \<times> arrow_type) list \<Rightarrow> group_key \<Rightarrow> group_key \<Rightarrow> bool" where
  "key_lt fs k k' \<longleftrightarrow> key_cmp (key_cols fs) (key_row fs k) (key_row fs k') < 0"

lemma key_cmp_cong: "(\<And>i. i \<in> set cols \<Longrightarrow> a ! i = a' ! i \<and> b ! i = b' ! i) \<Longrightarrow> key_cmp cols a b = key_cmp cols a' b'"
  unfolding key_cmp_def by (metis (mono_tags, lifting) map_cong)

lemma key_cmp_run_row:
  "key_cmp (key_cols fs) (run_row env f fs run) (run_row env f fs run') = key_cmp (key_cols fs) (key_row fs (fst run)) (key_row fs (fst run'))"
  by (rule key_cmp_cong) (simp add: run_row_def key_row_def nth_append)

lemma lex_cmp_nonpos: "(\<forall>c\<in>set cs. c \<le> 0) \<Longrightarrow> lex_cmp cs \<le> 0 \<and> (lex_cmp cs = 0 \<longleftrightarrow> (\<forall>c\<in>set cs. c = 0))"
  by (induction cs) auto

lemma lex_cmp_zero: "lex_cmp cs = 0 \<longleftrightarrow> (\<forall>c\<in>set cs. c = 0)"
  by (induction cs) auto

lemma key_cmp_zero:
  assumes "key_ok fs k" "key_ok fs k'"
  shows "key_cmp (key_cols fs) (key_row fs k) (key_row fs k') = 0 \<longleftrightarrow> k = k'"
proof -
  have "cell_cmp (key_row fs k ! i) (key_row fs k' ! i) = 0 \<longleftrightarrow> key_row fs k ! i = key_row fs k' ! i" if "i < length fs" for i
    using assms that cell_cmp_eq [of "snd (fs ! i)"] by (simp add: key_row_def key_ok_def)
  then have "key_cmp (key_cols fs) (key_row fs k) (key_row fs k') = 0 \<longleftrightarrow> (\<forall>i < length fs. key_row fs k ! i = key_row fs k' ! i)"
    by (auto simp: key_cmp_def lex_cmp_zero)
  then have "key_cmp (key_cols fs) (key_row fs k) (key_row fs k') = 0 \<longleftrightarrow> key_row fs k = key_row fs k'"
    unfolding list_eq_iff_nth_eq by (simp add: key_row_def)
  then show ?thesis using key_row_inj [OF assms] by simp
qed

lemma key_less_lt:
  assumes "key_ok fs k" "key_ok fs k'" "key_less k k'"
  shows "key_lt fs k k'"
proof -
  have "\<not> cell_gt (k n) (k' n)" for n using assms(3) by (auto simp: key_less_def drops_def)
  then have "key_cmp (key_cols fs) (key_row fs k) (key_row fs k') \<le> 0"
    unfolding key_cmp_def by (intro conjunct1 [OF lex_cmp_nonpos]) (auto simp: key_row_def not_less)
  moreover have "key_cmp (key_cols fs) (key_row fs k) (key_row fs k') \<noteq> 0"
    using key_cmp_zero [OF assms(1,2)] assms(3) by (simp add: key_less_def)
  ultimately show ?thesis by (simp add: key_lt_def)
qed

lemma key_less_sorted:
  assumes "sorted_wrt key_less (map fst X)" "\<forall>run\<in>set X. key_ok fs (fst run)"
  shows "sorted_wrt (key_lt fs) (map fst X)"
  by (rule sorted_wrt_mono_rel [rotated, OF assms(1)]) (use assms(2) in \<open>fastforce intro: key_less_lt\<close>)

lemma key_lt_distinct: "sorted_wrt (key_lt fs) ks \<Longrightarrow> distinct ks"
proof -
  have "\<not> key_lt fs k k" for k using keys.cmp_refl [of "key_cols fs" "key_row fs k"] by (simp add: key_lt_def)
  then show "sorted_wrt (key_lt fs) ks \<Longrightarrow> distinct ks" by (induction ks) auto
qed

section \<open>Values of a key\<close>

definition values_of :: "(group_key \<times> int) list \<Rightarrow> group_key \<Rightarrow> int list" where
  "values_of rows k = map snd (filter (\<lambda>row. fst row = k) rows)"

definition result_row :: "ord_env \<Rightarrow> AggFunc \<Rightarrow> (string \<times> arrow_type) list \<Rightarrow> (group_key \<times> int) list \<Rightarrow> group_key \<Rightarrow> cell option list" where
  "result_row env f fs rows k = key_row fs k @ [Some (C_Int (agg_value (oe_agg env) f (int_cells (values_of rows k))))]"

lemma values_of_flat: "values_of (flat runs) k = concat (map snd (filter (\<lambda>run. fst run = k) runs))"
proof (induction runs)
  case (Cons run runs)
  obtain k' vs where "run = (k', vs)" by (cases run)
  moreover have "map snd (filter (\<lambda>row. fst row = k) (map (Pair k') vs)) = (if k' = k then vs else [])" by (induction vs) auto
  ultimately show ?case using Cons by (simp add: values_of_def)
qed (simp add: values_of_def)

lemma values_of_distinct:
  assumes "distinct (map fst runs)" "(k, vs) \<in> set runs"
  shows "values_of (flat runs) k = vs"
proof -
  have "filter (\<lambda>run. fst run = k) runs = [(k, vs)]"
    using assms
  proof (induction runs)
    case (Cons run runs)
    show ?case
    proof (cases "run = (k, vs)")
      case True
      then have "filter (\<lambda>run. fst run = k) runs = []" using Cons.prems(1) by (auto simp: filter_empty_conv)
      then show ?thesis using True by simp
    next
      case False
      then have "(k, vs) \<in> set runs" using Cons.prems(2) by simp
      moreover have "fst run \<noteq> k" using Cons.prems(1) \<open>(k, vs) \<in> set runs\<close> by (auto intro: rev_image_eqI)
      ultimately show ?thesis using Cons by simp
    qed
  qed simp
  then show ?thesis by (simp add: values_of_flat)
qed

lemma flat_keys: "list_all (\<lambda>(k, vs). vs \<noteq> []) runs \<Longrightarrow> fst ` set (flat runs) = fst ` set runs"
proof (induction runs)
  case (Cons run runs)
  obtain k vs where "run = (k, vs)" by (cases run)
  then show ?case using Cons by (cases vs) (auto simp: image_Un image_image)
qed simp

text \<open>A record of runs with distinct keys has the result of every key.\<close>

lemma runs_rec_result:
  assumes "distinct (map fst X)" "list_all (\<lambda>(k, vs). vs \<noteq> []) X"
  shows "rec_rows_of (runs_rec env f fs name X) = map (result_row env f fs (flat X)) (map fst X)" "set (map fst X) = fst ` set (flat X)"
proof -
  have "run_row env f fs run = result_row env f fs (flat X) (fst run)" if "run \<in> set X" for run
    using values_of_distinct [OF assms(1), of "fst run" "snd run"] that by (simp add: run_row_def result_row_def run_cell_def)
  then show "rec_rows_of (runs_rec env f fs name X) = map (result_row env f fs (flat X)) (map fst X)"
    unfolding runs_rec_rows by simp
qed (simp add: flat_keys [OF assms(2)])

section \<open>Runs of sorted rows\<close>

definition seg :: "(group_key \<times> int) list \<Rightarrow> nat \<times> nat \<Rightarrow> group_key \<times> int list" where
  "seg rows p = (fst (rows ! fst p), map snd (take (snd p - fst p) (drop (fst p) rows)))"

lemma enter_closed:
  "k \<noteq> rs_key S \<Longrightarrow> concat (rs_sets (enter k S)) @ rs_cur (enter k S) = concat (rs_sets S) @ rs_cur S @ [(rs_key S, rs_vals S)]"
  by (simp add: enter_def)

lemma segments_are_runs:
  assumes "bs = filter (change_at k rows) [Suc s..<length rows]" "s < length rows" "rs_key T = fst (rows ! s)" "rs_vals T = []"
  shows "all_runs (fold row_step (drop s rows) T) = concat (rs_sets T) @ rs_cur T @ map (seg rows) (zip (s # bs) (bs @ [length rows]))"
  using assms
proof (induction bs arbitrary: s T)
  case Nil
  let ?n = "length rows"
  have "\<forall>j\<in>{Suc s..<?n}. \<not> change_at k rows j" using filter_upt_Nil Nil.prems(1) by metis
  from rows_of_run(1) [OF this, of s] have "\<forall>row\<in>set (drop s rows). fst row = rs_key T" using Nil.prems(2,3) by simp
  from row_steps_same_key [OF this] show ?case using Nil.prems(3,4) by (simp add: all_runs_def seg_def)
next
  case (Cons e bs)
  let ?n = "length rows" let ?k' = "fst (rows ! e)"
  note e = filter_upt_Cons [OF Cons.prems(1) [symmetric]]
  have s: "Suc s \<le> Suc s" "s \<le> e" "s < e" using e(1) by auto
  have K: "rs_key T = (k # map fst rows) ! Suc s" using Cons.prems(2,3) by simp
  note run = rows_of_run [OF e(4) s(1,2) less_imp_le [OF e(2)] K]
  have k': "?k' \<noteq> rs_key T" using e(2,3) run(3) [OF e(1)] by (simp add: change_at_def)
  let ?vs = "map snd (take (e - s) (drop s rows))"
  let ?T = "enter ?k' (add_vals ?vs T)"
  have "fold row_step (drop s rows) T = fold row_step (drop e rows) ?T"
  proof -
    have "drop s rows = take (e - s) (drop s rows) @ drop e rows" using append_take_drop_id [of "e - s" "drop s rows"] s(2) by simp
    moreover have "fold row_step (take (e - s) (drop s rows)) T = add_vals ?vs T" by (rule row_steps_same_key [OF run(1)])
    moreover have "drop e rows = rows ! e # drop (Suc e) rows" using e(2) by (simp add: Cons_nth_drop_Suc)
    ultimately show ?thesis using row_steps_enter [of "rows ! e"] by (metis fold_append comp_apply)
  qed
  moreover have "rs_vals ?T = []" using k' by (simp add: enter_def)
  moreover have "seg rows (s, e) = (rs_key T, ?vs)" using Cons.prems(3) by (simp add: seg_def)
  ultimately show ?case
    using Cons.IH [of e ?T] e(2,5) enter_closed [of ?k' "add_vals ?vs T"] k' Cons.prems(4) by simp
qed

lemma segment_bounds:
  assumes "bs = filter P [Suc s..<n]" "s < n" "p \<in> set (zip (s # bs) (bs @ [n]))"
  shows "s \<le> fst p" "fst p < snd p" "snd p \<le> n"
proof -
  have "s \<le> fst p \<and> fst p < snd p \<and> snd p \<le> n"
    using assms
  proof (induction bs arbitrary: s)
    case (Cons e bs)
    note e = filter_upt_Cons [OF Cons.prems(1) [symmetric]]
    show ?case using Cons.IH [OF e(5,2)] Cons.prems(3) e(1,2) by auto
  qed simp
  then show "s \<le> fst p" "fst p < snd p" "snd p \<le> n" by auto
qed

lemma runs_adjacent: "distinct_adj (map fst (all_runs S)) \<Longrightarrow> distinct_adj (map fst (all_runs (fold row_step rows S)))"
proof (induction rows arbitrary: S)
  case (Cons row rows)
  have "distinct_adj (map fst (all_runs (row_step row S)))"
    using Cons.prems
    by (cases "fst row" S rule: enter_cases) (auto simp: row_step_def all_runs_def distinct_adj_append_iff key_less_def simp flip: append_assoc)
  then show ?case using Cons.IH by simp
qed simp

lemma runs_sorted: "sorted_wrt P (map fst (flat runs)) \<Longrightarrow> list_all (\<lambda>(k, vs). vs \<noteq> []) runs \<Longrightarrow> sorted_wrt P (map fst runs)"
proof (induction runs)
  case (Cons run runs)
  obtain k v vs where run: "run = (k, v # vs)" using Cons.prems(2) by (cases run; cases "snd run") auto
  have "\<forall>x\<in>fst ` set runs. P k x" using Cons.prems flat_keys [of runs] by (auto simp: run sorted_wrt_append)
  then show ?case using Cons by (auto simp: run sorted_wrt_append)
qed simp

lemma strictly_sorted:
  assumes "sorted_wrt (\<lambda>k k'. key_cmp (key_cols fs) (key_row fs k) (key_row fs k') \<le> 0) ks" "distinct_adj ks" "\<forall>k\<in>set ks. key_ok fs k"
  shows "sorted_wrt (key_lt fs) ks"
  using assms
proof (induction ks rule: induct_list012)
  case (3 k k' ks)
  have "key_lt fs k k'" using 3(3-5) key_cmp_zero [of fs k k'] by (auto simp: key_lt_def order_less_le)
  moreover have "sorted_wrt (key_lt fs) (k' # ks)" using 3 by (auto simp: distinct_adj_Cons)
  moreover have "key_lt fs k x" if "key_lt fs k' x" for x
    using that \<open>key_lt fs k k'\<close> keys.cmp_less_trans [of "key_cols fs" "key_row fs k" "key_row fs k'" "key_row fs x"] by (simp add: key_lt_def)
  ultimately show ?case by auto
qed simp_all

section \<open>Merging ordered sets\<close>

lemma mset_map_inverse:
  assumes "mset ys = mset (map f xs)"
  shows "\<exists>zs. mset zs = mset xs \<and> ys = map f zs"
  using assms
proof (induction ys arbitrary: xs)
  case (Cons y ys)
  then have "y \<in> set (map f xs)" by (metis list.set_intros(1) mset_eq_setD)
  then obtain x where x: "x \<in> set xs" "y = f x" by auto
  then obtain us vs where xs: "xs = us @ x # vs" by (metis split_list)
  have "mset ys = mset (map f (us @ vs))" using Cons.prems xs x(2) by simp
  then obtain zs where "mset zs = mset (us @ vs)" "ys = map f zs" using Cons.IH by blast
  then show ?case using xs x(2) by (intro exI [of _ "x # zs"]) simp
qed simp

definition agg_of :: "ord_env \<Rightarrow> AggFunc \<Rightarrow> group_key \<times> int list \<Rightarrow> int" where
  "agg_of env f run = agg_value (oe_agg env) f (int_cells (snd run))"

text \<open>The rows of the merged record, as keys with values.\<close>

definition run_rows :: "ord_env \<Rightarrow> AggFunc \<Rightarrow> (group_key \<times> int list) list \<Rightarrow> (group_key \<times> int) list" where
  "run_rows env f R = map (\<lambda>run. (fst run, agg_of env f run)) R"

lemma merged_record:
  assumes Xs: "Xs \<noteq> []" "\<forall>X\<in>set Xs. X \<noteq> [] \<and> sorted_wrt key_less (map fst X)" "\<forall>run\<in>set (concat Xs). key_ok fs (fst run)"
    and types: "group_types fs" and fit: "\<forall>f\<in>set fs. snd f = T_Binary \<longrightarrow> key_bytes (fst f) (map fst (concat Xs)) \<le> MaxInt32"
  obtains r R where "MergeRecords (map (runs_rec env f fs name) Xs) (key_cols fs) = Inr r" "mset R = mset (concat Xs)"
    "tr_rows r = length R" "tr_columns r = map (Physical \<circ> key_col R) fs @ [Physical (int64_array (map (run_cell env f) R))]"
    "sorted_wrt (\<lambda>k k'. key_cmp (key_cols fs) (key_row fs k) (key_row fs k') \<le> 0) (map fst R)"
proof -
  let ?fs = "fs @ [(name, T_Int64)]" let ?recs = "map (runs_rec env f fs name) Xs"
  have rows: "concat (map rec_rows_of ?recs) = map (run_row env f fs) (concat Xs)"
    by (induction Xs) (simp_all add: runs_rec_rows)
  have keys: "keys_ok ?fs (key_cols fs)" using types by (auto simp: keys_ok_def list_all_iff nth_append group_types_def)
  have "rows_sorted (key_cols fs) (rec_rows_of (runs_rec env f fs name X))" if "X \<in> set Xs" for X
  proof -
    have "sorted_wrt (key_lt fs) (map fst X)" using Xs(2,3) that by (intro key_less_sorted) auto
    then show ?thesis
      unfolding rows_sorted_def runs_rec_rows sorted_wrt_map key_cmp_run_row
      by (rule sorted_wrt_mono_rel [rotated]) (simp add: key_lt_def)
  qed
  moreover have "rec_ok ?fs (runs_rec env f fs name X)" if "X \<in> set Xs" for X
    using Xs(3) that by (intro runs_rec_ok [OF types]) auto
  moreover have "0 < tr_rows (runs_rec env f fs name X)" if "X \<in> set Xs" for X using Xs(2) that by (simp add: runs_rec_def)
  ultimately have recs: "list_all (\<lambda>r. rec_ok ?fs r \<and> 0 < tr_rows r \<and> rows_sorted (key_cols fs) (rec_rows_of r)) ?recs"
    by (simp add: list_all_iff)
  have "col_size i (map (run_row env f fs) (concat Xs)) = key_bytes (fst (fs ! i)) (map fst (concat Xs))" if "i < length fs" for i
    using that by (simp add: col_size_def key_bytes_def run_row_def key_row_def nth_append comp_def)
  then have "rows_fit ?fs (concat (map rec_rows_of ?recs))"
    unfolding rows rows_fit_def using fit by (auto simp: list_all_iff nth_append)
  from merge_of_records [OF _ _ keys recs this] Xs(1)
  obtain r where r: "MergeRecords ?recs (key_cols fs) = Inr r" "rows_sorted (key_cols fs) (rec_rows_of r)"
    "mset (rec_rows_of r) = mset (map (run_row env f fs) (concat Xs))"
    "tr_columns r = map (\<lambda>k. Physical \<lparr>arr_type = snd (?fs ! k), arr_cells = map (\<lambda>row. row ! k) (rec_rows_of r)\<rparr>) [0..<length ?fs]"
    unfolding rows by auto
  obtain R where R: "mset R = mset (concat Xs)" "rec_rows_of r = map (run_row env f fs) R" using mset_map_inverse [OF r(3)] by blast
  have "tr_rows r = length R" using arg_cong [OF R(2), of length] by (simp add: rec_rows_of_def)
  moreover have "tr_columns r = map (Physical \<circ> key_col R) fs @ [Physical (int64_array (map (run_cell env f) R))]"
    unfolding r(4) R(2)
    by (rule nth_equalityI) (auto simp: nth_append less_Suc_eq key_col_def run_row_def key_row_def int64_array_def comp_def)
  moreover have "sorted_wrt (\<lambda>k k'. key_cmp (key_cols fs) (key_row fs k) (key_row fs k') \<le> 0) (map fst R)"
    using r(2) unfolding rows_sorted_def R(2) sorted_wrt_map key_cmp_run_row by simp
  ultimately show thesis using that r(1) R(1) by blast
qed

lemma append_values_ok:
  assumes "column_ok n ty c" "\<forall>i\<in>set is. i < n" "ty = T_Binary \<Longrightarrow> data_size cells + data_size (map (\<lambda>i. column_cells c ! i) is) \<le> MaxInt32"
  shows "append_values (NewBuilder ty) c is cells = Inr (cells @ map (\<lambda>i. column_cells c ! i) is)"
  using assms(2,3)
proof (induction "is" arbitrary: cells)
  case (Cons i js)
  have "AppendValue (NewBuilder ty) c i cells = Inr (cells @ [column_cells c ! i])"
    using Cons.prems by (intro AppendValue_ok [OF assms(1)]) (auto simp: data_size_def)
  moreover have "append_values (NewBuilder ty) c js (cells @ [column_cells c ! i]) = Inr ((cells @ [column_cells c ! i]) @ map (\<lambda>i. column_cells c ! i) js)"
    using Cons.prems by (intro Cons.IH) (auto simp: data_size_def add.assoc)
  ultimately show ?case by simp
qed simp

lemma data_size_subset:
  assumes "distinct is" "\<forall>i\<in>set is. i < length xs"
  shows "data_size (map (\<lambda>i. xs ! i) is) \<le> data_size xs"
proof -
  have "data_size (map (\<lambda>i. xs ! i) is) = (\<Sum>i\<in>set is. cell_bytes (xs ! i))"
    using assms(1) by (simp add: data_size_def comp_def sum_list_distinct_conv_sum_set)
  also have "\<dots> \<le> (\<Sum>i\<in>{..<length xs}. cell_bytes (xs ! i))" using assms(2) by (intro sum_mono2) auto
  also have "\<dots> = data_size xs" by (simp add: data_size_def sum_list_sum_nth atLeast0LessThan)
  finally show ?thesis .
qed

lemma merged_groups_ok:
  assumes builders: "oa_groupBuilders a = map (\<lambda>f. (fst f, new_builder (snd f))) fs" "oa_groupColOrdering a = fs"
    and types: "group_types fs" and cols: "tr_columns merged = map (Physical \<circ> key_col R) fs @ rest"
    and keys: "\<forall>run\<in>set R. key_ok fs (fst run)" and starts: "distinct (range_starts es)" "\<forall>i\<in>set (range_starts es). i < length R"
    and fit: "\<forall>f\<in>set fs. snd f = T_Binary \<longrightarrow> key_bytes (fst f) (map fst R) \<le> MaxInt32"
  shows "merged_groups a merged es = Inr (map (\<lambda>f. \<lparr>arr_type = snd f, arr_cells = map (\<lambda>i. fst (R ! i) (fst f)) (range_starts es)\<rparr>) fs)"
proof -
  let ?g = "\<lambda>f. \<lparr>arr_type = snd f, arr_cells = map (\<lambda>i. fst (R ! i) (fst f)) (range_starts es)\<rparr>"
  define st where "st = (\<lambda>(f :: string \<times> arrow_type, c) acc. bind_result acc (\<lambda>arrs.
         bind_result (or_fail (map_of (oa_groupBuilders a) (fst f))) (\<lambda>b.
         bind_result (wrap_error OE_Builder (append_values (NewBuilder (arr_type b)) c (range_starts es) (arr_cells b))) (\<lambda>cells.
           Inr (arrs @ [b\<lparr>arr_cells := cells\<rparr>])))))"
  have dist: "distinct (map fst fs)" using types by (simp add: group_types_def)
  have one: "append_values (NewBuilder (snd f)) (Physical (key_col R f)) (range_starts es) [] = Inr (arr_cells (?g f))" if "f \<in> set fs" for f
  proof -
    have "rec_ok (fs @ [([], T_Int64)]) (runs_rec env f0 fs [] R)" for env f0 by (rule runs_rec_ok [OF types keys])
    then have "column_ok (length R) (snd f) (Physical (key_col R f))"
      using that by (force simp: rec_ok_def runs_rec_def list_all2_append list_all2_map2 list.rel_map dest!: list_all2_same [THEN iffD1])
    moreover have "data_size (map (\<lambda>i. column_cells (Physical (key_col R f)) ! i) (range_starts es)) \<le> key_bytes (fst f) (map fst R)"
      using data_size_subset [OF starts(1), of "map (\<lambda>run. fst run (fst f)) R"] starts(2) by (simp add: column_cells_def key_col_def key_bytes_def comp_def)
    ultimately show ?thesis
      using append_values_ok [of "length R" "snd f" "Physical (key_col R f)" "range_starts es" "[]"] starts(2) fit that
      by (force simp: data_size_def column_cells_def key_col_def)
  qed
  have "fold st (map (\<lambda>f. (f, Physical (key_col R f))) gs) (Inr acc) = Inr (acc @ map ?g gs)" if "set gs \<subseteq> set fs" for gs acc
    using that
  proof (induction gs arbitrary: acc)
    case (Cons f gs)
    then have "map_of (oa_groupBuilders a) (fst f) = Some (new_builder (snd f))" 
      using map_of_keyed [OF dist, of f "\<lambda>f. new_builder (snd f)"] builders(1) by simp
    then have "st (f, Physical (key_col R f)) (Inr acc) = Inr (acc @ [?g f])"
      using one [of f] Cons.prems by (simp add: st_def or_fail_def wrap_error_def new_builder_def)
    then show ?case using Cons by simp
  qed simp
  moreover have "zip (oa_groupColOrdering a) (tr_columns merged) = map (\<lambda>f. (f, Physical (key_col R f))) fs"
    unfolding cols builders(2) by (simp add: zip_append2 zip_map2 zip_same_conv_map)
  ultimately show ?thesis unfolding merged_groups_def st_def [symmetric] by fastforce
qed

text \<open>The slices of the values and their aggregates.\<close>

lemma slices_ok:
  assumes "\<forall>p\<in>set ps. fst p \<le> snd p \<and> snd p \<le> length cells"
  shows "those (map (\<lambda>(i, j). array_NewSlice (Physical (int64_array cells)) i j) ps) =
    Some (map int64_array (map (\<lambda>p. take (snd p - fst p) (drop (fst p) cells)) ps))"
proof -
  have "those (map (\<lambda>(i, j). array_NewSlice (Physical (int64_array cells)) i j) ps) =
      Some (map (\<lambda>p. int64_array (take (snd p - fst p) (drop (fst p) cells))) ps)"
  proof (rule those_map)
    fix p assume "p \<in> set ps"
    then show "(case p of (i, j) \<Rightarrow> array_NewSlice (Physical (int64_array cells)) i j) = Some (int64_array (take (snd p - fst p) (drop (fst p) cells)))"
      using assms array_NewSlice_values [of "fst p" "snd p" "int64_array cells"] by (auto simp: case_prod_beta int64_array_def)
  qed
  then show ?thesis by (simp add: comp_def)
qed

lemma segment_columns:
  assumes rows: "rows = run_rows env f R" "R \<noteq> []" and bs: "bs = filter (change_at (fst (hd R)) rows) [0..<length rows]"
    and Q: "Q = all_runs (fold row_step rows (first_state (fst (hd R))))"
  shows "Q = map (seg rows) (zip (0 # bs) (bs @ [length rows]))" "bs = filter (change_at (fst (hd R)) rows) [Suc 0..<length rows]"
    "map (\<lambda>i. fst (R ! i) n) (0 # bs) = map (\<lambda>run. fst run n) Q"
proof -
  have len: "length rows = length R" "0 < length rows" using rows by (auto simp: run_rows_def)
  have "\<not> change_at (fst (hd R)) rows 0" using rows len by (simp add: change_at_def run_rows_def hd_conv_nth)
  then show bs': "bs = filter (change_at (fst (hd R)) rows) [Suc 0..<length rows]" using bs len(2) by (simp add: upt_conv_Cons)
  have "rs_key (first_state (fst (hd R))) = fst (rows ! 0)" using rows by (simp add: first_state_def run_rows_def hd_conv_nth)
  from segments_are_runs [OF bs' len(2) this] show eq: "Q = map (seg rows) (zip (0 # bs) (bs @ [length rows]))"
    by (simp add: Q first_state_def)
  have "\<forall>i\<in>set (0 # bs). i < length R" using bs len by auto
  then have "map (\<lambda>i. fst (R ! i) n) (0 # bs) = map (\<lambda>i. fst (rows ! i) n) (0 # bs)" using rows(1) by (auto simp: run_rows_def)
  also have "\<dots> = map (\<lambda>p. fst (rows ! fst p) n) (zip (0 # bs) (bs @ [length rows]))"
    using map_fst_zip [of "0 # bs" "bs @ [length rows]"] by (metis (no_types, lifting) length_Cons length_append_singleton map_map comp_apply map_cong)
  finally show "map (\<lambda>i. fst (R ! i) n) (0 # bs) = map (\<lambda>run. fst run n) Q" by (simp add: eq seg_def comp_def)
qed

lemma key_bytes_mset: "mset xs = mset ys \<Longrightarrow> key_bytes n xs = key_bytes n ys"
  unfolding key_bytes_def data_size_def by (metis mset_map sum_mset_sum_list)

text \<open>The values of every range are aggregated.\<close>

lemma merged_aggregates:
  assumes Q: "Q = map (seg rows) (zip (0 # bs) (bs @ [length rows]))"
    and pairs: "\<forall>p\<in>set (zip (0 # bs) (bs @ [length rows])). fst p < snd p \<and> snd p \<le> length rows" and f: "supported f"
  shows "those (map (\<lambda>(i, j). array_NewSlice (Physical (int64_array (int_cells (map snd rows)))) i j) (zip (0 # bs) (bs @ [length rows]))) =
      Some (map int64_array (map (\<lambda>run. int_cells (snd run)) Q))"
    "runAggregation (oe_agg env) True f (map int64_array (map (\<lambda>run. int_cells (snd run)) Q)) =
      Inr (int64_array (map (run_cell env (final_function f)) Q))"
proof -
  let ?ps = "zip (0 # bs) (bs @ [length rows])" let ?cells = "int_cells (map snd rows)"
  have "map (\<lambda>p. take (snd p - fst p) (drop (fst p) ?cells)) ?ps = map (\<lambda>run. int_cells (snd run)) Q"
    unfolding Q by (simp add: seg_def int_cells_def take_map drop_map comp_def)
  then show "those (map (\<lambda>(i, j). array_NewSlice (Physical (int64_array ?cells)) i j) ?ps) = Some (map int64_array (map (\<lambda>run. int_cells (snd run)) Q))"
    using slices_ok [of ?ps ?cells] pairs by fastforce
  have "snd run \<noteq> []" if run: "run \<in> set Q" for run
  proof -
    obtain p where "p \<in> set ?ps" "run = seg rows p" using run unfolding Q set_map by blast
    then show ?thesis using pairs by (auto simp: seg_def)
  qed
  then have "[] \<notin> set (map (\<lambda>run. int_cells (snd run)) Q)" by (auto simp: int_cells_def)
  moreover have "Q \<noteq> []" using Q by simp
  ultimately show "runAggregation (oe_agg env) True f (map int64_array (map (\<lambda>run. int_cells (snd run)) Q)) =
      Inr (int64_array (map (run_cell env (final_function f)) Q))"
    using runAggregation_int64 [OF f, of "map (\<lambda>run. int_cells (snd run)) Q" "oe_agg env" True] by (simp add: run_cell_def comp_def)
qed

lemma merge_sets_ok:
  assumes Xs: "Xs \<noteq> []" "\<forall>X\<in>set Xs. X \<noteq> [] \<and> sorted_wrt key_less (map fst X)" "\<forall>run\<in>set (concat Xs). key_ok fs (fst run)"
    and types: "group_types fs" and fit: "\<forall>f\<in>set fs. snd f = T_Binary \<longrightarrow> key_bytes (fst f) (map fst (concat Xs)) \<le> MaxInt32"
    and op: "oa_groupBuilders a = map (\<lambda>f. (fst f, new_builder (snd f))) fs" "oa_groupColOrdering a = fs" "oa_aggregationFunction a = f"
    and f: "supported f"
  obtains R Q where "mset R = mset (concat Xs)" "Q = all_runs (fold row_step (run_rows env f' R) (first_state (fst (hd R))))"
    "sorted_wrt (\<lambda>k k'. key_cmp (key_cols fs) (key_row fs k) (key_row fs k') \<le> 0) (map fst R)"
    "merge_sets env (fs @ [(name, T_Int64)]) (map (runs_rec env f' fs name) Xs) a = Inr (runs_rec env (final_function f) fs name Q)"
proof -
  obtain r R where r: "MergeRecords (map (runs_rec env f' fs name) Xs) (key_cols fs) = Inr r" "mset R = mset (concat Xs)" "tr_rows r = length R"
      "tr_columns r = map (Physical \<circ> key_col R) fs @ [Physical (int64_array (map (run_cell env f') R))]"
      "sorted_wrt (\<lambda>k k'. key_cmp (key_cols fs) (key_row fs k) (key_row fs k') \<le> 0) (map fst R)"
    using merged_record [OF Xs types fit] by blast
  let ?k = "fst (hd R)" let ?rows = "run_rows env f' R" let ?cs = "map (Physical \<circ> key_col R) fs"
  define bs where "bs = filter (change_at ?k ?rows) [0..<length ?rows]"
  define Q where "Q = all_runs (fold row_step ?rows (first_state ?k))"
  have set: "set R = set (concat Xs)" using mset_eq_setD [OF r(2)] .
  have "concat Xs \<noteq> []" using Xs(1,2) by (cases Xs) auto
  then have ne: "R \<noteq> []" using r(2) by auto
  have keys: "\<forall>run\<in>set R. key_ok fs (fst run)" using Xs(3) set by blast
  have len: "length ?rows = length R" by (simp add: run_rows_def)
  note seg = segment_columns [OF refl ne bs_def Q_def]
  have pairs: "fst p < snd p \<and> snd p \<le> length R" if "p \<in> set (zip (0 # bs) (bs @ [length R]))" for p
    using segment_bounds [OF seg(2) _ that [folded len]] ne len by simp
  have view: "columns_view fs ?cs ?rows"
    by (auto simp: columns_view_def list_all2_conv_all_nth key_col_def column_cells_def run_rows_def)
  have rkeys: "key_ok fs ?k" "\<forall>row\<in>set ?rows. key_ok fs (fst row)" using keys ne by (auto simp: run_rows_def)
  define cur where "cur = (\<lambda>n. case map_of fs n of None \<Rightarrow> Any_nil | Some ty \<Rightarrow> GetOneForMarshal ty (?k n))"
  have cur: "cur_repr fs ?k cur" by (simp add: cur_repr_def cur_def)
  obtain g s l where ranges: "GetGroupsAndOrderedSetRanges (map (\<lambda>f. cur (fst f)) fs) ?cs = Inr (g, s, l)" "Unwrap g = map int bs"
    using record_ranges [OF view types rkeys cur] unfolding bs_def by blast
  have "map (\<lambda>f. cur (fst f)) fs = map (\<lambda>f. GetOneForMarshal (snd f) (?k (fst f))) fs"
    using cur_repr_field [OF cur] types by (auto simp: group_types_def)
  moreover have "those (map (\<lambda>c. one_for_marshal c 0) ?cs) = Some (map (\<lambda>f. GetOneForMarshal (snd f) (?k (fst f))) fs)"
    using those_map [of fs "\<lambda>f. one_for_marshal (Physical (key_col R f)) 0"] ne by (simp add: comp_def one_for_marshal_def key_col_def hd_conv_nth)
  ultimately have first: "those (map (\<lambda>c. one_for_marshal c 0) ?cs) = Some (map (\<lambda>f. cur (fst f)) fs)" by simp
  have starts: "range_starts (bs @ [length R]) = 0 # bs" by (simp add: range_starts_def)
  have "distinct (0 # bs)" "\<forall>i\<in>set (0 # bs). i < length R" using seg(2) ne len by auto
  moreover have "mset (map fst R) = mset (map fst (concat Xs))" using r(2) by simp
  then have "\<forall>f\<in>set fs. snd f = T_Binary \<longrightarrow> key_bytes (fst f) (map fst R) \<le> MaxInt32" using fit key_bytes_mset by metis
  moreover have "(\<lambda>f. \<lparr>arr_type = snd f, arr_cells = map (\<lambda>i. fst (R ! i) (fst f)) (0 # bs)\<rparr>) = key_col Q"
    unfolding seg(3) by (simp add: key_col_def [abs_def])
  ultimately have groups: "merged_groups a r (bs @ [length R]) = Inr (map (key_col Q) fs)"
    using merged_groups_ok [OF op(1,2) types r(4) keys, of "bs @ [length R]"] unfolding starts by simp
  have column: "tr_columns r ! length fs = Physical (int64_array (int_cells (map snd ?rows)))"
    using r(4) by (simp add: nth_append run_rows_def run_cell_def agg_of_def int_cells_def comp_def)
  have aggs: "those (map (\<lambda>(i, j). array_NewSlice (tr_columns r ! length fs) i j) (zip (0 # bs) (bs @ [length R]))) =
        Some (map int64_array (map (\<lambda>run. int_cells (snd run)) Q))"
      "runAggregation (oe_agg env) True f (map int64_array (map (\<lambda>run. int_cells (snd run)) Q)) =
        Inr (int64_array (map (run_cell env (final_function f)) Q))"
    using merged_aggregates [OF seg(1) _ f] pairs len unfolding column by auto
  have ends: "map nat (Unwrap g) @ [tr_rows r] = bs @ [length R]" "take (length fs) (tr_columns r) = ?cs"
    using ranges(2) r(3,4) by (simp_all add: comp_def)
  have rec: "new_record (zip (fs @ [(name, T_Int64)]) (map (key_col Q) fs @ [int64_array (map (run_cell env (final_function f)) Q)]))
      (length (arr_cells (int64_array (map (run_cell env (final_function f)) Q)))) = Inr (runs_rec env (final_function f) fs name Q)"
    using new_record_runs by (simp only: int64_array_simps length_map)
  have "merge_sets env (fs @ [(name, T_Int64)]) (map (runs_rec env f' fs name) Xs) a = Inr (runs_rec env (final_function f) fs name Q)"
    unfolding merge_sets_def op(2,3) Let_def r(1) wrap_error_def or_fail_def sum.case bind_result_simps ends first option.case ranges(1)
      prod.case groups starts aggs rec ..
  then show thesis using that [OF r(2) Q_def r(5)] by blast
qed

end
