(* ===== verification/Ordered_Correct.thy ===== *)
theory Ordered_Correct
  imports Ordered_Finish
begin

text \<open>
  What the ordered aggregation returns: one row for every key, in the order of the keys, with the aggregate of all values of the key.
\<close>

section \<open>Aggregates of merged sets\<close>

lemma agg_value_mset:
  assumes "sums_int64 env" "supported f" "vs \<noteq> []" "mset vs = mset ws"
  shows "agg_value env f (int_cells vs) = agg_value env f (int_cells ws)"
proof -
  have "set vs = set ws" "length vs = length ws" "ws \<noteq> []" using assms(3,4) by (auto dest: mset_eq_setD mset_eq_length)
  moreover have "sum_list (map (word_of_int :: int \<Rightarrow> 64 word) vs) = sum_list (map word_of_int ws)"
    using assms(4) by (metis mset_map sum_mset_sum_list)
  ultimately show ?thesis
    using assms(1-3) by (auto simp: supported_def sums_int64_def minInt64array_def maxInt64array_def best_Min best_Max)
qed

lemma stage_function_simps:
  "supported f \<Longrightarrow> supported (stage_function f final)" "final_function (stage_function f final) = final_function f"
  by (auto simp: supported_def stage_function_def final_function_def)

lemma values_of_run_rows: "values_of (run_rows env f R) k = map (agg_of env f) (filter (\<lambda>run. fst run = k) R)"
  by (induction R) (simp_all add: values_of_def run_rows_def)

lemma values_of_mset: "mset rows = mset rows' \<Longrightarrow> mset (values_of rows k) = mset (values_of rows' k)"
  unfolding values_of_def by (metis mset_filter mset_map)

lemma flat_mset: "mset R = mset R' \<Longrightarrow> mset (flat R) = mset (flat R')"
proof -
  have "mset (flat R) = (\<Sum>run\<in>#mset R. mset (map (Pair (fst run)) (snd run)))" for R
    by (induction R) (auto simp: flat_def)
  then show "mset R = mset R' \<Longrightarrow> mset (flat R) = mset (flat R')" by simp
qed

lemma values_of_length: "length (values_of rows k) \<le> length rows"
  by (simp add: values_of_def)

lemma values_of_ne: "values_of rows k = [] \<longleftrightarrow> k \<notin> fst ` set rows"
  by (auto simp: values_of_def filter_empty_conv)

text \<open>The aggregate of the partial results of a key is the aggregate of its values.\<close>

lemma merged_value:
  assumes laws: "sums_int64 (oe_agg env)" "supported f" and R: "mset R = mset R'" "list_all (\<lambda>(k, vs). vs \<noteq> []) R"
    and k: "k \<in> fst ` set R" and len: "length (flat R') < 2 ^ 63" and f': "f' = stage_function f final"
  shows "agg_value (oe_agg env) (final_function f) (int_cells (values_of (run_rows env f' R) k)) = agg_value (oe_agg env) f' (int_cells (values_of (flat R') k))"
proof -
  let ?runs = "filter (\<lambda>run. fst run = k) R"
  let ?css = "map (\<lambda>run. int_cells (snd run)) ?runs"
  have f: "supported f'" "final_function f' = final_function f" using stage_function_simps laws(2) f' by auto
  have all: "concat ?css = int_cells (values_of (flat R) k)" by (simp add: values_of_flat int_cells_def map_concat comp_def)
  have flat: "mset (flat R) = mset (flat R')" using flat_mset [OF R(1)] .
  have "length (concat ?css) < 2 ^ 63"
    unfolding all using values_of_length [of "flat R" k] mset_eq_length [OF flat] len by simp
  moreover have "?css \<noteq> []" using k by (auto simp: filter_empty_conv)
  moreover have "[] \<notin> set ?css" using R(2) by (auto simp: list_all_iff int_cells_def)
  ultimately have "agg_value (oe_agg env) (final_function f') (map (\<lambda>cs. Some (C_Int (agg_value (oe_agg env) f' cs))) ?css) =
      agg_value (oe_agg env) f' (concat ?css)"
    using laws(1) f(1) by (intro agg_value_parts)
  moreover have "map (\<lambda>cs. Some (C_Int (agg_value (oe_agg env) f' cs))) ?css = int_cells (values_of (run_rows env f' R) k)"
    by (simp add: values_of_run_rows int_cells_def agg_of_def comp_def)
  moreover have "values_of (flat R) k \<noteq> []" using k flat_keys [OF R(2)] by (simp add: values_of_ne)
  then have "agg_value (oe_agg env) f' (int_cells (values_of (flat R) k)) = agg_value (oe_agg env) f' (int_cells (values_of (flat R') k))"
    using agg_value_mset [OF laws(1) f(1)] values_of_mset [OF flat] by blast
  ultimately show ?thesis using all f(2) by simp
qed

lemma run_rows_simps [simp]: "length (run_rows env f R) = length R" "map fst (run_rows env f R) = map fst R" "run_rows env f R = [] \<longleftrightarrow> R = []"
  by (simp_all add: run_rows_def)

lemma merged_runs_result:
  assumes laws: "sums_int64 (oe_agg env)" "supported f" and R: "mset R = mset R'" "list_all (\<lambda>(k, vs). vs \<noteq> []) R'" "R' \<noteq> []"
    and keys: "\<forall>run\<in>set R'. key_ok fs (fst run)" and len: "length (flat R') < 2 ^ 63" and f': "f' = stage_function f final"
    and Q: "Q = all_runs (fold row_step (run_rows env f' R) (first_state (fst (hd R))))"
    and sorted: "sorted_wrt (\<lambda>k k'. key_cmp (key_cols fs) (key_row fs k) (key_row fs k') \<le> 0) (map fst R)"
  shows "sorted_wrt (key_lt fs) (map fst Q)" "set (map fst Q) = fst ` set (flat R')"
    "rec_rows_of (runs_rec env (final_function f) fs name Q) = map (result_row env f' fs (flat R')) (map fst Q)"
proof -
  let ?rows = "run_rows env f' R" let ?S = "first_state (fst (hd R))"
  have set: "set R = set R'" and ne: "R \<noteq> []" using R(1,3) mset_eq_setD by auto
  have Rvals: "list_all (\<lambda>(k, vs). vs \<noteq> []) R" using R(2) set by (simp add: list_all_iff)
  have hd: "fst (hd ?rows) = fst (hd R)" using ne by (simp add: run_rows_def hd_map)
  have kok: "\<forall>k\<in>set (map fst R). key_ok fs k" using keys set by auto
  then have "key_ok fs (fst (hd R))" using ne by simp
  then have start: "runs_ok fs ?S" by (simp add: runs_ok_def all_runs_def first_state_def)
  have "\<forall>row\<in>set ?rows. key_ok fs (fst row)" using kok run_rows_simps(2) [of env f' R] by (metis image_eqI list.set_map)
  from row_steps_runs_ok [OF start this] have ok: "runs_ok fs (fold row_step ?rows ?S)" "rs_vals (fold row_step ?rows ?S) \<noteq> []"
    using hd ne by (auto simp: first_state_def)
  then have vals: "list_all (\<lambda>(k, vs). vs \<noteq> []) Q" unfolding Q by (simp add: runs_ok_def all_runs_def)
  have flat: "flat Q = ?rows" by (simp add: Q row_steps_flat)
  have "distinct_adj (map fst Q)" unfolding Q by (rule runs_adjacent) (simp add: first_state_def all_runs_def)
  moreover have "sorted_wrt (\<lambda>k k'. key_cmp (key_cols fs) (key_row fs k) (key_row fs k') \<le> 0) (map fst Q)"
    using sorted flat by (intro runs_sorted [OF _ vals]) simp
  moreover have "\<forall>k\<in>set (map fst Q). key_ok fs k" using runs_ok_keys [OF ok(1)] Q by auto
  ultimately show lt: "sorted_wrt (key_lt fs) (map fst Q)" by (intro strictly_sorted)
  note res = runs_rec_result [OF key_lt_distinct [OF lt] vals, unfolded flat]
  have ks: "set (map fst Q) = fst ` set R" unfolding res(2) using run_rows_simps(2) [of env f' R] by (metis list.set_map)
  also have "\<dots> = fst ` set (flat R')" using flat_keys [OF R(2)] set by simp
  finally show "set (map fst Q) = fst ` set (flat R')" .
  have "result_row env (final_function f) fs ?rows k = result_row env f' fs (flat R') k" if "k \<in> set (map fst Q)" for k
    using merged_value [OF laws R(1) Rvals _ len f', of k] that ks by (simp add: result_row_def)
  then show "rec_rows_of (runs_rec env (final_function f) fs name Q) = map (result_row env f' fs (flat R')) (map fst Q)"
    unfolding res(1) by simp
qed

section \<open>Finish\<close>

lemma closed_sets_ok:
  assumes "runs_ok fs S" "rs_vals S \<noteq> []"
  shows "concat (closed_sets S) = all_runs S" "closed_sets S \<noteq> []" "\<forall>X\<in>set (closed_sets S). X \<noteq> [] \<and> sorted_wrt key_less (map fst X)"
    "list_all (\<lambda>(k, vs). vs \<noteq> []) (all_runs S)" "\<forall>run\<in>set (all_runs S). key_ok fs (fst run)"
  using assms runs_ok_keys [OF assms(1)] by (auto simp: closed_sets_def all_runs_def runs_ok_def list_all_iff)

lemma oa_Finish_ok:
  assumes repr: "oa_repr env (stage_function f final) fs S a" and config: "config_of a = (resultName, e, ms, f, final)"
    and runs: "runs_ok fs S" "rs_vals S \<noteq> []" "runs_fit fs S" and types: "group_types fs" and laws: "sums_int64 (oe_agg env)" "supported f"
    and len: "length (flat (all_runs S)) < 2 ^ 63" and name: "Name (ae_str (oe_agg env)) e = Some n"
  obtains res ks where "oa_Finish env a = Inr [res]" "tr_fields res = fs @ [(if final then resultName else n, T_Int64)]"
    "set ks = fst ` set (flat (all_runs S))" "sorted_wrt (key_lt fs) ks"
    "rec_rows_of res = map (result_row env (stage_function f final) fs (flat (all_runs S))) ks"
proof -
  let ?f = "stage_function f final" let ?name = "if final then resultName else n" let ?Xs = "closed_sets S"
  have cfg: "oa_aggregationFunction a = f" "oa_finalStage a = final" "oa_columnToAggregate a = e" "oa_resultColumnName a = resultName"
    using config by (simp_all add: config_of_def)
  obtain ca where ca: "oa_arrayToAggCarry a = Some ca" using repr by (auto simp: oa_repr_def)
  obtain a1 where a1: "close_last env ca a = Inr a1" "oa_groupBuilders a1 = map (\<lambda>f. (fst f, new_builder (snd f))) fs"
      "oa_groupResults a1 = map (\<lambda>X. map (key_col X) fs) ?Xs" "oa_aggregationResults a1 = map (\<lambda>X. int64_array (map (run_cell env ?f) X)) ?Xs"
      "config_of a1 = config_of a" "oa_groupColOrdering a1 = oa_groupColOrdering a"
    using close_last_ok [OF repr cfg(1,2) runs types laws(2) ca] by (auto simp: config_of_def)
  note sets = closed_sets_ok [OF runs(1,2)]
  have order: "oa_groupColOrdering a1 = fs" using repr a1(6) by (simp add: oa_repr_def groups_repr_def)
  have cname: "getResultColumnName env a1 = Some ?name" using a1(5) cfg name by (simp add: getResultColumnName_def config_of_def)
  have fin: "oa_Finish env a = (case map (runs_rec env ?f fs ?name) ?Xs of [r] \<Rightarrow> Inr [r]
      | _ \<Rightarrow> bind_result (merge_sets env (fs @ [(?name, T_Int64)]) (map (runs_rec env ?f fs ?name) ?Xs) a1) (\<lambda>r. Inr [r]))"
    using repr ca a1(1,3,4) cname order sets(2) set_records_ok [of fs ?name ?Xs env ?f]
    by (cases ?Xs) (simp_all add: oa_Finish_def or_fail_def Let_def oa_repr_def)
  show thesis
  proof (cases "length ?Xs = 1")
    case True
    then obtain X where X: "?Xs = [X]" by (auto simp: length_Suc_conv)
    then have all: "all_runs S = X" using sets(1) by simp
    have lt: "sorted_wrt (key_lt fs) (map fst X)" using sets(3,5) X all by (intro key_less_sorted) auto
    note res = runs_rec_result [OF key_lt_distinct [OF lt] sets(4) [unfolded all]]
    show thesis
      using that [of "runs_rec env ?f fs ?name X" "map fst X"] fin X lt res unfolding all by (simp add: runs_rec_def)
  next
    case False
    then have merge: "oa_Finish env a = bind_result (merge_sets env (fs @ [(?name, T_Int64)]) (map (runs_rec env ?f fs ?name) ?Xs) a1) (\<lambda>r. Inr [r])"
      using fin sets(2) by (auto split: list.splits)
    have fit: "\<forall>f\<in>set fs. snd f = T_Binary \<longrightarrow> key_bytes (fst f) (map fst (concat ?Xs)) \<le> MaxInt32"
      using runs(3) by (simp add: sets(1) runs_fit_def list_all_iff)
    have agg: "oa_aggregationFunction a1 = f" using a1(5) cfg(1) by (simp add: config_of_def)
    obtain R Q where RQ: "mset R = mset (all_runs S)" "Q = all_runs (fold row_step (run_rows env ?f R) (first_state (fst (hd R))))"
        "sorted_wrt (\<lambda>k k'. key_cmp (key_cols fs) (key_row fs k) (key_row fs k') \<le> 0) (map fst R)"
        "merge_sets env (fs @ [(?name, T_Int64)]) (map (runs_rec env ?f fs ?name) ?Xs) a1 = Inr (runs_rec env (final_function f) fs ?name Q)"
      using merge_sets_ok [OF sets(2,3) _ types fit a1(2) order agg laws(2), of env ?f ?name] sets(1,5) by metis
    have "all_runs S \<noteq> []" by (simp add: all_runs_def)
    from merged_runs_result [OF laws RQ(1) sets(4) this sets(5) len refl RQ(2,3)]
    show thesis using that [of "runs_rec env (final_function f) fs ?name Q" "map fst Q"] merge RQ(4) by (simp add: runs_rec_def)
  qed
qed

section \<open>The whole aggregation\<close>

text \<open>
  Records with rows, distinct fields, one column of numbers to aggregate, and group by columns of the names and types \<open>fs\<close>;
  and that no key is an empty byte string, which the operator does not tell from a nil one.
\<close>

definition groupable :: "ord_env \<Rightarrow> Expr list \<Rightarrow> Expr \<Rightarrow> (string \<times> arrow_type) list \<Rightarrow> table_rec \<Rightarrow> bool" where
  "groupable env ms e fs r \<longleftrightarrow> length (tr_columns r) = length (tr_fields r) \<and> distinct (map fst (tr_fields r)) \<and> 0 < tr_rows r \<and>
     list_all (\<lambda>f. matchable env ms e (fst f)) (tr_fields r) \<and>
     (case value_column env e r of None \<Rightarrow> False | Some c \<Rightarrow> arr_type c = T_Int64 \<and> length (arr_cells c) = tr_rows r) \<and>
     list_all (\<lambda>(f, c). group_name env ms (fst f) \<longrightarrow> f \<in> set fs \<and> column_DataType c = snd f \<and> column_Len c = tr_rows r \<and>
         list_all (\<lambda>x. case x of None \<Rightarrow> True | Some y \<Rightarrow> type_of_cell (snd f) y) (column_cells c))
       (zip (tr_fields r) (tr_columns r))"

definition no_empty_keys :: "ord_env \<Rightarrow> Expr list \<Rightarrow> table_rec \<Rightarrow> bool" where
  "no_empty_keys env ms r \<longleftrightarrow>
     list_all (\<lambda>(f, c). group_name env ms (fst f) \<longrightarrow> Some (C_Bytes []) \<notin> set (column_cells c)) (zip (tr_fields r) (tr_columns r))"

lemma groupable_fits:
  assumes "group_types fs" "groupable env ms e fs r" "no_empty_keys env ms r"
  shows "record_fits env ms e fs r"
proof -
  have "group_column_fits fs (tr_rows r) (f, c)" if fc: "(f, c) \<in> set (zip (tr_fields r) (tr_columns r))" "group_name env ms (fst f)" for f c
  proof -
    have c: "f \<in> set fs" "column_DataType c = snd f" "column_Len c = tr_rows r"
        "\<forall>x\<in>set (column_cells c). case x of None \<Rightarrow> True | Some y \<Rightarrow> type_of_cell (snd f) y" "Some (C_Bytes []) \<notin> set (column_cells c)"
      using assms(2,3) fc by (auto simp: groupable_def no_empty_keys_def list_all_iff)
    have "snd f \<in> {T_Binary, T_Int64, T_DictBinary}" using assms(1) c(1) by (auto simp: group_types_def list_all_iff)
    then have "\<forall>x\<in>set (column_cells c). value_ok (snd f) x" using c(4,5) by (auto simp: value_ok_def split: option.splits)
    then show ?thesis using c(1-3) by (simp add: group_column_fits_def list_all_iff)
  qed
  then show ?thesis using assms(2) by (auto simp: record_fits_def groupable_def list_all_iff)
qed

text \<open>C8: the ordered aggregation of one record of \<open>int64\<close> values, and the first stage of a count over any number of
  records, by binary, dictionary and \<open>int64\<close> columns in which no key is an empty byte string, end with one record: its columns are the
  group by columns of the input in the order they were seen and the aggregate, under the
  result name in the final stage and the name of the aggregated column before it; it has exactly one row for every key of the input,
  in the order of the keys, with the aggregate of all rows of that key, also when the input is several ordered sets, which are
  merged and aggregated again. For empty byte strings this does not hold (\<open>empty_keys_split\<close>), nor for other aggregates
  over several records (\<open>carried_values_overwritten\<close>).\<close>

theorem ordered_aggregate_groups:
  assumes a: "a = NewOrderedAggregate \<lparr>pa_expr = e, pa_dynamic = dyn, pa_resultName = resultName, pa_function = f, pa_arrays = arrs\<rparr> ms final"
    and rs: "rs \<noteq> []" "list_all (groupable env ms e fs) rs" "list_all (no_empty_keys env ms) rs" "length rs = 1 \<or> f = AggFuncCount \<and> \<not> final"
    and fs: "fs = seen_fields env ms rs" "group_types fs" and rows: "rows = arriving_rows env ms e rs" "keys_fit fs rows" "length rows < 2 ^ 63"
    and laws: "sums_int64 (oe_agg env)" "supported f" and name: "Name (ae_str (oe_agg env)) e = Some n"
  shows "\<exists>res ks. ordered_aggregate env a rs = Inr [res] \<and> tr_fields res = fs @ [(if final then resultName else n, T_Int64)] \<and>
    set ks = fst ` set rows \<and> sorted_wrt (key_lt fs) ks \<and> rec_rows_of res = map (result_row env (stage_function f final) fs rows) ks"
proof -
  have op: "fresh a" "config_of a = (resultName, e, ms, f, final)" by (simp_all add: a fresh_def config_of_def NewOrderedAggregate_def)
  have fits: "list_all (record_fits env ms e fs) rs" using rs(2,3) groupable_fits [OF fs(2)] by (simp add: list_all_iff)
  obtain a' S where S: "oa_callbacks env rs a = Inr a'" "oa_repr env (stage_function f final) fs S a'" "config_of a' = (resultName, e, ms, f, final)"
      "runs_ok fs S" "rs_vals S \<noteq> []" "flat (all_runs S) = rows" "runs_fit fs S"
    using callbacks_repr [OF op rs(1) fs(2) fits rs(4) laws rows(2) [unfolded rows(1)] fs(1)] rows(1) by metis
  obtain res ks where "oa_Finish env a' = Inr [res]" "tr_fields res = fs @ [(if final then resultName else n, T_Int64)]"
      "set ks = fst ` set rows" "sorted_wrt (key_lt fs) ks" "rec_rows_of res = map (result_row env (stage_function f final) fs rows) ks"
    using oa_Finish_ok [OF S(2-5,7) fs(2) laws _ name] rows(3) unfolding S(6) by metis
  then show ?thesis using S(1) by (auto simp: ordered_aggregate_def)
qed

definition counted_recs :: "table_rec list" where
  "counted_recs = [keyed_rec ''a'' [(''x'', 1), (''y'', 2), (''x'', 3)], keyed_rec ''a'' [(''x'', 4), (''y'', 5)]]"

definition count_rows :: "(group_key \<times> int) list" where
  "count_rows = arriving_rows sample_ord_env [Column ''a'', Column ''b''] (Column ''v'') counted_recs"

lemma counted_recs_fit:
  "seen_fields sample_ord_env [Column ''a'', Column ''b''] counted_recs = [(''a'', T_DictBinary)]"
  "list_all (groupable sample_ord_env [Column ''a'', Column ''b''] (Column ''v'') [(''a'', T_DictBinary)]) counted_recs"
  "list_all (no_empty_keys sample_ord_env [Column ''a'', Column ''b'']) counted_recs"
  "length count_rows = 5"
  by code_simp+

lemma ordered_aggregate_groups_witness:
  "\<exists>res ks. ordered_aggregate sample_ord_env (NewOrderedAggregate \<lparr>pa_expr = Column ''v'', pa_dynamic = False, pa_resultName = ''r'',
      pa_function = AggFuncCount, pa_arrays = []\<rparr> [Column ''a'', Column ''b''] False) counted_recs = Inr [res] \<and>
    tr_fields res = [(''a'', T_DictBinary), (''v'', T_Int64)] \<and> set ks = fst ` set count_rows \<and> sorted_wrt (key_lt [(''a'', T_DictBinary)]) ks \<and>
    rec_rows_of res = map (result_row sample_ord_env AggFuncCount [(''a'', T_DictBinary)] count_rows) ks"
proof -
  let ?fs = "[(''a'', T_DictBinary)]"
  have laws: "sums_int64 (oe_agg sample_ord_env)" "supported AggFuncCount" by (simp_all add: sums_int64_def sample_ord_env_def supported_def)
  have hyps: "counted_recs \<noteq> []" "length counted_recs = 1 \<or> AggFuncCount = AggFuncCount \<and> \<not> False" "group_types ?fs" "keys_fit ?fs count_rows"
      "Name (ae_str (oe_agg sample_ord_env)) (Column ''v'') = Some ''v''" "length count_rows < 2 ^ 63"
    by (simp_all add: counted_recs_def group_types_def keys_fit_def counted_recs_fit(4))
  from ordered_aggregate_groups [OF refl hyps(1) counted_recs_fit(2,3) hyps(2) counted_recs_fit(1) [symmetric] hyps(3) count_rows_def hyps(4,6) laws hyps(5)]
  show ?thesis unfolding stage_function_def if_False append.simps .
qed

end
