(* ===== verification/Distinct_Op.thy ===== *)
theory Distinct_Op
  imports Hash_Groups
begin

text \<open>
  The distinct operator (\<open>query/physicalplan/distinct.go\<close>): of the rows that have the same hash of
  the distinct columns, only the first is passed on, over all records. Every query plans one operator
  per input and one after the synchronizer, so that no operator is called from two threads at a
  time; \<open>seen\<close> is a plain set.
\<close>

section \<open>The operator\<close>

record Distinction =
  ds_columns :: "Expr list"
  ds_seen :: "uint64 list"

definition Distinct :: "Expr list \<Rightarrow> Distinction" where
  "Distinct cols = \<lparr>ds_columns = cols, ds_seen = []\<rparr>"

type_synonym distinct_col = "((string \<times> arrow_type) \<times> column) \<times> uint64"

fun match_distinct :: "agg_env \<Rightarrow> Expr list \<Rightarrow> (string \<times> arrow_type) \<times> column \<Rightarrow> distinct_col list option" where
  "match_distinct env [] fc = Some []"
| "match_distinct env (e # es) fc =
     (case matches env e (fst (fst fc)) of
        None \<Rightarrow> None
      | Some True \<Rightarrow> map_option (Cons (fc, ae_field_hash env (fst (fst fc)))) (match_distinct env es fc)
      | Some False \<Rightarrow> match_distinct env es fc)"

definition distinct_columns :: "agg_env \<Rightarrow> Expr list \<Rightarrow> table_rec \<Rightarrow> distinct_col list option" where
  "distinct_columns env es r = map_option concat (those (map (match_distinct env es) (record_columns r)))"

text \<open>The loop over the rows: the hashes seen, the builders of the result and its number of rows.\<close>

fun distinct_rows :: "(hashCombiner \<times> uint64 list) list \<Rightarrow> column list \<Rightarrow> nat list \<Rightarrow> uint64 list \<times> (ColumnBuilder \<times> cell option list) list \<times> nat \<Rightarrow> (agg_error, uint64 list \<times> (ColumnBuilder \<times> cell option list) list \<times> nat) result" where
  "distinct_rows hcols arrs [] s = Inr s"
| "distinct_rows hcols arrs (i # is) (seen, bs, rows) =
     bind_result (or_panic (hash_row hcols i 0)) (\<lambda>hash.
       if hash \<in> set seen then distinct_rows hcols arrs is (seen, bs, rows)
       else case append_row bs arrs i of
              Inl e \<Rightarrow> Inl (AE_Builder e)
            | Inr bs' \<Rightarrow> distinct_rows hcols arrs is (hash # seen, bs', rows + 1))"

definition distinct_Callback :: "agg_env \<Rightarrow> table_rec \<Rightarrow> Distinction \<Rightarrow> (agg_error, Distinction \<times> table_rec option) result" where
  "distinct_Callback env r d =
     bind_result (or_panic (distinct_columns env (ds_columns d) r)) (\<lambda>cols.
     bind_result (or_panic (those (map (\<lambda>((f, c), h). map_option (Pair (uint64HashCombine h)) (HashArray (ae_hashers env) c)) cols))) (\<lambda>hcols.
     let arrs = map (\<lambda>x. snd (fst x)) cols;
         bs = map (\<lambda>c. (NewBuilder (column_DataType c), [])) arrs
     in bind_result (distinct_rows hcols arrs [0..<tr_rows r] (ds_seen d, bs, 0)) (\<lambda>(seen, bs', rows).
        if rows = 0 then Inr (d\<lparr>ds_seen := seen\<rparr>, None)
        else bind_result (new_record (map2 (\<lambda>x b. (fst (fst x), \<lparr>arr_type = column_DataType (snd (fst x)), arr_cells = snd b\<rparr>)) cols bs') rows)
               (\<lambda>out. Inr (d\<lparr>ds_seen := seen\<rparr>, Some out)))))"

fun run_distinct :: "agg_env \<Rightarrow> table_rec list \<Rightarrow> Distinction \<Rightarrow> (agg_error, Distinction \<times> table_rec list) result" where
  "run_distinct env [] d = Inr (d, [])"
| "run_distinct env (r # rs) d =
     bind_result (distinct_Callback env r d) (\<lambda>(d', out).
     bind_result (run_distinct env rs d') (\<lambda>(d'', outs).
       Inr (d'', (case out of None \<Rightarrow> [] | Some x \<Rightarrow> [x]) @ outs)))"

section \<open>The reference\<close>

definition matched :: "agg_env \<Rightarrow> Expr list \<Rightarrow> table_rec \<Rightarrow> ((string \<times> arrow_type) \<times> column) list" where
  "matched env es r = concat (map (\<lambda>fc. map (\<lambda>_. fc) (filter (\<lambda>e. matches env e (fst (fst fc)) = Some True) es)) (record_columns r))"

text \<open>The distinct columns of a record.\<close>

definition projected :: "agg_env \<Rightarrow> Expr list \<Rightarrow> table_rec \<Rightarrow> table_rec" where
  "projected env es r = \<lparr>tr_fields = map fst (matched env es r), tr_columns = map snd (matched env es r), tr_rows = tr_rows r\<rparr>"

definition distinct_hcols :: "agg_env \<Rightarrow> Expr list \<Rightarrow> table_rec \<Rightarrow> (hashCombiner \<times> uint64 list) list option" where
  "distinct_hcols env es r =
     those (map (\<lambda>fc. map_option (Pair (uint64HashCombine (ae_field_hash env (fst (fst fc))))) (HashArray (ae_hashers env) (snd fc))) (matched env es r))"

definition distinct_row_of :: "agg_env \<Rightarrow> Expr list \<Rightarrow> table_rec \<Rightarrow> nat \<Rightarrow> agg_row" where
  "distinct_row_of env es r i =
     \<lparr>ar_hash = (case distinct_hcols env es r of None \<Rightarrow> 0 | Some hcols \<Rightarrow> the (hash_row hcols i 0)),
      ar_keys = [], ar_vals = row_at (projected env es r) i\<rparr>"

definition distinct_input :: "agg_env \<Rightarrow> Expr list \<Rightarrow> table_rec list \<Rightarrow> agg_row list" where
  "distinct_input env es rs = concat (map (\<lambda>r. map (distinct_row_of env es r) [0..<tr_rows r]) rs)"

text \<open>Records whose distinct columns can be hashed and fit into an array.\<close>

definition distinct_rec_ok :: "agg_env \<Rightarrow> Expr list \<Rightarrow> table_rec \<Rightarrow> bool" where
  "distinct_rec_ok env es r \<longleftrightarrow>
     rec_ok (tr_fields r) r \<and> list_all (\<lambda>f. list_all (\<lambda>e. matches env e (fst f) \<noteq> None) es) (tr_fields r) \<and>
     list_all (\<lambda>fc. HashArray (ae_hashers env) (snd fc) \<noteq> None) (matched env es r)"

lemma match_distinct_eq:
  "list_all (\<lambda>e. matches env e (fst (fst fc)) \<noteq> None) es \<Longrightarrow>
     match_distinct env es fc = Some (map (\<lambda>_. (fc, ae_field_hash env (fst (fst fc)))) (filter (\<lambda>e. matches env e (fst (fst fc)) = Some True) es))"
  by (induction env es fc rule: match_distinct.induct) (auto split: option.splits bool.splits)

lemma distinct_columns_eq:
  assumes "distinct_rec_ok env es r"
  shows "distinct_columns env es r = Some (map (\<lambda>fc. (fc, ae_field_hash env (fst (fst fc)))) (matched env es r))"
proof -
  have "match_distinct env es fc = Some (map (\<lambda>_. (fc, ae_field_hash env (fst (fst fc)))) (filter (\<lambda>e. matches env e (fst (fst fc)) = Some True) es))"
    if "fc \<in> set (record_columns r)" for fc
  proof -
    have "fst fc \<in> set (tr_fields r)" using that by (metis record_columns_def prod.collapse set_zip_leftD)
    then show ?thesis using assms by (intro match_distinct_eq) (simp add: distinct_rec_ok_def list_all_iff)
  qed
  then have eq: "map (match_distinct env es) (record_columns r) =
      map (\<lambda>fc. Some (map (\<lambda>_. (fc, ae_field_hash env (fst (fst fc)))) (filter (\<lambda>e. matches env e (fst (fst fc)) = Some True) es))) (record_columns r)"
    by simp
  show ?thesis unfolding distinct_columns_def eq those_map_Some by (simp add: matched_def map_concat comp_def)
qed

lemma projected_ok:
  assumes "rec_ok (tr_fields r) r"
  shows "rec_ok (tr_fields (projected env es r)) (projected env es r)"
proof -
  have "fc \<in> set (record_columns r)" if "fc \<in> set (matched env es r)" for fc
    using that by (auto simp: matched_def)
  then have "column_ok (tr_rows r) (snd (fst fc)) (snd fc)" if "fc \<in> set (matched env es r)" for fc
    using record_column_ok [OF assms] that by blast
  then show ?thesis by (simp add: rec_ok_def projected_def list_all2_conv_all_nth)
qed

lemma hash_row_total:
  "list_all (\<lambda>(cmb, hs). (\<exists>v. cmb = uint64HashCombine v) \<and> i < length hs) cols \<Longrightarrow> \<exists>h. hash_row cols i acc = Some h"
  by (induction cols i acc rule: hash_row.induct) auto

lemma HashArray_length: "HashArray H c = Some hs \<Longrightarrow> length hs = column_Len c"
  by (cases c) (auto split: if_splits dest: those_nth)

lemma distinct_hash:
  assumes ok: "distinct_rec_ok env es r" and i: "i < tr_rows r"
  obtains hcols where "distinct_hcols env es r = Some hcols" "hash_row hcols i 0 = Some (ar_hash (distinct_row_of env es r i))"
proof -
  let ?g = "\<lambda>fc. map_option (Pair (uint64HashCombine (ae_field_hash env (fst (fst fc))))) (HashArray (ae_hashers env) (snd fc))"
  have "\<forall>x \<in> set (map ?g (matched env es r)). x \<noteq> None" using ok by (auto simp: distinct_rec_ok_def list_all_iff)
  then obtain hcols where h: "distinct_hcols env es r = Some hcols" unfolding distinct_hcols_def using those_ex by blast
  have n: "length hcols = length (matched env es r)" "\<forall>k < length hcols. ?g (matched env es r ! k) = Some (hcols ! k)"
    using those_nth [OF h [unfolded distinct_hcols_def]] by auto
  have "(\<exists>v. fst (hcols ! k) = uint64HashCombine v) \<and> i < length (snd (hcols ! k))" if k: "k < length hcols" for k
  proof -
    have "matched env es r ! k \<in> set (record_columns r)" using nth_mem [of k "matched env es r"] k n(1) by (auto simp: matched_def)
    then have "column_ok (tr_rows r) (snd (fst (matched env es r ! k))) (snd (matched env es r ! k))"
      using record_column_ok ok by (auto simp: distinct_rec_ok_def)
    then have "column_Len (snd (matched env es r ! k)) = tr_rows r" by (simp add: column_ok_def)
    moreover obtain hs where "HashArray (ae_hashers env) (snd (matched env es r ! k)) = Some hs"
        "hcols ! k = (uint64HashCombine (ae_field_hash env (fst (fst (matched env es r ! k)))), hs)"
      using n(2) k by auto
    ultimately show ?thesis using i HashArray_length by simp
  qed
  then obtain v where "hash_row hcols i 0 = Some v" using hash_row_total [of i hcols 0] by (auto simp: list_all_length split_def)
  then show thesis using that [OF h] h by (simp add: distinct_row_of_def)
qed

lemma rows_fit_skip: "rows_fit fs (out @ x # rest) \<Longrightarrow> rows_fit fs (out @ rest)"
proof -
  have "col_size k (out @ rest) \<le> col_size k (out @ x # rest)" for k
    by (simp add: col_size_def data_size_def)
  then show "rows_fit fs (out @ x # rest) \<Longrightarrow> rows_fit fs (out @ rest)"
    unfolding rows_fit_def list_all_iff by (meson le_trans)
qed

lemma distinct_rows_ok:
  assumes ok: "distinct_rec_ok env es r" and hcols: "distinct_hcols env es r = Some hcols"
    and "\<forall>i \<in> set is. i < tr_rows r" "set seen = set (row_hashes prev)"
    and "rows_fit (tr_fields (projected env es r)) (out @ map (row_at (projected env es r)) is)"
  shows "\<exists>seen' new. distinct_rows hcols (tr_columns (projected env es r)) is (seen, builders (tr_fields (projected env es r)) out, length out) =
      Inr (seen', builders (tr_fields (projected env es r)) (out @ map ar_vals new), length (out @ map ar_vals new)) \<and>
    set seen' = set (row_hashes (prev @ map (distinct_row_of env es r) is)) \<and>
    leaders (prev @ map (distinct_row_of env es r) is) = leaders prev @ new \<and>
    set new \<subseteq> set (map (distinct_row_of env es r) is)"
  using assms(3-5)
proof (induction "is" arbitrary: seen prev out)
  case (Cons i "is")
  let ?p = "projected env es r" let ?x = "distinct_row_of env es r i"
  have hash: "hash_row hcols i 0 = Some (ar_hash ?x)"
    using distinct_hash [OF ok, of i] hcols Cons.prems(1) by fastforce
  show ?case
  proof (cases "ar_hash ?x \<in> set seen")
    case True
    have "rows_fit (tr_fields ?p) (out @ map (row_at ?p) is)" using Cons.prems(3) rows_fit_skip by auto
    moreover have "set seen = set (row_hashes (prev @ [?x]))" "leaders (prev @ [?x]) = leaders prev"
      using True Cons.prems(2) by (auto simp: row_hashes_snoc leaders_snoc)
    ultimately show ?thesis
      using Cons.IH [of seen "prev @ [?x]" out] Cons.prems(1) True hash by (fastforce simp: or_panic_def)
  next
    case False
    have x: "ar_vals ?x = row_at ?p i" by (simp add: distinct_row_of_def)
    have fit: "rows_fit (tr_fields ?p) ((out @ [row_at ?p i]) @ map (row_at ?p) is)" using Cons.prems(3) by simp
    have "append_row (builders (tr_fields ?p) out) (tr_columns ?p) i = Inr (builders (tr_fields ?p) (out @ [row_at ?p i]))"
      using ok Cons.prems(1) rows_fit_prefix [OF fit]
      by (intro append_row_builders projected_ok) (auto simp: distinct_rec_ok_def projected_def)
    moreover have "set (ar_hash ?x # seen) = set (row_hashes (prev @ [?x]))" "leaders (prev @ [?x]) = leaders prev @ [?x]"
      using False Cons.prems(2) by (auto simp: row_hashes_snoc leaders_snoc)
    moreover obtain seen' new where "distinct_rows hcols (tr_columns ?p) is (ar_hash ?x # seen, builders (tr_fields ?p) (out @ [row_at ?p i]), length (out @ [row_at ?p i])) =
        Inr (seen', builders (tr_fields ?p) ((out @ [row_at ?p i]) @ map ar_vals new), length ((out @ [row_at ?p i]) @ map ar_vals new))"
      "set seen' = set (row_hashes ((prev @ [?x]) @ map (distinct_row_of env es r) is))"
      "leaders ((prev @ [?x]) @ map (distinct_row_of env es r) is) = leaders (prev @ [?x]) @ new"
      "set new \<subseteq> set (map (distinct_row_of env es r) is)"
      using Cons.IH [of "ar_hash ?x # seen" "prev @ [?x]" "out @ [row_at ?p i]"] Cons.prems(1) fit calculation by auto
    ultimately show ?thesis
      using False hash x by (intro exI [of _ seen'] exI [of _ "?x # new"]) (auto simp: or_panic_def)
  qed
qed simp

section \<open>Rows are passed on once\<close>

lemma builders_record:
  assumes "list_all (\<lambda>row. length row = length fs) rows" "length cs = length fs" "\<forall>k < length fs. column_DataType (cs ! k) = snd (fs ! k)"
  obtains r where "new_record (map2 (\<lambda>x b. (fst x, \<lparr>arr_type = column_DataType (snd x), arr_cells = snd b\<rparr>)) (zip fs cs) (builders fs rows)) (length rows) = Inr r"
    "tr_fields r = fs" "rec_rows_of r = rows"
proof -
  let ?cols = "map2 (\<lambda>x b. (fst x, \<lparr>arr_type = column_DataType (snd x), arr_cells = snd b\<rparr>)) (zip fs cs) (builders fs rows)"
  let ?r = "\<lparr>tr_fields = map fst ?cols, tr_columns = map (Physical \<circ> snd) ?cols, tr_rows = length rows\<rparr>"
  have len: "length ?cols = length fs" using assms(2) by (simp add: builders_def)
  have nth: "?cols ! k = (fs ! k, \<lparr>arr_type = snd (fs ! k), arr_cells = map (\<lambda>row. row ! k) rows\<rparr>)" if "k < length fs" for k
    using that assms(2,3) by (simp add: builders_def)
  have "list_all (\<lambda>(f, a). length rows \<le> length (arr_cells a) \<and> snd f = arr_type a) ?cols"
    unfolding list_all_length len using nth by simp
  then have n: "new_record ?cols (length rows) = Inr ?r" unfolding new_record_def by (simp only: if_True)
  have f: "map fst ?cols = fs" using len nth by (intro nth_equalityI) simp_all
  have "row_at ?r i = rows ! i" if i: "i < length rows" for i
  proof (rule nth_equalityI)
    have li: "length (rows ! i) = length fs" using assms(1) i by (simp add: list_all_length)
    show "length (row_at ?r i) = length (rows ! i)" using len li by (simp add: row_at_def)
    fix k assume "k < length (row_at ?r i)"
    then have "k < length fs" using len by (simp add: row_at_def)
    then show "row_at ?r i ! k = rows ! i ! k" using nth len i by (simp add: row_at_def)
  qed
  then have "rec_rows_of ?r = rows" by (auto simp: rec_rows_of_def intro!: nth_equalityI)
  with n f that show thesis by simp
qed

text \<open>One record: the rows that lead their hash for the first time, or nothing.\<close>

lemma distinct_Callback_ok:
  assumes ok: "distinct_rec_ok env (ds_columns d) r" and seen: "set (ds_seen d) = set (row_hashes prev)"
    and fit: "rows_fit (tr_fields (projected env (ds_columns d) r)) (rec_rows_of (projected env (ds_columns d) r))"
  shows "\<exists>d' out new. distinct_Callback env r d = Inr (d', out) \<and> ds_columns d' = ds_columns d \<and>
    set (ds_seen d') = set (row_hashes (prev @ distinct_input env (ds_columns d) [r])) \<and>
    leaders (prev @ distinct_input env (ds_columns d) [r]) = leaders prev @ new \<and>
    (case out of None \<Rightarrow> new = []
     | Some x \<Rightarrow> tr_fields x = tr_fields (projected env (ds_columns d) r) \<and> rec_rows_of x = map ar_vals new)"
proof -
  let ?es = "ds_columns d" let ?p = "projected env (ds_columns d) r" let ?fs = "tr_fields ?p"
  have m: "matched env ?es r = zip ?fs (tr_columns ?p)" by (simp add: projected_def zip_map_fst_snd)
  have rec: "rec_ok ?fs ?p" using ok by (intro projected_ok) (simp add: distinct_rec_ok_def)
  have types: "column_DataType (tr_columns ?p ! k) = snd (?fs ! k)" if "k < length ?fs" for k
    using rec_ok_column [OF rec that] by (simp add: column_ok_def)
  have len: "length (tr_columns ?p) = length ?fs" by (rule rec_ok_length [OF rec])
  obtain hcols where hcols: "distinct_hcols env ?es r = Some hcols"
  proof -
    have "\<forall>x \<in> set (map (\<lambda>fc. map_option (Pair (uint64HashCombine (ae_field_hash env (fst (fst fc))))) (HashArray (ae_hashers env) (snd fc))) (matched env ?es r)). x \<noteq> None"
      using ok by (auto simp: distinct_rec_ok_def list_all_iff)
    then show thesis using that those_ex unfolding distinct_hcols_def by blast
  qed
  have bs: "map (\<lambda>c. (NewBuilder (column_DataType c), [])) (tr_columns ?p) = builders ?fs []"
    using types len by (auto simp: builders_def intro!: nth_equalityI)
  obtain seen' new where rows: "distinct_rows hcols (tr_columns ?p) [0..<tr_rows r] (ds_seen d, builders ?fs [], 0) =
      Inr (seen', builders ?fs (map ar_vals new), length new)"
    "set seen' = set (row_hashes (prev @ distinct_input env ?es [r]))"
    "leaders (prev @ distinct_input env ?es [r]) = leaders prev @ new"
    "set new \<subseteq> set (map (distinct_row_of env ?es r) [0..<tr_rows r])"
    using distinct_rows_ok [OF ok hcols, of "[0..<tr_rows r]" "ds_seen d" prev "[]"] seen fit
    by (auto simp: rec_rows_of_def projected_def distinct_input_def)
  obtain x where x: "new_record (map2 (\<lambda>x b. (fst x, \<lparr>arr_type = column_DataType (snd x), arr_cells = snd b\<rparr>)) (matched env ?es r) (builders ?fs (map ar_vals new))) (length new) = Inr x"
      "tr_fields x = ?fs" "rec_rows_of x = map ar_vals new"
  proof -
    have l: "list_all (\<lambda>row. length row = length ?fs) (map ar_vals new)"
      using rows(4) len by (auto simp: list_all_iff distinct_row_of_def)
    have t: "\<forall>k < length ?fs. column_DataType (tr_columns ?p ! k) = snd (?fs ! k)" using types by blast
    obtain x where "new_record (map2 (\<lambda>x b. (fst x, \<lparr>arr_type = column_DataType (snd x), arr_cells = snd b\<rparr>)) (zip ?fs (tr_columns ?p)) (builders ?fs (map ar_vals new))) (length (map ar_vals new)) = Inr x"
        "tr_fields x = ?fs" "rec_rows_of x = map ar_vals new"
      by (rule builders_record [OF l len t])
    then show thesis using that unfolding m by simp
  qed
  let ?cols = "map (\<lambda>fc. (fc, ae_field_hash env (fst (fst fc)))) (matched env ?es r)"
  have h1: "those (map (\<lambda>((f, c), h). map_option (Pair (uint64HashCombine h)) (HashArray (ae_hashers env) c)) ?cols) = Some hcols"
    using hcols by (simp add: distinct_hcols_def split_def comp_def)
  have h2: "map (\<lambda>x. snd (fst x)) ?cols = tr_columns ?p" by (simp add: projected_def)
  have h3: "map2 (\<lambda>x b. (fst (fst x), \<lparr>arr_type = column_DataType (snd (fst x)), arr_cells = snd b\<rparr>)) ?cols bs =
      map2 (\<lambda>x b. (fst x, \<lparr>arr_type = column_DataType (snd x), arr_cells = snd b\<rparr>)) (matched env ?es r) bs" for bs :: "(ColumnBuilder \<times> cell option list) list"
    by (simp add: zip_map1 split_def comp_def)
  have "distinct_Callback env r d = (if new = [] then Inr (d\<lparr>ds_seen := seen'\<rparr>, None) else Inr (d\<lparr>ds_seen := seen'\<rparr>, Some x))"
    unfolding distinct_Callback_def distinct_columns_eq [OF ok] or_panic_def option.case bind_result_simps h1 Let_def h2 bs rows(1) prod.case h3
    using x(1) by simp
  then show ?thesis
    using rows(2,3) x(2,3) by (cases "new = []") auto
qed

definition distinct_fits :: "agg_env \<Rightarrow> Expr list \<Rightarrow> table_rec \<Rightarrow> bool" where
  "distinct_fits env es r \<longleftrightarrow> rows_fit (tr_fields (projected env es r)) (rec_rows_of (projected env es r))"

lemma distinct_input_Cons: "distinct_input env es (r # rs) = distinct_input env es [r] @ distinct_input env es rs"
  by (simp add: distinct_input_def)

lemma run_distinct_ok:
  assumes "list_all (\<lambda>r. distinct_rec_ok env (ds_columns d) r \<and> distinct_fits env (ds_columns d) r) rs"
    and "set (ds_seen d) = set (row_hashes prev)"
  shows "\<exists>d' outs new. run_distinct env rs d = Inr (d', outs) \<and>
    leaders (prev @ distinct_input env (ds_columns d) rs) = leaders prev @ new \<and> concat (map rec_rows_of outs) = map ar_vals new"
  using assms
proof (induction rs arbitrary: d prev)
  case Nil
  then show ?case by (simp add: distinct_input_def)
next
  case (Cons r rs)
  obtain d1 out new1 where one: "distinct_Callback env r d = Inr (d1, out)" "ds_columns d1 = ds_columns d"
    "set (ds_seen d1) = set (row_hashes (prev @ distinct_input env (ds_columns d) [r]))"
    "leaders (prev @ distinct_input env (ds_columns d) [r]) = leaders prev @ new1"
    "case out of None \<Rightarrow> new1 = []
     | Some x \<Rightarrow> tr_fields x = tr_fields (projected env (ds_columns d) r) \<and> rec_rows_of x = map ar_vals new1"
    using distinct_Callback_ok [of env d r prev] Cons.prems by (auto simp: distinct_fits_def)
  obtain d2 outs new2 where "run_distinct env rs d1 = Inr (d2, outs)"
    "leaders ((prev @ distinct_input env (ds_columns d) [r]) @ distinct_input env (ds_columns d) rs) = leaders (prev @ distinct_input env (ds_columns d) [r]) @ new2"
    "concat (map rec_rows_of outs) = map ar_vals new2"
    using Cons.IH [OF _ one(3)] Cons.prems(1) one(2) by auto
  then show ?case
    using one by (auto simp: distinct_input_Cons [of _ _ r rs] split: option.splits)
qed

text \<open>C36: Over any sequence of records with distinct columns that can be hashed, the operator passes on
  exactly the first row of every hash of the distinct columns, in the order of the input, with the
  values of these columns.
\<close>

theorem distinct_first_rows:
  assumes "list_all (\<lambda>r. distinct_rec_ok env es r \<and> distinct_fits env es r) rs"
  shows "\<exists>d outs. run_distinct env rs (Distinct es) = Inr (d, outs) \<and>
    concat (map rec_rows_of outs) = map ar_vals (leaders (distinct_input env es rs))"
  using run_distinct_ok [of env "Distinct es" rs "[]"] assms
  by (auto simp: Distinct_def row_hashes_def leaders_def)

theorem distinct_first_rows_witness:
  "\<exists>d outs. run_distinct demo_env [two_columns ''l.a'' ''v'' [Some ''x'', None, Some ''x''] [1, 2, 5], two_columns ''l.a'' ''v'' [Some ''y'', None] [10, 20]]
      (Distinct [DynamicColumn ''l'']) = Inr (d, outs) \<and>
    concat (map rec_rows_of outs) = [[Some (C_Bytes ''x'')], [None], [Some (C_Bytes ''y'')]]"
proof -
  let ?rs = "[two_columns ''l.a'' ''v'' [Some ''x'', None, Some ''x''] [1, 2, 5], two_columns ''l.a'' ''v'' [Some ''y'', None] [10, 20]]"
  have "list_all (\<lambda>r. distinct_rec_ok demo_env [DynamicColumn ''l''] r) ?rs" by code_simp
  moreover have "list_all (\<lambda>r. list_all (\<lambda>f. snd f \<noteq> T_Binary) (tr_fields (projected demo_env [DynamicColumn ''l''] r))) ?rs" by code_simp
  then have "list_all (\<lambda>r. distinct_fits demo_env [DynamicColumn ''l''] r) ?rs"
    by (auto simp: distinct_fits_def rows_fit_def list_all_length)
  ultimately have "list_all (\<lambda>r. distinct_rec_ok demo_env [DynamicColumn ''l''] r \<and> distinct_fits demo_env [DynamicColumn ''l''] r) ?rs"
    by simp
  moreover have "map ar_vals (leaders (distinct_input demo_env [DynamicColumn ''l''] ?rs)) = [[Some (C_Bytes ''x'')], [None], [Some (C_Bytes ''y'')]]"
    by code_simp
  ultimately show ?thesis using distinct_first_rows [of demo_env "[DynamicColumn ''l'']" ?rs] by simp
qed

text \<open>A row with the key 0 is taken for a row without a key.\<close>

lemma zero_is_not_distinct:
  "map_option (map rec_rows_of \<circ> snd) (case run_distinct demo_env
      [\<lparr>tr_fields = [(''k'', T_Int64)], tr_columns = [Physical (int64_array [None, Some (C_Int 0)])], tr_rows = 2\<rparr>]
      (Distinct [Column ''k'']) of Inl _ \<Rightarrow> None | Inr out \<Rightarrow> Some out) = Some [[[None]]]"
  by code_simp

end
