(* ===== verification/Project_Op.thy ===== *)
theory Project_Op
  imports Hash_Aggregate "HOL-Library.Signed_Division"
begin

text \<open>
  The projection operator (\<open>query/physicalplan/project.go\<close>): columns, dynamic columns, renamed
  and computed ones, and the average that is computed from the sum and the count of an aggregation.

  A record is seen by the boolean expressions of \<open>Pred_Filter\<close> through its columns' types and
  cells. The division of floating point numbers and the compilation of regular expressions are parameters.
\<close>

section \<open>Projections\<close>

record proj_env =
  pe_str :: "scalar \<Rightarrow> string"
  pe_regex :: "string \<Rightarrow> string \<Rightarrow> bool"
  pe_regex_ok :: "string \<Rightarrow> bool"
  pe_float_div :: "64 word \<Rightarrow> int \<Rightarrow> 64 word"

datatype proj_error = PR_Panic | PR_Filter filter_error | PR_Unsupported Expr
  | PR_SumNotFound string | PR_CountNotFound string | PR_AverageType arrow_type

definition some_or_panic :: "'a option \<Rightarrow> (proj_error, 'a) result" where
  "some_or_panic x = (case x of None \<Rightarrow> Inl PR_Panic | Some y \<Rightarrow> Inr y)"

definition filter_result :: "(filter_error, 'a) result \<Rightarrow> (proj_error, 'a) result" where
  "filter_result x = (case x of Inl e \<Rightarrow> Inl (PR_Filter e) | Inr y \<Rightarrow> Inr y)"

text \<open>\<open>String\<close> of a boolean expression; a missing scalar is a nil pointer.\<close>

fun BoolExpr_String :: "(scalar \<Rightarrow> string) \<Rightarrow> BooleanExpression \<Rightarrow> string option" where
  "BoolExpr_String str (BinaryScalarExpr left op right) =
     (case (Op_String op, right) of
        (Some op', Some v) \<Rightarrow> Some (left @ '' '' @ op' @ '' '' @ str v)
      | _ \<Rightarrow> None)"
| "BoolExpr_String str (RegExpFilter left notMatch right) =
     Some (left @ (if notMatch then '' !~ '' else '' =~ '') @ [CHR 0x22] @ right @ [CHR 0x22])"
| "BoolExpr_String str (AndExpr a b) =
     (case (BoolExpr_String str a, BoolExpr_String str b) of
        (Some x, Some y) \<Rightarrow> Some (''('' @ x @ '' AND '' @ y @ '')'')
      | _ \<Rightarrow> None)"
| "BoolExpr_String str (OrExpr a b) =
     (case (BoolExpr_String str a, BoolExpr_String str b) of
        (Some x, Some y) \<Rightarrow> Some (''('' @ x @ '' OR '' @ y @ '')'')
      | _ \<Rightarrow> None)"

text \<open>An \<open>aliasProjection\<close> has the aliased expression and the alias.\<close>

datatype columnProjection = aliasProjection Expr string | binaryExprProjection BooleanExpression
  | plainProjection string | dynamicProjection string | averageProjection Expr | allProjection

fun projectionFromExpr :: "proj_env \<Rightarrow> Expr \<Rightarrow> (proj_error, columnProjection) result" where
  "projectionFromExpr env AllExpr = Inr allProjection"
| "projectionFromExpr env (Column c) = Inr (plainProjection c)"
| "projectionFromExpr env (DynamicColumn c) = Inr (dynamicProjection c)"
| "projectionFromExpr env (AliasExpr e alias) = Inr (aliasProjection e alias)"
| "projectionFromExpr env (BinaryExpr l op r) =
     bind_result (filter_result (booleanExpr (pe_regex_ok env) (BinaryExpr l op r))) (\<lambda>b. Inr (binaryExprProjection b))"
| "projectionFromExpr env (AverageExpr e) = Inr (averageProjection e)"
| "projectionFromExpr env e = Inl (PR_Unsupported e)"

fun Project :: "proj_env \<Rightarrow> Expr list \<Rightarrow> (proj_error, columnProjection list) result" where
  "Project env [] = Inr []"
| "Project env (e # es) =
     bind_result (projectionFromExpr env e) (\<lambda>proj. bind_result (Project env es) (\<lambda>ps. Inr (proj # ps)))"

section \<open>Projected columns\<close>

type_synonym pcol = "(string \<times> arrow_type) \<times> column"

definition pcols :: "table_rec \<Rightarrow> pcol list" where
  "pcols r = zip (tr_fields r) (tr_columns r)"

definition column_array :: "column \<Rightarrow> arrow_array" where
  "column_array c = \<lparr>arr_type = column_DataType c, arr_cells = column_cells c\<rparr>"

definition arrow_view :: "table_rec \<Rightarrow> arrow_record" where
  "arrow_view r = \<lparr>rec_columns = map (\<lambda>(f, c). (fst f, column_array c)) (pcols r), rec_rows = tr_rows r\<rparr>"

definition NullN :: "column \<Rightarrow> nat" where
  "NullN c = length (filter (\<lambda>x. x = None) (column_cells c))"

text \<open>Values that were computed by the scan override the evaluated ones.\<close>

fun override_values :: "cell option list \<Rightarrow> bool list \<Rightarrow> bool list" where
  "override_values (Some (C_Bool b) # cs) (v # vs) = b # override_values cs vs"
| "override_values (_ # cs) (v # vs) = v # override_values cs vs"
| "override_values _ vs = vs"

definition bool_column :: "bool list \<Rightarrow> column" where
  "bool_column vals = Physical \<lparr>arr_type = T_Boolean, arr_cells = map (\<lambda>v. Some (C_Bool v)) vals\<rparr>"

definition evaluate_binary :: "proj_env \<Rightarrow> BooleanExpression \<Rightarrow> table_rec \<Rightarrow> column option \<Rightarrow> (proj_error, column) result" where
  "evaluate_binary env b r partial =
     bind_result (filter_result (Eval (pe_regex env) b (arrow_view r))) (\<lambda>bitmap.
       let vals = map (\<lambda>i. i \<in> bitmap) [0..<tr_rows r]
       in case partial of
            None \<Rightarrow> Inr (bool_column vals)
          | Some arr \<Rightarrow> if column_DataType arr \<noteq> T_Boolean then Inl PR_Panic
                        else Inr (bool_column (override_values (column_cells arr) vals)))"

definition binary_Project :: "proj_env \<Rightarrow> BooleanExpression \<Rightarrow> table_rec \<Rightarrow> (proj_error, pcol list) result" where
  "binary_Project env b r =
     bind_result (some_or_panic (BoolExpr_String (pe_str env) b)) (\<lambda>name.
       let result = (\<lambda>c. Inr [((name, T_Boolean), c)])
       in case find (\<lambda>(f, c). fst f = name) (pcols r) of
            None \<Rightarrow> bind_result (evaluate_binary env b r None) result
          | Some (f, arr) \<Rightarrow>
              if NullN arr = 0 then result arr
              else bind_result (evaluate_binary env b r (if NullN arr < column_Len arr then Some arr else None)) result)"

text \<open>The loop that renames the computed field when the aliased expression matches its name.\<close>

fun rename_fields :: "proj_env \<Rightarrow> Expr \<Rightarrow> string \<Rightarrow> pcol list \<Rightarrow> (proj_error, pcol list) result" where
  "rename_fields env e alias [] = Inr []"
| "rename_fields env e alias ((f, c) # cols) =
     bind_result (some_or_panic (MatchColumn (pe_str env) (pe_regex env) e (fst f))) (\<lambda>m.
     bind_result (rename_fields env e alias cols) (\<lambda>cols'.
       Inr (((if m then alias else fst f, snd f), c) # cols')))"

text \<open>The first field that an expression matches.\<close>

fun first_match :: "proj_env \<Rightarrow> Expr \<Rightarrow> pcol list \<Rightarrow> (proj_error, pcol list) result" where
  "first_match env e [] = Inr []"
| "first_match env e ((f, c) # cols) =
     bind_result (some_or_panic (MatchColumn (pe_str env) (pe_regex env) e (fst f))) (\<lambda>m.
       if m then Inr [(f, c)] else first_match env e cols)"

fun all_matches :: "proj_env \<Rightarrow> Expr \<Rightarrow> pcol list \<Rightarrow> (proj_error, pcol list) result" where
  "all_matches env e [] = Inr []"
| "all_matches env e ((f, c) # cols) =
     bind_result (some_or_panic (MatchColumn (pe_str env) (pe_regex env) e (fst f))) (\<lambda>m.
     bind_result (all_matches env e cols) (\<lambda>cols'. Inr (if m then (f, c) # cols' else cols')))"

text \<open>A column under an alias is searched with the alias expression itself.\<close>

fun alias_Project :: "proj_env \<Rightarrow> Expr \<Rightarrow> string \<Rightarrow> table_rec \<Rightarrow> (proj_error, pcol list) result" where
  "alias_Project env (BinaryExpr l op r) alias ar =
     bind_result (filter_result (booleanExpr (pe_regex_ok env) (BinaryExpr l op r))) (\<lambda>b.
     bind_result (binary_Project env b ar) (rename_fields env (BinaryExpr l op r) alias))"
| "alias_Project env (Column c) alias ar =
     bind_result (first_match env (AliasExpr (Column c) alias) (pcols ar)) (\<lambda>cols.
       Inr (map (\<lambda>(f, col). ((alias, snd f), col)) cols))"
| "alias_Project env e alias ar = Inr []"

section \<open>Averages\<close>

definition average_names :: "proj_env \<Rightarrow> Expr \<Rightarrow> (string \<times> string) option" where
  "average_names env e =
     (case e of
        AliasExpr e' alias \<Rightarrow> map_option (\<lambda>n. (n, alias)) (Name (pe_str env) e')
      | _ \<Rightarrow> map_option (\<lambda>n. (n, ''avg('' @ n @ '')'')) (Name (pe_str env) e))"

definition FieldIndices :: "string \<Rightarrow> table_rec \<Rightarrow> nat list" where
  "FieldIndices name r = filter (\<lambda>i. fst (tr_fields r ! i) = name) [0..<length (tr_fields r)]"

text \<open>Go's division of \<open>int64\<close> truncates, wraps around, and panics for zero.\<close>

definition go_div :: "int \<Rightarrow> int \<Rightarrow> int option" where
  "go_div a b = (if b = 0 then None else Some (sint (word_of_int (a sdiv b) :: int64)))"

definition avgInt64arrays :: "cell option list \<Rightarrow> cell option list \<Rightarrow> cell option list option" where
  "avgInt64arrays sums counts =
     (if length counts < length sums then None
      else map_option (map (\<lambda>v. Some (C_Int v))) (those (map2 go_div (Int64Values sums) (Int64Values counts))))"

definition avgFloat64arrays :: "proj_env \<Rightarrow> cell option list \<Rightarrow> cell option list \<Rightarrow> cell option list option" where
  "avgFloat64arrays env sums counts =
     (if length counts < length sums then None
      else Some (map2 (\<lambda>s n. Some (C_Float (pe_float_div env s n))) (Float64Values sums) (Int64Values counts)))"

definition average_cells :: "proj_env \<Rightarrow> column \<Rightarrow> column \<Rightarrow> (proj_error, column) result" where
  "average_cells env sums counts =
     (let cells = (\<lambda>ty x. bind_result (if column_DataType counts = T_Int64 then some_or_panic x else Inl PR_Panic)
                            (\<lambda>cs. Inr (Physical \<lparr>arr_type = ty, arr_cells = cs\<rparr>)))
      in if column_DataType sums = T_Int64
         then cells T_Int64 (avgInt64arrays (column_cells sums) (column_cells counts))
         else if column_DataType sums = T_OtherType
         then cells T_OtherType (avgFloat64arrays env (column_cells sums) (column_cells counts))
         else Inl (PR_AverageType (column_DataType sums)))"

definition average_Project :: "proj_env \<Rightarrow> Expr \<Rightarrow> table_rec \<Rightarrow> (proj_error, pcol list) result" where
  "average_Project env e r =
     bind_result (some_or_panic (average_names env e)) (\<lambda>(columnName, resultName).
       case FieldIndices (''sum('' @ columnName @ '')'') r of
         [s] \<Rightarrow>
           (case FieldIndices (''count('' @ columnName @ '')'') r of
              [n] \<Rightarrow>
                bind_result (average_cells env (tr_columns r ! s) (tr_columns r ! n)) (\<lambda>avg.
                  Inr (map ((!) (pcols r)) (filter (\<lambda>i. i \<noteq> s \<and> i \<noteq> n) [0..<length (tr_fields r)]) @
                       [((resultName, column_DataType avg), avg)]))
            | _ \<Rightarrow> Inl (PR_CountNotFound columnName))
       | _ \<Rightarrow> Inl (PR_SumNotFound columnName))"

section \<open>The operator\<close>

fun Project_column :: "proj_env \<Rightarrow> columnProjection \<Rightarrow> table_rec \<Rightarrow> (proj_error, pcol list) result" where
  "Project_column env (aliasProjection e alias) r = alias_Project env e alias r"
| "Project_column env (binaryExprProjection b) r = binary_Project env b r"
| "Project_column env (plainProjection c) r = first_match env (Column c) (pcols r)"
| "Project_column env (dynamicProjection c) r = all_matches env (DynamicColumn c) (pcols r)"
| "Project_column env (averageProjection e) r = average_Project env e r"
| "Project_column env allProjection r = Inr (pcols r)"

fun project_columns :: "proj_env \<Rightarrow> columnProjection list \<Rightarrow> table_rec \<Rightarrow> (proj_error, pcol list) result" where
  "project_columns env [] r = Inr []"
| "project_columns env (p # ps) r =
     bind_result (Project_column env p r) (\<lambda>cols. bind_result (project_columns env ps r) (\<lambda>cols'. Inr (cols @ cols')))"

text \<open>\<open>array.NewRecord\<close> panics for a column with another type than its field or with too few values.\<close>

definition project_Callback :: "proj_env \<Rightarrow> columnProjection list \<Rightarrow> table_rec \<Rightarrow> (proj_error, table_rec) result" where
  "project_Callback env ps r =
     bind_result (project_columns env ps r) (\<lambda>cols.
       let rows = (case cols of [] \<Rightarrow> 0 | x # _ \<Rightarrow> column_Len (snd x))
       in if list_all (\<lambda>(f, c). rows \<le> column_Len c \<and> snd f = column_DataType c) cols
          then Inr \<lparr>tr_fields = map fst cols, tr_columns = map snd cols, tr_rows = rows\<rparr>
          else Inl PR_Panic)"

section \<open>Types\<close>

text \<open>
  The fields of the projected record, from the fields of the record alone. A field with the name of a
  computed column has to be boolean, since its values are taken for computed ones.
\<close>

definition unique_field :: "string \<Rightarrow> (string \<times> arrow_type) list \<Rightarrow> arrow_type option" where
  "unique_field name fs = (case filter (\<lambda>f. fst f = name) fs of [f] \<Rightarrow> Some (snd f) | _ \<Rightarrow> None)"

definition binary_field :: "proj_env \<Rightarrow> BooleanExpression \<Rightarrow> (string \<times> arrow_type) list \<Rightarrow> string option" where
  "binary_field env b fs =
     (case BoolExpr_String (pe_str env) b of
        None \<Rightarrow> None
      | Some name \<Rightarrow> if list_all (\<lambda>f. fst f = name \<longrightarrow> snd f = T_Boolean) fs then Some name else None)"

definition alias_fields :: "proj_env \<Rightarrow> Expr \<Rightarrow> string \<Rightarrow> (string \<times> arrow_type) list \<Rightarrow> (string \<times> arrow_type) list option" where
  "alias_fields env e alias fs =
     (case e of
        BinaryExpr l op r \<Rightarrow>
          (case (booleanExpr (pe_regex_ok env) e, Name (pe_str env) e) of
             (Inr b, Some n) \<Rightarrow> map_option (\<lambda>name. [(if n = name then alias else name, T_Boolean)]) (binary_field env b fs)
           | _ \<Rightarrow> None)
      | Column c \<Rightarrow> Some (case find (\<lambda>f. fst f = alias) fs of None \<Rightarrow> [] | Some f \<Rightarrow> [(alias, snd f)])
      | _ \<Rightarrow> Some [])"

definition average_fields :: "proj_env \<Rightarrow> Expr \<Rightarrow> (string \<times> arrow_type) list \<Rightarrow> (string \<times> arrow_type) list option" where
  "average_fields env e fs =
     (case average_names env e of
        None \<Rightarrow> None
      | Some (n, res) \<Rightarrow>
          (case (unique_field (''sum('' @ n @ '')'') fs, unique_field (''count('' @ n @ '')'') fs) of
             (Some ty, Some T_Int64) \<Rightarrow>
               if ty \<in> {T_Int64, T_OtherType}
               then Some (filter (\<lambda>f. fst f \<notin> {''sum('' @ n @ '')'', ''count('' @ n @ '')''}) fs @ [(res, ty)])
               else None
           | _ \<Rightarrow> None))"

fun projection_fields :: "proj_env \<Rightarrow> (string \<times> arrow_type) list \<Rightarrow> columnProjection \<Rightarrow> (string \<times> arrow_type) list option" where
  "projection_fields env fs (aliasProjection e alias) = alias_fields env e alias fs"
| "projection_fields env fs (binaryExprProjection b) = map_option (\<lambda>name. [(name, T_Boolean)]) (binary_field env b fs)"
| "projection_fields env fs (plainProjection c) = Some (case find (\<lambda>f. fst f = c) fs of None \<Rightarrow> [] | Some f \<Rightarrow> [f])"
| "projection_fields env fs (dynamicProjection c) = Some (filter (\<lambda>f. prefix (c @ ''.'') (fst f)) fs)"
| "projection_fields env fs (averageProjection e) = average_fields env e fs"
| "projection_fields env fs allProjection = Some fs"

text \<open>What has to hold of the values: boolean expressions can be evaluated, and no count is zero.\<close>

definition evaluates :: "proj_env \<Rightarrow> BooleanExpression \<Rightarrow> table_rec \<Rightarrow> bool" where
  "evaluates env b r \<longleftrightarrow> (case Eval (pe_regex env) b (arrow_view r) of Inl _ \<Rightarrow> False | Inr _ \<Rightarrow> True)"

definition counted :: "column \<Rightarrow> bool" where
  "counted c \<longleftrightarrow> list_all (\<lambda>v. v \<noteq> 0) (Int64Values (column_cells c))"

fun values_ok :: "proj_env \<Rightarrow> table_rec \<Rightarrow> columnProjection \<Rightarrow> bool" where
  "values_ok env r (aliasProjection (BinaryExpr l op e) alias) =
     (case booleanExpr (pe_regex_ok env) (BinaryExpr l op e) of Inl _ \<Rightarrow> False | Inr b \<Rightarrow> evaluates env b r)"
| "values_ok env r (binaryExprProjection b) = evaluates env b r"
| "values_ok env r (averageProjection e) =
     (case average_names env e of
        None \<Rightarrow> False
      | Some (n, _) \<Rightarrow> list_all (\<lambda>(f, c). fst f = ''count('' @ n @ '')'' \<longrightarrow> counted c) (pcols r))"
| "values_ok env r _ = True"

text \<open>Columns that fit their fields.\<close>

definition pcols_ok :: "nat \<Rightarrow> pcol list \<Rightarrow> bool" where
  "pcols_ok n cols \<longleftrightarrow> list_all (\<lambda>(f, c). column_ok n (snd f) c) cols"

lemma pcols_ok_simps [simp]:
  "pcols_ok n []"
  "pcols_ok n ((f, c) # cols) \<longleftrightarrow> column_ok n (snd f) c \<and> pcols_ok n cols"
  "pcols_ok n (xs @ ys) \<longleftrightarrow> pcols_ok n xs \<and> pcols_ok n ys"
  by (simp_all add: pcols_ok_def)

lemma rec_ok_pcols:
  assumes "rec_ok fs r"
  shows "map fst (pcols r) = fs" "pcols_ok (tr_rows r) (pcols r)" "length (tr_columns r) = length fs" "tr_fields r = fs"
  using assms rec_ok_length [OF assms]
  by (auto simp: pcols_def pcols_ok_def rec_ok_def list_all2_conv_all_nth list_all_length)

lemma pcols_rec_ok: "pcols_ok n cols \<Longrightarrow> rec_ok (map fst cols) \<lparr>tr_fields = map fst cols, tr_columns = map snd cols, tr_rows = n\<rparr>"
  by (auto simp: rec_ok_def pcols_ok_def list_all2_conv_all_nth list_all_length case_prod_beta)

lemma first_match_find:
  assumes "\<And>name. MatchColumn (pe_str env) (pe_regex env) e name = Some (name = c)" "pcols_ok n cols"
  shows "\<exists>out. first_match env e cols = Inr out \<and> pcols_ok n out \<and>
    map fst out = (case find (\<lambda>f. fst f = c) (map fst cols) of None \<Rightarrow> [] | Some f \<Rightarrow> [f])"
  using assms(2) by (induction cols) (auto simp: assms(1) some_or_panic_def)

lemma all_matches_filter:
  assumes "pcols_ok n cols"
  shows "\<exists>out. all_matches env (DynamicColumn c) cols = Inr out \<and> pcols_ok n out \<and>
    map fst out = filter (\<lambda>f. prefix (c @ ''.'') (fst f)) (map fst cols)"
  using assms by (induction cols) (auto simp: some_or_panic_def)

lemma override_length [simp]: "length (override_values cs vs) = length vs"
  by (induction cs vs rule: override_values.induct) auto

lemma bool_column_ok: "length vs = n \<Longrightarrow> column_ok n T_Boolean (bool_column vs)"
  by (auto simp: bool_column_def column_ok_def column_cells_def list_all_iff Column_Builder.cell_ok_def)

lemma evaluate_binary_ok:
  assumes "evaluates env b r" "\<And>c. partial = Some c \<Longrightarrow> column_DataType c = T_Boolean"
  shows "\<exists>c. evaluate_binary env b r partial = Inr c \<and> column_ok (tr_rows r) T_Boolean c"
  using assms by (auto simp: evaluate_binary_def evaluates_def filter_result_def Let_def bool_column_ok split: sum.splits option.splits)

lemma binary_Project_ok:
  assumes "rec_ok fs r" "binary_field env b fs = Some name" "evaluates env b r"
  shows "\<exists>c. binary_Project env b r = Inr [((name, T_Boolean), c)] \<and> column_ok (tr_rows r) T_Boolean c"
proof -
  have name: "BoolExpr_String (pe_str env) b = Some name" and bool: "list_all (\<lambda>f. fst f = name \<longrightarrow> snd f = T_Boolean) fs"
    using assms(2) by (auto simp: binary_field_def split: option.splits if_splits)
  show ?thesis
  proof (cases "find (\<lambda>(f, c). fst f = name) (pcols r)")
    case None
    then show ?thesis using evaluate_binary_ok [OF assms(3), of None]
      by (auto simp: binary_Project_def name some_or_panic_def)
  next
    case (Some fc)
    obtain f c where fc: "fc = (f, c)" by (cases fc)
    then have "(f, c) \<in> set (pcols r)" "fst f = name" using Some by (auto simp: find_Some_iff) (metis nth_mem)
    then have "column_ok (tr_rows r) T_Boolean c"
      using rec_ok_pcols(1,2) [OF assms(1)] bool by (force simp: pcols_ok_def list_all_iff)
    moreover from this have "column_DataType c = T_Boolean" by (simp add: column_ok_def)
    ultimately show ?thesis
      using Some fc evaluate_binary_ok [OF assms(3), of "if NullN c < column_Len c then Some c else None"]
      by (auto simp: binary_Project_def name some_or_panic_def split: if_splits)
  qed
qed

lemma alias_Project_ok:
  assumes "rec_ok fs r" "alias_fields env e alias fs = Some fs'" "values_ok env r (aliasProjection e alias)"
  shows "\<exists>out. alias_Project env e alias r = Inr out \<and> map fst out = fs' \<and> pcols_ok (tr_rows r) out"
proof (cases e)
  case (BinaryExpr l op x)
  then obtain b n name where b: "booleanExpr (pe_regex_ok env) e = Inr b" "Name (pe_str env) e = Some n"
      "binary_field env b fs = Some name" "fs' = [(if n = name then alias else name, T_Boolean)]"
    using assms(2) by (auto simp: alias_fields_def split: sum.splits option.splits)
  then have "evaluates env b r" using assms(3) BinaryExpr by simp
  then obtain c where c: "binary_Project env b r = Inr [((name, T_Boolean), c)]" "column_ok (tr_rows r) T_Boolean c"
    using binary_Project_ok [OF assms(1) b(3)] by blast
  have m: "MatchColumn (pe_str env) (pe_regex env) e name = Some (n = name)" using b(2) BinaryExpr by simp
  have "alias_Project env e alias r = rename_fields env e alias [((name, T_Boolean), c)]"
    using BinaryExpr b(1) c(1) by (simp add: filter_result_def)
  also have "\<dots> = Inr [((if n = name then alias else name, T_Boolean), c)]" using m by (simp add: some_or_panic_def)
  finally show ?thesis using b(4) c(2) by simp
next
  case (Column c)
  obtain out where out: "first_match env (AliasExpr (Column c) alias) (pcols r) = Inr out" "pcols_ok (tr_rows r) out"
      "map fst out = (case find (\<lambda>f. fst f = alias) fs of None \<Rightarrow> [] | Some f \<Rightarrow> [f])"
    using first_match_find [of env "AliasExpr (Column c) alias" "alias" "tr_rows r" "pcols r"] rec_ok_pcols(1,2) [OF assms(1)] by auto
  have "map fst (map (\<lambda>(f, col). ((alias, snd f), col)) out) = map (\<lambda>f. (alias, snd f)) (map fst out)"
    by (simp add: case_prod_beta)
  also have "\<dots> = fs'" using assms(2) Column out(3) by (auto simp: alias_fields_def split: option.splits)
  finally have "map fst (map (\<lambda>(f, col). ((alias, snd f), col)) out) = fs'" .
  moreover have "pcols_ok (tr_rows r) (map (\<lambda>(f, col). ((alias, snd f), col)) out)"
    using out(2) by (auto simp: pcols_ok_def list_all_iff)
  ultimately show ?thesis using Column out(1) by simp
qed (use assms(2) in \<open>simp_all add: alias_fields_def\<close>)

text \<open>The one index of a unique field.\<close>

lemma unique_FieldIndices:
  assumes "unique_field name (tr_fields r) = Some ty"
  obtains k where "FieldIndices name r = [k]" "k < length (tr_fields r)" "tr_fields r ! k = (name, ty)"
    "\<forall>i < length (tr_fields r). (fst (tr_fields r ! i) = name) = (i = k)"
proof -
  obtain f where f: "filter (\<lambda>f. fst f = name) (tr_fields r) = [f]" "snd f = ty"
    using assms by (auto simp: unique_field_def split: list.splits)
  have "map ((!) (tr_fields r)) (FieldIndices name r) = filter (\<lambda>f. fst f = name) (map ((!) (tr_fields r)) [0..<length (tr_fields r)])"
    by (simp add: FieldIndices_def filter_map comp_def)
  also have "\<dots> = [f]" using f(1) by (simp add: map_nth)
  finally obtain k where k: "FieldIndices name r = [k]" "tr_fields r ! k = f" by auto
  have iff: "i < length (tr_fields r) \<and> fst (tr_fields r ! i) = name \<longleftrightarrow> i = k" for i
    using arg_cong [OF k(1), of set] by (auto simp: FieldIndices_def)
  show thesis
  proof (rule that)
    show "tr_fields r ! k = (name, ty)" using k(2) f iff [of k] by (cases f) simp
  qed (use k(1) iff in auto)
qed

lemma go_div_list: "list_all (\<lambda>v. v \<noteq> 0) ns \<Longrightarrow> \<exists>qs. those (map2 go_div ss ns) = Some qs \<and> length qs = min (length ss) (length ns)"
proof (induction ss arbitrary: ns)
  case (Cons s ss)
  show ?case
  proof (cases ns)
    case (Cons n ns')
    then have "n \<noteq> 0" "list_all (\<lambda>v. v \<noteq> 0) ns'" using Cons.prems by auto
    then show ?thesis using Cons.IH [of ns'] Cons by (auto simp: go_div_def)
  qed simp
qed simp

lemma average_cells_ok:
  assumes "column_ok n ty sums" "column_ok n T_Int64 counts" "ty \<in> {T_Int64, T_OtherType}" "counted counts"
  shows "\<exists>c. average_cells env sums counts = Inr c \<and> column_ok n ty c"
proof -
  have len: "length (column_cells sums) = n" "length (column_cells counts) = n"
    and ty: "column_DataType sums = ty" "column_DataType counts = T_Int64"
    using assms by (auto simp: column_ok_def)
  obtain qs where qs: "those (map2 go_div (Int64Values (column_cells sums)) (Int64Values (column_cells counts))) = Some qs" "length qs = n"
    using go_div_list [of "Int64Values (column_cells counts)" "Int64Values (column_cells sums)"] assms(4) len
    by (auto simp: counted_def Int64Values_def)
  show ?thesis
    using assms(3) len ty qs
    by (auto simp: average_cells_def avgInt64arrays_def avgFloat64arrays_def some_or_panic_def column_ok_def column_cells_def
        list_all_iff Column_Builder.cell_ok_def Float64Values_def Int64Values_def in_set_zip)
qed

lemma kept_fields:
  assumes "\<And>i. i < length xs \<Longrightarrow> P i \<longleftrightarrow> Q (xs ! i)"
  shows "map ((!) xs) (filter P [0..<length xs]) = filter Q xs"
proof -
  have "filter P [0..<length xs] = filter (Q \<circ> (!) xs) [0..<length xs]"
    using assms by (intro filter_cong) auto
  moreover have "map ((!) xs) (filter (Q \<circ> (!) xs) [0..<length xs]) = filter Q (map ((!) xs) [0..<length xs])"
    by (rule filter_map [symmetric])
  ultimately show ?thesis by (simp only: map_nth)
qed

lemma pcols_nth: "rec_ok fs r \<Longrightarrow> i < length fs \<Longrightarrow> pcols r ! i = (fs ! i, tr_columns r ! i)"
  using rec_ok_pcols(3,4) [of fs r] by (simp add: pcols_def)

text \<open>The average, with the columns of its sum and its count.\<close>

lemma average_Project_eq:
  assumes r: "rec_ok fs r" and names: "average_names env e = Some (n, res)"
    and s: "unique_field (''sum('' @ n @ '')'') fs = Some ty" and c: "unique_field (''count('' @ n @ '')'') fs = Some T_Int64"
  obtains sums counts where "((''sum('' @ n @ '')'', ty), sums) \<in> set (pcols r)" "((''count('' @ n @ '')'', T_Int64), counts) \<in> set (pcols r)"
    "average_Project env e r = bind_result (average_cells env sums counts) (\<lambda>avg.
       Inr (filter (\<lambda>x. fst (fst x) \<notin> {''sum('' @ n @ '')'', ''count('' @ n @ '')''}) (pcols r) @ [((res, column_DataType avg), avg)]))"
proof -
  note fs = rec_ok_pcols(3,4) [OF r]
  obtain i where i: "FieldIndices (''sum('' @ n @ '')'') r = [i]" "i < length fs" "fs ! i = (''sum('' @ n @ '')'', ty)"
      "\<forall>k < length fs. (fst (fs ! k) = ''sum('' @ n @ '')'') = (k = i)"
    using unique_FieldIndices [where r = r, unfolded fs(2), OF s] .
  obtain j where j: "FieldIndices (''count('' @ n @ '')'') r = [j]" "j < length fs" "fs ! j = (''count('' @ n @ '')'', T_Int64)"
      "\<forall>k < length fs. (fst (fs ! k) = ''count('' @ n @ '')'') = (k = j)"
    using unique_FieldIndices [where r = r, unfolded fs(2), OF c] .
  have len: "length (pcols r) = length fs" using fs by (simp add: pcols_def)
  have "map ((!) (pcols r)) (filter (\<lambda>k. k \<noteq> i \<and> k \<noteq> j) [0..<length (pcols r)]) =
      filter (\<lambda>x. fst (fst x) \<notin> {''sum('' @ n @ '')'', ''count('' @ n @ '')''}) (pcols r)"
    by (rule kept_fields) (use i(4) j(4) pcols_nth [OF r] len in auto)
  then have "average_Project env e r = bind_result (average_cells env (tr_columns r ! i) (tr_columns r ! j)) (\<lambda>avg.
       Inr (filter (\<lambda>x. fst (fst x) \<notin> {''sum('' @ n @ '')'', ''count('' @ n @ '')''}) (pcols r) @ [((res, column_DataType avg), avg)]))"
    using i(1) j(1) len fs by (simp add: average_Project_def names some_or_panic_def)
  moreover have mem: "(fs ! k, tr_columns r ! k) \<in> set (pcols r)" if "k < length fs" for k
    using that len pcols_nth [OF r that] by (metis nth_mem)
  ultimately show thesis by (intro that [OF mem [OF i(2), unfolded i(3)] mem [OF j(2), unfolded j(3)]])
qed

lemma average_Project_ok:
  assumes r: "rec_ok fs r" and "average_fields env e fs = Some fs'" "values_ok env r (averageProjection e)"
  shows "\<exists>out. average_Project env e r = Inr out \<and> map fst out = fs' \<and> pcols_ok (tr_rows r) out"
proof -
  note fs = rec_ok_pcols [OF r]
  obtain n res ty where d: "average_names env e = Some (n, res)" "unique_field (''sum('' @ n @ '')'') fs = Some ty"
      "unique_field (''count('' @ n @ '')'') fs = Some T_Int64" "ty \<in> {T_Int64, T_OtherType}"
      "fs' = filter (\<lambda>f. fst f \<notin> {''sum('' @ n @ '')'', ''count('' @ n @ '')''}) fs @ [(res, ty)]"
    using assms(2) by (auto simp: average_fields_def split: option.splits arrow_type.splits if_splits)
  obtain sums counts where e: "((''sum('' @ n @ '')'', ty), sums) \<in> set (pcols r)" "((''count('' @ n @ '')'', T_Int64), counts) \<in> set (pcols r)"
    "average_Project env e r = bind_result (average_cells env sums counts) (\<lambda>avg.
       Inr (filter (\<lambda>x. fst (fst x) \<notin> {''sum('' @ n @ '')'', ''count('' @ n @ '')''}) (pcols r) @ [((res, column_DataType avg), avg)]))"
    using average_Project_eq [OF r d(1-3)] .
  have "column_ok (tr_rows r) ty sums" "column_ok (tr_rows r) T_Int64 counts" "counted counts"
    using e(1,2) fs(2) assms(3) d(1) by (force simp: pcols_ok_def list_all_iff)+
  then obtain avg where avg: "average_cells env sums counts = Inr avg" "column_ok (tr_rows r) ty avg"
    using average_cells_ok d(4) by blast
  let ?P = "\<lambda>f. fst f \<notin> {''sum('' @ n @ '')'', ''count('' @ n @ '')''}"
  have "map fst (filter (\<lambda>x. ?P (fst x)) (pcols r)) = filter ?P (map fst (pcols r))"
    by (simp add: filter_map comp_def)
  moreover have "pcols_ok (tr_rows r) (filter (\<lambda>x. ?P (fst x)) (pcols r))" using fs(2) by (auto simp: pcols_ok_def list_all_iff)
  moreover have "column_DataType avg = ty" using avg(2) by (simp add: column_ok_def)
  ultimately show ?thesis using e(3) avg d(5) fs(1) by simp
qed

lemma Project_column_ok:
  assumes "rec_ok fs r" "projection_fields env fs p = Some fs'" "values_ok env r p"
  shows "\<exists>out. Project_column env p r = Inr out \<and> map fst out = fs' \<and> pcols_ok (tr_rows r) out"
proof (cases p)
  case (aliasProjection e name)
  then show ?thesis using assms alias_Project_ok by auto
next
  case (binaryExprProjection b)
  then show ?thesis using assms binary_Project_ok [OF assms(1)] by fastforce
next
  case (plainProjection c)
  then show ?thesis using assms(2) first_match_find [of env "Column c" c "tr_rows r" "pcols r"] rec_ok_pcols(1,2) [OF assms(1)] by auto
next
  case (dynamicProjection c)
  then show ?thesis using assms(2) all_matches_filter [of "tr_rows r" "pcols r" env c] rec_ok_pcols(1,2) [OF assms(1)] by auto
next
  case (averageProjection e)
  then show ?thesis using assms average_Project_ok by auto
next
  case allProjection
  then show ?thesis using assms(2) rec_ok_pcols(1,2) [OF assms(1)] by simp
qed

lemma project_columns_ok:
  assumes "rec_ok fs r" "those (map (projection_fields env fs) ps) = Some fss" "list_all (values_ok env r) ps"
  shows "\<exists>out. project_columns env ps r = Inr out \<and> map fst out = concat fss \<and> pcols_ok (tr_rows r) out"
  using assms(2,3)
proof (induction ps arbitrary: fss)
  case (Cons p ps)
  then obtain fs' fss' where fs': "projection_fields env fs p = Some fs'" "those (map (projection_fields env fs) ps) = Some fss'" "fss = fs' # fss'"
    by (auto split: option.splits)
  then show ?case using Cons Project_column_ok [OF assms(1) fs'(1)] by fastforce
qed simp

text \<open>C38: Projections are typed by the fields of their input. If every projection has a type for the
  fields of a well-formed record, its boolean expressions can be evaluated and the counts of its averages are
  not zero, then the operator does not panic or fail, and the record it passes on is well-formed, has exactly the
  fields of the projections in order and, unless there are none, the rows of its input.\<close>

theorem projection_well_typed:
  assumes "rec_ok fs r" "those (map (projection_fields env fs) ps) = Some fss" "list_all (values_ok env r) ps"
  shows "\<exists>r'. project_Callback env ps r = Inr r' \<and> rec_ok (concat fss) r' \<and>
    tr_rows r' = (if concat fss = [] then 0 else tr_rows r)"
proof -
  obtain out where out: "project_columns env ps r = Inr out" "map fst out = concat fss" "pcols_ok (tr_rows r) out"
    using project_columns_ok [OF assms] by blast
  let ?n = "if concat fss = [] then 0 else tr_rows r"
  have empty: "concat fss = [] \<longleftrightarrow> out = []" using out(2) by (metis map_is_Nil_conv)
  have n: "(case out of [] \<Rightarrow> 0 | x # _ \<Rightarrow> column_Len (snd x)) = ?n"
    using out(3) unfolding empty by (cases out) (auto simp: column_ok_def)
  have "list_all (\<lambda>(f, c). ?n \<le> column_Len c \<and> snd f = column_DataType c) out"
    using out(3) by (auto simp: pcols_ok_def list_all_iff column_ok_def)
  moreover have "pcols_ok ?n out" using out(3) unfolding empty by auto
  ultimately show ?thesis
    using out n pcols_rec_ok [of ?n out] by (auto simp: project_Callback_def Let_def)
qed

section \<open>Examples\<close>

definition plain_env :: proj_env where
  "plain_env = \<lparr>pe_str = (\<lambda>v. case v of S_String s \<Rightarrow> s | S_Int64 _ \<Rightarrow> ''1'' | _ \<Rightarrow> []), pe_regex = (\<lambda>_ _. False),
     pe_regex_ok = (\<lambda>_. True), pe_float_div = (\<lambda>s n. s)\<rparr>"

definition int_column :: "int list \<Rightarrow> column" where
  "int_column vs = Physical \<lparr>arr_type = T_Int64, arr_cells = map (\<lambda>v. Some (C_Int v)) vs\<rparr>"

definition averaged :: table_rec where
  "averaged = \<lparr>tr_fields = [(''k'', T_Int64), (''sum(v)'', T_Int64), (''count(v)'', T_Int64)],
     tr_columns = [int_column [1, 2], int_column [7, -7], int_column [2, 2]], tr_rows = 2\<rparr>"

definition average_and_test :: "columnProjection list" where
  "average_and_test = [averageProjection (Column ''v''), binaryExprProjection (BinaryScalarExpr ''k'' OpEq (Some (S_Int64 1)))]"

lemmas eval_defs = BinaryScalarExpr_Eval_def ArrowArray_def BinaryScalarOperation_def arrow_view_def pcols_def column_array_def

lemma test_evaluates: "evaluates plain_env (BinaryScalarExpr ''k'' op (Some (S_Int64 v))) averaged \<longleftrightarrow> op \<in> {OpEq, OpNotEq, OpLt, OpLtEq, OpGt, OpGtEq}"
  by (cases op) (simp_all add: evaluates_def averaged_def int_column_def eval_defs)

theorem projection_well_typed_witness:
  "\<exists>r'. project_Callback plain_env average_and_test averaged = Inr r' \<and>
    rec_ok [(''k'', T_Int64), (''avg(v)'', T_Int64), (''k == 1'', T_Boolean)] r' \<and> tr_rows r' = 2"
proof -
  have "rec_ok (tr_fields averaged) averaged" "tr_rows averaged = 2"
    "those (map (projection_fields plain_env (tr_fields averaged)) average_and_test) =
       Some [[(''k'', T_Int64), (''avg(v)'', T_Int64)], [(''k == 1'', T_Boolean)]]"
    by code_simp+
  moreover have "values_ok plain_env averaged (averageProjection (Column ''v''))" by code_simp
  then have "list_all (values_ok plain_env averaged) average_and_test"
    by (simp add: average_and_test_def test_evaluates)
  ultimately show ?thesis
    using projection_well_typed [of "tr_fields averaged" averaged plain_env average_and_test] by simp
qed

text \<open>Averages are truncated towards zero.\<close>

lemma average_truncates:
  "map_sum id rec_rows_of (project_Callback plain_env [averageProjection (Column ''v'')] averaged) =
     Inr [[Some (C_Int 1), Some (C_Int 3)], [Some (C_Int 2), Some (C_Int (- 3))]]"
  by code_simp

text \<open>A column under an alias is looked up by the alias, so it is not found and the record has no columns.\<close>

lemma aliased_column_lost:
  "project_Callback plain_env [aliasProjection (Column ''k'') ''key''] averaged =
     Inr \<lparr>tr_fields = [], tr_columns = [], tr_rows = 0\<rparr>"
  by code_simp

text \<open>The name of a conjunction differs from the one the alias is compared with, and the alias is lost.\<close>

lemma aliased_conjunction_keeps_name:
  "map_sum id tr_fields (project_Callback plain_env
     [aliasProjection (BinaryExpr (BinaryExpr (Column ''k'') OpEq (LiteralExpr (S_Int64 1))) OpAnd
        (BinaryExpr (Column ''k'') OpGt (LiteralExpr (S_Int64 1)))) ''both''] averaged) =
   Inr [(''(k == 1 AND k > 1)'', T_Boolean)]"
proof -
  let ?e = "BinaryExpr (BinaryExpr (Column ''k'') OpEq (LiteralExpr (S_Int64 1))) OpAnd (BinaryExpr (Column ''k'') OpGt (LiteralExpr (S_Int64 1)))"
  let ?b = "AndExpr (BinaryScalarExpr ''k'' OpEq (Some (S_Int64 1))) (BinaryScalarExpr ''k'' OpGt (Some (S_Int64 1)))"
  have "booleanExpr (pe_regex_ok plain_env) ?e = Inr ?b" "rec_ok (tr_fields averaged) averaged"
    "alias_fields plain_env ?e ''both'' (tr_fields averaged) = Some [(''(k == 1 AND k > 1)'', T_Boolean)]" by code_simp+
  moreover have "evaluates plain_env ?b averaged"
    by (simp add: evaluates_def averaged_def int_column_def eval_defs)
  ultimately obtain out where "alias_Project plain_env ?e ''both'' averaged = Inr out"
      "map fst out = [(''(k == 1 AND k > 1)'', T_Boolean)]" "pcols_ok (tr_rows averaged) out"
    using alias_Project_ok [of "tr_fields averaged" averaged plain_env ?e "''both''"] by auto
  then show ?thesis by (auto simp: project_Callback_def column_ok_def)
qed

end
