(* ===== verification/Physical_Plan.thy ===== *)
theory Physical_Plan
  imports Distinct_Op Project_Op
begin

text \<open>
  What the planner knows of the order of an operator's input (\<open>query/physicalplan/planordering.go\<close>) and
  when it plans an ordered aggregation (\<open>query/physicalplan/physicalplan.go\<close>).
\<close>

section \<open>The order of the input\<close>

datatype planOrderingInfoState = StateInit | StateNewNode | StateMaintained | StateInvalidated

record planOrderingInfo =
  oi_state :: planOrderingInfoState
  sortingCols :: "ColumnDefinition list"
  filterCoverIdx :: nat

definition newNode :: "planOrderingInfo \<Rightarrow> planOrderingInfo" where
  "newNode i = i\<lparr>oi_state := (if oi_state i = StateNewNode then StateInvalidated else StateNewNode)\<rparr>"

definition nodeMaintainsOrdering :: "planOrderingInfo \<Rightarrow> planOrderingInfo" where
  "nodeMaintainsOrdering i = (if oi_state i = StateNewNode then i\<lparr>oi_state := StateMaintained\<rparr> else i)"

definition orderingMaintained :: "planOrderingInfo \<Rightarrow> bool" where
  "orderingMaintained i \<longleftrightarrow> oi_state i \<noteq> StateInvalidated"

text \<open>The columns that a comparison for equality has on its left side.\<close>

definition preExprVisitor :: "(Expr \<Rightarrow> 's \<Rightarrow> bool \<times> 's) \<Rightarrow> 's Visitor" where
  "preExprVisitor f = \<lparr>PreVisit = f, Visit = (\<lambda>_ s. (True, s)), PostVisit = (\<lambda>_ s. (True, s))\<rparr>"

fun see_equality :: "Expr \<Rightarrow> string list \<Rightarrow> bool \<times> string list" where
  "see_equality (BinaryExpr (Column c) OpEq r) cols = (True, c # cols)"
| "see_equality _ cols = (True, cols)"

definition equalityColumns :: "Expr \<Rightarrow> string list" where
  "equalityColumns e = snd (Accept (preExprVisitor see_equality) e [])"

text \<open>The loop over the sorting columns counts up from where an earlier filter left off.\<close>

fun count_covered :: "string list \<Rightarrow> ColumnDefinition list \<Rightarrow> nat" where
  "count_covered eqs [] = 0"
| "count_covered eqs (col # cols) =
     (if cd_Dynamic col \<or> cd_Name col \<notin> set eqs then 0 else Suc (count_covered eqs cols))"

definition applyFilter :: "Expr \<Rightarrow> planOrderingInfo \<Rightarrow> planOrderingInfo" where
  "applyFilter expr i =
     (if oi_state i = StateInvalidated then i
      else i\<lparr>filterCoverIdx := filterCoverIdx i + count_covered (equalityColumns expr) (sortingCols i)\<rparr>)"

text \<open>A slice from past the end panics.\<close>

definition getNonCoveringOrdering :: "planOrderingInfo \<Rightarrow> ColumnDefinition list option" where
  "getNonCoveringOrdering i =
     (if length (sortingCols i) < filterCoverIdx i then None else Some (drop (filterCoverIdx i) (sortingCols i)))"

section \<open>Ordered aggregations\<close>

datatype plan_error = PE_Panic | PE_GroupColumns "Expr list" | PE_Aggregate agg_error | PE_Filter filter_error | PE_Project proj_error

text \<open>The loop over the group by expressions; without a group column the first one is missing and it panics.\<close>

fun match_ordering :: "agg_env \<Rightarrow> Expr list \<Rightarrow> ColumnDefinition list \<Rightarrow> (plan_error, bool) result" where
  "match_ordering env [] cols = Inr True"
| "match_ordering env (expr # exprs) cols =
     (let groupCols = ColumnsUsedExprs expr
      in if 1 < length groupCols then Inl (PE_GroupColumns groupCols)
         else case cols of
                [] \<Rightarrow> Inr False
              | orderCol # cols' \<Rightarrow>
                  (case groupCols of
                     [] \<Rightarrow> Inl PE_Panic
                   | c # _ \<Rightarrow>
                       (case matches env c (if cd_Dynamic orderCol then cd_Name orderCol @ ''.'' else cd_Name orderCol) of
                          None \<Rightarrow> Inl PE_Panic
                        | Some False \<Rightarrow> Inr False
                        | Some True \<Rightarrow> match_ordering env exprs cols')))"

definition shouldPlanOrderedAggregate :: "agg_env \<Rightarrow> bool \<Rightarrow> planOrderingInfo \<Rightarrow> Aggregation \<Rightarrow> (plan_error, bool) result" where
  "shouldPlanOrderedAggregate env orderedAggregations oInfo agg =
     (if \<not> orderedAggregations then Inr False
      else if 1 < length (ag_AggExprs agg) then Inr False
      else if \<not> orderingMaintained oInfo then Inr False
      else case getNonCoveringOrdering oInfo of
             None \<Rightarrow> Inl PE_Panic
           | Some cols \<Rightarrow> match_ordering env (ag_GroupExprs agg) cols)"

section \<open>Covered columns are constant\<close>

text \<open>Conjunctions of comparisons of a column with a literal.\<close>

fun conjunctive :: "Expr \<Rightarrow> bool" where
  "conjunctive (BinaryExpr l op r) \<longleftrightarrow>
     (if op = OpAnd then conjunctive l \<and> conjunctive r
      else op \<noteq> OpOr \<and> is_Column l \<and> is_LiteralExpr r)"
| "conjunctive _ \<longleftrightarrow> False"

fun required :: "Expr \<Rightarrow> string set" where
  "required (BinaryExpr l op r) =
     (if op = OpAnd then required l \<union> required r
      else case (op, l) of (OpEq, Column c) \<Rightarrow> {c} | _ \<Rightarrow> {})"
| "required _ = {}"

lemma accept_leaf:
  "is_Column e \<or> is_LiteralExpr e \<Longrightarrow> Accept (preExprVisitor see_equality) e cols = (True, cols)"
  by (cases e) (auto simp: preExprVisitor_def continu_def)

lemma accept_equality:
  "conjunctive e \<Longrightarrow> fst (Accept (preExprVisitor see_equality) e cols) \<and>
     set (snd (Accept (preExprVisitor see_equality) e cols)) = set cols \<union> required e"
proof (induction e arbitrary: cols)
  case (BinaryExpr l op r)
  show ?case
  proof (cases "op = OpAnd")
    case True
    then have "see_equality (BinaryExpr l op r) cols = (True, cols)" by (cases l) auto
    moreover have "conjunctive l" "conjunctive r" using BinaryExpr.prems True by auto
    ultimately show ?thesis
      using BinaryExpr.IH(1) [of cols] BinaryExpr.IH(2) [of "snd (Accept (preExprVisitor see_equality) l cols)"] True
      by (auto simp: preExprVisitor_def continu_def)
  next
    case False
    then have lr: "is_Column l" "is_LiteralExpr r" using BinaryExpr.prems by (auto split: if_splits)
    then obtain c where c: "l = Column c" by (cases l) auto
    have "snd (see_equality (BinaryExpr l op r) cols) = (if op = OpEq then c # cols else cols)" "fst (see_equality (BinaryExpr l op r) cols)"
      using c by (cases op; simp)+
    then show ?thesis
      using False accept_leaf [of l] accept_leaf [of r] lr c
      by (cases op) (auto simp: preExprVisitor_def continu_def)
  qed
qed auto

lemma equalityColumns_required: "conjunctive e \<Longrightarrow> set (equalityColumns e) = required e"
  using accept_equality [of e "[]"] by (simp add: equalityColumns_def)

lemma equal_cells_determined:
  "cell_matches ty OpEq right x \<Longrightarrow> cell_matches ty OpEq right y \<Longrightarrow> x = y"
  by (cases x; cases y) (auto simp: cell_matches_def split: if_splits)

lemma required_constant:
  assumes "conjunctive e" "booleanExpr rx_ok e = Inr b" "c \<in> required e" "ArrowArray c r = Some a"
    and "row_holds rx b r i" "row_holds rx b r j"
  shows "arr_cells a ! i = arr_cells a ! j"
  using assms(1-3,5,6)
proof (induction e arbitrary: b)
  case (BinaryExpr l op q)
  show ?case
  proof (cases "op = OpAnd")
    case True
    then obtain b1 b2 where b: "booleanExpr rx_ok l = Inr b1" "booleanExpr rx_ok q = Inr b2" "b = AndExpr b1 b2"
      using BinaryExpr.prems(2) by auto
    then show ?thesis using BinaryExpr True by auto
  next
    case False
    then have "op = OpEq" "l = Column c" using BinaryExpr.prems(3) by (auto split: Op.splits Expr.splits)
    moreover have "left_column (Column c) = Some c" by (simp add: left_column_def PreExprVisitorFunc_def continu_def)
    ultimately have "b = BinaryScalarExpr c OpEq (right_literal q)"
      using BinaryExpr.prems(2) by (simp add: compile_comparison_def)
    then show ?thesis
      using BinaryExpr.prems(4,5) assms(4) equal_cells_determined by auto
  qed
qed auto

lemma count_covered_nth:
  "k < count_covered eqs cols \<Longrightarrow> k < length cols \<and> cd_Name (cols ! k) \<in> set eqs \<and> \<not> cd_Dynamic (cols ! k)"
  by (induction eqs cols arbitrary: k rule: count_covered.induct) (auto simp: nth_Cons split: if_splits nat.splits)

lemma count_covered_le: "count_covered eqs cols \<le> length cols"
  by (induction eqs cols rule: count_covered.induct) auto

definition order_name :: "ColumnDefinition \<Rightarrow> string" where
  "order_name col = (if cd_Dynamic col then cd_Name col @ ''.'' else cd_Name col)"

lemma match_ordering_True:
  "match_ordering env exprs cols = Inr True \<Longrightarrow> length exprs \<le> length cols \<and>
     (\<forall>k < length exprs. \<exists>c. ColumnsUsedExprs (exprs ! k) = [c] \<and> matches env c (order_name (cols ! k)) = Some True)"
proof (induction exprs arbitrary: cols)
  case (Cons expr exprs)
  obtain col cols' c where "cols = col # cols'" "ColumnsUsedExprs expr = [c]" "matches env c (order_name col) = Some True"
      "match_ordering env exprs cols' = Inr True"
    using Cons.prems by (auto simp: Let_def order_name_def split: if_splits list.splits option.splits bool.splits)
  then show ?case using Cons.IH by (auto simp: nth_Cons split: nat.splits)
qed simp

text \<open>C37: After one filter that is a conjunction of comparisons, an ordered aggregation is planned
  only if the sorting columns start with columns in which all rows that pass the filter have the same
  value, followed by one sorting column for every group by expression in order.
\<close>

theorem ordered_aggregate_justified:
  assumes "conjunctive e" "booleanExpr rx_ok e = Inr b"
    and "shouldPlanOrderedAggregate env True (applyFilter e \<lparr>oi_state = StateNewNode, sortingCols = cols, filterCoverIdx = 0\<rparr>) agg = Inr True"
  shows "\<exists>n. n + length (ag_GroupExprs agg) \<le> length cols \<and>
    (\<forall>k < n. \<forall>r a i j. ArrowArray (cd_Name (cols ! k)) r = Some a \<and> row_holds rx b r i \<and> row_holds rx b r j \<longrightarrow>
       arr_cells a ! i = arr_cells a ! j) \<and>
    (\<forall>k < length (ag_GroupExprs agg). \<exists>c. ColumnsUsedExprs (ag_GroupExprs agg ! k) = [c] \<and>
       matches env c (order_name (cols ! (n + k))) = Some True)"
proof -
  let ?n = "count_covered (equalityColumns e) cols"
  have m: "match_ordering env (ag_GroupExprs agg) (drop ?n cols) = Inr True"
    using assms(3) by (auto simp: shouldPlanOrderedAggregate_def applyFilter_def getNonCoveringOrdering_def split: if_splits)
  have const: "arr_cells a ! i = arr_cells a ! j"
    if "k < ?n" "ArrowArray (cd_Name (cols ! k)) r = Some a" "row_holds rx b r i" "row_holds rx b r j" for k r a i j
    using that count_covered_nth [OF that(1)] equalityColumns_required [OF assms(1)] required_constant [OF assms(1,2)] by blast
  show ?thesis
  proof (intro exI [of _ ?n] conjI allI impI)
    show "?n + length (ag_GroupExprs agg) \<le> length cols" using match_ordering_True [OF m] count_covered_le [of "equalityColumns e" cols] by auto
    show "\<exists>c. ColumnsUsedExprs (ag_GroupExprs agg ! k) = [c] \<and> matches env c (order_name (cols ! (?n + k))) = Some True"
      if "k < length (ag_GroupExprs agg)" for k
      using match_ordering_True [OF m] that count_covered_le [of "equalityColumns e" cols] by auto
  qed (use const in blast)
qed

definition sorted_cols :: "ColumnDefinition list" where
  "sorted_cols = [\<lparr>cd_Name = ''a'', cd_StorageLayout = P_Int64, cd_Dynamic = False, cd_PreHash = False\<rparr>,
     \<lparr>cd_Name = ''l'', cd_StorageLayout = P_String, cd_Dynamic = True, cd_PreHash = False\<rparr>]"

definition by_l :: Aggregation where
  "by_l = \<lparr>ag_AggExprs = [AggregationFunction AggFuncSum (Column ''v'')], ag_GroupExprs = [DynamicColumn ''l'']\<rparr>"

definition a_is_1 :: Expr where
  "a_is_1 = BinaryExpr (Column ''a'') OpEq (LiteralExpr (S_Int64 1))"

theorem ordered_aggregate_justified_witness:
  "\<exists>n. n + 1 \<le> length sorted_cols \<and>
    (\<forall>k < n. \<forall>r a i j. ArrowArray (cd_Name (sorted_cols ! k)) r = Some a \<and> row_holds (\<lambda>_ _. False) (BinaryScalarExpr ''a'' OpEq (Some (S_Int64 1))) r i \<and>
       row_holds (\<lambda>_ _. False) (BinaryScalarExpr ''a'' OpEq (Some (S_Int64 1))) r j \<longrightarrow> arr_cells a ! i = arr_cells a ! j) \<and>
    (\<forall>k < 1. \<exists>c. ColumnsUsedExprs (ag_GroupExprs by_l ! k) = [c] \<and> matches demo_env c (order_name (sorted_cols ! (n + k))) = Some True)"
proof -
  have "conjunctive a_is_1" "booleanExpr (\<lambda>_. True) a_is_1 = Inr (BinaryScalarExpr ''a'' OpEq (Some (S_Int64 1)))"
    "shouldPlanOrderedAggregate demo_env True (applyFilter a_is_1 \<lparr>oi_state = StateNewNode, sortingCols = sorted_cols, filterCoverIdx = 0\<rparr>) by_l = Inr True"
    "length (ag_GroupExprs by_l) = 1"
    by code_simp+
  then show ?thesis using ordered_aggregate_justified [of a_is_1 "\<lambda>_. True" _ demo_env sorted_cols by_l "\<lambda>_ _. False"] by simp
qed

text \<open>An equality below an \<open>OR\<close> counts as if it held for all rows.\<close>

lemma or_filter_covers:
  "filterCoverIdx (applyFilter (BinaryExpr a_is_1 OpOr (BinaryExpr (Column ''a'') OpEq (LiteralExpr (S_Int64 2))))
     \<lparr>oi_state = StateNewNode, sortingCols = sorted_cols, filterCoverIdx = 0\<rparr>) = 1"
  by code_simp

text \<open>A second filter counts the same columns again, up to a panic.\<close>

lemma second_filter_counts_again:
  "getNonCoveringOrdering (applyFilter a_is_1 (applyFilter a_is_1 \<lparr>oi_state = StateNewNode, sortingCols = sorted_cols, filterCoverIdx = 0\<rparr>)) = Some []"
  "getNonCoveringOrdering (applyFilter a_is_1 (applyFilter a_is_1 \<lparr>oi_state = StateNewNode, sortingCols = take 1 sorted_cols, filterCoverIdx = 0\<rparr>)) = None"
  by code_simp+

text \<open>
  An ordering that two nodes in a row have invalidated comes back with the next node: after a projection
  and a distinct, a filter makes it maintained.
\<close>

lemma invalid_ordering_revived:
  "oi_state (newNode (newNode (nodeMaintainsOrdering (newNode i)))) = StateInvalidated"
  "orderingMaintained (newNode (nodeMaintainsOrdering (newNode (newNode (newNode (nodeMaintainsOrdering (newNode i)))))))"
  if "oi_state i = StateInit"
  using that by (auto simp: newNode_def nodeMaintainsOrdering_def orderingMaintained_def)

end
