(* ===== verification/Plan_Build.thy ===== *)
theory Plan_Build
  imports Physical_Plan
begin

text \<open>
  The physical plan (\<open>query/physicalplan/physicalplan.go\<close>): \<open>Build\<close> walks over a logical plan from the
  scan upwards and links operators, one per parallel input and a synchronizer where the inputs have to meet.

  An operator is a node of a graph, numbered in the order of allocation; \<open>pg_next\<close> is the pointer that
  \<open>SetNext\<close> sets. All operators of a stage are made with the same arguments. The seed of the hashes and the
  diagram for tracing are left out; a scan without operators to draw is the nil pointer that makes the tracing panic.
\<close>

section \<open>Operators\<close>

datatype operator = noopOperator | Op_Override | Op_Projection "columnProjection list" | Op_Distinction Distinction
  | Op_PredicateFilter BooleanExpression | Op_Aggregate agg_plan
  | Op_Synchronizer nat | Op_OrderedSynchronizer nat "Expr list" | Op_Output

record 'p physical_scan =
  ps_isSchemaScan :: bool
  ps_options :: "'p scan"
  ps_plans :: "nat list"

record execOptions =
  eo_orderedAggregations :: bool
  eo_overrideInput :: "nat option"
  eo_skipSources :: bool

record 'p plan_graph =
  pg_nodes :: "operator list"
  pg_next :: "nat \<rightharpoonup> nat"
  pg_prev :: "nat list"
  pg_order :: planOrderingInfo
  pg_scan :: "'p physical_scan option"

definition alloc :: "operator \<Rightarrow> 'p plan_graph \<Rightarrow> nat \<times> 'p plan_graph" where
  "alloc op g = (length (pg_nodes g), g\<lparr>pg_nodes := pg_nodes g @ [op]\<rparr>)"

definition SetNext :: "nat \<Rightarrow> nat \<Rightarrow> 'p plan_graph \<Rightarrow> 'p plan_graph" where
  "SetNext a b g = g\<lparr>pg_next := (pg_next g)(a \<mapsto> b)\<rparr>"

section \<open>Nodes of the logical plan\<close>

text \<open>The operators that a scan pushes to.\<close>

definition scan_noops :: "nat \<Rightarrow> 'p plan_graph \<Rightarrow> nat list \<times> 'p plan_graph" where
  "scan_noops n g = ([length (pg_nodes g)..<length (pg_nodes g) + n], g\<lparr>pg_nodes := pg_nodes g @ replicate n noopOperator\<rparr>)"

definition visit_scan :: "nat \<Rightarrow> execOptions \<Rightarrow> bool \<Rightarrow> 'p scan \<Rightarrow> 'p plan_graph \<Rightarrow> 'p plan_graph" where
  "visit_scan n opts isSchemaScan sc g =
     (let (plans, g1) = scan_noops n g
      in g1\<lparr>pg_scan := Some \<lparr>ps_isSchemaScan = isSchemaScan, ps_options = sc\<lparr>sc_SkipSources := eo_skipSources opts\<rparr>, ps_plans = plans\<rparr>,
            pg_prev := plans\<rparr>)"

text \<open>The loops over \<open>prev\<close>: a new operator behind each of them, and behind that the synchronizer if there is one.\<close>

fun extend_each :: "(plan_error, operator) result \<Rightarrow> nat option \<Rightarrow> nat list \<Rightarrow> 'p plan_graph \<Rightarrow> (plan_error, nat list \<times> 'p plan_graph) result" where
  "extend_each mk sync [] g = Inr ([], g)"
| "extend_each mk sync (p # ps) g =
     bind_result mk (\<lambda>op.
       let (a, g1) = alloc op g;
           g2 = SetNext p a g1;
           g3 = (case sync of None \<Rightarrow> g2 | Some s \<Rightarrow> SetNext a s g2)
       in bind_result (extend_each mk sync ps g3) (\<lambda>(as, g'). Inr (a # as, g')))"

definition extend_prev :: "(plan_error, operator) result \<Rightarrow> 'p plan_graph \<Rightarrow> (plan_error, 'p plan_graph) result" where
  "extend_prev mk g = bind_result (extend_each mk None (pg_prev g) g) (\<lambda>(as, g'). Inr (g'\<lparr>pg_prev := as\<rparr>))"

text \<open>With several inputs their operators are synchronized and one more operator runs on the result.\<close>

definition extend_synced :: "operator \<Rightarrow> (plan_error, operator) result \<Rightarrow> (plan_error, operator) result \<Rightarrow> 'p plan_graph \<Rightarrow> (plan_error, 'p plan_graph) result" where
  "extend_synced sync each final g =
     (let (s, g1) = alloc sync g
      in bind_result (extend_each each (Some s) (pg_prev g) g1) (\<lambda>(as, g2).
         bind_result final (\<lambda>op.
           let (f, g3) = alloc op g2
           in Inr ((SetNext s f g3)\<lparr>pg_prev := [f]\<rparr>))))"

fun is_wildcard :: "agg_env \<Rightarrow> Expr list \<Rightarrow> bool option" where
  "is_wildcard env [] = Some False"
| "is_wildcard env (e # es) =
     (case Name (ae_str env) e of
        None \<Rightarrow> None
      | Some n \<Rightarrow> if n = ''all'' then Some True else is_wildcard env es)"

definition visit_projection :: "agg_env \<Rightarrow> proj_env \<Rightarrow> Expr list \<Rightarrow> 'p plan_graph \<Rightarrow> (plan_error, 'p plan_graph) result" where
  "visit_projection env penv exprs g =
     (case is_wildcard env exprs of
        None \<Rightarrow> Inl PE_Panic
      | Some True \<Rightarrow> Inr g
      | Some False \<Rightarrow>
          extend_prev (case Project penv exprs of Inl e \<Rightarrow> Inl (PE_Project e) | Inr ps \<Rightarrow> Inr (Op_Projection ps)) g)"

definition visit_distinct :: "Expr list \<Rightarrow> 'p plan_graph \<Rightarrow> (plan_error, 'p plan_graph) result" where
  "visit_distinct exprs g =
     (let d = Inr (Op_Distinction (Distinct exprs))
      in if 1 < length (pg_prev g) then extend_synced (Op_Synchronizer (length (pg_prev g))) d d g
         else extend_prev d g)"

definition visit_filter :: "(string \<Rightarrow> bool) \<Rightarrow> Expr \<Rightarrow> 'p plan_graph \<Rightarrow> (plan_error, 'p plan_graph) result" where
  "visit_filter rx_ok e g =
     bind_result (extend_prev (case booleanExpr rx_ok e of Inl x \<Rightarrow> Inl (PE_Filter x) | Inr b \<Rightarrow> Inr (Op_PredicateFilter b)) g) (\<lambda>g'.
       Inr (g'\<lparr>pg_order := nodeMaintainsOrdering (applyFilter e (pg_order g'))\<rparr>))"

text \<open>An error of \<open>shouldPlanOrderedAggregate\<close> is ignored, a panic is not.\<close>

definition plan_ordered :: "agg_env \<Rightarrow> execOptions \<Rightarrow> planOrderingInfo \<Rightarrow> Aggregation \<Rightarrow> (plan_error, bool) result" where
  "plan_ordered env opts oi agg =
     (case shouldPlanOrderedAggregate env (eo_orderedAggregations opts) oi agg of
        Inl PE_Panic \<Rightarrow> Inl PE_Panic
      | Inl _ \<Rightarrow> Inr False
      | Inr b \<Rightarrow> Inr b)"

definition agg_operator :: "agg_env \<Rightarrow> Aggregation \<Rightarrow> bool \<Rightarrow> bool \<Rightarrow> (plan_error, operator) result" where
  "agg_operator env agg final ordered =
     (case Aggregate env agg final ordered of Inl e \<Rightarrow> Inl (PE_Aggregate e) | Inr p \<Rightarrow> Inr (Op_Aggregate p))"

definition visit_aggregation :: "agg_env \<Rightarrow> execOptions \<Rightarrow> Aggregation \<Rightarrow> 'p plan_graph \<Rightarrow> (plan_error, 'p plan_graph) result" where
  "visit_aggregation env opts agg g =
     bind_result (plan_ordered env opts (pg_order g) agg) (\<lambda>ordered.
       let n = length (pg_prev g);
           sync = (if ordered \<and> 0 < length (ag_GroupExprs agg) then Op_OrderedSynchronizer n (ag_GroupExprs agg) else Op_Synchronizer n)
       in bind_result
            (if 1 < n then extend_synced sync (agg_operator env agg False ordered) (agg_operator env agg True ordered) g
             else extend_prev (agg_operator env agg True ordered) g)
            (\<lambda>g'. Inr (if ordered then g'\<lparr>pg_order := nodeMaintainsOrdering (pg_order g')\<rparr> else g')))"

section \<open>Build\<close>

definition visit_node :: "agg_env \<Rightarrow> proj_env \<Rightarrow> nat \<Rightarrow> execOptions \<Rightarrow> 'p LogicalPlan \<Rightarrow> 'p plan_graph \<Rightarrow> (plan_error, 'p plan_graph) result" where
  "visit_node env penv n opts plan g0 =
     (let g = g0\<lparr>pg_order := newNode (pg_order g0)\<rparr>
      in case plan of LogicalPlan _ ss ts f d p a \<Rightarrow>
        (case ss of Some s \<Rightarrow> Inr (visit_scan n opts True s g) | None \<Rightarrow>
        (case ts of Some t \<Rightarrow> let g' = visit_scan n opts False t g in Inr (g'\<lparr>pg_order := nodeMaintainsOrdering (pg_order g')\<rparr>) | None \<Rightarrow>
        (case p of Some exprs \<Rightarrow> visit_projection env penv exprs g | None \<Rightarrow>
        (case d of Some exprs \<Rightarrow> visit_distinct exprs g | None \<Rightarrow>
        (case f of Some e \<Rightarrow> visit_filter (pe_regex_ok penv) e g | None \<Rightarrow>
        (case a of Some agg \<Rightarrow> visit_aggregation env opts agg g | None \<Rightarrow> Inl PE_Panic)))))))"

text \<open>The visitor returns from the input of a node before it comes to the node, and stops at an error.\<close>

fun visit_plan :: "agg_env \<Rightarrow> proj_env \<Rightarrow> nat \<Rightarrow> execOptions \<Rightarrow> 'p LogicalPlan \<Rightarrow> 'p plan_graph \<Rightarrow> (plan_error, 'p plan_graph) result" where
  "visit_plan env penv n opts (LogicalPlan inp ss ts f d p a) g =
     bind_result (case inp of None \<Rightarrow> Inr g | Some i \<Rightarrow> visit_plan env penv n opts i g)
       (visit_node env penv n opts (LogicalPlan inp ss ts f d p a))"

definition initial_graph :: "execOptions \<Rightarrow> ColumnDefinition list \<Rightarrow> 'p plan_graph" where
  "initial_graph opts sorting =
     (let k = (case eo_overrideInput opts of None \<Rightarrow> 0 | Some k \<Rightarrow> k)
      in \<lparr>pg_nodes = replicate k Op_Override, pg_next = Map.empty, pg_prev = [0..<k],
          pg_order = \<lparr>oi_state = StateInit, sortingCols = sorting, filterCoverIdx = 0\<rparr>, pg_scan = None\<rparr>)"

text \<open>The last stage is synchronized and pushes to the output.\<close>

definition finish_plan :: "execOptions \<Rightarrow> 'p plan_graph \<Rightarrow> (plan_error, nat \<times> 'p plan_graph) result" where
  "finish_plan opts g =
     (if eo_overrideInput opts = None \<and> pg_scan g = None \<or> pg_prev g = [] then Inl PE_Panic
      else
        let n = length (pg_prev g);
            (out, g1) = alloc Op_Output g
        in if 1 < n
           then let (s, g2) = alloc (Op_Synchronizer n) g1
                in Inr (out, SetNext s out (fold (\<lambda>p. SetNext p s) (pg_prev g) g2))
           else Inr (out, SetNext (hd (pg_prev g)) out g1))"

definition physical_Build :: "agg_env \<Rightarrow> proj_env \<Rightarrow> nat \<Rightarrow> execOptions \<Rightarrow> Schema option \<Rightarrow> 'p LogicalPlan \<Rightarrow> (plan_error, nat \<times> 'p plan_graph) result" where
  "physical_Build env penv n opts s plan =
     (case (case s of None \<Rightarrow> Some [] | Some s' \<Rightarrow> SortingColumns s') of
        None \<Rightarrow> Inl PE_Panic
      | Some sorting \<Rightarrow> bind_result (visit_plan env penv n opts plan (initial_graph opts sorting)) (finish_plan opts))"

section \<open>Wiring\<close>

text \<open>
  The number of operators that push to a node: none for the inputs of the plan, as many as a synchronizer
  waits for, and one for every other operator.
\<close>

fun fan_in :: "operator \<Rightarrow> nat" where
  "fan_in noopOperator = 0"
| "fan_in Op_Override = 0"
| "fan_in (Op_Synchronizer n) = n"
| "fan_in (Op_OrderedSynchronizer n _) = n"
| "fan_in _ = 1"

definition pushers :: "'p plan_graph \<Rightarrow> nat \<Rightarrow> nat set" where
  "pushers g b = {a. pg_next g a = Some b}"

definition edges :: "(nat \<rightharpoonup> nat) \<Rightarrow> (nat \<times> nat) set" where
  "edges m = {(a, b). m a = Some b}"

fun plan_final :: "agg_plan \<Rightarrow> bool" where
  "plan_final (Plan_Ordered _ _ final) = final"
| "plan_final (Plan_Hash h) = finalStage h"

fun partial_aggregate :: "operator \<Rightarrow> bool" where
  "partial_aggregate (Op_Aggregate p) = (\<not> plan_final p)"
| "partial_aggregate _ = False"

fun synchronizes :: "operator \<Rightarrow> bool" where
  "synchronizes (Op_Synchronizer _) = True"
| "synchronizes (Op_OrderedSynchronizer _ _) = True"
| "synchronizes _ = False"

text \<open>The results of an aggregation that is not final meet in a synchronizer before the final aggregation of the same kind.\<close>

definition completed :: "agg_env \<Rightarrow> 'p plan_graph \<Rightarrow> nat \<Rightarrow> bool" where
  "completed env g a \<longleftrightarrow> (\<exists>s f agg ordered. pg_next g a = Some s \<and> s < length (pg_nodes g) \<and> synchronizes (pg_nodes g ! s) \<and>
     pg_next g s = Some f \<and> f < length (pg_nodes g) \<and> agg_operator env agg False ordered = Inr (pg_nodes g ! a) \<and>
     agg_operator env agg True ordered = Inr (pg_nodes g ! f))"

definition wired :: "agg_env \<Rightarrow> 'p plan_graph \<Rightarrow> bool" where
  "wired env g \<longleftrightarrow> distinct (pg_prev g) \<and> set (pg_prev g) \<subseteq> {..<length (pg_nodes g)} \<and>
     dom (pg_next g) \<subseteq> {..<length (pg_nodes g)} - set (pg_prev g) \<and> ran (pg_next g) \<subseteq> {..<length (pg_nodes g)} \<and>
     (\<forall>a < length (pg_nodes g). \<exists>p \<in> set (pg_prev g). (a, p) \<in> (edges (pg_next g))\<^sup>*) \<and>
     (\<forall>b < length (pg_nodes g). card (pushers g b) = fan_in (pg_nodes g ! b)) \<and>
     (\<forall>a < length (pg_nodes g). partial_aggregate (pg_nodes g ! a) \<longrightarrow> completed env g a)"

lemma edges_mono: "m \<subseteq>\<^sub>m m' \<Longrightarrow> (a, b) \<in> (edges m)\<^sup>* \<Longrightarrow> (a, b) \<in> (edges m')\<^sup>*"
proof -
  assume m: "m \<subseteq>\<^sub>m m'"
  have "edges m \<subseteq> edges m'"
  proof
    fix x assume "x \<in> edges m"
    then obtain u v where x: "x = (u, v)" "m u = Some v" by (auto simp: edges_def)
    then have "m' u = Some v" using m by (metis domI map_le_def)
    then show "x \<in> edges m'" using x by (simp add: edges_def)
  qed
  then show "(a, b) \<in> (edges m)\<^sup>* \<Longrightarrow> (a, b) \<in> (edges m')\<^sup>*" using rtrancl_mono by blast
qed

text \<open>
  Adding operators behind the ends of a wired graph: only the old ends and the new operators get new
  pointers, and these lead to new operators.
\<close>

lemma wired_extend:
  assumes g: "wired env g" and nodes: "pg_nodes g' = pg_nodes g @ ops" and m: "pg_next g' = pg_next g ++ m"
    and dom_m: "dom m \<subseteq> (set (pg_prev g) \<union> {length (pg_nodes g)..<length (pg_nodes g')}) - set (pg_prev g')"
    and ran_m: "ran m \<subseteq> {length (pg_nodes g)..<length (pg_nodes g')}"
    and prev: "distinct (pg_prev g')" "set (pg_prev g') \<subseteq> {length (pg_nodes g)..<length (pg_nodes g')}"
    and reach: "\<And>a. a \<in> set (pg_prev g) \<union> {length (pg_nodes g)..<length (pg_nodes g')} \<Longrightarrow> \<exists>p \<in> set (pg_prev g'). (a, p) \<in> (edges m)\<^sup>*"
    and fan: "\<And>k. k < length ops \<Longrightarrow> card {a. m a = Some (length (pg_nodes g) + k)} = fan_in (ops ! k)"
    and agg: "\<And>k. k < length ops \<Longrightarrow> partial_aggregate (ops ! k) \<Longrightarrow> completed env g' (length (pg_nodes g) + k)"
  shows "wired env g'"
proof -
  let ?L = "length (pg_nodes g)" let ?L' = "length (pg_nodes g')"
  have L': "?L' = ?L + length ops" using nodes by simp
  have old: "distinct (pg_prev g)" "set (pg_prev g) \<subseteq> {..<?L}" "dom (pg_next g) \<subseteq> {..<?L} - set (pg_prev g)" "ran (pg_next g) \<subseteq> {..<?L}"
      "\<And>a. a < ?L \<Longrightarrow> \<exists>p \<in> set (pg_prev g). (a, p) \<in> (edges (pg_next g))\<^sup>*"
      "\<And>b. b < ?L \<Longrightarrow> card (pushers g b) = fan_in (pg_nodes g ! b)"
      "\<And>a. a < ?L \<Longrightarrow> partial_aggregate (pg_nodes g ! a) \<Longrightarrow> completed env g a"
    using g by (auto simp: wired_def)
  have disj: "dom (pg_next g) \<inter> dom m = {}"
  proof (rule ccontr)
    assume "dom (pg_next g) \<inter> dom m \<noteq> {}"
    then obtain x where "x \<in> dom (pg_next g)" "x \<in> dom m" by blast
    then have "x < ?L" "x \<notin> set (pg_prev g)" "x \<in> set (pg_prev g) \<union> {?L..<?L'}" using old(3) dom_m by blast+
    then show False by simp
  qed
  then have le: "pg_next g \<subseteq>\<^sub>m pg_next g'" "m \<subseteq>\<^sub>m pg_next g'"
    unfolding m by (auto simp: map_le_def map_add_def split: option.splits)
  have next': "pg_next g' a = Some b \<longleftrightarrow> pg_next g a = Some b \<or> m a = Some b" for a b
    using disj unfolding m by (auto simp: map_add_def split: option.splits)
  have low: "pg_next g a = Some b \<Longrightarrow> b < ?L" for a b using old(4) by (auto simp: ran_def)
  have high: "m a = Some b \<Longrightarrow> ?L \<le> b" for a b using ran_m by (auto simp: ran_def)
  have ends: "\<exists>p \<in> set (pg_prev g'). (a, p) \<in> (edges (pg_next g'))\<^sup>*" if a: "a \<in> set (pg_prev g) \<union> {?L..<?L'}" for a
    using reach [OF a] edges_mono [OF le(2)] by blast
  have "\<exists>p \<in> set (pg_prev g'). (a, p) \<in> (edges (pg_next g'))\<^sup>*" if "a < ?L'" for a
  proof (cases "a < ?L")
    case True
    then obtain p where "p \<in> set (pg_prev g)" "(a, p) \<in> (edges (pg_next g'))\<^sup>*" using old(5) edges_mono [OF le(1)] by blast
    then show ?thesis using ends [of p] by (meson UnI1 rtrancl_trans)
  qed (use ends that in auto)
  moreover have "card (pushers g' b) = fan_in (pg_nodes g' ! b)" if b: "b < ?L'" for b
  proof (cases "b < ?L")
    case True
    then have "pushers g' b = pushers g b" using high next' by (fastforce simp: pushers_def)
    then show ?thesis using True old(6) nodes by (simp add: nth_append)
  next
    case False
    then have "pushers g' b = {a. m a = Some (?L + (b - ?L))}" using low next' by (fastforce simp: pushers_def)
    then show ?thesis using False fan [of "b - ?L"] b L' nodes by (simp add: nth_append)
  qed
  moreover have "completed env g' a" if a: "a < ?L'" "partial_aggregate (pg_nodes g' ! a)" for a
  proof (cases "a < ?L")
    case True
    then have "completed env g a" using a(2) old(7) nodes by (simp add: nth_append)
    then show ?thesis using next' True L' unfolding completed_def nodes by (smt (verit) length_append nth_append trans_less_add1)
  next
    case False
    then show ?thesis using agg [of "a - ?L"] a L' nodes by (simp add: nth_append)
  qed
  moreover have "set (pg_prev g') \<subseteq> {..<?L'}" using prev(2) by auto
  moreover have "dom (pg_next g') \<subseteq> {..<?L'} - set (pg_prev g')"
  proof -
    have "dom (pg_next g) \<inter> set (pg_prev g') = {}" using old(3) prev(2) by fastforce
    moreover have "dom (pg_next g) \<subseteq> {..<?L'}" by (rule subset_trans [OF old(3)]) (use L' in auto)
    moreover have "dom m \<subseteq> {..<?L'} - set (pg_prev g')"
      by (rule subset_trans [OF dom_m]) (use old(2) L' in auto)
    ultimately show ?thesis unfolding m dom_map_add by blast
  qed
  moreover have "ran (pg_next g') \<subseteq> {..<?L'}"
    using next' low L' ran_m unfolding ran_def by fastforce
  ultimately show ?thesis using prev(1) unfolding wired_def by blast
qed

text \<open>The loop over \<open>prev\<close> as a whole.\<close>

definition links :: "nat list \<Rightarrow> nat \<Rightarrow> nat \<rightharpoonup> nat" where
  "links ps L = map_of (zip ps [L..<L + length ps])"

definition sync_links :: "nat \<Rightarrow> nat \<Rightarrow> nat option \<Rightarrow> nat \<rightharpoonup> nat" where
  "sync_links L k sync = (\<lambda>a. if L \<le> a \<and> a < L + k then sync else None)"

lemma links_dom [simp]: "dom (links ps L) = set ps"
  by (simp add: links_def)

lemma links_nth: "distinct ps \<Longrightarrow> i < length ps \<Longrightarrow> links ps L (ps ! i) = Some (L + i)"
  by (simp add: links_def map_of_zip_nth)

lemma links_Some: "distinct ps \<Longrightarrow> links ps L a = Some b \<longleftrightarrow> (\<exists>i < length ps. a = ps ! i \<and> b = L + i)"
proof
  assume "distinct ps" "links ps L a = Some b"
  moreover from this have "a \<in> set ps" using links_dom by blast
  ultimately show "\<exists>i < length ps. a = ps ! i \<and> b = L + i" using links_nth by (fastforce simp: in_set_conv_nth)
qed (use links_nth in blast)

lemma extend_each_step:
  assumes "p \<notin> set ps" "p < L" "set ps \<subseteq> {..<L}"
  shows "(case sync of None \<Rightarrow> m(p \<mapsto> L) | Some s \<Rightarrow> (m(p \<mapsto> L))(L \<mapsto> s)) ++ links ps (Suc L) ++ sync_links (Suc L) (length ps) sync =
    m ++ links (p # ps) L ++ sync_links L (Suc (length ps)) sync"
proof
  fix a
  have "links (p # ps) L = (links ps (Suc L))(p \<mapsto> L)" by (simp add: links_def upt_conv_Cons del: upt_Suc)
  moreover have "links ps (Suc L) x = None" if "x \<notin> set ps" for x using that links_dom by blast
  moreover have "links ps (Suc L) x = None" if "L \<le> x" for x
  proof -
    have "x \<notin> dom (links ps (Suc L))" using that assms(3) by auto
    then show ?thesis by blast
  qed
  ultimately show "((case sync of None \<Rightarrow> m(p \<mapsto> L) | Some s \<Rightarrow> (m(p \<mapsto> L))(L \<mapsto> s)) ++ links ps (Suc L) ++ sync_links (Suc L) (length ps) sync) a =
    (m ++ links (p # ps) L ++ sync_links L (Suc (length ps)) sync) a"
    using assms by (cases sync) (auto simp: map_add_def sync_links_def split: option.splits)
qed

lemma extend_each_eq:
  assumes "distinct ps" "set ps \<subseteq> {..<length (pg_nodes g)}"
  shows "extend_each (Inr op) sync ps g = Inr ([length (pg_nodes g)..<length (pg_nodes g) + length ps],
    g\<lparr>pg_nodes := pg_nodes g @ replicate (length ps) op,
      pg_next := pg_next g ++ links ps (length (pg_nodes g)) ++ sync_links (length (pg_nodes g)) (length ps) sync\<rparr>)"
  using assms
proof (induction ps arbitrary: g)
  case Nil
  have "pg_next g ++ links [] (length (pg_nodes g)) ++ sync_links (length (pg_nodes g)) 0 sync = pg_next g"
    by (rule ext) (auto simp: links_def sync_links_def map_add_def)
  then show ?case by simp
next
  case (Cons p ps)
  let ?L = "length (pg_nodes g)"
  let ?g = "g\<lparr>pg_nodes := pg_nodes g @ [op],
      pg_next := (case sync of None \<Rightarrow> (pg_next g)(p \<mapsto> ?L) | Some s \<Rightarrow> ((pg_next g)(p \<mapsto> ?L))(?L \<mapsto> s))\<rparr>"
  have *: "extend_each (Inr op) sync (p # ps) g = bind_result (extend_each (Inr op) sync ps ?g) (\<lambda>(as, g'). Inr (?L # as, g'))"
    by (cases sync) (simp_all add: alloc_def SetNext_def)
  have len: "length (pg_nodes ?g) = Suc ?L" "pg_nodes ?g @ replicate (length ps) op = pg_nodes g @ replicate (Suc (length ps)) op"
    by simp_all
  have ps: "distinct ps" "set ps \<subseteq> {..<length (pg_nodes ?g)}" "p \<notin> set ps" "p < ?L" "set ps \<subseteq> {..<?L}" using Cons.prems by auto
  have "[?L..<?L + length (p # ps)] = ?L # [Suc ?L..<Suc ?L + length ps]" by (simp add: upt_conv_Cons del: upt_Suc)
  moreover have "pg_next ?g ++ links ps (Suc ?L) ++ sync_links (Suc ?L) (length ps) sync =
      pg_next g ++ links (p # ps) ?L ++ sync_links ?L (Suc (length ps)) sync"
    using extend_each_step [OF ps(3-5), where sync = sync and m = "pg_next g"] by simp
  ultimately show ?case
    unfolding * Cons.IH [OF ps(1,2)] len by simp
qed

lemma extend_each_Inl: "extend_each (Inl e) sync ps g = (if ps = [] then Inr ([], g) else Inl e)"
  by (cases ps) simp_all

text \<open>Only operators with something that pushes to them are added.\<close>

definition extends :: "'p plan_graph \<Rightarrow> 'p plan_graph \<Rightarrow> bool" where
  "extends g g' \<longleftrightarrow> pg_scan g' = pg_scan g \<and>
     (pg_prev g \<noteq> [] \<longrightarrow> (\<exists>ops. pg_nodes g' = pg_nodes g @ ops \<and> (\<forall>op \<in> set ops. 0 < fan_in op)))"

lemma links_fan: "distinct ps \<Longrightarrow> k < length ps \<Longrightarrow> {a. links ps L a = Some (L + k)} = {ps ! k}"
  by (auto simp: links_Some)

text \<open>One operator behind each end.\<close>

lemma extend_prev_wired:
  assumes g: "wired env g" and ext: "extend_prev mk g = Inr g'" and mk: "mk = Inr op" "fan_in op = 1" "\<not> partial_aggregate op"
  shows "wired env g' \<and> length (pg_prev g') = length (pg_prev g) \<and> extends g g'"
proof -
  let ?L = "length (pg_nodes g)" let ?ps = "pg_prev g"
  have ps: "distinct ?ps" "set ?ps \<subseteq> {..<?L}" using g by (auto simp: wired_def)
  have "sync_links ?L (length ?ps) None = Map.empty" by (auto simp: sync_links_def)
  then have g': "g' = g\<lparr>pg_nodes := pg_nodes g @ replicate (length ?ps) op, pg_next := pg_next g ++ links ?ps ?L, pg_prev := [?L..<?L + length ?ps]\<rparr>"
    using ext extend_each_eq [OF ps, of op None] by (simp add: extend_prev_def mk(1))
  have ran: "ran (links ?ps ?L) \<subseteq> {?L..<?L + length ?ps}" using links_Some [OF ps(1)] by (auto simp: ran_def)
  have "wired env g'"
  proof (rule wired_extend [OF g, where ops = "replicate (length ?ps) op" and m = "links ?ps ?L"])
    fix a assume "a \<in> set (pg_prev g) \<union> {?L..<length (pg_nodes g')}"
    then consider i where "i < length ?ps" "a = ?ps ! i" | "a \<in> {?L..<?L + length ?ps}" using g' by (auto simp: in_set_conv_nth)
    then show "\<exists>p \<in> set (pg_prev g'). (a, p) \<in> (edges (links ?ps ?L))\<^sup>*"
    proof cases
      case 1
      then have "(a, ?L + i) \<in> edges (links ?ps ?L)" using links_nth [OF ps(1)] by (simp add: edges_def)
      then show ?thesis using 1 g' by (auto intro!: bexI [of _ "?L + i"])
    qed (use g' in auto)
  next
    fix k assume "k < length (replicate (length ?ps) op)"
    then show "card {a. links ?ps ?L a = Some (?L + k)} = fan_in (replicate (length ?ps) op ! k)"
      using mk(2) links_fan [OF ps(1), of k ?L] by simp
  qed (use g' ran mk(3) ps in auto)
  then show ?thesis using g' mk(2) by (simp add: extends_def)
qed

text \<open>Operators behind the ends that meet in a synchronizer, and one operator behind it.\<close>

lemma synced_links:
  assumes "distinct ps" "set ps \<subseteq> {..<L}"
  shows "(links ps (Suc L) ++ sync_links (Suc L) (length ps) (Some L) ++ [L \<mapsto> Suc L + length ps]) a = Some b \<longleftrightarrow>
    (\<exists>i < length ps. a = ps ! i \<and> b = Suc L + i) \<or> (Suc L \<le> a \<and> a < Suc L + length ps \<and> b = L) \<or> (a = L \<and> b = Suc L + length ps)"
proof -
  have low: "ps ! i < L" if "i < length ps" for i using that assms(2) nth_mem by blast
  show ?thesis
  proof (cases "L \<le> a")
    case True
    then have "\<not> (\<exists>i < length ps. a = ps ! i)" using low by fastforce
    moreover from this have "links ps (Suc L) a = None" by (metis links_dom domIff in_set_conv_nth)
    ultimately show ?thesis using True by (auto simp: map_add_def sync_links_def)
  next
    case False
    then show ?thesis using links_Some [OF assms(1), of "Suc L" a b] by (auto simp: map_add_def sync_links_def split: option.splits)
  qed
qed

lemma extend_synced_eq:
  assumes "distinct (pg_prev g)" "set (pg_prev g) \<subseteq> {..<length (pg_nodes g)}"
  shows "extend_synced sync (Inr op) (Inr final) g = Inr (g\<lparr>pg_nodes := pg_nodes g @ sync # replicate (length (pg_prev g)) op @ [final],
    pg_next := pg_next g ++ (links (pg_prev g) (Suc (length (pg_nodes g))) ++
      sync_links (Suc (length (pg_nodes g))) (length (pg_prev g)) (Some (length (pg_nodes g))) ++
      [length (pg_nodes g) \<mapsto> Suc (length (pg_nodes g)) + length (pg_prev g)]),
    pg_prev := [Suc (length (pg_nodes g)) + length (pg_prev g)]\<rparr>)"
proof -
  let ?L = "length (pg_nodes g)" let ?g1 = "g\<lparr>pg_nodes := pg_nodes g @ [sync]\<rparr>"
  have "set (pg_prev g) \<subseteq> {..<length (pg_nodes ?g1)}" using assms(2) by auto
  note eq = extend_each_eq [OF assms(1) this, of op "Some ?L"]
  show ?thesis using eq by (simp add: extend_synced_def alloc_def SetNext_def map_add_upd)
qed

lemma extend_synced_wired:
  assumes g: "wired env g" and ext: "extend_synced sync (Inr op) (Inr final) g = Inr g'"
    and sync: "synchronizes sync" "fan_in sync = length (pg_prev g)"
    and op: "fan_in op = 1" "fan_in final = 1" "\<not> partial_aggregate final"
    and agg: "partial_aggregate op \<Longrightarrow> \<exists>agg ordered. agg_operator env agg False ordered = Inr op \<and> agg_operator env agg True ordered = Inr final"
  shows "wired env g' \<and> length (pg_prev g') = 1 \<and> extends g g'"
proof -
  let ?L = "length (pg_nodes g)" let ?ps = "pg_prev g" let ?k = "length (pg_prev g)"
  let ?m = "links ?ps (Suc ?L) ++ sync_links (Suc ?L) ?k (Some ?L) ++ [?L \<mapsto> Suc ?L + ?k]"
  let ?ops = "sync # replicate ?k op @ [final]"
  have ps: "distinct ?ps" "set ?ps \<subseteq> {..<?L}" using g by (auto simp: wired_def)
  have g': "g' = g\<lparr>pg_nodes := pg_nodes g @ ?ops, pg_next := pg_next g ++ ?m, pg_prev := [Suc ?L + ?k]\<rparr>"
    using ext extend_synced_eq [OF ps, of sync op final] by simp
  note m = synced_links [OF ps]
  have low: "?ps ! i < ?L" if "i < ?k" for i using that ps(2) nth_mem by blast
  have L': "length (pg_nodes g') = Suc (Suc ?L + ?k)" using g' by simp
  have last: "(?L, Suc ?L + ?k) \<in> (edges ?m)\<^sup>*" using m by (auto simp: edges_def)
  have mid: "(a, Suc ?L + ?k) \<in> (edges ?m)\<^sup>*" if "Suc ?L \<le> a" "a < Suc ?L + ?k" for a
  proof -
    have "(a, ?L) \<in> edges ?m" using that m by (simp add: edges_def)
    then show ?thesis using last by (rule converse_rtrancl_into_rtrancl)
  qed
  have first: "(?ps ! i, Suc ?L + ?k) \<in> (edges ?m)\<^sup>*" if "i < ?k" for i
  proof -
    have "(?ps ! i, Suc ?L + i) \<in> edges ?m" using that m by (auto simp: edges_def)
    then show ?thesis using mid [of "Suc ?L + i"] that by (simp add: converse_rtrancl_into_rtrancl)
  qed
  have "wired env g'"
  proof (rule wired_extend [OF g, where ops = ?ops and m = ?m])
    show "dom ?m \<subseteq> set (pg_prev g) \<union> {?L..<length (pg_nodes g')} - set (pg_prev g')"
    proof
      fix a assume "a \<in> dom ?m"
      then obtain b where "?m a = Some b" by (rule exE [OF domD])
      then show "a \<in> set (pg_prev g) \<union> {?L..<length (pg_nodes g')} - set (pg_prev g')"
        unfolding m L' using low g' by fastforce
    qed
    show "ran ?m \<subseteq> {?L..<length (pg_nodes g')}"
    proof
      fix b assume "b \<in> ran ?m"
      then obtain a where "?m a = Some b" unfolding ran_def mem_Collect_eq ..
      then show "b \<in> {?L..<length (pg_nodes g')}" unfolding m L' by auto
    qed
  next
    fix a assume "a \<in> set (pg_prev g) \<union> {?L..<length (pg_nodes g')}"
    then consider i where "i < ?k" "a = ?ps ! i" | "a = ?L" | "Suc ?L \<le> a" "a < Suc ?L + ?k" | "a = Suc ?L + ?k"
      unfolding L' by (force simp: in_set_conv_nth)
    then have "(a, Suc ?L + ?k) \<in> (edges ?m)\<^sup>*" using first last mid by cases auto
    then show "\<exists>p \<in> set (pg_prev g'). (a, p) \<in> (edges ?m)\<^sup>*" using g' by simp
  next
    fix k assume "k < length ?ops"
    then consider "k = 0" | i where "i < ?k" "k = Suc i" | "k = Suc ?k" by (cases k) (auto simp: less_Suc_eq)
    then show "card {a. ?m a = Some (?L + k)} = fan_in (?ops ! k)"
    proof cases
      case 1
      then have "{a. ?m a = Some (?L + k)} = {Suc ?L..<Suc ?L + ?k}" unfolding m by auto
      then show ?thesis using 1 sync(2) by simp
    next
      case 2
      then have "{a. ?m a = Some (?L + k)} = {?ps ! i}" unfolding m by auto
      then show ?thesis using 2 op(1) by (simp add: nth_append)
    next
      case 3
      then have "{a. ?m a = Some (?L + k)} = {?L}" unfolding m by auto
      then show ?thesis using 3 op(2) by (simp add: nth_append)
    qed
  next
    fix k assume k: "k < length ?ops" and p: "partial_aggregate (?ops ! k)"
    have "\<not> partial_aggregate sync" using sync(1) by (cases sync) auto
    then obtain i where i: "i < ?k" "k = Suc i" "partial_aggregate op"
      using k p op(3) by (cases k) (auto simp: nth_append less_Suc_eq split: if_splits)
    obtain agg ordered where "agg_operator env agg False ordered = Inr op" "agg_operator env agg True ordered = Inr final"
      using agg [OF i(3)] by blast
    moreover have "pg_next g' (?L + k) = Some ?L" "pg_next g' ?L = Some (Suc ?L + ?k)"
      using i m [of "?L + k" ?L] m [of ?L "Suc ?L + ?k"] g' by (auto simp: map_add_def)
    moreover have "pg_nodes g' ! ?L = sync" "pg_nodes g' ! (?L + k) = op" "pg_nodes g' ! (Suc ?L + ?k) = final"
      using i g' by (simp_all add: nth_append)
    ultimately show "completed env g' (?L + k)" unfolding completed_def using sync(1) L' by fastforce
  qed (use g' in auto)
  moreover have "pg_prev g \<noteq> [] \<Longrightarrow> \<forall>op' \<in> set ?ops. 0 < fan_in op'" using sync(2) op by auto
  ultimately show ?thesis using g' by (auto simp: extends_def)
qed

section \<open>Plans are wired\<close>

lemma wired_order [simp]: "wired env (g\<lparr>pg_order := oi\<rparr>) = wired env g" "wired env (g\<lparr>pg_scan := sc\<rparr>) = wired env g"
  by (simp_all add: wired_def pushers_def completed_def)

lemma agg_operator_final: "agg_operator env agg final ordered = Inr op \<Longrightarrow> fan_in op = 1 \<and> partial_aggregate op = (\<not> final)"
  by (auto simp: agg_operator_def Aggregate_def NewHashAggregate_def bind_result_def Let_def split: sum.splits if_splits list.splits)

text \<open>The inputs are exactly the operators that nothing pushes to.\<close>

definition inputs_first :: "nat \<Rightarrow> 'p plan_graph \<Rightarrow> bool" where
  "inputs_first n g \<longleftrightarrow> n \<le> length (pg_nodes g) \<and> (\<forall>a < length (pg_nodes g). if a < n then pg_nodes g ! a = noopOperator else 0 < fan_in (pg_nodes g ! a))"

definition planned :: "agg_env \<Rightarrow> nat \<Rightarrow> 'p plan_graph \<Rightarrow> bool" where
  "planned env n g \<longleftrightarrow> wired env g \<and> pg_prev g \<noteq> [] \<and> (\<exists>s. pg_scan g = Some s \<and> ps_plans s = [0..<n]) \<and> inputs_first n g"

lemma inputs_first_order [simp]: "inputs_first n (g\<lparr>pg_order := oi\<rparr>) = inputs_first n g"
  by (simp add: inputs_first_def)

lemma inputs_first_append:
  assumes "inputs_first n g" "pg_nodes g' = pg_nodes g @ ops" "\<forall>op \<in> set ops. 0 < fan_in op"
  shows "inputs_first n g'"
  using assms by (force simp: inputs_first_def nth_append)

lemma extends_planned: "planned env n g \<Longrightarrow> wired env g' \<Longrightarrow> pg_prev g' \<noteq> [] \<Longrightarrow> extends g g' \<Longrightarrow> planned env n g'"
  by (auto simp: planned_def extends_def intro: inputs_first_append)

lemma extend_prev_planned:
  assumes "planned env n g" "extend_prev mk g = Inr g'" "\<And>op. mk = Inr op \<Longrightarrow> fan_in op = 1 \<and> \<not> partial_aggregate op"
  shows "planned env n g'"
proof (cases mk)
  case (Inl e)
  then show ?thesis using assms(1,2) by (simp add: planned_def extend_prev_def extend_each_Inl)
next
  case (Inr op)
  have w: "wired env g" "pg_prev g \<noteq> []" using assms(1) by (auto simp: planned_def)
  have "wired env g' \<and> length (pg_prev g') = length (pg_prev g) \<and> extends g g'"
    using assms(3) [OF Inr] by (intro extend_prev_wired [OF w(1) assms(2) Inr]) auto
  then show ?thesis using extends_planned [OF assms(1)] w(2) by (auto simp flip: length_greater_0_conv)
qed

lemma extend_synced_planned:
  assumes "planned env n g" "extend_synced sync each final g = Inr g'" "synchronizes sync" "fan_in sync = length (pg_prev g)"
    and "\<And>op. final = Inr op \<Longrightarrow> fan_in op = 1 \<and> \<not> partial_aggregate op" "\<And>op. each = Inr op \<Longrightarrow> fan_in op = 1"
    and "\<And>op fin. each = Inr op \<Longrightarrow> final = Inr fin \<Longrightarrow> partial_aggregate op \<Longrightarrow>
      \<exists>agg ordered. agg_operator env agg False ordered = Inr op \<and> agg_operator env agg True ordered = Inr fin"
  shows "planned env n g'"
proof -
  have ne: "pg_prev g \<noteq> []" using assms(1) by (simp add: planned_def)
  obtain op where op: "each = Inr op" using assms(2) ne by (cases each) (auto simp: extend_synced_def extend_each_Inl alloc_def)
  obtain fin where fin: "final = Inr fin"
    using assms(2) by (cases final) (auto simp: extend_synced_def alloc_def bind_result_def split: sum.splits)
  have "wired env g' \<and> length (pg_prev g') = 1 \<and> extends g g'"
    using assms(1,2) op fin assms(5) [OF fin] assms(6) [OF op] assms(7) [OF op fin]
    by (intro extend_synced_wired [where sync = sync and op = op and final = fin, OF _ _ assms(3,4)]) (auto simp: planned_def)
  then show ?thesis using extends_planned [OF assms(1)] by (auto simp flip: length_greater_0_conv)
qed

lemma visit_node_planned:
  assumes g: "planned env n g" and visit: "visit_node env penv c opts (LogicalPlan inp None None f d p a) g = Inr g'"
  shows "planned env n g'"
proof -
  let ?g = "g\<lparr>pg_order := newNode (pg_order g)\<rparr>"
  have g: "planned env n ?g" using g by (simp add: planned_def)
  consider exprs where "p = Some exprs" "visit_projection env penv exprs ?g = Inr g'"
    | exprs where "d = Some exprs" "visit_distinct exprs ?g = Inr g'"
    | e where "f = Some e" "visit_filter (pe_regex_ok penv) e ?g = Inr g'"
    | agg where "a = Some agg" "visit_aggregation env opts agg ?g = Inr g'"
    using visit by (auto simp: visit_node_def Let_def split: option.splits)
  then show ?thesis
  proof cases
    case 1
    then show ?thesis using g by (auto simp: visit_projection_def intro: extend_prev_planned split: option.splits bool.splits sum.splits)
  next
    case 2
    then show ?thesis using g
      by (auto simp: visit_distinct_def Let_def intro: extend_prev_planned extend_synced_planned split: if_splits)
  next
    case 3
    then obtain g1 where g1: "extend_prev (case booleanExpr (pe_regex_ok penv) e of Inl x \<Rightarrow> Inl (PE_Filter x) | Inr b \<Rightarrow> Inr (Op_PredicateFilter b)) ?g = Inr g1"
        "g' = g1\<lparr>pg_order := nodeMaintainsOrdering (applyFilter e (pg_order g1))\<rparr>"
      by (auto simp: visit_filter_def bind_result_def split: sum.splits)
    then have "planned env n g1" using g by (auto intro: extend_prev_planned split: sum.splits)
    then show ?thesis using g1(2) by (simp add: planned_def)
  next
    case 4
    then obtain ordered g1 where g1: "(let k = length (pg_prev ?g);
           sync = (if ordered \<and> 0 < length (ag_GroupExprs agg) then Op_OrderedSynchronizer k (ag_GroupExprs agg) else Op_Synchronizer k)
         in if 1 < k then extend_synced sync (agg_operator env agg False ordered) (agg_operator env agg True ordered) ?g
            else extend_prev (agg_operator env agg True ordered) ?g) = Inr g1"
        and g': "g' = (if ordered then g1\<lparr>pg_order := nodeMaintainsOrdering (pg_order g1)\<rparr> else g1)"
      by (auto simp: visit_aggregation_def Let_def)
    have "planned env n g1"
    proof (cases "1 < length (pg_prev ?g)")
      case True
      then show ?thesis using g1 agg_operator_final [of env agg] unfolding Let_def
        by (auto intro!: extend_synced_planned [OF g] split: if_splits)
    next
      case False
      then show ?thesis using g1 agg_operator_final [of env agg] unfolding Let_def
        by (auto intro!: extend_prev_planned [OF g])
    qed
    then show ?thesis using g' by (simp add: planned_def)
  qed
qed

text \<open>A scan at the bottom of the plan and nowhere else, as the builder makes them.\<close>

fun bottom_scan :: "'p LogicalPlan \<Rightarrow> bool" where
  "bottom_scan (LogicalPlan inp ss ts f d p a) =
     (case inp of None \<Rightarrow> (ss \<noteq> None \<or> ts \<noteq> None) \<and> p = None | Some i \<Rightarrow> ss = None \<and> ts = None \<and> bottom_scan i)"

lemma visit_scan_planned:
  assumes "pg_nodes g = []" "pg_next g = Map.empty" "0 < n"
  shows "planned env n (visit_scan n opts b sc g)"
  using assms by (auto simp: visit_scan_def scan_noops_def planned_def wired_def pushers_def inputs_first_def)

lemma visit_plan_planned:
  assumes "bottom_scan plan" "visit_plan env penv n opts plan g = Inr g'" "pg_nodes g = []" "pg_next g = Map.empty" "0 < n"
  shows "planned env n g'"
  using assms(1,2)
proof (induction plan arbitrary: g')
  case (LogicalPlan inp ss ts f d p a)
  show ?case
  proof (cases inp)
    case None
    then have "visit_node env penv n opts (LogicalPlan inp ss ts f d p a) g = Inr g'" using LogicalPlan.prems(2) by simp
    moreover have "planned env n (visit_scan n opts b sc (g\<lparr>pg_order := newNode (pg_order g)\<rparr>))" for b sc
      using assms(3-5) by (intro visit_scan_planned) simp_all
    ultimately show ?thesis using LogicalPlan.prems(1) None
      by (auto simp: visit_node_def Let_def planned_def split: option.splits)
  next
    case (Some i)
    then obtain g1 where g1: "visit_plan env penv n opts i g = Inr g1" "visit_node env penv n opts (LogicalPlan inp ss ts f d p a) g1 = Inr g'"
      using LogicalPlan.prems(2) by auto
    have i: "bottom_scan i" "ss = None" "ts = None" using LogicalPlan.prems(1) Some by auto
    have "planned env n g1" by (rule LogicalPlan.IH [OF _ i(1) g1(1)]) (use Some in simp)
    then show ?thesis using visit_node_planned g1(2) i(2,3) by blast
  qed
qed

lemma fold_SetNext: "fold (\<lambda>p. SetNext p s) ps g = g\<lparr>pg_next := pg_next g ++ (\<lambda>a. if a \<in> set ps then Some s else None)\<rparr>"
proof (induction ps arbitrary: g)
  case Nil
  have "pg_next g ++ (\<lambda>a. if a \<in> set [] then Some s else None) = pg_next g" by (auto simp: map_add_def)
  then show ?case by simp
next
  case (Cons p ps)
  have "(pg_next g)(p \<mapsto> s) ++ (\<lambda>a. if a \<in> set ps then Some s else None) =
      pg_next g ++ (\<lambda>a. if a \<in> set (p # ps) then Some s else None)" by (auto simp: map_add_def)
  then have "SetNext p s g\<lparr>pg_next := pg_next (SetNext p s g) ++ (\<lambda>a. if a \<in> set ps then Some s else None)\<rparr> =
      g\<lparr>pg_next := pg_next g ++ (\<lambda>a. if a \<in> set (p # ps) then Some s else None)\<rparr>" unfolding SetNext_def by simp
  then show ?case unfolding fold_Cons comp_apply Cons.IH .
qed

lemma finish_plan_wired:
  assumes g: "planned env n g" and fin: "finish_plan opts g = Inr (out, g')"
  shows "wired env (g'\<lparr>pg_prev := [out]\<rparr>) \<and> pg_scan g' = pg_scan g \<and> inputs_first n g' \<and> pg_nodes g' ! out = Op_Output"
proof -
  let ?L = "length (pg_nodes g)" let ?ps = "pg_prev g" let ?k = "length (pg_prev g)"
  have w: "wired env g" and ne: "?ps \<noteq> []" and inputs: "inputs_first n g" using g by (auto simp: planned_def)
  have ps: "distinct ?ps" "set ?ps \<subseteq> {..<?L}" using w by (auto simp: wired_def)
  show ?thesis
  proof (cases "1 < ?k")
    case True
    let ?m = "\<lambda>a. if a \<in> set ?ps then Some (Suc ?L) else if a = Suc ?L then Some ?L else None"
    have "pg_next g ++ (\<lambda>a. if a \<in> set ?ps then Some (Suc ?L) else None) ++ [Suc ?L \<mapsto> ?L] = pg_next g ++ ?m"
      using ps(2) by (intro ext) (auto simp: map_add_def)
    then have g': "out = ?L" "g' = g\<lparr>pg_nodes := pg_nodes g @ [Op_Output, Op_Synchronizer ?k], pg_next := pg_next g ++ ?m\<rparr>"
      using fin True ne by (auto simp: finish_plan_def alloc_def fold_SetNext SetNext_def split: if_splits)
    have sync: "(Suc ?L, ?L) \<in> (edges ?m)\<^sup>*" by (rule r_into_rtrancl) (use ps(2) in \<open>auto simp: edges_def\<close>)
    have reach: "(a, ?L) \<in> (edges ?m)\<^sup>*" if "a \<in> set ?ps" for a
    proof -
      have "(a, Suc ?L) \<in> edges ?m" using that by (simp add: edges_def)
      then show ?thesis using sync by (rule converse_rtrancl_into_rtrancl)
    qed
    have "wired env (g'\<lparr>pg_prev := [out]\<rparr>)"
    proof (rule wired_extend [OF w, where ops = "[Op_Output, Op_Synchronizer ?k]" and m = ?m])
      fix a assume "a \<in> set ?ps \<union> {?L..<length (pg_nodes (g'\<lparr>pg_prev := [out]\<rparr>))}"
      then have "a \<in> set ?ps \<or> a = ?L \<or> a = Suc ?L" using g' by auto
      then show "\<exists>p \<in> set (pg_prev (g'\<lparr>pg_prev := [out]\<rparr>)). (a, p) \<in> (edges ?m)\<^sup>*"
        using reach sync g' by auto
    next
      fix k assume "k < length [Op_Output, Op_Synchronizer ?k]"
      then consider "k = 0" | "k = 1" by force
      then show "card {a. ?m a = Some (?L + k)} = fan_in ([Op_Output, Op_Synchronizer ?k] ! k)"
      proof cases
        case 1
        have "{a. ?m a = Some ?L} = {Suc ?L}" using ps(2) by (auto split: if_splits)
        then show ?thesis unfolding 1 by simp
      next
        case 2
        have "{a. ?m a = Some (Suc ?L)} = set ?ps" by (auto split: if_splits)
        then show ?thesis unfolding 2 using distinct_card [OF ps(1)] by simp
      qed
    qed (use g' ps in \<open>auto simp: ran_def less_Suc_eq split: if_splits\<close>)
    moreover have "inputs_first n g'"
      by (rule inputs_first_append [OF inputs, where ops = "[Op_Output, Op_Synchronizer ?k]"]) (use g' ne in auto)
    ultimately show ?thesis using g' by simp
  next
    case False
    then obtain p where p: "?ps = [p]" using ne by (cases ?ps) auto
    let ?m = "[p \<mapsto> ?L]"
    have g': "out = ?L" "g' = g\<lparr>pg_nodes := pg_nodes g @ [Op_Output], pg_next := pg_next g ++ ?m\<rparr>"
      using fin p by (auto simp: finish_plan_def alloc_def SetNext_def split: if_splits)
    have "wired env (g'\<lparr>pg_prev := [out]\<rparr>)"
      by (rule wired_extend [OF w, where ops = "[Op_Output]" and m = ?m])
        (use g' p ps in \<open>auto simp: edges_def split: if_splits\<close>)
    moreover have "inputs_first n g'"
      by (rule inputs_first_append [OF inputs, where ops = "[Op_Output]"]) (use g' in auto)
    ultimately show ?thesis using g' by simp
  qed
qed

text \<open>What \<open>Build\<close> returns.\<close>

lemma Build_graph:
  assumes "physical_Build env penv n opts s plan = Inr (out, g)" "bottom_scan plan" "0 < n" "eo_overrideInput opts = None"
  shows "wired env (g\<lparr>pg_prev := [out]\<rparr>)" "\<exists>sc. pg_scan g = Some sc \<and> ps_plans sc = [0..<n]" "inputs_first n g" "pg_nodes g ! out = Op_Output"
proof -
  obtain sorting g1 where g1: "visit_plan env penv n opts plan (initial_graph opts sorting) = Inr g1" "finish_plan opts g1 = Inr (out, g)"
    using assms(1) by (auto simp: physical_Build_def split: option.splits)
  have p: "planned env n g1"
    using visit_plan_planned [OF assms(2) g1(1)] assms(3,4) by (simp add: initial_graph_def)
  show "wired env (g\<lparr>pg_prev := [out]\<rparr>)" "\<exists>sc. pg_scan g = Some sc \<and> ps_plans sc = [0..<n]" "inputs_first n g" "pg_nodes g ! out = Op_Output"
    using finish_plan_wired [OF p g1(2)] p by (auto simp: planned_def)
qed

text \<open>C39: The operators of a physical plan are wired. For every plan over one scan that \<open>Build\<close> accepts, with
  any number of parallel inputs: the scan pushes to as many operators as there are inputs; every operator
  leads to the output; every synchronizer is pushed to by exactly as many operators as it waits for, the inputs by
  none and every other operator by exactly one; and the results of an aggregation that is not final meet in a
  synchronizer that pushes to the final aggregation of the same expressions.\<close>

theorem Build_wired:
  assumes "physical_Build env penv n opts s plan = Inr (out, g)" "bottom_scan plan" "0 < n" "eo_overrideInput opts = None"
  shows "(\<exists>sc. pg_scan g = Some sc \<and> ps_plans sc = [0..<n]) \<and> (\<forall>a < length (pg_nodes g). (a, out) \<in> (edges (pg_next g))\<^sup>*) \<and>
    (\<forall>b < length (pg_nodes g). card (pushers g b) = fan_in (pg_nodes g ! b)) \<and>
    (\<forall>a < length (pg_nodes g). partial_aggregate (pg_nodes g ! a) \<longrightarrow> completed env g a)"
  using Build_graph(1,2) [OF assms] by (simp add: wired_def pushers_def completed_def)

text \<open>A filtered sum by one column over two inputs: two noops, filters and aggregations, a synchronizer, the final aggregation and the output.\<close>

definition sum_plan :: "unit LogicalPlan" where
  "sum_plan = LogicalPlan (Some (LogicalPlan (Some (LogicalPlan None None (Some (new_scan () ''t'')) None None None None))
     None None (Some (BinaryExpr (Column ''v'') OpGt (LiteralExpr (S_Int64 1)))) None None None))
     None None None None None (Some \<lparr>ag_AggExprs = [AggregationFunction AggFuncSum (Column ''v'')], ag_GroupExprs = [Column ''k'']\<rparr>)"

definition no_options :: execOptions where
  "no_options = \<lparr>eo_orderedAggregations = False, eo_overrideInput = None, eo_skipSources = False\<rparr>"

theorem Build_wired_witness:
  "\<exists>out g. physical_Build demo_env plain_env 2 no_options None sum_plan = Inr (out, g) \<and>
    length (pg_nodes g) = 9 \<and> pg_nodes g ! 4 = Op_Synchronizer 2 \<and> \<not> partial_aggregate (pg_nodes g ! 7) \<and>
    (\<forall>a < length (pg_nodes g). (a, out) \<in> (edges (pg_next g))\<^sup>*) \<and> card (pushers g 4) = 2"
proof -
  have "case physical_Build demo_env plain_env 2 no_options None sum_plan of Inl _ \<Rightarrow> False
      | Inr (out, g) \<Rightarrow> length (pg_nodes g) = 9 \<and> pg_nodes g ! 4 = Op_Synchronizer 2 \<and> \<not> partial_aggregate (pg_nodes g ! 7)" by code_simp
  then obtain out g where b: "physical_Build demo_env plain_env 2 no_options None sum_plan = Inr (out, g)"
      and n: "length (pg_nodes g) = 9" "pg_nodes g ! 4 = Op_Synchronizer 2" "\<not> partial_aggregate (pg_nodes g ! 7)"
    by (auto split: sum.splits)
  have "bottom_scan sum_plan" "eo_overrideInput no_options = None" by code_simp+
  from Build_wired [OF b this(1) _ this(2)] n have
    "\<forall>a < length (pg_nodes g). (a, out) \<in> (edges (pg_next g))\<^sup>*" "card (pushers g 4) = fan_in (pg_nodes g ! 4)" by simp_all
  then show ?thesis using b n by auto
qed

end
