(* ===== verification/Plan_Finish.thy ===== *)
theory Plan_Finish
  imports Plan_Build
begin

text \<open>
  Finishing a physical plan: the scan calls \<open>Finish\<close> of its operators concurrently, an operator calls
  \<open>Finish\<close> of the next one, and a synchronizer (\<open>query/physicalplan/synchronize.go\<close>) only does so for
  the last of its inputs. \<open>Close\<close> goes the same way with a counter of its own.

  A step is the call of one operator's \<open>Finish\<close> that is due; calls on different branches of the plan
  interleave in any order. The operators are taken to return no error of their own. The counter of an ordered
  synchronizer is treated by its \<open>Finish\<close> as that of a synchronizer.
\<close>

section \<open>Barriers\<close>

datatype barrier = B_TooMany | B_Wait | B_Pass

text \<open>\<open>running.Add(-1)\<close> and what follows.\<close>

definition barrier_call :: "int \<Rightarrow> int \<times> barrier" where
  "barrier_call counter =
     (let running = counter - 1
      in (running, if running < 0 then B_TooMany else if 0 < running then B_Wait else B_Pass))"

record finish_state =
  fn_pending :: "nat \<Rightarrow> nat"
  fn_running :: "nat \<Rightarrow> int"
  fn_calls :: "nat \<Rightarrow> nat"
  fn_failed :: bool

definition start_finish :: "'p plan_graph \<Rightarrow> nat list \<Rightarrow> finish_state" where
  "start_finish g plans =
     \<lparr>fn_pending = (\<lambda>a. if a \<in> set plans then 1 else 0), fn_running = (\<lambda>a. int (fan_in (pg_nodes g ! a))),
      fn_calls = (\<lambda>_. 0), fn_failed = False\<rparr>"

text \<open>Calling the next operator; an operator other than the output that has none follows a nil pointer.\<close>

definition finish_next :: "'p plan_graph \<Rightarrow> nat \<Rightarrow> finish_state \<Rightarrow> finish_state" where
  "finish_next g a s =
     (case pg_next g a of
        Some b \<Rightarrow> s\<lparr>fn_pending := (fn_pending s)(b := fn_pending s b + 1)\<rparr>
      | None \<Rightarrow> if pg_nodes g ! a = Op_Output then s else s\<lparr>fn_failed := True\<rparr>)"

definition call_Finish :: "'p plan_graph \<Rightarrow> nat \<Rightarrow> finish_state \<Rightarrow> finish_state" where
  "call_Finish g a s =
     (let s1 = s\<lparr>fn_pending := (fn_pending s)(a := fn_pending s a - 1), fn_calls := (fn_calls s)(a := fn_calls s a + 1)\<rparr>
      in if synchronizes (pg_nodes g ! a)
         then case barrier_call (fn_running s a) of (running, b) \<Rightarrow>
           let s2 = s1\<lparr>fn_running := (fn_running s)(a := running)\<rparr>
           in (case b of B_TooMany \<Rightarrow> s2\<lparr>fn_failed := True\<rparr> | B_Wait \<Rightarrow> s2 | B_Pass \<Rightarrow> finish_next g a s2)
         else finish_next g a s1)"

text \<open>The runs of the plan, with the number of calls made.\<close>

inductive finish_run :: "'p plan_graph \<Rightarrow> nat list \<Rightarrow> nat \<Rightarrow> finish_state \<Rightarrow> bool" for g plans where
  start: "finish_run g plans 0 (start_finish g plans)"
| call: "finish_run g plans k s \<Longrightarrow> 0 < fn_pending s a \<Longrightarrow> finish_run g plans (Suc k) (call_Finish g a s)"

section \<open>Plans as graphs\<close>

text \<open>The number of calls of its \<open>Finish\<close> that an operator expects.\<close>

definition expected :: "operator \<Rightarrow> nat" where
  "expected op = (if fan_in op = 0 then 1 else fan_in op)"

definition plan_ok :: "nat \<Rightarrow> nat \<Rightarrow> 'p plan_graph \<Rightarrow> bool" where
  "plan_ok n out g \<longleftrightarrow> out < length (pg_nodes g) \<and> pg_nodes g ! out = Op_Output \<and> pg_next g out = None \<and>
     dom (pg_next g) \<subseteq> {..<length (pg_nodes g)} \<and> ran (pg_next g) \<subseteq> {..<length (pg_nodes g)} \<and>
     (\<forall>a < length (pg_nodes g). (a, out) \<in> (edges (pg_next g))\<^sup>*) \<and>
     (\<forall>b < length (pg_nodes g). card (pushers g b) = fan_in (pg_nodes g ! b)) \<and> inputs_first n g"

lemma Build_plan_ok:
  assumes "physical_Build env penv n opts s plan = Inr (out, g)" "bottom_scan plan" "0 < n" "eo_overrideInput opts = None"
  shows "plan_ok n out g"
  using Build_graph [OF assms] by (auto simp: plan_ok_def wired_def pushers_def inputs_first_def dom_def)

lemma plan_acyclic:
  assumes "plan_ok n out g"
  shows "wf (edges (pg_next g))"
proof (rule finite_acyclic_wf)
  let ?E = "edges (pg_next g)" let ?L = "length (pg_nodes g)"
  have "?E \<subseteq> {..<?L} \<times> {..<?L}" using assms by (auto simp: plan_ok_def edges_def ran_def dom_def)
  then show "finite ?E" by (rule finite_subset) simp
  have det: "(x, y) \<in> ?E \<Longrightarrow> (x, z) \<in> ?E \<Longrightarrow> y = z" for x y z by (simp add: edges_def)
  show "acyclic ?E"
  proof (rule ccontr)
    assume "\<not> acyclic ?E"
    then obtain a where a: "(a, a) \<in> ?E\<^sup>+" by (auto simp: acyclic_def)
    have "(x, a) \<in> ?E\<^sup>+" if "(a, x) \<in> ?E\<^sup>*" for x
      using that
    proof induction
      case (step x y)
      from step.IH obtain z where "(x, z) \<in> ?E" "(z, a) \<in> ?E\<^sup>*" by (meson tranclD)
      then have "(y, a) \<in> ?E\<^sup>*" using det step.hyps(2) by blast
      then show ?case using a by (rule rtrancl_trancl_trancl)
    qed (rule a)
    moreover have "(a, out) \<in> ?E\<^sup>*"
      using a assms by (auto simp: plan_ok_def edges_def dom_def dest!: tranclD)
    ultimately have "(out, a) \<in> ?E\<^sup>+" by blast
    then show False using assms by (auto simp: plan_ok_def edges_def dest!: tranclD)
  qed
qed

section \<open>Every operator is finished\<close>

definition passed :: "'p plan_graph \<Rightarrow> finish_state \<Rightarrow> nat \<Rightarrow> bool" where
  "passed g s a \<longleftrightarrow> expected (pg_nodes g ! a) \<le> fn_calls s a"

definition finish_inv :: "nat \<Rightarrow> 'p plan_graph \<Rightarrow> nat \<Rightarrow> finish_state \<Rightarrow> bool" where
  "finish_inv n g k s \<longleftrightarrow> \<not> fn_failed s \<and> (\<forall>b. length (pg_nodes g) \<le> b \<longrightarrow> fn_pending s b = 0) \<and>
     (\<forall>b < length (pg_nodes g). fn_pending s b + fn_calls s b = card {a \<in> pushers g b. passed g s a} + (if b < n then 1 else 0)) \<and>
     (\<forall>b < length (pg_nodes g). synchronizes (pg_nodes g ! b) \<longrightarrow> fn_running s b = int (fan_in (pg_nodes g ! b)) - int (fn_calls s b)) \<and>
     k = (\<Sum>b < length (pg_nodes g). fn_calls s b)"

lemma finite_pushers: "plan_ok n out g \<Longrightarrow> finite (pushers g b)"
  by (rule finite_subset [of _ "{..<length (pg_nodes g)}"]) (auto simp: plan_ok_def pushers_def)

lemma finish_inv_bound:
  assumes "plan_ok n out g" "finish_inv n g k s" "b < length (pg_nodes g)"
  shows "fn_pending s b + fn_calls s b \<le> expected (pg_nodes g ! b)"
proof -
  have "card {a \<in> pushers g b. passed g s a} \<le> card (pushers g b)"
    by (rule card_mono [OF finite_pushers [OF assms(1)]]) auto
  then show ?thesis
    using assms by (auto simp: finish_inv_def plan_ok_def inputs_first_def expected_def split: if_splits)
qed

text \<open>The call of an operator passes on exactly if it is the last one that the operator expects.\<close>

lemma call_Finish_eq:
  assumes ok: "plan_ok n out g" and inv: "finish_inv n g k s" and a: "a < length (pg_nodes g)" "0 < fn_pending s a"
  shows "call_Finish g a s = (let s1 = s\<lparr>fn_pending := (fn_pending s)(a := fn_pending s a - 1), fn_calls := (fn_calls s)(a := fn_calls s a + 1),
      fn_running := if synchronizes (pg_nodes g ! a) then (fn_running s)(a := fn_running s a - 1) else fn_running s\<rparr>
    in if fn_calls s a + 1 = expected (pg_nodes g ! a)
       then (case pg_next g a of None \<Rightarrow> s1 | Some b \<Rightarrow> s1\<lparr>fn_pending := (fn_pending s1)(b := fn_pending s1 b + 1)\<rparr>)
       else s1)"
proof -
  have le: "fn_calls s a + 1 \<le> expected (pg_nodes g ! a)" using finish_inv_bound [OF ok inv a(1)] a(2) by linarith
  have out: "pg_nodes g ! a = Op_Output" if "pg_next g a = None"
  proof -
    have "(a, out) \<in> (edges (pg_next g))\<^sup>*" using ok a(1) by (simp add: plan_ok_def)
    then show ?thesis using that ok by (cases rule: converse_rtranclE) (auto simp: plan_ok_def edges_def)
  qed
  show ?thesis
  proof (cases "synchronizes (pg_nodes g ! a)")
    case True
    have "\<not> a < n"
    proof
      assume "a < n"
      then have "pg_nodes g ! a = noopOperator" using ok a(1) by (simp add: plan_ok_def inputs_first_def)
      then show False using True by simp
    qed
    moreover have "fn_running s a = int (fan_in (pg_nodes g ! a)) - int (fn_calls s a)"
      using inv a(1) True by (auto simp: finish_inv_def)
    moreover have "fan_in (pg_nodes g ! a) = expected (pg_nodes g ! a)"
      using ok a(1) \<open>\<not> a < n\<close> by (auto simp: plan_ok_def inputs_first_def expected_def)
    ultimately show ?thesis using True le out
      by (auto simp: call_Finish_def barrier_call_def finish_next_def Let_def split: option.splits)
  next
    case False
    then have "fan_in (pg_nodes g ! a) \<le> 1" by (cases "pg_nodes g ! a") auto
    then have "expected (pg_nodes g ! a) = 1" by (simp add: expected_def)
    then show ?thesis using False le out by (auto simp: call_Finish_def finish_next_def Let_def split: option.splits)
  qed
qed

lemma passed_after:
  assumes ok: "plan_ok n out g" and inv: "finish_inv n g k s" and a: "a < length (pg_nodes g)" "0 < fn_pending s a"
    and s': "fn_calls s' = (fn_calls s)(a := fn_calls s a + 1)"
  shows "card {x \<in> pushers g b. passed g s' x} = card {x \<in> pushers g b. passed g s x} +
    (if fn_calls s a + 1 = expected (pg_nodes g ! a) \<and> pg_next g a = Some b then 1 else 0)"
proof -
  have le: "fn_calls s a + 1 \<le> expected (pg_nodes g ! a)" using finish_inv_bound [OF ok inv a(1)] a(2) by linarith
  let ?last = "fn_calls s a + 1 = expected (pg_nodes g ! a) \<and> pg_next g a = Some b"
  have eq: "{x \<in> pushers g b. passed g s' x} = {x \<in> pushers g b. passed g s x} \<union> (if ?last then {a} else {})"
    using le s' by (auto simp: passed_def pushers_def)
  have "finite {x \<in> pushers g b. passed g s x}" using finite_pushers [OF ok] by simp
  moreover have "a \<notin> {x \<in> pushers g b. passed g s x}" using le by (simp add: passed_def)
  ultimately show ?thesis unfolding eq by simp
qed

lemma call_Finish_inv:
  assumes ok: "plan_ok n out g" and inv: "finish_inv n g k s" and a: "a < length (pg_nodes g)" "0 < fn_pending s a"
  shows "finish_inv n g (Suc k) (call_Finish g a s)"
proof -
  let ?L = "length (pg_nodes g)" let ?s' = "call_Finish g a s"
  let ?last = "fn_calls s a + 1 = expected (pg_nodes g ! a)"
  note eq = call_Finish_eq [OF ok inv a]
  have calls: "fn_calls ?s' = (fn_calls s)(a := fn_calls s a + 1)" and failed: "fn_failed ?s' = fn_failed s"
    and running: "fn_running ?s' = (if synchronizes (pg_nodes g ! a) then (fn_running s)(a := fn_running s a - 1) else fn_running s)"
    unfolding eq by (simp_all add: Let_def split: option.splits)
  have loop: "pg_next g a \<noteq> Some a" using wf_not_refl [OF plan_acyclic [OF ok], of a] by (simp add: edges_def)
  have pending: "fn_pending ?s' b = (if b = a then fn_pending s a - 1 else fn_pending s b) + (if ?last \<and> pg_next g a = Some b then 1 else 0)" for b
    unfolding eq using loop by (auto simp: Let_def split: option.splits)
  have next_low: "pg_next g a = Some b \<Longrightarrow> b < ?L" for b using ok by (auto simp: plan_ok_def ran_def)
  have "fn_pending ?s' b + fn_calls ?s' b = card {x \<in> pushers g b. passed g ?s' x} + (if b < n then 1 else 0)" if "b < ?L" for b
    using inv that a loop unfolding passed_after [OF ok inv a calls] pending calls by (auto simp: finish_inv_def)
  moreover have "fn_pending ?s' b = 0" if "?L \<le> b" for b
    using inv that a(1) next_low [of b] unfolding pending by (auto simp: finish_inv_def)
  moreover have "synchronizes (pg_nodes g ! b) \<longrightarrow> fn_running ?s' b = int (fan_in (pg_nodes g ! b)) - int (fn_calls ?s' b)" if "b < ?L" for b
    using inv that unfolding running calls by (auto simp: finish_inv_def)
  moreover have "Suc k = (\<Sum>b < ?L. fn_calls ?s' b)"
  proof -
    have "(\<Sum>b < ?L. fn_calls ?s' b) = (\<Sum>b < ?L. fn_calls s b + (if b = a then 1 else 0))"
      unfolding calls by (rule sum.cong) auto
    then show ?thesis using inv a(1) by (simp add: finish_inv_def sum.distrib)
  qed
  ultimately show ?thesis using inv failed by (simp add: finish_inv_def)
qed

lemma finish_run_inv:
  assumes ok: "plan_ok n out g" and run: "finish_run g [0..<n] k s"
  shows "finish_inv n g k s"
  using run
proof induction
  case start
  have "expected op \<noteq> 0" for op by (simp add: expected_def)
  then have none: "{a \<in> pushers g b. passed g (start_finish g [0..<n]) a} = {}" for b by (simp add: passed_def start_finish_def)
  show ?case using ok unfolding finish_inv_def none by (auto simp: start_finish_def plan_ok_def inputs_first_def)
next
  case (call k s a)
  have "\<not> length (pg_nodes g) \<le> a" using call by (auto simp: finish_inv_def)
  then have "a < length (pg_nodes g)" by simp
  then show ?case using call_Finish_inv [OF ok call.IH] call.hyps by blast
qed

text \<open>When no call is due any more, every operator has got all the calls it expects.\<close>

lemma finish_complete:
  assumes ok: "plan_ok n out g" and inv: "finish_inv n g k s" and idle: "\<And>a. fn_pending s a = 0" and b: "b < length (pg_nodes g)"
  shows "fn_calls s b = expected (pg_nodes g ! b)"
  using plan_acyclic [OF ok] b
proof (induction b rule: wf_induct_rule)
  case (less b)
  have "x < length (pg_nodes g)" if "x \<in> pushers g b" for x using that ok by (auto simp: plan_ok_def pushers_def)
  then have "{x \<in> pushers g b. passed g s x} = pushers g b" using less.IH by (auto simp: passed_def pushers_def edges_def)
  then have "fn_calls s b = fan_in (pg_nodes g ! b) + (if b < n then 1 else 0)"
    using inv less.prems idle ok by (simp add: finish_inv_def plan_ok_def)
  then show ?case using ok less.prems by (auto simp: plan_ok_def inputs_first_def expected_def split: if_splits)
qed

text \<open>Finishing a plan. Whatever the order in which the inputs of a plan made by \<open>Build\<close> finish: no synchronizer
  is called too often and no operator without a next one passes the call on; the run ends, since the number of calls is bounded;
  and as long as some operator, the output among them, has not got all the calls it expects, another call is due. At the end every
  operator but the synchronizers has been finished once, and each synchronizer once by each of its inputs.\<close>

lemma finish_once:
  assumes "physical_Build env penv n opts sch plan = Inr (out, g)" "bottom_scan plan" "0 < n" "eo_overrideInput opts = None"
    and "finish_run g [0..<n] k s"
  shows "\<not> fn_failed s \<and> (\<forall>b < length (pg_nodes g). fn_calls s b \<le> expected (pg_nodes g ! b)) \<and>
    k \<le> (\<Sum>b < length (pg_nodes g). expected (pg_nodes g ! b)) \<and>
    ((\<exists>a. 0 < fn_pending s a) \<or> (\<forall>b < length (pg_nodes g). fn_calls s b = expected (pg_nodes g ! b)))"
proof -
  note ok = Build_plan_ok [OF assms(1-4)]
  note inv = finish_run_inv [OF ok assms(5)]
  have le: "fn_calls s b \<le> expected (pg_nodes g ! b)" if "b < length (pg_nodes g)" for b
    using finish_inv_bound [OF ok inv that] by simp
  then have "k \<le> (\<Sum>b < length (pg_nodes g). expected (pg_nodes g ! b))"
    using inv by (auto simp: finish_inv_def intro: sum_mono)
  then show ?thesis using inv le finish_complete [OF ok inv] by (auto simp: finish_inv_def)
qed

text \<open>A schedule of calls, each of which has to be due.\<close>

fun run_schedule :: "'p plan_graph \<Rightarrow> nat list \<Rightarrow> finish_state \<Rightarrow> finish_state option" where
  "run_schedule g [] s = Some s"
| "run_schedule g (a # as) s = (if 0 < fn_pending s a then run_schedule g as (call_Finish g a s) else None)"

lemma run_schedule_run: "finish_run g plans k s \<Longrightarrow> run_schedule g as s = Some s' \<Longrightarrow> finish_run g plans (k + length as) s'"
proof (induction as arbitrary: k s)
  case (Cons a as)
  then show ?case using Cons.IH [of "Suc k" "call_Finish g a s"] by (auto simp: finish_run.call split: if_splits)
qed simp

end
