(* ===== verification/Query_Engine.thy ===== *)
theory Query_Engine
  imports Plan_Finish Plan_Optimize
begin

text \<open>
  The query engine (\<open>query/engine.go\<close>): a query is built step by step on top of a scan, validated, optimized and
  turned into a physical plan. Reading an option that is not set gives its default; the table provider,
  its schemas and the room in the slices of the average optimizer are parameters.
\<close>

section \<open>Building queries\<close>

record 'p LocalEngine =
  le_tableProvider :: 'p
  le_execOpts :: execOptions

record 'p LocalQueryBuilder =
  qb_planBuilder :: "'p Builder"
  qb_execOpts :: execOptions

definition ScanTable :: "'p LocalEngine \<Rightarrow> string \<Rightarrow> 'p LocalQueryBuilder" where
  "ScanTable e name = \<lparr>qb_planBuilder = Builder_Scan (le_tableProvider e) name, qb_execOpts = le_execOpts e\<rparr>"

definition engine_ScanSchema :: "'p LocalEngine \<Rightarrow> string \<Rightarrow> 'p LocalQueryBuilder" where
  "engine_ScanSchema e name = \<lparr>qb_planBuilder = ScanSchema (le_tableProvider e) name, qb_execOpts = le_execOpts e\<rparr>"

definition query_Aggregate :: "Expr list \<Rightarrow> Expr list \<Rightarrow> 'p LocalQueryBuilder \<Rightarrow> 'p LocalQueryBuilder" where
  "query_Aggregate aggExpr groupExprs b = b\<lparr>qb_planBuilder := Builder_Aggregate (qb_planBuilder b) aggExpr groupExprs\<rparr>"

definition query_Filter :: "Expr option \<Rightarrow> 'p LocalQueryBuilder \<Rightarrow> 'p LocalQueryBuilder" where
  "query_Filter expr b = b\<lparr>qb_planBuilder := Builder_Filter (qb_planBuilder b) expr\<rparr>"

definition query_Distinct :: "Expr list \<Rightarrow> 'p LocalQueryBuilder \<Rightarrow> 'p LocalQueryBuilder" where
  "query_Distinct exprs b = b\<lparr>qb_planBuilder := Builder_Distinct (qb_planBuilder b) exprs\<rparr>"

definition query_Project :: "Expr list \<Rightarrow> 'p LocalQueryBuilder \<Rightarrow> 'p LocalQueryBuilder" where
  "query_Project exprs b = b\<lparr>qb_planBuilder := Builder_Project (qb_planBuilder b) exprs\<rparr>"

text \<open>The queries that can be built.\<close>

inductive query :: "'p LocalEngine \<Rightarrow> 'p LocalQueryBuilder \<Rightarrow> bool" for e where
  table: "query e (ScanTable e name)"
| schema: "query e (engine_ScanSchema e name)"
| aggregate: "query e b \<Longrightarrow> query e (query_Aggregate aggs groups b)"
| filter: "query e b \<Longrightarrow> query e (query_Filter expr b)"
| distinct: "query e b \<Longrightarrow> query e (query_Distinct exprs b)"
| project: "query e b \<Longrightarrow> query e (query_Project exprs b)"

section \<open>Physical plans of queries\<close>

datatype 'p engine_error = QE_Validation "'p PlanValidationError" | QE_Plan plan_error | QE_Panic

record 'p engine_env =
  ee_schema_of :: "'p \<Rightarrow> string \<Rightarrow> Schema option"
  ee_agg :: agg_env
  ee_proj :: proj_env
  ee_spare :: bool
  ee_concurrency :: nat

text \<open>A plan without steps and a plan that an optimizer made nil are nil pointers.\<close>

definition buildPhysical :: "'p engine_env \<Rightarrow> 'p LocalQueryBuilder \<Rightarrow> ('p engine_error, nat \<times> 'p plan_graph) result" where
  "buildPhysical ee b =
     (case qb_planBuilder b of
        None \<Rightarrow> Inl QE_Panic
      | Some logical \<Rightarrow>
          (case Build (ee_schema_of ee) logical of
             Inl e \<Rightarrow> Inl (QE_Validation e)
           | Inr plan \<Rightarrow>
               (case optimize_default (ae_str (ee_agg ee)) (ee_spare ee) plan of
                  Some (Some plan') \<Rightarrow>
                    (case physical_Build (ee_agg ee) (ee_proj ee) (ee_concurrency ee) (qb_execOpts b)
                            (InputSchema (ee_schema_of ee) plan') plan' of
                       Inl e \<Rightarrow> Inl (QE_Plan e)
                     | Inr r \<Rightarrow> Inr r)
                | _ \<Rightarrow> Inl QE_Panic)))"

section \<open>Optimizers keep the scan at the bottom\<close>

lemma bottom_scan_Some [simp]: "bottom_scan (LogicalPlan (Some i) None None f d p a) = bottom_scan i"
  by simp

lemma average_loop_bottom:
  "bottom_scan plan \<Longrightarrow> average_loop spare is (arr, plan) = Some plan' \<Longrightarrow> bottom_scan plan'"
proof (induction "is" arbitrary: arr plan)
  case (Cons i "is")
  obtain inp ss ts f d p a where plan: "plan = LogicalPlan inp ss ts f d p a" by (cases plan)
  obtain arr' plan'' where step: "average_step spare i (arr, plan) = Some (arr', plan'')" "average_loop spare is (arr', plan'') = Some plan'"
    using Cons.prems(2) by (auto split: option.splits)
  have "bottom_scan plan''" using step(1) Cons.prems(1) plan by (auto simp: Let_def split: option.splits)
  then show ?case using Cons.IH step(2) by blast
qed simp

lemma AverageAggregationPushDown_bottom:
  "bottom_scan plan \<Longrightarrow> AverageAggregationPushDown spare plan = Some plan' \<Longrightarrow> bottom_scan plan'"
  using average_loop_bottom by (auto simp: AverageAggregationPushDown_def split: option.splits)

lemma physical_optimize_bottom: "bottom_scan plan \<Longrightarrow> bottom_scan (physical_optimize plan defaults used)"
  by (induction plan defaults used rule: physical_optimize.induct) (auto simp: Let_def split: option.splits)

lemma filter_optimize_bottom: "bottom_scan plan \<Longrightarrow> bottom_scan (filter_optimize plan exprs)"
  by (induction plan exprs rule: filter_optimize.induct) (auto simp: Let_def split: option.splits)

lemma distinct_optimize_bottom: "bottom_scan plan \<Longrightarrow> bottom_scan (distinct_optimize plan cols)"
  by (induction plan cols rule: distinct_optimize.induct) (auto simp: Let_def split: option.splits)

lemma removeProjection_bottom: "bottom_scan plan \<Longrightarrow> \<exists>plan'. removeProjection plan = Some plan' \<and> bottom_scan plan'"
proof (induction plan)
  case (LogicalPlan inp ss ts f d p a)
  show ?case
  proof (cases inp)
    case None
    then show ?thesis using LogicalPlan.prems by auto
  next
    case (Some i)
    then have i: "bottom_scan i" "ss = None" "ts = None" using LogicalPlan.prems by auto
    obtain i' where "removeProjection i = Some i'" "bottom_scan i'" using LogicalPlan.IH [OF _ i(1)] Some by auto
    then show ?thesis using Some i by auto
  qed
qed

lemma insertProjection_bottom: "bottom_scan plan \<Longrightarrow> bottom_scan (insertProjection projection plan)"
  by (induction projection plan rule: insertProjection.induct) (auto split: option.splits)

lemma optimize_default_bottom:
  assumes "bottom_scan plan" "optimize_default str spare plan = Some (Some plan')"
  shows "bottom_scan plan'"
proof -
  obtain p1 where p1: "AverageAggregationPushDown spare plan = Some p1"
      "ProjectionPushDown str (DistinctPushDown (FilterPushDown (PhysicalProjectionPushDown p1))) = Some (Some plan')"
    using assms(2) by (auto simp: optimize_default_def split: option.splits)
  have "bottom_scan (DistinctPushDown (FilterPushDown (PhysicalProjectionPushDown p1)))"
    using AverageAggregationPushDown_bottom [OF assms(1) p1(1)]
    by (simp add: DistinctPushDown_def FilterPushDown_def PhysicalProjectionPushDown_def
        physical_optimize_bottom filter_optimize_bottom distinct_optimize_bottom)
  then show ?thesis
    using p1(2) removeProjection_bottom insertProjection_bottom
    by (fastforce simp: ProjectionPushDown_def split: option.splits bool.splits if_splits)
qed

lemma query_bottom: "query e b \<Longrightarrow> \<exists>plan. qb_planBuilder b = Some plan \<and> bottom_scan plan"
  by (induction rule: query.induct)
    (auto simp: ScanTable_def engine_ScanSchema_def query_Aggregate_def query_Filter_def query_Distinct_def query_Project_def
      Builder_Scan_def ScanSchema_def Builder_Aggregate_def Builder_Filter_def Builder_Distinct_def Builder_Project_def split: option.splits)

lemma query_execOpts: "query e b \<Longrightarrow> qb_execOpts b = le_execOpts e"
  by (induction rule: query.induct)
    (auto simp: ScanTable_def engine_ScanSchema_def query_Aggregate_def query_Filter_def query_Distinct_def query_Project_def)

text \<open>C40: Every query that the engine can build and plan is finished properly. Whatever the order in which the
  parallel inputs of its scan finish, no synchronizer is called too often, no call of \<open>Finish\<close> ends at an operator other than the
  output, and the number of calls is bounded; as long as some operator has not got all the calls it expects, another
  call is due. So at the end every operator, the output too, has been finished once, and each synchronizer once by each of its inputs.\<close>

theorem query_finishes:
  assumes "query e b" "buildPhysical ee b = Inr (out, g)" "0 < ee_concurrency ee" "eo_overrideInput (le_execOpts e) = None"
    and "finish_run g [0..<ee_concurrency ee] k s"
  shows "pg_nodes g ! out = Op_Output \<and> \<not> fn_failed s \<and>
    (\<forall>b < length (pg_nodes g). fn_calls s b \<le> expected (pg_nodes g ! b)) \<and>
    k \<le> (\<Sum>b < length (pg_nodes g). expected (pg_nodes g ! b)) \<and>
    ((\<exists>a. 0 < fn_pending s a) \<or> (\<forall>b < length (pg_nodes g). fn_calls s b = expected (pg_nodes g ! b)))"
proof -
  obtain logical where l: "qb_planBuilder b = Some logical" "bottom_scan logical" using query_bottom [OF assms(1)] by blast
  obtain plan plan' where p: "Build (ee_schema_of ee) logical = Inr plan"
      "optimize_default (ae_str (ee_agg ee)) (ee_spare ee) plan = Some (Some plan')"
      "physical_Build (ee_agg ee) (ee_proj ee) (ee_concurrency ee) (qb_execOpts b) (InputSchema (ee_schema_of ee) plan') plan' = Inr (out, g)"
    using assms(2) by (auto simp: buildPhysical_def l(1) split: sum.splits option.splits)
  have "plan = logical" using p(1) by (auto simp: Build_def split: option.splits)
  then have "bottom_scan plan'" using optimize_default_bottom [OF _ p(2)] l(2) by simp
  moreover have "eo_overrideInput (qb_execOpts b) = None" using assms(1,4) query_execOpts by metis
  ultimately show ?thesis
    using finish_once [OF p(3) _ assms(3) _ assms(5)] Build_graph(4) [OF p(3) _ assms(3)] by simp
qed

definition demo_engine :: "unit LocalEngine" where
  "demo_engine = \<lparr>le_tableProvider = (), le_execOpts = no_options\<rparr>"

definition demo_query :: "unit LocalQueryBuilder" where
  "demo_query = query_Aggregate [AggregationFunction AggFuncSum (Column ''v'')] [Column ''k'']
     (query_Filter (Some (BinaryExpr (Column ''v'') OpGt (LiteralExpr (S_Int64 1)))) (ScanTable demo_engine ''t''))"

definition demo_ee :: "unit engine_env" where
  "demo_ee = \<lparr>ee_schema_of = (\<lambda>_ _. None), ee_agg = demo_env, ee_proj = plain_env, ee_spare = False, ee_concurrency = 2\<rparr>"

theorem query_finishes_witness:
  "\<exists>out g s. buildPhysical demo_ee demo_query = Inr (out, g) \<and> finish_run g [0..<2] 10 s \<and>
     \<not> fn_failed s \<and> fn_calls s out = 1 \<and> 10 \<le> (\<Sum>b < length (pg_nodes g). expected (pg_nodes g ! b))"
proof -
  have "case buildPhysical demo_ee demo_query of Inl _ \<Rightarrow> False
      | Inr (out, g) \<Rightarrow>
          (case run_schedule g [1, 3, 0, 6, 4, 2, 5, 4, 7, 8] (start_finish g [0..<2]) of None \<Rightarrow> False | Some s \<Rightarrow> fn_calls s out = 1)"
    by code_simp
  then obtain out g s where b: "buildPhysical demo_ee demo_query = Inr (out, g)"
      and r: "run_schedule g [1, 3, 0, 6, 4, 2, 5, 4, 7, 8] (start_finish g [0..<2]) = Some s" and c: "fn_calls s out = 1"
    by (auto split: sum.splits option.splits)
  have n: "ee_concurrency demo_ee = 2" "eo_overrideInput (le_execOpts demo_engine) = None" by code_simp+
  have run: "finish_run g [0..<ee_concurrency demo_ee] 10 s"
    using run_schedule_run [OF finish_run.start r] n(1) by (simp add: eval_nat_numeral)
  have q: "query demo_engine demo_query" unfolding demo_query_def by (intro query.aggregate query.filter query.table)
  have "0 < ee_concurrency demo_ee" using n(1) by simp
  from query_finishes [OF q b this n(2) run] show ?thesis using b run c n(1) by auto
qed

end
