(* ===== verification/Spec2Isabelle.thy ===== *)
theory Spec2Isabelle
  imports Tx_Pool_Inv Wal Table_Compaction Plan_Optimize Ordered_Sync Group_Ranges Binary_Builder
    Hash_Stages Ordered_Correct Query_Engine
begin

text \<open>
  A verification library for FrostDB, an embeddable column store with dynamic columns.

  \<^bold>\<open>The program.\<close> A write takes a transaction number from the database (\<open>db.go\<close>,
  \<open>tx_list.go\<close>), goes to the write-ahead log (\<open>wal/wal.go\<close>) and is added as a part
  (\<open>parts/\<close>) to the first level of the index of the active table block (\<open>index/lsm.go\<close>). When
  a level is too large the index asks the table to compact its parts into one of the next level
  (\<open>table.go\<close>), for which rows of different schemas (\<open>dynparquet/\<close>) are merged. A query is a
  logical plan (\<open>query/logicalplan/\<close>) that is validated, optimized and turned into physical
  operators (\<open>query/physicalplan/\<close>): scans skip row groups by their statistics
  (\<open>query/expr/\<close>), filters select rows of Arrow records, aggregations run on every input and are
  combined after a synchronizer. Operators build their results with the column builders of
  \<open>pqarrow/builder/\<close> and merge sorted records with \<open>pqarrow/arrowutils/\<close>.

  \<^bold>\<open>Conventions.\<close> A struct is a record, an interface or tagged value a datatype, an error a
  value of a sum type, a panic a constructor of the error type or \<open>None\<close>. Transaction numbers and
  hashes are 64-bit words. Code of other packages (the Parquet and Arrow libraries, the log store,
  hash functions, regular expressions, the sums of Arrow's \<open>math\<close> package) is a parameter of the
  definitions that call it. Code that runs concurrently is a step relation in which every access to
  shared memory is a step; a theorem about it holds for all interleavings.

  \<^bold>\<open>Shared theories.\<close> \<open>Frost_Prelude\<close> has the types, the collections of simplification
  rules, the generic lemmas and the locale \<open>cmp_order\<close> of three-way comparisons. \<open>Go_Heap\<close>
  models \<open>container/heap\<close>, with the locale \<open>heap_order\<close> of its users: the log queue, the heap of
  cursors and the heap of row numbers are its interpretations.

  \<^bold>\<open>Transactions.\<close> \<open>Tx_Pool\<close> models \<open>TxPool\<close>, \<open>DB.begin\<close> and the commit function as
  atomic steps on a heap of nodes; \<open>Tx_Pool_Inv\<close> proves the invariant. Shown: the watermark only
  passes finished transactions, never goes back, and is maximal once everything is quiet; no finished
  transaction is lost; the pool is sorted and its cleaner never follows a nil pointer.

  \<^bold>\<open>Write-ahead log.\<close> \<open>Wal\<close> models the queue, the batches, \<open>run\<close>, \<open>Truncate\<close>,
  \<open>Reset\<close>, \<open>Close\<close> and \<open>Replay\<close> of \<open>FileWAL\<close>. Shown: entries are stored in order and every
  request is accounted for; a batch is maximal; replay ends, hands over every record once and cuts a
  corrupted log back.

  \<^bold>\<open>Dynamic columns.\<close> \<open>Dynamic_Columns\<close> (serialized names and their union), \<open>Dyn_Schema\<close>
  (schemas, Parquet schemas, merged row groups and their nil chunks) and \<open>Dyn_Row\<close> (comparison of
  rows with different columns). Shown: the round trip of the names, exactness of the union, the right
  chunk or nulls at every merged column, and that the comparison is a total preorder that never panics.

  \<^bold>\<open>Parts and index.\<close> \<open>Parts\<close> (parts and the greedy choice of non-overlapping ones),
  \<open>LSM_Index\<close> and \<open>LSM_Inv\<close> (the list of levels under concurrent writers, one compaction and a
  scan; the locale \<open>compaction\<close> is what the index asks of a compaction function),
  \<open>Table_Compaction\<close> (the row group writer, the compaction of a table and the level files, an
  interpretation of \<open>compaction\<close>). Shown: a scan sees every visible row once, rows and sizes are kept, a
  compacted part has the rows of its inputs, row groups have at most the configured size, the sections of a level file
  are disjoint.

  \<^bold>\<open>Queries.\<close> \<open>Logical_Expr\<close>, \<open>Logical_Plan\<close> and \<open>Plan_Optimize\<close> model
  expressions with their visitor, plans with builder and validation, and the five optimizers;
  \<open>Row_Filter\<close> and \<open>Prune_Sound\<close> the filter on statistics; \<open>Pred_Filter\<close> the filter on records.
  Shown: which plans are accepted, that pushing filters down changes no result of a plan in which they are all directly above the
  scan, that pushing a projection down changes no filter, that skipping row groups loses no row, and that the vectorised filter selects
  the rows of a row-wise evaluation. Skipping row groups is wrong for equalities on missing columns, \<open>!=\<close> on columns
  of nulls and pages of nulls behind pages with values; the theorems exclude these by name and lemmas show each of them.

  \<^bold>\<open>Aggregation.\<close> \<open>Column_Hash\<close> models the hashes of columns, \<open>Hash_Aggregate\<close> the hash
  aggregation, \<open>Distinct_Op\<close> the distinct operator, \<open>Physical_Plan\<close> what the planner knows of the
  order of rows. \<open>Hash_Groups\<close> proves the aggregation equal to a reference that collects the rows of
  every hash, \<open>Hash_Stages\<close> that two stages compute what one does, \<open>Distinct_Op\<close> that exactly
  the first row of every hash is passed on, \<open>Physical_Plan\<close> that an ordered aggregation is planned only
  on rows in the order of its groups. Equal keys are equal hashes: collisions of the hash functions are
  collisions of groups in the code too. \<open>Ordered_Aggregate\<close> models the
  aggregation of rows that arrive in ordered sets, with the memory that the carried values share with their builder; its examples
  show the merge of ordered sets and that carried values can be overwritten before they are aggregated. \<open>Ordered_Runs\<close>
  is its specification, the maximal runs of equal keys split into ordered sets; \<open>Ordered_Groups\<close>,
  \<open>Ordered_Results\<close> and \<open>Ordered_Scan\<close> prove that the operator represents these runs after every record (the loop over
  the groups, the results, the columns of a record), \<open>Ordered_Finish\<close> follows the end of the input and the merge, and
  \<open>Ordered_Correct\<close> concludes that every key gets one row with the aggregate of all its values. It does so for keys without empty
  byte strings, which the operator confuses with nil, and for one record or for the counts of a first stage over
  any number of records: what is carried from one record to the
  next can be overwritten, and only the number of the values is sure to be intact.

  \<^bold>\<open>Plans and queries.\<close> \<open>Project_Op\<close> models the projection operator with its arithmetic, boolean
  and alias projections, \<open>Plan_Build\<close> the planner as a function from a logical plan to a graph of
  operators, \<open>Plan_Finish\<close> the synchronizer's barrier and the calls of \<open>Finish\<close>
  through such a graph as a step relation, \<open>Query_Engine\<close> the query builder and \<open>Execute\<close>. Shown: the
  columns of a projection have the types its expressions have for the fields of the input, every operator of a
  built plan leads to the output and is pushed to by as many operators as it waits for, and in every query that
  can be planned, whatever the order in which the inputs finish, every operator is finished once.

  \<^bold>\<open>Records.\<close> \<open>Column_Builder\<close> and \<open>Record_Merge\<close> (builders by type and the merge of
  sorted records), \<open>Group_Ranges\<close> (boundaries of groups and of ordered runs), \<open>Ordered_Sync\<close>
  (the synchronizer that merges records of parallel inputs, as a step relation), \<open>Opt_Builders\<close> and
  \<open>Binary_Builder\<close> (the optimized builders, interpretations of the locale \<open>column_builder\<close>). Shown: merged
  records are sorted and complete, group boundaries are exact, the synchronizer takes one record of every
  running input and does not deadlock, the buffers implement lists of optional values.

  \<^bold>\<open>Bounds and loops.\<close> Loops are structural recursion or have a measure; the replay loop and the
  batch loop recurse on the number of records left. Sizes of binary arrays are bounded by \<open>MaxInt32\<close>
  as in the code, and theorems that need room say so. Counts are natural numbers where the code cannot
  reach the bound of its integer type.

  \<^bold>\<open>Not modelled.\<close> Conversion between Parquet pages and Arrow arrays, snapshots, the stores of
  blocks, opening and closing databases and the rotation of blocks: they are mostly calls of file systems and
  third-party formats. The
  sorting of records and the drawing of plans. The SQL front end, the test runner and the command line tools. Tracing,
  metrics, reference counts and memory accounting are left out everywhere.
\<close>

end
